(* ===== verification/Prelude.thy ===== *)
theory Prelude
  imports Complex_Main "HOL-Library.Signed_Division"
begin

text \<open>
  Shared vocabulary of the development: the error codes and the fallible result type of
  \<open>compiler/include/mlk/core/result.h\<close>, the propagation macros of that header as
  \<open>mlk_try\<close>, loops over a container that stop at the first failure, the 64-bit integer
  range, and the linear forms that affine expressions, constraint rows and schedule rows
  are all made of.

  A C++ \<open>int64_t\<close> is an \<open>int\<close>; \<open>in_i64\<close> is its range. Where the source computes through
  an overflow-checking primitive, the model tests the exact result against that range. Where
  it computes with a plain operator, leaving the range is undefined behaviour in C++: the model
  then returns the failure \<open>UndefinedBehaviour\<close>, which no error code of the source equals, so
  a theorem about a successful result never speaks about such a run. A function that has no
  fallible result wraps instead (\<open>wrap64\<close>). Indexing past the end of a container is undefined
  in C++ and the unspecified \<open>xs ! i\<close> here; the well-formedness invariants exclude it.
  Messages and rule numbers of an \<open>Error\<close> are diagnostics no code branches on and are left out.
\<close>

section \<open>Results\<close>

datatype error_code =
    Ok | InvalidArgument | InvalidGraph | InvalidArtifact | UnsupportedCapability
  | Unimplemented | BudgetExceeded | VerificationFailed | ProofInvalid | AccuracyViolation
  | EffectIllegal | CacheInvalid | ParseError | IoError | Cancelled | ResourceExhausted
  | Internal

datatype failure = Err error_code | UndefinedBehaviour

type_synonym 'a result = "failure + 'a"

named_theorems result_simps "inversion of successful and failing results"
named_theorems sem_simps "meaning of rows, systems and sets at a point"
named_theorems wf_intros "operations keep well-formedness"

definition mlk_try :: "'a result \<Rightarrow> ('a \<Rightarrow> 'b result) \<Rightarrow> 'b result" where
  "mlk_try r k = (case r of Inl e \<Rightarrow> Inl e | Inr x \<Rightarrow> k x)"

lemma mlk_try_simps [simp]:
  "mlk_try (Inl e) k = Inl e"
  "mlk_try (Inr x) k = k x"
  by (simp_all add: mlk_try_def)

lemma mlk_try_Inr_iff [result_simps]:
  "mlk_try r k = Inr y \<longleftrightarrow> (\<exists>x. r = Inr x \<and> k x = Inr y)"
  by (cases r) auto

lemma mlk_try_Inl_iff:
  "mlk_try r k = Inl e \<longleftrightarrow> r = Inl e \<or> (\<exists>x. r = Inr x \<and> k x = Inl e)"
  by (cases r) auto

lemma mlk_try_InrE [elim]:
  assumes "mlk_try r k = Inr y"
  obtains x where "r = Inr x" and "k x = Inr y"
  using assms by (auto simp: mlk_try_Inr_iff)

lemma mlk_try_cong [fundef_cong]:
  "r = r' \<Longrightarrow> (\<And>x. r' = Inr x \<Longrightarrow> k x = k' x) \<Longrightarrow> mlk_try r k = mlk_try r' k'"
  by (cases r') auto

text \<open>A loop that pushes one computed element per source element and stops at the first failure.\<close>

fun map_res :: "('a \<Rightarrow> 'b result) \<Rightarrow> 'a list \<Rightarrow> 'b list result" where
  "map_res f [] = Inr []"
| "map_res f (x # xs) = mlk_try (f x) (\<lambda>y. mlk_try (map_res f xs) (\<lambda>ys. Inr (y # ys)))"

text \<open>A loop that threads a state through a container and stops at the first failure.\<close>

fun fold_res :: "('a \<Rightarrow> 's \<Rightarrow> 's result) \<Rightarrow> 'a list \<Rightarrow> 's \<Rightarrow> 's result" where
  "fold_res f [] s = Inr s"
| "fold_res f (x # xs) s = mlk_try (f x s) (fold_res f xs)"

lemma map_res_Inr_iff [result_simps]:
  "map_res f xs = Inr ys \<longleftrightarrow> list_all2 (\<lambda>x y. f x = Inr y) xs ys"
  by (induction xs arbitrary: ys) (auto simp: mlk_try_Inr_iff list_all2_Cons1)

lemma list_all2_source: "list_all2 P xs ys \<Longrightarrow> y \<in> set ys \<Longrightarrow> \<exists>x \<in> set xs. P x y"
  by (induction rule: list_all2_induct) auto

lemma map_res_length: "map_res f xs = Inr ys \<Longrightarrow> length ys = length xs"
  by (simp add: map_res_Inr_iff list_all2_lengthD)

lemma map_res_total: "(\<And>x. x \<in> set xs \<Longrightarrow> f x = Inr (g x)) \<Longrightarrow> map_res f xs = Inr (map g xs)"
  by (induction xs) auto

lemma map_res_cong [fundef_cong]:
  "xs = ys \<Longrightarrow> (\<And>x. x \<in> set ys \<Longrightarrow> f x = g x) \<Longrightarrow> map_res f xs = map_res g ys"
  by (induction ys arbitrary: xs) auto

lemma fold_res_invariant:
  assumes "fold_res f xs s = Inr t" and "P s"
    and "\<And>x s t. x \<in> set xs \<Longrightarrow> P s \<Longrightarrow> f x s = Inr t \<Longrightarrow> P t"
  shows "P t"
  using assms by (induction xs arbitrary: s) (auto simp: mlk_try_Inr_iff)

lemma fold_res_visits:
  "fold_res f xs s = Inr t \<Longrightarrow> x \<in> set xs \<Longrightarrow> \<exists>u v. f x u = Inr v"
  by (induction xs arbitrary: s) (auto simp: mlk_try_Inr_iff)

lemma fold_res_append:
  "fold_res f (xs @ ys) s = mlk_try (fold_res f xs s) (fold_res f ys)"
  by (induction xs arbitrary: s) (auto simp: mlk_try_def split: sum.splits)

lemma fold_res_snoc_Inr [result_simps]:
  "fold_res f (xs @ [x]) s = Inr t \<longleftrightarrow> (\<exists>u. fold_res f xs s = Inr u \<and> f x u = Inr t)"
  by (auto simp: fold_res_append mlk_try_Inr_iff)

text \<open>Unchecked indexing by a value that comes from data.\<close>

definition vec_at :: "'a list \<Rightarrow> nat \<Rightarrow> 'a result" where
  "vec_at xs i = (if i < length xs then Inr (xs ! i) else Inl UndefinedBehaviour)"

lemma vec_at_Inr [result_simps]: "vec_at xs i = Inr x \<longleftrightarrow> i < length xs \<and> x = xs ! i"
  by (auto simp: vec_at_def)

text \<open>A caller that tests \<open>has_value()\<close>: a failure of the source becomes a value.\<close>

definition attempt :: "'a result \<Rightarrow> 'a option result" where
  "attempt r = (case r of Inl UndefinedBehaviour \<Rightarrow> Inl UndefinedBehaviour | Inl (Err _) \<Rightarrow> Inr None | Inr x \<Rightarrow> Inr (Some x))"

lemma attempt_Inr [result_simps]:
  "attempt r = Inr (Some x) \<longleftrightarrow> r = Inr x" "attempt r = Inr None \<longleftrightarrow> (\<exists>e. r = Inl (Err e))"
  by (auto simp: attempt_def split: sum.splits failure.splits)

lemma attempt_cases:
  assumes "attempt r = Inr v"
  obtains (found) x where "v = Some x" and "r = Inr x" | (failed) e where "v = None" and "r = Inl (Err e)"
  using assms by (cases v) (auto simp: attempt_Inr)

section \<open>64-bit integers\<close>

definition INT64_MIN :: int where "INT64_MIN = -9223372036854775808"
definition INT64_MAX :: int where "INT64_MAX = 9223372036854775807"

definition in_i64 :: "int \<Rightarrow> bool" where
  "in_i64 x \<longleftrightarrow> INT64_MIN \<le> x \<and> x \<le> INT64_MAX"

definition wrap64 :: "int \<Rightarrow> int" where
  "wrap64 x = (x + 9223372036854775808) mod 18446744073709551616 - 9223372036854775808"

text \<open>The value of a plain operator applied in a fallible function.\<close>

definition plain64 :: "int \<Rightarrow> int result" where
  "plain64 x = (if in_i64 x then Inr x else Inl UndefinedBehaviour)"

lemmas i64_defs = in_i64_def INT64_MIN_def INT64_MAX_def

lemma wrap64_id [simp]: "in_i64 x \<Longrightarrow> wrap64 x = x"
  by (simp add: wrap64_def i64_defs)

lemma wrap64_in_i64: "in_i64 (wrap64 x)"
proof -
  have "0 \<le> (x + 9223372036854775808) mod 18446744073709551616"
    "(x + 9223372036854775808) mod 18446744073709551616 < 18446744073709551616"
    by simp_all
  then show ?thesis unfolding i64_defs wrap64_def by linarith
qed

lemma plain64_Inr [result_simps]: "plain64 x = Inr y \<longleftrightarrow> y = x \<and> in_i64 x"
  by (auto simp: plain64_def)

section \<open>Linear forms\<close>

text \<open>
  \<open>lin cs x\<close> is the value of the form with dense integer coefficients \<open>cs\<close> at the valuation
  \<open>x\<close>. Valuations are functions, so that a point of any ordered ring (integers for the
  program's points, rationals for its relaxation) is one; \<open>pt\<close> turns the program's vectors
  into one. \<open>coeff_of\<close> is the source's dense read with a 0 default.
\<close>

definition coeff_of :: "int list \<Rightarrow> nat \<Rightarrow> int" where
  "coeff_of cs v = (if v < length cs then cs ! v else 0)"

definition lin :: "int list \<Rightarrow> (nat \<Rightarrow> 'a::linordered_idom) \<Rightarrow> 'a" where
  "lin cs x = (\<Sum>i<length cs. of_int (cs ! i) * x i)"

definition pt :: "int list \<Rightarrow> nat \<Rightarrow> 'a::linordered_idom" where
  "pt vs i = of_int (vs ! i)"

lemma lin_Nil [simp]: "lin [] x = 0"
  by (simp add: lin_def)

lemma lin_Cons: "lin (c # cs) x = of_int c * x 0 + lin cs (\<lambda>i. x (Suc i))"
  unfolding lin_def by (simp add: sum.lessThan_Suc_shift del: sum.lessThan_Suc)

lemma lin_snoc: "lin (cs @ [c]) x = lin cs x + of_int c * x (length cs)"
  by (simp add: lin_def nth_append)

lemma lin_append: "lin (xs @ ys) x = lin xs x + lin ys (\<lambda>i. x (length xs + i))"
  by (induction xs arbitrary: x) (simp_all add: lin_Cons)

lemma lin_append_zeros [simp]: "lin (cs @ replicate n 0) x = lin cs x"
  by (induction n) (simp_all add: lin_snoc replicate_append_same [symmetric]
      flip: append_assoc del: replicate_append_same)

lemma lin_replicate_zero [simp]: "lin (replicate n 0) x = 0"
  by (simp add: lin_def)

lemma lin_all_zero: "(\<And>c. c \<in> set cs \<Longrightarrow> c = 0) \<Longrightarrow> lin cs x = 0"
  unfolding lin_def by (rule sum.neutral) auto

lemma lin_cong: "(\<And>i. i < length cs \<Longrightarrow> cs ! i \<noteq> 0 \<Longrightarrow> x i = y i) \<Longrightarrow> lin cs x = lin cs y"
  unfolding lin_def by (rule sum.cong) auto

lemma lin_map2_add:
  "length cs = length ds \<Longrightarrow> lin (map2 (+) cs ds) x = lin cs x + lin ds x"
  by (simp add: lin_def sum.distrib [symmetric] distrib_right)

lemma lin_map2_minus:
  "length cs = length ds \<Longrightarrow> lin (map2 (-) cs ds) x = lin cs x - lin ds x"
  by (simp add: lin_def sum_subtractf [symmetric] left_diff_distrib)

lemma lin_map_scale: "lin (map (\<lambda>c. c * k) cs) x = of_int k * lin cs x"
  by (simp add: lin_def sum_distrib_left mult_ac)

lemma lin_map_uminus: "lin (map uminus cs) x = - lin cs x"
  by (simp add: lin_def sum_negf)

lemma lin_of_int: "lin cs (\<lambda>i. of_int (x i)) = of_int (lin cs x)"
  by (simp add: lin_def)

lemma lin_update:
  "lin cs (x(v := t)) = lin cs x + of_int (coeff_of cs v) * (t - x v)"
proof (cases "v < length cs")
  case True
  have "lin cs (x(v := t)) = of_int (cs ! v) * t + (\<Sum>i\<in>{..<length cs} - {v}. of_int (cs ! i) * x i)"
    using True by (simp add: lin_def sum.remove [of _ v])
  moreover have "lin cs x = of_int (cs ! v) * x v + (\<Sum>i\<in>{..<length cs} - {v}. of_int (cs ! i) * x i)"
    using True by (simp add: lin_def sum.remove [of _ v])
  ultimately show ?thesis
    using True by (simp add: coeff_of_def algebra_simps)
next
  case False
  then show ?thesis by (auto simp: coeff_of_def intro: lin_cong)
qed

lemma coeff_of_map2_add:
  "length cs = length ds \<Longrightarrow> coeff_of (map2 (+) cs ds) v = coeff_of cs v + coeff_of ds v"
  by (simp add: coeff_of_def)

lemma coeff_of_map2_minus:
  "length cs = length ds \<Longrightarrow> coeff_of (map2 (-) cs ds) v = coeff_of cs v - coeff_of ds v"
  by (simp add: coeff_of_def)

lemma coeff_of_scale: "coeff_of (map (\<lambda>c. c * k) cs) v = coeff_of cs v * k"
  by (simp add: coeff_of_def)

lemma coeff_of_append_zeros: "coeff_of (cs @ replicate n 0) v = coeff_of cs v"
  by (auto simp: coeff_of_def nth_append)

lemma lin_list_update_zero:
  "lin (cs[v := 0]) x = lin cs x - of_int (coeff_of cs v) * x v"
proof (cases "v < length cs")
  case True
  have "lin (cs[v := 0]) x = (\<Sum>i\<in>{..<length cs} - {v}. of_int (cs ! i) * x i)"
    using True by (simp add: lin_def sum.remove [of _ v])
  moreover have "lin cs x = of_int (cs ! v) * x v + (\<Sum>i\<in>{..<length cs} - {v}. of_int (cs ! i) * x i)"
    using True by (simp add: lin_def sum.remove [of _ v])
  ultimately show ?thesis using True by (simp add: coeff_of_def)
next
  case False
  then show ?thesis by (simp add: coeff_of_def list_update_beyond)
qed

lemma lin_list_update:
  assumes "v < length cs"
  shows "lin (cs[v := c]) x = lin cs x + of_int (c - cs ! v) * x v"
proof -
  have "lin (cs[v := c]) x = of_int c * x v + (\<Sum>i\<in>{..<length cs} - {v}. of_int (cs ! i) * x i)"
    using assms by (simp add: lin_def sum.remove [of _ v])
  moreover have "lin cs x = of_int (cs ! v) * x v + (\<Sum>i\<in>{..<length cs} - {v}. of_int (cs ! i) * x i)"
    using assms by (simp add: lin_def sum.remove [of _ v])
  ultimately show ?thesis by (simp add: algebra_simps)
qed

lemma lin_unit [simp]: "v < n \<Longrightarrow> lin ((replicate n 0)[v := c]) x = of_int c * x v"
  by (simp add: lin_list_update)

text \<open>Growing a vector with a fill value, as \<open>SmallVector::resize\<close> does past the old size.\<close>

definition pad_to :: "nat \<Rightarrow> int list \<Rightarrow> int list" where
  "pad_to n cs = cs @ replicate (n - length cs) 0"

lemma length_pad_to [simp]: "length (pad_to n cs) = max n (length cs)"
  by (simp add: pad_to_def max_def)

lemma lin_pad_to [simp]: "lin (pad_to n cs) x = lin cs x"
  by (simp add: pad_to_def)

lemma coeff_of_pad_to [simp]: "coeff_of (pad_to n cs) v = coeff_of cs v"
  by (simp add: pad_to_def coeff_of_append_zeros)

lemma pad_to_id [simp]: "n \<le> length cs \<Longrightarrow> pad_to n cs = cs"
  by (simp add: pad_to_def)

section \<open>Searching a container\<close>

text \<open>The index at which a forward scan with a test stops.\<close>

fun find_index :: "('a \<Rightarrow> bool) \<Rightarrow> 'a list \<Rightarrow> nat option" where
  "find_index P [] = None"
| "find_index P (x # xs) = (if P x then Some 0 else map_option Suc (find_index P xs))"

lemma find_index_Some:
  "find_index P xs = Some i \<Longrightarrow> i < length xs \<and> P (xs ! i) \<and> (\<forall>j < i. \<not> P (xs ! j))"
  by (induction xs arbitrary: i) (auto simp: nth_Cons less_Suc_eq_0_disj split: if_splits nat.splits)

lemma find_index_None: "find_index P xs = None \<longleftrightarrow> (\<forall>x \<in> set xs. \<not> P x)"
  by (induction xs) auto

end
