(* ===== verification/Checked.thy ===== *)
theory Checked
  imports Prelude
begin

text \<open>
  The checked integer primitives of \<open>polyhedral/include/mlk/poly/checked.h\<close>. A primitive that
  writes through an out pointer and reports overflow in its boolean result returns an \<open>option\<close>.
  The locale \<open>limited_op\<close> is the contract the rest of the engine relies on: a limited operation
  returns the exact result when that result is within the engine's magnitude limit, and
  \<open>ResourceExhausted\<close> in every other case. Addition, subtraction and multiplication provide it.
\<close>

definition kRationalMagnitudeLimit :: int where
  "kRationalMagnitudeLimit = 1073741824"

definition in_limit :: "int \<Rightarrow> bool" where
  "in_limit x \<longleftrightarrow> - kRationalMagnitudeLimit \<le> x \<and> x \<le> kRationalMagnitudeLimit"

lemmas limit_defs = in_limit_def kRationalMagnitudeLimit_def

lemma in_limit_i64: "in_limit x \<Longrightarrow> in_i64 x"
  by (simp add: limit_defs i64_defs)

lemma in_limit_0 [simp]: "in_limit 0" and in_limit_1 [simp]: "in_limit 1"
  and in_limit_m1 [simp]: "in_limit (-1)"
  by (simp_all add: limit_defs)

lemma in_limit_minus [simp]: "in_limit (- x) \<longleftrightarrow> in_limit x"
  by (auto simp: limit_defs)

lemma in_limit_abs: "in_limit x \<longleftrightarrow> \<bar>x\<bar> \<le> kRationalMagnitudeLimit"
  by (auto simp: limit_defs)

text \<open>The product of two in-limit values never overflows (the reason the limit is 2^30).\<close>

lemma in_limit_mult_bound:
  assumes "in_limit a" and "in_limit b"
  shows "\<bar>a * b\<bar> \<le> 1152921504606846976"
proof -
  have "\<bar>a\<bar> * \<bar>b\<bar> \<le> 1073741824 * 1073741824"
    using assms by (intro mult_mono) (auto simp: limit_defs)
  then show ?thesis by (simp add: abs_mult)
qed

lemma in_limit_mult_i64: "in_limit a \<Longrightarrow> in_limit b \<Longrightarrow> in_i64 (a * b)"
  using in_limit_mult_bound [of a b] by (auto simp: i64_defs abs_le_iff)

section \<open>Overflow-checking primitives\<close>

definition checked_add :: "int \<Rightarrow> int \<Rightarrow> int option" where
  "checked_add a b = (if in_i64 (a + b) then Some (a + b) else None)"

definition checked_sub :: "int \<Rightarrow> int \<Rightarrow> int option" where
  "checked_sub a b = (if in_i64 (a - b) then Some (a - b) else None)"

definition checked_mul :: "int \<Rightarrow> int \<Rightarrow> int option" where
  "checked_mul a b = (if in_i64 (a * b) then Some (a * b) else None)"

definition addLimited :: "int \<Rightarrow> int \<Rightarrow> int result" where
  "addLimited a b = (case checked_add a b of
     None \<Rightarrow> Inl (Err ResourceExhausted)
   | Some r \<Rightarrow>
       if r > kRationalMagnitudeLimit \<or> r < - kRationalMagnitudeLimit
       then Inl (Err ResourceExhausted) else Inr r)"

definition subLimited :: "int \<Rightarrow> int \<Rightarrow> int result" where
  "subLimited a b = (case checked_sub a b of
     None \<Rightarrow> Inl (Err ResourceExhausted)
   | Some r \<Rightarrow>
       if r > kRationalMagnitudeLimit \<or> r < - kRationalMagnitudeLimit
       then Inl (Err ResourceExhausted) else Inr r)"

definition mulLimited :: "int \<Rightarrow> int \<Rightarrow> int result" where
  "mulLimited a b = (case checked_mul a b of
     None \<Rightarrow> Inl (Err ResourceExhausted)
   | Some r \<Rightarrow>
       if r > kRationalMagnitudeLimit \<or> r < - kRationalMagnitudeLimit
       then Inl (Err ResourceExhausted) else Inr r)"

text \<open>C++ division truncates towards zero: \<open>sdiv\<close> and \<open>smod\<close>.\<close>

definition checked_div :: "int \<Rightarrow> int \<Rightarrow> int option" where
  "checked_div a b =
     (if b = 0 then None
      else if a = INT64_MIN \<and> b = -1 then None
      else Some (a sdiv b))"

definition divLimited :: "int \<Rightarrow> int \<Rightarrow> int result" where
  "divLimited a b =
     (if b = 0 then Inl (Err InvalidArgument)
      else case checked_div a b of
        None \<Rightarrow> Inl (Err ResourceExhausted)
      | Some r \<Rightarrow>
          if r > kRationalMagnitudeLimit \<or> r < - kRationalMagnitudeLimit
          then Inl (Err ResourceExhausted) else Inr r)"

section \<open>The contract of a limited operation\<close>

locale limited_op =
  fixes exact :: "int \<Rightarrow> int \<Rightarrow> int"
    and checked :: "int \<Rightarrow> int \<Rightarrow> int option"
    and limited :: "int \<Rightarrow> int \<Rightarrow> int result"
  assumes checked: "checked a b = (if in_i64 (exact a b) then Some (exact a b) else None)"
    and limited: "limited a b = (case checked a b of
          None \<Rightarrow> Inl (Err ResourceExhausted)
        | Some r \<Rightarrow> if in_limit r then Inr r else Inl (Err ResourceExhausted))"
begin

lemma checked_Some_iff: "checked a b = Some r \<longleftrightarrow> r = exact a b \<and> in_i64 (exact a b)"
  by (auto simp: checked)

lemma limited_eq:
  "limited a b = (if in_limit (exact a b) then Inr (exact a b) else Inl (Err ResourceExhausted))"
  by (auto simp: limited checked dest: in_limit_i64)

lemma limited_Inr_iff: "limited a b = Inr r \<longleftrightarrow> r = exact a b \<and> in_limit r"
  by (auto simp: limited_eq)

lemma limited_total: "in_limit (exact a b) \<Longrightarrow> limited a b = Inr (exact a b)"
  by (simp add: limited_eq)

lemma limited_Inl_iff:
  "limited a b = Inl e \<longleftrightarrow> e = Err ResourceExhausted \<and> \<not> in_limit (exact a b)"
  by (auto simp: limited_eq)

lemma map_limited_Inr_iff:
  "map_res (\<lambda>(a, b). limited a b) ps = Inr cs \<longleftrightarrow>
     cs = map (\<lambda>(a, b). exact a b) ps \<and> (\<forall>c \<in> set cs. in_limit c)"
  by (induction ps arbitrary: cs) (auto simp: mlk_try_Inr_iff limited_Inr_iff)

lemma map_limited_left_Inr_iff:
  "map_res (\<lambda>a. limited a k) xs = Inr cs \<longleftrightarrow>
     cs = map (\<lambda>a. exact a k) xs \<and> (\<forall>c \<in> set cs. in_limit c)"
  by (induction xs arbitrary: cs) (auto simp: mlk_try_Inr_iff limited_Inr_iff)

end

interpretation add_op: limited_op "(+)" checked_add addLimited
  by unfold_locales (auto simp: checked_add_def addLimited_def in_limit_def)

interpretation sub_op: limited_op "(-)" checked_sub subLimited
  by unfold_locales (auto simp: checked_sub_def subLimited_def in_limit_def)

interpretation mul_op: limited_op "(*)" checked_mul mulLimited
  by unfold_locales (auto simp: checked_mul_def mulLimited_def in_limit_def)

lemmas limited_Inr [result_simps] =
  add_op.limited_Inr_iff sub_op.limited_Inr_iff mul_op.limited_Inr_iff

lemmas checked_Some [result_simps] =
  add_op.checked_Some_iff sub_op.checked_Some_iff mul_op.checked_Some_iff

section \<open>Division\<close>

lemma abs_sdiv: "\<bar>a sdiv b\<bar> = \<bar>a\<bar> div \<bar>b\<bar>" for a b :: int
  by (cases "a = 0"; cases "b = 0")
    (auto simp: signed_divide_int_def abs_mult sgn_if pos_imp_zdiv_nonneg_iff)

lemma sdiv_in_i64:
  assumes "in_i64 a" and "b \<noteq> 0" and "\<not> (a = INT64_MIN \<and> b = -1)"
  shows "in_i64 (a sdiv b)"
proof (cases "\<bar>b\<bar> = 1")
  case True
  then have "b = 1 \<or> b = -1" by auto
  then have "a sdiv b = a \<or> (a \<noteq> INT64_MIN \<and> a sdiv b = - a)"
    using assms(3) by (auto simp: signed_divide_int_def sgn_if)
  then show ?thesis using assms(1) by (auto simp: i64_defs)
next
  case False
  then have "2 \<le> \<bar>b\<bar>" using assms(2) by linarith
  then have "\<bar>a\<bar> div \<bar>b\<bar> \<le> \<bar>a\<bar> div 2"
    by (intro zdiv_mono2) auto
  moreover have "\<bar>a\<bar> div 2 \<le> 4611686018427387904"
    using assms(1) by (auto simp: i64_defs)
  ultimately have "\<bar>a sdiv b\<bar> \<le> 4611686018427387904" by (simp add: abs_sdiv)
  then show ?thesis by (auto simp: i64_defs abs_le_iff)
qed

end
