(* ===== verification/Rational.thy ===== *)
theory Rational
  imports Checked
begin

text \<open>
  The exact rational kernel of \<open>polyhedral/src/rational.cpp\<close>. Its specification is the
  library's field \<open>rat\<close>: \<open>rat_val\<close> is the number a \<open>Rational\<close> denotes, and \<open>rat_spec\<close> gives
  the one representation of a number the kernel may return: reduced, with a positive
  denominator and both parts within the magnitude limit, or \<open>ResourceExhausted\<close> when the reduced
  form does not fit. The locale \<open>exact_rat_op\<close> is that contract for a binary operation.
\<close>

record rational =
  num :: int
  den :: int

definition fromInt :: "int \<Rightarrow> rational" where
  "fromInt v = \<lparr>num = v, den = 1\<rparr>"

definition rat_zero :: rational where
  "rat_zero = \<lparr>num = 0, den = 1\<rparr>"

definition isZero :: "rational \<Rightarrow> bool" where "isZero r \<longleftrightarrow> num r = 0"
definition isInt :: "rational \<Rightarrow> bool" where "isInt r \<longleftrightarrow> den r = 1"
definition sign :: "rational \<Rightarrow> int" where
  "sign r = (if num r > 0 then 1 else if num r < 0 then -1 else 0)"

text \<open>Euclid's loop on truncated remainders; the final negation is a plain one.\<close>

lemma smod_abs_less:
  fixes a b :: int
  assumes "b \<noteq> 0"
  shows "\<bar>a smod b\<bar> < \<bar>b\<bar>"
  using assms abs_mod_less [of "\<bar>b\<bar>" "\<bar>a\<bar>"]
  by (auto simp: signed_modulo_int_def abs_mult sgn_if)

function ratGcd :: "int \<Rightarrow> int \<Rightarrow> int" where
  "ratGcd a b = (if b \<noteq> 0 then ratGcd b (a smod b) else if a < 0 then wrap64 (- a) else a)"
  by pat_completeness auto
termination
  by (relation "measure (\<lambda>(a, b). nat \<bar>b\<bar>)") (auto simp: smod_abs_less)

declare ratGcd.simps [simp del]

definition normalizeLimited :: "int \<Rightarrow> int \<Rightarrow> rational result" where
  "normalizeLimited n d =
     mlk_try (if d < 0 then plain64 (- n) else Inr n) (\<lambda>n.
     mlk_try (if d < 0 then plain64 (- d) else Inr d) (\<lambda>d.
     mlk_try (if n < 0 then plain64 (- n) else Inr n) (\<lambda>an.
       let g = ratGcd an d;
           n = (if g > 1 then n sdiv g else n);
           d = (if g > 1 then d sdiv g else d)
       in if n > kRationalMagnitudeLimit \<or> n < - kRationalMagnitudeLimit
            \<or> d > kRationalMagnitudeLimit
          then Inl (Err ResourceExhausted) else Inr \<lparr>num = n, den = d\<rparr>)))"

definition fromParts :: "int \<Rightarrow> int \<Rightarrow> rational result" where
  "fromParts n d =
     (if d = 0 then Inl (Err InvalidArgument)
      else if n > kRationalMagnitudeLimit \<or> n < - kRationalMagnitudeLimit
        \<or> d > kRationalMagnitudeLimit \<or> d < - kRationalMagnitudeLimit
      then Inl (Err ResourceExhausted)
      else normalizeLimited n d)"

definition ratLess :: "rational \<Rightarrow> rational \<Rightarrow> bool" where
  "ratLess a b = (case (checked_mul (num a) (den b), checked_mul (num b) (den a)) of
     (Some l, Some r) \<Rightarrow> l < r | _ \<Rightarrow> False)"

definition ratEqual :: "rational \<Rightarrow> rational \<Rightarrow> bool" where
  "ratEqual a b \<longleftrightarrow> num a = num b \<and> den a = den b"

text \<open>An overflowing primitive ends the operation with \<open>ResourceExhausted\<close>.\<close>

definition or_exhausted :: "'a option \<Rightarrow> 'a result" where
  "or_exhausted x = (case x of None \<Rightarrow> Inl (Err ResourceExhausted) | Some r \<Rightarrow> Inr r)"

lemma or_exhausted_simps [simp]:
  "or_exhausted None = Inl (Err ResourceExhausted)" "or_exhausted (Some r) = Inr r"
  by (simp_all add: or_exhausted_def)

definition ratAdd :: "rational \<Rightarrow> rational \<Rightarrow> rational result" where
  "ratAdd a b =
     mlk_try (or_exhausted (checked_mul (num a) (den b))) (\<lambda>t1.
     mlk_try (or_exhausted (checked_mul (num b) (den a))) (\<lambda>t2.
     mlk_try (or_exhausted (checked_add t1 t2)) (\<lambda>n.
     mlk_try (or_exhausted (checked_mul (den a) (den b))) (\<lambda>d.
       normalizeLimited n d))))"

definition ratSub :: "rational \<Rightarrow> rational \<Rightarrow> rational result" where
  "ratSub a b =
     mlk_try (or_exhausted (checked_mul (num a) (den b))) (\<lambda>t1.
     mlk_try (or_exhausted (checked_mul (num b) (den a))) (\<lambda>t2.
     mlk_try (or_exhausted (checked_sub t1 t2)) (\<lambda>n.
     mlk_try (or_exhausted (checked_mul (den a) (den b))) (\<lambda>d.
       normalizeLimited n d))))"

definition ratMul :: "rational \<Rightarrow> rational \<Rightarrow> rational result" where
  "ratMul a b =
     mlk_try (or_exhausted (checked_mul (num a) (num b))) (\<lambda>n.
     mlk_try (or_exhausted (checked_mul (den a) (den b))) (\<lambda>d.
       normalizeLimited n d))"

definition ratDiv :: "rational \<Rightarrow> rational \<Rightarrow> rational result" where
  "ratDiv a b =
     (if num b = 0 then Inl (Err InvalidArgument) else
      mlk_try (or_exhausted (checked_mul (num a) (den b))) (\<lambda>n.
      mlk_try (or_exhausted (checked_mul (den a) (num b))) (\<lambda>d.
        normalizeLimited n d)))"

definition ratNeg :: "rational \<Rightarrow> rational result" where
  "ratNeg a = mlk_try (plain64 (- num a)) (\<lambda>n. Inr \<lparr>num = n, den = den a\<rparr>)"

definition ratFloor :: "rational \<Rightarrow> int result" where
  "ratFloor r = (let q = num r sdiv den r in
     if num r smod den r \<noteq> 0 \<and> num r < 0 then plain64 (q - 1) else Inr q)"

definition ratCeil :: "rational \<Rightarrow> int result" where
  "ratCeil r = (let rem = num r smod den r; q = num r sdiv den r in
     if rem \<noteq> 0 \<and> num r > 0 then plain64 (q + 1) else Inr q)"

section \<open>Specification\<close>

definition rat_val :: "rational \<Rightarrow> rat" where
  "rat_val r = of_int (num r) / of_int (den r)"

text \<open>The invariant every result of the kernel has.\<close>

definition lim_rat :: "rational \<Rightarrow> bool" where
  "lim_rat r \<longleftrightarrow> den r > 0 \<and> coprime (num r) (den r) \<and> in_limit (num r) \<and> in_limit (den r)"

definition rat_spec :: "rat \<Rightarrow> rational result" where
  "rat_spec q = (case quotient_of q of (n, d) \<Rightarrow>
     if in_limit n \<and> in_limit d then Inr \<lparr>num = n, den = d\<rparr> else Inl (Err ResourceExhausted))"

lemma rat_spec_Inr:
  assumes "rat_spec q = Inr r"
  shows "rat_val r = q" and "lim_rat r"
proof -
  obtain n d where q: "quotient_of q = (n, d)" by fastforce
  with assms have r: "r = \<lparr>num = n, den = d\<rparr>" "in_limit n" "in_limit d"
    by (auto simp: rat_spec_def split: if_splits)
  have "d > 0" "coprime n d" "q = of_int n / of_int d"
    using q quotient_of_denom_pos quotient_of_coprime quotient_of_div by blast+
  with r show "rat_val r = q" "lim_rat r"
    by (auto simp: rat_val_def lim_rat_def)
qed

lemma quotient_of_rat_val:
  assumes "den r > 0" and "coprime (num r) (den r)"
  shows "quotient_of (rat_val r) = (num r, den r)"
proof -
  have "rat_val r = Fract (num r) (den r)"
    by (simp add: rat_val_def Fract_of_int_quotient)
  then show ?thesis
    using assms by (simp add: quotient_of_Fract Rat.normalize_def)
qed

lemma rat_spec_of_val [simp]: "lim_rat r \<Longrightarrow> rat_spec (rat_val r) = Inr r"
  by (simp add: rat_spec_def quotient_of_rat_val lim_rat_def)

lemma rat_val_inj:
  assumes "lim_rat a" and "lim_rat b" and "rat_val a = rat_val b"
  shows "a = b"
proof -
  have "Inr a = (Inr b :: rational result)"
    using assms rat_spec_of_val by metis
  then show ?thesis by simp
qed

section \<open>Euclid and normalisation\<close>

lemma smod_nonneg: "0 \<le> a \<Longrightarrow> 0 \<le> b \<Longrightarrow> a smod b = a mod b" for a b :: int
  by (auto simp: signed_modulo_int_def sgn_if)

lemma gcd_smod: "gcd b (a smod b) = gcd a b" for a b :: int
proof -
  have "a smod b = sgn a * (\<bar>a\<bar> mod \<bar>b\<bar>)"
    by (auto simp: signed_modulo_int_def)
  then have "gcd b (a smod b) = gcd \<bar>b\<bar> (\<bar>a\<bar> mod \<bar>b\<bar>)"
    by (cases "a = 0") (auto simp: gcd_mult_right_left_cancel sgn_if)
  also have "\<dots> = gcd \<bar>a\<bar> \<bar>b\<bar>"
    by (metis gcd.commute gcd_red_int)
  finally show ?thesis by simp
qed

lemma ratGcd_eq_gcd:
  assumes "in_i64 a" and "a \<noteq> INT64_MIN" and "in_i64 b" and "b \<noteq> INT64_MIN"
  shows "ratGcd a b = gcd a b"
  using assms
proof (induction a b rule: ratGcd.induct)
  case (1 a b)
  show ?case
  proof (cases "b = 0")
    case True
    with "1.prems" show ?thesis
      by (auto simp: ratGcd.simps [of a 0] i64_defs)
  next
    case False
    have "\<bar>a smod b\<bar> < \<bar>b\<bar>" using False by (rule smod_abs_less)
    with "1.prems" have "in_i64 (a smod b)" "a smod b \<noteq> INT64_MIN"
      by (auto simp: i64_defs)
    with "1.IH" [OF False] "1.prems" have "ratGcd b (a smod b) = gcd b (a smod b)" by simp
    with False show ?thesis by (simp add: ratGcd.simps [of a b] gcd_smod)
  qed
qed

lemma ratGcd_limit:
  assumes "in_limit a" and "in_limit b"
  shows "ratGcd a b = gcd a b" and "in_limit (gcd a b)"
proof -
  show "ratGcd a b = gcd a b"
    using assms by (intro ratGcd_eq_gcd) (auto simp: limit_defs i64_defs)
  have "gcd a b \<le> \<bar>a\<bar> \<or> gcd a b \<le> \<bar>b\<bar>"
    by (cases "a = 0") (auto intro: zdvd_imp_le)
  then show "in_limit (gcd a b)"
    using assms gcd_ge_0_int [of a b] unfolding limit_defs by linarith
qed

lemma sdiv_dvd: "b dvd a \<Longrightarrow> 0 < b \<Longrightarrow> a sdiv b = a div b" for a b :: int
  by (cases "a < 0") (auto simp: signed_divide_int_def sgn_if dvd_neg_div)

lemma normalizeLimited_pos:
  assumes "in_i64 n" "n \<noteq> INT64_MIN" "in_i64 d" "d > 0"
  shows "normalizeLimited n d = rat_spec (of_int n / of_int d)"
proof -
  let ?g = "gcd n d"
  have g: "?g > 0" using assms(4) by simp
  have gn: "ratGcd (if n < 0 then - n else n) d = ?g"
    using assms by (subst ratGcd_eq_gcd) (auto simp: i64_defs)
  have an: "(if n < 0 then plain64 (- n) else Inr n) = Inr (if n < 0 then - n else n)"
    using assms by (auto simp: plain64_def i64_defs)
  have g1: "?g = 1" if "\<not> 1 < ?g" using g that by linarith
  have n: "(if ?g > 1 then n sdiv ?g else n) = n div ?g"
    using g g1 sdiv_dvd [OF gcd_dvd1 g] by (cases "1 < ?g") simp_all
  have d: "(if ?g > 1 then d sdiv ?g else d) = d div ?g"
    using g g1 sdiv_dvd [OF gcd_dvd2 g] by (cases "1 < ?g") simp_all
  have q: "quotient_of (of_int n / of_int d) = (n div ?g, d div ?g)"
    using assms(4) by (simp add: Fract_of_int_quotient [symmetric] quotient_of_Fract
        Rat.normalize_def Let_def)
  have dpos: "0 < d div ?g" using assms(4) g
    by (simp add: pos_imp_zdiv_pos_iff zdvd_imp_le)
  show ?thesis
    unfolding normalizeLimited_def rat_spec_def q
    using assms(4) an gn n d dpos by (auto simp: Let_def in_limit_def kRationalMagnitudeLimit_def)
qed

lemma normalizeLimited_eq:
  assumes "in_i64 n" "n \<noteq> INT64_MIN" "in_i64 d" "d \<noteq> INT64_MIN" "d \<noteq> 0"
  shows "normalizeLimited n d = rat_spec (of_int n / of_int d)"
proof (cases "d > 0")
  case True
  with assms show ?thesis by (simp add: normalizeLimited_pos)
next
  case False
  then have "d < 0" using assms(5) by simp
  have pl: "plain64 (- n) = Inr (- n)" "plain64 (- d) = Inr (- d)"
    using assms by (auto simp: plain64_def i64_defs)
  have "normalizeLimited n d = normalizeLimited (- n) (- d)"
    unfolding normalizeLimited_def using \<open>d < 0\<close> by (simp add: pl)
  also have "\<dots> = rat_spec (of_int (- n) / of_int (- d))"
    using assms \<open>d < 0\<close> by (intro normalizeLimited_pos) (auto simp: i64_defs)
  finally show ?thesis by simp
qed

lemma fromParts_eq:
  assumes "in_limit n" and "in_limit d" and "d \<noteq> 0"
  shows "fromParts n d = rat_spec (of_int n / of_int d)"
proof -
  have "normalizeLimited n d = rat_spec (of_int n / of_int d)"
    using assms by (intro normalizeLimited_eq) (auto simp: limit_defs i64_defs)
  then show ?thesis using assms by (auto simp: fromParts_def in_limit_def)
qed

section \<open>The contract of an exact operation\<close>

text \<open>\<open>ok\<close> is the precondition on the second operand (division needs a nonzero one).\<close>

locale exact_rat_op =
  fixes exact :: "rat \<Rightarrow> rat \<Rightarrow> rat"
    and ok :: "rational \<Rightarrow> bool"
    and oper :: "rational \<Rightarrow> rational \<Rightarrow> rational result"
  assumes oper_spec: "lim_rat a \<Longrightarrow> lim_rat b \<Longrightarrow> ok b \<Longrightarrow>
      oper a b = rat_spec (exact (rat_val a) (rat_val b))"
begin

lemma oper_val:
  "lim_rat a \<Longrightarrow> lim_rat b \<Longrightarrow> ok b \<Longrightarrow> oper a b = Inr r \<Longrightarrow> rat_val r = exact (rat_val a) (rat_val b)"
  using oper_spec rat_spec_Inr(1) by metis

lemma oper_lim:
  "lim_rat a \<Longrightarrow> lim_rat b \<Longrightarrow> ok b \<Longrightarrow> oper a b = Inr r \<Longrightarrow> lim_rat r"
  using oper_spec rat_spec_Inr(2) by metis

lemma oper_total:
  assumes "lim_rat a" and "lim_rat b" and "ok b"
    and "lim_rat r" and "rat_val r = exact (rat_val a) (rat_val b)"
  shows "oper a b = Inr r"
  using assms oper_spec [of a b] rat_spec_of_val [of r] by simp

end

lemma lim_rat_i64:
  assumes "lim_rat a"
  shows "in_i64 (num a)" "num a \<noteq> INT64_MIN" "in_i64 (den a)" "den a \<noteq> INT64_MIN" "den a > 0"
  using assms by (auto simp: lim_rat_def limit_defs i64_defs)

lemma cross_product:
  assumes "in_limit a" and "in_limit b"
  shows "checked_mul a b = Some (a * b)"
  using in_limit_mult_i64 [OF assms] by (simp add: checked_mul_def)

lemma cross_sum_i64:
  assumes "in_limit a" and "in_limit b" and "in_limit c" and "in_limit d"
  shows "in_i64 (a * b + c * d)" "a * b + c * d \<noteq> INT64_MIN"
    "in_i64 (a * b - c * d)" "a * b - c * d \<noteq> INT64_MIN" "a * b \<noteq> INT64_MIN"
  using in_limit_mult_bound [OF assms(1,2)] in_limit_mult_bound [OF assms(3,4)]
  by (auto simp: i64_defs abs_le_iff)

lemma lim_rat_limit: "lim_rat a \<Longrightarrow> in_limit (num a) \<and> in_limit (den a) \<and> den a > 0"
  by (simp add: lim_rat_def)

lemma ratAdd_spec:
  assumes "lim_rat a" and "lim_rat b"
  shows "ratAdd a b = rat_spec (rat_val a + rat_val b)"
proof -
  note l = lim_rat_limit [OF assms(1)] lim_rat_limit [OF assms(2)]
  have "ratAdd a b = normalizeLimited (num a * den b + num b * den a) (den a * den b)"
    using l cross_sum_i64 [of "num a" "den b" "num b" "den a"]
    by (simp add: ratAdd_def cross_product checked_add_def)
  also have "\<dots> = rat_spec (of_int (num a * den b + num b * den a) / of_int (den a * den b))"
    using l cross_sum_i64 [of "num a" "den b" "num b" "den a"]
      cross_sum_i64 [of "den a" "den b" "num b" "den a"] in_limit_mult_i64 [of "den a" "den b"]
    by (intro normalizeLimited_eq) auto
  also have "of_int (num a * den b + num b * den a) / of_int (den a * den b) = rat_val a + rat_val b"
    using l by (simp add: rat_val_def field_simps)
  finally show ?thesis .
qed

lemma ratSub_spec:
  assumes "lim_rat a" and "lim_rat b"
  shows "ratSub a b = rat_spec (rat_val a - rat_val b)"
proof -
  note l = lim_rat_limit [OF assms(1)] lim_rat_limit [OF assms(2)]
  have "ratSub a b = normalizeLimited (num a * den b - num b * den a) (den a * den b)"
    using l cross_sum_i64 [of "num a" "den b" "num b" "den a"]
    by (simp add: ratSub_def cross_product checked_sub_def)
  also have "\<dots> = rat_spec (of_int (num a * den b - num b * den a) / of_int (den a * den b))"
    using l cross_sum_i64 [of "num a" "den b" "num b" "den a"]
      cross_sum_i64 [of "den a" "den b" "num b" "den a"] in_limit_mult_i64 [of "den a" "den b"]
    by (intro normalizeLimited_eq) auto
  also have "of_int (num a * den b - num b * den a) / of_int (den a * den b) = rat_val a - rat_val b"
    using l by (simp add: rat_val_def field_simps)
  finally show ?thesis .
qed

lemma ratMul_spec:
  assumes "lim_rat a" and "lim_rat b"
  shows "ratMul a b = rat_spec (rat_val a * rat_val b)"
proof -
  note l = lim_rat_limit [OF assms(1)] lim_rat_limit [OF assms(2)]
  have "ratMul a b = normalizeLimited (num a * num b) (den a * den b)"
    using l by (simp add: ratMul_def cross_product)
  also have "\<dots> = rat_spec (of_int (num a * num b) / of_int (den a * den b))"
    using l cross_sum_i64 [of "num a" "num b" "den a" "den b"]
      cross_sum_i64 [of "den a" "den b" "den a" "den b"]
    by (intro normalizeLimited_eq in_limit_mult_i64) auto
  finally show ?thesis by (simp add: rat_val_def)
qed

lemma ratDiv_spec:
  assumes "lim_rat a" and "lim_rat b" and "num b \<noteq> 0"
  shows "ratDiv a b = rat_spec (rat_val a / rat_val b)"
proof -
  note l = lim_rat_limit [OF assms(1)] lim_rat_limit [OF assms(2)]
  have "ratDiv a b = normalizeLimited (num a * den b) (den a * num b)"
    using l assms(3) by (simp add: ratDiv_def cross_product)
  also have "\<dots> = rat_spec (of_int (num a * den b) / of_int (den a * num b))"
    using l assms(3) cross_sum_i64 [of "num a" "den b" "den a" "num b"]
      cross_sum_i64 [of "den a" "num b" "den a" "den b"]
    by (intro normalizeLimited_eq in_limit_mult_i64) auto
  finally show ?thesis by (simp add: rat_val_def)
qed

interpretation rat_add: exact_rat_op "(+)" "\<lambda>_. True" ratAdd
  by unfold_locales (simp add: ratAdd_spec)

interpretation rat_sub: exact_rat_op "(-)" "\<lambda>_. True" ratSub
  by unfold_locales (simp add: ratSub_spec)

interpretation rat_mul: exact_rat_op "(*)" "\<lambda>_. True" ratMul
  by unfold_locales (simp add: ratMul_spec)

interpretation rat_div: exact_rat_op "(/)" "\<lambda>b. num b \<noteq> 0" ratDiv
  by unfold_locales (simp add: ratDiv_spec)

lemmas rat_op_val = rat_add.oper_val rat_sub.oper_val rat_mul.oper_val rat_div.oper_val
lemmas rat_op_lim = rat_add.oper_lim rat_sub.oper_lim rat_mul.oper_lim rat_div.oper_lim

section \<open>Order, sign, negation, rounding\<close>

lemma rat_val_zero_iff: "lim_rat a \<Longrightarrow> rat_val a = 0 \<longleftrightarrow> num a = 0"
  by (auto simp: rat_val_def lim_rat_def)

lemma isZero_iff: "lim_rat a \<Longrightarrow> isZero a \<longleftrightarrow> rat_val a = 0"
  by (simp add: isZero_def rat_val_zero_iff)

lemma sign_pos_iff: "lim_rat a \<Longrightarrow> sign a > 0 \<longleftrightarrow> rat_val a > 0"
  by (auto simp: sign_def rat_val_def lim_rat_def zero_less_divide_iff divide_less_0_iff)

lemma sign_neg_iff: "lim_rat a \<Longrightarrow> sign a < 0 \<longleftrightarrow> rat_val a < 0"
  by (auto simp: sign_def rat_val_def lim_rat_def zero_less_divide_iff divide_less_0_iff)

lemma ratLess_iff:
  assumes "lim_rat a" and "lim_rat b"
  shows "ratLess a b \<longleftrightarrow> rat_val a < rat_val b"
proof -
  note l = lim_rat_limit [OF assms(1)] lim_rat_limit [OF assms(2)]
  have "ratLess a b \<longleftrightarrow> num a * den b < num b * den a"
    using l in_limit_mult_i64 [of "num a" "den b"] in_limit_mult_i64 [of "num b" "den a"]
    by (simp add: ratLess_def checked_mul_def)
  also have "\<dots> \<longleftrightarrow> (of_int (num a * den b) :: rat) < of_int (num b * den a)"
    by (simp only: of_int_less_iff)
  also have "\<dots> \<longleftrightarrow> rat_val a < rat_val b"
    using l by (simp add: rat_val_def field_simps)
  finally show ?thesis .
qed

lemma ratEqual_iff:
  assumes "lim_rat a" and "lim_rat b"
  shows "ratEqual a b \<longleftrightarrow> rat_val a = rat_val b"
  using rat_val_inj [OF assms] by (auto simp: ratEqual_def rat_val_def)

lemma ratNeg_Inr:
  assumes "ratNeg a = Inr r"
  shows "rat_val r = - rat_val a" and "lim_rat a \<Longrightarrow> lim_rat r"
  using assms by (auto simp: ratNeg_def mlk_try_Inr_iff plain64_Inr rat_val_def lim_rat_def)

lemma ratNeg_total: "lim_rat a \<Longrightarrow> ratNeg a = Inr \<lparr>num = - num a, den = den a\<rparr>"
  by (auto simp: ratNeg_def plain64_def lim_rat_def limit_defs i64_defs)

lemma lim_rat_fromInt [simp]: "lim_rat (fromInt v) \<longleftrightarrow> in_limit v"
  by (simp add: fromInt_def lim_rat_def)

lemma rat_val_fromInt [simp]: "rat_val (fromInt v) = of_int v"
  by (simp add: fromInt_def rat_val_def)

lemma lim_rat_zero [simp]: "lim_rat rat_zero" and rat_val_zero [simp]: "rat_val rat_zero = 0"
  by (simp_all add: rat_zero_def lim_rat_def rat_val_def)

lemma sdiv_smod_pos:
  fixes a b :: int
  assumes "b > 0"
  shows "a sdiv b = (if a < 0 then - (- a div b) else a div b)"
    and "a smod b = 0 \<longleftrightarrow> b dvd a"
  using assms
  by (auto simp: signed_divide_int_def signed_modulo_int_def sgn_if simp flip: dvd_eq_mod_eq_0)

lemma neg_div_neg:
  fixes a b :: int
  assumes "b > 0"
  shows "- (- a div b) = (if b dvd a then a div b else a div b + 1)"
  using assms by (auto simp: zdiv_zminus1_eq_if dvd_eq_mod_eq_0)

lemma abs_div_le:
  fixes a b :: int
  assumes "b > 0"
  shows "\<bar>a div b\<bar> \<le> \<bar>a\<bar>"
proof (cases "a < 0")
  case True
  then have "a div 1 \<le> a div b" using assms by (intro zdiv_mono2_neg) auto
  moreover have "a div b \<le> 0" using True assms
    by (simp add: div_nonpos_pos_le0)
  ultimately show ?thesis by simp
next
  case False
  then have "a div b \<le> a div 1" using assms by (intro zdiv_mono2) auto
  then show ?thesis using False assms by (simp add: pos_imp_zdiv_nonneg_iff)
qed

lemma ratFloor_spec:
  assumes "lim_rat r"
  shows "ratFloor r = Inr \<lfloor>rat_val r\<rfloor>"
proof -
  have d: "den r > 0" using assms by (simp add: lim_rat_def)
  have "in_i64 (num r div den r)"
    using assms abs_div_le [OF d, of "num r"] by (auto simp: lim_rat_def limit_defs i64_defs)
  then show ?thesis
    using d by (auto simp: ratFloor_def rat_val_def floor_divide_of_int_eq sdiv_smod_pos neg_div_neg
        plain64_def Let_def)
qed

lemma ratCeil_spec:
  assumes "lim_rat r"
  shows "ratCeil r = Inr \<lceil>rat_val r\<rceil>"
proof -
  have d: "den r > 0" using assms by (simp add: lim_rat_def)
  have c: "\<lceil>rat_val r\<rceil> = - (- num r div den r)"
    unfolding rat_val_def by (rule ceiling_divide_eq_div)
  have "in_i64 (num r div den r + 1)"
    using assms abs_div_le [OF d, of "num r"] by (auto simp: lim_rat_def limit_defs i64_defs)
  then show ?thesis
    unfolding c using d
    by (auto simp: ratCeil_def sdiv_smod_pos neg_div_neg plain64_def Let_def)
qed

end
