(* ===== verification/Affine_Expr.thy ===== *)
theory Affine_Expr
  imports Rational
begin

text \<open>
  Integer affine expressions, \<open>polyhedral/src/affine_expr.cpp\<close>: a dense coefficient vector over
  the flat variable space [dims, symbols] and a constant. The meaning of an expression at a
  point is \<open>expr_val\<close>; the lemmas show that evaluation computes it, that addition, subtraction
  and scaling are homomorphisms whenever they succeed and fail exactly when a result leaves the
  magnitude limit, and that \<open>gcdNormalize\<close> divides the whole expression by one positive factor.
\<close>

record var_space =
  nDims :: nat
  nSyms :: nat

definition totalVars :: "var_space \<Rightarrow> nat" where
  "totalVars sp = nDims sp + nSyms sp"

definition space_sameAs :: "var_space \<Rightarrow> var_space \<Rightarrow> bool" where
  "space_sameAs a b \<longleftrightarrow> nDims a = nDims b \<and> nSyms a = nSyms b"

lemma space_sameAs_eq [simp]: "space_sameAs a b \<longleftrightarrow> a = (b :: var_space)"
  by (auto simp: space_sameAs_def)

record affine_expr =
  expr_space :: var_space
  expr_coeffs :: "int list"
  expr_constant :: int

definition expr_fromConstant :: "var_space \<Rightarrow> int \<Rightarrow> affine_expr" where
  "expr_fromConstant sp v =
     \<lparr>expr_space = sp, expr_coeffs = replicate (totalVars sp) 0, expr_constant = v\<rparr>"

definition expr_variable :: "var_space \<Rightarrow> nat \<Rightarrow> affine_expr" where
  "expr_variable sp v = (let cs = replicate (totalVars sp) 0 in
     \<lparr>expr_space = sp, expr_coeffs = (if v < length cs then cs[v := 1] else cs),
      expr_constant = 0\<rparr>)"

text \<open>\<open>Some\<close> of the value the out pointer receives when the expression is constant.\<close>

definition expr_isConstant :: "affine_expr \<Rightarrow> int option" where
  "expr_isConstant e =
     (if \<exists>c \<in> set (expr_coeffs e). c \<noteq> 0 then None else Some (expr_constant e))"

definition expr_coeffOf :: "affine_expr \<Rightarrow> nat \<Rightarrow> int" where
  "expr_coeffOf e v = (if v < length (expr_coeffs e) then expr_coeffs e ! v else 0)"

lemma expr_coeffOf_eq: "expr_coeffOf e v = coeff_of (expr_coeffs e) v"
  by (simp add: expr_coeffOf_def coeff_of_def)

definition withinLimits :: "affine_expr \<Rightarrow> bool" where
  "withinLimits e \<longleftrightarrow>
     \<not> (expr_constant e > kRationalMagnitudeLimit \<or> expr_constant e < - kRationalMagnitudeLimit)
     \<and> (\<forall>c \<in> set (expr_coeffs e). \<not> (c > kRationalMagnitudeLimit \<or> c < - kRationalMagnitudeLimit))"

text \<open>The first loop of \<open>gcdNormalize\<close>: \<open>None\<close> is its early return.\<close>

fun gcd_loop :: "int \<Rightarrow> int list \<Rightarrow> int option" where
  "gcd_loop g [] = Some g"
| "gcd_loop g (c # cs) = (let g' = ratGcd g c in if g' = 1 then None else gcd_loop g' cs)"

definition gcdNormalize :: "affine_expr \<Rightarrow> affine_expr" where
  "gcdNormalize e = (case gcd_loop 0 (expr_coeffs e) of
     None \<Rightarrow> e
   | Some g0 \<Rightarrow> (let g = ratGcd g0 (expr_constant e) in
       if g \<le> 1 then e
       else e\<lparr>expr_coeffs := map (\<lambda>c. c sdiv g) (expr_coeffs e),
              expr_constant := expr_constant e sdiv g\<rparr>))"

text \<open>
  The accumulation loop shared by expression evaluation and the exact point check of a
  polyhedron: zero coefficients are skipped, every product and sum is overflow-checked.
\<close>

definition eval_step :: "int \<times> int \<Rightarrow> int \<Rightarrow> int result" where
  "eval_step cv acc = (case cv of (c, v) \<Rightarrow>
     if c = 0 then Inr acc
     else mlk_try (or_exhausted (checked_mul c v)) (\<lambda>term. or_exhausted (checked_add acc term)))"

definition eval_terms :: "int list \<Rightarrow> int list \<Rightarrow> int \<Rightarrow> int result" where
  "eval_terms cs vs acc = fold_res eval_step (zip cs vs) acc"

definition expr_evalAt :: "affine_expr \<Rightarrow> int list \<Rightarrow> int result" where
  "expr_evalAt e vars =
     (if length vars < length (expr_coeffs e) then Inl (Err InvalidArgument)
      else eval_terms (expr_coeffs e) vars (expr_constant e))"

definition exprSpacesMatch :: "affine_expr \<Rightarrow> affine_expr \<Rightarrow> bool" where
  "exprSpacesMatch a b \<longleftrightarrow> space_sameAs (expr_space a) (expr_space b)"

definition exprEqual :: "affine_expr \<Rightarrow> affine_expr \<Rightarrow> bool" where
  "exprEqual a b \<longleftrightarrow> exprSpacesMatch a b \<and> expr_constant a = expr_constant b
     \<and> length (expr_coeffs a) = length (expr_coeffs b)
     \<and> (\<forall>i < length (expr_coeffs a). expr_coeffs a ! i = expr_coeffs b ! i)"

definition exprAdd :: "affine_expr \<Rightarrow> affine_expr \<Rightarrow> affine_expr result" where
  "exprAdd a b =
     (if \<not> exprSpacesMatch a b then Inl (Err InvalidArgument) else
      mlk_try (addLimited (expr_constant a) (expr_constant b)) (\<lambda>cst.
      mlk_try (map_res (\<lambda>i. addLimited (expr_coeffs a ! i) (expr_coeffs b ! i))
                 [0..<length (expr_coeffs a)]) (\<lambda>cs.
        Inr \<lparr>expr_space = expr_space a, expr_coeffs = cs, expr_constant = cst\<rparr>)))"

definition exprScale :: "affine_expr \<Rightarrow> int \<Rightarrow> affine_expr result" where
  "exprScale a k =
     mlk_try (mulLimited (expr_constant a) k) (\<lambda>cst.
     mlk_try (map_res (\<lambda>c. mulLimited c k) (expr_coeffs a)) (\<lambda>cs.
       Inr \<lparr>expr_space = expr_space a, expr_coeffs = cs, expr_constant = cst\<rparr>))"

definition exprSub :: "affine_expr \<Rightarrow> affine_expr \<Rightarrow> affine_expr result" where
  "exprSub a b = mlk_try (exprScale b (-1)) (\<lambda>negb. exprAdd a negb)"

section \<open>Meaning and well-formedness\<close>

definition expr_val :: "affine_expr \<Rightarrow> (nat \<Rightarrow> 'a::linordered_idom) \<Rightarrow> 'a" where
  "expr_val e x = of_int (expr_constant e) + lin (expr_coeffs e) x"

definition wf_expr :: "affine_expr \<Rightarrow> bool" where
  "wf_expr e \<longleftrightarrow> length (expr_coeffs e) = totalVars (expr_space e)"

lemma withinLimits_iff:
  "withinLimits e \<longleftrightarrow> in_limit (expr_constant e) \<and> (\<forall>c \<in> set (expr_coeffs e). in_limit c)"
  by (auto simp: withinLimits_def in_limit_def)

lemma exprEqual_iff [simp]: "exprEqual a b \<longleftrightarrow> a = b"
  by (auto simp: exprEqual_def exprSpacesMatch_def list_eq_iff_nth_eq intro!: affine_expr.equality)

lemma expr_val_fromConstant [simp]: "expr_val (expr_fromConstant sp v) x = of_int v"
  by (simp add: expr_val_def expr_fromConstant_def)

lemma expr_val_variable: "v < totalVars sp \<Longrightarrow> expr_val (expr_variable sp v) x = x v"
  by (simp add: expr_val_def expr_variable_def Let_def)

lemma wf_expr_intros [wf_intros, simp]:
  "wf_expr (expr_fromConstant sp v)" "wf_expr (expr_variable sp i)"
  by (simp_all add: wf_expr_def expr_fromConstant_def expr_variable_def Let_def)

lemma expr_isConstant_sound: "expr_isConstant e = Some v \<Longrightarrow> expr_val e x = of_int v"
  by (auto simp: expr_isConstant_def expr_val_def lin_all_zero split: if_splits)

section \<open>Evaluation\<close>

lemma eval_step_Inr:
  "eval_step (c, v) acc = Inr r \<longleftrightarrow> r = acc + c * v \<and> (c = 0 \<or> in_i64 (c * v) \<and> in_i64 r)"
  by (auto simp: eval_step_def checked_mul_def checked_add_def)

lemma eval_step_Inl: "eval_step cv acc = Inl e \<Longrightarrow> e = Err ResourceExhausted"
  by (auto simp: eval_step_def mlk_try_Inl_iff or_exhausted_def split: prod.splits if_splits option.splits)

lemma eval_terms_Nil [simp]: "eval_terms [] vs acc = Inr acc"
  by (simp add: eval_terms_def)

lemma eval_terms_Cons:
  "eval_terms (c # cs) (v # vs) acc = mlk_try (eval_step (c, v) acc) (eval_terms cs vs)"
  by (cases "eval_step (c, v) acc") (simp_all add: eval_terms_def)

lemma eval_terms_Inr:
  assumes "eval_terms cs vs acc = Inr r" and "length cs \<le> length vs"
  shows "r = acc + lin cs (pt vs)"
  using assms
proof (induction cs arbitrary: vs acc)
  case Nil
  then show ?case by simp
next
  case (Cons c cs)
  then obtain v vs' where vs: "vs = v # vs'" by (cases vs) auto
  with Cons.prems obtain a where a: "eval_step (c, v) acc = Inr a" "eval_terms cs vs' a = Inr r"
    by (auto simp: eval_terms_Cons)
  with Cons.IH [of vs' a] Cons.prems vs have "r = acc + c * v + lin cs (pt vs')"
    by (auto simp: eval_step_Inr)
  moreover have "(\<lambda>i. pt vs (Suc i)) = (pt vs' :: nat \<Rightarrow> int)" "pt vs 0 = v"
    by (auto simp: pt_def vs)
  ultimately show ?case by (simp add: lin_Cons)
qed

lemma eval_terms_total:
  assumes "\<And>c. c \<in> set cs \<Longrightarrow> in_limit c" and "\<And>v. v \<in> set vs \<Longrightarrow> in_limit v"
    and "length cs = length vs"
    and "\<bar>acc\<bar> + int (length cs) * 1152921504606846976 \<le> INT64_MAX"
  shows "\<exists>r. eval_terms cs vs acc = Inr r"
  using assms
proof (induction cs arbitrary: vs acc)
  case Nil
  then show ?case by simp
next
  case (Cons c cs)
  then obtain v vs' where vs: "vs = v # vs'" by (cases vs) auto
  have b: "\<bar>c * v\<bar> \<le> 1152921504606846976"
    using Cons.prems vs by (intro in_limit_mult_bound) auto
  then have acc: "\<bar>acc + c * v\<bar> + int (length cs) * 1152921504606846976 \<le> INT64_MAX"
    using Cons.prems(4) by (auto simp: algebra_simps)
  moreover have "0 \<le> int (length cs) * 1152921504606846976" by simp
  ultimately have "in_i64 (acc + c * v)" "in_i64 (c * v)"
    using b unfolding i64_defs abs_le_iff by linarith+
  then have "eval_step (c, v) acc = Inr (acc + c * v)" by (auto simp: eval_step_Inr)
  moreover have "\<exists>r. eval_terms cs vs' (acc + c * v) = Inr r"
    using Cons.prems vs acc by (intro Cons.IH) auto
  ultimately show ?case by (auto simp: vs eval_terms_Cons)
qed

lemma expr_evalAt_Inr:
  "expr_evalAt e vs = Inr r \<Longrightarrow> r = expr_val e (pt vs)"
  by (auto simp: expr_evalAt_def expr_val_def dest: eval_terms_Inr split: if_splits)

section \<open>Addition, scaling, subtraction\<close>

lemma map_nth_pair:
  "length xs = length ys \<Longrightarrow>
   map_res (\<lambda>i. f (xs ! i) (ys ! i)) [0..<length xs] = map_res (\<lambda>(x, y). f x y) (zip xs ys)"
proof -
  assume l: "length xs = length ys"
  have "map_res f' (map g zs) = map_res (\<lambda>z. f' (g z)) zs" for f' :: "'a \<times> 'b \<Rightarrow> 'c result" and g :: "nat \<Rightarrow> 'a \<times> 'b" and zs
    by (induction zs) auto
  moreover have "zip xs ys = map (\<lambda>i. (xs ! i, ys ! i)) [0..<length xs]"
    using l by (intro nth_equalityI) auto
  ultimately show ?thesis by simp
qed

lemma exprAdd_Inr_iff:
  assumes "length (expr_coeffs a) = length (expr_coeffs b)"
  shows "exprAdd a b = Inr c \<longleftrightarrow>
     expr_space a = expr_space b \<and> expr_space c = expr_space a
     \<and> expr_constant c = expr_constant a + expr_constant b
     \<and> expr_coeffs c = map2 (+) (expr_coeffs a) (expr_coeffs b)
     \<and> withinLimits c"
  unfolding exprAdd_def map_nth_pair [OF assms]
  by (auto simp: mlk_try_Inr_iff add_op.map_limited_Inr_iff add_op.limited_Inr_iff
      exprSpacesMatch_def withinLimits_iff intro!: affine_expr.equality)

lemma exprScale_Inr_iff:
  "exprScale a k = Inr c \<longleftrightarrow>
     expr_space c = expr_space a \<and> expr_constant c = expr_constant a * k
     \<and> expr_coeffs c = map (\<lambda>x. x * k) (expr_coeffs a) \<and> withinLimits c"
  unfolding exprScale_def
  by (auto simp: mlk_try_Inr_iff mul_op.map_limited_left_Inr_iff mul_op.limited_Inr_iff
      withinLimits_iff intro!: affine_expr.equality)

lemma exprAdd_val:
  "wf_expr a \<Longrightarrow> wf_expr b \<Longrightarrow> exprAdd a b = Inr c \<Longrightarrow>
     expr_val c x = expr_val a x + expr_val b x \<and> wf_expr c \<and> expr_space c = expr_space a"
proof -
  assume wf: "wf_expr a" "wf_expr b" and c: "exprAdd a b = Inr c"
  then have "expr_space a = expr_space b" by (simp add: exprAdd_def exprSpacesMatch_def split: if_splits)
  with wf have l: "length (expr_coeffs a) = length (expr_coeffs b)" by (simp add: wf_expr_def)
  with wf c show ?thesis
    by (auto simp: exprAdd_Inr_iff [OF l] wf_expr_def expr_val_def lin_map2_add)
qed

lemma exprScale_val:
  "wf_expr a \<Longrightarrow> exprScale a k = Inr c \<Longrightarrow>
     expr_val c x = of_int k * expr_val a x \<and> wf_expr c \<and> expr_space c = expr_space a"
  by (auto simp: exprScale_Inr_iff wf_expr_def expr_val_def lin_map_scale algebra_simps)

lemma exprSub_Inr:
  assumes "wf_expr a" and "wf_expr b" and "exprSub a b = Inr c"
  shows "expr_val c x = expr_val a x - expr_val b x" and "wf_expr c"
    and "expr_space c = expr_space a" and "withinLimits c"
proof -
  from assms(3) obtain nb where nb: "exprScale b (-1) = Inr nb" "exprAdd a nb = Inr c"
    by (auto simp: exprSub_def)
  note s = exprScale_val [OF assms(2) nb(1)]
  have sp: "expr_space a = expr_space nb"
    using nb(2) by (simp add: exprAdd_def exprSpacesMatch_def split: if_splits)
  have l: "length (expr_coeffs a) = length (expr_coeffs nb)"
    using assms(1) s [of "\<lambda>_. 0 :: int"] sp by (simp add: wf_expr_def)
  show "expr_val c x = expr_val a x - expr_val b x" "wf_expr c" "expr_space c = expr_space a"
    using exprAdd_val [OF assms(1) _ nb(2), of x] s [of x] by simp_all
  show "withinLimits c" using nb(2) by (simp add: exprAdd_Inr_iff [OF l])
qed

text \<open>Success is exactly that the result fits: no operation fails on a representable result.\<close>

lemma exprAdd_total:
  assumes "wf_expr a" "wf_expr b" "expr_space a = expr_space b"
    and "in_limit (expr_constant a + expr_constant b)"
    and "\<And>v. v < totalVars (expr_space a) \<Longrightarrow> in_limit (expr_coeffOf a v + expr_coeffOf b v)"
  shows "\<exists>c. exprAdd a b = Inr c"
proof -
  have l: "length (expr_coeffs a) = length (expr_coeffs b)" using assms by (simp add: wf_expr_def)
  have "exprAdd a b = Inr \<lparr>expr_space = expr_space a,
      expr_coeffs = map2 (+) (expr_coeffs a) (expr_coeffs b),
      expr_constant = expr_constant a + expr_constant b\<rparr>"
    using assms l by (subst exprAdd_Inr_iff [OF l])
      (auto simp: withinLimits_iff set_zip wf_expr_def expr_coeffOf_def)
  then show ?thesis by blast
qed

section \<open>Canonical equality rows\<close>

lemma gcd_loop_eq:
  assumes "0 \<le> g" and "in_limit g" and "\<And>c. c \<in> set cs \<Longrightarrow> in_limit c"
  shows "(gcd_loop g cs = None \<longrightarrow> Gcd (insert g (set cs)) = 1) \<and>
    (\<forall>h. gcd_loop g cs = Some h \<longrightarrow> h = Gcd (insert g (set cs)) \<and> in_limit h)"
  using assms
proof (induction cs arbitrary: g)
  case Nil
  then show ?case by simp
next
  case (Cons c cs)
  have e: "ratGcd g c = gcd g c" and l: "in_limit (gcd g c)"
    using Cons.prems by (intro ratGcd_limit; simp)+
  from l Cons.IH [of "gcd g c"] Cons.prems(3)
  have "(gcd_loop (gcd g c) cs = None \<longrightarrow> Gcd (insert (gcd g c) (set cs)) = 1) \<and>
    (\<forall>h. gcd_loop (gcd g c) cs = Some h \<longrightarrow> h = Gcd (insert (gcd g c) (set cs)) \<and> in_limit h)"
    by simp
  moreover have "Gcd (insert g (set (c # cs))) = Gcd (insert (gcd g c) (set cs))"
    by (simp add: gcd.assoc)
  moreover have "Gcd (insert (gcd g c) (set cs)) = 1" if "gcd g c = 1"
    using that by simp
  ultimately show ?case by (cases "gcd g c = 1") (simp_all only: gcd_loop.simps e Let_def if_True if_False simp_thms option.distinct)
qed

lemma gcdNormalize_cases:
  assumes "withinLimits e"
  defines "G \<equiv> Gcd (insert (expr_constant e) (set (expr_coeffs e)))"
  shows "gcdNormalize e = (if G \<le> 1 then e
     else e\<lparr>expr_coeffs := map (\<lambda>c. c div G) (expr_coeffs e), expr_constant := expr_constant e div G\<rparr>)"
proof -
  have lims: "in_limit (expr_constant e)" "\<And>c. c \<in> set (expr_coeffs e) \<Longrightarrow> in_limit c"
    using assms(1) by (auto simp: withinLimits_iff)
  note gl = gcd_loop_eq [of 0 "expr_coeffs e", OF _ _ lims(2)]
  show ?thesis
  proof (cases "gcd_loop 0 (expr_coeffs e)")
    case None
    then have "Gcd (set (expr_coeffs e)) = 1" using gl by simp
    then have "G = 1" by (simp add: G_def)
    then show ?thesis using None by (simp add: gcdNormalize_def)
  next
    case (Some h)
    then have h: "h = Gcd (set (expr_coeffs e))" "in_limit h" using gl by auto
    have g: "ratGcd h (expr_constant e) = G"
      using ratGcd_limit(1) [OF h(2) lims(1)] by (simp add: G_def h(1) gcd.commute)
    have d: "G dvd c" if "c = expr_constant e \<or> c \<in> set (expr_coeffs e)" for c
      using that unfolding G_def by (intro Gcd_dvd) auto
    show ?thesis
      using d by (simp add: gcdNormalize_def Some g Let_def sdiv_dvd)
  qed
qed

lemma gcdNormalize_scales:
  assumes "withinLimits e"
  obtains g where "g > 0" and "expr_coeffs e = map (\<lambda>c. g * c) (expr_coeffs (gcdNormalize e))"
    and "expr_constant e = g * expr_constant (gcdNormalize e)"
proof -
  define G where "G = Gcd (insert (expr_constant e) (set (expr_coeffs e)))"
  note eq = gcdNormalize_cases [OF assms, folded G_def]
  have d: "G dvd c" if "c = expr_constant e \<or> c \<in> set (expr_coeffs e)" for c
    using that unfolding G_def by (intro Gcd_dvd) auto
  show thesis
  proof (cases "G \<le> 1")
    case True
    show thesis by (rule that [of 1]) (use True eq in \<open>simp_all\<close>)
  next
    case False
    have "map (\<lambda>c. G * (c div G)) (expr_coeffs e) = expr_coeffs e"
      using d by (intro map_idI) simp
    then show thesis
      using False eq d [of "expr_constant e"] by (intro that [of G]) (simp_all add: comp_def)
  qed
qed

end
