(* ===== verification/Int_Set.thy ===== *)
theory Int_Set
  imports Affine_Expr
begin

text \<open>
  Constraint rows, conjunctive polyhedra and Fourier-Motzkin elimination, the first half of
  \<open>polyhedral/src/int_set.cpp\<close>. A row holds at a valuation when its form is non-negative (zero
  for an equality); \<open>poly_sat\<close> is the set a polyhedron denotes. Valuations range over any
  ordered ring, so one soundness lemma covers the integer points of the program and the
  rational relaxation on which elimination is exact.
\<close>

section \<open>Data\<close>

record constraint_row =
  row_coeffs :: "int list"
  row_constant :: int
  row_isEquality :: bool

definition allCoeffsZero :: "constraint_row \<Rightarrow> bool" where
  "allCoeffsZero r \<longleftrightarrow> (\<forall>c \<in> set (row_coeffs r). c = 0)"

definition isTriviallyTrue :: "constraint_row \<Rightarrow> bool" where
  "isTriviallyTrue r \<longleftrightarrow>
     (if row_isEquality r then row_constant r = 0 \<and> allCoeffsZero r
      else row_constant r \<ge> 0 \<and> allCoeffsZero r)"

definition isTriviallyFalse :: "constraint_row \<Rightarrow> bool" where
  "isTriviallyFalse r \<longleftrightarrow>
     (if row_isEquality r then row_constant r \<noteq> 0 \<and> allCoeffsZero r
      else row_constant r < 0 \<and> allCoeffsZero r)"

definition row_coeffOf :: "constraint_row \<Rightarrow> nat \<Rightarrow> int" where
  "row_coeffOf r v = (if v < length (row_coeffs r) then row_coeffs r ! v else 0)"

record polyhedron =
  poly_space :: var_space
  poly_rows :: "constraint_row list"
  isEmptyFlag :: bool
  rowsOverflow :: bool

text \<open>A default-constructed polyhedron with its space set.\<close>

definition new_poly :: "var_space \<Rightarrow> polyhedron" where
  "new_poly sp = \<lparr>poly_space = sp, poly_rows = [], isEmptyFlag = False, rowsOverflow = False\<rparr>"

definition kPolyMaxRowsPerSystem :: nat where "kPolyMaxRowsPerSystem = 256"
definition kPolyMaxDisjuncts :: nat where "kPolyMaxDisjuncts = 64"
definition kPolyFmMaxIntermediateRows :: nat where "kPolyFmMaxIntermediateRows = 512"
definition kPolyLexBbNodeBudget :: nat where "kPolyLexBbNodeBudget = 4096"

datatype feasibility = FEmpty | FNonEmpty | FUnknown

section \<open>Row arithmetic\<close>

definition floorDiv :: "int \<Rightarrow> int \<Rightarrow> int" where
  "floorDiv a b = (let q = a sdiv b in
     if a smod b \<noteq> 0 \<and> (a < 0) \<noteq> (b < 0) then q - 1 else q)"

definition ceilDiv :: "int \<Rightarrow> int \<Rightarrow> int" where
  "ceilDiv a b = - floorDiv (- a) b"

fun lexLess :: "int list \<Rightarrow> int list \<Rightarrow> bool" where
  "lexLess (x # xs) (y # ys) = (if x \<noteq> y then x < y else lexLess xs ys)"
| "lexLess [] ys = (ys \<noteq> [])"
| "lexLess (x # xs) [] = False"

definition scaleRow :: "constraint_row \<Rightarrow> int \<Rightarrow> constraint_row result" where
  "scaleRow r k =
     (if k \<le> 0 then Inl (Err InvalidArgument) else
      mlk_try (mulLimited (row_constant r) k) (\<lambda>cst.
      mlk_try (map_res (\<lambda>c. mulLimited c k) (row_coeffs r)) (\<lambda>cs.
        Inr \<lparr>row_coeffs = cs, row_constant = cst, row_isEquality = row_isEquality r\<rparr>)))"

text \<open>The coefficient loops of \<open>addRows\<close> and \<open>subRows\<close> run to the shorter length, as \<open>zip\<close> does.\<close>

definition addRows :: "constraint_row \<Rightarrow> constraint_row \<Rightarrow> constraint_row result" where
  "addRows a b =
     mlk_try (addLimited (row_constant a) (row_constant b)) (\<lambda>cst.
     mlk_try (map_res (\<lambda>(x, y). addLimited x y) (zip (row_coeffs a) (row_coeffs b))) (\<lambda>cs.
       Inr \<lparr>row_coeffs = cs, row_constant = cst,
            row_isEquality = (row_isEquality a \<and> row_isEquality b)\<rparr>))"

definition subRows :: "constraint_row \<Rightarrow> constraint_row \<Rightarrow> constraint_row result" where
  "subRows a b =
     mlk_try (subLimited (row_constant a) (row_constant b)) (\<lambda>cst.
     mlk_try (map_res (\<lambda>(x, y). subLimited x y) (zip (row_coeffs a) (row_coeffs b))) (\<lambda>cs.
       Inr \<lparr>row_coeffs = cs, row_constant = cst,
            row_isEquality = (row_isEquality a \<and> row_isEquality b)\<rparr>))"

definition rowsEquivalent :: "constraint_row \<Rightarrow> constraint_row \<Rightarrow> bool" where
  "rowsEquivalent a b \<longleftrightarrow> row_coeffs a = row_coeffs b \<and> row_constant a = row_constant b
     \<and> row_isEquality a = row_isEquality b"

section \<open>Systems\<close>

text \<open>
  The scan of \<open>simplifySystem\<close>. A kept row is moved out of the system, which leaves its
  coefficient vector empty; when a contradiction ends the scan the system keeps those remains
  (\<open>seen\<close>) and the rows not yet visited.
\<close>

definition moved_from :: "constraint_row \<Rightarrow> constraint_row" where
  "moved_from r = r\<lparr>row_coeffs := []\<rparr>"

fun simplify_loop :: "constraint_row list \<Rightarrow> constraint_row list \<Rightarrow> constraint_row list
    \<Rightarrow> bool \<times> constraint_row list" where
  "simplify_loop [] kept seen = (False, kept)"
| "simplify_loop (r # rs) kept seen =
     (if isTriviallyFalse r then (True, seen @ r # rs)
      else if isTriviallyTrue r then simplify_loop rs kept (seen @ [r])
      else if \<exists>k \<in> set kept. rowsEquivalent k r then simplify_loop rs kept (seen @ [r])
      else simplify_loop rs (kept @ [r]) (seen @ [moved_from r]))"

definition simplifySystem :: "polyhedron \<Rightarrow> polyhedron" where
  "simplifySystem sys = (case simplify_loop (poly_rows sys) [] [] of
     (contradiction, rows) \<Rightarrow>
       sys\<lparr>poly_rows := rows, isEmptyFlag := isEmptyFlag sys \<or> contradiction\<rparr>)"

definition addRow :: "polyhedron \<Rightarrow> constraint_row \<Rightarrow> polyhedron" where
  "addRow p row =
     (if isEmptyFlag p then p else
      let row = row\<lparr>row_coeffs := pad_to (totalVars (poly_space p)) (row_coeffs row)\<rparr> in
      if isTriviallyFalse row then p\<lparr>isEmptyFlag := True\<rparr>
      else if isTriviallyTrue row then p
      else if length (poly_rows p) \<ge> kPolyMaxRowsPerSystem then p\<lparr>rowsOverflow := True\<rparr>
      else p\<lparr>poly_rows := poly_rows p @ [row]\<rparr>)"

definition addInequality :: "polyhedron \<Rightarrow> int list \<Rightarrow> int \<Rightarrow> polyhedron" where
  "addInequality p cs c = addRow p \<lparr>row_coeffs = cs, row_constant = c, row_isEquality = False\<rparr>"

definition addEquality :: "polyhedron \<Rightarrow> int list \<Rightarrow> int \<Rightarrow> polyhedron" where
  "addEquality p cs c = addRow p \<lparr>row_coeffs = cs, row_constant = c, row_isEquality = True\<rparr>"

text \<open>The exact point check: an evaluation that overflows counts as a violated row.\<close>

definition row_containsPoint :: "constraint_row \<Rightarrow> int list \<Rightarrow> bool" where
  "row_containsPoint r vars = (case eval_terms (row_coeffs r) vars (row_constant r) of
     Inl _ \<Rightarrow> False
   | Inr acc \<Rightarrow> if row_isEquality r then acc = 0 else \<not> acc < 0)"

definition poly_containsPoint :: "polyhedron \<Rightarrow> int list \<Rightarrow> bool" where
  "poly_containsPoint p vars =
     (if isEmptyFlag p then False
      else if length vars < totalVars (poly_space p) then False
      else \<forall>r \<in> set (poly_rows p). row_containsPoint r vars)"

section \<open>Fourier-Motzkin elimination\<close>

record fm_outcome =
  fm_empty :: bool
  fm_budgetExceeded :: bool
  fm_projected :: polyhedron

text \<open>Phase 1, one row: cancel \<open>var\<close> from \<open>w\<close> with the equality \<open>eq\<close>.\<close>

definition fm_merge :: "constraint_row \<Rightarrow> nat \<Rightarrow> constraint_row \<Rightarrow> constraint_row result" where
  "fm_merge eq var w =
     (let cv = row_coeffOf eq var; cw = row_coeffOf w var; sgn = (if cv > 0 then 1 else -1) in
      mlk_try (if cv > 0 then Inr cv else plain64 (- cv)) (\<lambda>absCv.
      mlk_try (plain64 (cw * sgn)) (\<lambda>factor.
      mlk_try (scaleRow w absCv) (\<lambda>ws.
      mlk_try (if factor < 0 then plain64 (- factor) else Inr factor) (\<lambda>k.
      mlk_try (scaleRow eq k) (\<lambda>eqScaled.
        if factor \<ge> 0 then subRows ws eqScaled else addRows ws eqScaled))))))"

definition consumed_row :: constraint_row where
  "consumed_row = \<lparr>row_coeffs = [], row_constant = 0, row_isEquality = False\<rparr>"

definition fm_substitute :: "nat \<Rightarrow> polyhedron \<Rightarrow> nat \<Rightarrow> polyhedron result" where
  "fm_substitute var sys ei =
     mlk_try (map_res (\<lambda>(wi, w). if wi = ei \<or> row_coeffOf w var = 0 then Inr w
                 else fm_merge (poly_rows sys ! ei) var w) (enumerate 0 (poly_rows sys))) (\<lambda>rows.
       Inr (simplifySystem (sys\<lparr>poly_rows := rows[ei := consumed_row]\<rparr>)))"

definition fm_pivot :: "nat \<Rightarrow> constraint_row \<Rightarrow> bool" where
  "fm_pivot var r \<longleftrightarrow> row_isEquality r \<and> row_coeffOf r var \<noteq> 0"

text \<open>A substitution round either finds a contradiction or removes at least one row.\<close>

lemma simplify_loop_length:
  "simplify_loop rs kept seen = (False, rows) \<Longrightarrow>
     length rows + length (filter isTriviallyTrue rs) \<le> length kept + length rs"
  by (induction rs kept seen rule: simplify_loop.induct) (fastforce split: if_splits)+

lemma consumed_row_trivial: "isTriviallyTrue consumed_row"
  by (simp add: isTriviallyTrue_def consumed_row_def allCoeffsZero_def)

lemma simplifySystem_shrinks:
  assumes "i < length (poly_rows p)" and "isTriviallyTrue (poly_rows p ! i)"
    and "\<not> isEmptyFlag (simplifySystem p)"
  shows "length (poly_rows (simplifySystem p)) < length (poly_rows p)"
proof -
  obtain b rows where l: "simplify_loop (poly_rows p) [] [] = (b, rows)" by fastforce
  with assms(3) have b: "b = False" by (simp add: simplifySystem_def)
  have "filter isTriviallyTrue (poly_rows p) \<noteq> []"
    using assms(1,2) nth_mem by (auto simp: filter_empty_conv)
  then obtain k where "length (filter isTriviallyTrue (poly_rows p)) = Suc k"
    by (cases "filter isTriviallyTrue (poly_rows p)") auto
  then show ?thesis
    using simplify_loop_length [OF l [unfolded b]] l unfolding simplifySystem_def b by simp
qed

lemma fm_substitute_shrinks:
  assumes "fm_substitute var sys ei = Inr sys'" and "ei < length (poly_rows sys)"
  shows "isEmptyFlag sys' \<or> length (poly_rows sys') < length (poly_rows sys)"
proof -
  from assms(1) obtain rows where rows: "length rows = length (poly_rows sys)"
    "sys' = simplifySystem (sys\<lparr>poly_rows := rows[ei := consumed_row]\<rparr>)"
    by (auto simp: fm_substitute_def mlk_try_Inr_iff dest: map_res_length)
  show ?thesis
    using simplifySystem_shrinks [of ei "sys\<lparr>poly_rows := rows[ei := consumed_row]\<rparr>"] assms(2) rows
    by (auto simp: consumed_row_trivial)
qed

function fm_phase1 :: "nat \<Rightarrow> polyhedron \<Rightarrow> polyhedron result" where
  "fm_phase1 var sys =
     (if isEmptyFlag sys then Inr sys
      else case find_index (fm_pivot var) (poly_rows sys) of
        None \<Rightarrow> Inr sys
      | Some ei \<Rightarrow> mlk_try (fm_substitute var sys ei) (fm_phase1 var))"
  by pat_completeness auto
termination
proof (relation "measure (\<lambda>(var, sys). if isEmptyFlag sys then 0 else Suc (length (poly_rows sys)))")
  fix var :: nat and sys ei sys'
  assume a: "\<not> isEmptyFlag sys" "find_index (fm_pivot var) (poly_rows sys) = Some ei"
    "fm_substitute var sys ei = Inr sys'"
  then show "((var, sys'), var, sys)
      \<in> measure (\<lambda>(var, sys). if isEmptyFlag sys then 0 else Suc (length (poly_rows sys)))"
    using fm_substitute_shrinks [OF a(3)] find_index_Some [OF a(2)] by auto
qed auto

declare fm_phase1.simps [simp del]

text \<open>Phase 2: combine every row that bounds \<open>var\<close> from below with every row that bounds it from above.\<close>

fun fm_pairs :: "nat \<Rightarrow> (constraint_row \<times> constraint_row) list \<Rightarrow> polyhedron \<Rightarrow> fm_outcome result" where
  "fm_pairs var [] proj = Inr \<lparr>fm_empty = False, fm_budgetExceeded = False, fm_projected = proj\<rparr>"
| "fm_pairs var ((p, n) # ps) proj =
     (if length (poly_rows proj) \<ge> kPolyFmMaxIntermediateRows
      then Inr \<lparr>fm_empty = False, fm_budgetExceeded = True, fm_projected = proj\<rparr>
      else
        mlk_try (plain64 (- row_coeffOf n var)) (\<lambda>k.
        mlk_try (scaleRow p k) (\<lambda>ps'.
        mlk_try (scaleRow n (row_coeffOf p var)) (\<lambda>ns.
        mlk_try (addRows ps' ns) (\<lambda>merged.
          let proj' = addRow proj merged in
          if isEmptyFlag proj'
          then Inr \<lparr>fm_empty = True, fm_budgetExceeded = False, fm_projected = proj'\<rparr>
          else fm_pairs var ps proj')))))"

definition fm_phase2 :: "nat \<Rightarrow> polyhedron \<Rightarrow> fm_outcome result" where
  "fm_phase2 var sys =
     (let neutral = filter (\<lambda>r. row_coeffOf r var = 0) (poly_rows sys);
          pos = filter (\<lambda>r. row_coeffOf r var > 0) (poly_rows sys);
          neg = filter (\<lambda>r. row_coeffOf r var < 0) (poly_rows sys);
          proj = fold (\<lambda>r p. addRow p r) neutral (new_poly (poly_space sys))
      in if isEmptyFlag proj
         then Inr \<lparr>fm_empty = True, fm_budgetExceeded = False, fm_projected = proj\<rparr>
         else mlk_try (fm_pairs var (List.product pos neg) proj) (\<lambda>out.
           if fm_empty out \<or> fm_budgetExceeded out then Inr out
           else let proj' = simplifySystem (fm_projected out) in
             Inr (out\<lparr>fm_projected := proj', fm_empty := isEmptyFlag proj'\<rparr>)))"

definition fmEliminate :: "polyhedron \<Rightarrow> nat \<Rightarrow> fm_outcome result" where
  "fmEliminate sys var =
     mlk_try (fm_phase1 var sys) (\<lambda>sys'.
       if isEmptyFlag sys'
       then Inr \<lparr>fm_empty = True, fm_budgetExceeded = False, fm_projected = new_poly (poly_space sys)\<rparr>
       else fm_phase2 var sys')"

text \<open>The variable with the fewest occurrences among those that occur, the first on a tie.\<close>

definition var_count :: "constraint_row list \<Rightarrow> nat \<Rightarrow> nat" where
  "var_count rows v = length (filter (\<lambda>r. row_coeffOf r v \<noteq> 0) rows)"

definition pick_var :: "polyhedron \<Rightarrow> nat option" where
  "pick_var sys = fold (\<lambda>v best. let cnt = var_count (poly_rows sys) v in
     if cnt = 0 then best
     else case best of None \<Rightarrow> Some v
       | Some b \<Rightarrow> if cnt < var_count (poly_rows sys) b then Some v else Some b)
     [0..<totalVars (poly_space sys)] None"

fun eliminate_rounds :: "nat \<Rightarrow> polyhedron \<Rightarrow> feasibility result" where
  "eliminate_rounds 0 sys =
     Inr (if \<exists>r \<in> set (poly_rows sys). isTriviallyFalse r then FEmpty else FNonEmpty)"
| "eliminate_rounds (Suc k) sys =
     (case pick_var sys of
        None \<Rightarrow> Inr FNonEmpty
      | Some v \<Rightarrow> mlk_try (fmEliminate sys v) (\<lambda>fm.
          if fm_empty fm then Inr FEmpty
          else if fm_budgetExceeded fm then Inr FUnknown
          else let sys' = simplifySystem (fm_projected fm) in
            if isEmptyFlag sys' then Inr FEmpty
            else if rowsOverflow sys' then Inr FUnknown
            else eliminate_rounds k sys'))"

definition eliminateAll :: "polyhedron \<Rightarrow> feasibility result" where
  "eliminateAll sys0 = (let sys = simplifySystem sys0 in
     if isEmptyFlag sys then Inr FEmpty
     else if rowsOverflow sys then Inr FUnknown
     else eliminate_rounds (totalVars (poly_space sys)) sys)"

end
