(* ===== verification/Fourier_Motzkin.thy ===== *)
theory Fourier_Motzkin
  imports Int_Set
begin

text \<open>
  Correctness of the row operations and of Fourier-Motzkin elimination. Soundness: a point of a
  system, over any ordered ring, is a point of its projection, so an emptied projection proves
  the system empty. Exactness: over an ordered field a point of the projection extends to a
  point of the system, unless the row budget dropped rows. \<open>eliminateAll\<close> therefore decides
  rational emptiness.
\<close>

section \<open>Meaning\<close>

definition row_val :: "constraint_row \<Rightarrow> (nat \<Rightarrow> 'a::linordered_idom) \<Rightarrow> 'a" where
  "row_val r x = of_int (row_constant r) + lin (row_coeffs r) x"

definition row_sat :: "constraint_row \<Rightarrow> (nat \<Rightarrow> 'a::linordered_idom) \<Rightarrow> bool" where
  "row_sat r x \<longleftrightarrow> (if row_isEquality r then row_val r x = 0 else 0 \<le> row_val r x)"

definition rows_sat :: "constraint_row list \<Rightarrow> (nat \<Rightarrow> 'a::linordered_idom) \<Rightarrow> bool" where
  "rows_sat rs x \<longleftrightarrow> (\<forall>r \<in> set rs. row_sat r x)"

definition poly_sat :: "polyhedron \<Rightarrow> (nat \<Rightarrow> 'a::linordered_idom) \<Rightarrow> bool" where
  "poly_sat p x \<longleftrightarrow> \<not> isEmptyFlag p \<and> rows_sat (poly_rows p) x"

text \<open>Every row spans the whole space: what \<open>addRow\<close> establishes by padding.\<close>

definition wf_poly :: "polyhedron \<Rightarrow> bool" where
  "wf_poly p \<longleftrightarrow> isEmptyFlag p
     \<or> (\<forall>r \<in> set (poly_rows p). length (row_coeffs r) = totalVars (poly_space p))"

lemma wf_polyD:
  "wf_poly p \<Longrightarrow> \<not> isEmptyFlag p \<Longrightarrow> r \<in> set (poly_rows p)
     \<Longrightarrow> length (row_coeffs r) = totalVars (poly_space p)"
  by (auto simp: wf_poly_def)

lemma rows_sat_simps [simp]:
  "rows_sat [] x" "rows_sat (r # rs) x \<longleftrightarrow> row_sat r x \<and> rows_sat rs x"
  "rows_sat (rs @ qs) x \<longleftrightarrow> rows_sat rs x \<and> rows_sat qs x"
  by (auto simp: rows_sat_def)

lemma row_coeffOf_eq: "row_coeffOf r v = coeff_of (row_coeffs r) v"
  by (simp add: row_coeffOf_def coeff_of_def)

lemma row_val_pad [simp]: "row_val (r\<lparr>row_coeffs := pad_to n (row_coeffs r)\<rparr>) x = row_val r x"
  by (simp add: row_val_def)

lemma row_sat_pad [simp]: "row_sat (r\<lparr>row_coeffs := pad_to n (row_coeffs r)\<rparr>) x \<longleftrightarrow> row_sat r x"
  by (simp add: row_sat_def)

lemma row_val_zeros: "allCoeffsZero r \<Longrightarrow> row_val r x = of_int (row_constant r)"
  by (simp add: row_val_def allCoeffsZero_def lin_all_zero)

lemma trivially_false_sat: "isTriviallyFalse r \<Longrightarrow> \<not> row_sat r x"
  by (auto simp: isTriviallyFalse_def row_sat_def row_val_zeros split: if_splits)

lemma trivially_true_sat: "isTriviallyTrue r \<Longrightarrow> row_sat r x"
  by (auto simp: isTriviallyTrue_def row_sat_def row_val_zeros split: if_splits)

lemma row_val_update: "row_val r (x(v := t)) = row_val r x + of_int (row_coeffOf r v) * (t - x v)"
  by (simp add: row_val_def lin_update row_coeffOf_eq)

lemma row_sat_indep: "row_coeffOf r v = 0 \<Longrightarrow> row_sat r (x(v := t)) \<longleftrightarrow> row_sat r x"
  by (simp add: row_sat_def row_val_update)

lemma row_val_of_int: "row_val r (\<lambda>i. of_int (x i)) = of_int (row_val r x)"
  by (simp add: row_val_def lin_of_int)

lemma row_sat_of_int: "row_sat r (\<lambda>i. of_int (x i) :: 'a::linordered_idom) \<longleftrightarrow> row_sat r x"
  by (simp add: row_sat_def row_val_of_int)

lemma poly_sat_of_int: "poly_sat p (\<lambda>i. of_int (x i) :: 'a::linordered_idom) \<longleftrightarrow> poly_sat p x"
  by (simp add: poly_sat_def rows_sat_def row_sat_of_int)

section \<open>Row arithmetic\<close>

lemma floorDiv_eq: "b \<noteq> 0 \<Longrightarrow> floorDiv a b = a div b"
proof -
  assume b: "b \<noteq> 0"
  show ?thesis
  proof (cases "b > 0")
    case True
    then show ?thesis
      by (auto simp: floorDiv_def Let_def sdiv_smod_pos neg_div_neg dvd_imp_mod_0)
  next
    case False
    with b have nb: "- b > 0" by simp
    have "a sdiv b = - a sdiv - b" "a smod b = 0 \<longleftrightarrow> - a smod - b = 0"
      using b by (auto simp: signed_divide_int_def signed_modulo_int_def sgn_if)
    moreover have "a div b = - a div - b" by simp
    moreover have "a = 0 \<or> a < 0 \<or> a > 0" by auto
    ultimately show ?thesis
      using b nb False sdiv_smod_pos [OF nb, of "- a"] neg_div_neg [OF nb, of "- a"]
      by (auto simp: floorDiv_def Let_def)
  qed
qed

lemma ceilDiv_eq: "b \<noteq> 0 \<Longrightarrow> ceilDiv a b = - (- a div b)"
  by (simp add: ceilDiv_def floorDiv_eq)

lemma scaleRow_Inr:
  "scaleRow r k = Inr q \<Longrightarrow> 0 < k \<and> row_coeffs q = map (\<lambda>c. c * k) (row_coeffs r)
     \<and> row_constant q = row_constant r * k \<and> row_isEquality q = row_isEquality r"
  by (auto simp: scaleRow_def mlk_try_Inr_iff mul_op.limited_Inr_iff
      mul_op.map_limited_left_Inr_iff split: if_splits)

lemma addRows_Inr:
  "addRows a b = Inr q \<Longrightarrow> row_coeffs q = map2 (+) (row_coeffs a) (row_coeffs b)
     \<and> row_constant q = row_constant a + row_constant b
     \<and> row_isEquality q = (row_isEquality a \<and> row_isEquality b)"
  by (auto simp: addRows_def mlk_try_Inr_iff add_op.limited_Inr_iff add_op.map_limited_Inr_iff)

lemma subRows_Inr:
  "subRows a b = Inr q \<Longrightarrow> row_coeffs q = map2 (-) (row_coeffs a) (row_coeffs b)
     \<and> row_constant q = row_constant a - row_constant b
     \<and> row_isEquality q = (row_isEquality a \<and> row_isEquality b)"
  by (auto simp: subRows_def mlk_try_Inr_iff sub_op.limited_Inr_iff sub_op.map_limited_Inr_iff)

lemma scaleRow_val: "scaleRow r k = Inr q \<Longrightarrow> row_val q x = of_int k * row_val r x"
  by (auto dest!: scaleRow_Inr simp: row_val_def lin_map_scale algebra_simps)

lemma addRows_val:
  "addRows a b = Inr q \<Longrightarrow> length (row_coeffs a) = length (row_coeffs b) \<Longrightarrow>
     row_val q x = row_val a x + row_val b x"
  by (auto dest!: addRows_Inr simp: row_val_def lin_map2_add)

lemma subRows_val:
  "subRows a b = Inr q \<Longrightarrow> length (row_coeffs a) = length (row_coeffs b) \<Longrightarrow>
     row_val q x = row_val a x - row_val b x"
  by (auto dest!: subRows_Inr simp: row_val_def lin_map2_minus)

section \<open>Systems\<close>

lemma rowsEquivalent_iff [simp]: "rowsEquivalent a b \<longleftrightarrow> a = b"
  by (auto simp: rowsEquivalent_def intro!: constraint_row.equality)

lemma simplify_loop_sat:
  "simplify_loop rs kept seen = (b, rows) \<Longrightarrow>
     (if b then \<not> (rows_sat kept x \<and> rows_sat rs x)
      else rows_sat rows x \<longleftrightarrow> rows_sat kept x \<and> rows_sat rs x)"
  by (induction rs kept seen rule: simplify_loop.induct)
    (auto split: if_splits dest: trivially_false_sat trivially_true_sat simp: rows_sat_def)

lemma simplify_loop_set:
  "simplify_loop rs kept seen = (False, rows) \<Longrightarrow>
     set rows \<subseteq> set kept \<union> set rs \<and>
     (\<forall>r \<in> set rows. r \<in> set kept \<or> \<not> isTriviallyTrue r \<and> \<not> isTriviallyFalse r)"
  by (induction rs kept seen rule: simplify_loop.induct) (auto split: if_splits)

lemma simplifySystem_sat [simp]: "poly_sat (simplifySystem p) x \<longleftrightarrow> poly_sat p x"
  using simplify_loop_sat [of "poly_rows p" "[]" "[]" _ _ x]
  by (auto simp: simplifySystem_def poly_sat_def split: prod.splits if_splits)

lemma simplifySystem_simps [simp]:
  "poly_space (simplifySystem p) = poly_space p"
  "rowsOverflow (simplifySystem p) = rowsOverflow p"
  by (auto simp: simplifySystem_def split: prod.splits)

lemma simplifySystem_rows:
  assumes "\<not> isEmptyFlag (simplifySystem p)" and "r \<in> set (poly_rows (simplifySystem p))"
  shows "r \<in> set (poly_rows p)" and "\<not> isTriviallyTrue r" and "\<not> isTriviallyFalse r"
  using assms simplify_loop_set [of "poly_rows p" "[]" "[]"]
  by (fastforce simp: simplifySystem_def split: prod.splits)+

lemma simplifySystem_flag: "isEmptyFlag p \<Longrightarrow> isEmptyFlag (simplifySystem p)"
  by (auto simp: simplifySystem_def split: prod.splits)

lemma wf_simplifySystem [wf_intros]: "wf_poly p \<Longrightarrow> wf_poly (simplifySystem p)"
  using simplifySystem_rows(1) [of p] simplifySystem_flag [of p]
  by (auto simp: wf_poly_def)

lemma new_poly_simps [simp]:
  "poly_sat (new_poly sp) x" "wf_poly (new_poly sp)" "poly_space (new_poly sp) = sp"
  "\<not> isEmptyFlag (new_poly sp)" "\<not> rowsOverflow (new_poly sp)" "poly_rows (new_poly sp) = []"
  by (simp_all add: new_poly_def poly_sat_def wf_poly_def)

lemma addRow_space [simp]: "poly_space (addRow p r) = poly_space p"
  by (simp add: addRow_def Let_def)

lemma addRow_sound: "poly_sat p x \<Longrightarrow> row_sat r x \<Longrightarrow> poly_sat (addRow p r) x"
  by (auto simp: addRow_def Let_def poly_sat_def dest: trivially_false_sat [of _ x])

lemma addRow_exact:
  "poly_sat (addRow p r) x \<Longrightarrow> \<not> rowsOverflow (addRow p r) \<Longrightarrow> poly_sat p x \<and> row_sat r x"
  by (auto simp: addRow_def Let_def poly_sat_def dest: trivially_true_sat [of _ x] split: if_splits)

lemma addRow_mono: "poly_sat (addRow p r) x \<Longrightarrow> poly_sat p x"
  by (auto simp: addRow_def Let_def poly_sat_def split: if_splits)

lemma addRow_overflow: "rowsOverflow p \<Longrightarrow> rowsOverflow (addRow p r)"
  by (simp add: addRow_def Let_def)

lemma addRow_emptyFlag: "isEmptyFlag p \<Longrightarrow> addRow p r = p"
  by (simp add: addRow_def)

lemma wf_addRow [wf_intros]:
  "wf_poly p \<Longrightarrow> length (row_coeffs r) \<le> totalVars (poly_space p) \<Longrightarrow> wf_poly (addRow p r)"
  by (auto simp: wf_poly_def addRow_def Let_def)

lemma addRow_rows: "set (poly_rows (addRow p r)) \<subseteq>
    insert (r\<lparr>row_coeffs := pad_to (totalVars (poly_space p)) (row_coeffs r)\<rparr>) (set (poly_rows p))"
  by (auto simp: addRow_def Let_def)

lemma addRow_length: "length (poly_rows p) \<le> kPolyMaxRowsPerSystem \<Longrightarrow>
    length (poly_rows (addRow p r)) \<le> kPolyMaxRowsPerSystem"
  by (auto simp: addRow_def Let_def)

text \<open>Adding a list of rows.\<close>

definition addRowList :: "constraint_row list \<Rightarrow> polyhedron \<Rightarrow> polyhedron" where
  "addRowList rs p = fold (\<lambda>r p. addRow p r) rs p"

lemma addRowList_simps [simp]:
  "addRowList [] p = p" "addRowList (r # rs) p = addRowList rs (addRow p r)"
  by (simp_all add: addRowList_def)

lemma addRowList_append: "addRowList (rs @ qs) p = addRowList qs (addRowList rs p)"
  by (simp add: addRowList_def)

lemma addRowList_space [simp]: "poly_space (addRowList rs p) = poly_space p"
  by (induction rs arbitrary: p) auto

lemma addRowList_sound: "poly_sat p x \<Longrightarrow> rows_sat rs x \<Longrightarrow> poly_sat (addRowList rs p) x"
  by (induction rs arbitrary: p) (auto intro: addRow_sound)

lemma addRowList_overflow: "rowsOverflow p \<Longrightarrow> rowsOverflow (addRowList rs p)"
  by (induction rs arbitrary: p) (auto intro: addRow_overflow)

lemma addRowList_exact:
  "poly_sat (addRowList rs p) x \<Longrightarrow> \<not> rowsOverflow (addRowList rs p) \<Longrightarrow> poly_sat p x \<and> rows_sat rs x"
proof (induction rs arbitrary: p)
  case Nil
  then show ?case by simp
next
  case (Cons r rs)
  then have a: "poly_sat (addRow p r) x" "rows_sat rs x" by auto
  moreover have "\<not> rowsOverflow (addRow p r)"
    using Cons.prems(2) addRowList_overflow by auto
  ultimately show ?case using addRow_exact by auto
qed

lemma wf_addRowList [wf_intros]:
  "wf_poly p \<Longrightarrow> (\<And>r. r \<in> set rs \<Longrightarrow> length (row_coeffs r) \<le> totalVars (poly_space p)) \<Longrightarrow>
     wf_poly (addRowList rs p)"
  by (induction rs arbitrary: p) (simp_all add: wf_addRow)

lemma addRowList_length: "length (poly_rows p) \<le> kPolyMaxRowsPerSystem \<Longrightarrow>
    length (poly_rows (addRowList rs p)) \<le> kPolyMaxRowsPerSystem"
  by (induction rs arbitrary: p) (auto intro: addRow_length)

lemma addRowList_P:
  assumes "\<And>r. r \<in> set rs \<Longrightarrow> P (r\<lparr>row_coeffs := pad_to (totalVars (poly_space p)) (row_coeffs r)\<rparr>)"
    and "\<And>r. r \<in> set (poly_rows p) \<Longrightarrow> P r" and "r \<in> set (poly_rows (addRowList rs p))"
  shows "P r"
  using assms
proof (induction rs arbitrary: p)
  case Nil
  then show ?case by simp
next
  case (Cons q rs)
  show ?case
    by (rule Cons.IH [of "addRow p q"]) (use Cons.prems addRow_rows [of p q] in auto)
qed

section \<open>Phase 1: substituting equalities\<close>

text \<open>
  The merged row is a positive multiple of \<open>w\<close> plus a multiple of the equality, chosen so that
  the column of \<open>var\<close> cancels.
\<close>

lemma fm_merge_Inr:
  assumes "fm_merge eq var w = Inr q"
    and "length (row_coeffs eq) = length (row_coeffs w)"
    and "row_isEquality eq" and "row_coeffOf eq var \<noteq> 0"
  obtains k where "0 < k" and "\<And>x :: nat \<Rightarrow> 'a::linordered_idom.
      row_val q x = of_int \<bar>row_coeffOf eq var\<bar> * row_val w x + of_int k * row_val eq x
    \<or> row_val q x = of_int \<bar>row_coeffOf eq var\<bar> * row_val w x - of_int k * row_val eq x"
    and "row_isEquality q = row_isEquality w"
    and "length (row_coeffs q) = length (row_coeffs w)"
    and "row_coeffOf q var = 0"
proof -
  define cv where "cv = row_coeffOf eq var"
  define cw where "cw = row_coeffOf w var"
  define factor where "factor = cw * (if cv > 0 then 1 else -1)"
  have cv: "cv \<noteq> 0" using assms(4) by (simp add: cv_def)
  from assms(1) obtain ws es where
    ws: "scaleRow w \<bar>cv\<bar> = Inr ws" and es: "scaleRow eq \<bar>factor\<bar> = Inr es"
    and q: "(if factor \<ge> 0 then subRows ws es else addRows ws es) = Inr q"
    using cv by (auto simp: fm_merge_def Let_def mlk_try_Inr_iff plain64_Inr abs_if
        simp flip: cv_def cw_def factor_def split: if_splits)
  note wsI = scaleRow_Inr [OF ws] and esI = scaleRow_Inr [OF es]
  have len: "length (row_coeffs ws) = length (row_coeffs es)"
    using wsI esI assms(2) by simp
  have wc: "row_coeffOf ws var = cw * \<bar>cv\<bar>" and ec: "row_coeffOf es var = cv * \<bar>factor\<bar>"
    using wsI esI by (simp_all add: row_coeffOf_eq coeff_of_scale cw_def cv_def)
  show thesis
  proof (rule that [of "\<bar>factor\<bar>"])
    show "0 < \<bar>factor\<bar>" using esI by simp
    show "row_val q x = of_int \<bar>row_coeffOf eq var\<bar> * row_val w x + of_int \<bar>factor\<bar> * row_val eq x
      \<or> row_val q x = of_int \<bar>row_coeffOf eq var\<bar> * row_val w x - of_int \<bar>factor\<bar> * row_val eq x"
      for x :: "nat \<Rightarrow> 'a"
      using q len scaleRow_val [OF ws, of x] scaleRow_val [OF es, of x]
      by (auto simp: addRows_val subRows_val simp flip: cv_def split: if_splits)
    show "row_isEquality q = row_isEquality w"
      using q wsI esI assms(3) by (auto dest!: addRows_Inr subRows_Inr split: if_splits)
    show "length (row_coeffs q) = length (row_coeffs w)"
      using q wsI len by (auto dest!: addRows_Inr subRows_Inr split: if_splits)
    have "row_coeffOf q var = (if factor \<ge> 0 then cw * \<bar>cv\<bar> - cv * \<bar>factor\<bar> else cw * \<bar>cv\<bar> + cv * \<bar>factor\<bar>)"
      using q len wc ec by (auto dest!: addRows_Inr subRows_Inr
          simp: row_coeffOf_eq coeff_of_map2_add coeff_of_map2_minus split: if_splits)
    also have "\<dots> = 0"
      by (auto simp: factor_def abs_if algebra_simps zero_le_mult_iff mult_le_0_iff split: if_splits)
    finally show "row_coeffOf q var = 0" .
  qed
qed

text \<open>A row after the substitution round: equivalent where the equality holds, free of \<open>var\<close>.\<close>

lemma fm_merge_sat:
  assumes "fm_merge eq var w = Inr q"
    and "length (row_coeffs eq) = length (row_coeffs w)"
    and "row_isEquality eq" and "row_coeffOf eq var \<noteq> 0"
    and "row_val eq x = 0"
  shows "row_sat q x \<longleftrightarrow> row_sat w x"
proof -
  from assms(1-4) obtain k where
    "row_val q x = of_int \<bar>row_coeffOf eq var\<bar> * row_val w x + of_int k * row_val eq x
      \<or> row_val q x = of_int \<bar>row_coeffOf eq var\<bar> * row_val w x - of_int k * row_val eq x"
    and e: "row_isEquality q = row_isEquality w"
    by (rule fm_merge_Inr) blast
  then have "row_val q x = of_int \<bar>row_coeffOf eq var\<bar> * row_val w x"
    using assms(5) by auto
  moreover have "0 < (of_int \<bar>row_coeffOf eq var\<bar> :: 'a)" using assms(4) by simp
  ultimately show ?thesis
    unfolding row_sat_def e by (simp add: zero_le_mult_iff del: of_int_abs)
qed

lemma fm_substitute_rows:
  assumes "fm_substitute var sys ei = Inr sys'" and "wf_poly sys" and "\<not> isEmptyFlag sys"
    and "find_index (fm_pivot var) (poly_rows sys) = Some ei"
  defines "eq \<equiv> poly_rows sys ! ei"
  obtains rows where "sys' = simplifySystem (sys\<lparr>poly_rows := rows[ei := consumed_row]\<rparr>)"
    and "length rows = length (poly_rows sys)" and "ei < length rows"
    and "row_isEquality eq" and "row_coeffOf eq var \<noteq> 0"
    and "\<And>i. i < length rows \<Longrightarrow> i \<noteq> ei \<Longrightarrow> row_coeffOf (rows ! i) var = 0"
    and "\<And>i. i < length rows \<Longrightarrow> length (row_coeffs (rows ! i)) = totalVars (poly_space sys)"
    and "\<And>i x. i < length rows \<Longrightarrow> i \<noteq> ei \<Longrightarrow> row_val eq (x :: nat \<Rightarrow> 'a::linordered_idom) = 0 \<Longrightarrow>
        row_sat (rows ! i) x \<longleftrightarrow> row_sat (poly_rows sys ! i) x"
proof -
  from assms(1) [unfolded fm_substitute_def, folded eq_def] obtain rows where
    m: "map_res (\<lambda>(wi, w). if wi = ei \<or> row_coeffOf w var = 0 then Inr w
          else fm_merge eq var w) (enumerate 0 (poly_rows sys)) = Inr rows"
    and s: "sys' = simplifySystem (sys\<lparr>poly_rows := rows[ei := consumed_row]\<rparr>)"
    by (auto simp: mlk_try_Inr_iff)
  note fi = find_index_Some [OF assms(4)]
  have eq: "row_isEquality eq" "row_coeffOf eq var \<noteq> 0"
    using fi by (auto simp: fm_pivot_def eq_def)
  have len: "length rows = length (poly_rows sys)"
    using map_res_length [OF m] by simp
  have row: "(if i = ei \<or> row_coeffOf (poly_rows sys ! i) var = 0 then Inr (poly_rows sys ! i)
      else fm_merge eq var (poly_rows sys ! i)) = Inr (rows ! i)" if "i < length rows" for i
    using m that unfolding map_res_Inr_iff
    by (auto simp: list_all2_conv_all_nth nth_enumerate_eq dest!: spec [of _ i])
  have wl: "length (row_coeffs (poly_rows sys ! i)) = totalVars (poly_space sys)"
    if "i < length rows" for i
    using assms(2,3) that len by (auto intro: wf_polyD)
  have wle: "length (row_coeffs eq) = totalVars (poly_space sys)"
    using wl fi len by (simp add: eq_def)
  show thesis
  proof (rule that [OF s len _ eq])
    show "ei < length rows" using fi len by simp
    show "row_coeffOf (rows ! i) var = 0" if "i < length rows" "i \<noteq> ei" for i
      using row [OF that(1)] that(2) wl [OF that(1)] wle eq
      by (auto split: if_splits elim: fm_merge_Inr)
    show "length (row_coeffs (rows ! i)) = totalVars (poly_space sys)" if "i < length rows" for i
      using row [OF that] wl [OF that] wle eq
      by (auto split: if_splits elim: fm_merge_Inr)
    show "row_sat (rows ! i) x \<longleftrightarrow> row_sat (poly_rows sys ! i) x"
      if "i < length rows" "i \<noteq> ei" "row_val eq x = 0" for i and x :: "nat \<Rightarrow> 'a"
      using row [OF that(1)] that(2,3) wl [OF that(1)] wle eq
      by (auto split: if_splits simp: fm_merge_sat)
  qed
qed

lemma rows_sat_update:
  "i < length rows \<Longrightarrow> rows_sat (rows[i := r]) x \<longleftrightarrow>
     row_sat r x \<and> (\<forall>j < length rows. j \<noteq> i \<longrightarrow> row_sat (rows ! j) x)"
  by (force simp: rows_sat_def all_set_conv_all_nth nth_list_update)

lemma rows_sat_nth: "rows_sat rows x \<longleftrightarrow> (\<forall>j < length rows. row_sat (rows ! j) x)"
  by (simp add: rows_sat_def all_set_conv_all_nth)

lemma fm_substitute_sound:
  assumes "fm_substitute var sys ei = Inr sys'" and "wf_poly sys" and "\<not> isEmptyFlag sys"
    and "find_index (fm_pivot var) (poly_rows sys) = Some ei"
    and "poly_sat sys x"
  shows "poly_sat sys' x"
  using assms(1-4)
proof (rule fm_substitute_rows [where 'a = 'a])
  fix rows
  assume s: "sys' = simplifySystem (sys\<lparr>poly_rows := rows[ei := consumed_row]\<rparr>)"
    and l: "length rows = length (poly_rows sys)" "ei < length rows"
    and eq: "row_isEquality (poly_rows sys ! ei)"
    and sat: "\<And>i x. i < length rows \<Longrightarrow> i \<noteq> ei \<Longrightarrow> row_val (poly_rows sys ! ei) (x :: nat \<Rightarrow> 'a) = 0 \<Longrightarrow>
        row_sat (rows ! i) x \<longleftrightarrow> row_sat (poly_rows sys ! i) x"
  have all: "row_sat (poly_rows sys ! i) x" if "i < length rows" for i
    using assms(5) that l by (simp add: poly_sat_def rows_sat_nth)
  have "row_val (poly_rows sys ! ei) x = 0"
    using all [OF l(2)] eq by (simp add: row_sat_def)
  then have "rows_sat (rows[ei := consumed_row]) x"
    using all sat l(2) by (simp add: rows_sat_update trivially_true_sat consumed_row_trivial)
  then show ?thesis using assms(3) by (simp add: s) (simp add: poly_sat_def)
qed

lemma fm_substitute_exact:
  fixes x :: "nat \<Rightarrow> 'a::linordered_field"
  assumes "fm_substitute var sys ei = Inr sys'" and "wf_poly sys" and "\<not> isEmptyFlag sys"
    and "find_index (fm_pivot var) (poly_rows sys) = Some ei"
    and "poly_sat sys' x"
  shows "\<exists>t. poly_sat sys (x(var := t))"
  using assms(1-4)
proof (rule fm_substitute_rows [where 'a = 'a])
  fix rows
  let ?eq = "poly_rows sys ! ei"
  assume s: "sys' = simplifySystem (sys\<lparr>poly_rows := rows[ei := consumed_row]\<rparr>)"
    and l: "length rows = length (poly_rows sys)" "ei < length rows"
    and eq: "row_isEquality ?eq" "row_coeffOf ?eq var \<noteq> 0"
    and free: "\<And>i. i < length rows \<Longrightarrow> i \<noteq> ei \<Longrightarrow> row_coeffOf (rows ! i) var = 0"
    and sat: "\<And>i x. i < length rows \<Longrightarrow> i \<noteq> ei \<Longrightarrow> row_val ?eq (x :: nat \<Rightarrow> 'a) = 0 \<Longrightarrow>
        row_sat (rows ! i) x \<longleftrightarrow> row_sat (poly_rows sys ! i) x"
  define t where "t = x var - row_val ?eq x / of_int (row_coeffOf ?eq var)"
  have z: "row_val ?eq (x(var := t)) = 0"
    using eq(2) by (simp add: row_val_update t_def)
  have "rows_sat (rows[ei := consumed_row]) x"
    using assms(5) by (simp add: s) (simp add: poly_sat_def)
  then have "row_sat (rows ! i) (x(var := t))" if "i < length rows" "i \<noteq> ei" for i
    using that free l(2) by (simp add: rows_sat_update row_sat_indep)
  then have "row_sat (poly_rows sys ! i) (x(var := t))" if "i < length rows" for i
    using that sat [OF that _ z] eq(1) z by (cases "i = ei") (auto simp: row_sat_def)
  then show ?thesis using assms(3) l(1) by (auto simp: poly_sat_def rows_sat_nth)
qed

lemma fm_substitute_wf:
  assumes "fm_substitute var sys ei = Inr sys'" and "wf_poly sys" and "\<not> isEmptyFlag sys"
    and "find_index (fm_pivot var) (poly_rows sys) = Some ei"
  shows "wf_poly sys' \<and> poly_space sys' = poly_space sys \<and> rowsOverflow sys' = rowsOverflow sys"
  using assms
proof (rule fm_substitute_rows)
  fix rows
  assume s: "sys' = simplifySystem (sys\<lparr>poly_rows := rows[ei := consumed_row]\<rparr>)"
    and len: "\<And>i. i < length rows \<Longrightarrow> length (row_coeffs (rows ! i)) = totalVars (poly_space sys)"
  have "length (row_coeffs r) = totalVars (poly_space sys)"
    if "r \<in> set (poly_rows sys')" "\<not> isEmptyFlag sys'" for r
  proof -
    have "r \<in> set (rows[ei := consumed_row])" "r \<noteq> consumed_row"
      using simplifySystem_rows [OF that(2,1) [unfolded s]] consumed_row_trivial by auto
    then have "r \<in> set rows" by (auto dest: set_update_subset_insert [THEN subsetD])
    then show ?thesis using len by (auto simp: in_set_conv_nth)
  qed
  then show ?thesis using s by (auto simp: wf_poly_def)
qed

lemma fm_phase1_stop:
  "isEmptyFlag sys \<or> find_index (fm_pivot var) (poly_rows sys) = None \<Longrightarrow> fm_phase1 var sys = Inr sys"
  by (auto simp: fm_phase1.simps [of var sys])

lemma fm_phase1_props:
  assumes "fm_phase1 var sys = Inr sys'" and "wf_poly sys"
  shows "wf_poly sys' \<and> poly_space sys' = poly_space sys \<and> rowsOverflow sys' = rowsOverflow sys
    \<and> (isEmptyFlag sys' \<or> (\<forall>r \<in> set (poly_rows sys'). \<not> fm_pivot var r))"
  using assms
proof (induction var sys rule: fm_phase1.induct)
  case (1 var sys)
  show ?case
  proof (cases "isEmptyFlag sys \<or> find_index (fm_pivot var) (poly_rows sys) = None")
    case True
    with "1.prems" show ?thesis
      by (auto simp: fm_phase1_stop find_index_None)
  next
    case False
    then obtain ei where ei: "find_index (fm_pivot var) (poly_rows sys) = Some ei" by auto
    with False "1.prems"(1) obtain s where s: "fm_substitute var sys ei = Inr s" "fm_phase1 var s = Inr sys'"
      by (auto simp: fm_phase1.simps [of var sys] mlk_try_Inr_iff)
    note w = fm_substitute_wf [OF s(1) "1.prems"(2) _ ei]
    from "1.IH" [OF _ ei s(1) s(2)] w False show ?thesis by simp
  qed
qed

lemma fm_phase1_sound:
  assumes "fm_phase1 var sys = Inr sys'" and "wf_poly sys" and "poly_sat sys x"
  shows "poly_sat sys' x"
  using assms
proof (induction var sys rule: fm_phase1.induct)
  case (1 var sys)
  show ?case
  proof (cases "isEmptyFlag sys \<or> find_index (fm_pivot var) (poly_rows sys) = None")
    case True
    with "1.prems" show ?thesis by (simp add: fm_phase1_stop)
  next
    case False
    then obtain ei where ei: "find_index (fm_pivot var) (poly_rows sys) = Some ei" by auto
    with False "1.prems"(1) obtain s where s: "fm_substitute var sys ei = Inr s" "fm_phase1 var s = Inr sys'"
      by (auto simp: fm_phase1.simps [of var sys] mlk_try_Inr_iff)
    from False have ne: "\<not> isEmptyFlag sys" by simp
    show ?thesis
      using "1.IH" [OF ne ei s(1) s(2)] fm_substitute_wf [OF s(1) "1.prems"(2) ne ei]
        fm_substitute_sound [OF s(1) "1.prems"(2) ne ei "1.prems"(3)] by blast
  qed
qed

lemma fm_phase1_exact:
  fixes x :: "nat \<Rightarrow> 'a::linordered_field"
  assumes "fm_phase1 var sys = Inr sys'" and "wf_poly sys" and "poly_sat sys' x"
  shows "\<exists>t. poly_sat sys (x(var := t))"
  using assms
proof (induction var sys arbitrary: x rule: fm_phase1.induct)
  case (1 var sys)
  show ?case
  proof (cases "isEmptyFlag sys \<or> find_index (fm_pivot var) (poly_rows sys) = None")
    case True
    with "1.prems" show ?thesis
      by (intro exI [of _ "x var"]) (simp add: fm_phase1_stop)
  next
    case False
    then obtain ei where ei: "find_index (fm_pivot var) (poly_rows sys) = Some ei" by auto
    with False "1.prems"(1) obtain s where s: "fm_substitute var sys ei = Inr s" "fm_phase1 var s = Inr sys'"
      by (auto simp: fm_phase1.simps [of var sys] mlk_try_Inr_iff)
    from False have ne: "\<not> isEmptyFlag sys" by simp
    obtain t where "poly_sat s (x(var := t))"
      using "1.IH" [OF ne ei s(1) s(2) _ "1.prems"(3)] fm_substitute_wf [OF s(1) "1.prems"(2) ne ei] by blast
    from fm_substitute_exact [OF s(1) "1.prems"(2) ne ei this] show ?thesis
      by (simp only: fun_upd_upd)
  qed
qed

section \<open>Phase 2: pairwise combination\<close>

definition fm_combined :: "nat \<Rightarrow> constraint_row \<times> constraint_row \<Rightarrow> constraint_row \<Rightarrow> bool" where
  "fm_combined var pn m \<longleftrightarrow> (\<exists>ps ns. scaleRow (fst pn) (- row_coeffOf (snd pn) var) = Inr ps
     \<and> scaleRow (snd pn) (row_coeffOf (fst pn) var) = Inr ns \<and> addRows ps ns = Inr m)"

lemma fm_combined_props:
  assumes "fm_combined var (p, n) m" and "length (row_coeffs p) = length (row_coeffs n)"
  shows "row_val m x = of_int (- row_coeffOf n var) * row_val p x + of_int (row_coeffOf p var) * row_val n x"
    and "row_coeffOf m var = 0" and "length (row_coeffs m) = length (row_coeffs p)"
    and "row_isEquality m \<longleftrightarrow> row_isEquality p \<and> row_isEquality n"
    and "row_coeffOf p var > 0" and "row_coeffOf n var < 0"
proof -
  from assms(1) obtain ps ns where s: "scaleRow p (- row_coeffOf n var) = Inr ps"
    "scaleRow n (row_coeffOf p var) = Inr ns" "addRows ps ns = Inr m"
    by (auto simp: fm_combined_def)
  note sI = scaleRow_Inr [OF s(1)] scaleRow_Inr [OF s(2)] addRows_Inr [OF s(3)]
  have len: "length (row_coeffs ps) = length (row_coeffs ns)" using sI assms(2) by simp
  show "row_val m x = of_int (- row_coeffOf n var) * row_val p x + of_int (row_coeffOf p var) * row_val n x"
    using addRows_val [OF s(3) len, of x] scaleRow_val [OF s(1), of x] scaleRow_val [OF s(2), of x] by simp
  have "row_coeffOf ps var = row_coeffOf p var * - row_coeffOf n var"
    "row_coeffOf ns var = row_coeffOf n var * row_coeffOf p var"
    using sI by (simp_all only: row_coeffOf_eq coeff_of_scale)
  moreover have "row_coeffOf m var = row_coeffOf ps var + row_coeffOf ns var"
    using sI len by (simp only: row_coeffOf_eq coeff_of_map2_add)
  ultimately show "row_coeffOf m var = 0" by simp
  show "length (row_coeffs m) = length (row_coeffs p)"
    "row_isEquality m \<longleftrightarrow> row_isEquality p \<and> row_isEquality n"
    "row_coeffOf p var > 0" "row_coeffOf n var < 0"
    using sI assms(2) by auto
qed

lemma fm_combined_sat:
  assumes "fm_combined var (p, n) m" and "length (row_coeffs p) = length (row_coeffs n)"
    and "row_sat p x" and "row_sat n x"
  shows "row_sat m x"
proof -
  have "0 \<le> of_int (- row_coeffOf n var) * row_val p x" "0 \<le> of_int (row_coeffOf p var) * row_val n x"
    using assms(3,4) fm_combined_props(5,6) [OF assms(1,2)]
    by (auto simp: row_sat_def mult_nonneg_nonneg mult_nonpos_nonneg split: if_splits)
  then show ?thesis
    using fm_combined_props(1) [OF assms(1,2), of x] fm_combined_props(4) [OF assms(1,2)] assms(3,4)
    by (auto simp: row_sat_def split: if_splits)
qed

text \<open>What a run of the pair loop did: it added the combinations of a prefix of the pairs, of all
  of them unless it stopped early.\<close>

lemma fm_pairs_run:
  assumes "fm_pairs var ps proj = Inr out" and "\<not> isEmptyFlag proj"
    and "length (poly_rows proj) \<le> kPolyMaxRowsPerSystem"
  shows "\<exists>ms. fm_projected out = addRowList ms proj
    \<and> length ms \<le> length ps \<and> list_all2 (fm_combined var) (take (length ms) ps) ms
    \<and> (fm_empty out \<longleftrightarrow> isEmptyFlag (fm_projected out)) \<and> \<not> fm_budgetExceeded out
    \<and> (\<not> fm_empty out \<longrightarrow> length ms = length ps)"
  using assms
proof (induction var ps proj rule: fm_pairs.induct)
  case (1 var proj)
  then show ?case by (intro exI [of _ "[]"]) auto
next
  case (2 var p n ps proj)
  have nb: "\<not> length (poly_rows proj) \<ge> kPolyFmMaxIntermediateRows"
    using "2.prems"(3) by (simp add: kPolyMaxRowsPerSystem_def kPolyFmMaxIntermediateRows_def)
  from "2.prems"(1) nb obtain ps' ns m where
    s: "scaleRow p (- row_coeffOf n var) = Inr ps'" "scaleRow n (row_coeffOf p var) = Inr ns"
      "addRows ps' ns = Inr m" and k: "plain64 (- row_coeffOf n var) = Inr (- row_coeffOf n var)"
    and out: "(if isEmptyFlag (addRow proj m)
        then Inr \<lparr>fm_empty = True, fm_budgetExceeded = False, fm_projected = addRow proj m\<rparr>
        else fm_pairs var ps (addRow proj m)) = Inr out"
    by (auto simp: mlk_try_Inr_iff plain64_Inr Let_def)
  have c: "fm_combined var (p, n) m" using s by (auto simp: fm_combined_def)
  show ?case
  proof (cases "isEmptyFlag (addRow proj m)")
    case True
    with out c show ?thesis by (intro exI [of _ "[m]"]) auto
  next
    case False
    with out have r: "fm_pairs var ps (addRow proj m) = Inr out" by simp
    have "\<exists>ms. fm_projected out = addRowList ms (addRow proj m)
      \<and> length ms \<le> length ps \<and> list_all2 (fm_combined var) (take (length ms) ps) ms
      \<and> (fm_empty out \<longleftrightarrow> isEmptyFlag (fm_projected out)) \<and> \<not> fm_budgetExceeded out
      \<and> (\<not> fm_empty out \<longrightarrow> length ms = length ps)"
      using "2.IH" [OF nb k s(1) s(2) s(3) refl False r False] addRow_length "2.prems"(3) by blast
    then obtain ms where ms: "fm_projected out = addRowList ms (addRow proj m)"
      "length ms \<le> length ps" "list_all2 (fm_combined var) (take (length ms) ps) ms"
      "fm_empty out \<longleftrightarrow> isEmptyFlag (fm_projected out)" "\<not> fm_budgetExceeded out"
      "\<not> fm_empty out \<longrightarrow> length ms = length ps" by blast
    show ?thesis by (rule exI [of _ "m # ms"]) (use ms c in auto)
  qed
qed

lemma row_sat_bounds:
  fixes x :: "nat \<Rightarrow> 'a::linordered_field"
  assumes "\<not> row_isEquality r"
  shows "row_coeffOf r v > 0 \<Longrightarrow> row_sat r (x(v := t)) \<longleftrightarrow> x v - row_val r x / of_int (row_coeffOf r v) \<le> t"
    and "row_coeffOf r v < 0 \<Longrightarrow> row_sat r (x(v := t)) \<longleftrightarrow> t \<le> x v - row_val r x / of_int (row_coeffOf r v)"
  using assms by (auto simp: row_sat_def row_val_update field_simps)

text \<open>A finite set of lower bounds below a finite set of upper bounds leaves room for a value.\<close>

lemma between_bounds:
  fixes L U :: "'a::linorder set"
  assumes "finite L" and "finite U" and "\<And>l u. l \<in> L \<Longrightarrow> u \<in> U \<Longrightarrow> l \<le> u"
  shows "\<exists>t. (\<forall>l \<in> L. l \<le> t) \<and> (\<forall>u \<in> U. t \<le> u)"
proof (cases "L = {}")
  case False
  then show ?thesis using assms by (intro exI [of _ "Max L"]) auto
next
  case True
  then show ?thesis
    using assms by (cases "U = {}") (auto intro: exI [of _ "Min U"])
qed

lemma fm_combine_exact:
  fixes x :: "nat \<Rightarrow> 'a::linordered_field"
  assumes "\<And>r. r \<in> set rows \<Longrightarrow> row_coeffOf r v \<noteq> 0 \<Longrightarrow> \<not> row_isEquality r"
    and "\<And>r. r \<in> set rows \<Longrightarrow> row_coeffOf r v = 0 \<Longrightarrow> row_sat r x"
    and "\<And>p n. p \<in> set rows \<Longrightarrow> n \<in> set rows \<Longrightarrow> row_coeffOf p v > 0 \<Longrightarrow> row_coeffOf n v < 0 \<Longrightarrow>
        0 \<le> of_int (- row_coeffOf n v) * row_val p x + of_int (row_coeffOf p v) * row_val n x"
  shows "\<exists>t. rows_sat rows (x(v := t))"
proof -
  define b where "b r = x v - row_val r x / of_int (row_coeffOf r v)" for r
  let ?L = "b ` {r \<in> set rows. row_coeffOf r v > 0}" and ?U = "b ` {r \<in> set rows. row_coeffOf r v < 0}"
  have "b p \<le> b n" if "p \<in> set rows" "n \<in> set rows" "row_coeffOf p v > 0" "row_coeffOf n v < 0" for p n
    using assms(3) [OF that] that(3,4) by (simp add: b_def field_simps)
  then obtain t where t: "\<forall>l \<in> ?L. l \<le> t" "\<forall>u \<in> ?U. t \<le> u"
    using between_bounds [of ?L ?U] by auto
  have "row_sat r (x(v := t))" if r: "r \<in> set rows" for r
  proof (cases "row_coeffOf r v = 0")
    case True
    then show ?thesis using assms(2) [OF r] by (simp add: row_sat_indep)
  next
    case False
    then show ?thesis
      using r t assms(1) [OF r False] row_sat_bounds [of r v x t]
      by (cases "row_coeffOf r v > 0") (auto simp: b_def)
  qed
  then show ?thesis by (auto simp: rows_sat_def)
qed

section \<open>Elimination\<close>

lemma fold_addRow: "fold (\<lambda>r p. addRow p r) rs p = addRowList rs p"
  by (simp add: addRowList_def)

definition fm_pair_list :: "nat \<Rightarrow> polyhedron \<Rightarrow> (constraint_row \<times> constraint_row) list" where
  "fm_pair_list var sys = List.product (filter (\<lambda>r. row_coeffOf r var > 0) (poly_rows sys))
     (filter (\<lambda>r. row_coeffOf r var < 0) (poly_rows sys))"

definition fm_neutral :: "nat \<Rightarrow> polyhedron \<Rightarrow> constraint_row list" where
  "fm_neutral var sys = filter (\<lambda>r. row_coeffOf r var = 0) (poly_rows sys)"

lemma fm_pair_list_mem [simp]:
  "(p, n) \<in> set (fm_pair_list var sys) \<longleftrightarrow> p \<in> set (poly_rows sys) \<and> n \<in> set (poly_rows sys)
     \<and> row_coeffOf p var > 0 \<and> row_coeffOf n var < 0"
  by (auto simp: fm_pair_list_def)

lemma fm_neutral_mem [simp]:
  "r \<in> set (fm_neutral var sys) \<longleftrightarrow> r \<in> set (poly_rows sys) \<and> row_coeffOf r var = 0"
  by (auto simp: fm_neutral_def)

lemma fm_phase2_eq:
  "fm_phase2 var sys =
     (let proj = addRowList (fm_neutral var sys) (new_poly (poly_space sys))
      in if isEmptyFlag proj
         then Inr \<lparr>fm_empty = True, fm_budgetExceeded = False, fm_projected = proj\<rparr>
         else mlk_try (fm_pairs var (fm_pair_list var sys) proj) (\<lambda>out.
           if fm_empty out \<or> fm_budgetExceeded out then Inr out
           else let proj' = simplifySystem (fm_projected out) in
             Inr (out\<lparr>fm_projected := proj', fm_empty := isEmptyFlag proj'\<rparr>)))"
  unfolding fm_phase2_def fm_pair_list_def fm_neutral_def Let_def fold_addRow by (rule refl)

text \<open>Everything a successful elimination of a well-formed, unflagged system went through.\<close>

lemma fmEliminate_cases:
  assumes "fmEliminate sys var = Inr out" and "wf_poly sys"
  obtains (empty1) sys' where "fm_phase1 var sys = Inr sys'" "isEmptyFlag sys'" "fm_empty out"
      "\<not> fm_budgetExceeded out"
  | (phase2) sys' ms where "fm_phase1 var sys = Inr sys'" "\<not> isEmptyFlag sys'"
      "wf_poly sys'" "poly_space sys' = poly_space sys" "\<not> fm_budgetExceeded out"
      "\<And>r. r \<in> set (poly_rows sys') \<Longrightarrow> \<not> fm_pivot var r"
      "list_all2 (fm_combined var) (take (length ms) (fm_pair_list var sys')) ms"
      "\<not> fm_empty out \<Longrightarrow> length ms = length (fm_pair_list var sys')"
      "fm_empty out \<longleftrightarrow> isEmptyFlag (fm_projected out)"
      "fm_projected out = simplifySystem (addRowList (fm_neutral var sys' @ ms) (new_poly (poly_space sys)))
       \<or> fm_empty out \<and> fm_projected out = addRowList (fm_neutral var sys' @ ms) (new_poly (poly_space sys))"
proof -
  from assms(1) obtain sys' where p1: "fm_phase1 var sys = Inr sys'"
    and rest: "(if isEmptyFlag sys'
       then Inr \<lparr>fm_empty = True, fm_budgetExceeded = False, fm_projected = new_poly (poly_space sys)\<rparr>
       else fm_phase2 var sys') = Inr out"
    by (auto simp: fmEliminate_def)
  note pr = fm_phase1_props [OF p1 assms(2)]
  show thesis
  proof (cases "isEmptyFlag sys'")
    case True
    with rest p1 show thesis by (intro empty1) auto
  next
    case False
    let ?proj = "addRowList (fm_neutral var sys') (new_poly (poly_space sys))"
    have len: "length (poly_rows ?proj) \<le> kPolyMaxRowsPerSystem"
      by (rule addRowList_length) simp
    have piv: "\<not> fm_pivot var r" if "r \<in> set (poly_rows sys')" for r
      using pr False that by auto
    have p2: "fm_phase2 var sys' = Inr out" and sp: "poly_space sys' = poly_space sys"
      using rest False pr by auto
    show thesis
    proof (cases "isEmptyFlag ?proj")
      case True
      show thesis
        by (rule phase2 [of sys' "[]"])
          (use p1 False pr p2 True piv in \<open>auto simp: fm_phase2_eq sp Let_def\<close>)
    next
      case nf: False
      with p2 obtain o1 where o1: "fm_pairs var (fm_pair_list var sys') ?proj = Inr o1"
        and out: "(if fm_empty o1 \<or> fm_budgetExceeded o1 then Inr o1
           else Inr (o1\<lparr>fm_projected := simplifySystem (fm_projected o1),
                   fm_empty := isEmptyFlag (simplifySystem (fm_projected o1))\<rparr>)) = (Inr out :: fm_outcome result)"
        unfolding fm_phase2_eq sp Let_def by (auto simp: mlk_try_Inr_iff)
      from fm_pairs_run [OF o1 nf len] obtain ms where ms:
        "fm_projected o1 = addRowList ms ?proj"
        "list_all2 (fm_combined var) (take (length ms) (fm_pair_list var sys')) ms"
        "fm_empty o1 \<longleftrightarrow> isEmptyFlag (fm_projected o1)" "\<not> fm_budgetExceeded o1"
        "\<not> fm_empty o1 \<longrightarrow> length ms = length (fm_pair_list var sys')" by blast
      show thesis
        by (rule phase2 [of sys' ms])
          (use p1 False pr piv ms out in \<open>auto simp: addRowList_append split: if_splits\<close>)
    qed
  qed
qed

text \<open>The intermediate-row budget of 512 can never be reached: \<open>addRow\<close> stops at 256 first.\<close>

lemma fmEliminate_budget:
  assumes "fmEliminate sys var = Inr out" and "wf_poly sys"
  shows "\<not> fm_budgetExceeded out"
  using assms by (cases rule: fmEliminate_cases) auto

lemma list_all2_takeE:
  assumes "list_all2 P (take n xs) ys" and "y \<in> set ys"
  obtains x where "x \<in> set xs" and "P x y"
  using assms by (metis in_set_takeD list_all2_conv_all_nth in_set_conv_nth)

text \<open>A combination comes from two rows of the system, of the same length.\<close>

lemma fm_combination_source:
  assumes "list_all2 (fm_combined var) (take n (fm_pair_list var sys)) ms" and "m \<in> set ms"
    and "wf_poly sys" and "\<not> isEmptyFlag sys"
  obtains p n where "p \<in> set (poly_rows sys)" and "n \<in> set (poly_rows sys)"
    and "fm_combined var (p, n) m" and "length (row_coeffs p) = length (row_coeffs n)"
    and "length (row_coeffs p) = totalVars (poly_space sys)"
proof -
  from assms(1,2) obtain pn where pn: "pn \<in> set (fm_pair_list var sys)" "fm_combined var pn m"
    by (rule list_all2_takeE)
  obtain p n where "pn = (p, n)" by fastforce
  with pn show thesis using wf_polyD [OF assms(3,4)] by (intro that [of p n]) auto
qed

lemma fmEliminate_sound:
  assumes "fmEliminate sys var = Inr out" and "wf_poly sys" and "poly_sat sys x"
  shows "\<not> fm_empty out \<and> poly_sat (fm_projected out) x"
  using assms(1,2)
proof (cases rule: fmEliminate_cases)
  case (empty1 sys')
  then show ?thesis
    using fm_phase1_sound [OF empty1(1) assms(2,3)] by (simp add: poly_sat_def)
next
  case (phase2 sys' ms)
  have sat: "poly_sat sys' x" by (rule fm_phase1_sound [OF phase2(1) assms(2,3)])
  have "row_sat m x" if m: "m \<in> set ms" for m
    using phase2(7) m phase2(3,2)
    by (rule fm_combination_source) (use sat in \<open>auto simp: poly_sat_def rows_sat_def intro: fm_combined_sat\<close>)
  then have "poly_sat (addRowList (fm_neutral var sys' @ ms) (new_poly (poly_space sys))) x"
    using sat by (intro addRowList_sound) (auto simp: poly_sat_def rows_sat_def)
  then have "poly_sat (fm_projected out) x" using phase2(10) by auto
  then show ?thesis using phase2(9) by (simp add: poly_sat_def)
qed

lemma fmEliminate_exact:
  fixes x :: "nat \<Rightarrow> 'a::linordered_field"
  assumes "fmEliminate sys var = Inr out" and "wf_poly sys"
    and "\<not> fm_empty out" and "\<not> rowsOverflow (fm_projected out)" and "poly_sat (fm_projected out) x"
  shows "\<exists>t. poly_sat sys (x(var := t))"
  using assms(1,2)
proof (cases rule: fmEliminate_cases)
  case (empty1 sys')
  with assms(3) show ?thesis by simp
next
  case (phase2 sys' ms)
  let ?rs = "fm_neutral var sys' @ ms"
  have proj: "fm_projected out = simplifySystem (addRowList ?rs (new_poly (poly_space sys)))"
    using phase2(10) assms(3) by simp
  have sat: "rows_sat ?rs x"
    using addRowList_exact [of ?rs "new_poly (poly_space sys)" x] assms(4,5)
    by (simp add: proj)
  have all: "list_all2 (fm_combined var) (fm_pair_list var sys') ms"
    using phase2(7) phase2(8) [OF assms(3)] by simp
  have comb: "0 \<le> of_int (- row_coeffOf n var) * row_val p x + of_int (row_coeffOf p var) * row_val n x"
    if "p \<in> set (poly_rows sys')" "n \<in> set (poly_rows sys')" "row_coeffOf p var > 0" "row_coeffOf n var < 0" for p n
  proof -
    have "(p, n) \<in> set (fm_pair_list var sys')" using that by simp
    with all obtain m where m: "m \<in> set ms" "fm_combined var (p, n) m"
      by (metis in_set_conv_nth list_all2_conv_all_nth)
    have l: "length (row_coeffs p) = length (row_coeffs n)"
      using that wf_polyD [OF phase2(3,2)] by simp
    have "\<not> row_isEquality p" using phase2(6) [OF that(1)] that(3) by (simp add: fm_pivot_def)
    then have "0 \<le> row_val m x"
      using sat m(1) fm_combined_props(4) [OF m(2) l] by (simp add: rows_sat_def row_sat_def)
    then show ?thesis using fm_combined_props(1) [OF m(2) l, of x] by simp
  qed
  have "\<exists>t. rows_sat (poly_rows sys') (x(var := t))"
    using phase2(6) sat comb
    by (intro fm_combine_exact) (auto simp: fm_pivot_def rows_sat_def)
  then obtain t where "poly_sat sys' (x(var := t))"
    using phase2(2) by (auto simp: poly_sat_def)
  from fm_phase1_exact [OF phase2(1) assms(2) this] show ?thesis by (simp only: fun_upd_upd)
qed

lemma fmEliminate_wf:
  assumes "fmEliminate sys var = Inr out" and "wf_poly sys" and "\<not> fm_empty out"
  shows "wf_poly (fm_projected out)" and "poly_space (fm_projected out) = poly_space sys"
    and "\<And>r. r \<in> set (poly_rows (fm_projected out)) \<Longrightarrow> row_coeffOf r var = 0"
proof -
  have "wf_poly (fm_projected out) \<and> poly_space (fm_projected out) = poly_space sys
    \<and> (\<forall>r \<in> set (poly_rows (fm_projected out)). row_coeffOf r var = 0)"
    using assms(1,2)
  proof (cases rule: fmEliminate_cases)
    case (empty1 sys')
    with assms(3) show ?thesis by simp
  next
    case (phase2 sys' ms)
    let ?rs = "fm_neutral var sys' @ ms"
    have proj: "fm_projected out = simplifySystem (addRowList ?rs (new_poly (poly_space sys)))"
      using phase2(10) assms(3) by simp
    have "length (row_coeffs r) = totalVars (poly_space sys) \<and> row_coeffOf r var = 0" if r: "r \<in> set ms" for r
      using phase2(7) r phase2(3,2)
      by (rule fm_combination_source) (use phase2(4) fm_combined_props(2,3) in metis)
    then have rs: "length (row_coeffs r) = totalVars (poly_space sys) \<and> row_coeffOf r var = 0"
      if "r \<in> set ?rs" for r
      using that wf_polyD [OF phase2(3,2)] phase2(4) by auto
    have "row_coeffOf r var = 0" if "r \<in> set (poly_rows (addRowList ?rs (new_poly (poly_space sys))))" for r
      by (rule addRowList_P [OF _ _ that]) (use rs in \<open>auto simp: row_coeffOf_eq\<close>)
    moreover have "\<not> isEmptyFlag (fm_projected out)" using phase2(9) assms(3) by simp
    ultimately show ?thesis
      unfolding proj using rs
      by (auto intro!: wf_simplifySystem wf_addRowList dest: simplifySystem_rows(1) simp del: set_append)
  qed
  then show "wf_poly (fm_projected out)" "poly_space (fm_projected out) = poly_space sys"
    "\<And>r. r \<in> set (poly_rows (fm_projected out)) \<Longrightarrow> row_coeffOf r var = 0" by blast+
qed

end
