(* ===== verification/Feasibility.thy ===== *)
theory Feasibility
  imports Fourier_Motzkin
begin

text \<open>
  \<open>eliminateAll\<close> of \<open>polyhedral/src/int_set.cpp\<close> decides rational emptiness. Elimination never
  lets a variable that has left the system return, so after as many rounds as the space has
  variables no row mentions any, and the rows that survive \<open>simplifySystem\<close> are none. A verdict
  \<open>FEmpty\<close> therefore excludes every rational (hence every integer) point, and \<open>FNonEmpty\<close>
  exhibits a rational one; \<open>FUnknown\<close> appears only behind a row overflow.
\<close>

section \<open>Variables that occur\<close>

definition var_absent :: "nat \<Rightarrow> polyhedron \<Rightarrow> bool" where
  "var_absent u p \<longleftrightarrow> isEmptyFlag p \<or> (\<forall>r \<in> set (poly_rows p). row_coeffOf r u = 0)"

lemma var_absentD: "var_absent u p \<Longrightarrow> \<not> isEmptyFlag p \<Longrightarrow> r \<in> set (poly_rows p) \<Longrightarrow> row_coeffOf r u = 0"
  by (auto simp: var_absent_def)

lemma var_absent_simplify: "var_absent u p \<Longrightarrow> var_absent u (simplifySystem p)"
  using simplifySystem_rows(1) [of p] simplifySystem_flag [of p] by (auto simp: var_absent_def)

lemma coeff_of_map: "coeff_of (map f cs) v = (if v < length cs then f (coeff_of cs v) else 0)"
  by (simp add: coeff_of_def)

lemma fm_merge_absent:
  assumes "fm_merge eq var w = Inr q" and "row_coeffOf eq u = 0" and "row_coeffOf w u = 0"
    and "length (row_coeffs eq) = length (row_coeffs w)"
  shows "row_coeffOf q u = 0"
  using assms
  by (auto simp: fm_merge_def Let_def mlk_try_Inr_iff row_coeffOf_eq plain64_Inr coeff_of_map2_add
      coeff_of_map2_minus coeff_of_map split: if_splits dest!: scaleRow_Inr addRows_Inr subRows_Inr)

lemma fm_substitute_absent:
  assumes "fm_substitute var sys ei = Inr sys'" and "wf_poly sys" and "\<not> isEmptyFlag sys"
    and "find_index (fm_pivot var) (poly_rows sys) = Some ei" and "var_absent u sys"
  shows "var_absent u sys'"
proof -
  from assms(1) obtain rows where
    m: "map_res (\<lambda>(wi, w). if wi = ei \<or> row_coeffOf w var = 0 then Inr w
          else fm_merge (poly_rows sys ! ei) var w) (enumerate 0 (poly_rows sys)) = Inr rows"
    and s: "sys' = simplifySystem (sys\<lparr>poly_rows := rows[ei := consumed_row]\<rparr>)"
    by (auto simp: fm_substitute_def mlk_try_Inr_iff)
  have ei: "ei < length (poly_rows sys)" using find_index_Some [OF assms(4)] by simp
  have len: "length rows = length (poly_rows sys)" using map_res_length [OF m] by simp
  have row: "(if i = ei \<or> row_coeffOf (poly_rows sys ! i) var = 0 then Inr (poly_rows sys ! i)
      else fm_merge (poly_rows sys ! ei) var (poly_rows sys ! i)) = Inr (rows ! i)"
    if "i < length rows" for i
    using m that unfolding map_res_Inr_iff
    by (auto simp: list_all2_conv_all_nth nth_enumerate_eq dest!: spec [of _ i])
  have abs: "row_coeffOf (poly_rows sys ! i) u = 0"
    and l: "length (row_coeffs (poly_rows sys ! i)) = totalVars (poly_space sys)"
    if "i < length (poly_rows sys)" for i
    using that assms(2,3,5) by (auto intro: var_absentD wf_polyD)
  have "row_coeffOf (rows ! i) u = 0" if "i < length rows" for i
    using row [OF that] abs [of i] abs [OF ei] l [of i] l [OF ei] that len
    by (auto split: if_splits intro: fm_merge_absent)
  then have "row_coeffOf r u = 0" if "r \<in> set rows" for r using that by (auto simp: in_set_conv_nth)
  moreover have "row_coeffOf consumed_row u = 0" by (simp add: consumed_row_def row_coeffOf_def)
  ultimately have "var_absent u (sys\<lparr>poly_rows := rows[ei := consumed_row]\<rparr>)"
    using set_update_subset_insert [of rows ei consumed_row] by (auto simp: var_absent_def)
  then show ?thesis unfolding s by (rule var_absent_simplify)
qed

lemma fm_phase1_absent:
  assumes "fm_phase1 var sys = Inr sys'" and "wf_poly sys" and "var_absent u sys"
  shows "var_absent u sys'"
  using assms
proof (induction var sys rule: fm_phase1.induct)
  case (1 var sys)
  show ?case
  proof (cases "isEmptyFlag sys \<or> find_index (fm_pivot var) (poly_rows sys) = None")
    case True
    with "1.prems" show ?thesis by (auto simp: fm_phase1_stop)
  next
    case False
    then obtain ei where ei: "find_index (fm_pivot var) (poly_rows sys) = Some ei" by auto
    with False "1.prems"(1) obtain s where s: "fm_substitute var sys ei = Inr s" "fm_phase1 var s = Inr sys'"
      by (auto simp: fm_phase1.simps [of var sys] mlk_try_Inr_iff)
    with "1.IH" [OF _ ei s(1) s(2)] fm_substitute_wf [OF s(1) "1.prems"(2) _ ei]
      fm_substitute_absent [OF s(1) "1.prems"(2) _ ei "1.prems"(3)] False
    show ?thesis by simp
  qed
qed

lemma fm_combined_absent:
  assumes "fm_combined var (p, n) m" and "length (row_coeffs p) = length (row_coeffs n)"
    and "row_coeffOf p u = 0" and "row_coeffOf n u = 0"
  shows "row_coeffOf m u = 0"
  using assms
  by (auto simp: fm_combined_def row_coeffOf_eq coeff_of_map2_add coeff_of_map
      split: if_splits dest!: scaleRow_Inr addRows_Inr)

lemma addRowList_absent:
  assumes "\<And>r. r \<in> set rs \<Longrightarrow> row_coeffOf r u = 0" and "var_absent u p"
  shows "var_absent u (addRowList rs p)"
proof (cases "isEmptyFlag p")
  case True
  then have "addRowList rs p = p" by (induction rs) (auto simp: addRow_emptyFlag)
  with True show ?thesis by (simp add: var_absent_def)
next
  case False
  have "row_coeffOf r u = 0" if "r \<in> set (poly_rows (addRowList rs p))" for r
    by (rule addRowList_P [OF _ _ that]) (use assms False in \<open>auto simp: row_coeffOf_eq var_absent_def\<close>)
  then show ?thesis by (simp add: var_absent_def)
qed

lemma fmEliminate_absent:
  assumes "fmEliminate sys var = Inr out" and "wf_poly sys" and "var_absent u sys" and "\<not> fm_empty out"
  shows "var_absent u (fm_projected out)"
  using assms(1,2)
proof (cases rule: fmEliminate_cases)
  case (empty1 sys')
  with assms(4) show ?thesis by simp
next
  case (phase2 sys' ms)
  have abs: "row_coeffOf r u = 0" if "r \<in> set (poly_rows sys')" for r
    by (rule var_absentD [OF fm_phase1_absent [OF phase2(1) assms(2,3)] phase2(2) that])
  have "row_coeffOf m u = 0" if m: "m \<in> set ms" for m
    using phase2(7) m phase2(3,2)
    by (rule fm_combination_source) (use abs in \<open>auto intro: fm_combined_absent\<close>)
  then have "var_absent u (addRowList (fm_neutral var sys' @ ms) (new_poly (poly_space sys)))"
    using abs by (intro addRowList_absent) (auto simp: var_absent_def)
  then show ?thesis using phase2(10) assms(4) by (auto intro: var_absent_simplify)
qed

lemma fmEliminate_gone:
  assumes "fmEliminate sys var = Inr out" and "wf_poly sys" and "\<not> fm_empty out"
  shows "var_absent var (fm_projected out)"
  using fmEliminate_wf(3) [OF assms] by (simp add: var_absent_def)

section \<open>Rounds\<close>

definition live_vars :: "polyhedron \<Rightarrow> nat set" where
  "live_vars p = {v. v < totalVars (poly_space p) \<and> \<not> var_absent v p}"

lemma finite_live_vars [simp]: "finite (live_vars p)"
  by (simp add: live_vars_def)

lemma live_vars_card: "card (live_vars p) \<le> totalVars (poly_space p)"
proof -
  have "card (live_vars p) \<le> card {..<totalVars (poly_space p)}"
    by (rule card_mono) (auto simp: live_vars_def)
  then show ?thesis by simp
qed

lemma var_count_zero: "var_count rows v = 0 \<longleftrightarrow> (\<forall>r \<in> set rows. row_coeffOf r v = 0)"
  by (auto simp: var_count_def filter_empty_conv)

lemma pick_var_fold:
  assumes "fold (\<lambda>v best. let cnt = var_count rows v in
     if cnt = 0 then best
     else case best of None \<Rightarrow> Some v
       | Some b \<Rightarrow> if cnt < var_count rows b then Some v else Some b) vs b0 = b"
    and "\<And>v. b0 = Some v \<Longrightarrow> v < n \<and> 0 < var_count rows v" and "\<And>v. v \<in> set vs \<Longrightarrow> v < n"
  shows "(\<forall>v. b = Some v \<longrightarrow> v < n \<and> 0 < var_count rows v)
    \<and> (b = None \<longrightarrow> b0 = None \<and> (\<forall>v \<in> set vs. var_count rows v = 0))"
  using assms
proof (induction vs arbitrary: b0)
  case Nil
  then show ?case by auto
next
  case (Cons v vs)
  let ?b1 = "if var_count rows v = 0 then b0 else case b0 of None \<Rightarrow> Some v
       | Some b \<Rightarrow> if var_count rows v < var_count rows b then Some v else Some b"
  have "(\<forall>v. b = Some v \<longrightarrow> v < n \<and> 0 < var_count rows v)
    \<and> (b = None \<longrightarrow> ?b1 = None \<and> (\<forall>v \<in> set vs. var_count rows v = 0))"
    by (rule Cons.IH) (use Cons.prems in \<open>auto simp: Let_def split: option.splits if_splits\<close>)
  then show ?case by (auto split: option.splits if_splits)
qed

lemma pick_var_Some:
  assumes "pick_var sys = Some v"
  shows "v < totalVars (poly_space sys) \<and> (\<exists>r \<in> set (poly_rows sys). row_coeffOf r v \<noteq> 0)"
proof -
  have "v < totalVars (poly_space sys) \<and> 0 < var_count (poly_rows sys) v"
    using pick_var_fold [OF assms [unfolded pick_var_def], of "totalVars (poly_space sys)"] by simp
  then show ?thesis using var_count_zero [of "poly_rows sys" v] by auto
qed

lemma pick_var_None:
  assumes "pick_var sys = None" and "v < totalVars (poly_space sys)" and "r \<in> set (poly_rows sys)"
  shows "row_coeffOf r v = 0"
proof -
  have "var_count (poly_rows sys) v = 0"
    using pick_var_fold [OF assms(1) [unfolded pick_var_def], of "totalVars (poly_space sys)"] assms(2) by simp
  then show ?thesis using assms(3) by (simp add: var_count_zero)
qed

text \<open>A simplified, unflagged system in which no variable occurs has no rows.\<close>

definition simplified :: "polyhedron \<Rightarrow> bool" where
  "simplified p \<longleftrightarrow> isEmptyFlag p
     \<or> (\<forall>r \<in> set (poly_rows p). \<not> isTriviallyTrue r \<and> \<not> isTriviallyFalse r)"

lemma simplified_simplifySystem: "simplified (simplifySystem p)"
  using simplifySystem_rows [of p] by (auto simp: simplified_def)

lemma no_vars_no_rows:
  assumes "wf_poly p" and "simplified p" and "\<not> isEmptyFlag p"
    and "\<And>v r. v < totalVars (poly_space p) \<Longrightarrow> r \<in> set (poly_rows p) \<Longrightarrow> row_coeffOf r v = 0"
  shows "poly_rows p = []"
proof (rule ccontr)
  assume "poly_rows p \<noteq> []"
  then obtain r where r: "r \<in> set (poly_rows p)" by (cases "poly_rows p") auto
  have "allCoeffsZero r"
    using assms(4) [OF _ r] wf_polyD [OF assms(1,3) r]
    by (auto simp: allCoeffsZero_def in_set_conv_nth row_coeffOf_def split: if_splits)
  then have "isTriviallyTrue r \<or> isTriviallyFalse r"
    by (auto simp: isTriviallyTrue_def isTriviallyFalse_def)
  then show False using assms(2,3) r by (auto simp: simplified_def)
qed

lemma no_rows_sat: "poly_rows p = [] \<Longrightarrow> \<not> isEmptyFlag p \<Longrightarrow> poly_sat p x"
  by (simp add: poly_sat_def)

lemma live_vars_drop:
  assumes "fmEliminate sys v = Inr fm" and "wf_poly sys" and "\<not> fm_empty fm"
    and "v < totalVars (poly_space sys)" and "r \<in> set (poly_rows sys)" and "row_coeffOf r v \<noteq> 0"
    and "\<not> isEmptyFlag sys"
  shows "card (live_vars (simplifySystem (fm_projected fm))) < card (live_vars sys)"
proof (rule psubset_card_mono)
  have "v \<in> live_vars sys" using assms(4-7) by (auto simp: live_vars_def var_absent_def)
  moreover have "v \<notin> live_vars (simplifySystem (fm_projected fm))"
    using var_absent_simplify [OF fmEliminate_gone [OF assms(1-3)]] by (simp add: live_vars_def)
  moreover have "live_vars (simplifySystem (fm_projected fm)) \<subseteq> live_vars sys"
    using fmEliminate_wf(2) [OF assms(1-3)] var_absent_simplify fmEliminate_absent [OF assms(1,2) _ assms(3)]
    by (auto simp: live_vars_def)
  ultimately show "live_vars (simplifySystem (fm_projected fm)) \<subset> live_vars sys" by blast
qed simp

text \<open>The invariant of a round, and what each verdict means.\<close>

definition round_inv :: "nat \<Rightarrow> polyhedron \<Rightarrow> bool" where
  "round_inv k sys \<longleftrightarrow> wf_poly sys \<and> simplified sys \<and> \<not> isEmptyFlag sys \<and> \<not> rowsOverflow sys
     \<and> card (live_vars sys) \<le> k"

lemma round_step:
  assumes "round_inv (Suc k) sys" and "pick_var sys = Some v" and "fmEliminate sys v = Inr fm"
    and "\<not> fm_empty fm" and "\<not> isEmptyFlag (simplifySystem (fm_projected fm))"
    and "\<not> rowsOverflow (simplifySystem (fm_projected fm))"
  shows "round_inv k (simplifySystem (fm_projected fm))"
  using assms pick_var_Some [OF assms(2)] live_vars_drop [OF assms(3) _ assms(4)]
    fmEliminate_wf(1) [OF assms(3) _ assms(4)]
  by (fastforce simp: round_inv_def simplified_simplifySystem intro: wf_simplifySystem)

lemma round_end:
  assumes "round_inv 0 sys"
  shows "poly_rows sys = []"
  using assms
  by (intro no_vars_no_rows)
    (auto simp: round_inv_def live_vars_def var_absent_def)

lemma eliminate_rounds_empty:
  fixes x :: "nat \<Rightarrow> 'a::linordered_idom"
  shows "eliminate_rounds k sys = Inr FEmpty \<Longrightarrow> round_inv k sys \<Longrightarrow> \<not> poly_sat sys x"
proof (induction k arbitrary: sys)
  case 0
  then show ?case using round_end [of sys] by simp
next
  case (Suc k)
  from Suc.prems(1) obtain v fm where v: "pick_var sys = Some v" "fmEliminate sys v = Inr fm"
    and rest: "fm_empty fm \<or> (\<not> fm_empty fm \<and> (isEmptyFlag (simplifySystem (fm_projected fm))
       \<or> \<not> isEmptyFlag (simplifySystem (fm_projected fm)) \<and> \<not> rowsOverflow (simplifySystem (fm_projected fm))
         \<and> eliminate_rounds k (simplifySystem (fm_projected fm)) = Inr FEmpty))"
    by (auto simp: mlk_try_Inr_iff Let_def simp del: simplifySystem_simps split: option.splits if_splits)
  have wf: "wf_poly sys" using Suc.prems(2) by (simp add: round_inv_def)
  show ?case
  proof
    assume x: "poly_sat sys x"
    from fmEliminate_sound [OF v(2) wf x]
    have ne: "\<not> fm_empty fm" and px: "poly_sat (simplifySystem (fm_projected fm)) x" by auto
    then have nf: "\<not> isEmptyFlag (simplifySystem (fm_projected fm))" by (auto simp: poly_sat_def)
    with rest ne Suc.IH [OF _ round_step [OF Suc.prems(2) v ne nf]] px show False by auto
  qed
qed

lemma eliminate_rounds_nonempty:
  "eliminate_rounds k sys = Inr FNonEmpty \<Longrightarrow> round_inv k sys \<Longrightarrow>
     \<exists>x :: nat \<Rightarrow> 'a::linordered_field. poly_sat sys x"
proof (induction k arbitrary: sys)
  case 0
  then show ?case using round_end [of sys] no_rows_sat [of sys] by (auto simp: round_inv_def)
next
  case (Suc k)
  have wf: "wf_poly sys" and inv: "simplified sys" "\<not> isEmptyFlag sys"
    using Suc.prems(2) by (auto simp: round_inv_def)
  show ?case
  proof (cases "pick_var sys")
    case None
    have "poly_rows sys = []" by (rule no_vars_no_rows [OF wf inv pick_var_None [OF None]])
    then show ?thesis using no_rows_sat inv(2) by blast
  next
    case (Some v)
    with Suc.prems(1) obtain fm where fm: "fmEliminate sys v = Inr fm" "\<not> fm_empty fm"
      "\<not> isEmptyFlag (simplifySystem (fm_projected fm))" "\<not> rowsOverflow (simplifySystem (fm_projected fm))"
      "eliminate_rounds k (simplifySystem (fm_projected fm)) = Inr FNonEmpty"
      by (auto simp: mlk_try_Inr_iff Let_def simp del: simplifySystem_simps split: if_splits)
    from Suc.IH [OF fm(5) round_step [OF Suc.prems(2) Some fm(1-4)]]
    obtain x :: "nat \<Rightarrow> 'a" where "poly_sat (fm_projected fm) x" by auto
    with fmEliminate_exact [OF fm(1) wf fm(2)] fm(4) show ?thesis by auto
  qed
qed

lemma eliminateAll_inv:
  assumes "wf_poly sys" and "\<not> isEmptyFlag (simplifySystem sys)" and "\<not> rowsOverflow sys"
  shows "round_inv (totalVars (poly_space sys)) (simplifySystem sys)"
  using assms live_vars_card [of "simplifySystem sys"]
  by (auto simp: round_inv_def simplified_simplifySystem intro: wf_simplifySystem)

lemma eliminateAll_empty:
  assumes "eliminateAll sys = Inr FEmpty" and "wf_poly sys"
  shows "\<not> poly_sat sys x"
proof (cases "isEmptyFlag (simplifySystem sys)")
  case True
  then have "\<not> poly_sat (simplifySystem sys) x" by (simp add: poly_sat_def del: simplifySystem_sat)
  then show ?thesis by simp
next
  case False
  then show ?thesis
    using assms eliminate_rounds_empty [OF _ eliminateAll_inv [OF assms(2) False]]
    by (auto simp: eliminateAll_def Let_def split: if_splits)
qed

lemma eliminateAll_nonempty:
  assumes "eliminateAll sys = Inr FNonEmpty" and "wf_poly sys"
  shows "\<exists>x :: nat \<Rightarrow> 'a::linordered_field. poly_sat sys x"
  using assms eliminate_rounds_nonempty [OF _ eliminateAll_inv [OF assms(2)]]
  by (auto simp: eliminateAll_def Let_def split: if_splits)

end
