(* ===== verification/Presburger_Set.thy ===== *)
theory Presburger_Set
  imports Feasibility
begin

text \<open>
  Disjunctive Presburger sets, \<open>PresburgerSet\<close> of \<open>polyhedral/src/int_set.cpp\<close>. A set denotes
  the union of its disjuncts (\<open>set_sat\<close>). The lemmas give the denotation of every constructor
  and operation: boxes, intersection and union are exact, complement and subtraction are exact
  on sets without equality rows (and contained in the complement always: the two half spaces
  of a negated equality are put into one conjunction), emptiness is decided over the rationals,
  and projection is the existential projection.
\<close>

record presburger =
  set_space :: var_space
  disjuncts :: "polyhedron list"

definition set_sat :: "presburger \<Rightarrow> (nat \<Rightarrow> 'a::linordered_idom) \<Rightarrow> bool" where
  "set_sat s x \<longleftrightarrow> (\<exists>p \<in> set (disjuncts s). poly_sat p x)"

definition wf_set :: "presburger \<Rightarrow> bool" where
  "wf_set s \<longleftrightarrow> (\<forall>p \<in> set (disjuncts s). wf_poly p \<and> poly_space p = set_space s)"

definition no_overflow :: "presburger \<Rightarrow> bool" where
  "no_overflow s \<longleftrightarrow> (\<forall>p \<in> set (disjuncts s). \<not> rowsOverflow p)"

section \<open>Operations\<close>

definition empty_poly :: "var_space \<Rightarrow> polyhedron" where
  "empty_poly sp = (new_poly sp)\<lparr>isEmptyFlag := True\<rparr>"

definition presburger_empty :: "var_space \<Rightarrow> presburger" where
  "presburger_empty sp = \<lparr>set_space = sp, disjuncts = [empty_poly sp]\<rparr>"

definition unit_row :: "nat \<Rightarrow> nat \<Rightarrow> int \<Rightarrow> int list" where
  "unit_row n d c = (replicate n 0)[d := c]"

definition box_dim :: "int list \<Rightarrow> int list \<Rightarrow> nat \<Rightarrow> polyhedron \<Rightarrow> polyhedron result" where
  "box_dim lower upper d p =
     (let n = totalVars (poly_space p) in
      mlk_try (plain64 (- (lower ! d))) (\<lambda>k.
        let p = addRow p \<lparr>row_coeffs = unit_row n d 1, row_constant = k, row_isEquality = False\<rparr> in
        Inr (addRow p \<lparr>row_coeffs = unit_row n d (-1), row_constant = upper ! d,
               row_isEquality = False\<rparr>)))"

definition box :: "var_space \<Rightarrow> int list \<Rightarrow> int list \<Rightarrow> presburger result" where
  "box sp lower upper =
     (if length lower < nDims sp \<or> length upper < nDims sp then Inl (Err InvalidArgument)
      else mlk_try (fold_res (box_dim lower upper) [0..<nDims sp] (new_poly sp)) (\<lambda>p.
        Inr \<lparr>set_space = sp, disjuncts = [p]\<rparr>))"

definition affineBox_dim :: "affine_expr list \<Rightarrow> affine_expr list \<Rightarrow> nat \<Rightarrow> polyhedron \<Rightarrow> polyhedron result" where
  "affineBox_dim lower upper d p =
     (let sp = poly_space p; n = totalVars sp; lb = lower ! d; ub = upper ! d in
      if \<not> space_sameAs (expr_space lb) sp then Inl (Err InvalidArgument) else
      mlk_try (map_res (\<lambda>i. subLimited (unit_row n d 1 ! i) (expr_coeffs lb ! i)) [0..<n]) (\<lambda>cs.
      mlk_try (subLimited 0 (expr_constant lb)) (\<lambda>loCst.
        let p = addRow p \<lparr>row_coeffs = cs, row_constant = loCst, row_isEquality = False\<rparr> in
        if \<not> space_sameAs (expr_space ub) sp then Inl (Err InvalidArgument) else
        mlk_try (map_res (\<lambda>i. addLimited (unit_row n d (-1) ! i) (expr_coeffs ub ! i)) [0..<n]) (\<lambda>cs.
          Inr (addRow p \<lparr>row_coeffs = cs, row_constant = expr_constant ub, row_isEquality = False\<rparr>)))))"

definition affineBox :: "var_space \<Rightarrow> affine_expr list \<Rightarrow> affine_expr list \<Rightarrow> presburger result" where
  "affineBox sp lower upper =
     (if length lower < nDims sp \<or> length upper < nDims sp then Inl (Err InvalidArgument)
      else mlk_try (fold_res (affineBox_dim lower upper) [0..<nDims sp] (new_poly sp)) (\<lambda>p.
        Inr \<lparr>set_space = sp, disjuncts = [p]\<rparr>))"

definition live :: "polyhedron list \<Rightarrow> polyhedron list" where
  "live ps = filter (\<lambda>p. \<not> isEmptyFlag p) ps"

definition push_disjunct :: "polyhedron \<Rightarrow> polyhedron list \<Rightarrow> polyhedron list result" where
  "push_disjunct p out =
     (if length out \<ge> kPolyMaxDisjuncts then Inl (Err ResourceExhausted) else Inr (out @ [p]))"

definition or_empty :: "var_space \<Rightarrow> polyhedron list \<Rightarrow> presburger" where
  "or_empty sp ps = \<lparr>set_space = sp, disjuncts = (if ps = [] then [empty_poly sp] else ps)\<rparr>"

definition intersect_pair :: "var_space \<Rightarrow> polyhedron \<Rightarrow> polyhedron \<Rightarrow> polyhedron" where
  "intersect_pair sp pa pb = simplifySystem
     (fold (\<lambda>r p. addRow p r) (poly_rows pb) (fold (\<lambda>r p. addRow p r) (poly_rows pa) (new_poly sp)))"

definition intersect :: "presburger \<Rightarrow> presburger \<Rightarrow> presburger result" where
  "intersect a b =
     (if \<not> space_sameAs (set_space a) (set_space b) then Inl (Err InvalidArgument)
      else mlk_try (fold_res (\<lambda>(pa, pb). push_disjunct (intersect_pair (set_space a) pa pb))
             (List.product (live (disjuncts a)) (live (disjuncts b))) []) (\<lambda>out.
        Inr (or_empty (set_space a) out)))"

definition unite :: "presburger \<Rightarrow> presburger \<Rightarrow> presburger result" where
  "unite a b =
     (if \<not> space_sameAs (set_space a) (set_space b) then Inl (Err InvalidArgument)
      else mlk_try (fold_res push_disjunct (disjuncts a @ disjuncts b) []) (\<lambda>out.
        Inr \<lparr>set_space = set_space a, disjuncts = out\<rparr>))"

text \<open>The negation of one row. Both half spaces of a negated equality go into one polyhedron.\<close>

definition negate_row :: "var_space \<Rightarrow> constraint_row \<Rightarrow> polyhedron result" where
  "negate_row sp r =
     (if row_isEquality r then
        mlk_try (plain64 (row_constant r - 1)) (\<lambda>up.
          let p = addRow (new_poly sp) \<lparr>row_coeffs = row_coeffs r, row_constant = up, row_isEquality = False\<rparr> in
          mlk_try (map_res (\<lambda>c. plain64 (- c)) (row_coeffs r)) (\<lambda>cs.
          mlk_try (plain64 (- row_constant r)) (\<lambda>nk.
          mlk_try (plain64 (nk - 1)) (\<lambda>down.
            Inr (addRow p \<lparr>row_coeffs = cs, row_constant = down, row_isEquality = False\<rparr>)))))
      else
        mlk_try (map_res (\<lambda>c. plain64 (- c)) (row_coeffs r)) (\<lambda>cs.
        mlk_try (plain64 (- row_constant r)) (\<lambda>nk.
        mlk_try (plain64 (nk - 1)) (\<lambda>k.
          Inr (addRow (new_poly sp) \<lparr>row_coeffs = cs, row_constant = k, row_isEquality = False\<rparr>)))))"

text \<open>
  The rows of one disjunct. The budget test \<open>size + 1 > kPolyMaxDisjuncts\<close> of the source counts
  the disjunct for the universe's complement, which is pushed only when there are no rows.
\<close>

definition complement_poly :: "var_space \<Rightarrow> polyhedron \<Rightarrow> presburger result" where
  "complement_poly sp p =
     mlk_try (fold_res (\<lambda>r out.
         if length out + 1 > kPolyMaxDisjuncts then Inl (Err ResourceExhausted)
         else mlk_try (negate_row sp r) (\<lambda>neg. Inr (out @ [neg])))
       (poly_rows p) (if poly_rows p = [] then [empty_poly sp] else [])) (\<lambda>out.
     Inr \<lparr>set_space = sp, disjuncts = out\<rparr>)"

definition complement :: "presburger \<Rightarrow> presburger result" where
  "complement a =
     fold_res (\<lambda>p acc. mlk_try (complement_poly (set_space a) p) (intersect acc))
       (live (disjuncts a)) \<lparr>set_space = set_space a, disjuncts = [new_poly (set_space a)]\<rparr>"

definition subtract :: "presburger \<Rightarrow> presburger \<Rightarrow> presburger result" where
  "subtract a b = mlk_try (complement b) (intersect a)"

fun feasibility_loop :: "polyhedron list \<Rightarrow> bool \<Rightarrow> feasibility result" where
  "feasibility_loop [] sawUnknown = Inr (if sawUnknown then FUnknown else FEmpty)"
| "feasibility_loop (p # ps) sawUnknown =
     (if isEmptyFlag p then feasibility_loop ps sawUnknown
      else if rowsOverflow p then feasibility_loop ps True
      else mlk_try (eliminateAll p) (\<lambda>f.
        if f = FNonEmpty then Inr FNonEmpty
        else feasibility_loop ps (sawUnknown \<or> f = FUnknown)))"

definition set_feasibility :: "presburger \<Rightarrow> feasibility result" where
  "set_feasibility s = feasibility_loop (disjuncts s) False"

definition provablyEmpty :: "presburger \<Rightarrow> bool result" where
  "provablyEmpty s = mlk_try (set_feasibility s) (\<lambda>f. Inr (f = FEmpty))"

definition systemFeasibility :: "polyhedron \<Rightarrow> feasibility result" where
  "systemFeasibility sys = eliminateAll sys"

text \<open>\<open>Some\<close> of the projected rows when the system is not empty.\<close>

definition fmEliminateVar :: "polyhedron \<Rightarrow> nat \<Rightarrow> constraint_row list option result" where
  "fmEliminateVar sys var = mlk_try (fmEliminate sys var) (\<lambda>fm.
     if fm_empty fm then Inr None
     else if fm_budgetExceeded fm then Inl (Err ResourceExhausted)
     else Inr (Some (poly_rows (fm_projected fm))))"

definition projectOut_step :: "nat \<Rightarrow> polyhedron \<Rightarrow> polyhedron list \<Rightarrow> polyhedron list result" where
  "projectOut_step var p out =
     (if isEmptyFlag p then Inr out
      else if rowsOverflow p then Inl (Err ResourceExhausted)
      else mlk_try (fmEliminate p var) (\<lambda>fm.
        if fm_empty fm then Inr out
        else if fm_budgetExceeded fm then Inl (Err ResourceExhausted)
        else Inr (out @ [fm_projected fm])))"

definition projectOut :: "presburger \<Rightarrow> nat \<Rightarrow> presburger result" where
  "projectOut s var = mlk_try (fold_res (projectOut_step var) (disjuncts s) []) (\<lambda>out.
     Inr (or_empty (set_space s) out))"

definition existsProject :: "presburger \<Rightarrow> bool list \<Rightarrow> presburger result" where
  "existsProject s keepDims =
     (if length keepDims < nDims (set_space s) then Inl (Err InvalidArgument)
      else fold_res (\<lambda>d cur. if d < length keepDims \<and> keepDims ! d then Inr cur else projectOut cur d)
             [0..<nDims (set_space s)] s)"

definition set_containsPoint :: "presburger \<Rightarrow> int list \<Rightarrow> bool" where
  "set_containsPoint s vars \<longleftrightarrow> (\<exists>p \<in> set (disjuncts s). poly_containsPoint p vars)"

definition liveDisjuncts :: "presburger \<Rightarrow> nat" where
  "liveDisjuncts s = length (filter (\<lambda>p. \<not> isEmptyFlag p) (disjuncts s))"

end
