(* ===== verification/Presburger_Laws.thy ===== *)
theory Presburger_Laws
  imports Presburger_Set
begin

text \<open>
  The denotation of every operation of \<open>PresburgerSet\<close>. Row budgets enter in two ways: results
  that report \<open>rowsOverflow\<close> are over-approximations, and the bounds on rows and disjuncts under
  which no overflow can happen are proved, not assumed.
\<close>

section \<open>Rows within the budget\<close>

lemma addRow_within:
  assumes "length (poly_rows p) < kPolyMaxRowsPerSystem"
  shows "(poly_sat (addRow p r) x \<longleftrightarrow> poly_sat p x \<and> row_sat r x)
    \<and> rowsOverflow (addRow p r) = rowsOverflow p
    \<and> length (poly_rows (addRow p r)) \<le> Suc (length (poly_rows p))"
  using assms trivially_true_sat [of "r\<lparr>row_coeffs := pad_to (totalVars (poly_space p)) (row_coeffs r)\<rparr>" x]
    trivially_false_sat [of "r\<lparr>row_coeffs := pad_to (totalVars (poly_space p)) (row_coeffs r)\<rparr>" x]
  by (auto simp: addRow_def Let_def poly_sat_def)

lemma addRowList_within:
  assumes "length (poly_rows p) + length rs \<le> kPolyMaxRowsPerSystem"
  shows "(poly_sat (addRowList rs p) x \<longleftrightarrow> poly_sat p x \<and> rows_sat rs x)
    \<and> rowsOverflow (addRowList rs p) = rowsOverflow p
    \<and> length (poly_rows (addRowList rs p)) \<le> length (poly_rows p) + length rs"
  using assms
proof (induction rs arbitrary: p)
  case Nil
  then show ?case by simp
next
  case (Cons r rs)
  then have "length (poly_rows p) < kPolyMaxRowsPerSystem" by simp
  note a = addRow_within [OF this, of r x]
  have "length (poly_rows (addRow p r)) + length rs \<le> kPolyMaxRowsPerSystem"
    using a Cons.prems by auto
  note b = Cons.IH [OF this]
  have "length (poly_rows (addRowList (r # rs) p)) \<le> length (poly_rows p) + length (r # rs)"
    using conjunct2 [OF conjunct2 [OF a]] conjunct2 [OF conjunct2 [OF b]] by simp
  then show ?case using a b by simp
qed

lemma simplifySystem_length: "length (poly_rows (simplifySystem p)) \<le> length (poly_rows p)"
proof -
  have "simplify_loop rs kept seen = (b, rows) \<Longrightarrow> length kept \<le> length seen \<Longrightarrow>
      length rows \<le> length seen + length rs" for rs kept seen b rows
    by (induction rs kept seen rule: simplify_loop.induct) (auto split: if_splits)
  from this [of "poly_rows p" "[]" "[]"] show ?thesis
    by (auto simp: simplifySystem_def split: prod.splits)
qed

section \<open>Denotation basics\<close>

lemma set_sat_simps [simp]:
  "set_sat \<lparr>set_space = sp, disjuncts = ps\<rparr> x \<longleftrightarrow> (\<exists>p \<in> set ps. poly_sat p x)"
  by (simp add: set_sat_def)

lemma set_sat_of_int: "set_sat s (\<lambda>i. of_int (x i) :: 'a::linordered_idom) \<longleftrightarrow> set_sat s x"
  by (simp add: set_sat_def poly_sat_of_int)

lemma empty_poly_simps [simp]:
  "\<not> poly_sat (empty_poly sp) x" "isEmptyFlag (empty_poly sp)" "\<not> rowsOverflow (empty_poly sp)"
  "poly_rows (empty_poly sp) = []" "poly_space (empty_poly sp) = sp" "wf_poly (empty_poly sp)"
  by (simp_all add: empty_poly_def poly_sat_def new_poly_def wf_poly_def)

lemma or_empty_simps [simp]:
  "set_space (or_empty sp ps) = sp"
  "set_sat (or_empty sp ps) x \<longleftrightarrow> (\<exists>p \<in> set ps. poly_sat p x)"
  "no_overflow (or_empty sp ps) \<longleftrightarrow> (\<forall>p \<in> set ps. \<not> rowsOverflow p)"
  by (auto simp: or_empty_def no_overflow_def)

lemma wf_or_empty: "(\<And>p. p \<in> set ps \<Longrightarrow> wf_poly p \<and> poly_space p = sp) \<Longrightarrow> wf_set (or_empty sp ps)"
  by (auto simp: wf_set_def or_empty_def)

lemma set_live [simp]: "p \<in> set (live ps) \<longleftrightarrow> p \<in> set ps \<and> \<not> isEmptyFlag p"
  by (auto simp: live_def)

lemma set_sat_live: "set_sat s x \<longleftrightarrow> (\<exists>p \<in> set (live (disjuncts s)). rows_sat (poly_rows p) x)"
  by (auto simp: set_sat_def poly_sat_def)

lemma push_run:
  "fold_res (\<lambda>z. push_disjunct (f z)) zs acc = Inr out \<Longrightarrow>
     out = acc @ map f zs \<and> (zs \<noteq> [] \<longrightarrow> length out \<le> kPolyMaxDisjuncts)"
proof (induction zs arbitrary: acc)
  case Nil
  then show ?case by simp
next
  case (Cons z zs)
  from Cons.prems obtain u where u: "push_disjunct (f z) acc = Inr u"
    "fold_res (\<lambda>z. push_disjunct (f z)) zs u = Inr out" by (auto simp: mlk_try_Inr_iff)
  then have "length acc < kPolyMaxDisjuncts" and "u = acc @ [f z]"
    by (auto simp: push_disjunct_def split: if_splits)
  with u(2) have "length acc < kPolyMaxDisjuncts" "fold_res (\<lambda>z. push_disjunct (f z)) zs (acc @ [f z]) = Inr out"
    by simp_all
  with Cons.IH [of "acc @ [f z]"] show ?case by (cases zs) auto
qed

section \<open>Boxes\<close>

lemma unit_row_lin [simp]: "d < n \<Longrightarrow> lin (unit_row n d c) x = of_int c * x d"
  by (simp add: unit_row_def)

lemma length_unit_row [simp]: "length (unit_row n d c) = n"
  by (simp add: unit_row_def)

lemma unit_row_sat:
  "d < n \<Longrightarrow> row_sat \<lparr>row_coeffs = unit_row n d c, row_constant = k, row_isEquality = False\<rparr> x
     \<longleftrightarrow> 0 \<le> of_int k + of_int c * x d"
  by (simp add: row_sat_def row_val_def)

text \<open>A loop over the dimensions that adds at most two rows per dimension.\<close>

lemma box_fold:
  fixes C :: "nat \<Rightarrow> (nat \<Rightarrow> 'a::linordered_idom) \<Rightarrow> bool"
  assumes run: "fold_res f [0..<k] p = Inr q"
    and step: "\<And>d p q. f d p = Inr q \<Longrightarrow> poly_space p = sp \<Longrightarrow> d < k \<Longrightarrow>
        wf_poly p \<Longrightarrow> length (poly_rows p) + 2 \<le> kPolyMaxRowsPerSystem \<Longrightarrow>
        wf_poly q \<and> poly_space q = sp \<and> length (poly_rows q) \<le> length (poly_rows p) + 2
        \<and> rowsOverflow q = rowsOverflow p \<and> (poly_sat q x \<longleftrightarrow> poly_sat p x \<and> C d x)"
    and init: "poly_space p = sp" "wf_poly p" "length (poly_rows p) + 2 * k \<le> kPolyMaxRowsPerSystem"
  shows "wf_poly q \<and> poly_space q = sp \<and> length (poly_rows q) \<le> length (poly_rows p) + 2 * k
    \<and> rowsOverflow q = rowsOverflow p \<and> (poly_sat q x \<longleftrightarrow> poly_sat p x \<and> (\<forall>d < k. C d x))"
  using assms
proof (induction k arbitrary: q)
  case 0
  then show ?case by simp
next
  case (Suc k)
  from Suc.prems(1) obtain u where u: "fold_res f [0..<k] p = Inr u" "f k u = Inr q"
    by (auto simp: fold_res_append mlk_try_Inr_iff)
  have iu: "wf_poly u \<and> poly_space u = sp \<and> length (poly_rows u) \<le> length (poly_rows p) + 2 * k
    \<and> rowsOverflow u = rowsOverflow p \<and> (poly_sat u x \<longleftrightarrow> poly_sat p x \<and> (\<forall>d < k. C d x))"
    by (rule Suc.IH [OF u(1)]) (use Suc.prems in auto)
  with Suc.prems(2) [OF u(2)] Suc.prems(5) show ?case by (auto simp: less_Suc_eq)
qed

lemma box_dim_step:
  assumes "box_dim lower upper d p = Inr q" and "d < totalVars (poly_space p)"
    and "wf_poly p" and "length (poly_rows p) + 2 \<le> kPolyMaxRowsPerSystem"
  shows "wf_poly q \<and> poly_space q = poly_space p \<and> length (poly_rows q) \<le> length (poly_rows p) + 2
    \<and> rowsOverflow q = rowsOverflow p
    \<and> (poly_sat q x \<longleftrightarrow> poly_sat p x \<and> of_int (lower ! d) \<le> x d \<and> x d \<le> of_int (upper ! d))"
proof -
  let ?lo = "\<lparr>row_coeffs = unit_row (totalVars (poly_space p)) d 1, row_constant = - lower ! d, row_isEquality = False\<rparr>"
  let ?hi = "\<lparr>row_coeffs = unit_row (totalVars (poly_space p)) d (- 1), row_constant = upper ! d, row_isEquality = False\<rparr>"
  have q: "q = addRow (addRow p ?lo) ?hi"
    using assms(1) by (auto simp: box_dim_def Let_def mlk_try_Inr_iff plain64_Inr)
  show ?thesis
    using addRow_within [of p ?lo x] addRow_within [of "addRow p ?lo" ?hi x] assms(2-4)
    unfolding q by (auto simp: unit_row_sat intro!: wf_addRow)
qed

lemma nDims_le_totalVars: "d < nDims sp \<Longrightarrow> d < totalVars sp"
  by (simp add: totalVars_def)

lemma box_sat_iff:
  assumes "box sp lower upper = Inr s" and "nDims sp \<le> 128"
  shows "set_sat s x \<longleftrightarrow> (\<forall>d < nDims sp. of_int (lower ! d) \<le> x d \<and> x d \<le> of_int (upper ! d))"
    and "wf_set s" and "no_overflow s" and "set_space s = sp"
proof -
  from assms(1) obtain p where p: "fold_res (box_dim lower upper) [0..<nDims sp] (new_poly sp) = Inr p"
    and s: "s = \<lparr>set_space = sp, disjuncts = [p]\<rparr>"
    by (auto simp: box_def mlk_try_Inr_iff split: if_splits)
  have "wf_poly p \<and> poly_space p = sp \<and> length (poly_rows p) \<le> length (poly_rows (new_poly sp)) + 2 * nDims sp
    \<and> rowsOverflow p = rowsOverflow (new_poly sp) \<and> (poly_sat p x \<longleftrightarrow> poly_sat (new_poly sp) x
      \<and> (\<forall>d < nDims sp. of_int (lower ! d) \<le> x d \<and> x d \<le> of_int (upper ! d)))"
  proof (rule box_fold [OF p, where sp = sp])
    fix d p q
    assume st: "box_dim lower upper d p = Inr q" "poly_space p = sp" "d < nDims sp" "wf_poly p"
      "length (poly_rows p) + 2 \<le> kPolyMaxRowsPerSystem"
    then show "wf_poly q \<and> poly_space q = sp \<and> length (poly_rows q) \<le> length (poly_rows p) + 2
      \<and> rowsOverflow q = rowsOverflow p
      \<and> (poly_sat q x \<longleftrightarrow> poly_sat p x \<and> of_int (lower ! d) \<le> x d \<and> x d \<le> of_int (upper ! d))"
      using box_dim_step [OF st(1) _ st(4,5), of x] by (simp add: nDims_le_totalVars)
  qed (use assms(2) in \<open>simp_all add: kPolyMaxRowsPerSystem_def\<close>)
  then show "set_sat s x \<longleftrightarrow> (\<forall>d < nDims sp. of_int (lower ! d) \<le> x d \<and> x d \<le> of_int (upper ! d))"
    "wf_set s" "no_overflow s" "set_space s = sp"
    unfolding s by (auto simp: wf_set_def no_overflow_def)
qed

lemma limited_zip_lin:
  assumes "length us = n" and "length es = n"
  shows "map_res (\<lambda>i. subLimited (us ! i) (es ! i)) [0..<n] = Inr cs \<Longrightarrow>
       length cs = n \<and> lin cs x = lin us x - lin es x"
    and "map_res (\<lambda>i. addLimited (us ! i) (es ! i)) [0..<n] = Inr cs \<Longrightarrow>
       length cs = n \<and> lin cs x = lin us x + lin es x"
proof -
  have l: "length us = length es" and n: "n = length us" using assms by simp_all
  show "map_res (\<lambda>i. subLimited (us ! i) (es ! i)) [0..<n] = Inr cs \<Longrightarrow>
       length cs = n \<and> lin cs x = lin us x - lin es x"
    unfolding n map_nth_pair [OF l] sub_op.map_limited_Inr_iff using l lin_map2_minus [OF l, of x] by auto
  show "map_res (\<lambda>i. addLimited (us ! i) (es ! i)) [0..<n] = Inr cs \<Longrightarrow>
       length cs = n \<and> lin cs x = lin us x + lin es x"
    unfolding n map_nth_pair [OF l] add_op.map_limited_Inr_iff using l lin_map2_add [OF l, of x] by auto
qed

lemma affineBox_dim_step:
  assumes "affineBox_dim lower upper d p = Inr q" and "d < totalVars (poly_space p)"
    and "wf_poly p" and "length (poly_rows p) + 2 \<le> kPolyMaxRowsPerSystem"
    and "wf_expr (lower ! d)" and "wf_expr (upper ! d)"
  shows "wf_poly q \<and> poly_space q = poly_space p \<and> length (poly_rows q) \<le> length (poly_rows p) + 2
    \<and> rowsOverflow q = rowsOverflow p
    \<and> (poly_sat q x \<longleftrightarrow> poly_sat p x \<and> expr_val (lower ! d) x \<le> x d \<and> x d \<le> expr_val (upper ! d) x)"
proof -
  let ?n = "totalVars (poly_space p)"
  from assms(1) obtain cl cu where
    cl: "map_res (\<lambda>i. subLimited (unit_row ?n d 1 ! i) (expr_coeffs (lower ! d) ! i)) [0..<?n] = Inr cl"
    and cu: "map_res (\<lambda>i. addLimited (unit_row ?n d (-1) ! i) (expr_coeffs (upper ! d) ! i)) [0..<?n] = Inr cu"
    and sp: "expr_space (lower ! d) = poly_space p" "expr_space (upper ! d) = poly_space p"
    and q: "q = addRow (addRow p \<lparr>row_coeffs = cl, row_constant = - expr_constant (lower ! d), row_isEquality = False\<rparr>)
        \<lparr>row_coeffs = cu, row_constant = expr_constant (upper ! d), row_isEquality = False\<rparr>"
    by (auto simp: affineBox_dim_def Let_def mlk_try_Inr_iff sub_op.limited_Inr_iff split: if_splits)
  let ?lo = "\<lparr>row_coeffs = cl, row_constant = - expr_constant (lower ! d), row_isEquality = False\<rparr>"
  let ?hi = "\<lparr>row_coeffs = cu, row_constant = expr_constant (upper ! d), row_isEquality = False\<rparr>"
  have l: "length (expr_coeffs (lower ! d)) = ?n" "length (expr_coeffs (upper ! d)) = ?n"
    using assms(5,6) sp by (simp_all add: wf_expr_def)
  note lo = limited_zip_lin(1) [OF length_unit_row l(1) cl, of x]
  note hi = limited_zip_lin(2) [OF length_unit_row l(2) cu, of x]
  have "row_sat ?lo x \<longleftrightarrow> expr_val (lower ! d) x \<le> x d" "row_sat ?hi x \<longleftrightarrow> x d \<le> expr_val (upper ! d) x"
    using lo hi assms(2) by (auto simp: row_sat_def row_val_def expr_val_def algebra_simps)
  then show ?thesis
    using addRow_within [of p ?lo x] addRow_within [of "addRow p ?lo" ?hi x] assms(3,4) lo hi
    unfolding q by (auto intro!: wf_addRow)
qed

lemma affineBox_sat_iff:
  assumes "affineBox sp lower upper = Inr s" and "nDims sp \<le> 128"
    and "\<And>d. d < nDims sp \<Longrightarrow> wf_expr (lower ! d) \<and> wf_expr (upper ! d)"
  shows "set_sat s x \<longleftrightarrow> (\<forall>d < nDims sp. expr_val (lower ! d) x \<le> x d \<and> x d \<le> expr_val (upper ! d) x)"
    and "wf_set s" and "no_overflow s" and "set_space s = sp"
proof -
  from assms(1) obtain p where p: "fold_res (affineBox_dim lower upper) [0..<nDims sp] (new_poly sp) = Inr p"
    and s: "s = \<lparr>set_space = sp, disjuncts = [p]\<rparr>"
    by (auto simp: affineBox_def mlk_try_Inr_iff split: if_splits)
  have "wf_poly p \<and> poly_space p = sp \<and> length (poly_rows p) \<le> length (poly_rows (new_poly sp)) + 2 * nDims sp
    \<and> rowsOverflow p = rowsOverflow (new_poly sp) \<and> (poly_sat p x \<longleftrightarrow> poly_sat (new_poly sp) x
      \<and> (\<forall>d < nDims sp. expr_val (lower ! d) x \<le> x d \<and> x d \<le> expr_val (upper ! d) x))"
  proof (rule box_fold [OF p, where sp = sp])
    fix d p q
    assume st: "affineBox_dim lower upper d p = Inr q" "poly_space p = sp" "d < nDims sp" "wf_poly p"
      "length (poly_rows p) + 2 \<le> kPolyMaxRowsPerSystem"
    then show "wf_poly q \<and> poly_space q = sp \<and> length (poly_rows q) \<le> length (poly_rows p) + 2
      \<and> rowsOverflow q = rowsOverflow p
      \<and> (poly_sat q x \<longleftrightarrow> poly_sat p x \<and> expr_val (lower ! d) x \<le> x d \<and> x d \<le> expr_val (upper ! d) x)"
      using affineBox_dim_step [OF st(1) _ st(4,5), of x] assms(3) [OF st(3)] by (simp add: nDims_le_totalVars)
  qed (use assms(2) in \<open>simp_all add: kPolyMaxRowsPerSystem_def\<close>)
  then show "set_sat s x \<longleftrightarrow> (\<forall>d < nDims sp. expr_val (lower ! d) x \<le> x d \<and> x d \<le> expr_val (upper ! d) x)"
    "wf_set s" "no_overflow s" "set_space s = sp"
    unfolding s by (auto simp: wf_set_def no_overflow_def)
qed

section \<open>Intersection and union\<close>

lemma intersect_pair_eq:
  "intersect_pair sp pa pb = simplifySystem (addRowList (poly_rows pa @ poly_rows pb) (new_poly sp))"
  by (simp add: intersect_pair_def addRowList_def)

lemma intersect_pair_space [simp]: "poly_space (intersect_pair sp pa pb) = sp"
  by (simp add: intersect_pair_eq)

lemma intersect_pair_sound:
  "rows_sat (poly_rows pa) x \<Longrightarrow> rows_sat (poly_rows pb) x \<Longrightarrow> poly_sat (intersect_pair sp pa pb) x"
  unfolding intersect_pair_eq by (auto intro: addRowList_sound)

lemma intersect_pair_exact:
  "poly_sat (intersect_pair sp pa pb) x \<Longrightarrow> \<not> rowsOverflow (intersect_pair sp pa pb) \<Longrightarrow>
     rows_sat (poly_rows pa) x \<and> rows_sat (poly_rows pb) x"
  unfolding intersect_pair_eq by (auto dest: addRowList_exact)

lemma intersect_pair_within:
  assumes "length (poly_rows pa) + length (poly_rows pb) \<le> kPolyMaxRowsPerSystem"
  shows "\<not> rowsOverflow (intersect_pair sp pa pb)
    \<and> length (poly_rows (intersect_pair sp pa pb)) \<le> length (poly_rows pa) + length (poly_rows pb)"
proof -
  let ?q = "addRowList (poly_rows pa @ poly_rows pb) (new_poly sp)"
  have "length (poly_rows (new_poly sp)) + length (poly_rows pa @ poly_rows pb) \<le> kPolyMaxRowsPerSystem"
    using assms by simp
  note w = addRowList_within [OF this, of "\<lambda>_. 0 :: int"]
  show ?thesis
    using w simplifySystem_length [of ?q] unfolding intersect_pair_eq by simp
qed

lemma wf_intersect_pair:
  assumes "\<And>r. r \<in> set (poly_rows pa) \<union> set (poly_rows pb) \<Longrightarrow> length (row_coeffs r) \<le> totalVars sp"
  shows "wf_poly (intersect_pair sp pa pb)"
  unfolding intersect_pair_eq using assms by (intro wf_simplifySystem wf_addRowList) auto

lemma intersect_run:
  assumes "intersect a b = Inr out"
  shows "set_space a = set_space b" and "set_space out = set_space a"
    and "disjuncts out = disjuncts (or_empty (set_space a)
      (map (\<lambda>(pa, pb). intersect_pair (set_space a) pa pb) (List.product (live (disjuncts a)) (live (disjuncts b)))))"
proof -
  let ?f = "\<lambda>z. intersect_pair (set_space a) (fst z) (snd z)"
  let ?zs = "List.product (live (disjuncts a)) (live (disjuncts b))"
  have sp: "set_space a = set_space b" using assms by (auto simp: intersect_def split: if_splits)
  from assms obtain ps where ps: "fold_res (\<lambda>z. push_disjunct (?f z)) ?zs [] = Inr ps"
    and out: "out = or_empty (set_space a) ps"
    by (auto simp: intersect_def mlk_try_Inr_iff case_prod_beta' sp)
  from push_run [OF ps] out sp show "set_space a = set_space b" "set_space out = set_space a"
    "disjuncts out = disjuncts (or_empty (set_space a) (map (\<lambda>(pa, pb). intersect_pair (set_space a) pa pb) ?zs))"
    by (simp_all add: case_prod_beta')
qed

lemma intersect_disjuncts:
  assumes "intersect a b = Inr out" and "p \<in> set (disjuncts out)"
  shows "p = empty_poly (set_space a) \<or> (\<exists>pa pb. pa \<in> set (live (disjuncts a)) \<and> pb \<in> set (live (disjuncts b))
      \<and> p = intersect_pair (set_space a) pa pb)"
  using assms(2) unfolding intersect_run(3) [OF assms(1)]
  by (force simp: or_empty_def simp del: set_live split: if_splits)

lemma intersect_sat_eq:
  assumes "intersect a b = Inr out"
  shows "set_sat out x \<longleftrightarrow> (\<exists>pa \<in> set (live (disjuncts a)). \<exists>pb \<in> set (live (disjuncts b)).
      poly_sat (intersect_pair (set_space a) pa pb) x)"
proof -
  have "set_sat out x \<longleftrightarrow> set_sat (or_empty (set_space a) (map (\<lambda>(pa, pb). intersect_pair (set_space a) pa pb)
      (List.product (live (disjuncts a)) (live (disjuncts b))))) x"
    unfolding set_sat_def intersect_run(3) [OF assms] ..
  then show ?thesis by (auto simp del: set_live)
qed

lemma intersect_sound:
  assumes "intersect a b = Inr out" and "set_sat a x" and "set_sat b x"
  shows "set_sat out x"
proof -
  from assms(2,3) obtain pa pb where "pa \<in> set (live (disjuncts a))" "pb \<in> set (live (disjuncts b))"
    "rows_sat (poly_rows pa) x" "rows_sat (poly_rows pb) x" unfolding set_sat_live by blast
  then show ?thesis unfolding intersect_sat_eq [OF assms(1)] by (blast intro: intersect_pair_sound)
qed

lemma intersect_exact:
  assumes "intersect a b = Inr out" and "set_sat out x"
    and "\<And>pa pb. pa \<in> set (live (disjuncts a)) \<Longrightarrow> pb \<in> set (live (disjuncts b)) \<Longrightarrow>
        \<not> rowsOverflow (intersect_pair (set_space a) pa pb)"
  shows "set_sat a x \<and> set_sat b x"
proof -
  from assms(2) obtain pa pb where "pa \<in> set (live (disjuncts a))" "pb \<in> set (live (disjuncts b))"
    "poly_sat (intersect_pair (set_space a) pa pb) x" unfolding intersect_sat_eq [OF assms(1)] by blast
  with assms(3) show ?thesis unfolding set_sat_live by (blast dest: intersect_pair_exact)
qed

lemma intersect_no_overflow:
  assumes "intersect a b = Inr out" and "no_overflow out"
    and "pa \<in> set (live (disjuncts a))" and "pb \<in> set (live (disjuncts b))"
  shows "\<not> rowsOverflow (intersect_pair (set_space a) pa pb)"
proof -
  have "no_overflow (or_empty (set_space a) (map (\<lambda>(pa, pb). intersect_pair (set_space a) pa pb)
      (List.product (live (disjuncts a)) (live (disjuncts b)))))"
    using assms(2) unfolding no_overflow_def intersect_run(3) [OF assms(1)] .
  then show ?thesis using assms(3,4) by (simp del: set_live)
qed

lemma wf_intersect:
  assumes "intersect a b = Inr out" and "wf_set a" and "wf_set b"
  shows "wf_set out"
proof -
  have "wf_poly p \<and> poly_space p = set_space a" if p: "p \<in> set (disjuncts out)" for p
    using intersect_disjuncts [OF assms(1) p]
  proof (elim disjE exE conjE)
    fix pa pb
    assume m: "pa \<in> set (live (disjuncts a))" "pb \<in> set (live (disjuncts b))"
      "p = intersect_pair (set_space a) pa pb"
    have "length (row_coeffs r) \<le> totalVars (set_space a)"
      if "r \<in> set (poly_rows pa) \<union> set (poly_rows pb)" for r
      using that m(1,2) assms(2,3) intersect_run(1) [OF assms(1)] by (auto simp: wf_set_def wf_poly_def)
    from wf_intersect_pair [OF this] m(3) show ?thesis by simp
  qed simp
  then show ?thesis by (simp add: wf_set_def intersect_run(2) [OF assms(1)])
qed

lemma unite_run:
  assumes "unite a b = Inr out"
  shows "set_space a = set_space b" and "set_space out = set_space a"
    and "disjuncts out = disjuncts a @ disjuncts b"
  using assms push_run [of id "disjuncts a @ disjuncts b" "[]"]
  by (auto simp: unite_def mlk_try_Inr_iff split: if_splits)

lemma unite_sat:
  "unite a b = Inr out \<Longrightarrow> set_sat out x \<longleftrightarrow> set_sat a x \<or> set_sat b x"
  by (auto simp: set_sat_def unite_run(3))

lemma wf_unite: "unite a b = Inr out \<Longrightarrow> wf_set a \<Longrightarrow> wf_set b \<Longrightarrow> wf_set out"
  using unite_run [of a b out] by (auto simp: wf_set_def)

end
