(* ===== verification/Complement.thy ===== *)
theory Complement
  imports Presburger_Laws
begin

text \<open>
  Complement and subtraction of Presburger sets over the integers. Within the documented
  disjunct budget no intermediate system overflows, so the complement of a set of inequality
  rows is exact. An equality row contributes the conjunction of both half spaces, which is
  empty: the result then stays inside the complement but may miss points of it.
\<close>

section \<open>One row\<close>

lemma map_plain_neg:
  "map_res (\<lambda>c. plain64 (- c)) cs = Inr ds \<Longrightarrow> ds = map uminus cs"
  by (auto simp: map_res_Inr_iff plain64_Inr list_all2_conv_all_nth intro!: nth_equalityI)

lemma negate_row_sat:
  fixes x :: "nat \<Rightarrow> int"
  assumes "negate_row sp r = Inr n"
  shows "poly_sat n x \<longleftrightarrow> \<not> row_isEquality r \<and> \<not> row_sat r x"
    and "\<not> rowsOverflow n" and "length (poly_rows n) \<le> (if row_isEquality r then 2 else 1)"
    and "poly_space n = sp" and "length (row_coeffs r) \<le> totalVars sp \<Longrightarrow> wf_poly n"
proof -
  let ?up = "\<lparr>row_coeffs = row_coeffs r, row_constant = row_constant r - 1, row_isEquality = False\<rparr>"
  let ?down = "\<lparr>row_coeffs = map uminus (row_coeffs r), row_constant = - row_constant r - 1, row_isEquality = False\<rparr>"
  have n: "n = (if row_isEquality r then addRow (addRow (new_poly sp) ?up) ?down else addRow (new_poly sp) ?down)"
    using assms by (auto simp: negate_row_def mlk_try_Inr_iff plain64_Inr dest!: map_plain_neg split: if_splits)
  have up: "row_sat ?up x \<longleftrightarrow> 1 \<le> row_val r x" and down: "row_sat ?down x \<longleftrightarrow> row_val r x \<le> -1"
    by (auto simp: row_sat_def row_val_def lin_map_uminus)
  have l0: "length (poly_rows (new_poly sp)) < kPolyMaxRowsPerSystem"
    by (simp add: kPolyMaxRowsPerSystem_def)
  have l1: "length (poly_rows (addRow (new_poly sp) ?up)) < kPolyMaxRowsPerSystem"
    using addRow_within [OF l0, of ?up x] by (simp add: kPolyMaxRowsPerSystem_def)
  note w = addRow_within [OF l0, of ?up x] addRow_within [OF l0, of ?down x] addRow_within [OF l1, of ?down x]
  show "poly_sat n x \<longleftrightarrow> \<not> row_isEquality r \<and> \<not> row_sat r x"
    using w unfolding n up down by (auto simp: row_sat_def)
  show "\<not> rowsOverflow n" "length (poly_rows n) \<le> (if row_isEquality r then 2 else 1)" "poly_space n = sp"
    using w unfolding n by auto
  show "length (row_coeffs r) \<le> totalVars sp \<Longrightarrow> wf_poly n"
    unfolding n by (auto intro!: wf_addRow)
qed

section \<open>One disjunct\<close>

definition has_equality :: "polyhedron \<Rightarrow> bool" where
  "has_equality p \<longleftrightarrow> (\<exists>r \<in> set (poly_rows p). row_isEquality r)"

lemma negate_rows_run:
  assumes "fold_res (\<lambda>r out. if length out + 1 > kPolyMaxDisjuncts then Inl (Err ResourceExhausted)
         else mlk_try (negate_row sp r) (\<lambda>neg. Inr (out @ [neg]))) rs acc = Inr out"
  shows "\<exists>ns. out = acc @ ns \<and> list_all2 (\<lambda>r n. negate_row sp r = Inr n) rs ns"
  using assms
proof (induction rs arbitrary: acc)
  case Nil
  then show ?case by simp
next
  case (Cons r rs)
  from Cons.prems obtain n where "negate_row sp r = Inr n"
    "fold_res (\<lambda>r out. if length out + 1 > kPolyMaxDisjuncts then Inl (Err ResourceExhausted)
         else mlk_try (negate_row sp r) (\<lambda>neg. Inr (out @ [neg]))) rs (acc @ [n]) = Inr out"
    by (auto simp: mlk_try_Inr_iff split: if_splits)
  with Cons.IH [of "acc @ [n]"] show ?case by (auto simp: list_all2_Cons1)
qed

lemma complement_poly_run:
  assumes "complement_poly sp p = Inr c"
  shows "set_space c = sp" and "\<exists>ns. list_all2 (\<lambda>r n. negate_row sp r = Inr n) (poly_rows p) ns
    \<and> disjuncts c = (if poly_rows p = [] then [empty_poly sp] else ns)"
proof -
  from assms obtain out where run: "fold_res (\<lambda>r out. if length out + 1 > kPolyMaxDisjuncts then Inl (Err ResourceExhausted)
         else mlk_try (negate_row sp r) (\<lambda>neg. Inr (out @ [neg]))) (poly_rows p)
         (if poly_rows p = [] then [empty_poly sp] else []) = Inr out"
    and c: "c = \<lparr>set_space = sp, disjuncts = out\<rparr>"
    unfolding complement_poly_def by (rule mlk_try_InrE) simp
  from negate_rows_run [OF run] c show "set_space c = sp"
    "\<exists>ns. list_all2 (\<lambda>r n. negate_row sp r = Inr n) (poly_rows p) ns
      \<and> disjuncts c = (if poly_rows p = [] then [empty_poly sp] else ns)"
    by (auto split: if_splits)
qed

lemma complement_poly_sat:
  fixes x :: "nat \<Rightarrow> int"
  assumes "complement_poly sp p = Inr c"
  shows "set_sat c x \<longleftrightarrow> (\<exists>r \<in> set (poly_rows p). \<not> row_isEquality r \<and> \<not> row_sat r x)"
proof -
  from complement_poly_run(2) [OF assms] obtain ns where
    ns: "list_all2 (\<lambda>r n. negate_row sp r = Inr n) (poly_rows p) ns"
    and d: "disjuncts c = (if poly_rows p = [] then [empty_poly sp] else ns)" by blast
  have "(\<exists>n \<in> set ns. poly_sat n x) \<longleftrightarrow> (\<exists>r \<in> set (poly_rows p). \<not> row_isEquality r \<and> \<not> row_sat r x)"
    using ns by (induction rule: list_all2_induct) (auto simp: negate_row_sat(1))
  then show ?thesis by (auto simp: set_sat_def d)
qed

lemma complement_poly_disjunct:
  assumes "complement_poly sp p = Inr c" and "n \<in> set (disjuncts c)"
  shows "\<not> rowsOverflow n \<and> length (poly_rows n) \<le> 2 \<and> poly_space n = sp
    \<and> ((\<forall>r \<in> set (poly_rows p). length (row_coeffs r) \<le> totalVars sp) \<longrightarrow> wf_poly n)"
proof -
  from complement_poly_run(2) [OF assms(1)] obtain ns where
    ns: "list_all2 (\<lambda>r n. negate_row sp r = Inr n) (poly_rows p) ns"
    and d: "disjuncts c = (if poly_rows p = [] then [empty_poly sp] else ns)" by blast
  show ?thesis
  proof (cases "poly_rows p = []")
    case True
    with d assms(2) show ?thesis by simp
  next
    case False
    with d assms(2) have "n \<in> set ns" by simp
    with list_all2_source [OF ns] obtain r where r: "r \<in> set (poly_rows p)" "negate_row sp r = Inr n"
      by blast
    have "length (poly_rows n) \<le> 2" using negate_row_sat(3) [OF r(2)] by (simp split: if_splits)
    with negate_row_sat(2,4,5) [OF r(2)] r(1) show ?thesis by simp
  qed
qed

section \<open>The whole set\<close>

text \<open>
  The state after some disjuncts: every system has at most two rows per disjunct consumed, and
  the denotation is what their negations have in common.
\<close>

definition comp_inv :: "var_space \<Rightarrow> polyhedron list \<Rightarrow> presburger \<Rightarrow> bool" where
  "comp_inv sp ps acc \<longleftrightarrow> set_space acc = sp \<and> no_overflow acc
     \<and> (\<forall>p \<in> set (disjuncts acc). length (poly_rows p) \<le> 2 * length ps)
     \<and> (\<forall>x :: nat \<Rightarrow> int. set_sat acc x \<longleftrightarrow>
          (\<forall>p \<in> set ps. \<exists>r \<in> set (poly_rows p). \<not> row_isEquality r \<and> \<not> row_sat r x))"

lemma comp_inv_step:
  assumes inv: "comp_inv sp ps acc" and c: "complement_poly sp p = Inr c" and i: "intersect acc c = Inr out"
    and len: "2 * length ps + 2 \<le> kPolyMaxRowsPerSystem"
  shows "comp_inv sp (ps @ [p]) out"
proof -
  have sp: "set_space acc = sp" using inv by (simp add: comp_inv_def)
  have within: "\<not> rowsOverflow (intersect_pair (set_space acc) pa pb)
      \<and> length (poly_rows (intersect_pair (set_space acc) pa pb)) \<le> 2 * length ps + 2"
    if "pa \<in> set (live (disjuncts acc))" "pb \<in> set (live (disjuncts c))" for pa pb
  proof -
    have "length (poly_rows pa) \<le> 2 * length ps" "length (poly_rows pb) \<le> 2"
      using that inv complement_poly_disjunct [OF c, of pb] by (auto simp: comp_inv_def)
    then show ?thesis using len intersect_pair_within [of pa pb "set_space acc"] by simp
  qed
  have "set_sat out x \<longleftrightarrow> set_sat acc x \<and> set_sat c x" for x :: "nat \<Rightarrow> int"
    using intersect_sound [OF i, of x] intersect_exact [OF i, of x] within by blast
  moreover have "\<not> rowsOverflow q \<and> length (poly_rows q) \<le> 2 * length ps + 2"
    if "q \<in> set (disjuncts out)" for q
    using intersect_disjuncts [OF i that]
  proof (elim disjE exE conjE)
    fix pa pb
    assume "pa \<in> set (live (disjuncts acc))" "pb \<in> set (live (disjuncts c))"
      "q = intersect_pair (set_space acc) pa pb"
    with within [of pa pb] show ?thesis by simp
  qed simp
  moreover have "set_space out = sp" using intersect_run(2) [OF i] sp by simp
  ultimately show ?thesis
    using inv complement_poly_sat [OF c] by (auto simp: comp_inv_def no_overflow_def)
qed

lemma comp_inv_init: "comp_inv sp [] \<lparr>set_space = sp, disjuncts = [new_poly sp]\<rparr>"
  by (simp add: comp_inv_def no_overflow_def)

lemma complement_run:
  assumes "fold_res (\<lambda>p acc. mlk_try (complement_poly sp p) (intersect acc)) ps
      \<lparr>set_space = sp, disjuncts = [new_poly sp]\<rparr> = Inr out"
    and "2 * length ps \<le> kPolyMaxRowsPerSystem"
  shows "comp_inv sp ps out"
  using assms
proof (induction ps arbitrary: out rule: rev_induct)
  case Nil
  then show ?case using comp_inv_init [of sp] by auto
next
  case (snoc p ps)
  from snoc.prems(1) obtain acc c where
    "fold_res (\<lambda>p acc. mlk_try (complement_poly sp p) (intersect acc)) ps
      \<lparr>set_space = sp, disjuncts = [new_poly sp]\<rparr> = Inr acc"
    "complement_poly sp p = Inr c" "intersect acc c = Inr out"
    by (auto simp: fold_res_snoc_Inr mlk_try_Inr_iff)
  with snoc.IH snoc.prems(2) comp_inv_step show ?case by simp
qed

definition within_disjunct_budget :: "presburger \<Rightarrow> bool" where
  "within_disjunct_budget s \<longleftrightarrow> length (disjuncts s) \<le> kPolyMaxDisjuncts"

lemma complement_inv:
  assumes "complement a = Inr out" and "within_disjunct_budget a"
  shows "comp_inv (set_space a) (live (disjuncts a)) out"
proof (rule complement_run)
  show "fold_res (\<lambda>p acc. mlk_try (complement_poly (set_space a) p) (intersect acc)) (live (disjuncts a))
      \<lparr>set_space = set_space a, disjuncts = [new_poly (set_space a)]\<rparr> = Inr out"
    using assms(1) by (simp add: complement_def)
  have "length (live (disjuncts a)) \<le> length (disjuncts a)" by (simp add: live_def)
  then show "2 * length (live (disjuncts a)) \<le> kPolyMaxRowsPerSystem"
    using assms(2) by (simp add: within_disjunct_budget_def kPolyMaxDisjuncts_def kPolyMaxRowsPerSystem_def)
qed

definition inequalities_only :: "presburger \<Rightarrow> bool" where
  "inequalities_only s \<longleftrightarrow> (\<forall>p \<in> set (live (disjuncts s)). \<not> has_equality p)"

lemma complement_within:
  fixes x :: "nat \<Rightarrow> int"
  assumes "complement a = Inr out" and "within_disjunct_budget a" and "set_sat out x"
  shows "\<not> set_sat a x"
  using complement_inv [OF assms(1,2)] assms(3)
  by (auto simp: comp_inv_def set_sat_live [of a] rows_sat_def simp del: set_live)

lemma complement_iff:
  fixes x :: "nat \<Rightarrow> int"
  assumes "complement a = Inr out" and "within_disjunct_budget a" and "inequalities_only a"
  shows "set_sat out x \<longleftrightarrow> \<not> set_sat a x"
  using complement_inv [OF assms(1,2)] assms(3)
  by (fastforce simp: comp_inv_def set_sat_live [of a] rows_sat_def inequalities_only_def has_equality_def
      simp del: set_live)

lemma complement_props:
  assumes "complement a = Inr out" and "within_disjunct_budget a"
  shows "set_space out = set_space a" and "no_overflow out"
  using complement_inv [OF assms] by (auto simp: comp_inv_def)

lemma subtract_iff:
  fixes x :: "nat \<Rightarrow> int"
  assumes "subtract a b = Inr out" and "within_disjunct_budget b" and "inequalities_only b"
    and "no_overflow out"
  shows "set_sat out x \<longleftrightarrow> set_sat a x \<and> \<not> set_sat b x"
proof -
  from assms(1) obtain nb where nb: "complement b = Inr nb" "intersect a nb = Inr out"
    by (auto simp: subtract_def)
  show ?thesis
    using intersect_sound [OF nb(2), of x] intersect_exact [OF nb(2), of x]
      intersect_no_overflow [OF nb(2) assms(4)] complement_iff [OF nb(1) assms(2,3), of x] by blast
qed

end
