(* ===== verification/Projection.thy ===== *)
theory Projection
  imports Presburger_Laws
begin

text \<open>
  Emptiness, projection and the exact point check of Presburger sets. The locale \<open>eliminator\<close>
  is the contract of a one-variable elimination as its callers use it: it never loses a point,
  it keeps well-formedness and the space, the eliminated variable is gone and no other one
  appears, and without an overflow the result is the exact shadow over a field. Repeated
  elimination inherits the contract; \<open>fmEliminate\<close> provides it.
\<close>

locale eliminator =
  fixes elim :: "polyhedron \<Rightarrow> nat \<Rightarrow> fm_outcome result"
  assumes sound: "elim sys v = Inr out \<Longrightarrow> wf_poly sys \<Longrightarrow> poly_sat sys x \<Longrightarrow>
      \<not> fm_empty out \<and> poly_sat (fm_projected out) (x :: nat \<Rightarrow> int)"
    and exact: "elim sys v = Inr out \<Longrightarrow> wf_poly sys \<Longrightarrow> \<not> fm_empty out \<Longrightarrow>
      \<not> rowsOverflow (fm_projected out) \<Longrightarrow> poly_sat (fm_projected out) y \<Longrightarrow>
      \<exists>t. poly_sat sys ((y :: nat \<Rightarrow> rat)(v := t))"
    and wf: "elim sys v = Inr out \<Longrightarrow> wf_poly sys \<Longrightarrow> \<not> fm_empty out \<Longrightarrow> wf_poly (fm_projected out)"
    and space: "elim sys v = Inr out \<Longrightarrow> wf_poly sys \<Longrightarrow> \<not> fm_empty out \<Longrightarrow>
      poly_space (fm_projected out) = poly_space sys"
    and gone: "elim sys v = Inr out \<Longrightarrow> wf_poly sys \<Longrightarrow> \<not> fm_empty out \<Longrightarrow> var_absent v (fm_projected out)"
    and absent: "elim sys v = Inr out \<Longrightarrow> wf_poly sys \<Longrightarrow> \<not> fm_empty out \<Longrightarrow>
      var_absent u sys \<Longrightarrow> var_absent u (fm_projected out)"
    and no_budget: "elim sys v = Inr out \<Longrightarrow> wf_poly sys \<Longrightarrow> \<not> fm_budgetExceeded out"
begin

fun elim_all :: "nat list \<Rightarrow> polyhedron \<Rightarrow> polyhedron option result" where
  "elim_all [] sys = Inr (Some sys)"
| "elim_all (v # vs) sys = mlk_try (elim sys v) (\<lambda>fm.
     if fm_empty fm then Inr None
     else if fm_budgetExceeded fm then Inl (Err BudgetExceeded)
     else elim_all vs (fm_projected fm))"

lemma elim_all_Cons:
  assumes "elim_all (v # vs) sys = Inr r" and "wf_poly sys"
  obtains (empty) fm where "elim sys v = Inr fm" "fm_empty fm" "r = None"
  | (go_on) fm where "elim sys v = Inr fm" "\<not> fm_empty fm" "elim_all vs (fm_projected fm) = Inr r"
      "wf_poly (fm_projected fm)"
proof -
  from assms(1) obtain fm where fm: "elim sys v = Inr fm"
    and k: "(if fm_empty fm then Inr None else if fm_budgetExceeded fm then Inl (Err BudgetExceeded)
      else elim_all vs (fm_projected fm)) = Inr r" by auto
  show thesis
  proof (cases "fm_empty fm")
    case True
    with fm k show thesis by (intro empty) auto
  next
    case False
    with fm k wf [OF fm assms(2) False] show thesis by (intro go_on) (auto split: if_splits)
  qed
qed

lemma elim_all_sound:
  fixes x :: "nat \<Rightarrow> int"
  assumes "elim_all vs sys = Inr r" and "wf_poly sys" and "poly_sat sys x"
  shows "\<exists>q. r = Some q \<and> poly_sat q x"
  using assms
proof (induction vs arbitrary: sys)
  case Nil
  then show ?case by auto
next
  case (Cons v vs)
  from Cons.prems(1,2) show ?case
  proof (cases rule: elim_all_Cons)
    case (empty fm)
    with sound [OF empty(1) Cons.prems(2,3)] show ?thesis by simp
  next
    case (go_on fm)
    with sound [OF go_on(1) Cons.prems(2,3)] Cons.IH show ?thesis by blast
  qed
qed

lemma elim_all_absent:
  assumes "elim_all vs sys = Inr (Some q)" and "wf_poly sys"
  shows "wf_poly q \<and> poly_space q = poly_space sys
    \<and> (\<forall>u. u \<in> set vs \<or> var_absent u sys \<longrightarrow> var_absent u q)"
  using assms
proof (induction vs arbitrary: sys)
  case Nil
  then show ?case by simp
next
  case (Cons v vs)
  from Cons.prems(1,2) show ?case
  proof (cases rule: elim_all_Cons)
    case (go_on fm)
    from Cons.IH [OF go_on(3,4)] space [OF go_on(1) Cons.prems(2) go_on(2)]
      gone [OF go_on(1) Cons.prems(2) go_on(2)] absent [OF go_on(1) Cons.prems(2) go_on(2)]
    show ?thesis by auto
  qed simp
qed

end

interpretation fm: eliminator fmEliminate
proof
  fix sys out v u and x :: "nat \<Rightarrow> int" and y :: "nat \<Rightarrow> rat"
  assume e: "fmEliminate sys v = Inr out" and wf: "wf_poly sys"
  show "poly_sat sys x \<Longrightarrow> \<not> fm_empty out \<and> poly_sat (fm_projected out) x"
    by (rule fmEliminate_sound [OF e wf])
  show "\<not> fm_budgetExceeded out" by (rule fmEliminate_budget [OF e wf])
  assume ne: "\<not> fm_empty out"
  show "\<not> rowsOverflow (fm_projected out) \<Longrightarrow> poly_sat (fm_projected out) y \<Longrightarrow> \<exists>t. poly_sat sys (y(v := t))"
    by (rule fmEliminate_exact [OF e wf ne])
  show "wf_poly (fm_projected out)" "poly_space (fm_projected out) = poly_space sys"
    using fmEliminate_wf(1,2) [OF e wf ne] by auto
  show "var_absent v (fm_projected out)" by (rule fmEliminate_gone [OF e wf ne])
  show "var_absent u sys \<Longrightarrow> var_absent u (fm_projected out)" by (rule fmEliminate_absent [OF e wf _ ne])
qed

section \<open>Emptiness\<close>

lemma feasibility_loop_empty:
  assumes "feasibility_loop ps b = Inr FEmpty" and "\<forall>p \<in> set ps. wf_poly p"
  shows "\<not> b \<and> (\<forall>p \<in> set ps. \<not> poly_sat p x)"
  using assms
proof (induction ps b rule: feasibility_loop.induct)
  case (2 p ps b)
  show ?case
  proof (cases "isEmptyFlag p")
    case True
    then show ?thesis using 2 by (auto simp: poly_sat_def)
  next
    case False
    then obtain f where f: "\<not> rowsOverflow p" "eliminateAll p = Inr f" "f \<noteq> FNonEmpty"
      "feasibility_loop ps (b \<or> f = FUnknown) = Inr FEmpty"
      using "2.prems" "2.IH"(2) by (auto simp: mlk_try_Inr_iff split: if_splits)
    with "2.IH"(3) [OF False f(1,2,3) f(4)] "2.prems"(2)
    have "\<not> (b \<or> f = FUnknown) \<and> (\<forall>p \<in> set ps. \<not> poly_sat p x)" by simp
    moreover with f(3) have "f = FEmpty" by (cases f) auto
    ultimately show ?thesis using eliminateAll_empty [of p x] f(2) "2.prems"(2) by simp
  qed
qed (simp split: if_splits)

lemma feasibility_loop_nonempty:
  assumes "feasibility_loop ps b = Inr FNonEmpty" and "\<forall>p \<in> set ps. wf_poly p"
  shows "\<exists>p \<in> set ps. \<exists>x :: nat \<Rightarrow> 'a::linordered_field. poly_sat p x"
  using assms
  by (induction ps b rule: feasibility_loop.induct)
    (auto simp: mlk_try_Inr_iff split: if_splits dest: eliminateAll_nonempty [where 'a = 'a])

lemma set_feasibility_empty:
  "set_feasibility s = Inr FEmpty \<Longrightarrow> wf_set s \<Longrightarrow> \<not> set_sat s x"
  using feasibility_loop_empty [of "disjuncts s" False x]
  by (auto simp: set_feasibility_def set_sat_def wf_set_def)

lemma set_feasibility_nonempty:
  "set_feasibility s = Inr FNonEmpty \<Longrightarrow> wf_set s \<Longrightarrow> \<exists>x :: nat \<Rightarrow> 'a::linordered_field. set_sat s x"
  using feasibility_loop_nonempty [of "disjuncts s" False, where 'a = 'a]
  by (auto simp: set_feasibility_def set_sat_def wf_set_def)

lemma provablyEmpty_sound:
  "provablyEmpty s = Inr True \<Longrightarrow> wf_set s \<Longrightarrow> \<not> set_sat s x"
  using set_feasibility_empty [of s x] by (auto simp: provablyEmpty_def mlk_try_Inr_iff)

section \<open>Projection\<close>

lemma projectOut_run:
  assumes "fold_res (projectOut_step v) ps acc = Inr out" and "\<forall>p \<in> set ps. wf_poly p"
  shows "\<exists>qs. out = acc @ qs
    \<and> (\<forall>q \<in> set qs. \<exists>p \<in> set ps. \<exists>fm. fmEliminate p v = Inr fm \<and> \<not> fm_empty fm \<and> q = fm_projected fm)
    \<and> (\<forall>p \<in> set ps. \<not> isEmptyFlag p \<longrightarrow>
         (\<exists>fm. fmEliminate p v = Inr fm \<and> (\<not> fm_empty fm \<longrightarrow> fm_projected fm \<in> set qs)))"
  using assms
proof (induction ps arbitrary: acc)
  case Nil
  then show ?case by simp
next
  case (Cons p ps)
  from Cons.prems(1) obtain u where u: "projectOut_step v p acc = Inr u" "fold_res (projectOut_step v) ps u = Inr out"
    by (auto simp: mlk_try_Inr_iff)
  from Cons.IH [OF u(2)] Cons.prems(2) obtain qs where qs: "out = u @ qs"
    "\<forall>q \<in> set qs. \<exists>p \<in> set ps. \<exists>fm. fmEliminate p v = Inr fm \<and> \<not> fm_empty fm \<and> q = fm_projected fm"
    "\<forall>p \<in> set ps. \<not> isEmptyFlag p \<longrightarrow>
         (\<exists>fm. fmEliminate p v = Inr fm \<and> (\<not> fm_empty fm \<longrightarrow> fm_projected fm \<in> set qs))" by auto
  show ?case
  proof (cases "isEmptyFlag p \<or> u = acc")
    case True
    then have "u = acc" and "isEmptyFlag p \<or> (\<exists>fm. fmEliminate p v = Inr fm \<and> fm_empty fm)"
      using u(1) by (auto simp: projectOut_step_def mlk_try_Inr_iff split: if_splits)
    with qs show ?thesis by (intro exI [of _ qs]) auto
  next
    case False
    then obtain fm where fm: "fmEliminate p v = Inr fm" "\<not> fm_empty fm" "u = acc @ [fm_projected fm]"
      using u(1) by (auto simp: projectOut_step_def mlk_try_Inr_iff split: if_splits)
    with qs show ?thesis by (intro exI [of _ "fm_projected fm # qs"]) auto
  qed
qed

lemma projectOut_cases:
  assumes "projectOut s v = Inr out" and "wf_set s"
  obtains qs where "out = or_empty (set_space s) qs"
    "\<And>q. q \<in> set qs \<Longrightarrow> \<exists>p \<in> set (disjuncts s). \<exists>fm. fmEliminate p v = Inr fm \<and> \<not> fm_empty fm \<and> q = fm_projected fm"
    "\<And>p. p \<in> set (disjuncts s) \<Longrightarrow> \<not> isEmptyFlag p \<Longrightarrow>
       \<exists>fm. fmEliminate p v = Inr fm \<and> (\<not> fm_empty fm \<longrightarrow> fm_projected fm \<in> set qs)"
proof -
  from assms(1) obtain qs where "fold_res (projectOut_step v) (disjuncts s) [] = Inr qs"
    and "out = or_empty (set_space s) qs" by (auto simp: projectOut_def)
  with projectOut_run [of v "disjuncts s" "[]" qs] assms(2) that show thesis
    by (auto simp: wf_set_def)
qed

lemma projectOut_sound:
  assumes "projectOut s v = Inr out" and "wf_set s" and "set_sat s x"
  shows "set_sat out (x(v := t))"
  using assms(1,2)
proof (rule projectOut_cases)
  fix qs
  assume qs: "out = or_empty (set_space s) qs"
    "\<And>p. p \<in> set (disjuncts s) \<Longrightarrow> \<not> isEmptyFlag p \<Longrightarrow>
       \<exists>fm. fmEliminate p v = Inr fm \<and> (\<not> fm_empty fm \<longrightarrow> fm_projected fm \<in> set qs)"
  from assms(3) obtain p where p: "p \<in> set (disjuncts s)" "poly_sat p x" by (auto simp: set_sat_def)
  with qs(2) obtain fm where fm: "fmEliminate p v = Inr fm" "\<not> fm_empty fm \<longrightarrow> fm_projected fm \<in> set qs"
    by (auto simp: poly_sat_def)
  have wf: "wf_poly p" using assms(2) p(1) by (simp add: wf_set_def)
  note s = fmEliminate_sound [OF fm(1) wf p(2)]
  have "row_sat r (x(v := t))" if "r \<in> set (poly_rows (fm_projected fm))" for r
    using fmEliminate_wf(3) [OF fm(1) wf _ that] s that by (simp add: row_sat_indep poly_sat_def rows_sat_def)
  with s have "poly_sat (fm_projected fm) (x(v := t))" by (auto simp: poly_sat_def rows_sat_def)
  with s fm(2) show "set_sat out (x(v := t))" by (auto simp: qs(1))
qed

definition live_fits :: "presburger \<Rightarrow> bool" where
  "live_fits s \<longleftrightarrow> (\<forall>p \<in> set (disjuncts s). \<not> isEmptyFlag p \<longrightarrow> \<not> rowsOverflow p)"

lemma no_overflow_live_fits: "no_overflow s \<Longrightarrow> live_fits s"
  by (simp add: no_overflow_def live_fits_def)

lemma projectOut_exact_live:
  fixes x :: "nat \<Rightarrow> 'a::linordered_field"
  assumes "projectOut s v = Inr out" and "wf_set s" and "live_fits out" and "set_sat out x"
  shows "\<exists>t. set_sat s (x(v := t))"
  using assms(1,2)
proof (rule projectOut_cases)
  fix qs
  assume qs: "out = or_empty (set_space s) qs"
    "\<And>q. q \<in> set qs \<Longrightarrow> \<exists>p \<in> set (disjuncts s). \<exists>fm. fmEliminate p v = Inr fm \<and> \<not> fm_empty fm \<and> q = fm_projected fm"
  from assms(4) obtain q where q: "q \<in> set qs" "poly_sat q x" by (auto simp: qs(1))
  with qs(2) obtain p fm where "p \<in> set (disjuncts s)" "fmEliminate p v = Inr fm" "\<not> fm_empty fm" "q = fm_projected fm"
    by blast
  moreover have "\<not> rowsOverflow q"
    using q assms(3) by (auto simp: qs(1) live_fits_def or_empty_def poly_sat_def split: if_splits)
  ultimately show "\<exists>t. set_sat s (x(v := t))"
    using q assms(2) fmEliminate_exact [of p v fm x] by (auto simp: set_sat_def wf_set_def)
qed

lemma projectOut_exact:
  fixes x :: "nat \<Rightarrow> 'a::linordered_field"
  assumes "projectOut s v = Inr out" and "wf_set s" and "no_overflow out" and "set_sat out x"
  shows "\<exists>t. set_sat s (x(v := t))"
  by (rule projectOut_exact_live [OF assms(1,2) no_overflow_live_fits [OF assms(3)] assms(4)])

lemma projectOut_live_fits:
  assumes "projectOut s v = Inr out"
  shows "live_fits s"
proof -
  from assms obtain qs where "fold_res (projectOut_step v) (disjuncts s) [] = Inr qs"
    by (auto simp: projectOut_def mlk_try_Inr_iff)
  then have "\<forall>p \<in> set ps. \<not> isEmptyFlag p \<longrightarrow> \<not> rowsOverflow p" if "fold_res (projectOut_step v) ps acc = Inr qs" for ps acc
    using that by (induction ps arbitrary: acc) (auto simp: mlk_try_Inr_iff projectOut_step_def split: if_splits)
  then show ?thesis using \<open>fold_res _ _ _ = _\<close> unfolding live_fits_def by blast
qed

lemma wf_projectOut:
  assumes "projectOut s v = Inr out" and "wf_set s"
  shows "wf_set out \<and> set_space out = set_space s"
  using assms
proof (rule projectOut_cases)
  fix qs
  assume qs: "out = or_empty (set_space s) qs"
    "\<And>q. q \<in> set qs \<Longrightarrow> \<exists>p \<in> set (disjuncts s). \<exists>fm. fmEliminate p v = Inr fm \<and> \<not> fm_empty fm \<and> q = fm_projected fm"
  have "wf_poly q \<and> poly_space q = set_space s" if q: "q \<in> set qs" for q
  proof -
    from qs(2) [OF q] obtain p fm where p: "p \<in> set (disjuncts s)" "fmEliminate p v = Inr fm"
      "\<not> fm_empty fm" "q = fm_projected fm" by blast
    with assms(2) fmEliminate_wf(1,2) [OF p(2) _ p(3)] show ?thesis by (simp add: wf_set_def)
  qed
  then show ?thesis unfolding qs(1) by (simp add: wf_or_empty)
qed

text \<open>Existential projection: the eliminated dimensions may take any value.\<close>

definition agree_on :: "(nat \<Rightarrow> bool) \<Rightarrow> (nat \<Rightarrow> 'a) \<Rightarrow> (nat \<Rightarrow> 'a) \<Rightarrow> bool" where
  "agree_on kept x y \<longleftrightarrow> (\<forall>v. kept v \<longrightarrow> x v = y v)"

definition eliminated :: "bool list \<Rightarrow> nat \<Rightarrow> nat \<Rightarrow> bool" where
  "eliminated keep k v \<longleftrightarrow> v < k \<and> \<not> (v < length keep \<and> keep ! v)"

lemma existsProject_run:
  fixes x y :: "nat \<Rightarrow> 'a::linordered_idom"
  assumes "fold_res (\<lambda>d cur. if d < length keep \<and> keep ! d then Inr cur else projectOut cur d) [0..<k] s = Inr out"
    and "wf_set s"
  shows "wf_set out \<and> set_space out = set_space s
    \<and> (set_sat s x \<longrightarrow> agree_on (\<lambda>v. \<not> eliminated keep k v) x y \<longrightarrow> set_sat out y)"
  using assms
proof (induction k arbitrary: out y)
  case 0
  then have "x = y" if "agree_on (\<lambda>v. \<not> eliminated keep 0 v) x y"
    using that by (auto simp: agree_on_def eliminated_def)
  with 0 show ?case by auto
next
  case (Suc k)
  let ?f = "\<lambda>d cur. if d < length keep \<and> keep ! d then Inr cur else projectOut cur d"
  from Suc.prems(1) obtain u where u: "fold_res ?f [0..<k] s = Inr u" "?f k u = Inr out"
    by (auto simp: fold_res_append mlk_try_Inr_iff)
  show ?case
  proof (cases "k < length keep \<and> keep ! k")
    case True
    then have "eliminated keep (Suc k) v = eliminated keep k v" for v
      by (auto simp: eliminated_def less_Suc_eq)
    with True u Suc.IH [OF u(1) Suc.prems(2)] show ?thesis by simp
  next
    case False
    with u(2) have p: "projectOut u k = Inr out" by simp
    have wu: "wf_set u" "set_space u = set_space s" using Suc.IH [OF u(1) Suc.prems(2)] by auto
    have "set_sat out y" if "set_sat s x" "agree_on (\<lambda>v. \<not> eliminated keep (Suc k) v) x y"
    proof -
      have "agree_on (\<lambda>v. \<not> eliminated keep k v) x (y(k := x k))"
        using that(2) by (auto simp: agree_on_def eliminated_def less_Suc_eq)
      with that(1) Suc.IH [OF u(1) Suc.prems(2)] have "set_sat u (y(k := x k))" by blast
      from projectOut_sound [OF p wu(1) this, of "y k"] show ?thesis by simp
    qed
    with wf_projectOut [OF p wu(1)] wu(2) show ?thesis by simp
  qed
qed

lemma existsProject_sound:
  fixes x y :: "nat \<Rightarrow> 'a::linordered_idom"
  assumes "existsProject s keep = Inr out" and "wf_set s" and "set_sat s x"
    and "agree_on (\<lambda>v. \<not> eliminated keep (nDims (set_space s)) v) x y"
  shows "set_sat out y"
  using assms existsProject_run [of keep "nDims (set_space s)" s out x y]
  by (auto simp: existsProject_def split: if_splits)

lemma wf_existsProject:
  assumes "existsProject s keep = Inr out" and "wf_set s"
  shows "wf_set out \<and> set_space out = set_space s"
  using assms existsProject_run [of keep "nDims (set_space s)" s out "\<lambda>_. 0 :: int" "\<lambda>_. 0"]
  by (auto simp: existsProject_def split: if_splits)

text \<open>Over a field the projection is exact: a point of the result extends to one of the set.\<close>

lemma existsProject_exact_run:
  fixes y :: "nat \<Rightarrow> 'a::linordered_field"
  assumes "fold_res (\<lambda>d cur. if d < length keep \<and> keep ! d then Inr cur else projectOut cur d) [0..<k] s = Inr out"
    and "wf_set s" and "live_fits out" and "set_sat out y"
  shows "\<exists>x. agree_on (\<lambda>v. \<not> eliminated keep k v) x y \<and> set_sat s x"
  using assms
proof (induction k arbitrary: out y)
  case 0
  then show ?case by (auto simp: agree_on_def)
next
  case (Suc k)
  let ?f = "\<lambda>d cur. if d < length keep \<and> keep ! d then Inr cur else projectOut cur d"
  from Suc.prems(1) obtain u where u: "fold_res ?f [0..<k] s = Inr u" "?f k u = Inr out"
    by (auto simp: fold_res_append mlk_try_Inr_iff)
  show ?case
  proof (cases "k < length keep \<and> keep ! k")
    case True
    then have "eliminated keep (Suc k) v = eliminated keep k v" for v
      by (auto simp: eliminated_def less_Suc_eq)
    moreover have "u = out" using u(2) True by simp
    ultimately show ?thesis using Suc.IH [OF u(1) Suc.prems(2)] Suc.prems(3,4) by simp
  next
    case False
    with u(2) have p: "projectOut u k = Inr out" by simp
    have "wf_set u" using existsProject_run [OF u(1) Suc.prems(2)] by blast
    from projectOut_exact_live [OF p this Suc.prems(3,4)] obtain t where "set_sat u (y(k := t))" by blast
    from Suc.IH [OF u(1) Suc.prems(2) projectOut_live_fits [OF p] this] obtain x
      where x: "agree_on (\<lambda>v. \<not> eliminated keep k v) x (y(k := t))" "set_sat s x" by blast
    have "agree_on (\<lambda>v. \<not> eliminated keep (Suc k) v) x y"
      using x(1) False by (auto simp: agree_on_def eliminated_def less_Suc_eq)
    with x(2) show ?thesis by blast
  qed
qed

lemma existsProject_exact:
  fixes y :: "nat \<Rightarrow> 'a::linordered_field"
  assumes "existsProject s keep = Inr out" and "wf_set s" and "live_fits out" and "set_sat out y"
  shows "\<exists>x. agree_on (\<lambda>v. \<not> eliminated keep (nDims (set_space s)) v) x y \<and> set_sat s x"
  using assms existsProject_exact_run [of keep "nDims (set_space s)" s out y]
  by (auto simp: existsProject_def split: if_splits)

section \<open>Point check\<close>

lemma row_containsPoint_sound:
  "row_containsPoint r vs \<Longrightarrow> length (row_coeffs r) \<le> length vs \<Longrightarrow> row_sat r (pt vs :: nat \<Rightarrow> int)"
  by (auto simp: row_containsPoint_def row_sat_def row_val_def dest!: eval_terms_Inr split: sum.splits if_splits)

definition row_evaluates :: "constraint_row \<Rightarrow> int list \<Rightarrow> bool" where
  "row_evaluates r vs \<longleftrightarrow> (\<exists>v. eval_terms (row_coeffs r) vs (row_constant r) = Inr v)"

lemma row_containsPoint_iff:
  assumes "length (row_coeffs r) \<le> length vs" and "row_evaluates r vs"
  shows "row_containsPoint r vs \<longleftrightarrow> row_sat r (pt vs :: nat \<Rightarrow> int)"
proof -
  from assms(2) obtain v where v: "eval_terms (row_coeffs r) vs (row_constant r) = Inr v"
    by (auto simp: row_evaluates_def)
  from eval_terms_Inr [OF v assms(1)] show ?thesis
    by (simp add: row_containsPoint_def row_sat_def row_val_def v not_less)
qed

lemma poly_containsPoint_sound:
  assumes "poly_containsPoint p vs" and "wf_poly p"
  shows "poly_sat p (pt vs :: nat \<Rightarrow> int)"
proof -
  have "\<not> isEmptyFlag p" "totalVars (poly_space p) \<le> length vs" "\<forall>r \<in> set (poly_rows p). row_containsPoint r vs"
    using assms(1) by (auto simp: poly_containsPoint_def split: if_splits)
  with wf_polyD [OF assms(2)] show ?thesis
    by (auto simp: poly_sat_def rows_sat_def intro!: row_containsPoint_sound)
qed

lemma poly_containsPoint_iff:
  assumes "wf_poly p" and "totalVars (poly_space p) \<le> length vs"
    and "\<And>r. r \<in> set (poly_rows p) \<Longrightarrow> row_evaluates r vs"
  shows "poly_containsPoint p vs \<longleftrightarrow> poly_sat p (pt vs :: nat \<Rightarrow> int)"
proof (cases "isEmptyFlag p")
  case False
  have "row_containsPoint r vs \<longleftrightarrow> row_sat r (pt vs :: nat \<Rightarrow> int)" if "r \<in> set (poly_rows p)" for r
    by (rule row_containsPoint_iff [OF _ assms(3) [OF that]]) (use wf_polyD [OF assms(1) False that] assms(2) in simp)
  with False assms(2) show ?thesis by (auto simp: poly_containsPoint_def poly_sat_def rows_sat_def)
qed (simp add: poly_containsPoint_def poly_sat_def)

lemma set_containsPoint_sound:
  "set_containsPoint s vs \<Longrightarrow> wf_set s \<Longrightarrow> set_sat s (pt vs :: nat \<Rightarrow> int)"
  by (auto simp: set_containsPoint_def set_sat_def wf_set_def intro: poly_containsPoint_sound)

text \<open>In-limit systems over at most seven variables never overflow at an in-limit point.\<close>

lemma row_evaluates_in_limit:
  assumes "\<And>c. c \<in> set (row_coeffs r) \<Longrightarrow> in_limit c" and "in_limit (row_constant r)"
    and "\<And>v. v \<in> set vs \<Longrightarrow> in_limit v" and "length (row_coeffs r) = length vs" and "length vs \<le> 7"
  shows "row_evaluates r vs"
  unfolding row_evaluates_def
proof (rule eval_terms_total)
  have "\<bar>row_constant r\<bar> \<le> 1073741824" using assms(2) by (auto simp: limit_defs)
  moreover have "int (length (row_coeffs r)) * 1152921504606846976 \<le> 7 * 1152921504606846976"
    using assms(4,5) by simp
  ultimately show "\<bar>row_constant r\<bar> + int (length (row_coeffs r)) * 1152921504606846976 \<le> INT64_MAX"
    by (simp add: i64_defs)
qed (use assms in auto)

end
