(* ===== verification/Lex_Opt.thy ===== *)
theory Lex_Opt
  imports Projection
begin

text \<open>
  Exact integer lexicographic optima, \<open>lexSearch\<close>, \<open>lexMin\<close> and \<open>lexMax\<close> of
  \<open>polyhedral/src/int_set.cpp\<close>. The search state's node budget is threaded through the
  recursion; the first component of a result is the budget left, the second the point found
  (\<open>st.best\<close> is set exactly when the search returns true). The recursion parameter counts the
  dimensions still to fix, \<open>nDims - prefix.size()\<close>, and the candidate loop the steps left
  until \<open>cand == stop\<close>.
\<close>

section \<open>The search\<close>

fun lex_project :: "nat list \<Rightarrow> polyhedron \<Rightarrow> polyhedron option result" where
  "lex_project [] sys = Inr (Some sys)"
| "lex_project (v # vs) sys = mlk_try (fmEliminate sys v) (\<lambda>fm.
     if fm_empty fm then Inr None
     else if fm_budgetExceeded fm then Inl (Err BudgetExceeded)
     else lex_project vs (fm_projected fm))"

text \<open>The interval the rows leave for dimension \<open>d\<close>; \<open>None\<close> is the early \<open>return false\<close>.\<close>

fun lex_interval :: "nat \<Rightarrow> constraint_row list \<Rightarrow> int \<Rightarrow> int \<Rightarrow> (int \<times> int) option result" where
  "lex_interval d [] lb ub = Inr (Some (lb, ub))"
| "lex_interval d (r # rs) lb ub =
     (let c = row_coeffOf r d in
      if c = 0 then lex_interval d rs lb ub
      else if row_isEquality r then
        if row_constant r smod c \<noteq> 0 then Inr None
        else mlk_try (plain64 (- row_constant r)) (\<lambda>nk.
          let exact = floorDiv nk c in
          if exact < lb \<or> exact > ub then Inr None
          else lex_interval d rs exact exact)
      else mlk_try (plain64 (- row_constant r)) (\<lambda>nk.
        if c > 0 then
          let bound = ceilDiv nk c in lex_interval d rs (if bound > lb then bound else lb) ub
        else
          let bound = floorDiv nk c in lex_interval d rs lb (if bound < ub then bound else ub)))"

fun lex_substitute :: "nat \<Rightarrow> int \<Rightarrow> constraint_row list \<Rightarrow> constraint_row list option result" where
  "lex_substitute d cand [] = Inr (Some [])"
| "lex_substitute d cand (r # rs) =
     (let c = row_coeffOf r d in
      if c = 0 then
        if isTriviallyFalse r then Inr None
        else mlk_try (lex_substitute d cand rs) (\<lambda>rows. Inr (map_option (\<lambda>rows. r # rows) rows))
      else case checked_mul c cand of
        None \<Rightarrow> Inl (Err InvalidArgument)
      | Some term \<Rightarrow> (case checked_add (row_constant r) term of
          None \<Rightarrow> Inl (Err InvalidArgument)
        | Some k \<Rightarrow> mlk_try (lex_substitute d cand rs) (\<lambda>rows.
            Inr (map_option (\<lambda>rows. r\<lparr>row_constant := k, row_coeffs := (row_coeffs r)[d := 0]\<rparr> # rows) rows))))"

type_synonym lex_outcome = "(nat \<times> int list option) result"

function lex_candidates :: "(nat \<Rightarrow> polyhedron \<Rightarrow> int list \<Rightarrow> lex_outcome) \<Rightarrow> polyhedron \<Rightarrow> bool
    \<Rightarrow> int list \<Rightarrow> nat \<Rightarrow> int \<Rightarrow> nat \<Rightarrow> lex_outcome" where
  "lex_candidates search residual maximize prefix n cand budget =
     mlk_try (lex_substitute (length prefix) cand (poly_rows residual)) (\<lambda>sub. case sub of
       None \<Rightarrow> Inr (budget, None)
     | Some rows \<Rightarrow>
         mlk_try (search budget (residual\<lparr>poly_rows := rows\<rparr>) (prefix @ [cand])) (\<lambda>(budget', found).
           case found of
             Some p \<Rightarrow> Inr (budget', Some p)
           | None \<Rightarrow>
               if n = 0 then Inr (budget', None)
               else if budget' = 0 then Inl (Err BudgetExceeded)
               else lex_candidates search residual maximize prefix (n - 1)
                      (if maximize then cand - 1 else cand + 1) budget'))"
  by pat_completeness auto
termination
  by (relation "measure (\<lambda>(_, _, _, _, n, _, _). n)") auto

declare lex_candidates.simps [simp del]

primrec lex_search :: "nat \<Rightarrow> polyhedron \<Rightarrow> bool \<Rightarrow> nat \<Rightarrow> polyhedron \<Rightarrow> int list \<Rightarrow> lex_outcome" where
  "lex_search 0 src maximize budget residual prefix =
     (if budget = 0 then Inl (Err BudgetExceeded)
      else Inr (budget - 1, if poly_containsPoint src prefix then Some prefix else None))"
| "lex_search (Suc k) src maximize budget residual prefix =
     (if budget = 0 then Inl (Err BudgetExceeded)
      else let depth = length prefix in
        mlk_try (lex_project [Suc depth..<nDims (poly_space src)] residual) (\<lambda>pr. case pr of
          None \<Rightarrow> Inr (budget - 1, None)
        | Some projected \<Rightarrow>
            mlk_try (lex_interval depth (poly_rows projected) INT64_MIN INT64_MAX) (\<lambda>iv. case iv of
              None \<Rightarrow> Inr (budget - 1, None)
            | Some (lb, ub) \<Rightarrow>
                if lb > ub then Inr (budget - 1, None)
                else if (if maximize then ub = INT64_MAX else lb = INT64_MIN)
                then Inl (Err InvalidArgument)
                else lex_candidates (lex_search k src maximize) residual maximize prefix
                       (nat (ub - lb)) (if maximize then ub else lb) (budget - 1))))"

definition lex_step :: "bool \<Rightarrow> polyhedron \<Rightarrow> int list option \<Rightarrow> int list option result" where
  "lex_step maximize p best =
     (if isEmptyFlag p \<or> rowsOverflow p then Inr best
      else mlk_try (lex_search (nDims (poly_space p)) p maximize kPolyLexBbNodeBudget p []) (\<lambda>(_, found).
        case found of
          None \<Rightarrow> Inr best
        | Some q \<Rightarrow> (case best of
            None \<Rightarrow> Inr (Some q)
          | Some b \<Rightarrow> Inr (if (if maximize then lexLess b q else lexLess q b) then Some q else Some b))))"

definition lexMin :: "presburger \<Rightarrow> int list option result" where
  "lexMin s = (if nSyms (set_space s) \<noteq> 0 then Inl (Err InvalidArgument)
     else fold_res (lex_step False) (disjuncts s) None)"

definition lexMax :: "presburger \<Rightarrow> int list option result" where
  "lexMax s = (if nSyms (set_space s) \<noteq> 0 then Inl (Err InvalidArgument)
     else fold_res (lex_step True) (disjuncts s) None)"

section \<open>The lexicographic order\<close>

definition lex_before :: "bool \<Rightarrow> int list \<Rightarrow> int list \<Rightarrow> bool" where
  "lex_before maximize p q \<longleftrightarrow> (if maximize then lexLess q p else lexLess p q)"

lemma lexLess_append [simp]: "lexLess (xs @ ys) (xs @ zs) \<longleftrightarrow> lexLess ys zs"
  by (induction xs) auto

lemma lexLess_trans: "lexLess xs ys \<Longrightarrow> lexLess ys zs \<Longrightarrow> lexLess xs zs"
proof (induction xs ys arbitrary: zs rule: lexLess.induct)
  case (1 x xs y ys)
  then show ?case by (cases zs) (auto split: if_splits)
next
  case (2 ys)
  then show ?case by (cases ys; cases zs) auto
qed simp

lemma lexLess_linear: "length xs = length ys \<Longrightarrow> xs = ys \<or> lexLess xs ys \<or> lexLess ys xs"
  by (induction xs ys rule: lexLess.induct) auto

lemma lexLess_irrefl [simp]: "\<not> lexLess xs xs"
  by (induction xs) auto

section \<open>Projection loop and interval\<close>

lemma lex_project_eq: "lex_project vs sys = fm.elim_all vs sys"
  by (induction vs arbitrary: sys) (simp_all cong: if_cong)

lemma le_div_iff: "0 < c \<Longrightarrow> t \<le> k div c \<longleftrightarrow> t * c \<le> k" for c t k :: int
proof
  assume c: "0 < c"
  show "t * c \<le> k" if "t \<le> k div c"
  proof -
    have "t * c \<le> (k div c) * c" using that c by (intro mult_right_mono) auto
    also have "\<dots> \<le> k" using c pos_mod_sign [of c k] div_mult_mod_eq [of k c] by linarith
    finally show ?thesis .
  qed
  show "t \<le> k div c" if "t * c \<le> k"
    using zdiv_mono1 [OF that c] c by simp
qed

text \<open>A row of support \<open>d\<close> at a value of that dimension.\<close>

definition dim_sat :: "nat \<Rightarrow> int \<Rightarrow> constraint_row \<Rightarrow> bool" where
  "dim_sat d t r \<longleftrightarrow> (if row_isEquality r then row_constant r + row_coeffOf r d * t = 0
     else 0 \<le> row_constant r + row_coeffOf r d * t)"

lemma floorDiv_le_iff:
  assumes "c < 0"
  shows "t \<le> floorDiv (- k) c \<longleftrightarrow> 0 \<le> k + c * t"
proof -
  have "floorDiv (- k) c = k div (- c)" using assms by (simp add: floorDiv_eq div_minus_right)
  moreover have "t \<le> k div (- c) \<longleftrightarrow> t * (- c) \<le> k" using assms by (simp add: le_div_iff)
  moreover have "t * (- c) \<le> k \<longleftrightarrow> 0 \<le> k + c * t" by (auto simp: algebra_simps)
  ultimately show ?thesis by simp
qed

lemma ceilDiv_le_iff:
  assumes "0 < c"
  shows "ceilDiv (- k) c \<le> t \<longleftrightarrow> 0 \<le> k + c * t"
proof -
  have "ceilDiv (- k) c = - (k div c)" using assms by (simp add: ceilDiv_eq)
  moreover have "- t \<le> k div c \<longleftrightarrow> (- t) * c \<le> k" using assms by (simp add: le_div_iff)
  ultimately show ?thesis by (auto simp: algebra_simps)
qed

lemma smod_zero_iff: "b \<noteq> 0 \<Longrightarrow> a smod b = 0 \<longleftrightarrow> b dvd a" for a b :: int
proof -
  have "\<bar>a\<bar> mod \<bar>b\<bar> = 0 \<longleftrightarrow> b dvd a" using dvd_eq_mod_eq_0 [of "\<bar>b\<bar>" "\<bar>a\<bar>"] by simp
  then show ?thesis unfolding smod_int_alt_def by (auto simp: sgn_0_0)
qed

lemma lex_interval_sound:
  assumes "lex_interval d rs lb ub = Inr r" and "lb \<le> t" and "t \<le> ub" and "\<forall>r \<in> set rs. dim_sat d t r"
  shows "\<exists>lb' ub'. r = Some (lb', ub') \<and> lb' \<le> t \<and> t \<le> ub'"
  using assms
proof (induction d rs lb ub rule: lex_interval.induct)
  case (1 d lb ub)
  then show ?case by auto
next
  case (2 d q rs lb ub)
  let ?c = "row_coeffOf q d"
  have q: "dim_sat d t q" and rs: "\<forall>r \<in> set rs. dim_sat d t r" using "2.prems"(4) by auto
  consider (zero) "?c = 0" | (eq) "?c \<noteq> 0" "row_isEquality q"
    | (pos) "\<not> row_isEquality q" "?c > 0" | (neg) "\<not> row_isEquality q" "?c < 0" by linarith
  then show ?case
  proof cases
    case zero
    with "2.IH"(1) [OF refl zero] "2.prems" rs show ?thesis by simp
  next
    case eq
    have e: "row_constant q = ?c * (- t)" using q eq by (simp add: dim_sat_def)
    then have dv: "?c dvd row_constant q" by simp
    have fl: "floorDiv (- row_constant q) ?c = t" using e eq by (simp add: floorDiv_eq)
    have z: "row_constant q smod ?c = 0" using dv eq smod_zero_iff by blast
    from "2.prems"(1) eq z have "lex_interval d rs t t = Inr r"
      by (auto simp: Let_def mlk_try_Inr_iff plain64_Inr fl split: if_splits)
        (use "2.prems"(2,3) in linarith)+
    then show ?thesis
      using "2.IH"(2) [OF refl eq(1,2)] z "2.prems"(1-3) rs eq fl
      by (auto simp: Let_def mlk_try_Inr_iff plain64_Inr split: if_splits)
  next
    case pos
    have b: "ceilDiv (- row_constant q) ?c \<le> t" using q pos by (simp add: dim_sat_def ceilDiv_le_iff)
    from "2.prems"(1) pos have p: "plain64 (- row_constant q) = Inr (- row_constant q)"
      and l: "lex_interval d rs (if ceilDiv (- row_constant q) ?c > lb then ceilDiv (- row_constant q) ?c else lb) ub = Inr r"
      by (auto simp: Let_def mlk_try_Inr_iff plain64_Inr)
    show ?thesis
      by (rule "2.IH"(3) [OF refl _ pos(1) p pos(2) refl l]) (use pos b "2.prems"(2,3) rs in auto)
  next
    case neg
    have b: "t \<le> floorDiv (- row_constant q) ?c" using q neg by (simp add: dim_sat_def floorDiv_le_iff)
    from "2.prems"(1) neg have p: "plain64 (- row_constant q) = Inr (- row_constant q)"
      and l: "lex_interval d rs lb (if floorDiv (- row_constant q) ?c < ub then floorDiv (- row_constant q) ?c else ub) = Inr r"
      by (auto simp: Let_def mlk_try_Inr_iff plain64_Inr)
    show ?thesis
      by (rule "2.IH"(4) [OF refl _ neg(1) p _ refl l]) (use neg b "2.prems"(2,3) rs in auto)
  qed
qed

end
