(* ===== verification/Lex_Correct.thy ===== *)
theory Lex_Correct
  imports Lex_Opt
begin

text \<open>
  The search returns the exact optimum. The residual system of a node is the source with the
  prefix substituted, and its constants are the partial sums of the exact point check, so a
  node at full depth re-checks the point without overflow. By induction on the number of free
  dimensions a successful search returns the first integer point in search order among all
  64-bit points that extend the prefix, or proves that there is none.
\<close>

section \<open>The residual system\<close>

definition row_sub :: "int list \<Rightarrow> constraint_row \<Rightarrow> constraint_row \<Rightarrow> bool" where
  "row_sub prefix r0 r \<longleftrightarrow> row_isEquality r = row_isEquality r0
     \<and> row_coeffs r = replicate (length prefix) 0 @ drop (length prefix) (row_coeffs r0)
     \<and> eval_terms (take (length prefix) (row_coeffs r0)) prefix (row_constant r0) = Inr (row_constant r)"

definition lex_sub :: "polyhedron \<Rightarrow> int list \<Rightarrow> polyhedron \<Rightarrow> bool" where
  "lex_sub src prefix residual \<longleftrightarrow> poly_space residual = poly_space src \<and> \<not> isEmptyFlag residual
     \<and> list_all2 (row_sub prefix) (poly_rows src) (poly_rows residual)"

text \<open>The systems the search works on: well-formed, unflagged, without symbols.\<close>

definition lex_source :: "polyhedron \<Rightarrow> bool" where
  "lex_source src \<longleftrightarrow> wf_poly src \<and> \<not> isEmptyFlag src \<and> nSyms (poly_space src) = 0"

definition extends :: "int list \<Rightarrow> (nat \<Rightarrow> int) \<Rightarrow> bool" where
  "extends prefix x \<longleftrightarrow> (\<forall>i < length prefix. x i = prefix ! i)"

lemma row_sub_val:
  assumes "row_sub prefix r0 r" and "length prefix \<le> length (row_coeffs r0)" and "extends prefix x"
  shows "row_val r x = row_val r0 x"
proof -
  let ?d = "length prefix" and ?cs = "row_coeffs r0"
  have "row_constant r = row_constant r0 + lin (take ?d ?cs) (pt prefix)"
    using assms(1,2) by (auto simp: row_sub_def dest!: eval_terms_Inr)
  also have "lin (take ?d ?cs) (pt prefix) = lin (take ?d ?cs) x"
    using assms(3) by (intro lin_cong) (simp add: extends_def pt_def)
  finally have k: "row_constant r = row_constant r0 + lin (take ?d ?cs) x" .
  have "lin ?cs x = lin (take ?d ?cs) x + lin (drop ?d ?cs) (\<lambda>i. x (?d + i))"
    using lin_append [of "take ?d ?cs" "drop ?d ?cs" x] assms(2) by simp
  moreover have "lin (row_coeffs r) x = lin (drop ?d ?cs) (\<lambda>i. x (?d + i))"
    using assms(1) lin_append [of "replicate ?d 0" "drop ?d ?cs" x] by (simp add: row_sub_def)
  ultimately show ?thesis using k by (simp add: row_val_def)
qed

lemma lex_sub_lengths:
  assumes "lex_sub src prefix residual" and "wf_poly src" and "\<not> isEmptyFlag src"
    and "length prefix \<le> totalVars (poly_space src)"
  shows "wf_poly residual" and "\<And>u. u < length prefix \<Longrightarrow> var_absent u residual"
proof -
  have rows: "length (row_coeffs r) = totalVars (poly_space src) \<and> (\<forall>u < length prefix. row_coeffOf r u = 0)"
    if r: "r \<in> set (poly_rows residual)" for r
  proof -
    from assms(1) r obtain r0 where "r0 \<in> set (poly_rows src)" "row_sub prefix r0 r"
      unfolding lex_sub_def by (metis list_all2_source)
    with wf_polyD [OF assms(2,3)] assms(4) show ?thesis
      by (auto simp: row_sub_def row_coeffOf_def nth_append)
  qed
  with assms(1) show "wf_poly residual" by (auto simp: wf_poly_def lex_sub_def)
  show "var_absent u residual" if "u < length prefix" for u
    using rows that by (simp add: var_absent_def)
qed

lemma lex_sub_sat:
  assumes "lex_sub src prefix residual" and "wf_poly src" and "\<not> isEmptyFlag src"
    and "length prefix \<le> totalVars (poly_space src)" and "extends prefix x"
  shows "poly_sat residual x \<longleftrightarrow> poly_sat src x"
proof -
  have "list_all2 (row_sub prefix) (poly_rows src) (poly_rows residual)"
    using assms(1) by (simp add: lex_sub_def)
  moreover have "\<And>r. r \<in> set (poly_rows src) \<Longrightarrow> length prefix \<le> length (row_coeffs r)"
    using wf_polyD [OF assms(2,3)] assms(4) by simp
  ultimately have "rows_sat (poly_rows residual) x \<longleftrightarrow> rows_sat (poly_rows src) x"
    by (induction rule: list_all2_induct)
      (use row_sub_val [OF _ _ assms(5)] in \<open>auto simp: row_sat_def row_sub_def\<close>)
  then show ?thesis using assms(1,3) by (simp add: poly_sat_def lex_sub_def)
qed

lemma lex_sub_init: "\<not> isEmptyFlag src \<Longrightarrow> lex_sub src [] src"
  by (auto simp: lex_sub_def row_sub_def intro!: list.rel_refl)

lemma eval_terms_snoc:
  assumes "length prefix < length cs"
  shows "eval_terms (take (Suc (length prefix)) cs) (prefix @ [v]) k =
     mlk_try (eval_terms (take (length prefix) cs) prefix k) (eval_step (cs ! length prefix, v))"
proof -
  have "zip (take (Suc (length prefix)) cs) (prefix @ [v])
      = zip (take (length prefix) cs) prefix @ [(cs ! length prefix, v)]"
    using assms by (simp add: take_Suc_conv_app_nth zip_append)
  then show ?thesis
    by (cases "fold_res eval_step (zip (take (length prefix) cs) prefix) k")
      (auto simp: eval_terms_def fold_res_append mlk_try_def split: sum.splits)
qed

lemma row_sub_step_zero:
  assumes "row_sub prefix r0 r" and "length prefix < length (row_coeffs r0)"
    and "row_coeffOf r (length prefix) = 0"
  shows "row_sub (prefix @ [v]) r0 r"
proof -
  have z: "row_coeffs r0 ! length prefix = 0"
    using assms by (auto simp: row_sub_def row_coeffOf_def nth_append split: if_splits)
  then have "drop (length prefix) (row_coeffs r0) = 0 # drop (Suc (length prefix)) (row_coeffs r0)"
    using Cons_nth_drop_Suc [OF assms(2)] by simp
  then show ?thesis
    using assms(1) z eval_terms_snoc [OF assms(2), of v "row_constant r0"]
    by (simp add: row_sub_def eval_step_def replicate_app_Cons_same)
qed

lemma row_sub_step:
  assumes "row_sub prefix r0 r" and "length prefix < length (row_coeffs r0)"
    and "row_coeffOf r (length prefix) \<noteq> 0" and "checked_mul (row_coeffOf r (length prefix)) v = Some t"
    and "checked_add (row_constant r) t = Some k"
  shows "row_sub (prefix @ [v]) r0 (r\<lparr>row_constant := k, row_coeffs := (row_coeffs r)[length prefix := 0]\<rparr>)"
proof -
  have z: "row_coeffs r0 ! length prefix = row_coeffOf r (length prefix)"
    using assms by (auto simp: row_sub_def row_coeffOf_def nth_append split: if_splits)
  have "(drop (length prefix) (row_coeffs r0))[0 := 0] = 0 # drop (Suc (length prefix)) (row_coeffs r0)"
    using Cons_nth_drop_Suc [OF assms(2), symmetric] by simp
  then show ?thesis
    using assms z eval_terms_snoc [OF assms(2), of v "row_constant r0"]
    by (simp add: row_sub_def eval_step_def replicate_app_Cons_same list_update_append or_exhausted_def)
qed

lemma lex_substitute_spec:
  assumes "lex_substitute (length prefix) v rs = Inr res" and "list_all2 (row_sub prefix) r0s rs"
    and "\<And>r. r \<in> set r0s \<Longrightarrow> length prefix < length (row_coeffs r)"
  shows "case res of None \<Rightarrow> \<exists>r \<in> set rs. isTriviallyFalse r
    | Some rs' \<Rightarrow> list_all2 (row_sub (prefix @ [v])) r0s rs'"
  using assms(2,1,3)
proof (induction arbitrary: res rule: list_all2_induct)
  case Nil
  then show ?case by auto
next
  case (Cons r0 r0s r rs)
  show ?case
  proof (cases "row_coeffOf r (length prefix) = 0")
    case True
    show ?thesis
    proof (cases "isTriviallyFalse r")
      case False
      with True Cons.prems(1) obtain u where u: "lex_substitute (length prefix) v rs = Inr u"
        "res = map_option (\<lambda>rows. r # rows) u" by (auto simp: Let_def mlk_try_Inr_iff)
      with Cons.IH [OF u(1)] Cons.prems(2) row_sub_step_zero [OF Cons.hyps(1) _ True, of v]
      show ?thesis by (cases u) auto
    qed (use True Cons.prems in \<open>auto simp: Let_def\<close>)
  next
    case False
    with Cons.prems(1) obtain t k u where u: "checked_mul (row_coeffOf r (length prefix)) v = Some t"
      "checked_add (row_constant r) t = Some k" "lex_substitute (length prefix) v rs = Inr u"
      "res = map_option (\<lambda>rows. r\<lparr>row_constant := k, row_coeffs := (row_coeffs r)[length prefix := 0]\<rparr> # rows) u"
      by (auto simp: Let_def mlk_try_Inr_iff split: option.splits)
    with Cons.IH [OF u(3)] Cons.prems(2) row_sub_step [OF Cons.hyps(1) _ False u(1,2)]
    show ?thesis by (cases u) auto
  qed
qed

section \<open>What a node promises\<close>

definition lex_member :: "polyhedron \<Rightarrow> int list \<Rightarrow> int list \<Rightarrow> bool" where
  "lex_member src prefix q \<longleftrightarrow> length q = nDims (poly_space src) \<and> (\<forall>v \<in> set q. in_i64 v)
     \<and> take (length prefix) q = prefix \<and> poly_sat src (pt q :: nat \<Rightarrow> int)"

definition lex_best_in :: "polyhedron \<Rightarrow> bool \<Rightarrow> int list \<Rightarrow> (int list \<Rightarrow> bool) \<Rightarrow> int list option \<Rightarrow> bool" where
  "lex_best_in src maximize prefix P res \<longleftrightarrow> (case res of
     None \<Rightarrow> \<forall>q. lex_member src prefix q \<longrightarrow> \<not> P q
   | Some p \<Rightarrow> length p = nDims (poly_space src) \<and> take (length prefix) p = prefix
       \<and> poly_containsPoint src p \<and> P p
       \<and> (\<forall>q. lex_member src prefix q \<longrightarrow> P q \<longrightarrow> q = p \<or> lex_before maximize p q))"

lemma lex_member_extends:
  "lex_member src prefix q \<Longrightarrow> extends prefix (pt q)"
  by (auto simp: lex_member_def extends_def pt_def) (metis nth_take)

lemma first_difference:
  assumes "take d p = take d q" and "d < length p" and "d < length q" and "p ! d < q ! d"
  shows "lexLess p q"
proof -
  have "p = take d q @ p ! d # drop (Suc d) p" "q = take d q @ q ! d # drop (Suc d) q"
    using id_take_nth_drop [OF assms(2)] id_take_nth_drop [OF assms(3)] assms(1) by auto
  then show ?thesis using assms(4) by (metis lexLess_append lexLess.simps(1) order_less_irrefl)
qed

lemma take_snoc_iff:
  "d < length q \<Longrightarrow> length prefix = d \<Longrightarrow>
     take (length (prefix @ [v])) q = prefix @ [v] \<longleftrightarrow> take (length prefix) q = prefix \<and> q ! d = v"
  by (auto simp: take_Suc_conv_app_nth)

text \<open>The candidate values still ahead.\<close>

definition ahead :: "bool \<Rightarrow> int \<Rightarrow> nat \<Rightarrow> int \<Rightarrow> bool" where
  "ahead maximize cand n v \<longleftrightarrow> (if maximize then cand - int n \<le> v \<and> v \<le> cand else cand \<le> v \<and> v \<le> cand + int n)"

lemma lex_candidates_spec:
  assumes "lex_candidates search residual maximize prefix n cand budget = Inr (b', res)"
    and src: "lex_source src" and sub: "lex_sub src prefix residual"
    and len: "length prefix < nDims (poly_space src)"
    and search: "\<And>b b' res rows v. lex_sub src (prefix @ [v]) (residual\<lparr>poly_rows := rows\<rparr>) \<Longrightarrow>
        search b (residual\<lparr>poly_rows := rows\<rparr>) (prefix @ [v]) = Inr (b', res) \<Longrightarrow>
        lex_best_in src maximize (prefix @ [v]) (\<lambda>_. True) res"
  shows "lex_best_in src maximize prefix (\<lambda>q. ahead maximize cand n (q ! length prefix)) res"
  using assms(1)
proof (induction n arbitrary: cand budget rule: less_induct)
  case (less n)
  let ?d = "length prefix"
  have tv: "totalVars (poly_space src) = nDims (poly_space src)" and wf: "wf_poly src" "\<not> isEmptyFlag src"
    using src by (auto simp: lex_source_def totalVars_def)
  from less.prems obtain s where s: "lex_substitute ?d cand (poly_rows residual) = Inr s"
    and rest: "(case s of None \<Rightarrow> Inr (budget, None)
      | Some rows \<Rightarrow> mlk_try (search budget (residual\<lparr>poly_rows := rows\<rparr>) (prefix @ [cand])) (\<lambda>(budget', found).
           case found of Some p \<Rightarrow> Inr (budget', Some p)
           | None \<Rightarrow> if n = 0 then Inr (budget', None)
               else if budget' = 0 then Inl (Err BudgetExceeded)
               else lex_candidates search residual maximize prefix (n - 1)
                      (if maximize then cand - 1 else cand + 1) budget')) = Inr (b', res)"
    by (subst (asm) lex_candidates.simps) auto
  have l2: "list_all2 (row_sub prefix) (poly_rows src) (poly_rows residual)"
    using sub by (simp add: lex_sub_def)
  have longer: "?d < length (row_coeffs r)" if "r \<in> set (poly_rows src)" for r
    using wf_polyD [OF wf that] len tv by simp
  note spec = lex_substitute_spec [OF s l2 longer]
  show ?case
  proof (cases s)
    case None
    have "\<not> lex_member src prefix q" for q
    proof
      assume q: "lex_member src prefix q"
      then have "poly_sat residual (pt q :: nat \<Rightarrow> int)"
        using lex_sub_sat [OF sub wf _ lex_member_extends [OF q]] len tv by (simp add: lex_member_def)
      with spec None show False by (auto simp: poly_sat_def rows_sat_def dest: trivially_false_sat)
    qed
    with rest None show ?thesis by (simp add: lex_best_in_def)
  next
    case (Some rows)
    then obtain b1 found where f: "search budget (residual\<lparr>poly_rows := rows\<rparr>) (prefix @ [cand]) = Inr (b1, found)"
      and k: "(case found of Some p \<Rightarrow> Inr (b1, Some p)
           | None \<Rightarrow> if n = 0 then Inr (b1, None)
               else if b1 = 0 then Inl (Err BudgetExceeded)
               else lex_candidates search residual maximize prefix (n - 1)
                      (if maximize then cand - 1 else cand + 1) b1) = Inr (b', res)"
      using rest by (auto simp: mlk_try_Inr_iff)
    have "lex_sub src (prefix @ [cand]) (residual\<lparr>poly_rows := rows\<rparr>)"
      using spec Some sub by (simp add: lex_sub_def)
    from search [OF this f] have best: "lex_best_in src maximize (prefix @ [cand]) (\<lambda>_. True) found" .
    have mem: "lex_member src (prefix @ [cand]) q \<longleftrightarrow> lex_member src prefix q \<and> q ! ?d = cand" for q
      using take_snoc_iff [of ?d q prefix cand] len by (auto simp: lex_member_def)
    show ?thesis
    proof (cases found)
      case (Some p)
      with best have p: "length p = nDims (poly_space src)" "take (length (prefix @ [cand])) p = prefix @ [cand]"
        "poly_containsPoint src p"
        and opt: "\<And>q. lex_member src prefix q \<Longrightarrow> q ! ?d = cand \<Longrightarrow> q = p \<or> lex_before maximize p q"
        by (auto simp: lex_best_in_def mem)
      then have p': "take ?d p = prefix" "p ! ?d = cand" using take_snoc_iff [of ?d p prefix cand] len by auto
      have o: "q = p \<or> lex_before maximize p q"
        if "lex_member src prefix q" "ahead maximize cand n (q ! ?d)" for q
        using that opt [of q] first_difference [of ?d p q] first_difference [of ?d q p] p p' len
        by (cases "q ! ?d = cand") (auto simp: lex_member_def ahead_def lex_before_def split: if_splits)
      have "ahead maximize cand n cand" by (simp add: ahead_def)
      moreover have "res = Some p" using k Some by simp
      ultimately show ?thesis using p p' o by (simp add: lex_best_in_def)
    next
      case None
      with best have no: "lex_member src prefix q \<Longrightarrow> q ! ?d \<noteq> cand" for q
        by (auto simp: lex_best_in_def mem)
      show ?thesis
      proof (cases "n = 0")
        case True
        with k None no show ?thesis by (auto simp: lex_best_in_def ahead_def)
      next
        case False
        let ?next = "if maximize then cand - 1 else cand + 1"
        from k None False have r: "lex_candidates search residual maximize prefix (n - 1) ?next b1 = Inr (b', res)"
          by (auto split: if_splits)
        have a: "ahead maximize cand n v \<longleftrightarrow> v = cand \<or> ahead maximize ?next (n - 1) v" for v
          using False by (auto simp: ahead_def)
        have "lex_best_in src maximize prefix (\<lambda>q. ahead maximize ?next (n - 1) (q ! ?d)) res"
          using less.IH [OF _ r] False by simp
        then show ?thesis unfolding a using no by (auto simp: lex_best_in_def split: option.splits)
      qed
    qed
  qed
qed

section \<open>The search\<close>

text \<open>The interval of a node contains the coordinate of every member.\<close>

lemma node_row_sat:
  assumes "wf_poly p" and "\<not> isEmptyFlag p" and "r \<in> set (poly_rows p)"
    and "\<And>u. u \<noteq> d \<Longrightarrow> u < totalVars (poly_space p) \<Longrightarrow> var_absent u p"
    and "row_sat r (x :: nat \<Rightarrow> int)"
  shows "dim_sat d (x d) r"
proof -
  have "row_coeffs r ! i = 0" if "i < length (row_coeffs r)" "i \<noteq> d" for i
    using assms(4) [of i] var_absentD [OF _ assms(2,3), of i] wf_polyD [OF assms(1-3)] that
    by (simp add: row_coeffOf_def)
  then have "lin (row_coeffs r) x = lin ((replicate (length (row_coeffs r)) 0)[d := row_coeffOf r d]) x"
    unfolding lin_def by (intro sum.cong) (auto simp: row_coeffOf_def nth_list_update)
  also have "\<dots> = row_coeffOf r d * x d"
    by (cases "d < length (row_coeffs r)") (auto simp: row_coeffOf_def list_update_beyond)
  finally show ?thesis using assms(5) by (simp add: dim_sat_def row_sat_def row_val_def split: if_splits)
qed

lemma node_interval:
  assumes src: "lex_source src" and sub: "lex_sub src prefix residual" and len: "length prefix < nDims (poly_space src)"
    and pr: "lex_project [Suc (length prefix)..<nDims (poly_space src)] residual = Inr pr"
    and q: "lex_member src prefix q"
  shows "\<exists>projected. pr = Some projected \<and> (\<forall>r \<in> set (poly_rows projected). dim_sat (length prefix) (q ! length prefix) r)"
proof -
  let ?d = "length prefix"
  have tv: "totalVars (poly_space src) = nDims (poly_space src)" and wf: "wf_poly src" "\<not> isEmptyFlag src"
    using src by (auto simp: lex_source_def totalVars_def)
  have l: "?d \<le> totalVars (poly_space src)" using len tv by simp
  have sat: "poly_sat residual (pt q :: nat \<Rightarrow> int)"
    using lex_sub_sat [OF sub wf l lex_member_extends [OF q]] q by (simp add: lex_member_def)
  note rl = lex_sub_lengths [OF sub wf l]
  from fm.elim_all_sound [OF pr [unfolded lex_project_eq] rl(1) sat] obtain projected where
    p: "pr = Some projected" "poly_sat projected (pt q :: nat \<Rightarrow> int)" by blast
  from fm.elim_all_absent [OF pr [unfolded lex_project_eq p(1)] rl(1)]
  have w: "wf_poly projected" "poly_space projected = poly_space src"
    and ab: "\<And>u. u \<in> set [Suc ?d..<nDims (poly_space src)] \<or> var_absent u residual \<Longrightarrow> var_absent u projected"
    using sub by (auto simp: lex_sub_def)
  have nf: "\<not> isEmptyFlag projected" and rs: "\<And>r. r \<in> set (poly_rows projected) \<Longrightarrow> row_sat r (pt q :: nat \<Rightarrow> int)"
    using p(2) by (auto simp: poly_sat_def rows_sat_def)
  have "dim_sat ?d (q ! ?d) r" if r: "r \<in> set (poly_rows projected)" for r
  proof -
    have "var_absent u projected" if "u \<noteq> ?d" "u < totalVars (poly_space projected)" for u
      using that ab [of u] rl(2) [of u] w(2) tv by (cases "u < ?d") auto
    from node_row_sat [OF w(1) nf r this rs [OF r]] show ?thesis by (simp add: pt_def)
  qed
  with p(1) show ?thesis by blast
qed

lemma lex_search_spec:
  assumes "lex_search k src maximize b residual prefix = Inr (b', res)"
    and "lex_source src" and "lex_sub src prefix residual" and "length prefix + k = nDims (poly_space src)"
  shows "lex_best_in src maximize prefix (\<lambda>_. True) res"
  using assms
proof (induction k arbitrary: b residual prefix b' res)
  case 0
  have tv: "totalVars (poly_space src) = nDims (poly_space src)" and wf: "wf_poly src" "\<not> isEmptyFlag src"
    using "0.prems"(2) by (auto simp: lex_source_def totalVars_def)
  have "row_evaluates r prefix" if r: "r \<in> set (poly_rows src)" for r
  proof -
    from "0.prems"(3) r have "\<exists>r'. row_sub prefix r r'"
      unfolding lex_sub_def by (metis in_set_conv_nth list_all2_conv_all_nth)
    then show ?thesis
      using wf_polyD [OF wf r] "0.prems"(4) tv by (auto simp: row_sub_def row_evaluates_def)
  qed
  then have "poly_containsPoint src prefix \<longleftrightarrow> poly_sat src (pt prefix :: nat \<Rightarrow> int)"
    using "0.prems"(4) tv by (intro poly_containsPoint_iff [OF wf(1)]) auto
  then show ?case using "0.prems"(1,4) by (auto simp: lex_best_in_def lex_member_def split: if_splits)
next
  case (Suc k)
  let ?d = "length prefix"
  have len: "?d < nDims (poly_space src)" using Suc.prems(4) by simp
  note node = node_interval [OF Suc.prems(2,3) len]
  have "mlk_try (lex_project [Suc ?d..<nDims (poly_space src)] residual) (\<lambda>pr. case pr of
          None \<Rightarrow> Inr (b - 1, None)
        | Some projected \<Rightarrow>
            mlk_try (lex_interval ?d (poly_rows projected) INT64_MIN INT64_MAX) (\<lambda>iv. case iv of
              None \<Rightarrow> Inr (b - 1, None)
            | Some (lb, ub) \<Rightarrow>
                if lb > ub then Inr (b - 1, None)
                else if (if maximize then ub = INT64_MAX else lb = INT64_MIN)
                then Inl (Err InvalidArgument)
                else lex_candidates (lex_search k src maximize) residual maximize prefix
                       (nat (ub - lb)) (if maximize then ub else lb) (b - 1))) = Inr (b', res)"
    using Suc.prems(1) unfolding lex_search.simps Let_def
    by (cases "b = 0") (simp_all only: if_True if_False sum.distinct simp_thms)
  then obtain pr where pr: "lex_project [Suc ?d..<nDims (poly_space src)] residual = Inr pr"
    and rest: "(case pr of None \<Rightarrow> Inr (b - 1, None)
        | Some projected \<Rightarrow>
            mlk_try (lex_interval ?d (poly_rows projected) INT64_MIN INT64_MAX) (\<lambda>iv. case iv of
              None \<Rightarrow> Inr (b - 1, None)
            | Some (lb, ub) \<Rightarrow>
                if lb > ub then Inr (b - 1, None)
                else if (if maximize then ub = INT64_MAX else lb = INT64_MIN)
                then Inl (Err InvalidArgument)
                else lex_candidates (lex_search k src maximize) residual maximize prefix
                       (nat (ub - lb)) (if maximize then ub else lb) (b - 1))) = Inr (b', res)"
    by (rule mlk_try_InrE)
  have bound: "\<exists>projected lb ub. pr = Some projected
      \<and> lex_interval ?d (poly_rows projected) INT64_MIN INT64_MAX = Inr (Some (lb, ub)) \<and> lb \<le> q ! ?d \<and> q ! ?d \<le> ub"
    if q: "lex_member src prefix q" for q
  proof -
    from node [OF pr q] obtain projected where p: "pr = Some projected"
      "\<forall>r \<in> set (poly_rows projected). dim_sat ?d (q ! ?d) r" by blast
    with rest obtain iv where iv: "lex_interval ?d (poly_rows projected) INT64_MIN INT64_MAX = Inr iv"
      by (auto simp: mlk_try_Inr_iff)
    have "q ! ?d \<in> set q" using q len by (simp add: lex_member_def)
    then have "in_i64 (q ! ?d)" using q by (simp add: lex_member_def)
    then have "INT64_MIN \<le> q ! ?d" "q ! ?d \<le> INT64_MAX" by (auto simp: in_i64_def)
    from lex_interval_sound [OF iv this p(2)] p(1) iv show ?thesis by blast
  qed
  show ?case
  proof (cases "\<exists>projected lb ub. pr = Some projected \<and> lb \<le> ub
      \<and> lex_interval ?d (poly_rows projected) INT64_MIN INT64_MAX = Inr (Some (lb, ub))")
    case False
    then have "\<not> lex_member src prefix q" for q using bound [of q] by fastforce
    moreover have "res = None"
    proof (cases pr)
      case None
      with rest show ?thesis by simp
    next
      case (Some projected)
      with rest obtain iv where iv: "lex_interval ?d (poly_rows projected) INT64_MIN INT64_MAX = Inr iv"
        by (auto simp: mlk_try_Inr_iff)
      show ?thesis
      proof (cases iv)
        case None
        with rest Some iv show ?thesis by simp
      next
        case iv': (Some i)
        obtain lb ub where i: "i = (lb, ub)" by fastforce
        with False Some iv iv' have "ub < lb" by auto
        with rest Some iv iv' i show ?thesis by simp
      qed
    qed
    ultimately show ?thesis by (simp add: lex_best_in_def)
  next
    case True
    then obtain projected lb ub where p: "pr = Some projected" "lb \<le> ub"
      "lex_interval ?d (poly_rows projected) INT64_MIN INT64_MAX = Inr (Some (lb, ub))" by blast
    then have run: "lex_candidates (lex_search k src maximize) residual maximize prefix
        (nat (ub - lb)) (if maximize then ub else lb) (b - 1) = Inr (b', res)"
      using rest by (auto split: if_splits)
    have "lex_best_in src maximize prefix
        (\<lambda>q. ahead maximize (if maximize then ub else lb) (nat (ub - lb)) (q ! ?d)) res"
      by (rule lex_candidates_spec [OF run Suc.prems(2,3) len]) (use Suc.IH Suc.prems(2,4) in auto)
    moreover have "ahead maximize (if maximize then ub else lb) (nat (ub - lb)) (q ! ?d)"
      if "lex_member src prefix q" for q
      using bound [OF that] p by (auto simp: ahead_def)
    ultimately show ?thesis by (auto simp: lex_best_in_def split: option.splits)
  qed
qed

section \<open>All disjuncts\<close>

text \<open>The points the search ranges over, and the disjuncts it visits.\<close>

definition i64_point :: "var_space \<Rightarrow> int list \<Rightarrow> bool" where
  "i64_point sp q \<longleftrightarrow> length q = nDims sp \<and> (\<forall>v \<in> set q. in_i64 v)"

definition visited_sat :: "polyhedron list \<Rightarrow> int list \<Rightarrow> bool" where
  "visited_sat ps q \<longleftrightarrow> (\<exists>p \<in> set ps. \<not> rowsOverflow p \<and> poly_sat p (pt q :: nat \<Rightarrow> int))"

definition lex_run_inv :: "bool \<Rightarrow> var_space \<Rightarrow> polyhedron list \<Rightarrow> int list option \<Rightarrow> bool" where
  "lex_run_inv maximize sp ps res \<longleftrightarrow>
     (\<forall>q. i64_point sp q \<longrightarrow> visited_sat ps q \<longrightarrow> (\<exists>b. res = Some b \<and> (q = b \<or> lex_before maximize b q)))
     \<and> (\<forall>b. res = Some b \<longrightarrow> length b = nDims sp \<and> (\<exists>p \<in> set ps. poly_containsPoint p b))"

lemma lex_before_trans: "lex_before m p q \<Longrightarrow> lex_before m q r \<Longrightarrow> lex_before m p r"
  by (auto simp: lex_before_def split: if_splits intro: lexLess_trans)

lemma lex_before_linear: "length p = length q \<Longrightarrow> p = q \<or> lex_before m p q \<or> lex_before m q p"
  using lexLess_linear [of p q] by (auto simp: lex_before_def)

lemma lex_step_cases:
  assumes "lex_step maximize p best = Inr res"
  obtains (skip) "isEmptyFlag p \<or> rowsOverflow p" "res = best"
  | (search) b' found where "\<not> isEmptyFlag p" "\<not> rowsOverflow p"
      "lex_search (nDims (poly_space p)) p maximize kPolyLexBbNodeBudget p [] = Inr (b', found)"
      "res = (case found of None \<Rightarrow> best | Some q \<Rightarrow> (case best of None \<Rightarrow> Some q
         | Some b \<Rightarrow> if lex_before maximize q b then Some q else Some b))"
proof (cases "isEmptyFlag p \<or> rowsOverflow p")
  case True
  with assms show thesis by (intro skip) (auto simp: lex_step_def)
next
  case False
  with assms obtain b' found where "lex_search (nDims (poly_space p)) p maximize kPolyLexBbNodeBudget p [] = Inr (b', found)"
    "(case found of None \<Rightarrow> Inr best | Some q \<Rightarrow> (case best of None \<Rightarrow> Inr (Some q)
       | Some b \<Rightarrow> Inr (if (if maximize then lexLess b q else lexLess q b) then Some q else Some b))) = (Inr res :: int list option result)"
    by (auto simp: lex_step_def mlk_try_Inr_iff)
  with False show thesis by (intro search) (auto simp: lex_before_def split: option.splits)
qed

lemma lex_step_inv:
  assumes inv: "lex_run_inv maximize sp ps best" and step: "lex_step maximize p best = Inr res"
    and p: "wf_poly p" "poly_space p = sp" "nSyms sp = 0"
  shows "lex_run_inv maximize sp (ps @ [p]) res"
  using step
proof (cases rule: lex_step_cases)
  case skip
  then have "\<not> visited_sat [p] q" for q by (auto simp: visited_sat_def poly_sat_def)
  with inv skip(2) show ?thesis by (auto simp: lex_run_inv_def visited_sat_def)
next
  case (search b' found)
  have "lex_source p" using p search(1) by (simp add: lex_source_def)
  from lex_search_spec [OF search(3) this lex_sub_init [OF search(1)]] p(2)
  have spec: "lex_best_in p maximize [] (\<lambda>_. True) found" by simp
  have mem: "lex_member p [] q" if "i64_point sp q" "poly_sat p (pt q :: nat \<Rightarrow> int)" for q
    using that p(2) by (simp add: lex_member_def i64_point_def)
  have fp: "length q = nDims sp \<and> poly_containsPoint p q" if "found = Some q" for q
    using spec that p(2) by (simp add: lex_best_in_def)
  have contained: "length b = nDims sp \<and> (\<exists>p' \<in> set (ps @ [p]). poly_containsPoint p' b)" if "res = Some b" for b
    using that search(4) inv fp by (auto simp: lex_run_inv_def split: option.splits if_splits)
  have below: "(\<exists>b. res = Some b \<and> (q = b \<or> lex_before maximize b q))"
    if q: "i64_point sp q" "visited_sat (ps @ [p]) q" for q
  proof -
    have "(\<exists>b. best = Some b \<and> (q = b \<or> lex_before maximize b q))
        \<or> (\<exists>b. found = Some b \<and> (q = b \<or> lex_before maximize b q))"
    proof (cases "visited_sat ps q")
      case True
      with inv q(1) show ?thesis by (auto simp: lex_run_inv_def)
    next
      case False
      with q(2) have "poly_sat p (pt q :: nat \<Rightarrow> int)" by (auto simp: visited_sat_def)
      with mem [OF q(1)] spec show ?thesis by (auto simp: lex_best_in_def split: option.splits)
    qed
    moreover have "lex_before maximize b f \<or> b = f \<or> lex_before maximize f b" if "best = Some b" "found = Some f" for b f
      using lex_before_linear [of b f maximize] inv fp [OF that(2)] that(1) by (auto simp: lex_run_inv_def)
    ultimately show ?thesis
      using search(4) by (auto split: option.splits intro: lex_before_trans)
  qed
  from below contained show ?thesis by (auto simp: lex_run_inv_def)
qed

lemma lex_run:
  assumes "fold_res (lex_step maximize) ps None = Inr res"
    and "\<forall>p \<in> set ps. wf_poly p \<and> poly_space p = sp" and "nSyms sp = 0"
  shows "lex_run_inv maximize sp ps res"
  using assms(1,2)
proof (induction ps arbitrary: res rule: rev_induct)
  case Nil
  then show ?case by (auto simp: lex_run_inv_def visited_sat_def)
next
  case (snoc p ps)
  then obtain u where u: "fold_res (lex_step maximize) ps None = Inr u" "lex_step maximize p u = Inr res"
    by (auto simp: fold_res_snoc_Inr)
  show ?case by (rule lex_step_inv [OF snoc.IH [OF u(1)] u(2)]) (use snoc.prems(2) assms(3) in auto)
qed

lemma visited_sat_set:
  "no_overflow s \<Longrightarrow> visited_sat (disjuncts s) q \<longleftrightarrow> set_sat s (pt q :: nat \<Rightarrow> int)"
  by (auto simp: visited_sat_def set_sat_def no_overflow_def)

lemma lexMin_run:
  "lexMin s = Inr res \<Longrightarrow> wf_set s \<Longrightarrow> lex_run_inv False (set_space s) (disjuncts s) res"
  using lex_run [of False "disjuncts s" res "set_space s"]
  by (auto simp: lexMin_def wf_set_def split: if_splits)

lemma lexMax_run:
  "lexMax s = Inr res \<Longrightarrow> wf_set s \<Longrightarrow> lex_run_inv True (set_space s) (disjuncts s) res"
  using lex_run [of True "disjuncts s" res "set_space s"]
  by (auto simp: lexMax_def wf_set_def split: if_splits)

end
