(* ===== verification/Engine_Properties.thy ===== *)
theory Engine_Properties
  imports Complement Lex_Correct
begin

text \<open>
  What the arithmetic and set layers of the polyhedral engine promise, one theorem per promise,
  each with an instance on the triangle \<open>0 \<le> j \<le> i \<le> 7\<close> that the source's own comments use.
\<close>

definition plane :: var_space where "plane = \<lparr>nDims = 2, nSyms = 0\<rparr>"

definition ge_row :: "int list \<Rightarrow> int \<Rightarrow> constraint_row" where
  "ge_row cs k = \<lparr>row_coeffs = cs, row_constant = k, row_isEquality = False\<rparr>"

definition eq_row :: "int list \<Rightarrow> int \<Rightarrow> constraint_row" where
  "eq_row cs k = \<lparr>row_coeffs = cs, row_constant = k, row_isEquality = True\<rparr>"

definition triangle_poly :: polyhedron where
  "triangle_poly = addRowList [ge_row [0, 1] 0, ge_row [1, -1] 0, ge_row [-1, 0] 7] (new_poly plane)"

definition triangle :: presburger where
  "triangle = \<lparr>set_space = plane, disjuncts = [triangle_poly]\<rparr>"

lemma triangle_wf: "wf_set triangle" "wf_poly triangle_poly" "no_overflow triangle" "\<not> isEmptyFlag triangle_poly"
  by code_simp+

lemma result_cases: "(case r of Inl _ \<Rightarrow> False | Inr x \<Rightarrow> P x) \<Longrightarrow> \<exists>x. r = Inr x \<and> P x"
  by (cases r) auto

section \<open>Exact integer optima\<close>

text \<open>
  C1. A successful \<open>lexMin\<close> is exact: the point it returns lies in the set and is the
  lexicographically least of all 64-bit integer points of the set; when it returns none, the
  set has no such point. (Every disjunct counts; none may have overflowed its row budget.)
\<close>
theorem lexMin_exact:
  assumes "lexMin s = Inr res" and "wf_set s" and "no_overflow s"
  shows "case res of
      None \<Rightarrow> \<forall>q. i64_point (set_space s) q \<longrightarrow> \<not> set_sat s (pt q :: nat \<Rightarrow> int)
    | Some p \<Rightarrow> set_containsPoint s p \<and> length p = nDims (set_space s) \<and> set_sat s (pt p :: nat \<Rightarrow> int)
        \<and> (\<forall>q. i64_point (set_space s) q \<longrightarrow> set_sat s (pt q :: nat \<Rightarrow> int) \<longrightarrow> q = p \<or> lexLess p q)"
  using lexMin_run [OF assms(1,2)] visited_sat_set [OF assms(3)] set_containsPoint_sound [OF _ assms(2)]
  by (auto simp: lex_run_inv_def lex_before_def set_containsPoint_def split: option.splits)

lemma lexMin_exact_witness:
  "lexMin triangle = Inr (Some [0, 0]) \<and> set_sat triangle (pt [0, 0] :: nat \<Rightarrow> int)
   \<and> set_sat triangle (pt [5, 2] :: nat \<Rightarrow> int) \<and> lexLess [0, 0] [5, 2]"
proof -
  have run: "lexMin triangle = Inr (Some [0, 0])" by code_simp
  have "i64_point (set_space triangle) [5, 2]" "set_containsPoint triangle [5, 2]" by code_simp+
  then have "i64_point (set_space triangle) [5, 2]" "set_sat triangle (pt [5, 2] :: nat \<Rightarrow> int)"
    using set_containsPoint_sound [OF _ triangle_wf(1)] by auto
  with lexMin_exact [OF run triangle_wf(1,3)] run show ?thesis by fastforce
qed

text \<open>
  A successful \<open>lexMax\<close> is exact: its point lies in the set and no 64-bit integer point of
  the set is lexicographically greater; none is returned only when there is no such point.
\<close>
theorem lexMax_exact:
  assumes "lexMax s = Inr res" and "wf_set s" and "no_overflow s"
  shows "case res of
      None \<Rightarrow> \<forall>q. i64_point (set_space s) q \<longrightarrow> \<not> set_sat s (pt q :: nat \<Rightarrow> int)
    | Some p \<Rightarrow> set_containsPoint s p \<and> length p = nDims (set_space s) \<and> set_sat s (pt p :: nat \<Rightarrow> int)
        \<and> (\<forall>q. i64_point (set_space s) q \<longrightarrow> set_sat s (pt q :: nat \<Rightarrow> int) \<longrightarrow> q = p \<or> lexLess q p)"
  using lexMax_run [OF assms(1,2)] visited_sat_set [OF assms(3)] set_containsPoint_sound [OF _ assms(2)]
  by (auto simp: lex_run_inv_def lex_before_def set_containsPoint_def split: option.splits)

lemma lexMax_exact_witness:
  "lexMax triangle = Inr (Some [7, 7]) \<and> set_sat triangle (pt [7, 7] :: nat \<Rightarrow> int)
   \<and> set_sat triangle (pt [5, 2] :: nat \<Rightarrow> int) \<and> lexLess [5, 2] [7, 7]"
proof -
  have run: "lexMax triangle = Inr (Some [7, 7])" by code_simp
  have "i64_point (set_space triangle) [5, 2]" "set_containsPoint triangle [5, 2]" by code_simp+
  then have "i64_point (set_space triangle) [5, 2]" "set_sat triangle (pt [5, 2] :: nat \<Rightarrow> int)"
    using set_containsPoint_sound [OF _ triangle_wf(1)] by auto
  with lexMax_exact [OF run triangle_wf(1,3)] run show ?thesis by fastforce
qed

definition overflowed_half_plane :: presburger where
  "overflowed_half_plane = \<lparr>set_space = plane, disjuncts = [triangle_poly\<lparr>rowsOverflow := True\<rparr>]\<rparr>"

text \<open>
  Without that condition \<open>lexMin\<close> is not exact: it skips a disjunct whose row budget
  overflowed, and then reports a set as integer-empty that has the origin in it.
\<close>
theorem lexMin_skips_overflowed:
  "lexMin overflowed_half_plane = Inr None \<and> set_containsPoint overflowed_half_plane [0, 0]"
  by code_simp

section \<open>Fourier-Motzkin elimination\<close>

text \<open>
  C2. Eliminating a variable computes the exact rational shadow: the projected system holds at
  a point exactly when some value of the eliminated variable completes it to a solution, and
  \<open>empty\<close> is reported exactly when no point has a solution. (No row was dropped.)
\<close>
theorem fmEliminate_shadow:
  fixes x :: "nat \<Rightarrow> rat"
  assumes "fmEliminate sys v = Inr out" and "wf_poly sys" and "\<not> rowsOverflow (fm_projected out)"
  shows "\<not> fm_empty out \<and> poly_sat (fm_projected out) x \<longleftrightarrow> (\<exists>t. poly_sat sys (x(v := t)))"
proof
  assume "\<not> fm_empty out \<and> poly_sat (fm_projected out) x"
  then show "\<exists>t. poly_sat sys (x(v := t))" using fmEliminate_exact [OF assms(1,2) _ assms(3), of x] by blast
next
  assume "\<exists>t. poly_sat sys (x(v := t))"
  then obtain t where s: "\<not> fm_empty out" "poly_sat (fm_projected out) (x(v := t))"
    using fmEliminate_sound [OF assms(1,2)] by blast
  then have "row_sat r x" if "r \<in> set (poly_rows (fm_projected out))" for r
    using row_sat_indep [OF fmEliminate_wf(3) [OF assms(1,2) s(1) that], of x t] that
    by (simp add: poly_sat_def rows_sat_def)
  with s show "\<not> fm_empty out \<and> poly_sat (fm_projected out) x" by (simp add: poly_sat_def rows_sat_def)
qed

lemma fmEliminate_shadow_witness:
  "\<exists>out. fmEliminate triangle_poly 0 = Inr out \<and>
     (\<not> fm_empty out \<and> poly_sat (fm_projected out) (\<lambda>_. 3 :: rat) \<longleftrightarrow> (\<exists>t. poly_sat triangle_poly ((\<lambda>_. 3 :: rat)(0 := t))))"
proof -
  have "case fmEliminate triangle_poly 0 of Inl _ \<Rightarrow> False | Inr out \<Rightarrow> \<not> rowsOverflow (fm_projected out)"
    by code_simp
  then obtain out where "fmEliminate triangle_poly 0 = Inr out" "\<not> rowsOverflow (fm_projected out)"
    using result_cases by blast
  with fmEliminate_shadow [OF this(1) triangle_wf(2) this(2), of "\<lambda>_. 3"] show ?thesis by blast
qed

text \<open>
  Elimination never loses a point, whatever was dropped on the way: an integer solution
  satisfies the projected system. This is the direction legality decisions rest on.
\<close>
theorem fmEliminate_keeps_points:
  fixes x :: "nat \<Rightarrow> int"
  assumes "fmEliminate sys v = Inr out" and "wf_poly sys" and "poly_sat sys x"
  shows "\<not> fm_empty out \<and> poly_sat (fm_projected out) x \<and> wf_poly (fm_projected out)
     \<and> (\<forall>r \<in> set (poly_rows (fm_projected out)). row_coeffOf r v = 0)"
  using fmEliminate_sound [OF assms] fmEliminate_wf [OF assms(1,2)] by blast

lemma fmEliminate_keeps_points_witness:
  "\<exists>out. fmEliminate triangle_poly 0 = Inr out \<and> poly_sat (fm_projected out) (pt [5, 2] :: nat \<Rightarrow> int)"
proof -
  have "case fmEliminate triangle_poly 0 of Inl _ \<Rightarrow> False | Inr out \<Rightarrow> True" by code_simp
  then obtain out where out: "fmEliminate triangle_poly 0 = Inr out" using result_cases by blast
  have "poly_containsPoint triangle_poly [5, 2]" by code_simp
  from fmEliminate_keeps_points [OF out triangle_wf(2) poly_containsPoint_sound [OF this triangle_wf(2)]]
  show ?thesis using out by blast
qed

text \<open>
  The intermediate row budget of 512 is dead code: \<open>addRow\<close> stops a system at 256 rows, so no
  elimination of a well-formed system ever reports \<open>budgetExceeded\<close>.
\<close>
theorem fmEliminate_budget_unreachable:
  assumes "fmEliminate sys v = Inr out" and "wf_poly sys"
  shows "\<not> fm_budgetExceeded out"
  by (rule fmEliminate_budget [OF assms])

lemma fmEliminate_budget_unreachable_witness:
  "\<exists>out. fmEliminate triangle_poly 1 = Inr out \<and> \<not> fm_budgetExceeded out"
proof -
  have "case fmEliminate triangle_poly 1 of Inl _ \<Rightarrow> False | Inr out \<Rightarrow> True" by code_simp
  then obtain out where out: "fmEliminate triangle_poly 1 = Inr out" using result_cases by blast
  with fmEliminate_budget_unreachable [OF out triangle_wf(2)] show ?thesis by blast
qed

section \<open>Emptiness\<close>

text \<open>
  C3. \<open>feasibility\<close> decides rational emptiness of a set: \<open>FEmpty\<close> means that it has no rational
  and therefore no integer point, \<open>FNonEmpty\<close> that it has a rational one.
\<close>
theorem feasibility_decides:
  assumes "set_feasibility s = Inr f" and "wf_set s"
  shows "case f of
      FEmpty \<Rightarrow> (\<forall>x :: nat \<Rightarrow> rat. \<not> set_sat s x) \<and> (\<forall>x :: nat \<Rightarrow> int. \<not> set_sat s x)
    | FNonEmpty \<Rightarrow> \<exists>x :: nat \<Rightarrow> rat. set_sat s x
    | FUnknown \<Rightarrow> True"
proof (cases f)
  case FEmpty
  with assms(1) have e: "set_feasibility s = Inr FEmpty" by simp
  have "\<not> set_sat s x" for x :: "nat \<Rightarrow> rat" by (rule set_feasibility_empty [OF e assms(2)])
  moreover have "\<not> set_sat s x" for x :: "nat \<Rightarrow> int" by (rule set_feasibility_empty [OF e assms(2)])
  ultimately show ?thesis using FEmpty by simp
next
  case FNonEmpty
  with assms(1) have "set_feasibility s = Inr FNonEmpty" by simp
  from set_feasibility_nonempty [OF this assms(2)] FNonEmpty show ?thesis by simp
qed simp

definition crossed :: presburger where
  "crossed = \<lparr>set_space = plane, disjuncts = [addRowList [ge_row [1, -1] (-1), ge_row [-1, 1] 0] (new_poly plane)]\<rparr>"

lemma feasibility_decides_witness:
  "(\<exists>x :: nat \<Rightarrow> rat. set_sat triangle x) \<and> (\<forall>x :: nat \<Rightarrow> int. \<not> set_sat crossed x)"
proof -
  have "set_feasibility triangle = Inr FNonEmpty" "set_feasibility crossed = Inr FEmpty" "wf_set crossed"
    by code_simp+
  with feasibility_decides [OF this(1) triangle_wf(1)] feasibility_decides [OF this(2)] show ?thesis by simp
qed

section \<open>The algebra of sets\<close>

text \<open>
  Intersection and union are exact: the result denotes the common points, respectively the
  points of either set (for the intersection no row of the result was dropped).
\<close>
theorem intersect_unite_exact:
  fixes x :: "nat \<Rightarrow> int"
  assumes "intersect a b = Inr i" and "no_overflow i" and "unite a b = Inr u"
  shows "(set_sat i x \<longleftrightarrow> set_sat a x \<and> set_sat b x) \<and> (set_sat u x \<longleftrightarrow> set_sat a x \<or> set_sat b x)"
  using intersect_sound [OF assms(1), of x] intersect_exact [OF assms(1), of x]
    intersect_no_overflow [OF assms(1,2)] unite_sat [OF assms(3), of x] by blast

lemma intersect_unite_exact_witness:
  "\<exists>i u. intersect triangle crossed = Inr i \<and> unite triangle crossed = Inr u
     \<and> \<not> set_sat i (pt [5, 2] :: nat \<Rightarrow> int) \<and> set_sat u (pt [5, 2] :: nat \<Rightarrow> int)"
proof -
  have "case intersect triangle crossed of Inl _ \<Rightarrow> False | Inr i \<Rightarrow> no_overflow i" by code_simp
  then obtain i where i: "intersect triangle crossed = Inr i" "no_overflow i" using result_cases by blast
  have "case unite triangle crossed of Inl _ \<Rightarrow> False | Inr i \<Rightarrow> True" by code_simp
  then obtain u where u: "unite triangle crossed = Inr u" using result_cases by blast
  have "set_containsPoint triangle [5, 2]" by code_simp
  then have t: "set_sat triangle (pt [5, 2] :: nat \<Rightarrow> int)" using triangle_wf(1) by (rule set_containsPoint_sound)
  have "set_feasibility crossed = Inr FEmpty" "wf_set crossed" by code_simp+
  then have "\<not> set_sat crossed (pt [5, 2] :: nat \<Rightarrow> int)" by (rule set_feasibility_empty)
  with t i u intersect_unite_exact [OF i u, of "pt [5, 2]"] show ?thesis by blast
qed

text \<open>
  C5. Complement and difference are exact over the integers for sets of inequality rows within
  the disjunct budget; the complement then overflows nowhere.
\<close>
theorem complement_subtract_exact:
  fixes x :: "nat \<Rightarrow> int"
  assumes "complement b = Inr c" and "within_disjunct_budget b" and "inequalities_only b"
    and "subtract a b = Inr d" and "no_overflow d"
  shows "no_overflow c \<and> (set_sat c x \<longleftrightarrow> \<not> set_sat b x)
     \<and> (set_sat d x \<longleftrightarrow> set_sat a x \<and> \<not> set_sat b x)"
  using complement_props(2) [OF assms(1,2)] complement_iff [OF assms(1-3), of x]
    subtract_iff [OF assms(4,2,3,5), of x] by simp

lemma complement_subtract_exact_witness:
  "\<exists>c d. complement triangle = Inr c \<and> subtract triangle triangle = Inr d
     \<and> set_sat c (pt [0, 1] :: nat \<Rightarrow> int) \<and> \<not> set_sat d (pt [0, 0] :: nat \<Rightarrow> int)"
proof -
  have "case complement triangle of Inl _ \<Rightarrow> False | Inr i \<Rightarrow> True" by code_simp
  then obtain c where c: "complement triangle = Inr c" using result_cases by blast
  have "case subtract triangle triangle of Inl _ \<Rightarrow> False | Inr i \<Rightarrow> no_overflow i" by code_simp
  then obtain d where d: "subtract triangle triangle = Inr d" "no_overflow d" using result_cases by blast
  have b: "within_disjunct_budget triangle" "inequalities_only triangle" by code_simp+
  have "\<not> set_sat triangle (pt [0, 1] :: nat \<Rightarrow> int)"
    by (simp add: triangle_def triangle_poly_def ge_row_def addRow_def new_poly_def plane_def totalVars_def
        isTriviallyFalse_def isTriviallyTrue_def allCoeffsZero_def kPolyMaxRowsPerSystem_def
        poly_sat_def row_sat_def row_val_def pt_def lin_Cons)
  then show ?thesis
    using complement_subtract_exact [OF c b d, of "pt [0, 1]"] complement_subtract_exact [OF c b d, of "pt [0, 0]"] c d
    by blast
qed

definition line :: presburger where
  "line = \<lparr>set_space = plane, disjuncts = [addRowList [eq_row [1, 0] 0] (new_poly plane)]\<rparr>"

text \<open>
  An equality row breaks \<open>complement\<close>: the negation of \<open>x = 0\<close> is put into one conjunction,
  so the complement of the line is empty although the point (1, 0) is off the line.
\<close>
theorem complement_equality_loses_points:
  "\<exists>c. complement line = Inr c \<and> provablyEmpty c = Inr True
     \<and> \<not> set_containsPoint line [1, 0] \<and> \<not> set_containsPoint c [1, 0]"
proof -
  have "case complement line of Inl _ \<Rightarrow> False
    | Inr c \<Rightarrow> provablyEmpty c = Inr True \<and> \<not> set_containsPoint line [1, 0] \<and> \<not> set_containsPoint c [1, 0]"
    by code_simp
  then show ?thesis using result_cases by blast
qed

text \<open>
  Boxes denote what their bounds say, with constant bounds and with affine ones, and never
  overflow on up to 128 dimensions.
\<close>
theorem boxes_exact:
  fixes x :: "nat \<Rightarrow> int"
  assumes "box sp lo hi = Inr b" and "affineBox sp elo ehi = Inr a" and "nDims sp \<le> 128"
    and "\<And>d. d < nDims sp \<Longrightarrow> wf_expr (elo ! d) \<and> wf_expr (ehi ! d)"
  shows "no_overflow b \<and> no_overflow a \<and> wf_set b \<and> wf_set a
    \<and> (set_sat b x \<longleftrightarrow> (\<forall>d < nDims sp. lo ! d \<le> x d \<and> x d \<le> hi ! d))
    \<and> (set_sat a x \<longleftrightarrow> (\<forall>d < nDims sp. expr_val (elo ! d) x \<le> x d \<and> x d \<le> expr_val (ehi ! d) x))"
  using box_sat_iff(1) [OF assms(1,3), of x] affineBox_sat_iff(1) [OF assms(2-4), of x]
    box_sat_iff(2,3) [OF assms(1,3)] affineBox_sat_iff(2,3) [OF assms(2-4)] by simp

lemma boxes_exact_witness:
  "\<exists>b a. box plane [0, 0] [3, 3] = Inr b
     \<and> affineBox plane [expr_fromConstant plane 0, expr_fromConstant plane 0]
          [expr_fromConstant plane 7, expr_variable plane 0] = Inr a
     \<and> set_sat b (pt [3, 2] :: nat \<Rightarrow> int) \<and> \<not> set_sat a (pt [1, 2] :: nat \<Rightarrow> int)"
proof -
  let ?lo = "[expr_fromConstant plane 0, expr_fromConstant plane 0]"
  let ?hi = "[expr_fromConstant plane 7, expr_variable plane 0]"
  have "case box plane [0, 0] [3, 3] of Inl _ \<Rightarrow> False | Inr i \<Rightarrow> True"
    "case affineBox plane ?lo ?hi of Inl _ \<Rightarrow> False | Inr i \<Rightarrow> True" by code_simp+
  then obtain b a where ba: "box plane [0, 0] [3, 3] = Inr b" "affineBox plane ?lo ?hi = Inr a"
    using result_cases by metis
  have w: "\<And>d. d < nDims plane \<Longrightarrow> wf_expr (?lo ! d) \<and> wf_expr (?hi ! d)"
    by (auto simp: plane_def less_Suc_eq numeral_2_eq_2)
  have n: "nDims plane \<le> 128" by (simp add: plane_def)
  show ?thesis
    using boxes_exact [OF ba n w, of "pt [3, 2]"] boxes_exact [OF ba n w, of "pt [1, 2]"] ba
    by (auto simp: pt_def plane_def less_Suc_eq numeral_2_eq_2 expr_val_variable totalVars_def)
qed

section \<open>Projection\<close>

text \<open>
  C7. \<open>projectOut\<close> is existential projection over the rationals, and it stays in the set's space.
\<close>
theorem projectOut_exists:
  fixes x :: "nat \<Rightarrow> rat"
  assumes "projectOut s v = Inr out" and "wf_set s" and "no_overflow out"
  shows "(set_sat out x \<longleftrightarrow> (\<exists>t. set_sat s (x(v := t)))) \<and> wf_set out \<and> set_space out = set_space s"
  using projectOut_exact [OF assms, of x] projectOut_sound [OF assms(1,2), of "x(v := t)" "x v" for t]
    wf_projectOut [OF assms(1,2)] by auto

lemma projectOut_exists_witness:
  "\<exists>out. projectOut triangle 0 = Inr out \<and>
     (set_sat out (\<lambda>_. 5 :: rat) \<longleftrightarrow> (\<exists>t. set_sat triangle ((\<lambda>_. 5 :: rat)(0 := t))))"
proof -
  have "case projectOut triangle 0 of Inl _ \<Rightarrow> False | Inr i \<Rightarrow> no_overflow i" by code_simp
  then obtain out where "projectOut triangle 0 = Inr out" "no_overflow out" using result_cases by blast
  with projectOut_exists [OF this(1) triangle_wf(1) this(2), of "\<lambda>_. 5"] show ?thesis by blast
qed

text \<open>
  \<open>existsProject\<close> keeps every point of the set up to the dimensions it eliminates, symbols
  included: two points that agree on the kept dimensions and on the symbols are not told apart.
\<close>
theorem existsProject_covers:
  fixes x y :: "nat \<Rightarrow> int"
  assumes "existsProject s keep = Inr out" and "wf_set s" and "set_sat s x"
    and "\<And>v. \<not> (v < nDims (set_space s) \<and> \<not> keep ! v) \<Longrightarrow> x v = y v"
  shows "set_sat out y \<and> wf_set out \<and> set_space out = set_space s"
proof -
  have "length keep \<ge> nDims (set_space s)" using assms(1) by (simp add: existsProject_def split: if_splits)
  then have "agree_on (\<lambda>v. \<not> eliminated keep (nDims (set_space s)) v) x y"
    using assms(4) by (auto simp: agree_on_def eliminated_def)
  with existsProject_sound [OF assms(1-3)] wf_existsProject [OF assms(1,2)] show ?thesis by blast
qed

lemma existsProject_covers_witness:
  "\<exists>out. existsProject triangle [False, True] = Inr out \<and> set_sat out ((pt [5, 2])(0 := 99) :: nat \<Rightarrow> int)"
proof -
  have "case existsProject triangle [False, True] of Inl _ \<Rightarrow> False | Inr i \<Rightarrow> True" by code_simp
  then obtain out where out: "existsProject triangle [False, True] = Inr out" using result_cases by blast
  have "set_containsPoint triangle [5, 2]" by code_simp
  then have t: "set_sat triangle (pt [5, 2] :: nat \<Rightarrow> int)" using triangle_wf(1) by (rule set_containsPoint_sound)
  have "set_sat out ((pt [5, 2])(0 := 99) :: nat \<Rightarrow> int)"
    by (rule conjunct1 [OF existsProject_covers [OF out triangle_wf(1) t]])
      (auto simp: triangle_def plane_def)
  with out show ?thesis by blast
qed

text \<open>
  The exact point check agrees with the denotation on systems and points within the
  magnitude limit, up to seven variables: there the accumulation cannot overflow.
\<close>
theorem containsPoint_exact:
  assumes "wf_poly p" and "length vs = totalVars (poly_space p)" and "length vs \<le> 7"
    and "\<And>r. r \<in> set (poly_rows p) \<Longrightarrow> in_limit (row_constant r) \<and> (\<forall>c \<in> set (row_coeffs r). in_limit c)"
    and "\<And>v. v \<in> set vs \<Longrightarrow> in_limit v"
  shows "poly_containsPoint p vs \<longleftrightarrow> poly_sat p (pt vs :: nat \<Rightarrow> int)"
proof (cases "isEmptyFlag p")
  case False
  show ?thesis
  proof (rule poly_containsPoint_iff [OF assms(1)])
    fix r assume r: "r \<in> set (poly_rows p)"
    show "row_evaluates r vs"
      using assms(4) [OF r] wf_polyD [OF assms(1) False r] assms(2,3,5)
      by (intro row_evaluates_in_limit) auto
  qed (simp add: assms(2))
qed (simp add: poly_containsPoint_def poly_sat_def)

lemma containsPoint_exact_witness:
  "poly_containsPoint triangle_poly [5, 2] \<longleftrightarrow> poly_sat triangle_poly (pt [5, 2] :: nat \<Rightarrow> int)"
proof -
  have "\<forall>r \<in> set (poly_rows triangle_poly). in_limit (row_constant r) \<and> (\<forall>c \<in> set (row_coeffs r). in_limit c)"
    "\<forall>v \<in> set [5, 2 :: int]. in_limit v" "length [5, 2 :: int] = totalVars (poly_space triangle_poly)" by code_simp+
  then show ?thesis by (intro containsPoint_exact [OF triangle_wf(2)]) auto
qed

end
