(* ===== verification/Arithmetic_Properties.thy ===== *)
theory Arithmetic_Properties
  imports Affine_Expr
begin

text \<open>
  What the exact arithmetic under the polyhedral engine promises: the rational kernel refines
  the field of rationals up to the magnitude limit, affine expressions evaluate to their value
  and their operations are homomorphisms, and canonical forms denote the same row.
\<close>

section \<open>Rationals\<close>

definition rat_half :: rational where "rat_half = \<lparr>num = 1, den = 2\<rparr>"
definition rat_minus_two_thirds :: rational where "rat_minus_two_thirds = \<lparr>num = -2, den = 3\<rparr>"

lemma example_rationals: "lim_rat rat_half" "lim_rat rat_minus_two_thirds"
  by (simp_all add: rat_half_def rat_minus_two_thirds_def lim_rat_def limit_defs)

text \<open>
  C6. The rational kernel is exact. On operands in canonical form (reduced, positive
  denominator, within the magnitude limit) every operation returns the canonical form of the
  exact result when that fits the limit and \<open>ResourceExhausted\<close> otherwise; comparison, floor and
  ceiling never fail and are those of the number denoted.
\<close>
theorem rational_kernel_exact:
  assumes "lim_rat a" and "lim_rat b"
  shows "ratAdd a b = rat_spec (rat_val a + rat_val b)
    \<and> ratSub a b = rat_spec (rat_val a - rat_val b)
    \<and> ratMul a b = rat_spec (rat_val a * rat_val b)
    \<and> ratDiv a b = (if isZero b then Inl (Err InvalidArgument) else rat_spec (rat_val a / rat_val b))
    \<and> (ratLess a b \<longleftrightarrow> rat_val a < rat_val b) \<and> (ratEqual a b \<longleftrightarrow> rat_val a = rat_val b)
    \<and> ratFloor a = Inr \<lfloor>rat_val a\<rfloor> \<and> ratCeil a = Inr \<lceil>rat_val a\<rceil>"
proof -
  have "ratDiv a b = (if isZero b then Inl (Err InvalidArgument) else rat_spec (rat_val a / rat_val b))"
  proof (cases "isZero b")
    case True
    then show ?thesis by (simp add: ratDiv_def isZero_def)
  next
    case False
    then show ?thesis using ratDiv_spec [OF assms] by (simp add: isZero_def)
  qed
  then show ?thesis
    using ratAdd_spec [OF assms] ratSub_spec [OF assms] ratMul_spec [OF assms] ratLess_iff [OF assms]
      ratEqual_iff [OF assms] ratFloor_spec [OF assms(1)] ratCeil_spec [OF assms(1)] by simp
qed

lemma rational_kernel_exact_witness:
  "ratAdd rat_half rat_minus_two_thirds = Inr \<lparr>num = -1, den = 6\<rparr>
   \<and> ratAdd rat_half rat_minus_two_thirds = rat_spec (rat_val rat_half + rat_val rat_minus_two_thirds)
   \<and> ratCeil rat_half = Inr 1"
proof -
  note k = rational_kernel_exact [OF example_rationals]
  have "ratAdd rat_half rat_minus_two_thirds = Inr \<lparr>num = -1, den = 6\<rparr>" by code_simp
  moreover have "\<lceil>rat_val rat_half\<rceil> = 1" by (simp add: rat_val_def rat_half_def ceiling_eq_iff)
  ultimately show ?thesis using k by simp
qed

text \<open>
  Every value the kernel builds is canonical, and a number has only one canonical
  representation: equality of denoted numbers is equality of the stored pairs.
\<close>
theorem rational_canonical:
  assumes "in_limit n" and "in_limit d" and "d \<noteq> 0" and "fromParts n d = Inr r" and "lim_rat a"
  shows "lim_rat r \<and> rat_val r = of_int n / of_int d \<and> (rat_val a = rat_val r \<longrightarrow> a = r)"
proof -
  have "rat_spec (of_int n / of_int d) = Inr r" using fromParts_eq [OF assms(1-3)] assms(4) by simp
  from rat_spec_Inr [OF this] rat_val_inj [OF assms(5), of r] show ?thesis by simp
qed

lemma rational_canonical_witness:
  "fromParts 6 (-12) = Inr \<lparr>num = -1, den = 2\<rparr>
   \<and> lim_rat \<lparr>num = -1, den = 2\<rparr> \<and> rat_val \<lparr>num = -1, den = 2\<rparr> = 6 / (-12)"
proof -
  have f: "fromParts 6 (-12) = Inr \<lparr>num = -1, den = 2\<rparr>" by code_simp
  have "in_limit 6" "in_limit (-12)" "(-12::int) \<noteq> 0" by (simp_all add: limit_defs)
  from rational_canonical [OF this f example_rationals(1)] f show ?thesis by simp
qed

section \<open>Affine expressions\<close>

definition line_space :: var_space where "line_space = \<lparr>nDims = 1, nSyms = 1\<rparr>"
definition two_x_plus_four :: affine_expr where
  "two_x_plus_four = \<lparr>expr_space = line_space, expr_coeffs = [2, 0], expr_constant = 4\<rparr>"

text \<open>
  Evaluation of an affine expression returns its value whenever it returns, and addition,
  subtraction and scaling commute with evaluation: they produce well-formed expressions of the
  same space whose value is the sum, difference or multiple of the operands' values.
\<close>
theorem expr_operations_exact:
  assumes "wf_expr a" and "wf_expr b" and "exprAdd a b = Inr s" and "exprSub a b = Inr d"
    and "exprScale a k = Inr m"
  shows "wf_expr s \<and> wf_expr d \<and> wf_expr m
    \<and> expr_val s x = expr_val a x + expr_val b x
    \<and> expr_val d x = expr_val a x - expr_val b x
    \<and> expr_val m x = of_int k * expr_val a x
    \<and> (\<forall>r. expr_evalAt s vs = Inr r \<longrightarrow> r = expr_val a (pt vs) + expr_val b (pt vs))"
  using exprAdd_val [OF assms(1-3)] exprSub_Inr [OF assms(1,2,4)] exprScale_val [OF assms(1,5)]
    exprAdd_val [OF assms(1-3), of "pt vs"] by (auto dest: expr_evalAt_Inr)

lemma expr_operations_exact_witness:
  "\<exists>s d m. exprAdd two_x_plus_four two_x_plus_four = Inr s \<and> exprSub two_x_plus_four two_x_plus_four = Inr d
     \<and> exprScale two_x_plus_four 3 = Inr m
     \<and> expr_val s (pt [1, 0]) = (12 :: int) \<and> expr_val d (pt [1, 0]) = (0 :: int) \<and> expr_val m (pt [1, 0]) = (18 :: int)"
proof -
  let ?e = two_x_plus_four
  have wf: "wf_expr ?e" by code_simp
  have ex: "\<exists>s. exprAdd ?e ?e = Inr s" "\<exists>d. exprSub ?e ?e = Inr d" "\<exists>m. exprScale ?e 3 = Inr m"
    by (simp_all add: exprAdd_def exprSub_def exprScale_def exprSpacesMatch_def add_op.limited_eq
        mul_op.limited_eq two_x_plus_four_def line_space_def limit_defs upt_rec)
  then obtain s d m where r: "exprAdd ?e ?e = Inr s" "exprSub ?e ?e = Inr d" "exprScale ?e 3 = Inr m" by blast
  have "expr_val ?e (pt [1, 0]) = (6 :: int)"
    by (simp add: expr_val_def two_x_plus_four_def lin_Cons pt_def)
  with expr_operations_exact [OF wf wf r, of "pt [1, 0] :: nat \<Rightarrow> int" "[]"] r show ?thesis by auto
qed

text \<open>
  \<open>gcdNormalize\<close> divides an expression within the limit by one positive factor, so the
  row it describes is unchanged (same zeros, same sign everywhere), and leaves nothing to
  divide: the remaining coefficients and constant have no common factor.
\<close>
theorem gcdNormalize_canonical:
  fixes x :: "nat \<Rightarrow> int"
  assumes "withinLimits e"
  defines "n \<equiv> gcdNormalize e"
  shows "Gcd (insert (expr_constant n) (set (expr_coeffs n))) \<le> 1
    \<and> sgn (expr_val n x) = sgn (expr_val e x)
    \<and> (\<exists>g > 0. expr_val e x = g * expr_val n x)"
proof -
  define G where "G = Gcd (insert (expr_constant e) (set (expr_coeffs e)))"
  obtain g where g: "g > 0" "expr_coeffs e = map (\<lambda>c. g * c) (expr_coeffs n)" "expr_constant e = g * expr_constant n"
    using gcdNormalize_scales [OF assms(1)] unfolding n_def by blast
  have "map (\<lambda>c. g * c) (expr_coeffs n) = map (\<lambda>c. c * g) (expr_coeffs n)" by (simp add: mult.commute)
  then have v: "expr_val e x = g * expr_val n x"
    using g lin_map_scale [of g "expr_coeffs n" x] by (simp add: expr_val_def algebra_simps)
  have "Gcd (insert (expr_constant n) (set (expr_coeffs n))) \<le> 1"
  proof (cases "G \<le> 1")
    case True
    then show ?thesis using gcdNormalize_cases [OF assms(1)] by (simp add: n_def G_def)
  next
    case False
    let ?S = "insert (expr_constant e) (set (expr_coeffs e))"
    have n: "n = e\<lparr>expr_coeffs := map (\<lambda>c. c div G) (expr_coeffs e), expr_constant := expr_constant e div G\<rparr>"
      using gcdNormalize_cases [OF assms(1)] False by (simp add: n_def G_def)
    let ?T = "insert (expr_constant n) (set (expr_coeffs n))"
    have "G * Gcd ?T dvd c" if "c \<in> ?S" for c
    proof -
      have "c div G \<in> ?T" using that by (auto simp: n)
      then have "Gcd ?T dvd c div G" by (rule Gcd_dvd)
      then have "G * Gcd ?T dvd G * (c div G)" by (rule mult_dvd_mono [OF dvd_refl])
      moreover have "G dvd c" using that unfolding G_def by (rule Gcd_dvd)
      then have "G * (c div G) = c" by (rule dvd_mult_div_cancel)
      ultimately show ?thesis by (simp only:)
    qed
    then have "G * Gcd ?T dvd G" unfolding G_def by (intro Gcd_greatest)
    with False have "Gcd ?T dvd 1" by simp
    then show ?thesis by (simp add: zdvd1_eq)
  qed
  moreover have "sgn (expr_val n x) = sgn (expr_val e x)" using g(1) by (simp add: v sgn_mult)
  ultimately show ?thesis using g(1) v by blast
qed

lemma gcdNormalize_canonical_witness:
  "gcdNormalize two_x_plus_four = two_x_plus_four\<lparr>expr_coeffs := [1, 0], expr_constant := 2\<rparr>
   \<and> Gcd (insert (expr_constant (gcdNormalize two_x_plus_four)) (set (expr_coeffs (gcdNormalize two_x_plus_four)))) \<le> 1"
proof -
  have "withinLimits two_x_plus_four"
    "gcdNormalize two_x_plus_four = two_x_plus_four\<lparr>expr_coeffs := [1, 0], expr_constant := 2\<rparr>" by code_simp+
  with gcdNormalize_canonical [OF this(1), of "\<lambda>_. 0"] show ?thesis by simp
qed

end
