(* ===== verification/Lp.thy ===== *)
theory Lp
  imports Rational
begin

text \<open>
  The exact rational LP solver, \<open>polyhedral/src/lp.cpp\<close>: a dense two-phase simplex with Bland's
  rule. The class \<open>Simplex\<close> is a record threaded through its member functions. Columns are
  [x+ and x- interleaved | surplus | artificial]. \<open>z[nCols_]\<close>, the entry the source appends to
  the objective row, is a separate component \<open>(z, obj)\<close> here. Member functions that return
  false for a size budget return \<open>None\<close>; \<open>ratNeg\<close> always has a value in the source, so its only
  failure, undefined behaviour, is propagated.
\<close>

definition kLpMaxVars :: nat where "kLpMaxVars = 1024"
definition kLpMaxRows :: nat where "kLpMaxRows = 512"

definition u32 :: "nat \<Rightarrow> nat" where "u32 n = nat (int n mod 4294967296)"

record linear_program =
  lp_nVars :: nat
  lp_eqRows :: "rational list list"
  lp_eqRhs :: "rational list"
  lp_geRows :: "rational list list"
  lp_geRhs :: "rational list"
  lp_objective :: "rational list"

datatype lp_status = LpOptimal | LpInfeasible | LpUnbounded

record lp_solution =
  sol_status :: lp_status
  sol_objective :: rational
  sol_x :: "rational list"

record simplex =
  sx_nVars :: nat
  sx_nStruct :: nat
  sx_nSurplus :: nat
  sx_nArt :: nat
  sx_nCols :: nat
  sx_m :: nat
  sx_rows :: "rational list list"
  sx_rhs :: "rational list"
  sx_basis :: "nat list"

definition rat_one :: rational where "rat_one = \<lparr>num = 1, den = 1\<rparr>"
definition rat_minus_one :: rational where "rat_minus_one = \<lparr>num = -1, den = 1\<rparr>"

section \<open>Building the tableau\<close>

definition fill_step :: "rational list \<Rightarrow> nat \<Rightarrow> rational list \<Rightarrow> rational list result" where
  "fill_step src k row = (let c = src ! k in
     if isZero c then Inr row
     else mlk_try (ratNeg c) (\<lambda>neg. Inr (row[2 * k := c, 2 * k + 1 := neg])))"

definition fillStructural :: "nat \<Rightarrow> rational list \<Rightarrow> rational list \<Rightarrow> rational list result" where
  "fillStructural nStruct src row =
     fold_res (fill_step src) (filter (\<lambda>k. k * 2 < nStruct) [0..<length src]) row"

definition negateRow :: "rational list \<Rightarrow> rational list result" where
  "negateRow row = map_res ratNeg row"

text \<open>One constraint: its row over all columns, its right-hand side, whether it was flipped.\<close>

definition build_row :: "nat \<Rightarrow> nat \<Rightarrow> rational list \<Rightarrow> rational \<Rightarrow> (rational list \<times> rational \<times> bool) result" where
  "build_row nStruct nCols src b0 =
     mlk_try (fillStructural nStruct src (replicate nCols rat_zero)) (\<lambda>row.
       if sign b0 < 0
       then mlk_try (negateRow row) (\<lambda>row. mlk_try (ratNeg b0) (\<lambda>b. Inr (row, b, True)))
       else Inr (row, b0, False))"

definition push_row :: "rational list \<Rightarrow> rational \<Rightarrow> nat \<Rightarrow> simplex \<Rightarrow> simplex" where
  "push_row row b art sx = sx\<lparr>sx_rows := sx_rows sx @ [row], sx_rhs := sx_rhs sx @ [b],
     sx_basis := sx_basis sx @ [art]\<rparr>"

definition build_eq :: "linear_program \<Rightarrow> nat \<Rightarrow> simplex \<Rightarrow> simplex result" where
  "build_eq lp r sx = (let art = sx_nStruct sx + sx_nSurplus sx + r in
     mlk_try (build_row (sx_nStruct sx) (sx_nCols sx) (lp_eqRows lp ! r)
       (if r < length (lp_eqRhs lp) then lp_eqRhs lp ! r else rat_zero)) (\<lambda>(row, b, _).
     Inr (push_row (row[art := rat_one]) b art sx)))"

definition build_ge :: "linear_program \<Rightarrow> nat \<Rightarrow> simplex \<Rightarrow> simplex result" where
  "build_ge lp r sx = (let art = sx_nStruct sx + sx_nSurplus sx + (length (lp_eqRows lp) + r) in
     mlk_try (build_row (sx_nStruct sx) (sx_nCols sx) (lp_geRows lp ! r)
       (if r < length (lp_geRhs lp) then lp_geRhs lp ! r else rat_zero)) (\<lambda>(row, b, flipped).
     Inr (push_row (row[sx_nStruct sx + r := (if flipped then rat_one else rat_minus_one), art := rat_one])
            b art sx)))"

definition build :: "linear_program \<Rightarrow> simplex option result" where
  "build lp =
     (let n = lp_nVars lp; nEq = u32 (length (lp_eqRows lp)); nGe = u32 (length (lp_geRows lp));
          nStruct = u32 (n * 2); nArt = u32 (nEq + nGe); nCols = u32 (nStruct + nGe + nArt);
          m = u32 (nEq + nGe);
          sx = \<lparr>sx_nVars = n, sx_nStruct = nStruct, sx_nSurplus = nGe, sx_nArt = nArt, sx_nCols = nCols,
                sx_m = m, sx_rows = [], sx_rhs = [], sx_basis = []\<rparr>
      in if nStruct = 0 \<or> nCols > kLpMaxVars then Inr None
         else if m > kLpMaxRows then Inr None
         else mlk_try (fold_res (build_eq lp) [0..<nEq] sx) (\<lambda>sx.
              mlk_try (fold_res (build_ge lp) [0..<nGe] sx) (\<lambda>sx. Inr (Some sx))))"

section \<open>Pivoting\<close>

text \<open>\<open>dst[col] - f * src[col]\<close> for every column, the loop all row operations share.\<close>

definition sub_scaled :: "rational \<Rightarrow> rational list \<Rightarrow> rational list \<Rightarrow> rational list result" where
  "sub_scaled f src dst =
     map_res (\<lambda>(s, d). mlk_try (ratMul f s) (\<lambda>t. ratSub d t)) (zip src dst)"

definition sub_scaled1 :: "rational \<Rightarrow> rational \<Rightarrow> rational \<Rightarrow> rational result" where
  "sub_scaled1 f src dst = mlk_try (ratMul f src) (\<lambda>t. ratSub dst t)"

definition pivot_row :: "nat \<Rightarrow> nat \<Rightarrow> nat \<Rightarrow> simplex \<Rightarrow> simplex result" where
  "pivot_row r c rr sx =
     (if rr = r then Inr sx
      else let f = sx_rows sx ! rr ! c in
        if isZero f then Inr sx
        else mlk_try (sub_scaled f (sx_rows sx ! r) (sx_rows sx ! rr)) (\<lambda>row.
             mlk_try (sub_scaled1 f (sx_rhs sx ! r) (sx_rhs sx ! rr)) (\<lambda>b.
               Inr (sx\<lparr>sx_rows := (sx_rows sx)[rr := row], sx_rhs := (sx_rhs sx)[rr := b]\<rparr>))))"

definition pivot :: "simplex \<Rightarrow> nat \<Rightarrow> nat \<Rightarrow> simplex result" where
  "pivot sx r c = (let p = sx_rows sx ! r ! c in
     if isZero p then Inl (Err Internal)
     else mlk_try (map_res (\<lambda>q. ratDiv q p) (sx_rows sx ! r)) (\<lambda>row.
          mlk_try (ratDiv (sx_rhs sx ! r) p) (\<lambda>b.
          mlk_try (fold_res (pivot_row r c) [0..<sx_m sx]
            (sx\<lparr>sx_rows := (sx_rows sx)[r := row], sx_rhs := (sx_rhs sx)[r := b]\<rparr>)) (\<lambda>sx.
          Inr (sx\<lparr>sx_basis := (sx_basis sx)[r := c]\<rparr>)))))"

section \<open>The iteration\<close>

definition push_objective :: "simplex \<Rightarrow> nat \<Rightarrow> nat \<Rightarrow> rational list \<times> rational \<Rightarrow> (rational list \<times> rational) result" where
  "push_objective sx r col zo = (case zo of (z, obj) \<Rightarrow>
     let zc = z ! col in
     if isZero zc then Inr (z, obj)
     else mlk_try (sub_scaled zc (sx_rows sx ! r) z) (\<lambda>z'.
          mlk_try (sub_scaled1 zc (sx_rhs sx ! r) obj) (\<lambda>obj'. Inr (z', obj'))))"

definition canonicalize :: "simplex \<Rightarrow> rational list \<Rightarrow> (rational list \<times> rational) result" where
  "canonicalize sx cost =
     fold_res (\<lambda>r. push_objective sx r (sx_basis sx ! r)) [0..<sx_m sx] (cost, rat_zero)"

text \<open>Bland: the lowest column with a negative reduced cost.\<close>

definition choose_enter :: "simplex \<Rightarrow> nat \<Rightarrow> rational list \<Rightarrow> nat option" where
  "choose_enter sx maxEnter z = find_index (\<lambda>c. sign c < 0) (take (min maxEnter (sx_nCols sx)) z)"

definition ratio_step :: "simplex \<Rightarrow> nat \<Rightarrow> nat \<Rightarrow> (nat \<times> rational) option \<Rightarrow> (nat \<times> rational) option result" where
  "ratio_step sx enter r best = (let piv = sx_rows sx ! r ! enter in
     if sign piv \<le> 0 then Inr best
     else mlk_try (ratDiv (sx_rhs sx ! r) piv) (\<lambda>ratio. case best of
         None \<Rightarrow> Inr (Some (r, ratio))
       | Some (leave, bestRatio) \<Rightarrow>
           if ratLess ratio bestRatio then Inr (Some (r, ratio))
           else if \<not> ratLess bestRatio ratio \<and> sx_basis sx ! r < sx_basis sx ! leave
           then Inr (Some (r, bestRatio))
           else Inr best))"

definition choose_leave :: "simplex \<Rightarrow> nat \<Rightarrow> (nat \<times> rational) option result" where
  "choose_leave sx enter = fold_res (ratio_step sx enter) [0..<sx_m sx] None"

fun simplex_loop :: "nat \<Rightarrow> nat \<Rightarrow> simplex \<Rightarrow> rational list \<times> rational \<Rightarrow> (lp_status \<times> simplex) result" where
  "simplex_loop 0 maxEnter sx zo = Inl (Err BudgetExceeded)"
| "simplex_loop (Suc fuel) maxEnter sx zo =
     (case choose_enter sx maxEnter (fst zo) of
        None \<Rightarrow> Inr (LpOptimal, sx)
      | Some enter \<Rightarrow>
          mlk_try (choose_leave sx enter) (\<lambda>leave. case leave of
            None \<Rightarrow> Inr (LpUnbounded, sx)
          | Some (r, _) \<Rightarrow>
              mlk_try (pivot sx r enter) (\<lambda>sx.
              mlk_try (push_objective sx r enter zo) (simplex_loop fuel maxEnter sx))))"

definition runSimplex :: "simplex \<Rightarrow> rational list \<Rightarrow> nat \<Rightarrow> (lp_status \<times> simplex) result" where
  "runSimplex sx cost maxEnter =
     mlk_try (canonicalize sx cost) (simplex_loop (kLpMaxVars * 4) maxEnter sx)"

section \<open>The two phases\<close>

definition nNonArt :: "simplex \<Rightarrow> nat" where
  "nNonArt sx = sx_nStruct sx + sx_nSurplus sx"

definition phase1_cost :: "simplex \<Rightarrow> rational list" where
  "phase1_cost sx = fold (\<lambda>a cost. cost[nNonArt sx + a := rat_one]) [0..<sx_nArt sx]
     (replicate (sx_nCols sx) rat_zero)"

definition artificial_sum :: "simplex \<Rightarrow> rational result" where
  "artificial_sum sx = fold_res (\<lambda>r sum.
     if sx_basis sx ! r \<ge> nNonArt sx then ratAdd sum (sx_rhs sx ! r) else Inr sum)
     [0..<sx_m sx] rat_zero"

text \<open>Drive a degenerate basic artificial out with the first nonzero entry of its row.\<close>

definition drive_out :: "nat \<Rightarrow> simplex \<Rightarrow> simplex result" where
  "drive_out r sx =
     (if sx_basis sx ! r < nNonArt sx then Inr sx
      else case find_index (\<lambda>q. \<not> isZero q) (take (nNonArt sx) (sx_rows sx ! r)) of
        None \<Rightarrow> Inr sx
      | Some c \<Rightarrow> pivot sx r c)"

definition phase1 :: "simplex \<Rightarrow> (bool \<times> simplex) result" where
  "phase1 sx =
     mlk_try (runSimplex sx (phase1_cost sx) (sx_nCols sx)) (\<lambda>(_, sx).
     mlk_try (artificial_sum sx) (\<lambda>sum.
       if \<not> isZero sum then Inr (False, sx)
       else mlk_try (fold_res drive_out [0..<sx_m sx] sx) (\<lambda>sx. Inr (True, sx))))"

definition phase2_cost :: "simplex \<Rightarrow> rational list \<Rightarrow> rational list result" where
  "phase2_cost sx c = fold_res (\<lambda>k cost.
     mlk_try (ratNeg (c ! k)) (\<lambda>neg. Inr (cost[2 * k := c ! k, 2 * k + 1 := neg])))
     (filter (\<lambda>k. k * 2 < sx_nStruct sx) [0..<length c]) (replicate (sx_nCols sx) rat_zero)"

definition extract_step :: "simplex \<Rightarrow> nat \<Rightarrow> rational list \<Rightarrow> rational list result" where
  "extract_step sx r x = (let b = sx_basis sx ! r in
     if b \<ge> sx_nStruct sx then Inr x
     else let var = b div 2 in
       if var \<ge> length x then Inr x
       else if b mod 2 = 0 then Inr (x[var := sx_rhs sx ! r])
       else mlk_try (ratNeg (sx_rhs sx ! r)) (\<lambda>nv. Inr (x[var := nv])))"

definition extractX :: "simplex \<Rightarrow> rational list result" where
  "extractX sx = fold_res (extract_step sx) [0..<sx_m sx] (replicate (sx_nVars sx) rat_zero)"

definition objective_value :: "rational list \<Rightarrow> rational list \<Rightarrow> rational result" where
  "objective_value c x = fold_res (\<lambda>(ck, xk) acc. mlk_try (ratMul ck xk) (\<lambda>term. ratAdd acc term))
     (zip c x) rat_zero"

definition phase2 :: "simplex \<Rightarrow> rational list \<Rightarrow> (lp_status \<times> rational \<times> rational list) result" where
  "phase2 sx c =
     mlk_try (phase2_cost sx c) (\<lambda>cost.
     mlk_try (runSimplex sx cost (nNonArt sx)) (\<lambda>(st, sx).
       if st \<noteq> LpOptimal then Inr (st, rat_zero, [])
       else mlk_try (extractX sx) (\<lambda>xv.
            mlk_try (objective_value c xv) (\<lambda>obj. Inr (LpOptimal, obj, xv)))))"

definition solveLp :: "linear_program \<Rightarrow> lp_solution result" where
  "solveLp lp =
     (if lp_nVars lp = 0 then Inl (Err InvalidArgument)
      else mlk_try (build lp) (\<lambda>built. case built of
        None \<Rightarrow> Inl (Err ResourceExhausted)
      | Some sx \<Rightarrow>
          mlk_try (phase1 sx) (\<lambda>(feasible, sx).
            if \<not> feasible then Inr \<lparr>sol_status = LpInfeasible, sol_objective = rat_zero, sol_x = []\<rparr>
            else mlk_try (phase2 sx (lp_objective lp)) (\<lambda>(st, obj, x).
              Inr \<lparr>sol_status = st, sol_objective = obj, sol_x = x\<rparr>))))"

end
