(* ===== verification/Lp_Tableau.thy ===== *)
theory Lp_Tableau
  imports Lp
begin

text \<open>
  The tableau as a system of linear equations over the rationals. A pivot replaces the system
  by an equivalent one; the objective row stays equal to the cost up to that system; the ratio
  test keeps the basic solution non-negative. The loop lemma states what holds when the
  iteration stops: reduced costs without a negative entry, or a column that proves the
  objective unbounded.
\<close>

section \<open>Values\<close>

definition tab :: "simplex \<Rightarrow> nat \<Rightarrow> nat \<Rightarrow> rat" where
  "tab sx r c = rat_val (sx_rows sx ! r ! c)"

definition trhs :: "simplex \<Rightarrow> nat \<Rightarrow> rat" where
  "trhs sx r = rat_val (sx_rhs sx ! r)"

definition lim_list :: "rational list \<Rightarrow> bool" where
  "lim_list xs \<longleftrightarrow> (\<forall>x \<in> set xs. lim_rat x)"

definition wf_tab :: "simplex \<Rightarrow> bool" where
  "wf_tab sx \<longleftrightarrow> length (sx_rows sx) = sx_m sx \<and> length (sx_rhs sx) = sx_m sx \<and> length (sx_basis sx) = sx_m sx
     \<and> (\<forall>r < sx_m sx. length (sx_rows sx ! r) = sx_nCols sx \<and> lim_list (sx_rows sx ! r) \<and> sx_basis sx ! r < sx_nCols sx)
     \<and> lim_list (sx_rhs sx)"

definition dims :: "simplex \<Rightarrow> nat \<times> nat \<times> nat \<times> nat \<times> nat \<times> nat" where
  "dims sx = (sx_nVars sx, sx_nStruct sx, sx_nSurplus sx, sx_nArt sx, sx_nCols sx, sx_m sx)"

lemma dims_eqD:
  assumes "dims a = dims b"
  shows "sx_nVars a = sx_nVars b" "sx_nStruct a = sx_nStruct b" "sx_nSurplus a = sx_nSurplus b"
    "sx_nArt a = sx_nArt b" "sx_nCols a = sx_nCols b" "sx_m a = sx_m b" "nNonArt a = nNonArt b"
  using assms by (auto simp: dims_def nNonArt_def)

lemma wf_tabD:
  assumes "wf_tab sx" and "r < sx_m sx"
  shows "length (sx_rows sx ! r) = sx_nCols sx" "lim_list (sx_rows sx ! r)" "sx_basis sx ! r < sx_nCols sx"
    "lim_rat (sx_rhs sx ! r)" "\<And>c. c < sx_nCols sx \<Longrightarrow> lim_rat (sx_rows sx ! r ! c)"
    "length (sx_rows sx) = sx_m sx" "length (sx_rhs sx) = sx_m sx" "length (sx_basis sx) = sx_m sx"
  using assms by (auto simp: wf_tab_def lim_list_def)

lemma lim_list_nth: "lim_list xs \<Longrightarrow> i < length xs \<Longrightarrow> lim_rat (xs ! i)"
  by (simp add: lim_list_def)

lemma lim_list_nthI: "(\<And>i. i < length xs \<Longrightarrow> lim_rat (xs ! i)) \<Longrightarrow> lim_list xs"
  by (auto simp: lim_list_def in_set_conv_nth)

lemma sub_scaled1_spec:
  assumes "sub_scaled1 f s d = Inr r" and "lim_rat f" and "lim_rat s" and "lim_rat d"
  shows "lim_rat r \<and> rat_val r = rat_val d - rat_val f * rat_val s"
proof -
  from assms(1) obtain t where t: "ratMul f s = Inr t" "ratSub d t = Inr r"
    by (auto simp: sub_scaled1_def)
  have "lim_rat t" "rat_val t = rat_val f * rat_val s"
    using rat_mul.oper_lim [OF assms(2,3) _ t(1)] rat_mul.oper_val [OF assms(2,3) _ t(1)] by auto
  with rat_sub.oper_lim [OF assms(4) _ _ t(2)] rat_sub.oper_val [OF assms(4) _ _ t(2)] show ?thesis by simp
qed

lemma sub_scaled_spec:
  assumes "sub_scaled f src dst = Inr out" and "lim_rat f" and "lim_list src" and "lim_list dst"
    and "length src = length dst"
  shows "length out = length dst \<and> lim_list out
    \<and> (\<forall>i < length dst. rat_val (out ! i) = rat_val (dst ! i) - rat_val f * rat_val (src ! i))"
proof -
  from assms(1) have all: "list_all2 (\<lambda>(s, d) r. sub_scaled1 f s d = Inr r) (zip src dst) out"
    by (simp add: sub_scaled_def sub_scaled1_def map_res_Inr_iff case_prod_beta')
  then have l: "length out = length dst" using assms(5) by (auto dest: list_all2_lengthD)
  have e: "sub_scaled1 f (src ! i) (dst ! i) = Inr (out ! i)" if "i < length dst" for i
    using list_all2_nthD2 [OF all, of i] that l assms(5) by simp
  have "lim_rat (out ! i) \<and> rat_val (out ! i) = rat_val (dst ! i) - rat_val f * rat_val (src ! i)"
    if "i < length dst" for i
    using sub_scaled1_spec [OF e [OF that] assms(2)] that assms(3-5) lim_list_nth by simp
  with l show ?thesis by (auto intro: lim_list_nthI)
qed

lemma div_row_spec:
  assumes "map_res (\<lambda>q. ratDiv q p) row = Inr out" and "lim_rat p" and "\<not> isZero p" and "lim_list row"
  shows "length out = length row \<and> lim_list out \<and> (\<forall>i < length row. rat_val (out ! i) = rat_val (row ! i) / rat_val p)"
proof -
  have np: "num p \<noteq> 0" using assms(3) by (simp add: isZero_def)
  from assms(1) have all: "list_all2 (\<lambda>q r. ratDiv q p = Inr r) row out" by (simp add: map_res_Inr_iff)
  then have l: "length out = length row" by (auto dest: list_all2_lengthD)
  have "lim_rat (out ! i) \<and> rat_val (out ! i) = rat_val (row ! i) / rat_val p" if "i < length row" for i
    using list_all2_nthD [OF all that] rat_div.oper_lim [OF _ assms(2) np] rat_div.oper_val [OF _ assms(2) np]
      lim_list_nth [OF assms(4) that] by blast
  with l show ?thesis by (auto intro: lim_list_nthI)
qed

section \<open>Pivots\<close>

definition pivoted :: "simplex \<Rightarrow> nat \<Rightarrow> nat \<Rightarrow> simplex \<Rightarrow> bool" where
  "pivoted sx r c sx' \<longleftrightarrow> tab sx r c \<noteq> 0 \<and> dims sx' = dims sx \<and> sx_basis sx' = (sx_basis sx)[r := c]
     \<and> (\<forall>col < sx_nCols sx. tab sx' r col = tab sx r col / tab sx r c)
     \<and> trhs sx' r = trhs sx r / tab sx r c
     \<and> (\<forall>rr < sx_m sx. rr \<noteq> r \<longrightarrow> trhs sx' rr = trhs sx rr - tab sx rr c * trhs sx' r
         \<and> (\<forall>col < sx_nCols sx. tab sx' rr col = tab sx rr col - tab sx rr c * tab sx' r col))"

text \<open>The state inside the row loop of a pivot, after the rows below \<open>k\<close>.\<close>

definition pivoting :: "simplex \<Rightarrow> nat \<Rightarrow> nat \<Rightarrow> nat \<Rightarrow> simplex \<Rightarrow> bool" where
  "pivoting sx r c k s \<longleftrightarrow> wf_tab s \<and> dims s = dims sx \<and> sx_basis s = sx_basis sx
     \<and> sx_rows s ! r = sx_rows sx ! r \<and> sx_rhs s ! r = sx_rhs sx ! r
     \<and> (\<forall>rr < sx_m sx. rr \<noteq> r \<longrightarrow> (if rr < k
          then trhs s rr = trhs sx rr - tab sx rr c * trhs sx r
             \<and> (\<forall>col < sx_nCols sx. tab s rr col = tab sx rr col - tab sx rr c * tab sx r col)
          else sx_rows s ! rr = sx_rows sx ! rr \<and> sx_rhs s ! rr = sx_rhs sx ! rr))"

lemma pivot_row_step:
  assumes "pivoting sx r c k s" and "pivot_row r c k s = Inr s'" and "k < sx_m sx" and "r < sx_m sx" and "c < sx_nCols sx"
  shows "pivoting sx r c (Suc k) s'"
proof (cases "k = r")
  case True
  with assms(1,2) show ?thesis by (auto simp: pivoting_def pivot_row_def less_Suc_eq)
next
  case False
  let ?f = "sx_rows s ! k ! c"
  have inv: "wf_tab s" "dims s = dims sx" "sx_rows s ! k = sx_rows sx ! k" "sx_rhs s ! k = sx_rhs sx ! k"
    "sx_rows s ! r = sx_rows sx ! r" "sx_rhs s ! r = sx_rhs sx ! r"
    using assms(1,3) False by (auto simp: pivoting_def)
  note d = dims_eqD [OF inv(2)]
  have ks: "k < sx_m s" and rs: "r < sx_m s" and cs: "c < sx_nCols s" using assms(3-5) d by simp_all
  note wk = wf_tabD [OF inv(1) ks] and wr = wf_tabD [OF inv(1) rs]
  show ?thesis
  proof (cases "isZero ?f")
    case True
    then have "tab sx k c = 0" using wk(5) [OF cs] inv(3) isZero_iff by (simp add: tab_def)
    moreover have "s' = s" using assms(2) False True by (simp add: pivot_row_def)
    ultimately show ?thesis
      using assms(1) False inv by (auto simp: pivoting_def less_Suc_eq trhs_def tab_def)
  next
    case nz: False
    from assms(2) False nz obtain row b where
      row: "sub_scaled ?f (sx_rows s ! r) (sx_rows s ! k) = Inr row" and
      b: "sub_scaled1 ?f (sx_rhs s ! r) (sx_rhs s ! k) = Inr b" and
      s': "s' = s\<lparr>sx_rows := (sx_rows s)[k := row], sx_rhs := (sx_rhs s)[k := b]\<rparr>"
      by (auto simp: pivot_row_def Let_def mlk_try_Inr_iff)
    note rowp = sub_scaled_spec [OF row wk(5) [OF cs] wr(2) wk(2)]
    note bp = sub_scaled1_spec [OF b wk(5) [OF cs] wr(4) wk(4)]
    have rowl: "length row = sx_nCols s" "lim_list row"
      "\<And>col. col < sx_nCols s \<Longrightarrow> rat_val (row ! col) = tab s k col - tab s k c * tab s r col"
      using rowp wk(1) wr(1) by (auto simp: tab_def)
    have "lim_list ((sx_rhs s)[k := b])"
      using inv(1) bp by (auto simp: wf_tab_def lim_list_def dest: set_update_subset_insert [THEN subsetD])
    then have "wf_tab s'"
      using inv(1) rowl ks unfolding s' wf_tab_def by (auto simp: nth_list_update)
    moreover have "dims s' = dims sx" using inv(2) by (simp add: s' dims_def)
    moreover have "tab s' k col = tab sx k col - tab sx k c * tab sx r col" if "col < sx_nCols sx" for col
      using rowl(3) [of col] that d ks wk(6) inv by (simp add: s' tab_def)
    moreover have "trhs s' k = trhs sx k - tab sx k c * trhs sx r"
      using bp ks wk(7) inv by (simp add: s' trhs_def tab_def)
    ultimately show ?thesis
      using assms(1) False by (auto simp: pivoting_def s' less_Suc_eq tab_def trhs_def)
  qed
qed

lemma pivot_spec:
  assumes "pivot sx r c = Inr sx'" and "wf_tab sx" and "r < sx_m sx" and "c < sx_nCols sx"
  shows "wf_tab sx'" and "pivoted sx r c sx'"
proof -
  let ?p = "sx_rows sx ! r ! c"
  note w = wf_tabD [OF assms(2,3)]
  from assms(1) obtain row b s where nz: "\<not> isZero ?p" and row: "map_res (\<lambda>q. ratDiv q ?p) (sx_rows sx ! r) = Inr row"
    and b: "ratDiv (sx_rhs sx ! r) ?p = Inr b"
    and s: "fold_res (pivot_row r c) [0..<sx_m sx]
       (sx\<lparr>sx_rows := (sx_rows sx)[r := row], sx_rhs := (sx_rhs sx)[r := b]\<rparr>) = Inr s"
    and sx': "sx' = s\<lparr>sx_basis := (sx_basis s)[r := c]\<rparr>"
    by (auto simp: pivot_def Let_def mlk_try_Inr_iff split: if_splits)
  let ?s0 = "sx\<lparr>sx_rows := (sx_rows sx)[r := row], sx_rhs := (sx_rhs sx)[r := b]\<rparr>"
  have lp: "lim_rat ?p" by (rule w(5) [OF assms(4)])
  then have pnz: "rat_val ?p \<noteq> 0" and np: "num ?p \<noteq> 0"
    using nz isZero_iff [OF lp] by (auto simp: isZero_def)
  note rowp = div_row_spec [OF row lp nz w(2)]
  have bp: "lim_rat b" "rat_val b = rat_val (sx_rhs sx ! r) / rat_val ?p"
    using rat_div.oper_lim [OF w(4) lp np b] rat_div.oper_val [OF w(4) lp np b] by auto
  have "lim_list ((sx_rhs sx)[r := b])"
    using assms(2) bp by (auto simp: wf_tab_def lim_list_def dest: set_update_subset_insert [THEN subsetD])
  then have "wf_tab ?s0"
    using assms(2,3) rowp unfolding wf_tab_def by (auto simp: nth_list_update)
  then have "pivoting ?s0 r c 0 ?s0" by (simp add: pivoting_def)
  moreover have "fold_res (pivot_row r c) [0..<k] ?s0 = Inr s \<Longrightarrow> k \<le> sx_m sx \<Longrightarrow> pivoting ?s0 r c k s" for k s
  proof (induction k arbitrary: s)
    case 0
    with calculation show ?case by auto
  next
    case (Suc k)
    then obtain u where u: "fold_res (pivot_row r c) [0..<k] ?s0 = Inr u" "pivot_row r c k u = Inr s"
      by (auto simp: fold_res_append mlk_try_Inr_iff)
    show ?case by (rule pivot_row_step [OF Suc.IH [OF u(1)] u(2)]) (use Suc.prems assms in auto)
  qed
  ultimately have inv: "pivoting ?s0 r c (sx_m sx) s" using s by blast
  have dm: "dims s = dims sx" using inv by (simp add: pivoting_def dims_def)
  note d = dims_eqD [OF dm]
  have ws: "wf_tab s" using inv by (simp add: pivoting_def)
  then show "wf_tab sx'" using assms(3,4) d by (auto simp: sx' wf_tab_def nth_list_update)
  have t0: "tab ?s0 r col = tab sx r col / tab sx r c" if "col < sx_nCols sx" for col
    using rowp that w(1,6) assms(3) by (simp add: tab_def)
  have t1: "trhs ?s0 r = trhs sx r / tab sx r c" using bp w(7) assms(3) by (simp add: trhs_def tab_def)
  have tr: "tab s r col = tab ?s0 r col" "trhs s r = trhs ?s0 r" for col
    using inv by (simp_all add: pivoting_def tab_def trhs_def)
  have t2: "tab ?s0 rr col = tab sx rr col" "trhs ?s0 rr = trhs sx rr" if "rr \<noteq> r" for rr col
    using that by (simp_all add: tab_def trhs_def)
  have sx'v: "tab sx' = tab s" "trhs sx' = trhs s" "dims sx' = dims sx" "sx_basis sx' = (sx_basis sx)[r := c]"
    using inv dm by (auto simp: sx' tab_def trhs_def pivoting_def dims_def fun_eq_iff)
  have other: "trhs s rr = trhs sx rr - tab sx rr c * trhs ?s0 r"
    "col < sx_nCols sx \<Longrightarrow> tab s rr col = tab sx rr col - tab sx rr c * tab ?s0 r col"
    if "rr < sx_m sx" "rr \<noteq> r" for rr col
    using inv that t2 by (auto simp: pivoting_def)
  have "tab sx r c \<noteq> 0" using pnz by (simp add: tab_def)
  then show "pivoted sx r c sx'"
    unfolding pivoted_def sx'v tr using t0 t1 other by simp
qed

section \<open>What a pivot keeps\<close>

definition dot :: "nat \<Rightarrow> (nat \<Rightarrow> rat) \<Rightarrow> (nat \<Rightarrow> rat) \<Rightarrow> rat" where
  "dot n f y = (\<Sum>c<n. f c * y c)"

lemma dot_cong: "(\<And>c. c < n \<Longrightarrow> f c = g c) \<Longrightarrow> dot n f y = dot n g y"
  by (simp add: dot_def)

lemma dot_divide: "dot n (\<lambda>c. f c / p) y = dot n f y / p"
  by (simp add: dot_def sum_divide_distrib)

lemma dot_minus: "dot n (\<lambda>c. f c - k * g c) y = dot n f y - k * dot n g y"
  by (simp add: dot_def left_diff_distrib sum_subtractf sum_distrib_left mult.assoc)

definition sol :: "simplex \<Rightarrow> (nat \<Rightarrow> rat) \<Rightarrow> bool" where
  "sol sx y \<longleftrightarrow> (\<forall>r < sx_m sx. dot (sx_nCols sx) (tab sx r) y = trhs sx r)"

definition unit_basis :: "simplex \<Rightarrow> bool" where
  "unit_basis sx \<longleftrightarrow> (\<forall>i < sx_m sx. \<forall>j < sx_m sx. tab sx i (sx_basis sx ! j) = (if i = j then 1 else 0))"

definition mirror :: "simplex \<Rightarrow> bool" where
  "mirror sx \<longleftrightarrow> (\<forall>r < sx_m sx. \<forall>k. 2 * k + 1 < sx_nStruct sx \<longrightarrow> tab sx r (2 * k + 1) = - tab sx r (2 * k))"

definition nonneg :: "simplex \<Rightarrow> bool" where
  "nonneg sx \<longleftrightarrow> (\<forall>r < sx_m sx. 0 \<le> trhs sx r)"

definition art_ok :: "simplex \<Rightarrow> bool" where
  "art_ok sx \<longleftrightarrow> (\<forall>r < sx_m sx. sx_basis sx ! r \<ge> nNonArt sx \<longrightarrow>
     trhs sx r = 0 \<and> (\<forall>c < nNonArt sx. tab sx r c = 0))"

definition tinv :: "simplex \<Rightarrow> bool" where
  "tinv sx \<longleftrightarrow> wf_tab sx \<and> unit_basis sx \<and> mirror sx \<and> nonneg sx
     \<and> sx_nStruct sx \<le> sx_nCols sx \<and> nNonArt sx \<le> sx_nCols sx"

lemma pivoted_row:
  assumes "pivoted sx r c sx'" and "rr < sx_m sx"
  shows "dot (sx_nCols sx) (tab sx' rr) y = (if rr = r then dot (sx_nCols sx) (tab sx r) y / tab sx r c
    else dot (sx_nCols sx) (tab sx rr) y - tab sx rr c * dot (sx_nCols sx) (tab sx' r) y)"
proof (cases "rr = r")
  case True
  have "dot (sx_nCols sx) (tab sx' r) y = dot (sx_nCols sx) (\<lambda>col. tab sx r col / tab sx r c) y"
    using assms(1) by (intro dot_cong) (simp add: pivoted_def)
  with True show ?thesis by (simp add: dot_divide)
next
  case False
  have "dot (sx_nCols sx) (tab sx' rr) y = dot (sx_nCols sx) (\<lambda>col. tab sx rr col - tab sx rr c * tab sx' r col) y"
    using assms False by (intro dot_cong) (simp add: pivoted_def)
  with False show ?thesis by (simp add: dot_minus)
qed

lemma pivoted_sol:
  assumes p: "pivoted sx r c sx'" and r: "r < sx_m sx"
  shows "sol sx' y \<longleftrightarrow> sol sx y"
proof -
  have d: "sx_m sx' = sx_m sx" "sx_nCols sx' = sx_nCols sx" and nz: "tab sx r c \<noteq> 0"
    using p dims_eqD[of sx' sx] by (auto simp: pivoted_def)
  let ?D = "\<lambda>s i. dot (sx_nCols sx) (tab s i) y"
  have rowr: "?D sx' r = trhs sx' r \<longleftrightarrow> ?D sx r = trhs sx r"
  proof -
    have "?D sx' r = ?D sx r / tab sx r c" "trhs sx' r = trhs sx r / tab sx r c"
      using pivoted_row [OF p r, of y] p by (simp_all add: pivoted_def)
    then show ?thesis using nz by simp
  qed
  have other: "?D sx' i = trhs sx' i \<longleftrightarrow> ?D sx i = trhs sx i"
    if "i < sx_m sx" "i \<noteq> r" "?D sx' r = trhs sx' r" for i
    using pivoted_row [OF p that(1), of y] p that by (simp add: pivoted_def)
  show ?thesis unfolding sol_def d using rowr other r by metis
qed

lemma pivoted_basis:
  assumes "pivoted sx r c sx'" and "wf_tab sx" and "r < sx_m sx" and "j < sx_m sx"
  shows "sx_basis sx' ! j = (if j = r then c else sx_basis sx ! j)"
  using assms by (simp add: pivoted_def wf_tab_def nth_list_update)

lemma pivoted_unit:
  assumes p: "pivoted sx r c sx'" and wf: "wf_tab sx" and r: "r < sx_m sx" and c: "c < sx_nCols sx" and u: "unit_basis sx"
  shows "unit_basis sx'"
  unfolding unit_basis_def
proof (intro allI impI)
  fix i j
  assume ij: "i < sx_m sx'" "j < sx_m sx'"
  have d: "sx_m sx' = sx_m sx" and nz: "tab sx r c \<noteq> 0" using p dims_eqD [of sx' sx] by (auto simp: pivoted_def)
  note b = pivoted_basis [OF p wf r]
  have bj: "sx_basis sx ! j < sx_nCols sx" using wf_tabD(3) [OF wf, of j] ij d by simp
  have rr: "tab sx' r col = tab sx r col / tab sx r c" if "col < sx_nCols sx" for col
    using p that by (simp add: pivoted_def)
  have ii: "tab sx' i col = tab sx i col - tab sx i c * tab sx' r col" if "i \<noteq> r" "col < sx_nCols sx" for col
    using p that ij d by (simp add: pivoted_def)
  show "tab sx' i (sx_basis sx' ! j) = (if i = j then 1 else 0)"
  proof (cases "j = r")
    case True
    then show ?thesis using b [of j] ij d rr [OF c] ii [OF _ c] nz r by (cases "i = r") auto
  next
    case False
    then have "tab sx' r (sx_basis sx ! j) = 0" using rr [OF bj] u r ij d by (simp add: unit_basis_def)
    with False show ?thesis using b [of j] ij d ii [OF _ bj] u by (cases "i = r") (auto simp: unit_basis_def)
  qed
qed

lemma pivoted_mirror:
  assumes p: "pivoted sx r c sx'" and r: "r < sx_m sx" and mi: "mirror sx" and le: "sx_nStruct sx \<le> sx_nCols sx"
  shows "mirror sx'"
  unfolding mirror_def
proof (intro allI impI)
  fix i k
  have d: "sx_m sx' = sx_m sx" "sx_nStruct sx' = sx_nStruct sx" using p dims_eqD [of sx' sx] by (auto simp: pivoted_def)
  assume i: "i < sx_m sx'" and k: "2 * k + 1 < sx_nStruct sx'"
  then have cols: "2 * k + 1 < sx_nCols sx" "2 * k < sx_nCols sx" using d le by auto
  have m: "tab sx j (2 * k + 1) = - tab sx j (2 * k)" if "j < sx_m sx" for j
    using mi that k d by (simp add: mirror_def)
  have rr: "tab sx' r (2 * k + 1) = - tab sx' r (2 * k)"
    using p cols m [OF r] by (simp add: pivoted_def)
  show "tab sx' i (2 * k + 1) = - tab sx' i (2 * k)"
  proof (cases "i = r")
    case False
    then have "tab sx' i (2 * k + 1) = tab sx i (2 * k + 1) - tab sx i c * tab sx' r (2 * k + 1)"
      "tab sx' i (2 * k) = tab sx i (2 * k) - tab sx i c * tab sx' r (2 * k)"
      using p cols i d by (auto simp: pivoted_def)
    with rr m [of i] i d show ?thesis by simp
  qed (use rr in simp)
qed

lemma pivoted_nonneg:
  assumes p: "pivoted sx r c sx'" and n: "nonneg sx" and r: "r < sx_m sx" and pos: "0 < tab sx r c"
    and ratio: "\<And>i. i < sx_m sx \<Longrightarrow> 0 < tab sx i c \<Longrightarrow> trhs sx r / tab sx r c \<le> trhs sx i / tab sx i c"
  shows "nonneg sx'"
  unfolding nonneg_def
proof (intro allI impI)
  fix i assume i: "i < sx_m sx'"
  have d: "sx_m sx' = sx_m sx" using p dims_eqD [of sx' sx] by (auto simp: pivoted_def)
  have br: "trhs sx' r = trhs sx r / tab sx r c" "0 \<le> trhs sx' r"
    using p n r pos by (auto simp: pivoted_def nonneg_def)
  show "0 \<le> trhs sx' i"
  proof (cases "i = r")
    case False
    then have e: "trhs sx' i = trhs sx i - tab sx i c * trhs sx' r" using p i d by (simp add: pivoted_def)
    have ni: "0 \<le> trhs sx i" using n i d by (simp add: nonneg_def)
    show ?thesis
    proof (cases "0 < tab sx i c")
      case True
      with ratio [of i] i d have "trhs sx' r \<le> trhs sx i / tab sx i c" by (simp add: br)
      with True show ?thesis unfolding e by (simp add: pos_le_divide_eq mult.commute)
    next
      case False
      then have "tab sx i c * trhs sx' r \<le> 0" using br(2) by (simp add: mult_nonpos_nonneg)
      with ni show ?thesis unfolding e by linarith
    qed
  qed (use br in simp)
qed

lemma pivoted_art_ok:
  assumes p: "pivoted sx r c sx'" and wf: "wf_tab sx" and r: "r < sx_m sx" and c: "c < nNonArt sx" and a: "art_ok sx"
    and le: "nNonArt sx \<le> sx_nCols sx"
  shows "art_ok sx'"
  unfolding art_ok_def
proof (intro allI impI)
  fix i
  have d: "sx_m sx' = sx_m sx" "nNonArt sx' = nNonArt sx" using p dims_eqD [of sx' sx] by (auto simp: pivoted_def)
  assume i: "i < sx_m sx'" and b: "nNonArt sx' \<le> sx_basis sx' ! i"
  then have ir: "i \<noteq> r" "nNonArt sx \<le> sx_basis sx ! i"
    using pivoted_basis [OF p wf r, of i] d c by (auto split: if_splits)
  with a i d have z: "trhs sx i = 0" "\<forall>c < nNonArt sx. tab sx i c = 0" by (auto simp: art_ok_def)
  with p i d ir c le show "trhs sx' i = 0 \<and> (\<forall>c < nNonArt sx'. tab sx' i c = 0)"
    by (auto simp: pivoted_def)
qed

section \<open>The objective row\<close>

definition zval :: "rational list \<Rightarrow> nat \<Rightarrow> rat" where
  "zval z c = rat_val (z ! c)"

definition zinv :: "simplex \<Rightarrow> (nat \<Rightarrow> rat) \<Rightarrow> rational list \<times> rational \<Rightarrow> bool" where
  "zinv sx cost zo \<longleftrightarrow> length (fst zo) = sx_nCols sx \<and> lim_list (fst zo) \<and> lim_rat (snd zo)
     \<and> (\<forall>y. sol sx y \<longrightarrow> dot (sx_nCols sx) cost y = dot (sx_nCols sx) (zval (fst zo)) y - rat_val (snd zo))"

definition zbasis :: "nat \<Rightarrow> simplex \<Rightarrow> rational list \<Rightarrow> bool" where
  "zbasis k sx z \<longleftrightarrow> (\<forall>r < k. zval z (sx_basis sx ! r) = 0)"

lemma push_objective_spec:
  assumes push: "push_objective sx r col zo = Inr zo'" and inv: "zinv sx cost zo" and wf: "wf_tab sx"
    and r: "r < sx_m sx" and col: "col < sx_nCols sx"
  shows "zinv sx cost zo'"
    and "\<And>c. c < sx_nCols sx \<Longrightarrow> zval (fst zo') c = zval (fst zo) c - zval (fst zo) col * tab sx r c"
proof -
  obtain z obj where zo: "zo = (z, obj)" by fastforce
  note w = wf_tabD [OF wf r]
  have z: "length z = sx_nCols sx" "lim_list z" "lim_rat obj" and lc: "lim_rat (z ! col)"
    using inv col zo by (auto simp: zinv_def lim_list_nth)
  have "\<exists>z' obj'. zo' = (z', obj') \<and> length z' = sx_nCols sx \<and> lim_list z' \<and> lim_rat obj'
      \<and> (\<forall>c < sx_nCols sx. zval z' c = zval z c - zval z col * tab sx r c)
      \<and> rat_val obj' = rat_val obj - zval z col * trhs sx r"
  proof (cases "isZero (z ! col)")
    case True
    then have "zval z col = 0" using isZero_iff [OF lc] by (simp add: zval_def)
    then show ?thesis using push True z by (auto simp: push_objective_def zo)
  next
    case False
    with push obtain z' obj' where e: "sub_scaled (z ! col) (sx_rows sx ! r) z = Inr z'"
      "sub_scaled1 (z ! col) (sx_rhs sx ! r) obj = Inr obj'" "zo' = (z', obj')"
      by (auto simp: push_objective_def zo Let_def mlk_try_Inr_iff)
    from sub_scaled_spec [OF e(1) lc w(2) z(2)] sub_scaled1_spec [OF e(2) lc w(4) z(3)] z(1) w(1) e(3)
    show ?thesis by (simp add: zval_def tab_def trhs_def)
  qed
  then obtain z' obj' where e: "zo' = (z', obj')" "length z' = sx_nCols sx" "lim_list z'" "lim_rat obj'"
    and v: "\<forall>c < sx_nCols sx. zval z' c = zval z c - zval z col * tab sx r c"
    and o: "rat_val obj' = rat_val obj - zval z col * trhs sx r" by blast
  have "dot (sx_nCols sx) cost y = dot (sx_nCols sx) (zval z') y - rat_val obj'" if "sol sx y" for y
  proof -
    have "dot (sx_nCols sx) (zval z') y = dot (sx_nCols sx) (\<lambda>c. zval z c - zval z col * tab sx r c) y"
      using v by (intro dot_cong) simp
    also have "\<dots> = dot (sx_nCols sx) (zval z) y - zval z col * trhs sx r"
      using that r by (simp add: dot_minus sol_def)
    finally show ?thesis using inv that o by (simp add: zinv_def zo)
  qed
  with e show "zinv sx cost zo'" by (simp add: zinv_def)
  show "\<And>c. c < sx_nCols sx \<Longrightarrow> zval (fst zo') c = zval (fst zo) c - zval (fst zo) col * tab sx r c"
    using v e zo by simp
qed

lemma canonicalize_spec:
  assumes run: "canonicalize sx cost = Inr zo" and inv: "tinv sx"
    and cost: "length cost = sx_nCols sx" "lim_list cost"
  shows "zinv sx (zval cost) zo \<and> zbasis (sx_m sx) sx (fst zo)"
proof -
  let ?f = "\<lambda>r. push_objective sx r (sx_basis sx ! r)"
  have wf: "wf_tab sx" and u: "unit_basis sx" using inv by (auto simp: tinv_def)
  have "fold_res ?f [0..<k] (cost, rat_zero) = Inr zo \<Longrightarrow> k \<le> sx_m sx \<Longrightarrow>
      zinv sx (zval cost) zo \<and> zbasis k sx (fst zo)" for k zo
  proof (induction k arbitrary: zo)
    case 0
    with cost show ?case by (auto simp: zinv_def zbasis_def)
  next
    case (Suc k)
    then obtain u where u: "fold_res ?f [0..<k] (cost, rat_zero) = Inr u" "?f k u = Inr zo"
      by (auto simp: fold_res_append mlk_try_Inr_iff)
    have k: "k < sx_m sx" using Suc.prems by simp
    note IH = Suc.IH [OF u(1)]
    have iu: "zinv sx (zval cost) u" "zbasis k sx (fst u)" using IH k by auto
    note ps = push_objective_spec [OF u(2) iu(1) wf k wf_tabD(3) [OF wf k]]
    have "zval (fst zo) (sx_basis sx ! r) = 0" if "r < Suc k" for r
    proof -
      have rm: "r < sx_m sx" using that k by simp
      have "tab sx k (sx_basis sx ! r) = (if k = r then 1 else 0)"
        using \<open>unit_basis sx\<close> k rm by (simp add: unit_basis_def)
      then show ?thesis
        using ps(2) [OF wf_tabD(3) [OF wf rm]] iu(2) that by (cases "r = k") (auto simp: zbasis_def)
    qed
    with ps(1) show ?case by (simp add: zbasis_def)
  qed
  with run show ?thesis by (simp add: canonicalize_def)
qed

section \<open>Choosing the pivot\<close>

lemma choose_enter_Some:
  assumes "choose_enter sx me z = Some e" and "length z = sx_nCols sx" and "lim_list z"
  shows "e < me \<and> e < sx_nCols sx \<and> zval z e < 0"
proof -
  have "e < length (take (min me (sx_nCols sx)) z)" "sign (take (min me (sx_nCols sx)) z ! e) < 0"
    using find_index_Some assms(1) by (fastforce simp: choose_enter_def)+
  then have "e < me" "e < sx_nCols sx" "sign (z ! e) < 0" using assms(2) by simp_all
  then show ?thesis using sign_neg_iff lim_list_nth [OF assms(3)] assms(2) by (simp add: zval_def)
qed

lemma choose_enter_None:
  assumes "choose_enter sx me z = None" and "length z = sx_nCols sx" and "lim_list z"
    and "c < me" and "c < sx_nCols sx"
  shows "0 \<le> zval z c"
proof -
  have "z ! c \<in> set (take (min me (sx_nCols sx)) z)"
    using assms(2,4,5) nth_mem [of c "take (min me (sx_nCols sx)) z"] by simp
  then have "\<not> sign (z ! c) < 0" using assms(1) by (auto simp: choose_enter_def find_index_None)
  then show ?thesis
    using sign_neg_iff lim_list_nth [OF assms(3), of c] assms(2,5) by (simp add: zval_def not_less)
qed

definition best_ratio :: "simplex \<Rightarrow> nat \<Rightarrow> nat \<Rightarrow> (nat \<times> rational) option \<Rightarrow> bool" where
  "best_ratio sx e k best \<longleftrightarrow> (case best of
     None \<Rightarrow> \<forall>i < k. tab sx i e \<le> 0
   | Some (r, q) \<Rightarrow> r < k \<and> 0 < tab sx r e \<and> lim_rat q \<and> rat_val q = trhs sx r / tab sx r e
       \<and> (\<forall>i < k. 0 < tab sx i e \<longrightarrow> rat_val q \<le> trhs sx i / tab sx i e))"

lemma ratio_step_spec:
  assumes step: "ratio_step sx e k best = Inr best'" and inv: "best_ratio sx e k best" and wf: "wf_tab sx"
    and k: "k < sx_m sx" and e: "e < sx_nCols sx"
  shows "best_ratio sx e (Suc k) best'"
proof -
  let ?piv = "sx_rows sx ! k ! e"
  note w = wf_tabD [OF wf k]
  have lp: "lim_rat ?piv" by (rule w(5) [OF e])
  show ?thesis
  proof (cases "sign ?piv \<le> 0")
    case True
    then have "tab sx k e \<le> 0" using sign_pos_iff [OF lp] by (simp add: tab_def not_less [symmetric])
    moreover have "best' = best" using step True by (simp add: ratio_step_def)
    ultimately show ?thesis using inv by (auto simp: best_ratio_def less_Suc_eq split: option.splits)
  next
    case False
    then have pos: "0 < tab sx k e" using sign_pos_iff [OF lp] by (simp add: tab_def)
    then have np: "num ?piv \<noteq> 0" using rat_val_zero_iff [OF lp] by (auto simp: tab_def)
    from step False obtain q where q: "ratDiv (sx_rhs sx ! k) ?piv = Inr q"
      and b: "(case best of None \<Rightarrow> Inr (Some (k, q))
       | Some (leave, bestRatio) \<Rightarrow> if ratLess q bestRatio then Inr (Some (k, q))
           else if \<not> ratLess bestRatio q \<and> sx_basis sx ! k < sx_basis sx ! leave
           then Inr (Some (k, bestRatio)) else Inr best) = (Inr best' :: (nat \<times> rational) option result)"
      by (auto simp: ratio_step_def Let_def mlk_try_Inr_iff)
    have ql: "lim_rat q" "rat_val q = trhs sx k / tab sx k e"
      using rat_div.oper_lim [OF w(4) lp np q] rat_div.oper_val [OF w(4) lp np q] by (auto simp: trhs_def tab_def)
    show ?thesis
    proof (cases best)
      case None
      then have "\<forall>i < k. \<not> 0 < tab sx i e" using inv by (simp add: best_ratio_def not_less)
      with None b ql pos show ?thesis by (auto simp: best_ratio_def less_Suc_eq)
    next
      case (Some lb)
      obtain l br where lb: "lb = (l, br)" by fastforce
      have il: "l < k" "0 < tab sx l e" "lim_rat br" "rat_val br = trhs sx l / tab sx l e"
        "\<forall>i < k. 0 < tab sx i e \<longrightarrow> rat_val br \<le> trhs sx i / tab sx i e"
        using inv by (auto simp: best_ratio_def Some lb)
      note lt = ratLess_iff [OF ql(1) il(3)] and gt = ratLess_iff [OF il(3) ql(1)]
      consider (less) "rat_val q < rat_val br" "best' = Some (k, q)"
        | (tie) "rat_val q = rat_val br" "best' = Some (k, br)"
        | (keep) "rat_val br \<le> rat_val q" "best' = best"
        using b by (auto simp: Some lb lt gt split: if_splits)
      then show ?thesis
      proof cases
        case less
        then have "\<forall>i < k. 0 < tab sx i e \<longrightarrow> rat_val q \<le> trhs sx i / tab sx i e" using il(5) by force
        with less ql pos show ?thesis by (auto simp: best_ratio_def less_Suc_eq)
      next
        case tie
        with ql pos il show ?thesis by (auto simp: best_ratio_def less_Suc_eq)
      next
        case keep
        with ql pos il show ?thesis by (auto simp: best_ratio_def less_Suc_eq Some lb)
      qed
    qed
  qed
qed

lemma choose_leave_spec:
  assumes "choose_leave sx e = Inr best" and wf: "wf_tab sx" and e: "e < sx_nCols sx"
  shows "best_ratio sx e (sx_m sx) best"
proof -
  have "fold_res (ratio_step sx e) [0..<k] None = Inr best \<Longrightarrow> k \<le> sx_m sx \<Longrightarrow> best_ratio sx e k best" for k best
  proof (induction k arbitrary: best)
    case 0
    then show ?case by (auto simp: best_ratio_def)
  next
    case (Suc k)
    then obtain u where u: "fold_res (ratio_step sx e) [0..<k] None = Inr u" "ratio_step sx e k u = Inr best"
      by (auto simp: fold_res_append mlk_try_Inr_iff)
    show ?case by (rule ratio_step_spec [OF u(2) Suc.IH [OF u(1)] wf]) (use Suc.prems e in auto)
  qed
  with assms(1) show ?thesis by (simp add: choose_leave_def)
qed

section \<open>The loop\<close>

definition verdict :: "lp_status \<Rightarrow> nat \<Rightarrow> simplex \<Rightarrow> rational list \<Rightarrow> bool" where
  "verdict st me sx z \<longleftrightarrow>
     (st = LpOptimal \<and> (\<forall>c. c < me \<longrightarrow> c < sx_nCols sx \<longrightarrow> 0 \<le> zval z c))
   \<or> (st = LpUnbounded \<and> (\<exists>e < sx_nCols sx. e < me \<and> zval z e < 0 \<and> (\<forall>r < sx_m sx. tab sx r e \<le> 0)))"

definition reached :: "nat \<Rightarrow> simplex \<Rightarrow> simplex \<Rightarrow> bool" where
  "reached me sx sx' \<longleftrightarrow> tinv sx' \<and> dims sx' = dims sx \<and> (\<forall>y. sol sx' y \<longleftrightarrow> sol sx y)
     \<and> (me = nNonArt sx \<longrightarrow> art_ok sx \<longrightarrow> art_ok sx')"

lemma simplex_step:
  assumes inv: "tinv sx" and z: "zinv sx cost zo" "zbasis (sx_m sx) sx (fst zo)"
    and e: "choose_enter sx me (fst zo) = Some e" and l: "choose_leave sx e = Inr (Some (r, q))"
    and p: "pivot sx r e = Inr sx'" and o: "push_objective sx' r e zo = Inr zo'"
  shows "reached me sx sx'" and "zinv sx' cost zo'" and "zbasis (sx_m sx') sx' (fst zo')"
proof -
  have wf: "wf_tab sx" using inv by (simp add: tinv_def)
  have zl: "length (fst zo) = sx_nCols sx" "lim_list (fst zo)" using z(1) by (auto simp: zinv_def)
  note en = choose_enter_Some [OF e zl]
  have ec: "e < sx_nCols sx" using en by simp
  from choose_leave_spec [OF l wf ec] have r: "r < sx_m sx" "0 < tab sx r e"
    and ratio: "\<And>i. i < sx_m sx \<Longrightarrow> 0 < tab sx i e \<Longrightarrow> trhs sx r / tab sx r e \<le> trhs sx i / tab sx i e"
    by (auto simp: best_ratio_def)
  note ps = pivot_spec [OF p wf r(1) ec]
  have dm: "dims sx' = dims sx" using ps(2) by (simp add: pivoted_def)
  note d = dims_eqD [OF dm]
  have u': "unit_basis sx'" using pivoted_unit [OF ps(2) wf r(1) ec] inv by (simp add: tinv_def)
  have t': "tinv sx'"
    using inv ps u' d pivoted_mirror [OF ps(2) r(1)] pivoted_nonneg [OF ps(2) _ r ratio]
    by (simp add: tinv_def)
  moreover have "art_ok sx'" if "me = nNonArt sx" "art_ok sx"
    using pivoted_art_ok [OF ps(2) wf r(1) _ that(2)] en that(1) inv by (simp add: tinv_def)
  ultimately show "reached me sx sx'"
    using dm pivoted_sol [OF ps(2) r(1)] by (simp add: reached_def)
  have zi: "zinv sx' cost zo" using z(1) d pivoted_sol [OF ps(2) r(1)] by (simp add: zinv_def)
  have r': "r < sx_m sx'" and ec': "e < sx_nCols sx'" using r ec d by simp_all
  note po = push_objective_spec [OF o zi ps(1) r' ec']
  show "zinv sx' cost zo'" by (rule po(1))
  show "zbasis (sx_m sx') sx' (fst zo')"
    unfolding zbasis_def
  proof (intro allI impI)
    fix j assume j: "j < sx_m sx'"
    have bj: "sx_basis sx' ! j < sx_nCols sx'" by (rule wf_tabD(3) [OF ps(1) j])
    have b: "sx_basis sx' ! j = (if j = r then e else sx_basis sx ! j)"
      using pivoted_basis [OF ps(2) wf r(1), of j] j d by simp
    have t: "tab sx' r (sx_basis sx' ! j) = (if r = j then 1 else 0)"
      using u' r' j by (simp add: unit_basis_def)
    show "zval (fst zo') (sx_basis sx' ! j) = 0"
      using po(2) [OF bj] t b z(2) j d by (cases "j = r") (auto simp: zbasis_def)
  qed
qed

lemma reached_trans: "reached me a b \<Longrightarrow> reached me b c \<Longrightarrow> reached me a c"
  using dims_eqD(7) [of b a] by (auto simp: reached_def)

lemma simplex_loop_spec:
  assumes "simplex_loop fuel me sx zo = Inr (st, sx')"
    and "tinv sx" and "zinv sx cost zo" and "zbasis (sx_m sx) sx (fst zo)"
  shows "reached me sx sx' \<and> (\<exists>zo'. zinv sx' cost zo' \<and> zbasis (sx_m sx') sx' (fst zo') \<and> verdict st me sx' (fst zo'))"
  using assms
proof (induction fuel arbitrary: sx zo)
  case 0
  then show ?case by simp
next
  case (Suc fuel)
  have zl: "length (fst zo) = sx_nCols sx" "lim_list (fst zo)" using Suc.prems(3) by (auto simp: zinv_def)
  have refl: "reached me sx sx" using Suc.prems(2) by (simp add: reached_def)
  show ?case
  proof (cases "choose_enter sx me (fst zo)")
    case None
    then have "st = LpOptimal" "sx' = sx" using Suc.prems(1) by auto
    moreover have "verdict LpOptimal me sx (fst zo)"
      using choose_enter_None [OF None zl] by (simp add: verdict_def)
    ultimately show ?thesis using refl Suc.prems(3,4) by blast
  next
    case (Some e)
    note en = choose_enter_Some [OF Some zl]
    from Suc.prems(1) Some obtain lv where lv: "choose_leave sx e = Inr lv"
      and k: "(case lv of None \<Rightarrow> Inr (LpUnbounded, sx)
          | Some (r, _) \<Rightarrow> mlk_try (pivot sx r e) (\<lambda>sx. mlk_try (push_objective sx r e zo) (simplex_loop fuel me sx)))
          = Inr (st, sx')"
      by (auto simp: mlk_try_Inr_iff)
    have wf: "wf_tab sx" using Suc.prems(2) by (simp add: tinv_def)
    show ?thesis
    proof (cases lv)
      case None
      then have "\<forall>r < sx_m sx. tab sx r e \<le> 0"
        using choose_leave_spec [OF lv wf] en by (simp add: best_ratio_def)
      then have "verdict LpUnbounded me sx (fst zo)" using en by (auto simp: verdict_def)
      moreover have "st = LpUnbounded" "sx' = sx" using k None by auto
      ultimately show ?thesis using refl Suc.prems(3,4) by blast
    next
      case (Some rq)
      obtain r q where rq: "rq = (r, q)" by fastforce
      with k Some obtain s zo1 where s: "pivot sx r e = Inr s" "push_objective s r e zo = Inr zo1"
        "simplex_loop fuel me s zo1 = Inr (st, sx')" by (auto simp: mlk_try_Inr_iff)
      note st = simplex_step [OF Suc.prems(2-4) \<open>choose_enter sx me (fst zo) = Some e\<close> lv [unfolded Some rq] s(1,2)]
      have "tinv s" using st(1) by (simp add: reached_def)
      from Suc.IH [OF s(3) this st(2,3)] reached_trans [OF st(1)] show ?thesis by blast
    qed
  qed
qed

lemma runSimplex_spec:
  assumes "runSimplex sx cost me = Inr (st, sx')" and "tinv sx" and "length cost = sx_nCols sx" and "lim_list cost"
  shows "reached me sx sx' \<and> (\<exists>zo'. zinv sx' (zval cost) zo' \<and> zbasis (sx_m sx') sx' (fst zo') \<and> verdict st me sx' (fst zo'))"
proof -
  from assms(1) obtain zo where zo: "canonicalize sx cost = Inr zo"
    "simplex_loop (kLpMaxVars * 4) me sx zo = Inr (st, sx')" by (auto simp: runSimplex_def mlk_try_Inr_iff)
  from simplex_loop_spec [OF zo(2) assms(2)] canonicalize_spec [OF zo(1) assms(2-4)] show ?thesis by blast
qed

end
