(* ===== verification/Lp_Correct.thy ===== *)
theory Lp_Correct
  imports Lp_Tableau
begin

text \<open>
  The solver is exact: a reported optimum is feasible and no feasible point has a smaller
  objective, infeasibility means that no rational point satisfies the constraints, and
  unboundedness that feasible points reach arbitrarily small objectives. The initial tableau
  is the program with free variables split, surplus and artificial columns attached; phase 1
  minimises the artificial part and phase 2 the objective with artificials at zero.
\<close>

section \<open>The basic solution and the unbounded ray\<close>

lemma dot_basis:
  assumes "\<And>r. r < m \<Longrightarrow> b r < n"
  shows "dot n f (\<lambda>c. \<Sum>r<m. if b r = c then v r else 0) = (\<Sum>r<m. f (b r) * v r)"
proof -
  have "dot n f (\<lambda>c. \<Sum>r<m. if b r = c then v r else 0) = (\<Sum>c<n. \<Sum>r<m. if b r = c then f c * v r else 0)"
    by (simp add: dot_def sum_distrib_left if_distrib cong: if_cong)
  also have "\<dots> = (\<Sum>r<m. \<Sum>c<n. if b r = c then f c * v r else 0)" by (rule sum.swap)
  also have "\<dots> = (\<Sum>r<m. f (b r) * v r)" using assms by (intro sum.cong) auto
  finally show ?thesis .
qed

definition ray :: "simplex \<Rightarrow> nat \<Rightarrow> rat \<Rightarrow> nat \<Rightarrow> rat" where
  "ray sx e t c = (\<Sum>r<sx_m sx. if sx_basis sx ! r = c then trhs sx r - t * tab sx r e else 0) + (if c = e then t else 0)"

definition bsol :: "simplex \<Rightarrow> nat \<Rightarrow> rat" where
  "bsol sx c = (\<Sum>r<sx_m sx. if sx_basis sx ! r = c then trhs sx r else 0)"

lemma dot_add: "dot n f (\<lambda>c. y c + z c) = dot n f y + dot n f z"
  by (simp add: dot_def distrib_left sum.distrib)

lemma dot_ray:
  assumes "tinv sx" and "e < sx_nCols sx"
  shows "dot (sx_nCols sx) f (ray sx e t)
     = (\<Sum>r<sx_m sx. f (sx_basis sx ! r) * (trhs sx r - t * tab sx r e)) + t * f e"
proof -
  have b: "\<And>r. r < sx_m sx \<Longrightarrow> sx_basis sx ! r < sx_nCols sx"
    using assms(1) wf_tabD(3) by (auto simp: tinv_def)
  have "dot (sx_nCols sx) f (\<lambda>c. if c = e then t else 0) = t * f e"
    using assms(2) by (simp add: dot_def if_distrib cong: if_cong)
  then show ?thesis
    using dot_basis [of "sx_m sx" "\<lambda>r. sx_basis sx ! r" "sx_nCols sx" f "\<lambda>r. trhs sx r - t * tab sx r e"] b
    by (simp add: ray_def [abs_def] dot_add)
qed

lemma dot_bsol:
  assumes "tinv sx"
  shows "dot (sx_nCols sx) f (bsol sx) = (\<Sum>r<sx_m sx. f (sx_basis sx ! r) * trhs sx r)"
  unfolding bsol_def [abs_def] using assms wf_tabD(3) by (intro dot_basis) (auto simp: tinv_def)

lemma unit_sum:
  assumes "unit_basis sx" and "i < sx_m sx"
  shows "(\<Sum>r<sx_m sx. tab sx i (sx_basis sx ! r) * v r) = v i"
proof -
  have "(\<Sum>r<sx_m sx. tab sx i (sx_basis sx ! r) * v r) = (\<Sum>r<sx_m sx. if i = r then v r else 0)"
    using assms by (intro sum.cong) (auto simp: unit_basis_def)
  then show ?thesis using assms(2) by simp
qed

lemma bsol_sol: "tinv sx \<Longrightarrow> sol sx (bsol sx)"
  using unit_sum [of sx] by (auto simp: sol_def dot_bsol tinv_def)

lemma bsol_nonneg: "tinv sx \<Longrightarrow> 0 \<le> bsol sx c"
  by (auto simp: bsol_def tinv_def nonneg_def intro!: sum_nonneg)

lemma ray_sol: "tinv sx \<Longrightarrow> e < sx_nCols sx \<Longrightarrow> sol sx (ray sx e t)"
  using unit_sum [of sx] by (auto simp: sol_def dot_ray tinv_def)

lemma ray_nonneg:
  assumes "tinv sx" and "0 \<le> t" and "\<forall>r < sx_m sx. tab sx r e \<le> 0"
  shows "0 \<le> ray sx e t c"
  using assms unfolding ray_def
  by (intro add_nonneg_nonneg sum_nonneg)
    (auto simp: tinv_def nonneg_def mult_nonneg_nonpos intro: order_trans [of _ 0])

lemma zero_costs:
  assumes "zbasis (sx_m sx) sx z" shows "(\<Sum>r<sx_m sx. zval z (sx_basis sx ! r) * v r) = 0"
  using assms by (simp add: zbasis_def)

lemma basic_cost:
  assumes "tinv sx" and "zinv sx cost zo" and "zbasis (sx_m sx) sx (fst zo)"
  shows "dot (sx_nCols sx) cost (bsol sx) = - rat_val (snd zo)"
proof -
  have "dot (sx_nCols sx) cost (bsol sx) = dot (sx_nCols sx) (zval (fst zo)) (bsol sx) - rat_val (snd zo)"
    using assms(2) bsol_sol [OF assms(1)] by (simp add: zinv_def)
  also have "dot (sx_nCols sx) (zval (fst zo)) (bsol sx) = 0"
    using zero_costs [OF assms(3)] by (simp add: dot_bsol [OF assms(1)])
  finally show ?thesis by simp
qed

lemma optimal_least:
  assumes inv: "tinv sx" and z: "zinv sx cost zo" "zbasis (sx_m sx) sx (fst zo)" and v: "verdict LpOptimal me sx (fst zo)"
    and y: "sol sx y" "\<And>c. c < sx_nCols sx \<Longrightarrow> 0 \<le> y c" "\<And>c. me \<le> c \<Longrightarrow> c < sx_nCols sx \<Longrightarrow> y c = 0"
  shows "dot (sx_nCols sx) cost (bsol sx) \<le> dot (sx_nCols sx) cost y"
proof -
  have "0 \<le> zval (fst zo) c * y c" if "c < sx_nCols sx" for c
    using v y that by (cases "c < me") (auto simp: verdict_def)
  then have "0 \<le> dot (sx_nCols sx) (zval (fst zo)) y" unfolding dot_def by (intro sum_nonneg) simp
  moreover have "dot (sx_nCols sx) cost y = dot (sx_nCols sx) (zval (fst zo)) y - rat_val (snd zo)"
    using z(1) y(1) by (simp add: zinv_def)
  ultimately show ?thesis using basic_cost [OF inv z] by simp
qed

lemma unbounded_ray:
  assumes inv: "tinv sx" and z: "zinv sx cost zo" "zbasis (sx_m sx) sx (fst zo)" and v: "verdict LpUnbounded me sx (fst zo)"
  obtains e where "e < me" and "e < sx_nCols sx" and "\<forall>r < sx_m sx. tab sx r e \<le> 0" and "zval (fst zo) e < 0"
    and "\<forall>t. dot (sx_nCols sx) cost (ray sx e t) = t * zval (fst zo) e - rat_val (snd zo)"
proof -
  from v obtain e where e: "e < me" "e < sx_nCols sx" "\<forall>r < sx_m sx. tab sx r e \<le> 0" "zval (fst zo) e < 0"
    by (auto simp: verdict_def)
  have "dot (sx_nCols sx) cost (ray sx e t) = t * zval (fst zo) e - rat_val (snd zo)" for t
  proof -
    have "dot (sx_nCols sx) cost (ray sx e t) = dot (sx_nCols sx) (zval (fst zo)) (ray sx e t) - rat_val (snd zo)"
      using z(1) ray_sol [OF inv e(2)] by (simp add: zinv_def)
    also have "dot (sx_nCols sx) (zval (fst zo)) (ray sx e t) = t * zval (fst zo) e"
      using zero_costs [OF z(2)] by (simp add: dot_ray [OF inv e(2)])
    finally show ?thesis .
  qed
  with e that show thesis by blast
qed

section \<open>The program and its tableau\<close>

definition lpcoef :: "rational list \<Rightarrow> nat \<Rightarrow> rat" where
  "lpcoef src k = (if k < length src then rat_val (src ! k) else 0)"

definition lprow :: "nat \<Rightarrow> rational list \<Rightarrow> (nat \<Rightarrow> rat) \<Rightarrow> rat" where
  "lprow n src x = (\<Sum>k<n. lpcoef src k * x k)"

definition feasible_lp :: "linear_program \<Rightarrow> (nat \<Rightarrow> rat) \<Rightarrow> bool" where
  "feasible_lp lp x \<longleftrightarrow>
     (\<forall>r < length (lp_eqRows lp). lprow (lp_nVars lp) (lp_eqRows lp ! r) x = lpcoef (lp_eqRhs lp) r)
   \<and> (\<forall>r < length (lp_geRows lp). lprow (lp_nVars lp) (lp_geRows lp ! r) x \<ge> lpcoef (lp_geRhs lp) r)"

definition wf_lp :: "linear_program \<Rightarrow> bool" where
  "wf_lp lp \<longleftrightarrow> int (2 * lp_nVars lp + 2 * length (lp_geRows lp) + length (lp_eqRows lp)) < 4294967296
     \<and> (\<forall>r \<in> set (lp_eqRows lp) \<union> set (lp_geRows lp). lim_list r)
     \<and> lim_list (lp_eqRhs lp) \<and> lim_list (lp_geRhs lp) \<and> lim_list (lp_objective lp)"

text \<open>Row \<open>i\<close> of the program: its coefficients, its right-hand side, its sign in the tableau.\<close>

definition src_row :: "linear_program \<Rightarrow> nat \<Rightarrow> rational list" where
  "src_row lp i = (if i < length (lp_eqRows lp) then lp_eqRows lp ! i else lp_geRows lp ! (i - length (lp_eqRows lp)))"

definition src_rhs :: "linear_program \<Rightarrow> nat \<Rightarrow> rat" where
  "src_rhs lp i = (if i < length (lp_eqRows lp) then lpcoef (lp_eqRhs lp) i
     else lpcoef (lp_geRhs lp) (i - length (lp_eqRows lp)))"

definition flip :: "rat \<Rightarrow> rat" where "flip b = (if b < 0 then -1 else 1)"

definition split_coef :: "nat \<Rightarrow> rational list \<Rightarrow> nat \<Rightarrow> rat" where
  "split_coef n src c = (if c < 2 * n then (if even c then lpcoef src (c div 2) else - lpcoef src (c div 2)) else 0)"

definition init_entry :: "linear_program \<Rightarrow> nat \<Rightarrow> nat \<Rightarrow> rat" where
  "init_entry lp i c = (let n = lp_nVars lp; g = length (lp_geRows lp); s = flip (src_rhs lp i) in
     if c < 2 * n then s * split_coef n (src_row lp i) c
     else if c < 2 * n + g then (if i = length (lp_eqRows lp) + (c - 2 * n) then - s else 0)
     else (if c = 2 * n + g + i then 1 else 0))"

lemma fillStructural_spec:
  assumes run: "fillStructural (2 * n) src (replicate nCols rat_zero) = Inr row" and lim: "lim_list src" and le: "2 * n \<le> nCols"
  shows "length row = nCols \<and> lim_list row \<and> (\<forall>c < nCols. rat_val (row ! c) = split_coef n src c)"
proof -
  have f: "filter (\<lambda>k. k * 2 < 2 * n) [0..<length src] = [0..<min n (length src)]"
  proof -
    have "filter (\<lambda>k. k < n) [0..<l] = [0..<min n l]" for l
    proof (induction l)
      case (Suc l)
      then show ?case by (cases "Suc l \<le> n") (simp_all add: min_def)
    qed simp
    then show ?thesis by (simp add: mult.commute)
  qed
  have "fold_res (fill_step src) [0..<k] (replicate nCols rat_zero) = Inr row \<Longrightarrow> k \<le> min n (length src) \<Longrightarrow>
      length row = nCols \<and> lim_list row \<and> (\<forall>c < nCols. rat_val (row ! c) =
        (if c div 2 < k then (if even c then lpcoef src (c div 2) else - lpcoef src (c div 2)) else 0))" for k row
  proof (induction k arbitrary: row)
    case 0
    then show ?case by (auto simp: lim_list_def)
  next
    case (Suc k)
    then obtain u where u: "fold_res (fill_step src) [0..<k] (replicate nCols rat_zero) = Inr u" "fill_step src k u = Inr row"
      by (auto simp: fold_res_append mlk_try_Inr_iff)
    from Suc.IH [OF u(1)] Suc.prems(2) have iu: "length u = nCols" "lim_list u"
      "\<And>c. c < nCols \<Longrightarrow> rat_val (u ! c) = (if c div 2 < k then (if even c then lpcoef src (c div 2) else - lpcoef src (c div 2)) else 0)"
      by auto
    have ks: "k < length src" "2 * k + 1 < nCols" using Suc.prems(2) le by auto
    have lk: "lim_rat (src ! k)" by (rule lim_list_nth [OF lim ks(1)])
    have coef: "lpcoef src k = rat_val (src ! k)" using ks by (simp add: lpcoef_def)
    have div: "c div 2 = k \<longleftrightarrow> c = 2 * k \<or> c = 2 * k + 1" for c by auto
    show ?case
    proof (cases "isZero (src ! k)")
      case True
      then have "rat_val (src ! k) = 0" using isZero_iff [OF lk] by simp
      moreover have "row = u" using u(2) True by (simp add: fill_step_def)
      ultimately show ?thesis using iu coef by (auto simp: less_Suc_eq)
    next
      case False
      with u(2) obtain neg where neg: "ratNeg (src ! k) = Inr neg" and row: "row = u[2 * k := src ! k, 2 * k + 1 := neg]"
        by (auto simp: fill_step_def Let_def mlk_try_Inr_iff)
      have ln: "lim_rat neg" "rat_val neg = - rat_val (src ! k)" using ratNeg_Inr [OF neg] lk by auto
      have "lim_list row"
        using iu(2) lk ln(1) unfolding row lim_list_def
        by (auto dest!: set_update_subset_insert [THEN subsetD])
      moreover have "rat_val (row ! c) = (if c div 2 < Suc k then (if even c then lpcoef src (c div 2) else - lpcoef src (c div 2)) else 0)"
        if c: "c < nCols" for c
      proof -
        consider "c = 2 * k" | "c = 2 * k + 1" | "c div 2 \<noteq> k" using div by blast
        then show ?thesis
        proof cases
          case 3
          then have "c \<noteq> 2 * k" "c \<noteq> 2 * k + 1" by auto
          with 3 c iu show ?thesis by (auto simp: row less_Suc_eq)
        qed (use iu(1) ks ln coef in \<open>simp_all add: row\<close>)
      qed
      ultimately show ?thesis using iu(1) by (simp add: row)
    qed
  qed
  from this [of "min n (length src)" row] run f
  show ?thesis by (auto simp: fillStructural_def split_coef_def lpcoef_def)
qed

lemma negateRow_spec:
  assumes "negateRow row = Inr out" and "lim_list row"
  shows "length out = length row \<and> lim_list out \<and> (\<forall>c < length row. rat_val (out ! c) = - rat_val (row ! c))"
proof -
  have all: "list_all2 (\<lambda>a b. ratNeg a = Inr b) row out" using assms(1) by (simp add: negateRow_def map_res_Inr_iff)
  then have l: "length out = length row" by (auto dest: list_all2_lengthD)
  have "lim_rat (out ! i) \<and> rat_val (out ! i) = - rat_val (row ! i)" if "i < length row" for i
    using ratNeg_Inr [OF list_all2_nthD [OF all that]] lim_list_nth [OF assms(2) that] by simp
  with l show ?thesis by (auto intro: lim_list_nthI)
qed

lemma build_row_spec:
  assumes run: "build_row (2 * n) nCols src b0 = Inr (row, b, flipped)" and lim: "lim_list src" "lim_rat b0" and le: "2 * n \<le> nCols"
  shows "length row = nCols \<and> lim_list row \<and> lim_rat b \<and> rat_val b = flip (rat_val b0) * rat_val b0
    \<and> (flipped \<longleftrightarrow> rat_val b0 < 0) \<and> (\<forall>c < nCols. rat_val (row ! c) = flip (rat_val b0) * split_coef n src c)"
proof -
  from run obtain row0 where r0: "fillStructural (2 * n) src (replicate nCols rat_zero) = Inr row0"
    and rest: "(if sign b0 < 0
       then mlk_try (negateRow row0) (\<lambda>row. mlk_try (ratNeg b0) (\<lambda>b. Inr (row, b, True)))
       else Inr (row0, b0, False)) = Inr (row, b, flipped)"
    by (auto simp: build_row_def mlk_try_Inr_iff)
  note fs = fillStructural_spec [OF r0 lim(1) le]
  show ?thesis
  proof (cases "sign b0 < 0")
    case True
    then have neg: "rat_val b0 < 0" using sign_neg_iff [OF lim(2)] by simp
    from rest True have r: "negateRow row0 = Inr row" "ratNeg b0 = Inr b" "flipped" by (auto simp: mlk_try_Inr_iff)
    from negateRow_spec [OF r(1)] ratNeg_Inr [OF r(2)] r(3) fs neg lim(2) show ?thesis by (simp add: flip_def)
  next
    case False
    then have "\<not> rat_val b0 < 0" using sign_neg_iff [OF lim(2)] by simp
    with rest False fs lim(2) show ?thesis by (simp add: flip_def)
  qed
qed

definition init_ok :: "linear_program \<Rightarrow> nat \<Rightarrow> simplex \<Rightarrow> bool" where
  "init_ok lp k sx \<longleftrightarrow>
     sx_nVars sx = lp_nVars lp \<and> sx_nStruct sx = 2 * lp_nVars lp \<and> sx_nSurplus sx = length (lp_geRows lp)
   \<and> sx_nArt sx = length (lp_eqRows lp) + length (lp_geRows lp) \<and> sx_m sx = length (lp_eqRows lp) + length (lp_geRows lp)
   \<and> sx_nCols sx = 2 * lp_nVars lp + length (lp_geRows lp) + (length (lp_eqRows lp) + length (lp_geRows lp))
   \<and> length (sx_rows sx) = k \<and> length (sx_rhs sx) = k \<and> sx_basis sx = map (\<lambda>i. nNonArt sx + i) [0..<k]
   \<and> lim_list (sx_rhs sx)
   \<and> (\<forall>i < k. length (sx_rows sx ! i) = sx_nCols sx \<and> lim_list (sx_rows sx ! i)
        \<and> trhs sx i = flip (src_rhs lp i) * src_rhs lp i
        \<and> (\<forall>c < sx_nCols sx. tab sx i c = init_entry lp i c))"

lemma init_ok_push:
  assumes ok: "init_ok lp k sx" and k: "k < sx_m sx"
    and row: "length row = sx_nCols sx" "lim_list row" "\<forall>c < sx_nCols sx. rat_val (row ! c) = init_entry lp k c"
    and b: "lim_rat b" "rat_val b = flip (src_rhs lp k) * src_rhs lp k"
  shows "init_ok lp (Suc k) (push_row row b (nNonArt sx + k) sx)"
  using assms unfolding init_ok_def
  by (auto simp: push_row_def nNonArt_def nth_append less_Suc_eq trhs_def tab_def lim_list_def)

lemma lim_list_updateI: "lim_list xs \<Longrightarrow> lim_rat x \<Longrightarrow> lim_list (xs[i := x])"
  by (auto simp: lim_list_def dest: set_update_subset_insert [THEN subsetD])

lemma rat_units [simp]: "lim_rat rat_one" "rat_val rat_one = 1" "lim_rat rat_minus_one" "rat_val rat_minus_one = -1"
  by (simp_all add: rat_one_def rat_minus_one_def lim_rat_def rat_val_def)

lemma build_eq_step:
  assumes wf: "wf_lp lp" and run: "build_eq lp r sx = Inr sx'" and ok: "init_ok lp r sx" and r: "r < length (lp_eqRows lp)"
  shows "init_ok lp (Suc r) sx'"
proof -
  let ?b0 = "if r < length (lp_eqRhs lp) then lp_eqRhs lp ! r else rat_zero"
  from run obtain row b fl where br: "build_row (sx_nStruct sx) (sx_nCols sx) (lp_eqRows lp ! r) ?b0 = Inr (row, b, fl)"
    and sx': "sx' = push_row (row[nNonArt sx + r := rat_one]) b (nNonArt sx + r) sx"
    by (auto simp: build_eq_def Let_def mlk_try_Inr_iff nNonArt_def)
  have d: "sx_nStruct sx = 2 * lp_nVars lp" "nNonArt sx = 2 * lp_nVars lp + length (lp_geRows lp)"
    "sx_nCols sx = 2 * lp_nVars lp + length (lp_geRows lp) + (length (lp_eqRows lp) + length (lp_geRows lp))"
    "r < sx_m sx"
    using ok r by (auto simp: init_ok_def nNonArt_def)
  have lim: "lim_list (lp_eqRows lp ! r)" "lim_rat ?b0"
    using wf r by (auto simp: wf_lp_def lim_list_nth)
  have src: "src_row lp r = lp_eqRows lp ! r" "src_rhs lp r = rat_val ?b0"
    using r by (auto simp: src_row_def src_rhs_def lpcoef_def)
  note br' = build_row_spec [OF br [unfolded d(1)] lim, unfolded src [symmetric]]
  show ?thesis unfolding sx'
  proof (rule init_ok_push [OF ok d(4)])
    show "\<forall>c < sx_nCols sx. rat_val (row[nNonArt sx + r := rat_one] ! c) = init_entry lp r c"
      using br' d r by (auto simp: init_entry_def Let_def nth_list_update split_coef_def)
  qed (use br' d in \<open>auto intro!: lim_list_updateI\<close>)
qed

lemma build_ge_step:
  assumes wf: "wf_lp lp" and run: "build_ge lp r sx = Inr sx'" and ok: "init_ok lp (length (lp_eqRows lp) + r) sx"
    and r: "r < length (lp_geRows lp)"
  shows "init_ok lp (Suc (length (lp_eqRows lp) + r)) sx'"
proof -
  let ?i = "length (lp_eqRows lp) + r"
  let ?b0 = "if r < length (lp_geRhs lp) then lp_geRhs lp ! r else rat_zero"
  from run obtain row b fl where br: "build_row (sx_nStruct sx) (sx_nCols sx) (lp_geRows lp ! r) ?b0 = Inr (row, b, fl)"
    and sx': "sx' = push_row (row[sx_nStruct sx + r := (if fl then rat_one else rat_minus_one), nNonArt sx + ?i := rat_one])
        b (nNonArt sx + ?i) sx"
    by (auto simp: build_ge_def Let_def mlk_try_Inr_iff nNonArt_def)
  have d: "sx_nStruct sx = 2 * lp_nVars lp" "nNonArt sx = 2 * lp_nVars lp + length (lp_geRows lp)"
    "sx_nCols sx = 2 * lp_nVars lp + length (lp_geRows lp) + (length (lp_eqRows lp) + length (lp_geRows lp))"
    "?i < sx_m sx"
    using ok r by (auto simp: init_ok_def nNonArt_def)
  have lim: "lim_list (lp_geRows lp ! r)" "lim_rat ?b0"
    using wf r by (auto simp: wf_lp_def lim_list_nth)
  have src: "src_row lp ?i = lp_geRows lp ! r" "src_rhs lp ?i = rat_val ?b0"
    using r by (auto simp: src_row_def src_rhs_def lpcoef_def)
  note br' = build_row_spec [OF br [unfolded d(1)] lim, unfolded src [symmetric]]
  have fl: "rat_val (if fl then rat_one else rat_minus_one) = - flip (src_rhs lp ?i)"
    using br' d by (simp add: flip_def)
  show ?thesis unfolding sx'
  proof (rule init_ok_push [OF ok d(4)])
    show "\<forall>c < sx_nCols sx. rat_val (row[sx_nStruct sx + r := (if fl then rat_one else rat_minus_one),
        nNonArt sx + ?i := rat_one] ! c) = init_entry lp ?i c"
    proof (intro allI impI)
      fix c assume c: "c < sx_nCols sx"
      consider "c < 2 * lp_nVars lp" | "2 * lp_nVars lp \<le> c" "c < nNonArt sx" "c = sx_nStruct sx + r"
        | "2 * lp_nVars lp \<le> c" "c < nNonArt sx" "c \<noteq> sx_nStruct sx + r" | "nNonArt sx \<le> c" by linarith
      then show "rat_val (row[sx_nStruct sx + r := (if fl then rat_one else rat_minus_one),
        nNonArt sx + ?i := rat_one] ! c) = init_entry lp ?i c"
        using br' d r c fl by cases (auto simp: init_entry_def Let_def nth_list_update split_coef_def)
    qed
  qed (use br' d in \<open>auto intro!: lim_list_updateI\<close>)
qed

lemma build_spec:
  assumes "build lp = Inr (Some sx)" and wf: "wf_lp lp"
  shows "init_ok lp (length (lp_eqRows lp) + length (lp_geRows lp)) sx"
proof -
  let ?ne = "length (lp_eqRows lp)" and ?ng = "length (lp_geRows lp)" and ?n = "lp_nVars lp"
  let ?sx0 = "\<lparr>sx_nVars = ?n, sx_nStruct = ?n * 2, sx_nSurplus = ?ng, sx_nArt = ?ne + ?ng,
     sx_nCols = ?n * 2 + ?ng + (?ne + ?ng), sx_m = ?ne + ?ng, sx_rows = [], sx_rhs = [], sx_basis = []\<rparr>"
  have u: "u32 ?ne = ?ne" "u32 ?ng = ?ng" "u32 (?n * 2) = ?n * 2" "u32 (?ne + ?ng) = ?ne + ?ng"
    "u32 (?n * 2 + ?ng + (?ne + ?ng)) = ?n * 2 + ?ng + (?ne + ?ng)"
    using wf by (simp_all add: wf_lp_def u32_def)
  from assms(1) obtain s1 where s1: "fold_res (build_eq lp) [0..<?ne] ?sx0 = Inr s1"
    and s2: "fold_res (build_ge lp) [0..<?ng] s1 = Inr sx"
    unfolding build_def Let_def u by (auto simp: mlk_try_Inr_iff split: if_splits)
  have "init_ok lp 0 ?sx0" by (simp add: init_ok_def lim_list_def)
  have e: "fold_res (build_eq lp) [0..<k] ?sx0 = Inr s \<Longrightarrow> k \<le> ?ne \<Longrightarrow> init_ok lp k s" for k s
  proof (induction k arbitrary: s)
    case 0
    with \<open>init_ok lp 0 ?sx0\<close> show ?case by auto
  next
    case (Suc k)
    then obtain v where v: "fold_res (build_eq lp) [0..<k] ?sx0 = Inr v" "build_eq lp k v = Inr s"
      by (auto simp: fold_res_append mlk_try_Inr_iff)
    show ?case by (rule build_eq_step [OF wf v(2) Suc.IH [OF v(1)]]) (use Suc.prems in auto)
  qed
  have g: "fold_res (build_ge lp) [0..<k] s1 = Inr s \<Longrightarrow> k \<le> ?ng \<Longrightarrow> init_ok lp (?ne + k) s" for k s
  proof (induction k arbitrary: s)
    case 0
    with e [OF s1] show ?case by auto
  next
    case (Suc k)
    then obtain v where v: "fold_res (build_ge lp) [0..<k] s1 = Inr v" "build_ge lp k v = Inr s"
      by (auto simp: fold_res_append mlk_try_Inr_iff)
    have "init_ok lp (Suc (?ne + k)) s" by (rule build_ge_step [OF wf v(2) Suc.IH [OF v(1)]]) (use Suc.prems in auto)
    then show ?case by simp
  qed
  from g [OF s2] show ?thesis by simp
qed

end
