(* ===== verification/Lp_Solver.thy ===== *)
theory Lp_Solver
  imports Lp_Correct
begin

text \<open>
  The two phases put together: what the initial tableau says about the program, the phase 1
  verdict, the degenerate artificials driven out, the extracted point, and the three verdicts
  of \<open>solveLp\<close>.
\<close>

section \<open>The initial tableau as the program\<close>

lemma sum_add_range: "(\<Sum>c<p + q. h c) = (\<Sum>c<p. h c) + (\<Sum>j<q. h (p + j))" for h :: "nat \<Rightarrow> rat"
  by (induction q) (simp_all add: add.assoc)

lemma sum_even_odd: "(\<Sum>c<2 * n. h c) = (\<Sum>k<n. h (2 * k) + h (2 * k + 1))" for h :: "nat \<Rightarrow> rat"
  by (induction n) (simp_all add: add.assoc)

definition proj :: "(nat \<Rightarrow> rat) \<Rightarrow> nat \<Rightarrow> rat" where
  "proj y k = y (2 * k) - y (2 * k + 1)"

lemma split_sum: "(\<Sum>c<2 * n. split_coef n src c * y c) = lprow n src (proj y)"
  unfolding sum_even_odd lprow_def
  by (rule sum.cong) (auto simp: split_coef_def proj_def algebra_simps)

lemma init_row:
  assumes "i < length (lp_eqRows lp) + length (lp_geRows lp)"
  defines "n \<equiv> lp_nVars lp" and "g \<equiv> length (lp_geRows lp)" and "ne \<equiv> length (lp_eqRows lp)"
    and "s \<equiv> flip (src_rhs lp i)"
  shows "dot (2 * n + g + (ne + g)) (init_entry lp i) y =
    s * lprow n (src_row lp i) (proj y) - (if ne \<le> i then s * y (2 * n + (i - ne)) else 0) + y (2 * n + g + i)"
proof -
  have "(\<Sum>c<2 * n. init_entry lp i c * y c) = (\<Sum>c<2 * n. s * (split_coef n (src_row lp i) c * y c))"
    by (rule sum.cong) (auto simp: init_entry_def Let_def n_def s_def)
  also have "\<dots> = s * lprow n (src_row lp i) (proj y)"
    by (simp add: sum_distrib_left [symmetric] split_sum)
  finally have p1: "(\<Sum>c<2 * n. init_entry lp i c * y c) = s * lprow n (src_row lp i) (proj y)" .
  have "(\<Sum>j<g. init_entry lp i (2 * n + j) * y (2 * n + j)) = (\<Sum>j<g. if i = ne + j then - s * y (2 * n + j) else 0)"
    by (rule sum.cong) (auto simp: init_entry_def Let_def n_def s_def g_def ne_def)
  also have "\<dots> = (if ne \<le> i then - s * y (2 * n + (i - ne)) else 0)"
  proof (cases "ne \<le> i")
    case True
    then have "(\<Sum>j<g. if i = ne + j then - s * y (2 * n + j) else 0) = (\<Sum>j<g. if j = i - ne then - s * y (2 * n + j) else 0)"
      by (intro sum.cong) auto
    moreover have "i - ne < g" using True assms(1) unfolding g_def ne_def by linarith
    ultimately show ?thesis using True by simp
  qed (simp add: sum.neutral)
  finally have p2: "(\<Sum>j<g. init_entry lp i (2 * n + j) * y (2 * n + j)) = (if ne \<le> i then - s * y (2 * n + (i - ne)) else 0)" .
  have "(\<Sum>a<ne + g. init_entry lp i (2 * n + g + a) * y (2 * n + g + a)) = (\<Sum>a<ne + g. if a = i then y (2 * n + g + a) else 0)"
    by (rule sum.cong) (auto simp: init_entry_def Let_def n_def g_def)
  then have p3: "(\<Sum>a<ne + g. init_entry lp i (2 * n + g + a) * y (2 * n + g + a)) = y (2 * n + g + i)"
    using assms(1) by (simp add: ne_def g_def)
  show ?thesis
    unfolding dot_def sum_add_range [of _ "2 * n + g" "ne + g"] sum_add_range [of _ "2 * n" g] p1 p2 p3 by simp
qed

lemma flip_nz: "flip b \<noteq> 0" and flip_mult: "0 \<le> flip b * b"
  by (auto simp: flip_def)

text \<open>The feasible basis of artificials the solver starts from.\<close>

lemma init_tinv:
  assumes ok: "init_ok lp (length (lp_eqRows lp) + length (lp_geRows lp)) sx"
  shows "tinv sx"
proof -
  let ?ne = "length (lp_eqRows lp)" and ?g = "length (lp_geRows lp)" and ?n = "lp_nVars lp"
  have d: "sx_m sx = ?ne + ?g" "sx_nCols sx = 2 * ?n + ?g + (?ne + ?g)" "nNonArt sx = 2 * ?n + ?g"
    "sx_nStruct sx = 2 * ?n" "sx_basis sx = map (\<lambda>i. nNonArt sx + i) [0..<?ne + ?g]"
    using ok by (auto simp: init_ok_def nNonArt_def)
  have t: "c < sx_nCols sx \<Longrightarrow> tab sx i c = init_entry lp i c" "trhs sx i = flip (src_rhs lp i) * src_rhs lp i"
    if "i < ?ne + ?g" for i c
    using ok that by (simp_all add: init_ok_def)
  have "wf_tab sx" using ok d by (simp add: wf_tab_def init_ok_def)
  moreover have "unit_basis sx" using d t by (auto simp: unit_basis_def init_entry_def Let_def)
  moreover have "mirror sx" using d t by (auto simp: mirror_def init_entry_def Let_def split_coef_def)
  moreover have "nonneg sx" using d t flip_mult by (simp add: nonneg_def)
  ultimately show ?thesis using d by (simp add: tinv_def)
qed

lemma init_sol:
  assumes ok: "init_ok lp (length (lp_eqRows lp) + length (lp_geRows lp)) sx"
  defines "n \<equiv> lp_nVars lp" and "g \<equiv> length (lp_geRows lp)" and "ne \<equiv> length (lp_eqRows lp)"
  shows "sol sx y \<longleftrightarrow> (\<forall>i < ne + g. flip (src_rhs lp i) * lprow n (src_row lp i) (proj y)
      - (if ne \<le> i then flip (src_rhs lp i) * y (2 * n + (i - ne)) else 0) + y (2 * n + g + i)
      = flip (src_rhs lp i) * src_rhs lp i)"
proof -
  have d: "sx_m sx = ne + g" "sx_nCols sx = 2 * n + g + (ne + g)"
    using ok by (auto simp: init_ok_def n_def g_def ne_def)
  have "dot (sx_nCols sx) (tab sx i) y = dot (2 * n + g + (ne + g)) (init_entry lp i) y" if "i < ne + g" for i
    using ok that unfolding d by (intro dot_cong) (auto simp: init_ok_def n_def g_def ne_def)
  then show ?thesis
    using ok init_row [of _ lp y] unfolding sol_def d
    by (auto simp: init_ok_def n_def g_def ne_def)
qed

definition art_zero :: "simplex \<Rightarrow> (nat \<Rightarrow> rat) \<Rightarrow> bool" where
  "art_zero sx y \<longleftrightarrow> (\<forall>c. nNonArt sx \<le> c \<longrightarrow> c < sx_nCols sx \<longrightarrow> y c = 0)"

lemma sol_feasible:
  assumes ok: "init_ok lp (length (lp_eqRows lp) + length (lp_geRows lp)) sx"
    and y: "sol sx y" "\<And>c. c < sx_nCols sx \<Longrightarrow> 0 \<le> y c" "art_zero sx y"
  shows "feasible_lp lp (proj y)"
proof -
  let ?ne = "length (lp_eqRows lp)" and ?g = "length (lp_geRows lp)" and ?n = "lp_nVars lp"
  have d: "nNonArt sx = 2 * ?n + ?g" "sx_nCols sx = 2 * ?n + ?g + (?ne + ?g)"
    using ok by (auto simp: init_ok_def nNonArt_def)
  have e: "lprow ?n (src_row lp i) (proj y) - (if ?ne \<le> i then y (2 * ?n + (i - ?ne)) else 0) = src_rhs lp i"
    if i: "i < ?ne + ?g" for i
  proof -
    have "y (2 * ?n + ?g + i) = 0" using y(3) i d by (simp add: art_zero_def)
    with y(1) i have "flip (src_rhs lp i) * (lprow ?n (src_row lp i) (proj y)
        - (if ?ne \<le> i then y (2 * ?n + (i - ?ne)) else 0)) = flip (src_rhs lp i) * src_rhs lp i"
      unfolding init_sol [OF ok] by (auto simp: right_diff_distrib)
    then show ?thesis using flip_nz by simp
  qed
  have "lprow ?n (lp_eqRows lp ! r) (proj y) = lpcoef (lp_eqRhs lp) r" if "r < ?ne" for r
    using e [of r] that by (simp add: src_row_def src_rhs_def)
  moreover have "lprow ?n (lp_geRows lp ! r) (proj y) \<ge> lpcoef (lp_geRhs lp) r" if "r < ?g" for r
    using e [of "?ne + r"] that y(2) [of "2 * ?n + r"] d by (simp add: src_row_def src_rhs_def)
  ultimately show ?thesis by (simp add: feasible_lp_def)
qed

definition lift_point :: "linear_program \<Rightarrow> (nat \<Rightarrow> rat) \<Rightarrow> nat \<Rightarrow> rat" where
  "lift_point lp x c = (let n = lp_nVars lp in
     if c < 2 * n then (if even c then max 0 (x (c div 2)) else max 0 (- x (c div 2)))
     else if c < 2 * n + length (lp_geRows lp)
     then lprow n (lp_geRows lp ! (c - 2 * n)) x - lpcoef (lp_geRhs lp) (c - 2 * n) else 0)"

lemma proj_lift: "k < lp_nVars lp \<Longrightarrow> proj (lift_point lp x) k = x k"
  by (simp add: proj_def lift_point_def Let_def max_def)

lemma lprow_cong: "(\<And>k. k < n \<Longrightarrow> x k = y k) \<Longrightarrow> lprow n src x = lprow n src y"
  by (simp add: lprow_def)

lemma feasible_sol:
  assumes ok: "init_ok lp (length (lp_eqRows lp) + length (lp_geRows lp)) sx" and x: "feasible_lp lp x"
  shows "sol sx (lift_point lp x)" and "0 \<le> lift_point lp x c" and "art_zero sx (lift_point lp x)"
proof -
  let ?ne = "length (lp_eqRows lp)" and ?g = "length (lp_geRows lp)" and ?n = "lp_nVars lp" and ?y = "lift_point lp x"
  have pr: "lprow ?n src (proj ?y) = lprow ?n src x" for src by (rule lprow_cong) (rule proj_lift)
  have art: "?y (2 * ?n + ?g + i) = 0" for i by (simp add: lift_point_def Let_def)
  have sur: "?y (2 * ?n + j) = lprow ?n (lp_geRows lp ! j) x - lpcoef (lp_geRhs lp) j" if "j < ?g" for j
    using that by (simp add: lift_point_def Let_def)
  show "sol sx ?y"
    unfolding init_sol [OF ok] pr art
  proof (intro allI impI)
    fix i assume i: "i < ?ne + ?g"
    show "flip (src_rhs lp i) * lprow ?n (src_row lp i) x
      - (if ?ne \<le> i then flip (src_rhs lp i) * ?y (2 * ?n + (i - ?ne)) else 0) + 0 = flip (src_rhs lp i) * src_rhs lp i"
    proof (cases "?ne \<le> i")
      case True
      then have "lprow ?n (src_row lp i) x - ?y (2 * ?n + (i - ?ne)) = src_rhs lp i"
        using sur [of "i - ?ne"] i by (simp add: src_row_def src_rhs_def)
      then have "flip (src_rhs lp i) * (lprow ?n (src_row lp i) x - ?y (2 * ?n + (i - ?ne))) = flip (src_rhs lp i) * src_rhs lp i"
        by simp
      with True show ?thesis by (simp add: right_diff_distrib)
    next
      case False
      then show ?thesis using x by (simp add: feasible_lp_def src_row_def src_rhs_def)
    qed
  qed
  show "0 \<le> ?y c" using x by (auto simp: lift_point_def Let_def feasible_lp_def)
  show "art_zero sx ?y" using ok by (auto simp: art_zero_def lift_point_def Let_def init_ok_def nNonArt_def)
qed

section \<open>Phase 1\<close>

lemma phase1_cost_spec:
  assumes "sx_nCols sx = nNonArt sx + sx_nArt sx"
  shows "length (phase1_cost sx) = sx_nCols sx \<and> lim_list (phase1_cost sx)
    \<and> (\<forall>c < sx_nCols sx. zval (phase1_cost sx) c = (if nNonArt sx \<le> c then 1 else 0))"
proof -
  let ?f = "\<lambda>a cost. cost[nNonArt sx + a := rat_one]"
  have "k \<le> sx_nArt sx \<Longrightarrow> length (fold ?f [0..<k] (replicate (sx_nCols sx) rat_zero)) = sx_nCols sx
    \<and> lim_list (fold ?f [0..<k] (replicate (sx_nCols sx) rat_zero))
    \<and> (\<forall>c < sx_nCols sx. zval (fold ?f [0..<k] (replicate (sx_nCols sx) rat_zero)) c
         = (if nNonArt sx \<le> c \<and> c < nNonArt sx + k then 1 else 0))" for k
  proof (induction k)
    case 0
    then show ?case by (auto simp: lim_list_def zval_def)
  next
    case (Suc k)
    then show ?case using assms by (auto simp: zval_def nth_list_update intro!: lim_list_updateI)
  qed
  from this [of "sx_nArt sx"] assms show ?thesis by (auto simp: phase1_cost_def)
qed

lemma artificial_sum_spec:
  assumes "artificial_sum sx = Inr s" and wf: "wf_tab sx"
  shows "lim_rat s \<and> rat_val s = (\<Sum>r<sx_m sx. if nNonArt sx \<le> sx_basis sx ! r then trhs sx r else 0)"
proof -
  let ?f = "\<lambda>r sum. if sx_basis sx ! r \<ge> nNonArt sx then ratAdd sum (sx_rhs sx ! r) else Inr sum"
  have "fold_res ?f [0..<k] rat_zero = Inr s \<Longrightarrow> k \<le> sx_m sx \<Longrightarrow>
      lim_rat s \<and> rat_val s = (\<Sum>r<k. if nNonArt sx \<le> sx_basis sx ! r then trhs sx r else 0)" for k s
  proof (induction k arbitrary: s)
    case 0
    then show ?case by auto
  next
    case (Suc k)
    then obtain u where u: "fold_res ?f [0..<k] rat_zero = Inr u" "?f k u = Inr s"
      by (auto simp: fold_res_append mlk_try_Inr_iff)
    with Suc.IH [OF u(1)] Suc.prems(2) have iu: "lim_rat u"
      "rat_val u = (\<Sum>r<k. if nNonArt sx \<le> sx_basis sx ! r then trhs sx r else 0)" by auto
    have "lim_rat (sx_rhs sx ! k)" using wf_tabD(4) [OF wf] Suc.prems(2) by simp
    with u(2) iu rat_add.oper_lim [OF iu(1) this] rat_add.oper_val [OF iu(1) this]
    show ?case by (auto simp: trhs_def split: if_splits)
  qed
  with assms(1) show ?thesis by (simp add: artificial_sum_def)
qed

text \<open>The state between the phases.\<close>

definition driven :: "nat \<Rightarrow> simplex \<Rightarrow> simplex \<Rightarrow> bool" where
  "driven k sx s \<longleftrightarrow> tinv s \<and> dims s = dims sx \<and> (\<forall>y. sol s y \<longleftrightarrow> sol sx y)
     \<and> (\<forall>r < sx_m sx. nNonArt sx \<le> sx_basis s ! r \<longrightarrow> trhs s r = 0)
     \<and> (\<forall>r < k. nNonArt sx \<le> sx_basis s ! r \<longrightarrow> (\<forall>c < nNonArt sx. tab s r c = 0))"

lemma drive_out_step:
  assumes dr: "driven k sx s" and run: "drive_out k s = Inr s'" and k: "k < sx_m sx"
  shows "driven (Suc k) sx s'"
proof -
  have inv: "tinv s" "dims s = dims sx" "\<forall>y. sol s y \<longleftrightarrow> sol sx y" using dr by (auto simp: driven_def)
  note d = dims_eqD [OF inv(2)]
  have wf: "wf_tab s" and le: "nNonArt s \<le> sx_nCols s" using inv(1) by (auto simp: tinv_def)
  have km: "k < sx_m s" using k d by simp
  note w = wf_tabD [OF wf km]
  show ?thesis
  proof (cases "sx_basis s ! k < nNonArt s")
    case True
    then have "s' = s" using run by (simp add: drive_out_def)
    with dr True d show ?thesis by (auto simp: driven_def less_Suc_eq)
  next
    case art: False
    then have tk: "trhs s k = 0" using dr k d by (simp add: driven_def)
    let ?q = "find_index (\<lambda>q. \<not> isZero q) (take (nNonArt s) (sx_rows s ! k))"
    show ?thesis
    proof (cases ?q)
      case None
      then have "s' = s" using run art by (simp add: drive_out_def)
      moreover have "tab s k c = 0" if "c < nNonArt s" for c
      proof -
        have "sx_rows s ! k ! c \<in> set (take (nNonArt s) (sx_rows s ! k))"
          using that le w(1) nth_mem [of c "take (nNonArt s) (sx_rows s ! k)"] by simp
        then have "isZero (sx_rows s ! k ! c)" using None by (simp add: find_index_None)
        then show ?thesis using isZero_iff [OF w(5) [of c]] that le by (simp add: tab_def)
      qed
      ultimately show ?thesis using dr d by (auto simp: driven_def less_Suc_eq)
    next
      case (Some c)
      then have c: "c < nNonArt s" using find_index_Some [OF Some] by simp
      have run': "pivot s k c = Inr s'" using run art Some by (simp add: drive_out_def)
      have cc: "c < sx_nCols s" using c le by simp
      note ps = pivot_spec [OF run' wf km cc]
      have dm: "dims s' = dims s" using ps(2) by (simp add: pivoted_def)
      note d' = dims_eqD [OF dm]
      have th: "trhs s' i = trhs s i" if "i < sx_m s" for i
        using ps(2) that tk by (cases "i = k") (auto simp: pivoted_def)
      have b: "sx_basis s' ! i = (if i = k then c else sx_basis s ! i)" if "i < sx_m s" for i
        by (rule pivoted_basis [OF ps(2) wf km that])
      have "tinv s'"
        using inv(1) ps d' pivoted_unit [OF ps(2) wf km cc] pivoted_mirror [OF ps(2) km] th
        by (simp add: tinv_def nonneg_def)
      moreover have "nNonArt sx \<le> sx_basis s' ! r \<longrightarrow> trhs s' r = 0" if "r < sx_m sx" for r
        using b [of r] th [of r] dr that d c by (auto simp: driven_def)
      moreover have "tab s' r col = 0" if "r < Suc k" "nNonArt sx \<le> sx_basis s' ! r" "col < nNonArt sx" for r col
      proof -
        have r: "r < k" "r < sx_m s" using that b [of r] km c d by (auto simp: less_Suc_eq split: if_splits)
        then have "nNonArt sx \<le> sx_basis s ! r" using that b [of r] by simp
        then have "tab s r col = 0" "tab s r c = 0" using dr r that c d by (auto simp: driven_def)
        then show ?thesis using ps(2) r that d le by (simp add: pivoted_def)
      qed
      ultimately show ?thesis using dm inv pivoted_sol [OF ps(2) km] by (simp add: driven_def)
    qed
  qed
qed

lemma drive_out_all:
  assumes "driven 0 sx s" and "fold_res drive_out [0..<sx_m s] s = Inr s'"
  shows "driven (sx_m sx) sx s'"
proof -
  have m: "sx_m s = sx_m sx" using assms(1) dims_eqD(6) [of s sx] by (simp add: driven_def)
  have "fold_res drive_out [0..<k] s = Inr s' \<Longrightarrow> k \<le> sx_m sx \<Longrightarrow> driven k sx s'" for k s'
  proof (induction k arbitrary: s')
    case 0
    with assms(1) show ?case by auto
  next
    case (Suc k)
    then obtain u where u: "fold_res drive_out [0..<k] s = Inr u" "drive_out k u = Inr s'"
      by (auto simp: fold_res_append mlk_try_Inr_iff)
    show ?case by (rule drive_out_step [OF Suc.IH [OF u(1)] u(2)]) (use Suc.prems in auto)
  qed
  with assms(2) m show ?thesis by simp
qed

lemma phase1_spec:
  assumes run: "phase1 sx = Inr (ok, s)" and inv: "tinv sx" and cols: "sx_nCols sx = nNonArt sx + sx_nArt sx"
  shows "if ok then tinv s \<and> dims s = dims sx \<and> (\<forall>y. sol s y \<longleftrightarrow> sol sx y) \<and> art_ok s
    else \<not> (\<exists>y. sol sx y \<and> (\<forall>c. 0 \<le> y c) \<and> art_zero sx y)"
proof -
  let ?cost = "zval (phase1_cost sx)"
  note pc = phase1_cost_spec [OF cols]
  from run obtain st s1 sum where r1: "runSimplex sx (phase1_cost sx) (sx_nCols sx) = Inr (st, s1)"
    and su: "artificial_sum s1 = Inr sum"
    and rest: "(if \<not> isZero sum then Inr (False, s1)
       else mlk_try (fold_res drive_out [0..<sx_m s1] s1) (\<lambda>sx. Inr (True, sx))) = Inr (ok, s)"
    by (auto simp: phase1_def mlk_try_Inr_iff)
  from runSimplex_spec [OF r1 inv] pc obtain zo where
    re: "reached (sx_nCols sx) sx s1" and z: "zinv s1 ?cost zo" "zbasis (sx_m s1) s1 (fst zo)"
    and v: "verdict st (sx_nCols sx) s1 (fst zo)" by blast
  have t1: "tinv s1" and dm: "dims s1 = dims sx" and so: "\<And>y. sol s1 y \<longleftrightarrow> sol sx y" using re by (auto simp: reached_def)
  note d = dims_eqD [OF dm]
  have wf: "wf_tab s1" using t1 by (simp add: tinv_def)
  have cost_nonneg: "0 \<le> dot (sx_nCols sx) ?cost y" if "\<And>c. 0 \<le> y c" for y
    unfolding dot_def using pc that by (intro sum_nonneg) auto
  have "st = LpOptimal"
  proof (rule ccontr)
    assume "st \<noteq> LpOptimal"
    then have "st = LpUnbounded" using v unfolding verdict_def by (metis)
    with v have ub: "verdict LpUnbounded (sx_nCols sx) s1 (fst zo)" by simp
    from ub obtain e where "e < sx_nCols sx" and e: "e < sx_nCols s1" "\<forall>r < sx_m s1. tab s1 r e \<le> 0" "zval (fst zo) e < 0"
      and c: "\<forall>t. dot (sx_nCols s1) ?cost (ray s1 e t) = t * zval (fst zo) e - rat_val (snd zo)"
      by (rule unbounded_ray [OF t1 z])
    define t where "t = (\<bar>rat_val (snd zo)\<bar> + 1) / (- zval (fst zo) e)"
    have "0 \<le> t" using e(3) by (simp add: t_def divide_nonneg_neg)
    then have "0 \<le> t * zval (fst zo) e - rat_val (snd zo)"
      using cost_nonneg [of "ray s1 e t"] ray_nonneg [OF t1 _ e(2)] spec [OF c, of t] d by simp
    moreover have "t * zval (fst zo) e = - (\<bar>rat_val (snd zo)\<bar> + 1)" using e(3) by (simp add: t_def)
    ultimately show False by linarith
  qed
  note sv = artificial_sum_spec [OF su wf]
  have "dot (sx_nCols s1) ?cost (bsol s1) = (\<Sum>r<sx_m s1. ?cost (sx_basis s1 ! r) * trhs s1 r)" by (rule dot_bsol [OF t1])
  also have "\<dots> = (\<Sum>r<sx_m s1. if nNonArt s1 \<le> sx_basis s1 ! r then trhs s1 r else 0)"
    using pc d wf_tabD(3) [OF wf] by (intro sum.cong) auto
  finally have sb: "rat_val sum = dot (sx_nCols sx) ?cost (bsol s1)" using sv d by simp
  show ?thesis
  proof (cases "isZero sum")
    case False
    have "\<not> (\<exists>y. sol sx y \<and> (\<forall>c. 0 \<le> y c) \<and> art_zero sx y)"
    proof
      assume "\<exists>y. sol sx y \<and> (\<forall>c. 0 \<le> y c) \<and> art_zero sx y"
      then obtain y where y: "sol sx y" "\<And>c. 0 \<le> y c" "art_zero sx y" by blast
      have "?cost c * y c = 0" if "c < sx_nCols sx" for c
        using pc y(3) that cols by (cases "nNonArt sx \<le> c") (simp_all add: art_zero_def)
      then have "dot (sx_nCols sx) ?cost y = 0" unfolding dot_def by (simp add: sum.neutral)
      moreover have "dot (sx_nCols s1) ?cost (bsol s1) \<le> dot (sx_nCols s1) ?cost y"
      proof (rule optimal_least [OF t1 z])
        show "verdict LpOptimal (sx_nCols s1) s1 (fst zo)" using v d \<open>st = LpOptimal\<close> by simp
        show "sol s1 y" using y(1) so by simp
      qed (simp_all add: y(2))
      ultimately have "rat_val sum \<le> 0" using sb d by simp
      moreover have "0 \<le> rat_val sum" using cost_nonneg [of "bsol s1"] bsol_nonneg [OF t1] sb by simp
      ultimately have "rat_val sum = 0" by simp
      then show False using False isZero_iff [of sum] sv by simp
    qed
    moreover have "\<not> ok" using rest False by simp
    ultimately show ?thesis by simp
  next
    case True
    then have ok: "ok" and dr: "fold_res drive_out [0..<sx_m s1] s1 = Inr s" using rest by (auto simp: mlk_try_Inr_iff)
    have "(\<Sum>r<sx_m s1. if nNonArt s1 \<le> sx_basis s1 ! r then trhs s1 r else 0) = 0"
      using sv isZero_iff True by simp
    then have "\<forall>r \<in> {..<sx_m s1}. (if nNonArt s1 \<le> sx_basis s1 ! r then trhs s1 r else 0) = 0"
      using t1 by (subst (asm) sum_nonneg_eq_0_iff) (auto simp: tinv_def nonneg_def)
    then have "trhs s1 r = 0" if "r < sx_m s1" "nNonArt s1 \<le> sx_basis s1 ! r" for r
      using that by (auto split: if_splits)
    then have "driven 0 sx s1" using t1 dm so d by (simp add: driven_def)
    from drive_out_all [OF this dr] have fin: "driven (sx_m sx) sx s" .
    then have "dims s = dims sx" by (simp add: driven_def)
    from dims_eqD [OF this] fin have "art_ok s" by (auto simp: art_ok_def driven_def)
    with fin ok show ?thesis by (simp add: driven_def)
  qed
qed

section \<open>Phase 2\<close>

lemma phase2_cost_spec:
  assumes run: "phase2_cost sx c = Inr cost" and lim: "lim_list c"
    and n: "sx_nStruct sx = 2 * n" "2 * n \<le> sx_nCols sx"
  shows "length cost = sx_nCols sx \<and> lim_list cost \<and> (\<forall>j < sx_nCols sx. zval cost j = split_coef n c j)"
proof -
  let ?f = "\<lambda>k cost. mlk_try (ratNeg (c ! k)) (\<lambda>neg. Inr (cost[2 * k := c ! k, 2 * k + 1 := neg]))"
  have f: "filter (\<lambda>k. k * 2 < sx_nStruct sx) [0..<length c] = [0..<min n (length c)]"
  proof -
    have "filter (\<lambda>k. k < n) [0..<l] = [0..<min n l]" for l
    proof (induction l)
      case (Suc l)
      then show ?case by (cases "Suc l \<le> n") (simp_all add: min_def)
    qed simp
    then show ?thesis using n(1) by (simp add: mult.commute)
  qed
  have "fold_res ?f [0..<k] (replicate (sx_nCols sx) rat_zero) = Inr row \<Longrightarrow> k \<le> min n (length c) \<Longrightarrow>
      length row = sx_nCols sx \<and> lim_list row \<and> (\<forall>j < sx_nCols sx. rat_val (row ! j) =
        (if j div 2 < k then (if even j then lpcoef c (j div 2) else - lpcoef c (j div 2)) else 0))" for k row
  proof (induction k arbitrary: row)
    case 0
    then show ?case by (auto simp: lim_list_def)
  next
    case (Suc k)
    then obtain u where u: "fold_res ?f [0..<k] (replicate (sx_nCols sx) rat_zero) = Inr u" "?f k u = Inr row"
      by (auto simp: fold_res_append mlk_try_Inr_iff)
    from Suc.IH [OF u(1)] Suc.prems(2) have iu: "length u = sx_nCols sx" "lim_list u"
      "\<And>j. j < sx_nCols sx \<Longrightarrow> rat_val (u ! j) = (if j div 2 < k then (if even j then lpcoef c (j div 2) else - lpcoef c (j div 2)) else 0)"
      by auto
    have ks: "k < length c" "2 * k + 1 < sx_nCols sx" using Suc.prems(2) n by auto
    have lk: "lim_rat (c ! k)" by (rule lim_list_nth [OF lim ks(1)])
    have coef: "lpcoef c k = rat_val (c ! k)" using ks by (simp add: lpcoef_def)
    have div: "j div 2 = k \<longleftrightarrow> j = 2 * k \<or> j = 2 * k + 1" for j by auto
    from u(2) obtain neg where neg: "ratNeg (c ! k) = Inr neg" and row: "row = u[2 * k := c ! k, 2 * k + 1 := neg]"
      by (auto simp: mlk_try_Inr_iff)
    have ln: "lim_rat neg" "rat_val neg = - rat_val (c ! k)" using ratNeg_Inr [OF neg] lk by auto
    have "lim_list row" unfolding row using iu(2) lk ln(1) by (intro lim_list_updateI)
    moreover have "rat_val (row ! j) = (if j div 2 < Suc k then (if even j then lpcoef c (j div 2) else - lpcoef c (j div 2)) else 0)"
      if c: "j < sx_nCols sx" for j
    proof -
      consider "j = 2 * k" | "j = 2 * k + 1" | "j div 2 \<noteq> k" using div by blast
      then show ?thesis
      proof cases
        case 3
        then have "j \<noteq> 2 * k" "j \<noteq> 2 * k + 1" by auto
        with 3 c iu show ?thesis by (auto simp: row less_Suc_eq)
      qed (use iu(1) ks ln coef in \<open>simp_all add: row\<close>)
    qed
    ultimately show ?case using iu(1) by (simp add: row)
  qed
  from this [of "min n (length c)" cost] run f
  show ?thesis by (auto simp: phase2_cost_def split_coef_def lpcoef_def zval_def)
qed

text \<open>Two basic columns never belong to the same program variable.\<close>

lemma basis_vars_distinct:
  assumes inv: "tinv sx" and i: "i < sx_m sx" and j: "j < sx_m sx" and ne: "i \<noteq> j"
    and n: "sx_nStruct sx = 2 * n" "sx_basis sx ! i < 2 * n"
  shows "sx_basis sx ! i div 2 \<noteq> sx_basis sx ! j div 2"
proof
  let ?bi = "sx_basis sx ! i" and ?bj = "sx_basis sx ! j"
  assume eq: "?bi div 2 = ?bj div 2"
  define k where "k = ?bi div 2"
  have u: "tab sx i ?bi = 1" "tab sx i ?bj = 0" using inv i j ne by (auto simp: tinv_def unit_basis_def)
  have "2 * (b div 2) + 1 < 2 * n" if "b < 2 * n" for b :: nat using that by presburger
  then have "2 * k + 1 < sx_nStruct sx" using n k_def by simp
  then have m: "tab sx i (2 * k + 1) = - tab sx i (2 * k)" using inv i by (simp add: tinv_def mirror_def)
  have "?bi = 2 * k \<or> ?bi = 2 * k + 1" "?bj = 2 * k \<or> ?bj = 2 * k + 1" using eq k_def by auto
  with u m show False by auto
qed

definition contrib :: "simplex \<Rightarrow> nat \<Rightarrow> nat \<Rightarrow> rat" where
  "contrib sx v r = (if sx_basis sx ! r = 2 * v then trhs sx r else 0) - (if sx_basis sx ! r = 2 * v + 1 then trhs sx r else 0)"

lemma extractX_spec:
  assumes run: "extractX sx = Inr x" and inv: "tinv sx" and n: "sx_nStruct sx = 2 * sx_nVars sx"
  shows "length x = sx_nVars sx \<and> lim_list x \<and> (\<forall>v < sx_nVars sx. rat_val (x ! v) = proj (bsol sx) v)"
proof -
  let ?n = "sx_nVars sx"
  have wf: "wf_tab sx" using inv by (simp add: tinv_def)
  have "fold_res (extract_step sx) [0..<k] (replicate ?n rat_zero) = Inr x \<Longrightarrow> k \<le> sx_m sx \<Longrightarrow>
      length x = ?n \<and> lim_list x \<and> (\<forall>v < ?n. rat_val (x ! v) = (\<Sum>r<k. contrib sx v r))" for k x
  proof (induction k arbitrary: x)
    case 0
    then show ?case by (auto simp: lim_list_def)
  next
    case (Suc k)
    then obtain u where u: "fold_res (extract_step sx) [0..<k] (replicate ?n rat_zero) = Inr u" "extract_step sx k u = Inr x"
      by (auto simp: fold_res_append mlk_try_Inr_iff)
    from Suc.IH [OF u(1)] Suc.prems(2) have iu: "length u = ?n" "lim_list u"
      "\<And>v. v < ?n \<Longrightarrow> rat_val (u ! v) = (\<Sum>r<k. contrib sx v r)" by auto
    let ?b = "sx_basis sx ! k"
    have k: "k < sx_m sx" using Suc.prems(2) by simp
    have lb: "lim_rat (sx_rhs sx ! k)" by (rule wf_tabD(4) [OF wf k])
    show ?case
    proof (cases "?b < sx_nStruct sx")
      case False
      then have "x = u" using u(2) by (simp add: extract_step_def)
      moreover have "contrib sx v k = 0" if "v < ?n" for v using False that n by (auto simp: contrib_def)
      ultimately show ?thesis using iu by simp
    next
      case True
      then have var: "?b div 2 < ?n" using n by auto
      obtain nv where x: "x = u[?b div 2 := nv]" and nv: "lim_rat nv" "rat_val nv = contrib sx (?b div 2) k"
      proof (cases "even ?b")
        case True
        with u(2) \<open>?b < sx_nStruct sx\<close> var iu(1) have "x = u[?b div 2 := sx_rhs sx ! k]"
          by (simp add: extract_step_def Let_def even_iff_mod_2_eq_zero)
        with True lb show thesis by (intro that) (auto simp: contrib_def trhs_def)
      next
        case False
        with u(2) \<open>?b < sx_nStruct sx\<close> var iu(1) obtain w where w: "ratNeg (sx_rhs sx ! k) = Inr w" "x = u[?b div 2 := w]"
          by (auto simp: extract_step_def Let_def mlk_try_Inr_iff even_iff_mod_2_eq_zero)
        have "?b \<noteq> 2 * (?b div 2)" "?b = 2 * (?b div 2) + 1" using False by presburger+
        then have "contrib sx (?b div 2) k = - trhs sx k" unfolding contrib_def by (simp only: if_True if_False simp_thms)
        with ratNeg_Inr [OF w(1)] lb w(2) show thesis by (intro that [of w]) (simp_all add: trhs_def)
      qed
      have before: "contrib sx (?b div 2) r = 0" if "r < k" for r
      proof -
        have "?b div 2 \<noteq> sx_basis sx ! r div 2"
          by (rule basis_vars_distinct [OF inv k _ _ n]) (use that k True n in auto)
        then show ?thesis by (auto simp: contrib_def)
      qed
      have "rat_val (x ! v) = (\<Sum>r<Suc k. contrib sx v r)" if v: "v < ?n" for v
      proof (cases "v = ?b div 2")
        case True
        have "(\<Sum>r<k. contrib sx v r) = 0" unfolding True using before by (intro sum.neutral) auto
        then show ?thesis using True v iu(1) nv by (simp add: x)
      next
        case False
        then have "?b \<noteq> 2 * v" "?b \<noteq> 2 * v + 1" by auto
        then have "contrib sx v k = 0" by (simp add: contrib_def)
        then show ?thesis using False iu v by (simp add: x)
      qed
      then show ?thesis using iu nv by (auto simp: x intro: lim_list_updateI)
    qed
  qed
  moreover have "(\<Sum>r<sx_m sx. contrib sx v r) = proj (bsol sx) v" for v
    by (simp add: contrib_def proj_def bsol_def sum_subtractf)
  ultimately show ?thesis using run by (simp add: extractX_def)
qed

lemma objective_value_spec:
  assumes "objective_value c x = Inr obj" and "lim_list c" and "lim_list x"
  shows "lim_rat obj \<and> rat_val obj = lprow (length x) c (\<lambda>k. rat_val (x ! k))"
proof -
  let ?f = "\<lambda>(ck, xk) acc. mlk_try (ratMul ck xk) (\<lambda>term. ratAdd acc term)"
  have run: "fold_res ?f ps acc = Inr r \<Longrightarrow> \<forall>(a, b) \<in> set ps. lim_rat a \<and> lim_rat b \<Longrightarrow> lim_rat acc \<Longrightarrow>
      lim_rat r \<and> rat_val r = rat_val acc + (\<Sum>(a, b)\<leftarrow>ps. rat_val a * rat_val b)" for ps acc r
  proof (induction ps arbitrary: acc)
    case Nil
    then show ?case by auto
  next
    case (Cons p ps)
    obtain a b where p: "p = (a, b)" by fastforce
    from Cons.prems(1) obtain t u where t: "ratMul a b = Inr t" "ratAdd acc t = Inr u" "fold_res ?f ps u = Inr r"
      by (auto simp: p mlk_try_Inr_iff)
    have l: "lim_rat a" "lim_rat b" using Cons.prems(2) by (auto simp: p)
    have lt: "lim_rat t" "rat_val t = rat_val a * rat_val b"
      using rat_mul.oper_lim [OF l _ t(1)] rat_mul.oper_val [OF l _ t(1)] by auto
    have lu: "lim_rat u" "rat_val u = rat_val acc + rat_val t"
      using rat_add.oper_lim [OF Cons.prems(3) lt(1) _ t(2)] rat_add.oper_val [OF Cons.prems(3) lt(1) _ t(2)] by auto
    from Cons.IH [OF t(3) _ lu(1)] Cons.prems(2) lu lt show ?case by (auto simp: p)
  qed
  have zip: "(\<Sum>(a, b)\<leftarrow>zip c x. rat_val a * rat_val b) = (\<Sum>k<length x. lpcoef c k * rat_val (x ! k))" for c x
  proof (induction c arbitrary: x)
    case Nil
    then show ?case by (simp add: lpcoef_def)
  next
    case (Cons a c)
    show ?case
    proof (cases x)
      case (Cons b xs)
      have "lpcoef (a # c) (Suc k) = lpcoef c k" for k by (simp add: lpcoef_def)
      then show ?thesis using Cons.IH [of xs] by (simp add: Cons sum.lessThan_Suc_shift lpcoef_def del: sum.lessThan_Suc)
    qed simp
  qed
  have "\<forall>(a, b) \<in> set (zip c x). lim_rat a \<and> lim_rat b"
    using assms(2,3) by (auto simp: lim_list_def dest: set_zip_leftD set_zip_rightD)
  from run [OF assms(1) [unfolded objective_value_def] this] zip show ?thesis by (simp add: lprow_def)
qed

section \<open>The solver\<close>

definition lp_answer :: "linear_program \<Rightarrow> lp_solution \<Rightarrow> bool" where
  "lp_answer lp s \<longleftrightarrow> (case sol_status s of
     LpOptimal \<Rightarrow> length (sol_x s) = lp_nVars lp \<and> lim_list (sol_x s) \<and> lim_rat (sol_objective s)
       \<and> feasible_lp lp (\<lambda>k. rat_val (sol_x s ! k))
       \<and> rat_val (sol_objective s) = lprow (lp_nVars lp) (lp_objective lp) (\<lambda>k. rat_val (sol_x s ! k))
       \<and> (\<forall>x. feasible_lp lp x \<longrightarrow> rat_val (sol_objective s) \<le> lprow (lp_nVars lp) (lp_objective lp) x)
   | LpInfeasible \<Rightarrow> \<forall>x. \<not> feasible_lp lp x
   | LpUnbounded \<Rightarrow> \<forall>b. \<exists>x. feasible_lp lp x \<and> lprow (lp_nVars lp) (lp_objective lp) x < b)"

lemma feasible_cong: "(\<And>k. k < lp_nVars lp \<Longrightarrow> x k = y k) \<Longrightarrow> feasible_lp lp x \<longleftrightarrow> feasible_lp lp y"
  using lprow_cong [of "lp_nVars lp" x y] by (simp add: feasible_lp_def)

lemma art_ok_ray:
  assumes "art_ok sx" and "e < nNonArt sx"
  shows "art_zero sx (ray sx e t)" and "art_zero sx (bsol sx)"
  using assms by (auto simp: art_zero_def ray_def bsol_def art_ok_def intro!: sum.neutral)

lemma bsol_art_zero: "art_ok sx \<Longrightarrow> art_zero sx (bsol sx)"
  by (auto simp: art_zero_def bsol_def art_ok_def intro!: sum.neutral)

lemma phase2_spec:
  assumes run: "phase2 sx (lp_objective lp) = Inr (st, obj, x)" and wf: "wf_lp lp" and inv: "tinv sx" "art_ok sx"
    and ok: "init_ok lp (length (lp_eqRows lp) + length (lp_geRows lp)) sx0" and dm: "dims sx = dims sx0"
    and so: "\<And>y. sol sx y \<longleftrightarrow> sol sx0 y"
  shows "lp_answer lp \<lparr>sol_status = st, sol_objective = obj, sol_x = x\<rparr>"
proof -
  let ?c = "lp_objective lp" and ?n = "lp_nVars lp"
  have lim: "lim_list ?c" using wf by (simp add: wf_lp_def)
  note d0 = dims_eqD [OF dm]
  have d: "sx_nStruct sx = 2 * ?n" "sx_nVars sx = ?n" "2 * ?n \<le> nNonArt sx" "nNonArt sx \<le> sx_nCols sx"
    using ok inv(1) d0 by (auto simp: init_ok_def nNonArt_def tinv_def)
  then have le: "2 * ?n \<le> sx_nCols sx" by linarith
  from run obtain cost s1 st1 where c: "phase2_cost sx ?c = Inr cost" and r: "runSimplex sx cost (nNonArt sx) = Inr (st1, s1)"
    and rest: "(if st1 \<noteq> LpOptimal then Inr (st1, rat_zero, [])
       else mlk_try (extractX s1) (\<lambda>xv. mlk_try (objective_value ?c xv) (\<lambda>obj. Inr (LpOptimal, obj, xv)))) = Inr (st, obj, x)"
    by (auto simp: phase2_def mlk_try_Inr_iff)
  note cs = phase2_cost_spec [OF c lim d(1) le]
  from runSimplex_spec [OF r inv(1)] cs obtain zo where re: "reached (nNonArt sx) sx s1"
    and z: "zinv s1 (zval cost) zo" "zbasis (sx_m s1) s1 (fst zo)" and v: "verdict st1 (nNonArt sx) s1 (fst zo)" by blast
  have t1: "tinv s1" and dm1: "dims s1 = dims sx" and so1: "\<And>y. sol s1 y \<longleftrightarrow> sol sx0 y" and a1: "art_ok s1"
    using re so inv(2) by (auto simp: reached_def)
  note d1 = dims_eqD [OF dm1]
  have cost: "dot (sx_nCols s1) (zval cost) y = lprow ?n ?c (proj y)" for y
  proof -
    have "dot (sx_nCols s1) (zval cost) y = (\<Sum>j<2 * ?n + (sx_nCols sx - 2 * ?n). split_coef ?n ?c j * y j)"
      using cs d1 le by (simp add: dot_def)
    also have "\<dots> = (\<Sum>j<2 * ?n. split_coef ?n ?c j * y j) + 0"
      unfolding sum_add_range by (simp add: split_coef_def)
    finally show ?thesis by (simp add: split_sum)
  qed
  have az: "art_zero sx0 y" if "art_zero s1 y" for y
    using that dims_eqD [OF trans [OF dm1 dm]] by (simp add: art_zero_def)
  note feas = sol_feasible [OF ok]
  show ?thesis
  proof (cases "st1 = LpOptimal")
    case True
    with rest obtain xv where xv: "extractX s1 = Inr x" "objective_value ?c x = Inr obj" "st = LpOptimal"
      by (auto simp: mlk_try_Inr_iff)
    have n1: "sx_nStruct s1 = 2 * sx_nVars s1" using d d1 by simp
    note ex = extractX_spec [OF xv(1) t1 n1]
    have xs: "length x = ?n" "lim_list x" "\<And>k. k < ?n \<Longrightarrow> rat_val (x ! k) = proj (bsol s1) k" using ex d d1 by auto
    have "feasible_lp lp (proj (bsol s1))"
      using bsol_sol [OF t1] so1 bsol_nonneg [OF t1] az [OF bsol_art_zero [OF a1]] by (intro feas) auto
    then have f: "feasible_lp lp (\<lambda>k. rat_val (x ! k))" using feasible_cong [of lp "\<lambda>k. rat_val (x ! k)" "proj (bsol s1)"] xs(3) by simp
    have o: "rat_val obj = lprow ?n ?c (\<lambda>k. rat_val (x ! k))"
      using objective_value_spec [OF xv(2) lim xs(2)] xs(1) by simp
    then have ob: "rat_val obj = dot (sx_nCols s1) (zval cost) (bsol s1)"
      unfolding cost using lprow_cong [of ?n "\<lambda>k. rat_val (x ! k)" "proj (bsol s1)"] xs(3) by simp
    have "rat_val obj \<le> lprow ?n ?c y" if y: "feasible_lp lp y" for y
    proof -
      note ly = feasible_sol [OF ok y]
      have "art_zero s1 (lift_point lp y)" using ly(3) dims_eqD [OF trans [OF dm1 dm]] by (simp add: art_zero_def)
      then have "dot (sx_nCols s1) (zval cost) (bsol s1) \<le> dot (sx_nCols s1) (zval cost) (lift_point lp y)"
        using v True ly so1 d1 by (intro optimal_least [OF t1 z, of "nNonArt sx"]) (auto simp: art_zero_def)
      then show ?thesis
        unfolding ob cost using lprow_cong [of ?n "proj (lift_point lp y)" y] proj_lift [of _ lp y] by simp
    qed
    with f o xs(1,2) xv(3) objective_value_spec [OF xv(2) lim xs(2)] show ?thesis by (simp add: lp_answer_def)
  next
    case False
    with v rest have un: "st1 = LpUnbounded" "st = LpUnbounded" by (auto simp: verdict_def)
    from unbounded_ray [OF t1 z v [unfolded un(1)]] obtain e where e: "e < nNonArt sx" "e < sx_nCols s1"
      "\<forall>r < sx_m s1. tab s1 r e \<le> 0" "zval (fst zo) e < 0"
      and ce: "\<forall>t. dot (sx_nCols s1) (zval cost) (ray s1 e t) = t * zval (fst zo) e - rat_val (snd zo)" by blast
    have "\<exists>x. feasible_lp lp x \<and> lprow ?n ?c x < b" for b
    proof -
      define t where "t = (\<bar>rat_val (snd zo) + b\<bar> + 1) / (- zval (fst zo) e)"
      have t: "0 \<le> t" using e(4) by (simp add: t_def divide_nonneg_neg)
      have ar: "art_zero sx0 (ray s1 e t)" using e(1) d1 by (intro az art_ok_ray(1) [OF a1]) simp
      have "feasible_lp lp (proj (ray s1 e t))"
        using ray_sol [OF t1 e(2)] so1 ray_nonneg [OF t1 t e(3)] ar by (intro feas) auto
      moreover have "t * zval (fst zo) e = - (\<bar>rat_val (snd zo) + b\<bar> + 1)" using e(4) by (simp add: t_def)
      then have "lprow ?n ?c (proj (ray s1 e t)) < b" using spec [OF ce, of t] unfolding cost by linarith
      ultimately show ?thesis by blast
    qed
    with un show ?thesis by (simp add: lp_answer_def)
  qed
qed

lemma solveLp_answer:
  assumes "solveLp lp = Inr s" and wf: "wf_lp lp"
  shows "lp_answer lp s"
proof -
  from assms(1) obtain sx0 ok sx where b: "build lp = Inr (Some sx0)" and p1: "phase1 sx0 = Inr (ok, sx)"
    and rest: "(if \<not> ok then Inr \<lparr>sol_status = LpInfeasible, sol_objective = rat_zero, sol_x = []\<rparr>
            else mlk_try (phase2 sx (lp_objective lp)) (\<lambda>(st, obj, x).
              Inr \<lparr>sol_status = st, sol_objective = obj, sol_x = x\<rparr>)) = Inr s"
    by (auto simp: solveLp_def mlk_try_Inr_iff split: if_splits option.splits)
  note io = build_spec [OF b wf]
  have cols: "sx_nCols sx0 = nNonArt sx0 + sx_nArt sx0" using io by (simp add: init_ok_def nNonArt_def)
  note ps = phase1_spec [OF p1 init_tinv [OF io] cols]
  show ?thesis
  proof (cases ok)
    case False
    then have "\<not> feasible_lp lp x" for x using ps feasible_sol [OF io, of x] by auto
    with rest False show ?thesis by (auto simp: lp_answer_def)
  next
    case True
    with rest obtain st obj x where p2: "phase2 sx (lp_objective lp) = Inr (st, obj, x)"
      and s: "s = \<lparr>sol_status = st, sol_objective = obj, sol_x = x\<rparr>" by (auto simp: mlk_try_Inr_iff)
    have "tinv sx" "art_ok sx" "dims sx = dims sx0" "\<And>y. sol sx y \<longleftrightarrow> sol sx0 y" using ps True by auto
    from phase2_spec [OF p2 wf this(1,2) io this(3,4)] show ?thesis by (simp add: s)
  qed
qed

end
