(* ===== verification/Lp_Properties.thy ===== *)
theory Lp_Properties
  imports Lp_Solver
begin

text \<open>
  What the LP solver promises: each of its three verdicts is exact over the rationals, and each
  pivot keeps the solutions of the tableau and its feasible basis.
\<close>

definition int_rat :: "int \<Rightarrow> rational" where "int_rat n = \<lparr>num = n, den = 1\<rparr>"

text \<open>Minimise \<open>x + y\<close> under \<open>x + 2 y = 4\<close>, \<open>x \<ge> 1\<close>, \<open>y \<ge> -3\<close>, and two variants of it.\<close>

definition small_lp :: "int list \<Rightarrow> int \<Rightarrow> linear_program" where
  "small_lp cs k = \<lparr>lp_nVars = 2, lp_eqRows = [map int_rat [1, 2]], lp_eqRhs = [int_rat 4],
     lp_geRows = [map int_rat [1, 0], map int_rat [0, 1]], lp_geRhs = [int_rat 1, int_rat k],
     lp_objective = map int_rat cs\<rparr>"

definition free_lp :: linear_program where
  "free_lp = \<lparr>lp_nVars = 1, lp_eqRows = [], lp_eqRhs = [], lp_geRows = [[int_rat 1]], lp_geRhs = [int_rat 0],
     lp_objective = [int_rat (-1)]\<rparr>"

definition lp_halves :: rational where "lp_halves = \<lparr>num = 5, den = 2\<rparr>"

text \<open>
  C4. Each verdict of \<open>solveLp\<close> is exact over the rationals. Optimal: the point returned
  satisfies every row and its objective value is the least of all feasible points. Infeasible: no
  rational point satisfies the rows. Unbounded: feasible points have arbitrarily small objective
  values. The program's entries are within the rational limit and its column count fits 32 bits.
\<close>
theorem solveLp_exact:
  assumes "solveLp lp = Inr s" and "wf_lp lp"
  shows "case sol_status s of
      LpOptimal \<Rightarrow> length (sol_x s) = lp_nVars lp
        \<and> feasible_lp lp (\<lambda>k. rat_val (sol_x s ! k))
        \<and> rat_val (sol_objective s) = lprow (lp_nVars lp) (lp_objective lp) (\<lambda>k. rat_val (sol_x s ! k))
        \<and> (\<forall>x. feasible_lp lp x \<longrightarrow> rat_val (sol_objective s) \<le> lprow (lp_nVars lp) (lp_objective lp) x)
    | LpInfeasible \<Rightarrow> \<forall>x. \<not> feasible_lp lp x
    | LpUnbounded \<Rightarrow> \<forall>b. \<exists>x. feasible_lp lp x \<and> lprow (lp_nVars lp) (lp_objective lp) x < b"
  using solveLp_answer [OF assms] unfolding lp_answer_def by (cases "sol_status s") auto

lemma solveLp_exact_witness:
  "solveLp (small_lp [1, 1] (-3)) = Inr \<lparr>sol_status = LpOptimal, sol_objective = lp_halves, sol_x = [int_rat 1, \<lparr>num = 3, den = 2\<rparr>]\<rparr>
   \<and> feasible_lp (small_lp [1, 1] (-3)) (\<lambda>k. rat_val ([int_rat 1, \<lparr>num = 3, den = 2\<rparr>] ! k))
   \<and> (\<nexists>x. feasible_lp (small_lp [1, 1] 3) x)
   \<and> (\<exists>x. feasible_lp free_lp x \<and> lprow 1 [int_rat (-1)] x < -1000)"
proof -
  have run: "solveLp (small_lp [1, 1] (-3)) = Inr \<lparr>sol_status = LpOptimal, sol_objective = lp_halves, sol_x = [int_rat 1, \<lparr>num = 3, den = 2\<rparr>]\<rparr>"
    "solveLp (small_lp [1, 1] 3) = Inr \<lparr>sol_status = LpInfeasible, sol_objective = rat_zero, sol_x = []\<rparr>"
    "solveLp free_lp = Inr \<lparr>sol_status = LpUnbounded, sol_objective = rat_zero, sol_x = []\<rparr>" by code_simp+
  have wf: "wf_lp (small_lp [1, 1] (-3))" "wf_lp (small_lp [1, 1] 3)" "wf_lp free_lp" by code_simp+
  have "lp_nVars free_lp = 1" "lp_objective free_lp = [int_rat (-1)]" by (simp_all add: free_lp_def)
  with solveLp_exact [OF run(1) wf(1)] solveLp_exact [OF run(2) wf(2)] solveLp_exact [OF run(3) wf(3)] run(1)
  show ?thesis by simp
qed

text \<open>The tableau of \<open>x \<ge> 3\<close> (columns \<open>x+ x- s a\<close>) before and after \<open>x\<close> enters.\<close>

definition tableau :: "rational list \<Rightarrow> nat \<Rightarrow> simplex" where
  "tableau row b = \<lparr>sx_nVars = 1, sx_nStruct = 2, sx_nSurplus = 1, sx_nArt = 1, sx_nCols = 4, sx_m = 1,
     sx_rows = [row], sx_rhs = [int_rat 3], sx_basis = [b]\<rparr>"

text \<open>
  A pivot keeps the tableau well formed, its size, and exactly the points that solve its rows;
  the entering column becomes the basic one of its row.
\<close>
theorem pivot_keeps_solutions:
  assumes "pivot sx r c = Inr sx'" and "wf_tab sx" and "r < sx_m sx" and "c < sx_nCols sx"
  shows "wf_tab sx' \<and> dims sx' = dims sx \<and> sx_basis sx' = (sx_basis sx)[r := c]
    \<and> (\<forall>i < sx_m sx. tab sx' i c = (if i = r then 1 else 0)) \<and> (\<forall>y. sol sx' y \<longleftrightarrow> sol sx y)"
  using pivot_spec [OF assms] pivoted_sol [of sx r c sx'] assms(3,4) by (auto simp: pivoted_def)

lemma pivot_keeps_solutions_witness:
  "pivot (tableau (map int_rat [1, -1, -1, 1]) 3) 0 0 = Inr (tableau (map int_rat [1, -1, -1, 1]) 0)
   \<and> (sol (tableau (map int_rat [1, -1, -1, 1]) 0) (\<lambda>_. 1) \<longleftrightarrow> sol (tableau (map int_rat [1, -1, -1, 1]) 3) (\<lambda>_. 1))"
proof -
  let ?t = "tableau (map int_rat [1, -1, -1, 1])"
  have run: "pivot (?t 3) 0 0 = Inr (?t 0)" by code_simp
  have "wf_tab (?t 3)" "0 < sx_m (?t 3)" "0 < sx_nCols (?t 3)" by code_simp+
  from pivot_keeps_solutions [OF run this] run show ?thesis by blast
qed

end
