(* ===== verification/Affine_Map.thy ===== *)
theory Affine_Map
  imports Projection
begin

text \<open>
  Affine maps, \<open>polyhedral/src/affine_map.cpp\<close>: evaluation, composition, and the image and
  preimage of a set through the product space [map inputs | map outputs | symbols].
\<close>

record affine_map =
  map_inSpace :: var_space
  map_nOut :: nat
  map_outputs :: "affine_expr list"

definition map_identity :: "var_space \<Rightarrow> affine_map" where
  "map_identity sp = \<lparr>map_inSpace = sp, map_nOut = nDims sp, map_outputs = map (expr_variable sp) [0..<nDims sp]\<rparr>"

definition constantMap :: "var_space \<Rightarrow> int \<Rightarrow> affine_map" where
  "constantMap sp v = \<lparr>map_inSpace = sp, map_nOut = 1, map_outputs = [expr_fromConstant sp v]\<rparr>"

definition map_evalAt :: "affine_map \<Rightarrow> int list \<Rightarrow> int list result" where
  "map_evalAt m vars = map_res (\<lambda>e. expr_evalAt e vars) (map_outputs m)"

definition map_sameAs :: "affine_map \<Rightarrow> affine_map \<Rightarrow> bool" where
  "map_sameAs a b \<longleftrightarrow> space_sameAs (map_inSpace a) (map_inSpace b) \<and> map_nOut a = map_nOut b
     \<and> length (map_outputs a) = length (map_outputs b)
     \<and> (\<forall>i < length (map_outputs a). exprEqual (map_outputs a ! i) (map_outputs b ! i))"

section \<open>Composition\<close>

definition compose_step :: "affine_map \<Rightarrow> affine_expr \<Rightarrow> nat \<Rightarrow> affine_expr \<Rightarrow> affine_expr result" where
  "compose_step inner oe j acc =
     mlk_try (exprScale (map_outputs inner ! j) (expr_coeffOf oe j)) (\<lambda>scaled. exprAdd acc scaled)"

definition compose_expr :: "affine_map \<Rightarrow> affine_expr \<Rightarrow> affine_expr result" where
  "compose_expr inner oe =
     mlk_try (fold_res (compose_step inner oe) [0..<min (map_nOut inner) (length (map_outputs inner))]
        (expr_fromConstant (map_inSpace inner) (expr_constant oe))) (\<lambda>acc.
     if \<not> withinLimits acc then Inl (Err ResourceExhausted) else Inr acc)"

definition mapCompose :: "affine_map \<Rightarrow> affine_map \<Rightarrow> affine_map result" where
  "mapCompose outer inner =
     (if nDims (map_inSpace outer) \<noteq> map_nOut inner then Inl (Err InvalidArgument)
      else if nSyms (map_inSpace outer) \<noteq> nSyms (map_inSpace inner) then Inl (Err InvalidArgument)
      else mlk_try (map_res (compose_expr inner) (map_outputs outer)) (\<lambda>outs.
        Inr \<lparr>map_inSpace = map_inSpace inner, map_nOut = map_nOut outer, map_outputs = outs\<rparr>))"

section \<open>The product space\<close>

text \<open>Rows computed one by one and added until the system is found empty.\<close>

fun push_rows :: "('a \<Rightarrow> constraint_row result) \<Rightarrow> 'a list \<Rightarrow> polyhedron \<Rightarrow> polyhedron result" where
  "push_rows f [] target = Inr target"
| "push_rows f (z # zs) target =
     mlk_try (f z) (\<lambda>r. let target = addRow target r in
       if isEmptyFlag target then Inr target else push_rows f zs target)"

definition put_dim :: "nat \<Rightarrow> int list \<Rightarrow> nat \<Rightarrow> int list \<Rightarrow> int list result" where
  "put_dim off src d cs =
     (if off + d \<ge> length cs then Inl (Err InvalidArgument) else Inr (cs[off + d := src ! d]))"

definition put_sym :: "nat \<Rightarrow> nat \<Rightarrow> int list \<Rightarrow> nat \<Rightarrow> int list \<Rightarrow> int list" where
  "put_sym nd symBase src s cs =
     (if nd + s < length src \<and> symBase + s < length cs then cs[symBase + s := src ! (nd + s)] else cs)"

definition embed_row :: "var_space \<Rightarrow> nat \<Rightarrow> nat \<Rightarrow> nat \<Rightarrow> constraint_row \<Rightarrow> constraint_row result" where
  "embed_row sp off symBase n r =
     mlk_try (fold_res (put_dim off (row_coeffs r)) [0..<min (nDims sp) (length (row_coeffs r))] (replicate n 0)) (\<lambda>cs.
       Inr \<lparr>row_coeffs = fold (put_sym (nDims sp) symBase (row_coeffs r)) [0..<nSyms sp] cs,
            row_constant = row_constant r, row_isEquality = row_isEquality r\<rparr>)"

definition embedSystem :: "polyhedron \<Rightarrow> nat \<Rightarrow> nat \<Rightarrow> polyhedron \<Rightarrow> polyhedron result" where
  "embedSystem src off symBase target =
     (if isEmptyFlag src then Inr (target\<lparr>isEmptyFlag := True\<rparr>)
      else if rowsOverflow src then Inl (Err ResourceExhausted)
      else push_rows (embed_row (poly_space src) off symBase (totalVars (poly_space target))) (poly_rows src) target)"

definition remap_row :: "nat list \<Rightarrow> nat \<Rightarrow> nat \<Rightarrow> nat \<Rightarrow> constraint_row \<Rightarrow> constraint_row" where
  "remap_row slots symBase ns nOut r =
     r\<lparr>row_coeffs := map (\<lambda>d. if d < length slots then row_coeffOf r (slots ! d) else 0) [0..<nOut]
         @ map (\<lambda>s. row_coeffOf r (symBase + s)) [0..<ns]\<rparr>"

definition remapToDimFirst :: "polyhedron \<Rightarrow> nat list \<Rightarrow> nat \<Rightarrow> nat \<Rightarrow> nat \<Rightarrow> polyhedron" where
  "remapToDimFirst sys slots symBase ns nOut =
     fold (\<lambda>r p. addRow p (remap_row slots symBase ns nOut r)) (poly_rows sys)
       ((new_poly \<lparr>nDims = nOut, nSyms = ns\<rparr>)\<lparr>isEmptyFlag := isEmptyFlag sys\<rparr>)"

definition sub_coef :: "nat \<Rightarrow> nat \<Rightarrow> int list \<Rightarrow> nat \<Rightarrow> int list \<Rightarrow> int list result" where
  "sub_coef to from src i cs =
     mlk_try (plain64 (cs ! (to + i) - src ! (from + i))) (\<lambda>v. Inr (cs[to + i := v]))"

definition tie_row :: "affine_map \<Rightarrow> nat \<Rightarrow> nat \<Rightarrow> nat \<Rightarrow> nat \<Rightarrow> constraint_row result" where
  "tie_row m xBase symBase n j = (let f = map_outputs m ! j; sp = map_inSpace m in
     if \<not> space_sameAs (expr_space f) sp then Inl (Err InvalidArgument) else
     mlk_try (fold_res (sub_coef 0 0 (expr_coeffs f)) [0..<nDims sp] ((replicate n 0)[xBase + j := 1])) (\<lambda>cs.
     mlk_try (fold_res (sub_coef symBase (nDims sp) (expr_coeffs f)) [0..<nSyms sp] cs) (\<lambda>cs.
     mlk_try (plain64 (- expr_constant f)) (\<lambda>k.
       Inr \<lparr>row_coeffs = cs, row_constant = k, row_isEquality = True\<rparr>))))"

definition addTieRows :: "affine_map \<Rightarrow> nat \<Rightarrow> nat \<Rightarrow> polyhedron \<Rightarrow> polyhedron result" where
  "addTieRows m xBase symBase target =
     push_rows (tie_row m xBase symBase (totalVars (poly_space target))) [0..<map_nOut m] target"

section \<open>Image and preimage\<close>

fun embed_disjuncts :: "nat \<Rightarrow> nat \<Rightarrow> polyhedron list \<Rightarrow> polyhedron \<Rightarrow> polyhedron result" where
  "embed_disjuncts off symBase [] p = Inr p"
| "embed_disjuncts off symBase (src # srcs) p =
     (if isEmptyFlag src then embed_disjuncts off symBase srcs p
      else mlk_try (embedSystem src off symBase p) (\<lambda>p.
        if isEmptyFlag p then Inr p else embed_disjuncts off symBase srcs p))"

definition prod_space :: "affine_map \<Rightarrow> var_space" where
  "prod_space m = \<lparr>nDims = nDims (map_inSpace m) + map_nOut m, nSyms = nSyms (map_inSpace m)\<rparr>"

text \<open>The product system; \<open>None\<close> where the source returns the empty set early.\<close>

definition product_system :: "presburger \<Rightarrow> affine_map \<Rightarrow> nat \<Rightarrow> polyhedron option result" where
  "product_system s m off = (let symBase = nDims (map_inSpace m) + map_nOut m in
     mlk_try (embed_disjuncts off symBase (disjuncts s) (new_poly (prod_space m))) (\<lambda>p.
       if live (disjuncts s) = [] \<or> isEmptyFlag p then Inr None
       else mlk_try (addTieRows m (nDims (map_inSpace m)) symBase p) (\<lambda>p.
         Inr (if isEmptyFlag p then None else Some p))))"

definition project_system :: "affine_map \<Rightarrow> polyhedron \<Rightarrow> bool list \<Rightarrow> nat list \<Rightarrow> nat \<Rightarrow> presburger result" where
  "project_system m p keep slots nOut = (let ns = nSyms (map_inSpace m) in
     mlk_try (existsProject \<lparr>set_space = prod_space m, disjuncts = [p]\<rparr> keep) (\<lambda>projected.
       Inr \<lparr>set_space = \<lparr>nDims = nOut, nSyms = ns\<rparr>,
            disjuncts = [remapToDimFirst (disjuncts projected ! 0) slots
              (nDims (map_inSpace m) + map_nOut m) ns nOut]\<rparr>))"

definition mapImage :: "presburger \<Rightarrow> affine_map \<Rightarrow> presburger result" where
  "mapImage s m = (let nIn = nDims (map_inSpace m); nOut = map_nOut m; ns = nSyms (map_inSpace m) in
     if nDims (set_space s) \<noteq> nIn \<or> nSyms (set_space s) \<noteq> ns then Inl (Err InvalidArgument)
     else mlk_try (product_system s m 0) (\<lambda>prod. case prod of
         None \<Rightarrow> Inr (presburger_empty \<lparr>nDims = nOut, nSyms = ns\<rparr>)
       | Some p \<Rightarrow> project_system m p (replicate nIn False @ replicate nOut True) (map (\<lambda>j. nIn + j) [0..<nOut]) nOut))"

definition mapPreimage :: "presburger \<Rightarrow> affine_map \<Rightarrow> presburger result" where
  "mapPreimage s m = (let nIn = nDims (map_inSpace m); nOut = map_nOut m; ns = nSyms (map_inSpace m) in
     if nDims (set_space s) \<noteq> nOut \<or> nSyms (set_space s) \<noteq> ns then Inl (Err InvalidArgument)
     else mlk_try (product_system s m nIn) (\<lambda>prod. case prod of
         None \<Rightarrow> Inr (presburger_empty \<lparr>nDims = nIn, nSyms = ns\<rparr>)
       | Some p \<Rightarrow> project_system m p (replicate nIn True @ replicate nOut False) [0..<nIn] nIn))"

text \<open>
  The meaning of the product-space constructions: an embedded row holds at a product point exactly
  when the source row holds at its projection, a tie row when the output coordinate is the value
  of its expression, a remapped row at the compacted point.
\<close>

section \<open>Expressions and maps\<close>

definition wf_map :: "affine_map \<Rightarrow> bool" where
  "wf_map m \<longleftrightarrow> length (map_outputs m) = map_nOut m
     \<and> (\<forall>e \<in> set (map_outputs m). wf_expr e \<and> expr_space e = map_inSpace m)"

lemma wf_mapD:
  assumes "wf_map m" and "j < map_nOut m"
  shows "wf_expr (map_outputs m ! j)" "expr_space (map_outputs m ! j) = map_inSpace m"
    "length (expr_coeffs (map_outputs m ! j)) = totalVars (map_inSpace m)"
  using assms by (auto simp: wf_map_def wf_expr_def)

lemma lin_split: "lin cs y = lin (take n cs) y + lin (drop n cs) (\<lambda>i. y (n + i))"
proof (cases "n \<le> length cs")
  case True
  have "lin (take n cs @ drop n cs) y = lin (take n cs) y + lin (drop n cs) (\<lambda>i. y (length (take n cs) + i))"
    by (rule lin_append)
  then show ?thesis using True by simp
qed simp

text \<open>The point at which an embedded system is read.\<close>

definition embed_val :: "nat \<Rightarrow> nat \<Rightarrow> nat \<Rightarrow> (nat \<Rightarrow> 'a) \<Rightarrow> nat \<Rightarrow> 'a" where
  "embed_val nd off symBase y i = (if i < nd then y (off + i) else y (symBase + (i - nd)))"

lemma lin_embed_val:
  assumes "length cs = nd + ns"
  shows "lin cs (embed_val nd off symBase y) = lin (take nd cs) (\<lambda>i. y (off + i)) + lin (drop nd cs) (\<lambda>i. y (symBase + i))"
proof -
  have "lin (take nd cs) (embed_val nd off symBase y) = lin (take nd cs) (\<lambda>i. y (off + i))"
    by (rule lin_cong) (simp add: embed_val_def)
  moreover have "lin (drop nd cs) (\<lambda>i. embed_val nd off symBase y (nd + i)) = lin (drop nd cs) (\<lambda>i. y (symBase + i))"
    by (rule lin_cong) (simp add: embed_val_def)
  ultimately show ?thesis using lin_split [of cs "embed_val nd off symBase y" nd] by simp
qed

lemma lin_take_Suc: "k < length cs \<Longrightarrow> lin (take (Suc k) cs) x = lin (take k cs) x + of_int (cs ! k) * x k"
  by (simp add: take_Suc_conv_app_nth lin_snoc)

section \<open>The loops that fill a row\<close>

lemma put_dim_Inr: "put_dim off src d u = Inr cs \<longleftrightarrow> off + d < length u \<and> cs = u[off + d := src ! d]"
  by (auto simp: put_dim_def)

lemma sub_coef_Inr:
  "sub_coef to from src i u = Inr ds \<longleftrightarrow> in_i64 (u ! (to + i) - src ! (from + i))
     \<and> ds = u[to + i := u ! (to + i) - src ! (from + i)]"
  by (auto simp: sub_coef_def mlk_try_Inr_iff plain64_Inr)

lemma put_dims:
  assumes "fold_res (put_dim off src) [0..<k] (replicate n 0) = Inr cs" and "k \<le> length src"
  shows "length cs = n \<and> (\<forall>i < n. \<not> (off \<le> i \<and> i < off + k) \<longrightarrow> cs ! i = 0)
    \<and> lin cs y = lin (take k src) (\<lambda>i. y (off + i))"
  using assms
proof (induction k arbitrary: cs)
  case (Suc k)
  then obtain u where u: "fold_res (put_dim off src) [0..<k] (replicate n 0) = Inr u" "off + k < length u"
    "cs = u[off + k := src ! k]"
    by (auto simp: fold_res_append mlk_try_Inr_iff put_dim_Inr)
  from Suc.IH [OF u(1)] Suc.prems(2) have i: "length u = n" "u ! (off + k) = 0"
    "\<And>i. i < n \<Longrightarrow> \<not> (off \<le> i \<and> i < off + k) \<Longrightarrow> u ! i = 0" "lin u y = lin (take k src) (\<lambda>i. y (off + i))"
    using u(2) by auto
  have "lin cs y = lin u y + of_int (src ! k) * y (off + k)"
    using lin_list_update [OF u(2), of "src ! k" y] i(2) u(3) by simp
  then have "lin cs y = lin (take (Suc k) src) (\<lambda>i. y (off + i))"
    using lin_take_Suc [of k src "\<lambda>i. y (off + i)"] Suc.prems(2) i(4) by simp
  moreover have "cs ! j = 0" if "j < n" "\<not> (off \<le> j \<and> j < off + Suc k)" for j
    using that i(3) [of j] u(3) by (cases "j = off + k") auto
  ultimately show ?case using i(1) u(3) by simp
qed simp

lemma put_syms:
  assumes "\<And>s. s < k \<Longrightarrow> cs ! (symBase + s) = 0" and "length src = nd + ns" and "k \<le> ns" and "symBase + k \<le> length cs"
  shows "length (fold (put_sym nd symBase src) [0..<k] cs) = length cs
    \<and> (\<forall>i \<ge> symBase + k. fold (put_sym nd symBase src) [0..<k] cs ! i = cs ! i)
    \<and> lin (fold (put_sym nd symBase src) [0..<k] cs) y = lin cs y + lin (take k (drop nd src)) (\<lambda>i. y (symBase + i))"
  using assms
proof (induction k)
  case (Suc k)
  let ?u = "fold (put_sym nd symBase src) [0..<k] cs"
  have i: "length ?u = length cs" "\<And>i. symBase + k \<le> i \<Longrightarrow> ?u ! i = cs ! i"
    "lin ?u y = lin cs y + lin (take k (drop nd src)) (\<lambda>i. y (symBase + i))"
    using Suc by auto
  have b: "symBase + k < length ?u" "nd + k < length src" using i(1) Suc.prems by auto
  have f: "fold (put_sym nd symBase src) [0..<Suc k] cs = ?u[symBase + k := src ! (nd + k)]"
    using b by (simp add: put_sym_def)
  have "?u ! (symBase + k) = 0" using i(2) [of "symBase + k"] Suc.prems(1) by simp
  then have "lin (?u[symBase + k := src ! (nd + k)]) y = lin ?u y + of_int (src ! (nd + k)) * y (symBase + k)"
    using lin_list_update [OF b(1), of "src ! (nd + k)" y] by simp
  moreover have "lin (take (Suc k) (drop nd src)) (\<lambda>i. y (symBase + i))
      = lin (take k (drop nd src)) (\<lambda>i. y (symBase + i)) + of_int (src ! (nd + k)) * y (symBase + k)"
    using lin_take_Suc [of k "drop nd src" "\<lambda>i. y (symBase + i)"] b(2) by simp
  ultimately show ?case using i unfolding f by simp
qed simp

lemma sub_coefs:
  assumes "fold_res (sub_coef to from src) [0..<k] cs = Inr ds" and "to + k \<le> length cs" and "from + k \<le> length src"
  shows "length ds = length cs \<and> lin ds y = lin cs y - lin (take k (drop from src)) (\<lambda>i. y (to + i))"
  using assms
proof (induction k arbitrary: ds)
  case (Suc k)
  then obtain u where u: "fold_res (sub_coef to from src) [0..<k] cs = Inr u"
    "ds = u[to + k := u ! (to + k) - src ! (from + k)]"
    by (auto simp: fold_res_append mlk_try_Inr_iff sub_coef_Inr)
  from Suc.IH [OF u(1)] Suc.prems have i: "length u = length cs"
    "lin u y = lin cs y - lin (take k (drop from src)) (\<lambda>i. y (to + i))" by auto
  have "lin ds y = lin u y - of_int (src ! (from + k)) * y (to + k)"
    using lin_list_update [of "to + k" u "u ! (to + k) - src ! (from + k)" y] i(1) Suc.prems(2) u(2) by simp
  then show ?case
    using lin_take_Suc [of k "drop from src" "\<lambda>i. y (to + i)"] Suc.prems(3) i u(2) by (simp add: algebra_simps)
qed simp

section \<open>Rows of the product\<close>

lemma embed_row_sat:
  assumes "embed_row sp off symBase n r = Inr r'" and "length (row_coeffs r) = totalVars sp"
    and "off + nDims sp \<le> symBase" and "symBase + nSyms sp \<le> n"
  shows "(row_sat r' y \<longleftrightarrow> row_sat r (embed_val (nDims sp) off symBase y)) \<and> length (row_coeffs r') = n"
proof -
  let ?c = "row_coeffs r"
  have len: "length ?c = nDims sp + nSyms sp" using assms(2) by (simp add: totalVars_def)
  then have "min (nDims sp) (length ?c) = nDims sp" by simp
  with assms(1) obtain cs where cs: "fold_res (put_dim off ?c) [0..<nDims sp] (replicate n 0) = Inr cs"
    and r': "r' = \<lparr>row_coeffs = fold (put_sym (nDims sp) symBase ?c) [0..<nSyms sp] cs,
        row_constant = row_constant r, row_isEquality = row_isEquality r\<rparr>"
    by (auto simp: embed_row_def mlk_try_Inr_iff)
  note d = put_dims [OF cs, of y]
  have d1: "length cs = n" "\<And>s. s < nSyms sp \<Longrightarrow> cs ! (symBase + s) = 0"
    "lin cs y = lin (take (nDims sp) ?c) (\<lambda>i. y (off + i))"
    using d len assms(3,4) by auto
  note s = put_syms [of "nSyms sp" cs symBase ?c "nDims sp" "nSyms sp" y, OF d1(2) len order_refl]
  have "lin (row_coeffs r') y = lin ?c (embed_val (nDims sp) off symBase y)" "length (row_coeffs r') = n"
    using s d1 assms(4) lin_embed_val [OF len, of off symBase y] len unfolding r' by simp_all
  then show ?thesis by (simp add: row_sat_def row_val_def r')
qed

lemma tie_row_sat:
  assumes "tie_row m xBase symBase n j = Inr r" and "wf_map m" and "j < map_nOut m"
    and "nDims (map_inSpace m) \<le> n" and "symBase + nSyms (map_inSpace m) \<le> n" and "xBase + j < n"
  shows "(row_sat r y \<longleftrightarrow> y (xBase + j) = expr_val (map_outputs m ! j) (embed_val (nDims (map_inSpace m)) 0 symBase y))
    \<and> length (row_coeffs r) = n"
proof -
  let ?f = "map_outputs m ! j" and ?sp = "map_inSpace m"
  note f = wf_mapD [OF assms(2,3)]
  have len: "length (expr_coeffs ?f) = nDims ?sp + nSyms ?sp" using f(3) by (simp add: totalVars_def)
  from assms(1) f(2) obtain cs ds where
    cs: "fold_res (sub_coef 0 0 (expr_coeffs ?f)) [0..<nDims ?sp] ((replicate n 0)[xBase + j := 1]) = Inr cs"
    and ds: "fold_res (sub_coef symBase (nDims ?sp) (expr_coeffs ?f)) [0..<nSyms ?sp] cs = Inr ds"
    and r: "r = \<lparr>row_coeffs = ds, row_constant = - expr_constant ?f, row_isEquality = True\<rparr>"
    by (auto simp: tie_row_def Let_def mlk_try_Inr_iff plain64_Inr split: if_splits)
  have 1: "length cs = n" "lin cs y = y (xBase + j) - lin (take (nDims ?sp) (expr_coeffs ?f)) y"
    using sub_coefs [OF cs, of y] assms(4,6) len by auto
  have 2: "length ds = n" "lin ds y = lin cs y - lin (drop (nDims ?sp) (expr_coeffs ?f)) (\<lambda>i. y (symBase + i))"
    using sub_coefs [OF ds, of y] assms(5) 1(1) len by auto
  have "lin (expr_coeffs ?f) (embed_val (nDims ?sp) 0 symBase y) = y (xBase + j) - lin ds y"
    using 1 2 lin_embed_val [OF len, of 0 symBase y] by simp
  then show ?thesis using 2(1) by (auto simp: row_sat_def row_val_def expr_val_def r algebra_simps)
qed

text \<open>
  Both callers keep the contiguous block of dimensions from \<open>off\<close>: the point whose compacted
  coordinates are \<open>z\<close>, with zeros at the dropped dimensions.
\<close>

definition expand :: "nat \<Rightarrow> nat \<Rightarrow> nat \<Rightarrow> (nat \<Rightarrow> 'a::zero) \<Rightarrow> nat \<Rightarrow> 'a" where
  "expand off nOut symBase z i = (if symBase \<le> i then z (nOut + (i - symBase))
     else if off \<le> i \<and> i < off + nOut then z (i - off) else 0)"

lemma lin_at_zero: "(\<And>i. i < length cs \<Longrightarrow> x i = 0) \<Longrightarrow> lin cs x = 0"
  unfolding lin_def by (rule sum.neutral) simp

lemma remap_row_sat:
  assumes "length (row_coeffs r) = symBase + ns" and "off + nOut \<le> symBase"
  shows "row_sat (remap_row (map (\<lambda>j. off + j) [0..<nOut]) symBase ns nOut r) z \<longleftrightarrow> row_sat r (expand off nOut symBase z)"
proof -
  let ?c = "row_coeffs r" and ?e = "expand off nOut symBase z"
  have dims: "map (\<lambda>d. if d < length (map (\<lambda>j. off + j) [0..<nOut]) then row_coeffOf r (map (\<lambda>j. off + j) [0..<nOut] ! d) else 0)
      [0..<nOut] = take nOut (drop off ?c)"
    using assms by (intro nth_equalityI) (auto simp: row_coeffOf_def)
  have syms: "map (\<lambda>s. row_coeffOf r (symBase + s)) [0..<ns] = drop symBase ?c"
    using assms by (intro nth_equalityI) (auto simp: row_coeffOf_def)
  have "lin ?c ?e = lin (take symBase ?c) ?e + lin (drop symBase ?c) (\<lambda>i. ?e (symBase + i))" by (rule lin_split)
  also have "lin (drop symBase ?c) (\<lambda>i. ?e (symBase + i)) = lin (drop symBase ?c) (\<lambda>i. z (nOut + i))"
    by (rule lin_cong) (simp add: expand_def)
  also have "lin (take symBase ?c) ?e = lin (take off ?c) ?e + lin (drop off (take symBase ?c)) (\<lambda>i. ?e (off + i))"
    using lin_split [of "take symBase ?c" ?e off] assms by (simp add: min_def)
  also have "lin (take off ?c) ?e = 0" using assms by (intro lin_at_zero) (simp add: expand_def)
  also have "lin (drop off (take symBase ?c)) (\<lambda>i. ?e (off + i))
      = lin (take nOut (drop off (take symBase ?c))) (\<lambda>i. ?e (off + i))
      + lin (drop nOut (drop off (take symBase ?c))) (\<lambda>i. ?e (off + (nOut + i)))" by (rule lin_split)
  also have "lin (drop nOut (drop off (take symBase ?c))) (\<lambda>i. ?e (off + (nOut + i))) = 0"
    using assms by (intro lin_at_zero) (auto simp: expand_def)
  also have "take nOut (drop off (take symBase ?c)) = take nOut (drop off ?c)"
    using assms by (simp add: drop_take min_def)
  also have "lin (take nOut (drop off ?c)) (\<lambda>i. ?e (off + i)) = lin (take nOut (drop off ?c)) z"
    using assms by (intro lin_cong) (simp add: expand_def)
  finally have "lin ?c ?e = lin (take nOut (drop off ?c) @ drop symBase ?c) z"
    using assms by (simp add: lin_append)
  then show ?thesis unfolding remap_row_def dims syms by (simp add: row_sat_def row_val_def)
qed

lemma remap_as_list:
  "remapToDimFirst sys slots symBase ns nOut = addRowList (map (remap_row slots symBase ns nOut) (poly_rows sys))
     ((new_poly \<lparr>nDims = nOut, nSyms = ns\<rparr>)\<lparr>isEmptyFlag := isEmptyFlag sys\<rparr>)"
  by (simp add: remapToDimFirst_def addRowList_def fold_map comp_def)

lemma remap_sat:
  assumes "wf_poly sys" and "totalVars (poly_space sys) = symBase + ns" and "off + nOut \<le> symBase"
    and "length (poly_rows sys) \<le> kPolyMaxRowsPerSystem"
  shows "poly_sat (remapToDimFirst sys (map (\<lambda>j. off + j) [0..<nOut]) symBase ns nOut) z
    \<longleftrightarrow> poly_sat sys (expand off nOut symBase z)"
proof (cases "isEmptyFlag sys")
  case False
  let ?f = "remap_row (map (\<lambda>j. off + j) [0..<nOut]) symBase ns nOut"
  have "rows_sat (map ?f (poly_rows sys)) z \<longleftrightarrow> rows_sat (poly_rows sys) (expand off nOut symBase z)"
    using remap_row_sat [of _ symBase ns off nOut z] wf_polyD [OF assms(1) False] assms(2,3) by (simp add: rows_sat_def)
  with False assms(4) addRowList_within [of "(new_poly \<lparr>nDims = nOut, nSyms = ns\<rparr>)\<lparr>isEmptyFlag := isEmptyFlag sys\<rparr>"
      "map ?f (poly_rows sys)" z]
  show ?thesis unfolding remap_as_list by (simp add: new_poly_def poly_sat_def)
next
  case True
  then have "isEmptyFlag (addRowList rs ((new_poly \<lparr>nDims = nOut, nSyms = ns\<rparr>)\<lparr>isEmptyFlag := isEmptyFlag sys\<rparr>))" for rs
    by (induction rs) (simp_all add: addRow_def)
  with True show ?thesis unfolding remap_as_list by (simp add: poly_sat_def)
qed

text \<open>Compaction never loses a point, whatever the row count.\<close>

lemma remap_sound:
  assumes "wf_poly sys" and "totalVars (poly_space sys) = symBase + ns" and "off + nOut \<le> symBase"
    and "poly_sat sys (expand off nOut symBase z)"
  shows "poly_sat (remapToDimFirst sys (map (\<lambda>j. off + j) [0..<nOut]) symBase ns nOut) z"
  unfolding remap_as_list
proof (rule addRowList_sound)
  have ne: "\<not> isEmptyFlag sys" using assms(4) by (simp add: poly_sat_def)
  then show "poly_sat ((new_poly \<lparr>nDims = nOut, nSyms = ns\<rparr>)\<lparr>isEmptyFlag := isEmptyFlag sys\<rparr>) z"
    by (simp add: new_poly_def poly_sat_def)
  show "rows_sat (map (remap_row (map (\<lambda>j. off + j) [0..<nOut]) symBase ns nOut) (poly_rows sys)) z"
    using remap_row_sat [of _ symBase ns off nOut z] wf_polyD [OF assms(1) ne] assms(2-4)
    by (simp add: rows_sat_def poly_sat_def)
qed

section \<open>Systems\<close>

lemma push_rows_Cons:
  assumes "push_rows f (z # zs) t = Inr t'"
  obtains r where "f z = Inr r"
    and "if isEmptyFlag (addRow t r) then t' = addRow t r else push_rows f zs (addRow t r) = Inr t'"
  using assms by (auto simp: mlk_try_Inr_iff Let_def split: if_splits)

lemma push_rows_overflow: "push_rows f zs t = Inr t' \<Longrightarrow> rowsOverflow t \<Longrightarrow> rowsOverflow t'"
proof (induction zs arbitrary: t)
  case (Cons z zs)
  from Cons.prems(1) show ?case
  proof (rule push_rows_Cons)
    fix r
    assume "if isEmptyFlag (addRow t r) then t' = addRow t r else push_rows f zs (addRow t r) = Inr t'"
    with Cons.IH [of "addRow t r"] addRow_overflow [OF Cons.prems(2), of r] show ?thesis by (metis (full_types))
  qed
qed simp

lemma push_rows_sat:
  assumes "push_rows f zs t = Inr t'" and "\<And>z r. z \<in> set zs \<Longrightarrow> f z = Inr r \<Longrightarrow> row_sat r y \<longleftrightarrow> P z"
  shows "(poly_sat t y \<longrightarrow> (\<forall>z \<in> set zs. P z) \<longrightarrow> poly_sat t' y)
    \<and> (poly_sat t' y \<longrightarrow> \<not> rowsOverflow t' \<longrightarrow> poly_sat t y \<and> (\<forall>z \<in> set zs. P z))"
  using assms
proof (induction zs arbitrary: t)
  case (Cons z zs)
  from Cons.prems(1) show ?case
  proof (rule push_rows_Cons)
    fix r
    assume r: "f z = Inr r" and
      rest: "if isEmptyFlag (addRow t r) then t' = addRow t r else push_rows f zs (addRow t r) = Inr t'"
    have P: "row_sat r y \<longleftrightarrow> P z" using Cons.prems(2) r by simp
    show ?thesis
    proof (cases "isEmptyFlag (addRow t r)")
      case True
      with rest have "\<not> poly_sat t' y" by (simp add: poly_sat_def)
      moreover from True have "\<not> (poly_sat t y \<and> P z)"
        using addRow_sound [of t y r] P by (auto simp: poly_sat_def)
      ultimately show ?thesis by simp
    next
      case False
      with rest have p: "push_rows f zs (addRow t r) = Inr t'" by simp
      have o: "rowsOverflow (addRow t r) \<Longrightarrow> rowsOverflow t'" by (rule push_rows_overflow [OF p])
      have i: "(poly_sat (addRow t r) y \<longrightarrow> (\<forall>z \<in> set zs. P z) \<longrightarrow> poly_sat t' y)
        \<and> (poly_sat t' y \<longrightarrow> \<not> rowsOverflow t' \<longrightarrow> poly_sat (addRow t r) y \<and> (\<forall>z \<in> set zs. P z))"
        by (rule Cons.IH [OF p]) (use Cons.prems(2) in simp)
      show ?thesis
      proof (intro conjI impI)
        assume "poly_sat t y" "\<forall>z \<in> set (z # zs). P z"
        with P addRow_sound [of t y r] i show "poly_sat t' y" by simp
      next
        assume a: "poly_sat t' y" "\<not> rowsOverflow t'"
        with i have "poly_sat (addRow t r) y" and z: "\<forall>z \<in> set zs. P z" by auto
        with addRow_exact [of t r y] o a(2) have "poly_sat t y" "row_sat r y" by auto
        with P z show "poly_sat t y" "\<forall>z \<in> set (z # zs). P z" by auto
      qed
    qed
  qed
qed simp

lemma push_rows_wf:
  assumes "push_rows f zs t = Inr t'" and "wf_poly t"
    and "\<And>z r. z \<in> set zs \<Longrightarrow> f z = Inr r \<Longrightarrow> length (row_coeffs r) \<le> totalVars (poly_space t)"
  shows "wf_poly t' \<and> poly_space t' = poly_space t"
  using assms
proof (induction zs arbitrary: t)
  case (Cons z zs)
  from Cons.prems(1) show ?case
  proof (rule push_rows_Cons)
    fix r
    assume r: "f z = Inr r" and
      rest: "if isEmptyFlag (addRow t r) then t' = addRow t r else push_rows f zs (addRow t r) = Inr t'"
    have w: "wf_poly (addRow t r)" using wf_addRow [OF Cons.prems(2), of r] Cons.prems(3) [OF _ r] by simp
    show ?thesis
    proof (cases "isEmptyFlag (addRow t r)")
      case False
      with rest have "push_rows f zs (addRow t r) = Inr t'" by simp
      moreover have "length (row_coeffs q) \<le> totalVars (poly_space (addRow t r))" if "x \<in> set zs" "f x = Inr q" for x q
        using Cons.prems(3) [OF _ that(2)] that(1) by simp
      ultimately show ?thesis using Cons.IH [OF _ w] by simp
    qed (use rest w in simp)
  qed
qed simp

end
