(* ===== verification/Map_Sets.thy ===== *)
theory Map_Sets
  imports Affine_Map
begin

text \<open>
  Image and preimage: the product system denotes the graph of the map over the common points of
  the live disjuncts, and projecting it gives the image or the preimage of those points.
\<close>

section \<open>The product system\<close>

definition all_live :: "presburger \<Rightarrow> (nat \<Rightarrow> 'a::linordered_idom) \<Rightarrow> bool" where
  "all_live s x \<longleftrightarrow> live (disjuncts s) \<noteq> [] \<and> (\<forall>p \<in> set (live (disjuncts s)). poly_sat p x)"

definition sym_base :: "affine_map \<Rightarrow> nat" where
  "sym_base m = nDims (map_inSpace m) + map_nOut m"

definition prod_sat :: "presburger \<Rightarrow> affine_map \<Rightarrow> nat \<Rightarrow> (nat \<Rightarrow> 'a::linordered_idom) \<Rightarrow> bool" where
  "prod_sat s m off y \<longleftrightarrow> all_live s (embed_val (nDims (set_space s)) off (sym_base m) y)
     \<and> (\<forall>j < map_nOut m. y (nDims (map_inSpace m) + j)
          = expr_val (map_outputs m ! j) (embed_val (nDims (map_inSpace m)) 0 (sym_base m) y))"

lemma embedSystem_spec:
  assumes "embedSystem src off symBase p = Inr p'" and "\<not> isEmptyFlag src" and "wf_poly src" and "wf_poly p"
    and "off + nDims (poly_space src) \<le> symBase" and "symBase + nSyms (poly_space src) \<le> totalVars (poly_space p)"
  shows "(wf_poly p' \<and> poly_space p' = poly_space p)
    \<and> (poly_sat p y \<longrightarrow> poly_sat src (embed_val (nDims (poly_space src)) off symBase y) \<longrightarrow> poly_sat p' y)
    \<and> (poly_sat p' y \<longrightarrow> \<not> rowsOverflow p' \<longrightarrow> poly_sat p y \<and> poly_sat src (embed_val (nDims (poly_space src)) off symBase y))"
proof -
  let ?f = "embed_row (poly_space src) off symBase (totalVars (poly_space p))"
  let ?e = "embed_val (nDims (poly_space src)) off symBase y"
  from assms(1,2) have run: "push_rows ?f (poly_rows src) p = Inr p'" by (simp add: embedSystem_def split: if_splits)
  have row: "(row_sat r y \<longleftrightarrow> row_sat z ?e) \<and> length (row_coeffs r) = totalVars (poly_space p)"
    if "z \<in> set (poly_rows src)" "?f z = Inr r" for z r
    by (rule embed_row_sat [OF that(2) wf_polyD [OF assms(3,2) that(1)] assms(5,6)])
  have "(poly_sat p y \<longrightarrow> (\<forall>z \<in> set (poly_rows src). row_sat z ?e) \<longrightarrow> poly_sat p' y)
    \<and> (poly_sat p' y \<longrightarrow> \<not> rowsOverflow p' \<longrightarrow> poly_sat p y \<and> (\<forall>z \<in> set (poly_rows src). row_sat z ?e))"
    by (rule push_rows_sat [OF run conjunct1 [OF row]])
  moreover have "wf_poly p' \<and> poly_space p' = poly_space p"
    by (rule push_rows_wf [OF run assms(4)]) (simp add: conjunct2 [OF row])
  moreover have "poly_sat src ?e \<longleftrightarrow> (\<forall>z \<in> set (poly_rows src). row_sat z ?e)"
    using assms(2) by (simp add: poly_sat_def rows_sat_def)
  ultimately show ?thesis by (simp only: simp_thms)
qed

lemma embedSystem_overflow:
  "embedSystem src off symBase p = Inr p' \<Longrightarrow> rowsOverflow p \<Longrightarrow> rowsOverflow p'"
  by (auto simp: embedSystem_def dest: push_rows_overflow split: if_splits)

lemma embed_disjuncts_Cons:
  assumes "embed_disjuncts off symBase (src # srcs) p = Inr p'" and "\<not> isEmptyFlag src"
  obtains q where "embedSystem src off symBase p = Inr q"
    and "if isEmptyFlag q then p' = q else embed_disjuncts off symBase srcs q = Inr p'"
  using assms by (auto simp: mlk_try_Inr_iff split: if_splits)

lemma embed_disjuncts_overflow:
  "embed_disjuncts off symBase srcs p = Inr p' \<Longrightarrow> rowsOverflow p \<Longrightarrow> rowsOverflow p'"
proof (induction srcs arbitrary: p)
  case (Cons src srcs)
  show ?case
  proof (cases "isEmptyFlag src")
    case False
    with Cons.prems(1) show ?thesis
    proof (rule embed_disjuncts_Cons)
      fix q
      assume "embedSystem src off symBase p = Inr q"
        and "if isEmptyFlag q then p' = q else embed_disjuncts off symBase srcs q = Inr p'"
      with Cons.IH [of q] embedSystem_overflow [of src off symBase p q] Cons.prems(2) show ?thesis
        by (auto split: if_splits)
    qed
  qed (use Cons in simp)
qed simp

lemma embed_disjuncts_spec:
  assumes "embed_disjuncts off symBase srcs p = Inr p'" and "wf_poly p"
    and "\<And>src. src \<in> set srcs \<Longrightarrow> wf_poly src \<and> poly_space src = sp"
    and "off + nDims sp \<le> symBase" and "symBase + nSyms sp \<le> totalVars (poly_space p)"
  shows "(wf_poly p' \<and> poly_space p' = poly_space p)
    \<and> (poly_sat p y \<longrightarrow> (\<forall>src \<in> set (live srcs). poly_sat src (embed_val (nDims sp) off symBase y)) \<longrightarrow> poly_sat p' y)
    \<and> (poly_sat p' y \<longrightarrow> \<not> rowsOverflow p' \<longrightarrow>
        poly_sat p y \<and> (\<forall>src \<in> set (live srcs). poly_sat src (embed_val (nDims sp) off symBase y)))"
  using assms
proof (induction srcs arbitrary: p)
  case (Cons src srcs)
  let ?e = "embed_val (nDims sp) off symBase y"
  have sp: "\<And>src. src \<in> set srcs \<Longrightarrow> wf_poly src \<and> poly_space src = sp" using Cons.prems(3) by simp
  show ?case
  proof (cases "isEmptyFlag src")
    case True
    with Cons.prems(1) have "embed_disjuncts off symBase srcs p = Inr p'" by simp
    from Cons.IH [OF this Cons.prems(2) sp Cons.prems(4,5)] True show ?thesis by (simp add: live_def)
  next
    case False
    with Cons.prems(1) show ?thesis
    proof (rule embed_disjuncts_Cons)
      fix q
      assume q: "embedSystem src off symBase p = Inr q"
        and rest: "if isEmptyFlag q then p' = q else embed_disjuncts off symBase srcs q = Inr p'"
      have src: "wf_poly src" "poly_space src = sp" using Cons.prems(3) by simp_all
      have e: "(wf_poly q \<and> poly_space q = poly_space p) \<and> (poly_sat p y \<longrightarrow> poly_sat src ?e \<longrightarrow> poly_sat q y)
        \<and> (poly_sat q y \<longrightarrow> \<not> rowsOverflow q \<longrightarrow> poly_sat p y \<and> poly_sat src ?e)"
        using embedSystem_spec [OF q False src(1) Cons.prems(2), of y] src(2) Cons.prems(4,5) by simp
      have live: "live (src # srcs) = src # live srcs" using False by (simp add: live_def)
      show ?thesis
      proof (cases "isEmptyFlag q")
        case True
        with rest have "p' = q" "\<not> poly_sat q y" by (simp_all add: poly_sat_def)
        with e show ?thesis unfolding live by simp
      next
        case False
        with rest have run: "embed_disjuncts off symBase srcs q = Inr p'" by simp
        have "wf_poly q" "symBase + nSyms sp \<le> totalVars (poly_space q)" using e Cons.prems(5) by simp_all
        note i = Cons.IH [OF run this(1) sp Cons.prems(4) this(2)]
        have o: "rowsOverflow q \<longrightarrow> rowsOverflow p'" using embed_disjuncts_overflow [OF run] by blast
        have w: "wf_poly p' \<and> poly_space p' = poly_space p" using i e by simp
        have "poly_sat p' y" if "poly_sat p y" "poly_sat src ?e" "\<forall>src \<in> set (live srcs). poly_sat src ?e"
        proof -
          from e that(1,2) have "poly_sat q y" by blast
          with i that(3) show ?thesis by blast
        qed
        moreover have "poly_sat p y \<and> poly_sat src ?e \<and> (\<forall>src \<in> set (live srcs). poly_sat src ?e)"
          if "poly_sat p' y" "\<not> rowsOverflow p'"
        proof -
          from i that have "poly_sat q y" "\<forall>src \<in> set (live srcs). poly_sat src ?e" by blast+
          with e o that(2) show ?thesis by blast
        qed
        ultimately show ?thesis unfolding live list.set ball_simps using w by blast
      qed
    qed
  qed
qed (simp add: live_def)

lemma wf_new_poly_space: "wf_poly (new_poly sp) \<and> poly_space (new_poly sp) = sp \<and> poly_sat (new_poly sp) y"
  by (simp add: wf_poly_def new_poly_def poly_sat_def)

lemma product_system_spec:
  assumes "product_system s m off = Inr res" and "wf_set s" and "wf_map m"
    and "off + nDims (set_space s) \<le> sym_base m" and "nSyms (set_space s) = nSyms (map_inSpace m)"
  shows "case res of None \<Rightarrow> \<not> prod_sat s m off y
    | Some p \<Rightarrow> wf_poly p \<and> poly_space p = prod_space m \<and> (prod_sat s m off y \<longrightarrow> poly_sat p y)
        \<and> (poly_sat p y \<longrightarrow> \<not> rowsOverflow p \<longrightarrow> prod_sat s m off y)"
proof -
  let ?n = "nDims (map_inSpace m)" and ?b = "sym_base m" and ?np = "new_poly (prod_space m)"
  from assms(1) obtain p0 where run: "embed_disjuncts off ?b (disjuncts s) ?np = Inr p0"
    and rest: "(if live (disjuncts s) = [] \<or> isEmptyFlag p0 then Inr None
       else mlk_try (addTieRows m ?n ?b p0) (\<lambda>p. Inr (if isEmptyFlag p then None else Some p))) = Inr res"
    unfolding sym_base_def by (auto simp: product_system_def Let_def mlk_try_Inr_iff)
  have tv: "totalVars (prod_space m) = ?b + nSyms (map_inSpace m)"
    by (simp add: prod_space_def totalVars_def sym_base_def)
  note n0 = wf_new_poly_space [of "prod_space m" y]
  have src: "wf_poly src \<and> poly_space src = set_space s" if "src \<in> set (disjuncts s)" for src
    using assms(2) that by (simp add: wf_set_def)
  have d: "(wf_poly p0 \<and> poly_space p0 = prod_space m)
    \<and> ((\<forall>src \<in> set (live (disjuncts s)). poly_sat src (embed_val (nDims (set_space s)) off ?b y)) \<longrightarrow> poly_sat p0 y)
    \<and> (poly_sat p0 y \<longrightarrow> \<not> rowsOverflow p0 \<longrightarrow>
        (\<forall>src \<in> set (live (disjuncts s)). poly_sat src (embed_val (nDims (set_space s)) off ?b y)))"
    using embed_disjuncts_spec [OF run _ src assms(4), of y] n0 assms(5) tv by auto
  show ?thesis
  proof (cases "live (disjuncts s) = [] \<or> isEmptyFlag p0")
    case True
    with rest have "res = None" by simp
    with True d show ?thesis by (auto simp: prod_sat_def all_live_def poly_sat_def)
  next
    case False
    with rest obtain p where p: "addTieRows m ?n ?b p0 = Inr p" "res = (if isEmptyFlag p then None else Some p)"
      by (auto simp: mlk_try_Inr_iff)
    then have run2: "push_rows (tie_row m ?n ?b (totalVars (prod_space m))) [0..<map_nOut m] p0 = Inr p"
      using d by (simp add: addTieRows_def)
    let ?P = "\<lambda>j. y (?n + j) = expr_val (map_outputs m ! j) (embed_val ?n 0 ?b y)"
    have row: "(row_sat r y \<longleftrightarrow> ?P j) \<and> length (row_coeffs r) = totalVars (prod_space m)"
      if "j \<in> set [0..<map_nOut m]" "tie_row m ?n ?b (totalVars (prod_space m)) j = Inr r" for j r
      using tie_row_sat [OF that(2) assms(3), of y] that(1) tv by (simp add: sym_base_def)
    have t: "(poly_sat p0 y \<longrightarrow> (\<forall>j \<in> set [0..<map_nOut m]. ?P j) \<longrightarrow> poly_sat p y)
      \<and> (poly_sat p y \<longrightarrow> \<not> rowsOverflow p \<longrightarrow> poly_sat p0 y \<and> (\<forall>j \<in> set [0..<map_nOut m]. ?P j))"
      by (rule push_rows_sat [OF run2 conjunct1 [OF row]])
    have w: "wf_poly p \<and> poly_space p = prod_space m"
      using push_rows_wf [OF run2] conjunct2 [OF row] d by simp
    have o: "rowsOverflow p0 \<longrightarrow> rowsOverflow p" using push_rows_overflow [OF run2] by blast
    have ps: "prod_sat s m off y \<longleftrightarrow> (\<forall>src \<in> set (live (disjuncts s)). poly_sat src (embed_val (nDims (set_space s)) off ?b y))
       \<and> (\<forall>j \<in> set [0..<map_nOut m]. ?P j)"
      using False by (auto simp: prod_sat_def all_live_def)
    show ?thesis
    proof (cases "isEmptyFlag p")
      case True
      then have "res = None" "\<not> poly_sat p y" using p(2) by (simp_all add: poly_sat_def)
      moreover have "\<not> prod_sat s m off y" using t d calculation(2) unfolding ps by blast
      ultimately show ?thesis by simp
    next
      case False
      then have res: "res = Some p" using p(2) by simp
      have "prod_sat s m off y \<Longrightarrow> poly_sat p y" unfolding ps using t d by blast
      moreover have "prod_sat s m off y" if "poly_sat p y" "\<not> rowsOverflow p"
      proof -
        from t that have "poly_sat p0 y" "\<forall>j \<in> set [0..<map_nOut m]. ?P j" by blast+
        with d o that(2) show ?thesis unfolding ps by blast
      qed
      ultimately show ?thesis unfolding res option.case using w by blast
    qed
  qed
qed

end
