(* ===== verification/Map_Image.thy ===== *)
theory Map_Image
  imports Map_Sets
begin

text \<open>
  The denotation of \<open>mapImage\<close> and \<open>mapPreimage\<close>: sound for integer points whatever the row
  counts, exact over the rationals when the projected system did not overflow its row budget.
\<close>

text \<open>Where the map sends a point, symbols carried along.\<close>

definition map_point :: "affine_map \<Rightarrow> (nat \<Rightarrow> 'a::linordered_idom) \<Rightarrow> nat \<Rightarrow> 'a" where
  "map_point m x i = (if i < map_nOut m then expr_val (map_outputs m ! i) x
     else x (nDims (map_inSpace m) + (i - map_nOut m)))"

section \<open>Projecting the product\<close>

definition projected_fits :: "affine_map \<Rightarrow> polyhedron \<Rightarrow> bool list \<Rightarrow> bool" where
  "projected_fits m p keep = (case existsProject \<lparr>set_space = prod_space m, disjuncts = [p]\<rparr> keep of
     Inl _ \<Rightarrow> False
   | Inr q \<Rightarrow> (let sys = disjuncts q ! 0 in
       \<not> rowsOverflow sys \<and> length (poly_rows sys) \<le> kPolyMaxRowsPerSystem))"

lemma existsProject_single:
  assumes "existsProject \<lparr>set_space = sp, disjuncts = [p]\<rparr> keep = Inr q"
  shows "\<exists>sys. disjuncts q = [sys]"
proof -
  let ?f = "\<lambda>d cur. if d < length keep \<and> keep ! d then Inr cur else projectOut cur d"
  have po: "\<exists>sys. disjuncts out = [sys]" if "projectOut s v = Inr out" "\<exists>sys. disjuncts s = [sys]" for s out v
    using that by (auto simp: projectOut_def mlk_try_Inr_iff projectOut_step_def or_empty_def split: if_splits)
  have "fold_res ?f [0..<nDims sp] \<lparr>set_space = sp, disjuncts = [p]\<rparr> = Inr q"
    using assms by (simp add: existsProject_def split: if_splits)
  then show ?thesis
    by (rule fold_res_invariant [where P = "\<lambda>s. \<exists>sys. disjuncts s = [sys]"]) (auto split: if_splits intro: po)
qed

text \<open>
  \<open>keep\<close> is the block of \<open>nOut\<close> dimensions from \<open>off\<close>; the block and the symbols of a product
  point are compared with the compacted point \<open>z\<close>.
\<close>

definition kept_agree :: "affine_map \<Rightarrow> nat \<Rightarrow> nat \<Rightarrow> (nat \<Rightarrow> 'a) \<Rightarrow> (nat \<Rightarrow> 'a) \<Rightarrow> bool" where
  "kept_agree m off nOut y z \<longleftrightarrow> (\<forall>j < nOut. y (off + j) = z j) \<and> (\<forall>s. y (sym_base m + s) = z (nOut + s))"

lemma kept_agree_expand:
  assumes "off + nOut \<le> sym_base m" and "length keep = sym_base m"
    and "\<And>v. v < sym_base m \<Longrightarrow> keep ! v \<longleftrightarrow> off \<le> v \<and> v < off + nOut"
  shows "agree_on (\<lambda>v. \<not> eliminated keep (sym_base m) v) y (expand off nOut (sym_base m) z) \<longleftrightarrow> kept_agree m off nOut y z"
proof -
  let ?b = "sym_base m"
  have e: "\<not> eliminated keep ?b v \<longleftrightarrow> ?b \<le> v \<or> (off \<le> v \<and> v < off + nOut)" for v
    using assms by (auto simp: eliminated_def)
  show ?thesis
  proof
    assume a: "agree_on (\<lambda>v. \<not> eliminated keep ?b v) y (expand off nOut ?b z)"
    have "y (off + j) = z j" if "j < nOut" for j
      using a that assms(1) unfolding agree_on_def e by (auto simp: expand_def dest: spec [of _ "off + j"])
    moreover have "y (?b + s) = z (nOut + s)" for s
      using a unfolding agree_on_def e by (auto simp: expand_def dest: spec [of _ "?b + s"])
    ultimately show "kept_agree m off nOut y z" by (simp add: kept_agree_def)
  next
    assume k: "kept_agree m off nOut y z"
    have "y v = expand off nOut ?b z v" if "?b \<le> v \<or> (off \<le> v \<and> v < off + nOut)" for v
    proof (cases "?b \<le> v")
      case True
      then obtain s where "v = ?b + s" using le_Suc_ex by blast
      with k show ?thesis by (simp add: kept_agree_def expand_def)
    next
      case False
      with that have "off \<le> v" "v < off + nOut" by auto
      then obtain j where "v = off + j" "j < nOut" using le_Suc_ex by fastforce
      with k False show ?thesis by (simp add: kept_agree_def expand_def)
    qed
    then show "agree_on (\<lambda>v. \<not> eliminated keep ?b v) y (expand off nOut ?b z)" by (simp add: agree_on_def e)
  qed
qed

lemma project_system_spec:
  assumes "project_system m p keep (map (\<lambda>j. off + j) [0..<nOut]) nOut = Inr out"
    and "wf_poly p" and "poly_space p = prod_space m" and "off + nOut \<le> sym_base m" and "length keep = sym_base m"
    and "\<And>v. v < sym_base m \<Longrightarrow> keep ! v \<longleftrightarrow> off \<le> v \<and> v < off + nOut"
  shows "set_space out = \<lparr>nDims = nOut, nSyms = nSyms (map_inSpace m)\<rparr>
    \<and> (\<forall>(y :: nat \<Rightarrow> 'b::linordered_idom) z. poly_sat p y \<longrightarrow> kept_agree m off nOut y z \<longrightarrow> set_sat out z)
    \<and> (projected_fits m p keep \<longrightarrow> (\<forall>z :: nat \<Rightarrow> 'a::linordered_field. set_sat out z \<longleftrightarrow> (\<exists>y. kept_agree m off nOut y z \<and> poly_sat p y)))"
proof -
  let ?s = "\<lparr>set_space = prod_space m, disjuncts = [p]\<rparr>" and ?b = "sym_base m" and ?ns = "nSyms (map_inSpace m)"
  from assms(1) obtain q where q: "existsProject ?s keep = Inr q"
    and o: "out = \<lparr>set_space = \<lparr>nDims = nOut, nSyms = ?ns\<rparr>,
       disjuncts = [remapToDimFirst (disjuncts q ! 0) (map (\<lambda>j. off + j) [0..<nOut]) ?b ?ns nOut]\<rparr>"
    unfolding sym_base_def by (auto simp: project_system_def Let_def mlk_try_Inr_iff)
  from existsProject_single [OF q] obtain sys where sys: "disjuncts q = [sys]" by blast
  have wfs: "wf_set ?s" using assms(2,3) by (simp add: wf_set_def)
  have w: "wf_poly sys" "poly_space sys = prod_space m"
    using wf_existsProject [OF q wfs] sys by (auto simp: wf_set_def)
  have tv: "totalVars (poly_space sys) = ?b + ?ns" using w(2) by (simp add: prod_space_def totalVars_def sym_base_def)
  have nd: "nDims (set_space ?s) = ?b" by (simp add: prod_space_def sym_base_def)
  have outsat: "set_sat out z \<longleftrightarrow> poly_sat (remapToDimFirst sys (map (\<lambda>j. off + j) [0..<nOut]) ?b ?ns nOut) z"
    for z :: "nat \<Rightarrow> 'c::linordered_idom" by (simp add: o sys)
  have sound: "set_sat out z" if y: "poly_sat p y" "kept_agree m off nOut y z" for y z :: "nat \<Rightarrow> 'c::linordered_idom"
  proof -
    have "agree_on (\<lambda>v. \<not> eliminated keep ?b v) y (expand off nOut ?b z)"
      using kept_agree_expand [OF assms(4-6)] y(2) by blast
    then have "set_sat q (expand off nOut ?b z)"
      using existsProject_sound [OF q wfs, of y] y(1) unfolding nd by simp
    then have "poly_sat sys (expand off nOut ?b z)" by (simp add: set_sat_def sys)
    from remap_sound [OF w(1) tv assms(4) this] show ?thesis unfolding outsat .
  qed
  have exact: "\<exists>y. kept_agree m off nOut y z \<and> poly_sat p y"
    if "projected_fits m p keep" "set_sat out z" for z :: "nat \<Rightarrow> 'a"
  proof -
    have fit: "\<not> rowsOverflow sys" "length (poly_rows sys) \<le> kPolyMaxRowsPerSystem"
      using that(1) q sys by (simp_all add: projected_fits_def Let_def)
    have "poly_sat sys (expand off nOut ?b z)"
      using that(2) remap_sat [OF w(1) tv assms(4) fit(2)] unfolding outsat by blast
    then have "set_sat q (expand off nOut ?b z)" by (simp add: set_sat_def sys)
    moreover have "live_fits q" using fit by (simp add: live_fits_def sys)
    ultimately obtain y where y: "agree_on (\<lambda>v. \<not> eliminated keep ?b v) y (expand off nOut ?b z)" "set_sat ?s y"
      using existsProject_exact [OF q wfs] unfolding nd by blast
    then have "kept_agree m off nOut y z" using kept_agree_expand [OF assms(4-6)] by blast
    moreover have "poly_sat p y" using y(2) by simp
    ultimately show ?thesis by blast
  qed
  have "set_space out = \<lparr>nDims = nOut, nSyms = ?ns\<rparr>" by (simp add: o)
  moreover have "\<forall>(y :: nat \<Rightarrow> 'b) z. poly_sat p y \<longrightarrow> kept_agree m off nOut y z \<longrightarrow> set_sat out z"
    using sound by blast
  moreover have "\<forall>z :: nat \<Rightarrow> 'a. set_sat out z \<longleftrightarrow> (\<exists>y. kept_agree m off nOut y z \<and> poly_sat p y)"
    if "projected_fits m p keep" using sound exact [OF that] by blast
  ultimately show ?thesis by blast
qed

section \<open>Preimage and image\<close>

definition preimage_fits :: "presburger \<Rightarrow> affine_map \<Rightarrow> bool" where
  "preimage_fits s m = (case product_system s m (nDims (map_inSpace m)) of
     Inr (Some p) \<Rightarrow> \<not> rowsOverflow p
       \<and> projected_fits m p (replicate (nDims (map_inSpace m)) True @ replicate (map_nOut m) False)
   | _ \<Rightarrow> True)"

definition image_fits :: "presburger \<Rightarrow> affine_map \<Rightarrow> bool" where
  "image_fits s m = (case product_system s m 0 of
     Inr (Some p) \<Rightarrow> \<not> rowsOverflow p
       \<and> projected_fits m p (replicate (nDims (map_inSpace m)) False @ replicate (map_nOut m) True)
   | _ \<Rightarrow> True)"

lemma empty_set_sat: "\<not> set_sat (presburger_empty sp) x"
  by (simp add: presburger_empty_def)

lemma embed_agree:
  assumes "kept_agree m 0 (nDims (map_inSpace m)) y z"
  shows "embed_val (nDims (map_inSpace m)) 0 (sym_base m) y = z"
proof
  fix i
  show "embed_val (nDims (map_inSpace m)) 0 (sym_base m) y i = z i"
  proof (cases "i < nDims (map_inSpace m)")
    case False
    then obtain t where "i = nDims (map_inSpace m) + t" using le_Suc_ex not_less by blast
    with assms show ?thesis by (simp add: embed_val_def kept_agree_def)
  qed (use assms in \<open>simp add: embed_val_def kept_agree_def\<close>)
qed

lemma prod_sat_preimage:
  assumes "kept_agree m 0 (nDims (map_inSpace m)) y z" and "nDims (set_space s) = map_nOut m"
  shows "prod_sat s m (nDims (map_inSpace m)) y \<longleftrightarrow>
    (\<forall>j < map_nOut m. y (nDims (map_inSpace m) + j) = expr_val (map_outputs m ! j) z) \<and> all_live s (map_point m z)"
proof -
  let ?n = "nDims (map_inSpace m)"
  note z = embed_agree [OF assms(1)]
  have "y (sym_base m + t) = z (?n + t)" for t using assms(1) by (simp add: kept_agree_def)
  then have "embed_val (map_nOut m) ?n (sym_base m) y = map_point m z"
    if "\<forall>j < map_nOut m. y (?n + j) = expr_val (map_outputs m ! j) z"
    using that by (simp add: fun_eq_iff embed_val_def map_point_def del: add_diff_assoc add_diff_assoc2)
  then show ?thesis unfolding prod_sat_def assms(2) z by auto
qed

text \<open>The product points over a preimage point and over an image point.\<close>

definition graph_point :: "affine_map \<Rightarrow> (nat \<Rightarrow> 'a::linordered_idom) \<Rightarrow> nat \<Rightarrow> 'a" where
  "graph_point m x i = (if i < nDims (map_inSpace m) then x i else map_point m x (i - nDims (map_inSpace m)))"

lemma graph_point_simps:
  "j < map_nOut m \<Longrightarrow> graph_point m x (nDims (map_inSpace m) + j) = expr_val (map_outputs m ! j) x"
  "graph_point m x (sym_base m + s) = x (nDims (map_inSpace m) + s)"
  by (simp_all add: graph_point_def map_point_def sym_base_def)

lemma graph_point_agree:
  "kept_agree m 0 (nDims (map_inSpace m)) (graph_point m x) x"
  "kept_agree m (nDims (map_inSpace m)) (map_nOut m) (graph_point m x) (map_point m x)"
  by (simp_all add: kept_agree_def graph_point_def map_point_def sym_base_def)

lemma prod_sat_image:
  assumes "nDims (set_space s) = nDims (map_inSpace m)"
  shows "prod_sat s m 0 y \<and> kept_agree m (nDims (map_inSpace m)) (map_nOut m) y z \<longleftrightarrow>
    all_live s (embed_val (nDims (map_inSpace m)) 0 (sym_base m) y)
    \<and> z = map_point m (embed_val (nDims (map_inSpace m)) 0 (sym_base m) y)
    \<and> kept_agree m (nDims (map_inSpace m)) (map_nOut m) y z"
proof -
  let ?n = "nDims (map_inSpace m)"
  let ?x = "embed_val ?n 0 (sym_base m) y"
  have "z = map_point m ?x \<longleftrightarrow> (\<forall>j < map_nOut m. y (?n + j) = expr_val (map_outputs m ! j) ?x)"
    if k: "kept_agree m ?n (map_nOut m) y z"
  proof
    assume z: "z = map_point m ?x"
    show "\<forall>j < map_nOut m. y (?n + j) = expr_val (map_outputs m ! j) ?x"
    proof (intro allI impI)
      fix j assume "j < map_nOut m"
      with k have "y (?n + j) = z j" by (simp add: kept_agree_def)
      with z \<open>j < map_nOut m\<close> show "y (?n + j) = expr_val (map_outputs m ! j) ?x" by (simp add: map_point_def)
    qed
  next
    assume a: "\<forall>j < map_nOut m. y (?n + j) = expr_val (map_outputs m ! j) ?x"
    have "z i = map_point m ?x i" for i
    proof (cases "i < map_nOut m")
      case True
      with a k show ?thesis by (simp add: map_point_def kept_agree_def)
    next
      case False
      then obtain t where "i = map_nOut m + t" using le_Suc_ex not_less by blast
      with k show ?thesis by (simp add: map_point_def kept_agree_def embed_val_def)
    qed
    then show "z = map_point m ?x" by (simp add: fun_eq_iff)
  qed
  then show ?thesis unfolding prod_sat_def assms by blast
qed

lemma mapPreimage_cases:
  assumes "mapPreimage s m = Inr pre" and "wf_set s" and "wf_map m"
  obtains (empty) "pre = presburger_empty \<lparr>nDims = nDims (map_inSpace m), nSyms = nSyms (map_inSpace m)\<rparr>"
      "product_system s m (nDims (map_inSpace m)) = Inr None"
  | (project) p where "product_system s m (nDims (map_inSpace m)) = Inr (Some p)"
      "project_system m p (replicate (nDims (map_inSpace m)) True @ replicate (map_nOut m) False)
         (map (\<lambda>j. 0 + j) [0..<nDims (map_inSpace m)]) (nDims (map_inSpace m)) = Inr pre"
proof -
  let ?n = "nDims (map_inSpace m)"
  from assms(1) obtain res where r: "product_system s m ?n = Inr res"
    and c: "(case res of None \<Rightarrow> Inr (presburger_empty \<lparr>nDims = ?n, nSyms = nSyms (map_inSpace m)\<rparr>)
      | Some p \<Rightarrow> project_system m p (replicate ?n True @ replicate (map_nOut m) False) [0..<?n] ?n) = Inr pre"
    by (auto simp: mapPreimage_def Let_def mlk_try_Inr_iff split: if_splits)
  show thesis
  proof (cases res)
    case None
    with r c empty show thesis by simp
  next
    case (Some p)
    with r c project show thesis by simp
  qed
qed

lemma mapPreimage_space:
  "mapPreimage s m = Inr pre \<Longrightarrow> nDims (set_space s) = map_nOut m \<and> nSyms (set_space s) = nSyms (map_inSpace m)"
  by (auto simp: mapPreimage_def Let_def split: if_splits)

lemma mapImage_cases:
  assumes "mapImage s m = Inr img" and "wf_set s" and "wf_map m"
  obtains (empty) "img = presburger_empty \<lparr>nDims = map_nOut m, nSyms = nSyms (map_inSpace m)\<rparr>"
      "product_system s m 0 = Inr None"
  | (project) p where "product_system s m 0 = Inr (Some p)"
      "project_system m p (replicate (nDims (map_inSpace m)) False @ replicate (map_nOut m) True)
         (map (\<lambda>j. nDims (map_inSpace m) + j) [0..<map_nOut m]) (map_nOut m) = Inr img"
proof -
  let ?n = "nDims (map_inSpace m)"
  from assms(1) obtain res where r: "product_system s m 0 = Inr res"
    and c: "(case res of None \<Rightarrow> Inr (presburger_empty \<lparr>nDims = map_nOut m, nSyms = nSyms (map_inSpace m)\<rparr>)
      | Some p \<Rightarrow> project_system m p (replicate ?n False @ replicate (map_nOut m) True)
          (map (\<lambda>j. ?n + j) [0..<map_nOut m]) (map_nOut m)) = Inr img"
    by (auto simp: mapImage_def Let_def mlk_try_Inr_iff split: if_splits)
  show thesis
  proof (cases res)
    case None
    with r c empty show thesis by simp
  next
    case (Some p)
    with r c project show thesis by simp
  qed
qed

lemma mapImage_space:
  "mapImage s m = Inr img \<Longrightarrow> nDims (set_space s) = nDims (map_inSpace m) \<and> nSyms (set_space s) = nSyms (map_inSpace m)"
  by (auto simp: mapImage_def Let_def split: if_splits)

lemma preimage_block:
  "length (replicate (nDims (map_inSpace m)) True @ replicate (map_nOut m) False) = sym_base m"
  "v < sym_base m \<Longrightarrow> (replicate (nDims (map_inSpace m)) True @ replicate (map_nOut m) False) ! v
     \<longleftrightarrow> 0 \<le> v \<and> v < 0 + nDims (map_inSpace m)"
  "0 + nDims (map_inSpace m) \<le> sym_base m"
  by (auto simp: sym_base_def nth_append)

lemma image_block:
  "length (replicate (nDims (map_inSpace m)) False @ replicate (map_nOut m) True) = sym_base m"
  "v < sym_base m \<Longrightarrow> (replicate (nDims (map_inSpace m)) False @ replicate (map_nOut m) True) ! v
     \<longleftrightarrow> nDims (map_inSpace m) \<le> v \<and> v < nDims (map_inSpace m) + map_nOut m"
  "nDims (map_inSpace m) + map_nOut m \<le> sym_base m"
  by (auto simp: sym_base_def nth_append)

lemma mapPreimage_spec:
  assumes run: "mapPreimage s m = Inr pre" and wf: "wf_set s" "wf_map m"
  shows "(\<forall>z :: nat \<Rightarrow> 'b::linordered_idom. all_live s (map_point m z) \<longrightarrow> set_sat pre z)
    \<and> (preimage_fits s m \<longrightarrow> (\<forall>z :: nat \<Rightarrow> 'a::linordered_field. set_sat pre z \<longrightarrow> all_live s (map_point m z)))"
proof -
  let ?n = "nDims (map_inSpace m)"
  note nd = mapPreimage_space [OF run]
  have off: "?n + nDims (set_space s) \<le> sym_base m" using nd by (simp add: sym_base_def)
  note spec = product_system_spec [OF _ wf off conjunct2 [OF nd]]
  have sat: "prod_sat s m ?n (graph_point m z)" if "all_live s (map_point m z)" for z :: "nat \<Rightarrow> 'b"
    using prod_sat_preimage [OF graph_point_agree(1), of s m z] nd that by (simp add: graph_point_simps)
  from run wf show ?thesis
  proof (cases rule: mapPreimage_cases)
    case empty
    have n: "\<not> prod_sat s m ?n y" for y :: "nat \<Rightarrow> 'b" using spec [OF empty(2), of y] by simp
    show ?thesis unfolding empty(1) using n sat empty_set_sat by blast
  next
    case (project p)
    have p: "wf_poly p" "poly_space p = prod_space m"
      using spec [OF project(1), of "\<lambda>_. 0 :: int"] by auto
    note pj = project_system_spec [where 'a = 'a and 'b = 'b, OF project(2) p preimage_block(3,1,2)]
    have "set_sat pre z" if "all_live s (map_point m z)" for z :: "nat \<Rightarrow> 'b"
    proof -
      from spec [OF project(1), of "graph_point m z"] sat [OF that] have "poly_sat p (graph_point m z)" by simp
      with pj graph_point_agree(1) show ?thesis by blast
    qed
    moreover have "all_live s (map_point m z)" if "preimage_fits s m" "set_sat pre z" for z :: "nat \<Rightarrow> 'a"
    proof -
      have f: "\<not> rowsOverflow p" "projected_fits m p (replicate ?n True @ replicate (map_nOut m) False)"
        using that(1) project(1) by (simp_all add: preimage_fits_def)
      from pj f(2) that(2) obtain y where y: "kept_agree m 0 ?n y z" "poly_sat p y" by blast
      with spec [OF project(1), of y] f(1) have "prod_sat s m ?n y" by simp
      with prod_sat_preimage [OF y(1)] nd show ?thesis by blast
    qed
    ultimately show ?thesis by blast
  qed
qed

lemma mapImage_spec:
  assumes run: "mapImage s m = Inr img" and wf: "wf_set s" "wf_map m"
  shows "(\<forall>x :: nat \<Rightarrow> 'b::linordered_idom. all_live s x \<longrightarrow> set_sat img (map_point m x))
    \<and> (image_fits s m \<longrightarrow> (\<forall>z :: nat \<Rightarrow> 'a::linordered_field. set_sat img z \<longrightarrow> (\<exists>x. all_live s x \<and> z = map_point m x)))"
proof -
  let ?n = "nDims (map_inSpace m)"
  note nd = mapImage_space [OF run]
  have off: "0 + nDims (set_space s) \<le> sym_base m" using nd by (simp add: sym_base_def)
  note spec = product_system_spec [OF _ wf off conjunct2 [OF nd]]
  note pi = prod_sat_image [OF conjunct1 [OF nd]]
  have sat: "prod_sat s m 0 (graph_point m x)" if "all_live s x" for x :: "nat \<Rightarrow> 'b"
  proof -
    have "embed_val ?n 0 (sym_base m) (graph_point m x) = x" by (rule embed_agree [OF graph_point_agree(1)])
    with pi [of "graph_point m x" "map_point m x"] graph_point_agree(2) [of m x] that show ?thesis by simp
  qed
  from run wf show ?thesis
  proof (cases rule: mapImage_cases)
    case empty
    have n: "\<not> prod_sat s m 0 y" for y :: "nat \<Rightarrow> 'b" using spec [OF empty(2), of y] by simp
    show ?thesis unfolding empty(1) using n sat empty_set_sat by blast
  next
    case (project p)
    have p: "wf_poly p" "poly_space p = prod_space m"
      using spec [OF project(1), of "\<lambda>_. 0 :: int"] by auto
    note pj = project_system_spec [where 'a = 'a and 'b = 'b, OF project(2) p image_block(3,1,2)]
    have "set_sat img (map_point m x)" if "all_live s x" for x :: "nat \<Rightarrow> 'b"
    proof -
      from spec [OF project(1), of "graph_point m x"] sat [OF that] have "poly_sat p (graph_point m x)" by simp
      with pj graph_point_agree(2) show ?thesis by blast
    qed
    moreover have "\<exists>x. all_live s x \<and> z = map_point m x" if "image_fits s m" "set_sat img z" for z :: "nat \<Rightarrow> 'a"
    proof -
      have f: "\<not> rowsOverflow p" "projected_fits m p (replicate ?n False @ replicate (map_nOut m) True)"
        using that(1) project(1) by (simp_all add: image_fits_def)
      from pj f(2) that(2) obtain y where y: "kept_agree m ?n (map_nOut m) y z" "poly_sat p y" by blast
      with spec [OF project(1), of y] f(1) have "prod_sat s m 0 y" by simp
      with y(1) pi [of y z] show ?thesis by blast
    qed
    ultimately show ?thesis by blast
  qed
qed

end
