(* ===== verification/Map_Properties.thy ===== *)
theory Map_Properties
  imports Map_Image Engine_Properties
begin

text \<open>
  What affine maps promise: composition is function composition as long as the outer map has no
  symbol coefficients, the preimage of a conjunctive set is exact even on integer points, and the
  image is the exact rational image that keeps every integer point.
\<close>

section \<open>Composition\<close>

lemma compose_step_Inr:
  "compose_step inner oe j u = Inr acc \<longleftrightarrow>
     (\<exists>sc. exprScale (map_outputs inner ! j) (expr_coeffOf oe j) = Inr sc \<and> exprAdd u sc = Inr acc)"
  by (simp add: compose_step_def mlk_try_Inr_iff)

lemma compose_run:
  assumes "fold_res (compose_step inner oe) [0..<k] (expr_fromConstant (map_inSpace inner) c) = Inr acc"
    and "wf_map inner" and "k \<le> map_nOut inner"
  shows "wf_expr acc \<and> expr_space acc = map_inSpace inner
    \<and> expr_val acc x = of_int c + (\<Sum>j<k. of_int (expr_coeffOf oe j) * expr_val (map_outputs inner ! j) x)"
  using assms
proof (induction k arbitrary: acc)
  case 0
  then show ?case by (auto simp: expr_fromConstant_def wf_expr_def expr_val_def)
next
  case (Suc k)
  then obtain u sc where u: "fold_res (compose_step inner oe) [0..<k] (expr_fromConstant (map_inSpace inner) c) = Inr u"
    and sc: "exprScale (map_outputs inner ! k) (expr_coeffOf oe k) = Inr sc" and a: "exprAdd u sc = Inr acc"
    by (auto simp: fold_res_append mlk_try_Inr_iff compose_step_Inr)
  from Suc.IH [OF u Suc.prems(2)] Suc.prems(3) have i: "wf_expr u" "expr_space u = map_inSpace inner"
    "expr_val u x = of_int c + (\<Sum>j<k. of_int (expr_coeffOf oe j) * expr_val (map_outputs inner ! j) x)" by auto
  have w: "wf_expr (map_outputs inner ! k)" using wf_mapD(1) [OF Suc.prems(2)] Suc.prems(3) by simp
  note s = exprScale_val [OF w sc, of x]
  from exprAdd_val [OF i(1) _ a, of x] s i show ?case by simp
qed

lemma compose_expr_spec:
  assumes "compose_expr inner oe = Inr e" and "wf_map inner" and "wf_expr oe"
    and "nDims (expr_space oe) = map_nOut inner"
    and "\<And>i. i < nSyms (expr_space oe) \<Longrightarrow> expr_coeffOf oe (map_nOut inner + i) = 0"
  shows "wf_expr e \<and> expr_space e = map_inSpace inner \<and> expr_val e x = expr_val oe (map_point inner x)"
proof -
  let ?k = "map_nOut inner" and ?cs = "expr_coeffs oe"
  have "length (map_outputs inner) = ?k" using assms(2) by (simp add: wf_map_def)
  with assms(1) have run: "fold_res (compose_step inner oe) [0..<?k] (expr_fromConstant (map_inSpace inner) (expr_constant oe)) = Inr e"
    by (auto simp: compose_expr_def mlk_try_Inr_iff split: if_splits)
  have len: "length ?cs = ?k + nSyms (expr_space oe)" using assms(3,4) by (simp add: wf_expr_def totalVars_def)
  have "lin ?cs (map_point inner x) = lin (take ?k ?cs) (map_point inner x) + lin (drop ?k ?cs) (\<lambda>i. map_point inner x (?k + i))"
    by (rule lin_split)
  also have "lin (drop ?k ?cs) (\<lambda>i. map_point inner x (?k + i)) = 0"
    using assms(5) len by (intro lin_all_zero) (auto simp: in_set_conv_nth expr_coeffOf_def)
  also have "lin (take ?k ?cs) (map_point inner x) = (\<Sum>j<?k. of_int (expr_coeffOf oe j) * expr_val (map_outputs inner ! j) x)"
    using len by (simp add: lin_def expr_coeffOf_def map_point_def)
  finally show ?thesis using compose_run [OF run assms(2) order_refl, of x] by (simp add: expr_val_def)
qed

definition line_map :: "int \<Rightarrow> int \<Rightarrow> int \<Rightarrow> affine_map" where
  "line_map a b c = \<lparr>map_inSpace = \<lparr>nDims = 1, nSyms = 1\<rparr>, map_nOut = 1,
     map_outputs = [\<lparr>expr_space = \<lparr>nDims = 1, nSyms = 1\<rparr>, expr_coeffs = [a, b], expr_constant = c\<rparr>]\<rparr>"

lemma line_map_wf: "wf_map (line_map a b c)"
  by (simp add: wf_map_def line_map_def wf_expr_def totalVars_def)

text \<open>
  \<open>mapCompose\<close> composes the maps as functions of the point, symbols carried along, whenever
  it succeeds and the outer expressions do not use their symbols.
\<close>
theorem mapCompose_exact:
  fixes x :: "nat \<Rightarrow> int"
  assumes "mapCompose outer inner = Inr m" and "wf_map outer" and "wf_map inner"
    and "\<And>e i. e \<in> set (map_outputs outer) \<Longrightarrow> i < nSyms (map_inSpace outer) \<Longrightarrow>
      expr_coeffOf e (nDims (map_inSpace outer) + i) = 0"
  shows "map_point m x = map_point outer (map_point inner x) \<and> wf_map m \<and> map_inSpace m = map_inSpace inner"
proof -
  from assms(1) obtain outs where sp: "nDims (map_inSpace outer) = map_nOut inner"
    and o: "list_all2 (\<lambda>oe e. compose_expr inner oe = Inr e) (map_outputs outer) outs"
    and m: "m = \<lparr>map_inSpace = map_inSpace inner, map_nOut = map_nOut outer, map_outputs = outs\<rparr>"
    by (auto simp: mapCompose_def mlk_try_Inr_iff map_res_Inr_iff split: if_splits)
  have len: "length outs = map_nOut outer" "length (map_outputs outer) = map_nOut outer"
    using o assms(2) by (auto simp: wf_map_def dest: list_all2_lengthD)
  have e: "wf_expr (outs ! j) \<and> expr_space (outs ! j) = map_inSpace inner
      \<and> expr_val (outs ! j) x = expr_val (map_outputs outer ! j) (map_point inner x)" if "j < map_nOut outer" for j
  proof (rule compose_expr_spec [OF _ assms(3)])
    show "compose_expr inner (map_outputs outer ! j) = Inr (outs ! j)" using o that len by (simp add: list_all2_conv_all_nth)
    show "wf_expr (map_outputs outer ! j)" by (rule wf_mapD(1) [OF assms(2) that])
    show "nDims (expr_space (map_outputs outer ! j)) = map_nOut inner" using wf_mapD(2) [OF assms(2) that] sp by simp
    show "expr_coeffOf (map_outputs outer ! j) (map_nOut inner + i) = 0" if "i < nSyms (expr_space (map_outputs outer ! j))" for i
      using assms(4) [of "map_outputs outer ! j" i] that \<open>j < map_nOut outer\<close> len wf_mapD(2) [OF assms(2) \<open>j < map_nOut outer\<close>] sp by simp
  qed
  have "map_point m x = map_point outer (map_point inner x)"
    using e sp by (auto simp: fun_eq_iff map_point_def m)
  moreover have "wf_map m" using e len by (auto simp: wf_map_def m in_set_conv_nth)
  ultimately show ?thesis by (simp add: m)
qed

lemma mapCompose_exact_witness:
  "mapCompose (line_map 2 0 1) (line_map 3 5 7) = Inr (line_map 6 10 15)
   \<and> map_point (line_map 6 10 15) (pt [4, 9]) = (map_point (line_map 2 0 1) (map_point (line_map 3 5 7) (pt [4, 9])) :: nat \<Rightarrow> int)"
proof -
  have run: "mapCompose (line_map 2 0 1) (line_map 3 5 7) = Inr (line_map 6 10 15)" by code_simp
  have "expr_coeffOf e (nDims (map_inSpace (line_map 2 0 1)) + i) = 0"
    if "e \<in> set (map_outputs (line_map 2 0 1))" "i < nSyms (map_inSpace (line_map 2 0 1))" for e i
    using that by (simp add: line_map_def expr_coeffOf_def)
  from mapCompose_exact [OF run line_map_wf line_map_wf this] run show ?thesis by blast
qed

text \<open>
  The symbols of the outer map are lost: composing \<open>d \<mapsto> d + n\<close> with the identity gives the
  identity, although the composite at \<open>d = 1, n = 5\<close> is 6.
\<close>
theorem mapCompose_drops_symbols:
  "mapCompose (line_map 1 1 0) (line_map 1 0 0) = Inr (line_map 1 0 0)
   \<and> map_evalAt (line_map 1 1 0) [1, 5] = Inr [6] \<and> map_evalAt (line_map 1 0 0) [1, 5] = Inr [1]"
  by code_simp

section \<open>Preimage and image\<close>

lemma all_live_single:
  assumes "length (live (disjuncts s)) \<le> 1"
  shows "all_live s x \<longleftrightarrow> set_sat s x"
proof (cases "live (disjuncts s)")
  case Nil
  then show ?thesis by (simp add: all_live_def set_sat_live)
next
  case (Cons p ps)
  then have "live (disjuncts s) = [p]" "\<not> isEmptyFlag p" using assms set_live [of p "disjuncts s"] by auto
  then show ?thesis by (simp add: all_live_def set_sat_live poly_sat_def)
qed

lemma expr_val_of_int: "expr_val e (\<lambda>i. of_int (x i)) = of_int (expr_val e x)"
  by (simp add: expr_val_def lin_of_int)

lemma map_point_of_int: "map_point m (\<lambda>i. of_int (x i)) = (\<lambda>i. of_int (map_point m x i))"
  by (simp add: fun_eq_iff map_point_def expr_val_of_int)

text \<open>
  \<open>mapPreimage\<close> of a conjunctive set is exact on integer points: a point is in it exactly
  when the map sends it into the set. (No row budget overflowed on the way; without that the
  preimage still has every such point.)
\<close>
theorem mapPreimage_exact:
  fixes z :: "nat \<Rightarrow> int"
  assumes "mapPreimage s m = Inr pre" and "wf_set s" and "wf_map m" and "length (live (disjuncts s)) \<le> 1"
    and "preimage_fits s m"
  shows "set_sat pre z \<longleftrightarrow> set_sat s (map_point m z)"
proof -
  note ms = mapPreimage_spec [OF assms(1-3), where 'a = rat and 'b = int]
  have "set_sat pre z \<longleftrightarrow> set_sat pre (\<lambda>i. of_int (z i) :: rat)" by (simp only: set_sat_of_int)
  moreover have "set_sat s (map_point m z) \<longleftrightarrow> set_sat s (map_point m (\<lambda>i. of_int (z i) :: rat))"
    by (simp only: map_point_of_int set_sat_of_int)
  moreover have "set_sat s (map_point m z) \<Longrightarrow> set_sat pre z"
    using conjunct1 [OF ms, THEN spec, of z] all_live_single [OF assms(4), of "map_point m z"] by blast
  moreover have "set_sat pre (\<lambda>i. of_int (z i) :: rat) \<Longrightarrow> set_sat s (map_point m (\<lambda>i. of_int (z i) :: rat))"
    using mp [OF conjunct2 [OF ms] assms(5), THEN spec, of "\<lambda>i. of_int (z i)"]
      all_live_single [OF assms(4), of "map_point m (\<lambda>i. of_int (z i) :: rat)"] by blast
  ultimately show ?thesis by blast
qed

text \<open>
  C8. \<open>mapImage\<close> of a conjunctive set keeps the image of every integer point, and over the
  rationals it is the exact image. (No row budget overflowed on the way.)
\<close>
theorem mapImage_exact:
  fixes x :: "nat \<Rightarrow> int" and z :: "nat \<Rightarrow> rat"
  assumes "mapImage s m = Inr img" and "wf_set s" and "wf_map m" and "length (live (disjuncts s)) \<le> 1"
    and "image_fits s m"
  shows "(set_sat s x \<longrightarrow> set_sat img (map_point m x)) \<and> (set_sat img z \<longleftrightarrow> (\<exists>y. set_sat s y \<and> z = map_point m y))"
proof -
  note single = all_live_single [OF assms(4)]
  have "\<forall>x :: nat \<Rightarrow> int. all_live s x \<longrightarrow> set_sat img (map_point m x)"
    by (rule conjunct1 [OF mapImage_spec [OF assms(1-3)]])
  moreover have "\<forall>x :: nat \<Rightarrow> rat. all_live s x \<longrightarrow> set_sat img (map_point m x)"
    by (rule conjunct1 [OF mapImage_spec [OF assms(1-3)]])
  moreover have "\<forall>z :: nat \<Rightarrow> rat. set_sat img z \<longrightarrow> (\<exists>y. all_live s y \<and> z = map_point m y)"
    by (rule mp [OF conjunct2 [OF mapImage_spec [OF assms(1-3)]] assms(5)])
  ultimately show ?thesis unfolding single by metis
qed

text \<open>The map \<open>(i, j) \<mapsto> (i + j, 2 j + 1)\<close>.\<close>

definition skew_map :: affine_map where
  "skew_map = \<lparr>map_inSpace = plane, map_nOut = 2,
     map_outputs = [\<lparr>expr_space = plane, expr_coeffs = [1, 1], expr_constant = 0\<rparr>,
                    \<lparr>expr_space = plane, expr_coeffs = [0, 2], expr_constant = 1\<rparr>]\<rparr>"

lemma skew_map_wf: "wf_map skew_map" "length (live (disjuncts triangle)) \<le> 1" by code_simp+

lemma mapPreimage_exact_witness:
  "\<exists>pre. mapPreimage triangle skew_map = Inr pre \<and>
     (set_sat pre (pt [3, 1] :: nat \<Rightarrow> int) \<longleftrightarrow> set_sat triangle (map_point skew_map (pt [3, 1] :: nat \<Rightarrow> int)))"
proof -
  have "case mapPreimage triangle skew_map of Inl _ \<Rightarrow> False | Inr _ \<Rightarrow> preimage_fits triangle skew_map" by code_simp
  then obtain pre where "mapPreimage triangle skew_map = Inr pre" "preimage_fits triangle skew_map"
    using result_cases by blast
  with mapPreimage_exact [OF this(1) triangle_wf(1) skew_map_wf this(2)] show ?thesis by blast
qed

lemma mapImage_exact_witness:
  "\<exists>img. mapImage triangle skew_map = Inr img \<and> set_sat img (map_point skew_map (pt [5, 2] :: nat \<Rightarrow> int))"
proof -
  have "case mapImage triangle skew_map of Inl _ \<Rightarrow> False | Inr _ \<Rightarrow> image_fits triangle skew_map" by code_simp
  then obtain img where img: "mapImage triangle skew_map = Inr img" "image_fits triangle skew_map"
    using result_cases by blast
  have "set_containsPoint triangle [5, 2]" by code_simp
  then have "set_sat triangle (pt [5, 2] :: nat \<Rightarrow> int)" using triangle_wf(1) by (rule set_containsPoint_sound)
  with mapImage_exact [OF img(1) triangle_wf(1) skew_map_wf img(2)] img(1) show ?thesis by blast
qed

text \<open>The two points \<open>0\<close> and \<open>1\<close> of a line as a union.\<close>

definition point_poly :: "int \<Rightarrow> polyhedron" where
  "point_poly c = addRow (new_poly \<lparr>nDims = 1, nSyms = 0\<rparr>) (eq_row [1] (- c))"

definition two_points :: presburger where
  "two_points = \<lparr>set_space = \<lparr>nDims = 1, nSyms = 0\<rparr>, disjuncts = [point_poly 0, point_poly 1]\<rparr>"

text \<open>
  Unions are not imaged disjunct by disjunct: every live disjunct is put into the same product
  system, so the image of \<open>{0} \<union> {1}\<close> under the identity is empty.
\<close>
theorem mapImage_loses_unions:
  "set_containsPoint two_points [0] \<and> set_containsPoint two_points [1] \<and>
   (case mapImage two_points (map_identity \<lparr>nDims = 1, nSyms = 0\<rparr>) of
      Inl _ \<Rightarrow> False
    | Inr img \<Rightarrow> set_feasibility img = Inr FEmpty \<and> \<not> set_containsPoint img [0] \<and> \<not> set_containsPoint img [1])"
  by code_simp

end
