(* ===== verification/Math_Op.thy ===== *)
theory Math_Op
  imports Prelude
begin

text \<open>
  The operation table of the mathematical graph, \<open>compiler/include/mlk/ir/math_op.h\<close> and
  \<open>compiler/src/ir/math_op.cpp\<close>. Operations are ordered as the enum numbers them; the lemmas show
  that every operation finds its own row and that names and operations are in bijection.
\<close>

datatype math_op =
    Op_Add | Op_Sub | Op_Mul | Op_Div | Op_Neg | Op_Pow | Op_Exp | Op_Log | Op_Sin | Op_Cos | Op_Tan
     | Op_Tanh | Op_Sqrt | Op_Rsqrt | Op_Erf | Op_Gelu | Op_MatMul | Op_Dot | Op_Transpose
     | Op_Reshape | Op_Broadcast | Op_ReduceSum | Op_ReduceMax | Op_ReduceMean | Op_Softmax
     | Op_Einsum | Op_Conv | Op_Derivative | Op_Integral | Op_Gradient | Op_Limit | Op_Solve
     | Op_Apply | Op_Lambda | Op_IntToFloat | Op_FloatToInt | Op_RealToComplex | Op_ScalarToTensor
     | Op_TensorToScalar | Op_LayoutTransform | Op_Reinterpret | Op_BitCast | Op_Box | Op_Unbox
     | Op_NativeToMathRef | Op_MathToNativeRef | Op_kCount

text \<open>The table: operation, canonical name, smallest and largest arity (255 stands for variadic).\<close>

record op_info =
  info_op :: math_op
  info_name :: string
  arity_min :: nat
  arity_max :: nat

definition op_row :: "math_op \<Rightarrow> string \<Rightarrow> nat \<times> nat \<Rightarrow> op_info" where
  "op_row p n a = \<lparr>info_op = p, info_name = n, arity_min = fst a, arity_max = snd a\<rparr>"

definition kOpTable :: "op_info list" where
  "kOpTable = [
     op_row Op_Add ''add'' (1, 255),
     op_row Op_Sub ''sub'' (2, 2),
     op_row Op_Mul ''mul'' (1, 255),
     op_row Op_Div ''div'' (2, 2),
     op_row Op_Neg ''neg'' (1, 1),
     op_row Op_Pow ''pow'' (2, 2),
     op_row Op_Exp ''exp'' (1, 1),
     op_row Op_Log ''log'' (1, 1),
     op_row Op_Sin ''sin'' (1, 1),
     op_row Op_Cos ''cos'' (1, 1),
     op_row Op_Tan ''tan'' (1, 1),
     op_row Op_Tanh ''tanh'' (1, 1),
     op_row Op_Sqrt ''sqrt'' (1, 1),
     op_row Op_Rsqrt ''rsqrt'' (1, 1),
     op_row Op_Erf ''erf'' (1, 1),
     op_row Op_Gelu ''gelu'' (1, 1),
     op_row Op_MatMul ''matmul'' (2, 2),
     op_row Op_Dot ''dot'' (2, 2),
     op_row Op_Transpose ''transpose'' (1, 1),
     op_row Op_Reshape ''reshape'' (1, 1),
     op_row Op_Broadcast ''broadcast'' (1, 1),
     op_row Op_ReduceSum ''reduce_sum'' (1, 1),
     op_row Op_ReduceMax ''reduce_max'' (1, 1),
     op_row Op_ReduceMean ''reduce_mean'' (1, 1),
     op_row Op_Softmax ''softmax'' (1, 1),
     op_row Op_Einsum ''einsum'' (2, 2),
     op_row Op_Conv ''conv'' (2, 2),
     op_row Op_Derivative ''derivative'' (2, 2),
     op_row Op_Integral ''integral'' (1, 1),
     op_row Op_Gradient ''gradient'' (2, 2),
     op_row Op_Limit ''limit'' (2, 2),
     op_row Op_Solve ''solve'' (2, 2),
     op_row Op_Apply ''apply'' (1, 255),
     op_row Op_Lambda ''lambda'' (1, 255),
     op_row Op_IntToFloat ''int_to_float'' (1, 1),
     op_row Op_FloatToInt ''float_to_int'' (1, 1),
     op_row Op_RealToComplex ''real_to_complex'' (1, 1),
     op_row Op_ScalarToTensor ''scalar_to_tensor'' (1, 1),
     op_row Op_TensorToScalar ''tensor_to_scalar'' (1, 1),
     op_row Op_LayoutTransform ''layout_transform'' (1, 1),
     op_row Op_Reinterpret ''reinterpret'' (1, 1),
     op_row Op_BitCast ''bitcast'' (1, 1),
     op_row Op_Box ''box'' (1, 1),
     op_row Op_Unbox ''unbox'' (1, 1),
     op_row Op_NativeToMathRef ''native_to_math_ref'' (1, 1),
     op_row Op_MathToNativeRef ''math_to_native_ref'' (1, 1)]"

text \<open>The number of an operation in the enum.\<close>

fun op_index :: "math_op \<Rightarrow> nat" where
  "op_index Op_Add = 0"
| "op_index Op_Sub = 1"
| "op_index Op_Mul = 2"
| "op_index Op_Div = 3"
| "op_index Op_Neg = 4"
| "op_index Op_Pow = 5"
| "op_index Op_Exp = 6"
| "op_index Op_Log = 7"
| "op_index Op_Sin = 8"
| "op_index Op_Cos = 9"
| "op_index Op_Tan = 10"
| "op_index Op_Tanh = 11"
| "op_index Op_Sqrt = 12"
| "op_index Op_Rsqrt = 13"
| "op_index Op_Erf = 14"
| "op_index Op_Gelu = 15"
| "op_index Op_MatMul = 16"
| "op_index Op_Dot = 17"
| "op_index Op_Transpose = 18"
| "op_index Op_Reshape = 19"
| "op_index Op_Broadcast = 20"
| "op_index Op_ReduceSum = 21"
| "op_index Op_ReduceMax = 22"
| "op_index Op_ReduceMean = 23"
| "op_index Op_Softmax = 24"
| "op_index Op_Einsum = 25"
| "op_index Op_Conv = 26"
| "op_index Op_Derivative = 27"
| "op_index Op_Integral = 28"
| "op_index Op_Gradient = 29"
| "op_index Op_Limit = 30"
| "op_index Op_Solve = 31"
| "op_index Op_Apply = 32"
| "op_index Op_Lambda = 33"
| "op_index Op_IntToFloat = 34"
| "op_index Op_FloatToInt = 35"
| "op_index Op_RealToComplex = 36"
| "op_index Op_ScalarToTensor = 37"
| "op_index Op_TensorToScalar = 38"
| "op_index Op_LayoutTransform = 39"
| "op_index Op_Reinterpret = 40"
| "op_index Op_BitCast = 41"
| "op_index Op_Box = 42"
| "op_index Op_Unbox = 43"
| "op_index Op_NativeToMathRef = 44"
| "op_index Op_MathToNativeRef = 45"
| "op_index Op_kCount = 46"

definition opInfo :: "math_op \<Rightarrow> op_info" where
  "opInfo p = (let idx = op_index p in if idx < op_index Op_kCount then kOpTable ! idx else kOpTable ! 0)"

definition opName :: "math_op \<Rightarrow> string" where
  "opName p = info_name (opInfo p)"

text \<open>\<open>Some\<close> of the operation the out reference receives when the name is found.\<close>

definition opByName :: "string \<Rightarrow> math_op option" where
  "opByName n = map_option info_op (find (\<lambda>info. info_name info = n) kOpTable)"

definition isVariadic :: "math_op \<Rightarrow> bool" where
  "isVariadic p \<longleftrightarrow> arity_max (opInfo p) \<ge> 255"

definition arityAccepts :: "math_op \<Rightarrow> nat \<Rightarrow> bool" where
  "arityAccepts p n \<longleftrightarrow> n \<ge> arity_min (opInfo p) \<and> (arity_max (opInfo p) \<ge> 255 \<or> n \<le> arity_max (opInfo p))"

definition isElementwiseMath :: "math_op \<Rightarrow> bool" where
  "isElementwiseMath p \<longleftrightarrow> p \<in> set [
     Op_Add, Op_Sub, Op_Mul, Op_Div, Op_Neg, Op_Pow, Op_Exp, Op_Log, Op_Sin, Op_Cos, Op_Tan, Op_Tanh,
     Op_Sqrt, Op_Rsqrt, Op_Erf, Op_Gelu]"

definition isReduction :: "math_op \<Rightarrow> bool" where
  "isReduction p \<longleftrightarrow> p \<in> set [
     Op_ReduceSum, Op_ReduceMax, Op_ReduceMean, Op_Dot]"

definition isTensorOp :: "math_op \<Rightarrow> bool" where
  "isTensorOp p \<longleftrightarrow> p \<in> set [
     Op_MatMul, Op_Transpose, Op_Reshape, Op_Broadcast, Op_Softmax, Op_Einsum, Op_Conv,
     Op_LayoutTransform] \<or> isReduction p"

definition isCalculusOp :: "math_op \<Rightarrow> bool" where
  "isCalculusOp p \<longleftrightarrow> p \<in> set [
     Op_Derivative, Op_Integral, Op_Gradient, Op_Limit]"

definition isConversionOp :: "math_op \<Rightarrow> bool" where
  "isConversionOp p \<longleftrightarrow> p \<in> set [
     Op_IntToFloat, Op_FloatToInt, Op_RealToComplex, Op_ScalarToTensor, Op_TensorToScalar,
     Op_LayoutTransform, Op_Reinterpret, Op_BitCast, Op_Box, Op_Unbox, Op_NativeToMathRef,
     Op_MathToNativeRef]"

section \<open>The order of the enum\<close>

definition all_ops :: "math_op list" where
  "all_ops = [
     Op_Add, Op_Sub, Op_Mul, Op_Div, Op_Neg, Op_Pow, Op_Exp, Op_Log, Op_Sin, Op_Cos, Op_Tan, Op_Tanh,
     Op_Sqrt, Op_Rsqrt, Op_Erf, Op_Gelu, Op_MatMul, Op_Dot, Op_Transpose, Op_Reshape, Op_Broadcast,
     Op_ReduceSum, Op_ReduceMax, Op_ReduceMean, Op_Softmax, Op_Einsum, Op_Conv, Op_Derivative,
     Op_Integral, Op_Gradient, Op_Limit, Op_Solve, Op_Apply, Op_Lambda, Op_IntToFloat,
     Op_FloatToInt, Op_RealToComplex, Op_ScalarToTensor, Op_TensorToScalar, Op_LayoutTransform,
     Op_Reinterpret, Op_BitCast, Op_Box, Op_Unbox, Op_NativeToMathRef, Op_MathToNativeRef,
     Op_kCount]"

lemma all_ops_nth: "all_ops ! op_index p = p \<and> op_index p < length all_ops"
  by (cases p) (simp_all add: all_ops_def)

lemma op_index_inject: "op_index p = op_index q \<longleftrightarrow> p = q"
  using all_ops_nth [of p] all_ops_nth [of q] by metis

lemma set_all_ops: "set all_ops = UNIV"
  using all_ops_nth nth_mem by (metis UNIV_eq_I)

instantiation math_op :: linorder
begin

definition less_eq_math_op :: "math_op \<Rightarrow> math_op \<Rightarrow> bool" where
  "less_eq_math_op p q \<longleftrightarrow> op_index p \<le> op_index q"

definition less_math_op :: "math_op \<Rightarrow> math_op \<Rightarrow> bool" where
  "less_math_op p q \<longleftrightarrow> op_index p < op_index q"

instance
  by standard (auto simp: less_eq_math_op_def less_math_op_def op_index_inject)

end

section \<open>The table\<close>

lemma table_checked:
  "\<forall>p \<in> set all_ops. p = Op_kCount \<or> info_op (opInfo p) = p \<and> opByName (opName p) = Some p"
  "\<forall>info \<in> set kOpTable. opName (info_op info) = info_name info \<and> info_op info \<noteq> Op_kCount
     \<and> 1 \<le> arity_min info \<and> arity_min info \<le> arity_max info"
  "\<forall>p \<in> set all_ops. p = Op_kCount \<or> opInfo p \<in> set kOpTable"
  by code_simp+

lemma table_arity:
  "\<forall>p \<in> set all_ops. p = Op_kCount \<or> (arity_min (opInfo p), arity_max (opInfo p)) \<in> {(1, 1), (2, 2), (1, 255)}"
  by code_simp

lemma opByName_SomeD: "opByName n = Some p \<Longrightarrow> opName p = n \<and> p \<noteq> Op_kCount"
  using table_checked(2) by (fastforce simp: opByName_def find_Some_iff in_set_conv_nth)

text \<open>
  Operations and their canonical names are in bijection: every operation of the enum finds its
  own row and its name parses back to it, and a name that parses is the name of the result.
\<close>
theorem op_names_roundtrip:
  "(p \<noteq> Op_kCount \<longrightarrow> info_op (opInfo p) = p \<and> opByName (opName p) = Some p)
   \<and> (opByName n = Some q \<longrightarrow> opName q = n \<and> q \<noteq> Op_kCount)"
  using table_checked(1) opByName_SomeD [of n q] by (auto simp: set_all_ops)

lemma op_names_roundtrip_witness:
  "opByName ''reduce_mean'' = Some Op_ReduceMean \<and> opName Op_ReduceMean = ''reduce_mean''"
proof -
  have "opName Op_ReduceMean = ''reduce_mean''" by code_simp
  with op_names_roundtrip [of Op_ReduceMean "''reduce_mean''" Op_ReduceMean] show ?thesis by simp
qed

text \<open>
  The arity test never accepts an operation without operands; it accepts a variadic operation
  with any positive number of operands and any other one only with its exact arity, one or two.
\<close>
theorem arity_table:
  "p \<noteq> Op_kCount \<Longrightarrow> \<not> arityAccepts p 0
     \<and> (if isVariadic p then \<forall>n > 0. arityAccepts p n else \<exists>k \<in> {1, 2}. \<forall>n. arityAccepts p n \<longleftrightarrow> n = k)"
proof -
  assume "p \<noteq> Op_kCount"
  then have "(arity_min (opInfo p), arity_max (opInfo p)) \<in> {(1, 1), (2, 2), (1, 255)}"
    using bspec [OF table_arity, of p] set_all_ops by blast
  moreover have "(\<forall>n. k \<le> n \<and> n \<le> k \<longleftrightarrow> n = k)" for k :: nat by auto
  ultimately show ?thesis by (elim insertE) (auto simp: arityAccepts_def isVariadic_def)
qed

lemma arity_table_witness: "\<not> arityAccepts Op_MatMul 0 \<and> \<not> arityAccepts Op_Add 0"
  using arity_table [of Op_MatMul] arity_table [of Op_Add] by simp

end
