(* ===== verification/Kernel_IR.thy ===== *)
theory Kernel_IR
  imports Math_Op "HOL-Library.Word"
begin

text \<open>
  The data of the kernel IR, \<open>compiler/include/mlk/support/kernel_ir.h\<close>, as far as the polyhedral
  front end reads it: a flat arena of nodes whose loop bodies are child indices. 32-bit ids that
  may hold the invalid marker are words; a floating-point constant is its bit pattern, which no
  modelled code interprets.
\<close>

type_synonym id32 = "32 word"

definition kInvalidId :: id32 where "kInvalidId = 4294967295"

datatype kernel_op = KLoop | KCompute | KLoad | KStore | KAllocBuffer | KCopyBuffer | KBarrier | KTrace
  | KGuard | KCall | KCount

datatype accum_mode = AccumNone | AccumAdd | AccumMax

datatype operand_kind = OConst | OElemA | OElemB | OScalarParam | OTemp | OElemIdx

record kernel_operand =
  opnd_kind :: operand_kind
  opnd_index :: int
  opnd_constValue :: "64 word"
  opnd_idxCoeffs :: "int list"
  opnd_idxOffset :: int

record kernel_expr =
  kx_op :: math_op
  kx_a :: kernel_operand
  kx_b :: kernel_operand

record kernel_node =
  kn_op :: kernel_op
  kn_math :: math_op
  kn_var :: id32
  kn_begin :: int
  kn_end :: int
  kn_step :: int
  kn_beginCoeffs :: "int list"
  kn_beginOffset :: int
  kn_endCoeffs :: "int list"
  kn_endOffset :: int
  kn_endBuf :: id32
  kn_endDim :: int
  kn_bufferA :: id32
  kn_bufferB :: id32
  kn_bufferOut :: id32
  kn_outIndexCoeffs :: "int list"
  kn_outIndexOffset :: int
  kn_accum :: accum_mode
  kn_parallel :: bool
  kn_vectorHint :: bool
  kn_guardId :: id32
  kn_guardCoeffs :: "int list"
  kn_guardOffset :: int
  kn_family :: id32
  kn_exprs :: "kernel_expr list"
  kn_children :: "nat list"

definition kKernelLoopDynamicBound :: int where "kKernelLoopDynamicBound = -1"

text \<open>Default-constructed operand and node.\<close>

definition new_operand :: kernel_operand where
  "new_operand = \<lparr>opnd_kind = OConst, opnd_index = 0, opnd_constValue = 0, opnd_idxCoeffs = [], opnd_idxOffset = 0\<rparr>"

definition new_node :: kernel_node where
  "new_node = \<lparr>kn_op = KLoop, kn_math = Op_Add, kn_var = kInvalidId, kn_begin = 0, kn_end = kKernelLoopDynamicBound,
     kn_step = 1, kn_beginCoeffs = [], kn_beginOffset = 0, kn_endCoeffs = [], kn_endOffset = 0, kn_endBuf = kInvalidId,
     kn_endDim = -1, kn_bufferA = kInvalidId, kn_bufferB = kInvalidId, kn_bufferOut = kInvalidId, kn_outIndexCoeffs = [],
     kn_outIndexOffset = 0, kn_accum = AccumNone, kn_parallel = False, kn_vectorHint = False, kn_guardId = kInvalidId,
     kn_guardCoeffs = [], kn_guardOffset = 0, kn_family = kInvalidId, kn_exprs = [], kn_children = []\<rparr>"

end
