(* ===== verification/Scop.thy ===== *)
theory Scop
  imports Kernel_IR Affine_Map
begin

text \<open>
  Extraction of the static control part of a kernel, \<open>polyhedral/src/scop.cpp\<close>: the loop nests of
  the node arena are walked, Compute nodes paired with their Store become statements, and a final
  pass gives every statement a domain and access maps at the full rank. The walk state is the
  statements and the loop variables met; a rejected walk returns false with a message, here
  \<open>reject\<close>. The list \<open>loopVars\<close> is pushed and popped but never read and is left out.
\<close>

definition kPolyMaxDims :: nat where "kPolyMaxDims = 8"
definition kPolyMaxStatements :: nat where "kPolyMaxStatements = 8"
definition kPolyMaxAccessesPerStatement :: nat where "kPolyMaxAccessesPerStatement = 8"

record memory_access =
  acc_bufferId :: id32
  acc_isWrite :: bool
  acc_flatIndex :: affine_map

record statement =
  st_id :: nat
  st_space :: var_space
  st_domain :: presburger
  st_accesses :: "memory_access list"
  st_exprs :: "kernel_expr list"
  st_storeBuffer :: id32
  st_storeCoeffs :: "int list"
  st_storeOffset :: int
  st_accum :: accum_mode
  st_origOrder :: nat
  st_depth :: nat
  st_ownLower :: "int list"
  st_ownUpper :: "int list"

record scop =
  scop_space :: var_space
  scop_statements :: "statement list"
  scop_dimVars :: "id32 list"
  scop_depth :: nat

record walk_state =
  ws_statements :: "statement list"
  ws_preorderVars :: "id32 list"

definition reject :: "'a result" where "reject = Inl (Err UnsupportedCapability)"

definition isAffineRegionOp :: "kernel_op \<Rightarrow> bool" where
  "isAffineRegionOp k \<longleftrightarrow> k \<in> set [KLoop, KCompute, KStore]"

definition flatMap :: "var_space \<Rightarrow> int list \<Rightarrow> int \<Rightarrow> affine_map" where
  "flatMap sp cs off = \<lparr>map_inSpace = sp, map_nOut = 1,
     map_outputs = [\<lparr>expr_space = sp,
       expr_coeffs = map (\<lambda>d. if d < nDims sp \<and> d < length cs then cs ! d else 0) [0..<totalVars sp],
       expr_constant = off\<rparr>]\<rparr>"

definition withinBudgets :: "walk_state \<Rightarrow> nat \<Rightarrow> nat \<Rightarrow> bool" where
  "withinBudgets ws depth accessCount \<longleftrightarrow> \<not> depth > kPolyMaxDims
     \<and> \<not> length (ws_statements ws) \<ge> kPolyMaxStatements \<and> \<not> accessCount > kPolyMaxAccessesPerStatement"

section \<open>Recording a statement\<close>

text \<open>The innermost enclosing loop variable, the index of a legacy element access.\<close>

definition innermost :: "nat \<Rightarrow> int list" where
  "innermost depth = (replicate depth 0)[depth - 1 := 1]"

definition operand_access :: "kernel_node \<Rightarrow> nat \<Rightarrow> kernel_operand \<Rightarrow> memory_access list \<Rightarrow> memory_access list result" where
  "operand_access compute depth opnd accs =
     (if opnd_kind opnd = OElemIdx then
        Inr (accs @ [\<lparr>acc_bufferId = word_of_int (opnd_index opnd), acc_isWrite = False,
          acc_flatIndex = flatMap \<lparr>nDims = depth, nSyms = 0\<rparr> (opnd_idxCoeffs opnd) (opnd_idxOffset opnd)\<rparr>])
      else if opnd_kind opnd = OElemA \<or> opnd_kind opnd = OElemB then
        (if depth = 0 then reject
         else let buf = (if opnd_kind opnd = OElemB then kn_bufferB compute else kn_bufferA compute) in
           if buf = kInvalidId then reject
           else Inr (accs @ [\<lparr>acc_bufferId = buf, acc_isWrite = False,
             acc_flatIndex = flatMap \<lparr>nDims = depth, nSyms = 0\<rparr> (innermost depth) 0\<rparr>]))
      else Inr accs)"

definition read_accesses :: "kernel_node \<Rightarrow> nat \<Rightarrow> memory_access list result" where
  "read_accesses compute depth =
     fold_res (operand_access compute depth) (concat (map (\<lambda>e. [kx_a e, kx_b e]) (kn_exprs compute))) []"

definition store_coeffs :: "kernel_node \<Rightarrow> nat \<Rightarrow> int list result" where
  "store_coeffs store depth =
     (if kn_outIndexCoeffs store = [] then (if depth = 0 then reject else Inr (innermost depth))
      else Inr (kn_outIndexCoeffs store))"

definition write_accesses :: "kernel_node \<Rightarrow> nat \<Rightarrow> int list \<Rightarrow> memory_access list" where
  "write_accesses store depth wcoeffs =
     (let acc = \<lparr>acc_bufferId = kn_bufferOut store, acc_isWrite = True,
        acc_flatIndex = flatMap \<lparr>nDims = depth, nSyms = 0\<rparr> wcoeffs (kn_outIndexOffset store)\<rparr> in
      acc # (if kn_accum store \<noteq> AccumNone then [acc\<lparr>acc_isWrite := False\<rparr>] else []))"

text \<open>The flat store coefficients and all accesses of the statement.\<close>

definition all_accesses :: "kernel_node \<Rightarrow> nat \<Rightarrow> memory_access list \<Rightarrow> (int list \<times> memory_access list) result" where
  "all_accesses store depth reads =
     (if kn_bufferOut store = kInvalidId then Inr (kn_outIndexCoeffs store, reads)
      else mlk_try (store_coeffs store depth) (\<lambda>wc. Inr (wc, reads @ write_accesses store depth wc)))"

definition raw_statement :: "nat \<Rightarrow> int list \<Rightarrow> int list \<Rightarrow> kernel_node \<Rightarrow> kernel_node \<Rightarrow> int list \<times> memory_access list \<Rightarrow> statement" where
  "raw_statement i lower upper compute store wa =
     \<lparr>st_id = i, st_space = \<lparr>nDims = 0, nSyms = 0\<rparr>, st_domain = \<lparr>set_space = \<lparr>nDims = 0, nSyms = 0\<rparr>, disjuncts = []\<rparr>,
      st_accesses = snd wa, st_exprs = kn_exprs compute, st_storeBuffer = kn_bufferOut store,
      st_storeCoeffs = fst wa, st_storeOffset = kn_outIndexOffset store, st_accum = kn_accum store,
      st_origOrder = i, st_depth = length lower, st_ownLower = lower, st_ownUpper = upper\<rparr>"

definition recordStatement :: "int list \<Rightarrow> int list \<Rightarrow> kernel_node \<Rightarrow> kernel_node \<Rightarrow> walk_state \<Rightarrow> walk_state result" where
  "recordStatement loopBegin loopEnd compute store ws =
     (if \<not> withinBudgets ws (length loopBegin) (length (kn_exprs compute) + 1) then reject
      else mlk_try (map_res (\<lambda>v. plain64 (v - 1)) loopEnd) (\<lambda>upper.
        mlk_try (read_accesses compute (length loopBegin)) (\<lambda>reads.
        mlk_try (all_accesses store (length loopBegin) reads) (\<lambda>wa.
        Inr (ws\<lparr>ws_statements := ws_statements ws @
          [raw_statement (length (ws_statements ws)) loopBegin upper compute store wa]\<rparr>)))))"

section \<open>Walking the nests\<close>

definition loop_eligible :: "kernel_node \<Rightarrow> bool" where
  "loop_eligible c \<longleftrightarrow> kn_step c = 1 \<and> \<not> (kn_end c < 0 \<or> kn_end c < kn_begin c \<or> kn_begin c < 0)
     \<and> \<not> kn_end c > kRationalMagnitudeLimit"

text \<open>
  The recursion ends although the arena may be cyclic: a loop nested deeper than
  \<open>kPolyMaxDims\<close> is rejected. The Store paired with a Compute is read without a range check.
\<close>

function walkChildren :: "kernel_node list \<Rightarrow> nat list \<Rightarrow> int list \<Rightarrow> int list \<Rightarrow> walk_state \<Rightarrow> walk_state result" where
  "walkChildren nodes [] loopBegin loopEnd ws = Inr ws"
| "walkChildren nodes (cid # rest) loopBegin loopEnd ws =
     (if cid \<ge> length nodes then reject
      else let c = nodes ! cid in
        if \<not> isAffineRegionOp (kn_op c) then reject
        else if kn_op c = KLoop then
          (if \<not> loop_eligible c then reject
           else if length loopBegin \<ge> kPolyMaxDims then reject
           else mlk_try (walkChildren nodes (kn_children c) (loopBegin @ [kn_begin c]) (loopEnd @ [kn_end c])
                  (ws\<lparr>ws_preorderVars := ws_preorderVars ws @ [kn_var c]\<rparr>)) (\<lambda>ws.
                walkChildren nodes rest loopBegin loopEnd ws))
        else if kn_op c = KCompute then
          (case rest of
             [] \<Rightarrow> reject
           | s # rest' \<Rightarrow>
               if s \<ge> length nodes then Inl UndefinedBehaviour
               else if kn_op (nodes ! s) \<noteq> KStore then reject
               else if kn_bufferOut (nodes ! s) = kInvalidId then reject
               else mlk_try (recordStatement loopBegin loopEnd c (nodes ! s) ws) (\<lambda>ws.
                 walkChildren nodes rest' loopBegin loopEnd ws))
        else reject)"
  by pat_completeness auto
termination
  by (relation "inv_image (less_than <*lex*> less_than)
       (\<lambda>(nodes, children, loopBegin, loopEnd, ws). (kPolyMaxDims - length loopBegin, length children))") auto

declare walkChildren.simps [simp del]

definition walk_root :: "kernel_node list \<Rightarrow> nat \<Rightarrow> walk_state \<Rightarrow> walk_state result" where
  "walk_root nodes i ws = (let root = nodes ! i in
     if \<not> isAffineRegionOp (kn_op root) then reject
     else if kn_op root \<noteq> KLoop then reject
     else if \<not> loop_eligible root then reject
     else walkChildren nodes (kn_children root) [kn_begin root] [kn_end root]
       (ws\<lparr>ws_preorderVars := ws_preorderVars ws @ [kn_var root]\<rparr>))"

definition root_nodes :: "kernel_node list \<Rightarrow> nat list" where
  "root_nodes nodes = (let referenced = concat (map kn_children nodes) in
     filter (\<lambda>i. i \<notin> set referenced) [0..<length nodes])"

section \<open>The full rank\<close>

definition bound_exprs :: "var_space \<Rightarrow> nat \<Rightarrow> int list \<Rightarrow> affine_expr list" where
  "bound_exprs sp own bs = map (\<lambda>d. expr_fromConstant sp (if d < own then bs ! d else 0)) [0..<nDims sp]"

definition pad_coeffs :: "nat \<Rightarrow> int list \<Rightarrow> int list" where
  "pad_coeffs n cs = map (coeff_of cs) [0..<n]"

definition pad_access :: "var_space \<Rightarrow> memory_access \<Rightarrow> memory_access" where
  "pad_access sp acc = (let e = map_outputs (acc_flatIndex acc) ! 0 in
     acc\<lparr>acc_flatIndex := flatMap sp (map (expr_coeffOf e) [0..<nDims sp]) (expr_constant e)\<rparr>)"

definition finalize_statement :: "var_space \<Rightarrow> statement \<Rightarrow> statement result" where
  "finalize_statement sp s =
     (case affineBox sp (bound_exprs sp (st_depth s) (st_ownLower s)) (bound_exprs sp (st_depth s) (st_ownUpper s)) of
        Inl _ \<Rightarrow> Inl (Err Internal)
      | Inr d \<Rightarrow> Inr (s\<lparr>st_space := sp, st_domain := d,
          st_storeCoeffs := pad_coeffs (nDims sp) (st_storeCoeffs s),
          st_accesses := map (pad_access sp) (st_accesses s)\<rparr>))"

definition max_depth :: "statement list \<Rightarrow> nat" where
  "max_depth ss = fold (\<lambda>s d. if d < st_depth s then st_depth s else d) ss 0"

definition extractScop :: "kernel_node list \<Rightarrow> scop result" where
  "extractScop nodes =
     (if nodes = [] then Inl (Err InvalidGraph)
      else mlk_try (fold_res (walk_root nodes) (root_nodes nodes) \<lparr>ws_statements = [], ws_preorderVars = []\<rparr>) (\<lambda>ws.
        if ws_statements ws = [] then reject
        else let depth = max_depth (ws_statements ws); sp = \<lparr>nDims = depth, nSyms = 0\<rparr> in
          mlk_try (map_res (finalize_statement sp) (ws_statements ws)) (\<lambda>ss.
            Inr \<lparr>scop_space = sp, scop_statements = ss, scop_dimVars = take depth (ws_preorderVars ws),
                 scop_depth = depth\<rparr>)))"

end
