(* ===== verification/Dependence.thy ===== *)
theory Dependence
  imports Scop
begin

text \<open>
  Data dependences, \<open>polyhedral/src/dependence.cpp\<close>: for every pair of accesses to one buffer, one
  of them a write, the relation over [source instance | sink instance] of the pairs that touch
  the same element in program order. The four nested loops run over a flattened list of pairs in
  the same order.
\<close>

definition kPolyMaxDependences :: nat where "kPolyMaxDependences = 64"

datatype dep_kind = Raw | War | Waw

record dependence =
  dep_srcStmt :: nat
  dep_dstStmt :: nat
  dep_srcAccess :: nat
  dep_dstAccess :: nat
  dep_dkind :: dep_kind
  dep_relation :: presburger

definition pair_space :: "nat \<Rightarrow> var_space" where
  "pair_space depth = \<lparr>nDims = depth * 2, nSyms = 0\<rparr>"

text \<open>One domain row over the block of dimensions from \<open>base\<close>.\<close>

definition shift_row :: "nat \<Rightarrow> nat \<Rightarrow> nat \<Rightarrow> constraint_row \<Rightarrow> constraint_row" where
  "shift_row nd base n r = r\<lparr>row_coeffs := map (\<lambda>i. if base \<le> i \<and> i < base + nd then row_coeffOf r (i - base) else 0) [0..<n]\<rparr>"

definition embedDomain :: "statement \<Rightarrow> nat \<Rightarrow> nat \<Rightarrow> polyhedron \<Rightarrow> polyhedron result" where
  "embedDomain s base n sys =
     (case disjuncts (st_domain s) of
        [p] \<Rightarrow> if isEmptyFlag p then Inl (Err InvalidArgument)
          else Inr (fold (\<lambda>r sys. addRow sys (shift_row (nDims (st_space s)) base n r)) (poly_rows p) sys)
      | _ \<Rightarrow> Inl (Err InvalidArgument))"

definition addTieRow :: "memory_access \<Rightarrow> memory_access \<Rightarrow> nat \<Rightarrow> polyhedron \<Rightarrow> polyhedron result" where
  "addTieRow src dst depth sys =
     (let fs = map_outputs (acc_flatIndex src) ! 0; fd = map_outputs (acc_flatIndex dst) ! 0 in
      mlk_try (map_res (\<lambda>d. mlk_try (subLimited (expr_coeffOf fs d) (expr_coeffOf fd d)) (\<lambda>_.
          plain64 (- expr_coeffOf fd d))) [0..<depth]) (\<lambda>negs.
      mlk_try (subLimited (expr_constant fs) (expr_constant fd)) (\<lambda>k.
      mlk_try (plain64 (- k)) (\<lambda>c.
        Inr (addRow sys \<lparr>row_coeffs = map (expr_coeffOf fs) [0..<depth] @ negs, row_constant = c, row_isEquality = True\<rparr>)))))"

definition diff_row :: "nat \<Rightarrow> nat \<Rightarrow> int \<Rightarrow> bool \<Rightarrow> constraint_row" where
  "diff_row depth d k eq = \<lparr>row_coeffs = (replicate (depth * 2) 0)[d := -1, depth + d := 1], row_constant = k,
     row_isEquality = eq\<rparr>"

definition lex_pivot :: "nat \<Rightarrow> nat \<Rightarrow> polyhedron" where
  "lex_pivot depth pivot =
     addRow (fold (\<lambda>d p. addRow p (diff_row depth d 0 True)) [0..<pivot] (new_poly (pair_space depth)))
       (diff_row depth pivot (-1) False)"

definition lexGreater :: "nat \<Rightarrow> presburger" where
  "lexGreater depth = \<lparr>set_space = pair_space depth, disjuncts = map (lex_pivot depth) [0..<depth]\<rparr>"

definition lexEqual :: "nat \<Rightarrow> presburger" where
  "lexEqual depth = \<lparr>set_space = pair_space depth,
     disjuncts = [fold (\<lambda>d p. addRow p (diff_row depth d 0 True)) [0..<depth] (new_poly (pair_space depth))]\<rparr>"

definition dependenceLive :: "dependence \<Rightarrow> bool" where
  "dependenceLive dep \<longleftrightarrow> disjuncts (dep_relation dep) \<noteq> [] \<and> \<not> isEmptyFlag (disjuncts (dep_relation dep) ! 0)"

definition access_kind :: "memory_access \<Rightarrow> memory_access \<Rightarrow> dep_kind option" where
  "access_kind a b =
     (if acc_isWrite a \<and> \<not> acc_isWrite b then Some Raw
      else if \<not> acc_isWrite a \<and> acc_isWrite b then Some War
      else if acc_isWrite a \<and> acc_isWrite b then Some Waw
      else None)"

text \<open>The conjunctive system of the pair, before any ordering.\<close>

definition pair_system :: "nat \<Rightarrow> statement \<Rightarrow> memory_access \<Rightarrow> statement \<Rightarrow> memory_access \<Rightarrow> polyhedron result" where
  "pair_system depth src a dst b =
     mlk_try (embedDomain src 0 (depth * 2) (new_poly (pair_space depth))) (\<lambda>sys.
     mlk_try (embedDomain dst depth (depth * 2) sys) (\<lambda>sys. addTieRow a b depth sys))"

definition ordered_relation :: "nat \<Rightarrow> statement \<Rightarrow> statement \<Rightarrow> dep_kind \<Rightarrow> presburger \<Rightarrow> presburger result" where
  "ordered_relation depth src dst kind part =
     (if st_id src = st_id dst then intersect part (lexGreater depth)
      else if kind = Raw \<and> st_accum src \<noteq> AccumNone then Inr part
      else mlk_try (intersect part (lexEqual depth)) (\<lambda>eqPart.
           mlk_try (intersect part (lexGreater depth)) (\<lambda>gtPart. unite eqPart gtPart)))"

definition push_dependence :: "dependence \<Rightarrow> dependence list \<Rightarrow> dependence list result" where
  "push_dependence dep out =
     (if length out \<ge> kPolyMaxDependences then Inl (Err ResourceExhausted) else Inr (out @ [dep]))"

definition dep_pair :: "nat \<Rightarrow> statement \<Rightarrow> nat \<Rightarrow> statement \<Rightarrow> nat \<Rightarrow> dependence list \<Rightarrow> dependence list result" where
  "dep_pair depth src ai dst bi out =
     (let a = st_accesses src ! ai; b = st_accesses dst ! bi in
      if acc_bufferId a \<noteq> acc_bufferId b then Inr out
      else case access_kind a b of
        None \<Rightarrow> Inr out
      | Some kind \<Rightarrow>
          mlk_try (pair_system depth src a dst b) (\<lambda>sys.
            if isEmptyFlag sys then Inr out
            else mlk_try (ordered_relation depth src dst kind \<lparr>set_space = pair_space depth, disjuncts = [sys]\<rparr>) (\<lambda>rel.
                 mlk_try (set_feasibility rel) (\<lambda>f.
                   if f = FEmpty then Inr out
                   else push_dependence \<lparr>dep_srcStmt = st_id src, dep_dstStmt = st_id dst, dep_srcAccess = ai,
                     dep_dstAccess = bi, dep_dkind = kind, dep_relation = rel\<rparr> out))))"

definition access_pairs :: "scop \<Rightarrow> (statement \<times> nat \<times> statement \<times> nat) list" where
  "access_pairs sc =
     concat (map (\<lambda>src. concat (map (\<lambda>dst. concat (map (\<lambda>ai.
         if st_id dst < st_id src then [] else map (\<lambda>bi. (src, ai, dst, bi)) [0..<length (st_accesses dst)])
       [0..<length (st_accesses src)])) (scop_statements sc))) (scop_statements sc))"

definition computeDependences :: "scop \<Rightarrow> dependence list result" where
  "computeDependences sc =
     (if scop_depth sc = 0 then Inl (Err InvalidArgument)
      else fold_res (\<lambda>(src, ai, dst, bi). dep_pair (scop_depth sc) src ai dst bi) (access_pairs sc) [])"

end
