(* ===== verification/Scop_Laws.thy ===== *)
theory Scop_Laws
  imports Scop
begin

text \<open>
  What the walk keeps of its statements, and that it never leaves the arena when every child
  index is in range.
\<close>

section \<open>Recorded statements\<close>

definition raw_ok :: "nat \<Rightarrow> statement \<Rightarrow> bool" where
  "raw_ok k s \<longleftrightarrow> st_id s = k \<and> st_origOrder s = k \<and> st_depth s \<le> kPolyMaxDims
     \<and> length (st_ownLower s) = st_depth s \<and> length (st_ownUpper s) = st_depth s
     \<and> (\<forall>d < st_depth s. 0 \<le> st_ownLower s ! d \<and> st_ownLower s ! d \<le> st_ownUpper s ! d + 1
          \<and> st_ownUpper s ! d < kRationalMagnitudeLimit)
     \<and> (\<forall>a \<in> set (st_accesses s). \<exists>cs off. acc_flatIndex a = flatMap \<lparr>nDims = st_depth s, nSyms = 0\<rparr> cs off)"

definition ws_ok :: "walk_state \<Rightarrow> bool" where
  "ws_ok ws \<longleftrightarrow> length (ws_statements ws) \<le> kPolyMaxStatements
     \<and> (\<forall>k < length (ws_statements ws). raw_ok k (ws_statements ws ! k))"

definition bounds_ok :: "int list \<Rightarrow> int list \<Rightarrow> bool" where
  "bounds_ok b e \<longleftrightarrow> length b = length e \<and> length b \<le> kPolyMaxDims
     \<and> (\<forall>d < length b. 0 \<le> b ! d \<and> b ! d \<le> e ! d \<and> e ! d \<le> kRationalMagnitudeLimit)"

lemma bounds_ok_snoc:
  "bounds_ok b e \<Longrightarrow> length b < kPolyMaxDims \<Longrightarrow> loop_eligible c \<Longrightarrow> bounds_ok (b @ [kn_begin c]) (e @ [kn_end c])"
  by (auto simp: bounds_ok_def loop_eligible_def nth_append less_Suc_eq)

lemma upper_bounds:
  assumes "bounds_ok b e"
  shows "map_res (\<lambda>v. plain64 (v - 1)) e = Inr (map (\<lambda>v. v - 1) e)"
proof (rule map_res_total)
  fix v assume "v \<in> set e"
  with assms have "0 \<le> v" "v \<le> kRationalMagnitudeLimit" by (auto simp: bounds_ok_def in_set_conv_nth)
  then show "plain64 (v - 1) = Inr (v - 1)" by (simp add: plain64_Inr i64_defs kRationalMagnitudeLimit_def)
qed

definition flat_at :: "nat \<Rightarrow> memory_access \<Rightarrow> bool" where
  "flat_at depth a \<longleftrightarrow> (\<exists>cs off. acc_flatIndex a = flatMap \<lparr>nDims = depth, nSyms = 0\<rparr> cs off)"

lemma flat_at_new [simp]:
  "flat_at depth \<lparr>acc_bufferId = v, acc_isWrite = w, acc_flatIndex = flatMap \<lparr>nDims = depth, nSyms = 0\<rparr> cs off\<rparr>"
  by (auto simp: flat_at_def)

lemma operand_access_ok:
  "operand_access c depth o' accs = Inr accs' \<Longrightarrow> \<forall>a \<in> set accs. flat_at depth a \<Longrightarrow> \<forall>a \<in> set accs'. flat_at depth a"
  by (auto simp: operand_access_def reject_def Let_def split: if_splits)

lemma read_accesses_ok: "read_accesses c depth = Inr accs \<Longrightarrow> \<forall>a \<in> set accs. flat_at depth a"
  unfolding read_accesses_def
  by (erule fold_res_invariant [where P = "\<lambda>accs. \<forall>a \<in> set accs. flat_at depth a"])
     (simp, rule operand_access_ok, assumption+)

lemma write_accesses_ok: "a \<in> set (write_accesses s depth wc) \<Longrightarrow> flat_at depth a"
  by (auto simp: write_accesses_def Let_def split: if_splits)

lemma recordStatement_ok:
  assumes "recordStatement b e c s ws = Inr ws'" and "ws_ok ws" and "bounds_ok b e"
  shows "ws_ok ws'"
proof -
  let ?n = "length (ws_statements ws)" and ?d = "length b"
  from assms(1) upper_bounds [OF assms(3)] obtain reads wa where wb: "withinBudgets ws ?d (length (kn_exprs c) + 1)"
    and r: "read_accesses c ?d = Inr reads" and w: "all_accesses s ?d reads = Inr wa"
    and ws': "ws' = ws\<lparr>ws_statements := ws_statements ws @ [raw_statement ?n b (map (\<lambda>v. v - 1) e) c s wa]\<rparr>"
    by (auto simp: recordStatement_def mlk_try_Inr_iff reject_def split: if_splits)
  have "\<forall>a \<in> set (snd wa). flat_at ?d a"
    using w read_accesses_ok [OF r] write_accesses_ok [of _ s ?d] by (auto simp: all_accesses_def mlk_try_Inr_iff split: if_splits)
  then have "raw_ok ?n (raw_statement ?n b (map (\<lambda>v. v - 1) e) c s wa)"
    using assms(3) by (auto simp: raw_statement_def raw_ok_def bounds_ok_def flat_at_def)
  then show ?thesis using assms(2) wb by (auto simp: ws_ok_def ws' withinBudgets_def nth_append less_Suc_eq)
qed

lemma recordStatement_no_ub:
  assumes "bounds_ok b e"
  shows "recordStatement b e c s ws \<noteq> Inl UndefinedBehaviour"
proof -
  have "operand_access c d o' accs \<noteq> Inl UndefinedBehaviour" for d o' accs
    by (simp add: operand_access_def reject_def Let_def)
  then have "fold_res (operand_access c d) os accs \<noteq> Inl UndefinedBehaviour" for d os accs
    by (induction os arbitrary: accs) (auto simp: mlk_try_Inl_iff)
  then have r: "read_accesses c d \<noteq> Inl UndefinedBehaviour" for d by (simp add: read_accesses_def)
  have "all_accesses s d reads \<noteq> Inl UndefinedBehaviour" for d reads
    by (auto simp: all_accesses_def store_coeffs_def reject_def)
  with r show ?thesis
    by (auto simp: recordStatement_def upper_bounds [OF assms] mlk_try_Inl_iff reject_def)
qed

section \<open>The walk\<close>

lemma walkChildren_ok:
  "walkChildren nodes cs b e ws = Inr ws' \<Longrightarrow> ws_ok ws \<Longrightarrow> bounds_ok b e \<Longrightarrow> ws_ok ws'"
proof (induction nodes cs b e ws arbitrary: ws' rule: walkChildren.induct)
  case (1 nodes b e ws)
  then show ?case by (simp add: walkChildren.simps)
next
  case (2 nodes cid rest b e ws)
  let ?c = "nodes ! cid"
  from "2.prems"(1) have ok: "cid < length nodes" "isAffineRegionOp (kn_op ?c)"
    and run: "(if kn_op ?c = KLoop then
          (if \<not> loop_eligible ?c then reject
           else if length b \<ge> kPolyMaxDims then reject
           else mlk_try (walkChildren nodes (kn_children ?c) (b @ [kn_begin ?c]) (e @ [kn_end ?c])
                  (ws\<lparr>ws_preorderVars := ws_preorderVars ws @ [kn_var ?c]\<rparr>)) (\<lambda>ws. walkChildren nodes rest b e ws))
        else if kn_op ?c = KCompute then
          (case rest of [] \<Rightarrow> reject
           | s # rest' \<Rightarrow>
               if s \<ge> length nodes then Inl UndefinedBehaviour
               else if kn_op (nodes ! s) \<noteq> KStore then reject
               else if kn_bufferOut (nodes ! s) = kInvalidId then reject
               else mlk_try (recordStatement b e ?c (nodes ! s) ws) (\<lambda>ws. walkChildren nodes rest' b e ws))
        else reject) = Inr ws'"
    by (auto simp: walkChildren.simps(2) Let_def reject_def split: if_splits)
  show ?case
  proof (cases "kn_op ?c = KLoop")
    case True
    with run obtain u where l: "loop_eligible ?c" "length b < kPolyMaxDims"
      and u: "walkChildren nodes (kn_children ?c) (b @ [kn_begin ?c]) (e @ [kn_end ?c])
                  (ws\<lparr>ws_preorderVars := ws_preorderVars ws @ [kn_var ?c]\<rparr>) = Inr u"
      and k: "walkChildren nodes rest b e u = Inr ws'"
      by (auto simp: reject_def mlk_try_Inr_iff split: if_splits)
    have "ws_ok u"
      by (rule "2.IH"(1) [OF _ _ _ _ _ _ u]) (use ok l True "2.prems"(2,3) in \<open>simp_all add: ws_ok_def bounds_ok_snoc\<close>)
    then show ?thesis by (intro "2.IH"(2) [OF _ _ _ _ _ _ u k]) (use ok l True "2.prems"(3) in simp_all)
  next
    case False
    with run obtain s rest' u where r: "rest = s # rest'" "kn_op ?c = KCompute" "s < length nodes"
      and st: "kn_op (nodes ! s) = KStore" "kn_bufferOut (nodes ! s) \<noteq> kInvalidId"
      and u: "recordStatement b e ?c (nodes ! s) ws = Inr u" and k: "walkChildren nodes rest' b e u = Inr ws'"
      by (auto simp: reject_def mlk_try_Inr_iff split: if_splits list.splits)
    have "ws_ok u" by (rule recordStatement_ok [OF u "2.prems"(2,3)])
    then show ?thesis
      by (intro "2.IH"(3) [OF _ refl _ _ _ r(1) _ _ _ u k]) (use ok r False st "2.prems"(3) in simp_all)
  qed
qed

text \<open>With every child index in range the walk never reads outside the arena.\<close>

definition arena_ok :: "kernel_node list \<Rightarrow> bool" where
  "arena_ok nodes \<longleftrightarrow> (\<forall>n \<in> set nodes. \<forall>c \<in> set (kn_children n). c < length nodes)"

lemma arena_okD: "arena_ok nodes \<Longrightarrow> i < length nodes \<Longrightarrow> \<forall>c \<in> set (kn_children (nodes ! i)). c < length nodes"
  using nth_mem by (auto simp: arena_ok_def)

lemma walkChildren_no_ub:
  "arena_ok nodes \<Longrightarrow> \<forall>c \<in> set cs. c < length nodes \<Longrightarrow> bounds_ok b e
     \<Longrightarrow> walkChildren nodes cs b e ws \<noteq> Inl UndefinedBehaviour"
proof (induction nodes cs b e ws rule: walkChildren.induct)
  case (1 nodes b e ws)
  then show ?case by (simp add: walkChildren.simps)
next
  case (2 nodes cid rest b e ws)
  let ?c = "nodes ! cid"
  have cid: "cid < length nodes" and rest: "\<forall>c \<in> set rest. c < length nodes" using "2.prems"(2) by auto
  show ?case
  proof (cases "isAffineRegionOp (kn_op ?c)")
    case aff: True
    show ?thesis
    proof (cases "kn_op ?c = KLoop")
      case True
      show ?thesis
      proof (cases "loop_eligible ?c \<and> length b < kPolyMaxDims")
        case l: True
        have ch: "\<forall>k \<in> set (kn_children ?c). k < length nodes" by (rule arena_okD [OF "2.prems"(1) cid])
        have bo: "bounds_ok (b @ [kn_begin ?c]) (e @ [kn_end ?c])" using "2.prems"(3) l by (simp add: bounds_ok_snoc)
        have i1: "walkChildren nodes (kn_children ?c) (b @ [kn_begin ?c]) (e @ [kn_end ?c])
            (ws\<lparr>ws_preorderVars := ws_preorderVars ws @ [kn_var ?c]\<rparr>) \<noteq> Inl UndefinedBehaviour"
          by (intro "2.IH"(1)) (use cid aff True l ch bo "2.prems"(1) in simp_all)
        have i2: "walkChildren nodes rest b e u \<noteq> Inl UndefinedBehaviour"
          if "walkChildren nodes (kn_children ?c) (b @ [kn_begin ?c]) (e @ [kn_end ?c])
            (ws\<lparr>ws_preorderVars := ws_preorderVars ws @ [kn_var ?c]\<rparr>) = Inr u" for u
          by (rule "2.IH"(2) [OF _ refl _ _ _ _ that]) (use cid aff True l rest "2.prems" in simp_all)
        show ?thesis using cid aff True l i1 i2 by (auto simp: walkChildren.simps(2) Let_def mlk_try_Inl_iff)
      qed (use cid aff True in \<open>auto simp: walkChildren.simps(2) Let_def reject_def\<close>)
    next
      case False
      show ?thesis
      proof (cases rest)
        case (Cons s rest')
        have i3: "walkChildren nodes rest' b e u \<noteq> Inl UndefinedBehaviour"
          if "recordStatement b e ?c (nodes ! s) ws = Inr u" "kn_op ?c = KCompute" "kn_op (nodes ! s) = KStore"
            "kn_bufferOut (nodes ! s) \<noteq> kInvalidId" for u
          by (rule "2.IH"(3) [OF _ refl _ _ _ Cons _ _ _ that(1)]) (use cid aff False rest that Cons "2.prems" in simp_all)
        show ?thesis
          using cid aff False rest Cons i3 recordStatement_no_ub [OF "2.prems"(3)]
          by (auto simp: walkChildren.simps(2) Let_def reject_def mlk_try_Inl_iff)
      qed (use cid aff False in \<open>auto simp: walkChildren.simps(2) Let_def reject_def\<close>)
    qed
  qed (use cid in \<open>auto simp: walkChildren.simps(2) Let_def reject_def\<close>)
qed

text \<open>A body that holds a member of a set of loops closed under its own bodies is never accepted.\<close>

lemma walkChildren_cycle:
  assumes "\<forall>i \<in> S. kn_op (nodes ! i) = KLoop \<and> (\<exists>j \<in> set (kn_children (nodes ! i)). j \<in> S)"
  shows "walkChildren nodes cs b e ws = Inr ws' \<Longrightarrow> c \<in> set cs \<Longrightarrow> c \<in> S \<Longrightarrow> False"
  using assms
proof (induction nodes cs b e ws arbitrary: ws' c rule: walkChildren.induct)
  case (1 nodes b e ws)
  then show ?case by simp
next
  case (2 nodes cid rest b e ws)
  note run = "2.prems"(1) [unfolded walkChildren.simps(2) Let_def reject_def]
  have ok: "cid < length nodes" "isAffineRegionOp (kn_op (nodes ! cid))" using run by (auto split: if_splits)
  show ?case
  proof (cases "kn_op (nodes ! cid) = KLoop")
    case True
    with run obtain u where l: "loop_eligible (nodes ! cid)" "length b < kPolyMaxDims"
      and u: "walkChildren nodes (kn_children (nodes ! cid)) (b @ [kn_begin (nodes ! cid)]) (e @ [kn_end (nodes ! cid)])
                  (ws\<lparr>ws_preorderVars := ws_preorderVars ws @ [kn_var (nodes ! cid)]\<rparr>) = Inr u"
      and k: "walkChildren nodes rest b e u = Inr ws'"
      by (auto simp: mlk_try_Inr_iff split: if_splits)
    show ?thesis
    proof (cases "c = cid")
      case c: True
      with "2.prems"(3,4) obtain j where j: "j \<in> set (kn_children (nodes ! cid))" "j \<in> S" by blast
      show ?thesis by (rule "2.IH"(1) [OF _ _ _ _ _ _ u j "2.prems"(4)]) (use ok l True in simp_all)
    next
      case False
      then have "c \<in> set rest" using "2.prems"(2) by simp
      show ?thesis by (rule "2.IH"(2) [OF _ _ _ _ _ _ u k \<open>c \<in> set rest\<close> "2.prems"(3,4)]) (use ok l True in simp_all)
    qed
  next
    case False
    with run ok obtain s rest' u where r: "rest = s # rest'" "kn_op (nodes ! cid) = KCompute" "s < length nodes"
      and st: "kn_op (nodes ! s) = KStore" "kn_bufferOut (nodes ! s) \<noteq> kInvalidId"
      and u: "recordStatement b e (nodes ! cid) (nodes ! s) ws = Inr u" and k: "walkChildren nodes rest' b e u = Inr ws'"
      by (auto simp: mlk_try_Inr_iff split: if_splits list.splits)
    have "c \<noteq> cid" "c \<noteq> s" using "2.prems"(3,4) False st(1) by auto
    then have "c \<in> set rest'" using "2.prems"(2) r(1) by simp
    then show ?thesis
      by (intro "2.IH"(3) [OF _ refl _ _ _ r(1) _ _ _ u k _ "2.prems"(3,4)]) (use ok r False st in simp_all)
  qed
qed

lemma root_bounds: "loop_eligible r \<Longrightarrow> bounds_ok [kn_begin r] [kn_end r]"
  by (auto simp: bounds_ok_def loop_eligible_def kPolyMaxDims_def)

lemma walk_root_ok:
  assumes "walk_root nodes i ws = Inr ws'" and "ws_ok ws"
  shows "ws_ok ws'"
proof -
  let ?r = "nodes ! i"
  from assms(1) have l: "loop_eligible ?r" and run: "walkChildren nodes (kn_children ?r) [kn_begin ?r] [kn_end ?r]
      (ws\<lparr>ws_preorderVars := ws_preorderVars ws @ [kn_var ?r]\<rparr>) = Inr ws'"
    by (auto simp: walk_root_def Let_def reject_def split: if_splits)
  show ?thesis by (rule walkChildren_ok [OF run _ root_bounds [OF l]]) (use assms(2) in \<open>simp add: ws_ok_def\<close>)
qed

lemma walk_root_no_ub: "arena_ok nodes \<Longrightarrow> i < length nodes \<Longrightarrow> walk_root nodes i ws \<noteq> Inl UndefinedBehaviour"
  using walkChildren_no_ub [of nodes "kn_children (nodes ! i)" "[kn_begin (nodes ! i)]" "[kn_end (nodes ! i)]"]
    arena_okD [of nodes i]
  by (auto simp: walk_root_def Let_def reject_def root_bounds)

section \<open>Full-rank statements\<close>

definition statement_ok :: "var_space \<Rightarrow> nat \<Rightarrow> statement \<Rightarrow> bool" where
  "statement_ok sp k s \<longleftrightarrow> st_id s = k \<and> st_origOrder s = k \<and> st_space s = sp \<and> st_depth s \<le> nDims sp
     \<and> wf_set (st_domain s) \<and> no_overflow (st_domain s) \<and> set_space (st_domain s) = sp
     \<and> length (disjuncts (st_domain s)) = 1 \<and> length (st_storeCoeffs s) = nDims sp
     \<and> length (poly_rows (disjuncts (st_domain s) ! 0)) \<le> 2 * nDims sp
     \<and> length (st_ownLower s) = st_depth s \<and> length (st_ownUpper s) = st_depth s
     \<and> (\<forall>d < st_depth s. 0 \<le> st_ownLower s ! d \<and> st_ownLower s ! d \<le> st_ownUpper s ! d + 1)
     \<and> (\<forall>a \<in> set (st_accesses s). \<exists>cs off. acc_flatIndex a = flatMap sp cs off)"

text \<open>The instances of a statement: its own bounds, and 0 at every deeper dimension.\<close>

definition in_domain :: "statement \<Rightarrow> nat \<Rightarrow> (nat \<Rightarrow> int) \<Rightarrow> bool" where
  "in_domain s depth x \<longleftrightarrow> (\<forall>d < depth. if d < st_depth s then st_ownLower s ! d \<le> x d \<and> x d \<le> st_ownUpper s ! d else x d = 0)"

lemma addRow_one: "length (poly_rows (addRow p r)) \<le> Suc (length (poly_rows p))"
  by (simp add: addRow_def Let_def)

lemma affineBox_single:
  assumes "affineBox sp lower upper = Inr s"
  shows "length (disjuncts s) = 1 \<and> length (poly_rows (disjuncts s ! 0)) \<le> 2 * nDims sp"
proof -
  have step: "length (poly_rows q) \<le> length (poly_rows p) + 2" if "affineBox_dim lower upper d p = Inr q" for d p q
  proof -
    from that obtain r1 r2 where "q = addRow (addRow p r1) r2"
      by (auto simp: affineBox_dim_def Let_def mlk_try_Inr_iff split: if_splits)
    then show ?thesis using addRow_one [of "addRow p r1" r2] addRow_one [of p r1] by simp
  qed
  have "fold_res (affineBox_dim lower upper) [0..<k] (new_poly sp) = Inr p \<Longrightarrow> length (poly_rows p) \<le> 2 * k" for k p
  proof (induction k arbitrary: p)
    case (Suc k)
    then obtain u where "fold_res (affineBox_dim lower upper) [0..<k] (new_poly sp) = Inr u" "affineBox_dim lower upper k u = Inr p"
      by (auto simp: fold_res_append mlk_try_Inr_iff)
    with Suc.IH [of u] step [of k u p] show ?case by simp
  qed (auto simp: new_poly_def)
  with assms show ?thesis by (auto simp: affineBox_def mlk_try_Inr_iff split: if_splits)
qed

lemma finalize_statement_ok:
  assumes "finalize_statement sp s = Inr s'" and "raw_ok k s" and "st_depth s \<le> nDims sp" and "nDims sp \<le> kPolyMaxDims"
  shows "statement_ok sp k s' \<and> (\<forall>x. set_sat (st_domain s') x \<longleftrightarrow> in_domain s' (nDims sp) x)"
proof -
  let ?lo = "bound_exprs sp (st_depth s) (st_ownLower s)" and ?hi = "bound_exprs sp (st_depth s) (st_ownUpper s)"
  from assms(1) obtain d where d: "affineBox sp ?lo ?hi = Inr d"
    and s': "s' = s\<lparr>st_space := sp, st_domain := d, st_storeCoeffs := pad_coeffs (nDims sp) (st_storeCoeffs s),
          st_accesses := map (pad_access sp) (st_accesses s)\<rparr>"
    by (auto simp: finalize_statement_def split: sum.splits)
  have n: "nDims sp \<le> 128" using assms(4) by (simp add: kPolyMaxDims_def)
  have w: "wf_expr (?lo ! i) \<and> wf_expr (?hi ! i)" if "i < nDims sp" for i
    using that by (simp add: bound_exprs_def)
  note box = affineBox_sat_iff [OF d n w]
  note single = affineBox_single [OF d]
  have "set_sat d x \<longleftrightarrow> in_domain s (nDims sp) x" for x :: "nat \<Rightarrow> int"
    using box(1) [of x] assms(2,3) by (auto simp: in_domain_def bound_exprs_def raw_ok_def split: if_splits)
  moreover have "\<exists>cs off. acc_flatIndex (pad_access sp a) = flatMap sp cs off" for a
    by (auto simp: pad_access_def Let_def)
  ultimately show ?thesis
    using assms(2,3) box(2-4) single by (auto simp: statement_ok_def s' raw_ok_def pad_coeffs_def in_domain_def)
qed

definition scop_ok :: "scop \<Rightarrow> bool" where
  "scop_ok sc \<longleftrightarrow> scop_space sc = \<lparr>nDims = scop_depth sc, nSyms = 0\<rparr> \<and> scop_depth sc \<le> kPolyMaxDims
     \<and> scop_statements sc \<noteq> [] \<and> length (scop_statements sc) \<le> kPolyMaxStatements
     \<and> (\<forall>k < length (scop_statements sc). statement_ok (scop_space sc) k (scop_statements sc ! k)
          \<and> (\<forall>x. set_sat (st_domain (scop_statements sc ! k)) x \<longleftrightarrow> in_domain (scop_statements sc ! k) (scop_depth sc) x))"

lemma max_depth_bounds:
  "s \<in> set ss \<Longrightarrow> st_depth s \<le> max_depth ss" "(\<And>s. s \<in> set ss \<Longrightarrow> st_depth s \<le> n) \<Longrightarrow> max_depth ss \<le> n"
proof -
  let ?f = "\<lambda>s d. if d < st_depth s then st_depth s else d"
  have mono: "d \<le> fold ?f ss d" for ss d 
  proof (induction ss arbitrary: d)
    case (Cons a ss)
    have "d \<le> ?f a d" by simp
    also have "\<dots> \<le> fold ?f ss (?f a d)" by (rule Cons.IH)
    finally show ?case by simp
  qed simp
  have "s \<in> set ss \<Longrightarrow> st_depth s \<le> fold ?f ss d" for d
  proof (induction ss arbitrary: d)
    case (Cons t ss)
    show ?case
    proof (cases "s = t")
      case True
      have "st_depth t \<le> ?f t d" by simp
      also have "?f t d \<le> fold ?f (t # ss) d" using mono [of "?f t d" ss] by (simp only: fold_simps)
      finally show ?thesis unfolding True .
    qed (use Cons in simp)
  qed simp
  then show "s \<in> set ss \<Longrightarrow> st_depth s \<le> max_depth ss" by (simp add: max_depth_def)
  have "(\<And>s. s \<in> set ss \<Longrightarrow> st_depth s \<le> n) \<Longrightarrow> d \<le> n \<Longrightarrow> fold ?f ss d \<le> n" for d
    by (induction ss arbitrary: d) auto
  then show "(\<And>s. s \<in> set ss \<Longrightarrow> st_depth s \<le> n) \<Longrightarrow> max_depth ss \<le> n" by (simp add: max_depth_def)
qed

lemma extractScop_ok:
  assumes "extractScop nodes = Inr sc"
  shows "scop_ok sc"
proof -
  from assms obtain ws ss where run: "fold_res (walk_root nodes) (root_nodes nodes) \<lparr>ws_statements = [], ws_preorderVars = []\<rparr> = Inr ws"
    and ne: "ws_statements ws \<noteq> []"
    and ss: "list_all2 (\<lambda>s s'. finalize_statement \<lparr>nDims = max_depth (ws_statements ws), nSyms = 0\<rparr> s = Inr s') (ws_statements ws) ss"
    and sc: "sc = \<lparr>scop_space = \<lparr>nDims = max_depth (ws_statements ws), nSyms = 0\<rparr>, scop_statements = ss,
        scop_dimVars = take (max_depth (ws_statements ws)) (ws_preorderVars ws), scop_depth = max_depth (ws_statements ws)\<rparr>"
    by (auto simp: extractScop_def Let_def reject_def mlk_try_Inr_iff map_res_Inr_iff split: if_splits)
  have ws: "ws_ok ws" by (rule fold_res_invariant [OF run, of ws_ok]) (simp add: ws_ok_def, rule walk_root_ok)
  then have raw: "raw_ok k (ws_statements ws ! k)" if "k < length (ws_statements ws)" for k
    using that by (simp add: ws_ok_def)
  have dep: "max_depth (ws_statements ws) \<le> kPolyMaxDims"
    using raw by (intro max_depth_bounds(2)) (auto simp: raw_ok_def in_set_conv_nth)
  have len: "length ss = length (ws_statements ws)" using ss by (simp add: list_all2_lengthD)
  have "statement_ok (scop_space sc) k (ss ! k) \<and> (\<forall>x. set_sat (st_domain (ss ! k)) x \<longleftrightarrow> in_domain (ss ! k) (scop_depth sc) x)"
    if "k < length ss" for k
    using finalize_statement_ok [OF list_all2_nthD2 [OF ss that] raw] that len dep max_depth_bounds(1) [OF nth_mem]
    by (simp add: sc)
  then show ?thesis using ws ne len dep by (auto simp: scop_ok_def sc ws_ok_def)
qed

lemma extractScop_no_ub:
  assumes "arena_ok nodes"
  shows "extractScop nodes \<noteq> Inl UndefinedBehaviour"
proof -
  have "fold_res (walk_root nodes) is ws \<noteq> Inl UndefinedBehaviour" if "\<forall>i \<in> set is. i < length nodes" for "is" ws
    using that walk_root_no_ub [OF assms] by (induction "is" arbitrary: ws) (auto simp: mlk_try_Inl_iff)
  then have "fold_res (walk_root nodes) (root_nodes nodes) ws \<noteq> Inl UndefinedBehaviour" for ws
    by (simp add: root_nodes_def Let_def)
  moreover have "map_res (finalize_statement sp) ss \<noteq> Inl UndefinedBehaviour" for sp ss
    by (induction ss) (auto simp: mlk_try_Inl_iff finalize_statement_def split: sum.splits)
  ultimately show ?thesis by (auto simp: extractScop_def Let_def reject_def mlk_try_Inl_iff)
qed

end
