(* ===== verification/Dependence_Laws.thy ===== *)
theory Dependence_Laws
  imports Dependence Scop_Laws
begin

text \<open>
  The relation of an access pair, read at the pair point of a source instance \<open>x\<close> and a sink
  instance \<open>y\<close>: both in their domains, the coded tie between the flat indices, and the order of
  the two instances.
\<close>

definition pair_point :: "nat \<Rightarrow> (nat \<Rightarrow> 'a) \<Rightarrow> (nat \<Rightarrow> 'a) \<Rightarrow> nat \<Rightarrow> 'a" where
  "pair_point depth x y v = (if v < depth then x v else y (v - depth))"

definition earlier :: "nat \<Rightarrow> (nat \<Rightarrow> int) \<Rightarrow> (nat \<Rightarrow> int) \<Rightarrow> bool" where
  "earlier depth x y \<longleftrightarrow> (\<exists>p < depth. (\<forall>d < p. x d = y d) \<and> x p < y p)"

primrec lex_from :: "nat \<Rightarrow> nat \<Rightarrow> (nat \<Rightarrow> int) \<Rightarrow> (nat \<Rightarrow> int) \<Rightarrow> bool" where
  "lex_from 0 d x y = False"
| "lex_from (Suc n) d x y = (if x d = y d then lex_from n (Suc d) x y else x d < y d)"

lemma lex_from_iff: "lex_from n d x y \<longleftrightarrow> (\<exists>p < n. (\<forall>i < p. x (d + i) = y (d + i)) \<and> x (d + p) < y (d + p))"
proof (induction n arbitrary: d)
  case (Suc n)
  show ?case
    by (simp add: Suc.IH Ex_less_Suc2 All_less_Suc2)
qed simp

lemma earlier_code [code]: "earlier depth x y \<longleftrightarrow> lex_from depth 0 x y"
  by (simp add: earlier_def lex_from_iff)

definition same_instance :: "nat \<Rightarrow> (nat \<Rightarrow> int) \<Rightarrow> (nat \<Rightarrow> int) \<Rightarrow> bool" where
  "same_instance depth x y \<longleftrightarrow> (\<forall>d < depth. x d = y d)"

lemma same_instance_code [code]: "same_instance depth x y \<longleftrightarrow> list_all (\<lambda>d. x d = y d) [0..<depth]"
  by (auto simp: same_instance_def list_all_iff)

text \<open>The element an access touches at an instance.\<close>

definition flat_expr :: "memory_access \<Rightarrow> affine_expr" where
  "flat_expr a = map_outputs (acc_flatIndex a) ! 0"

definition element_of :: "memory_access \<Rightarrow> (nat \<Rightarrow> int) \<Rightarrow> int" where
  "element_of a x = expr_val (flat_expr a) x"

text \<open>What the tie row says: the offsets enter with the wrong sign.\<close>

definition coded_tie :: "memory_access \<Rightarrow> memory_access \<Rightarrow> (nat \<Rightarrow> int) \<Rightarrow> (nat \<Rightarrow> int) \<Rightarrow> bool" where
  "coded_tie a b x y \<longleftrightarrow> element_of a x - element_of b y = 2 * (expr_constant (flat_expr a) - expr_constant (flat_expr b))"

section \<open>Rows\<close>

lemma lin_block:
  assumes "length cs = nd" and "base + nd \<le> n"
  shows "lin (map (\<lambda>i. if base \<le> i \<and> i < base + nd then coeff_of cs (i - base) else 0) [0..<n]) y = lin cs (\<lambda>i. y (base + i))"
proof -
  have "map (\<lambda>i. if base \<le> i \<and> i < base + nd then coeff_of cs (i - base) else 0) [0..<n]
      = replicate base 0 @ cs @ replicate (n - base - nd) 0"
    using assms by (intro nth_equalityI) (auto simp: nth_append coeff_of_def)
  then show ?thesis by (simp add: lin_append)
qed

lemma shift_row_sat:
  assumes "length (row_coeffs r) = nd" and "base + nd \<le> n"
  shows "row_sat (shift_row nd base n r) y \<longleftrightarrow> row_sat r (\<lambda>i. y (base + i))"
proof -
  have "row_coeffOf r i = coeff_of (row_coeffs r) i" for i by (simp add: row_coeffOf_def coeff_of_def)
  with lin_block [OF assms, of y] show ?thesis by (simp add: row_sat_def row_val_def shift_row_def cong: if_cong)
qed

lemma row_sat_cong:
  assumes "\<And>i. i < length (row_coeffs r) \<Longrightarrow> x i = y i"
  shows "row_sat r x \<longleftrightarrow> row_sat r y"
proof -
  have "lin (row_coeffs r) x = lin (row_coeffs r) y" by (rule lin_cong) (use assms in simp)
  then show ?thesis by (simp add: row_sat_def row_val_def)
qed

lemma poly_sat_cong:
  assumes "wf_poly p" and "\<And>i. i < totalVars (poly_space p) \<Longrightarrow> x i = y i"
  shows "poly_sat p x \<longleftrightarrow> poly_sat p y"
proof (cases "isEmptyFlag p")
  case False
  have "row_sat r x \<longleftrightarrow> row_sat r y" if "r \<in> set (poly_rows p)" for r
    by (rule row_sat_cong) (use wf_polyD [OF assms(1) False that] assms(2) in simp)
  then show ?thesis by (auto simp: poly_sat_def rows_sat_def)
qed (simp add: poly_sat_def)

lemma diff_row_sat:
  assumes "d < depth"
  shows "row_sat (diff_row depth d k eq) y \<longleftrightarrow> (if eq then of_int k + (y (depth + d) - y d) = 0 else 0 \<le> of_int k + (y (depth + d) - y d))"
proof -
  have "lin ((replicate (depth * 2) 0)[d := -1, depth + d := 1]) y = y (depth + d) - y d"
    using assms by (simp add: lin_list_update)
  then show ?thesis by (simp add: row_sat_def row_val_def diff_row_def)
qed

lemma fold_rows: "fold (\<lambda>z p. addRow p (f z)) zs p = addRowList (map f zs) p"
  by (simp add: addRowList_def fold_map comp_def)

lemma fold_rows_list: "fold (\<lambda>r p. addRow p r) rs p = addRowList rs p"
  by (simp add: addRowList_def)

section \<open>Order relations\<close>

lemma pair_space_vars [simp]: "totalVars (pair_space depth) = depth * 2" "nDims (pair_space depth) = depth * 2"
  by (simp_all add: pair_space_def totalVars_def)

text \<open>What every system built here keeps: well formed, in the pair space, few rows, no overflow.\<close>

definition small_poly :: "nat \<Rightarrow> nat \<Rightarrow> polyhedron \<Rightarrow> bool" where
  "small_poly depth n p \<longleftrightarrow> wf_poly p \<and> poly_space p = pair_space depth \<and> length (poly_rows p) \<le> n \<and> \<not> rowsOverflow p"

lemma small_new: "small_poly depth 0 (new_poly (pair_space depth))"
  by (simp add: small_poly_def new_poly_def wf_poly_def)

lemma small_addRowList:
  assumes "small_poly depth n p" and "n + length rs \<le> kPolyMaxRowsPerSystem"
    and "\<And>r. r \<in> set rs \<Longrightarrow> length (row_coeffs r) \<le> depth * 2"
  shows "small_poly depth (n + length rs) (addRowList rs p) \<and> (poly_sat (addRowList rs p) y \<longleftrightarrow> poly_sat p y \<and> rows_sat rs y)"
proof -
  have p: "wf_poly p" "poly_space p = pair_space depth" "length (poly_rows p) \<le> n" "\<not> rowsOverflow p"
    using assms(1) by (auto simp: small_poly_def)
  have "length (poly_rows p) + length rs \<le> kPolyMaxRowsPerSystem" using p(3) assms(2) by simp
  note w = addRowList_within [OF this, of y]
  have "wf_poly (addRowList rs p)" using p(1,2) assms(3) by (intro wf_addRowList) auto
  with w p show ?thesis by (simp add: small_poly_def)
qed

lemma eq_prefix:
  assumes "k \<le> depth" and "depth \<le> kPolyMaxDims"
  shows "small_poly depth k (addRowList (map (\<lambda>d. diff_row depth d 0 True) [0..<k]) (new_poly (pair_space depth)))
    \<and> (poly_sat (addRowList (map (\<lambda>d. diff_row depth d 0 True) [0..<k]) (new_poly (pair_space depth))) y
        \<longleftrightarrow> (\<forall>d < k. y d = y (depth + d)))"
proof -
  let ?rs = "map (\<lambda>d. diff_row depth d 0 True) [0..<k]"
  have "small_poly depth (0 + length ?rs) (addRowList ?rs (new_poly (pair_space depth)))
    \<and> (poly_sat (addRowList ?rs (new_poly (pair_space depth))) y \<longleftrightarrow> poly_sat (new_poly (pair_space depth)) y \<and> rows_sat ?rs y)"
    using assms by (intro small_addRowList small_new) (auto simp: kPolyMaxDims_def kPolyMaxRowsPerSystem_def diff_row_def)
  moreover have "rows_sat ?rs y \<longleftrightarrow> (\<forall>d < k. y d = y (depth + d))"
    using assms(1) diff_row_sat [of _ depth 0 True y] by (auto simp: rows_sat_def)
  ultimately show ?thesis by (simp add: poly_sat_def new_poly_def)
qed

lemma lex_pivot_spec:
  assumes "pivot < depth" and "depth \<le> kPolyMaxDims"
  shows "small_poly depth (Suc depth) (lex_pivot depth pivot)
    \<and> (poly_sat (lex_pivot depth pivot) y \<longleftrightarrow> (\<forall>d < pivot. y d = y (depth + d)) \<and> 0 \<le> y (depth + pivot) - y pivot - 1)"
proof -
  let ?e = "addRowList (map (\<lambda>d. diff_row depth d 0 True) [0..<pivot]) (new_poly (pair_space depth))"
  let ?r = "diff_row depth pivot (- 1) False"
  have e: "small_poly depth pivot ?e \<and> (poly_sat ?e y \<longleftrightarrow> (\<forall>d < pivot. y d = y (depth + d)))"
    using assms by (intro eq_prefix) auto
  have "small_poly depth (pivot + length [?r]) (addRowList [?r] ?e) \<and> (poly_sat (addRowList [?r] ?e) y \<longleftrightarrow> poly_sat ?e y \<and> rows_sat [?r] y)"
    using assms e by (intro small_addRowList) (auto simp: kPolyMaxDims_def kPolyMaxRowsPerSystem_def diff_row_def)
  then show ?thesis using e assms(1) diff_row_sat [OF assms(1), of "-1" False y]
    by (auto simp: lex_pivot_def fold_rows small_poly_def algebra_simps)
qed

lemma lexGreater_spec:
  assumes "depth \<le> kPolyMaxDims"
  shows "(\<forall>p \<in> set (disjuncts (lexGreater depth)). small_poly depth (Suc depth) p) \<and> set_space (lexGreater depth) = pair_space depth
    \<and> (set_sat (lexGreater depth) (pair_point depth x y) \<longleftrightarrow> earlier depth x y)"
proof -
  have "poly_sat (lex_pivot depth p) (pair_point depth x y) \<longleftrightarrow> (\<forall>d < p. x d = y d) \<and> x p < y p" if "p < depth" for p
    using that conjunct2 [OF lex_pivot_spec [OF that assms, of "pair_point depth x y"]] by (auto simp: pair_point_def)
  moreover have "small_poly depth (Suc depth) (lex_pivot depth p)" if "p < depth" for p
    using lex_pivot_spec [OF that assms, of "\<lambda>_. 0 :: int"] by blast
  ultimately show ?thesis by (auto simp: lexGreater_def earlier_def set_sat_def)
qed

lemma lexEqual_spec:
  assumes "depth \<le> kPolyMaxDims"
  shows "(\<forall>p \<in> set (disjuncts (lexEqual depth)). small_poly depth (Suc depth) p) \<and> set_space (lexEqual depth) = pair_space depth
    \<and> (set_sat (lexEqual depth) (pair_point depth x y) \<longleftrightarrow> same_instance depth x y)"
  using eq_prefix [OF order_refl assms, of "pair_point depth x y"]
  by (auto simp: lexEqual_def fold_rows same_instance_def pair_point_def small_poly_def)

section \<open>The system of a pair\<close>

lemma embedDomain_spec:
  assumes "embedDomain s base (depth * 2) sys = Inr sys'" and "statement_ok \<lparr>nDims = depth, nSyms = 0\<rparr> k s"
    and "small_poly depth n sys" and "n + 2 * depth \<le> kPolyMaxRowsPerSystem" and "base + depth \<le> depth * 2"
    and "\<And>d. d < depth \<Longrightarrow> y (base + d) = x d"
  shows "small_poly depth (n + 2 * depth) sys' \<and> (poly_sat sys' y \<longleftrightarrow> poly_sat sys y \<and> set_sat (st_domain s) x)"
proof -
  let ?f = "shift_row depth base (depth * 2)"
  have st: "wf_set (st_domain s)" "set_space (st_domain s) = \<lparr>nDims = depth, nSyms = 0\<rparr>" "length (disjuncts (st_domain s)) = 1"
    "length (poly_rows (disjuncts (st_domain s) ! 0)) \<le> 2 * depth" "st_space s = \<lparr>nDims = depth, nSyms = 0\<rparr>"
    using assms(2) by (auto simp: statement_ok_def)
  then obtain p where p: "disjuncts (st_domain s) = [p]" by (metis One_nat_def length_0_conv length_Suc_conv)
  then have pw: "wf_poly p" "totalVars (poly_space p) = depth" "length (poly_rows p) \<le> 2 * depth"
    using st by (auto simp: wf_set_def totalVars_def)
  from assms(1) p st(5) have ne: "\<not> isEmptyFlag p" and sys': "sys' = addRowList (map ?f (poly_rows p)) sys"
    by (auto simp: embedDomain_def fold_rows split: if_splits)
  have "row_sat (?f r) y \<longleftrightarrow> row_sat r x" if r: "r \<in> set (poly_rows p)" for r
  proof -
    have l: "length (row_coeffs r) = depth" using wf_polyD [OF pw(1) ne r] pw(2) by simp
    have "row_sat (?f r) y \<longleftrightarrow> row_sat r (\<lambda>i. y (base + i))" by (rule shift_row_sat [OF l assms(5)])
    also have "\<dots> \<longleftrightarrow> row_sat r x" by (rule row_sat_cong) (use l assms(6) in simp)
    finally show ?thesis .
  qed
  then have rows: "rows_sat (map ?f (poly_rows p)) y \<longleftrightarrow> set_sat (st_domain s) x"
    using ne by (simp add: rows_sat_def set_sat_def p poly_sat_def)
  have "small_poly depth (n + length (map ?f (poly_rows p))) sys' \<and> (poly_sat sys' y \<longleftrightarrow> poly_sat sys y \<and> rows_sat (map ?f (poly_rows p)) y)"
    unfolding sys' by (intro small_addRowList assms(3)) (use pw(3) assms(4) in \<open>auto simp: shift_row_def\<close>)
  with rows pw(3) show ?thesis by (auto simp: small_poly_def)
qed

text \<open>The flat index of an access of a full-rank statement.\<close>

lemma flat_expr_at:
  assumes "acc_flatIndex a = flatMap \<lparr>nDims = depth, nSyms = 0\<rparr> cs off"
  shows "length (expr_coeffs (flat_expr a)) = depth \<and> map (expr_coeffOf (flat_expr a)) [0..<depth] = expr_coeffs (flat_expr a)"
proof -
  have "length (expr_coeffs (flat_expr a)) = depth" by (simp add: flat_expr_def assms flatMap_def totalVars_def)
  moreover from this have "map (expr_coeffOf (flat_expr a)) [0..<depth] = expr_coeffs (flat_expr a)"
    by (intro nth_equalityI) (simp_all add: expr_coeffOf_def)
  ultimately show ?thesis by simp
qed

lemma addTieRow_spec:
  assumes "addTieRow a b depth sys = Inr sys'" and "small_poly depth n sys" and "n + 1 \<le> kPolyMaxRowsPerSystem"
    and "acc_flatIndex a = flatMap \<lparr>nDims = depth, nSyms = 0\<rparr> ca ka" and "acc_flatIndex b = flatMap \<lparr>nDims = depth, nSyms = 0\<rparr> cb kb"
  shows "small_poly depth (n + 1) sys' \<and> (poly_sat sys' (pair_point depth x y) \<longleftrightarrow> poly_sat sys (pair_point depth x y) \<and> coded_tie a b x y)"
proof -
  let ?fs = "flat_expr a" and ?fd = "flat_expr b" and ?y = "pair_point depth x y"
  note fs = flat_expr_at [OF assms(4)] and fd = flat_expr_at [OF assms(5)]
  from assms(1) obtain negs k where negs: "list_all2 (\<lambda>d v. \<exists>u. subLimited (expr_coeffOf ?fs d) (expr_coeffOf ?fd d) = Inr u
        \<and> plain64 (- expr_coeffOf ?fd d) = Inr v) [0..<depth] negs"
    and k: "subLimited (expr_constant ?fs) (expr_constant ?fd) = Inr k"
    and sys': "sys' = addRow sys \<lparr>row_coeffs = map (expr_coeffOf ?fs) [0..<depth] @ negs, row_constant = - k, row_isEquality = True\<rparr>"
    by (auto simp: addTieRow_def Let_def flat_expr_def mlk_try_Inr_iff map_res_Inr_iff plain64_Inr)
  have ln: "length negs = depth" using list_all2_lengthD [OF negs] by simp
  have nv: "negs ! d = - expr_coeffOf ?fd d" if "d < depth" for d
    using list_all2_nthD [OF negs, of d] that by (auto simp: plain64_Inr)
  have "negs = map uminus (expr_coeffs ?fd)"
    using ln fd nv by (intro nth_equalityI) (auto simp: expr_coeffOf_def)
  moreover have "k = expr_constant ?fs - expr_constant ?fd" using k by (simp add: sub_op.limited_Inr_iff)
  moreover have "lin (expr_coeffs ?fs @ map uminus (expr_coeffs ?fd)) ?y = lin (expr_coeffs ?fs) x - lin (expr_coeffs ?fd) y"
  proof -
    have "lin (expr_coeffs ?fs) ?y = lin (expr_coeffs ?fs) x" by (rule lin_cong) (use fs in \<open>simp add: pair_point_def\<close>)
    moreover have "lin (expr_coeffs ?fd) (\<lambda>i. ?y (depth + i)) = lin (expr_coeffs ?fd) y"
      by (rule lin_cong) (simp add: pair_point_def)
    ultimately show ?thesis using fs by (simp add: lin_append lin_map_uminus)
  qed
  ultimately have tie: "row_sat \<lparr>row_coeffs = map (expr_coeffOf ?fs) [0..<depth] @ negs, row_constant = - k, row_isEquality = True\<rparr> ?y
      \<longleftrightarrow> coded_tie a b x y"
    using fs by (auto simp: row_sat_def row_val_def coded_tie_def element_of_def expr_val_def)
  have "small_poly depth (n + length [\<lparr>row_coeffs = map (expr_coeffOf ?fs) [0..<depth] @ negs, row_constant = - k, row_isEquality = True\<rparr>])
      (addRowList [\<lparr>row_coeffs = map (expr_coeffOf ?fs) [0..<depth] @ negs, row_constant = - k, row_isEquality = True\<rparr>] sys)
    \<and> (poly_sat (addRowList [\<lparr>row_coeffs = map (expr_coeffOf ?fs) [0..<depth] @ negs, row_constant = - k, row_isEquality = True\<rparr>] sys) ?y
      \<longleftrightarrow> poly_sat sys ?y \<and> rows_sat [\<lparr>row_coeffs = map (expr_coeffOf ?fs) [0..<depth] @ negs, row_constant = - k, row_isEquality = True\<rparr>] ?y)"
    by (rule small_addRowList [OF assms(2)]) (use assms(3) ln in auto)
  then show ?thesis using tie by (simp add: sys')
qed

lemma pair_system_spec:
  assumes "pair_system depth src a dst b = Inr sys" and "depth \<le> kPolyMaxDims"
    and "statement_ok \<lparr>nDims = depth, nSyms = 0\<rparr> k src" and "statement_ok \<lparr>nDims = depth, nSyms = 0\<rparr> l dst"
    and "a \<in> set (st_accesses src)" and "b \<in> set (st_accesses dst)"
  shows "small_poly depth (4 * depth + 1) sys \<and> (poly_sat sys (pair_point depth x y) \<longleftrightarrow>
    set_sat (st_domain src) x \<and> set_sat (st_domain dst) y \<and> coded_tie a b x y)"
proof -
  let ?y = "pair_point depth x y"
  from assms(1) obtain u v where u: "embedDomain src 0 (depth * 2) (new_poly (pair_space depth)) = Inr u"
    and v: "embedDomain dst depth (depth * 2) u = Inr v" and t: "addTieRow a b depth v = Inr sys"
    by (auto simp: pair_system_def mlk_try_Inr_iff)
  have u': "small_poly depth (0 + 2 * depth) u \<and> (poly_sat u ?y \<longleftrightarrow> poly_sat (new_poly (pair_space depth)) ?y \<and> set_sat (st_domain src) x)"
    by (rule embedDomain_spec [OF u assms(3) small_new])
      (use assms(2) in \<open>auto simp: kPolyMaxDims_def kPolyMaxRowsPerSystem_def pair_point_def\<close>)
  have v': "small_poly depth (0 + 2 * depth + 2 * depth) v \<and> (poly_sat v ?y \<longleftrightarrow> poly_sat u ?y \<and> set_sat (st_domain dst) y)"
    by (rule embedDomain_spec [OF v assms(4) conjunct1 [OF u']])
      (use assms(2) in \<open>auto simp: kPolyMaxDims_def kPolyMaxRowsPerSystem_def pair_point_def\<close>)
  obtain ca ka cb kb where f: "acc_flatIndex a = flatMap \<lparr>nDims = depth, nSyms = 0\<rparr> ca ka"
    "acc_flatIndex b = flatMap \<lparr>nDims = depth, nSyms = 0\<rparr> cb kb"
    using assms(3-6) by (force simp: statement_ok_def)
  have n: "0 + 2 * depth + 2 * depth + 1 \<le> kPolyMaxRowsPerSystem"
    using assms(2) by (simp add: kPolyMaxDims_def kPolyMaxRowsPerSystem_def)
  have "small_poly depth (4 * depth + 1) sys \<and> (poly_sat sys ?y \<longleftrightarrow> poly_sat v ?y \<and> coded_tie a b x y)"
    using addTieRow_spec [OF t conjunct1 [OF v'] n f, of x y] by simp
  with u' v' show ?thesis by (auto simp: poly_sat_def new_poly_def)
qed

section \<open>The ordered relation\<close>

lemma intersect_small:
  assumes "intersect \<lparr>set_space = pair_space depth, disjuncts = [sys]\<rparr> s = Inr out" and "small_poly depth n sys"
    and "\<And>p. p \<in> set (disjuncts s) \<Longrightarrow> small_poly depth m p" and "set_space s = pair_space depth"
    and "n + m \<le> kPolyMaxRowsPerSystem"
  shows "wf_set out \<and> set_space out = pair_space depth \<and> no_overflow out \<and> (set_sat out y \<longleftrightarrow> poly_sat sys y \<and> set_sat s y)"
proof -
  let ?a = "\<lparr>set_space = pair_space depth, disjuncts = [sys]\<rparr>"
  have wa: "wf_set ?a" "wf_set s" using assms(2-4) by (auto simp: wf_set_def small_poly_def)
  have fit: "\<not> rowsOverflow (intersect_pair (pair_space depth) pa pb)" if "pa \<in> set [sys]" "pb \<in> set (disjuncts s)" for pa pb
  proof -
    have "length (poly_rows pa) + length (poly_rows pb) \<le> kPolyMaxRowsPerSystem"
      using assms(2) assms(3) [OF that(2)] that(1) assms(5) by (auto simp: small_poly_def)
    from intersect_pair_within [OF this] show ?thesis by blast
  qed
  have "set_sat out y \<Longrightarrow> set_sat ?a y \<and> set_sat s y"
    by (rule intersect_exact [OF assms(1)]) (use fit in auto)
  moreover have "set_sat ?a y \<Longrightarrow> set_sat s y \<Longrightarrow> set_sat out y" by (rule intersect_sound [OF assms(1)])
  moreover have "no_overflow out"
    using intersect_disjuncts [OF assms(1)] fit by (fastforce simp: no_overflow_def)
  moreover have "wf_set out" by (rule wf_intersect [OF assms(1) wa])
  ultimately show ?thesis using intersect_run(2) [OF assms(1)] by auto
qed

definition dep_order :: "nat \<Rightarrow> statement \<Rightarrow> statement \<Rightarrow> dep_kind \<Rightarrow> (nat \<Rightarrow> int) \<Rightarrow> (nat \<Rightarrow> int) \<Rightarrow> bool" where
  "dep_order depth src dst kind x y \<longleftrightarrow>
     (if st_id src = st_id dst then earlier depth x y
      else kind = Raw \<and> st_accum src \<noteq> AccumNone \<or> same_instance depth x y \<or> earlier depth x y)"

lemma ordered_relation_spec:
  assumes "ordered_relation depth src dst kind \<lparr>set_space = pair_space depth, disjuncts = [sys]\<rparr> = Inr rel"
    and "small_poly depth (4 * depth + 1) sys" and "depth \<le> kPolyMaxDims"
  shows "wf_set rel \<and> set_space rel = pair_space depth \<and> no_overflow rel
    \<and> (set_sat rel (pair_point depth x y) \<longleftrightarrow> poly_sat sys (pair_point depth x y) \<and> dep_order depth src dst kind x y)"
proof -
  let ?y = "pair_point depth x y"
  have n: "4 * depth + 1 + Suc depth \<le> kPolyMaxRowsPerSystem"
    using assms(3) by (simp add: kPolyMaxDims_def kPolyMaxRowsPerSystem_def)
  note gt = lexGreater_spec [OF assms(3), of x y] and eq = lexEqual_spec [OF assms(3), of x y]
  have g: "wf_set out \<and> set_space out = pair_space depth \<and> no_overflow out \<and> (set_sat out ?y \<longleftrightarrow> poly_sat sys ?y \<and> earlier depth x y)"
    if "intersect \<lparr>set_space = pair_space depth, disjuncts = [sys]\<rparr> (lexGreater depth) = Inr out" for out
    using intersect_small [OF that assms(2) _ _ n, of ?y] gt by simp
  have e: "wf_set out \<and> set_space out = pair_space depth \<and> no_overflow out \<and> (set_sat out ?y \<longleftrightarrow> poly_sat sys ?y \<and> same_instance depth x y)"
    if "intersect \<lparr>set_space = pair_space depth, disjuncts = [sys]\<rparr> (lexEqual depth) = Inr out" for out
    using intersect_small [OF that assms(2) _ _ n, of ?y] eq by simp
  consider (self) "st_id src = st_id dst" | (chain) "st_id src \<noteq> st_id dst" "kind = Raw \<and> st_accum src \<noteq> AccumNone"
    | (cross) "st_id src \<noteq> st_id dst" "\<not> (kind = Raw \<and> st_accum src \<noteq> AccumNone)" by blast
  then show ?thesis
  proof cases
    case self
    with assms(1) g [of rel] show ?thesis by (simp add: ordered_relation_def dep_order_def)
  next
    case chain
    with assms(1,2) show ?thesis by (auto simp: ordered_relation_def dep_order_def small_poly_def wf_set_def no_overflow_def)
  next
    case cross
    with assms(1) obtain e1 g1 where eg: "intersect \<lparr>set_space = pair_space depth, disjuncts = [sys]\<rparr> (lexEqual depth) = Inr e1"
      "intersect \<lparr>set_space = pair_space depth, disjuncts = [sys]\<rparr> (lexGreater depth) = Inr g1" and u: "unite e1 g1 = Inr rel"
      by (auto simp: ordered_relation_def mlk_try_Inr_iff)
    have "no_overflow rel" using e [OF eg(1)] g [OF eg(2)] by (auto simp: no_overflow_def unite_run(3) [OF u])
    with cross e [OF eg(1)] g [OF eg(2)] unite_sat [OF u, of ?y] wf_unite [OF u] unite_run(2) [OF u] show ?thesis
      by (auto simp: dep_order_def)
  qed
qed

section \<open>One pair of accesses\<close>

text \<open>The pairs of instances that the analysis relates, and a dependence that records them.\<close>

definition related :: "nat \<Rightarrow> statement \<Rightarrow> memory_access \<Rightarrow> statement \<Rightarrow> memory_access \<Rightarrow> dep_kind \<Rightarrow> (nat \<Rightarrow> int) \<Rightarrow> (nat \<Rightarrow> int) \<Rightarrow> bool" where
  "related depth src a dst b kind x y \<longleftrightarrow> set_sat (st_domain src) x \<and> set_sat (st_domain dst) y
     \<and> coded_tie a b x y \<and> dep_order depth src dst kind x y"

definition records_pair :: "nat \<Rightarrow> statement \<Rightarrow> nat \<Rightarrow> statement \<Rightarrow> nat \<Rightarrow> dependence \<Rightarrow> bool" where
  "records_pair depth src ai dst bi dep \<longleftrightarrow>
     dep_srcStmt dep = st_id src \<and> dep_dstStmt dep = st_id dst \<and> dep_srcAccess dep = ai \<and> dep_dstAccess dep = bi
     \<and> acc_bufferId (st_accesses src ! ai) = acc_bufferId (st_accesses dst ! bi)
     \<and> access_kind (st_accesses src ! ai) (st_accesses dst ! bi) = Some (dep_dkind dep)
     \<and> wf_set (dep_relation dep) \<and> set_space (dep_relation dep) = pair_space depth \<and> no_overflow (dep_relation dep)
     \<and> (\<forall>x y. set_sat (dep_relation dep) (pair_point depth x y)
          \<longleftrightarrow> related depth src (st_accesses src ! ai) dst (st_accesses dst ! bi) (dep_dkind dep) x y)"

lemma push_dependence_Inr:
  "push_dependence dep out = Inr out' \<longleftrightarrow> length out < kPolyMaxDependences \<and> out' = out @ [dep]"
  by (auto simp: push_dependence_def)

lemma dep_pair_spec:
  assumes run: "dep_pair depth src ai dst bi out = Inr out'" and "depth \<le> kPolyMaxDims"
    and "statement_ok \<lparr>nDims = depth, nSyms = 0\<rparr> k src" and "statement_ok \<lparr>nDims = depth, nSyms = 0\<rparr> l dst"
    and "ai < length (st_accesses src)" and "bi < length (st_accesses dst)"
  shows "out' = out \<and> \<not> (acc_bufferId (st_accesses src ! ai) = acc_bufferId (st_accesses dst ! bi)
        \<and> (\<exists>kind x y. access_kind (st_accesses src ! ai) (st_accesses dst ! bi) = Some kind
            \<and> related depth src (st_accesses src ! ai) dst (st_accesses dst ! bi) kind x y))
    \<or> (\<exists>dep. out' = out @ [dep] \<and> length out < kPolyMaxDependences \<and> records_pair depth src ai dst bi dep)"
proof -
  let ?a = "st_accesses src ! ai" and ?b = "st_accesses dst ! bi"
  show ?thesis
  proof (cases "acc_bufferId ?a = acc_bufferId ?b \<and> access_kind ?a ?b \<noteq> None")
    case False
    with run show ?thesis by (auto simp: dep_pair_def Let_def split: if_splits option.splits)
  next
    case True
    then obtain kind where buf: "acc_bufferId ?a = acc_bufferId ?b" and kind: "access_kind ?a ?b = Some kind" by auto
    with run obtain sys where sys: "pair_system depth src ?a dst ?b = Inr sys"
      and rest: "(if isEmptyFlag sys then Inr out
            else mlk_try (ordered_relation depth src dst kind \<lparr>set_space = pair_space depth, disjuncts = [sys]\<rparr>) (\<lambda>rel.
                 mlk_try (set_feasibility rel) (\<lambda>f.
                   if f = FEmpty then Inr out
                   else push_dependence \<lparr>dep_srcStmt = st_id src, dep_dstStmt = st_id dst, dep_srcAccess = ai,
                     dep_dstAccess = bi, dep_dkind = kind, dep_relation = rel\<rparr> out))) = Inr out'"
      by (auto simp: dep_pair_def Let_def mlk_try_Inr_iff)
    note ps = pair_system_spec [OF sys assms(2-4) nth_mem [OF assms(5)] nth_mem [OF assms(6)]]
    show ?thesis
    proof (cases "isEmptyFlag sys")
      case True
      then have "\<not> related depth src ?a dst ?b kind' x y" for kind' x y
        using ps [of x y] by (auto simp: related_def poly_sat_def)
      with True rest show ?thesis by simp
    next
      case False
      with rest obtain rel f where rel: "ordered_relation depth src dst kind \<lparr>set_space = pair_space depth, disjuncts = [sys]\<rparr> = Inr rel"
        and f: "set_feasibility rel = Inr f" and push: "(if f = FEmpty then Inr out
                   else push_dependence \<lparr>dep_srcStmt = st_id src, dep_dstStmt = st_id dst, dep_srcAccess = ai,
                     dep_dstAccess = bi, dep_dkind = kind, dep_relation = rel\<rparr> out) = Inr out'"
        by (auto simp: mlk_try_Inr_iff)
      note os = ordered_relation_spec [OF rel conjunct1 [OF ps] assms(2)]
      have sat: "set_sat rel (pair_point depth x y) \<longleftrightarrow> related depth src ?a dst ?b kind x y" for x y
        using ps [of x y] os [of x y] by (auto simp: related_def)
      show ?thesis
      proof (cases "f = FEmpty")
        case True
        then have "\<not> set_sat rel (pair_point depth x y :: nat \<Rightarrow> int)" for x y
          using set_feasibility_empty [of rel "pair_point depth x y"] f os by simp
        with sat kind push True show ?thesis by simp
      next
        case False
        with push os sat kind buf show ?thesis by (simp add: push_dependence_Inr records_pair_def)
      qed
    qed
  qed
qed

section \<open>All pairs\<close>

lemma access_pairs_mem:
  "(src, ai, dst, bi) \<in> set (access_pairs sc) \<longleftrightarrow> src \<in> set (scop_statements sc) \<and> dst \<in> set (scop_statements sc)
     \<and> \<not> st_id dst < st_id src \<and> ai < length (st_accesses src) \<and> bi < length (st_accesses dst)"
  unfolding access_pairs_def by (fastforce split: if_splits)

lemma scop_ok_statement:
  "scop_ok sc \<Longrightarrow> s \<in> set (scop_statements sc) \<Longrightarrow>
     statement_ok \<lparr>nDims = scop_depth sc, nSyms = 0\<rparr> (st_id s) s \<and> scop_statements sc ! st_id s = s
     \<and> st_id s < length (scop_statements sc) \<and> scop_depth sc \<le> kPolyMaxDims
     \<and> (\<forall>x. set_sat (st_domain s) x \<longleftrightarrow> in_domain s (scop_depth sc) x)"
  by (auto simp: scop_ok_def statement_ok_def in_set_conv_nth)

definition dep_run :: "nat \<Rightarrow> (statement \<times> nat \<times> statement \<times> nat) list \<Rightarrow> dependence list \<Rightarrow> bool" where
  "dep_run depth pairs deps \<longleftrightarrow> length deps \<le> kPolyMaxDependences
     \<and> (\<forall>dep \<in> set deps. \<exists>(src, ai, dst, bi) \<in> set pairs. records_pair depth src ai dst bi dep)
     \<and> (\<forall>(src, ai, dst, bi) \<in> set pairs. \<forall>kind x y. acc_bufferId (st_accesses src ! ai) = acc_bufferId (st_accesses dst ! bi) \<longrightarrow>
          access_kind (st_accesses src ! ai) (st_accesses dst ! bi) = Some kind \<longrightarrow>
          related depth src (st_accesses src ! ai) dst (st_accesses dst ! bi) kind x y \<longrightarrow>
          (\<exists>dep \<in> set deps. records_pair depth src ai dst bi dep))"

lemma dep_run_snoc:
  assumes "dep_run depth pairs deps" and "dep_pair depth src ai dst bi deps = Inr deps'" and "depth \<le> kPolyMaxDims"
    and "statement_ok \<lparr>nDims = depth, nSyms = 0\<rparr> k src" and "statement_ok \<lparr>nDims = depth, nSyms = 0\<rparr> l dst"
    and "ai < length (st_accesses src)" and "bi < length (st_accesses dst)"
  shows "dep_run depth (pairs @ [(src, ai, dst, bi)]) deps'"
  using dep_pair_spec [OF assms(2-7)]
proof (elim disjE exE conjE)
  assume "deps' = deps" and "\<not> (acc_bufferId (st_accesses src ! ai) = acc_bufferId (st_accesses dst ! bi)
        \<and> (\<exists>kind x y. access_kind (st_accesses src ! ai) (st_accesses dst ! bi) = Some kind
            \<and> related depth src (st_accesses src ! ai) dst (st_accesses dst ! bi) kind x y))"
  with assms(1) show ?thesis unfolding dep_run_def by fastforce
next
  fix dep assume "deps' = deps @ [dep]" "length deps < kPolyMaxDependences" "records_pair depth src ai dst bi dep"
  with assms(1) show ?thesis unfolding dep_run_def by fastforce
qed

lemma computeDependences_run:
  assumes "computeDependences sc = Inr deps" and "scop_ok sc"
  shows "dep_run (scop_depth sc) (access_pairs sc) deps"
proof -
  let ?f = "\<lambda>(src, ai, dst, bi). dep_pair (scop_depth sc) src ai dst bi"
  have "fold_res ?f pairs [] = Inr out \<Longrightarrow> set pairs \<subseteq> set (access_pairs sc) \<Longrightarrow> dep_run (scop_depth sc) pairs out" for pairs out
  proof (induction pairs arbitrary: out rule: rev_induct)
    case Nil
    then show ?case by (simp add: dep_run_def)
  next
    case (snoc p pairs)
    obtain src ai dst bi where p: "p = (src, ai, dst, bi)" by (cases p)
    with snoc.prems(1) obtain u where u: "fold_res ?f pairs [] = Inr u" and st: "dep_pair (scop_depth sc) src ai dst bi u = Inr out"
      by (auto simp: fold_res_snoc_Inr)
    have mem: "(src, ai, dst, bi) \<in> set (access_pairs sc)" using snoc.prems(2) p by simp
    then have m: "src \<in> set (scop_statements sc)" "dst \<in> set (scop_statements sc)"
      "ai < length (st_accesses src)" "bi < length (st_accesses dst)" by (auto simp: access_pairs_mem)
    have "dep_run (scop_depth sc) pairs u" by (rule snoc.IH [OF u]) (use snoc.prems(2) in simp)
    then show ?case unfolding p
      by (rule dep_run_snoc [OF _ st _ _ _ m(3,4)])
        (use scop_ok_statement [OF assms(2) m(1)] scop_ok_statement [OF assms(2) m(2)] in blast)+
  qed
  moreover have "fold_res ?f (access_pairs sc) [] = Inr deps"
    using assms(1) by (simp add: computeDependences_def split: if_splits)
  ultimately show ?thesis by blast
qed

end
