(* ===== verification/Dependence_Properties.thy ===== *)
theory Dependence_Properties
  imports Dependence_Laws
begin

text \<open>
  What the front half of the polyhedral pipeline promises: extraction yields well-formed static
  control parts and reads only inside the arena; the dependence relations hold every ordered pair
  of instances that touch the same element. The last section pins down where the code misses some.
\<close>

section \<open>Two kernels\<close>

text \<open>A producer and a consumer in one loop: \<open>T[i] = A[i]; B[i] = T[i + k]\<close>, for \<open>0 \<le> i < 8\<close>.\<close>

definition elem_at :: "int \<Rightarrow> int \<Rightarrow> kernel_operand" where
  "elem_at buf off = new_operand\<lparr>opnd_kind := OElemIdx, opnd_index := buf, opnd_idxCoeffs := [1], opnd_idxOffset := off\<rparr>"

definition copy_from :: "int \<Rightarrow> int \<Rightarrow> kernel_node" where
  "copy_from buf off = new_node\<lparr>kn_op := KCompute, kn_exprs := [\<lparr>kx_op = Op_Neg, kx_a = elem_at buf off, kx_b = new_operand\<rparr>]\<rparr>"

definition store_to :: "id32 \<Rightarrow> int \<Rightarrow> kernel_node" where
  "store_to buf off = new_node\<lparr>kn_op := KStore, kn_bufferOut := buf, kn_outIndexCoeffs := [1], kn_outIndexOffset := off\<rparr>"

definition loop_over :: "nat list \<Rightarrow> kernel_node" where
  "loop_over cs = new_node\<lparr>kn_op := KLoop, kn_var := 0, kn_begin := 0, kn_end := 8, kn_children := cs\<rparr>"

definition chain_arena :: "int \<Rightarrow> kernel_node list" where
  "chain_arena k = [copy_from 0 0, store_to 1 0, copy_from 1 k, store_to 2 0, loop_over [0, 1, 2, 3]]"

definition result_ok :: "'a result \<Rightarrow> ('a \<Rightarrow> bool) \<Rightarrow> bool" where
  "result_ok r P = (case r of Inl _ \<Rightarrow> False | Inr x \<Rightarrow> P x)"

lemma result_okD: "result_ok r P \<Longrightarrow> \<exists>x. r = Inr x \<and> P x"
  by (cases r) (auto simp: result_ok_def)

lemma chain_arena_scop: "\<exists>sc. extractScop (chain_arena k) = Inr sc \<and> length (scop_statements sc) = 2 \<and> scop_depth sc = 1"
  if "k = 0 \<or> k = -1"
proof -
  have "result_ok (extractScop (chain_arena 0)) (\<lambda>sc. length (scop_statements sc) = 2 \<and> scop_depth sc = 1)" by code_simp
  moreover have "result_ok (extractScop (chain_arena (-1))) (\<lambda>sc. length (scop_statements sc) = 2 \<and> scop_depth sc = 1)"
    by code_simp
  ultimately show ?thesis using that result_okD by fast
qed

section \<open>Extraction\<close>

text \<open>
  C11. A successful extraction yields a well-formed static control part: at most 8 statements over
  at most 8 dimensions, numbered in program order, each with one domain system that holds exactly
  the instances of its own loop bounds (and 0 in every deeper dimension), and with accesses and
  store coefficients at the full rank.
\<close>
theorem extractScop_wf:
  assumes "extractScop nodes = Inr sc"
  shows "scop_ok sc"
  using assms by (rule extractScop_ok)

lemma extractScop_wf_witness: "\<exists>sc. extractScop (chain_arena 0) = Inr sc \<and> scop_ok sc"
  using chain_arena_scop [of 0] extractScop_wf by blast

text \<open>
  When every child index is in range, extraction never reads outside the arena, whatever
  else the nodes hold: it succeeds or is rejected.
\<close>
theorem extractScop_memory_safe:
  assumes "\<forall>n \<in> set nodes. \<forall>c \<in> set (kn_children n). c < length nodes"
  shows "extractScop nodes \<noteq> Inl UndefinedBehaviour"
  by (rule extractScop_no_ub) (use assms in \<open>simp add: arena_ok_def\<close>)

lemma extractScop_memory_safe_witness: "extractScop (chain_arena 0) \<noteq> Inl UndefinedBehaviour"
  by (rule extractScop_memory_safe) code_simp

text \<open>
  Without it the walk is unsafe: the child after a Compute is looked up before its index is
  checked, so an arena whose Store index is past the end is read out of bounds, although the
  same index in any other position is rejected.
\<close>
theorem extractScop_unchecked_store:
  "extractScop [copy_from 0 0, loop_over [0, 9]] = Inl UndefinedBehaviour
   \<and> extractScop [copy_from 0 0, loop_over [9]] = reject"
  by code_simp

text \<open>
  Extraction ends on every arena, cyclic ones included, and never accepts a cycle: when a root's
  loop body holds a member of a set of loop nodes each of which holds a member of that set in its
  own body, extraction does not succeed. (The descent stops at the dimension budget.)
\<close>
theorem extractScop_rejects_cycles:
  assumes "r \<in> set (root_nodes nodes)" and "c \<in> set (kn_children (nodes ! r))" and "c \<in> S"
    and "\<forall>i \<in> S. kn_op (nodes ! i) = KLoop \<and> (\<exists>j \<in> set (kn_children (nodes ! i)). j \<in> S)"
  shows "extractScop nodes \<noteq> Inr sc"
proof
  assume "extractScop nodes = Inr sc"
  then obtain ws where "fold_res (walk_root nodes) (root_nodes nodes) \<lparr>ws_statements = [], ws_preorderVars = []\<rparr> = Inr ws"
    by (auto simp: extractScop_def mlk_try_Inr_iff split: if_splits)
  then have "\<exists>u v. walk_root nodes r u = Inr v" by (rule fold_res_visits) (rule assms(1))
  then show False using walkChildren_cycle [OF assms(4) _ assms(2,3)] by (auto simp: walk_root_def Let_def reject_def split: if_splits)
qed

lemma extractScop_rejects_cycles_witness:
  "\<forall>sc. extractScop [loop_over [1], loop_over [2], loop_over [1]] \<noteq> Inr sc"
  by (intro allI extractScop_rejects_cycles [where r = 0 and c = 1 and S = "{1, 2}"]) code_simp+

section \<open>Dependences\<close>

text \<open>
  C9. Between accesses of equal offset no dependence in statement order is missed: when statement
  \<open>src\<close> is \<open>dst\<close> or stands before it, both touch the same element of one buffer at ordered
  instances of their domains through accesses with the same constant offset, and one of the two
  writes, a successful analysis holds a dependence of that pair of accesses whose relation contains
  the pair of instances. (Pairs whose source stands after their sink are never visited,
  \<open>dependences_backward_missed\<close>; for different offsets see \<open>dependences_offset_sign\<close>.)
\<close>
theorem dependences_complete:
  assumes "extractScop nodes = Inr sc" and "computeDependences sc = Inr deps"
    and "src \<in> set (scop_statements sc)" and "dst \<in> set (scop_statements sc)" and "st_id src \<le> st_id dst"
    and "ai < length (st_accesses src)" and "bi < length (st_accesses dst)"
    and "acc_bufferId (st_accesses src ! ai) = acc_bufferId (st_accesses dst ! bi)"
    and "access_kind (st_accesses src ! ai) (st_accesses dst ! bi) = Some kind"
    and "in_domain src (scop_depth sc) x" and "in_domain dst (scop_depth sc) y"
    and "element_of (st_accesses src ! ai) x = element_of (st_accesses dst ! bi) y"
    and "expr_constant (flat_expr (st_accesses src ! ai)) = expr_constant (flat_expr (st_accesses dst ! bi))"
    and "dep_order (scop_depth sc) src dst kind x y"
  shows "\<exists>dep \<in> set deps. dep_srcStmt dep = st_id src \<and> dep_dstStmt dep = st_id dst \<and> dep_srcAccess dep = ai
    \<and> dep_dstAccess dep = bi \<and> dep_dkind dep = kind \<and> set_sat (dep_relation dep) (pair_point (scop_depth sc) x y)"
proof -
  have ok: "scop_ok sc" using assms(1) by (rule extractScop_ok)
  have "related (scop_depth sc) src (st_accesses src ! ai) dst (st_accesses dst ! bi) kind x y"
    using assms(10-14) scop_ok_statement [OF ok assms(3)] scop_ok_statement [OF ok assms(4)]
    by (simp add: related_def coded_tie_def)
  moreover have "(src, ai, dst, bi) \<in> set (access_pairs sc)" using assms(3-7) by (simp add: access_pairs_mem)
  ultimately obtain dep where "dep \<in> set deps" "records_pair (scop_depth sc) src ai dst bi dep"
    using computeDependences_run [OF assms(2) ok] assms(8,9) unfolding dep_run_def by blast
  then show ?thesis using assms(9) \<open>related _ _ _ _ _ _ _ _\<close> by (auto simp: records_pair_def)
qed

definition flow_at :: "scop \<Rightarrow> statement \<Rightarrow> nat \<Rightarrow> statement \<Rightarrow> nat \<Rightarrow> (nat \<Rightarrow> int) \<Rightarrow> (nat \<Rightarrow> int) \<Rightarrow> bool" where
  "flow_at sc src ai dst bi x y \<longleftrightarrow> src \<in> set (scop_statements sc) \<and> dst \<in> set (scop_statements sc) \<and> st_id src \<le> st_id dst
     \<and> ai < length (st_accesses src) \<and> bi < length (st_accesses dst)
     \<and> acc_bufferId (st_accesses src ! ai) = acc_bufferId (st_accesses dst ! bi)
     \<and> access_kind (st_accesses src ! ai) (st_accesses dst ! bi) = Some Raw
     \<and> in_domain src (scop_depth sc) x \<and> in_domain dst (scop_depth sc) y
     \<and> element_of (st_accesses src ! ai) x = element_of (st_accesses dst ! bi) y
     \<and> dep_order (scop_depth sc) src dst Raw x y"

lemma dependences_complete_witness:
  "\<exists>sc deps. extractScop (chain_arena 0) = Inr sc \<and> computeDependences sc = Inr deps
    \<and> (\<exists>dep \<in> set deps. dep_dkind dep = Raw \<and> set_sat (dep_relation dep) (pair_point (scop_depth sc) (\<lambda>_. 3 :: int) (\<lambda>_. 3)))"
proof -
  have "result_ok (extractScop (chain_arena 0)) (\<lambda>sc. result_ok (computeDependences sc) (\<lambda>deps.
      flow_at sc (scop_statements sc ! 0) 1 (scop_statements sc ! 1) 0 (\<lambda>_. 3) (\<lambda>_. 3)
      \<and> expr_constant (flat_expr (st_accesses (scop_statements sc ! 0) ! 1)) = expr_constant (flat_expr (st_accesses (scop_statements sc ! 1) ! 0))))"
    by code_simp
  then obtain sc deps where run: "extractScop (chain_arena 0) = Inr sc" "computeDependences sc = Inr deps"
    and f: "flow_at sc (scop_statements sc ! 0) 1 (scop_statements sc ! 1) 0 (\<lambda>_. 3) (\<lambda>_. 3)"
    and k: "expr_constant (flat_expr (st_accesses (scop_statements sc ! 0) ! 1)) = expr_constant (flat_expr (st_accesses (scop_statements sc ! 1) ! 0))"
    by (blast dest: result_okD)
  have "\<exists>dep \<in> set deps. dep_srcStmt dep = st_id (scop_statements sc ! 0) \<and> dep_dstStmt dep = st_id (scop_statements sc ! 1)
    \<and> dep_srcAccess dep = 1 \<and> dep_dstAccess dep = 0 \<and> dep_dkind dep = Raw
    \<and> set_sat (dep_relation dep) (pair_point (scop_depth sc) (\<lambda>_. 3 :: int) (\<lambda>_. 3))"
    by (rule dependences_complete [OF run]) (use f k in \<open>simp_all add: flow_at_def\<close>)
  with run show ?thesis by blast
qed

text \<open>The accesses that a recorded dependence joins, and the pairs of instances in its relation.\<close>

lemma recorded_dependence:
  assumes "extractScop nodes = Inr sc" and "computeDependences sc = Inr deps" and "dep \<in> set deps"
  shows "length deps \<le> kPolyMaxDependences
    \<and> (\<exists>src \<in> set (scop_statements sc). \<exists>dst \<in> set (scop_statements sc).
        \<exists>a \<in> set (st_accesses src). \<exists>b \<in> set (st_accesses dst).
          src = scop_statements sc ! dep_srcStmt dep \<and> dst = scop_statements sc ! dep_dstStmt dep
          \<and> st_id src = dep_srcStmt dep \<and> st_id dst = dep_dstStmt dep \<and> st_id src \<le> st_id dst
          \<and> a = st_accesses src ! dep_srcAccess dep \<and> b = st_accesses dst ! dep_dstAccess dep
          \<and> acc_bufferId a = acc_bufferId b \<and> access_kind a b = Some (dep_dkind dep)
          \<and> (\<forall>x y. set_sat (dep_relation dep) (pair_point (scop_depth sc) x y) \<longleftrightarrow>
               in_domain src (scop_depth sc) x \<and> in_domain dst (scop_depth sc) y \<and> coded_tie a b x y
               \<and> dep_order (scop_depth sc) src dst (dep_dkind dep) x y))"
proof -
  have ok: "scop_ok sc" using assms(1) by (rule extractScop_ok)
  note run = computeDependences_run [OF assms(2) ok]
  then obtain src ai dst bi where m: "(src, ai, dst, bi) \<in> set (access_pairs sc)"
    and r: "records_pair (scop_depth sc) src ai dst bi dep" using assms(3) unfolding dep_run_def by blast
  have st: "src \<in> set (scop_statements sc)" "dst \<in> set (scop_statements sc)" "st_id src \<le> st_id dst"
    "st_accesses src ! ai \<in> set (st_accesses src)" "st_accesses dst ! bi \<in> set (st_accesses dst)"
    using m by (auto simp: access_pairs_mem)
  have at: "s = scop_statements sc ! st_id s" if "s \<in> set (scop_statements sc)" for s
  proof -
    from that obtain k where "k < length (scop_statements sc)" "s = scop_statements sc ! k" by (auto simp: in_set_conv_nth)
    then show ?thesis using ok by (auto simp: scop_ok_def statement_ok_def)
  qed
  have "set_sat (dep_relation dep) (pair_point (scop_depth sc) x y) \<longleftrightarrow>
      in_domain src (scop_depth sc) x \<and> in_domain dst (scop_depth sc) y \<and> coded_tie (st_accesses src ! ai) (st_accesses dst ! bi) x y
      \<and> dep_order (scop_depth sc) src dst (dep_dkind dep) x y" for x y
    using r scop_ok_statement [OF ok st(1)] scop_ok_statement [OF ok st(2)] by (simp add: records_pair_def related_def)
  with r st at [OF st(1)] at [OF st(2)] run show ?thesis
    by (intro conjI bexI [of _ src] bexI [of _ dst] bexI [of _ "st_accesses src ! ai"] bexI [of _ "st_accesses dst ! bi"])
       (simp_all add: records_pair_def dep_run_def)
qed



text \<open>
  C12. For accesses of different offsets every recorded pair is wrong: whenever the constant offsets of the
  two accesses of a recorded dependence differ, no pair of instances in its relation touches the
  same element; the two flat indices differ by twice the difference of the offsets. So of the pairs
  that do touch a common element none is recorded. (The tie row, meant to say
  \<open>flat_src(i) - flat_dst(j) = 0\<close>, subtracts the offset difference where it should add it.)
\<close>
theorem dependences_offset_sign:
  assumes "extractScop nodes = Inr sc" and "computeDependences sc = Inr deps" and "dep \<in> set deps"
    and "a = st_accesses (scop_statements sc ! dep_srcStmt dep) ! dep_srcAccess dep"
    and "b = st_accesses (scop_statements sc ! dep_dstStmt dep) ! dep_dstAccess dep"
    and "expr_constant (flat_expr a) \<noteq> expr_constant (flat_expr b)"
    and "set_sat (dep_relation dep) (pair_point (scop_depth sc) x y)"
  shows "element_of a x \<noteq> element_of b y
    \<and> element_of a x - element_of b y = 2 * (expr_constant (flat_expr a) - expr_constant (flat_expr b))"
proof -
  from recorded_dependence [OF assms(1-3)] have "coded_tie a b x y" using assms(4,5,7) by blast
  with assms(6) show ?thesis by (simp add: coded_tie_def)
qed

text \<open>\<open>T[i] = A[i]; B[i] = T[i + 1]\<close>: the store to \<open>T[3]\<close> is recorded as the source of the read of \<open>T[5]\<close>.\<close>

lemma dependences_offset_sign_witness:
  "\<exists>sc deps dep a b. extractScop (chain_arena 1) = Inr sc \<and> computeDependences sc = Inr deps \<and> dep \<in> set deps
     \<and> a = st_accesses (scop_statements sc ! dep_srcStmt dep) ! dep_srcAccess dep
     \<and> b = st_accesses (scop_statements sc ! dep_dstStmt dep) ! dep_dstAccess dep
     \<and> set_sat (dep_relation dep) (pair_point (scop_depth sc) (\<lambda>_. 3 :: int) (\<lambda>_. 4)) \<and> element_of a (\<lambda>_. 3) \<noteq> element_of b (\<lambda>_. 4)"
proof -
  have "result_ok (extractScop (chain_arena 1)) (\<lambda>sc. result_ok (computeDependences sc) (\<lambda>deps. deps \<noteq> [] \<and> (let dep = hd deps;
      a = st_accesses (scop_statements sc ! dep_srcStmt dep) ! dep_srcAccess dep;
      b = st_accesses (scop_statements sc ! dep_dstStmt dep) ! dep_dstAccess dep in
      expr_constant (flat_expr a) \<noteq> expr_constant (flat_expr b)
      \<and> set_sat (dep_relation dep) (pair_point (scop_depth sc) (\<lambda>_. 3 :: int) (\<lambda>_. 4)))))" by code_simp
  then obtain sc deps where run: "extractScop (chain_arena 1) = Inr sc" "computeDependences sc = Inr deps" and ne: "deps \<noteq> []"
    and k: "expr_constant (flat_expr (st_accesses (scop_statements sc ! dep_srcStmt (hd deps)) ! dep_srcAccess (hd deps)))
        \<noteq> expr_constant (flat_expr (st_accesses (scop_statements sc ! dep_dstStmt (hd deps)) ! dep_dstAccess (hd deps)))"
    and s: "set_sat (dep_relation (hd deps)) (pair_point (scop_depth sc) (\<lambda>_. 3 :: int) (\<lambda>_. 4))"
    unfolding Let_def by (blast dest: result_okD)
  from dependences_offset_sign [OF run hd_in_set [OF ne] refl refl k s] run ne s show ?thesis by (metis hd_in_set)
qed

text \<open>
  A dependence that is missed: in \<open>T[i] = A[i]; B[i] = T[i - 1]\<close> the iteration 4 of the second
  statement reads what iteration 3 of the first wrote, yet the analysis succeeds and reports that
  the kernel has no dependences at all.
\<close>

lemma dependences_missed:
  "result_ok (extractScop (chain_arena (-1))) (\<lambda>sc. computeDependences sc = Inr []
     \<and> flow_at sc (scop_statements sc ! 0) 1 (scop_statements sc ! 1) 0 (\<lambda>_. 3) (\<lambda>_. 4))"
  by code_simp

text \<open>
  The body \<open>T[i] = X[0]; X[0] = A[i]\<close>: iteration 4 of the first statement reads what iteration 3 of
  the second wrote. Only pairs in statement order are visited, so no dependence from the second
  statement to the first is recorded.
\<close>

definition scalar_cell :: kernel_operand where
  "scalar_cell = new_operand\<lparr>opnd_kind := OElemIdx, opnd_index := 1, opnd_idxCoeffs := [0]\<rparr>"

definition recurrence_arena :: "kernel_node list" where
  "recurrence_arena = [new_node\<lparr>kn_op := KCompute, kn_exprs := [\<lparr>kx_op = Op_Neg, kx_a = scalar_cell, kx_b = new_operand\<rparr>]\<rparr>,
     store_to 2 0, copy_from 0 0, new_node\<lparr>kn_op := KStore, kn_bufferOut := 1, kn_outIndexCoeffs := [0]\<rparr>, loop_over [0, 1, 2, 3]]"

lemma dependences_backward_missed:
  "result_ok (extractScop recurrence_arena) (\<lambda>sc.
     let w = scop_statements sc ! 1; r = scop_statements sc ! 0; a = st_accesses w ! 1; b = st_accesses r ! 0 in
     result_ok (computeDependences sc) (\<lambda>deps. list_all (\<lambda>dep. dep_srcStmt dep = 0 \<or> dep_dstStmt dep = 1) deps)
     \<and> acc_bufferId a = acc_bufferId b \<and> access_kind a b = Some Raw
     \<and> in_domain w (scop_depth sc) (\<lambda>_. 3) \<and> in_domain r (scop_depth sc) (\<lambda>_. 4)
     \<and> element_of a (\<lambda>_. 3) = element_of b (\<lambda>_. 4) \<and> earlier (scop_depth sc) (\<lambda>_. 3) (\<lambda>_. 4))"
  by code_simp

end
