(* ===== verification/Schedule.thy ===== *)
theory Schedule
  imports Dependence Lex_Opt Lp
begin

text \<open>
  Affine schedules: the helpers shared by the scheduler and the tiler
  (\<open>polyhedral/src/schedule_common.h\<close>), the schedule data of \<open>pluto.h\<close>, and the two whole-schedule
  checks of \<open>pluto.cpp\<close>, \<open>scheduleCodegenShape\<close> and \<open>verifyScheduleLegality\<close>. A schedule row is the
  list, per statement, of [constant, coefficient of dimension 0, ...].
\<close>

type_synonym schedule_row = "int list list"

record poly_schedule =
  ps_depth :: nat
  ps_nStmts :: nat
  ps_rows :: "schedule_row list"
  ps_pivotDim :: "nat list"
  ps_parallel :: "bool list"
  ps_vectorizable :: "bool list"

section \<open>Distances\<close>

definition distanceForm :: "schedule_row \<Rightarrow> dependence \<Rightarrow> nat \<Rightarrow> (int list \<times> int) result" where
  "distanceForm row dep depth =
     mlk_try (vec_at row (dep_srcStmt dep)) (\<lambda>src.
     mlk_try (vec_at row (dep_dstStmt dep)) (\<lambda>dst.
     mlk_try (map_res (\<lambda>d. mlk_try (vec_at src (d + 1)) (subLimited 0)) [0..<depth]) (\<lambda>ss.
     mlk_try (map_res (\<lambda>d. mlk_try (vec_at dst (d + 1)) (addLimited 0)) [0..<depth]) (\<lambda>ts.
     mlk_try (vec_at dst 0) (\<lambda>d0. mlk_try (vec_at src 0) (\<lambda>s0.
     mlk_try (subLimited d0 s0) (\<lambda>k. Inr (ss @ ts, k))))))))"

text \<open>The exact minimum of a linear form over a system, by one LP.\<close>

definition min_lp :: "polyhedron \<Rightarrow> int list \<Rightarrow> (constraint_row \<times> int) list \<Rightarrow> linear_program" where
  "min_lp p form rows =
     (let n = totalVars (poly_space p);
          coeffs = (\<lambda>(r, c). map (\<lambda>j. fromInt (row_coeffOf r j)) [0..<n]);
          eqs = filter (row_isEquality \<circ> fst) rows; ges = filter (Not \<circ> row_isEquality \<circ> fst) rows in
      \<lparr>lp_nVars = n, lp_eqRows = map coeffs eqs, lp_eqRhs = map (fromInt \<circ> snd) eqs,
       lp_geRows = map coeffs ges, lp_geRhs = map (fromInt \<circ> snd) ges,
       lp_objective = map (\<lambda>j. if j < length form then fromInt (form ! j) else rat_zero) [0..<n]\<rparr>)"

definition minOverPoly :: "polyhedron \<Rightarrow> int list \<Rightarrow> int \<Rightarrow> rational result" where
  "minOverPoly p form k =
     (if totalVars (poly_space p) = 0 then Inl (Err InvalidArgument)
      else mlk_try (map_res (\<lambda>r. mlk_try (plain64 (- row_constant r)) (\<lambda>c. Inr (r, c))) (poly_rows p)) (\<lambda>rows.
        mlk_try (solveLp (min_lp p form rows)) (\<lambda>sol.
          if sol_status sol = LpUnbounded then Inl (Err InvalidArgument)
          else if sol_status sol \<noteq> LpOptimal then Inl (Err Internal)
          else ratAdd (sol_objective sol) (fromInt k))))"

text \<open>A failing feasibility test counts as infeasible; only an overflowed system counts as feasible untested.\<close>

definition polyFeasible :: "polyhedron \<Rightarrow> bool result" where
  "polyFeasible p =
     (if isEmptyFlag p then Inr False
      else if rowsOverflow p then Inr True
      else mlk_try (attempt (systemFeasibility p)) (\<lambda>f. Inr (f \<noteq> None \<and> f \<noteq> Some FEmpty)))"

text \<open>The least minimum over the feasible disjuncts of a slice, and the slice cut to distance 0.\<close>

fun slice_min :: "int list \<Rightarrow> int \<Rightarrow> polyhedron list \<Rightarrow> rational option \<Rightarrow> rational option result" where
  "slice_min dc dk [] best = Inr best"
| "slice_min dc dk (p # ps) best =
     mlk_try (polyFeasible p) (\<lambda>f.
       if \<not> f then slice_min dc dk ps best
       else mlk_try (minOverPoly p dc dk) (\<lambda>mn.
         slice_min dc dk ps (case best of None \<Rightarrow> Some mn | Some b \<Rightarrow> Some (if ratLess mn b then mn else b))))"

definition cut_disjunct :: "int list \<Rightarrow> int \<Rightarrow> polyhedron \<Rightarrow> polyhedron result" where
  "cut_disjunct dc dk p = mlk_try (plain64 (- dk)) (\<lambda>k.
     Inr (addRow p \<lparr>row_coeffs = dc, row_constant = k, row_isEquality = True\<rparr>))"

fun refine_slice :: "(polyhedron \<Rightarrow> bool result) \<Rightarrow> int list \<Rightarrow> int \<Rightarrow> polyhedron list \<Rightarrow> polyhedron list result" where
  "refine_slice keep dc dk [] = Inr []"
| "refine_slice keep dc dk (p # ps) =
     mlk_try (polyFeasible p) (\<lambda>f.
       if \<not> f then refine_slice keep dc dk ps
       else mlk_try (cut_disjunct dc dk p) (\<lambda>u.
         mlk_try (keep u) (\<lambda>kept.
         mlk_try (refine_slice keep dc dk ps) (\<lambda>us. Inr (if kept then u # us else us)))))"

text \<open>
  The state of a dependence while rows are chosen: its slice and whether it is resolved. Both the
  scheduler and the tiler cut it the same way.
\<close>

type_synonym dep_state = "presburger \<times> bool"

definition cut_state :: "int list \<Rightarrow> int \<Rightarrow> presburger \<Rightarrow> dep_state result" where
  "cut_state dc dk sl =
     mlk_try (refine_slice polyFeasible dc dk (disjuncts sl)) (\<lambda>us.
       Inr (if us = [] then (sl, True) else (\<lparr>set_space = set_space sl, disjuncts = us\<rparr>, False)))"

section \<open>Pinned dimensions\<close>

definition dimPinnedAt :: "statement \<Rightarrow> nat \<Rightarrow> int option" where
  "dimPinnedAt s d =
     (if d < length (st_ownLower s) \<and> d < length (st_ownUpper s) then
        (if st_ownLower s ! d = st_ownUpper s ! d then Some (st_ownLower s ! d) else None)
      else if d \<ge> st_depth s then Some 0
      else None)"

definition dimVaries :: "statement \<Rightarrow> nat \<Rightarrow> bool" where
  "dimVaries s d \<longleftrightarrow> dimPinnedAt s d = None"

fun fold_pins :: "statement \<Rightarrow> nat \<Rightarrow> int list \<Rightarrow> int \<Rightarrow> int option result" where
  "fold_pins s d [] acc = Inr (Some acc)"
| "fold_pins s d (c # cs) acc =
     (if c = 0 then fold_pins s (Suc d) cs acc
      else case dimPinnedAt s d of
        None \<Rightarrow> Inr None
      | Some pin \<Rightarrow> mlk_try (plain64 (c * pin)) (\<lambda>t. mlk_try (plain64 (acc + t)) (fold_pins s (Suc d) cs)))"

definition rowEffectiveConst :: "statement \<Rightarrow> schedule_row \<Rightarrow> int option result" where
  "rowEffectiveConst s row =
     mlk_try (vec_at row (st_id s)) (\<lambda>cs. mlk_try (vec_at cs 0) (\<lambda>c0. fold_pins s 0 (tl cs) c0))"

definition pivotCoordDistForm :: "scop \<Rightarrow> dependence \<Rightarrow> nat \<Rightarrow> (int list \<times> int) result" where
  "pivotCoordDistForm sc dep pv =
     (if pv \<ge> scop_depth sc then Inl (Err InvalidArgument)
      else mlk_try (vec_at (scop_statements sc) (dep_srcStmt dep)) (\<lambda>src.
        mlk_try (vec_at (scop_statements sc) (dep_dstStmt dep)) (\<lambda>dst.
        let srcPin = (case dimPinnedAt src pv of None \<Rightarrow> 0 | Some v \<Rightarrow> v);
            dstPin = (case dimPinnedAt dst pv of None \<Rightarrow> 0 | Some v \<Rightarrow> v) in
        if \<not> dimVaries src pv \<and> dimPinnedAt src pv = None then Inl (Err Internal)
        else if \<not> dimVaries dst pv \<and> dimPinnedAt dst pv = None then Inl (Err Internal)
        else mlk_try (subLimited dstPin srcPin) (\<lambda>k.
          Inr ((replicate (scop_depth sc * 2) 0)[scop_depth sc + pv := if dimVaries dst pv then 1 else 0,
            pv := if dimVaries src pv then -1 else 0], k)))))"

section \<open>Integer feasibility of a negative form\<close>

text \<open>The disjuncts that may hold a point with form at most -1; \<open>None\<close> when a budget tripped.\<close>

fun le_filter :: "int list \<Rightarrow> int \<Rightarrow> polyhedron list \<Rightarrow> polyhedron list option result" where
  "le_filter form k [] = Inr (Some [])"
| "le_filter form k (p # ps) =
     (if isEmptyFlag p then le_filter form k ps
      else if rowsOverflow p then Inr None
      else mlk_try (map_res (\<lambda>c. plain64 (- c)) form) (\<lambda>neg.
        mlk_try (subLimited 0 k) (\<lambda>a. mlk_try (subLimited a 1) (\<lambda>b.
        let u = addRow p \<lparr>row_coeffs = neg, row_constant = b, row_isEquality = False\<rparr> in
        mlk_try (attempt (systemFeasibility u)) (\<lambda>f.
          case f of
            None \<Rightarrow> Inr None
          | Some FEmpty \<Rightarrow> le_filter form k ps
          | Some FUnknown \<Rightarrow> Inr None
          | Some FNonEmpty \<Rightarrow> mlk_try (le_filter form k ps) (\<lambda>r. Inr (map_option ((#) u) r)))))))"

definition integerLeFormFeasible :: "presburger \<Rightarrow> int list \<Rightarrow> int \<Rightarrow> feasibility result" where
  "integerLeFormFeasible s form k =
     mlk_try (le_filter form k (disjuncts s)) (\<lambda>r.
       case r of
         None \<Rightarrow> Inr FUnknown
       | Some [] \<Rightarrow> Inr FEmpty
       | Some (u # us) \<Rightarrow>
           mlk_try (attempt (lexMin \<lparr>set_space = set_space s, disjuncts = u # us\<rparr>)) (\<lambda>lm.
             Inr (case lm of None \<Rightarrow> FUnknown | Some (Some _) \<Rightarrow> FNonEmpty | Some None \<Rightarrow> FEmpty)))"

section \<open>Whole-schedule checks\<close>

fun shape_rows :: "statement \<Rightarrow> schedule_row list \<Rightarrow> nat list \<Rightarrow> nat \<Rightarrow> bool result" where
  "shape_rows s [] pivots r = Inr True"
| "shape_rows s (row # rows) pivots r =
     mlk_try (rowEffectiveConst s row) (\<lambda>folded.
       if folded = None then shape_rows s rows pivots (Suc r)
       else mlk_try (vec_at pivots r) (\<lambda>p.
         if dimPinnedAt s p = None then Inr False else shape_rows s rows pivots (Suc r)))"

fun shape_statements :: "statement list \<Rightarrow> poly_schedule \<Rightarrow> bool result" where
  "shape_statements [] sched = Inr True"
| "shape_statements (s # ss) sched =
     mlk_try (shape_rows s (ps_rows sched) (ps_pivotDim sched) 0) (\<lambda>ok.
       if \<not> ok then Inr False else shape_statements ss sched)"

definition scheduleCodegenShape :: "scop \<Rightarrow> poly_schedule \<Rightarrow> bool result" where
  "scheduleCodegenShape sc sched = shape_statements (scop_statements sc) sched"

text \<open>The rows against one dependence: strictly ordered, violated, or still tied on a slice.\<close>

datatype row_verdict = Ordered | Violated | Tied presburger

fun check_rows :: "nat \<Rightarrow> dependence \<Rightarrow> schedule_row list \<Rightarrow> presburger \<Rightarrow> row_verdict result" where
  "check_rows depth dep [] sl = Inr (Tied sl)"
| "check_rows depth dep (row # rows) sl =
     mlk_try (set_feasibility sl) (\<lambda>f.
       if f = FEmpty then Inr Ordered
       else mlk_try (distanceForm row dep depth) (\<lambda>(dc, dk).
         mlk_try (slice_min dc dk (disjuncts sl) None) (\<lambda>best.
           case best of
             None \<Rightarrow> Inr Ordered
           | Some mn \<Rightarrow>
               if isInt mn \<and> num mn \<ge> 1 then Inr Ordered
               else if isInt mn \<and> num mn < 0 then Inr Violated
               else mlk_try (refine_slice (\<lambda>u. Inr (\<not> isEmptyFlag u)) dc dk (disjuncts sl)) (\<lambda>us.
                 check_rows depth dep rows \<lparr>set_space = set_space sl, disjuncts = us\<rparr>))))"

definition dep_legal :: "scop \<Rightarrow> poly_schedule \<Rightarrow> dependence \<Rightarrow> bool result" where
  "dep_legal sc sched dep =
     mlk_try (check_rows (scop_depth sc) dep (ps_rows sched) (dep_relation dep)) (\<lambda>v.
       case v of
         Ordered \<Rightarrow> Inr True
       | Violated \<Rightarrow> Inr False
       | Tied sl \<Rightarrow>
           mlk_try (set_feasibility sl) (\<lambda>f.
             if f = FEmpty then Inr True
             else if dep_srcStmt dep = dep_dstStmt dep then Inr False
             else mlk_try (vec_at (scop_statements sc) (dep_srcStmt dep)) (\<lambda>src.
               mlk_try (vec_at (scop_statements sc) (dep_dstStmt dep)) (\<lambda>dst.
               Inr (\<not> st_origOrder src \<ge> st_origOrder dst)))))"

fun deps_legal :: "scop \<Rightarrow> poly_schedule \<Rightarrow> dependence list \<Rightarrow> bool result" where
  "deps_legal sc sched [] = Inr True"
| "deps_legal sc sched (dep # deps) =
     mlk_try (dep_legal sc sched dep) (\<lambda>ok. if \<not> ok then Inr False else deps_legal sc sched deps)"

definition verifyScheduleLegality :: "scop \<Rightarrow> dependence list \<Rightarrow> poly_schedule \<Rightarrow> bool result" where
  "verifyScheduleLegality sc deps sched =
     (if ps_nStmts sched \<noteq> length (scop_statements sc) \<or> ps_depth sched \<noteq> scop_depth sc then Inl (Err InvalidArgument)
      else deps_legal sc sched deps)"

end
