(* ===== verification/Schedule_Laws.thy ===== *)
theory Schedule_Laws
  imports Schedule Lp_Solver Lex_Correct Dependence_Laws
begin

text \<open>
  The laws of the schedule checks: the LP behind \<open>minOverPoly\<close> is the system it was built from, a
  distance form is the difference of the two schedule values, cutting a slice keeps the pairs at
  distance 0, and with these a legal verdict orders every pair of the relation.
\<close>

section \<open>Systems the LP can take\<close>

definition limited_row :: "constraint_row \<Rightarrow> bool" where
  "limited_row r \<longleftrightarrow> list_all in_limit (row_coeffs r) \<and> in_limit (row_constant r)"

definition lp_poly :: "nat \<Rightarrow> polyhedron \<Rightarrow> bool" where
  "lp_poly n p \<longleftrightarrow> wf_poly p \<and> totalVars (poly_space p) = n \<and> 0 < n \<and> n \<le> kLpMaxVars
     \<and> length (poly_rows p) \<le> kPolyMaxRowsPerSystem \<and> list_all limited_row (poly_rows p)"

lemma lp_poly_addRow:
  assumes "lp_poly n p" and "limited_row r" and "length (row_coeffs r) \<le> n"
  shows "lp_poly n (addRow p r)"
proof -
  have "limited_row (r\<lparr>row_coeffs := pad_to n (row_coeffs r)\<rparr>)"
    using assms(2) by (auto simp: limited_row_def pad_to_def list_all_iff)
  then have "list_all limited_row (poly_rows (addRow p r))"
    using assms(1) addRow_rows [of p r] by (auto simp: lp_poly_def list_all_iff)
  then show ?thesis using assms wf_addRow [of p r] addRow_length [of p r] by (simp add: lp_poly_def)
qed

section \<open>The minimum of a form\<close>

definition negated_rows :: "constraint_row list \<Rightarrow> (constraint_row \<times> int) list" where
  "negated_rows rs = map (\<lambda>r. (r, - row_constant r)) rs"

lemma lprow_ints:
  "lprow n (map (\<lambda>j. fromInt (f j)) [0..<n]) x = (\<Sum>j<n. of_int (f j) * x j)"
  by (simp add: lprow_def lpcoef_def)

lemma lprow_row: "length (row_coeffs r) = n \<Longrightarrow> lprow n (map (\<lambda>j. fromInt (row_coeffOf r j)) [0..<n]) x = lin (row_coeffs r) x"
  unfolding lprow_ints lin_def by (simp add: row_coeffOf_def)

lemma lprow_form:
  assumes "length form \<le> n"
  shows "lprow n (map (\<lambda>j. if j < length form then fromInt (form ! j) else rat_zero) [0..<n]) x = lin form x"
proof -
  have "map (\<lambda>j. if j < length form then fromInt (form ! j) else rat_zero) [0..<n]
      = map (\<lambda>j. fromInt (coeff_of form j)) [0..<n]"
    by (auto simp: coeff_of_def fromInt_def rat_zero_def)
  moreover have "(\<Sum>j<n. of_int (coeff_of form j) * x j) = lin form x"
    unfolding lin_def using assms by (intro sum.mono_neutral_cong_right) (auto simp: coeff_of_def)
  ultimately show ?thesis by (simp only: lprow_ints)
qed

lemma selected_rows: "set (filter (Q \<circ> fst) (negated_rows rs)) = (\<lambda>r. (r, - row_constant r)) ` {r \<in> set rs. Q r}"
  by (auto simp: negated_rows_def)

lemma all_rows_nth:
  "(\<forall>i < length rows. P (map c rows ! i) (lpcoef (map (fromInt \<circ> snd) rows) i)) \<longleftrightarrow> (\<forall>rc \<in> set rows. P (c rc) (of_int (snd rc)))"
  by (auto simp: all_set_conv_all_nth lpcoef_def)

lemma min_lp_feasible:
  assumes "wf_poly p" and "\<not> isEmptyFlag p"
  shows "feasible_lp (min_lp p form (negated_rows (poly_rows p))) x \<longleftrightarrow> poly_sat p x"
proof -
  let ?n = "totalVars (poly_space p)" and ?rs = "poly_rows p"
  have row: "lprow ?n (map (\<lambda>j. fromInt (row_coeffOf r j)) [0..<?n]) x = lin (row_coeffs r) x" if "r \<in> set ?rs" for r
    using lprow_row [OF wf_polyD [OF assms that], of x] .
  have "feasible_lp (min_lp p form (negated_rows ?rs)) x \<longleftrightarrow>
      (\<forall>r \<in> {r \<in> set ?rs. row_isEquality r}. lprow ?n (map (\<lambda>j. fromInt (row_coeffOf r j)) [0..<?n]) x = of_int (- row_constant r))
    \<and> (\<forall>r \<in> {r \<in> set ?rs. (Not \<circ> row_isEquality) r}. of_int (- row_constant r) \<le> lprow ?n (map (\<lambda>j. fromInt (row_coeffOf r j)) [0..<?n]) x)"
    unfolding feasible_lp_def min_lp_def Let_def linear_program.simps length_map
      all_rows_nth [where P = "\<lambda>a b. lprow ?n a x = b"] all_rows_nth [where P = "\<lambda>a b. b \<le> lprow ?n a x"] selected_rows
    by simp
  also have "\<dots> \<longleftrightarrow> (\<forall>r \<in> set ?rs. row_sat r x)"
    by (auto simp: row row_sat_def row_val_def)
  finally show ?thesis using assms(2) by (simp add: poly_sat_def rows_sat_def)
qed

lemma min_lp_wf:
  assumes "lp_poly n p" and "\<not> isEmptyFlag p" and "list_all in_limit form"
  shows "wf_lp (min_lp p form (negated_rows (poly_rows p)))"
proof -
  let ?n = "totalVars (poly_space p)"
  let ?e = "filter (row_isEquality \<circ> fst) (negated_rows (poly_rows p))"
  let ?g = "filter (Not \<circ> row_isEquality \<circ> fst) (negated_rows (poly_rows p))"
  have "length (negated_rows (poly_rows p)) \<le> 256" "?n \<le> 1024"
    using assms(1) by (auto simp: lp_poly_def negated_rows_def kPolyMaxRowsPerSystem_def kLpMaxVars_def)
  then have "length ?e \<le> 256" "length ?g \<le> 256" "?n \<le> 1024" using order_trans [OF length_filter_le] by blast+
  then have "int (2 * ?n + 2 * length ?g + length ?e) < 4294967296" by linarith
  moreover have "in_limit (row_coeffOf r j) \<and> in_limit (- row_constant r)" if "r \<in> set (poly_rows p)" for r j
    using assms(1) that by (auto simp: lp_poly_def list_all_iff limited_row_def row_coeffOf_def)
  ultimately show ?thesis
    using assms(3) by (auto simp: wf_lp_def min_lp_def Let_def lim_list_def negated_rows_def list_all_iff)
qed

lemma minOverPoly_spec:
  assumes run: "minOverPoly p form k = Inr m" and p: "lp_poly n p" "\<not> isEmptyFlag p"
    and form: "list_all in_limit form" "length form \<le> n" and k: "in_limit k"
  shows "lim_rat m \<and> (\<exists>x. poly_sat p x \<and> rat_val m = lin form x + of_int k)
    \<and> (\<forall>x. poly_sat p x \<longrightarrow> rat_val m \<le> lin form x + of_int k)"
proof -
  let ?lp = "min_lp p form (negated_rows (poly_rows p))"
  have n: "totalVars (poly_space p) = n" "0 < n" using p(1) by (auto simp: lp_poly_def)
  have "in_i64 (- row_constant r)" if "r \<in> set (poly_rows p)" for r
    using p(1) that by (auto simp: lp_poly_def list_all_iff limited_row_def intro: in_limit_i64)
  then have "map_res (\<lambda>r. mlk_try (plain64 (- row_constant r)) (\<lambda>c. Inr (r, c))) (poly_rows p) = Inr (negated_rows (poly_rows p))"
    unfolding negated_rows_def by (intro map_res_total) (simp add: plain64_def)
  with run n obtain sol where sol: "solveLp ?lp = Inr sol" "sol_status sol = LpOptimal"
    and m: "ratAdd (sol_objective sol) (fromInt k) = Inr m"
    by (auto simp: minOverPoly_def mlk_try_Inr_iff split: if_splits)
  have obj: "lp_nVars ?lp = n" "lprow n (lp_objective ?lp) x = lin form x" for x
    using lprow_form [OF form(2)] n(1) by (auto simp: min_lp_def Let_def)
  from solveLp_answer [OF sol(1) min_lp_wf [OF p form(1)]] sol(2) have a: "lim_rat (sol_objective sol)"
    "feasible_lp ?lp (\<lambda>i. rat_val (sol_x sol ! i))" "rat_val (sol_objective sol) = lin form (\<lambda>i. rat_val (sol_x sol ! i))"
    "\<And>x. feasible_lp ?lp x \<Longrightarrow> rat_val (sol_objective sol) \<le> lin form x"
    by (auto simp: lp_answer_def obj)
  have v: "rat_val m = rat_val (sol_objective sol) + of_int k" "lim_rat m"
    using rat_add.oper_val [OF _ _ _ m] rat_add.oper_lim [OF _ _ _ m] a(1) k by auto
  have "wf_poly p" using p(1) by (simp add: lp_poly_def)
  note f = min_lp_feasible [OF this p(2), of form]
  show ?thesis using a v f by auto
qed

section \<open>Schedule values and distances\<close>

text \<open>The time a row gives to an instance, and the schedule vector of an instance.\<close>

definition theta :: "int list \<Rightarrow> nat \<Rightarrow> (nat \<Rightarrow> 'a::linordered_idom) \<Rightarrow> 'a" where
  "theta cs depth x = of_int (cs ! 0) + (\<Sum>d<depth. of_int (cs ! (d + 1)) * x d)"

definition time_of :: "schedule_row list \<Rightarrow> nat \<Rightarrow> nat \<Rightarrow> (nat \<Rightarrow> int) \<Rightarrow> int list" where
  "time_of rows depth s x = map (\<lambda>row. theta (row ! s) depth x) rows"

lemma distanceForm_spec:
  assumes "distanceForm row dep depth = Inr (dc, dk)"
  shows "length dc = 2 * depth \<and> list_all in_limit dc \<and> in_limit dk
    \<and> dk = row ! dep_dstStmt dep ! 0 - row ! dep_srcStmt dep ! 0
    \<and> lin dc (pair_point depth x y) + of_int dk = theta (row ! dep_dstStmt dep) depth y - theta (row ! dep_srcStmt dep) depth x"
proof -
  let ?s = "row ! dep_srcStmt dep" and ?t = "row ! dep_dstStmt dep"
  from assms obtain ss ts where ss: "list_all2 (\<lambda>d c. \<exists>u. vec_at ?s (d + 1) = Inr u \<and> subLimited 0 u = Inr c) [0..<depth] ss"
    and ts: "list_all2 (\<lambda>d c. \<exists>u. vec_at ?t (d + 1) = Inr u \<and> addLimited 0 u = Inr c) [0..<depth] ts"
    and k: "subLimited (?t ! 0) (?s ! 0) = Inr dk" and dc: "dc = ss @ ts"
    unfolding distanceForm_def by (auto simp: mlk_try_Inr_iff map_res_Inr_iff vec_at_Inr)
  have len: "length ss = depth" "length ts = depth" using list_all2_lengthD [OF ss] list_all2_lengthD [OF ts] by auto
  have sv: "ss ! d = - (?s ! (d + 1)) \<and> in_limit (ss ! d)" if "d < depth" for d
    using list_all2_nthD [OF ss, of d] that by (auto simp: vec_at_Inr sub_op.limited_Inr_iff)
  have tv: "ts ! d = ?t ! (d + 1) \<and> in_limit (ts ! d)" if "d < depth" for d
    using list_all2_nthD [OF ts, of d] that by (auto simp: vec_at_Inr add_op.limited_Inr_iff)
  have "lin ss (pair_point depth x y) = - (\<Sum>d<depth. of_int (?s ! (d + 1)) * x d)"
    unfolding lin_def len sum_negf [symmetric] by (intro sum.cong) (use sv in \<open>auto simp: pair_point_def\<close>)
  moreover have "lin ts (\<lambda>i. pair_point depth x y (depth + i)) = (\<Sum>d<depth. of_int (?t ! (d + 1)) * y d)"
    unfolding lin_def len by (intro sum.cong) (use tv in \<open>auto simp: pair_point_def\<close>)
  moreover have "dk = ?t ! 0 - ?s ! 0" "in_limit dk" using k by (auto simp: sub_op.limited_Inr_iff)
  moreover have "list_all in_limit ss" "list_all in_limit ts" unfolding list_all_length len using sv tv by blast+
  ultimately show ?thesis using len by (simp add: dc lin_append theta_def)
qed

section \<open>Slices\<close>

text \<open>A disjunct whose feasibility test does not fail.\<close>

definition decided :: "polyhedron \<Rightarrow> bool" where
  "decided p \<longleftrightarrow> isEmptyFlag p \<or> rowsOverflow p \<or> (case systemFeasibility p of Inl _ \<Rightarrow> False | Inr _ \<Rightarrow> True)"

lemma polyFeasible_sat:
  assumes "polyFeasible p = Inr f" and "decided p" and "wf_poly p" and "poly_sat p x"
  shows f
  using assms eliminateAll_empty [of p x]
  by (auto simp: polyFeasible_def decided_def systemFeasibility_def attempt_def mlk_try_Inr_iff poly_sat_def split: if_splits sum.splits failure.splits)

lemma polyFeasible_flag: "polyFeasible p = Inr True \<Longrightarrow> \<not> isEmptyFlag p"
  by (auto simp: polyFeasible_def)

lemma slice_min_spec:
  assumes "slice_min dc dk ps best = Inr res" and "\<forall>p \<in> set ps. lp_poly n p" and "list_all in_limit dc" and "length dc \<le> n"
    and "in_limit dk" and "\<forall>b. best = Some b \<longrightarrow> lim_rat b"
  shows "(\<forall>b. best = Some b \<longrightarrow> (\<exists>m. res = Some m \<and> rat_val m \<le> rat_val b)) \<and> (\<forall>m. res = Some m \<longrightarrow> lim_rat m)
    \<and> (\<forall>p \<in> set ps. decided p \<longrightarrow> poly_sat p x \<longrightarrow> (\<exists>m. res = Some m \<and> rat_val m \<le> lin dc x + of_int dk))"
  using assms
proof (induction ps arbitrary: best)
  case (Cons p ps)
  from Cons.prems(1) obtain f where f: "polyFeasible p = Inr f"
    and rest: "(if \<not> f then slice_min dc dk ps best
       else mlk_try (minOverPoly p dc dk) (\<lambda>mn.
         slice_min dc dk ps (case best of None \<Rightarrow> Some mn | Some b \<Rightarrow> Some (if ratLess mn b then mn else b)))) = Inr res"
    by (auto simp: mlk_try_Inr_iff)
  show ?case
  proof (cases f)
    case False
    have "\<not> (decided p \<and> poly_sat p x)" using polyFeasible_sat [OF f] False Cons.prems(2) by (auto simp: lp_poly_def)
    with Cons.IH [of best] rest False Cons.prems(2-6) show ?thesis by auto
  next
    case True
    with rest obtain mn where mn: "minOverPoly p dc dk = Inr mn"
      and run: "slice_min dc dk ps (case best of None \<Rightarrow> Some mn | Some b \<Rightarrow> Some (if ratLess mn b then mn else b)) = Inr res"
      by (auto simp: mlk_try_Inr_iff)
    let ?b = "case best of None \<Rightarrow> mn | Some b \<Rightarrow> if ratLess mn b then mn else b"
    have b: "(case best of None \<Rightarrow> Some mn | Some b \<Rightarrow> Some (if ratLess mn b then mn else b)) = Some ?b"
      by (simp split: option.splits)
    have "lp_poly n p" using Cons.prems(2) by simp
    note mo = minOverPoly_spec [OF mn this polyFeasible_flag [OF f [unfolded eqTrueI [OF True]]] Cons.prems(3,4,5)]
    have le: "rat_val ?b \<le> rat_val mn" "lim_rat ?b" "\<forall>b. best = Some b \<longrightarrow> rat_val ?b \<le> rat_val b"
      using mo Cons.prems(6) by (auto simp: ratLess_iff split: option.splits)
    from Cons.IH [OF run [unfolded b] _ Cons.prems(3,4,5)] Cons.prems(2) le(2)
    have ih: "\<exists>m. res = Some m \<and> rat_val m \<le> rat_val ?b" "\<forall>m. res = Some m \<longrightarrow> lim_rat m"
      "\<forall>p \<in> set ps. decided p \<longrightarrow> poly_sat p x \<longrightarrow> (\<exists>m. res = Some m \<and> rat_val m \<le> lin dc x + of_int dk)" by auto
    from ih(1) obtain m where m: "res = Some m" "rat_val m \<le> rat_val ?b" by blast
    have "poly_sat p x \<Longrightarrow> rat_val m \<le> lin dc x + of_int dk" using mo m(2) le(1) by fastforce
    moreover have "\<forall>b. best = Some b \<longrightarrow> rat_val m \<le> rat_val b" using m(2) le(3) by fastforce
    ultimately show ?thesis using ih m(1) by auto
  qed
qed auto

lemma refine_slice_spec:
  assumes "refine_slice keep dc dk ps = Inr us"
  shows "(\<forall>u \<in> set us. \<exists>p \<in> set ps. u = addRow p \<lparr>row_coeffs = dc, row_constant = - dk, row_isEquality = True\<rparr> \<and> keep u = Inr True)
    \<and> (\<forall>p \<in> set ps. polyFeasible p = Inr True \<longrightarrow>
        (\<exists>k. keep (addRow p \<lparr>row_coeffs = dc, row_constant = - dk, row_isEquality = True\<rparr>) = Inr k
          \<and> (k \<longrightarrow> addRow p \<lparr>row_coeffs = dc, row_constant = - dk, row_isEquality = True\<rparr> \<in> set us)))
    \<and> (\<forall>p \<in> set ps. \<exists>f. polyFeasible p = Inr f)"
  using assms
proof (induction ps arbitrary: us)
  case (Cons p ps)
  from Cons.prems obtain f where f: "polyFeasible p = Inr f"
    and rest: "(if \<not> f then refine_slice keep dc dk ps
       else mlk_try (cut_disjunct dc dk p) (\<lambda>u. mlk_try (keep u) (\<lambda>kept.
         mlk_try (refine_slice keep dc dk ps) (\<lambda>us. Inr (if kept then u # us else us))))) = Inr us"
    by (auto simp: mlk_try_Inr_iff)
  show ?case
  proof (cases f)
    case False
    with rest have "refine_slice keep dc dk ps = Inr us" by simp
    from Cons.IH [OF this] f False show ?thesis by auto
  next
    case True
    with rest obtain vs k where v: "refine_slice keep dc dk ps = Inr vs"
      and k: "keep (addRow p \<lparr>row_coeffs = dc, row_constant = - dk, row_isEquality = True\<rparr>) = Inr k"
      and us: "us = (if k then addRow p \<lparr>row_coeffs = dc, row_constant = - dk, row_isEquality = True\<rparr> # vs else vs)"
      by (auto simp: mlk_try_Inr_iff cut_disjunct_def plain64_Inr)
    from Cons.IH [OF v] f True k us show ?thesis by auto
  qed
qed auto

section \<open>Legality\<close>

text \<open>
  What the code takes for granted about a run over the rows: no feasibility test of a slice
  failed, and no minimum was a negative fraction.
\<close>

definition good_min :: "rational option \<Rightarrow> bool" where
  "good_min best \<longleftrightarrow> (case best of None \<Rightarrow> True | Some m \<Rightarrow> isInt m \<or> 0 < num m)"

fun clean_rows :: "nat \<Rightarrow> dependence \<Rightarrow> schedule_row list \<Rightarrow> presburger \<Rightarrow> bool" where
  "clean_rows depth dep [] sl = True"
| "clean_rows depth dep (row # rows) sl = (list_all decided (disjuncts sl) \<and>
     (case distanceForm row dep depth of Inl _ \<Rightarrow> True | Inr (dc, dk) \<Rightarrow>
        (case slice_min dc dk (disjuncts sl) None of Inl _ \<Rightarrow> True | Inr best \<Rightarrow> good_min best) \<and>
        (case refine_slice (\<lambda>u. Inr (\<not> isEmptyFlag u)) dc dk (disjuncts sl) of Inl _ \<Rightarrow> True
         | Inr us \<Rightarrow> clean_rows depth dep rows \<lparr>set_space = set_space sl, disjuncts = us\<rparr>)))"

definition lp_set :: "nat \<Rightarrow> presburger \<Rightarrow> bool" where
  "lp_set n s \<longleftrightarrow> wf_set s \<and> totalVars (set_space s) = n \<and> 0 < n \<and> n \<le> kLpMaxVars
     \<and> (\<forall>p \<in> set (disjuncts s). length (poly_rows p) \<le> kPolyMaxRowsPerSystem \<and> list_all limited_row (poly_rows p))"

lemma lp_setD: "lp_set n s \<Longrightarrow> p \<in> set (disjuncts s) \<Longrightarrow> lp_poly n p"
  by (auto simp: lp_set_def lp_poly_def wf_set_def)

lemma lp_set_refined:
  assumes "refine_slice keep dc dk (disjuncts s) = Inr us" and "lp_set n s"
    and "length dc \<le> n" and "list_all in_limit dc" and "in_limit dk"
  shows "lp_set n \<lparr>set_space = set_space s, disjuncts = us\<rparr>"
proof -
  have "lp_poly n u \<and> poly_space u = set_space s" if "u \<in> set us" for u
  proof -
    from refine_slice_spec [OF assms(1)] that obtain p where p: "p \<in> set (disjuncts s)"
      and u: "u = addRow p \<lparr>row_coeffs = dc, row_constant = - dk, row_isEquality = True\<rparr>" by blast
    have "lp_poly n u" unfolding u
      by (rule lp_poly_addRow [OF lp_setD [OF assms(2) p]]) (use assms(3-5) in \<open>simp_all add: limited_row_def\<close>)
    then show ?thesis using assms(2) p by (simp add: u lp_set_def wf_set_def)
  qed
  then show ?thesis using assms(2) by (auto simp: lp_set_def lp_poly_def wf_set_def)
qed

lemma refined_keeps_ties:
  assumes "refine_slice (\<lambda>u. Inr (\<not> isEmptyFlag u)) dc 0 (disjuncts s) = Inr us" and "list_all decided (disjuncts s)"
    and "wf_set s" and "set_sat s x" and "lin dc x = 0"
  shows "set_sat \<lparr>set_space = set_space s, disjuncts = us\<rparr> x"
proof -
  from assms(4) obtain p where p: "p \<in> set (disjuncts s)" "poly_sat p x" by (auto simp: set_sat_def)
  let ?u = "addRow p \<lparr>row_coeffs = dc, row_constant = - 0, row_isEquality = True\<rparr>"
  have u: "poly_sat ?u x" by (rule addRow_sound [OF p(2)]) (use assms(5) in \<open>simp add: row_sat_def row_val_def\<close>)
  note sp = refine_slice_spec [OF assms(1)]
  from sp p(1) obtain f where "polyFeasible p = Inr f" by blast
  moreover have f: f
    by (rule polyFeasible_sat [OF calculation _ _ p(2)]) (use assms(2,3) p(1) in \<open>auto simp: list_all_iff wf_set_def\<close>)
  ultimately have "?u \<in> set us" using sp p(1) u by (fastforce simp: poly_sat_def)
  with u show ?thesis by (auto simp: set_sat_def)
qed

lemma check_rows_sound:
  assumes "check_rows depth dep rows sl = Inr v" and "lp_set (2 * depth) sl" and "clean_rows depth dep rows sl"
    and "\<forall>row \<in> set rows. row ! dep_dstStmt dep ! 0 = row ! dep_srcStmt dep ! 0"
    and "set_sat sl (pair_point depth x y)"
  shows "v = Violated
    \<or> (\<exists>s. v = Tied s \<and> wf_set s \<and> set_sat s (pair_point depth x y)
        \<and> time_of rows depth (dep_srcStmt dep) x = time_of rows depth (dep_dstStmt dep) y)
    \<or> ord_class.lexordp (time_of rows depth (dep_srcStmt dep) x) (time_of rows depth (dep_dstStmt dep) y)"
  using assms
proof (induction rows arbitrary: sl)
  case Nil
  then show ?case by (auto simp: time_of_def lp_set_def)
next
  case (Cons row rows)
  let ?pp = "pair_point depth x y"
  have wf: "wf_set sl" using Cons.prems(2) by (simp add: lp_set_def)
  from Cons.prems(1) obtain f where f: "set_feasibility sl = Inr f" by (auto simp: mlk_try_Inr_iff)
  have "f \<noteq> FEmpty" using f set_feasibility_empty [OF _ wf] Cons.prems(5) by blast
  with Cons.prems(1) f obtain dc dk best where dist: "distanceForm row dep depth = Inr (dc, dk)"
    and best: "slice_min dc dk (disjuncts sl) None = Inr best"
    and rest: "(case best of None \<Rightarrow> Inr Ordered
           | Some mn \<Rightarrow> if isInt mn \<and> num mn \<ge> 1 then Inr Ordered
               else if isInt mn \<and> num mn < 0 then Inr Violated
               else mlk_try (refine_slice (\<lambda>u. Inr (\<not> isEmptyFlag u)) dc dk (disjuncts sl)) (\<lambda>us.
                 check_rows depth dep rows \<lparr>set_space = set_space sl, disjuncts = us\<rparr>)) = Inr v"
    by (auto simp: mlk_try_Inr_iff)
  note df = distanceForm_spec [OF dist, of x y]
  have dk: "dk = 0" using df Cons.prems(4) by simp
  have dec: "list_all decided (disjuncts sl)" and gm: "good_min best" using Cons.prems(3) dist best by auto
  define \<delta> where "\<delta> = theta (row ! dep_dstStmt dep) depth y - theta (row ! dep_srcStmt dep) depth x"
  have val: "lin dc ?pp = \<delta>" using df dk by (simp add: \<delta>_def)
  have ratval: "lin dc (\<lambda>i. of_int (?pp i)) = (of_int \<delta> :: rat)" by (simp add: lin_of_int val)
  from Cons.prems(5) obtain p where p: "p \<in> set (disjuncts sl)" "poly_sat p ?pp" by (auto simp: set_sat_def)
  have pr: "poly_sat p (\<lambda>i. of_int (?pp i) :: rat)" using p(2) by (simp only: poly_sat_of_int)
  have dp: "decided p" using dec p(1) by (simp add: list_all_iff)
  have sm: "\<forall>m. best = Some m \<longrightarrow> lim_rat m" "\<exists>m. best = Some m \<and> rat_val m \<le> lin dc (\<lambda>i. of_int (?pp i)) + of_int dk"
    using slice_min_spec [OF best, of "2 * depth" "\<lambda>i. of_int (?pp i)"] lp_setD [OF Cons.prems(2)] df p(1) pr dp by auto
  then obtain m where m: "best = Some m" "rat_val m \<le> of_int \<delta>" "lim_rat m" by (auto simp: ratval dk)
  have mi: "isInt m \<Longrightarrow> rat_val m = of_int (num m)" by (simp add: isInt_def rat_val_def)
  have step: "time_of (row # rows) depth s z = theta (row ! s) depth z # time_of rows depth s z" for s z
    by (simp add: time_of_def)
  show ?case
  proof (cases "isInt m \<and> num m \<ge> 1")
    case True
    then have "1 \<le> (of_int \<delta> :: rat)" using mi m(2) by (metis of_int_1_le_iff order_trans)
    then have "0 < \<delta>" by simp
    then show ?thesis by (simp add: step \<delta>_def)
  next
    case ne: False
    show ?thesis
    proof (cases "isInt m \<and> num m < 0")
      case True
      with rest m(1) show ?thesis by auto
    next
      case False
      with ne rest m(1) obtain us where us: "refine_slice (\<lambda>u. Inr (\<not> isEmptyFlag u)) dc dk (disjuncts sl) = Inr us"
        and run: "check_rows depth dep rows \<lparr>set_space = set_space sl, disjuncts = us\<rparr> = Inr v"
        by (auto simp: mlk_try_Inr_iff)
      have "0 \<le> rat_val m"
        using False gm m(1,3) mi by (auto simp: good_min_def rat_val_def lim_rat_def divide_nonneg_pos)
      with m(2) have "0 \<le> \<delta>" by (metis of_int_0_le_iff order_trans)
      then consider "0 < \<delta>" | (zero) "\<delta> = 0" by linarith
      then show ?thesis
      proof cases
        case 1
        then show ?thesis by (simp add: step \<delta>_def)
      next
        case zero
        let ?s = "\<lparr>set_space = set_space sl, disjuncts = us\<rparr>"
        have "set_sat ?s ?pp" by (rule refined_keeps_ties [OF us [unfolded dk] dec wf Cons.prems(5)]) (simp add: val zero)
        moreover have "lp_set (2 * depth) ?s" by (rule lp_set_refined [OF us Cons.prems(2)]) (use df in auto)
        moreover have "clean_rows depth dep rows ?s" using Cons.prems(3) dist us by simp
        ultimately show ?thesis using Cons.IH [OF run] Cons.prems(4) zero by (auto simp: step \<delta>_def)
      qed
    qed
  qed
qed

lemma deps_legal_mem: "deps_legal sc sched deps = Inr True \<Longrightarrow> dep \<in> set deps \<Longrightarrow> dep_legal sc sched dep = Inr True"
  by (induction deps) (auto simp: mlk_try_Inr_iff split: if_splits)

section \<open>Integer feasibility of a negative form\<close>

lemma lexMin_verdict:
  assumes "lexMin s = Inr res" and "wf_set s" and "no_overflow s"
  shows "case res of
      None \<Rightarrow> \<forall>q. i64_point (set_space s) q \<longrightarrow> \<not> set_sat s (pt q :: nat \<Rightarrow> int)
    | Some p \<Rightarrow> length p = nDims (set_space s) \<and> set_sat s (pt p :: nat \<Rightarrow> int)"
  using lexMin_run [OF assms(1,2)] visited_sat_set [OF assms(3)] set_containsPoint_sound [OF _ assms(2)]
  by (auto simp: lex_run_inv_def lex_before_def set_containsPoint_def split: option.splits)

definition le_row :: "int list \<Rightarrow> int \<Rightarrow> constraint_row" where
  "le_row form k = \<lparr>row_coeffs = map uminus form, row_constant = - k - 1, row_isEquality = False\<rparr>"

lemma le_row_sat: "row_sat (le_row form k) x \<longleftrightarrow> lin form x + of_int k \<le> - 1"
  by (auto simp: le_row_def row_sat_def row_val_def lin_map_uminus)

lemma le_filter_spec:
  assumes "le_filter form k ps = Inr (Some us)" and "\<forall>p \<in> set ps. wf_poly p \<and> length form \<le> totalVars (poly_space p)"
  shows "(\<forall>u \<in> set us. \<exists>p \<in> set ps. \<not> rowsOverflow p \<and> u = addRow p (le_row form k))
    \<and> (\<forall>p \<in> set ps. poly_sat p x \<longrightarrow> lin form x + of_int k \<le> - 1 \<longrightarrow> (\<exists>u \<in> set us. poly_sat u x))"
  using assms
proof (induction ps arbitrary: us)
  case (Cons p ps)
  show ?case
  proof (cases "isEmptyFlag p")
    case True
    with Cons.prems have "le_filter form k ps = Inr (Some us)" by simp
    from Cons.IH [OF this] Cons.prems(2) True show ?thesis by (auto simp: poly_sat_def)
  next
    case False
    with Cons.prems(1) obtain neg a b f where no: "\<not> rowsOverflow p"
      and neg: "map_res (\<lambda>c. plain64 (- c)) form = Inr neg" and ab: "subLimited 0 k = Inr a" "subLimited a 1 = Inr b"
      and f: "attempt (systemFeasibility (addRow p \<lparr>row_coeffs = neg, row_constant = b, row_isEquality = False\<rparr>)) = Inr f"
      and rest: "(case f of
            None \<Rightarrow> Inr None
          | Some FEmpty \<Rightarrow> le_filter form k ps
          | Some FUnknown \<Rightarrow> Inr None
          | Some FNonEmpty \<Rightarrow> mlk_try (le_filter form k ps) (\<lambda>r.
              Inr (map_option ((#) (addRow p \<lparr>row_coeffs = neg, row_constant = b, row_isEquality = False\<rparr>)) r)))
          = Inr (Some us)"
      by (auto simp: mlk_try_Inr_iff Let_def split: if_splits)
    have "list_all2 (\<lambda>c v. v = - c) form neg"
      using neg unfolding map_res_Inr_iff by (rule list_all2_mono) (simp add: plain64_Inr)
    then have "neg = map uminus form" by (auto simp: list_all2_conv_all_nth intro: nth_equalityI)
    moreover have "b = - k - 1" using ab by (simp add: sub_op.limited_Inr_iff)
    ultimately have row: "\<lparr>row_coeffs = neg, row_constant = b, row_isEquality = False\<rparr> = le_row form k" by (simp add: le_row_def)
    have sound: "poly_sat (addRow p (le_row form k)) x" if "poly_sat p x" "lin form x + of_int k \<le> - 1"
      by (rule addRow_sound [OF that(1)]) (use that(2) in \<open>simp add: le_row_sat\<close>)
    have wu: "wf_poly (addRow p (le_row form k))" using Cons.prems(2) by (auto simp: le_row_def intro: wf_addRow)
    from rest consider (empty) "f = Some FEmpty" "le_filter form k ps = Inr (Some us)"
      | (keep) vs where "f = Some FNonEmpty" "le_filter form k ps = Inr (Some vs)" "us = addRow p (le_row form k) # vs"
      by (auto simp: row mlk_try_Inr_iff split: option.splits feasibility.splits)
    then show ?thesis
    proof cases
      case empty
      then have "\<not> poly_sat (addRow p (le_row form k)) x"
        using f eliminateAll_empty [OF _ wu] by (auto simp: row attempt_Inr systemFeasibility_def)
      with Cons.IH [OF empty(2)] Cons.prems(2) sound show ?thesis by auto
    next
      case keep
      from Cons.IH [OF keep(2)] Cons.prems(2) sound no keep(3) show ?thesis by auto
    qed
  qed
qed auto

lemma integerLe_spec:
  assumes "integerLeFormFeasible s form k = Inr f" and wf: "wf_set s" and "length form \<le> totalVars (set_space s)"
    and "\<forall>p \<in> set (disjuncts s). length (poly_rows p) < kPolyMaxRowsPerSystem"
  shows "(f = FEmpty \<longrightarrow> (\<forall>q. i64_point (set_space s) q \<longrightarrow> set_sat s (pt q :: nat \<Rightarrow> int) \<longrightarrow> 0 \<le> lin form (pt q :: nat \<Rightarrow> int) + k))
    \<and> (f = FNonEmpty \<longrightarrow> (\<exists>q. length q = nDims (set_space s) \<and> set_sat s (pt q :: nat \<Rightarrow> int) \<and> lin form (pt q :: nat \<Rightarrow> int) + k \<le> - 1))"
proof -
  from assms(1) obtain r where r: "le_filter form k (disjuncts s) = Inr r"
    and rest: "(case r of None \<Rightarrow> Inr FUnknown | Some [] \<Rightarrow> Inr FEmpty
       | Some (u # us) \<Rightarrow> mlk_try (attempt (lexMin \<lparr>set_space = set_space s, disjuncts = u # us\<rparr>)) (\<lambda>lm.
             Inr (case lm of None \<Rightarrow> FUnknown | Some (Some _) \<Rightarrow> FNonEmpty | Some None \<Rightarrow> FEmpty))) = Inr f"
    by (auto simp: integerLeFormFeasible_def mlk_try_Inr_iff)
  show ?thesis
  proof (cases r)
    case None
    with rest show ?thesis by simp
  next
    case (Some us)
    have pre: "\<forall>p \<in> set (disjuncts s). wf_poly p \<and> length form \<le> totalVars (poly_space p)"
      using wf assms(3) by (auto simp: wf_set_def)
    note fs = le_filter_spec [OF r [unfolded Some] pre]
    let ?t = "\<lparr>set_space = set_space s, disjuncts = us\<rparr>"
    have u: "\<exists>p \<in> set (disjuncts s). u = addRow p (le_row form k) \<and> \<not> rowsOverflow u \<and> wf_poly u \<and> poly_space u = set_space s"
      if "u \<in> set us" for u
    proof -
      from fs that obtain p where p: "p \<in> set (disjuncts s)" "\<not> rowsOverflow p" "u = addRow p (le_row form k)" by blast
      moreover have "length (poly_rows p) < kPolyMaxRowsPerSystem" using assms(4) p(1) by blast
      from addRow_within [OF this, of "le_row form k" "\<lambda>_. 0 :: int"] have "rowsOverflow u = rowsOverflow p" by (simp add: p(3))
      moreover have "wf_poly u" using pre p(1) unfolding p(3) by (intro wf_addRow) (auto simp: le_row_def)
      ultimately show ?thesis using wf by (auto simp: wf_set_def)
    qed
    have wt: "wf_set ?t" "no_overflow ?t" using u by (auto simp: wf_set_def no_overflow_def)
    have conv: "set_sat s x \<and> lin form x + k \<le> - 1" if "set_sat ?t x" for x :: "nat \<Rightarrow> int"
    proof -
      from that obtain v where v: "v \<in> set us" "poly_sat v x" by (auto simp: set_sat_def)
      from u [OF v(1)] obtain p where p: "p \<in> set (disjuncts s)" "v = addRow p (le_row form k)" "\<not> rowsOverflow v" by blast
      with addRow_exact [of p "le_row form k" x] v(2) have "poly_sat p x" "row_sat (le_row form k) x" by auto
      with p(1) show ?thesis by (auto simp: set_sat_def le_row_sat)
    qed
    have forth: "set_sat ?t x" if "set_sat s x" "lin form x + k \<le> - 1" for x :: "nat \<Rightarrow> int"
      using that fs [of x] by (auto simp: set_sat_def)
    show ?thesis
    proof (cases us)
      case Nil
      with rest Some forth show ?thesis by (fastforce simp: set_sat_def)
    next
      case (Cons v vs)
      with rest Some obtain lm where lm: "attempt (lexMin ?t) = Inr lm"
        and f: "f = (case lm of None \<Rightarrow> FUnknown | Some (Some _) \<Rightarrow> FNonEmpty | Some None \<Rightarrow> FEmpty)"
        by (auto simp: mlk_try_Inr_iff)
      show ?thesis
      proof (cases lm)
        case None
        with f show ?thesis by simp
      next
        case lmS: (Some res)
        with lm have run: "lexMin ?t = Inr res" by (simp add: attempt_Inr)
        note verdict = lexMin_verdict [OF run wt]
        show ?thesis
        proof (cases res)
          case None
          with verdict f lmS forth show ?thesis by fastforce
        next
          case (Some q)
          with verdict f lmS conv [of "pt q"] show ?thesis by auto
        qed
      qed
    qed
  qed
qed

end
