(* ===== verification/Tile.thy ===== *)
theory Tile
  imports Schedule Schedule_Laws
begin

text \<open>
  Detection of the tileable band of a schedule, \<open>polyhedral/src/tile.cpp\<close>. The state of a dependence
  is its remaining sl and whether it is resolved; the loop over the rows returns the band found
  so far when a row ends it.
\<close>

record tiled_info =
  ti_tiled :: bool
  ti_bandEnd :: nat
  ti_tileSizes :: "int list"

section \<open>Row variation\<close>

fun row_range :: "int list \<Rightarrow> int \<Rightarrow> polyhedron list \<Rightarrow> (rational \<times> rational) option \<Rightarrow> (rational \<times> rational) option result" where
  "row_range form k [] acc = Inr acc"
| "row_range form k (p # ps) acc =
     mlk_try (polyFeasible p) (\<lambda>f.
       if \<not> f then row_range form k ps acc
       else mlk_try (minOverPoly p form k) (\<lambda>mn.
         mlk_try (map_res (\<lambda>c. plain64 (- c)) form) (\<lambda>neg.
         mlk_try (plain64 (- k)) (\<lambda>nk.
         mlk_try (minOverPoly p neg nk) (\<lambda>mx.
         mlk_try (attempt (ratNeg mx)) (\<lambda>m.
           case m of
             None \<Rightarrow> Inl (Err ResourceExhausted)
           | Some hi' \<Rightarrow> row_range form k ps (case acc of
               None \<Rightarrow> Some (mn, hi')
             | Some (lo, hi) \<Rightarrow> Some (if ratLess mn lo then mn else lo, if ratLess hi hi' then hi' else hi))))))))"

definition rowVaries :: "statement \<Rightarrow> schedule_row \<Rightarrow> bool result" where
  "rowVaries s row =
     mlk_try (vec_at row (st_id s)) (\<lambda>cs.
     mlk_try (map_res (\<lambda>d. vec_at cs (d + 1)) [0..<nDims (st_space s)]) (\<lambda>form.
     mlk_try (vec_at cs 0) (\<lambda>k.
     mlk_try (row_range form k (disjuncts (st_domain s)) None) (\<lambda>r.
       case r of
         None \<Rightarrow> Inr False
       | Some (lo, hi) \<Rightarrow> mlk_try (ratSub hi lo) (\<lambda>range. Inr (isInt range \<and> num range \<ge> 1))))))"

fun any_varies :: "statement list \<Rightarrow> schedule_row \<Rightarrow> bool \<Rightarrow> bool result" where
  "any_varies [] row varies = Inr varies"
| "any_varies (s # ss) row varies = mlk_try (rowVaries s row) (\<lambda>v. any_varies ss row (varies \<or> v))"

definition pivotDistForm :: "nat \<Rightarrow> nat \<Rightarrow> (int list \<times> int) result" where
  "pivotDistForm depth pv =
     (if pv \<ge> depth then Inl (Err InvalidArgument)
      else Inr ((replicate (depth * 2) 0)[pv := -1, depth + pv := 1], 0))"

section \<open>The band\<close>

text \<open>One live dependence against a band row: its distance form, or \<open>None\<close> when the band ends.\<close>

definition band_dep :: "nat \<Rightarrow> nat \<Rightarrow> presburger \<Rightarrow> (int list \<times> int) option result" where
  "band_dep depth pv sl =
     mlk_try (pivotDistForm depth pv) (\<lambda>(dc, dk).
       mlk_try (slice_min dc dk (disjuncts sl) None) (\<lambda>best.
         case best of
           None \<Rightarrow> Inl (Err Internal)
         | Some mn \<Rightarrow> Inr (if isInt mn \<and> num mn \<ge> 0 then Some (dc, dk) else None)))"

fun band_forms :: "nat \<Rightarrow> nat \<Rightarrow> dep_state list \<Rightarrow> (int list \<times> int) list option result" where
  "band_forms depth pv [] = Inr (Some [])"
| "band_forms depth pv ((sl, resolved) # sts) =
     (if resolved then band_forms depth pv sts
      else mlk_try (band_dep depth pv sl) (\<lambda>f.
        case f of
          None \<Rightarrow> Inr None
        | Some form \<Rightarrow> mlk_try (band_forms depth pv sts) (\<lambda>r. Inr (map_option ((#) form) r))))"

fun band_refine :: "(int list \<times> int) list \<Rightarrow> dep_state list \<Rightarrow> dep_state list result" where
  "band_refine forms [] = Inr []"
| "band_refine forms ((sl, resolved) # sts) =
     (if resolved then mlk_try (band_refine forms sts) (\<lambda>r. Inr ((sl, True) # r))
      else case forms of
        [] \<Rightarrow> Inl UndefinedBehaviour
      | (dc, dk) # forms' \<Rightarrow>
          mlk_try (cut_state dc dk sl) (\<lambda>st. mlk_try (band_refine forms' sts) (\<lambda>r. Inr (st # r))))"

fun band_rows :: "scop \<Rightarrow> int \<Rightarrow> nat list \<Rightarrow> schedule_row list \<Rightarrow> nat \<Rightarrow> dep_state list \<Rightarrow> tiled_info
    \<Rightarrow> (tiled_info \<times> bool) result" where
  "band_rows sc tileSize pivots [] r sts out = Inr (out, False)"
| "band_rows sc tileSize pivots (row # rows) r sts out =
     (if r \<ge> length pivots then Inr (out, False)
      else if list_all snd sts then Inr (out, False)
      else mlk_try (any_varies (scop_statements sc) row False) (\<lambda>varies.
        if \<not> varies then Inr (out, False)
        else mlk_try (band_forms (scop_depth sc) (pivots ! r) sts) (\<lambda>forms.
          case forms of
            None \<Rightarrow> Inr (out, True)
          | Some fs \<Rightarrow>
              mlk_try (band_refine fs sts) (\<lambda>sts'.
                band_rows sc tileSize pivots rows (Suc r) sts'
                  (out\<lparr>ti_tileSizes := ti_tileSizes out @ [tileSize], ti_bandEnd := r + 1\<rparr>)))))"

text \<open>A band ended by an illegal row is returned at once, before \<open>tiled\<close> is set.\<close>

definition computeTiling :: "scop \<Rightarrow> dependence list \<Rightarrow> poly_schedule \<Rightarrow> int \<Rightarrow> tiled_info result" where
  "computeTiling sc deps sched tileSize =
     (let none = \<lparr>ti_tiled = False, ti_bandEnd = 0, ti_tileSizes = []\<rparr> in
      if tileSize \<le> 0 then Inl (Err InvalidArgument)
      else if ps_rows sched = [] then Inr none
      else mlk_try (band_rows sc tileSize (ps_pivotDim sched) (ps_rows sched) 0
             (map (\<lambda>d. (dep_relation d, False)) deps) none) (\<lambda>(out, early).
        Inr (if early then out else out\<lparr>ti_tiled := ti_bandEnd out > 0\<rparr>)))"

text \<open>
  What a tileable band guarantees: along its pivot dimensions no pair of a dependence goes
  backwards in the lexicographic order.
\<close>

lemma pivotDistForm_spec:
  assumes "pivotDistForm depth pv = Inr (dc, dk)"
  shows "pv < depth \<and> dk = 0 \<and> length dc = 2 * depth \<and> list_all in_limit dc \<and> lin dc (pair_point depth x y) = y pv - x pv"
proof -
  have pv: "pv < depth" and dc: "dc = (replicate (depth * 2) 0)[pv := -1, depth + pv := 1]" and "dk = 0"
    using assms by (auto simp: pivotDistForm_def split: if_splits)
  moreover have "list_all in_limit dc"
    unfolding dc list_all_iff using set_update_subset_insert by (fastforce dest: subsetD [OF set_update_subset_insert])
  moreover have "lin dc (pair_point depth x y) = y pv - x pv"
    unfolding dc using pv by (simp add: lin_list_update pair_point_def)
  ultimately show ?thesis by simp
qed

text \<open>No feasibility test of the slices of a dependence fails while its band is computed.\<close>

fun clean_band :: "nat \<Rightarrow> nat list \<Rightarrow> presburger \<Rightarrow> bool" where
  "clean_band depth [] sl = True"
| "clean_band depth (pv # pvs) sl = (list_all decided (disjuncts sl) \<and>
     (case pivotDistForm depth pv of Inl _ \<Rightarrow> True | Inr (dc, dk) \<Rightarrow>
        list_all (\<lambda>p. decided (addRow p \<lparr>row_coeffs = dc, row_constant = - dk, row_isEquality = True\<rparr>)) (disjuncts sl) \<and>
        (case refine_slice polyFeasible dc dk (disjuncts sl) of Inl _ \<Rightarrow> True
         | Inr us \<Rightarrow> us = [] \<or> clean_band depth pvs \<lparr>set_space = set_space sl, disjuncts = us\<rparr>)))"

lemma band_forms_spec:
  assumes "band_forms depth pv sts = Inr (Some fs)"
  shows "(\<forall>f \<in> set fs. pivotDistForm depth pv = Inr f)
    \<and> (\<forall>i < length sts. \<not> snd (sts ! i) \<longrightarrow> (\<exists>form. band_dep depth pv (fst (sts ! i)) = Inr (Some form)))"
  using assms
proof (induction sts arbitrary: fs)
  case (Cons st sts)
  obtain sl res where st: "st = (sl, res)" by (cases st)
  show ?case
  proof (cases res)
    case True
    with Cons.prems st have "band_forms depth pv sts = Inr (Some fs)" by simp
    from Cons.IH [OF this] True st show ?thesis by (auto simp: nth_Cons split: nat.splits)
  next
    case False
    with Cons.prems st obtain form gs where f: "band_dep depth pv sl = Inr (Some form)"
      and gs: "band_forms depth pv sts = Inr (Some gs)" "fs = form # gs"
      by (auto simp: mlk_try_Inr_iff split: option.splits)
    have "pivotDistForm depth pv = Inr form"
      using f by (auto simp: band_dep_def mlk_try_Inr_iff split: option.splits if_splits)
    with Cons.IH [OF gs(1)] f gs(2) st show ?thesis by (auto simp: nth_Cons split: nat.splits)
  qed
qed simp

lemma band_refine_spec:
  assumes "band_refine fs sts = Inr sts'" and "set fs \<subseteq> {(dc, dk)}"
  shows "length sts' = length sts \<and> (\<forall>i < length sts. \<not> snd (sts ! i) \<longrightarrow> cut_state dc dk (fst (sts ! i)) = Inr (sts' ! i))"
  using assms
proof (induction sts arbitrary: fs sts')
  case (Cons st sts)
  obtain sl res where st: "st = (sl, res)" by (cases st)
  show ?case
  proof (cases res)
    case True
    with Cons.prems(1) st obtain r where "band_refine fs sts = Inr r" "sts' = (sl, True) # r" by (auto simp: mlk_try_Inr_iff)
    with Cons.IH [OF _ Cons.prems(2)] True st show ?thesis by (auto simp: nth_Cons split: nat.splits)
  next
    case False
    with Cons.prems(1) st obtain f gs s r where g: "fs = f # gs" "cut_state (fst f) (snd f) sl = Inr s" "band_refine gs sts = Inr r"
      "sts' = s # r" by (auto simp: mlk_try_Inr_iff split: list.splits prod.splits)
    then have f: "f = (dc, dk)" and gs: "set gs \<subseteq> {(dc, dk)}" using Cons.prems(2) by auto
    note ih = Cons.IH [OF g(3) gs]
    show ?thesis
    proof (intro conjI allI impI)
      fix i assume "i < length (st # sts)" "\<not> snd ((st # sts) ! i)"
      then show "cut_state dc dk (fst ((st # sts) ! i)) = Inr (sts' ! i)"
        using ih g(2,4) st f by (cases i) simp_all
    qed (use ih g(4) in simp)
  qed
qed simp

lemma cut_state_spec:
  assumes "cut_state dc 0 sl = Inr (sl', res)" and "wf_set sl" and "set_sat sl x" and "lin dc x = 0" and "list_all decided (disjuncts sl)"
    and "list_all (\<lambda>p. decided (addRow p \<lparr>row_coeffs = dc, row_constant = - 0, row_isEquality = True\<rparr>)) (disjuncts sl)"
    and "length dc \<le> totalVars (set_space sl)"
  shows "\<not> res \<and> set_sat sl' x \<and> (\<exists>us. refine_slice polyFeasible dc 0 (disjuncts sl) = Inr us \<and> us \<noteq> [] \<and> sl' = \<lparr>set_space = set_space sl, disjuncts = us\<rparr>)"
proof -
  from assms(1) [unfolded cut_state_def mlk_try_Inr_iff] obtain us where us: "refine_slice polyFeasible dc 0 (disjuncts sl) = Inr us"
    and r: "(sl', res) = (if us = [] then (sl, True) else (\<lparr>set_space = set_space sl, disjuncts = us\<rparr>, False))"
    by (elim exE conjE) simp
  from assms(3) obtain p where p: "p \<in> set (disjuncts sl)" "poly_sat p x" by (auto simp: set_sat_def)
  let ?u = "addRow p \<lparr>row_coeffs = dc, row_constant = - 0, row_isEquality = True\<rparr>"
  have u: "poly_sat ?u x" by (rule addRow_sound [OF p(2)]) (use assms(4) in \<open>simp add: row_sat_def row_val_def\<close>)
  note sp = refine_slice_spec [OF us]
  have wp: "wf_poly p" "poly_space p = set_space sl" using assms(2) p(1) by (auto simp: wf_set_def)
  from conjunct2 [OF conjunct2 [OF sp]] p(1) obtain f where f: "polyFeasible p = Inr f" by blast
  have f by (rule polyFeasible_sat [OF f _ wp(1) p(2)]) (use assms(5) p(1) in \<open>simp add: list_all_iff\<close>)
  with f have "polyFeasible p = Inr True" by simp
  with conjunct1 [OF conjunct2 [OF sp]] p(1) obtain k where k: "polyFeasible ?u = Inr k" "k \<longrightarrow> ?u \<in> set us" by blast
  have wu: "wf_poly ?u" using wp assms(7) by (intro wf_addRow) simp_all
  have k by (rule polyFeasible_sat [OF k(1) _ wu u]) (use assms(6) p(1) in \<open>simp add: list_all_iff\<close>)
  with k(2) have m: "?u \<in> set us" by simp
  then have "us \<noteq> []" by auto
  with r have r': "sl' = \<lparr>set_space = set_space sl, disjuncts = us\<rparr>" "\<not> res" by simp_all
  have "set_sat sl' x" unfolding r'(1) set_sat_def using m u by auto
  with r' us \<open>us \<noteq> []\<close> show ?thesis by blast
qed

lemma band_rows_sound:
  assumes "band_rows sc ts pvs rows r sts out = Inr (out', early)" and "ti_bandEnd out = r" and "i < length sts" and "sts ! i = (sl, False)"
    and "lp_set (2 * scop_depth sc) sl" and "clean_band (scop_depth sc) (drop r pvs) sl" and "set_sat sl (pair_point (scop_depth sc) x y)"
  shows "r \<le> ti_bandEnd out' \<and>
    ord_class.lexordp_eq (map x (take (ti_bandEnd out' - r) (drop r pvs))) (map y (take (ti_bandEnd out' - r) (drop r pvs)) :: int list)"
  using assms
proof (induction rows arbitrary: r sts out sl)
  case (Cons row rows)
  let ?d = "scop_depth sc" and ?pp = "pair_point (scop_depth sc) x y"
  show ?case
  proof (cases "r \<ge> length pvs \<or> list_all snd sts")
    case True
    with Cons.prems(1,2) show ?thesis by (auto split: if_splits)
  next
    case F: False
    with Cons.prems(1) obtain varies where v: "any_varies (scop_statements sc) row False = Inr varies"
      and rest: "(if \<not> varies then Inr (out, False)
        else mlk_try (band_forms ?d (pvs ! r) sts) (\<lambda>forms.
          case forms of None \<Rightarrow> Inr (out, True)
          | Some fs \<Rightarrow> mlk_try (band_refine fs sts) (\<lambda>sts'. band_rows sc ts pvs rows (Suc r) sts'
                  (out\<lparr>ti_tileSizes := ti_tileSizes out @ [ts], ti_bandEnd := r + 1\<rparr>)))) = Inr (out', early)"
      by (auto simp: mlk_try_Inr_iff)
    show ?thesis
    proof (cases "varies \<and> band_forms ?d (pvs ! r) sts \<noteq> Inr None")
      case False
      with rest Cons.prems(2) show ?thesis by (auto simp: mlk_try_Inr_iff split: if_splits option.splits)
    next
      case True
      with rest obtain fs sts' where fs: "band_forms ?d (pvs ! r) sts = Inr (Some fs)" and st: "band_refine fs sts = Inr sts'"
        and run: "band_rows sc ts pvs rows (Suc r) sts' (out\<lparr>ti_tileSizes := ti_tileSizes out @ [ts], ti_bandEnd := r + 1\<rparr>) = Inr (out', early)"
        by (auto simp: mlk_try_Inr_iff split: option.splits)
      note bf = band_forms_spec [OF fs]
      from bf Cons.prems(3,4) obtain form where "band_dep ?d (pvs ! r) sl = Inr (Some form)" by fastforce
      then obtain dc dk mn where pf: "pivotDistForm ?d (pvs ! r) = Inr (dc, dk)"
        and sm: "slice_min dc dk (disjuncts sl) None = Inr (Some mn)" and nn: "isInt mn" "num mn \<ge> 0"
        by (auto simp: band_dep_def mlk_try_Inr_iff split: option.splits if_splits)
      note ps = pivotDistForm_spec [OF pf, of x y]
      have fsub: "set fs \<subseteq> {(dc, 0)}" using bf pf ps by auto
      have dr: "drop r pvs = pvs ! r # drop (Suc r) pvs" using F by (simp add: Cons_nth_drop_Suc)
      have cl: "list_all decided (disjuncts sl)"
        "list_all (\<lambda>p. decided (addRow p \<lparr>row_coeffs = dc, row_constant = - 0, row_isEquality = True\<rparr>)) (disjuncts sl)"
        "\<And>us. refine_slice polyFeasible dc 0 (disjuncts sl) = Inr us \<Longrightarrow> us \<noteq> [] \<Longrightarrow>
           clean_band ?d (drop (Suc r) pvs) \<lparr>set_space = set_space sl, disjuncts = us\<rparr>"
        using Cons.prems(6) pf ps by (auto simp: dr)
      have wf: "wf_set sl" "totalVars (set_space sl) = 2 * ?d" using Cons.prems(5) by (auto simp: lp_set_def)
      from Cons.prems(7) obtain p where p: "p \<in> set (disjuncts sl)" "poly_sat p ?pp" by (auto simp: set_sat_def)
      have pr: "poly_sat p (\<lambda>i. of_int (?pp i) :: rat)" using p(2) by (simp only: poly_sat_of_int)
      have "rat_val mn \<le> lin dc (\<lambda>i. of_int (?pp i)) + of_int dk"
        using slice_min_spec [OF sm, of "2 * ?d" "\<lambda>i. of_int (?pp i)"] lp_setD [OF Cons.prems(5)] ps p(1) pr cl(1)
        by (auto simp: list_all_iff)
      then have "of_int (num mn) \<le> (of_int (y (pvs ! r) - x (pvs ! r)) :: rat)"
        using ps nn(1) by (simp add: lin_of_int isInt_def rat_val_def)
      then have le: "x (pvs ! r) \<le> y (pvs ! r)" using nn(2) by (simp only: of_int_le_iff)
      have mono: "band_rows sc ts pvs rows r sts out = Inr (out', early) \<Longrightarrow> ti_bandEnd out = r \<Longrightarrow> r \<le> ti_bandEnd out'" for rows r sts out
      proof (induction rows arbitrary: r sts out)
        case (Cons row rows)
        from Cons.prems(1) consider "out' = out" | sts' where "band_rows sc ts pvs rows (Suc r) sts'
            (out\<lparr>ti_tileSizes := ti_tileSizes out @ [ts], ti_bandEnd := r + 1\<rparr>) = Inr (out', early)"
          by (auto simp: mlk_try_Inr_iff split: if_splits option.splits)
        then show ?case using Cons.IH Cons.prems(2) by cases fastforce+
      qed simp
      have r: "Suc r \<le> ti_bandEnd out'" using mono [OF run] by simp
      have tk: "take (ti_bandEnd out' - r) (drop r pvs) = pvs ! r # take (ti_bandEnd out' - Suc r) (drop (Suc r) pvs)"
        using r by (simp add: dr take_Cons' Suc_diff_Suc)
      show ?thesis
      proof (cases "x (pvs ! r) = y (pvs ! r)")
        case False
        with le r show ?thesis by (simp add: tk)
      next
        case eq: True
        have c: "cut_state dc 0 sl = Inr (sts' ! i)"
          using band_refine_spec [OF st, of dc 0] fsub Cons.prems(3,4) by auto
        obtain sl' res where si: "sts' ! i = (sl', res)" by (cases "sts' ! i")
        have li: "lin dc ?pp = 0" using ps eq by simp
        from cut_state_spec [OF c [unfolded si] wf(1) Cons.prems(7) li cl(1,2)] ps wf(2)
        obtain us where us: "\<not> res" "set_sat sl' ?pp" "refine_slice polyFeasible dc 0 (disjuncts sl) = Inr us" "us \<noteq> []"
          "sl' = \<lparr>set_space = set_space sl, disjuncts = us\<rparr>" by auto
        have "lp_set (2 * ?d) sl'" unfolding us(5)
          by (rule lp_set_refined [OF us(3) Cons.prems(5)]) (use ps in auto)
        then have "ord_class.lexordp_eq (map x (take (ti_bandEnd out' - Suc r) (drop (Suc r) pvs))) (map y (take (ti_bandEnd out' - Suc r) (drop (Suc r) pvs)))"
          using Cons.IH [OF run] band_refine_spec [OF st, of dc 0] fsub Cons.prems(3) si us cl(3) by auto
        with eq r show ?thesis by (simp add: tk)
      qed
    qed
  qed
qed simp

end
