(* ===== verification/Schedule_Properties.thy ===== *)
theory Schedule_Properties
  imports Dependence_Properties Tile
begin

text \<open>
  What the schedule checks and the tiler promise: exact minima, exact integer feasibility, a legal
  verdict that orders every dependent pair, a band that never goes backwards; and the inputs on
  which the code breaks what it means to promise.
\<close>

section \<open>Exact minima\<close>

definition box_poly :: "int \<Rightarrow> polyhedron" where
  "box_poly hi = addRowList [\<lparr>row_coeffs = [1, 0], row_constant = 0, row_isEquality = False\<rparr>,
     \<lparr>row_coeffs = [-1, 0], row_constant = hi, row_isEquality = False\<rparr>,
     \<lparr>row_coeffs = [2, -3], row_constant = 0, row_isEquality = True\<rparr>] (new_poly \<lparr>nDims = 2, nSyms = 0\<rparr>)"

text \<open>
  A successful \<open>minOverPoly\<close> is the exact rational minimum of the form over the system: some
  point of the system takes the value and no point is below it. (Rows and form are within the
  magnitude limit, and the system within the row budget.)
\<close>
theorem minOverPoly_exact:
  assumes "minOverPoly p form k = Inr m" and "lp_poly n p" and "\<not> isEmptyFlag p"
    and "list_all in_limit form" and "length form \<le> n" and "in_limit k"
  shows "(\<exists>x. poly_sat p x \<and> rat_val m = lin form x + of_int k)
    \<and> (\<forall>x. poly_sat p x \<longrightarrow> rat_val m \<le> lin form x + of_int k)"
  using minOverPoly_spec [OF assms] by blast

lemma minOverPoly_exact_witness:
  "minOverPoly (box_poly 7) [-1, 1] 0 = Inr \<lparr>num = -7, den = 3\<rparr>
   \<and> (\<exists>x. poly_sat (box_poly 7) x \<and> rat_val \<lparr>num = -7, den = 3\<rparr> = lin [-1, 1] x + of_int 0)"
proof -
  have run: "minOverPoly (box_poly 7) [-1, 1] 0 = Inr \<lparr>num = -7, den = 3\<rparr>" by code_simp
  have "lp_poly 2 (box_poly 7)" "\<not> isEmptyFlag (box_poly 7)" by code_simp+
  from minOverPoly_exact [OF run this, of] run show ?thesis by (simp add: limit_defs)
qed

definition box_set :: "int \<Rightarrow> presburger" where
  "box_set hi = \<lparr>set_space = \<lparr>nDims = 2, nSyms = 0\<rparr>, disjuncts = [box_poly hi]\<rparr>"

text \<open>
  The verdicts of \<open>integerLeFormFeasible\<close> are exact over the integers: Empty means that the form
  is nonnegative at every 64-bit integer point of the set, NonEmpty that some integer point of
  the set makes it negative.
\<close>
theorem integerLe_exact:
  assumes "integerLeFormFeasible s form k = Inr f" and "wf_set s" and "length form \<le> totalVars (set_space s)"
    and "\<forall>p \<in> set (disjuncts s). length (poly_rows p) < kPolyMaxRowsPerSystem"
  shows "case f of
      FEmpty \<Rightarrow> \<forall>q. i64_point (set_space s) q \<longrightarrow> set_sat s (pt q :: nat \<Rightarrow> int) \<longrightarrow> 0 \<le> lin form (pt q :: nat \<Rightarrow> int) + k
    | FNonEmpty \<Rightarrow> \<exists>q. length q = nDims (set_space s) \<and> set_sat s (pt q :: nat \<Rightarrow> int) \<and> lin form (pt q :: nat \<Rightarrow> int) + k \<le> - 1
    | FUnknown \<Rightarrow> True"
  using integerLe_spec [OF assms] by (simp split: feasibility.split)

lemma integerLe_exact_witness:
  "integerLeFormFeasible (box_set 2) [-1, 1] 0 = Inr FEmpty \<and> integerLeFormFeasible (box_set 7) [-1, 1] 0 = Inr FNonEmpty
   \<and> (\<exists>q. length q = 2 \<and> set_sat (box_set 7) (pt q :: nat \<Rightarrow> int) \<and> lin [-1, 1] (pt q :: nat \<Rightarrow> int) + 0 \<le> - 1)"
proof -
  have run: "integerLeFormFeasible (box_set 2) [-1, 1] 0 = Inr FEmpty" "integerLeFormFeasible (box_set 7) [-1, 1] 0 = Inr FNonEmpty"
    by code_simp+
  have ok: "wf_set (box_set 7)" "length [-1 :: int, 1] \<le> totalVars (set_space (box_set 7))"
    "\<forall>p \<in> set (disjuncts (box_set 7)). length (poly_rows p) < kPolyMaxRowsPerSystem" by code_simp+
  have "nDims (set_space (box_set 7)) = 2" by code_simp
  with integerLe_exact [OF run(2) ok] run show ?thesis by simp
qed

section \<open>Legality\<close>

definition schedule_of :: "nat \<Rightarrow> nat \<Rightarrow> schedule_row list \<Rightarrow> poly_schedule" where
  "schedule_of depth n rows = \<lparr>ps_depth = depth, ps_nStmts = n, ps_rows = rows, ps_pivotDim = [0..<length rows],
     ps_parallel = map (\<lambda>_. False) rows, ps_vectorizable = map (\<lambda>_. False) rows\<rparr>"

text \<open>
  C13. The legality check is sound where its own run met neither of its two gaps. Take a schedule that
  the check accepts and a checked dependence that satisfies three conditions: its relation is within
  the size limits of the LP solver (\<open>lp_set\<close>); every row gives its source and its sink statement the
  same constant; and during the run over the rows no feasibility test of a slice failed and no
  least distance was a negative fraction (\<open>clean_rows\<close>). Then each pair of instances in the relation
  has its source strictly before its sink in schedule time, or at the same time with the source
  statement earlier in program order. Without the last two conditions illegal schedules are
  accepted, see \<open>verify_legality_unsound\<close> below.
\<close>
theorem verify_legality_sound:
  assumes "verifyScheduleLegality sc deps sched = Inr True" and "dep \<in> set deps"
    and "lp_set (2 * scop_depth sc) (dep_relation dep)" and "clean_rows (scop_depth sc) dep (ps_rows sched) (dep_relation dep)"
    and "\<forall>row \<in> set (ps_rows sched). row ! dep_dstStmt dep ! 0 = row ! dep_srcStmt dep ! 0"
    and "set_sat (dep_relation dep) (pair_point (scop_depth sc) x y)"
  shows "ord_class.lexordp (time_of (ps_rows sched) (scop_depth sc) (dep_srcStmt dep) x) (time_of (ps_rows sched) (scop_depth sc) (dep_dstStmt dep) y)
    \<or> time_of (ps_rows sched) (scop_depth sc) (dep_srcStmt dep) x = time_of (ps_rows sched) (scop_depth sc) (dep_dstStmt dep) y
      \<and> st_origOrder (scop_statements sc ! dep_srcStmt dep) < st_origOrder (scop_statements sc ! dep_dstStmt dep)"
proof -
  have legal: "dep_legal sc sched dep = Inr True"
    using assms(1,2) deps_legal_mem by (auto simp: verifyScheduleLegality_def split: if_splits)
  then obtain v where v: "check_rows (scop_depth sc) dep (ps_rows sched) (dep_relation dep) = Inr v"
    and verdict: "v \<noteq> Violated" by (fastforce simp: dep_legal_def mlk_try_Inr_iff)
  from check_rows_sound [OF v assms(3-6)] verdict consider (tied) s where "v = Tied s" "wf_set s"
      "set_sat s (pair_point (scop_depth sc) x y)"
      "time_of (ps_rows sched) (scop_depth sc) (dep_srcStmt dep) x = time_of (ps_rows sched) (scop_depth sc) (dep_dstStmt dep) y"
    | (before) "ord_class.lexordp (time_of (ps_rows sched) (scop_depth sc) (dep_srcStmt dep) x) (time_of (ps_rows sched) (scop_depth sc) (dep_dstStmt dep) y)"
    by blast
  then show ?thesis
  proof cases
    case tied
    with legal v obtain f where f: "set_feasibility s = Inr f" by (auto simp: dep_legal_def mlk_try_Inr_iff)
    moreover have "f \<noteq> FEmpty" using f set_feasibility_empty [OF _ tied(2)] tied(3) by blast
    ultimately show ?thesis using legal v tied(1,4)
      by (auto simp: dep_legal_def mlk_try_Inr_iff vec_at_Inr split: if_splits)
  qed simp
qed

text \<open>The pipeline on the producer and consumer of one loop, under the original order.\<close>

lemma verify_legality_sound_witness:
  "\<exists>sc deps. extractScop (chain_arena 0) = Inr sc \<and> computeDependences sc = Inr deps
     \<and> verifyScheduleLegality sc deps (schedule_of 1 2 [[[0, 1], [0, 1]]]) = Inr True
     \<and> (ord_class.lexordp (time_of [[[0, 1], [0, 1]]] 1 0 (\<lambda>_. 3)) (time_of [[[0, 1], [0, 1]]] 1 1 (\<lambda>_. 3))
        \<or> time_of [[[0, 1], [0, 1]]] 1 0 (\<lambda>_. 3) = time_of [[[0, 1], [0, 1]]] 1 1 (\<lambda>_. 3) \<and> (0 :: nat) < 1)"
proof -
  let ?s = "schedule_of 1 2 [[[0, 1], [0, 1]]]"
  have "result_ok (extractScop (chain_arena 0)) (\<lambda>sc. result_ok (computeDependences sc) (\<lambda>deps. let dep = deps ! 0 in
     verifyScheduleLegality sc deps ?s = Inr True \<and> 0 < length deps \<and> scop_depth sc = 1
     \<and> lp_set 2 (dep_relation dep) \<and> clean_rows 1 dep [[[0, 1], [0, 1]]] (dep_relation dep)
     \<and> dep_srcStmt dep = 0 \<and> dep_dstStmt dep = 1 \<and> st_origOrder (scop_statements sc ! 0) = 0 \<and> st_origOrder (scop_statements sc ! 1) = 1
     \<and> set_sat (dep_relation dep) (pair_point 1 (\<lambda>_. 3 :: int) (\<lambda>_. 3))))"
    by code_simp
  then obtain sc deps where run: "extractScop (chain_arena 0) = Inr sc" "computeDependences sc = Inr deps"
    and v: "verifyScheduleLegality sc deps ?s = Inr True" and d: "0 < length deps" "scop_depth sc = 1"
      "lp_set 2 (dep_relation (deps ! 0))" "clean_rows 1 (deps ! 0) [[[0, 1], [0, 1]]] (dep_relation (deps ! 0))"
      "dep_srcStmt (deps ! 0) = 0" "dep_dstStmt (deps ! 0) = 1" "st_origOrder (scop_statements sc ! 0) = 0"
      "st_origOrder (scop_statements sc ! 1) = 1" "set_sat (dep_relation (deps ! 0)) (pair_point 1 (\<lambda>_. 3 :: int) (\<lambda>_. 3))"
    unfolding Let_def by (blast dest: result_okD)
  have rows: "ps_rows ?s = [[[0, 1], [0, 1]]]" by (simp add: schedule_of_def)
  from verify_legality_sound [OF v nth_mem [OF d(1)], of "\<lambda>_. 3" "\<lambda>_. 3", unfolded rows] d
  have "ord_class.lexordp (time_of [[[0, 1], [0, 1]]] 1 0 (\<lambda>_. 3)) (time_of [[[0, 1], [0, 1]]] 1 1 (\<lambda>_. 3))
        \<or> time_of [[[0, 1], [0, 1]]] 1 0 (\<lambda>_. 3) = time_of [[[0, 1], [0, 1]]] 1 1 (\<lambda>_. 3) \<and> (0 :: nat) < 1"
    by (simp del: clean_rows.simps)
  with run v show ?thesis by blast
qed

text \<open>
  Two reductions read after their loop's accumulation: \<open>acc[a i] += A[i]; B[i] = acc[b i]\<close>. The
  analysis keeps every pair on a common element.
\<close>

definition chain_final :: "int \<Rightarrow> int \<Rightarrow> kernel_node list" where
  "chain_final a b = [copy_from 0 0,
     new_node\<lparr>kn_op := KStore, kn_bufferOut := 1, kn_outIndexCoeffs := [a], kn_accum := AccumAdd\<rparr>,
     new_node\<lparr>kn_op := KCompute, kn_exprs := [\<lparr>kx_op = Op_Neg, kx_a = (elem_at 1 0)\<lparr>opnd_idxCoeffs := [b]\<rparr>, kx_b = new_operand\<rparr>]\<rparr>,
     store_to 2 0, loop_over [0, 1, 2, 3]]"

definition accepted_backwards :: "kernel_node list \<Rightarrow> schedule_row list \<Rightarrow> int \<Rightarrow> int \<Rightarrow> bool" where
  "accepted_backwards nodes rows i j = result_ok (extractScop nodes) (\<lambda>sc. result_ok (computeDependences sc) (\<lambda>deps.
     verifyScheduleLegality sc deps (schedule_of 1 2 rows) = Inr True
     \<and> list_ex (\<lambda>dep. dep_srcStmt dep = 0 \<and> dep_dstStmt dep = 1 \<and> set_sat (dep_relation dep) (pair_point 1 (\<lambda>_. i) (\<lambda>_. j))
         \<and> ord_class.lexordp (time_of rows 1 1 (\<lambda>_. j)) (time_of rows 1 0 (\<lambda>_. i))) deps))"

text \<open>
  Outside those conditions illegal schedules are accepted. With a negative fractional minimum:
  the identity schedule is accepted although the read of iteration 2 precedes the accumulation
  of iteration 3 into the same element (the code tests the sign of integral minima only). With
  different row constants: the tie of a row is refined with the wrong sign, and a schedule that
  runs the read of iteration 0 before the accumulation of iteration 7 is accepted.
\<close>
lemma verify_legality_unsound:
  "accepted_backwards (chain_final 2 3) [[[0, 1], [0, 1]]] 3 2
   \<and> accepted_backwards (chain_final 0 0) [[[0, 1], [7, 1]], [[0, 1], [0, 1]]] 7 0"
  by code_simp

section \<open>Tiling\<close>

definition grid_arena :: "kernel_node list" where
  "grid_arena = [new_node\<lparr>kn_op := KCompute, kn_exprs := [\<lparr>kx_op = Op_Neg, kx_a = (elem_at 1 0)\<lparr>opnd_idxCoeffs := [8, 1]\<rparr>, kx_b = new_operand\<rparr>]\<rparr>,
     new_node\<lparr>kn_op := KStore, kn_bufferOut := 1, kn_outIndexCoeffs := [8, 1]\<rparr>, loop_over [0, 1], loop_over [2]]"

text \<open>The dependence of distance \<open>(a, b)\<close> on the \<open>8 \<times> 8\<close> grid, and points of it.\<close>

definition shift_dep :: "int \<Rightarrow> int \<Rightarrow> dependence" where
  "shift_dep a b = \<lparr>dep_srcStmt = 0, dep_dstStmt = 0, dep_srcAccess = 1, dep_dstAccess = 0, dep_dkind = Raw,
     dep_relation = \<lparr>set_space = pair_space 2, disjuncts = [addRowList
       [\<lparr>row_coeffs = [1, 0, 0, 0], row_constant = min 0 a, row_isEquality = False\<rparr>,
        \<lparr>row_coeffs = [-1, 0, 0, 0], row_constant = 7 - max 0 a, row_isEquality = False\<rparr>,
        \<lparr>row_coeffs = [0, 1, 0, 0], row_constant = min 0 b, row_isEquality = False\<rparr>,
        \<lparr>row_coeffs = [0, -1, 0, 0], row_constant = 7 - max 0 b, row_isEquality = False\<rparr>,
        \<lparr>row_coeffs = [-1, 0, 1, 0], row_constant = - a, row_isEquality = True\<rparr>,
        \<lparr>row_coeffs = [0, -1, 0, 1], row_constant = - b, row_isEquality = True\<rparr>] (new_poly (pair_space 2))]\<rparr>\<rparr>"

definition grid_schedule :: poly_schedule where
  "grid_schedule = schedule_of 2 1 [[[0, 1, 0]], [[0, 0, 1]]]"

definition tile_of :: "nat list \<Rightarrow> int \<Rightarrow> (nat \<Rightarrow> int) \<Rightarrow> int list" where
  "tile_of ds t x = map (\<lambda>p. x p div t) ds"



text \<open>
  That is less than rectangular tiling needs. With the dependences of distances \<open>(1, -1)\<close> and
  \<open>(0, 1)\<close> both rows are accepted, because the second row is checked on the pairs tied at the
  first one only; the tile of the sink \<open>(1, 3)\<close> then precedes the tile of its source \<open>(0, 4)\<close>.
\<close>
theorem tiling_reorders:
  "result_ok (extractScop grid_arena) (\<lambda>sc. result_ok (computeTiling sc [shift_dep 1 (-1), shift_dep 0 1] grid_schedule 4) (\<lambda>info.
     ti_tiled info \<and> ti_bandEnd info = 2 \<and> ti_tileSizes info = [4, 4]))
   \<and> set_sat (dep_relation (shift_dep 1 (-1))) (pair_point 2 (\<lambda>d. [0, 4 :: int] ! d) (\<lambda>d. [1, 3] ! d))
   \<and> ord_class.lexordp (tile_of [0, 1] 4 (\<lambda>d. [1, 3] ! d)) (tile_of [0, 1] 4 (\<lambda>d. [0, 4] ! d))"
  by (intro conjI; code_simp)

text \<open>A band that an illegal row ends is returned with \<open>tiled\<close> unset, although it has a row.\<close>

lemma tiling_band_dropped:
  "result_ok (extractScop grid_arena) (\<lambda>sc. computeTiling sc [shift_dep 0 (-1)] grid_schedule 4 =
     Inr \<lparr>ti_tiled = False, ti_bandEnd = 1, ti_tileSizes = [4]\<rparr>)"
  by code_simp

end
