(* ===== verification/Pluto.thy ===== *)
theory Pluto
  imports Schedule
begin

text \<open>
  The scheduler, \<open>polyhedral/src/pluto.cpp\<close>. One schedule row is the solution of an LP whose columns
  are the schedule coefficients of all statements, one epigraph per lv dependence, and Farkas
  multipliers; rows are chosen per pivot dimension, pivot orders are enumerated, and the best
  schedule wins. The LP budget that the source passes by pointer is threaded through. A lv
  dependence is the pair of the dependence and its slice instead of an index into two arrays.
\<close>

definition kRowCoeffBound :: int where "kRowCoeffBound = 32"
definition kPolyMaxScheduleRows :: nat where "kPolyMaxScheduleRows = 12"
definition kPolyMaxScheduleCoeff :: int where "kPolyMaxScheduleCoeff = 1024"
definition kPolyMaxOrderEnumerateDepth :: nat where "kPolyMaxOrderEnumerateDepth = 4"
definition kPolyMaxSchedulerLps :: nat where "kPolyMaxSchedulerLps = 4096"
definition kPolyMaxOrderLps :: nat where "kPolyMaxOrderLps = 512"

section \<open>Farkas blocks\<close>

type_synonym form_parts = "rational list list"

definition unit_at :: "nat \<Rightarrow> nat \<Rightarrow> int \<Rightarrow> rational list" where
  "unit_at n i k = (replicate n rat_zero)[i := fromInt k]"

definition add_eq :: "rational list \<Rightarrow> rational \<Rightarrow> linear_program \<Rightarrow> linear_program" where
  "add_eq row rhs lp = lp\<lparr>lp_eqRows := lp_eqRows lp @ [row], lp_eqRhs := lp_eqRhs lp @ [rhs]\<rparr>"

definition add_ge :: "rational list \<Rightarrow> rational \<Rightarrow> linear_program \<Rightarrow> linear_program" where
  "add_ge row rhs lp = lp\<lparr>lp_geRows := lp_geRows lp @ [row], lp_geRhs := lp_geRhs lp @ [rhs]\<rparr>"

definition distanceParts :: "nat \<Rightarrow> nat \<Rightarrow> nat \<Rightarrow> nat \<Rightarrow> nat \<Rightarrow> form_parts" where
  "distanceParts depth cps n srcStmt dstStmt =
     (let srcBase = srcStmt * cps; dstBase = dstStmt * cps in
      map (\<lambda>j. if j < depth then unit_at n (srcBase + 1 + j) (-1)
          else if j < depth * 2 then unit_at n (dstBase + 1 + (j - depth)) 1
          else (unit_at n dstBase 1)[srcBase := fromInt (-1)]) [0..<depth * 2 + 1])"

definition negateParts :: "form_parts \<Rightarrow> form_parts result" where
  "negateParts parts = map_res (map_res (\<lambda>v. mlk_try (attempt (ratNeg v)) (\<lambda>n.
     case n of None \<Rightarrow> Inl (Err ResourceExhausted) | Some x \<Rightarrow> Inr x))) parts"

definition farkas_coeff :: "polyhedron \<Rightarrow> nat \<Rightarrow> nat \<Rightarrow> int" where
  "farkas_coeff p j k = (let row = poly_rows p ! k in if j < totalVars (poly_space p) then row_coeffOf row j else row_constant row)"

definition farkas_eq :: "polyhedron \<Rightarrow> form_parts \<Rightarrow> nat \<Rightarrow> nat \<Rightarrow> rational list result" where
  "farkas_eq p parts base j =
     mlk_try (vec_at parts j) (\<lambda>part.
       fold_res (\<lambda>k eq. let rk = farkas_coeff p j k in
           if rk = 0 then Inr eq else mlk_try (plain64 (- rk)) (\<lambda>c. Inr (eq[base + k := fromInt c])))
         [0..<length (poly_rows p)]
         (map (\<lambda>col. if col < length part then part ! col else rat_zero) [0..<base + length (poly_rows p)]))"

definition appendFarkas :: "polyhedron \<Rightarrow> form_parts \<Rightarrow> int \<Rightarrow> linear_program \<Rightarrow> linear_program result" where
  "appendFarkas p parts shift lp =
     (let nPoly = totalVars (poly_space p); nRows = length (poly_rows p); base = lp_nVars lp; n = base + nRows;
          lp1 = fold (\<lambda>k l. if row_isEquality (poly_rows p ! k) then l else add_ge (unit_at n (base + k) 1) rat_zero l)
            [0..<nRows] (lp\<lparr>lp_nVars := n\<rparr>) in
      if n > kLpMaxVars then Inl (Err ResourceExhausted)
      else fold_res (\<lambda>j l. mlk_try (farkas_eq p parts base j) (\<lambda>eq.
             Inr (add_eq eq (if j = nPoly then fromInt shift else rat_zero) l))) [0..<nPoly + 1] lp1)"

section \<open>Realizing a row\<close>

definition normalizeRow :: "schedule_row \<Rightarrow> int \<Rightarrow> schedule_row result" where
  "normalizeRow row k =
     mlk_try (map_res (map_res (\<lambda>c. mulLimited c k)) row) (\<lambda>row.
       let g = fold (\<lambda>c g. ratGcd g c) (concat row) 0;
           row' = (if g > 1 then map (map (\<lambda>c. c sdiv g)) row else row) in
       if list_ex (\<lambda>c. c > kPolyMaxScheduleCoeff \<or> c < - kPolyMaxScheduleCoeff) (concat row') then Inl (Err ResourceExhausted)
       else Inr row')"

definition lcm_step :: "lp_solution \<Rightarrow> nat \<Rightarrow> int \<Rightarrow> int result" where
  "lcm_step sol i l =
     mlk_try (vec_at (sol_x sol) i) (\<lambda>v.
       if \<not> isInt v \<and> den v \<noteq> 0 then
         mlk_try (divLimited (den v) (ratGcd l (den v))) (\<lambda>q. mulLimited l q)
       else Inr l)"

definition scaled_entry :: "lp_solution \<Rightarrow> int \<Rightarrow> nat \<Rightarrow> int result" where
  "scaled_entry sol l i =
     mlk_try (vec_at (sol_x sol) i) (\<lambda>v. mlk_try (divLimited l (den v)) (\<lambda>factor. mulLimited (num v) factor))"

definition realizeRow :: "lp_solution \<Rightarrow> nat \<Rightarrow> nat \<Rightarrow> schedule_row result" where
  "realizeRow sol nStmts cps =
     mlk_try (fold_res (lcm_step sol) [0..<nStmts * cps] 1) (\<lambda>l.
     mlk_try (map_res (\<lambda>s. map_res (\<lambda>j. scaled_entry sol l (s * cps + j)) [0..<cps]) [0..<nStmts]) (\<lambda>row.
       normalizeRow row 1))"

fun compatible_statements :: "statement list \<Rightarrow> schedule_row \<Rightarrow> nat \<Rightarrow> bool result" where
  "compatible_statements [] row pv = Inr True"
| "compatible_statements (s # ss) row pv =
     mlk_try (rowEffectiveConst s row) (\<lambda>folded.
       if folded \<noteq> None then
         (if dimPinnedAt s pv = None then Inr False else compatible_statements ss row pv)
       else mlk_try (vec_at row (st_id s)) (\<lambda>cs.
         if pv + 1 < length cs \<and> cs ! (pv + 1) \<ge> 1 \<and> dimVaries s pv then compatible_statements ss row pv
         else Inr False))"

definition rowCodegenCompatible :: "scop \<Rightarrow> schedule_row \<Rightarrow> nat \<Rightarrow> bool result" where
  "rowCodegenCompatible sc row pv = compatible_statements (scop_statements sc) row pv"

fun realizableGate :: "scop \<Rightarrow> (dependence \<times> presburger) list \<Rightarrow> nat \<Rightarrow> bool result" where
  "realizableGate sc [] pv = Inr True"
| "realizableGate sc ((dep, sl) # lv) pv =
     mlk_try (attempt (pivotCoordDistForm sc dep pv)) (\<lambda>r.
       case r of
         None \<Rightarrow> Inr False
       | Some (form, k) \<Rightarrow>
           mlk_try (attempt (integerLeFormFeasible sl form k)) (\<lambda>f.
             if f \<noteq> Some FEmpty then Inr False else realizableGate sc lv pv))"

section \<open>The row LP\<close>

text \<open>The rows that do not depend on any polyhedron: shape, pivot, anchor, constant slots, bounds.\<close>

definition shape_rows_lp :: "nat \<Rightarrow> nat \<Rightarrow> bool list \<Rightarrow> nat \<Rightarrow> nat \<Rightarrow> linear_program \<Rightarrow> linear_program result" where
  "shape_rows_lp nStmts depth spent pv n lp =
     fold_res (\<lambda>(s, d) l. mlk_try (vec_at spent d) (\<lambda>sp.
         Inr (if sp \<or> d = pv then l else add_eq (unit_at n (s * (depth + 1) + 1 + d) 1) rat_zero l)))
       (List.product [0..<nStmts] [0..<depth]) lp"

definition pivot_rows_lp :: "nat \<Rightarrow> nat \<Rightarrow> nat \<Rightarrow> nat \<Rightarrow> linear_program \<Rightarrow> linear_program" where
  "pivot_rows_lp nStmts depth pv n lp =
     fold (\<lambda>s. add_ge (unit_at n (s * (depth + 1) + 1 + pv) 1) rat_zero) [0..<nStmts] lp"

definition const_rows_lp :: "statement list \<Rightarrow> nat \<Rightarrow> nat \<Rightarrow> nat \<Rightarrow> linear_program \<Rightarrow> linear_program" where
  "const_rows_lp ss depth pv n lp =
     fold (\<lambda>(s, st) l. if \<not> dimVaries st pv then l else add_eq (unit_at n (s * (depth + 1)) 1) rat_zero l)
       (enumerate 0 ss) lp"

definition bound_rows_lp :: "nat \<Rightarrow> nat \<Rightarrow> nat \<Rightarrow> linear_program \<Rightarrow> linear_program" where
  "bound_rows_lp nStmts depth n lp =
     fold (\<lambda>(s, j) l. add_ge (unit_at n (s * (depth + 1) + j) (-1)) (fromInt (- kRowCoeffBound))
           (add_ge (unit_at n (s * (depth + 1) + j) 1) (fromInt (- kRowCoeffBound)) l))
       (List.product [0..<nStmts] [0..<depth + 1]) lp"

definition base_lp :: "scop \<Rightarrow> bool list \<Rightarrow> nat \<Rightarrow> nat \<Rightarrow> nat \<Rightarrow> linear_program result" where
  "base_lp sc spent pv anchor n =
     (let depth = scop_depth sc; nStmts = length (scop_statements sc);
          lp = \<lparr>lp_nVars = n, lp_eqRows = [], lp_eqRhs = [], lp_geRows = [], lp_geRhs = [], lp_objective = []\<rparr> in
      mlk_try (shape_rows_lp nStmts depth spent pv n lp) (\<lambda>lp.
        Inr (bound_rows_lp nStmts depth n
          (const_rows_lp (scop_statements sc) depth pv n
          (add_eq (unit_at n (anchor * (depth + 1) + 1 + pv) 1) (fromInt 1)
          (pivot_rows_lp nStmts depth pv n lp))))))"

text \<open>\<open>theta_s(v) \<ge> 0\<close> over the feasible disjuncts of each domain.\<close>

definition theta_parts :: "statement \<Rightarrow> nat \<Rightarrow> nat \<Rightarrow> form_parts" where
  "theta_parts st cps n =
     map (\<lambda>j. if j < nDims (st_space st) then unit_at n (st_id st * cps + 1 + j) 1 else unit_at n (st_id st * cps) 1)
       [0..<nDims (st_space st) + 1]"

definition nonneg_disjunct :: "statement \<Rightarrow> nat \<Rightarrow> polyhedron \<Rightarrow> linear_program \<Rightarrow> linear_program result" where
  "nonneg_disjunct st cps dm lp =
     mlk_try (polyFeasible dm) (\<lambda>f.
       if \<not> f then Inr lp else appendFarkas dm (theta_parts st cps (lp_nVars lp)) 0 lp)"

definition nonneg_lp :: "statement list \<Rightarrow> nat \<Rightarrow> linear_program \<Rightarrow> linear_program result" where
  "nonneg_lp ss cps = fold_res (\<lambda>st. fold_res (nonneg_disjunct st cps) (disjuncts (st_domain st))) ss"

text \<open>One live slice: distance at least 0, and either at most 0 or below its epigraph.\<close>

definition epigraph_parts :: "form_parts \<Rightarrow> nat \<Rightarrow> nat \<Rightarrow> nat \<Rightarrow> form_parts result" where
  "epigraph_parts parts depth mCol n =
     map_res (\<lambda>j. mlk_try (vec_at parts j) (\<lambda>part.
       mlk_try (map_res (\<lambda>col. if col < length part then mlk_try (attempt (ratNeg (part ! col))) (\<lambda>x.
           case x of None \<Rightarrow> Inl (Err ResourceExhausted) | Some v \<Rightarrow> Inr v) else Inr rat_zero) [0..<n]) (\<lambda>row.
         Inr (if j = depth * 2 then row[mCol := fromInt 1] else row)))) [0..<depth * 2 + 1]"

definition dep_disjunct :: "nat \<Rightarrow> dependence \<Rightarrow> bool \<Rightarrow> nat \<Rightarrow> polyhedron \<Rightarrow> linear_program \<Rightarrow> linear_program result" where
  "dep_disjunct depth dep par mCol p lp =
     mlk_try (polyFeasible p) (\<lambda>f.
       if \<not> f then Inr lp
       else let parts = distanceParts depth (depth + 1) (lp_nVars lp) (dep_srcStmt dep) (dep_dstStmt dep) in
         mlk_try (appendFarkas p parts 0 lp) (\<lambda>lp.
           if par then mlk_try (negateParts parts) (\<lambda>neg. appendFarkas p neg 0 lp)
           else mlk_try (epigraph_parts parts depth mCol (lp_nVars lp)) (\<lambda>epi. appendFarkas p epi 0 lp)))"

definition dep_blocks :: "nat \<Rightarrow> bool \<Rightarrow> nat \<Rightarrow> (dependence \<times> presburger) list \<Rightarrow> linear_program \<Rightarrow> linear_program result" where
  "dep_blocks depth par baseCols lv =
     fold_res (\<lambda>(li, dep, sl). fold_res (dep_disjunct depth dep par (if par then 0 else baseCols + li)) (disjuncts sl))
       (enumerate 0 lv)"

definition epigraph_sum :: "nat \<Rightarrow> nat \<Rightarrow> nat \<Rightarrow> rational list" where
  "epigraph_sum n baseCols nLive = fold (\<lambda>li row. row[baseCols + li := fromInt 1]) [0..<nLive] (replicate n rat_zero)"

definition progress_lp :: "bool \<Rightarrow> nat \<Rightarrow> nat \<Rightarrow> linear_program \<Rightarrow> linear_program" where
  "progress_lp par baseCols nLive lp =
     (if par \<or> nLive = 0 then lp
      else let s = epigraph_sum (lp_nVars lp) baseCols nLive in (add_ge s (fromInt 1) lp)\<lparr>lp_objective := s\<rparr>)"

definition row_lp :: "scop \<Rightarrow> (dependence \<times> presburger) list \<Rightarrow> bool list \<Rightarrow> nat \<Rightarrow> nat \<Rightarrow> bool \<Rightarrow> linear_program result" where
  "row_lp sc lv spent pv anchor par =
     (let depth = scop_depth sc; baseCols = length (scop_statements sc) * (depth + 1);
          n = baseCols + (if par then 0 else length lv) in
      if n > kLpMaxVars then Inl (Err ResourceExhausted)
      else mlk_try (base_lp sc spent pv anchor n) (\<lambda>lp.
        mlk_try (nonneg_lp (scop_statements sc) (depth + 1) lp) (\<lambda>lp.
        mlk_try (dep_blocks depth par baseCols lv lp) (\<lambda>lp.
          Inr (progress_lp par baseCols (length lv) lp)))))"

text \<open>The row, or none when the LP is infeasible; the remaining budget also on a failure.\<close>

definition tryRowLp :: "scop \<Rightarrow> (dependence \<times> presburger) list \<Rightarrow> bool list \<Rightarrow> nat \<Rightarrow> nat \<Rightarrow> bool \<Rightarrow> nat
    \<Rightarrow> schedule_row option result \<times> nat" where
  "tryRowLp sc lv spent pv anchor par budget =
     (if budget = 0 then (Inr None, 0)
      else case mlk_try (row_lp sc lv spent pv anchor par) solveLp of
        Inl e \<Rightarrow> (Inl e, budget)
      | Inr sol \<Rightarrow>
          (if sol_status sol \<noteq> LpOptimal then Inr None
           else mlk_try (realizeRow sol (length (scop_statements sc)) (scop_depth sc + 1)) (\<lambda>r. Inr (Some r)),
           budget - 1))"

text \<open>
  The search of \<open>polyhedral/src/pluto.cpp\<close> around the row LP: the bookkeeping after a row, the row
  stages under a fixed pivot order, the score of a candidate, and the enumeration of pivot orders.
  \<open>std::next_permutation\<close> from the ascending order back to it is the list of permutations in
  lexicographic order. The 32-bit LP budget is subtracted from modulo 2^32, as the source does.
\<close>

section \<open>After a row\<close>

text \<open>Is the distance 0 at every integer point of the slice, as far as the code can tell?\<close>

definition integer_zero :: "presburger \<Rightarrow> int list \<Rightarrow> int \<Rightarrow> bool result" where
  "integer_zero sl dc dk =
     mlk_try (map_res (\<lambda>c. plain64 (- c)) dc) (\<lambda>neg.
     mlk_try (plain64 (- dk)) (\<lambda>nk.
     mlk_try (integerLeFormFeasible sl neg nk) (\<lambda>ge.
       if ge \<noteq> FEmpty then Inr False
       else mlk_try (integerLeFormFeasible sl dc dk) (\<lambda>le. Inr (le = FEmpty)))))"

text \<open>One unresolved dependence: its new state, whether it keeps the row parallel, the carried sum.\<close>

definition process_dep :: "schedule_row \<Rightarrow> nat \<Rightarrow> dependence \<Rightarrow> presburger \<Rightarrow> rational \<Rightarrow> (dep_state \<times> bool \<times> rational) result" where
  "process_dep row depth dep sl carried =
     mlk_try (distanceForm row dep depth) (\<lambda>(dc, dk).
     mlk_try (slice_min dc dk (disjuncts sl) None) (\<lambda>best.
       if (case best of None \<Rightarrow> False | Some m \<Rightarrow> isInt m \<and> num m < 0) then Inl (Err Internal)
       else if (case best of None \<Rightarrow> False | Some m \<Rightarrow> isInt m \<and> num m \<ge> 1) then
         mlk_try (ratAdd carried (the best)) (\<lambda>sum. Inr ((sl, True), False, sum))
       else mlk_try (if best = None then Inr True else integer_zero sl dc dk) (\<lambda>z.
         mlk_try (cut_state dc dk sl) (\<lambda>st. Inr (st, z, carried)))))"

fun processRow :: "dependence list \<Rightarrow> dep_state list \<Rightarrow> schedule_row \<Rightarrow> nat \<Rightarrow> rational \<Rightarrow> (bool \<times> dep_state list \<times> rational) result" where
  "processRow deps [] row depth carried = Inr (True, [], carried)"
| "processRow deps ((sl, resolved) # sts) row depth carried =
     (case deps of
        [] \<Rightarrow> Inl UndefinedBehaviour
      | dep # deps' \<Rightarrow>
          if resolved then mlk_try (processRow deps' sts row depth carried) (\<lambda>(par, sts', c).
            Inr (par, (sl, True) # sts', c))
          else mlk_try (process_dep row depth dep sl carried) (\<lambda>(st, z, c).
            mlk_try (processRow deps' sts row depth c) (\<lambda>(par, sts', c'). Inr (z \<and> par, st # sts', c'))))"

section \<open>Scores\<close>

record order_score =
  os_parallelRows :: nat
  os_vectorFit :: bool
  os_carriedTotal :: rational

record synth_outcome =
  so_sched :: poly_schedule
  so_carriedTotal :: rational

fun orderLexLess :: "nat list \<Rightarrow> nat list \<Rightarrow> bool" where
  "orderLexLess (x # xs) (y # ys) = (if x \<noteq> y then x < y else orderLexLess xs ys)"
| "orderLexLess [] ys = (ys \<noteq> [])"
| "orderLexLess (x # xs) [] = False"

definition scoreBetter :: "order_score \<Rightarrow> order_score \<Rightarrow> nat list \<Rightarrow> nat list \<Rightarrow> bool" where
  "scoreBetter a b orderA orderB =
     (if os_parallelRows a \<noteq> os_parallelRows b then os_parallelRows a > os_parallelRows b
      else if os_vectorFit a \<noteq> os_vectorFit b then os_vectorFit a
      else if \<not> ratEqual (os_carriedTotal a) (os_carriedTotal b) then ratLess (os_carriedTotal a) (os_carriedTotal b)
      else orderLexLess orderA orderB)"

definition unit_stride :: "int \<Rightarrow> bool" where
  "unit_stride c \<longleftrightarrow> c = 0 \<or> c = 1"

definition access_fits :: "nat \<Rightarrow> memory_access \<Rightarrow> bool" where
  "access_fits pv acc \<longleftrightarrow> map_outputs (acc_flatIndex acc) \<noteq> []
     \<and> unit_stride (expr_coeffOf (map_outputs (acc_flatIndex acc) ! 0) pv)"

definition store_fits :: "nat \<Rightarrow> statement \<Rightarrow> bool" where
  "store_fits pv s \<longleftrightarrow> \<not> pv < length (st_storeCoeffs s) \<or> unit_stride (st_storeCoeffs s ! pv)"

fun strides_fit :: "statement list \<Rightarrow> schedule_row \<Rightarrow> nat \<Rightarrow> bool result" where
  "strides_fit [] row pv = Inr True"
| "strides_fit (s # ss) row pv =
     mlk_try (rowEffectiveConst s row) (\<lambda>folded.
       if folded \<noteq> None then strides_fit ss row pv
       else if list_all (access_fits pv) (st_accesses s) \<and> store_fits pv s then strides_fit ss row pv
       else Inr False)"

definition innermostStrideFit :: "scop \<Rightarrow> poly_schedule \<Rightarrow> bool result" where
  "innermostStrideFit sc sched =
     (if ps_rows sched = [] \<or> ps_parallel sched = [] then Inr False
      else let last = length (ps_rows sched) - 1 in
        mlk_try (vec_at (ps_parallel sched) last) (\<lambda>par.
          if \<not> par then Inr False
          else mlk_try (vec_at (ps_pivotDim sched) last) (\<lambda>pv.
            strides_fit (scop_statements sc) (ps_rows sched ! last) pv)))"

definition scoreSchedule :: "scop \<Rightarrow> synth_outcome \<Rightarrow> order_score result" where
  "scoreSchedule sc cand =
     mlk_try (innermostStrideFit sc (so_sched cand)) (\<lambda>fit.
       Inr \<lparr>os_parallelRows = length (filter id (ps_parallel (so_sched cand))), os_vectorFit = fit,
            os_carriedTotal = so_carriedTotal cand\<rparr>)"

section \<open>Rows under a fixed order\<close>

definition dim_varies_somewhere :: "scop \<Rightarrow> nat \<Rightarrow> bool" where
  "dim_varies_somewhere sc d \<longleftrightarrow> list_ex (\<lambda>s. dimVaries s d) (scop_statements sc)"

fun next_pivot :: "scop \<Rightarrow> nat list \<Rightarrow> bool list \<Rightarrow> (nat option \<times> bool list) result" where
  "next_pivot sc [] spent = Inr (None, spent)"
| "next_pivot sc (p # order) spent =
     mlk_try (vec_at spent p) (\<lambda>sp.
       if sp then next_pivot sc order spent
       else if dim_varies_somewhere sc p then Inr (Some p, spent)
       else next_pivot sc order (spent[p := True]))"

definition identity_row :: "nat \<Rightarrow> nat \<Rightarrow> nat \<Rightarrow> schedule_row" where
  "identity_row nStmts cps pv = replicate nStmts ((replicate cps 0)[pv + 1 := 1])"

text \<open>The first anchor whose LP row is compatible and realizable.\<close>

fun try_anchors :: "scop \<Rightarrow> (dependence \<times> presburger) list \<Rightarrow> bool list \<Rightarrow> nat \<Rightarrow> bool \<Rightarrow> (nat \<times> statement) list \<Rightarrow> nat
    \<Rightarrow> (schedule_row option \<times> nat) result" where
  "try_anchors sc lv spent pv par [] budget = Inr (None, budget)"
| "try_anchors sc lv spent pv par ((a, s) # as) budget =
     (if \<not> dimVaries s pv then try_anchors sc lv spent pv par as budget
      else let (r, budget') = tryRowLp sc lv spent pv a par budget in
        mlk_try (attempt r) (\<lambda>row.
          case row of
            None \<Rightarrow> try_anchors sc lv spent pv par as budget'
          | Some None \<Rightarrow> try_anchors sc lv spent pv par as budget'
          | Some (Some row) \<Rightarrow>
              mlk_try (rowCodegenCompatible sc row pv) (\<lambda>ok.
                if \<not> ok then try_anchors sc lv spent pv par as budget'
                else mlk_try (realizableGate sc lv pv) (\<lambda>gate.
                  if gate then Inr (Some row, budget') else try_anchors sc lv spent pv par as budget'))))"

definition choose_row :: "scop \<Rightarrow> (dependence \<times> presburger) list \<Rightarrow> bool list \<Rightarrow> nat \<Rightarrow> nat \<Rightarrow> (schedule_row \<times> nat) result" where
  "choose_row sc lv spent pv budget =
     (let nStmts = length (scop_statements sc); ident = identity_row nStmts (scop_depth sc + 1) pv;
          anchors = enumerate 0 (scop_statements sc) in
      if lv = [] then Inr (ident, budget)
      else mlk_try (try_anchors sc lv spent pv True anchors budget) (\<lambda>(r1, b1).
        case r1 of
          Some row \<Rightarrow> Inr (row, b1)
        | None \<Rightarrow>
            mlk_try (try_anchors sc lv spent pv False anchors b1) (\<lambda>(r2, b2).
              case r2 of Some row \<Rightarrow> Inr (row, b2) | None \<Rightarrow> Inr (ident, b2))))"

record synth_state =
  ss_rows :: "schedule_row list"
  ss_pivotDim :: "nat list"
  ss_parallel :: "bool list"
  ss_states :: "dep_state list"
  ss_carried :: rational
  ss_spent :: "bool list"
  ss_budget :: nat

definition live_deps :: "dependence list \<Rightarrow> dep_state list \<Rightarrow> (dependence \<times> presburger) list" where
  "live_deps deps sts = map (\<lambda>(d, sl, r). (d, sl)) (filter (\<lambda>(d, sl, r). \<not> r) (zip deps sts))"

text \<open>
  The row loop with \<open>n\<close> rows left. The outcome is none when the order is rejected; the budget that
  the caller charges is the one left then.
\<close>

fun synth_rows :: "nat \<Rightarrow> scop \<Rightarrow> dependence list \<Rightarrow> nat list \<Rightarrow> synth_state \<Rightarrow> (synth_state option \<times> nat) result" where
  "synth_rows 0 sc deps order st = Inr (Some st, ss_budget st)"
| "synth_rows (Suc n) sc deps order st =
     mlk_try (next_pivot sc order (ss_spent st)) (\<lambda>(pivot, spent).
       case pivot of
         None \<Rightarrow> Inr (Some (st\<lparr>ss_spent := spent\<rparr>), ss_budget st)
       | Some pv \<Rightarrow>
           mlk_try (choose_row sc (live_deps deps (ss_states st)) spent pv (ss_budget st)) (\<lambda>(row, budget).
           mlk_try (attempt (processRow deps (ss_states st) row (scop_depth sc) (ss_carried st))) (\<lambda>res.
             case res of
               None \<Rightarrow> Inr (None, budget)
             | Some (par, sts, carried) \<Rightarrow>
                 synth_rows n sc deps order
                   \<lparr>ss_rows = ss_rows st @ [row], ss_pivotDim = ss_pivotDim st @ [pv], ss_parallel = ss_parallel st @ [par],
                    ss_states = sts, ss_carried = carried, ss_spent = spent[pv := True], ss_budget = budget\<rparr>)))"

definition last_parallel :: "bool list \<Rightarrow> bool list" where
  "last_parallel par =
     (case find_index id (rev par) of
        None \<Rightarrow> replicate (length par) False
      | Some i \<Rightarrow> (replicate (length par) False)[length par - 1 - i := True])"

definition synthesizeWithOrder :: "scop \<Rightarrow> dependence list \<Rightarrow> nat list \<Rightarrow> nat \<Rightarrow> (synth_outcome option \<times> nat) result" where
  "synthesizeWithOrder sc deps order budget =
     mlk_try (synth_rows kPolyMaxScheduleRows sc deps order
       \<lparr>ss_rows = [], ss_pivotDim = [], ss_parallel = [], ss_states = map (\<lambda>d. (dep_relation d, False)) deps,
        ss_carried = rat_zero, ss_spent = replicate (scop_depth sc) False, ss_budget = budget\<rparr>) (\<lambda>(r, b).
       Inr (map_option (\<lambda>st. \<lparr>so_sched = \<lparr>ps_depth = scop_depth sc, ps_nStmts = length (scop_statements sc),
           ps_rows = ss_rows st, ps_pivotDim = ss_pivotDim st, ps_parallel = ss_parallel st,
           ps_vectorizable = last_parallel (ss_parallel st)\<rparr>, so_carriedTotal = ss_carried st\<rparr>) r, b))"

section \<open>The order search\<close>

record search_state =
  se_globalLps :: nat
  se_best :: "(synth_outcome \<times> order_score \<times> nat list) option"

definition charge_budget :: "nat \<Rightarrow> nat \<Rightarrow> nat" where
  "charge_budget globalLps orderLps = u32 (globalLps + 4294967296 - (kPolyMaxOrderLps - orderLps))"

definition consider_order :: "scop \<Rightarrow> dependence list \<Rightarrow> nat list \<Rightarrow> search_state \<Rightarrow> search_state result" where
  "consider_order sc deps order se =
     mlk_try (synthesizeWithOrder sc deps order (min (se_globalLps se) kPolyMaxOrderLps)) (\<lambda>(cand, orderLps).
       let se = se\<lparr>se_globalLps := charge_budget (se_globalLps se) orderLps\<rparr> in
       case cand of
         None \<Rightarrow> Inr se
       | Some out \<Rightarrow>
           mlk_try (scheduleCodegenShape sc (so_sched out)) (\<lambda>shape.
             if \<not> shape then Inr se
             else mlk_try (scoreSchedule sc out) (\<lambda>score.
               case se_best se of
                 None \<Rightarrow> Inr (se\<lparr>se_best := Some (out, score, order)\<rparr>)
               | Some (_, bestScore, bestOrder) \<Rightarrow>
                   Inr (if scoreBetter score bestScore order bestOrder then se\<lparr>se_best := Some (out, score, order)\<rparr> else se))))"

fun consider_orders :: "scop \<Rightarrow> dependence list \<Rightarrow> nat list list \<Rightarrow> search_state \<Rightarrow> search_state result" where
  "consider_orders sc deps [] se = Inr se"
| "consider_orders sc deps (order # orders) se =
     mlk_try (consider_order sc deps order se) (\<lambda>se.
       if se_globalLps se = 0 then Inr se else consider_orders sc deps orders se)"

function lex_perms :: "nat list \<Rightarrow> nat list list" where
  "lex_perms [] = [[]]"
| "lex_perms (x # xs) = concat (map (\<lambda>y. map ((#) y) (lex_perms (remove1 y (x # xs)))) (x # xs))"
  by pat_completeness auto
termination
  by (relation "measure length") (auto simp: length_remove1 dest: length_pos_if_in_set)

text \<open>One greedy position: every unused dimension tried next, then one fixed.\<close>

definition greedy_orders :: "nat list \<Rightarrow> nat list \<Rightarrow> nat list list" where
  "greedy_orders varying prefix =
     map (\<lambda>c. prefix @ [c] @ filter (\<lambda>d. d \<notin> set prefix \<and> d \<noteq> c) varying) (filter (\<lambda>c. c \<notin> set prefix) varying)"

definition greedy_choice :: "nat list \<Rightarrow> nat list \<Rightarrow> search_state \<Rightarrow> nat option" where
  "greedy_choice varying prefix se =
     (let r = length prefix; bestOrder = (case se_best se of None \<Rightarrow> [] | Some (_, _, order) \<Rightarrow> order) in
      if length bestOrder > r \<and> bestOrder ! r \<notin> set prefix then Some (bestOrder ! r)
      else find (\<lambda>c. c \<notin> set prefix) varying)"

fun greedy_search :: "nat \<Rightarrow> scop \<Rightarrow> dependence list \<Rightarrow> nat list \<Rightarrow> nat list \<Rightarrow> search_state \<Rightarrow> search_state result" where
  "greedy_search 0 sc deps varying prefix se = Inr se"
| "greedy_search (Suc n) sc deps varying prefix se =
     mlk_try (consider_orders sc deps (greedy_orders varying prefix) se) (\<lambda>se.
       case greedy_choice varying prefix se of
         None \<Rightarrow> Inr se
       | Some c \<Rightarrow> greedy_search n sc deps varying (prefix @ [c]) se)"

definition computePlutoSchedule :: "scop \<Rightarrow> dependence list \<Rightarrow> poly_schedule result" where
  "computePlutoSchedule sc deps =
     (if scop_depth sc = 0 \<or> scop_statements sc = [] then Inl (Err InvalidArgument)
      else let varying = filter (dim_varies_somewhere sc) [0..<scop_depth sc];
               start = \<lparr>se_globalLps = kPolyMaxSchedulerLps, se_best = None\<rparr> in
        if varying = [] then Inl (Err InvalidArgument)
        else mlk_try (if length varying \<le> kPolyMaxOrderEnumerateDepth then consider_orders sc deps (lex_perms varying) start
               else greedy_search (length varying) sc deps varying [] start) (\<lambda>se.
          case se_best se of
            None \<Rightarrow> Inl (Err UnsupportedCapability)
          | Some (out, _, _) \<Rightarrow> Inr (so_sched out)))"

end
