(* ===== verification/Pluto_Laws.thy ===== *)
theory Pluto_Laws
  imports Pluto Schedule_Laws Scop_Laws
begin

text \<open>
  The row LP means what the scheduler wants: every solution keeps each live distance nonnegative
  (zero in the parallel search) and each statement's time nonnegative, has the triangular shape of
  the pivot, and is realized as a positive integer multiple.
\<close>

section \<open>Solutions of a growing program\<close>

text \<open>The value of a row at a column valuation, and the rows with their right-hand sides.\<close>

definition pval :: "rational list \<Rightarrow> (nat \<Rightarrow> rat) \<Rightarrow> rat" where
  "pval row x = (\<Sum>k<length row. rat_val (row ! k) * x k)"

definition wf_rows :: "linear_program \<Rightarrow> bool" where
  "wf_rows lp \<longleftrightarrow> length (lp_eqRows lp) = length (lp_eqRhs lp) \<and> length (lp_geRows lp) = length (lp_geRhs lp)
     \<and> (\<forall>r \<in> set (lp_eqRows lp) \<union> set (lp_geRows lp). length r \<le> lp_nVars lp)"

definition sat_lp :: "linear_program \<Rightarrow> (nat \<Rightarrow> rat) \<Rightarrow> bool" where
  "sat_lp lp x \<longleftrightarrow> (\<forall>(r, b) \<in> set (zip (lp_eqRows lp) (lp_eqRhs lp)). pval r x = rat_val b)
     \<and> (\<forall>(r, b) \<in> set (zip (lp_geRows lp) (lp_geRhs lp)). rat_val b \<le> pval r x)"

lemma pval_lprow: "length r \<le> n \<Longrightarrow> lprow n r x = pval r x"
  unfolding lprow_def pval_def by (rule sum.mono_neutral_cong_right) (auto simp: lpcoef_def)

lemma ball_zip: "length R = length B \<Longrightarrow> (\<forall>(r, b) \<in> set (zip R B). P r b) \<longleftrightarrow> (\<forall>i < length R. P (R ! i) (B ! i))"
  by (fastforce simp: set_zip)

lemma sat_lp_feasible:
  assumes "wf_rows lp"
  shows "feasible_lp lp x \<longleftrightarrow> sat_lp lp x"
proof -
  have row: "lprow (lp_nVars lp) r x = pval r x" if "r \<in> set (lp_eqRows lp) \<union> set (lp_geRows lp)" for r
    by (rule pval_lprow) (use assms that in \<open>auto simp: wf_rows_def\<close>)
  have len: "length (lp_eqRows lp) = length (lp_eqRhs lp)" "length (lp_geRows lp) = length (lp_geRhs lp)"
    using assms by (auto simp: wf_rows_def)
  show ?thesis
    unfolding feasible_lp_def sat_lp_def ball_zip [OF len(1)] ball_zip [OF len(2)] using row len by (auto simp: lpcoef_def)
qed

lemma pval_unit: "i < n \<Longrightarrow> pval (unit_at n i k) x = of_int k * x i"
proof -
  assume "i < n"
  then have "pval (unit_at n i k) x = (\<Sum>j<n. if j = i then of_int k * x i else 0)"
    unfolding pval_def unit_at_def by (intro sum.cong) (auto simp: nth_list_update)
  with \<open>i < n\<close> show ?thesis by simp
qed

lemma length_unit_at [simp]: "length (unit_at n i k) = n"
  by (simp add: unit_at_def)

text \<open>What a building step does: it keeps the rows it found, and its result says more.\<close>

definition grows :: "linear_program \<Rightarrow> linear_program \<Rightarrow> bool" where
  "grows lp lp' \<longleftrightarrow> (wf_rows lp \<longrightarrow> wf_rows lp') \<and> lp_nVars lp \<le> lp_nVars lp' \<and> (\<forall>x. wf_rows lp \<longrightarrow> sat_lp lp' x \<longrightarrow> sat_lp lp x)"

lemma grows_widen: "grows lp (lp\<lparr>lp_nVars := lp_nVars lp + m\<rparr>)"
  by (auto simp: grows_def wf_rows_def sat_lp_def intro: trans_le_add1)

lemma grows_refl [simp]: "grows lp lp"
  by (simp add: grows_def)

lemma grows_trans: "grows a b \<Longrightarrow> grows b c \<Longrightarrow> grows a c"
  by (auto simp: grows_def)

lemma add_eq_spec:
  "wf_rows lp \<Longrightarrow> sat_lp (add_eq r b lp) x \<longleftrightarrow> sat_lp lp x \<and> pval r x = rat_val b"
  "length r \<le> lp_nVars lp \<Longrightarrow> grows lp (add_eq r b lp)"
  "lp_nVars (add_eq r b lp) = lp_nVars lp"
  by (auto simp: add_eq_def sat_lp_def wf_rows_def grows_def)

lemma add_ge_spec:
  "wf_rows lp \<Longrightarrow> sat_lp (add_ge r b lp) x \<longleftrightarrow> sat_lp lp x \<and> rat_val b \<le> pval r x"
  "length r \<le> lp_nVars lp \<Longrightarrow> grows lp (add_ge r b lp)"
  "lp_nVars (add_ge r b lp) = lp_nVars lp"
  by (auto simp: add_ge_def sat_lp_def wf_rows_def grows_def)

text \<open>Loops of such steps: each step's fact holds at every solution of the result.\<close>

lemma fold_res_grows:
  assumes "fold_res f xs lp = Inr lp'" and "wf_rows lp" and "I lp"
    and "\<And>x l l'. x \<in> set xs \<Longrightarrow> wf_rows l \<Longrightarrow> I l \<Longrightarrow> f x l = Inr l' \<Longrightarrow> grows l l' \<and> I l' \<and> (\<forall>v. sat_lp l' v \<longrightarrow> P x v)"
  shows "grows lp lp' \<and> I lp' \<and> (\<forall>x \<in> set xs. \<forall>v. sat_lp lp' v \<longrightarrow> P x v)"
  using assms
proof (induction xs arbitrary: lp)
  case (Cons x xs)
  from Cons.prems(1) obtain l where l: "f x lp = Inr l" and r: "fold_res f xs l = Inr lp'" by (auto simp: mlk_try_Inr_iff)
  have s: "grows lp l \<and> I l \<and> (\<forall>v. sat_lp l v \<longrightarrow> P x v)" using Cons.prems(4) [OF _ Cons.prems(2,3) l] by simp
  then have w: "wf_rows l" using Cons.prems(2) by (simp add: grows_def)
  have "grows l lp' \<and> I lp' \<and> (\<forall>x \<in> set xs. \<forall>v. sat_lp lp' v \<longrightarrow> P x v)"
    by (rule Cons.IH [OF r w]) (use s Cons.prems(4) in auto)
  with s w show ?case using grows_trans [of lp l lp'] by (auto simp: grows_def)
qed simp

lemma fold_grows:
  assumes "wf_rows lp" and "I lp"
    and "\<And>x l. x \<in> set xs \<Longrightarrow> wf_rows l \<Longrightarrow> I l \<Longrightarrow> grows l (f x l) \<and> I (f x l) \<and> (\<forall>v. sat_lp (f x l) v \<longrightarrow> P x v)"
  shows "grows lp (fold f xs lp) \<and> I (fold f xs lp) \<and> (\<forall>x \<in> set xs. \<forall>v. sat_lp (fold f xs lp) v \<longrightarrow> P x v)"
proof -
  have "fold_res (\<lambda>x l. Inr (f x l)) xs lp = Inr (fold f xs lp)" for xs lp by (induction xs arbitrary: lp) auto
  from fold_res_grows [OF this assms(1), where I = I and P = P] assms(2,3) show ?thesis by auto
qed

section \<open>Farkas blocks\<close>

text \<open>The value of the affine form that the parts describe, at columns \<open>x\<close> and a point \<open>v\<close>.\<close>

definition form_at :: "form_parts \<Rightarrow> nat \<Rightarrow> (nat \<Rightarrow> rat) \<Rightarrow> (nat \<Rightarrow> rat) \<Rightarrow> rat" where
  "form_at parts n x v = (\<Sum>j<n. pval (parts ! j) x * v j) + pval (parts ! n) x"

lemma farkas_eq_spec:
  assumes "farkas_eq p parts base j = Inr eq" and "length (parts ! j) \<le> base"
  shows "j < length parts \<and> length eq = base + length (poly_rows p)
    \<and> pval eq x = pval (parts ! j) x - (\<Sum>k<length (poly_rows p). of_int (farkas_coeff p j k) * x (base + k))"
proof -
  let ?n = "length (poly_rows p)" and ?part = "parts ! j"
  let ?f = "\<lambda>k eq. let rk = farkas_coeff p j k in
           if rk = 0 then Inr eq else mlk_try (plain64 (- rk)) (\<lambda>c. Inr (eq[base + k := fromInt c]))"
  let ?e0 = "map (\<lambda>col. if col < length ?part then ?part ! col else rat_zero) [0..<base + ?n]"
  from assms(1) have jl: "j < length parts" and run: "fold_res ?f [0..<?n] ?e0 = Inr eq"
    by (auto simp: farkas_eq_def mlk_try_Inr_iff vec_at_Inr)
  have "fold_res ?f [0..<m] ?e0 = Inr e \<Longrightarrow> m \<le> ?n \<Longrightarrow> length e = base + ?n
      \<and> (\<forall>i < base. e ! i = ?e0 ! i) \<and> (\<forall>k < ?n. rat_val (e ! (base + k)) = (if k < m then - of_int (farkas_coeff p j k) else 0))" for m e
  proof (induction m arbitrary: e)
    case 0
    then show ?case using assms(2) by auto
  next
    case (Suc m)
    from Suc.prems(1) obtain u where u: "fold_res ?f [0..<m] ?e0 = Inr u" and st: "?f m u = Inr e" by (auto simp: fold_res_snoc_Inr)
    from st have e: "e = (if farkas_coeff p j m = 0 then u else u[base + m := fromInt (- farkas_coeff p j m)])"
      by (auto simp: Let_def mlk_try_Inr_iff plain64_Inr split: if_splits)
    show ?case using Suc.IH [OF u] Suc.prems(2) unfolding e by (auto simp: nth_list_update less_Suc_eq)
  qed
  from this [OF run] have e: "length eq = base + ?n" "\<And>i. i < base \<Longrightarrow> eq ! i = ?e0 ! i"
    "\<And>k. k < ?n \<Longrightarrow> rat_val (eq ! (base + k)) = - of_int (farkas_coeff p j k)" by auto
  have "pval eq x = (\<Sum>i<base. rat_val (eq ! i) * x i) + (\<Sum>k<?n. rat_val (eq ! (base + k)) * x (base + k))"
    unfolding pval_def e(1) by (rule sum_add_range)
  also have "(\<Sum>i<base. rat_val (eq ! i) * x i) = pval ?part x"
    unfolding pval_def by (rule sum.mono_neutral_cong_right) (use assms(2) e(2) in auto)
  also have "(\<Sum>k<?n. rat_val (eq ! (base + k)) * x (base + k)) = - (\<Sum>k<?n. of_int (farkas_coeff p j k) * x (base + k))"
    unfolding sum_negf [symmetric] by (rule sum.cong) (use e(3) in auto)
  finally show ?thesis using jl e(1) by simp
qed

lemma appendFarkas_spec:
  assumes run: "appendFarkas p parts 0 lp = Inr lp'" and wf: "wf_rows lp" and p: "wf_poly p" "\<not> isEmptyFlag p"
    and parts: "\<forall>j \<le> totalVars (poly_space p). length (parts ! j) \<le> lp_nVars lp"
  shows "grows lp lp' \<and> lp_nVars lp' = lp_nVars lp + length (poly_rows p) \<and> lp_nVars lp' \<le> kLpMaxVars
    \<and> (\<forall>x v. sat_lp lp' x \<longrightarrow> poly_sat p v \<longrightarrow> 0 \<le> form_at parts (totalVars (poly_space p)) x v)"
proof -
  let ?n = "totalVars (poly_space p)" and ?m = "length (poly_rows p)" and ?b = "lp_nVars lp"
  let ?g = "\<lambda>k l. if row_isEquality (poly_rows p ! k) then l else add_ge (unit_at (?b + ?m) (?b + k) 1) rat_zero l"
  let ?lp0 = "lp\<lparr>lp_nVars := ?b + ?m\<rparr>" and ?f = "\<lambda>j l. mlk_try (farkas_eq p parts ?b j) (\<lambda>eq.
             Inr (add_eq eq (if j = ?n then fromInt 0 else rat_zero) l))"
  from run have f: "fold_res ?f [0..<?n + 1] (fold ?g [0..<?m] ?lp0) = Inr lp'" and le: "?b + ?m \<le> kLpMaxVars"
    by (auto simp: appendFarkas_def Let_def split: if_splits)
  have g0: "grows lp ?lp0" by (rule grows_widen)
  then have w0: "wf_rows ?lp0" using wf by (simp add: grows_def)
  have g: "grows ?lp0 (fold ?g [0..<?m] ?lp0) \<and> lp_nVars (fold ?g [0..<?m] ?lp0) = ?b + ?m
      \<and> (\<forall>k \<in> set [0..<?m]. \<forall>x. sat_lp (fold ?g [0..<?m] ?lp0) x \<longrightarrow> row_isEquality (poly_rows p ! k) \<or> 0 \<le> x (?b + k))"
    by (rule fold_grows [where I = "\<lambda>l. lp_nVars l = ?b + ?m", OF w0]) (auto simp: add_ge_spec pval_unit)
  then have w1: "wf_rows (fold ?g [0..<?m] ?lp0)" using w0 by (simp add: grows_def)
  have h: "grows (fold ?g [0..<?m] ?lp0) lp' \<and> lp_nVars lp' = ?b + ?m \<and> (\<forall>j \<in> set [0..<?n + 1]. \<forall>x. sat_lp lp' x \<longrightarrow>
      pval (parts ! j) x = (\<Sum>k<?m. of_int (farkas_coeff p j k) * x (?b + k)))"
  proof (rule fold_res_grows [where I = "\<lambda>l. lp_nVars l = ?b + ?m", OF f w1])
    fix j l l' assume j: "j \<in> set [0..<?n + 1]" and l: "wf_rows l" "lp_nVars l = ?b + ?m" and st: "?f j l = Inr l'"
    from st obtain eq where eq: "farkas_eq p parts ?b j = Inr eq" and l': "l' = add_eq eq (if j = ?n then fromInt 0 else rat_zero) l"
      by (auto simp: mlk_try_Inr_iff)
    have z: "rat_val (if j = ?n then fromInt 0 else rat_zero) = 0" by simp
    note fe = farkas_eq_spec [OF eq]
    have pl: "length (parts ! j) \<le> ?b" using parts j by auto
    have "grows l l'" unfolding l' by (rule add_eq_spec(2)) (use fe [OF pl] l(2) in simp)
    moreover have "pval (parts ! j) x = (\<Sum>k<?m. of_int (farkas_coeff p j k) * x (?b + k))" if "sat_lp l' x" for x
      using that fe [OF pl, of x] unfolding l' add_eq_spec(1) [OF l(1)] z by simp
    ultimately show "grows l l' \<and> lp_nVars l' = ?b + ?m \<and> (\<forall>x. sat_lp l' x \<longrightarrow>
      pval (parts ! j) x = (\<Sum>k<?m. of_int (farkas_coeff p j k) * x (?b + k)))" using l(2) by (simp add: l' add_eq_spec(3))
  qed (use g in simp)
  have nonneg: "0 \<le> form_at parts ?n x v" if x: "sat_lp lp' x" and v: "poly_sat p v" for x v
  proof -
    have x1: "sat_lp (fold ?g [0..<?m] ?lp0) x" using h w1 x by (auto simp: grows_def)
    have "form_at parts ?n x v = (\<Sum>j<?n. (\<Sum>k<?m. of_int (farkas_coeff p j k) * x (?b + k)) * v j)
        + (\<Sum>k<?m. of_int (farkas_coeff p ?n k) * x (?b + k))"
      unfolding form_at_def using h x by simp
    also have "\<dots> = (\<Sum>k<?m. x (?b + k) * ((\<Sum>j<?n. of_int (farkas_coeff p j k) * v j) + of_int (farkas_coeff p ?n k)))"
      unfolding sum_distrib_right sum_distrib_left distrib_left sum.distrib
      by (subst sum.swap) (simp add: mult_ac)
    also have "0 \<le> \<dots>"
    proof (rule sum_nonneg)
      fix k assume "k \<in> {..<?m}"
      then have k: "k < ?m" by simp
      let ?r = "poly_rows p ! k"
      have lr: "length (row_coeffs ?r) = ?n" using wf_polyD [OF p nth_mem [OF k]] .
      have "(\<Sum>j<?n. of_int (farkas_coeff p j k) * v j) + of_int (farkas_coeff p ?n k) = row_val ?r v"
        by (simp add: farkas_coeff_def row_val_def lin_def lr row_coeffOf_def)
      moreover have "row_sat ?r v" using v k by (simp add: poly_sat_def rows_sat_def)
      moreover have "row_isEquality ?r \<or> 0 \<le> x (?b + k)" using g x1 k by auto
      ultimately show "0 \<le> x (?b + k) * ((\<Sum>j<?n. of_int (farkas_coeff p j k) * v j) + of_int (farkas_coeff p ?n k))"
        by (auto simp: row_sat_def split: if_splits)
    qed
    finally show ?thesis .
  qed
  have nv: "lp_nVars lp' = ?b + ?m" using h by blast
  show ?thesis unfolding nv
    using grows_trans [OF g0 grows_trans [OF conjunct1 [OF g] conjunct1 [OF h]]] le nonneg by simp
qed

section \<open>The meaning of the row LP\<close>

text \<open>The time of an instance under the columns of a solution.\<close>

definition col_theta :: "(nat \<Rightarrow> rat) \<Rightarrow> nat \<Rightarrow> nat \<Rightarrow> (nat \<Rightarrow> rat) \<Rightarrow> rat" where
  "col_theta x depth s v = x (s * (depth + 1)) + (\<Sum>d<depth. x (s * (depth + 1) + 1 + d) * v d)"

definition col_dist :: "(nat \<Rightarrow> rat) \<Rightarrow> nat \<Rightarrow> dependence \<Rightarrow> (nat \<Rightarrow> rat) \<Rightarrow> rat" where
  "col_dist x depth dep v = col_theta x depth (dep_dstStmt dep) (\<lambda>d. v (depth + d)) - col_theta x depth (dep_srcStmt dep) v"

text \<open>The distance as the parts encode it: for a self dependence they leave the constant in.\<close>

definition coded_dist :: "(nat \<Rightarrow> rat) \<Rightarrow> nat \<Rightarrow> dependence \<Rightarrow> (nat \<Rightarrow> rat) \<Rightarrow> rat" where
  "coded_dist x depth dep v = col_dist x depth dep v
     - (if dep_srcStmt dep = dep_dstStmt dep then x (dep_srcStmt dep * (depth + 1)) else 0)"

lemma column_bound:
  fixes s nS j depth :: nat
  assumes "s < nS" and "j \<le> depth"
  shows "s * (depth + 1) + j < nS * (depth + 1)"
proof -
  from assms have "s * (depth + 1) + j < Suc s * (depth + 1)" "Suc s * (depth + 1) \<le> nS * (depth + 1)" by (simp, intro mult_le_mono1) simp
  then show ?thesis by (rule less_le_trans)
qed

lemma pval_two:
  assumes "i < n" and "j < n"
  shows "pval ((unit_at n i 1)[j := fromInt (-1)]) x = (if i = j then 0 else x i) - x j"
proof -
  have "pval ((unit_at n i 1)[j := fromInt (-1)]) x = (\<Sum>k<n. (if k = j then - x j else 0) + (if k = i then (if i = j then 0 else x i) else 0))"
    unfolding pval_def unit_at_def length_list_update length_replicate by (intro sum.cong) (auto simp: nth_list_update)
  also have "\<dots> = - x j + (if i = j then 0 else x i)" using assms by (simp add: sum.distrib)
  finally show ?thesis by simp
qed

lemma distanceParts_form:
  assumes "dep_srcStmt dep * (depth + 1) + depth < n" and "dep_dstStmt dep * (depth + 1) + depth < n"
  shows "form_at (distanceParts depth (depth + 1) n (dep_srcStmt dep) (dep_dstStmt dep)) (depth * 2) x v = coded_dist x depth dep v
    \<and> (\<forall>j \<le> depth * 2. length (distanceParts depth (depth + 1) n (dep_srcStmt dep) (dep_dstStmt dep) ! j) = n)"
proof -
  let ?s = "dep_srcStmt dep * (depth + 1)" and ?t = "dep_dstStmt dep * (depth + 1)"
  let ?P = "distanceParts depth (depth + 1) n (dep_srcStmt dep) (dep_dstStmt dep)"
  have nth: "?P ! j = (if j < depth then unit_at n (?s + 1 + j) (-1)
      else if j < depth * 2 then unit_at n (?t + 1 + (j - depth)) 1 else (unit_at n ?t 1)[?s := fromInt (-1)])" if "j \<le> depth * 2" for j
    using that by (simp add: distanceParts_def Let_def del: upt_Suc)
  have p1: "pval (?P ! j) x = - x (?s + 1 + j)" if "j < depth" for j using nth [of j] that assms by (simp add: pval_unit)
  have p2: "pval (?P ! (depth + j)) x = x (?t + 1 + j)" if "j < depth" for j using nth [of "depth + j"] that assms by (simp add: pval_unit)
  have "(\<Sum>j<depth + depth. pval (?P ! j) x * v j) = (\<Sum>j<depth. pval (?P ! j) x * v j) + (\<Sum>j<depth. pval (?P ! (depth + j)) x * v (depth + j))"
    by (rule sum_add_range)
  also have "\<dots> = - (\<Sum>j<depth. x (?s + 1 + j) * v j) + (\<Sum>j<depth. x (?t + 1 + j) * v (depth + j))"
    unfolding sum_negf [symmetric] using p1 p2 by (intro arg_cong2 [where f = "(+)"] sum.cong) auto
  finally have lin: "(\<Sum>j<depth * 2. pval (?P ! j) x * v j) = - (\<Sum>j<depth. x (?s + 1 + j) * v j) + (\<Sum>j<depth. x (?t + 1 + j) * v (depth + j))"
    by (simp only: mult_2_right)
  have "pval (?P ! (depth * 2)) x = (if ?t = ?s then 0 else x ?t) - x ?s"
    using nth [of "depth * 2"] assms by (simp add: pval_two)
  moreover have "?t = ?s \<longleftrightarrow> dep_srcStmt dep = dep_dstStmt dep" using mult_right_cancel [of "depth + 1"] by auto
  ultimately have "form_at ?P (depth * 2) x v = coded_dist x depth dep v"
    unfolding form_at_def lin by (simp add: coded_dist_def col_dist_def col_theta_def)
  moreover have "length (?P ! j) = n" if "j \<le> depth * 2" for j using nth [OF that] by simp
  ultimately show ?thesis by blast
qed

lemma theta_parts_form:
  assumes "nDims (st_space st) = depth" and "st_id st * (depth + 1) + depth < n"
  shows "form_at (theta_parts st (depth + 1) n) depth x v = col_theta x depth (st_id st) v
    \<and> (\<forall>j \<le> depth. length (theta_parts st (depth + 1) n ! j) = n)"
proof -
  have nth: "theta_parts st (depth + 1) n ! j = (if j < depth then unit_at n (st_id st * (depth + 1) + 1 + j) 1 else unit_at n (st_id st * (depth + 1)) 1)"
    if "j \<le> depth" for j using that assms(1) by (simp add: theta_parts_def del: upt_Suc)
  have "pval (theta_parts st (depth + 1) n ! j) x = x (st_id st * (depth + 1) + 1 + j)" if "j < depth" for j
    using nth [of j] that assms(2) by (simp add: pval_unit)
  moreover have "pval (theta_parts st (depth + 1) n ! depth) x = x (st_id st * (depth + 1))" using nth [of depth] assms(2) by (simp add: pval_unit)
  moreover have "length (theta_parts st (depth + 1) n ! j) = n" if "j \<le> depth" for j using nth [OF that] by simp
  ultimately show ?thesis by (simp add: form_at_def col_theta_def)
qed

lemma negateParts_form:
  assumes "negateParts parts = Inr neg" and "n < length parts"
  shows "form_at neg n x v = - form_at parts n x v \<and> (\<forall>j \<le> n. length (neg ! j) = length (parts ! j))"
proof -
  have "list_all2 (\<lambda>part q. list_all2 (\<lambda>a b. rat_val b = - rat_val a) part q) parts neg"
    using assms(1) unfolding negateParts_def map_res_Inr_iff
    by (elim list_all2_mono) (auto simp: mlk_try_Inr_iff attempt_Inr dest: ratNeg_Inr(1) split: option.splits)
  then have row: "list_all2 (\<lambda>a b. rat_val b = - rat_val a) (parts ! j) (neg ! j)" if "j \<le> n" for j
    using that assms(2) by (simp add: list_all2_conv_all_nth)
  then have "pval (neg ! j) x = - pval (parts ! j) x" if "j \<le> n" for j
    using that by (simp add: pval_def list_all2_conv_all_nth sum_negf)
  moreover have "length (neg ! j) = length (parts ! j)" if "j \<le> n" for j using list_all2_lengthD [OF row [OF that]] by simp
  ultimately show ?thesis by (simp add: form_at_def sum_negf)
qed

text \<open>Everything a solution of the row LP satisfies.\<close>

definition base_solution :: "scop \<Rightarrow> bool list \<Rightarrow> nat \<Rightarrow> nat \<Rightarrow> (nat \<Rightarrow> rat) \<Rightarrow> bool" where
  "base_solution sc spent pv anchor x \<longleftrightarrow>
     (\<forall>s < length (scop_statements sc).
        (\<forall>d < scop_depth sc. \<not> spent ! d \<longrightarrow> d \<noteq> pv \<longrightarrow> x (s * (scop_depth sc + 1) + 1 + d) = 0)
      \<and> 0 \<le> x (s * (scop_depth sc + 1) + 1 + pv)
      \<and> (dimVaries (scop_statements sc ! s) pv \<longrightarrow> x (s * (scop_depth sc + 1)) = 0)
      \<and> (\<forall>j \<le> scop_depth sc. \<bar>x (s * (scop_depth sc + 1) + j)\<bar> \<le> of_int kRowCoeffBound))
     \<and> x (anchor * (scop_depth sc + 1) + 1 + pv) = 1"

definition times_nonneg :: "scop \<Rightarrow> (nat \<Rightarrow> rat) \<Rightarrow> bool" where
  "times_nonneg sc x \<longleftrightarrow> (\<forall>st \<in> set (scop_statements sc). \<forall>p \<in> set (disjuncts (st_domain st)). \<forall>v.
     polyFeasible p = Inr True \<longrightarrow> poly_sat p v \<longrightarrow> 0 \<le> col_theta x (scop_depth sc) (st_id st) v)"

definition dists_valid :: "scop \<Rightarrow> (dependence \<times> presburger) list \<Rightarrow> bool \<Rightarrow> (nat \<Rightarrow> rat) \<Rightarrow> bool" where
  "dists_valid sc lv par x \<longleftrightarrow> (\<forall>(dep, sl) \<in> set lv. \<forall>p \<in> set (disjuncts sl). \<forall>v.
     polyFeasible p = Inr True \<longrightarrow> poly_sat p v \<longrightarrow>
       0 \<le> coded_dist x (scop_depth sc) dep v \<and> (par \<longrightarrow> coded_dist x (scop_depth sc) dep v = 0))"

lemma base_lp_spec:
  assumes run: "base_lp sc spent pv anchor n = Inr lp" and n: "length (scop_statements sc) * (scop_depth sc + 1) \<le> n"
    and pv: "pv < scop_depth sc" and anchor: "anchor < length (scop_statements sc)"
  shows "wf_rows lp \<and> lp_nVars lp = n \<and> (\<forall>x. sat_lp lp x \<longrightarrow> base_solution sc spent pv anchor x)"
proof -
  let ?d = "scop_depth sc" and ?ss = "scop_statements sc"
  let ?N = "length (scop_statements sc)" and ?I = "\<lambda>l. lp_nVars l = n"
  let ?lp0 = "\<lparr>lp_nVars = n, lp_eqRows = [], lp_eqRhs = [], lp_geRows = [], lp_geRhs = [], lp_objective = []\<rparr>"
  have col: "s * (?d + 1) + j < n" if "s < ?N" "j \<le> ?d" for s j using column_bound [OF that] n by (rule less_le_trans)
  from run obtain l1 where s1: "shape_rows_lp ?N ?d spent pv n ?lp0 = Inr l1"
    and lp: "lp = bound_rows_lp ?N ?d n (const_rows_lp ?ss ?d pv n (add_eq (unit_at n (anchor * (?d + 1) + 1 + pv) 1) (fromInt 1) (pivot_rows_lp ?N ?d pv n l1)))"
    by (auto simp: base_lp_def Let_def mlk_try_Inr_iff)
  have w0: "wf_rows ?lp0" by (simp add: wf_rows_def)
  have g1: "grows ?lp0 l1 \<and> ?I l1 \<and> (\<forall>sd \<in> set (List.product [0..<?N] [0..<?d]). \<forall>x. sat_lp l1 x \<longrightarrow>
      (\<not> spent ! snd sd \<longrightarrow> snd sd \<noteq> pv \<longrightarrow> x (fst sd * (?d + 1) + 1 + snd sd) = 0))"
  proof (rule fold_res_grows [where I = ?I, OF s1 [unfolded shape_rows_lp_def] w0])
    fix sd l l' assume sd: "sd \<in> set (List.product [0..<?N] [0..<?d])" and l: "wf_rows l" "?I l"
      and st: "(\<lambda>(s, d) l. mlk_try (vec_at spent d) (\<lambda>sp. Inr (if sp \<or> d = pv then l else add_eq (unit_at n (s * (?d + 1) + 1 + d) 1) rat_zero l))) sd l = Inr l'"
    obtain s d where e: "sd = (s, d)" by (cases sd)
    have c: "s * (?d + 1) + 1 + d < n" using sd col [of s "1 + d"] by (simp add: e add.assoc)
    show "grows l l' \<and> ?I l' \<and> (\<forall>x. sat_lp l' x \<longrightarrow> (\<not> spent ! snd sd \<longrightarrow> snd sd \<noteq> pv \<longrightarrow> x (fst sd * (?d + 1) + 1 + snd sd) = 0))"
      using st l c by (auto simp: e mlk_try_Inr_iff vec_at_Inr add_eq_spec pval_unit simp del: add_mult_distrib2)
  qed simp
  have w1: "wf_rows l1" using g1 w0 by (simp add: grows_def)
  define l2 where "l2 = pivot_rows_lp ?N ?d pv n l1"
  have g2: "grows l1 l2 \<and> ?I l2 \<and> (\<forall>s \<in> set [0..<?N]. \<forall>x. sat_lp l2 x \<longrightarrow> 0 \<le> x (s * (?d + 1) + 1 + pv))"
    unfolding l2_def pivot_rows_lp_def
  proof (rule fold_grows [where I = ?I, OF w1])
    fix s l assume s: "s \<in> set [0..<?N]" and l: "wf_rows l" "?I l"
    have c: "s * (?d + 1) + 1 + pv < n" using s pv col [of s "1 + pv"] by (simp add: add.assoc)
    show "grows l (add_ge (unit_at n (s * (?d + 1) + 1 + pv) 1) rat_zero l) \<and> ?I (add_ge (unit_at n (s * (?d + 1) + 1 + pv) 1) rat_zero l)
        \<and> (\<forall>x. sat_lp (add_ge (unit_at n (s * (?d + 1) + 1 + pv) 1) rat_zero l) x \<longrightarrow> 0 \<le> x (s * (?d + 1) + 1 + pv))"
      unfolding add_ge_spec(1) [OF l(1)] using l c add_ge_spec(2) [where lp = l] add_ge_spec(3) [where lp = l] pval_unit [OF c, of 1] by simp
  qed (use g1 in simp)
  have w2: "wf_rows l2" using g2 w1 by (simp add: grows_def)
  define l3 where "l3 = add_eq (unit_at n (anchor * (?d + 1) + 1 + pv) 1) (fromInt 1) l2"
  have c3: "anchor * (?d + 1) + 1 + pv < n" using anchor pv col [of anchor "1 + pv"] by (simp add: add.assoc)
  have g3: "grows l2 l3 \<and> ?I l3 \<and> (\<forall>x. sat_lp l3 x \<longrightarrow> x (anchor * (?d + 1) + 1 + pv) = 1)"
    unfolding l3_def add_eq_spec(1) [OF w2] using g2 add_eq_spec(2) [where lp = l2] add_eq_spec(3) [where lp = l2] pval_unit [OF c3, of 1] by simp
  have w3: "wf_rows l3" using g3 w2 by (simp add: grows_def)
  define l4 where "l4 = const_rows_lp ?ss ?d pv n l3"
  have g4: "grows l3 l4 \<and> ?I l4 \<and> (\<forall>st \<in> set (enumerate 0 ?ss). \<forall>x. sat_lp l4 x \<longrightarrow>
      (dimVaries (snd st) pv \<longrightarrow> x (fst st * (?d + 1)) = 0))"
    unfolding l4_def const_rows_lp_def
  proof (rule fold_grows [where I = ?I, OF w3])
    fix st l assume m: "st \<in> set (enumerate 0 ?ss)" and l: "wf_rows l" "?I l"
    obtain s t where e: "st = (s, t)" by (cases st)
    have c: "s * (?d + 1) < n" using m col [of s 0] by (simp add: e in_set_enumerate_eq)
    show "grows l ((\<lambda>(s, st) l. if \<not> dimVaries st pv then l else add_eq (unit_at n (s * (?d + 1)) 1) rat_zero l) st l)
        \<and> ?I ((\<lambda>(s, st) l. if \<not> dimVaries st pv then l else add_eq (unit_at n (s * (?d + 1)) 1) rat_zero l) st l)
        \<and> (\<forall>x. sat_lp ((\<lambda>(s, st) l. if \<not> dimVaries st pv then l else add_eq (unit_at n (s * (?d + 1)) 1) rat_zero l) st l) x \<longrightarrow>
          (dimVaries (snd st) pv \<longrightarrow> x (fst st * (?d + 1)) = 0))"
      using l add_eq_spec(1) [OF l(1)] pval_unit [OF c, of 1] add_eq_spec(2) [where lp = l] add_eq_spec(3) [where lp = l] by (auto simp: e)
  qed (use g3 in simp)
  have w4: "wf_rows l4" using g4 w3 by (simp add: grows_def)
  have lp5: "lp = bound_rows_lp ?N ?d n l4" by (simp add: lp l4_def l3_def l2_def)
  have g5: "grows l4 lp \<and> ?I lp \<and> (\<forall>sj \<in> set (List.product [0..<?N] [0..<?d + 1]). \<forall>x. sat_lp lp x \<longrightarrow>
      \<bar>x (fst sj * (?d + 1) + snd sj)\<bar> \<le> of_int kRowCoeffBound)"
    unfolding lp5 bound_rows_lp_def
  proof (rule fold_grows [where I = ?I, OF w4])
    fix sj l assume m: "sj \<in> set (List.product [0..<?N] [0..<?d + 1])" and l: "wf_rows l" "?I l"
    obtain s j where e: "sj = (s, j)" by (cases sj)
    have c: "s * (?d + 1) + j < n" using m col [of s j] by (auto simp: e)
    define la where "la = add_ge (unit_at n (s * (?d + 1) + j) 1) (fromInt (- kRowCoeffBound)) l"
    define lb where "lb = add_ge (unit_at n (s * (?d + 1) + j) (-1)) (fromInt (- kRowCoeffBound)) la"
    have a: "grows l la" "?I la" "\<And>x. sat_lp la x \<longleftrightarrow> sat_lp l x \<and> - of_int kRowCoeffBound \<le> x (s * (?d + 1) + j)"
      unfolding la_def using l add_ge_spec(1) [OF l(1)] add_ge_spec(2) [where lp = l] add_ge_spec(3) [where lp = l] pval_unit [OF c, of 1] by simp_all
    then have "wf_rows la" using l(1) by (simp add: grows_def)
    then have b: "grows la lb" "?I lb" "\<And>x. sat_lp lb x \<longleftrightarrow> sat_lp la x \<and> - of_int kRowCoeffBound \<le> - x (s * (?d + 1) + j)"
      unfolding lb_def using a add_ge_spec(1) [of la] add_ge_spec(2) [where lp = la] add_ge_spec(3) [where lp = la] pval_unit [OF c, of "-1"] by simp_all
    have "(\<lambda>(s, j) l. add_ge (unit_at n (s * (?d + 1) + j) (-1)) (fromInt (- kRowCoeffBound))
           (add_ge (unit_at n (s * (?d + 1) + j) 1) (fromInt (- kRowCoeffBound)) l)) sj l = lb" by (simp add: e lb_def la_def)
    then show "grows l ((\<lambda>(s, j) l. add_ge (unit_at n (s * (?d + 1) + j) (-1)) (fromInt (- kRowCoeffBound))
           (add_ge (unit_at n (s * (?d + 1) + j) 1) (fromInt (- kRowCoeffBound)) l)) sj l)
        \<and> ?I ((\<lambda>(s, j) l. add_ge (unit_at n (s * (?d + 1) + j) (-1)) (fromInt (- kRowCoeffBound))
           (add_ge (unit_at n (s * (?d + 1) + j) 1) (fromInt (- kRowCoeffBound)) l)) sj l)
        \<and> (\<forall>x. sat_lp ((\<lambda>(s, j) l. add_ge (unit_at n (s * (?d + 1) + j) (-1)) (fromInt (- kRowCoeffBound))
           (add_ge (unit_at n (s * (?d + 1) + j) 1) (fromInt (- kRowCoeffBound)) l)) sj l) x \<longrightarrow>
          \<bar>x (fst sj * (?d + 1) + snd sj)\<bar> \<le> of_int kRowCoeffBound)"
      using grows_trans [OF a(1) b(1)] a b by (auto simp: e abs_le_iff)
  qed (use g4 in simp)
  have w5: "wf_rows lp" using g5 w4 by (simp add: grows_def)
  have "base_solution sc spent pv anchor x" if x5: "sat_lp lp x" for x
  proof -
    have x4: "sat_lp l4 x" using g5 w4 x5 by (simp add: grows_def)
    then have x3: "sat_lp l3 x" using g4 w3 by (simp add: grows_def)
    then have x2: "sat_lp l2 x" using g3 w2 by (simp add: grows_def)
    then have x1: "sat_lp l1 x" using g2 w1 by (simp add: grows_def)
    have "x (s * (?d + 1) + 1 + d) = 0" if "s < ?N" "d < ?d" "\<not> spent ! d" "d \<noteq> pv" for s d
      using bspec [OF conjunct2 [OF conjunct2 [OF g1]], of "(s, d)"] that x1 by simp
    moreover have "0 \<le> x (s * (?d + 1) + 1 + pv)" if "s < ?N" for s using g2 x2 that by simp
    moreover have "x (s * (?d + 1)) = 0" if "s < ?N" "dimVaries (?ss ! s) pv" for s
      using bspec [OF conjunct2 [OF conjunct2 [OF g4]], of "(s, ?ss ! s)"] that x4 by (simp add: in_set_enumerate_eq)
    moreover have "\<bar>x (s * (?d + 1) + j)\<bar> \<le> of_int kRowCoeffBound" if "s < ?N" "j \<le> ?d" for s j
    proof -
      have "(s, j) \<in> set (List.product [0..<?N] [0..<?d + 1])" using that by (auto simp del: upt_Suc)
      then show ?thesis using g5 x5 by fastforce
    qed
    moreover have "x (anchor * (?d + 1) + 1 + pv) = 1" using g3 x3 by blast
    ultimately show ?thesis unfolding base_solution_def by blast
  qed
  with w5 g5 show ?thesis by blast
qed

text \<open>The blocks of the domains and of the live slices.\<close>

lemma nonneg_lp_spec:
  assumes run: "nonneg_lp ss (depth + 1) lp = Inr lp'" and wf: "wf_rows lp" and n: "length ss * (depth + 1) \<le> lp_nVars lp"
    and ss: "\<forall>s \<in> set ss. st_id s < length ss \<and> nDims (st_space s) = depth
      \<and> (\<forall>p \<in> set (disjuncts (st_domain s)). wf_poly p \<and> totalVars (poly_space p) = depth)"
  shows "grows lp lp' \<and> length ss * (depth + 1) \<le> lp_nVars lp' \<and>
    (\<forall>st \<in> set ss. \<forall>x. sat_lp lp' x \<longrightarrow> (\<forall>p \<in> set (disjuncts (st_domain st)). \<forall>v.
        polyFeasible p = Inr True \<longrightarrow> poly_sat p v \<longrightarrow> 0 \<le> col_theta x depth (st_id st) v))"
proof (rule fold_res_grows [where I = "\<lambda>l. length ss * (depth + 1) \<le> lp_nVars l", OF run [unfolded nonneg_lp_def] wf n])
  fix st l l' assume st: "st \<in> set ss" and l: "wf_rows l" "length ss * (depth + 1) \<le> lp_nVars l"
    and run: "fold_res (nonneg_disjunct st (depth + 1)) (disjuncts (st_domain st)) l = Inr l'"
  have "grows l l' \<and> length ss * (depth + 1) \<le> lp_nVars l' \<and> (\<forall>p \<in> set (disjuncts (st_domain st)). \<forall>x. sat_lp l' x \<longrightarrow>
      (\<forall>v. polyFeasible p = Inr True \<longrightarrow> poly_sat p v \<longrightarrow> 0 \<le> col_theta x depth (st_id st) v))"
  proof (rule fold_res_grows [where I = "\<lambda>l. length ss * (depth + 1) \<le> lp_nVars l", OF run l])
    fix p m m' assume p: "p \<in> set (disjuncts (st_domain st))" and m: "wf_rows m" "length ss * (depth + 1) \<le> lp_nVars m"
      and step: "nonneg_disjunct st (depth + 1) p m = Inr m'"
    from step [unfolded nonneg_disjunct_def mlk_try_Inr_iff] obtain f where f: "polyFeasible p = Inr f"
      and rest: "(if \<not> f then Inr m else appendFarkas p (theta_parts st (depth + 1) (lp_nVars m)) 0 m) = Inr m'" by blast
    show "grows m m' \<and> length ss * (depth + 1) \<le> lp_nVars m' \<and> (\<forall>x. sat_lp m' x \<longrightarrow>
      (\<forall>v. polyFeasible p = Inr True \<longrightarrow> poly_sat p v \<longrightarrow> 0 \<le> col_theta x depth (st_id st) v))"
    proof (cases f)
      case False
      with rest f m show ?thesis by simp
    next
      case True
      have pw: "wf_poly p" "totalVars (poly_space p) = depth" using ss st p by auto
      have c: "st_id st * (depth + 1) + depth < lp_nVars m"
        using column_bound [of "st_id st" "length ss" depth depth] ss st m(2) by auto
      have sd: "nDims (st_space st) = depth" using ss st by simp
      note tp = theta_parts_form [OF sd c]
      from rest True have "appendFarkas p (theta_parts st (depth + 1) (lp_nVars m)) 0 m = Inr m'" by simp
      from appendFarkas_spec [OF this m(1) pw(1) polyFeasible_flag] f True tp pw(2) m(2) show ?thesis by auto
    qed
  qed
  then show "grows l l' \<and> length ss * (depth + 1) \<le> lp_nVars l' \<and> (\<forall>x. sat_lp l' x \<longrightarrow> (\<forall>p \<in> set (disjuncts (st_domain st)). \<forall>v.
        polyFeasible p = Inr True \<longrightarrow> poly_sat p v \<longrightarrow> 0 \<le> col_theta x depth (st_id st) v))" by blast
qed

lemma epigraph_parts_lengths:
  assumes "epigraph_parts parts depth mCol n = Inr epi"
  shows "\<forall>j \<le> depth * 2. length (epi ! j) = n"
proof -
  let ?f = "\<lambda>j. mlk_try (vec_at parts j) (\<lambda>part.
       mlk_try (map_res (\<lambda>col. if col < length part then mlk_try (attempt (ratNeg (part ! col))) (\<lambda>x.
           case x of None \<Rightarrow> Inl (Err ResourceExhausted) | Some v \<Rightarrow> Inr v) else Inr rat_zero) [0..<n]) (\<lambda>row.
         Inr (if j = depth * 2 then row[mCol := fromInt 1] else row)))"
  have "list_all2 (\<lambda>j row. ?f j = Inr row) [0..<depth * 2 + 1] epi" using assms unfolding epigraph_parts_def map_res_Inr_iff .
  then have "?f j = Inr (epi ! j)" if "j \<le> depth * 2" for j
    using list_all2_nthD [of _ "[0..<depth * 2 + 1]" epi j] that by (simp del: upt_Suc)
  note f = this [unfolded mlk_try_Inr_iff]
  show ?thesis
  proof (intro allI impI)
    fix j assume "j \<le> depth * 2"
    from f [OF this] obtain g row where "map_res g [0..<n] = Inr row" "epi ! j = (if j = depth * 2 then row[mCol := fromInt 1] else row)"
      by auto
    then show "length (epi ! j) = n" using map_res_length by fastforce
  qed
qed

lemma dep_disjunct_spec:
  assumes run: "dep_disjunct depth dep par mCol p lp = Inr lp'" and wf: "wf_rows lp"
    and p: "wf_poly p" "totalVars (poly_space p) = depth * 2"
    and c: "dep_srcStmt dep * (depth + 1) + depth < lp_nVars lp" "dep_dstStmt dep * (depth + 1) + depth < lp_nVars lp"
  shows "grows lp lp' \<and> (\<forall>x v. sat_lp lp' x \<longrightarrow> polyFeasible p = Inr True \<longrightarrow> poly_sat p v \<longrightarrow>
      0 \<le> coded_dist x depth dep v \<and> (par \<longrightarrow> coded_dist x depth dep v = 0))"
proof -
  let ?P = "distanceParts depth (depth + 1) (lp_nVars lp) (dep_srcStmt dep) (dep_dstStmt dep)"
  from run [unfolded dep_disjunct_def Let_def mlk_try_Inr_iff [of "polyFeasible p"]]
  obtain f where f: "polyFeasible p = Inr f" and rest: "(if \<not> f then Inr lp
       else mlk_try (appendFarkas p ?P 0 lp) (\<lambda>lp.
           if par then mlk_try (negateParts ?P) (\<lambda>neg. appendFarkas p neg 0 lp)
           else mlk_try (epigraph_parts ?P depth mCol (lp_nVars lp)) (\<lambda>epi. appendFarkas p epi 0 lp))) = Inr lp'"
    by blast
  show ?thesis
  proof (cases f)
    case False
    with rest f show ?thesis by simp
  next
    case True
    with rest obtain l1 where l1: "appendFarkas p ?P 0 lp = Inr l1"
      and l2: "(if par then mlk_try (negateParts ?P) (\<lambda>neg. appendFarkas p neg 0 l1)
           else mlk_try (epigraph_parts ?P depth mCol (lp_nVars l1)) (\<lambda>epi. appendFarkas p epi 0 l1)) = Inr lp'"
      by (auto simp: mlk_try_Inr_iff)
    have ne: "\<not> isEmptyFlag p" using polyFeasible_flag f True by simp
    note dp = distanceParts_form [OF c]
    have s1: "grows lp l1 \<and> lp_nVars lp \<le> lp_nVars l1 \<and> (\<forall>x v. sat_lp l1 x \<longrightarrow> poly_sat p v \<longrightarrow> 0 \<le> coded_dist x depth dep v)"
      using appendFarkas_spec [OF l1 wf p(1) ne] dp by (simp add: p(2))
    then have w1: "wf_rows l1" using wf by (simp add: grows_def)
    show ?thesis
    proof (cases par)
      case True
      with l2 obtain neg where neg: "negateParts ?P = Inr neg" and l3: "appendFarkas p neg 0 l1 = Inr lp'"
        by (auto simp: mlk_try_Inr_iff)
      have "depth * 2 < length ?P" by (simp add: distanceParts_def Let_def)
      note nf = negateParts_form [OF neg this]
      have "grows l1 lp' \<and> (\<forall>x v. sat_lp lp' x \<longrightarrow> poly_sat p v \<longrightarrow> 0 \<le> - coded_dist x depth dep v)"
        using appendFarkas_spec [OF l3 w1 p(1) ne] nf dp s1 by (simp add: p(2))
      then show ?thesis using s1 w1 grows_trans [of lp l1 lp'] by (fastforce simp: grows_def)
    next
      case False
      with l2 obtain epi where epi: "epigraph_parts ?P depth mCol (lp_nVars l1) = Inr epi" and l3: "appendFarkas p epi 0 l1 = Inr lp'"
        by (auto simp: mlk_try_Inr_iff)
      have "grows l1 lp'" using appendFarkas_spec [OF l3 w1 p(1) ne] epigraph_parts_lengths [OF epi] by (simp add: p(2))
      then show ?thesis using s1 w1 False grows_trans [of lp l1 lp'] by (auto simp: grows_def)
    qed
  qed
qed

lemma dep_blocks_spec:
  assumes run: "dep_blocks depth par baseCols lv lp = Inr lp'" and wf: "wf_rows lp" and n: "nS * (depth + 1) \<le> lp_nVars lp"
    and lv: "\<forall>(dep, sl) \<in> set lv. dep_srcStmt dep < nS \<and> dep_dstStmt dep < nS \<and>
      (\<forall>p \<in> set (disjuncts sl). wf_poly p \<and> totalVars (poly_space p) = depth * 2)"
  shows "grows lp lp' \<and> (\<forall>x. sat_lp lp' x \<longrightarrow> (\<forall>(dep, sl) \<in> set lv. \<forall>p \<in> set (disjuncts sl). \<forall>v.
      polyFeasible p = Inr True \<longrightarrow> poly_sat p v \<longrightarrow> 0 \<le> coded_dist x depth dep v \<and> (par \<longrightarrow> coded_dist x depth dep v = 0)))"
proof -
  let ?I = "\<lambda>l. nS * (depth + 1) \<le> lp_nVars l"
  have "grows lp lp' \<and> ?I lp' \<and> (\<forall>e \<in> set (enumerate 0 lv). \<forall>x. sat_lp lp' x \<longrightarrow> (\<forall>p \<in> set (disjuncts (snd (snd e))). \<forall>v.
      polyFeasible p = Inr True \<longrightarrow> poly_sat p v \<longrightarrow> 0 \<le> coded_dist x depth (fst (snd e)) v \<and> (par \<longrightarrow> coded_dist x depth (fst (snd e)) v = 0)))"
  proof (rule fold_res_grows [where I = ?I, OF run [unfolded dep_blocks_def] wf n])
    fix e l l' assume e: "e \<in> set (enumerate 0 lv)" and l: "wf_rows l" "?I l"
      and st: "(\<lambda>(li, dep, sl). fold_res (dep_disjunct depth dep par (if par then 0 else baseCols + li)) (disjuncts sl)) e l = Inr l'"
    obtain li dep sl where ed: "e = (li, dep, sl)" by (cases e)
    with e have m: "(dep, sl) \<in> set lv" by (auto simp: in_set_enumerate_eq) (metis nth_mem)
    let ?M = "if par then 0 else baseCols + li"
    from st ed have run: "fold_res (dep_disjunct depth dep par ?M) (disjuncts sl) l = Inr l'" by simp
    have "grows l l' \<and> ?I l' \<and> (\<forall>p \<in> set (disjuncts sl). \<forall>x. sat_lp l' x \<longrightarrow> (\<forall>v.
      polyFeasible p = Inr True \<longrightarrow> poly_sat p v \<longrightarrow> 0 \<le> coded_dist x depth dep v \<and> (par \<longrightarrow> coded_dist x depth dep v = 0)))"
    proof (rule fold_res_grows [where I = ?I, OF run l])
      fix p k k' assume p: "p \<in> set (disjuncts sl)" and k: "wf_rows k" "?I k" and d: "dep_disjunct depth dep par ?M p k = Inr k'"
      have c: "dep_srcStmt dep * (depth + 1) + depth < lp_nVars k" "dep_dstStmt dep * (depth + 1) + depth < lp_nVars k"
        using lv m k(2) column_bound [of "dep_srcStmt dep" nS depth depth] column_bound [of "dep_dstStmt dep" nS depth depth] by auto
      have pw: "wf_poly p" "totalVars (poly_space p) = depth * 2" using lv m p by auto
      from dep_disjunct_spec [OF d k(1) pw c] k(2) show "grows k k' \<and> ?I k' \<and> (\<forall>x. sat_lp k' x \<longrightarrow> (\<forall>v.
          polyFeasible p = Inr True \<longrightarrow> poly_sat p v \<longrightarrow> 0 \<le> coded_dist x depth dep v \<and> (par \<longrightarrow> coded_dist x depth dep v = 0)))"
        by (auto simp: grows_def)
    qed
    then show "grows l l' \<and> ?I l' \<and> (\<forall>x. sat_lp l' x \<longrightarrow> (\<forall>p \<in> set (disjuncts (snd (snd e))). \<forall>v.
      polyFeasible p = Inr True \<longrightarrow> poly_sat p v \<longrightarrow> 0 \<le> coded_dist x depth (fst (snd e)) v \<and> (par \<longrightarrow> coded_dist x depth (fst (snd e)) v = 0)))"
      unfolding ed by auto
  qed
  moreover have "\<exists>i. (i, e) \<in> set (enumerate 0 lv)" if "e \<in> set lv" for e
  proof -
    from that obtain i where "i < length lv" "lv ! i = e" by (auto simp: in_set_conv_nth)
    then show ?thesis by (intro exI [of _ i]) (simp add: in_set_enumerate_eq)
  qed
  ultimately show ?thesis by fastforce
qed

definition row_solution :: "scop \<Rightarrow> (dependence \<times> presburger) list \<Rightarrow> bool list \<Rightarrow> nat \<Rightarrow> nat \<Rightarrow> bool \<Rightarrow> (nat \<Rightarrow> rat) \<Rightarrow> bool" where
  "row_solution sc lv spent pv anchor par x \<longleftrightarrow>
     base_solution sc spent pv anchor x \<and> times_nonneg sc x \<and> dists_valid sc lv par x"

definition live_ok :: "scop \<Rightarrow> (dependence \<times> presburger) list \<Rightarrow> bool" where
  "live_ok sc lv \<longleftrightarrow> (\<forall>(dep, sl) \<in> set lv. dep_srcStmt dep < length (scop_statements sc) \<and> dep_dstStmt dep < length (scop_statements sc)
     \<and> lp_set (2 * scop_depth sc) sl)"

lemma objective_irrelevant [simp]:
  "wf_rows (lp\<lparr>lp_objective := s\<rparr>) \<longleftrightarrow> wf_rows lp" "sat_lp (lp\<lparr>lp_objective := s\<rparr>) x \<longleftrightarrow> sat_lp lp x"
  unfolding wf_rows_def sat_lp_def by simp_all

lemma grows_objective: "grows lp lp' \<Longrightarrow> grows lp (lp'\<lparr>lp_objective := s\<rparr>)"
  unfolding grows_def by simp

lemma length_epigraph_sum: "length (epigraph_sum n b k) = n"
  unfolding epigraph_sum_def by (induction k) simp_all

lemma progress_grows: "grows lp (progress_lp par b k lp)"
  unfolding progress_lp_def Let_def
  by (auto intro!: grows_objective add_ge_spec(2) simp: length_epigraph_sum)

lemma row_lp_spec:
  assumes run: "row_lp sc lv spent pv anchor par = Inr lp" and sc: "scop_ok sc" and lv: "live_ok sc lv"
    and pv: "pv < scop_depth sc" and anchor: "anchor < length (scop_statements sc)"
  shows "wf_rows lp \<and> length (scop_statements sc) * (scop_depth sc + 1) \<le> lp_nVars lp
    \<and> (\<forall>x. sat_lp lp x \<longrightarrow> row_solution sc lv spent pv anchor par x)"
proof -
  let ?d = "scop_depth sc" and ?ss = "scop_statements sc"
  let ?b = "length ?ss * (?d + 1)" and ?n = "length ?ss * (?d + 1) + (if par then 0 else length lv)"
  from run obtain l1 l2 l3 where l1: "base_lp sc spent pv anchor ?n = Inr l1" and l2: "nonneg_lp ?ss (?d + 1) l1 = Inr l2"
    and l3: "dep_blocks ?d par ?b lv l2 = Inr l3" and lp: "lp = progress_lp par ?b (length lv) l3"
    by (auto simp: row_lp_def Let_def mlk_try_Inr_iff split: if_splits)
  have s1: "wf_rows l1 \<and> lp_nVars l1 = ?n \<and> (\<forall>x. sat_lp l1 x \<longrightarrow> base_solution sc spent pv anchor x)"
    by (rule base_lp_spec [OF l1 _ pv anchor]) simp
  have ss: "\<forall>s \<in> set ?ss. st_id s < length ?ss \<and> nDims (st_space s) = ?d
      \<and> (\<forall>p \<in> set (disjuncts (st_domain s)). wf_poly p \<and> totalVars (poly_space p) = ?d)"
    using scop_ok_statement [OF sc] by (auto simp: statement_ok_def wf_set_def totalVars_def)
  have "?b \<le> lp_nVars l1" using s1 by simp
  note s2 = nonneg_lp_spec [OF l2 conjunct1 [OF s1] this ss]
  then have w2: "wf_rows l2" using s1 by (simp add: grows_def)
  have "\<forall>(dep, sl) \<in> set lv. dep_srcStmt dep < length ?ss \<and> dep_dstStmt dep < length ?ss \<and>
      (\<forall>p \<in> set (disjuncts sl). wf_poly p \<and> totalVars (poly_space p) = ?d * 2)"
    using lv by (fastforce simp: live_ok_def lp_set_def wf_set_def mult.commute)
  note s3 = dep_blocks_spec [OF l3 w2 _ this]
  have s3': "grows l2 l3" "\<And>x. sat_lp l3 x \<Longrightarrow> dists_valid sc lv par x" using s3 s2 by (auto simp: dists_valid_def)
  then have w3: "wf_rows l3" and n3: "?b \<le> lp_nVars l3" using w2 s2 by (auto simp: grows_def)
  have "grows l3 lp" unfolding lp by (rule progress_grows)
  then have "wf_rows lp" "?b \<le> lp_nVars lp" "\<And>x. sat_lp lp x \<Longrightarrow> sat_lp l3 x" using w3 n3 by (auto simp: grows_def)
  moreover have "row_solution sc lv spent pv anchor par x" if x: "sat_lp l3 x" for x
  proof -
    have x2: "sat_lp l2 x" using s3'(1) w2 x by (simp add: grows_def)
    have x1: "sat_lp l1 x" using conjunct1 [OF s2] s1 x2 by (simp add: grows_def)
    have "base_solution sc spent pv anchor x" using s1 x1 by blast
    moreover have "times_nonneg sc x" unfolding times_nonneg_def using conjunct2 [OF conjunct2 [OF s2]] x2 by blast
    ultimately show ?thesis using s3'(2) [OF x] by (simp add: row_solution_def)
  qed
  ultimately show ?thesis by blast
qed

section \<open>The realized row\<close>

lemma divLimited_exact:
  assumes "divLimited a b = Inr q" and "0 < b" and "b dvd a"
  shows "q = a div b" and "a = b * q"
proof -
  from assms(1,2) have "q = a sdiv b" by (auto simp: divLimited_def checked_div_def split: if_splits)
  then show "q = a div b" using sdiv_dvd [OF assms(3,2)] by simp
  with assms(3) show "a = b * q" by simp
qed

lemma lcm_loop_spec:
  assumes "fold_res (lcm_step so) [0..<m] 1 = Inr l" and "lim_list (sol_x so)"
  shows "0 < l \<and> in_limit l \<and> (\<forall>i < m. i < length (sol_x so) \<and> den (sol_x so ! i) dvd l)"
  using assms(1)
proof (induction m arbitrary: l)
  case (Suc m)
  from Suc.prems obtain u where u: "fold_res (lcm_step so) [0..<m] 1 = Inr u" and st: "lcm_step so m u = Inr l"
    by (auto simp: fold_res_snoc_Inr)
  note ih = Suc.IH [OF u]
  let ?v = "sol_x so ! m"
  from st have m: "m < length (sol_x so)" by (auto simp: lcm_step_def mlk_try_Inr_iff vec_at_Inr)
  have lim: "lim_rat ?v" using assms(2) m by (simp add: lim_list_nth)
  then have d: "0 < den ?v" "in_limit (den ?v)" by (auto simp: lim_rat_def)
  show ?case
  proof (cases "isInt ?v")
    case True
    with st m have "l = u" by (auto simp: lcm_step_def mlk_try_Inr_iff vec_at_Inr)
    with ih m True show ?thesis by (auto simp: less_Suc_eq isInt_def)
  next
    case False
    have g: "ratGcd u (den ?v) = gcd u (den ?v)" "0 < gcd u (den ?v)" using ih d by (auto simp: ratGcd_limit)
    with st m False d obtain q where q: "divLimited (den ?v) (gcd u (den ?v)) = Inr q" and l: "l = u * q" "in_limit l"
      by (auto simp: lcm_step_def mlk_try_Inr_iff vec_at_Inr mul_op.limited_Inr_iff)
    note dq = divLimited_exact(2) [OF q g(2)]
    then have den: "den ?v = gcd u (den ?v) * q" by simp
    then have "0 < q" using d(1) g(2) by (metis zero_less_mult_pos)
    moreover have "den ?v dvd u * q" using den by (metis gcd_dvd1 mult_dvd_mono dvd_refl)
    ultimately show ?thesis using ih m l by (auto simp: less_Suc_eq)
  qed
qed simp

lemma gcd_fold:
  assumes "\<forall>c \<in> set cs. in_limit c" and "in_limit g" and "0 \<le> g"
  shows "0 \<le> fold (\<lambda>c g. ratGcd g c) cs g \<and> fold (\<lambda>c g. ratGcd g c) cs g dvd g \<and> (\<forall>c \<in> set cs. fold (\<lambda>c g. ratGcd g c) cs g dvd c)"
  using assms
proof (induction cs arbitrary: g)
  case (Cons c cs)
  have e: "ratGcd g c = gcd g c" "in_limit (gcd g c)" using Cons.prems by (auto simp: ratGcd_limit)
  have "0 \<le> fold (\<lambda>c g. ratGcd g c) cs (gcd g c) \<and> fold (\<lambda>c g. ratGcd g c) cs (gcd g c) dvd gcd g c
      \<and> (\<forall>d \<in> set cs. fold (\<lambda>c g. ratGcd g c) cs (gcd g c) dvd d)"
    by (rule Cons.IH) (use Cons.prems e in auto)
  then show ?case by (auto simp: e(1))
qed simp

definition multiple_of :: "schedule_row \<Rightarrow> schedule_row \<Rightarrow> bool" where
  "multiple_of row row' \<longleftrightarrow> (\<exists>g > 0. row = map (map (\<lambda>c. g * c)) row')"

lemma normalizeRow_spec:
  assumes "normalizeRow row 1 = Inr row'"
  shows "multiple_of row row' \<and> (\<forall>cs \<in> set row'. \<forall>c \<in> set cs. \<bar>c\<bar> \<le> kPolyMaxScheduleCoeff)"
proof -
  from assms obtain r where r: "map_res (map_res (\<lambda>c. mulLimited c 1)) row = Inr r"
    and n: "(let g = fold (\<lambda>c g. ratGcd g c) (concat r) 0;
           row' = (if g > 1 then map (map (\<lambda>c. c sdiv g)) r else r) in
       if list_ex (\<lambda>c. c > kPolyMaxScheduleCoeff \<or> c < - kPolyMaxScheduleCoeff) (concat row') then Inl (Err ResourceExhausted)
       else Inr row') = Inr row'"
    by (auto simp: normalizeRow_def mlk_try_Inr_iff)
  have "list_all2 (list_all2 (\<lambda>c d. d = c \<and> in_limit c)) row r"
    using r unfolding map_res_Inr_iff by (elim list_all2_mono) (auto simp: mul_op.limited_Inr_iff)
  then have "list_all2 (\<lambda>cs ds. ds = cs \<and> (\<forall>c \<in> set cs. in_limit c)) row r"
    by (rule list_all2_mono) (auto simp: list_all2_conv_all_nth in_set_conv_nth intro: nth_equalityI)
  then have rr: "r = row" and lim: "\<forall>c \<in> set (concat row). in_limit c"
    by (auto simp: list_all2_conv_all_nth in_set_conv_nth intro: nth_equalityI) (metis nth_mem)
  define g where "g = fold (\<lambda>c g. ratGcd g c) (concat row) 0"
  have g: "0 \<le> g" "\<forall>c \<in> set (concat row). g dvd c" using gcd_fold [OF lim, of 0] by (auto simp: g_def)
  have row': "row' = (if g > 1 then map (map (\<lambda>c. c sdiv g)) row else row)"
    and b: "\<not> list_ex (\<lambda>c. c > kPolyMaxScheduleCoeff \<or> c < - kPolyMaxScheduleCoeff) (concat row')"
    using n by (auto simp: rr g_def Let_def split: if_splits)
  have "row = map (map (\<lambda>c. g * c)) (map (map (\<lambda>c. c sdiv g)) row)" if "g > 1"
  proof -
    have "g * (c sdiv g) = c" if "c \<in> set (concat row)" for c
      using bspec [OF g(2) that] \<open>g > 1\<close> by (simp add: sdiv_dvd)
    then have "map (\<lambda>c. g * (c sdiv g)) cs = cs" if "cs \<in> set row" for cs using that by (auto intro!: map_idI)
    then show ?thesis by (simp add: comp_def map_idI)
  qed
  moreover have "row = map (map (\<lambda>c. 1 * c)) row" by (simp add: map_idI)
  ultimately have "multiple_of row row'" unfolding multiple_of_def row'
    by (cases "g > 1") (rule exI [of _ g], simp, rule exI [of _ 1], simp add: map_idI)
  moreover have "\<forall>cs \<in> set row'. \<forall>c \<in> set cs. \<bar>c\<bar> \<le> kPolyMaxScheduleCoeff"
    using b by (fastforce simp: list_ex_iff)
  ultimately show ?thesis by blast
qed

lemma realizeRow_spec:
  assumes "realizeRow so n cps = Inr row" and lim: "lim_list (sol_x so)"
  shows "length row = n \<and> (\<exists>q > 0. \<forall>s < n. length (row ! s) = cps \<and> (\<forall>j < cps. \<bar>row ! s ! j\<bar> \<le> kPolyMaxScheduleCoeff
    \<and> of_int (row ! s ! j) = q * rat_val (sol_x so ! (s * cps + j))))"
proof -
  from assms(1) obtain l r where l: "fold_res (lcm_step so) [0..<n * cps] 1 = Inr l"
    and r: "list_all2 (\<lambda>s cs. list_all2 (\<lambda>j c. scaled_entry so l (s * cps + j) = Inr c) [0..<cps] cs) [0..<n] r"
    and nr: "normalizeRow r 1 = Inr row"
    by (auto simp: realizeRow_def mlk_try_Inr_iff map_res_Inr_iff)
  note ll = lcm_loop_spec [OF l lim]
  have ln: "length r = n" using list_all2_lengthD [OF r] by simp
  have lc: "length (r ! s) = cps" if "s < n" for s using list_all2_nthD [OF r, of s] that by (auto dest: list_all2_lengthD)
  note len = ln lc
  have ent: "of_int (r ! s ! j) = of_int l * rat_val (sol_x so ! (s * cps + j))" if s: "s < n" and j: "j < cps" for s j
  proof -
    let ?i = "s * cps + j"
    have "?i < Suc s * cps" "Suc s * cps \<le> n * cps" using s j by (simp, intro mult_le_mono1) simp
    then have i: "?i < n * cps" by (rule less_le_trans)
    have "scaled_entry so l ?i = Inr (r ! s ! j)"
      using list_all2_nthD [OF r, of s] list_all2_nthD [of _ "[0..<cps]" "r ! s" j] s j len by auto
    then obtain f where f: "divLimited l (den (sol_x so ! ?i)) = Inr f" and c: "r ! s ! j = num (sol_x so ! ?i) * f"
      by (auto simp: scaled_entry_def mlk_try_Inr_iff vec_at_Inr mul_op.limited_Inr_iff)
    have d: "0 < den (sol_x so ! ?i)" "den (sol_x so ! ?i) dvd l" using ll i lim_list_nth [OF lim] by (auto simp: lim_rat_def)
    have "l = den (sol_x so ! ?i) * f" by (rule divLimited_exact(2) [OF f d])
    then show ?thesis using d(1) c by (simp add: rat_val_def)
  qed
  from normalizeRow_spec [OF nr] obtain g where g: "g > 0" "r = map (map (\<lambda>c. g * c)) row"
    and b: "\<forall>cs \<in> set row. \<forall>c \<in> set cs. \<bar>c\<bar> \<le> kPolyMaxScheduleCoeff" by (auto simp: multiple_of_def)
  have lr: "length row = n" "\<And>s. s < n \<Longrightarrow> length (row ! s) = cps" using len g(2) by auto
  have "of_int (row ! s ! j) = (of_int l / of_int g) * rat_val (sol_x so ! (s * cps + j))" if "s < n" "j < cps" for s j
  proof -
    have "r ! s ! j = g * (row ! s ! j)" using that lr by (simp add: g(2))
    then show ?thesis using ent [OF that] g(1) by (simp add: field_simps)
  qed
  moreover have "\<bar>row ! s ! j\<bar> \<le> kPolyMaxScheduleCoeff" if "s < n" "j < cps" for s j
    using bspec [OF bspec [OF b nth_mem] nth_mem, of s j] lr that by simp
  moreover have "0 < (of_int l / of_int g :: rat)" using ll g(1) by simp
  ultimately show ?thesis using lr by blast
qed

section \<open>A row of the schedule\<close>

text \<open>What the program promises of the integer row: the schedule value of an instance and the distance of a pair.\<close>

definition row_dist :: "schedule_row \<Rightarrow> nat \<Rightarrow> dependence \<Rightarrow> (nat \<Rightarrow> rat) \<Rightarrow> rat" where
  "row_dist row depth dep v = theta (row ! dep_dstStmt dep) depth (\<lambda>d. v (depth + d)) - theta (row ! dep_srcStmt dep) depth v
     - (if dep_srcStmt dep = dep_dstStmt dep then of_int (row ! dep_srcStmt dep ! 0) else 0)"

definition row_shape :: "scop \<Rightarrow> bool list \<Rightarrow> nat \<Rightarrow> nat \<Rightarrow> schedule_row \<Rightarrow> bool" where
  "row_shape sc spent pv anchor row \<longleftrightarrow> length row = length (scop_statements sc) \<and> 0 < row ! anchor ! (pv + 1)
     \<and> (\<forall>s < length (scop_statements sc). length (row ! s) = scop_depth sc + 1
        \<and> (\<forall>j \<le> scop_depth sc. \<bar>row ! s ! j\<bar> \<le> kPolyMaxScheduleCoeff)
        \<and> (\<forall>d < scop_depth sc. \<not> spent ! d \<longrightarrow> d \<noteq> pv \<longrightarrow> row ! s ! (d + 1) = 0)
        \<and> 0 \<le> row ! s ! (pv + 1) \<and> (dimVaries (scop_statements sc ! s) pv \<longrightarrow> row ! s ! 0 = 0))"

definition row_valid :: "scop \<Rightarrow> (dependence \<times> presburger) list \<Rightarrow> bool \<Rightarrow> schedule_row \<Rightarrow> bool" where
  "row_valid sc lv par row \<longleftrightarrow>
     (\<forall>st \<in> set (scop_statements sc). \<forall>p \<in> set (disjuncts (st_domain st)). \<forall>v :: nat \<Rightarrow> rat.
        polyFeasible p = Inr True \<longrightarrow> poly_sat p v \<longrightarrow> 0 \<le> theta (row ! st_id st) (scop_depth sc) v)
   \<and> (\<forall>(dep, sl) \<in> set lv. \<forall>p \<in> set (disjuncts sl). \<forall>v :: nat \<Rightarrow> rat. polyFeasible p = Inr True \<longrightarrow> poly_sat p v \<longrightarrow>
        0 \<le> row_dist row (scop_depth sc) dep v \<and> (par \<longrightarrow> row_dist row (scop_depth sc) dep v = 0))"

definition scaled_row :: "nat \<Rightarrow> nat \<Rightarrow> rat \<Rightarrow> (nat \<Rightarrow> rat) \<Rightarrow> schedule_row \<Rightarrow> bool" where
  "scaled_row n depth q x row \<longleftrightarrow> 0 < q \<and> length row = n \<and> (\<forall>s < n. length (row ! s) = depth + 1
     \<and> (\<forall>j \<le> depth. of_int (row ! s ! j) = q * x (s * (depth + 1) + j)))"

lemma scaled_theta:
  assumes "scaled_row n depth q x row" and "s < n"
  shows "theta (row ! s) depth v = q * col_theta x depth s v"
proof -
  have e: "of_int (row ! s ! j) = q * x (s * (depth + 1) + j)" if "j \<le> depth" for j
    using assms that by (simp add: scaled_row_def)
  have "(\<Sum>d<depth. of_int (row ! s ! (d + 1)) * v d) = (\<Sum>d<depth. q * (x (s * (depth + 1) + 1 + d) * v d))"
    by (rule sum.cong) (use e [of "_ + 1"] in \<open>simp_all add: ac_simps\<close>)
  then show ?thesis using e [of 0] by (simp add: theta_def col_theta_def distrib_left sum_distrib_left)
qed

lemma scaled_dist:
  assumes "scaled_row n depth q x row" and "dep_srcStmt dep < n" "dep_dstStmt dep < n"
  shows "row_dist row depth dep v = q * coded_dist x depth dep v"
proof -
  have "of_int (row ! dep_srcStmt dep ! 0) = q * x (dep_srcStmt dep * (depth + 1))"
    using assms by (auto simp: scaled_row_def)
  moreover note scaled_theta [OF assms(1,2)] scaled_theta [OF assms(1,3)]
  ultimately show ?thesis
    by (cases "dep_srcStmt dep = dep_dstStmt dep")
      (simp_all add: row_dist_def coded_dist_def col_dist_def right_diff_distrib del: mult_Suc_right add_Suc_right)
qed

lemma scaled_sign:
  fixes q x :: rat
  assumes "of_int c = q * x" and "0 < q"
  shows "0 < x \<Longrightarrow> 0 < c" and "0 \<le> x \<Longrightarrow> 0 \<le> c" and "x = 0 \<Longrightarrow> c = 0"
proof -
  have "0 < x \<Longrightarrow> (0 :: rat) < of_int c" "0 \<le> x \<Longrightarrow> (0 :: rat) \<le> of_int c" using assms by simp_all
  then show "0 < x \<Longrightarrow> 0 < c" "0 \<le> x \<Longrightarrow> 0 \<le> c" "x = 0 \<Longrightarrow> c = 0" using assms(1) by simp_all
qed

lemma tryRowLp_spec:
  assumes run: "tryRowLp sc lv spent pv anchor par budget = (Inr (Some row), b)"
    and lp: "row_lp sc lv spent pv anchor par = Inr lp" "wf_lp lp"
    and sc: "scop_ok sc" and lv: "live_ok sc lv" and pv: "pv < scop_depth sc" and anchor: "anchor < length (scop_statements sc)"
  shows "row_shape sc spent pv anchor row \<and> row_valid sc lv par row \<and> b + 1 = budget"
proof -
  let ?d = "scop_depth sc" and ?n = "length (scop_statements sc)"
  from run lp(1) obtain so where so: "solveLp lp = Inr so" and opt: "sol_status so = LpOptimal"
    and real: "realizeRow so ?n (?d + 1) = Inr row" and b: "b + 1 = budget"
    by (auto simp: tryRowLp_def mlk_try_Inr_iff split: if_splits sum.splits)
  define x where "x = (\<lambda>k. rat_val (sol_x so ! k))"
  have ans: "lim_list (sol_x so)" "feasible_lp lp x" using solveLp_answer [OF so lp(2)] opt by (simp_all add: lp_answer_def x_def)
  from row_lp_spec [OF lp(1) sc lv pv anchor] ans(2) have x: "row_solution sc lv spent pv anchor par x"
    by (auto simp: sat_lp_feasible)
  note rr = realizeRow_spec [OF real ans(1)]
  then obtain q where q: "q > 0" and row: "\<forall>s < ?n. length (row ! s) = ?d + 1 \<and> (\<forall>j < ?d + 1. \<bar>row ! s ! j\<bar> \<le> kPolyMaxScheduleCoeff
      \<and> of_int (row ! s ! j) = q * x (s * (?d + 1) + j))" by (auto simp: x_def)
  then have sr: "scaled_row ?n ?d q x row" using rr by (auto simp: scaled_row_def)
  have e: "(of_int (row ! s ! j) :: rat) = q * x (s * (?d + 1) + j)" if "s < ?n" "j \<le> ?d" for s j using row that by simp
  note sgn = scaled_sign [OF e q]
  have bs: "base_solution sc spent pv anchor x" and tn: "times_nonneg sc x" and dv: "dists_valid sc lv par x"
    using x by (simp_all add: row_solution_def)
  have "row_shape sc spent pv anchor row" unfolding row_shape_def
  proof (intro conjI allI impI)
    show "length row = ?n" using rr by blast
    show "0 < row ! anchor ! (pv + 1)"
      by (rule sgn(1) [OF anchor]) (use bs pv in \<open>auto simp: base_solution_def add.assoc\<close>)
  next
    fix s assume s: "s < ?n"
    show "length (row ! s) = ?d + 1" using row s by blast
    show "\<bar>row ! s ! j\<bar> \<le> kPolyMaxScheduleCoeff" if "j \<le> ?d" for j using row s that by simp
    show "row ! s ! (d + 1) = 0" if "d < ?d" "\<not> spent ! d" "d \<noteq> pv" for d
      by (rule sgn(3) [OF s]) (use bs s that in \<open>auto simp: base_solution_def add.assoc\<close>)
    show "0 \<le> row ! s ! (pv + 1)"
      by (rule sgn(2) [OF s]) (use bs s pv in \<open>auto simp: base_solution_def add.assoc\<close>)
    show "row ! s ! 0 = 0" if "dimVaries (scop_statements sc ! s) pv"
      by (rule sgn(3) [OF s]) (use bs s that in \<open>auto simp: base_solution_def add.assoc\<close>)
  qed
  moreover have "row_valid sc lv par row" unfolding row_valid_def
  proof (intro conjI ballI allI impI, goal_cases)
    case (1 st p v)
    then have "st_id st < ?n" using scop_ok_statement [OF sc] by (auto simp: statement_ok_def)
    from scaled_theta [OF sr this] tn 1 q show ?case by (simp add: times_nonneg_def)
  next
    case (2 ds)
    obtain dep sl where ds: "ds = (dep, sl)" by fastforce
    then have n: "dep_srcStmt dep < ?n" "dep_dstStmt dep < ?n" using lv 2 by (auto simp: live_ok_def)
    show ?case unfolding ds using dv 2 ds q by (auto simp: scaled_dist [OF sr n] dists_valid_def)
  qed
  ultimately show ?thesis using b by blast
qed

definition varying_dims :: "scop \<Rightarrow> nat set" where
  "varying_dims sc = {d. d < scop_depth sc \<and> dim_varies_somewhere sc d}"

text \<open>Rows so far: one pivot each, all different; a dimension is spent by a row or by not varying.\<close>

definition rows_ok :: "scop \<Rightarrow> synth_state \<Rightarrow> bool" where
  "rows_ok sc st \<longleftrightarrow> length (ss_pivotDim st) = length (ss_rows st) \<and> length (ss_parallel st) = length (ss_rows st)
     \<and> length (ss_spent st) = scop_depth sc \<and> distinct (ss_pivotDim st) \<and> set (ss_pivotDim st) \<subseteq> varying_dims sc
     \<and> (\<forall>d < scop_depth sc. ss_spent st ! d \<longleftrightarrow> d \<in> set (ss_pivotDim st) \<or> ss_spent st ! d \<and> \<not> dim_varies_somewhere sc d)"

lemma next_pivot_spec:
  assumes "next_pivot sc order spent = Inr (found, spent')"
  shows "length spent' = length spent \<and> (\<forall>d < length spent. spent' ! d \<longrightarrow> spent ! d \<or> \<not> dim_varies_somewhere sc d)
    \<and> (\<forall>d < length spent. spent ! d \<longrightarrow> spent' ! d)
    \<and> (case found of Some p \<Rightarrow> p \<in> set order \<and> p < length spent \<and> \<not> spent ! p \<and> dim_varies_somewhere sc p
       | None \<Rightarrow> \<forall>p \<in> set order. p < length spent \<and> (spent ! p \<or> \<not> dim_varies_somewhere sc p))"
  using assms
proof (induction order arbitrary: spent)
  case Nil
  then show ?case by simp
next
  case (Cons p order)
  from Cons.prems have p: "p < length spent"
    and k: "(if spent ! p then next_pivot sc order spent else if dim_varies_somewhere sc p then Inr (Some p, spent)
        else next_pivot sc order (spent[p := True])) = Inr (found, spent')" by (auto simp: mlk_try_Inr_iff vec_at_Inr)
  consider "spent ! p" | "\<not> spent ! p" "dim_varies_somewhere sc p" | "\<not> spent ! p" "\<not> dim_varies_somewhere sc p" by blast
  then show ?case
  proof cases
    case 1
    then have "next_pivot sc order spent = Inr (found, spent')" using k by simp
    from Cons.IH [OF this] 1 p show ?thesis by (auto split: option.splits)
  next
    case 2
    then show ?thesis using k p by auto
  next
    case 3
    then have "next_pivot sc order (spent[p := True]) = Inr (found, spent')" using k by simp
    note IH = Cons.IH [OF this]
    have "spent[p := True] ! d \<longleftrightarrow> spent ! d \<or> d = p" if "d < length spent" for d using that p by (auto simp: nth_list_update)
    with IH 3 p show ?thesis by (auto split: option.splits)
  qed
qed

lemma synth_rows_spec:
  assumes "synth_rows n sc deps order st = Inr (Some st', b)" and "rows_ok sc st" and "varying_dims sc \<subseteq> set order"
    and "scop_depth sc < n + length (ss_rows st)"
  shows "rows_ok sc st' \<and> set (ss_pivotDim st') = varying_dims sc"
  using assms
proof (induction n arbitrary: st)
  case 0
  have "card (set (ss_pivotDim st)) = length (ss_rows st)" using 0 by (simp add: rows_ok_def distinct_card)
  moreover have "set (ss_pivotDim st) \<subseteq> {..<scop_depth sc}" using 0 by (auto simp: rows_ok_def varying_dims_def)
  then have "card (set (ss_pivotDim st)) \<le> scop_depth sc" using card_mono [of "{..<scop_depth sc}"] by simp
  ultimately show ?case using 0 by simp
next
  case (Suc n)
  from Suc.prems(1) obtain found spent where np: "next_pivot sc order (ss_spent st) = Inr (found, spent)"
    and k: "(case found of
         None \<Rightarrow> Inr (Some (st\<lparr>ss_spent := spent\<rparr>), ss_budget st)
       | Some pv \<Rightarrow>
           mlk_try (choose_row sc (live_deps deps (ss_states st)) spent pv (ss_budget st)) (\<lambda>(row, budget).
           mlk_try (attempt (processRow deps (ss_states st) row (scop_depth sc) (ss_carried st))) (\<lambda>res.
             case res of
               None \<Rightarrow> Inr (None, budget)
             | Some (par, sts, carried) \<Rightarrow>
                 synth_rows n sc deps order
                   \<lparr>ss_rows = ss_rows st @ [row], ss_pivotDim = ss_pivotDim st @ [pv], ss_parallel = ss_parallel st @ [par],
                    ss_states = sts, ss_carried = carried, ss_spent = spent[pv := True], ss_budget = budget\<rparr>)))
      = Inr (Some st', b)" by (auto simp: mlk_try_Inr_iff)
  note p = next_pivot_spec [OF np]
  have len: "length (ss_spent st) = scop_depth sc" using Suc.prems(2) by (simp add: rows_ok_def)
  show ?case
  proof (cases found)
    case None
    then have st': "st' = st\<lparr>ss_spent := spent\<rparr>" using k by simp
    have "d \<in> set (ss_pivotDim st)" if "d \<in> varying_dims sc" for d
      using that p None Suc.prems(2,3) len by (auto simp: rows_ok_def varying_dims_def)
    then show ?thesis using Suc.prems(2) p len by (auto simp: rows_ok_def st')
  next
    case (Some pv)
    from k obtain row budget par sts carried where r: "synth_rows n sc deps order
        \<lparr>ss_rows = ss_rows st @ [row], ss_pivotDim = ss_pivotDim st @ [pv], ss_parallel = ss_parallel st @ [par],
         ss_states = sts, ss_carried = carried, ss_spent = spent[pv := True], ss_budget = budget\<rparr> = Inr (Some st', b)"
      by (auto simp: Some mlk_try_Inr_iff split: option.splits)
    have pv: "pv < scop_depth sc" "\<not> ss_spent st ! pv" "dim_varies_somewhere sc pv" using p Some len by auto
    then have new: "pv \<notin> set (ss_pivotDim st)" using Suc.prems(2) by (auto simp: rows_ok_def)
    show ?thesis
      by (rule Suc.IH [OF r])
        (use Suc.prems p pv new len in \<open>auto simp: rows_ok_def varying_dims_def nth_list_update\<close>)
  qed
qed

text \<open>The schedule of an order over all varying dimensions.\<close>

definition schedule_shape :: "scop \<Rightarrow> poly_schedule \<Rightarrow> bool" where
  "schedule_shape sc s \<longleftrightarrow> ps_depth s = scop_depth sc \<and> ps_nStmts s = length (scop_statements sc)
     \<and> length (ps_pivotDim s) = length (ps_rows s) \<and> length (ps_parallel s) = length (ps_rows s)
     \<and> distinct (ps_pivotDim s) \<and> set (ps_pivotDim s) = varying_dims sc
     \<and> ps_vectorizable s = last_parallel (ps_parallel s)"

lemma synthesize_shape:
  assumes "synthesizeWithOrder sc deps order budget = Inr (Some out, b)" and "varying_dims sc \<subseteq> set order"
    and "scop_depth sc \<le> kPolyMaxDims"
  shows "schedule_shape sc (so_sched out)"
proof -
  let ?st = "\<lparr>ss_rows = [], ss_pivotDim = [], ss_parallel = [], ss_states = map (\<lambda>d. (dep_relation d, False)) deps,
        ss_carried = rat_zero, ss_spent = replicate (scop_depth sc) False, ss_budget = budget\<rparr>"
  from assms(1) obtain st where s: "synth_rows kPolyMaxScheduleRows sc deps order ?st = Inr (Some st, b)"
    and out: "so_sched out = \<lparr>ps_depth = scop_depth sc, ps_nStmts = length (scop_statements sc),
           ps_rows = ss_rows st, ps_pivotDim = ss_pivotDim st, ps_parallel = ss_parallel st,
           ps_vectorizable = last_parallel (ss_parallel st)\<rparr>"
    by (auto simp: synthesizeWithOrder_def mlk_try_Inr_iff)
  have "rows_ok sc ?st" by (simp add: rows_ok_def)
  from synth_rows_spec [OF s this assms(2)] assms(3) show ?thesis
    by (simp add: schedule_shape_def out rows_ok_def kPolyMaxDims_def kPolyMaxScheduleRows_def)
qed

section \<open>The search\<close>

definition best_ok :: "scop \<Rightarrow> search_state \<Rightarrow> bool" where
  "best_ok sc se \<longleftrightarrow> (\<forall>out score order. se_best se = Some (out, score, order)
     \<longrightarrow> schedule_shape sc (so_sched out) \<and> scheduleCodegenShape sc (so_sched out) = Inr True)"

lemma consider_order_ok:
  assumes "consider_order sc deps order se = Inr se'" and "best_ok sc se" and "varying_dims sc \<subseteq> set order" and "scop_depth sc \<le> kPolyMaxDims"
  shows "best_ok sc se'"
proof -
  from assms(1) obtain cand lps where s: "synthesizeWithOrder sc deps order (min (se_globalLps se) kPolyMaxOrderLps) = Inr (cand, lps)"
    and k: "(let se = se\<lparr>se_globalLps := charge_budget (se_globalLps se) lps\<rparr> in
       case cand of
         None \<Rightarrow> Inr se
       | Some out \<Rightarrow>
           mlk_try (scheduleCodegenShape sc (so_sched out)) (\<lambda>shape.
             if \<not> shape then Inr se
             else mlk_try (scoreSchedule sc out) (\<lambda>score.
               case se_best se of
                 None \<Rightarrow> Inr (se\<lparr>se_best := Some (out, score, order)\<rparr>)
               | Some (_, bestScore, bestOrder) \<Rightarrow>
                   Inr (if scoreBetter score bestScore order bestOrder then se\<lparr>se_best := Some (out, score, order)\<rparr> else se)))) = Inr se'"
    by (auto simp: consider_order_def mlk_try_Inr_iff)
  show ?thesis
  proof (cases cand)
    case None
    then show ?thesis using k assms(2) by (auto simp: Let_def best_ok_def)
  next
    case (Some out)
    have "schedule_shape sc (so_sched out)" by (rule synthesize_shape [OF s [unfolded Some] assms(3,4)])
    moreover have "scheduleCodegenShape sc (so_sched out) = Inr True \<and> (\<exists>score order. se_best se' = Some (out, score, order))
      \<or> se_best se' = se_best se"
      using k Some by (cases "scheduleCodegenShape sc (so_sched out)"; cases "scoreSchedule sc out"; cases "se_best se")
        (auto simp: Let_def mlk_try_def split: if_splits)
    ultimately show ?thesis using assms(2) unfolding best_ok_def by fastforce
  qed
qed

lemma consider_orders_ok:
  assumes "consider_orders sc deps orders se = Inr se'" and "best_ok sc se"
    and "\<And>order. order \<in> set orders \<Longrightarrow> varying_dims sc \<subseteq> set order" and "scop_depth sc \<le> kPolyMaxDims"
  shows "best_ok sc se'"
  using assms(1-3)
proof (induction orders arbitrary: se)
  case (Cons order orders)
  from Cons.prems(1) obtain se1 where c: "consider_order sc deps order se = Inr se1"
    and k: "(if se_globalLps se1 = 0 then Inr se1 else consider_orders sc deps orders se1) = Inr se'" by (auto simp: mlk_try_Inr_iff)
  have ok: "best_ok sc se1" using consider_order_ok [OF c Cons.prems(2) _ assms(4)] Cons.prems(3) by simp
  show ?case using k ok Cons.IH [OF _ ok] Cons.prems(3) by (auto split: if_splits)
qed simp

lemma lex_perms_set: "order \<in> set (lex_perms xs) \<Longrightarrow> set order = set xs"
proof (induction xs arbitrary: order rule: lex_perms.induct)
  case (2 x xs)
  then obtain y o' where y: "y \<in> set (x # xs)" "order = y # o'" "o' \<in> set (lex_perms (remove1 y (x # xs)))" by auto
  have "set (x # xs) = insert y (set (remove1 y (x # xs)))" using y(1) by (cases "y = x") (auto simp: in_set_remove1 dest: set_remove1_subset [THEN subsetD])
  then show ?case using "2.IH" [OF y(1,3)] y(2) by simp
qed simp

lemma greedy_search_ok:
  assumes "greedy_search n sc deps varying prefix se = Inr se'" and "best_ok sc se"
    and "varying_dims sc \<subseteq> set varying" and "scop_depth sc \<le> kPolyMaxDims"
  shows "best_ok sc se'"
  using assms(1,2)
proof (induction n arbitrary: prefix se)
  case (Suc n)
  from Suc.prems(1) obtain se1 where c: "consider_orders sc deps (greedy_orders varying prefix) se = Inr se1"
    and k: "(case greedy_choice varying prefix se1 of None \<Rightarrow> Inr se1 | Some c \<Rightarrow> greedy_search n sc deps varying (prefix @ [c]) se1) = Inr se'"
    by (auto simp: mlk_try_Inr_iff)
  have "varying_dims sc \<subseteq> set order" if "order \<in> set (greedy_orders varying prefix)" for order
    using that assms(3) by (auto simp: greedy_orders_def)
  from consider_orders_ok [OF c Suc.prems(2) this assms(4)] k Suc.IH show ?case by (auto split: option.splits)
qed simp

lemma pluto_shape:
  assumes "computePlutoSchedule sc deps = Inr sched" and "scop_depth sc \<le> kPolyMaxDims"
  shows "schedule_shape sc sched \<and> scheduleCodegenShape sc sched = Inr True"
proof -
  let ?v = "filter (dim_varies_somewhere sc) [0..<scop_depth sc]" and ?start = "\<lparr>se_globalLps = kPolyMaxSchedulerLps, se_best = None\<rparr>"
  have v: "varying_dims sc \<subseteq> set ?v" by (auto simp: varying_dims_def)
  have s: "best_ok sc ?start" by (simp add: best_ok_def)
  from assms(1) obtain se where k: "(if length ?v \<le> kPolyMaxOrderEnumerateDepth then consider_orders sc deps (lex_perms ?v) ?start
               else greedy_search (length ?v) sc deps ?v [] ?start) = Inr se"
    and b: "\<exists>out score order. se_best se = Some (out, score, order) \<and> sched = so_sched out"
    by (auto simp: computePlutoSchedule_def Let_def mlk_try_Inr_iff split: if_splits option.splits)
  have "best_ok sc se"
  proof (cases "length ?v \<le> kPolyMaxOrderEnumerateDepth")
    case True
    then have c: "consider_orders sc deps (lex_perms ?v) ?start = Inr se" using k by simp
    show ?thesis by (rule consider_orders_ok [OF c s _ assms(2)]) (use v lex_perms_set in blast)
  next
    case False
    then have "greedy_search (length ?v) sc deps ?v [] ?start = Inr se" using k by simp
    then show ?thesis by (rule greedy_search_ok [OF _ s v assms(2)])
  qed
  with b show ?thesis by (auto simp: best_ok_def)
qed

section \<open>Readings of the shape\<close>

lemma shape_rows_pinned:
  "shape_rows s rows pivots r = Inr True \<Longrightarrow> i < length rows \<Longrightarrow> rowEffectiveConst s (rows ! i) = Inr (Some v)
     \<Longrightarrow> dimPinnedAt s (pivots ! (r + i)) \<noteq> None"
proof (induction rows arbitrary: r i)
  case (Cons row rows)
  show ?case
  proof (cases i)
    case 0
    then show ?thesis using Cons.prems by (auto simp: mlk_try_Inr_iff vec_at_Inr split: if_splits)
  next
    case (Suc j)
    from Cons.prems(1) have "shape_rows s rows pivots (Suc r) = Inr True" by (auto simp: mlk_try_Inr_iff split: if_splits)
    from Cons.IH [OF this, of j] Cons.prems(2,3) Suc show ?thesis by simp
  qed
qed simp

lemma shape_statements_rows: "shape_statements ss sched = Inr True \<Longrightarrow> s \<in> set ss \<Longrightarrow> shape_rows s (ps_rows sched) (ps_pivotDim sched) 0 = Inr True"
  by (induction ss) (auto simp: mlk_try_Inr_iff split: if_splits)

text \<open>Only the last parallel row is marked for vectors.\<close>

lemma last_parallel_nth:
  assumes "r < length par"
  shows "last_parallel par ! r \<longleftrightarrow> par ! r \<and> (\<forall>q. r < q \<and> q < length par \<longrightarrow> \<not> par ! q)"
proof (cases "find_index id (rev par)")
  case None
  then have "\<forall>b \<in> set par. \<not> b" unfolding find_index_None by simp
  then have "\<not> par ! r" using nth_mem [OF assms] by blast
  moreover have "last_parallel par = replicate (length par) False" unfolding last_parallel_def None by simp
  then have "\<not> last_parallel par ! r" using assms by simp
  ultimately show ?thesis by blast
next
  case (Some i)
  from find_index_Some [OF Some] have i: "i < length par" "rev par ! i" "\<And>j. j < i \<Longrightarrow> \<not> rev par ! j" by auto
  let ?l = "length par - 1 - i"
  have l: "?l < length par" "par ! ?l" using i by (simp_all add: rev_nth)
  have after: "\<not> par ! q" if "?l < q" "q < length par" for q
    using i(3) [of "length par - 1 - q"] that by (simp add: rev_nth)
  have "last_parallel par ! r \<longleftrightarrow> r = ?l" using assms l(1) by (auto simp: last_parallel_def Some nth_list_update)
  then show ?thesis using l after assms by (metis linorder_neqE_nat)
qed

lemma length_last_parallel [simp]: "length (last_parallel par) = length par"
  by (simp add: last_parallel_def split: option.splits)

end
