(* ===== verification/Index_Set.thy ===== *)
theory Index_Set
  imports Prelude "HOL-Library.Word"
begin

text \<open>
  The interface that the compiler's index sets share, \<open>SparseSet\<close> and \<open>BitVector\<close>: insertion,
  removal and lookup of an index below the universe of the set. What a client may rely on is
  proved here once, over any implementation of the interface.
\<close>

datatype set_op = Insert_op nat | Remove_op nat

fun op_index_of :: "set_op \<Rightarrow> nat" where
  "op_index_of (Insert_op i) = i"
| "op_index_of (Remove_op i) = i"

text \<open>The specification: the same operations on a set of indices.\<close>

fun set_step :: "set_op \<Rightarrow> nat set \<Rightarrow> nat set" where
  "set_step (Insert_op i) A = insert i A"
| "set_step (Remove_op i) A = A - {i}"

fun impl_step :: "(nat \<Rightarrow> 's \<Rightarrow> 's result) \<Rightarrow> (nat \<Rightarrow> 's \<Rightarrow> 's result) \<Rightarrow> set_op \<Rightarrow> 's \<Rightarrow> 's result" where
  "impl_step ins del (Insert_op i) s = ins i s"
| "impl_step ins del (Remove_op i) s = del i s"

locale index_set =
  fixes wf :: "'s \<Rightarrow> bool" and elems :: "'s \<Rightarrow> nat set" and universe :: "'s \<Rightarrow> nat"
    and ins del :: "nat \<Rightarrow> 's \<Rightarrow> 's result" and mem :: "nat \<Rightarrow> 's \<Rightarrow> bool result"
  assumes ins: "wf s \<Longrightarrow> i < universe s \<Longrightarrow> \<exists>t. ins i s = Inr t \<and> wf t \<and> universe t = universe s \<and> elems t = insert i (elems s)"
    and del: "wf s \<Longrightarrow> i < universe s \<Longrightarrow> \<exists>t. del i s = Inr t \<and> wf t \<and> universe t = universe s \<and> elems t = elems s - {i}"
    and mem: "wf s \<Longrightarrow> i < universe s \<Longrightarrow> mem i s = Inr (i \<in> elems s)"
begin

lemma step_refines:
  assumes "wf s" and "op_index_of p < universe s"
  shows "\<exists>t. impl_step ins del p s = Inr t \<and> wf t \<and> universe t = universe s \<and> elems t = set_step p (elems s)"
  using assms ins del by (cases p) simp_all

lemma run_refines:
  assumes "wf s" and "\<forall>p \<in> set ps. op_index_of p < universe s"
  shows "\<exists>t. fold_res (impl_step ins del) ps s = Inr t \<and> wf t \<and> universe t = universe s \<and> elems t = fold set_step ps (elems s)"
  using assms
proof (induction ps arbitrary: s)
  case (Cons p ps)
  then obtain t where t: "impl_step ins del p s = Inr t" "wf t" "universe t = universe s" "elems t = set_step p (elems s)"
    using step_refines [of s p] by auto
  with Cons.IH [of t] Cons.prems show ?case by auto
qed simp

lemma run_mem:
  assumes "wf s" and "\<forall>p \<in> set ps. op_index_of p < universe s" and "i < universe s"
  shows "mlk_try (fold_res (impl_step ins del) ps s) (mem i) = Inr (i \<in> fold set_step ps (elems s))"
  using run_refines [OF assms(1,2)] mem assms(3) by auto

end

text \<open>
  \<open>compiler/include/mlk/core/bitvector.h\<close>: a set of indices in 64-bit words. Bit indexing is not
  checked by the source, so an index past the last word is undefined behaviour. The meaning of a
  vector is the set of its one bits; \<open>wf_bv\<close> says that it has the words \<open>resize\<close> gave it.
\<close>

unbundle bit_operations_syntax

record bit_vector =
  bv_words :: "64 word list"
  bv_size :: nat

definition bv_resize :: "nat \<Rightarrow> bit_vector" where
  "bv_resize bits = \<lparr>bv_words = replicate ((bits + 63) div 64) 0, bv_size = bits\<rparr>"

definition bv_update :: "(64 word \<Rightarrow> 64 word) \<Rightarrow> nat \<Rightarrow> bit_vector \<Rightarrow> bit_vector result" where
  "bv_update f i b = mlk_try (vec_at (bv_words b) (i div 64)) (\<lambda>w.
     Inr (b\<lparr>bv_words := (bv_words b)[i div 64 := f w]\<rparr>))"

definition bv_set :: "nat \<Rightarrow> bit_vector \<Rightarrow> bit_vector result" where
  "bv_set i = bv_update (\<lambda>w. w OR push_bit (i mod 64) 1) i"

definition bv_reset :: "nat \<Rightarrow> bit_vector \<Rightarrow> bit_vector result" where
  "bv_reset i = bv_update (\<lambda>w. w AND NOT (push_bit (i mod 64) 1)) i"

definition bv_clear :: "bit_vector \<Rightarrow> bit_vector" where
  "bv_clear b = b\<lparr>bv_words := replicate (length (bv_words b)) 0\<rparr>"

definition bv_test :: "nat \<Rightarrow> bit_vector \<Rightarrow> bool result" where
  "bv_test i b = mlk_try (vec_at (bv_words b) (i div 64)) (\<lambda>w. Inr (drop_bit (i mod 64) w AND 1 \<noteq> 0))"

definition bv_or :: "bit_vector \<Rightarrow> bit_vector \<Rightarrow> bit_vector" where
  "bv_or a b = (let n = min (length (bv_words a)) (length (bv_words b)) in
     a\<lparr>bv_words := map2 (OR) (take n (bv_words a)) (take n (bv_words b)) @ drop n (bv_words a)\<rparr>)"

definition bv_and :: "bit_vector \<Rightarrow> bit_vector \<Rightarrow> bit_vector" where
  "bv_and a b = a\<lparr>bv_words := map (\<lambda>i. bv_words a ! i AND (if i < length (bv_words b) then bv_words b ! i else 0))
     [0..<length (bv_words a)]\<rparr>"

definition bv_equal :: "bit_vector \<Rightarrow> bit_vector \<Rightarrow> bool" where
  "bv_equal a b \<longleftrightarrow> bv_size a = bv_size b \<and> bv_words a = bv_words b"

definition unionWith :: "bit_vector \<Rightarrow> bit_vector \<Rightarrow> bit_vector \<times> bool" where
  "unionWith a b = (let n = min (length (bv_words a)) (length (bv_words b)) in
     (bv_or a b, list_ex (\<lambda>i. (bv_words a ! i OR bv_words b ! i) \<noteq> bv_words a ! i) [0..<n]))"

definition bv_any :: "bit_vector \<Rightarrow> bool" where
  "bv_any b \<longleftrightarrow> list_ex (\<lambda>w. w \<noteq> 0) (bv_words b)"

text \<open>The builtin counts the one bits of a word.\<close>

definition popcountll :: "64 word \<Rightarrow> nat" where
  "popcountll w = length (filter (bit w) [0..<64])"

definition bv_popcount :: "bit_vector \<Rightarrow> nat" where
  "bv_popcount b = fold (\<lambda>w n. n + popcountll w) (bv_words b) 0"

section \<open>Meaning\<close>

definition members :: "64 word list \<Rightarrow> nat set" where
  "members ws = {i. i div 64 < length ws \<and> bit (ws ! (i div 64)) (i mod 64)}"

abbreviation bv_members :: "bit_vector \<Rightarrow> nat set" where
  "bv_members b \<equiv> members (bv_words b)"

definition wf_bv :: "bit_vector \<Rightarrow> bool" where
  "wf_bv b \<longleftrightarrow> length (bv_words b) = (bv_size b + 63) div 64"

lemma index_split: "i div 64 = j div 64 \<and> i mod 64 = j mod 64 \<longleftrightarrow> i = (j :: nat)"
  by (metis mod_mult_div_eq)

lemma ex_index: "(\<exists>j :: nat. P (j div 64) (j mod 64)) \<longleftrightarrow> (\<exists>i. \<exists>k < 64. P i k)"
proof
  assume "\<exists>i. \<exists>k < 64. P i k"
  then obtain i k where "k < 64" "P i k" by blast
  then have "P ((i * 64 + k) div 64) ((i * 64 + k) mod 64)" by simp
  then show "\<exists>j. P (j div 64) (j mod 64)" by blast
qed (meson mod_less_divisor zero_less_numeral)

lemma shifted_one_bit [simp]: "bit (push_bit j (1 :: 64 word)) k \<longleftrightarrow> k = j \<and> k < 64"
  by (auto simp: bit_simps)

lemma members_update:
  assumes "i div 64 < length ws"
  shows "members (ws[i div 64 := ws ! (i div 64) OR push_bit (i mod 64) 1]) = insert i (members ws)"
    and "members (ws[i div 64 := ws ! (i div 64) AND NOT (push_bit (i mod 64) 1)]) = members ws - {i}"
proof -
  have e: "j mod 64 = i mod 64 \<longleftrightarrow> j = i" if "j div 64 = i div 64" for j using index_split [of j i] that by simp
  show "members (ws[i div 64 := ws ! (i div 64) OR push_bit (i mod 64) 1]) = insert i (members ws)"
    using assms e by (auto simp: members_def nth_list_update bit_simps)
  show "members (ws[i div 64 := ws ! (i div 64) AND NOT (push_bit (i mod 64) 1)]) = members ws - {i}"
    using assms e by (auto simp: members_def nth_list_update bit_simps)
qed

lemma wf_bv_index: "wf_bv b \<Longrightarrow> i < bv_size b \<Longrightarrow> i div 64 < length (bv_words b)"
  by (auto simp: wf_bv_def)

lemma bv_resize_spec: "wf_bv (bv_resize n) \<and> bv_members (bv_resize n) = {} \<and> bv_size (bv_resize n) = n"
  by (auto simp: bv_resize_def wf_bv_def members_def)

lemma bv_set_spec:
  assumes "i div 64 < length (bv_words b)"
  shows "\<exists>b'. bv_set i b = Inr b' \<and> bv_members b' = insert i (bv_members b) \<and> bv_size b' = bv_size b \<and> wf_bv b' = wf_bv b"
  using assms members_update(1) [of i "bv_words b"] by (auto simp: bv_set_def bv_update_def vec_at_def wf_bv_def)

lemma bv_reset_spec:
  assumes "i div 64 < length (bv_words b)"
  shows "\<exists>b'. bv_reset i b = Inr b' \<and> bv_members b' = bv_members b - {i} \<and> bv_size b' = bv_size b \<and> wf_bv b' = wf_bv b"
  using assms members_update(2) [of i "bv_words b"] by (auto simp: bv_reset_def bv_update_def vec_at_def wf_bv_def)

lemma bv_test_spec: "bv_test i b = (if i div 64 < length (bv_words b) then Inr (i \<in> bv_members b) else Inl UndefinedBehaviour)"
  by (auto simp: bv_test_def vec_at_def members_def and_one_eq bit_iff_odd_drop_bit odd_iff_mod_2_eq_one)

lemma bv_clear_spec: "bv_members (bv_clear b) = {} \<and> bv_size (bv_clear b) = bv_size b \<and> wf_bv (bv_clear b) = wf_bv b"
  by (auto simp: bv_clear_def members_def wf_bv_def)

lemma words_or_nth:
  "i < length ws \<Longrightarrow> (let n = min (length ws) (length vs) in map2 (OR) (take n ws) (take n vs) @ drop n ws) ! i
     = (if i < length vs then ws ! i OR vs ! i else (ws ! i :: 64 word))"
  by (auto simp: nth_append Let_def min_def)

lemma bv_or_members: "bv_members (bv_or a b) = bv_members a \<union> {i \<in> bv_members b. i div 64 < length (bv_words a)}"
proof -
  have "length (bv_words (bv_or a b)) = length (bv_words a)" by (auto simp: bv_or_def Let_def)
  moreover have "bv_words (bv_or a b) ! i = (if i < length (bv_words b) then bv_words a ! i OR bv_words b ! i else bv_words a ! i)"
    if "i < length (bv_words a)" for i using words_or_nth [OF that] by (simp add: bv_or_def Let_def)
  ultimately show ?thesis by (auto simp: members_def bit_simps split: if_splits)
qed

lemma bv_and_members: "bv_members (bv_and a b) = bv_members a \<inter> bv_members b"
  by (auto simp: bv_and_def members_def bit_simps split: if_splits)

lemma word_or_change: "a OR b \<noteq> a \<longleftrightarrow> (\<exists>k < 64. bit b k \<and> \<not> bit (a :: 64 word) k)"
  by (auto simp: bit_eq_iff bit_simps dest: bit_imp_le_length)

lemma unionWith_changed: "snd (unionWith a b) \<longleftrightarrow> bv_members (bv_or a b) \<noteq> bv_members a"
proof -
  let ?n = "min (length (bv_words a)) (length (bv_words b))"
  have "snd (unionWith a b) \<longleftrightarrow> (\<exists>i < ?n. \<exists>k < 64. bit (bv_words b ! i) k \<and> \<not> bit (bv_words a ! i) k)"
    by (auto simp: unionWith_def Let_def list_ex_iff word_or_change)
  also have "\<dots> \<longleftrightarrow> (\<exists>i. \<exists>k < 64. i < ?n \<and> bit (bv_words b ! i) k \<and> \<not> bit (bv_words a ! i) k)" by blast
  also have "\<dots> \<longleftrightarrow> (\<exists>j. j \<in> bv_members b \<and> j div 64 < length (bv_words a) \<and> j \<notin> bv_members a)"
    unfolding ex_index [symmetric] by (auto simp: members_def)
  also have "\<dots> \<longleftrightarrow> bv_members (bv_or a b) \<noteq> bv_members a" by (auto simp: bv_or_members)
  finally show ?thesis .
qed

lemma bv_any_members: "bv_any b \<longleftrightarrow> bv_members b \<noteq> {}"
proof -
  have "w \<noteq> 0 \<longleftrightarrow> (\<exists>k < 64. bit w k)" for w :: "64 word"
    by (auto simp: bit_eq_iff dest: bit_imp_le_length)
  then have "bv_any b \<longleftrightarrow> (\<exists>i. \<exists>k < 64. i < length (bv_words b) \<and> bit (bv_words b ! i) k)"
    by (auto simp: bv_any_def list_ex_length)
  also have "\<dots> \<longleftrightarrow> bv_members b \<noteq> {}" unfolding ex_index [symmetric] by (auto simp: members_def)
  finally show ?thesis .
qed

lemma members_snoc: "members (ws @ [w]) = members ws \<union> (\<lambda>k. length ws * 64 + k) ` {k. k < 64 \<and> bit w k}"
proof (intro set_eqI iffI)
  fix i assume "i \<in> members (ws @ [w])"
  then consider "i div 64 < length ws" "bit (ws ! (i div 64)) (i mod 64)" | "i div 64 = length ws" "bit w (i mod 64)"
    by (auto simp: members_def nth_append less_Suc_eq split: if_splits)
  then show "i \<in> members ws \<union> (\<lambda>k. length ws * 64 + k) ` {k. k < 64 \<and> bit w k}"
  proof cases
    case 2
    then have "i = length ws * 64 + i mod 64" by presburger
    with 2(2) show ?thesis by (auto intro!: image_eqI [of _ _ "i mod 64"])
  qed (simp add: members_def)
qed (auto simp: members_def nth_append)

lemma finite_members: "finite (members ws)"
  by (rule finite_subset [of _ "{..<length ws * 64}"]) (auto simp: members_def)

lemma bv_popcount_card: "bv_popcount b = card (bv_members b)"
proof -
  have pc: "popcountll w = card {k. k < 64 \<and> bit w k}" for w
    using length_filter_conv_card [of "bit w" "[0..<64]"] by (simp add: popcountll_def cong: conj_cong)
  have "fold (\<lambda>w n. n + popcountll w) ws 0 = card (members ws)" for ws
  proof (induction ws rule: rev_induct)
    case (snoc w ws)
    have "card (members (ws @ [w])) = card (members ws) + card ((\<lambda>k. length ws * 64 + k) ` {k. k < 64 \<and> bit w k})"
      unfolding members_snoc by (rule card_Un_disjoint) (auto simp: finite_members, auto simp: members_def)
    with snoc show ?case by (simp add: pc card_image)
  qed (simp add: members_def)
  then show ?thesis by (simp add: bv_popcount_def)
qed

end
