(* ===== verification/Sparse_Set.thy ===== *)
theory Sparse_Set
  imports Index_Set
begin

text \<open>
  \<open>compiler/include/mlk/core/sparse_set.h\<close>: a dense vector of the members and, per index of the
  universe, its position there or the marker \<open>kNotFound\<close>. Vector accesses are unchecked. Both index
  sets of the compiler are then shown to provide the common interface.
\<close>

definition kNotFound :: int where "kNotFound = 4294967295"

record sparse_set =
  sp_dense :: "nat list"
  sp_sparse :: "int list"
  sp_universe :: nat

definition sp_reset :: "nat \<Rightarrow> sparse_set" where
  "sp_reset universe = \<lparr>sp_dense = [], sp_sparse = replicate universe kNotFound, sp_universe = universe\<rparr>"

definition sp_contains :: "nat \<Rightarrow> sparse_set \<Rightarrow> bool result" where
  "sp_contains v s =
     (if \<not> v < sp_universe s then Inr False
      else mlk_try (vec_at (sp_sparse s) v) (\<lambda>idx.
        if idx = kNotFound then Inr False
        else mlk_try (vec_at (sp_dense s) (nat idx)) (\<lambda>u. Inr (u = v))))"

definition vec_put :: "'a list \<Rightarrow> nat \<Rightarrow> 'a \<Rightarrow> 'a list result" where
  "vec_put xs i x = (if i < length xs then Inr (xs[i := x]) else Inl UndefinedBehaviour)"

definition sp_insert :: "nat \<Rightarrow> sparse_set \<Rightarrow> sparse_set result" where
  "sp_insert v s =
     mlk_try (sp_contains v s) (\<lambda>c.
       if c then Inr s
       else mlk_try (vec_put (sp_sparse s) v (int (length (sp_dense s)) mod 4294967296)) (\<lambda>sparse.
         Inr (s\<lparr>sp_sparse := sparse, sp_dense := sp_dense s @ [v]\<rparr>)))"

definition sp_remove :: "nat \<Rightarrow> sparse_set \<Rightarrow> sparse_set result" where
  "sp_remove v s =
     mlk_try (sp_contains v s) (\<lambda>c.
       if \<not> c then Inr s
       else mlk_try (vec_at (sp_sparse s) v) (\<lambda>idx.
         let last_v = last (sp_dense s) in
         mlk_try (vec_put (sp_dense s) (nat idx) last_v) (\<lambda>dense.
         mlk_try (vec_put (sp_sparse s) last_v idx) (\<lambda>sparse.
         mlk_try (vec_put sparse v kNotFound) (\<lambda>sparse.
           Inr (s\<lparr>sp_dense := butlast dense, sp_sparse := sparse\<rparr>))))))"

definition sp_size :: "sparse_set \<Rightarrow> nat" where "sp_size s = length (sp_dense s)"

definition sp_empty :: "sparse_set \<Rightarrow> bool" where "sp_empty s \<longleftrightarrow> sp_dense s = []"

definition sp_nth :: "sparse_set \<Rightarrow> nat \<Rightarrow> nat result" where "sp_nth s i = vec_at (sp_dense s) i"

definition sp_clear :: "sparse_set \<Rightarrow> sparse_set result" where
  "sp_clear s = mlk_try (fold_res (\<lambda>v sparse. vec_put sparse v kNotFound) (sp_dense s) (sp_sparse s)) (\<lambda>sparse.
     Inr (s\<lparr>sp_sparse := sparse, sp_dense := []\<rparr>))"

section \<open>Invariant\<close>

definition wf_sparse :: "sparse_set \<Rightarrow> bool" where
  "wf_sparse s \<longleftrightarrow> length (sp_sparse s) = sp_universe s \<and> sp_universe s < 4294967296 \<and> distinct (sp_dense s)
     \<and> (\<forall>v \<in> set (sp_dense s). v < sp_universe s)
     \<and> (\<forall>i < length (sp_dense s). sp_sparse s ! (sp_dense s ! i) = int i)
     \<and> (\<forall>v < sp_universe s. v \<notin> set (sp_dense s) \<longrightarrow> sp_sparse s ! v = kNotFound)"

lemma vec_put_Inr [result_simps]: "vec_put xs i x = Inr ys \<longleftrightarrow> i < length xs \<and> ys = xs[i := x]"
  by (auto simp: vec_put_def)

lemma dense_bound:
  assumes "wf_sparse s" shows "length (sp_dense s) \<le> sp_universe s"
proof -
  have "card (set (sp_dense s)) \<le> card {..<sp_universe s}" by (rule card_mono) (use assms in \<open>auto simp: wf_sparse_def\<close>)
  then show ?thesis using assms distinct_card [of "sp_dense s"] by (simp add: wf_sparse_def)
qed

lemma sp_contains_spec:
  assumes "wf_sparse s" shows "sp_contains v s = Inr (v \<in> set (sp_dense s))"
proof (cases "v \<in> set (sp_dense s)")
  case True
  then obtain i where i: "i < length (sp_dense s)" "sp_dense s ! i = v" by (auto simp: in_set_conv_nth)
  then have "sp_sparse s ! v = int i" "v < sp_universe s" "i < 4294967295"
    using assms dense_bound [OF assms] True by (auto simp: wf_sparse_def)
  with i assms True show ?thesis by (auto simp: sp_contains_def vec_at_def wf_sparse_def kNotFound_def)
next
  case False
  then show ?thesis using assms by (auto simp: sp_contains_def vec_at_def wf_sparse_def)
qed

lemma sp_insert_spec:
  assumes wf: "wf_sparse s" and v: "v < sp_universe s"
  shows "\<exists>t. sp_insert v s = Inr t \<and> wf_sparse t \<and> sp_universe t = sp_universe s \<and> set (sp_dense t) = insert v (set (sp_dense s))"
proof (cases "v \<in> set (sp_dense s)")
  case True
  with sp_contains_spec [OF wf, of v] wf show ?thesis by (auto simp: sp_insert_def)
next
  case False
  let ?n = "length (sp_dense s)"
  have n: "int ?n mod 4294967296 = int ?n" using dense_bound [OF wf] wf by (simp add: wf_sparse_def)
  let ?t = "s\<lparr>sp_sparse := (sp_sparse s)[v := int ?n], sp_dense := sp_dense s @ [v]\<rparr>"
  have "sp_insert v s = Inr ?t"
    using False v wf by (simp add: sp_insert_def sp_contains_spec [OF wf] vec_put_def n wf_sparse_def)
  moreover have "wf_sparse ?t" using wf v False
    by (auto simp: wf_sparse_def nth_append nth_list_update less_Suc_eq)
  ultimately show ?thesis by auto
qed

text \<open>Removal moves the last member into the gap.\<close>

lemma butlast_update:
  assumes "distinct xs" and "i < length xs"
  shows "distinct (butlast (xs[i := last xs]))" and "set (butlast (xs[i := last xs])) = set xs - {xs ! i}"
proof -
  obtain ys z where xs: "xs = ys @ [z]" using assms(2) by (cases xs rule: rev_cases) auto
  have "butlast (xs[i := last xs]) = (if i < length ys then ys[i := z] else ys)"
    using assms(2) by (auto simp: xs list_update_append butlast_append split: nat.split)
  then show "distinct (butlast (xs[i := last xs]))" "set (butlast (xs[i := last xs])) = set xs - {xs ! i}"
    using assms by (auto simp: xs nth_append distinct_list_update set_update_distinct less_Suc_eq)
qed

lemma sp_remove_spec:
  assumes wf: "wf_sparse s"
  shows "\<exists>t. sp_remove v s = Inr t \<and> wf_sparse t \<and> sp_universe t = sp_universe s \<and> set (sp_dense t) = set (sp_dense s) - {v}"
proof (cases "v \<in> set (sp_dense s)")
  case False
  with sp_contains_spec [OF wf, of v] wf show ?thesis by (auto simp: sp_remove_def)
next
  case True
  then obtain i where i: "i < length (sp_dense s)" and vi: "sp_dense s ! i = v" by (auto simp: in_set_conv_nth)
  let ?d = "sp_dense s" and ?l = "last (sp_dense s)" and ?u = "sp_universe s"
  let ?d' = "butlast (?d[i := ?l])" and ?s' = "(sp_sparse s)[?l := int i, v := kNotFound]"
  have ls: "length (sp_sparse s) = ?u" and pos: "\<forall>k < length ?d. sp_sparse s ! (?d ! k) = int k"
    and dist: "distinct ?d" and small: "\<forall>w \<in> set ?d. w < ?u" using wf by (auto simp: wf_sparse_def)
  have ne: "?d \<noteq> []" using i by auto
  have v: "v < ?u" "?l < ?u" "sp_sparse s ! v = int i"
    using small pos i vi last_in_set [OF ne] by auto
  have run: "sp_remove v s = Inr (s\<lparr>sp_dense := ?d', sp_sparse := ?s'\<rparr>)"
    using True v i by (simp add: sp_remove_def sp_contains_spec [OF wf] vec_at_def vec_put_def ls Let_def)
  note bu = butlast_update [OF dist i, unfolded vi]
  have "wf_sparse (s\<lparr>sp_dense := ?d', sp_sparse := ?s'\<rparr>)"
    unfolding wf_sparse_def
  proof (simp add: bu(1) ls, intro conjI ballI allI impI)
    show "?u < 4294967296" using wf by (simp add: wf_sparse_def)
    show "w < ?u" if "w \<in> set ?d'" for w using that small bu(2) by blast
  next
    fix k assume k: "k < length ?d - Suc 0"
    then have dk: "?d' ! k = (if k = i then ?l else ?d ! k)" by (simp add: nth_butlast)
    have "?l = ?d ! (length ?d - 1)" using ne by (rule last_conv_nth)
    then have "?d' ! k \<noteq> v" "k \<noteq> i \<longrightarrow> ?d ! k \<noteq> ?l"
      using dist i k vi dk by (auto simp: nth_eq_iff_index_eq)
    then show "?s' ! (?d' ! k) = int k" using dk pos k v ls small by (auto simp: nth_list_update)
  next
    fix w assume "w < ?u" "w \<notin> set ?d'"
    then show "?s' ! w = kNotFound" using bu(2) v ls wf True last_in_set [OF ne]
      by (auto simp: nth_list_update wf_sparse_def)
  qed
  with run bu(2) show ?thesis by simp
qed

lemma sp_reset_spec: "n < 4294967296 \<Longrightarrow> wf_sparse (sp_reset n) \<and> sp_dense (sp_reset n) = [] \<and> sp_universe (sp_reset n) = n"
  by (auto simp: sp_reset_def wf_sparse_def)

lemma clear_sparse:
  assumes "\<forall>v \<in> set vs. v < length xs"
  shows "\<exists>ys. fold_res (\<lambda>v sparse. vec_put sparse v kNotFound) vs xs = Inr ys \<and> length ys = length xs
    \<and> (\<forall>w < length xs. ys ! w = (if w \<in> set vs then kNotFound else xs ! w))"
  using assms
proof (induction vs arbitrary: xs)
  case (Cons v vs)
  from Cons.IH [of "xs[v := kNotFound]"] Cons.prems show ?case by (auto simp: vec_put_def nth_list_update)
qed simp

lemma sp_clear_spec:
  assumes wf: "wf_sparse s"
  shows "sp_clear s = Inr (sp_reset (sp_universe s))"
proof -
  obtain ys where ys: "fold_res (\<lambda>v sparse. vec_put sparse v kNotFound) (sp_dense s) (sp_sparse s) = Inr ys"
    "length ys = sp_universe s" "\<forall>w < sp_universe s. ys ! w = kNotFound"
    using clear_sparse [of "sp_dense s" "sp_sparse s"] wf by (auto simp: wf_sparse_def)
  then have "ys = replicate (sp_universe s) kNotFound" by (auto intro: nth_equalityI)
  with ys(1) show ?thesis by (simp add: sp_clear_def sp_reset_def)
qed

section \<open>The interface\<close>

interpretation sparse_set: index_set wf_sparse "\<lambda>s. set (sp_dense s)" sp_universe sp_insert sp_remove sp_contains
  by unfold_locales (use sp_insert_spec sp_remove_spec sp_contains_spec in auto)

interpretation bit_vector: index_set wf_bv "\<lambda>b. members (bv_words b)" bv_size bv_set bv_reset bv_test
proof unfold_locales
  fix b :: bit_vector and i assume b: "wf_bv b" "i < bv_size b"
  note idx = wf_bv_index [OF b]
  show "\<exists>t. bv_set i b = Inr t \<and> wf_bv t \<and> bv_size t = bv_size b \<and> bv_members t = insert i (bv_members b)"
    using bv_set_spec [OF idx] b by auto
  show "\<exists>t. bv_reset i b = Inr t \<and> wf_bv t \<and> bv_size t = bv_size b \<and> bv_members t = bv_members b - {i}"
    using bv_reset_spec [OF idx] b by auto
  show "bv_test i b = Inr (i \<in> bv_members b)" using idx by (simp add: bv_test_spec)
qed

end
