(* ===== verification/Map_Store.thy ===== *)
theory Map_Store
  imports Prelude
begin

text \<open>
  The interface of a map that lives in memory: reading and writing a key, and removing one. A call
  may fail and may not return; the laws say that it does neither. \<open>room\<close> is what the map needs to
  accept a write.
\<close>

text \<open>Sequencing of calls that may fail or not return.\<close>

definition then_call :: "'a result option \<Rightarrow> ('a \<Rightarrow> 'b result option) \<Rightarrow> 'b result option" where
  "then_call r f = (case r of None \<Rightarrow> None | Some (Inl e) \<Rightarrow> Some (Inl e) | Some (Inr x) \<Rightarrow> f x)"

lemma then_call_simps [simp]:
  "then_call None f = None" "then_call (Some (Inl e)) f = Some (Inl e)" "then_call (Some (Inr x)) f = f x"
  by (simp_all add: then_call_def)

locale map_store =
  fixes wf :: "'m \<Rightarrow> bool" and absm :: "'m \<Rightarrow> 'k \<rightharpoonup> 'v" and room :: "'m \<Rightarrow> bool"
    and get :: "'k \<Rightarrow> 'm \<Rightarrow> 'v option result option" and put :: "'k \<Rightarrow> 'v \<Rightarrow> 'm \<Rightarrow> 'm result option"
  assumes get: "wf m \<Longrightarrow> get k m = Some (Inr (absm m k))"
    and put: "wf m \<Longrightarrow> room m \<Longrightarrow> \<exists>m'. put k v m = Some (Inr m') \<and> wf m' \<and> absm m' = (absm m)(k \<mapsto> v)"
begin

lemma get_put:
  assumes "wf m" and "room m"
  shows "then_call (put k v m) (get k') = Some (Inr (if k' = k then Some v else absm m k'))"
  using put [OF assms, of k v] get by fastforce

lemma get_returns: "wf m \<Longrightarrow> get k m \<noteq> None" using get by auto

end

locale erasable_map = map_store wf absm room get put
  for wf :: "'m \<Rightarrow> bool" and absm :: "'m \<Rightarrow> 'k \<rightharpoonup> 'v" and room and get and put :: "'k \<Rightarrow> 'v \<Rightarrow> 'm \<Rightarrow> 'm result option" +
  fixes del :: "'k \<Rightarrow> 'm \<Rightarrow> 'm result option"
  assumes del: "wf m \<Longrightarrow> \<exists>m'. del k m = Some (Inr m') \<and> wf m' \<and> absm m' = (absm m)(k := None)"
begin

lemma get_del: "wf m \<Longrightarrow> then_call (del k m) (get k') = Some (Inr (if k' = k then None else absm m k'))"
  using del [of m k] get by fastforce

text \<open>Steps that each find the room they need behave as on the abstract map.\<close>

lemma put_del:
  assumes "wf m" and "room m"
  shows "\<exists>m'. then_call (put k v m) (del k) = Some (Inr m') \<and> wf m' \<and> absm m' = (absm m)(k := None)"
  using put [OF assms, of k v] del by fastforce

end

end
