(* ===== verification/Hash_Map.thy ===== *)
theory Hash_Map
  imports Map_Store
begin

text \<open>
  \<open>compiler/include/mlk/core/hash_map.h\<close>: the open-addressing hash map and set. A slot holds the
  marker of an empty slot, a tombstone, or the index of an entry. The hash function is a template
  argument of the source and an argument here. A probe loop of the source need not end, so the
  operations are partial: \<open>None\<close> is a call that never returns.

  The load test compares with \<open>(double)slots * 0.7 * 10\<close>; the product \<open>0.7 * 10\<close> rounds to \<open>7.0\<close>
  and the capacity is a power of two, so the threshold is exactly \<open>7 * slots\<close>. The mask of a
  power of two is a remainder (\<open>mask_mod\<close>).
\<close>

definition kEmptySlot :: int where "kEmptySlot = 4294967295"
definition kTombstone :: int where "kTombstone = 4294967294"

lemma mask_mod:
  fixes x n :: nat
  shows "(and) x (2 ^ n - 1) = x mod 2 ^ n"
  using take_bit_eq_mask [of n x] by (simp add: mask_eq_exp_minus_1 take_bit_eq_mod)

section \<open>Probing\<close>

definition slot_hits :: "'k list \<Rightarrow> 'k \<Rightarrow> int \<Rightarrow> bool result" where
  "slot_hits keys k s = (if s = kTombstone then Inr False else mlk_try (vec_at keys (nat s)) (\<lambda>k'. Inr (k' = k)))"

text \<open>The loop of every lookup: where it stops, and the first tombstone it passed.\<close>

partial_function (option) probe :: "'k list \<Rightarrow> int list \<Rightarrow> 'k \<Rightarrow> nat \<Rightarrow> nat option \<Rightarrow> (nat \<times> nat option) result option" where
  "probe keys slots k idx ft =
     (let s = slots ! idx in
      if s = kEmptySlot then Some (Inr (idx, ft))
      else case slot_hits keys k s of
        Inl e \<Rightarrow> Some (Inl e)
      | Inr hit \<Rightarrow>
          if hit then Some (Inr (idx, ft))
          else probe keys slots k ((idx + 1) mod length slots) (if s = kTombstone \<and> ft = None then Some idx else ft))"

text \<open>The loop that places an entry when the table is rebuilt.\<close>

partial_function (option) vacant :: "int list \<Rightarrow> nat \<Rightarrow> nat option" where
  "vacant slots idx = (if slots ! idx = kEmptySlot then Some idx else vacant slots ((idx + 1) mod length slots))"

declare probe.simps [code] vacant.simps [code]

fun place_all :: "('k \<Rightarrow> nat) \<Rightarrow> 'k list \<Rightarrow> nat \<Rightarrow> int list \<Rightarrow> int list option" where
  "place_all h [] i slots = Some slots"
| "place_all h (k # ks) i slots =
     (case vacant slots (h k mod length slots) of
        None \<Rightarrow> None
      | Some idx \<Rightarrow> place_all h ks (Suc i) (slots[idx := int i mod 4294967296]))"

definition rebuild :: "('k \<Rightarrow> nat) \<Rightarrow> 'k list \<Rightarrow> nat \<Rightarrow> int list option" where
  "rebuild h keys newCap = place_all h keys 0 (replicate newCap kEmptySlot)"

section \<open>OpenHashMap\<close>

record ('k, 'v) hash_map =
  hm_slots :: "int list"
  hm_entries :: "('k \<times> 'v) list"
  hm_count :: nat
  hm_tombs :: nat

definition hm_rehash :: "('k \<Rightarrow> nat) \<Rightarrow> nat \<Rightarrow> ('k, 'v) hash_map \<Rightarrow> ('k, 'v) hash_map result option" where
  "hm_rehash h newCap m = map_option (\<lambda>slots. Inr (m\<lparr>hm_slots := slots, hm_tombs := 0\<rparr>)) (rebuild h (map fst (hm_entries m)) newCap)"

function grow_capacity :: "nat \<Rightarrow> nat \<Rightarrow> nat" where
  "grow_capacity cap n = (if cap = 0 \<or> n \<le> cap then cap else grow_capacity (cap * 2) n)"
  by pat_completeness auto
termination by (relation "measure (\<lambda>(cap, n). n - cap)") auto

declare grow_capacity.simps [simp del]

definition hm_with_buckets :: "('k \<Rightarrow> nat) \<Rightarrow> nat \<Rightarrow> ('k, 'v) hash_map result option" where
  "hm_with_buckets h n = hm_rehash h (grow_capacity 16 n) \<lparr>hm_slots = [], hm_entries = [], hm_count = 0, hm_tombs = 0\<rparr>"

definition hm_new :: "('k, 'v) hash_map" where
  "hm_new = \<lparr>hm_slots = replicate 16 kEmptySlot, hm_entries = [], hm_count = 0, hm_tombs = 0\<rparr>"

definition over_load :: "nat \<Rightarrow> nat \<Rightarrow> bool" where
  "over_load used cap \<longleftrightarrow> used * 10 \<ge> 7 * cap"

definition probe_at :: "('k \<Rightarrow> nat) \<Rightarrow> ('k, 'v) hash_map \<Rightarrow> 'k \<Rightarrow> (nat \<times> nat option) result option" where
  "probe_at h m k = probe (map fst (hm_entries m)) (hm_slots m) k (h k mod length (hm_slots m)) None"

text \<open>The entry that the returned pointer addresses, whether it is new, and the map.\<close>

definition insert_at :: "'k \<Rightarrow> 'v \<Rightarrow> ('k, 'v) hash_map \<Rightarrow> nat \<times> nat option \<Rightarrow> nat \<times> bool \<times> ('k, 'v) hash_map" where
  "insert_at k v m p = (case p of (idx, ft) \<Rightarrow>
     if hm_slots m ! idx = kEmptySlot then
       (let target = (case ft of None \<Rightarrow> idx | Some t \<Rightarrow> t); n = length (hm_entries m) in
        (n, True, \<lparr>hm_slots = (hm_slots m)[target := int n mod 4294967296], hm_entries = hm_entries m @ [(k, v)],
          hm_count = hm_count m + 1, hm_tombs = (if ft = None then hm_tombs m else hm_tombs m - 1)\<rparr>))
     else (nat (hm_slots m ! idx), False, m))"

definition findOrInsert :: "('k \<Rightarrow> nat) \<Rightarrow> 'k \<Rightarrow> 'v \<Rightarrow> ('k, 'v) hash_map \<Rightarrow> (nat \<times> bool \<times> ('k, 'v) hash_map) result option" where
  "findOrInsert h k v m =
     then_call (if over_load (hm_count m + hm_tombs m) (length (hm_slots m)) then hm_rehash h (length (hm_slots m) * 2) m else Some (Inr m)) (\<lambda>m.
     then_call (probe_at h m k) (\<lambda>p. Some (Inr (insert_at k v m p))))"

definition hm_find :: "('k \<Rightarrow> nat) \<Rightarrow> 'k \<Rightarrow> ('k, 'v) hash_map \<Rightarrow> nat option result option" where
  "hm_find h k m = then_call (probe_at h m k) (\<lambda>(idx, ft).
     Some (Inr (if hm_slots m ! idx = kEmptySlot then None else Some (nat (hm_slots m ! idx)))))"

definition hm_remove :: "('k \<Rightarrow> nat) \<Rightarrow> 'k \<Rightarrow> ('k, 'v) hash_map \<Rightarrow> ('k, 'v) hash_map result option" where
  "hm_remove h k m = then_call (probe_at h m k) (\<lambda>(idx, ft).
     Some (Inr (if hm_slots m ! idx = kEmptySlot then m
       else m\<lparr>hm_slots := (hm_slots m)[idx := kTombstone], hm_count := hm_count m - 1, hm_tombs := hm_tombs m + 1\<rparr>)))"

definition hm_size :: "('k, 'v) hash_map \<Rightarrow> nat" where "hm_size m = hm_count m"

definition hm_clear :: "('k, 'v) hash_map \<Rightarrow> ('k, 'v) hash_map" where
  "hm_clear m = \<lparr>hm_slots = replicate (length (hm_slots m)) kEmptySlot, hm_entries = [], hm_count = 0, hm_tombs = 0\<rparr>"

text \<open>The entries that \<open>forEach\<close> visits, in its order.\<close>

definition forEach_visits :: "('k, 'v) hash_map \<Rightarrow> ('k \<times> 'v) list" where
  "forEach_visits m = hm_entries m"

text \<open>A caller that writes the value through the pointer, as \<open>recordEquivalent\<close> does.\<close>

definition hm_put :: "('k \<Rightarrow> nat) \<Rightarrow> 'k \<Rightarrow> 'v \<Rightarrow> ('k, 'v) hash_map \<Rightarrow> ('k, 'v) hash_map result option" where
  "hm_put h k v m = then_call (findOrInsert h k v m) (\<lambda>(e, inserted, m).
     Some (Inr (m\<lparr>hm_entries := (hm_entries m)[e := (k, v)]\<rparr>)))"

definition hm_get :: "('k \<Rightarrow> nat) \<Rightarrow> 'k \<Rightarrow> ('k, 'v) hash_map \<Rightarrow> 'v option result option" where
  "hm_get h k m = then_call (hm_find h k m) (\<lambda>e. Some (Inr (map_option (\<lambda>i. snd (hm_entries m ! i)) e)))"

section \<open>OpenHashSet\<close>

record 'k hash_set =
  hs_slots :: "int list"
  hs_keys :: "'k list"
  hs_count :: nat
  hs_tombs :: nat
  hs_occupied :: int

definition hs_new :: "'k hash_set" where
  "hs_new = \<lparr>hs_slots = replicate 16 kEmptySlot, hs_keys = [], hs_count = 0, hs_tombs = 0, hs_occupied = 0\<rparr>"

definition hs_rehash :: "('k \<Rightarrow> nat) \<Rightarrow> nat \<Rightarrow> 'k hash_set \<Rightarrow> 'k hash_set result option" where
  "hs_rehash h newCap m = map_option (\<lambda>slots. Inr (m\<lparr>hs_slots := slots, hs_tombs := 0\<rparr>)) (rebuild h (hs_keys m) newCap)"

definition hs_insert :: "('k \<Rightarrow> nat) \<Rightarrow> 'k \<Rightarrow> 'k hash_set \<Rightarrow> (bool \<times> 'k hash_set) result option" where
  "hs_insert h k m =
     then_call (if over_load (hs_count m + hs_tombs m) (length (hs_slots m)) then hs_rehash h (length (hs_slots m) * 2) m else Some (Inr m)) (\<lambda>m.
     then_call (probe (hs_keys m) (hs_slots m) k (h k mod length (hs_slots m)) None) (\<lambda>(idx, ft).
       Some (Inr (if hs_slots m ! idx = kEmptySlot then
           (True, m\<lparr>hs_slots := (hs_slots m)[idx := hs_occupied m], hs_occupied := (hs_occupied m + 1) mod 4294967296,
              hs_count := hs_count m + 1, hs_keys := hs_keys m @ [k]\<rparr>)
         else (False, m)))))"

definition hs_contains :: "('k \<Rightarrow> nat) \<Rightarrow> 'k \<Rightarrow> 'k hash_set \<Rightarrow> bool result option" where
  "hs_contains h k m = then_call (probe (hs_keys m) (hs_slots m) k (h k mod length (hs_slots m)) None) (\<lambda>(idx, ft).
     Some (Inr (hs_slots m ! idx \<noteq> kEmptySlot)))"

end
