(* ===== verification/Hash_Map_Laws.thy ===== *)
theory Hash_Map_Laws
  imports Hash_Map
begin

text \<open>
  The invariant of the open-addressing table and what it gives: every probe ends, a lookup finds
  exactly the key it is asked for, and the operations are those of a finite map.
\<close>

section \<open>The table\<close>

definition is_live :: "int \<Rightarrow> bool" where
  "is_live s \<longleftrightarrow> s \<noteq> kEmptySlot \<and> s \<noteq> kTombstone"

text \<open>Slot \<open>d\<close> of the probe sequence of a key, and the stop condition there.\<close>

definition seq :: "('k \<Rightarrow> nat) \<Rightarrow> int list \<Rightarrow> 'k \<Rightarrow> nat \<Rightarrow> nat" where
  "seq h slots k d = (h k + d) mod length slots"

definition stops :: "'k list \<Rightarrow> 'k \<Rightarrow> int \<Rightarrow> bool" where
  "stops keys k s \<longleftrightarrow> s = kEmptySlot \<or> is_live s \<and> keys ! nat s = k"

definition table_ok :: "('k \<Rightarrow> nat) \<Rightarrow> 'k list \<Rightarrow> int list \<Rightarrow> bool" where
  "table_ok h keys slots \<longleftrightarrow> int (length keys) \<le> kTombstone \<and> (\<exists>n. length slots = 16 * 2 ^ n)
     \<and> (\<forall>j < length slots. is_live (slots ! j) \<longrightarrow> 0 \<le> slots ! j \<and> nat (slots ! j) < length keys)
     \<and> (\<forall>i < length slots. \<forall>j < length slots. is_live (slots ! i) \<longrightarrow> is_live (slots ! j) \<longrightarrow>
          keys ! nat (slots ! i) = keys ! nat (slots ! j) \<longrightarrow> i = j)
     \<and> (\<forall>j < length slots. is_live (slots ! j) \<longrightarrow>
          (\<exists>d. j = seq h slots (keys ! nat (slots ! j)) d \<and> (\<forall>e < d. slots ! seq h slots (keys ! nat (slots ! j)) e \<noteq> kEmptySlot)))"

lemma marker_simps [simp]:
  "kEmptySlot \<noteq> kTombstone" "kTombstone \<noteq> kEmptySlot" "\<not> is_live kEmptySlot" "\<not> is_live kTombstone"
  by (simp_all add: kEmptySlot_def kTombstone_def is_live_def)

lemma table_okD:
  assumes "table_ok h keys slots"
  shows "0 < length slots" and "\<And>j. j < length slots \<Longrightarrow> is_live (slots ! j) \<Longrightarrow> nat (slots ! j) < length keys"
  using assms by (auto simp: table_ok_def)

lemma seq_less [simp]: "0 < length slots \<Longrightarrow> seq h slots k d < length slots"
  by (simp add: seq_def)

lemma seq_Suc: "(seq h slots k d + 1) mod length slots = seq h slots k (Suc d)"
  by (simp add: seq_def mod_Suc_eq)

lemma seq_reaches:
  assumes "j < length slots" shows "\<exists>d. j = seq h slots k d"
proof -
  let ?n = "length slots"
  have "(h k + (j + (?n - h k mod ?n))) mod ?n = (h k mod ?n + (j + (?n - h k mod ?n))) mod ?n" by (simp add: mod_add_left_eq)
  also have "h k mod ?n + (j + (?n - h k mod ?n)) = j + ?n" using assms mod_less_divisor [of ?n "h k"] by linarith
  also have "(j + ?n) mod ?n = j" using assms by simp
  finally show ?thesis by (metis seq_def)
qed

text \<open>Where a probe stops: the first position of the sequence that satisfies the condition.\<close>

definition passed_tomb :: "('k \<Rightarrow> nat) \<Rightarrow> int list \<Rightarrow> 'k \<Rightarrow> nat \<Rightarrow> nat option \<Rightarrow> bool" where
  "passed_tomb h slots k d ft \<longleftrightarrow> (\<forall>t. ft = Some t \<longrightarrow> slots ! t = kTombstone \<and> (\<exists>e < d. t = seq h slots k e))"

lemma probe_run:
  assumes ok: "table_ok h keys slots" and D: "stops keys k (slots ! seq h slots k D)"
    and before: "\<forall>e < D. \<not> stops keys k (slots ! seq h slots k e)" and "d \<le> D" and "passed_tomb h slots k d ft"
  shows "\<exists>ft'. probe keys slots k (seq h slots k d) ft = Some (Inr (seq h slots k D, ft')) \<and> passed_tomb h slots k D ft'"
  using assms(4,5)
proof (induction "D - d" arbitrary: d ft)
  case 0
  then have d: "d = D" by simp
  have "probe keys slots k (seq h slots k D) ft = Some (Inr (seq h slots k D, ft))"
  proof (cases "slots ! seq h slots k D = kEmptySlot")
    case True then show ?thesis by (subst probe.simps) simp
  next
    case False
    with D have l: "is_live (slots ! seq h slots k D)" "keys ! nat (slots ! seq h slots k D) = k" by (auto simp: stops_def)
    then have "slot_hits keys k (slots ! seq h slots k D) = Inr True"
      using table_okD [OF ok] by (auto simp: slot_hits_def vec_at_def is_live_def)
    with False show ?thesis by (subst probe.simps) simp
  qed
  with 0 d show ?case by blast
next
  case (Suc n)
  let ?s = "slots ! seq h slots k d"
  have ns: "\<not> stops keys k ?s" using before Suc by auto
  then have e: "?s \<noteq> kEmptySlot" and h: "slot_hits keys k ?s = Inr False"
    using table_okD [OF ok] by (auto simp: stops_def slot_hits_def vec_at_def is_live_def)
  have "passed_tomb h slots k (Suc d) (if ?s = kTombstone \<and> ft = None then Some (seq h slots k d) else ft)"
    using Suc.prems(2) by (auto simp: passed_tomb_def less_Suc_eq)
  moreover have "n = D - Suc d" "Suc d \<le> D" using Suc by auto
  ultimately obtain ft' where ft': "passed_tomb h slots k D ft'"
    and run: "probe keys slots k (seq h slots k (Suc d)) (if ?s = kTombstone \<and> ft = None then Some (seq h slots k d) else ft)
      = Some (Inr (seq h slots k D, ft'))"
    using Suc.hyps(1) by blast
  have "probe keys slots k (seq h slots k d) ft = Some (Inr (seq h slots k D, ft'))"
    by (subst probe.simps) (simp add: e h run seq_Suc [simplified])
  with ft' show ?case by blast
qed

definition stop_at :: "('k \<Rightarrow> nat) \<Rightarrow> 'k list \<Rightarrow> int list \<Rightarrow> 'k \<Rightarrow> nat \<Rightarrow> nat \<Rightarrow> bool" where
  "stop_at h keys slots k D idx \<longleftrightarrow> idx = seq h slots k D \<and> stops keys k (slots ! idx) \<and> (\<forall>e < D. \<not> stops keys k (slots ! seq h slots k e))"

lemma probe_spec:
  assumes ok: "table_ok h keys slots" and "kEmptySlot \<in> set slots"
  shows "\<exists>D idx ft. probe keys slots k (h k mod length slots) None = Some (Inr (idx, ft)) \<and> stop_at h keys slots k D idx
    \<and> passed_tomb h slots k D ft"
proof -
  obtain j where "j < length slots" "slots ! j = kEmptySlot" using assms(2) by (auto simp: in_set_conv_nth)
  with seq_reaches [of j slots h k] have "\<exists>d. stops keys k (slots ! seq h slots k d)" by (auto simp: stops_def)
  then obtain D where D: "stops keys k (slots ! seq h slots k D)" "\<forall>e < D. \<not> stops keys k (slots ! seq h slots k e)"
    using exists_least_iff [of "\<lambda>d. stops keys k (slots ! seq h slots k d)"] by blast
  with probe_run [OF ok D, of 0 None] show ?thesis by (auto simp: passed_tomb_def stop_at_def seq_def)
qed

lemma stop_hit:
  assumes "stop_at h keys slots k D idx" and "slots ! idx \<noteq> kEmptySlot"
  shows "is_live (slots ! idx)" and "keys ! nat (slots ! idx) = k"
  using assms by (auto simp: stop_at_def stops_def)

lemma stop_miss:
  assumes ok: "table_ok h keys slots" and st: "stop_at h keys slots k D idx" and e: "slots ! idx = kEmptySlot"
    and j: "j < length slots" "is_live (slots ! j)"
  shows "keys ! nat (slots ! j) \<noteq> k"
proof
  assume k: "keys ! nat (slots ! j) = k"
  then obtain d where d: "j = seq h slots k d" "\<forall>e < d. slots ! seq h slots k e \<noteq> kEmptySlot"
    using ok j by (auto simp: table_ok_def)
  have "stops keys k (slots ! seq h slots k d)" using d k j by (auto simp: stops_def)
  then have "D \<le> d" using st by (meson not_le stop_at_def)
  moreover have "D \<noteq> d" using st e d j by (auto simp: stop_at_def)
  ultimately show False using d(2) st e by (auto simp: stop_at_def)
qed

section \<open>Updates of the table\<close>

lemma seq_update [simp]: "seq h (slots[t := s]) k d = seq h slots k d"
  by (simp add: seq_def)

lemma path_update:
  "\<forall>e < d. slots ! seq h slots k e \<noteq> kEmptySlot \<Longrightarrow> s \<noteq> kEmptySlot \<Longrightarrow> 0 < length slots
    \<Longrightarrow> \<forall>e < d. slots[t := s] ! seq h slots k e \<noteq> kEmptySlot"
  by (cases "t < length slots") (simp_all add: nth_list_update not_less list_update_beyond)

text \<open>A new entry goes to the empty slot where its probe stopped or to a tombstone before it.\<close>

lemma table_insert:
  assumes ok: "table_ok h keys slots" and st: "stop_at h keys slots k D idx" and e: "slots ! idx = kEmptySlot"
    and ft: "passed_tomb h slots k D ft" and room: "int (length keys) < kTombstone"
    and t: "t = (case ft of None \<Rightarrow> idx | Some t \<Rightarrow> t)"
  shows "table_ok h (keys @ [k]) (slots[t := int (length keys)]) \<and> t < length slots \<and> \<not> is_live (slots ! t)"
proof -
  let ?s = "slots[t := int (length keys)]" and ?ks = "keys @ [k]"
  have n: "0 < length slots" using table_okD [OF ok] by blast
  have live: "is_live (int (length keys))" using room by (auto simp: is_live_def kEmptySlot_def kTombstone_def)
  have "\<exists>d \<le> D. t = seq h slots k d"
  proof (cases ft)
    case (Some u)
    with ft obtain e where "e < D" "u = seq h slots k e" by (auto simp: passed_tomb_def)
    with Some t show ?thesis by (intro exI [of _ e]) simp
  qed (use st t in \<open>auto simp: stop_at_def\<close>)
  then obtain d where d: "d \<le> D" "t = seq h slots k d" by blast
  have t': "t < length slots" "\<not> is_live (slots ! t)"
    using d n ft e t by (simp, cases ft) (auto simp: passed_tomb_def)
  have nth: "?s ! j = (if j = t then int (length keys) else slots ! j)" if "j < length slots" for j
    using that by (simp add: nth_list_update)
  have old: "?ks ! nat (slots ! j) = keys ! nat (slots ! j)" if "j < length slots" "is_live (slots ! j)" for j
    using table_okD(2) [OF ok that] by (simp add: nth_append)
  have ne: "?s ! j \<noteq> kEmptySlot" if "j < length slots" "slots ! j \<noteq> kEmptySlot \<or> j = t" for j
    using that nth live by (auto simp: is_live_def)
  have "int (length ?ks) \<le> kTombstone" "\<exists>n. length ?s = 16 * 2 ^ n" using room ok by (auto simp: table_ok_def)
  moreover have "\<forall>j < length ?s. is_live (?s ! j) \<longrightarrow> 0 \<le> ?s ! j \<and> nat (?s ! j) < length ?ks"
    using ok by (auto simp: nth table_ok_def less_Suc_eq)
  moreover have "\<forall>i < length ?s. \<forall>j < length ?s. is_live (?s ! i) \<longrightarrow> is_live (?s ! j) \<longrightarrow>
      ?ks ! nat (?s ! i) = ?ks ! nat (?s ! j) \<longrightarrow> i = j"
    using ok stop_miss [OF ok st e] by (auto simp: nth table_ok_def old)
  moreover have "\<exists>d. j = seq h ?s (?ks ! nat (?s ! j)) d \<and> (\<forall>e < d. ?s ! seq h ?s (?ks ! nat (?s ! j)) e \<noteq> kEmptySlot)"
    if j: "j < length ?s" "is_live (?s ! j)" for j
  proof (cases "j = t")
    case True
    have "?s ! seq h slots k e \<noteq> kEmptySlot" if "e < d" for e
      using ne [of "seq h slots k e"] n that d st by (auto simp: stop_at_def stops_def)
    with True t' d show ?thesis by (auto simp: nth)
  next
    case False
    then have l: "is_live (slots ! j)" "j < length slots" using j by (auto simp: nth)
    then obtain d where d: "j = seq h slots (keys ! nat (slots ! j)) d" "\<forall>e < d. slots ! seq h slots (keys ! nat (slots ! j)) e \<noteq> kEmptySlot"
      using ok unfolding table_ok_def by blast
    have "?ks ! nat (?s ! j) = keys ! nat (slots ! j)" using l False by (simp add: old)
    with d(1) path_update [OF d(2) _ n, of "int (length keys)" t] live show ?thesis by (auto simp: is_live_def)
  qed
  ultimately show ?thesis unfolding table_ok_def using t' by blast
qed

lemma table_remove:
  assumes ok: "table_ok h keys slots" and idx: "idx < length slots"
  shows "table_ok h keys (slots[idx := kTombstone])"
proof -
  let ?s = "slots[idx := kTombstone]"
  have nth: "?s ! j = (if j = idx then kTombstone else slots ! j)" if "j < length slots" for j
    using that idx by (simp add: nth_list_update)
  have n: "0 < length slots" using table_okD [OF ok] by blast
  have "\<exists>d. j = seq h ?s (keys ! nat (?s ! j)) d \<and> (\<forall>e < d. ?s ! seq h ?s (keys ! nat (?s ! j)) e \<noteq> kEmptySlot)"
    if j: "j < length ?s" "is_live (?s ! j)" for j
  proof -
    have l: "is_live (slots ! j)" "j < length slots" "?s ! j = slots ! j" using j by (auto simp: nth split: if_splits)
    then obtain d where d: "j = seq h slots (keys ! nat (slots ! j)) d" "\<forall>e < d. slots ! seq h slots (keys ! nat (slots ! j)) e \<noteq> kEmptySlot"
      using ok unfolding table_ok_def by blast
    with l(3) path_update [OF d(2) _ n, of kTombstone idx] show ?thesis by auto
  qed
  moreover have "\<forall>j < length ?s. is_live (?s ! j) \<longrightarrow> 0 \<le> ?s ! j \<and> nat (?s ! j) < length keys"
    "\<forall>i < length ?s. \<forall>j < length ?s. is_live (?s ! i) \<longrightarrow> is_live (?s ! j) \<longrightarrow> keys ! nat (?s ! i) = keys ! nat (?s ! j) \<longrightarrow> i = j"
    using ok by (auto simp: nth table_ok_def)
  ultimately show ?thesis using ok unfolding table_ok_def by (simp del: length_list_update) simp
qed

section \<open>Counting slots\<close>

definition n_slots :: "(int \<Rightarrow> bool) \<Rightarrow> int list \<Rightarrow> nat" where
  "n_slots P slots = length (filter P slots)"

lemma n_slots_update:
  assumes "t < length slots"
  shows "n_slots P (slots[t := s]) + (if P (slots ! t) then 1 else 0) = n_slots P slots + (if P s then 1 else 0)"
proof -
  have e: "slots = take t slots @ slots ! t # drop (Suc t) slots" by (rule id_take_nth_drop [OF assms])
  have "n_slots P slots = n_slots P (take t slots) + (if P (slots ! t) then 1 else 0) + n_slots P (drop (Suc t) slots)"
    unfolding n_slots_def by (subst e) simp
  moreover have "n_slots P (slots[t := s]) = n_slots P (take t slots) + (if P s then 1 else 0) + n_slots P (drop (Suc t) slots)"
    unfolding n_slots_def upd_conv_take_nth_drop [OF assms] by simp
  ultimately show ?thesis by simp
qed

lemma empty_slot_exists:
  assumes "n_slots is_live slots + n_slots (\<lambda>s. s = kTombstone) slots < length slots"
  shows "kEmptySlot \<in> set slots"
proof (rule ccontr)
  assume "kEmptySlot \<notin> set slots"
  then have "filter (\<lambda>s. s = kTombstone) slots = filter (\<lambda>s. \<not> is_live s) slots" by (intro filter_cong) (auto simp: is_live_def)
  with assms sum_length_filter_compl [of is_live slots] show False by (simp add: n_slots_def)
qed

section \<open>Rebuilding\<close>

lemma vacant_run:
  assumes "slots ! seq h slots k D = kEmptySlot" and "\<forall>e < D. slots ! seq h slots k e \<noteq> kEmptySlot" and "d \<le> D"
  shows "vacant slots (seq h slots k d) = Some (seq h slots k D)"
  using assms(3)
proof (induction "D - d" arbitrary: d)
  case 0
  then have "D = d" by simp
  with assms(1) show ?case by (subst vacant.simps) simp
next
  case (Suc n)
  then have "vacant slots (seq h slots k (Suc d)) = Some (seq h slots k D)" by simp
  moreover have "slots ! seq h slots k d \<noteq> kEmptySlot" using assms(2) Suc by simp
  ultimately show ?case by (subst vacant.simps) (simp add: seq_Suc [simplified])
qed

text \<open>A table that holds exactly the first entries, without tombstones.\<close>

definition packed :: "('k \<Rightarrow> nat) \<Rightarrow> 'k list \<Rightarrow> int list \<Rightarrow> bool" where
  "packed h keys slots \<longleftrightarrow> table_ok h keys slots \<and> kTombstone \<notin> set slots \<and> n_slots is_live slots = length keys
     \<and> (\<forall>e < length keys. \<exists>j < length slots. slots ! j = int e)"

lemma place_one:
  assumes pk: "packed h keys slots" and new: "k \<notin> set keys" and room: "length keys < length slots" "int (length keys) < kTombstone"
  shows "\<exists>idx. vacant slots (h k mod length slots) = Some idx \<and> packed h (keys @ [k]) (slots[idx := int (length keys)])"
proof -
  have ok: "table_ok h keys slots" and nt: "kTombstone \<notin> set slots" using pk by (auto simp: packed_def)
  have "n_slots (\<lambda>s. s = kTombstone) slots = 0" using nt by (auto simp: n_slots_def filter_empty_conv)
  then have "kEmptySlot \<in> set slots" using empty_slot_exists [of slots] pk room by (simp add: packed_def)
  then obtain j where "j < length slots" "slots ! j = kEmptySlot" by (auto simp: in_set_conv_nth)
  with seq_reaches [of j slots h k] have "\<exists>d. slots ! seq h slots k d = kEmptySlot" by auto
  then obtain D where D: "slots ! seq h slots k D = kEmptySlot" "\<forall>e < D. slots ! seq h slots k e \<noteq> kEmptySlot"
    using exists_least_iff [of "\<lambda>d. slots ! seq h slots k d = kEmptySlot"] by blast
  let ?idx = "seq h slots k D"
  have n: "0 < length slots" using table_okD [OF ok] by blast
  have "\<not> stops keys k (slots ! seq h slots k e)" if "e < D" for e
  proof
    assume "stops keys k (slots ! seq h slots k e)"
    then have "is_live (slots ! seq h slots k e)" "keys ! nat (slots ! seq h slots k e) = k" using D(2) that by (auto simp: stops_def)
    with table_okD(2) [OF ok seq_less [OF n]] new show False by (metis nth_mem)
  qed
  then have "stop_at h keys slots k D ?idx" using D(1) by (simp add: stop_at_def stops_def)
  from table_insert [OF ok this D(1), of None] room
  have t: "table_ok h (keys @ [k]) (slots[?idx := int (length keys)])" "?idx < length slots" by (auto simp: passed_tomb_def)
  have live: "is_live (int (length keys))" using room(2) by (auto simp: is_live_def kEmptySlot_def kTombstone_def)
  have "packed h (keys @ [k]) (slots[?idx := int (length keys)])" unfolding packed_def
  proof (intro conjI allI impI)
    show "kTombstone \<notin> set (slots[?idx := int (length keys)])" using nt live set_update_subset_insert [of slots ?idx "int (length keys)"]
      by (auto simp: is_live_def)
    show "n_slots is_live (slots[?idx := int (length keys)]) = length (keys @ [k])"
      using n_slots_update [OF t(2), of is_live "int (length keys)"] D(1) live pk by (simp add: packed_def)
    fix e assume "e < length (keys @ [k])"
    then consider "e = length keys" | "e < length keys" by fastforce
    then show "\<exists>j < length (slots[?idx := int (length keys)]). slots[?idx := int (length keys)] ! j = int e"
    proof cases
      case 1 then show ?thesis using t(2) by (intro exI [of _ ?idx]) simp
    next
      case 2
      then obtain i where "i < length slots" "slots ! i = int e" using pk by (auto simp: packed_def)
      moreover from this have "i \<noteq> ?idx" using D(1) room(2) 2 by (auto simp: kEmptySlot_def kTombstone_def)
      ultimately show ?thesis by (intro exI [of _ i]) simp
    qed
  qed (rule t(1))
  with vacant_run [OF D, of 0] show ?thesis by (auto simp: seq_def)
qed

lemma place_all_run:
  assumes "packed h keys slots" and "distinct (keys @ ks)" and "length keys + length ks < length slots"
    and "int (length keys + length ks) \<le> kTombstone"
  shows "\<exists>slots'. place_all h ks (length keys) slots = Some slots' \<and> packed h (keys @ ks) slots' \<and> length slots' = length slots"
  using assms
proof (induction ks arbitrary: keys slots)
  case (Cons k ks)
  then obtain idx where idx: "vacant slots (h k mod length slots) = Some idx" "packed h (keys @ [k]) (slots[idx := int (length keys)])"
    using place_one [of h keys slots k] by auto
  have "int (length keys) mod 4294967296 = int (length keys)" using Cons.prems(4) by (simp add: kTombstone_def)
  with idx Cons.IH [OF idx(2)] Cons.prems show ?case by simp
qed simp

lemma packed_empty: "packed h [] (replicate (16 * 2 ^ n) kEmptySlot)"
proof -
  have "filter is_live (replicate n kEmptySlot) = []" for n by (simp add: filter_empty_conv)
  moreover have "int (length []) \<le> kTombstone" by (simp add: kTombstone_def)
  ultimately show ?thesis by (auto simp: packed_def table_ok_def n_slots_def)
qed

lemma rebuild_run:
  assumes "distinct keys" and "length keys < 16 * 2 ^ n" and "int (length keys) \<le> kTombstone"
  shows "\<exists>slots. rebuild h keys (16 * 2 ^ n) = Some slots \<and> packed h keys slots \<and> length slots = 16 * 2 ^ n"
  using place_all_run [OF packed_empty [of h n], of keys] assms by (auto simp: rebuild_def)

section \<open>The finite map\<close>

text \<open>An entry of the map: some live slot refers to it.\<close>

definition holds :: "('k, 'v) hash_map \<Rightarrow> 'k \<Rightarrow> 'v \<Rightarrow> bool" where
  "holds m k v \<longleftrightarrow> (\<exists>j < length (hm_slots m). is_live (hm_slots m ! j) \<and> hm_entries m ! nat (hm_slots m ! j) = (k, v))"

definition hm_map :: "('k, 'v) hash_map \<Rightarrow> 'k \<rightharpoonup> 'v" where
  "hm_map m = map_of (map (\<lambda>s. hm_entries m ! nat s) (filter is_live (hm_slots m)))"

abbreviation hm_keys :: "('k, 'v) hash_map \<Rightarrow> 'k list" where
  "hm_keys m \<equiv> map fst (hm_entries m)"

definition hm_ok :: "('k \<Rightarrow> nat) \<Rightarrow> ('k, 'v) hash_map \<Rightarrow> bool" where
  "hm_ok h m \<longleftrightarrow> table_ok h (hm_keys m) (hm_slots m) \<and> hm_count m = n_slots is_live (hm_slots m)
     \<and> hm_tombs m = n_slots (\<lambda>s. s = kTombstone) (hm_slots m) \<and> hm_count m + hm_tombs m < length (hm_slots m)"

text \<open>No entry was removed: the table and the entries agree.\<close>

definition clean :: "('k, 'v) hash_map \<Rightarrow> bool" where
  "clean m \<longleftrightarrow> hm_count m = length (hm_entries m)"

lemma hm_okD:
  assumes "hm_ok h m"
  shows "table_ok h (hm_keys m) (hm_slots m)" and "kEmptySlot \<in> set (hm_slots m)"
  using assms empty_slot_exists by (auto simp: hm_ok_def)

lemma hm_map_holds:
  assumes ok: "table_ok h (hm_keys m) (hm_slots m)"
  shows "hm_map m k = Some v \<longleftrightarrow> holds m k v"
proof -
  let ?s = "hm_slots m" and ?P = "\<lambda>j. is_live (hm_slots m ! j)"
  define js where "js = filter ?P [0..<length ?s]"
  have "filter is_live ?s = map (nth ?s) js"
    by (subst map_nth [symmetric], subst filter_map) (simp add: js_def comp_def)
  then have m: "hm_map m = map_of (map (\<lambda>j. hm_entries m ! nat (?s ! j)) js)" by (simp add: hm_map_def comp_def)
  have js: "set js = {j. j < length ?s \<and> ?P j}" "distinct js" by (auto simp: js_def)
  have "fst (hm_entries m ! nat (?s ! j)) = hm_keys m ! nat (?s ! j)" if "j \<in> set js" for j
    using table_okD(2) [OF ok] that js by simp
  then have "inj_on (\<lambda>j. fst (hm_entries m ! nat (?s ! j))) (set js)"
    using ok js by (auto simp: table_ok_def inj_on_def)
  then have "distinct (map fst (map (\<lambda>j. hm_entries m ! nat (?s ! j)) js))" using js(2) by (simp add: distinct_map comp_def)
  then have "hm_map m k = Some v \<longleftrightarrow> (k, v) \<in> (\<lambda>j. hm_entries m ! nat (?s ! j)) ` set js"
    by (simp add: m map_of_eq_Some_iff)
  then show ?thesis by (auto simp: holds_def js image_iff)
qed

lemma map_eqI: "(\<And>k v. f k = Some v \<longleftrightarrow> g k = Some v) \<Longrightarrow> f = g"
  by (rule ext) (metis option.exhaust)

lemma hm_map_eqI:
  assumes "table_ok h (hm_keys m) (hm_slots m)" and "\<And>k v. holds m k v \<longleftrightarrow> f k = Some v"
  shows "hm_map m = f"
  by (rule map_eqI) (simp add: hm_map_holds [OF assms(1)] assms(2))

lemma new_map: "hm_ok h hm_new \<and> clean hm_new \<and> hm_map hm_new = Map.empty"
proof -
  have pk: "packed h [] (replicate 16 kEmptySlot)" using packed_empty [of h 0] by simp
  have "filter is_live (replicate 16 kEmptySlot) = []" "filter (\<lambda>s. s = kTombstone) (replicate 16 kEmptySlot) = []"
    by (simp_all add: filter_empty_conv)
  then show ?thesis using pk by (simp add: hm_ok_def hm_new_def clean_def hm_map_def packed_def n_slots_def)
qed

text \<open>What a probe of the map finds.\<close>

lemma probe_map:
  assumes ok: "hm_ok h m"
  shows "\<exists>D idx ft. probe_at h m k = Some (Inr (idx, ft)) \<and> stop_at h (hm_keys m) (hm_slots m) k D idx
    \<and> passed_tomb h (hm_slots m) k D ft \<and> idx < length (hm_slots m)
    \<and> (if hm_slots m ! idx = kEmptySlot then hm_map m k = None
       else is_live (hm_slots m ! idx) \<and> nat (hm_slots m ! idx) < length (hm_entries m)
         \<and> hm_entries m ! nat (hm_slots m ! idx) = (k, snd (hm_entries m ! nat (hm_slots m ! idx)))
         \<and> hm_map m k = Some (snd (hm_entries m ! nat (hm_slots m ! idx))))"
proof -
  note t = hm_okD [OF ok]
  from probe_spec [OF t, of k] obtain D idx ft
    where p: "probe_at h m k = Some (Inr (idx, ft))" "stop_at h (hm_keys m) (hm_slots m) k D idx" "passed_tomb h (hm_slots m) k D ft"
    by (auto simp: probe_at_def)
  have idx: "idx < length (hm_slots m)" using p(2) table_okD(1) [OF t(1)] by (auto simp: stop_at_def)
  show ?thesis
  proof (cases "hm_slots m ! idx = kEmptySlot")
    case True
    have "\<not> holds m k v" for v
    proof
      assume "holds m k v"
      then obtain j where j: "j < length (hm_slots m)" "is_live (hm_slots m ! j)" "hm_entries m ! nat (hm_slots m ! j) = (k, v)"
        by (auto simp: holds_def)
      with stop_miss [OF t(1) p(2) True j(1,2)] table_okD(2) [OF t(1) j(1,2)] show False by simp
    qed
    then have "hm_map m k = None" using hm_map_holds [OF t(1), of k] by (metis option.exhaust)
    with p idx True show ?thesis by auto
  next
    case False
    note h = stop_hit [OF p(2) False]
    have b: "nat (hm_slots m ! idx) < length (hm_entries m)" using table_okD(2) [OF t(1) idx h(1)] by simp
    with h(2) have e: "hm_entries m ! nat (hm_slots m ! idx) = (k, snd (hm_entries m ! nat (hm_slots m ! idx)))"
      by (simp add: prod_eq_iff)
    then have "holds m k (snd (hm_entries m ! nat (hm_slots m ! idx)))" using idx h(1) unfolding holds_def by blast
    then have "hm_map m k = Some (snd (hm_entries m ! nat (hm_slots m ! idx)))" using hm_map_holds [OF t(1)] by blast
    with p idx False h b e show ?thesis by auto
  qed
qed

lemma hm_get_spec: "hm_ok h m \<Longrightarrow> hm_get h k m = Some (Inr (hm_map m k))"
  using probe_map [of h m k] by (fastforce simp: hm_get_def hm_find_def split: if_splits)

lemma hm_remove_spec:
  assumes ok: "hm_ok h m"
  shows "\<exists>m'. hm_remove h k m = Some (Inr m') \<and> hm_ok h m' \<and> hm_map m' = (hm_map m)(k := None)"
proof -
  note t = hm_okD [OF ok]
  from probe_map [OF ok, of k] obtain D idx ft where p: "probe_at h m k = Some (Inr (idx, ft))" and idx: "idx < length (hm_slots m)"
    and v: "if hm_slots m ! idx = kEmptySlot then hm_map m k = None
       else is_live (hm_slots m ! idx) \<and> nat (hm_slots m ! idx) < length (hm_entries m)
         \<and> hm_entries m ! nat (hm_slots m ! idx) = (k, snd (hm_entries m ! nat (hm_slots m ! idx)))
         \<and> hm_map m k = Some (snd (hm_entries m ! nat (hm_slots m ! idx)))" by metis
  show ?thesis
  proof (cases "hm_slots m ! idx = kEmptySlot")
    case True
    then have "hm_map m = (hm_map m)(k := None)" using v by (intro ext) simp
    with p True ok show ?thesis by (auto simp: hm_remove_def)
  next
    case False
    let ?m = "m\<lparr>hm_slots := (hm_slots m)[idx := kTombstone], hm_count := hm_count m - 1, hm_tombs := hm_tombs m + 1\<rparr>"
    have live: "is_live (hm_slots m ! idx)" and e: "fst (hm_entries m ! nat (hm_slots m ! idx)) = k" using v False by (auto simp: prod_eq_iff)
    have run: "hm_remove h k m = Some (Inr ?m)" using p False by (simp add: hm_remove_def)
    have tab: "table_ok h (hm_keys ?m) (hm_slots ?m)" using table_remove [OF t(1) idx] by simp
    have "hm_slots m ! idx \<noteq> kTombstone" using live by (auto simp: is_live_def)
    with n_slots_update [OF idx, of is_live kTombstone] n_slots_update [OF idx, of "\<lambda>s. s = kTombstone" kTombstone] live ok tab
    have "hm_ok h ?m" by (auto simp: hm_ok_def)
    moreover have "hm_map ?m = (hm_map m)(k := None)"
    proof (rule hm_map_eqI [OF tab])
      fix k' v'
      have "holds ?m k' v' \<longleftrightarrow> k' \<noteq> k \<and> holds m k' v'"
      proof
        assume "holds ?m k' v'"
        then obtain j where j: "j < length (hm_slots m)" "j \<noteq> idx" "is_live (hm_slots m ! j)" "hm_entries m ! nat (hm_slots m ! j) = (k', v')"
          using idx by (auto simp: holds_def nth_list_update split: if_splits)
        have "hm_keys m ! nat (hm_slots m ! j) = k'" "hm_keys m ! nat (hm_slots m ! idx) = k"
          using table_okD(2) [OF t(1)] j idx live e by auto
        then have "k' \<noteq> k" using t(1) j idx live unfolding table_ok_def by metis
        with j show "k' \<noteq> k \<and> holds m k' v'" by (auto simp: holds_def)
      next
        assume "k' \<noteq> k \<and> holds m k' v'"
        then obtain j where "j < length (hm_slots m)" "is_live (hm_slots m ! j)" "hm_entries m ! nat (hm_slots m ! j) = (k', v')" "k' \<noteq> k"
          by (auto simp: holds_def)
        moreover from this have "j \<noteq> idx" using e by auto
        ultimately show "holds ?m k' v'" by (auto simp: holds_def)
      qed
      then show "holds ?m k' v' \<longleftrightarrow> ((hm_map m)(k := None)) k' = Some v'" by (simp add: hm_map_holds [OF t(1)])
    qed
    ultimately show ?thesis using run by blast
  qed
qed

section \<open>Growing\<close>

lemma clean_entries:
  assumes ok: "hm_ok h m" and cl: "clean m"
  shows "distinct (hm_keys m)" and "e < length (hm_entries m) \<Longrightarrow> \<exists>j < length (hm_slots m). hm_slots m ! j = int e \<and> is_live (hm_slots m ! j)"
proof -
  let ?s = "hm_slots m" and ?n = "length (hm_entries m)"
  note t = hm_okD [OF ok]
  define js where "js = {j. j < length ?s \<and> is_live (?s ! j)}"
  have card: "card js = ?n" using ok cl length_filter_conv_card [of is_live ?s] by (simp add: js_def hm_ok_def clean_def n_slots_def)
  have key: "?s ! i = ?s ! j \<or> hm_keys m ! nat (?s ! i) = hm_keys m ! nat (?s ! j) \<Longrightarrow> i = j" if "i \<in> js" "j \<in> js" for i j
    using t(1) that by (elim disjE) (simp_all add: table_ok_def js_def)
  have nn: "0 \<le> ?s ! j \<and> nat (?s ! j) < ?n" if "j \<in> js" for j using t(1) that by (auto simp: table_ok_def js_def)
  have "inj_on (\<lambda>j. nat (?s ! j)) js" by (rule inj_onI, rule key) simp_all
  then have "card ((\<lambda>j. nat (?s ! j)) ` js) = ?n" by (simp add: card_image card)
  then have surj: "(\<lambda>j. nat (?s ! j)) ` js = {..<?n}" using nn by (intro card_subset_eq) auto
  show pos: "\<exists>j < length ?s. ?s ! j = int e \<and> is_live (?s ! j)" if "e < ?n" for e
  proof -
    from that have "e \<in> (\<lambda>j. nat (?s ! j)) ` js" unfolding surj by simp
    then obtain j where j: "j \<in> js" "e = nat (?s ! j)" by (rule imageE)
    with nn [OF j(1)] show ?thesis by (intro exI [of _ j]) (simp add: js_def)
  qed
  show "distinct (hm_keys m)" unfolding distinct_conv_nth
  proof (intro allI impI)
    fix a b assume ab: "a < length (hm_keys m)" "b < length (hm_keys m)" "a \<noteq> b"
    with pos [of a] pos [of b] obtain i j where "i \<in> js" "j \<in> js" "?s ! i = int a" "?s ! j = int b" by (auto simp: js_def)
    with key [of i j] ab(3) show "hm_keys m ! a \<noteq> hm_keys m ! b" by auto
  qed
qed

lemma clean_holds:
  assumes "hm_ok h m" and "clean m"
  shows "holds m k v \<longleftrightarrow> (k, v) \<in> set (hm_entries m)"
proof
  assume "holds m k v"
  then show "(k, v) \<in> set (hm_entries m)"
    using table_okD(2) [OF hm_okD(1) [OF assms(1)]] by (fastforce simp: holds_def in_set_conv_nth)
next
  assume "(k, v) \<in> set (hm_entries m)"
  then obtain e where e: "e < length (hm_entries m)" "hm_entries m ! e = (k, v)" by (auto simp: in_set_conv_nth)
  with clean_entries(2) [OF assms e(1)] show "holds m k v" by (auto simp: holds_def)
qed

lemma rehash_spec:
  assumes ok: "hm_ok h m" and cl: "clean m"
  shows "\<exists>m'. hm_rehash h (length (hm_slots m) * 2) m = Some (Inr m') \<and> hm_ok h m' \<and> clean m' \<and> hm_entries m' = hm_entries m
    \<and> hm_map m' = hm_map m \<and> length (hm_slots m') = length (hm_slots m) * 2"
proof -
  note t = hm_okD [OF ok]
  obtain n where n: "length (hm_slots m) = 16 * 2 ^ n" using t(1) by (auto simp: table_ok_def)
  then have cap: "length (hm_slots m) * 2 = 16 * 2 ^ (n + 1)" by simp
  have "length (hm_keys m) < 16 * 2 ^ (n + 1)" using ok cl n by (auto simp: hm_ok_def clean_def)
  moreover have "int (length (hm_keys m)) \<le> kTombstone" using t(1) by (simp add: table_ok_def)
  ultimately obtain slots where s: "rebuild h (hm_keys m) (length (hm_slots m) * 2) = Some slots"
    and pk: "packed h (hm_keys m) slots" and len: "length slots = length (hm_slots m) * 2"
    unfolding cap using rebuild_run [OF clean_entries(1) [OF ok cl]] by blast
  let ?m = "m\<lparr>hm_slots := slots, hm_tombs := 0\<rparr>"
  have run: "hm_rehash h (length (hm_slots m) * 2) m = Some (Inr ?m)" using s by (simp add: hm_rehash_def)
  have "filter (\<lambda>s. s = kTombstone) slots = []" using pk by (auto simp: packed_def filter_empty_conv)
  then have ok': "hm_ok h ?m" and cl': "clean ?m" using pk cl len ok by (auto simp: hm_ok_def packed_def clean_def n_slots_def)
  have "hm_map ?m = hm_map m"
    by (rule hm_map_eqI [OF hm_okD(1) [OF ok']]) (simp add: hm_map_holds [OF t(1)] clean_holds [OF ok' cl'] clean_holds [OF ok cl])
  with run ok' cl' len show ?thesis by fastforce
qed

section \<open>Insertion\<close>

text \<open>Entry \<open>e\<close> of the new map is that of the key, new exactly when the key was absent.\<close>

definition inserted :: "('k \<Rightarrow> nat) \<Rightarrow> 'k \<Rightarrow> 'v \<Rightarrow> ('k, 'v) hash_map \<Rightarrow> nat \<Rightarrow> bool \<Rightarrow> ('k, 'v) hash_map \<Rightarrow> bool" where
  "inserted h k v m e b m' \<longleftrightarrow> hm_ok h m'
    \<and> (b \<longleftrightarrow> hm_map m k = None) \<and> hm_map m' = (if b then (hm_map m)(k \<mapsto> v) else hm_map m)
    \<and> e < length (hm_entries m') \<and> fst (hm_entries m' ! e) = k \<and> (\<exists>j < length (hm_slots m'). hm_slots m' ! j = int e)
    \<and> (clean m \<longrightarrow> clean m') \<and> length (hm_entries m') \<le> length (hm_entries m) + 1"

lemma insert_at_spec:
  assumes ok: "hm_ok h m" and load: "\<not> over_load (hm_count m + hm_tombs m) (length (hm_slots m))"
    and room: "int (length (hm_entries m)) < kTombstone"
  shows "\<exists>e b m'. then_call (probe_at h m k) (\<lambda>p. Some (Inr (insert_at k v m p))) = Some (Inr (e, b, m')) \<and> inserted h k v m e b m'"
proof -
  note t = hm_okD [OF ok]
  let ?s = "hm_slots m"
  from probe_map [OF ok, of k] obtain D idx ft where p: "probe_at h m k = Some (Inr (idx, ft))"
      "stop_at h (hm_keys m) ?s k D idx" "passed_tomb h ?s k D ft" "idx < length ?s"
    and v: "if ?s ! idx = kEmptySlot then hm_map m k = None
       else is_live (?s ! idx) \<and> nat (?s ! idx) < length (hm_entries m)
         \<and> hm_entries m ! nat (?s ! idx) = (k, snd (hm_entries m ! nat (?s ! idx)))
         \<and> hm_map m k = Some (snd (hm_entries m ! nat (?s ! idx)))" by metis
  show ?thesis
  proof (cases "?s ! idx = kEmptySlot")
    case False
    have "0 \<le> ?s ! idx" using t(1) p(4) v False by (auto simp: table_ok_def)
    then have "\<exists>j < length ?s. ?s ! j = int (nat (?s ! idx))" using p(4) by (intro exI [of _ idx]) simp
    moreover have "fst (hm_entries m ! nat (?s ! idx)) = k" using v False by (simp add: prod_eq_iff)
    ultimately have "inserted h k v m (nat (?s ! idx)) False m" using False v ok by (simp add: inserted_def)
    moreover have "then_call (probe_at h m k) (\<lambda>p. Some (Inr (insert_at k v m p))) = Some (Inr (nat (?s ! idx), False, m))"
      using p(1) False by (simp add: insert_at_def)
    ultimately show ?thesis by blast
  next
    case True
    let ?n = "length (hm_entries m)" and ?t = "case ft of None \<Rightarrow> idx | Some t \<Rightarrow> t"
    let ?m = "\<lparr>hm_slots = ?s[?t := int ?n], hm_entries = hm_entries m @ [(k, v)], hm_count = hm_count m + 1,
       hm_tombs = (if ft = None then hm_tombs m else hm_tombs m - 1)\<rparr>"
    have "int ?n mod 4294967296 = int ?n" using room by (simp add: kTombstone_def)
    then have run: "then_call (probe_at h m k) (\<lambda>p. Some (Inr (insert_at k v m p))) = Some (Inr (?n, True, ?m))"
      using p True by (simp add: insert_at_def Let_def)
    from table_insert [OF t(1) p(2) True p(3) _ refl] room
    have tab: "table_ok h (hm_keys ?m) (hm_slots ?m)" "?t < length ?s" "\<not> is_live (?s ! ?t)" by auto
    have live: "is_live (int ?n)" using room by (auto simp: is_live_def kEmptySlot_def kTombstone_def)
    have tomb: "(?s ! ?t = kTombstone) = (ft \<noteq> None)" using p(3) True by (cases ft) (auto simp: passed_tomb_def)
    have c: "n_slots is_live (hm_slots ?m) = hm_count m + 1" "n_slots (\<lambda>s. s = kTombstone) (hm_slots ?m) = hm_tombs ?m"
      using n_slots_update [OF tab(2), of is_live "int ?n"] n_slots_update [OF tab(2), of "\<lambda>s. s = kTombstone" "int ?n"] live tab(3) tomb ok
      by (auto simp: hm_ok_def is_live_def)
    have "16 \<le> length ?s" using t(1) by (auto simp: table_ok_def)
    then have "hm_count ?m + hm_tombs ?m < length (hm_slots ?m)" using load by (auto simp: over_load_def)
    with tab(1) c have ok': "hm_ok h ?m" by (simp add: hm_ok_def)
    have "hm_map ?m = (hm_map m)(k \<mapsto> v)"
    proof (rule hm_map_eqI [OF tab(1)])
      fix k' v'
      have "holds ?m k' v' \<longleftrightarrow> holds m k' v' \<or> k' = k \<and> v' = v"
      proof
        assume "holds ?m k' v'"
        then obtain j where "j < length ?s" "is_live (?s[?t := int ?n] ! j)"
            "(hm_entries m @ [(k, v)]) ! nat (?s[?t := int ?n] ! j) = (k', v')" by (auto simp: holds_def)
        then show "holds m k' v' \<or> k' = k \<and> v' = v" using table_okD(2) [OF t(1), of j] tab(2)
          by (cases "j = ?t") (auto simp: holds_def nth_append)
      next
        assume "holds m k' v' \<or> k' = k \<and> v' = v"
        then show "holds ?m k' v'"
        proof
          assume "holds m k' v'"
          then obtain j where j: "j < length ?s" "is_live (?s ! j)" "hm_entries m ! nat (?s ! j) = (k', v')" by (auto simp: holds_def)
          moreover have "j \<noteq> ?t" using j(2) tab(3) by auto
          ultimately show ?thesis using table_okD(2) [OF t(1) j(1,2)] unfolding holds_def by (intro exI [of _ j]) (simp add: nth_append)
        next
          assume "k' = k \<and> v' = v"
          then show ?thesis using tab(2) live unfolding holds_def by (intro exI [of _ ?t]) simp
        qed
      qed
      then show "holds ?m k' v' \<longleftrightarrow> ((hm_map m)(k \<mapsto> v)) k' = Some v'"
        using v True by (auto simp: hm_map_holds [OF t(1), symmetric])
    qed
    moreover have "\<exists>j < length (hm_slots ?m). hm_slots ?m ! j = int ?n" using tab(2) by (intro exI [of _ ?t]) simp
    ultimately have "inserted h k v m ?n True ?m" using ok' v True by (simp add: inserted_def clean_def)
    with run show ?thesis by blast
  qed
qed

text \<open>Without a rebuild after a removal, insertion is that of a finite map.\<close>

definition safe_insert :: "('k, 'v) hash_map \<Rightarrow> bool" where
  "safe_insert m \<longleftrightarrow> (over_load (hm_count m + hm_tombs m) (length (hm_slots m)) \<longrightarrow> clean m)
     \<and> int (length (hm_entries m)) < kTombstone"

lemma findOrInsert_spec:
  assumes ok: "hm_ok h m" and safe: "safe_insert m"
  shows "\<exists>e b m'. findOrInsert h k v m = Some (Inr (e, b, m')) \<and> inserted h k v m e b m'"
proof (cases "over_load (hm_count m + hm_tombs m) (length (hm_slots m))")
  case False
  with insert_at_spec [OF ok False] safe show ?thesis by (simp add: findOrInsert_def safe_insert_def)
next
  case True
  with safe have cl: "clean m" by (simp add: safe_insert_def)
  from rehash_spec [OF ok cl] obtain m1 where m1: "hm_rehash h (length (hm_slots m) * 2) m = Some (Inr m1)" "hm_ok h m1" "clean m1"
    "hm_entries m1 = hm_entries m" "hm_map m1 = hm_map m" "length (hm_slots m1) = length (hm_slots m) * 2" by blast
  have "hm_tombs m1 = 0" using m1(1) by (auto simp: hm_rehash_def)
  moreover have "hm_count m1 = hm_count m" using m1(3,4) cl by (simp add: clean_def)
  ultimately have "\<not> over_load (hm_count m1 + hm_tombs m1) (length (hm_slots m1))"
    using ok m1(6) by (auto simp: over_load_def hm_ok_def)
  from insert_at_spec [OF m1(2) this, of k v] m1(4) safe obtain e b m'
    where r: "then_call (probe_at h m1 k) (\<lambda>p. Some (Inr (insert_at k v m1 p))) = Some (Inr (e, b, m'))" "inserted h k v m1 e b m'"
    by (auto simp: safe_insert_def)
  have "inserted h k v m e b m'" using r(2) m1(3-5) cl by (simp add: inserted_def)
  with r(1) m1(1) True show ?thesis by (simp add: findOrInsert_def)
qed

text \<open>A write through the pointer that an insertion returned.\<close>

lemma write_entry:
  assumes "inserted h k v0 m e b m'"
  shows "hm_ok h (m'\<lparr>hm_entries := (hm_entries m')[e := (k, v)]\<rparr>)"
    and "hm_map (m'\<lparr>hm_entries := (hm_entries m')[e := (k, v)]\<rparr>) = (hm_map m')(k \<mapsto> v)"
    and "clean m \<Longrightarrow> clean (m'\<lparr>hm_entries := (hm_entries m')[e := (k, v)]\<rparr>)"
    and "hm_map m' k = Some (snd (hm_entries m' ! e))"
proof -
  have ok': "hm_ok h m'" and e: "e < length (hm_entries m')" "fst (hm_entries m' ! e) = k"
    and j: "\<exists>j < length (hm_slots m'). hm_slots m' ! j = int e" and cl: "clean m \<longrightarrow> clean m'"
    using assms unfolding inserted_def by blast+
  let ?m = "m'\<lparr>hm_entries := (hm_entries m')[e := (k, v)]\<rparr>"
  have keys: "hm_keys ?m = hm_keys m'" using e by (simp add: map_update) (metis list_update_id nth_map)
  then have ok2: "hm_ok h ?m" using ok' by (simp add: hm_ok_def)
  note t = hm_okD(1) [OF ok'] and t2 = hm_okD(1) [OF ok2]
  have live: "is_live (int e)" using e(1) t by (auto simp: table_ok_def is_live_def kEmptySlot_def kTombstone_def)
  have "hm_map ?m = (hm_map m')(k \<mapsto> v)"
  proof (rule hm_map_eqI [OF t2])
    fix k' v'
    have "holds ?m k' v' \<longleftrightarrow> (if k' = k then v' = v else holds m' k' v')"
    proof
      assume "holds ?m k' v'"
      then obtain i where i: "i < length (hm_slots m')" "is_live (hm_slots m' ! i)"
        "(hm_entries m')[e := (k, v)] ! nat (hm_slots m' ! i) = (k', v')" by (auto simp: holds_def)
      show "if k' = k then v' = v else holds m' k' v'"
      proof (cases "nat (hm_slots m' ! i) = e")
        case True with i e show ?thesis by simp
      next
        case False
        obtain j where j: "j < length (hm_slots m')" "hm_slots m' ! j = int e" using j by blast
        have "hm_keys m' ! nat (hm_slots m' ! i) \<noteq> hm_keys m' ! nat (hm_slots m' ! j)"
          using t i(1,2) j live False unfolding table_ok_def by (metis nat_int)
        then have "k' \<noteq> k" using i False e j table_okD(2) [OF t i(1,2)] by auto
        with i False show ?thesis by (auto simp: holds_def)
      qed
    next
      assume a: "if k' = k then v' = v else holds m' k' v'"
      show "holds ?m k' v'"
      proof (cases "k' = k")
        case True with a j e live show ?thesis by (fastforce simp: holds_def)
      next
        case False
        with a obtain i where i: "i < length (hm_slots m')" "is_live (hm_slots m' ! i)" "hm_entries m' ! nat (hm_slots m' ! i) = (k', v')"
          by (auto simp: holds_def)
        moreover from this have "nat (hm_slots m' ! i) \<noteq> e" using e False by auto
        ultimately show ?thesis by (auto simp: holds_def)
      qed
    qed
    then show "holds ?m k' v' \<longleftrightarrow> ((hm_map m')(k \<mapsto> v)) k' = Some v'" by (auto simp: hm_map_holds [OF t])
  qed
  with ok2 cl show "hm_ok h ?m" "hm_map ?m = (hm_map m')(k \<mapsto> v)" "clean m \<Longrightarrow> clean ?m" by (simp_all add: clean_def)
  have "holds m' k (snd (hm_entries m' ! e))" using j live e unfolding holds_def by (metis nat_int prod.collapse)
  then show "hm_map m' k = Some (snd (hm_entries m' ! e))" by (simp add: hm_map_holds [OF t])
qed

lemma hm_put_spec:
  assumes ok: "hm_ok h m" and safe: "safe_insert m"
  shows "\<exists>m'. hm_put h k v m = Some (Inr m') \<and> hm_ok h m' \<and> hm_map m' = (hm_map m)(k \<mapsto> v) \<and> (clean m \<longrightarrow> clean m')"
proof -
  from findOrInsert_spec [OF assms, of k v] obtain e b m' where run: "findOrInsert h k v m = Some (Inr (e, b, m'))"
    and ins: "inserted h k v m e b m'" by blast
  have "hm_map m' = (if b then (hm_map m)(k \<mapsto> v) else hm_map m)" using ins unfolding inserted_def by blast
  with write_entry(1-3) [OF ins, of v] run show ?thesis by (auto simp: hm_put_def split: if_splits)
qed

section \<open>The interface\<close>

text \<open>The map with removals, as long as no rebuild follows one, and the map that only grows.\<close>

interpretation hm: erasable_map "hm_ok h" hm_map safe_insert "hm_get h" "hm_put h" "hm_remove h" for h
proof unfold_locales
  fix m :: "('a, 'b) hash_map" and k v
  assume "hm_ok h m"
  then show "hm_get h k m = Some (Inr (hm_map m k))" by (rule hm_get_spec)
  show "\<exists>m'. hm_remove h k m = Some (Inr m') \<and> hm_ok h m' \<and> hm_map m' = (hm_map m)(k := None)"
    using \<open>hm_ok h m\<close> by (rule hm_remove_spec)
  assume "safe_insert m"
  with \<open>hm_ok h m\<close> show "\<exists>m'. hm_put h k v m = Some (Inr m') \<and> hm_ok h m' \<and> hm_map m' = (hm_map m)(k \<mapsto> v)"
    using hm_put_spec [of h m k v] by blast
qed

definition few_entries :: "('k, 'v) hash_map \<Rightarrow> bool" where
  "few_entries m \<longleftrightarrow> int (length (hm_entries m)) < kTombstone"

interpretation growing: map_store "\<lambda>m. hm_ok h m \<and> clean m" hm_map few_entries "hm_get h" "hm_put h" for h
proof unfold_locales
  fix m :: "('a, 'b) hash_map" and k v
  assume m: "hm_ok h m \<and> clean m"
  then show "hm_get h k m = Some (Inr (hm_map m k))" by (simp add: hm_get_spec)
  assume "few_entries m"
  with m have "safe_insert m" by (simp add: safe_insert_def few_entries_def)
  with m show "\<exists>m'. hm_put h k v m = Some (Inr m') \<and> (hm_ok h m' \<and> clean m') \<and> hm_map m' = (hm_map m)(k \<mapsto> v)"
    using hm_put_spec [of h m k v] by blast
qed

section \<open>The hash set\<close>

text \<open>The set never removes, so its table always holds exactly its keys.\<close>

definition hs_ok :: "('k \<Rightarrow> nat) \<Rightarrow> 'k hash_set \<Rightarrow> bool" where
  "hs_ok h m \<longleftrightarrow> packed h (hs_keys m) (hs_slots m) \<and> distinct (hs_keys m) \<and> hs_count m = length (hs_keys m) \<and> hs_tombs m = 0
     \<and> hs_occupied m = int (length (hs_keys m)) \<and> hs_count m < length (hs_slots m)"

lemma hs_new_ok: "hs_ok h hs_new \<and> hs_keys hs_new = []"
  using packed_empty [of h 0] by (simp add: hs_ok_def hs_new_def)

lemma hs_probe:
  assumes ok: "hs_ok h m"
  shows "\<exists>D idx. probe (hs_keys m) (hs_slots m) k (h k mod length (hs_slots m)) None = Some (Inr (idx, None))
    \<and> stop_at h (hs_keys m) (hs_slots m) k D idx \<and> idx < length (hs_slots m) \<and> (hs_slots m ! idx = kEmptySlot \<longleftrightarrow> k \<notin> set (hs_keys m))"
proof -
  have t: "table_ok h (hs_keys m) (hs_slots m)" and nt: "kTombstone \<notin> set (hs_slots m)" using ok by (auto simp: hs_ok_def packed_def)
  have "filter (\<lambda>s. s = kTombstone) (hs_slots m) = []" using nt by (auto simp: filter_empty_conv)
  then have "kEmptySlot \<in> set (hs_slots m)" using empty_slot_exists [of "hs_slots m"] ok by (simp add: hs_ok_def packed_def n_slots_def)
  from probe_spec [OF t this, of k] obtain D idx ft
    where p: "probe (hs_keys m) (hs_slots m) k (h k mod length (hs_slots m)) None = Some (Inr (idx, ft))"
      "stop_at h (hs_keys m) (hs_slots m) k D idx" "passed_tomb h (hs_slots m) k D ft" by blast
  have len: "0 < length (hs_slots m)" using table_okD [OF t] by blast
  have "ft = None" using p(3) nt len by (cases ft) (auto simp: passed_tomb_def in_set_conv_nth)
  moreover have idx: "idx < length (hs_slots m)" using p(2) len by (auto simp: stop_at_def)
  moreover have "hs_slots m ! idx = kEmptySlot \<longleftrightarrow> k \<notin> set (hs_keys m)"
  proof
    assume e: "hs_slots m ! idx = kEmptySlot"
    show "k \<notin> set (hs_keys m)"
    proof
      assume "k \<in> set (hs_keys m)"
      then obtain i where i: "i < length (hs_keys m)" "hs_keys m ! i = k" by (auto simp: in_set_conv_nth)
      then obtain j where j: "j < length (hs_slots m)" "hs_slots m ! j = int i" using ok by (auto simp: hs_ok_def packed_def)
      have "is_live (hs_slots m ! j)" using i(1) j t by (auto simp: table_ok_def is_live_def kEmptySlot_def kTombstone_def)
      from stop_miss [OF t p(2) e j(1) this] i j show False by simp
    qed
  next
    assume "k \<notin> set (hs_keys m)"
    with stop_hit [OF p(2)] table_okD(2) [OF t idx] show "hs_slots m ! idx = kEmptySlot" by (metis nth_mem)
  qed
  ultimately show ?thesis using p by blast
qed

lemma hs_contains_spec: "hs_ok h m \<Longrightarrow> hs_contains h k m = Some (Inr (k \<in> set (hs_keys m)))"
  using hs_probe [of h m k] by (auto simp: hs_contains_def)

lemma hs_grow:
  assumes ok: "hs_ok h m"
  shows "\<exists>m'. (if over_load (hs_count m + hs_tombs m) (length (hs_slots m)) then hs_rehash h (length (hs_slots m) * 2) m else Some (Inr m)) = Some (Inr m')
    \<and> hs_ok h m' \<and> hs_keys m' = hs_keys m \<and> length (hs_keys m') + 1 < length (hs_slots m')"
proof (cases "over_load (hs_count m + hs_tombs m) (length (hs_slots m))")
  case False
  obtain n :: nat where "length (hs_slots m) = 16 * 2 ^ n" using ok by (auto simp: hs_ok_def packed_def table_ok_def)
  then have "16 \<le> length (hs_slots m)" by simp
  with False ok show ?thesis by (auto simp: hs_ok_def over_load_def)
next
  case True
  obtain n where n: "length (hs_slots m) = 16 * 2 ^ n" using ok by (auto simp: hs_ok_def packed_def table_ok_def)
  then have cap: "length (hs_slots m) * 2 = 16 * 2 ^ (n + 1)" by simp
  have "int (length (hs_keys m)) \<le> kTombstone" "length (hs_keys m) < 16 * 2 ^ (n + 1)"
    using ok n by (auto simp: hs_ok_def packed_def table_ok_def)
  then obtain slots where s: "rebuild h (hs_keys m) (length (hs_slots m) * 2) = Some slots" "packed h (hs_keys m) slots"
      "length slots = length (hs_slots m) * 2"
    unfolding cap using rebuild_run ok by (metis hs_ok_def)
  have "1 \<le> length (hs_slots m)" "length (hs_keys m) < length (hs_slots m)" using n ok by (auto simp: hs_ok_def)
  with s True ok show ?thesis by (auto simp: hs_rehash_def hs_ok_def)
qed

lemma hs_insert_spec:
  assumes ok: "hs_ok h m" and room: "int (length (hs_keys m)) < kTombstone"
  shows "\<exists>m'. hs_insert h k m = Some (Inr (k \<notin> set (hs_keys m), m')) \<and> hs_ok h m'
    \<and> hs_keys m' = (if k \<in> set (hs_keys m) then hs_keys m else hs_keys m @ [k])"
proof -
  from hs_grow [OF ok] obtain m1 where g: "(if over_load (hs_count m + hs_tombs m) (length (hs_slots m)) then hs_rehash h (length (hs_slots m) * 2) m else Some (Inr m)) = Some (Inr m1)"
    and m1: "hs_ok h m1" "hs_keys m1 = hs_keys m" "length (hs_keys m1) + 1 < length (hs_slots m1)" by blast
  from hs_probe [OF m1(1), of k] obtain D idx where p: "probe (hs_keys m1) (hs_slots m1) k (h k mod length (hs_slots m1)) None = Some (Inr (idx, None))"
    and st: "stop_at h (hs_keys m1) (hs_slots m1) k D idx" and idx: "idx < length (hs_slots m1)"
    and e: "hs_slots m1 ! idx = kEmptySlot \<longleftrightarrow> k \<notin> set (hs_keys m1)" by blast
  show ?thesis
  proof (cases "k \<in> set (hs_keys m)")
    case True
    with g p e m1 show ?thesis by (simp add: hs_insert_def)
  next
    case False
    let ?n = "int (length (hs_keys m))"
    let ?m = "m1\<lparr>hs_slots := (hs_slots m1)[idx := hs_occupied m1], hs_occupied := (hs_occupied m1 + 1) mod 4294967296,
              hs_count := hs_count m1 + 1, hs_keys := hs_keys m1 @ [k]\<rparr>"
    have occ: "hs_occupied m1 = ?n" "(?n + 1) mod 4294967296 = ?n + 1" using m1 room by (auto simp: hs_ok_def kTombstone_def)
    have "hs_insert h k m = Some (Inr (True, ?m))" using g p e m1(2) False by (simp add: hs_insert_def)
    moreover have "packed h (hs_keys m1 @ [k]) ((hs_slots m1)[idx := ?n])"
    proof -
      have pk: "packed h (hs_keys m1) (hs_slots m1)" using m1(1) by (simp add: hs_ok_def)
      obtain idx' where v: "vacant (hs_slots m1) (h k mod length (hs_slots m1)) = Some idx'"
        and pk': "packed h (hs_keys m1 @ [k]) ((hs_slots m1)[idx' := int (length (hs_keys m1))])"
        using place_one [OF pk] False m1 room by auto
      have len: "0 < length (hs_slots m1)" using idx by auto
      have "\<forall>d < D. hs_slots m1 ! seq h (hs_slots m1) k d \<noteq> kEmptySlot" "hs_slots m1 ! seq h (hs_slots m1) k D = kEmptySlot"
        using st e False m1(2) by (auto simp: stop_at_def stops_def)
      with vacant_run [of "hs_slots m1" h k D 0] v st have "idx' = idx" by (simp add: seq_def stop_at_def)
      with pk' m1(2) show ?thesis by simp
    qed
    moreover have "hs_tombs m1 = 0" "hs_count m1 = length (hs_keys m)" "distinct (hs_keys m)" using m1 by (auto simp: hs_ok_def)
    ultimately show ?thesis using occ m1 False by (intro exI [of _ ?m]) (simp add: hs_ok_def)
  qed
qed

section \<open>Probes that never end\<close>

lemma probe_diverges:
  assumes "\<forall>s \<in> set slots. s \<noteq> kEmptySlot \<and> slot_hits keys k s = Inr False" and "idx < length slots"
  shows "probe keys slots k idx ft = None"
proof -
  have "probe keys' slots' k' i f = Some r \<Longrightarrow> \<not> (keys' = keys \<and> slots' = slots \<and> k' = k \<and> i < length slots)"
    for keys' slots' k' i f r
  proof (induction rule: probe.raw_induct [rotated, consumes 1])
    case (1 rec ks sl k0 i f r)
    show ?case
    proof
      assume eq: "ks = keys \<and> sl = slots \<and> k0 = k \<and> i < length slots"
      then have "slots ! i \<noteq> kEmptySlot" "slot_hits keys k (slots ! i) = Inr False" using assms by auto
      moreover have "(i + 1) mod length slots < length slots" using assms(2) by (intro mod_less_divisor) auto
      ultimately show False using 1(1) 1(2) eq by (auto simp: Let_def)
    qed
  qed
  with assms(2) show ?thesis by (metis option.exhaust)
qed

end
