(* ===== verification/Container_Properties.thy ===== *)
theory Container_Properties
  imports Sparse_Set Hash_Map_Laws
begin

text \<open>
  What the compiler's containers promise, and the two ways in which the hash map breaks its
  promise after removals.
\<close>

section \<open>Index sets\<close>

text \<open>
  C19. Any sequence of insertions and removals of indices below the universe runs on a
  \<open>SparseSet\<close> without an access out of bounds, and leaves a set with exactly the members that
  the sequence gives, each listed once; \<open>contains\<close> answers for them.
\<close>
theorem sparse_set_refines:
  assumes "wf_sparse s" and "\<forall>p \<in> set ps. op_index_of p < sp_universe s" and "i < sp_universe s"
  shows "\<exists>t. fold_res (impl_step sp_insert sp_remove) ps s = Inr t \<and> set (sp_dense t) = fold set_step ps (set (sp_dense s))
    \<and> distinct (sp_dense t) \<and> sp_contains i t = Inr (i \<in> fold set_step ps (set (sp_dense s)))"
proof -
  from sparse_set.run_refines [OF assms(1,2)] obtain t where t: "fold_res (impl_step sp_insert sp_remove) ps s = Inr t"
    "wf_sparse t" "sp_universe t = sp_universe s" "set (sp_dense t) = fold set_step ps (set (sp_dense s))" by blast
  with sparse_set.mem [OF t(2)] assms(3) show ?thesis by (auto simp: wf_sparse_def)
qed

lemma sparse_set_refines_witness:
  "\<exists>t. fold_res (impl_step sp_insert sp_remove) [Insert_op 3, Insert_op 5, Remove_op 3, Insert_op 7] (sp_reset 9) = Inr t
     \<and> set (sp_dense t) = {5, 7}"
proof -
  have "wf_sparse (sp_reset 9) \<and> sp_dense (sp_reset 9) = [] \<and> sp_universe (sp_reset 9) = 9" by (rule sp_reset_spec) simp
  with sparse_set_refines [of "sp_reset 9" "[Insert_op 3, Insert_op 5, Remove_op 3, Insert_op 7]" 5] show ?thesis by auto
qed

text \<open>
  The operations of \<open>BitVector\<close> are set operations on its one bits: union (within the words of
  the left operand) with an exact report of change, intersection, emptiness, and cardinality.
\<close>
theorem bit_vector_algebra:
  "members (bv_words (fst (unionWith a b))) = bv_members a \<union> {i \<in> bv_members b. i div 64 < length (bv_words a)}
   \<and> (snd (unionWith a b) \<longleftrightarrow> members (bv_words (fst (unionWith a b))) \<noteq> bv_members a)
   \<and> bv_members (bv_and a b) = bv_members a \<inter> bv_members b
   \<and> (bv_any a \<longleftrightarrow> bv_members a \<noteq> {}) \<and> bv_popcount a = card (bv_members a) \<and> bv_members (bv_clear a) = {}"
proof -
  have "fst (unionWith a b) = bv_or a b" by (simp add: unionWith_def Let_def)
  then show ?thesis using bv_or_members unionWith_changed bv_and_members bv_any_members bv_popcount_card bv_clear_spec by simp
qed

section \<open>The hash map\<close>

text \<open>
  C18. As long as no rebuild is due after a removal, \<open>OpenHashMap\<close> refines the finite maps. On a
  well-formed table in which an insertion either needs no rebuild or no entry was ever removed, and
  which has fewer entries than there are slot codes (\<open>safe_insert\<close>), every lookup returns with the
  value of its key, insertion, overwriting and removal return with the updated map, and
  \<open>findOrInsert\<close> leaves a well-formed table and says whether the key was new. A rebuild after a
  removal is the case in which the table fails, see \<open>hash_map_forgets_removals\<close>.
\<close>
theorem hash_map_refines:
  assumes "hm_ok h m" and "safe_insert m"
  shows "hm_get h k m = Some (Inr (hm_map m k))
    \<and> then_call (hm_put h k v m) (hm_get h k') = Some (Inr (((hm_map m)(k \<mapsto> v)) k'))
    \<and> then_call (hm_remove h k m) (hm_get h k') = Some (Inr (((hm_map m)(k := None)) k'))
    \<and> (\<exists>e b m'. findOrInsert h k v m = Some (Inr (e, b, m')) \<and> hm_ok h m' \<and> (b \<longleftrightarrow> hm_map m k = None)
      \<and> hm_map m' = (if b then (hm_map m)(k \<mapsto> v) else hm_map m) \<and> fst (hm_entries m' ! e) = k)"
  using hm.get [OF assms(1)] hm.get_put [OF assms] hm.get_del [OF assms(1)] findOrInsert_spec [OF assms, of k v]
  by (auto simp: inserted_def)

lemma hash_map_refines_witness:
  "then_call (hm_put id 3 True hm_new) (hm_get id 3) = Some (Inr (Some True))"
proof -
  have ok: "hm_ok id (hm_new :: (nat, bool) hash_map)" using new_map by blast
  have "safe_insert (hm_new :: (nat, bool) hash_map)" by (simp add: safe_insert_def hm_new_def over_load_def kTombstone_def)
  from hash_map_refines [OF ok this, of 3 True 3] show ?thesis by simp
qed

text \<open>
  Every lookup and every insertion into an \<open>OpenHashSet\<close> returns, whatever the hash function;
  it answers membership exactly and lists every key once, in the order of insertion.
\<close>
theorem hash_set_live:
  assumes "hs_ok h m" and "int (length (hs_keys m)) < kTombstone"
  shows "hs_contains h k m = Some (Inr (k \<in> set (hs_keys m)))
    \<and> (\<exists>m'. hs_insert h k m = Some (Inr (k \<notin> set (hs_keys m), m')) \<and> hs_ok h m'
        \<and> hs_keys m' = (if k \<in> set (hs_keys m) then hs_keys m else hs_keys m @ [k]) \<and> distinct (hs_keys m'))"
  using hs_contains_spec [OF assms(1), of k] hs_insert_spec [OF assms, of k] by (fastforce simp: hs_ok_def)

lemma hash_set_live_witness: "hs_contains id (3 :: nat) hs_new = Some (Inr False)"
proof -
  have "hs_ok id (hs_new :: nat hash_set) \<and> hs_keys (hs_new :: nat hash_set) = []" by (rule hs_new_ok)
  moreover from this have "int (length (hs_keys (hs_new :: nat hash_set))) < kTombstone" by (simp add: kTombstone_def)
  ultimately show ?thesis using hash_set_live [of id "hs_new :: nat hash_set" 3] by simp
qed

section \<open>After removals\<close>

text \<open>Keys inserted and removed again, then keys inserted to stay, with the identity as hash.\<close>

definition transient :: "nat list \<Rightarrow> (nat, bool) hash_map \<Rightarrow> (nat, bool) hash_map result option" where
  "transient ks m = fold (\<lambda>k r. then_call (then_call r (hm_put id k True)) (hm_remove id k)) ks (Some (Inr m))"

definition stored :: "nat list \<Rightarrow> (nat, bool) hash_map \<Rightarrow> (nat, bool) hash_map result option" where
  "stored ks m = fold (\<lambda>k r. then_call r (hm_put id k True)) ks (Some (Inr m))"

definition full_of_others :: "nat \<Rightarrow> (nat, bool) hash_map \<Rightarrow> bool" where
  "full_of_others k m \<longleftrightarrow> list_all (\<lambda>s. s \<noteq> kEmptySlot \<and> slot_hits (map fst (hm_entries m)) k s = Inr False) (hm_slots m)
     \<and> k mod length (hm_slots m) < length (hm_slots m)"

lemma full_table: "case transient [0..<32] hm_new of Some (Inr m) \<Rightarrow> full_of_others 32 m \<and> hm_size m = 0 | _ \<Rightarrow> False"
  by code_simp

text \<open>
  C20. After removals the map breaks both promises. A rebuild places every entry ever stored, so a
  removed key is found again; and because the load test no longer counts those entries the table
  can fill up: after 32 keys were stored and removed one by one, the map is empty, no slot is, and
  the lookup of an absent key never returns.
\<close>
theorem hash_map_forgets_removals:
  "then_call (then_call (transient [0] hm_new) (stored [1..<13])) (hm_get id 0) = Some (Inr (Some True))
   \<and> then_call (transient [0..<32] hm_new) (hm_get id 32) = None"
proof
  show "then_call (then_call (transient [0] hm_new) (stored [1..<13])) (hm_get id 0) = Some (Inr (Some True))" by code_simp
  from full_table obtain m where m: "transient [0..<32] hm_new = Some (Inr m)" "full_of_others 32 m"
    by (auto split: option.splits sum.splits)
  then have "probe_at id m 32 = None" unfolding probe_at_def
    by (intro probe_diverges) (auto simp: full_of_others_def list_all_iff)
  with m(1) show "then_call (transient [0..<32] hm_new) (hm_get id 32) = None" by (simp add: hm_get_def hm_find_def)
qed

end
