(* ===== verification/Float64.thy ===== *)
theory Float64
  imports Prelude "HOL-Library.Word" "HOL-Library.Log_Nat"
begin

text \<open>
  The \<open>double\<close> of the source: IEEE 754 binary64 with rounding to nearest, ties to even. A number is
  its bit pattern. Payloads of NaNs are not told apart: every operation yields the canonical quiet
  NaN, and \<open>f64_canon\<close> maps any NaN to it. The functions of the C mathematics library, whose
  results are not fixed by a standard, are the record \<open>libm\<close>.
\<close>

section \<open>Bit patterns\<close>

type_synonym f64 = "64 word"

definition f64_neg_sign :: "f64 \<Rightarrow> bool" where "f64_neg_sign v \<longleftrightarrow> uint v \<ge> 2 ^ 63"
definition f64_mag :: "f64 \<Rightarrow> int" where "f64_mag v = uint v mod 2 ^ 63"
definition f64_exp :: "f64 \<Rightarrow> int" where "f64_exp v = f64_mag v div 2 ^ 52"
definition f64_frac :: "f64 \<Rightarrow> int" where "f64_frac v = f64_mag v mod 2 ^ 52"

definition f64_nan :: "f64 \<Rightarrow> bool" where "f64_nan v \<longleftrightarrow> f64_exp v = 2047 \<and> f64_frac v \<noteq> 0"
definition f64_inf :: "f64 \<Rightarrow> bool" where "f64_inf v \<longleftrightarrow> f64_exp v = 2047 \<and> f64_frac v = 0"
definition f64_zero :: "f64 \<Rightarrow> bool" where "f64_zero v \<longleftrightarrow> f64_mag v = 0"

definition NaN :: f64 where "NaN = 0x7ff8000000000000"
definition f64_canon :: "f64 \<Rightarrow> f64" where "f64_canon v = (if f64_nan v then NaN else v)"

definition f64_pack :: "bool \<Rightarrow> int \<Rightarrow> f64" where
  "f64_pack neg b = word_of_int (b + (if neg then 2 ^ 63 else 0))"

lemma f64_parts:
  "uint v = f64_mag v + (if f64_neg_sign v then 2 ^ 63 else 0)"
  "f64_mag v = f64_exp v * 2 ^ 52 + f64_frac v" "0 \<le> f64_frac v" "f64_frac v < 2 ^ 52" "0 \<le> f64_exp v" "f64_exp v < 2 ^ 11"
proof -
  have u: "0 \<le> uint v" "uint v < 2 ^ 64" using uint_lt2p [of v] by simp_all
  show "uint v = f64_mag v + (if f64_neg_sign v then 2 ^ 63 else 0)"
  proof (cases "f64_neg_sign v")
    case True
    then have "uint v mod 2 ^ 63 = (uint v - 2 ^ 63) mod 2 ^ 63" by (simp add: mod_diff_eq [symmetric])
    also have "\<dots> = uint v - 2 ^ 63" using u True by (intro mod_pos_pos_trivial) (simp_all add: f64_neg_sign_def)
    finally show ?thesis using True by (simp add: f64_mag_def)
  qed (use u in \<open>simp add: f64_mag_def f64_neg_sign_def\<close>)
  show "f64_mag v = f64_exp v * 2 ^ 52 + f64_frac v" by (simp add: f64_exp_def f64_frac_def)
  show "0 \<le> f64_frac v" "f64_frac v < 2 ^ 52" by (simp_all add: f64_frac_def)
  have m: "0 \<le> f64_mag v" "f64_mag v < 2 ^ 63" by (simp_all add: f64_mag_def)
  then show "0 \<le> f64_exp v" "f64_exp v < 2 ^ 11" by (simp_all add: f64_exp_def)
qed

lemma f64_pack_parts [simp]: "f64_pack (f64_neg_sign v) (f64_mag v) = v"
  by (metis f64_pack_def f64_parts(1) word_of_int_uint)

section \<open>Values and rounding\<close>

text \<open>The number a finite pattern stands for.\<close>

definition f64_abs :: "f64 \<Rightarrow> rat" where
  "f64_abs v = (if f64_exp v = 0 then of_int (f64_frac v) * 2 powi (- 1074)
     else of_int (2 ^ 52 + f64_frac v) * 2 powi (f64_exp v - 1075))"

definition f64_rat :: "f64 \<Rightarrow> rat" where
  "f64_rat v = (if f64_neg_sign v then - f64_abs v else f64_abs v)"

definition round_half_even :: "rat \<Rightarrow> int" where
  "round_half_even r = (let f = \<lfloor>r\<rfloor>; d = r - of_int f in
     if d < 1 / 2 \<or> (d = 1 / 2 \<and> even f) then f else f + 1)"

text \<open>The exponent of the leading bit of a positive number.\<close>

definition ilog2 :: "rat \<Rightarrow> int" where
  "ilog2 r = (let (n, d) = quotient_of r; e = bitlen n - bitlen d in if 2 powi e \<le> r then e else e - 1)"

definition round_mag :: "rat \<Rightarrow> int" where
  "round_mag a = (let q = max (ilog2 a - 52) (- 1074) in
     min ((q + 1074) * 2 ^ 52 + round_half_even (a / 2 powi q)) (2047 * 2 ^ 52))"

definition f64_round :: "bool \<Rightarrow> rat \<Rightarrow> f64" where
  "f64_round neg r = (if r = 0 then f64_pack neg 0 else f64_pack (r < 0) (round_mag \<bar>r\<bar>))"

section \<open>Arithmetic\<close>

definition f64_neg :: "f64 \<Rightarrow> f64" where
  "f64_neg v = (if f64_nan v then NaN else f64_pack (\<not> f64_neg_sign v) (f64_mag v))"

definition f64_add :: "f64 \<Rightarrow> f64 \<Rightarrow> f64" where
  "f64_add a b =
     (if f64_nan a \<or> f64_nan b \<or> (f64_inf a \<and> f64_inf b \<and> f64_neg_sign a \<noteq> f64_neg_sign b) then NaN
      else if f64_inf a then a else if f64_inf b then b
      else f64_round (f64_neg_sign a \<and> f64_neg_sign b) (f64_rat a + f64_rat b))"

definition f64_sub :: "f64 \<Rightarrow> f64 \<Rightarrow> f64" where "f64_sub a b = f64_add a (f64_neg b)"

definition f64_mul :: "f64 \<Rightarrow> f64 \<Rightarrow> f64" where
  "f64_mul a b =
     (let s = (f64_neg_sign a \<noteq> f64_neg_sign b) in
      if f64_nan a \<or> f64_nan b \<or> (f64_inf a \<and> f64_zero b) \<or> (f64_zero a \<and> f64_inf b) then NaN
      else if f64_inf a \<or> f64_inf b then f64_pack s (2047 * 2 ^ 52)
      else f64_round s (f64_rat a * f64_rat b))"

definition f64_div :: "f64 \<Rightarrow> f64 \<Rightarrow> f64" where
  "f64_div a b =
     (let s = (f64_neg_sign a \<noteq> f64_neg_sign b) in
      if f64_nan a \<or> f64_nan b \<or> (f64_inf a \<and> f64_inf b) \<or> (f64_zero a \<and> f64_zero b) then NaN
      else if f64_inf a \<or> f64_zero b then f64_pack s (2047 * 2 ^ 52)
      else if f64_inf b then f64_pack s 0
      else f64_round s (f64_rat a / f64_rat b))"

definition f64_of_int :: "int \<Rightarrow> f64" where "f64_of_int i = f64_round False (of_int i)"

text \<open>Comparisons order the patterns by sign and magnitude; the zeros are equal.\<close>

definition f64_key :: "f64 \<Rightarrow> int" where "f64_key v = (if f64_neg_sign v then - f64_mag v else f64_mag v)"

definition f64_equal :: "f64 \<Rightarrow> f64 \<Rightarrow> bool" where
  "f64_equal a b \<longleftrightarrow> \<not> f64_nan a \<and> \<not> f64_nan b \<and> f64_key a = f64_key b"

definition f64_less :: "f64 \<Rightarrow> f64 \<Rightarrow> bool" where
  "f64_less a b \<longleftrightarrow> \<not> f64_nan a \<and> \<not> f64_nan b \<and> f64_key a < f64_key b"

definition f64_le :: "f64 \<Rightarrow> f64 \<Rightarrow> bool" where "f64_le a b \<longleftrightarrow> f64_less a b \<or> f64_equal a b"

definition f64_signbit :: "f64 \<Rightarrow> bool" where "f64_signbit v \<longleftrightarrow> f64_neg_sign v"

record libm =
  lm_pow :: "f64 \<Rightarrow> f64 \<Rightarrow> f64"
  lm_exp :: "f64 \<Rightarrow> f64"
  lm_log :: "f64 \<Rightarrow> f64"
  lm_sin :: "f64 \<Rightarrow> f64"
  lm_cos :: "f64 \<Rightarrow> f64"
  lm_tan :: "f64 \<Rightarrow> f64"
  lm_tanh :: "f64 \<Rightarrow> f64"
  lm_sqrt :: "f64 \<Rightarrow> f64"
  lm_erf :: "f64 \<Rightarrow> f64"

section \<open>A number is its own rounding\<close>

lemma bitlen_powi:
  assumes "0 < m"
  shows "2 powi (bitlen m - 1) \<le> (of_int m :: rat)" and "(of_int m :: rat) < 2 powi bitlen m"
proof -
  have l: "1 \<le> bitlen m" using assms bitlen_eq_zero_iff [of m] bitlen_nonneg [of m] by linarith
  have "(2 :: int) ^ nat (bitlen m - 1) \<le> m" "m < 2 ^ nat (bitlen m)" using bitlen_bounds [OF assms] by auto
  then have "(of_int (2 ^ nat (bitlen m - 1)) :: rat) \<le> of_int m" "(of_int m :: rat) < of_int (2 ^ nat (bitlen m))"
    by (simp_all only: of_int_le_iff of_int_less_iff)
  then show "2 powi (bitlen m - 1) \<le> (of_int m :: rat)" "(of_int m :: rat) < 2 powi bitlen m"
    using l by (simp_all add: power_int_def)
qed

lemma powi_less: "(2 :: rat) powi i < 2 powi j \<Longrightarrow> i < j"
  using power_int_increasing [of j i "2 :: rat"] by (cases "i < j") auto

lemma ilog2_unique:
  assumes "0 < r" and "2 powi e \<le> r" and "r < 2 powi (e + 1)"
  shows "ilog2 r = e"
proof -
  obtain n d where q: "quotient_of r = (n, d)" by fastforce
  have d: "0 < d" using quotient_of_denom_pos [OF q] .
  have r: "r = of_int n / of_int d" using quotient_of_div [OF q] .
  have n: "0 < n" using assms(1) d r by (simp add: zero_less_divide_iff)
  let ?k = "bitlen n - bitlen d"
  have dpos: "(0 :: rat) < of_int d" using d by simp
  have "r < 2 powi (?k + 1)"
  proof -
    have "of_int n < (2 :: rat) powi bitlen n" by (rule bitlen_powi(2) [OF n])
    also have "\<dots> = 2 powi (?k + 1) * 2 powi (bitlen d - 1)" by (simp flip: power_int_add)
    also have "\<dots> \<le> 2 powi (?k + 1) * of_int d" using bitlen_powi(1) [OF d] by (intro mult_left_mono) auto
    finally show ?thesis using dpos by (simp add: r divide_less_eq)
  qed
  moreover have "2 powi (?k - 1) < r"
  proof -
    have "2 powi (?k - 1) * of_int d < (2 :: rat) powi (?k - 1) * 2 powi bitlen d" using bitlen_powi(2) [OF d] by (intro mult_strict_left_mono) auto
    also have "\<dots> = 2 powi (bitlen n - 1)" by (simp flip: power_int_add)
    also have "\<dots> \<le> of_int n" by (rule bitlen_powi(1) [OF n])
    finally show ?thesis using dpos by (simp add: r less_divide_eq)
  qed
  ultimately have lt: "(2 :: rat) powi e < 2 powi (?k + 1)" "(2 :: rat) powi (?k - 1) < 2 powi (e + 1)"
    using assms(2,3) by linarith+
  have e: "e = ?k \<or> e = ?k - 1" using powi_less [OF lt(1)] powi_less [OF lt(2)] by linarith
  show ?thesis
  proof (cases "2 powi ?k \<le> r")
    case True
    with assms(3) have "?k < e + 1" by (intro powi_less) linarith
    with e True show ?thesis by (auto simp: ilog2_def q)
  next
    case False
    with assms(2) have "e < ?k" by (intro powi_less) linarith
    with e False show ?thesis by (auto simp: ilog2_def q)
  qed
qed

lemma round_half_even_int [simp]: "round_half_even (of_int i) = i"
  by (simp add: round_half_even_def)

lemma f64_abs_pos: "f64_mag v \<noteq> 0 \<Longrightarrow> 0 < f64_abs v"
  using f64_parts(2-6) [of v] by (auto simp: f64_abs_def intro!: mult_pos_pos)

lemma round_mag_abs:
  assumes fin: "f64_exp v < 2047" and nz: "f64_mag v \<noteq> 0"
  shows "round_mag (f64_abs v) = f64_mag v"
proof -
  note p = f64_parts(2-6) [of v]
  have pos: "0 < f64_abs v" by (rule f64_abs_pos [OF nz])
  show ?thesis
  proof (cases "f64_exp v = 0")
    case True
    let ?f = "f64_frac v"
    have f: "0 < ?f" "f64_mag v = ?f" using nz p True by auto
    define q0 :: int where q0: "q0 = - 1074"
    have abs: "f64_abs v = of_int ?f * 2 powi q0" using True by (simp add: f64_abs_def q0)
    let ?e = "bitlen ?f - 1 + q0"
    have "ilog2 (f64_abs v) = ?e"
    proof (rule ilog2_unique [OF pos])
      have "(2 :: rat) powi ?e = 2 powi (bitlen ?f - 1) * 2 powi q0" by (simp flip: power_int_add)
      also have "\<dots> \<le> f64_abs v" unfolding abs using bitlen_powi(1) [OF f(1)] by (intro mult_right_mono) auto
      finally show "2 powi ?e \<le> f64_abs v" .
      have "f64_abs v < 2 powi bitlen ?f * 2 powi q0" unfolding abs using bitlen_powi(2) [OF f(1)] by (intro mult_strict_right_mono) auto
      also have "\<dots> = 2 powi (?e + 1)" by (simp flip: power_int_add)
      finally show "f64_abs v < 2 powi (?e + 1)" .
    qed
    moreover have "bitlen ?f - 1 < 52"
    proof (rule powi_less)
      have "(of_int ?f :: rat) < of_int (2 ^ 52)" using p(3) by (simp only: of_int_less_iff)
      then show "(2 :: rat) powi (bitlen ?f - 1) < 2 powi 52" using bitlen_powi(1) [OF f(1)] by simp
    qed
    ultimately have q: "max (ilog2 (f64_abs v) - 52) (- 1074) = q0" by (simp add: q0)
    have "f64_abs v / 2 powi q0 = of_int ?f" unfolding abs by simp
    then have "round_mag (f64_abs v) = min ((q0 + 1074) * 2 ^ 52 + ?f) (2047 * 2 ^ 52)" unfolding round_mag_def q Let_def by simp
    then have "round_mag (f64_abs v) = min ?f (2047 * 2 ^ 52)" by (simp add: q0)
    then show ?thesis using p f by simp
  next
    case False
    define m1 where m1: "m1 = 2 ^ 52 + f64_frac v"
    define q1 where q1: "q1 = f64_exp v - 1075"
    have abs: "f64_abs v = of_int m1 * 2 powi q1" using False by (simp add: f64_abs_def m1 q1)
    have "2 ^ 52 \<le> m1" "m1 < 2 ^ 53" using p(2,3) by (simp_all add: m1)
    then have "(of_int (2 ^ 52) :: rat) \<le> of_int m1" "(of_int m1 :: rat) < of_int (2 ^ 53)"
      by (simp_all only: of_int_le_iff of_int_less_iff)
    then have m: "(2 :: rat) powi 52 \<le> of_int m1" "(of_int m1 :: rat) < 2 powi 53" by simp_all
    have "ilog2 (f64_abs v) = 52 + q1"
    proof (rule ilog2_unique [OF pos])
      have "(2 :: rat) powi (52 + q1) = 2 powi 52 * 2 powi q1" by (rule power_int_add) simp
      also have "\<dots> \<le> f64_abs v" unfolding abs using m(1) by (intro mult_right_mono) simp_all
      finally show "2 powi (52 + q1) \<le> f64_abs v" .
      have "f64_abs v < 2 powi 53 * 2 powi q1" unfolding abs using m(2) by (intro mult_strict_right_mono) simp_all
      also have "\<dots> = 2 powi (53 + q1)" by (rule power_int_add [symmetric]) simp
      finally show "f64_abs v < 2 powi (52 + q1 + 1)" by (simp add: add.commute)
    qed
    moreover have "max (52 + q1 - 52) (- 1074) = q1" using False p(4) by (simp add: q1)
    ultimately have q: "max (ilog2 (f64_abs v) - 52) (- 1074) = q1" by simp
    have "f64_abs v / 2 powi q1 = of_int m1" unfolding abs by simp
    then have "round_mag (f64_abs v) = min ((q1 + 1074) * 2 ^ 52 + m1) (2047 * 2 ^ 52)"
      unfolding round_mag_def q Let_def by simp
    also have "\<dots> = f64_mag v" using p fin by (simp add: m1 q1)
    finally show ?thesis .
  qed
qed

lemma f64_rat_sign: "f64_mag v \<noteq> 0 \<Longrightarrow> f64_rat v \<noteq> 0 \<and> (f64_rat v < 0 \<longleftrightarrow> f64_neg_sign v) \<and> \<bar>f64_rat v\<bar> = f64_abs v"
  using f64_abs_pos [of v] by (auto simp: f64_rat_def)

lemma f64_rat_zero: "f64_mag v = 0 \<Longrightarrow> f64_rat v = 0"
  by (simp add: f64_rat_def f64_abs_def f64_exp_def f64_frac_def)

theorem f64_round_self:
  assumes "f64_exp v < 2047" and "f64_mag v = 0 \<longrightarrow> (n \<longleftrightarrow> f64_neg_sign v)"
  shows "f64_round n (f64_rat v) = v"
proof (cases "f64_mag v = 0")
  case True
  with assms(2) f64_pack_parts [of v] show ?thesis by (simp add: f64_round_def f64_rat_zero)
next
  case False
  then show ?thesis using f64_rat_sign [OF False] round_mag_abs [OF assms(1) False] by (simp add: f64_round_def)
qed

lemma f64_classes: "f64_exp v < 2047 \<or> f64_inf v \<or> f64_nan v"
  using f64_parts(6) [of v] by (auto simp: f64_inf_def f64_nan_def)

lemma not_special: "f64_exp v < 2047 \<Longrightarrow> \<not> f64_nan v \<and> \<not> f64_inf v"
  by (simp add: f64_inf_def f64_nan_def)

lemma inf_pack: "f64_inf v \<Longrightarrow> v = f64_pack (f64_neg_sign v) (2047 * 2 ^ 52) \<and> \<not> f64_nan v \<and> \<not> f64_zero v"
  using f64_parts(2) [of v] f64_pack_parts [of v] by (simp add: f64_inf_def f64_nan_def f64_zero_def)

text \<open>Multiplication by one and addition of zeros.\<close>

definition f64_one :: f64 where "f64_one = 0x3ff0000000000000"

lemma f64_literals:
  "f64_rat f64_one = 1" "\<not> f64_neg_sign f64_one" "\<not> f64_nan f64_one" "\<not> f64_inf f64_one" "\<not> f64_zero f64_one"
  "\<not> f64_nan 0" "\<not> f64_inf 0" "f64_rat 0 = 0" "\<not> f64_neg_sign 0"
  by (simp_all add: f64_one_def f64_rat_def f64_abs_def f64_neg_sign_def f64_exp_def f64_frac_def f64_mag_def f64_nan_def
      f64_inf_def f64_zero_def power_int_def power_one_over)

lemma f64_mul_one: "f64_mul x f64_one = f64_canon x" "f64_mul f64_one x = f64_canon x"
proof -
  consider (fin) "f64_exp x < 2047" | (inf) "f64_inf x" | (nan) "f64_nan x" using f64_classes by blast
  then have "f64_mul x f64_one = f64_canon x \<and> f64_mul f64_one x = f64_canon x"
  proof cases
    case fin
    then show ?thesis using not_special [OF fin] f64_round_self [OF fin, of "f64_neg_sign x"]
      by (simp add: f64_mul_def f64_canon_def f64_literals)
  next
    case inf
    then show ?thesis using inf_pack [OF inf] by (simp add: f64_mul_def f64_canon_def f64_literals)
  next
    case nan
    then show ?thesis by (simp add: f64_mul_def f64_canon_def)
  qed
  then show "f64_mul x f64_one = f64_canon x" "f64_mul f64_one x = f64_canon x" by simp_all
qed

lemma f64_zero_cases: "f64_zero v \<longleftrightarrow> v = 0 \<or> v = 0x8000000000000000"
proof
  assume "f64_zero v"
  then have "v = f64_pack (f64_neg_sign v) 0" using f64_pack_parts [of v] by (simp add: f64_zero_def)
  then show "v = 0 \<or> v = 0x8000000000000000" by (cases "f64_neg_sign v") (simp_all add: f64_pack_def)
next
  assume "v = 0 \<or> v = 0x8000000000000000"
  then show "f64_zero v" by (elim disjE) (simp_all add: f64_zero_def f64_mag_def)
qed

text \<open>Adding \<open>-0\<close> changes nothing; adding \<open>+0\<close> changes only \<open>-0\<close>.\<close>

lemma f64_add_zero:
  assumes z: "f64_zero z" and s: "f64_neg_sign z \<or> x \<noteq> 0x8000000000000000"
  shows "f64_add x z = f64_canon x" "f64_add z x = f64_canon x"
proof -
  have zz: "\<not> f64_nan z" "\<not> f64_inf z" "f64_rat z = 0"
    using z by (simp_all add: f64_zero_def f64_nan_def f64_inf_def f64_exp_def f64_frac_def f64_rat_zero)
  consider (fin) "f64_exp x < 2047" | (inf) "f64_inf x" | (nan) "f64_nan x" using f64_classes by blast
  then have "f64_add x z = f64_canon x \<and> f64_add z x = f64_canon x"
  proof cases
    case fin
    have "f64_mag x = 0 \<longrightarrow> (f64_neg_sign x \<and> f64_neg_sign z \<longleftrightarrow> f64_neg_sign x)"
      using s f64_zero_cases [of x] f64_literals(9) by (auto simp: f64_zero_def)
    then have "f64_round (f64_neg_sign x \<and> f64_neg_sign z) (f64_rat x) = x" by (rule f64_round_self [OF fin])
    then show ?thesis using not_special [OF fin] zz by (simp add: f64_add_def f64_canon_def conj_commute)
  next
    case inf
    then show ?thesis using inf_pack [OF inf] zz by (simp add: f64_add_def f64_canon_def)
  next
    case nan
    then show ?thesis by (simp add: f64_add_def f64_canon_def)
  qed
  then show "f64_add x z = f64_canon x" "f64_add z x = f64_canon x" by simp_all
qed

end
