(* ===== verification/Graph_Data.thy ===== *)
theory Graph_Data
  imports Math_Op Float64
begin

text \<open>
  The data of the mathematical graph: 64-bit FNV hashes (\<open>core/hash.h\<close>), flag sets (\<open>core/flags.h\<close>),
  types (\<open>type/*.h\<close>), facts (\<open>property/*.h\<close>), attributes, values and nodes (\<open>ir/*.h\<close>). A
  floating-point number is its bit pattern. Node, value and symbol ids are natural numbers below
  2^32; the invalid id that marks an absent reference is \<open>None\<close>.
\<close>

unbundle bit_operations_syntax

section \<open>Hashes\<close>

definition kHashSeed :: "64 word" where "kHashSeed = 0xcbf29ce484222325"
definition kHashPrime :: "64 word" where "kHashPrime = 0x100000001b3"

definition hashBytes :: "64 word list \<Rightarrow> 64 word" where
  "hashBytes bytes = fold (\<lambda>b h. (h XOR b) * kHashPrime) bytes kHashSeed"

definition hashCombine :: "64 word \<Rightarrow> 64 word \<Rightarrow> 64 word" where
  "hashCombine a b = (a XOR (b + 0x9e3779b97f4a7c15 + push_bit 6 a + drop_bit 2 a)) * kHashPrime"

text \<open>The bytes of a 64-bit number as they lie in memory, least significant first.\<close>

definition bytes_of :: "64 word \<Rightarrow> 64 word list" where
  "bytes_of v = map (\<lambda>i. drop_bit (8 * i) v AND 0xff) [0..<8]"

definition hashU64 :: "64 word \<Rightarrow> 64 word" where "hashU64 v = hashBytes (bytes_of v)"

definition hashI64 :: "int \<Rightarrow> 64 word" where "hashI64 v = hashBytes (bytes_of (word_of_int v))"

definition hashF64 :: "64 word \<Rightarrow> 64 word" where
  "hashF64 v = hashBytes (bytes_of (if f64_nan v then 0x7ff8000000000000 else if v = 0x8000000000000000 then 0 else v))"

section \<open>Flags\<close>

definition flag_test :: "64 word \<Rightarrow> nat \<Rightarrow> bool" where
  "flag_test w e \<longleftrightarrow> drop_bit e w AND 1 \<noteq> 0"

definition flag_set :: "nat \<Rightarrow> 64 word \<Rightarrow> 64 word" where
  "flag_set e w = w OR push_bit e 1"

definition flag_clear :: "nat \<Rightarrow> 64 word \<Rightarrow> 64 word" where
  "flag_clear e w = w AND NOT (push_bit e 1)"

definition flag_put :: "nat \<Rightarrow> bool \<Rightarrow> 64 word \<Rightarrow> 64 word" where
  "flag_put e on w = (if on then flag_set e w else flag_clear e w)"

definition flags_any :: "64 word \<Rightarrow> bool" where "flags_any w \<longleftrightarrow> w \<noteq> 0"
definition flags_none :: "64 word \<Rightarrow> bool" where "flags_none w \<longleftrightarrow> w = 0"
definition flags_anyOf :: "64 word \<Rightarrow> 64 word \<Rightarrow> bool" where "flags_anyOf w v \<longleftrightarrow> w AND v \<noteq> 0"
definition flags_allOf :: "64 word \<Rightarrow> 64 word \<Rightarrow> bool" where "flags_allOf w v \<longleftrightarrow> w AND v = v"

lemma flag_test_bit: "flag_test w e \<longleftrightarrow> bit w e"
  by (auto simp: flag_test_def and_one_eq bit_iff_odd_drop_bit odd_iff_mod_2_eq_one)

lemma flag_test_simps [simp]:
  "e < 64 \<Longrightarrow> flag_test (flag_set d w) e \<longleftrightarrow> e = d \<or> flag_test w e"
  "flag_test (flag_clear d w) e \<longleftrightarrow> e \<noteq> d \<and> flag_test w e"
  "\<not> flag_test 0 e"
  by (auto simp: flag_test_bit flag_set_def flag_clear_def bit_simps dest: bit_imp_le_length)

lemma flag_put_test [simp]: "e < 64 \<Longrightarrow> flag_test (flag_put d on w) e \<longleftrightarrow> (if e = d then on else flag_test w e)"
  by (simp add: flag_put_def)

section \<open>Types\<close>

datatype domain = Dom_Unknown | Dom_Symbolic | Dom_Bool | Dom_Int | Dom_Float | Dom_Complex | Dom_Real | Dom_Function
  | Dom_Operator | Dom_Set | Dom_Sequence | Dom_Distribution

datatype algebraic_class = Alg_Unknown | ScalarField | VectorSpace | MatrixAlgebra | TensorAlgebra | PolynomialRing
  | AbstractRing | AbstractGroup

datatype differentiability = Diff_Unknown | NonDifferentiable | PiecewiseDifferentiable | Diff_Differentiable | Smooth | Analytic

datatype dtype = Dt_None | Dt_Bool1 | Dt_I8 | Dt_I16 | Dt_I32 | Dt_I64 | Dt_U8 | Dt_U16 | Dt_U32 | Dt_U64
  | Dt_F16 | Dt_BF16 | Dt_F32 | Dt_F64 | Dt_C64 | Dt_C128

text \<open>The number of an enumerator: its position in the declaration.\<close>

definition enum_at :: "'a list \<Rightarrow> 'a \<Rightarrow> nat" where
  "enum_at xs x = length (takeWhile (\<lambda>y. y \<noteq> x) xs)"

definition enum_hash :: "'a list \<Rightarrow> 'a \<Rightarrow> 64 word" where
  "enum_hash xs x = hashU64 (of_nat (enum_at xs x))"

definition all_domains :: "domain list" where
  "all_domains = [Dom_Unknown, Dom_Symbolic, Dom_Bool, Dom_Int, Dom_Float, Dom_Complex, Dom_Real, Dom_Function,
     Dom_Operator, Dom_Set, Dom_Sequence, Dom_Distribution]"

definition all_algebras :: "algebraic_class list" where
  "all_algebras = [Alg_Unknown, ScalarField, VectorSpace, MatrixAlgebra, TensorAlgebra, PolynomialRing, AbstractRing, AbstractGroup]"

definition all_diffs :: "differentiability list" where
  "all_diffs = [Diff_Unknown, NonDifferentiable, PiecewiseDifferentiable, Diff_Differentiable, Smooth, Analytic]"

definition all_dtypes :: "dtype list" where
  "all_dtypes = [Dt_None, Dt_Bool1, Dt_I8, Dt_I16, Dt_I32, Dt_I64, Dt_U8, Dt_U16, Dt_U32, Dt_U64, Dt_F16, Dt_BF16, Dt_F32,
     Dt_F64, Dt_C64, Dt_C128]"

record tensor_descriptor =
  td_element :: dtype
  td_shape :: "int list"
  td_strides :: "int list"
  td_contiguous :: bool

record function_sig =
  fs_params :: "domain list"
  fs_result :: domain

text \<open>The equality of types compares every field, so it is equality.\<close>

record math_type =
  mt_domain :: domain
  mt_algebra :: algebraic_class
  mt_diff :: differentiability
  mt_dtype :: dtype
  mt_shape :: "int list option"
  mt_tensor :: "tensor_descriptor option"
  mt_func :: "function_sig option"

definition new_type :: math_type where
  "new_type = \<lparr>mt_domain = Dom_Unknown, mt_algebra = Alg_Unknown, mt_diff = Diff_Unknown, mt_dtype = Dt_None,
     mt_shape = None, mt_tensor = None, mt_func = None\<rparr>"

definition isScalarLike :: "math_type \<Rightarrow> bool" where
  "isScalarLike t \<longleftrightarrow> mt_shape t = None \<and> mt_tensor t = None \<and> mt_func t = None"

definition scalar_type :: "domain \<Rightarrow> dtype \<Rightarrow> math_type" where
  "scalar_type d dt = new_type\<lparr>mt_domain := d, mt_dtype := dt\<rparr>"

definition combine_ints :: "int list \<Rightarrow> 64 word \<Rightarrow> 64 word" where
  "combine_ints ds h = fold (\<lambda>d h. hashCombine h (hashI64 d)) ds h"

definition tensor_hash :: "tensor_descriptor \<Rightarrow> 64 word" where
  "tensor_hash t = combine_ints (td_strides t) (combine_ints (td_shape t)
     (hashCombine (enum_hash all_dtypes (td_element t)) (hashU64 (of_nat (length (td_shape t))))))"

definition sig_hash :: "function_sig \<Rightarrow> 64 word" where
  "sig_hash f = fold (\<lambda>p h. hashCombine h (enum_hash all_domains p)) (fs_params f) (enum_hash all_domains (fs_result f))"

definition type_hash :: "math_type \<Rightarrow> 64 word" where
  "type_hash t =
     (let h = hashCombine (enum_hash all_domains (mt_domain t)) (enum_hash all_algebras (mt_algebra t));
          h = hashCombine h (enum_hash all_diffs (mt_diff t));
          h = hashCombine h (enum_hash all_dtypes (mt_dtype t));
          h = (case mt_shape t of None \<Rightarrow> h | Some s \<Rightarrow> combine_ints s (hashCombine h (hashU64 (of_nat (length s)))));
          h = (case mt_tensor t of None \<Rightarrow> h | Some td \<Rightarrow> hashCombine h (tensor_hash td)) in
      case mt_func t of None \<Rightarrow> h | Some f \<Rightarrow> hashCombine h (sig_hash f))"

section \<open>Facts\<close>

datatype tri_state = T_Unknown | T_False | T_True

definition triStateMeet :: "tri_state \<Rightarrow> tri_state \<Rightarrow> tri_state" where
  "triStateMeet a b = (if a = T_Unknown then b else if b = T_Unknown then a else if a = b then a else T_False)"

datatype property_id = Commutative | Associative | Distributive | Idempotent | HasIdentity | MonotonicIncreasing
  | MonotonicDecreasing | Periodic | P_Differentiable | Invertible | Positive | NonNegative | Bounded | Sparse | Symmetric
  | Contiguous | Pure | IntegerValued

record interval =
  iv_low :: "64 word"
  iv_high :: "64 word"
  iv_inclusiveLow :: bool
  iv_inclusiveHigh :: bool

definition everything :: interval where
  "everything = \<lparr>iv_low = 0xfff0000000000000, iv_high = 0x7ff0000000000000, iv_inclusiveLow = False, iv_inclusiveHigh = False\<rparr>"

text \<open>The tests of an interval, as the code states them: an end is accepted even where it is excluded.\<close>

definition iv_contains :: "interval \<Rightarrow> f64 \<Rightarrow> bool" where
  "iv_contains r v \<longleftrightarrow>
     (f64_less (iv_low r) v \<or> (iv_inclusiveLow r \<and> f64_le (iv_low r) v) \<or> f64_equal v (iv_low r))
   \<and> (f64_less v (iv_high r) \<or> (iv_inclusiveHigh r \<and> f64_le v (iv_high r)) \<or> f64_equal v (iv_high r))"

definition iv_isEmpty :: "interval \<Rightarrow> bool" where
  "iv_isEmpty r \<longleftrightarrow> f64_less (iv_high r) (iv_low r)
     \<or> (f64_equal (iv_low r) (iv_high r) \<and> \<not> (iv_inclusiveLow r \<and> iv_inclusiveHigh r))"

definition iv_isPoint :: "interval \<Rightarrow> bool" where
  "iv_isPoint r \<longleftrightarrow> f64_equal (iv_low r) (iv_high r) \<and> iv_inclusiveLow r \<and> iv_inclusiveHigh r"

definition iv_hull :: "interval \<Rightarrow> interval \<Rightarrow> interval" where
  "iv_hull a b =
     (let (low, il) = (if f64_less (iv_low a) (iv_low b) then (iv_low a, iv_inclusiveLow a)
            else if f64_less (iv_low b) (iv_low a) then (iv_low b, iv_inclusiveLow b)
            else (iv_low a, iv_inclusiveLow a \<or> iv_inclusiveLow b));
          (high, ih) = (if f64_less (iv_high b) (iv_high a) then (iv_high a, iv_inclusiveHigh a)
            else if f64_less (iv_high a) (iv_high b) then (iv_high b, iv_inclusiveHigh b)
            else (iv_high a, iv_inclusiveHigh a \<or> iv_inclusiveHigh b)) in
      \<lparr>iv_low = low, iv_high = high, iv_inclusiveLow = il, iv_inclusiveHigh = ih\<rparr>)"

text \<open>The flags of the ends play no role in membership, although they decide emptiness.\<close>

lemma iv_contains_closed: "iv_contains r v \<longleftrightarrow> f64_le (iv_low r) v \<and> f64_le v (iv_high r)"
  by (auto simp: iv_contains_def f64_le_def f64_less_def f64_equal_def)

lemma empty_interval_contains:
  "f64_equal (iv_low r) (iv_high r) \<Longrightarrow> iv_inclusiveLow r \<noteq> iv_inclusiveHigh r \<Longrightarrow> iv_isEmpty r \<and> iv_contains r (iv_low r)"
  by (auto simp: iv_isEmpty_def iv_contains_closed f64_le_def f64_equal_def)

lemma f64_le_total: "\<not> f64_nan a \<Longrightarrow> \<not> f64_nan b \<Longrightarrow> \<not> f64_less a b \<Longrightarrow> f64_le b a"
  by (auto simp: f64_le_def f64_less_def f64_equal_def)

lemma f64_le_trans: "f64_le a b \<Longrightarrow> f64_le b c \<Longrightarrow> f64_le a c"
  by (auto simp: f64_le_def f64_less_def f64_equal_def)

lemma f64_less_le: "f64_less a b \<Longrightarrow> f64_le a b" by (simp add: f64_le_def)

lemma iv_hull_contains:
  assumes nn: "\<not> f64_nan (iv_low a)" "\<not> f64_nan (iv_high a)" "\<not> f64_nan (iv_low b)" "\<not> f64_nan (iv_high b)"
    and v: "iv_contains a v \<or> iv_contains b v"
  shows "iv_contains (iv_hull a b) v"
proof -
  have "f64_le (iv_low (iv_hull a b)) (iv_low a) \<and> f64_le (iv_low (iv_hull a b)) (iv_low b)"
    using nn f64_less_le f64_le_total [of "iv_low a" "iv_low b"] f64_le_total [of "iv_low b" "iv_low a"]
      f64_le_total [of "iv_low a" "iv_low a"] f64_le_total [of "iv_low b" "iv_low b"]
    by (auto simp: iv_hull_def f64_less_def split: prod.splits)
  moreover have "f64_le (iv_high a) (iv_high (iv_hull a b)) \<and> f64_le (iv_high b) (iv_high (iv_hull a b))"
    using nn f64_less_le f64_le_total [of "iv_high a" "iv_high b"] f64_le_total [of "iv_high b" "iv_high a"]
      f64_le_total [of "iv_high a" "iv_high a"] f64_le_total [of "iv_high b" "iv_high b"]
    by (auto simp: iv_hull_def f64_less_def split: prod.splits)
  ultimately show ?thesis using v f64_le_trans unfolding iv_contains_closed by blast
qed

record fact =
  fact_property :: property_id
  fact_value :: tri_state
  fact_period :: "64 word"
  fact_range :: interval

type_synonym fact_set = "fact list"

fun fact_put :: "fact \<Rightarrow> fact_set \<Rightarrow> fact_set" where
  "fact_put f [] = [f]"
| "fact_put f (g # fs) = (if fact_property g = fact_property f then f # fs else g # fact_put f fs)"

definition setTriState :: "property_id \<Rightarrow> tri_state \<Rightarrow> fact_set \<Rightarrow> fact_set" where
  "setTriState p v = fact_put \<lparr>fact_property = p, fact_value = v, fact_period = 0, fact_range = everything\<rparr>"

definition fact_get :: "fact_set \<Rightarrow> property_id \<Rightarrow> fact option" where
  "fact_get fs p = find (\<lambda>f. fact_property f = p) fs"

definition triState :: "fact_set \<Rightarrow> property_id \<Rightarrow> tri_state" where
  "triState fs p = (case fact_get fs p of None \<Rightarrow> T_Unknown | Some f \<Rightarrow> fact_value f)"

definition setRange :: "interval \<Rightarrow> fact_set \<Rightarrow> fact_set" where
  "setRange r = fact_put \<lparr>fact_property = Bounded, fact_value = T_True, fact_period = 0, fact_range = r\<rparr>"

definition setPeriod :: "64 word \<Rightarrow> fact_set \<Rightarrow> fact_set" where
  "setPeriod p = fact_put \<lparr>fact_property = Periodic, fact_value = T_True, fact_period = p, fact_range = everything\<rparr>"

definition isTrue :: "fact_set \<Rightarrow> property_id \<Rightarrow> bool" where "isTrue fs p \<longleftrightarrow> triState fs p = T_True"
definition isFalse :: "fact_set \<Rightarrow> property_id \<Rightarrow> bool" where "isFalse fs p \<longleftrightarrow> triState fs p = T_False"

definition fact_set_range :: "fact_set \<Rightarrow> interval option" where
  "fact_set_range fs = map_option fact_range (fact_get fs Bounded)"

definition all_properties :: "property_id list" where
  "all_properties = [Commutative, Associative, Distributive, Idempotent, HasIdentity, MonotonicIncreasing, MonotonicDecreasing,
     Periodic, P_Differentiable, Invertible, Positive, NonNegative, Bounded, Sparse, Symmetric, Contiguous, Pure, IntegerValued]"

definition fact_hash :: "fact_set \<Rightarrow> 64 word" where
  "fact_hash fs = fold (\<lambda>f h.
     let h = hashCombine (hashCombine h (enum_hash all_properties (fact_property f))) (enum_hash [T_Unknown, T_False, T_True] (fact_value f));
         h = (if fact_property f = Bounded then hashCombine (hashCombine h (hashF64 (iv_low (fact_range f)))) (hashF64 (iv_high (fact_range f))) else h) in
     if fact_property f = Periodic then hashCombine h (hashF64 (fact_period f)) else h) fs kHashSeed"

lemma fact_get_put: "fact_get (fact_put f fs) p = (if p = fact_property f then Some f else fact_get fs p)"
  by (induction fs) (auto simp: fact_get_def)

section \<open>Attributes, values and nodes\<close>

datatype attr_value = A_Int int | A_Float "64 word" | A_Bool bool | A_Symbol nat

definition attr_equal :: "attr_value \<Rightarrow> attr_value \<Rightarrow> bool" where
  "attr_equal a b = (case (a, b) of (A_Float x, A_Float y) \<Rightarrow> f64_equal x y | _ \<Rightarrow> a = b)"

definition attr_hash :: "attr_value \<Rightarrow> 64 word" where
  "attr_hash a = (case a of A_Int i \<Rightarrow> hashI64 i | A_Float f \<Rightarrow> hashF64 f | A_Bool b \<Rightarrow> hashU64 (if b then 1 else 0)
     | A_Symbol s \<Rightarrow> hashU64 (of_nat s))"

type_synonym attr_list = "(nat \<times> attr_value) list"

definition findAttr :: "attr_list \<Rightarrow> nat \<Rightarrow> attr_value option" where
  "findAttr as name = map_option snd (find (\<lambda>a. fst a = name) as)"

datatype value_kind = Constant | Variable | Placeholder | NodeResult | Symbol

definition all_value_kinds :: "value_kind list" where
  "all_value_kinds = [Constant, Variable, Placeholder, NodeResult, Symbol]"

text \<open>The numbers of the enumerators of \<open>NodeFlag\<close> and \<open>ValueFlag\<close> that the graph uses.\<close>

definition NF_Speculative :: nat where "NF_Speculative = 2"
definition NF_Dead :: nat where "NF_Dead = 3"
definition NF_HasGraphState :: nat where "NF_HasGraphState = 4"
definition VF_Dead :: nat where "VF_Dead = 0"
definition VF_Canonical :: nat where "VF_Canonical = 1"
definition EK_FFI :: nat where "EK_FFI = 7"

record constant_payload =
  cp_isInt :: bool
  cp_f64 :: "64 word"
  cp_i64 :: int

definition constant_equal :: "constant_payload \<Rightarrow> constant_payload \<Rightarrow> bool" where
  "constant_equal a b \<longleftrightarrow> cp_isInt a = cp_isInt b \<and> f64_equal (cp_f64 a) (cp_f64 b) \<and> cp_i64 a = cp_i64 b"

definition constant_hash :: "constant_payload \<Rightarrow> 64 word" where
  "constant_hash c = (if cp_isInt c then hashI64 (cp_i64 c) else hashF64 (cp_f64 c))"

record gvalue =
  v_id :: nat
  v_kind :: value_kind
  v_constant :: constant_payload
  v_type :: math_type
  v_facts :: fact_set
  v_name :: "nat option"
  v_producer :: "nat option"
  v_version :: nat
  v_flags :: "64 word"
  v_hash :: "64 word"
  v_hashValid :: bool

definition new_value :: gvalue where
  "new_value = \<lparr>v_id = 0, v_kind = Variable, v_constant = \<lparr>cp_isInt = False, cp_f64 = 0, cp_i64 = 0\<rparr>, v_type = new_type,
     v_facts = [], v_name = None, v_producer = None, v_version = 0, v_flags = 0, v_hash = 0, v_hashValid = False\<rparr>"

definition name_word :: "nat option \<Rightarrow> 64 word" where
  "name_word n = (case n of None \<Rightarrow> 0xffffffff | Some s \<Rightarrow> of_nat s)"

definition structuralValueHash :: "gvalue \<Rightarrow> 64 word" where
  "structuralValueHash v =
     (let h = hashCombine (enum_hash all_value_kinds (v_kind v)) (type_hash (v_type v)) in
      case v_kind v of
        Constant \<Rightarrow> hashCombine h (constant_hash (v_constant v))
      | NodeResult \<Rightarrow> h
      | _ \<Rightarrow> hashCombine h (hashU64 (name_word (v_name v))))"

datatype speculation_source = Spec_None | Spec_Profile | Spec_Benchmark | Spec_StaticProof

record speculation_info =
  si_source :: speculation_source
  si_confidence :: "64 word"
  si_guardPlan :: "nat option"
  si_graphStateId :: "nat option"
  si_fallbackTarget :: "nat option"
  si_invalidationDependency :: "nat option"
  si_costEstimate :: "64 word"

record gnode =
  n_id :: nat
  n_op :: math_op
  n_inputs :: "nat list"
  n_results :: "nat list"
  n_attrs :: attr_list
  n_effects :: "64 word"
  n_flags :: "64 word"
  n_facts :: fact_set
  n_speculation :: speculation_info

definition new_speculation :: speculation_info where
  "new_speculation = \<lparr>si_source = Spec_None, si_confidence = 0, si_guardPlan = None, si_graphStateId = None,
     si_fallbackTarget = None, si_invalidationDependency = None, si_costEstimate = 0\<rparr>"

definition node_dead :: "gnode \<Rightarrow> bool" where "node_dead n \<longleftrightarrow> flag_test (n_flags n) NF_Dead"

end
