(* ===== verification/Math_Graph.thy ===== *)
theory Math_Graph
  imports Graph_Data Hash_Map
begin

text \<open>
  \<open>compiler/src/ir/math_graph.cpp\<close>: the mathematical graph and every operation on it. Operations
  return the changed graph. Accessors assert their index, so an index out of range is undefined
  behaviour; operations that use the equivalence map may, as far as types go, not return. The
  version counts modulo 2^64.
\<close>

record math_graph =
  g_symbols :: "string list"
  g_values :: "gvalue list"
  g_nodes :: "gnode list"
  g_users :: "nat list list"
  g_outputs :: "nat list"
  g_effects :: "nat list"
  g_repr :: "(nat, nat) hash_map"
  g_lowered :: "nat hash_set"
  g_version :: "64 word"
  g_hashCache :: "64 word option"

definition bumpVersion :: "math_graph \<Rightarrow> math_graph" where
  "bumpVersion g = g\<lparr>g_version := g_version g + 1\<rparr>"

text \<open>The hash of a value id in the hash containers.\<close>

definition id_hash :: "nat \<Rightarrow> nat" where "id_hash v = unat (hashU64 (of_nat v))"

section \<open>Symbols\<close>

definition intern :: "string \<Rightarrow> string list \<Rightarrow> nat \<times> string list" where
  "intern name pool = (case find_index (\<lambda>s. s = name) pool of Some i \<Rightarrow> (i, pool) | None \<Rightarrow> (length pool, pool @ [name]))"

definition graph_intern :: "string \<Rightarrow> math_graph \<Rightarrow> nat \<times> math_graph" where
  "graph_intern name g = (let (s, pool) = intern name (g_symbols g) in (s, g\<lparr>g_symbols := pool\<rparr>))"

definition new_graph :: "string list \<Rightarrow> math_graph" where
  "new_graph pool =
     (let g = \<lparr>g_symbols = pool, g_values = [], g_nodes = [], g_users = [], g_outputs = [], g_effects = [], g_repr = hm_new,
          g_lowered = hs_new, g_version = 0, g_hashCache = None\<rparr> in
      fold (\<lambda>name g. snd (graph_intern name g)) [''shape_dims'', ''value'', ''axis'', ''epsilon''] g)"

section \<open>Construction\<close>

definition allocateValue :: "gvalue \<Rightarrow> math_graph \<Rightarrow> nat \<times> math_graph" where
  "allocateValue v g = (length (g_values g),
     g\<lparr>g_values := g_values g @ [v\<lparr>v_id := length (g_values g)\<rparr>], g_users := g_users g @ [[]], g_hashCache := None\<rparr>)"

definition addInputLike :: "value_kind \<Rightarrow> nat \<Rightarrow> math_type \<Rightarrow> math_graph \<Rightarrow> nat \<times> math_graph" where
  "addInputLike kind name ty = allocateValue (new_value\<lparr>v_kind := kind, v_name := Some name, v_type := ty\<rparr>)"

definition addPlaceholder :: "nat \<Rightarrow> math_type \<Rightarrow> math_graph \<Rightarrow> nat \<times> math_graph" where
  "addPlaceholder = addInputLike Placeholder"

definition addVariable :: "nat \<Rightarrow> math_type \<Rightarrow> math_graph \<Rightarrow> nat \<times> math_graph" where
  "addVariable = addInputLike Variable"

definition addSymbol :: "nat \<Rightarrow> math_type \<Rightarrow> math_graph \<Rightarrow> nat \<times> math_graph" where
  "addSymbol = addInputLike Symbol"

definition constant_value :: "constant_payload \<Rightarrow> math_type \<Rightarrow> gvalue" where
  "constant_value c ty = new_value\<lparr>v_kind := Constant, v_type := ty, v_constant := c, v_facts := setTriState Pure T_True []\<rparr>"

definition addConstant :: "64 word \<Rightarrow> math_type \<Rightarrow> math_graph \<Rightarrow> nat \<times> math_graph" where
  "addConstant v ty = allocateValue (constant_value \<lparr>cp_isInt = False, cp_f64 = v, cp_i64 = 0\<rparr> ty)"

definition addIntConstant :: "int \<Rightarrow> math_type \<Rightarrow> math_graph \<Rightarrow> nat \<times> math_graph" where
  "addIntConstant v ty = allocateValue (constant_value \<lparr>cp_isInt = True, cp_f64 = 0, cp_i64 = v\<rparr> ty)"

definition inferNodeEffects :: "gnode \<Rightarrow> 64 word" where
  "inferNodeEffects n = (if n_op n = Op_NativeToMathRef \<or> n_op n = Op_MathToNativeRef then flag_set EK_FFI 0 else 0)"

definition isPure :: "64 word \<Rightarrow> bool" where "isPure e \<longleftrightarrow> flags_none e"

definition effect_remove :: "nat \<Rightarrow> nat list \<Rightarrow> nat list" where "effect_remove = remove1"

definition attachEffects :: "nat \<Rightarrow> math_graph \<Rightarrow> math_graph" where
  "attachEffects i g =
     (let e = inferNodeEffects (g_nodes g ! i) in
      g\<lparr>g_nodes := (g_nodes g)[i := (g_nodes g ! i)\<lparr>n_effects := e\<rparr>],
        g_effects := (if isPure e then g_effects g else g_effects g @ [i])\<rparr>)"

definition add_user :: "nat \<Rightarrow> nat \<Rightarrow> nat list list \<Rightarrow> nat list list" where
  "add_user n v users = users[v := users ! v @ [n]]"

definition addNode :: "math_op \<Rightarrow> nat list \<Rightarrow> attr_list \<Rightarrow> math_graph \<Rightarrow> (nat \<times> math_graph) result" where
  "addNode op inputs attrs g =
     (if \<not> list_all (\<lambda>v. v < length (g_values g)) inputs then Inl (Err InvalidGraph)
      else let i = length (g_nodes g);
               (name, g1) = graph_intern (opName op @ ''_out'') g;
               (out, g2) = allocateValue (new_value\<lparr>v_kind := NodeResult, v_producer := Some i, v_name := Some name\<rparr>) g1;
               n = \<lparr>n_id = i, n_op = op, n_inputs = inputs, n_results = [out], n_attrs = attrs, n_effects = 0, n_flags = 0,
                    n_facts = [], n_speculation = new_speculation\<rparr>;
               g3 = g2\<lparr>g_nodes := g_nodes g2 @ [n], g_users := fold (add_user i) inputs (g_users g2)\<rparr> in
           Inr (out, bumpVersion ((attachEffects i g3)\<lparr>g_hashCache := None\<rparr>)))"

definition addOutput :: "nat \<Rightarrow> math_graph \<Rightarrow> math_graph" where
  "addOutput v g = (if v \<in> set (g_outputs g) then g else g\<lparr>g_outputs := g_outputs g @ [v]\<rparr>)"

section \<open>Use-def lists\<close>

fun build_users :: "gnode list \<Rightarrow> nat list list \<Rightarrow> nat list list result" where
  "build_users [] users = Inr users"
| "build_users (n # ns) users =
     (if node_dead n then build_users ns users
      else if list_all (\<lambda>v. v < length users) (n_inputs n) then build_users ns (fold (add_user (n_id n)) (n_inputs n) users)
      else Inl UndefinedBehaviour)"

definition rebuildUsers :: "math_graph \<Rightarrow> math_graph result" where
  "rebuildUsers g = mlk_try (build_users (g_nodes g) (replicate (length (g_values g)) [])) (\<lambda>users. Inr (g\<lparr>g_users := users\<rparr>))"

definition valueUsers :: "math_graph \<Rightarrow> nat \<Rightarrow> nat list" where
  "valueUsers g v = (if v < length (g_users g) then g_users g ! v else [])"

section \<open>Hashing\<close>

definition input_hash :: "gvalue list \<Rightarrow> nat \<Rightarrow> 64 word result" where
  "input_hash vs i = mlk_try (vec_at vs i) (\<lambda>v. Inr (if v_hashValid v then v_hash v else structuralValueHash v))"

definition node_hash :: "(nat \<Rightarrow> 64 word result) \<Rightarrow> gnode \<Rightarrow> 64 word result" where
  "node_hash inh n =
     fold_res (\<lambda>i h. mlk_try (inh i) (\<lambda>vh. Inr (hashCombine h vh))) (n_inputs n)
       (fold (\<lambda>(name, a) h. hashCombine (hashCombine h (hashU64 (of_nat name))) (attr_hash a)) (n_attrs n)
         (hashU64 (of_nat (op_index (n_op n)))))"

fun hash_nodes :: "gnode list \<Rightarrow> gvalue list \<Rightarrow> 64 word \<Rightarrow> (gvalue list \<times> 64 word) result" where
  "hash_nodes [] vs h = Inr (vs, h)"
| "hash_nodes (n # ns) vs h =
     (if node_dead n then hash_nodes ns vs h
      else mlk_try (node_hash (input_hash vs) n) (\<lambda>nh.
        mlk_try (vec_at (n_results n) 0) (\<lambda>r.
        mlk_try (vec_at vs r) (\<lambda>v.
          hash_nodes ns (vs[r := v\<lparr>v_hash := nh, v_hashValid := True\<rparr>]) (hashCombine h nh)))))"

text \<open>The hash is cached, and so are the hashes of the values; both caches are mutable.\<close>

definition graph_hash :: "math_graph \<Rightarrow> (64 word \<times> math_graph) result" where
  "graph_hash g = (case g_hashCache g of
     Some h \<Rightarrow> Inr (h, g)
   | None \<Rightarrow> mlk_try (hash_nodes (g_nodes g) (g_values g) kHashSeed) (\<lambda>(vs, h).
       Inr (h, g\<lparr>g_values := vs, g_hashCache := Some h\<rparr>)))"

definition valueHash :: "math_graph \<Rightarrow> nat \<Rightarrow> (64 word \<times> math_graph) result" where
  "valueHash g v = mlk_try (vec_at (g_values g) v) (\<lambda>val.
     if v_hashValid val then Inr (v_hash val, g)
     else mlk_try (graph_hash g) (\<lambda>(h, g). mlk_try (vec_at (g_values g) v) (\<lambda>val.
       Inr (if v_hashValid val then v_hash val else structuralValueHash val, g))))"

section \<open>Rewriting\<close>

definition redirect :: "nat \<Rightarrow> nat \<Rightarrow> nat \<Rightarrow> nat" where
  "redirect oldV newV v = (if v = oldV then newV else v)"

definition redirect_node :: "nat \<Rightarrow> nat \<Rightarrow> gnode \<Rightarrow> gnode" where
  "redirect_node oldV newV n = (if node_dead n then n else n\<lparr>n_inputs := map (redirect oldV newV) (n_inputs n)\<rparr>)"

definition replaceOperandUses :: "nat \<Rightarrow> nat \<Rightarrow> math_graph \<Rightarrow> math_graph result" where
  "replaceOperandUses oldV newV g =
     (if oldV = newV \<or> oldV \<ge> length (g_values g) \<or> newV \<ge> length (g_values g) then Inr g
      else mlk_try (rebuildUsers (g\<lparr>g_nodes := map (redirect_node oldV newV) (g_nodes g),
             g_outputs := map (redirect oldV newV) (g_outputs g)\<rparr>)) (\<lambda>g.
        Inr (bumpVersion (g\<lparr>g_hashCache := None\<rparr>))))"

definition value_flag :: "nat \<Rightarrow> nat \<Rightarrow> bool \<Rightarrow> math_graph \<Rightarrow> math_graph result" where
  "value_flag v e on g = mlk_try (vec_at (g_values g) v) (\<lambda>val.
     Inr (g\<lparr>g_values := (g_values g)[v := val\<lparr>v_flags := flag_put e on (v_flags val)\<rparr>]\<rparr>))"

definition recordEquivalent :: "nat \<Rightarrow> nat \<Rightarrow> math_graph \<Rightarrow> math_graph result option" where
  "recordEquivalent oldV newV g =
     then_call (hm_put id_hash oldV newV (g_repr g)) (\<lambda>r.
       Some (mlk_try (value_flag oldV VF_Canonical False (g\<lparr>g_repr := r\<rparr>)) (\<lambda>g.
         mlk_try (value_flag newV VF_Canonical True g) (\<lambda>g. Inr (bumpVersion g)))))"

definition markLoweredAway :: "nat \<Rightarrow> math_graph \<Rightarrow> math_graph result option" where
  "markLoweredAway v g =
     then_call (hs_insert id_hash v (g_lowered g)) (\<lambda>(b, s).
       Some (mlk_try (value_flag v VF_Dead True (g\<lparr>g_lowered := s\<rparr>)) (\<lambda>g. Inr (bumpVersion g))))"

definition killNode :: "nat \<Rightarrow> math_graph \<Rightarrow> (bool \<times> math_graph) result" where
  "killNode i g = mlk_try (vec_at (g_nodes g) i) (\<lambda>n.
     if node_dead n then Inr (False, g)
     else Inr (True, bumpVersion (g\<lparr>g_nodes := (g_nodes g)[i := n\<lparr>n_flags := flag_put NF_Dead True (n_flags n)\<rparr>],
       g_effects := effect_remove i (g_effects g), g_hashCache := None\<rparr>)))"

definition isDead :: "math_graph \<Rightarrow> nat \<Rightarrow> bool result" where
  "isDead g v = mlk_try (vec_at (g_values g) v) (\<lambda>val. Inr (flag_test (v_flags val) VF_Dead))"

definition isNodeDead :: "math_graph \<Rightarrow> nat \<Rightarrow> bool result" where
  "isNodeDead g i = mlk_try (vec_at (g_nodes g) i) (\<lambda>n. Inr (node_dead n))"

definition liveNodeCount :: "math_graph \<Rightarrow> nat" where
  "liveNodeCount g = length (filter (\<lambda>n. \<not> node_dead n) (g_nodes g))"

definition kMaxEquivalenceDepth :: nat where "kMaxEquivalenceDepth = 64"

fun follow :: "nat \<Rightarrow> (nat, nat) hash_map \<Rightarrow> nat \<Rightarrow> nat result option" where
  "follow 0 m v = Some (Inr v)"
| "follow (Suc k) m v = then_call (hm_get id_hash v m) (\<lambda>w.
     case w of None \<Rightarrow> Some (Inr v) | Some u \<Rightarrow> follow k m u)"

definition representative :: "math_graph \<Rightarrow> nat \<Rightarrow> nat result option" where
  "representative g v = follow kMaxEquivalenceDepth (g_repr g) v"

definition topoOrder :: "math_graph \<Rightarrow> nat list" where
  "topoOrder g = map n_id (filter (\<lambda>n. \<not> node_dead n) (g_nodes g))"

section \<open>Renumbering\<close>

definition live_producer :: "math_graph \<Rightarrow> nat \<Rightarrow> bool result" where
  "live_producer g i = mlk_try (vec_at (g_values g) i) (\<lambda>v.
     Inr (v_kind v = NodeResult \<and> (case v_producer v of None \<Rightarrow> False
       | Some p \<Rightarrow> p < length (g_nodes g) \<and> \<not> node_dead (g_nodes g ! p))))"

definition pending_deps :: "math_graph \<Rightarrow> gnode \<Rightarrow> nat result" where
  "pending_deps g n = (if node_dead n then Inr 0
     else mlk_try (map_res (live_producer g) (n_inputs n)) (\<lambda>bs. Inr (length (filter id bs))))"

text \<open>One user of a result of the node just placed.\<close>

definition relax :: "math_graph \<Rightarrow> nat list \<Rightarrow> nat \<Rightarrow> nat list \<times> nat list \<Rightarrow> nat list \<times> nat list" where
  "relax g placed user s = (case s of (pending, ready) \<Rightarrow>
     if user \<ge> length pending \<or> node_dead (g_nodes g ! user) \<or> user \<in> set placed \<or> pending ! user = 0 then (pending, ready)
     else (pending[user := pending ! user - 1], if pending ! user - 1 = 0 then ready @ [user] else ready))"

definition result_users :: "math_graph \<Rightarrow> nat \<Rightarrow> nat list" where
  "result_users g cur = concat (map (\<lambda>res. if res \<ge> length (g_users g) then [] else g_users g ! res) (n_results (g_nodes g ! cur)))"

lemma relax_measure:
  "2 * sum_list (fst (relax g placed u s)) + length (snd (relax g placed u s)) \<le> 2 * sum_list (fst s) + length (snd s)"
proof (cases s)
  case (Pair pending ready)
  have "sum_list (pending[u := pending ! u - 1]) + 1 = sum_list pending" if "u < length pending" "0 < pending ! u"
    using that member_le_sum_list [OF nth_mem [OF that(1)]] by (simp add: sum_list_update)
  then show ?thesis by (cases "pending ! u = 1") (auto simp: Pair relax_def)
qed

lemma relax_all_measure:
  "2 * sum_list (fst (fold (relax g placed) us s)) + length (snd (fold (relax g placed) us s)) \<le> 2 * sum_list (fst s) + length (snd s)"
proof (induction us arbitrary: s)
  case (Cons u us)
  show ?case using le_trans [OF Cons.IH [of "relax g placed u s"] relax_measure] by simp
qed simp

text \<open>Kahn's algorithm: the queue of ready nodes, the pending counts, the order so far.\<close>

function kahn :: "math_graph \<Rightarrow> nat list \<Rightarrow> nat list \<Rightarrow> nat list \<Rightarrow> nat list" where
  "kahn g pending [] order = order"
| "kahn g pending (cur # ready) order =
     (let (pending', ready') = fold (relax g (order @ [cur])) (result_users g cur) (pending, ready) in
      kahn g pending' ready' (order @ [cur]))"
  by pat_completeness auto
termination
proof (relation "measure (\<lambda>(g, pending, ready, order). 2 * sum_list pending + length ready)", goal_cases)
  case (2 g pending cur ready order s pending' ready')
  then show ?case using relax_all_measure [of g "order @ [cur]" "result_users g cur" "(pending, ready)"] by (auto simp: prod_eq_iff)
qed simp

definition initial_ready :: "math_graph \<Rightarrow> nat list \<Rightarrow> nat list" where
  "initial_ready g pending = filter (\<lambda>i. \<not> node_dead (g_nodes g ! i) \<and> pending ! i = 0) [0..<length (g_nodes g)]"

text \<open>Live nodes in order, then the dead ones, then every node that was not placed.\<close>

definition new_order :: "math_graph \<Rightarrow> nat list result" where
  "new_order g = mlk_try (map_res (pending_deps g) (g_nodes g)) (\<lambda>pending.
     let placed = kahn g pending (initial_ready g pending) []; ids = [0..<length (g_nodes g)] in
     Inr (placed @ filter (\<lambda>i. node_dead (g_nodes g ! i)) ids @ filter (\<lambda>i. i \<notin> set placed) ids))"

definition remap_of :: "nat \<Rightarrow> nat list \<Rightarrow> nat option list" where
  "remap_of count order = fold (\<lambda>(pos, i) r. r[i := Some pos]) (enumerate 0 order) (replicate count None)"

definition renumber_value :: "nat option list \<Rightarrow> gvalue \<Rightarrow> gvalue" where
  "renumber_value r v = (case v_producer v of
     Some p \<Rightarrow> if v_kind v = NodeResult \<and> p < length r then v\<lparr>v_producer := r ! p\<rparr> else v
   | None \<Rightarrow> v)"

definition renumberTopological :: "math_graph \<Rightarrow> (nat \<times> math_graph) result" where
  "renumberTopological g = mlk_try (new_order g) (\<lambda>order.
     let count = length (g_nodes g); r = remap_of count order;
         moved = length (filter (\<lambda>i. r ! i \<noteq> Some i) [0..<count]) in
     if moved = 0 then Inr (0, g)
     else Inr (moved, bumpVersion (g\<lparr>g_nodes := map (\<lambda>i. (g_nodes g ! i)\<lparr>n_id := the (r ! i)\<rparr>) order,
       g_values := map (renumber_value r) (g_values g),
       g_users := map (map (\<lambda>u. if u < count then the (r ! u) else u)) (g_users g),
       g_effects := map (\<lambda>u. the (r ! u)) (filter (\<lambda>u. u < count) (g_effects g)),
       g_hashCache := None\<rparr>)))"

end
