(* ===== verification/Renumber.thy ===== *)
theory Renumber
  imports Math_Graph
begin

text \<open>
  The order in which \<open>renumberTopological\<close> places the nodes: the queue of Kahn's algorithm places a
  live node at most once, and the nodes that trail are appended twice when they are dead.
\<close>

section \<open>The queue\<close>

text \<open>What the loop keeps: placed and ready nodes are distinct live nodes with nothing pending.\<close>

definition queue_ok :: "math_graph \<Rightarrow> nat list \<Rightarrow> nat list \<Rightarrow> nat list \<Rightarrow> bool" where
  "queue_ok g pending ready order \<longleftrightarrow> length pending = length (g_nodes g) \<and> distinct (order @ ready)
     \<and> (\<forall>i \<in> set (order @ ready). i < length (g_nodes g) \<and> \<not> node_dead (g_nodes g ! i) \<and> pending ! i = 0)"

lemma relax_queue:
  assumes "queue_ok g (fst s) (snd s) order"
  shows "queue_ok g (fst (relax g placed u s)) (snd (relax g placed u s)) order"
proof (cases s)
  case (Pair pending ready)
  show ?thesis
  proof (cases "u \<ge> length pending \<or> node_dead (g_nodes g ! u) \<or> u \<in> set placed \<or> pending ! u = 0")
    case True
    then show ?thesis using assms by (simp add: Pair relax_def)
  next
    case live: False
    then have u: "u < length (g_nodes g)" "\<not> node_dead (g_nodes g ! u)" and new: "u \<notin> set (order @ ready)"
      using assms by (auto simp: queue_ok_def Pair)
    have same: "(pending[u := x]) ! i = pending ! i" if "i \<in> set (order @ ready)" for i x
      using that new by (metis nth_list_update_neq)
    show ?thesis
    proof (cases "pending ! u = 1")
      case True
      have "i < length (g_nodes g) \<and> \<not> node_dead (g_nodes g ! i) \<and> pending[u := 0] ! i = 0"
        if "i \<in> set (order @ ready @ [u])" for i
      proof -
        from that consider "i = u" | "i \<in> set (order @ ready)" by auto
        then show ?thesis by cases (use u same assms in \<open>auto simp: queue_ok_def Pair\<close>)
      qed
      then have "queue_ok g (pending[u := 0]) (ready @ [u]) order"
        unfolding queue_ok_def using assms new by (auto simp: queue_ok_def Pair)
      with live True show ?thesis by (simp add: Pair relax_def)
    next
      case False
      then show ?thesis using live assms same by (auto simp: queue_ok_def Pair relax_def)
    qed
  qed
qed

lemma relax_all_queue:
  "queue_ok g (fst s) (snd s) order
    \<Longrightarrow> queue_ok g (fst (fold (relax g placed) us s)) (snd (fold (relax g placed) us s)) order"
  by (induction us arbitrary: s) (simp_all add: relax_queue)

lemma kahn_distinct:
  assumes "queue_ok g pending ready order"
  shows "distinct (kahn g pending ready order)
    \<and> (\<forall>i \<in> set (kahn g pending ready order). i < length (g_nodes g) \<and> \<not> node_dead (g_nodes g ! i))"
  using assms
proof (induction g pending ready order rule: kahn.induct)
  case (2 g pending cur ready order)
  let ?s = "fold (relax g (order @ [cur])) (result_users g cur) (pending, ready)"
  have "queue_ok g pending ready (order @ [cur])" using "2.prems" by (auto simp: queue_ok_def)
  then have "queue_ok g (fst ?s) (snd ?s) (order @ [cur])"
    using relax_all_queue [of g "(pending, ready)" "order @ [cur]"] by simp
  with "2.IH" [OF refl prod.collapse] show ?case by (simp add: split_beta Let_def)
qed (auto simp: queue_ok_def)

lemma initial_queue:
  "length pending = length (g_nodes g) \<Longrightarrow> queue_ok g pending (initial_ready g pending) []"
  by (auto simp: queue_ok_def initial_ready_def)

section \<open>The order\<close>

lemma length_filter_mem:
  assumes "distinct xs" and "set xs \<subseteq> {..<n}"
  shows "length (filter (\<lambda>i. i \<notin> set xs) [0..<n]) + length xs = n"
proof -
  have "set (filter (\<lambda>i. i \<in> set xs) [0..<n]) = set xs" using assms(2) by auto
  then have "length (filter (\<lambda>i. i \<in> set xs) [0..<n]) = length xs"
    using assms(1) by (metis distinct_card distinct_filter distinct_upt)
  then show ?thesis using sum_length_filter_compl [of "\<lambda>i. i \<in> set xs" "[0..<n]"] by simp
qed

lemma filter_nth_length: "length (filter (\<lambda>i. P (xs ! i)) [0..<length xs]) = length (filter P xs)"
proof -
  have "filter P xs = map ((!) xs) (filter (\<lambda>i. P (xs ! i)) [0..<length xs])"
    using arg_cong [OF map_nth [of xs], of "filter P"] by (simp add: filter_map comp_def)
  then show ?thesis by (metis length_map)
qed

lemma new_order_length:
  assumes "new_order g = Inr order"
  shows "length order = length (g_nodes g) + length (filter node_dead (g_nodes g))"
    and "i < length (g_nodes g) \<Longrightarrow> i \<in> set order" and "set order \<subseteq> {..<length (g_nodes g)}"
proof -
  from assms obtain pending where p: "map_res (pending_deps g) (g_nodes g) = Inr pending"
    and o: "order = kahn g pending (initial_ready g pending) [] @ filter (\<lambda>i. node_dead (g_nodes g ! i)) [0..<length (g_nodes g)]
      @ filter (\<lambda>i. i \<notin> set (kahn g pending (initial_ready g pending) [])) [0..<length (g_nodes g)]"
    by (auto simp: new_order_def mlk_try_Inr_iff Let_def)
  have k: "distinct (kahn g pending (initial_ready g pending) [])"
    "set (kahn g pending (initial_ready g pending) []) \<subseteq> {..<length (g_nodes g)}"
    using kahn_distinct [OF initial_queue [OF map_res_length [OF p]]] by auto
  show "length order = length (g_nodes g) + length (filter node_dead (g_nodes g))"
    using length_filter_mem [OF k] by (simp add: o filter_nth_length)
  show "i < length (g_nodes g) \<Longrightarrow> i \<in> set order" by (auto simp: o)
  show "set order \<subseteq> {..<length (g_nodes g)}" using k(2) by (auto simp: o)
qed

lemma remap_fold:
  "length (fold (\<lambda>(pos, i) r. r[i := Some pos]) ps r) = length r"
  by (induction ps arbitrary: r) (auto split: prod.splits)

lemma remap_last:
  assumes "order \<noteq> []" and "last order < count"
  shows "remap_of count order ! last order = Some (length order - 1)" and "length (remap_of count order) = count"
proof -
  from assms(1) obtain xs where "order = xs @ [last order]" by (metis append_butlast_last_id)
  then have "remap_of count order = (fold (\<lambda>(pos, i) r. r[i := Some pos]) (enumerate 0 xs) (replicate count None))
      [last order := Some (length xs)]" and "length order = Suc (length xs)"
    by (metis (no_types, lifting) remap_of_def enumerate_append_eq fold_append comp_apply enumerate_simps add_0 fold_simps case_prod_conv,
        metis length_append_singleton)
  then show "remap_of count order ! last order = Some (length order - 1)" using assms(2) by (simp add: remap_fold)
  show "length (remap_of count order) = count" by (simp add: remap_of_def remap_fold)
qed

section \<open>Producers first\<close>

text \<open>
  The use lists agree with the operands: they have the users of a value as often as it is an operand
  of theirs. A value that a live node produces is the result of that node.
\<close>

definition feeds :: "math_graph \<Rightarrow> nat \<Rightarrow> nat \<Rightarrow> bool" where
  "feeds g p v \<longleftrightarrow> v_kind (g_values g ! v) = NodeResult \<and> v_producer (g_values g ! v) = Some p
     \<and> p < length (g_nodes g) \<and> \<not> node_dead (g_nodes g ! p)"

definition linked :: "math_graph \<Rightarrow> bool" where
  "linked g \<longleftrightarrow> length (g_users g) = length (g_values g)
     \<and> (\<forall>v < length (g_values g). \<forall>u < length (g_nodes g). \<not> node_dead (g_nodes g ! u)
          \<longrightarrow> count_list (g_users g ! v) u = count_list (n_inputs (g_nodes g ! u)) v)
     \<and> (\<forall>u < length (g_nodes g). \<not> node_dead (g_nodes g ! u)
          \<longrightarrow> (\<forall>v \<in> set (n_inputs (g_nodes g ! u)). v < length (g_values g)))
     \<and> (\<forall>p v. v < length (g_values g) \<longrightarrow> feeds g p v \<longrightarrow> n_results (g_nodes g ! p) = [v])
     \<and> (\<forall>p < length (g_nodes g). \<forall>v \<in> set (n_results (g_nodes g ! p)). \<not> node_dead (g_nodes g ! p) \<longrightarrow> v < length (g_values g) \<and> feeds g p v)"

lemma feeds_unique: "feeds g p v \<Longrightarrow> feeds g q v \<Longrightarrow> p = q"
  by (simp add: feeds_def)

lemma linkedD:
  assumes "linked g"
  shows "v < length (g_values g) \<Longrightarrow> u < length (g_nodes g) \<Longrightarrow> \<not> node_dead (g_nodes g ! u)
      \<Longrightarrow> count_list (g_users g ! v) u = count_list (n_inputs (g_nodes g ! u)) v"
    and "u < length (g_nodes g) \<Longrightarrow> \<not> node_dead (g_nodes g ! u) \<Longrightarrow> v \<in> set (n_inputs (g_nodes g ! u))
      \<Longrightarrow> v < length (g_values g)"
    and "v < length (g_values g) \<Longrightarrow> feeds g p v \<Longrightarrow> n_results (g_nodes g ! p) = [v]"
    and "p < length (g_nodes g) \<Longrightarrow> \<not> node_dead (g_nodes g ! p) \<Longrightarrow> v \<in> set (n_results (g_nodes g ! p))
      \<Longrightarrow> v < length (g_values g) \<and> feeds g p v"
  using assms unfolding linked_def by blast+

text \<open>The operands of a node that wait for a node not placed yet.\<close>

definition waiting :: "math_graph \<Rightarrow> nat list \<Rightarrow> nat \<Rightarrow> nat list" where
  "waiting g order u = filter (\<lambda>v. \<exists>p. feeds g p v \<and> p \<notin> set order) (n_inputs (g_nodes g ! u))"

lemma relax_counts:
  assumes "\<not> node_dead (g_nodes g ! u)" and "u \<notin> set placed" and "u < length pending"
  shows "fst (fold (relax g placed) us (pending, ready)) ! u = pending ! u - count_list us u"
  using assms
proof (induction us arbitrary: pending ready)
  case (Cons x us)
  obtain p r where pr: "relax g placed x (pending, ready) = (p, r)" by fastforce
  then have "length p = length pending" and "p ! u = pending ! u - (if x = u then 1 else 0)"
    using Cons.prems by (auto simp: relax_def nth_list_update split: if_splits)
  with Cons.IH [of p r] Cons.prems show ?case by (simp add: pr)
qed simp

text \<open>A node leaves the pending state only by becoming ready.\<close>

lemma relax_ready:
  assumes "u < length pending" and "pending ! u = 0 \<longrightarrow> u \<in> set ready \<union> set placed"
  shows "fst (fold (relax g placed) us (pending, ready)) ! u = 0
    \<longrightarrow> u \<in> set (snd (fold (relax g placed) us (pending, ready))) \<union> set placed"
  using assms
proof (induction us arbitrary: pending ready)
  case (Cons x us)
  obtain p r where pr: "relax g placed x (pending, ready) = (p, r)" by fastforce
  then have "u < length p" and "p ! u = 0 \<longrightarrow> u \<in> set r \<union> set placed"
    using Cons.prems by (auto simp: relax_def nth_list_update split: if_splits)
  with Cons.IH [of p r] show ?case by (simp add: pr)
qed simp

lemma relax_grows:
  "set (snd s) \<subseteq> set (snd (fold (relax g placed) us s)) \<and> length (fst (fold (relax g placed) us s)) = length (fst s)"
proof (induction us arbitrary: s)
  case (Cons x us)
  have "set (snd s) \<subseteq> set (snd (relax g placed x s)) \<and> length (fst (relax g placed x s)) = length (fst s)"
    by (cases s) (auto simp: relax_def)
  with Cons.IH [of "relax g placed x s"] show ?case by auto
qed simp

lemma waiting_step:
  assumes l: "linked g" and cur: "cur < length (g_nodes g)" "\<not> node_dead (g_nodes g ! cur)" "cur \<notin> set order"
    and u: "u < length (g_nodes g)" "\<not> node_dead (g_nodes g ! u)"
  shows "length (waiting g (order @ [cur]) u) = length (waiting g order u) - count_list (result_users g cur) u"
proof (cases "n_results (g_nodes g ! cur)")
  case Nil
  have "\<not> feeds g cur v" if "v \<in> set (n_inputs (g_nodes g ! u))" for v
    using that linkedD(3) [OF l linkedD(2) [OF l u that]] Nil by auto
  then have "waiting g (order @ [cur]) u = waiting g order u"
    unfolding waiting_def by (intro filter_cong refl) (auto simp: feeds_def)
  then show ?thesis by (simp add: result_users_def Nil)
next
  case (Cons r rs)
  with linkedD(4) [OF l cur(1,2)] have r: "feeds g cur r" "r < length (g_values g)" by auto
  from linkedD(3) [OF l r(2,1)] Cons have rs: "rs = []" by simp
  have users: "count_list (result_users g cur) u = count_list (n_inputs (g_nodes g ! u)) r"
    using linkedD(1) [OF l r(2) u] l r(2) by (simp add: result_users_def Cons rs linked_def)
  have only: "feeds g cur v \<longleftrightarrow> v = r" if "v \<in> set (n_inputs (g_nodes g ! u))" for v
    using linkedD(3) [OF l linkedD(2) [OF l u that], of cur] r Cons by auto
  have "waiting g (order @ [cur]) u = filter (\<lambda>v. v \<noteq> r) (waiting g order u)"
    unfolding waiting_def filter_filter
  proof (intro filter_cong refl)
    fix v assume v: "v \<in> set (n_inputs (g_nodes g ! u))"
    show "(\<exists>p. feeds g p v \<and> p \<notin> set (order @ [cur])) \<longleftrightarrow> (\<exists>p. feeds g p v \<and> p \<notin> set order) \<and> v \<noteq> r"
      using only [OF v] feeds_unique [of g cur v] by auto
  qed
  moreover have "length (filter (\<lambda>v. v \<noteq> r) xs) = length xs - count_list xs r" for xs :: "nat list"
    by (induction xs) (auto simp: Suc_diff_le count_le_length)
  moreover have "count_list (waiting g order u) r = count_list (n_inputs (g_nodes g ! u)) r"
  proof -
    have "\<exists>p. feeds g p r \<and> p \<notin> set order" using r cur by blast
    then have "count_list (filter (\<lambda>v. \<exists>p. feeds g p v \<and> p \<notin> set order) xs) r = count_list xs r" for xs
      by (induction xs) auto
    then show ?thesis by (simp add: waiting_def)
  qed
  ultimately show ?thesis using users by simp
qed

text \<open>Placed so far: live nodes after all their producers.\<close>

definition producers_first :: "math_graph \<Rightarrow> nat list \<Rightarrow> bool" where
  "producers_first g order \<longleftrightarrow> (\<forall>k < length order. \<forall>v \<in> set (n_inputs (g_nodes g ! (order ! k))). \<forall>p.
     feeds g p v \<longrightarrow> p \<in> set (take k order))"

definition kahn_ok :: "math_graph \<Rightarrow> nat list \<Rightarrow> nat list \<Rightarrow> nat list \<Rightarrow> bool" where
  "kahn_ok g pending ready order \<longleftrightarrow> queue_ok g pending ready order \<and> producers_first g order
     \<and> (\<forall>u < length (g_nodes g). \<not> node_dead (g_nodes g ! u) \<longrightarrow> u \<notin> set order
         \<longrightarrow> pending ! u = length (waiting g order u) \<and> (pending ! u = 0 \<longrightarrow> u \<in> set ready))"

lemma kahn_step:
  assumes l: "linked g" and ok: "kahn_ok g pending (cur # ready) order"
    and s: "s = fold (relax g (order @ [cur])) (result_users g cur) (pending, ready)"
  shows "kahn_ok g (fst s) (snd s) (order @ [cur])"
proof -
  have q: "queue_ok g pending ready (order @ [cur])" using ok by (auto simp: kahn_ok_def queue_ok_def)
  have cur: "cur < length (g_nodes g)" "\<not> node_dead (g_nodes g ! cur)" "cur \<notin> set order" "pending ! cur = 0"
    using ok by (auto simp: kahn_ok_def queue_ok_def)
  have "waiting g order cur = []" using ok cur by (auto simp: kahn_ok_def)
  then have "\<forall>v \<in> set (n_inputs (g_nodes g ! cur)). \<forall>p. feeds g p v \<longrightarrow> p \<in> set order"
    by (auto simp: waiting_def filter_empty_conv)
  then have "producers_first g (order @ [cur])"
    using ok by (auto simp: kahn_ok_def producers_first_def nth_append less_Suc_eq)
  moreover have "queue_ok g (fst s) (snd s) (order @ [cur])"
    using relax_all_queue [of g "(pending, ready)" "order @ [cur]"] q by (simp add: s)
  moreover have "fst s ! u = length (waiting g (order @ [cur]) u) \<and> (fst s ! u = 0 \<longrightarrow> u \<in> set (snd s))"
    if u: "u < length (g_nodes g)" "\<not> node_dead (g_nodes g ! u)" "u \<notin> set (order @ [cur])" for u
  proof
    have len: "u < length pending" using q u by (simp add: queue_ok_def)
    have w: "pending ! u = length (waiting g order u)" "pending ! u = 0 \<longrightarrow> u \<in> set (cur # ready)"
      using ok u by (auto simp: kahn_ok_def)
    show "fst s ! u = length (waiting g (order @ [cur]) u)"
      using relax_counts [OF u(2,3) len] waiting_step [OF l cur(1-3) u(1,2)] w(1) by (simp add: s)
    have "u \<noteq> cur" using u(3) by simp
    with relax_ready [OF len, of ready "order @ [cur]" g "result_users g cur"] w(2) u(3)
    show "fst s ! u = 0 \<longrightarrow> u \<in> set (snd s)" by (auto simp: s)
  qed
  ultimately show ?thesis by (simp add: kahn_ok_def)
qed

lemma kahn_run:
  assumes "linked g" and "kahn_ok g pending ready order"
  shows "\<exists>pending'. kahn_ok g pending' [] (kahn g pending ready order)"
  using assms
proof (induction g pending ready order rule: kahn.induct)
  case (2 g pending cur ready order)
  let ?s = "fold (relax g (order @ [cur])) (result_users g cur) (pending, ready)"
  from "2.IH" [OF refl prod.collapse "2.prems"(1) kahn_step [OF "2.prems" refl]]
  show ?case by (simp add: split_beta Let_def)
qed auto

text \<open>When the dataflow has a rank, nothing is left over.\<close>

lemma kahn_complete:
  assumes ok: "kahn_ok g pending [] order"
    and rank: "\<And>u v p. u < length (g_nodes g) \<Longrightarrow> \<not> node_dead (g_nodes g ! u) \<Longrightarrow> v \<in> set (n_inputs (g_nodes g ! u))
      \<Longrightarrow> feeds g p v \<Longrightarrow> rank p < (rank u :: nat)"
    and "u < length (g_nodes g)" "\<not> node_dead (g_nodes g ! u)"
  shows "u \<in> set order"
  using assms(3,4)
proof (induction "rank u" arbitrary: u rule: less_induct)
  case less
  show ?case
  proof (rule ccontr)
    assume "u \<notin> set order"
    with ok less.prems have "waiting g order u \<noteq> []" by (auto simp: kahn_ok_def)
    then obtain v p where v: "v \<in> set (n_inputs (g_nodes g ! u))" "feeds g p v" "p \<notin> set order"
      by (auto simp: waiting_def filter_empty_conv)
    with less.hyps [OF rank [OF less.prems v(1,2)]] show False by (auto simp: feeds_def)
  qed
qed

lemma pending_waiting:
  assumes l: "linked g" and u: "u < length (g_nodes g)" "\<not> node_dead (g_nodes g ! u)"
  shows "pending_deps g (g_nodes g ! u) = Inr (length (waiting g [] u))"
proof -
  have lp: "live_producer g v = Inr (\<exists>p. feeds g p v)" if "v \<in> set (n_inputs (g_nodes g ! u))" for v
    using that l u unfolding linked_def live_producer_def vec_at_def feeds_def by (auto split: option.splits)
  have "map_res (live_producer g) (n_inputs (g_nodes g ! u)) = Inr (map (\<lambda>v. \<exists>p. feeds g p v) (n_inputs (g_nodes g ! u)))"
    by (rule map_res_total) (rule lp)
  then show ?thesis using u by (simp add: pending_deps_def waiting_def filter_map comp_def)
qed

lemma pending_run:
  assumes l: "linked g"
  shows "\<exists>pending. map_res (pending_deps g) (g_nodes g) = Inr pending \<and> kahn_ok g pending (initial_ready g pending) []"
proof -
  let ?f = "\<lambda>n. case pending_deps g n of Inr k \<Rightarrow> k | Inl _ \<Rightarrow> 0"
  have total: "pending_deps g n = Inr (?f n)" if "n \<in> set (g_nodes g)" for n
  proof -
    from that obtain u where "u < length (g_nodes g)" "n = g_nodes g ! u" by (auto simp: in_set_conv_nth)
    with pending_waiting [OF l] show ?thesis by (cases "node_dead n") (auto simp: pending_deps_def)
  qed
  then have run: "map_res (pending_deps g) (g_nodes g) = Inr (map ?f (g_nodes g))" by (rule map_res_total)
  moreover have "kahn_ok g (map ?f (g_nodes g)) (initial_ready g (map ?f (g_nodes g))) []"
    using initial_queue [of "map ?f (g_nodes g)" g] pending_waiting [OF l]
    by (auto simp: kahn_ok_def producers_first_def initial_ready_def)
  ultimately show ?thesis by blast
qed

section \<open>The renumbered graph\<close>

lemma remap_others:
  "i \<notin> set xs \<Longrightarrow> fold (\<lambda>(pos, i) r. r[i := Some pos]) (enumerate s xs) r ! i = r ! i"
  by (induction xs arbitrary: r s) auto

lemma remap_positions:
  assumes "distinct xs" and "set xs \<subseteq> {..<length r}" and "k < length xs"
  shows "fold (\<lambda>(pos, i) r. r[i := Some pos]) (enumerate s xs) r ! (xs ! k) = Some (s + k)"
  using assms
proof (induction xs arbitrary: r s k)
  case (Cons x xs)
  then show ?case using Cons.IH [of "r[x := Some s]" "k - 1" "Suc s"] remap_others [of x xs "Suc s" "r[x := Some s]"]
    by (cases k) auto
qed simp

lemma remap_inverse:
  assumes "distinct order" and "set order = {..<n}" and "k < n"
  shows "remap_of n order ! (order ! k) = Some k" and "length order = n"
proof -
  show l: "length order = n" using assms(1,2) distinct_card by fastforce
  show "remap_of n order ! (order ! k) = Some k"
    using remap_positions [of order "replicate n None" k 0] assms l by (simp add: remap_of_def)
qed

text \<open>Without dead nodes the new order is a permutation that puts producers first.\<close>

lemma new_order_sorted:
  assumes l: "linked g" and live: "\<forall>n \<in> set (g_nodes g). \<not> node_dead n"
    and rank: "\<And>u v p. u < length (g_nodes g) \<Longrightarrow> v \<in> set (n_inputs (g_nodes g ! u)) \<Longrightarrow> feeds g p v
      \<Longrightarrow> rank p < (rank u :: nat)"
  shows "\<exists>order. new_order g = Inr order \<and> distinct order \<and> set order = {..<length (g_nodes g)} \<and> producers_first g order"
proof -
  obtain pending where p: "map_res (pending_deps g) (g_nodes g) = Inr pending"
    and ok: "kahn_ok g pending (initial_ready g pending) []" using pending_run [OF l] by blast
  let ?o = "kahn g pending (initial_ready g pending) []"
  from kahn_run [OF l ok] obtain pd where end_ok: "kahn_ok g pd [] ?o" by blast
  have all: "u \<in> set ?o" if "u < length (g_nodes g)" for u
    by (rule kahn_complete [OF end_ok, of rank]) (use that live rank in auto)
  with end_ok have set: "set ?o = {..<length (g_nodes g)}" by (auto simp: kahn_ok_def queue_ok_def)
  have "filter (\<lambda>i. node_dead (g_nodes g ! i)) [0..<length (g_nodes g)] = []" using live by (simp add: filter_empty_conv)
  moreover have "filter (\<lambda>i. i \<notin> set ?o) [0..<length (g_nodes g)] = []" using all by (simp add: filter_empty_conv)
  ultimately have "new_order g = Inr ?o" by (simp add: new_order_def p)
  then show ?thesis using end_ok set by (auto simp: kahn_ok_def queue_ok_def)
qed

lemma last_in_place:
  assumes "renumberTopological g = Inr (moved, g')" and "new_order g = Inr order"
    and d: "length (g_nodes g) < length order" and sub: "set order \<subseteq> {..<length (g_nodes g)}"
  shows "0 < moved" and "length (g_nodes g') = length order"
proof -
  have ne: "order \<noteq> []" using d by auto
  then have lo: "last order < length (g_nodes g)" using sub last_in_set by blast
  let ?r = "remap_of (length (g_nodes g)) order"
  from remap_last(1) [OF ne lo] d have "?r ! last order \<noteq> Some (last order)" using lo by simp
  then have "last order \<in> set (filter (\<lambda>i. ?r ! i \<noteq> Some i) [0..<length (g_nodes g)])" using lo by simp
  then have "filter (\<lambda>i. ?r ! i \<noteq> Some i) [0..<length (g_nodes g)] \<noteq> []" by (metis empty_iff empty_set)
  with assms(1,2) show "0 < moved" "length (g_nodes g') = length order"
    by (auto simp: renumberTopological_def bumpVersion_def Let_def split: if_splits)
qed

lemma renumbered:
  assumes run: "new_order g = Inr order" and perm: "distinct order" "set order = {..<length (g_nodes g)}"
    and ids: "\<forall>i < length (g_nodes g). n_id (g_nodes g ! i) = i"
  shows "\<exists>moved g'. renumberTopological g = Inr (moved, g')
    \<and> g_nodes g' = map (\<lambda>k. (g_nodes g ! (order ! k))\<lparr>n_id := k\<rparr>) [0..<length (g_nodes g)]
    \<and> g_values g' = map (renumber_value (remap_of (length (g_nodes g)) order)) (g_values g)"
proof -
  let ?n = "length (g_nodes g)"
  let ?r = "remap_of ?n order"
  have len: "length order = ?n" "length ?r = ?n" using remap_inverse(2) [OF perm] by (simp_all add: remap_of_def remap_fold perm distinct_card [symmetric])
  have r: "?r ! (order ! k) = Some k" if "k < ?n" for k by (rule remap_inverse(1) [OF perm that])
  have nodes: "map (\<lambda>i. (g_nodes g ! i)\<lparr>n_id := the (?r ! i)\<rparr>) order = map (\<lambda>k. (g_nodes g ! (order ! k))\<lparr>n_id := k\<rparr>) [0..<?n]"
    by (rule nth_equalityI) (use len r in auto)
  show ?thesis
  proof (cases "filter (\<lambda>i. ?r ! i \<noteq> Some i) [0..<?n] = []")
    case True
    then have id: "?r ! i = Some i" if "i < ?n" for i using that by (auto simp: filter_empty_conv)
    have same: "order ! k = k" if "k < ?n" for k
    proof -
      have "order ! k < ?n" using perm(2) that len(1) nth_mem [of k order] by auto
      then show ?thesis using id r [OF that] by fastforce
    qed
    have "g_nodes g = map (\<lambda>k. (g_nodes g ! (order ! k))\<lparr>n_id := k\<rparr>) [0..<?n]"
      by (rule nth_equalityI) (use same ids in auto)
    moreover have "renumber_value ?r v = v" for v
      using id len(2) by (auto simp: renumber_value_def split: option.splits)
    ultimately show ?thesis using run True by (simp add: renumberTopological_def Let_def map_idI)
  next
    case False
    then show ?thesis using run by (simp add: renumberTopological_def bumpVersion_def Let_def nodes)
  qed
qed

lemma producer_moved:
  assumes perm: "distinct order" "set order = {..<length (g_nodes g)}" and p: "p < length (g_nodes g)"
    and r: "r = remap_of (length (g_nodes g)) order" and v: "v_kind w = NodeResult" "v_producer (renumber_value r w) = Some p"
  shows "v_producer w = Some (order ! p)"
proof -
  obtain q where q: "v_producer w = Some q" using v by (auto simp: renumber_value_def split: option.splits)
  have lr: "length r = length (g_nodes g)" by (simp add: r remap_of_def remap_fold)
  have lo: "length order = length (g_nodes g)" using perm distinct_card by fastforce
  show ?thesis
  proof (cases "q < length (g_nodes g)")
    case True
    with perm(2) lo obtain k where k: "k < length (g_nodes g)" "q = order ! k" by (metis in_set_conv_nth lessThan_iff)
    with remap_inverse(1) [OF perm] have "r ! q = Some k" by (simp add: r)
    with v q True lr show ?thesis by (simp add: renumber_value_def k)
  next
    case False
    with v q lr p show ?thesis by (simp add: renumber_value_def)
  qed
qed

end
