(* ===== verification/Graph_Properties.thy ===== *)
theory Graph_Properties
  imports Renumber "HOL-Library.Multiset"
begin

text \<open>
  What the operations on the mathematical graph guarantee.
\<close>

section \<open>Renumbering\<close>

text \<open>
  C21. Renumbering a graph without dead nodes whose dataflow is acyclic restores the order that the
  interpreter and the verifier rely on: afterwards every node carries its own position as its
  id, the producer of each operand has a smaller id, and the nodes are the old ones in a new order.
\<close>
theorem renumber_sorts:
  assumes "linked g" and live: "\<forall>n \<in> set (g_nodes g). \<not> node_dead n"
    and ids: "\<forall>i < length (g_nodes g). n_id (g_nodes g ! i) = i"
    and rank: "\<And>u v p. u < length (g_nodes g) \<Longrightarrow> v \<in> set (n_inputs (g_nodes g ! u)) \<Longrightarrow> feeds g p v
      \<Longrightarrow> rank p < (rank u :: nat)"
  shows "\<exists>moved g'. renumberTopological g = Inr (moved, g')
    \<and> mset (map (\<lambda>n. n\<lparr>n_id := 0\<rparr>) (g_nodes g')) = mset (map (\<lambda>n. n\<lparr>n_id := 0\<rparr>) (g_nodes g))
    \<and> (\<forall>k < length (g_nodes g'). n_id (g_nodes g' ! k) = k
        \<and> (\<forall>v \<in> set (n_inputs (g_nodes g' ! k)). \<forall>p. feeds g' p v \<longrightarrow> p < k))"
proof -
  obtain order where o: "new_order g = Inr order" "distinct order" "set order = {..<length (g_nodes g)}" "producers_first g order"
    using new_order_sorted [OF assms(1) live, of rank] rank by blast
  let ?n = "length (g_nodes g)"
  from renumbered [OF o(1-3) ids] obtain moved g' where g': "renumberTopological g = Inr (moved, g')"
    "g_nodes g' = map (\<lambda>k. (g_nodes g ! (order ! k))\<lparr>n_id := k\<rparr>) [0..<?n]"
    "g_values g' = map (renumber_value (remap_of ?n order)) (g_values g)" by blast
  have lo: "length order = ?n" using o(2,3) distinct_card by fastforce
  let ?f = "\<lambda>i. (g_nodes g ! i)\<lparr>n_id := 0\<rparr>"
  have new: "map (\<lambda>n. n\<lparr>n_id := 0\<rparr>) (g_nodes g') = map ?f order"
    by (rule nth_equalityI) (use lo g'(2) in auto)
  have old: "map (\<lambda>n. n\<lparr>n_id := 0\<rparr>) (g_nodes g) = map ?f [0..<?n]" by (rule nth_equalityI) auto
  have "mset order = mset [0..<?n]" using o(2,3) mset_set_set [of order] by (simp add: lessThan_atLeast0)
  then have same: "mset (map (\<lambda>n. n\<lparr>n_id := 0\<rparr>) (g_nodes g')) = mset (map (\<lambda>n. n\<lparr>n_id := 0\<rparr>) (g_nodes g))"
    unfolding new old by (simp only: mset_map)
  have "p < k" if k: "k < ?n" and v: "v \<in> set (n_inputs (g_nodes g' ! k))" and f: "feeds g' p v" for k v p
  proof -
    have ok: "order ! k < ?n" using o(3) k lo nth_mem [of k order] by auto
    have vin: "v \<in> set (n_inputs (g_nodes g ! (order ! k)))" using v k by (simp add: g'(2))
    have vl: "v < length (g_values g)" using linkedD(2) [OF assms(1) ok _ vin] live ok by simp
    have p: "p < ?n" using f by (simp add: feeds_def g'(2))
    have "v_kind (g_values g ! v) = NodeResult" using f vl
      by (auto simp: feeds_def g'(3) renumber_value_def split: option.splits if_splits)
    moreover from this have "v_producer (g_values g ! v) = Some (order ! p)"
      using producer_moved [OF o(2,3) p refl] f vl by (auto simp: feeds_def g'(3))
    moreover have "order ! p < ?n" using o(3) p lo nth_mem [of p order] by auto
    ultimately have "feeds g (order ! p) v" using live by (simp add: feeds_def)
    with o(4) k lo vin have "order ! p \<in> set (take k order)" by (simp add: producers_first_def)
    then obtain j where "j < k" "order ! p = order ! j" using k lo by (auto simp: in_set_conv_nth)
    with o(2) p k lo show "p < k" by (simp add: nth_eq_iff_index_eq)
  qed
  moreover have "length (g_nodes g') = ?n" and "n_id (g_nodes g' ! k) = k" if "k < ?n" for k using that by (simp_all add: g'(2))
  ultimately have "\<forall>k < length (g_nodes g'). n_id (g_nodes g' ! k) = k
      \<and> (\<forall>v \<in> set (n_inputs (g_nodes g' ! k)). \<forall>p. feeds g' p v \<longrightarrow> p < k)"
    by (simp add: g'(2))
  with g'(1) same show ?thesis by blast
qed

text \<open>A graph whose first node consumes the result of its second: \<open>neg(exp(x))\<close>.\<close>

definition out_of_order :: math_graph where
  "out_of_order = (let g = snd (addPlaceholder 1 new_type (snd (addPlaceholder 0 new_type (new_graph [''x'', ''y''])))) in
     case addNode Op_Neg [1] [] g of Inl e \<Rightarrow> g | Inr (a, g) \<Rightarrow>
     (case addNode Op_Exp [0] [] g of Inl e \<Rightarrow> g | Inr (b, g) \<Rightarrow>
     (case replaceOperandUses 1 b g of Inl e \<Rightarrow> g | Inr g \<Rightarrow> g)))"

lemma out_of_order_users: "g_users out_of_order = [[1], [], [], [0]]"
  by code_simp

lemma renumber_sorts_witness:
  "\<exists>g'. renumberTopological out_of_order = Inr (2, g') \<and> map n_inputs (g_nodes g') = [[0], [3]]
     \<and> mset (map (\<lambda>n. n\<lparr>n_id := 0\<rparr>) (g_nodes g')) = mset (map (\<lambda>n. n\<lparr>n_id := 0\<rparr>) (g_nodes out_of_order))"
proof -
  let ?g = out_of_order
  have len: "length (g_nodes ?g) = 2" "length (g_values ?g) = 4" by code_simp+
  have node: "n_inputs (g_nodes ?g ! 0) = [3]" "n_inputs (g_nodes ?g ! 1) = [0]" "n_results (g_nodes ?g ! 0) = [2]"
    "n_results (g_nodes ?g ! 1) = [3]" "n_id (g_nodes ?g ! 0) = 0" "n_id (g_nodes ?g ! 1) = 1"
    "\<not> node_dead (g_nodes ?g ! 0)" "\<not> node_dead (g_nodes ?g ! 1)"
    by code_simp+
  have fd: "feeds ?g p v \<longleftrightarrow> (p = 0 \<and> v = 2) \<or> (p = 1 \<and> v = 3)" if "v < 4" for p v
  proof -
    have "v_kind (g_values ?g ! 0) = Placeholder" "v_kind (g_values ?g ! 1) = Placeholder" "v_kind (g_values ?g ! 2) = NodeResult"
      "v_kind (g_values ?g ! 3) = NodeResult" "v_producer (g_values ?g ! 2) = Some 0" "v_producer (g_values ?g ! 3) = Some 1"
      by code_simp+
    moreover have "v = 0 \<or> v = 1 \<or> v = 2 \<or> v = 3" using that by linarith
    ultimately show ?thesis using len node by (elim disjE) (auto simp: feeds_def)
  qed
  have two: "u = 0 \<or> u = 1" if "u < 2" for u :: nat using that by linarith
  have four: "v = 0 \<or> v = 1 \<or> v = 2 \<or> v = 3" if "v < 4" for v :: nat using that by linarith
  have "linked ?g" unfolding linked_def len
  proof (intro conjI allI impI ballI)
    show "length (g_users ?g) = 4" by code_simp
    show "count_list (g_users ?g ! v) u = count_list (n_inputs (g_nodes ?g ! u)) v" if "v < 4" "u < 2" for v u
      using two [OF that(2)] four [OF that(1)] node by (elim disjE) (simp_all add: out_of_order_users)
    show "v < 4" if "u < 2" "v \<in> set (n_inputs (g_nodes ?g ! u))" for u v
      using two [OF that(1)] that(2) node by (elim disjE) simp_all
    show "n_results (g_nodes ?g ! p) = [v]" if "v < 4" "feeds ?g p v" for p v
      using that(2) node unfolding fd [OF that(1)] by auto
    show "v < 4" if "p < 2" "v \<in> set (n_results (g_nodes ?g ! p))" for p v
      using two [OF that(1)] that(2) node by (elim disjE) simp_all
    show "feeds ?g p v" if "p < 2" "v \<in> set (n_results (g_nodes ?g ! p))" for p v
      using two [OF that(1)] that(2) node fd [of v p] by (elim disjE) simp_all
  qed
  moreover have "\<forall>n \<in> set (g_nodes ?g). \<not> node_dead n" by code_simp
  moreover have "\<forall>i < length (g_nodes ?g). n_id (g_nodes ?g ! i) = i"
    using two node by (metis len(1))
  moreover have "1 - p < (1 - u :: nat)" if "u < length (g_nodes ?g)" "v \<in> set (n_inputs (g_nodes ?g ! u))" "feeds ?g p v" for u v p
    using two [of u] that(1,2) that(3) len node fd [of v p] by (auto elim!: disjE)
  ultimately obtain moved g' where g': "renumberTopological ?g = Inr (moved, g')"
    "mset (map (\<lambda>n. n\<lparr>n_id := 0\<rparr>) (g_nodes g')) = mset (map (\<lambda>n. n\<lparr>n_id := 0\<rparr>) (g_nodes ?g))"
    using renumber_sorts [of ?g "\<lambda>u. 1 - u"] by blast
  have "(case renumberTopological ?g of Inl e \<Rightarrow> None | Inr (m, h) \<Rightarrow> Some (m, map n_inputs (g_nodes h))) = Some (2, [[0], [3]])"
    by code_simp
  with g' show ?thesis by auto
qed

text \<open>
  Renumbering duplicates dead nodes: they are appended as dead and once more as never placed, so
  with at least one dead node every call changes the graph and stores each dead node twice. The
  number of dead nodes doubles with every call.
\<close>
theorem renumber_duplicates_dead:
  assumes "renumberTopological g = Inr (moved, g')" and "\<exists>n \<in> set (g_nodes g). node_dead n"
  shows "0 < moved \<and> length (g_nodes g') = length (g_nodes g) + length (filter node_dead (g_nodes g))"
proof -
  obtain order where o: "new_order g = Inr order" using assms(1) by (auto simp: renumberTopological_def mlk_try_Inr_iff)
  have "filter node_dead (g_nodes g) \<noteq> []" using assms(2) by (auto simp: filter_empty_conv)
  then have "length (g_nodes g) < length order" using new_order_length(1) [OF o] by simp
  with last_in_place [OF assms(1) o] new_order_length [OF o] show ?thesis by simp
qed

text \<open>One live and one dead node become one live and two dead ones.\<close>

definition one_dead :: math_graph where
  "one_dead = (case killNode 0 out_of_order of Inl e \<Rightarrow> out_of_order | Inr (b, g) \<Rightarrow> g)"

lemma renumber_duplicates_dead_witness:
  "\<exists>moved g'. renumberTopological one_dead = Inr (moved, g') \<and> length (g_nodes one_dead) = 2 \<and> length (g_nodes g') = 3"
proof -
  have "(case renumberTopological one_dead of Inl e \<Rightarrow> False | Inr _ \<Rightarrow> True)" by code_simp
  then obtain moved g' where run: "renumberTopological one_dead = Inr (moved, g')" by (auto split: sum.splits)
  have "\<exists>n \<in> set (g_nodes one_dead). node_dead n" by code_simp
  moreover have "length (g_nodes one_dead) = 2 \<and> length (filter node_dead (g_nodes one_dead)) = 1" by code_simp
  ultimately show ?thesis using renumber_duplicates_dead [OF run] run by auto
qed

end
