(* ===== verification/Decimal.thy ===== *)
theory Decimal
  imports Float64
begin

text \<open>
  Numbers as text: the functions of the C library that \<open>json.cpp\<close> calls on them, which are
  \<open>strtoll\<close>, \<open>strtod\<close> and the conversions \<open>%lld\<close> and \<open>%.17g\<close> of \<open>printf\<close>, on the characters of a JSON number
  (digits, signs, point and exponent letters). Conversions are exact with one rounding to nearest,
  as the standard asks. Seventeen significant digits identify a number: \<open>strtod\<close> reads back what
  \<open>%.17g\<close> has printed.
\<close>

section \<open>Digits\<close>

definition is_digit :: "char \<Rightarrow> bool" where "is_digit c \<longleftrightarrow> c \<in> set ''0123456789''"
definition digit_val :: "char \<Rightarrow> int" where "digit_val c = of_char c - 48"
definition digit_char :: "int \<Rightarrow> char" where "digit_char d = ''0123456789'' ! nat d"

definition num :: "string \<Rightarrow> int" where "num s = foldl (\<lambda>a c. 10 * a + digit_val c) 0 s"

function show_pos :: "int \<Rightarrow> string" where
  "show_pos n = (if n < 10 then [digit_char n] else show_pos (n div 10) @ [digit_char (n mod 10)])"
  by auto
termination by (relation "measure nat") auto

declare show_pos.simps [simp del]

definition show_int :: "int \<Rightarrow> string" where
  "show_int i = (if i < 0 then CHR ''-'' # show_pos (- i) else show_pos i)"

lemma digit_cases: "0 \<le> (d :: int) \<Longrightarrow> d < 10 \<Longrightarrow> d \<in> {0, 1, 2, 3, 4, 5, 6, 7, 8, 9}" by simp presburger

lemma digit_char_props:
  assumes "0 \<le> d" "d < 10"
  shows "is_digit (digit_char d)" "digit_val (digit_char d) = d" "digit_char d = CHR ''0'' \<longleftrightarrow> d = 0"
proof -
  have "is_digit (digit_char d) \<and> digit_val (digit_char d) = d \<and> (digit_char d = CHR ''0'' \<longleftrightarrow> d = 0)"
    using digit_cases [OF assms]
    by (auto simp: digit_char_def is_digit_def digit_val_def nth_Cons numeral_eq_Suc)
  then show "is_digit (digit_char d)" "digit_val (digit_char d) = d" "digit_char d = CHR ''0'' \<longleftrightarrow> d = 0" by blast+
qed

lemma num_simps [simp]: "num [] = 0" "num [c] = digit_val c" by (simp_all add: num_def)

lemma num_from: "foldl (\<lambda>a c. 10 * a + digit_val c) k s = k * 10 ^ length s + num s"
proof (induction s arbitrary: k)
  case (Cons c s)
  show ?case using Cons [of "10 * k + digit_val c"] Cons [of "digit_val c"] by (simp add: num_def algebra_simps)
qed simp

lemma num_append: "num (s @ t) = num s * 10 ^ length t + num t"
  using num_from [of "num s" t] by (simp add: num_def)

lemma num_Cons: "num (c # s) = digit_val c * 10 ^ length s + num s"
  using num_append [of "[c]" s] by simp

lemma digit_val_zero [simp]: "digit_val CHR ''0'' = 0" by (simp add: digit_val_def)

lemma num_zeros [simp]: "num (replicate n CHR ''0'' @ s) = num s"
  by (induction n) (simp_all add: num_Cons)

lemma show_pos_props:
  assumes "0 \<le> n"
  shows "num (show_pos n) = n \<and> list_all is_digit (show_pos n) \<and> show_pos n \<noteq> [] \<and> n < 10 ^ length (show_pos n)
    \<and> (0 < n \<longrightarrow> 10 ^ (length (show_pos n) - 1) \<le> n \<and> hd (show_pos n) \<noteq> CHR ''0'')"
  using assms
proof (induction n rule: show_pos.induct)
  case (1 n)
  show ?case
  proof (cases "n < 10")
    case True
    then show ?thesis using 1(2) digit_char_props [of n] by (simp add: show_pos.simps [of n])
  next
    case False
    let ?s = "show_pos (n div 10)" and ?d = "digit_char (n mod 10)"
    note d = digit_char_props [of "n mod 10"]
    have IH: "num ?s = n div 10" "list_all is_digit ?s" "?s \<noteq> []" "n div 10 < 10 ^ length ?s"
      "10 ^ (length ?s - 1) \<le> n div 10" "hd ?s \<noteq> CHR ''0''" using 1(1) False 1(2) by auto
    have eq: "show_pos n = ?s @ [?d]" using False by (simp add: show_pos.simps [of n])
    have "n < 10 ^ length (show_pos n)" using IH(4) by (simp add: eq)
    moreover have "10 ^ length ?s = 10 * (10 :: int) ^ (length ?s - 1)" using IH(3) by (cases ?s) auto
    then have "10 ^ (length (show_pos n) - 1) \<le> n" using IH(5) by (simp add: eq)
    ultimately show ?thesis using IH d by (simp add: eq num_append)
  qed
qed

lemmas show_pos_num = show_pos_props [THEN conjunct1]
lemmas show_pos_digits = show_pos_props [THEN conjunct2, THEN conjunct1]
lemmas show_pos_nonempty = show_pos_props [THEN conjunct2, THEN conjunct2, THEN conjunct1]

lemma show_pos_length:
  assumes "0 < n"
  shows "(10 :: rat) powi (int (length (show_pos n)) - 1) \<le> of_int n" "(of_int n :: rat) < 10 powi int (length (show_pos n))"
proof -
  note p = show_pos_props [of n]
  have "10 ^ (length (show_pos n) - 1) \<le> n" "n < 10 ^ length (show_pos n)" using p assms by auto
  then have r: "(of_int (10 ^ (length (show_pos n) - 1)) :: rat) \<le> of_int n" "(of_int n :: rat) < of_int (10 ^ length (show_pos n))"
    by (simp_all only: of_int_le_iff of_int_less_iff)
  have e: "int (length (show_pos n)) - 1 = int (length (show_pos n) - 1)" using p assms by (cases "show_pos n") auto
  show "(10 :: rat) powi (int (length (show_pos n)) - 1) \<le> of_int n" unfolding e using r(1) by (simp only: power_int_of_nat of_int_power of_int_numeral)
  show "(of_int n :: rat) < 10 powi int (length (show_pos n))" using r(2) by (simp only: power_int_of_nat of_int_power of_int_numeral)
qed

section \<open>Reading\<close>

definition sign_of :: "string \<Rightarrow> bool \<times> string" where
  "sign_of s = (case s of [] \<Rightarrow> (False, []) | c # t \<Rightarrow> if c = CHR ''-'' then (True, t) else if c = CHR ''+'' then (False, t) else (False, s))"

definition with_sign :: "bool \<Rightarrow> 'a \<Rightarrow> 'a :: uminus" where "with_sign neg x = (if neg then - x else x)"

text \<open>The value, the text that is left, and whether the value left the range.\<close>

definition strtoll :: "string \<Rightarrow> int \<times> string \<times> bool" where
  "strtoll s = (let (neg, t) = sign_of s; ds = takeWhile is_digit t; v = with_sign neg (num ds) in
     if ds = [] then (0, s, False)
     else (max INT64_MIN (min INT64_MAX v), dropWhile is_digit t, \<not> in_i64 v))"

definition exponent_of :: "string \<Rightarrow> int \<times> string" where
  "exponent_of s = (case s of [] \<Rightarrow> (0, []) | c # t \<Rightarrow>
     if c = CHR ''e'' \<or> c = CHR ''E'' then
       (let (neg, u) = sign_of t; ds = takeWhile is_digit u in
        if ds = [] then (0, s) else (with_sign neg (num ds), dropWhile is_digit u))
     else (0, s))"

definition point_of :: "string \<Rightarrow> string \<times> string" where
  "point_of s = (case s of [] \<Rightarrow> ([], []) | c # t \<Rightarrow>
     if c = CHR ''.'' then (takeWhile is_digit t, dropWhile is_digit t) else ([], s))"

definition strtod :: "string \<Rightarrow> f64 \<times> string" where
  "strtod s = (let (neg, t) = sign_of s; ip = takeWhile is_digit t; (fp, u) = point_of (dropWhile is_digit t) in
     if ip = [] \<and> fp = [] then (0, s)
     else let (e, r) = exponent_of u in
       (f64_round neg (with_sign neg (of_int (num (ip @ fp)) * 10 powi (e - int (length fp)))), r))"

section \<open>Printing\<close>

text \<open>The exponent of the leading digit of a positive number.\<close>

definition ilog10 :: "rat \<Rightarrow> int" where
  "ilog10 a = (let (n, d) = quotient_of a; e = int (length (show_pos n)) - int (length (show_pos d)) in if 10 powi e \<le> a then e else e - 1)"

definition decimal17 :: "rat \<Rightarrow> int \<times> int" where
  "decimal17 a = (let e = ilog10 a; m = round_half_even (a / 10 powi (e - 16)) in if m = 10 ^ 17 then (10 ^ 16, e + 1) else (m, e))"

definition strip_zeros :: "string \<Rightarrow> string" where "strip_zeros s = rev (dropWhile (\<lambda>c. c = CHR ''0'') (rev s))"

definition with_point :: "string \<Rightarrow> string" where "with_point s = (if s = [] then [] else CHR ''.'' # s)"

definition show_exp :: "int \<Rightarrow> string" where
  "show_exp x = (let s = show_pos \<bar>x\<bar> in (if x < 0 then CHR ''-'' else CHR ''+'') # (if length s < 2 then CHR ''0'' # s else s))"

text \<open>\<open>%.17g\<close> of a finite number.\<close>

definition show_mag :: "rat \<Rightarrow> string" where
  "show_mag a = (let (m, x) = decimal17 a; ds = show_pos m in
     if x < - 4 \<or> 17 \<le> x then take 1 ds @ with_point (strip_zeros (drop 1 ds)) @ CHR ''e'' # show_exp x
     else if x < 0 then CHR ''0'' # with_point (replicate (nat (- x - 1)) CHR ''0'' @ strip_zeros ds)
     else take (nat x + 1) ds @ with_point (strip_zeros (drop (nat x + 1) ds)))"

definition show_double :: "f64 \<Rightarrow> string" where
  "show_double d = (if f64_neg_sign d then ''-'' else []) @ (if f64_zero d then ''0'' else show_mag (f64_abs d))"

end
