(* ===== verification/Json.thy ===== *)
theory Json
  imports Decimal Map_Store
begin

text \<open>
  The documents of \<open>support/json.h\<close> with the parser and the serialiser of \<open>core/json.cpp\<close>. A position in
  the text is the text from that position on. The nesting that is left, 129 minus the depth of the
  source, is the recursion of the parser; its loops over the members of a container are partial
  functions, and \<open>json_parse_returns\<close> in \<open>Json_Laws\<close> says that they end.
\<close>

section \<open>Documents\<close>

datatype json =
    JNull | JBool bool | JInt int | JDouble f64 | JString string | JArray "json list" | JObject "(string \<times> json) list"

text \<open>Reading a member of the wrong kind throws, which is \<open>None\<close>.\<close>

definition asDouble :: "json \<Rightarrow> f64 option" where
  "asDouble v = (case v of JDouble d \<Rightarrow> Some d | JInt i \<Rightarrow> Some (f64_of_int i) | _ \<Rightarrow> None)"

definition find_member :: "string \<Rightarrow> json \<Rightarrow> json option" where
  "find_member key v = (case v of JObject ms \<Rightarrow> map_of ms key | _ \<Rightarrow> None)"

fun set_in :: "string \<Rightarrow> json \<Rightarrow> (string \<times> json) list \<Rightarrow> (string \<times> json) list" where
  "set_in key v [] = [(key, v)]"
| "set_in key v ((k, w) # ms) = (if k = key then (k, v) # ms else (k, w) # set_in key v ms)"

definition set_member :: "string \<Rightarrow> json \<Rightarrow> json \<Rightarrow> json" where
  "set_member key v d = JObject (set_in key v (case d of JObject ms \<Rightarrow> ms | _ \<Rightarrow> []))"

definition push_item :: "json \<Rightarrow> json \<Rightarrow> json" where
  "push_item v d = JArray ((case d of JArray xs \<Rightarrow> xs | _ \<Rightarrow> []) @ [v])"

section \<open>Tokens\<close>

definition is_ws :: "char \<Rightarrow> bool" where
  "is_ws c \<longleftrightarrow> c = CHR '' '' \<or> c = CHR 0x09 \<or> c = CHR 0x0A \<or> c = CHR 0x0D"

definition skipWs :: "string \<Rightarrow> string" where "skipWs s = dropWhile is_ws s"

definition parse_error :: "'a result" where "parse_error = Inl (Err ParseError)"

definition match_word :: "string \<Rightarrow> json \<Rightarrow> string \<Rightarrow> (json \<times> string) result" where
  "match_word kw v s = (if take (length kw) s = kw then Inr (v, drop (length kw) s) else parse_error)"

definition double_char :: "char \<Rightarrow> bool" where "double_char c \<longleftrightarrow> c = CHR ''.'' \<or> c = CHR ''e'' \<or> c = CHR ''E''"
definition sign_char :: "char \<Rightarrow> bool" where "sign_char c \<longleftrightarrow> c = CHR ''-'' \<or> c = CHR ''+''"
definition number_char :: "char \<Rightarrow> bool" where "number_char c \<longleftrightarrow> is_digit c \<or> double_char c \<or> sign_char c"

definition number_text :: "string \<Rightarrow> string" where
  "number_text s = (case s of [] \<Rightarrow> [] | c # t \<Rightarrow> if sign_char c then c # takeWhile number_char t else takeWhile number_char s)"

definition parseNumber :: "string \<Rightarrow> (json \<times> string) result" where
  "parseNumber s = (let t = number_text s; r = drop (length t) s in
     if t = [] then parse_error
     else if list_ex double_char t then
       (let (v, e) = strtod t in if e \<noteq> [] then parse_error else Inr (JDouble v, r))
     else (let (v, e, erange) = strtoll t in
       if e \<noteq> [] \<or> erange then Inr (JDouble (fst (strtod t)), r) else Inr (JInt v, r)))"

text \<open>Escapes: a code point below \<open>0x10000\<close> as UTF-8.\<close>

definition utf8 :: "int \<Rightarrow> string" where
  "utf8 code = (if code < 0x80 then [char_of code]
     else if code < 0x800 then [char_of (0xC0 + code div 64), char_of (0x80 + code mod 64)]
     else [char_of (0xE0 + code div 4096), char_of (0x80 + code div 64 mod 64), char_of (0x80 + code mod 64)])"

definition hex_val :: "char \<Rightarrow> int option" where
  "hex_val h = (let n = of_char h :: int in
     if 48 \<le> n \<and> n \<le> 57 then Some (n - 48) else if 97 \<le> n \<and> n \<le> 102 then Some (n - 87)
     else if 65 \<le> n \<and> n \<le> 70 then Some (n - 55) else None)"

fun hex_code :: "string \<Rightarrow> int \<Rightarrow> int result" where
  "hex_code [] code = Inr code"
| "hex_code (h # hs) code = (case hex_val h of None \<Rightarrow> parse_error | Some d \<Rightarrow> hex_code hs (16 * code + d))"

definition simple_escape :: "char \<Rightarrow> char option" where
  "simple_escape e =
     (if e = CHR 0x22 then Some (CHR 0x22) else if e = CHR 0x5C then Some (CHR 0x5C) else if e = CHR ''/'' then Some (CHR ''/'')
      else if e = CHR ''b'' then Some (CHR 0x08) else if e = CHR ''f'' then Some (CHR 0x0C) else if e = CHR ''n'' then Some (CHR 0x0A)
      else if e = CHR ''r'' then Some (CHR 0x0D) else if e = CHR ''t'' then Some (CHR 0x09) else None)"

text \<open>The characters after the opening quote.\<close>

function string_loop :: "string \<Rightarrow> string \<Rightarrow> (string \<times> string) result" where
  "string_loop [] out = parse_error"
| "string_loop (c # s) out =
     (if c = CHR 0x22 then Inr (out, s)
      else if c = CHR 0x5C then
        (case s of [] \<Rightarrow> parse_error
         | e # t \<Rightarrow>
           if e = CHR ''u'' then
             (if length t < 4 then parse_error
              else mlk_try (hex_code (take 4 t) 0) (\<lambda>code. string_loop (drop 4 t) (out @ utf8 code)))
           else (case simple_escape e of None \<Rightarrow> parse_error | Some x \<Rightarrow> string_loop t (out @ [x])))
      else string_loop s (out @ [c]))"
  by pat_completeness auto
termination by (relation "measure (length \<circ> fst)") auto

definition parseString :: "string \<Rightarrow> (string \<times> string) result" where
  "parseString s = (case s of [] \<Rightarrow> parse_error | c # t \<Rightarrow> if c = CHR 0x22 then string_loop t [] else parse_error)"

section \<open>Parser\<close>

type_synonym parser = "string \<Rightarrow> (json \<times> string) result option"

partial_function (option) array_loop :: "parser \<Rightarrow> json list \<Rightarrow> string \<Rightarrow> (json \<times> string) result option" where
  "array_loop p arr s = (case p s of None \<Rightarrow> None | Some (Inl e) \<Rightarrow> Some (Inl e)
     | Some (Inr (item, r)) \<Rightarrow> (case skipWs r of [] \<Rightarrow> Some parse_error
         | c # u \<Rightarrow> if c = CHR '','' then array_loop p (arr @ [item]) (skipWs u)
             else if c = CHR '']'' then Some (Inr (JArray (arr @ [item]), u)) else Some parse_error))"

definition parseArray :: "parser \<Rightarrow> parser" where
  "parseArray p s = (let t = skipWs s in
     if t \<noteq> [] \<and> hd t = CHR '']'' then Some (Inr (JArray [], tl t)) else array_loop p [] t)"

partial_function (option) object_loop :: "parser \<Rightarrow> (string \<times> json) list \<Rightarrow> string \<Rightarrow> (json \<times> string) result option" where
  "object_loop p obj s = (case parseString (skipWs s) of Inl e \<Rightarrow> Some (Inl e)
     | Inr (key, r) \<Rightarrow> (case skipWs r of [] \<Rightarrow> Some parse_error
       | c # t \<Rightarrow> if c \<noteq> CHR '':'' then Some parse_error
           else (case p t of None \<Rightarrow> None | Some (Inl e) \<Rightarrow> Some (Inl e)
             | Some (Inr (v, r')) \<Rightarrow> (case skipWs r' of [] \<Rightarrow> Some parse_error
                 | d # u \<Rightarrow> if d = CHR '','' then object_loop p (obj @ [(key, v)]) u
                     else if d = CHR ''}'' then Some (Inr (JObject (obj @ [(key, v)]), u)) else Some parse_error))))"

declare array_loop.simps [code] object_loop.simps [code]

definition parseObject :: "parser \<Rightarrow> parser" where
  "parseObject p s = (let t = skipWs s in
     if t \<noteq> [] \<and> hd t = CHR ''}'' then Some (Inr (JObject [], tl t)) else object_loop p [] t)"

primrec parseValue :: "nat \<Rightarrow> parser" where
  "parseValue 0 s = Some parse_error"
| "parseValue (Suc k) s = (case skipWs s of [] \<Rightarrow> Some parse_error
     | c # t \<Rightarrow>
       if c = CHR ''{'' then parseObject (parseValue k) t
       else if c = CHR ''['' then parseArray (parseValue k) t
       else if c = CHR 0x22 then Some (mlk_try (parseString (c # t)) (\<lambda>(x, r). Inr (JString x, r)))
       else if c = CHR ''t'' then Some (match_word ''true'' (JBool True) (c # t))
       else if c = CHR ''f'' then Some (match_word ''false'' (JBool False) (c # t))
       else if c = CHR ''n'' then Some (match_word ''null'' JNull (c # t))
       else Some (parseNumber (c # t)))"

definition json_parse :: "string \<Rightarrow> json result option" where
  "json_parse text = then_call (parseValue 129 (skipWs text)) (\<lambda>(v, r). Some (if skipWs r \<noteq> [] then parse_error else Inr v))"

section \<open>Serialiser\<close>

definition hex_digit :: "int \<Rightarrow> char" where "hex_digit d = ''0123456789abcdef'' ! nat d"

definition escape_char :: "char \<Rightarrow> string" where
  "escape_char c =
     (if c = CHR 0x22 then [CHR 0x5C, CHR 0x22] else if c = CHR 0x5C then [CHR 0x5C, CHR 0x5C]
      else if c = CHR 0x08 then [CHR 0x5C, CHR ''b''] else if c = CHR 0x0C then [CHR 0x5C, CHR ''f'']
      else if c = CHR 0x0A then [CHR 0x5C, CHR ''n''] else if c = CHR 0x0D then [CHR 0x5C, CHR ''r'']
      else if c = CHR 0x09 then [CHR 0x5C, CHR ''t'']
      else let n = of_char c :: int in
        if n < 0x20 then [CHR 0x5C, CHR ''u'', CHR ''0'', CHR ''0'', hex_digit (n div 16), hex_digit (n mod 16)] else [c])"

definition escape_string :: "string \<Rightarrow> string" where
  "escape_string s = CHR 0x22 # concat (map escape_char s) @ [CHR 0x22]"

definition serializeDouble :: "f64 \<Rightarrow> string" where
  "serializeDouble d =
     (if f64_nan d then ''null'' else if f64_inf d then (if f64_neg_sign d then ''-1e308'' else ''1e308'') else show_double d)"

definition json_newline :: "int \<Rightarrow> nat \<Rightarrow> string" where
  "json_newline indent level = (if 0 \<le> indent then CHR 0x0A # concat (replicate level ''  '') else [])"

definition kMaxDepth :: nat where "kMaxDepth = 128"

fun serializeImpl :: "int \<Rightarrow> nat \<Rightarrow> json \<Rightarrow> string"
and ser_items :: "int \<Rightarrow> nat \<Rightarrow> bool \<Rightarrow> json list \<Rightarrow> string"
and ser_members :: "int \<Rightarrow> nat \<Rightarrow> bool \<Rightarrow> (string \<times> json) list \<Rightarrow> string" where
  "serializeImpl indent depth v =
     (if kMaxDepth < depth then []
      else case v of
        JNull \<Rightarrow> ''null''
      | JBool b \<Rightarrow> if b then ''true'' else ''false''
      | JInt i \<Rightarrow> show_int i
      | JDouble d \<Rightarrow> serializeDouble d
      | JString s \<Rightarrow> escape_string s
      | JArray xs \<Rightarrow> if xs = [] then ''[]''
          else CHR ''['' # ser_items indent depth True xs @ json_newline indent depth @ '']''
      | JObject ms \<Rightarrow> if ms = [] then ''{}''
          else CHR ''{'' # ser_members indent depth True ms @ json_newline indent depth @ ''}'')"
| "ser_items indent depth first [] = []"
| "ser_items indent depth first (x # xs) = (if first then [] else '','') @ json_newline indent (depth + 1)
     @ serializeImpl indent (depth + 1) x @ ser_items indent depth False xs"
| "ser_members indent depth first [] = []"
| "ser_members indent depth first ((k, x) # ms) = (if first then [] else '','') @ json_newline indent (depth + 1)
     @ escape_string k @ '':'' @ (if 0 \<le> indent then '' '' else []) @ serializeImpl indent (depth + 1) x @ ser_members indent depth False ms"

definition serialize :: "json \<Rightarrow> string" where "serialize v = serializeImpl (- 1) 0 v"

definition serializePretty :: "json \<Rightarrow> string" where "serializePretty v = serializeImpl 2 0 v @ [CHR 0x0A]"

declare serializeImpl.simps [simp del]

end
