(* ===== verification/Graph_Json.thy ===== *)
theory Graph_Json
  imports Json Math_Graph
begin

text \<open>
  Graph files: the name tables of \<open>ir/names.cpp\<close> and the writer and the loader of \<open>ir/graph_json.cpp\<close>.
  The symbol table of the source is shared by the graph and the loader; here it is the one of the
  graph. The loader keeps the map from file ids to values in a hash table.
\<close>

section \<open>Names\<close>

fun domainName :: "domain \<Rightarrow> string" where
  "domainName Dom_Unknown = ''unknown''" | "domainName Dom_Symbolic = ''symbolic''" | "domainName Dom_Bool = ''bool''"
| "domainName Dom_Int = ''int''" | "domainName Dom_Float = ''float''" | "domainName Dom_Complex = ''complex''"
| "domainName Dom_Real = ''real''" | "domainName Dom_Function = ''function''" | "domainName Dom_Operator = ''operator''"
| "domainName Dom_Set = ''set''" | "domainName Dom_Sequence = ''sequence''" | "domainName Dom_Distribution = ''distribution''"

fun dtypeName :: "dtype \<Rightarrow> string" where
  "dtypeName Dt_None = ''none''" | "dtypeName Dt_Bool1 = ''bool''" | "dtypeName Dt_I8 = ''i8''" | "dtypeName Dt_I16 = ''i16''"
| "dtypeName Dt_I32 = ''i32''" | "dtypeName Dt_I64 = ''i64''" | "dtypeName Dt_U8 = ''u8''" | "dtypeName Dt_U16 = ''u16''"
| "dtypeName Dt_U32 = ''u32''" | "dtypeName Dt_U64 = ''u64''" | "dtypeName Dt_F16 = ''f16''" | "dtypeName Dt_BF16 = ''bf16''"
| "dtypeName Dt_F32 = ''f32''" | "dtypeName Dt_F64 = ''f64''" | "dtypeName Dt_C64 = ''c64''" | "dtypeName Dt_C128 = ''c128''"

fun algebraicClassName :: "algebraic_class \<Rightarrow> string" where
  "algebraicClassName Alg_Unknown = ''unknown''" | "algebraicClassName ScalarField = ''scalar_field''"
| "algebraicClassName VectorSpace = ''vector_space''" | "algebraicClassName MatrixAlgebra = ''matrix_algebra''"
| "algebraicClassName TensorAlgebra = ''tensor_algebra''" | "algebraicClassName PolynomialRing = ''polynomial_ring''"
| "algebraicClassName AbstractRing = ''abstract_ring''" | "algebraicClassName AbstractGroup = ''abstract_group''"

fun differentiabilityName :: "differentiability \<Rightarrow> string" where
  "differentiabilityName Diff_Unknown = ''unknown''" | "differentiabilityName NonDifferentiable = ''non_differentiable''"
| "differentiabilityName PiecewiseDifferentiable = ''piecewise_differentiable''"
| "differentiabilityName Diff_Differentiable = ''differentiable''" | "differentiabilityName Smooth = ''smooth''"
| "differentiabilityName Analytic = ''analytic''"

fun valueKindName :: "value_kind \<Rightarrow> string" where
  "valueKindName Constant = ''constant''" | "valueKindName Variable = ''variable''" | "valueKindName Placeholder = ''placeholder''"
| "valueKindName NodeResult = ''node_result''" | "valueKindName Symbol = ''symbol''"

fun propertyName :: "property_id \<Rightarrow> string" where
  "propertyName Commutative = ''commutative''" | "propertyName Associative = ''associative''"
| "propertyName Distributive = ''distributive''" | "propertyName Idempotent = ''idempotent''"
| "propertyName HasIdentity = ''has_identity''" | "propertyName MonotonicIncreasing = ''monotonic_increasing''"
| "propertyName MonotonicDecreasing = ''monotonic_decreasing''" | "propertyName Periodic = ''periodic''"
| "propertyName P_Differentiable = ''differentiable''" | "propertyName Invertible = ''invertible''"
| "propertyName Positive = ''positive''" | "propertyName NonNegative = ''non_negative''" | "propertyName Bounded = ''bounded''"
| "propertyName Sparse = ''sparse''" | "propertyName Symmetric = ''symmetric''" | "propertyName Contiguous = ''contiguous''"
| "propertyName Pure = ''pure''" | "propertyName IntegerValued = ''integer_valued''"

text \<open>Comparison with \<open>strcmp\<close> ends at the first null character.\<close>

definition c_str :: "string \<Rightarrow> string" where "c_str s = takeWhile (\<lambda>c. c \<noteq> CHR 0x00) s"

definition propertyByName :: "string \<Rightarrow> property_id option" where
  "propertyByName name = find (\<lambda>p. propertyName p = name) all_properties"

section \<open>Writer\<close>

definition json_object :: "(string \<times> json) list \<Rightarrow> json" where
  "json_object kvs = fold (\<lambda>(k, v) d. set_member k v d) kvs (JObject [])"

definition json_array :: "json list \<Rightarrow> json" where "json_array xs = fold push_item xs (JArray [])"

definition json_id :: "nat \<Rightarrow> json" where "json_id i = JInt (int i)"

definition shapeToJson :: "int list \<Rightarrow> json" where "shapeToJson ds = json_array (map JInt ds)"

definition factToJson :: "fact \<Rightarrow> json" where
  "factToJson f = json_object ([(''property'', JString (propertyName (fact_property f))),
      (''value'', JString (case fact_value f of T_True \<Rightarrow> ''true'' | T_False \<Rightarrow> ''false'' | T_Unknown \<Rightarrow> ''unknown''))]
    @ (if fact_property f = Bounded then [(''range_low'', JDouble (iv_low (fact_range f))), (''range_high'', JDouble (iv_high (fact_range f)))] else [])
    @ (if fact_property f = Periodic then [(''period'', JDouble (fact_period f))] else []))"

definition factsToJson :: "fact_set \<Rightarrow> json" where "factsToJson fs = json_array (map factToJson fs)"

definition typeToJson :: "math_type \<Rightarrow> json" where
  "typeToJson t = json_object ([(''domain'', JString (domainName (mt_domain t))), (''dtype'', JString (dtypeName (mt_dtype t))),
      (''algebra'', JString (algebraicClassName (mt_algebra t))), (''diff'', JString (differentiabilityName (mt_diff t)))]
    @ (case mt_shape t of None \<Rightarrow> [] | Some s \<Rightarrow> [(''shape'', shapeToJson s)]))"

definition valueToJson :: "string list \<Rightarrow> gvalue \<Rightarrow> json result" where
  "valueToJson pool v =
     mlk_try (case v_name v of None \<Rightarrow> Inr [] | Some s \<Rightarrow> mlk_try (vec_at pool s) (\<lambda>t. Inr [(''name'', JString t)])) (\<lambda>name.
     Inr (json_object ([(''id'', json_id (v_id v)), (''kind'', JString (valueKindName (v_kind v)))] @ name
       @ [(''type'', typeToJson (v_type v))]
       @ (if v_kind v = Constant then (if cp_isInt (v_constant v) then [(''int_value'', JInt (cp_i64 (v_constant v)))]
            else [(''float_value'', JDouble (cp_f64 (v_constant v)))]) else [])
       @ (if v_facts v \<noteq> [] then [(''facts'', factsToJson (v_facts v))] else []))))"

definition nodeToJson :: "gnode \<Rightarrow> json" where
  "nodeToJson n = json_object [(''id'', json_id (n_id n)), (''op'', JString (opName (n_op n))),
     (''inputs'', json_array (map json_id (n_inputs n))), (''dead'', JBool (node_dead n))]"

definition kGraphFileFormatVersion :: int where "kGraphFileFormatVersion = 1"

definition graphToJson :: "math_graph \<Rightarrow> json result" where
  "graphToJson g = mlk_try (map_res (valueToJson (g_symbols g)) (g_values g)) (\<lambda>vals.
     Inr (json_object [(''format'', JString ''mlk-graph''), (''version'', JInt kGraphFileFormatVersion), (''values'', json_array vals),
       (''nodes'', json_array (map nodeToJson (g_nodes g))), (''outputs'', json_array (map json_id (g_outputs g)))]))"

section \<open>Loader\<close>

definition file_hash :: "int \<Rightarrow> nat" where "file_hash v = unat (hashU64 (word_of_int v))"

type_synonym id_map = "(int, nat) hash_map"

definition find_string :: "string \<Rightarrow> json \<Rightarrow> string option" where
  "find_string key v = (case find_member key v of Some (JString s) \<Rightarrow> Some s | _ \<Rightarrow> None)"

definition find_int :: "string \<Rightarrow> json \<Rightarrow> int option" where
  "find_int key v = (case find_member key v of Some (JInt i) \<Rightarrow> Some i | _ \<Rightarrow> None)"

definition find_array :: "string \<Rightarrow> json \<Rightarrow> json list option" where
  "find_array key v = (case find_member key v of Some (JArray xs) \<Rightarrow> Some xs | _ \<Rightarrow> None)"

definition as_int :: "json \<Rightarrow> int result" where "as_int d = (case d of JInt i \<Rightarrow> Inr i | _ \<Rightarrow> parse_error)"

definition shapeFromJson :: "json \<Rightarrow> int list result" where
  "shapeFromJson v = (case v of JArray ds \<Rightarrow> map_res as_int ds | _ \<Rightarrow> parse_error)"

text \<open>An unknown or missing name leaves the field of a new type.\<close>

definition named :: "('a \<Rightarrow> string) \<Rightarrow> 'a list \<Rightarrow> 'a \<Rightarrow> string option \<Rightarrow> 'a" where
  "named f all dflt s = (case s of None \<Rightarrow> dflt | Some n \<Rightarrow> (case find (\<lambda>x. f x = c_str n) all of None \<Rightarrow> dflt | Some x \<Rightarrow> x))"

definition load_type :: "json \<Rightarrow> math_type result" where
  "load_type vo = (case find_member ''type'' vo of None \<Rightarrow> Inr new_type | Some tv \<Rightarrow>
     let t = new_type\<lparr>mt_domain := named domainName all_domains Dom_Unknown (find_string ''domain'' tv),
                      mt_dtype := named dtypeName all_dtypes Dt_None (find_string ''dtype'' tv)\<rparr> in
     case find_member ''shape'' tv of None \<Rightarrow> Inr t | Some sh \<Rightarrow> mlk_try (shapeFromJson sh) (\<lambda>s. Inr (t\<lparr>mt_shape := Some s\<rparr>)))"

definition load_name :: "json \<Rightarrow> math_graph \<Rightarrow> nat option \<times> math_graph" where
  "load_name vo g = (case find_string ''name'' vo of None \<Rightarrow> (None, g) | Some s \<Rightarrow> let (i, g') = graph_intern s g in (Some i, g'))"

text \<open>The construction calls of the graph, with a name that may be invalid.\<close>

definition leaf_value :: "value_kind \<Rightarrow> nat option \<Rightarrow> math_type \<Rightarrow> gvalue" where
  "leaf_value kind name ty = new_value\<lparr>v_kind := kind, v_name := name, v_type := ty\<rparr>"

definition load_constant :: "json \<Rightarrow> math_type \<Rightarrow> gvalue result" where
  "load_constant vo ty = (case find_int ''int_value'' vo of
     Some i \<Rightarrow> Inr (constant_value \<lparr>cp_isInt = True, cp_f64 = 0, cp_i64 = i\<rparr> ty)
   | None \<Rightarrow> (case find_member ''float_value'' vo of
       None \<Rightarrow> parse_error
     | Some fv \<Rightarrow> (case asDouble fv of None \<Rightarrow> parse_error
         | Some d \<Rightarrow> Inr (constant_value \<lparr>cp_isInt = False, cp_f64 = d, cp_i64 = 0\<rparr> ty))))"

definition load_leaf :: "json \<Rightarrow> string \<Rightarrow> math_graph \<Rightarrow> (nat \<times> math_graph) result" where
  "load_leaf vo kind g = mlk_try (load_type vo) (\<lambda>ty. let (name, g1) = load_name vo g in
     if kind = ''placeholder'' then Inr (allocateValue (leaf_value Placeholder name ty) g1)
     else if kind = ''variable'' then Inr (allocateValue (leaf_value Variable name ty) g1)
     else if kind = ''symbol'' then Inr (allocateValue (leaf_value Symbol name ty) g1)
     else if kind = ''constant'' then mlk_try (load_constant vo ty) (\<lambda>v. Inr (allocateValue v g1))
     else parse_error)"

fun load_values :: "json list \<Rightarrow> int \<Rightarrow> id_map \<Rightarrow> math_graph \<Rightarrow> (id_map \<times> math_graph) result option" where
  "load_values [] expected m g = Some (Inr (m, g))"
| "load_values (vo # vs) expected m g =
     (if find_int ''id'' vo \<noteq> Some expected then Some parse_error
      else case find_string ''kind'' vo of
        None \<Rightarrow> Some parse_error
      | Some kind \<Rightarrow>
          if kind = ''node_result'' then load_values vs (expected + 1) m g
          else then_call (Some (load_leaf vo kind g)) (\<lambda>(vid, g').
            then_call (hm_put file_hash expected vid m) (\<lambda>m'. load_values vs (expected + 1) m' g')))"

definition resolveInput :: "id_map \<Rightarrow> json \<Rightarrow> nat result option" where
  "resolveInput m i = (case i of
     JInt fileId \<Rightarrow> then_call (hm_get file_hash fileId m) (\<lambda>v. Some (case v of None \<Rightarrow> parse_error | Some x \<Rightarrow> Inr x))
   | _ \<Rightarrow> Some parse_error)"

fun resolve_all :: "id_map \<Rightarrow> json list \<Rightarrow> nat list result option" where
  "resolve_all m [] = Some (Inr [])"
| "resolve_all m (i # is) = then_call (resolveInput m i) (\<lambda>v. then_call (resolve_all m is) (\<lambda>vs. Some (Inr (v # vs))))"

text \<open>The file id of a result: the values of kind \<open>node_result\<close> in file order, skipping \<open>seen\<close> of them.\<close>

fun result_file_id :: "json list \<Rightarrow> nat \<Rightarrow> int option" where
  "result_file_id [] seen = None"
| "result_file_id (vo # vs) seen =
     (if find_string ''kind'' vo = Some ''node_result'' then
        (case (seen, find_int ''id'' vo) of (0, Some i) \<Rightarrow> Some i | _ \<Rightarrow> if seen = 0 then None else result_file_id vs (seen - 1))
      else result_file_id vs seen)"

fun load_nodes :: "json list \<Rightarrow> json list \<Rightarrow> nat \<Rightarrow> id_map \<Rightarrow> math_graph \<Rightarrow> (id_map \<times> math_graph) result option" where
  "load_nodes vals [] k m g = Some (Inr (m, g))"
| "load_nodes vals (no # ns) k m g =
     (case find_string ''op'' no of
        None \<Rightarrow> Some parse_error
      | Some name \<Rightarrow> (case opByName (c_str name) of
          None \<Rightarrow> Some parse_error
        | Some op \<Rightarrow> (case find_array ''inputs'' no of
            None \<Rightarrow> Some parse_error
          | Some ins \<Rightarrow> then_call (resolve_all m ins) (\<lambda>inputs.
              then_call (Some (addNode op inputs [] g)) (\<lambda>(r, g').
                case result_file_id vals k of
                  None \<Rightarrow> Some parse_error
                | Some i \<Rightarrow> if i < 0 then Some parse_error
                    else then_call (hm_put file_hash i r m) (\<lambda>m'. load_nodes vals ns (k + 1) m' g'))))))"

fun load_outputs :: "json list \<Rightarrow> id_map \<Rightarrow> math_graph \<Rightarrow> math_graph result option" where
  "load_outputs [] m g = Some (Inr g)"
| "load_outputs (i # is) m g = then_call (resolveInput m i) (\<lambda>v. load_outputs is m (addOutput v g))"

definition graphFromJson :: "json \<Rightarrow> string list \<Rightarrow> math_graph result option" where
  "graphFromJson doc pool =
     (if find_string ''format'' doc \<noteq> Some ''mlk-graph'' then Some parse_error
      else if find_int ''version'' doc \<noteq> Some kGraphFileFormatVersion then Some parse_error
      else case find_array ''values'' doc of
        None \<Rightarrow> Some parse_error
      | Some vals \<Rightarrow> then_call (load_values vals 0 hm_new (new_graph pool)) (\<lambda>(m, g).
          case find_array ''nodes'' doc of
            None \<Rightarrow> Some parse_error
          | Some nodes \<Rightarrow> then_call (load_nodes vals nodes 0 m g) (\<lambda>(m, g).
              case find_member ''outputs'' doc of
                None \<Rightarrow> Some (Inr g)
              | Some (JArray outs) \<Rightarrow> load_outputs outs m g
              | Some _ \<Rightarrow> Some parse_error)))"

end
