(* ===== verification/Decimal_Laws.thy ===== *)
theory Decimal_Laws
  imports Decimal
begin

text \<open>
  Reading inverts printing: the shape of a printed number, the error of seventeen digits, and the
  neighbourhood in which every real rounds to a given double.
\<close>

section \<open>Reading a number\<close>

lemma digits_span:
  assumes "list_all is_digit ds" and "r = [] \<or> \<not> is_digit (hd r)"
  shows "takeWhile is_digit (ds @ r) = ds" "dropWhile is_digit (ds @ r) = r"
  using assms by (auto simp: list_all_iff takeWhile_append dropWhile_append takeWhile_eq_all_conv dropWhile_eq_self_iff takeWhile_eq_Nil_iff)

lemma digits_all: "list_all is_digit ds \<Longrightarrow> takeWhile is_digit ds = ds" "list_all is_digit ds \<Longrightarrow> dropWhile is_digit ds = []"
  using digits_span [of ds "[]"] by auto

lemma not_digits: "\<not> is_digit CHR ''.''" "\<not> is_digit CHR ''e''" "\<not> is_digit CHR ''E''" "\<not> is_digit CHR ''-''" "\<not> is_digit CHR ''+''"
  by (simp_all add: is_digit_def)

lemma sign_of_digits: "ip \<noteq> [] \<Longrightarrow> list_all is_digit ip \<Longrightarrow> sign_of ((if neg then ''-'' else []) @ ip @ r) = (neg, ip @ r)"
  using not_digits by (cases ip) (auto simp: sign_of_def)

definition exp_text :: "int option \<Rightarrow> string" where "exp_text ex = (case ex of None \<Rightarrow> [] | Some x \<Rightarrow> CHR ''e'' # show_exp x)"
definition exp_of :: "int option \<Rightarrow> int" where "exp_of ex = (case ex of None \<Rightarrow> 0 | Some x \<Rightarrow> x)"

lemma exponent_of_text: "exponent_of (exp_text ex) = (exp_of ex, [])"
proof (cases ex)
  case (Some x)
  define D where "D = (let s = show_pos \<bar>x\<bar> in if length s < 2 then CHR ''0'' # s else s)"
  note p = show_pos_props [of "\<bar>x\<bar>"]
  have d: "list_all is_digit D" "num D = \<bar>x\<bar>" "D \<noteq> []" using p by (auto simp: D_def Let_def is_digit_def num_Cons)
  have "sign_of (show_exp x) = (x < 0, D)" by (simp add: show_exp_def sign_of_def Let_def D_def)
  then have "exponent_of (exp_text ex) = (with_sign (x < 0) \<bar>x\<bar>, [])" using d
    by (simp add: exponent_of_def exp_text_def Some Let_def digits_all [OF d(1)])
  then show ?thesis by (simp add: exp_of_def Some with_sign_def)
qed (simp add: exponent_of_def exp_text_def exp_of_def)

lemma exp_text_head: "exp_text ex = [] \<or> hd (exp_text ex) = CHR ''e''"
  by (cases ex) (simp_all add: exp_text_def)

lemma strtod_text:
  assumes ip: "ip \<noteq> []" "list_all is_digit ip" and fp: "list_all is_digit fp"
  shows "strtod ((if neg then ''-'' else []) @ ip @ with_point fp @ exp_text ex)
    = (f64_round neg (with_sign neg (of_int (num (ip @ fp)) * 10 powi (exp_of ex - int (length fp)))), [])"
proof -
  have h: "with_point fp @ exp_text ex = [] \<or> \<not> is_digit (hd (with_point fp @ exp_text ex))"
    using exp_text_head [of ex] not_digits by (auto simp: with_point_def)
  note a = digits_span [OF ip(2) h]
  have "exp_text ex = [] \<or> \<not> is_digit (hd (exp_text ex))" using exp_text_head [of ex] not_digits by auto
  note b = digits_span [OF fp this]
  have pt: "point_of (with_point fp @ exp_text ex) = (fp, exp_text ex)"
  proof (cases "fp = []")
    case True
    then show ?thesis by (cases ex) (simp_all add: point_of_def with_point_def exp_text_def)
  qed (use b in \<open>simp add: point_of_def with_point_def\<close>)
  show ?thesis unfolding strtod_def sign_of_digits [OF ip]
    using a pt ip exponent_of_text [of ex] by (simp add: Let_def)
qed

section \<open>The text of a magnitude\<close>

lemma strip_zeros_split: "\<exists>k. s = strip_zeros s @ replicate k CHR ''0''"
proof -
  let ?p = "\<lambda>c. c = CHR ''0''"
  have "rev s = takeWhile ?p (rev s) @ dropWhile ?p (rev s)" by simp
  then have "s = strip_zeros s @ rev (takeWhile ?p (rev s))" unfolding strip_zeros_def by (metis rev_append rev_rev_ident)
  moreover have "rev (takeWhile ?p (rev s)) = replicate (length (takeWhile ?p (rev s))) CHR ''0''"
    by (rule replicate_eqI) (auto dest: set_takeWhileD)
  ultimately show ?thesis by metis
qed

lemma num_trailing: "num (s @ replicate k CHR ''0'') = num s * 10 ^ k"
  using num_zeros [of k "[]"] by (simp add: num_append)

lemma strip_value:
  "(of_int (num (p @ strip_zeros s)) :: rat) * 10 powi (e - int (length (strip_zeros s))) = of_int (num (p @ s)) * 10 powi (e - int (length s))"
proof -
  obtain k where k: "s = strip_zeros s @ replicate k CHR ''0''" using strip_zeros_split by blast
  let ?t = "strip_zeros s"
  have n: "num (p @ s) = num (p @ ?t) * 10 ^ k" by (subst k) (simp add: num_trailing flip: append_assoc)
  have l: "int (length s) = int (length ?t) + int k" by (subst k) simp
  have "(10 :: rat) powi (e - int (length ?t)) = 10 ^ k * 10 powi (e - int (length s))"
    unfolding l by (simp flip: power_int_of_nat power_int_add)
  then show ?thesis by (simp add: n)
qed

lemma strip_digits: "list_all is_digit s \<Longrightarrow> list_all is_digit (strip_zeros s)"
  using strip_zeros_split [of s] by (metis list_all_append)

lemma show_mag_text:
  assumes d: "decimal17 a = (m, x)" and m: "10 ^ 16 \<le> m" "m < 10 ^ 17"
  obtains ip fp ex where "show_mag a = ip @ with_point fp @ exp_text ex" "ip \<noteq> []" "list_all is_digit ip" "list_all is_digit fp"
    "(of_int (num (ip @ fp)) :: rat) * 10 powi (exp_of ex - int (length fp)) = of_int m * 10 powi (x - 16)"
    "num (ip @ fp) \<le> m"
proof -
  define ds where "ds = show_pos m"
  note p = show_pos_props [of m, folded ds_def]
  have pos: "0 < m" using m(1) by simp
  have n: "num ds = m" "list_all is_digit ds" "ds \<noteq> []" using p pos by auto
  have len: "length ds = 17"
  proof -
    have "(10 :: int) ^ 16 < 10 ^ length ds" using p pos m(1) by linarith
    then have "16 < length ds" by (rule power_less_imp_less_exp [rotated]) simp
    moreover have "(10 :: int) ^ (length ds - 1) < 10 ^ 17" using p pos m(2) by linarith
    then have "length ds - 1 < 17" by (rule power_less_imp_less_exp [rotated]) simp
    ultimately show ?thesis by linarith
  qed
  have zero: "is_digit CHR ''0''" by (simp add: is_digit_def)
  have sub: "list_all is_digit (take k ds)" "list_all is_digit (drop k ds)" for k
    using n(2) by (auto simp: list_all_iff dest: in_set_takeD in_set_dropD)
  have le: "num (q @ strip_zeros s) \<le> num (q @ s)" if "list_all is_digit (q @ s)" for q s
  proof -
    obtain k where k: "s = strip_zeros s @ replicate k CHR ''0''" using strip_zeros_split by blast
    have "0 \<le> num t" if "list_all is_digit t" for t using that
      by (induction t rule: rev_induct) (auto simp: num_append is_digit_def digit_val_def)
    moreover have "list_all is_digit (q @ strip_zeros s)" using that strip_digits by simp
    ultimately have "0 \<le> num (q @ strip_zeros s)" by blast
    moreover have "num (q @ s) = num (q @ strip_zeros s) * 10 ^ k" by (subst k) (simp add: num_trailing flip: append_assoc)
    ultimately show ?thesis by (simp add: mult_le_cancel_left1)
  qed
  show thesis
  proof (cases "x < - 4 \<or> 17 \<le> x")
    case True
    let ?fp = "strip_zeros (drop 1 ds)"
    have "show_mag a = take 1 ds @ with_point ?fp @ exp_text (Some x)"
      using True by (auto simp: show_mag_def d exp_text_def ds_def Let_def)
    moreover have "(of_int (num (take 1 ds @ ?fp)) :: rat) * 10 powi (x - int (length ?fp)) = of_int m * 10 powi (x - 16)"
      using strip_value [of "take 1 ds" "drop 1 ds" x] n(1) len by simp
    ultimately show thesis using that [of "take 1 ds" ?fp "Some x"] n sub strip_digits le [of "take 1 ds" "drop 1 ds"] by (simp add: exp_of_def)
  next
    case False
    show thesis
    proof (cases "x < 0")
      case True
      let ?z = "replicate (nat (- x - 1)) CHR ''0''"
      have "show_mag a = ''0'' @ with_point (?z @ strip_zeros ds) @ exp_text None"
        using False True by (simp add: show_mag_def d exp_text_def ds_def Let_def)
      moreover have "list_all is_digit (?z @ strip_zeros ds)" using strip_digits [OF n(2)] zero by (auto simp: list_all_iff)
      moreover have e: "0 - int (length (?z @ strip_zeros ds)) = x + 1 - int (length (strip_zeros ds))" using True by simp
      have "(of_int (num (''0'' @ ?z @ strip_zeros ds)) :: rat) * 10 powi (0 - int (length (?z @ strip_zeros ds))) = of_int m * 10 powi (x - 16)"
        unfolding e using strip_value [of "[]" ds "x + 1"] n(1) len by (simp add: num_Cons)
      ultimately show thesis using that [of "''0''" "?z @ strip_zeros ds" None] le [of "[]" ds] n by (simp add: is_digit_def exp_of_def num_Cons)
    next
      case pos_x: False
      let ?k = "nat x + 1" and ?fp = "strip_zeros (drop (nat x + 1) ds)"
      have "show_mag a = take ?k ds @ with_point ?fp @ exp_text None"
        using False pos_x by (simp add: show_mag_def d exp_text_def ds_def Let_def)
      moreover have "int (length (drop ?k ds)) = 16 - x" using len pos_x False by simp
      then have "(of_int (num (take ?k ds @ ?fp)) :: rat) * 10 powi (0 - int (length ?fp)) = of_int m * 10 powi (x - 16)"
        using strip_value [of "take ?k ds" "drop ?k ds" 0] n(1) by (simp del: length_drop)
      ultimately show thesis using that [of "take ?k ds" ?fp None] n sub strip_digits le [of "take ?k ds" "drop ?k ds"] by (simp add: exp_of_def)
    qed
  qed
qed

section \<open>Leading digits\<close>

lemma scale_bounds:
  fixes b :: rat
  assumes b: "1 < b" and n: "b powi (nn - 1) \<le> n" "n < b powi nn" and d: "b powi (dd - 1) \<le> d" "d < b powi dd"
    and e: "e = (if b powi (nn - dd) \<le> n / d then nn - dd else nn - dd - 1)"
  shows "b powi e \<le> n / d" "n / d < b powi (e + 1)"
proof -
  have dpos: "0 < d" using d(1) b by (meson less_le_trans less_trans zero_less_one zero_less_power_int)
  have add: "b powi (i + j) = b powi i * b powi j" for i j using b by (intro power_int_add) auto
  have pos: "0 < b powi i" for i using b by simp
  have "n < b powi (nn - dd + 1) * d"
  proof -
    have "n < b powi (nn - dd + 1 + (dd - 1))" using n(2) by simp
    also have "\<dots> \<le> b powi (nn - dd + 1) * d" unfolding add [of "nn - dd + 1" "dd - 1"] using d(1) less_imp_le [OF pos] by (intro mult_left_mono)
    finally show ?thesis .
  qed
  then have hi: "n / d < b powi (nn - dd + 1)" using dpos by (simp add: divide_less_eq)
  have "b powi (nn - dd - 1) * d < n"
  proof -
    have "b powi (nn - dd - 1) * d < b powi (nn - dd - 1) * b powi dd" using d(2) pos by (intro mult_strict_left_mono) auto
    also have "\<dots> = b powi (nn - 1)" by (simp flip: add)
    finally show ?thesis using n(1) by simp
  qed
  then have lo: "b powi (nn - dd - 1) < n / d" using dpos by (simp add: less_divide_eq)
  show "b powi e \<le> n / d" "n / d < b powi (e + 1)" using hi lo by (auto simp: e)
qed

lemma ilog10_bounds:
  assumes "0 < a"
  shows "10 powi ilog10 a \<le> a" "a < 10 powi (ilog10 a + 1)"
proof -
  obtain n d where q: "quotient_of a = (n, d)" by fastforce
  have d: "0 < d" and a: "a = of_int n / of_int d" using quotient_of_denom_pos [OF q] quotient_of_div [OF q] .
  have n: "0 < n" using assms d a by (simp add: zero_less_divide_iff)
  note b = scale_bounds [of 10, OF _ show_pos_length [OF n] show_pos_length [OF d], folded a]
  have "ilog10 a = (if 10 powi (int (length (show_pos n)) - int (length (show_pos d))) \<le> a then int (length (show_pos n)) - int (length (show_pos d))
      else int (length (show_pos n)) - int (length (show_pos d)) - 1)" by (simp add: ilog10_def q Let_def)
  from b [OF _ this] show "10 powi ilog10 a \<le> a" "a < 10 powi (ilog10 a + 1)" by simp_all
qed

lemma ilog2_bounds:
  assumes "0 < a"
  shows "2 powi ilog2 a \<le> a" "a < 2 powi (ilog2 a + 1)"
proof -
  obtain n d where q: "quotient_of a = (n, d)" by fastforce
  have d: "0 < d" and a: "a = of_int n / of_int d" using quotient_of_denom_pos [OF q] quotient_of_div [OF q] .
  have n: "0 < n" using assms d a by (simp add: zero_less_divide_iff)
  note b = scale_bounds [of 2, OF _ bitlen_powi [OF n] bitlen_powi [OF d], folded a]
  have "ilog2 a = (if 2 powi (bitlen n - bitlen d) \<le> a then bitlen n - bitlen d else bitlen n - bitlen d - 1)"
    by (simp add: ilog2_def q Let_def)
  from b [OF _ this] show "2 powi ilog2 a \<le> a" "a < 2 powi (ilog2 a + 1)" by simp_all
qed

section \<open>Rounding\<close>

lemma round_half_even_error: "\<bar>of_int (round_half_even r) - r\<bar> \<le> 1 / 2"
proof -
  define d where "d = r - of_int \<lfloor>r\<rfloor>"
  have "0 \<le> d" "d < 1" unfolding d_def by linarith+
  moreover have "of_int (round_half_even r) - r = (if d < 1 / 2 \<or> (d = 1 / 2 \<and> even \<lfloor>r\<rfloor>) then - d else 1 - d)"
    by (simp add: round_half_even_def Let_def d_def)
  ultimately show ?thesis by auto
qed

lemma round_half_even_near: "\<bar>r - of_int i\<bar> < 1 / 2 \<Longrightarrow> round_half_even r = i"
  using round_half_even_error [of r] by linarith

lemma round_half_even_range: "of_int i \<le> r \<Longrightarrow> i \<le> round_half_even r" "r < of_int i \<Longrightarrow> round_half_even r \<le> i"
  using round_half_even_error [of r] by linarith+

lemma decimal17_error:
  assumes "0 < a" and d: "decimal17 a = (m, x)"
  shows "10 ^ 16 \<le> m" "m < 10 ^ 17" "\<bar>of_int m * 10 powi (x - 16) - a\<bar> * (2 * 10 ^ 16) \<le> a"
proof -
  define e p r where "e = ilog10 a" and "p = (10 :: rat) powi (e - 16)" and "r = round_half_even (a / p)"
  have pp: "0 < p" by (simp add: p_def)
  have pw: "10 powi e = 10 ^ 16 * p" "10 powi (e + 1) = 10 ^ 17 * p"
    using power_int_add [of "10 :: rat" 16 "e - 16"] power_int_add [of "10 :: rat" 17 "e - 16"] by (simp_all add: p_def add.commute [of e 1])
  have lo: "10 ^ 16 * p \<le> a" and hi: "a < 10 ^ 17 * p" using ilog10_bounds [OF assms(1), folded e_def] unfolding pw by simp_all
  have "of_int (10 ^ 16) \<le> a / p" "a / p < of_int (10 ^ 17)" using lo hi pp by (simp_all add: le_divide_eq divide_less_eq)
  then have r: "10 ^ 16 \<le> r" "r \<le> 10 ^ 17" unfolding r_def using round_half_even_range by blast+
  have "\<bar>of_int r - a / p\<bar> * p \<le> 1 / 2 * p" using round_half_even_error [of "a / p", folded r_def] pp by (intro mult_right_mono) auto
  moreover have "of_int r * p - a = (of_int r - a / p) * p" using pp by (simp add: left_diff_distrib)
  then have "\<bar>of_int r * p - a\<bar> = \<bar>of_int r - a / p\<bar> * p" using pp by (simp only: abs_mult abs_of_pos)
  ultimately have "\<bar>of_int r * p - a\<bar> \<le> 1 / 2 * p" by (simp only:)
  then have err: "\<bar>of_int r * p - a\<bar> * (2 * 10 ^ 16) \<le> a" using lo by simp
  have mx: "(m, x) = (if r = 10 ^ 17 then (10 ^ 16, e + 1) else (r, e))" using d [symmetric] unfolding r_def p_def e_def decimal17_def Let_def .
  have "10 ^ 16 \<le> m \<and> m < 10 ^ 17 \<and> of_int m * 10 powi (x - 16) = of_int r * p"
  proof (cases "r = 10 ^ 17")
    case True
    have "(10 :: rat) powi (e + 1 - 16) = 10 * p" unfolding p_def by (subst power_int_add [symmetric, of 10 1, simplified]) (simp_all add: algebra_simps)
    with True mx show ?thesis by simp
  qed (use mx r in \<open>auto simp: p_def\<close>)
  with err show "10 ^ 16 \<le> m" "m < 10 ^ 17" "\<bar>of_int m * 10 powi (x - 16) - a\<bar> * (2 * 10 ^ 16) \<le> a" by simp_all
qed

section \<open>The neighbourhood of a double\<close>

lemma f64_scale:
  assumes "f64_exp v < 2047" and "f64_mag v \<noteq> 0"
  obtains M k where "f64_abs v = of_int M * 2 powi k" "0 < M" "M < 2 ^ 53" "- 1074 \<le> k" "2 ^ 52 \<le> M \<or> k = - 1074"
    "f64_mag v = (k + 1074) * 2 ^ 52 + M"
proof (cases "f64_exp v = 0")
  case True
  then show thesis using that [of "f64_frac v" "- 1074"] assms(2) f64_parts(2-6) [of v] by (simp add: f64_abs_def)
next
  case False
  then show thesis using that [of "2 ^ 52 + f64_frac v" "f64_exp v - 1075"] f64_parts(2-6) [of v] by (simp add: f64_abs_def)
qed

lemma round_mag_at:
  assumes "max (ilog2 q - 52) (- 1074) = k" and "\<bar>q / 2 powi k - of_int i\<bar> < 1 / 2" and "(k + 1074) * 2 ^ 52 + i < 2047 * 2 ^ 52"
  shows "round_mag q = (k + 1074) * 2 ^ 52 + i"
  using assms(3) round_half_even_near [OF assms(2)] by (simp add: round_mag_def assms(1) Let_def)

theorem round_mag_near:
  assumes fin: "f64_exp v < 2047" and nz: "f64_mag v \<noteq> 0" and near: "\<bar>q - f64_abs v\<bar> * 2 ^ 54 < f64_abs v"
  shows "0 < q" and "round_mag q = f64_mag v"
proof -
  obtain M k where s: "f64_abs v = of_int M * 2 powi k" "0 < M" "M < 2 ^ 53" "- 1074 \<le> k" "2 ^ 52 \<le> M \<or> k = - 1074"
    "f64_mag v = (k + 1074) * 2 ^ 52 + M" using f64_scale [OF fin nz] .
  have top: "f64_mag v < 2047 * 2 ^ 52" using fin f64_parts(2,4) [of v] by simp
  define t where "t = q / 2 powi k"
  have pp: "(0 :: rat) < 2 powi k" by simp
  have q: "q = t * 2 powi k" by (simp add: t_def)
  have "q - f64_abs v = (t - of_int M) * 2 powi k" by (simp add: q s(1) left_diff_distrib)
  then have "\<bar>t - of_int M\<bar> * 2 ^ 54 * 2 powi k < of_int M * 2 powi k" using near pp by (simp add: s(1) abs_mult mult.commute mult.left_commute)
  then have tM: "\<bar>t - of_int M\<bar> * 2 ^ 54 < of_int M" using pp by (simp only: mult_less_cancel_right_pos)
  have "(of_int M :: rat) < of_int (2 ^ 53)" using s(3) by (simp only: of_int_less_iff)
  then have half: "\<bar>t - of_int M\<bar> < 1 / 2" using tM by simp
  moreover have "(1 :: rat) \<le> of_int M" using s(2) by simp
  ultimately have tpos: "0 < t" by linarith
  then show qpos: "0 < q" by (simp add: q)
  have shift: "(2 :: rat) powi (k + j) = 2 powi j * 2 powi k" for j by (simp add: power_int_add)
  have "M \<le> 2 ^ 53 - 1" using s(3) by simp
  then have "(of_int M :: rat) \<le> of_int (2 ^ 53 - 1)" by (simp only: of_int_le_iff)
  then have "(of_int M :: rat) + 1 \<le> 2 ^ 53" by simp
  then have t53: "t < 2 ^ 53" using half by linarith
  show "round_mag q = f64_mag v"
  proof (cases "2 ^ 52 \<le> t \<or> k = - 1074")
    case True
    have "max (ilog2 q - 52) (- 1074) = k"
    proof (cases "2 ^ 52 \<le> t")
      case big: True
      have "ilog2 q = k + 52"
      proof (rule ilog2_unique [OF qpos])
        show "2 powi (k + 52) \<le> q" unfolding shift q using big by (intro mult_right_mono) simp_all
        show "q < 2 powi (k + 52 + 1)" unfolding q using t53 shift [of 53] pp by (simp add: add.assoc)
      qed
      then show ?thesis using s(4) by simp
    next
      case small: False
      have "2 powi ilog2 q \<le> q" by (rule ilog2_bounds(1) [OF qpos])
      also have "q < 2 powi (k + 52)" unfolding shift q using small pp by (intro mult_strict_right_mono) simp_all
      finally have "ilog2 q < k + 52" by (rule powi_less)
      with small True show ?thesis by simp
    qed
    then show ?thesis using round_mag_at [of q k M] half top s(6) by (simp add: t_def)
  next
    case False
    then have m52: "2 ^ 52 \<le> M" using s(5) by simp
    have "(of_int M :: rat) < 2 ^ 52 + 1 / 2" using half False by linarith
    then have "(of_int M :: rat) < of_int (2 ^ 52 + 1)" by simp
    then have M: "M = 2 ^ 52" using m52 by (simp only: of_int_less_iff)
    have quarter: "\<bar>t - 2 ^ 52\<bar> < 1 / 4" using tM by (simp add: M)
    have "ilog2 q = k + 51"
    proof (rule ilog2_unique [OF qpos])
      have "(2 :: rat) ^ 51 + 1 \<le> 2 ^ 52" by simp
      then have "2 ^ 51 \<le> t" using quarter by linarith
      then show "2 powi (k + 51) \<le> q" unfolding shift q by (intro mult_right_mono) simp_all
      show "q < 2 powi (k + 51 + 1)" unfolding q using False shift [of 52] pp by (simp add: add.assoc)
    qed
    then have "max (ilog2 q - 52) (- 1074) = k - 1" using False s(4) by simp
    moreover have "q / 2 powi (k - 1) = 2 * t" unfolding q by (simp add: power_int_diff)
    then have "\<bar>q / 2 powi (k - 1) - of_int (2 ^ 53)\<bar> < 1 / 2" using quarter by (simp add: abs_if split: if_splits)
    ultimately have "round_mag q = (k - 1 + 1074) * 2 ^ 52 + 2 ^ 53" using top s(6) M by (intro round_mag_at) simp_all
    then show ?thesis using s(6) M by simp
  qed
qed

section \<open>Seventeen digits are enough\<close>

lemma decimal17_near:
  assumes fin: "f64_exp v < 2047" and nz: "f64_mag v \<noteq> 0" and d: "decimal17 (f64_abs v) = (m, x)"
  shows "round_mag (of_int m * 10 powi (x - 16)) = f64_mag v" "10 ^ 16 \<le> m" "m < 10 ^ 17"
proof -
  have pos: "0 < f64_abs v" by (rule f64_abs_pos [OF nz])
  let ?q = "of_int m * 10 powi (x - 16) :: rat"
  note e = decimal17_error [OF pos d]
  show "10 ^ 16 \<le> m" "m < 10 ^ 17" by (rule e)+
  have "\<bar>?q - f64_abs v\<bar> * 2 ^ 54 < f64_abs v"
  proof (cases "?q = f64_abs v")
    case False
    then have "\<bar>?q - f64_abs v\<bar> * 2 ^ 54 < \<bar>?q - f64_abs v\<bar> * (2 * 10 ^ 16)" by (intro mult_strict_left_mono) simp_all
    with e(3) show ?thesis by linarith
  qed (use pos in simp)
  from round_mag_near [OF fin nz this] show "round_mag ?q = f64_mag v" by blast
qed

text \<open>The shape of a printed number, which is read back.\<close>

lemma show_double_text:
  assumes fin: "f64_exp v < 2047"
  obtains ip fp ex where "show_double v = (if f64_neg_sign v then ''-'' else []) @ ip @ with_point fp @ exp_text ex"
    "ip \<noteq> []" "list_all is_digit ip" "list_all is_digit fp" "num (ip @ fp) < 10 ^ 17"
    "strtod (show_double v) = (v, [])"
proof (cases "f64_mag v = 0")
  case True
  let ?s = "f64_neg_sign v"
  have t: "show_double v = (if ?s then ''-'' else []) @ ''0'' @ with_point [] @ exp_text None"
    using True by (simp add: show_double_def f64_zero_def with_point_def exp_text_def)
  have z: "list_all is_digit ''0''" by (simp add: is_digit_def)
  have "strtod (show_double v) = (f64_round ?s 0, [])" unfolding t using strtod_text [of "''0''" "[]" ?s None] z
    by (simp add: with_sign_def)
  also have "f64_round ?s 0 = v" using True f64_pack_parts [of v] by (simp add: f64_round_def)
  finally show thesis using that [of "''0''" "[]" None] t z by simp
next
  case False
  let ?s = "f64_neg_sign v"
  obtain m x where d: "decimal17 (f64_abs v) = (m, x)" by fastforce
  note r = decimal17_near [OF fin False d]
  from show_mag_text [OF d r(2,3)] obtain ip fp ex where s: "show_mag (f64_abs v) = ip @ with_point fp @ exp_text ex" "ip \<noteq> []"
    "list_all is_digit ip" "list_all is_digit fp"
    "(of_int (num (ip @ fp)) :: rat) * 10 powi (exp_of ex - int (length fp)) = of_int m * 10 powi (x - 16)" "num (ip @ fp) \<le> m" .
  have t: "show_double v = (if ?s then ''-'' else []) @ ip @ with_point fp @ exp_text ex"
    using False s(1) by (simp add: show_double_def f64_zero_def)
  have "strtod (show_double v) = (f64_round ?s (with_sign ?s (of_int m * 10 powi (x - 16))), [])"
    unfolding t strtod_text [OF s(2-4)] s(5) ..
  also have "\<dots> = (v, [])"
  proof -
    have "0 < (of_int m :: rat) * 10 powi (x - 16)" using r(2) by simp
    moreover have "f64_pack b (f64_mag v) = v" if "b = ?s" for b using that by simp
    moreover have "m \<noteq> 0" using r(2) by auto
    ultimately show ?thesis using r(1) by (cases ?s) (simp_all add: f64_round_def with_sign_def)
  qed
  finally show thesis using that t s r(3) by simp
qed

corollary strtod_show_double: "f64_exp v < 2047 \<Longrightarrow> strtod (show_double v) = (v, [])"
  using show_double_text [of v] by metis

end
