(* ===== verification/Json_Laws.thy ===== *)
theory Json_Laws
  imports Json Decimal_Laws
begin

text \<open>
  The parser returns on every text, and it reads back what the serialiser prints.
\<close>

section \<open>The parser returns\<close>

definition ends_before :: "string \<Rightarrow> (json \<times> string) result option \<Rightarrow> bool" where
  "ends_before s y \<longleftrightarrow> (\<exists>e. y = Some (Inl (Err e))) \<or> (\<exists>v r. y = Some (Inr (v, r)) \<and> length r < length s)"

lemma ends_before_simps [simp]:
  "ends_before s (Some parse_error)" "ends_before s (Some (Inl (Err e)))" "ends_before s (Some (Inr (v, r))) \<longleftrightarrow> length r < length s"
  "\<not> ends_before s None"
  by (auto simp: ends_before_def parse_error_def)

lemma ends_before_cases:
  assumes "ends_before s y"
  obtains e where "y = Some (Inl (Err e))" | v r where "y = Some (Inr (v, r))" "length r < length s"
  using assms by (auto simp: ends_before_def)

lemma ends_before_mono: "ends_before s y \<Longrightarrow> length s \<le> length t \<Longrightarrow> ends_before t y"
  by (auto simp: ends_before_def)

lemma skipWs_length: "length (skipWs s) \<le> length s" by (simp add: skipWs_def length_dropWhile_le)

lemma skipWs_Cons_length: "skipWs s = c # t \<Longrightarrow> length t < length s"
  using skipWs_length [of s] by simp

lemma hex_code_error: "hex_code s n = Inl e \<Longrightarrow> e = Err ParseError"
  by (induction s n rule: hex_code.induct) (auto simp: parse_error_def split: option.splits)

lemma string_loop_ends:
  "string_loop s out = Inl (Err ParseError) \<or> (\<exists>x r. string_loop s out = Inr (x, r) \<and> length r < length s)"
proof (induction s out rule: string_loop.induct)
  case (1 out)
  then show ?case by (simp add: parse_error_def)
next
  case (2 c s out)
  show ?case
  proof (cases "c = CHR 0x5C")
    case esc: True
    show ?thesis
    proof (cases s)
      case (Cons e t)
      show ?thesis
      proof (cases "e = CHR ''u''")
        case u: True
        show ?thesis
        proof (cases "length t < 4")
          case False
          show ?thesis
          proof (cases "hex_code (take 4 t) 0")
            case (Inl a)
            with esc Cons u False show ?thesis using hex_code_error [OF Inl] by simp
          next
            case (Inr code)
            with 2(1) [OF _ esc Cons u False, of code] esc Cons u False show ?thesis by auto
          qed
        qed (use esc Cons u in \<open>simp add: parse_error_def\<close>)
      next
        case False
        show ?thesis
        proof (cases "simple_escape e")
          case None
          with esc Cons False show ?thesis by (simp add: parse_error_def)
        next
          case (Some x)
          with 2(2) [OF _ esc Cons False Some] esc Cons False show ?thesis by auto
        qed
      qed
    qed (use esc in \<open>simp add: parse_error_def\<close>)
  next
    case False
    then show ?thesis using 2(3) by (cases "c = CHR 0x22") auto
  qed
qed

lemma parseString_ends: "parseString s = Inl (Err ParseError) \<or> (\<exists>x r. parseString s = Inr (x, r) \<and> length r < length s)"
  using string_loop_ends [of "tl s" "[]"] by (cases s) (auto simp: parseString_def parse_error_def)

lemma parseNumber_ends: "ends_before s (Some (parseNumber s))"
proof (cases "number_text s = []")
  case False
  then have "length (drop (length (number_text s)) s) < length s" by (cases s) (auto simp: number_text_def)
  then show ?thesis by (auto simp: parseNumber_def Let_def split: prod.splits)
qed (simp add: parseNumber_def)

lemma array_loop_ends:
  assumes p: "\<And>s. ends_before s (p s)"
  shows "ends_before s (array_loop p arr s)"
proof (induction "length s" arbitrary: s arr rule: less_induct)
  case less
  show ?case
  proof (cases rule: ends_before_cases [OF p [of s]])
    case (2 item r)
    show ?thesis
    proof (cases "skipWs r")
      case (Cons c u)
      note l = skipWs_Cons_length [OF Cons] 2(2)
      have "ends_before (skipWs u) (array_loop p (arr @ [item]) (skipWs u))" using less [of "skipWs u"] l skipWs_length [of u] by simp
      then have "ends_before s (array_loop p (arr @ [item]) (skipWs u))" by (rule ends_before_mono) (use l skipWs_length [of u] in simp)
      then show ?thesis using 2 Cons l by (subst array_loop.simps) simp
    qed (use 2 in \<open>subst array_loop.simps, simp\<close>)
  qed (subst array_loop.simps, simp)
qed

lemma object_loop_ends:
  assumes p: "\<And>s. ends_before s (p s)"
  shows "ends_before s (object_loop p obj s)"
proof (induction "length s" arbitrary: s obj rule: less_induct)
  case less
  consider (err) "parseString (skipWs s) = Inl (Err ParseError)"
    | (key) k r where "parseString (skipWs s) = Inr (k, r)" "length r < length s"
    using parseString_ends [of "skipWs s"] skipWs_length [of s] by fastforce
  then show ?case
  proof cases
    case err
    then show ?thesis by (subst object_loop.simps) simp
  next
    case key
    show ?thesis
    proof (cases "skipWs r")
      case colon: (Cons c t)
      note l = skipWs_Cons_length [OF colon] key(2)
      show ?thesis
      proof (cases rule: ends_before_cases [OF p [of t]])
        case 1
        with key colon show ?thesis by (subst object_loop.simps) simp
      next
        case (2 v r')
        show ?thesis
        proof (cases "skipWs r'")
          case (Cons d u)
          note l' = skipWs_Cons_length [OF Cons] 2(2) l
          have "ends_before u (object_loop p (obj @ [(k, v)]) u)" using less [of u] l' by simp
          then have "ends_before s (object_loop p (obj @ [(k, v)]) u)" by (rule ends_before_mono) (use l' in simp)
          with key colon 2 Cons l' show ?thesis by (subst object_loop.simps) simp
        qed (use key colon 2 in \<open>subst object_loop.simps, simp\<close>)
      qed
    qed (use key in \<open>subst object_loop.simps, simp\<close>)
  qed
qed

lemma container_ends:
  assumes p: "\<And>s. ends_before s (p s)"
  shows "ends_before s (parseArray p s)" "ends_before s (parseObject p s)"
proof -
  have l: "length (tl (skipWs s)) < length s" if "skipWs s \<noteq> []" using that skipWs_length [of s] by (cases "skipWs s") auto
  show "ends_before s (parseArray p s)" "ends_before s (parseObject p s)"
    using l array_loop_ends [OF p, of "skipWs s" "[]"] object_loop_ends [OF p, of "skipWs s" "[]"]
      ends_before_mono [of "skipWs s" _ s] skipWs_length [of s]
    by (auto simp: parseArray_def parseObject_def Let_def)
qed

lemma match_word_ends: "kw \<noteq> [] \<Longrightarrow> ends_before s (Some (match_word kw v s))"
  by (cases s) (auto simp: match_word_def)

lemma parseValue_ends: "ends_before s (parseValue k s)"
proof (induction k arbitrary: s)
  case (Suc k)
  show ?case
  proof (cases "skipWs s")
    case (Cons c t)
    have l: "length (c # t) \<le> length s" using skipWs_length [of s] Cons by simp
    have str: "ends_before (c # t) (Some (mlk_try (parseString (c # t)) (\<lambda>(x, r). Inr (JString x, r))))"
      using parseString_ends [of "c # t"] by auto
    have "ends_before (c # t) (parseArray (parseValue k) t)" "ends_before (c # t) (parseObject (parseValue k) t)"
      using container_ends [OF Suc, of t] ends_before_mono [of t _ "c # t"] by simp_all
    then have "ends_before (c # t) (parseValue (Suc k) s)"
      using str parseNumber_ends [of "c # t"] match_word_ends Cons by auto
    then show ?thesis using l by (rule ends_before_mono)
  qed simp
qed simp

lemma json_parse_total: "\<exists>y. json_parse text = Some y \<and> y \<noteq> Inl UndefinedBehaviour"
proof (cases rule: ends_before_cases [OF parseValue_ends [of "skipWs text" 129]])
  case (2 v r)
  then show ?thesis by (simp add: json_parse_def parse_error_def)
qed (simp add: json_parse_def)

section \<open>Tokens are read back\<close>

lemma hex_digit_val:
  assumes "0 \<le> d" "d < 16"
  shows "hex_val (hex_digit d) = Some d"
proof -
  have "d \<in> {0, 1, 2, 3, 4, 5, 6, 7, 8, 9, 10, 11, 12, 13, 14, 15}" using assms by simp presburger
  then show ?thesis by (auto simp: hex_digit_def hex_val_def nth_Cons numeral_eq_Suc Let_def)
qed

lemma string_loop_control:
  assumes "(of_char c :: int) < 32"
  shows "string_loop ([CHR 0x5C, CHR ''u'', CHR ''0'', CHR ''0'', hex_digit (of_char c div 16), hex_digit (of_char c mod 16)] @ r) out
    = string_loop r (out @ [c])"
proof -
  have z: "hex_val CHR ''0'' = Some 0" by (simp add: hex_val_def)
  have n: "0 \<le> (of_char c :: int)" by (metis of_nat_0_le_iff of_nat_of_char)
  have "hex_val (hex_digit (of_char c div 16)) = Some (of_char c div 16)" "hex_val (hex_digit (of_char c mod 16)) = Some (of_char c mod 16)"
    using n assms by (intro hex_digit_val; simp)+
  then have "hex_code [CHR ''0'', CHR ''0'', hex_digit (of_char c div 16), hex_digit (of_char c mod 16)] 0 = Inr (of_char c)"
    by (simp add: z)
  moreover have "utf8 (of_char c) = [c]" using assms by (simp add: utf8_def)
  ultimately show ?thesis by (simp add: numeral_eq_Suc)
qed

lemma string_loop_char: "string_loop (escape_char c @ r) out = string_loop r (out @ [c])"
  using string_loop_control [of c r out] by (auto simp: escape_char_def Let_def simple_escape_def)

lemma string_loop_escaped: "string_loop (concat (map escape_char s) @ CHR 0x22 # r) out = Inr (out @ s, r)"
  by (induction s arbitrary: out) (simp_all add: string_loop_char)

lemma parseString_escaped: "parseString (escape_string s @ r) = Inr (s, r)"
  using string_loop_escaped [of s r "[]"] by (simp add: parseString_def escape_string_def)

definition after_number :: "string \<Rightarrow> bool" where "after_number r \<longleftrightarrow> r = [] \<or> \<not> number_char (hd r)"

lemma number_text_run:
  assumes t: "t \<noteq> []" "list_all number_char t" and r: "after_number r"
  shows "number_text (t @ r) = t"
proof -
  obtain c u where c: "t = c # u" using t(1) by (cases t) auto
  have "takeWhile number_char (u @ r) = u" using t(2) r
    by (auto simp: c list_all_iff after_number_def takeWhile_append takeWhile_eq_all_conv takeWhile_eq_Nil_iff)
  with t(2) show ?thesis by (simp add: c number_text_def)
qed

lemma parseNumber_run:
  assumes "t \<noteq> []" "list_all number_char t" and "after_number r"
  shows "parseNumber (t @ r) = (if list_ex double_char t then (let (v, e) = strtod t in if e \<noteq> [] then parse_error else Inr (JDouble v, r))
     else (let (v, e, erange) = strtoll t in if e \<noteq> [] \<or> erange then Inr (JDouble (fst (strtod t)), r) else Inr (JInt v, r)))"
proof -
  have d: "drop (length t) (t @ r) = r" by simp
  show ?thesis using assms(1) unfolding parseNumber_def number_text_run [OF assms] Let_def d by simp
qed

lemma digit_number: "is_digit c \<Longrightarrow> number_char c \<and> \<not> double_char c"
  by (auto simp: number_char_def is_digit_def double_char_def)

lemma strtoll_text:
  assumes "ip \<noteq> []" "list_all is_digit ip" and v: "in_i64 (with_sign neg (num ip))"
  shows "strtoll ((if neg then ''-'' else []) @ ip) = (with_sign neg (num ip), [], False)"
proof -
  have "INT64_MIN \<le> with_sign neg (num ip)" "with_sign neg (num ip) \<le> INT64_MAX" using v by (simp_all add: in_i64_def)
  then show ?thesis using sign_of_digits [OF assms(1,2), of neg "[]"] assms(1) v
    by (simp add: strtoll_def Let_def digits_all [OF assms(2)])
qed

lemma integer_text:
  assumes "ip \<noteq> []" "list_all is_digit ip"
  shows "list_all number_char ((if neg then ''-'' else []) @ ip)" "\<not> list_ex double_char ((if neg then ''-'' else []) @ ip)"
proof -
  have "number_char CHR ''-''" "\<not> double_char CHR ''-''" by (simp_all add: number_char_def sign_char_def double_char_def)
  then show "list_all number_char ((if neg then ''-'' else []) @ ip)" "\<not> list_ex double_char ((if neg then ''-'' else []) @ ip)"
    using assms(2) digit_number by (auto simp: list_all_iff list_ex_iff)
qed

lemma show_int_text:
  obtains ip where "show_int i = (if i < 0 then ''-'' else []) @ ip" "ip \<noteq> []" "list_all is_digit ip" "with_sign (i < 0) (num ip) = i"
proof -
  have s: "show_int i = (if i < 0 then ''-'' else []) @ show_pos \<bar>i\<bar>" by (simp add: show_int_def)
  show thesis by (rule that [OF s]) (use show_pos_props [of "\<bar>i\<bar>"] in \<open>auto simp: with_sign_def\<close>)
qed

lemma parseNumber_int:
  assumes "in_i64 i" and "after_number r"
  shows "parseNumber (show_int i @ r) = Inr (JInt i, r)"
proof -
  obtain ip where t: "show_int i = (if i < 0 then ''-'' else []) @ ip" "ip \<noteq> []" "list_all is_digit ip" "with_sign (i < 0) (num ip) = i"
    using show_int_text .
  note n = integer_text [OF t(2,3), of "i < 0", folded t(1)]
  have "strtoll (show_int i) = (i, [], False)" using strtoll_text [OF t(2,3), of "i < 0"] assms(1) t(1,4) by simp
  then show ?thesis using parseNumber_run [OF _ n(1) assms(2)] n(2) t(1,2) by simp
qed

text \<open>What a printed double becomes: an integer when nothing in its text says otherwise.\<close>

definition number_back :: "f64 \<Rightarrow> json" where
  "number_back d = (if list_ex double_char (show_double d) then JDouble d else JInt (fst (strtoll (show_double d))))"

lemma parseNumber_double:
  assumes fin: "f64_exp d < 2047" and "after_number r"
  shows "parseNumber (show_double d @ r) = Inr (number_back d, r)" "show_double d \<noteq> []" "list_all number_char (show_double d)"
proof -
  let ?neg = "f64_neg_sign d"
  obtain ip fp ex where t: "show_double d = (if ?neg then ''-'' else []) @ ip @ with_point fp @ exp_text ex"
    "ip \<noteq> []" "list_all is_digit ip" "list_all is_digit fp" "num (ip @ fp) < 10 ^ 17" "strtod (show_double d) = (d, [])"
    using show_double_text [OF fin] .
  show ne: "show_double d \<noteq> []" using t(1,2) by simp
  have "list_all number_char (with_point fp)" using t(4) digit_number by (auto simp: with_point_def list_all_iff number_char_def double_char_def)
  moreover have "list_all number_char (exp_text ex)"
  proof (cases ex)
    case (Some x)
    have "list_all is_digit (show_pos \<bar>x\<bar>)" by (rule show_pos_digits) simp
    moreover have "number_char CHR ''0''" "number_char CHR ''e''" "number_char CHR ''-''" "number_char CHR ''+''"
      by (simp_all add: number_char_def is_digit_def double_char_def sign_char_def)
    ultimately show ?thesis using digit_number by (auto simp: exp_text_def Some show_exp_def Let_def list_all_iff)
  qed (simp add: exp_text_def)
  ultimately show all: "list_all number_char (show_double d)" using integer_text(1) [OF t(2,3), of ?neg] by (simp add: t(1))
  note run = parseNumber_run [OF ne all assms(2)]
  show "parseNumber (show_double d @ r) = Inr (number_back d, r)"
  proof (cases "list_ex double_char (show_double d)")
    case True
    then show ?thesis using run t(6) by (simp add: number_back_def)
  next
    case False
    have "fp = []" using False by (auto simp: t(1) with_point_def double_char_def split: if_splits)
    moreover have "ex = None" using False by (auto simp: t(1) exp_text_def double_char_def split: option.splits)
    ultimately have i: "show_double d = (if ?neg then ''-'' else []) @ ip" "num ip < 10 ^ 17" using t(1,5) by (simp_all add: with_point_def exp_text_def)
    have "0 \<le> num ip" using t(3) by (induction ip rule: rev_induct) (auto simp: num_append is_digit_def digit_val_def)
    then have "in_i64 (with_sign ?neg (num ip))" using i(2) by (auto simp: with_sign_def i64_defs)
    then have "strtoll (show_double d) = (with_sign ?neg (num ip), [], False)" using strtoll_text [OF t(2,3)] i(1) by simp
    then show ?thesis using run False by (simp add: number_back_def)
  qed
qed

text \<open>The text of an infinity.\<close>

lemma round_1e308: "f64_round False (10 powi 308) = 0x7fe1ccf385ebc8a0" "f64_round True (- (10 powi 308)) = 0xffe1ccf385ebc8a0"
proof -
  define b where "b = (10 :: rat) powi 308"
  have b: "0 < b" "2 powi 1023 \<le> b" "b < 2 powi (1023 + 1)" "\<bar>b / 2 powi 971 - of_int 0x11ccf385ebc8a0\<bar> < 1 / 2" unfolding b_def by simp_all
  have "round_mag b = (971 + 1074) * 2 ^ 52 + 0x11ccf385ebc8a0"
    by (rule round_mag_at [OF _ b(4)]) (simp_all add: ilog2_unique [OF b(1-3)])
  then have "f64_round False b = 0x7fe1ccf385ebc8a0" "f64_round True (- b) = 0xffe1ccf385ebc8a0" using b(1) by (simp_all add: f64_round_def f64_pack_def)
  then show "f64_round False (10 powi 308) = 0x7fe1ccf385ebc8a0" "f64_round True (- (10 powi 308)) = 0xffe1ccf385ebc8a0" unfolding b_def .
qed

lemma strtod_1e308: "strtod ((if neg then ''-'' else []) @ ''1e308'') = (if neg then 0xffe1ccf385ebc8a0 else 0x7fe1ccf385ebc8a0, [])"
  by (simp add: strtod_def sign_of_def is_digit_def point_of_def exponent_of_def Let_def with_sign_def num_Cons digit_val_def round_1e308 [simplified])

lemma parseNumber_1e308:
  "after_number r \<Longrightarrow> parseNumber ((if neg then ''-'' else []) @ ''1e308'' @ r) = Inr (JDouble (if neg then 0xffe1ccf385ebc8a0 else 0x7fe1ccf385ebc8a0), r)"
  using parseNumber_run [of "(if neg then ''-'' else []) @ ''1e308''" r] strtod_1e308 [of neg]
  by (cases neg) (simp_all add: number_char_def is_digit_def double_char_def sign_char_def)

text \<open>An integral double keeps its value, except for the sign of zero.\<close>

lemma number_back_value:
  assumes fin: "f64_exp d < 2047" and "d \<noteq> 0x8000000000000000"
  shows "asDouble (number_back d) = Some d"
proof (cases "list_ex double_char (show_double d)")
  case False
  let ?neg = "f64_neg_sign d"
  obtain ip fp ex where t: "show_double d = (if ?neg then ''-'' else []) @ ip @ with_point fp @ exp_text ex"
    "ip \<noteq> []" "list_all is_digit ip" "list_all is_digit fp" "num (ip @ fp) < 10 ^ 17" "strtod (show_double d) = (d, [])"
    using show_double_text [OF fin] .
  have e: "fp = []" using False by (auto simp: t(1) with_point_def double_char_def split: if_splits)
  have x: "ex = None" using False by (auto simp: t(1) exp_text_def double_char_def split: option.splits)
  have i: "show_double d = (if ?neg then ''-'' else []) @ ip" "num ip < 10 ^ 17" using t(1,5) e x by (simp_all add: with_point_def exp_text_def)
  have "0 \<le> num ip" using t(3) by (induction ip rule: rev_induct) (auto simp: num_append is_digit_def digit_val_def)
  then have "in_i64 (with_sign ?neg (num ip))" using i(2) by (auto simp: with_sign_def i64_defs)
  then have n: "number_back d = JInt (with_sign ?neg (num ip))" using strtoll_text [OF t(2,3)] i(1) False by (simp add: number_back_def)
  have "strtod (show_double d) = (f64_round ?neg (with_sign ?neg (of_int (num ip))), [])"
    unfolding t(1) strtod_text [OF t(2-4)] by (simp add: e x exp_of_def)
  then have d: "d = f64_round ?neg (with_sign ?neg (of_int (num ip)))" using t(6) by simp
  have "f64_of_int (with_sign ?neg (num ip)) = d"
  proof (cases "num ip = 0")
    case True
    then have "d = f64_pack ?neg 0" using d by (cases ?neg) (simp_all add: with_sign_def f64_round_def)
    with assms(2) have "\<not> ?neg" by (auto simp: f64_pack_def)
    with True d show ?thesis by (simp add: f64_of_int_def with_sign_def)
  next
    case False
    then have "f64_of_int (with_sign ?neg (num ip)) = f64_round ?neg (with_sign ?neg (of_int (num ip)))"
      by (simp add: f64_of_int_def f64_round_def with_sign_def)
    with d show ?thesis by simp
  qed
  then show ?thesis by (simp add: n asDouble_def)
qed (simp add: number_back_def asDouble_def)

lemma minus_zero_back: "number_back 0x8000000000000000 = JInt 0"
  by (simp add: number_back_def) code_simp

section \<open>Documents are read back\<close>

text \<open>Containers are nested at most \<open>n\<close> deep and integers are in range.\<close>

fun json_fits :: "nat \<Rightarrow> json \<Rightarrow> bool" where
  "json_fits n (JInt i) = in_i64 i"
| "json_fits n (JArray xs) = list_all (\<lambda>x. 0 < n \<and> json_fits (n - 1) x) xs"
| "json_fits n (JObject ms) = list_all (\<lambda>m. 0 < n \<and> json_fits (n - 1) (snd m)) ms"
| "json_fits n v = True"

text \<open>What a document becomes.\<close>

fun json_back :: "json \<Rightarrow> json" where
  "json_back (JDouble d) = (if f64_nan d then JNull
     else if f64_inf d then JDouble (if f64_neg_sign d then 0xffe1ccf385ebc8a0 else 0x7fe1ccf385ebc8a0) else number_back d)"
| "json_back (JArray xs) = JArray (map json_back xs)"
| "json_back (JObject ms) = JObject (map (\<lambda>m. (fst m, json_back (snd m))) ms)"
| "json_back v = v"

definition blanks :: "string \<Rightarrow> bool" where "blanks s \<longleftrightarrow> list_all is_ws s"

lemma blanks_newline: "blanks (json_newline indent k)"
proof -
  have "is_ws CHR 0x0A" "is_ws CHR '' ''" by (simp_all add: is_ws_def)
  moreover have "list_all is_ws (concat (replicate k ''  ''))" by (induction k) (simp_all add: is_ws_def)
  ultimately show ?thesis by (simp add: json_newline_def blanks_def)
qed

lemma skipWs_blanks: "blanks w \<Longrightarrow> skipWs (w @ s) = skipWs s"
  by (induction w) (auto simp: blanks_def skipWs_def)

lemma skipWs_head: "s = [] \<or> \<not> is_ws (hd s) \<Longrightarrow> skipWs s = s"
  by (cases s) (auto simp: skipWs_def)

lemma skipWs_idem [simp]: "skipWs (skipWs s) = skipWs s"
  by (rule skipWs_head) (metis hd_dropWhile skipWs_def)

lemma parseValue_skip: "parseValue k (skipWs s) = parseValue k s" by (cases k) simp_all

lemma parseValue_blanks: "blanks w \<Longrightarrow> parseValue k (w @ s) = parseValue k s"
  using parseValue_skip [of k "w @ s"] parseValue_skip [of k s] skipWs_blanks [of w s] by simp

definition starts_value :: "string \<Rightarrow> bool" where
  "starts_value s \<longleftrightarrow> s \<noteq> [] \<and> \<not> is_ws (hd s) \<and> hd s \<noteq> CHR '']'' \<and> hd s \<noteq> CHR ''}''"

lemma number_char_head:
  assumes "number_char c"
  shows "\<not> is_ws c" "c \<noteq> CHR ''{''" "c \<noteq> CHR ''[''" "c \<noteq> CHR 0x22" "c \<noteq> CHR ''t''" "c \<noteq> CHR ''f''" "c \<noteq> CHR ''n''" "c \<noteq> CHR '']''" "c \<noteq> CHR ''}''"
  using assms by (auto simp: number_char_def is_digit_def double_char_def sign_char_def is_ws_def)

lemma parseValue_number:
  assumes "t \<noteq> []" "list_all number_char t"
  shows "parseValue (Suc k) (t @ r) = Some (parseNumber (t @ r))" "starts_value (t @ r)"
proof -
  obtain c u where c: "t = c # u" using assms(1) by (cases t) auto
  with assms(2) have "number_char c" by simp
  note h = number_char_head [OF this]
  then show "parseValue (Suc k) (t @ r) = Some (parseNumber (t @ r))" "starts_value (t @ r)"
    using skipWs_head [of "t @ r"] by (simp_all add: c starts_value_def)
qed

lemma parseValue_head: "\<not> is_ws c \<Longrightarrow> parseValue (Suc k) (c # s) = (if c = CHR ''{'' then parseObject (parseValue k) s
       else if c = CHR ''['' then parseArray (parseValue k) s
       else if c = CHR 0x22 then Some (mlk_try (parseString (c # s)) (\<lambda>(x, r). Inr (JString x, r)))
       else if c = CHR ''t'' then Some (match_word ''true'' (JBool True) (c # s))
       else if c = CHR ''f'' then Some (match_word ''false'' (JBool False) (c # s))
       else if c = CHR ''n'' then Some (match_word ''null'' JNull (c # s))
       else Some (parseNumber (c # s)))"
  using skipWs_head [of "c # s"] by simp

declare parseValue.simps(2) [simp del]

lemma parseValue_double:
  assumes "after_number r"
  shows "parseValue (Suc k) (serializeDouble d @ r) = Some (Inr (json_back (JDouble d), r)) \<and> starts_value (serializeDouble d @ r)"
proof -
  consider (fin) "f64_exp d < 2047" | (inf) "f64_inf d" | (nan) "f64_nan d" using f64_classes by blast
  then show ?thesis
  proof cases
    case fin
    note p = parseNumber_double [OF fin assms]
    show ?thesis using parseValue_number(1) [OF p(2,3), of k r] parseValue_number(2) [OF p(2,3), of r] p(1) not_special [OF fin] by (simp add: serializeDouble_def)
  next
    case inf
    let ?t = "(if f64_neg_sign d then ''-'' else []) @ ''1e308''"
    have t: "?t \<noteq> []" "list_all number_char ?t" by (simp_all add: number_char_def is_digit_def double_char_def sign_char_def)
    have "serializeDouble d = ?t" using inf inf_pack [OF inf] by (simp add: serializeDouble_def)
    then show ?thesis using parseValue_number(1) [OF t, of k r] parseValue_number(2) [OF t, of r] parseNumber_1e308 [OF assms, where neg="f64_neg_sign d"] inf inf_pack [OF inf]
      by (simp split: if_splits)
  next
    case nan
    then show ?thesis by (simp add: serializeDouble_def parseValue_head is_ws_def match_word_def starts_value_def)
  qed
qed

lemma ser_items_False: "ser_items ind k False xs = (if xs = [] then [] else CHR '','' # ser_items ind k True xs)"
  by (cases xs) simp_all

lemma ser_members_False: "ser_members ind k False ms = (if ms = [] then [] else CHR '','' # ser_members ind k True ms)"
  by (cases ms) auto

definition reads :: "nat \<Rightarrow> string \<Rightarrow> json \<Rightarrow> bool" where
  "reads k t v \<longleftrightarrow> (\<forall>r. after_number r \<longrightarrow> parseValue k (t @ r) = Some (Inr (v, r)) \<and> starts_value (t @ r))"

lemma after_number_sep: "after_number (CHR '','' # r)" "after_number (CHR '']'' # r)" "after_number (CHR ''}'' # r)" "after_number (json_newline ind k @ CHR '']'' # r)"
  "after_number (json_newline ind k @ CHR ''}'' # r)"
proof -
  have n: "\<not> number_char CHR '',''" "\<not> number_char CHR '']''" "\<not> number_char CHR ''}''" "\<not> number_char CHR 0x0A"
    by (simp_all add: number_char_def is_digit_def double_char_def sign_char_def)
  then show "after_number (CHR '','' # r)" "after_number (CHR '']'' # r)" "after_number (CHR ''}'' # r)" "after_number (json_newline ind k @ CHR '']'' # r)"
    "after_number (json_newline ind k @ CHR ''}'' # r)" by (simp_all add: after_number_def json_newline_def)
qed

lemma skipWs_close: "skipWs (json_newline ind k @ CHR '']'' # r) = CHR '']'' # r" "skipWs (json_newline ind k @ CHR ''}'' # r) = CHR ''}'' # r"
  "skipWs (CHR '','' # r) = CHR '','' # r" "skipWs (CHR '':'' # r) = CHR '':'' # r" "skipWs (CHR 0x22 # r) = CHR 0x22 # r"
proof -
  have "\<not> is_ws CHR '']''" "\<not> is_ws CHR ''}''" "\<not> is_ws CHR '',''" "\<not> is_ws CHR '':''" "\<not> is_ws CHR 0x22" by (simp_all add: is_ws_def)
  then show "skipWs (json_newline ind k @ CHR '']'' # r) = CHR '']'' # r" "skipWs (json_newline ind k @ CHR ''}'' # r) = CHR ''}'' # r"
    "skipWs (CHR '','' # r) = CHR '','' # r" "skipWs (CHR '':'' # r) = CHR '':'' # r" "skipWs (CHR 0x22 # r) = CHR 0x22 # r"
    by (simp_all add: skipWs_blanks [OF blanks_newline] skipWs_head)
qed

lemma array_loop_items:
  assumes "xs \<noteq> []" and "\<And>x. x \<in> set xs \<Longrightarrow> reads m (serializeImpl ind (k + 1) x) (json_back x)"
  shows "array_loop (parseValue m) arr (ser_items ind k True xs @ json_newline ind k @ CHR '']'' # r) = Some (Inr (JArray (arr @ map json_back xs), r))"
  using assms
proof (induction xs arbitrary: arr)
  case (Cons x xs)
  let ?tail = "ser_items ind k False xs @ json_newline ind k @ CHR '']'' # r"
  have "after_number ?tail" using after_number_sep by (cases xs) simp_all
  then have p: "parseValue m (serializeImpl ind (k + 1) x @ ?tail) = Some (Inr (json_back x, ?tail))"
    using Cons.prems(2) [of x] by (simp add: reads_def)
  have arr_eq: "array_loop (parseValue m) arr (skipWs u) = array_loop (parseValue m) arr u" for u arr
    by (subst (1 2) array_loop.simps) (simp add: parseValue_skip)
  show ?case
  proof (cases "xs = []")
    case True
    with p show ?thesis by (subst array_loop.simps) (simp add: parseValue_blanks [OF blanks_newline] skipWs_close)
  next
    case False
    let ?next = "ser_items ind k True xs @ json_newline ind k @ CHR '']'' # r"
    have "array_loop (parseValue m) (arr @ [json_back x]) ?next = Some (Inr (JArray (arr @ map json_back (x # xs)), r))"
      using Cons.IH [OF False, of "arr @ [json_back x]"] Cons.prems(2) by simp
    with p False show ?thesis
      by (subst array_loop.simps) (simp add: parseValue_blanks [OF blanks_newline] ser_items_False skipWs_close arr_eq)
  qed
qed simp

lemma object_loop_members:
  assumes "ms \<noteq> []" and "\<And>x. x \<in> snd ` set ms \<Longrightarrow> reads m (serializeImpl ind (k + 1) x) (json_back x)"
  shows "object_loop (parseValue m) obj (ser_members ind k True ms @ json_newline ind k @ CHR ''}'' # r)
    = Some (Inr (JObject (obj @ map (\<lambda>m. (fst m, json_back (snd m))) ms), r))"
  using assms
proof (induction ms arbitrary: obj)
  case (Cons kv ms)
  obtain key x where kv: "kv = (key, x)" by fastforce
  let ?tail = "ser_members ind k False ms @ json_newline ind k @ CHR ''}'' # r"
  let ?sp = "if 0 \<le> ind then '' '' else []"
  define V where "V = ?sp @ serializeImpl ind (k + 1) x @ ?tail"
  have "after_number ?tail" using after_number_sep by (cases ms) auto
  then have "parseValue m (serializeImpl ind (k + 1) x @ ?tail) = Some (Inr (json_back x, ?tail))"
    using Cons.prems(2) [of x] kv by (simp add: reads_def)
  moreover have "blanks ?sp" by (simp add: blanks_def is_ws_def)
  ultimately have p: "parseValue m V = Some (Inr (json_back x, ?tail))" unfolding V_def using parseValue_blanks by metis
  have "skipWs (json_newline ind (Suc k) @ escape_string key @ CHR '':'' # V) = escape_string key @ CHR '':'' # V"
    using skipWs_close(5) by (simp add: skipWs_blanks [OF blanks_newline] escape_string_def)
  then have k: "parseString (skipWs (json_newline ind (Suc k) @ escape_string key @ CHR '':'' # V)) = Inr (key, CHR '':'' # V)"
    by (simp only: parseString_escaped)
  have shape: "ser_members ind k True (kv # ms) @ json_newline ind k @ CHR ''}'' # r = json_newline ind (Suc k) @ escape_string key @ CHR '':'' # V"
    by (simp add: kv V_def)
  show ?case
  proof (cases "ms = []")
    case True
    then show ?thesis unfolding shape by (subst object_loop.simps) (simp add: k p skipWs_close kv)
  next
    case False
    let ?next = "ser_members ind k True ms @ json_newline ind k @ CHR ''}'' # r"
    have "object_loop (parseValue m) (obj @ [(key, json_back x)]) ?next = Some (Inr (JObject (obj @ map (\<lambda>m. (fst m, json_back (snd m))) (kv # ms)), r))"
      using Cons.IH [OF False, of "obj @ [(key, json_back x)]"] Cons.prems(2) kv by simp
    with False show ?thesis unfolding shape
      by (subst object_loop.simps) (simp add: k p ser_members_False skipWs_close)
  qed
qed simp

lemma reads_container:
  assumes "xs \<noteq> []" and "\<And>x. x \<in> set xs \<Longrightarrow> reads m (serializeImpl ind (k + 1) x) (json_back x)"
  shows "parseArray (parseValue m) (ser_items ind k True xs @ json_newline ind k @ CHR '']'' # r) = Some (Inr (JArray (map json_back xs), r))"
proof -
  obtain x ys where xs: "xs = x # ys" using assms(1) by (cases xs) auto
  let ?tail = "ser_items ind k False ys @ json_newline ind k @ CHR '']'' # r"
  let ?t = "ser_items ind k True xs @ json_newline ind k @ CHR '']'' # r"
  have "after_number ?tail" using after_number_sep by (cases ys) simp_all
  then have "starts_value (serializeImpl ind (k + 1) x @ ?tail)" using assms(2) [of x] by (simp add: reads_def xs)
  then have "skipWs ?t = serializeImpl ind (k + 1) x @ ?tail" "hd (skipWs ?t) \<noteq> CHR '']''" "skipWs ?t \<noteq> []"
    by (simp_all add: xs skipWs_blanks [OF blanks_newline] skipWs_head starts_value_def)
  then have "parseArray (parseValue m) ?t = array_loop (parseValue m) [] (skipWs ?t)" by (simp add: parseArray_def Let_def)
  also have "\<dots> = array_loop (parseValue m) [] ?t" by (subst (1 2) array_loop.simps) (simp add: parseValue_skip)
  finally show ?thesis using array_loop_items [OF assms, of "[]" r] by simp
qed

lemma reads_object:
  assumes "ms \<noteq> []" and "\<And>x. x \<in> snd ` set ms \<Longrightarrow> reads m (serializeImpl ind (k + 1) x) (json_back x)"
  shows "parseObject (parseValue m) (ser_members ind k True ms @ json_newline ind k @ CHR ''}'' # r)
    = Some (Inr (JObject (map (\<lambda>m. (fst m, json_back (snd m))) ms), r))"
proof -
  let ?t = "ser_members ind k True ms @ json_newline ind k @ CHR ''}'' # r"
  obtain key x ns where ms: "ms = (key, x) # ns" using assms(1) by (cases ms) auto
  have h: "hd (skipWs ?t) = CHR 0x22" "skipWs ?t \<noteq> []"
    by (simp_all add: ms skipWs_blanks [OF blanks_newline] escape_string_def skipWs_close)
  then have "parseObject (parseValue m) ?t = object_loop (parseValue m) [] (skipWs ?t)" by (simp add: parseObject_def Let_def)
  also have "\<dots> = object_loop (parseValue m) [] ?t" by (subst (1 2) object_loop.simps) simp
  finally show ?thesis using object_loop_members [OF assms, of "[]" r] by simp
qed

lemma reads_value: "json_fits n v \<Longrightarrow> n + k = 128 \<Longrightarrow> reads (Suc n) (serializeImpl ind k v) (json_back v)"
proof (induction v arbitrary: n k rule: json.induct)
  case JNull
  then show ?case by (simp add: reads_def serializeImpl.simps kMaxDepth_def parseValue_head is_ws_def match_word_def starts_value_def)
next
  case (JBool b)
  then show ?case by (simp add: reads_def serializeImpl.simps kMaxDepth_def parseValue_head is_ws_def match_word_def starts_value_def)
next
  case (JInt i)
  obtain ip where t: "show_int i = (if i < 0 then ''-'' else []) @ ip" "ip \<noteq> []" "list_all is_digit ip" by (rule show_int_text)
  have "show_int i \<noteq> []" "list_all number_char (show_int i)" using t integer_text(1) [OF t(2,3), of "i < 0"] by simp_all
  note p = parseValue_number [OF this]
  from JInt show ?case using parseNumber_int [of i] p by (simp add: reads_def serializeImpl.simps kMaxDepth_def)
next
  case (JDouble d)
  then show ?case using parseValue_double by (simp add: reads_def serializeImpl.simps kMaxDepth_def del: json_back.simps)
next
  case (JString s)
  have "parseValue (Suc n) (escape_string s @ r) = Some (Inr (JString s, r)) \<and> starts_value (escape_string s @ r)" for r
    using parseString_escaped [of s r] by (simp add: escape_string_def parseValue_head is_ws_def starts_value_def)
  with JString show ?case by (simp add: reads_def serializeImpl.simps kMaxDepth_def)
next
  case (JArray xs)
  show ?case
  proof (cases "xs = []")
    case True
    have "skipWs (CHR '']'' # r) = CHR '']'' # r" for r using skipWs_close(1) [of "-1" 0 r] by (simp add: json_newline_def)
    with True JArray.prems show ?thesis
      by (simp add: reads_def serializeImpl.simps kMaxDepth_def parseValue_head is_ws_def starts_value_def parseArray_def)
  next
    case False
    then obtain n' where n: "n = Suc n'" using JArray.prems(1) by (cases n; cases xs) auto
    have "reads n (serializeImpl ind (k + 1) x) (json_back x)" if "x \<in> set xs" for x
      using JArray.IH [OF that, of n' "k + 1"] JArray.prems that by (simp add: n list_all_iff)
    from reads_container [OF False this] False JArray.prems(2) show ?thesis
      by (simp add: reads_def serializeImpl.simps kMaxDepth_def parseValue_head is_ws_def starts_value_def)
  qed
next
  case (JObject ms)
  show ?case
  proof (cases "ms = []")
    case True
    have "skipWs (CHR ''}'' # r) = CHR ''}'' # r" for r using skipWs_close(2) [of "-1" 0 r] by (simp add: json_newline_def)
    with True JObject.prems show ?thesis
      by (simp add: reads_def serializeImpl.simps kMaxDepth_def parseValue_head is_ws_def starts_value_def parseObject_def)
  next
    case False
    then obtain n' where n: "n = Suc n'" using JObject.prems(1) by (cases n; cases ms) auto
    have "reads n (serializeImpl ind (k + 1) x) (json_back x)" if "x \<in> snd ` set ms" for x
    proof -
      from that obtain m where "m \<in> set ms" "x = snd m" by blast
      then show ?thesis using JObject.IH [of m x n' "k + 1"] JObject.prems by (auto simp: n list_all_iff snds.simps)
    qed
    from reads_object [OF False this] False JObject.prems(2) show ?thesis
      by (simp add: reads_def serializeImpl.simps kMaxDepth_def parseValue_head is_ws_def starts_value_def)
  qed
qed

lemma json_read_back:
  assumes "json_fits 128 v"
  shows "json_parse (serialize v) = Some (Inr (json_back v))" "json_parse (serializePretty v) = Some (Inr (json_back v))"
proof -
  have r: "reads 129 (serializeImpl ind 0 v) (json_back v)" for ind using reads_value [OF assms, of 0 ind] by (simp add: numeral_eq_Suc)
  have nl: "after_number [CHR 0x0A]" "skipWs [CHR 0x0A] = []" by (simp_all add: after_number_def number_char_def is_digit_def double_char_def sign_char_def skipWs_def is_ws_def)
  show "json_parse (serialize v) = Some (Inr (json_back v))"
    using r [of "- 1"] unfolding reads_def serialize_def json_parse_def parseValue_skip
    by (auto simp: after_number_def skipWs_def dest!: spec [of _ "[]"])
  show "json_parse (serializePretty v) = Some (Inr (json_back v))"
    using r [of 2] nl unfolding reads_def serializePretty_def json_parse_def parseValue_skip
    by (auto dest!: spec [of _ "[CHR 0x0A]"])
qed

end
