(* ===== verification/Interpreter.thy ===== *)
theory Interpreter
  imports Math_Graph Hash_Map_Laws
begin

text \<open>
  The tier-0 reference interpreter of \<open>runtime/src/execution/execution.cpp\<close>. It is the meaning of a
  graph: the passes of the compiler must not change what it returns. Scalars live in a hash map
  from value ids; an unbound value reads as zero. The second half gives its result as equations
  between the values of a graph, on which the proofs about passes rest.
\<close>

section \<open>One operation\<close>

text \<open>The result, and whether it was defined.\<close>

definition evalScalar :: "libm \<Rightarrow> math_op \<Rightarrow> f64 \<Rightarrow> f64 \<Rightarrow> f64 \<times> bool" where
  "evalScalar lm p a b =
     (let lib = (\<lambda>r. (f64_canon r, True)) in
      case p of
        Op_Add \<Rightarrow> (f64_add a b, True)
      | Op_Sub \<Rightarrow> (f64_sub a b, True)
      | Op_Mul \<Rightarrow> (f64_mul a b, True)
      | Op_Div \<Rightarrow> if f64_equal b 0 then (0, False) else (f64_div a b, True)
      | Op_Neg \<Rightarrow> (f64_neg a, True)
      | Op_Pow \<Rightarrow> if f64_equal a 0 \<and> f64_less b 0 then (0, False) else lib (lm_pow lm a b)
      | Op_Exp \<Rightarrow> lib (lm_exp lm a)
      | Op_Log \<Rightarrow> if f64_le a 0 then (0, False) else lib (lm_log lm a)
      | Op_Sin \<Rightarrow> lib (lm_sin lm a)
      | Op_Cos \<Rightarrow> lib (lm_cos lm a)
      | Op_Tan \<Rightarrow> lib (lm_tan lm a)
      | Op_Tanh \<Rightarrow> lib (lm_tanh lm a)
      | Op_Sqrt \<Rightarrow> if f64_less a 0 then (0, False) else lib (lm_sqrt lm a)
      | Op_Rsqrt \<Rightarrow> if f64_le a 0 then (0, False) else (f64_div f64_one (lm_sqrt lm a), True)
      | Op_Erf \<Rightarrow> lib (lm_erf lm a)
      | Op_Gelu \<Rightarrow> (f64_mul (f64_mul 0x3fe0000000000000 a) (f64_add f64_one (f64_canon (lm_tanh lm
          (f64_mul 0x3fe9884533d43651 (f64_add a (f64_mul (f64_mul (f64_mul 0x3fa6e4e26d4801f7 a) a) a)))))), True)
      | _ \<Rightarrow> (0, False))"

text \<open>What the interpreter stores for a node: nothing for tensor and symbolic operations, the first
  operand for conversions, the scalar result otherwise.\<close>

definition node_out :: "libm \<Rightarrow> math_op \<Rightarrow> f64 \<Rightarrow> f64 \<Rightarrow> f64 option" where
  "node_out lm p a b =
     (if p \<in> set [Op_MatMul, Op_Dot, Op_Transpose, Op_Reshape, Op_Broadcast, Op_ReduceSum, Op_ReduceMax, Op_ReduceMean,
           Op_Softmax, Op_Einsum, Op_Conv] then None
      else if p \<in> set [Op_Derivative, Op_Integral, Op_Gradient, Op_Limit, Op_Solve, Op_Apply, Op_Lambda] then None
      else if p \<in> set [Op_IntToFloat, Op_FloatToInt, Op_RealToComplex, Op_ScalarToTensor, Op_TensorToScalar, Op_LayoutTransform,
           Op_Reinterpret, Op_BitCast, Op_Box, Op_Unbox, Op_NativeToMathRef, Op_MathToNativeRef] then Some a
      else Some (f64_canon (fst (evalScalar lm p a b))))"

section \<open>The run\<close>

definition constant_double :: "constant_payload \<Rightarrow> f64" where
  "constant_double c = (if cp_isInt c then f64_of_int (cp_i64 c) else f64_canon (cp_f64 c))"

text \<open>Placeholders and variables take the inputs in the order of their ids; missing inputs are zero.\<close>

fun bind_values :: "gvalue list \<Rightarrow> f64 list \<Rightarrow> (nat, f64) hash_map \<Rightarrow> (nat, f64) hash_map result option" where
  "bind_values [] ins m = Some (Inr m)"
| "bind_values (v # vs) ins m =
     (if v_kind v = Placeholder \<or> v_kind v = Variable then
        then_call (hm_put id_hash (v_id v) (case ins of [] \<Rightarrow> 0 | x # xs \<Rightarrow> f64_canon x) m) (bind_values vs (drop 1 ins))
      else if v_kind v = Constant then then_call (hm_put id_hash (v_id v) (constant_double (v_constant v)) m) (bind_values vs ins)
      else bind_values vs ins m)"

definition read_scalar :: "math_graph \<Rightarrow> (nat, f64) hash_map \<Rightarrow> nat \<Rightarrow> f64 result option" where
  "read_scalar g m v = then_call (representative g v) (\<lambda>r. then_call (hm_get id_hash r m) (\<lambda>d.
     Some (Inr (case d of None \<Rightarrow> 0 | Some x \<Rightarrow> x))))"

definition read_operand :: "math_graph \<Rightarrow> (nat, f64) hash_map \<Rightarrow> gnode \<Rightarrow> nat \<Rightarrow> f64 result option" where
  "read_operand g m n k = (if length (n_inputs n) > k then read_scalar g m (n_inputs n ! k) else Some (Inr 0))"

definition run_node :: "libm \<Rightarrow> math_graph \<Rightarrow> gnode \<Rightarrow> (nat, f64) hash_map \<Rightarrow> (nat, f64) hash_map result option" where
  "run_node lm g n m =
     then_call (read_operand g m n 0) (\<lambda>a. then_call (read_operand g m n 1) (\<lambda>b.
       case node_out lm (n_op n) a b of
         None \<Rightarrow> Some (Inr m)
       | Some r \<Rightarrow> then_call (Some (vec_at (n_results n) 0)) (\<lambda>v. hm_put id_hash v r m)))"

fun run_nodes :: "libm \<Rightarrow> math_graph \<Rightarrow> nat list \<Rightarrow> (nat, f64) hash_map \<Rightarrow> (nat, f64) hash_map result option" where
  "run_nodes lm g [] m = Some (Inr m)"
| "run_nodes lm g (i # is) m = then_call (Some (vec_at (g_nodes g) i)) (\<lambda>n. then_call (run_node lm g n m) (run_nodes lm g is))"

fun read_outputs :: "math_graph \<Rightarrow> (nat, f64) hash_map \<Rightarrow> nat list \<Rightarrow> f64 list result option" where
  "read_outputs g m [] = Some (Inr [])"
| "read_outputs g m (v # vs) = then_call (read_scalar g m v) (\<lambda>d. then_call (read_outputs g m vs) (\<lambda>ds. Some (Inr (d # ds))))"

text \<open>The scalar of every output; the output ids are those of the graph.\<close>

definition interpretGraph :: "libm \<Rightarrow> math_graph \<Rightarrow> f64 list \<Rightarrow> f64 list result option" where
  "interpretGraph lm g ins =
     then_call (bind_values (g_values g) ins hm_new) (\<lambda>m.
     then_call (run_nodes lm g (topoOrder g) m) (\<lambda>m. read_outputs g m (g_outputs g)))"

section \<open>The run over finite maps\<close>

definition get0 :: "(nat \<rightharpoonup> f64) \<Rightarrow> nat \<Rightarrow> f64" where
  "get0 m v = (case m v of None \<Rightarrow> 0 | Some x \<Rightarrow> x)"

definition node_args :: "gnode \<Rightarrow> (nat \<Rightarrow> f64) \<Rightarrow> nat \<Rightarrow> f64" where
  "node_args n F k = (if length (n_inputs n) > k then F (n_inputs n ! k) else 0)"

definition node_store :: "libm \<Rightarrow> gnode \<Rightarrow> (nat \<rightharpoonup> f64) \<Rightarrow> (nat \<rightharpoonup> f64)" where
  "node_store lm n m = (case node_out lm (n_op n) (node_args n (get0 m) 0) (node_args n (get0 m) 1) of
     None \<Rightarrow> m | Some r \<Rightarrow> m(n_results n ! 0 \<mapsto> r))"

fun bindings :: "gvalue list \<Rightarrow> f64 list \<Rightarrow> (nat \<rightharpoonup> f64)" where
  "bindings [] ins = Map.empty"
| "bindings (v # vs) ins =
     (if v_kind v = Placeholder \<or> v_kind v = Variable then
        [v_id v \<mapsto> (case ins of [] \<Rightarrow> 0 | x # xs \<Rightarrow> f64_canon x)] ++ bindings vs (drop 1 ins)
      else if v_kind v = Constant then [v_id v \<mapsto> constant_double (v_constant v)] ++ bindings vs ins
      else bindings vs ins)"

definition live_nodes :: "math_graph \<Rightarrow> gnode list" where
  "live_nodes g = filter (\<lambda>n. \<not> node_dead n) (g_nodes g)"

definition scalars :: "libm \<Rightarrow> math_graph \<Rightarrow> f64 list \<Rightarrow> (nat \<rightharpoonup> f64)" where
  "scalars lm g ins = fold (node_store lm) (live_nodes g) (bindings (g_values g) ins)"

text \<open>The number of each value.\<close>

definition meaning :: "libm \<Rightarrow> math_graph \<Rightarrow> f64 list \<Rightarrow> nat \<Rightarrow> f64" where
  "meaning lm g ins = get0 (scalars lm g ins)"

end
