(* ===== verification/Graph_Meaning.thy ===== *)
theory Graph_Meaning
  imports Interpreter
begin

text \<open>
  The invariant of the mathematical graph, and the equations that give the number of each value of
  a graph that satisfies it. They show that the reference interpreter returns on such a graph with
  the numbers of the outputs, and that two graphs with matching nodes give the same numbers.
\<close>

section \<open>The invariant\<close>

text \<open>
  A value that may be used before node \<open>k\<close>: it was never replaced, and if it is a result then of a
  live node with a smaller id.
\<close>

definition usable :: "math_graph \<Rightarrow> nat \<Rightarrow> nat \<Rightarrow> bool" where
  "usable g k v \<longleftrightarrow> v < length (g_values g) \<and> hm_map (g_repr g) v = None
     \<and> (v_kind (g_values g ! v) = NodeResult \<longrightarrow>
         (\<exists>p < k. p < length (g_nodes g) \<and> v_producer (g_values g ! v) = Some p \<and> \<not> node_dead (g_nodes g ! p)
           \<and> n_results (g_nodes g ! p) = [v]))"

definition results_ok :: "math_graph \<Rightarrow> bool" where
  "results_ok g \<longleftrightarrow> (\<forall>i < length (g_nodes g). n_id (g_nodes g ! i) = i \<and> (\<exists>r < length (g_values g).
     n_results (g_nodes g ! i) = [r] \<and> v_kind (g_values g ! r) = NodeResult \<and> v_producer (g_values g ! r) = Some i))"

definition operands_ok :: "math_graph \<Rightarrow> bool" where
  "operands_ok g \<longleftrightarrow> (\<forall>i < length (g_nodes g). \<not> node_dead (g_nodes g ! i) \<longrightarrow>
     (\<forall>v \<in> set (n_inputs (g_nodes g ! i)). usable g i v) \<and> (\<forall>r \<in> set (n_results (g_nodes g ! i)). hm_map (g_repr g) r = None))"

definition store_ok :: "nat \<Rightarrow> (nat, 'v) hash_map \<Rightarrow> bool" where
  "store_ok n m \<longleftrightarrow> hm_ok id_hash m \<and> clean m \<and> dom (hm_map m) \<subseteq> {..<n}"

definition effects_ok :: "math_graph \<Rightarrow> bool" where
  "effects_ok g \<longleftrightarrow> distinct (g_effects g) \<and> set (g_effects g) =
     {i. i < length (g_nodes g) \<and> \<not> node_dead (g_nodes g ! i) \<and> \<not> isPure (n_effects (g_nodes g ! i))}"

definition graph_ok :: "math_graph \<Rightarrow> bool" where
  "graph_ok g \<longleftrightarrow> int (length (g_values g)) < kTombstone \<and> (\<forall>v < length (g_values g). v_id (g_values g ! v) = v)
     \<and> results_ok g \<and> operands_ok g \<and> (\<forall>v \<in> set (g_outputs g). usable g (length (g_nodes g)) v)
     \<and> store_ok (length (g_values g)) (g_repr g) \<and> effects_ok g"

lemma graph_okD:
  assumes "graph_ok g"
  shows "int (length (g_values g)) < kTombstone" and "v < length (g_values g) \<Longrightarrow> v_id (g_values g ! v) = v"
    and "results_ok g" and "operands_ok g" and "v \<in> set (g_outputs g) \<Longrightarrow> usable g (length (g_nodes g)) v"
    and "store_ok (length (g_values g)) (g_repr g)" and "effects_ok g"
  using assms by (auto simp: graph_ok_def)

lemma node_result:
  assumes "graph_ok g" and "i < length (g_nodes g)"
  obtains r where "r < length (g_values g)" "n_results (g_nodes g ! i) = [r]" "v_kind (g_values g ! r) = NodeResult"
    "v_producer (g_values g ! r) = Some i" "n_id (g_nodes g ! i) = i"
  using assms graph_okD(3) [OF assms(1)] unfolding results_ok_def by blast

lemma usable_mono: "usable g i v \<Longrightarrow> i \<le> k \<Longrightarrow> usable g k v"
  unfolding usable_def by (meson order_less_le_trans)

section \<open>Stores\<close>

lemma store_size:
  assumes "store_ok n m"
  shows "length (hm_entries m) \<le> n"
proof -
  have ok: "hm_ok id_hash m" "clean m" "dom (hm_map m) \<subseteq> {..<n}" using assms by (auto simp: store_ok_def)
  have "hm_map m k = Some v \<longleftrightarrow> (k, v) \<in> set (hm_entries m)" for k v
    using hm_map_holds [OF hm_okD(1) [OF ok(1)]] clean_holds [OF ok(1,2)] by simp
  then have "set (hm_keys m) = dom (hm_map m)" by (force simp: dom_def)
  then have "length (hm_entries m) = card (dom (hm_map m))"
    using clean_entries(1) [OF ok(1,2)] by (metis distinct_card length_map)
  also have "\<dots> \<le> n" using card_mono [OF _ ok(3)] by simp
  finally show ?thesis .
qed

lemma store_put:
  assumes "store_ok n m" and "int n < kTombstone" and "v < n"
  shows "\<exists>m'. hm_put id_hash v x m = Some (Inr m') \<and> store_ok n m' \<and> hm_map m' = (hm_map m)(v \<mapsto> x)"
proof -
  have "few_entries m" using store_size [OF assms(1)] assms(2) by (simp add: few_entries_def)
  with growing.put [of id_hash m v x] assms(1) obtain m' where
    "hm_put id_hash v x m = Some (Inr m')" "hm_ok id_hash m' \<and> clean m'" "hm_map m' = (hm_map m)(v \<mapsto> x)"
    by (auto simp: store_ok_def)
  with assms show ?thesis by (auto simp: store_ok_def)
qed

lemma store_get: "store_ok n m \<Longrightarrow> hm_get id_hash v m = Some (Inr (hm_map m v))"
  using hm_get_spec by (auto simp: store_ok_def)

lemma store_new: "store_ok n (hm_new :: (nat, 'v) hash_map)" "hm_map (hm_new :: (nat, 'v) hash_map) = Map.empty"
proof -
  have "hm_ok id_hash (hm_new :: (nat, 'v) hash_map) \<and> clean (hm_new :: (nat, 'v) hash_map)
    \<and> hm_map (hm_new :: (nat, 'v) hash_map) = Map.empty" by (rule new_map)
  then show "store_ok n (hm_new :: (nat, 'v) hash_map)" "hm_map (hm_new :: (nat, 'v) hash_map) = Map.empty"
    by (simp_all add: store_ok_def)
qed

lemma representative_self: "store_ok n (g_repr g) \<Longrightarrow> hm_map (g_repr g) v = None \<Longrightarrow> representative g v = Some (Inr v)"
  by (simp add: representative_def kMaxEquivalenceDepth_def numeral_eq_Suc store_get)

lemma read_scalar_run:
  "graph_ok g \<Longrightarrow> store_ok n m \<Longrightarrow> usable g k v \<Longrightarrow> read_scalar g m v = Some (Inr (get0 (hm_map m) v))"
  using representative_self [OF graph_okD(6)] store_get [of n m v] by (simp add: read_scalar_def usable_def get0_def)

section \<open>The interpreter returns\<close>

lemma bind_values_run:
  assumes "int n < kTombstone" and "store_ok n m" and "\<forall>v \<in> set vs. v_id v < n"
  shows "\<exists>m'. bind_values vs ins m = Some (Inr m') \<and> store_ok n m' \<and> hm_map m' = hm_map m ++ bindings vs ins"
  using assms(2,3)
proof (induction vs arbitrary: ins m)
  case (Cons v vs)
  have step: "\<exists>m'. then_call (hm_put id_hash (v_id v) x m) (bind_values vs ins') = Some (Inr m') \<and> store_ok n m'
    \<and> hm_map m' = hm_map m ++ ([v_id v \<mapsto> x] ++ bindings vs ins')" for x ins'
  proof -
    from store_put [OF Cons.prems(1) assms(1), of "v_id v" x] Cons.prems(2) obtain m1 where
      m1: "hm_put id_hash (v_id v) x m = Some (Inr m1)" "store_ok n m1" "hm_map m1 = (hm_map m)(v_id v \<mapsto> x)" by auto
    from Cons.IH [OF m1(2), of ins'] Cons.prems(2) obtain m2 where
      m2: "bind_values vs ins' m1 = Some (Inr m2)" "store_ok n m2" "hm_map m2 = hm_map m1 ++ bindings vs ins'" by auto
    have "hm_map m1 ++ bindings vs ins' = hm_map m ++ ([v_id v \<mapsto> x] ++ bindings vs ins')"
      unfolding m1(3) by (metis map_add_assoc map_add_empty map_add_upd)
    with m1(1) m2 show ?thesis by auto
  qed
  consider "v_kind v = Placeholder \<or> v_kind v = Variable" | "v_kind v = Constant" | "v_kind v = NodeResult \<or> v_kind v = Symbol"
    by (cases "v_kind v") auto
  then show ?case by cases (use step Cons.IH [OF Cons.prems(1), of ins] Cons.prems(2) in auto)
qed simp

lemma read_operand_run:
  assumes "graph_ok g" and "store_ok n m" and "\<forall>v \<in> set (n_inputs nd). usable g k v"
  shows "read_operand g m nd j = Some (Inr (node_args nd (get0 (hm_map m)) j))"
  using read_scalar_run [OF assms(1,2), of k] assms(3) by (auto simp: read_operand_def node_args_def)

lemma run_node_run:
  assumes ok: "graph_ok g" and m: "store_ok (length (g_values g)) m" and i: "i < length (g_nodes g)" "\<not> node_dead (g_nodes g ! i)"
  shows "\<exists>m'. run_node lm g (g_nodes g ! i) m = Some (Inr m') \<and> store_ok (length (g_values g)) m'
    \<and> hm_map m' = node_store lm (g_nodes g ! i) (hm_map m)"
proof -
  let ?n = "g_nodes g ! i"
  have args: "read_operand g m ?n j = Some (Inr (node_args ?n (get0 (hm_map m)) j))" for j
    using read_operand_run [OF ok m, of ?n i] graph_okD(4) [OF ok] i by (simp add: operands_ok_def)
  obtain r where r: "r < length (g_values g)" "n_results ?n = [r]" using node_result [OF ok i(1)] by metis
  show ?thesis
  proof (cases "node_out lm (n_op ?n) (node_args ?n (get0 (hm_map m)) 0) (node_args ?n (get0 (hm_map m)) 1)")
    case None
    then show ?thesis using m by (simp add: run_node_def args node_store_def)
  next
    case (Some x)
    with store_put [OF m graph_okD(1) [OF ok] r(1), of x] r(2) show ?thesis
      by (auto simp: run_node_def args node_store_def vec_at_def)
  qed
qed

lemma run_nodes_run:
  assumes ok: "graph_ok g" and m: "store_ok (length (g_values g)) m"
    and "\<forall>i \<in> set is. i < length (g_nodes g) \<and> \<not> node_dead (g_nodes g ! i)"
  shows "\<exists>m'. run_nodes lm g is m = Some (Inr m') \<and> store_ok (length (g_values g)) m'
    \<and> hm_map m' = fold (node_store lm) (map ((!) (g_nodes g)) is) (hm_map m)"
  using m assms(3)
proof (induction "is" arbitrary: m)
  case (Cons i js)
  then have i: "i < length (g_nodes g)" "\<not> node_dead (g_nodes g ! i)" by auto
  from run_node_run [OF ok Cons.prems(1) i, of lm] obtain m' where m': "run_node lm g (g_nodes g ! i) m = Some (Inr m')"
    "store_ok (length (g_values g)) m'" "hm_map m' = node_store lm (g_nodes g ! i) (hm_map m)" by blast
  from Cons.IH [OF m'(2)] Cons.prems(2) m' i show ?case by (auto simp: vec_at_def)
qed simp

lemma topo_live:
  assumes "graph_ok g"
  shows "map ((!) (g_nodes g)) (topoOrder g) = live_nodes g"
    and "i \<in> set (topoOrder g) \<longleftrightarrow> i < length (g_nodes g) \<and> \<not> node_dead (g_nodes g ! i)"
proof -
  have id: "n_id (g_nodes g ! i) = i" if "i < length (g_nodes g)" for i using node_result [OF assms that] by metis
  have "g_nodes g ! n_id n = n" if "n \<in> set (g_nodes g)" for n using that id by (auto simp: in_set_conv_nth)
  then show "map ((!) (g_nodes g)) (topoOrder g) = live_nodes g"
    by (auto simp: topoOrder_def live_nodes_def intro!: map_idI)
  have "set (topoOrder g) = n_id ` {n \<in> set (g_nodes g). \<not> node_dead n}" by (simp add: topoOrder_def)
  also have "\<dots> = {i. i < length (g_nodes g) \<and> \<not> node_dead (g_nodes g ! i)}"
    using id by (force simp: in_set_conv_nth image_iff)
  finally show "i \<in> set (topoOrder g) \<longleftrightarrow> i < length (g_nodes g) \<and> \<not> node_dead (g_nodes g ! i)" by simp
qed

lemma topo_sorted:
  assumes "graph_ok g"
  shows "sorted_wrt (<) (topoOrder g)"
proof -
  have "n_id (g_nodes g ! i) = i" if "i < length (g_nodes g)" for i using node_result [OF assms that] by metis
  then have ids: "map n_id (g_nodes g) = [0..<length (g_nodes g)]" by (intro nth_equalityI) auto
  have "sorted_wrt (<) (map n_id (filter P ns))" if "sorted_wrt (<) (map n_id ns)" for P ns
    using that by (induction ns) auto
  from this [of "g_nodes g"] show ?thesis unfolding topoOrder_def ids by simp
qed

lemma read_outputs_run:
  assumes "graph_ok g" and "store_ok n m" and "\<forall>v \<in> set vs. usable g k v"
  shows "read_outputs g m vs = Some (Inr (map (get0 (hm_map m)) vs))"
  using assms(3) by (induction vs) (simp_all add: read_scalar_run [OF assms(1,2), of k])

theorem interpret_meaning:
  assumes "graph_ok g"
  shows "interpretGraph lm g ins = Some (Inr (map (meaning lm g ins) (g_outputs g)))"
proof -
  let ?n = "length (g_values g)"
  have "\<forall>v \<in> set (g_values g). v_id v < ?n" using graph_okD(2) [OF assms] by (auto simp: in_set_conv_nth)
  from bind_values_run [OF graph_okD(1) [OF assms] store_new(1) this, of ins] obtain m where
    m: "bind_values (g_values g) ins hm_new = Some (Inr m)" "store_ok ?n m" "hm_map m = bindings (g_values g) ins"
    by (auto simp: store_new(2))
  from run_nodes_run [OF assms m(2), of "topoOrder g" lm] topo_live [OF assms] obtain m' where
    m': "run_nodes lm g (topoOrder g) m = Some (Inr m')" "store_ok ?n m'" "hm_map m' = scalars lm g ins"
    by (auto simp: scalars_def m(3))
  from read_outputs_run [OF assms m'(2), of "g_outputs g" "length (g_nodes g)"] graph_okD(5) [OF assms] m(1) m'(1) show ?thesis
    by (simp add: interpretGraph_def meaning_def m'(3))
qed

section \<open>Equations\<close>

definition stored_upto :: "libm \<Rightarrow> math_graph \<Rightarrow> f64 list \<Rightarrow> nat \<Rightarrow> (nat \<rightharpoonup> f64)" where
  "stored_upto lm g ins k = fold (node_store lm) (filter (\<lambda>n. \<not> node_dead n) (take k (g_nodes g))) (bindings (g_values g) ins)"

lemma stored_upto_Suc:
  "k < length (g_nodes g) \<Longrightarrow> stored_upto lm g ins (Suc k) =
    (if node_dead (g_nodes g ! k) then stored_upto lm g ins k else node_store lm (g_nodes g ! k) (stored_upto lm g ins k))"
  by (simp add: stored_upto_def take_Suc_conv_app_nth)

lemma stored_upto_all: "stored_upto lm g ins (length (g_nodes g)) = scalars lm g ins"
  by (simp add: stored_upto_def scalars_def live_nodes_def)

lemma node_store_other: "n_results n = [r] \<Longrightarrow> v \<noteq> r \<Longrightarrow> node_store lm n m v = m v"
  by (simp add: node_store_def split: option.splits)

lemma stored_later:
  assumes ok: "graph_ok g" and "i \<le> k" and "k \<le> length (g_nodes g)"
    and v: "\<forall>j. i \<le> j \<longrightarrow> j < k \<longrightarrow> v_producer (g_values g ! v) \<noteq> Some j \<or> v_kind (g_values g ! v) \<noteq> NodeResult"
  shows "stored_upto lm g ins k v = stored_upto lm g ins i v"
  using assms(2-4)
proof (induction k)
  case (Suc k)
  show ?case
  proof (cases "i \<le> k")
    case True
    obtain r where r: "n_results (g_nodes g ! k) = [r]" "v_kind (g_values g ! r) = NodeResult" "v_producer (g_values g ! r) = Some k"
      using node_result [OF ok, of k] Suc.prems(2) by (metis Suc_le_eq)
    then have "v \<noteq> r" using Suc.prems(3) True by auto
    with Suc True r(1) show ?thesis by (simp add: stored_upto_Suc node_store_other)
  next
    case False
    with Suc.prems(1) have "i = Suc k" by simp
    then show ?thesis by simp
  qed
qed simp

lemma bindings_none:
  "\<forall>w \<in> set vs. v_id w = v \<longrightarrow> v_kind w = NodeResult \<or> v_kind w = Symbol \<Longrightarrow> bindings vs ins v = None"
proof (induction vs arbitrary: ins)
  case (Cons w ws)
  then show ?case by (cases "v_kind w") (auto simp: map_add_def)
qed simp

lemma meaning_leaf:
  assumes ok: "graph_ok g" and "v_kind (g_values g ! v) \<noteq> NodeResult"
  shows "meaning lm g ins v = get0 (bindings (g_values g) ins) v"
proof -
  have "scalars lm g ins v = stored_upto lm g ins 0 v"
    using stored_later [OF ok, of 0 "length (g_nodes g)" v lm ins] assms(2) by (simp add: stored_upto_all)
  then show ?thesis by (simp add: meaning_def get0_def stored_upto_def)
qed

definition node_value :: "libm \<Rightarrow> gnode \<Rightarrow> (nat \<Rightarrow> f64) \<Rightarrow> f64" where
  "node_value lm n F = (case node_out lm (n_op n) (node_args n F 0) (node_args n F 1) of None \<Rightarrow> 0 | Some r \<Rightarrow> r)"

lemma meaning_result:
  assumes ok: "graph_ok g" and i: "i < length (g_nodes g)" "\<not> node_dead (g_nodes g ! i)" and r: "n_results (g_nodes g ! i) = [r]"
  shows "meaning lm g ins r = node_value lm (g_nodes g ! i) (meaning lm g ins)"
proof -
  let ?S = "stored_upto lm g ins" and ?n = "g_nodes g ! i"
  have rp: "v_kind (g_values g ! r) = NodeResult" "v_producer (g_values g ! r) = Some i" "r < length (g_values g)"
    using node_result [OF ok i(1)] r by auto
  have fin: "scalars lm g ins r = ?S (Suc i) r"
    using stored_later [OF ok, of "Suc i" "length (g_nodes g)" r lm ins] rp i by (simp add: stored_upto_all Suc_le_eq)
  have before: "?S i r = None"
  proof -
    have "?S i r = ?S 0 r" using stored_later [OF ok, of 0 i r lm ins] rp i by simp
    also have "\<dots> = None" unfolding stored_upto_def
      using graph_okD(2) [OF ok] rp by (auto simp: in_set_conv_nth intro!: bindings_none)
    finally show ?thesis .
  qed
  have "scalars lm g ins v = ?S i v" if "v \<in> set (n_inputs ?n)" for v
  proof -
    have "usable g i v" using graph_okD(4) [OF ok] i that by (simp add: operands_ok_def)
    then have "\<forall>j. i \<le> j \<longrightarrow> j < length (g_nodes g) \<longrightarrow> v_producer (g_values g ! v) \<noteq> Some j \<or> v_kind (g_values g ! v) \<noteq> NodeResult"
      by (auto simp: usable_def)
    then show ?thesis using stored_later [OF ok, of i "length (g_nodes g)" v lm ins] i by (simp add: stored_upto_all)
  qed
  then have args: "node_args ?n (get0 (?S i)) k = node_args ?n (meaning lm g ins) k" for k
    by (auto simp: node_args_def meaning_def get0_def)
  show ?thesis
    using fin before r by (auto simp: meaning_def get0_def node_value_def stored_upto_Suc i node_store_def args [unfolded meaning_def] split: option.splits)
qed

section \<open>Graphs with the same numbers\<close>

text \<open>
  Two graphs give the values of a set \<open>K\<close> the same numbers when they agree on its leaves and each of its
  results comes from a node with the same operation whose operands lie in \<open>K\<close> and have the same
  numbers as the operands of its counterpart.
\<close>

lemma node_value_cong:
  "n_op n' = n_op n \<Longrightarrow> length (n_inputs n') = length (n_inputs n)
    \<Longrightarrow> (\<And>k. k < length (n_inputs n) \<Longrightarrow> F' (n_inputs n' ! k) = F (n_inputs n ! k)) \<Longrightarrow> node_value lm n' F' = node_value lm n F"
  by (simp add: node_value_def node_args_def)

lemma meaning_transfer:
  assumes ok: "graph_ok g" "graph_ok g'"
    and leaf: "\<And>v. K v \<Longrightarrow> v_kind (g_values g' ! v) \<noteq> NodeResult \<Longrightarrow> meaning lm g' ins v = meaning lm g ins v"
    and node: "\<And>v. K v \<Longrightarrow> v_kind (g_values g' ! v) = NodeResult \<Longrightarrow> \<exists>p. p < length (g_nodes g') \<and> p < length (g_nodes g)
      \<and> \<not> node_dead (g_nodes g' ! p) \<and> \<not> node_dead (g_nodes g ! p) \<and> n_results (g_nodes g' ! p) = [v] \<and> n_results (g_nodes g ! p) = [v]
      \<and> n_op (g_nodes g' ! p) = n_op (g_nodes g ! p) \<and> length (n_inputs (g_nodes g' ! p)) = length (n_inputs (g_nodes g ! p))
      \<and> (\<forall>k < length (n_inputs (g_nodes g ! p)). K (n_inputs (g_nodes g' ! p) ! k)
          \<and> meaning lm g ins (n_inputs (g_nodes g' ! p) ! k) = meaning lm g ins (n_inputs (g_nodes g ! p) ! k))"
    and "K v"
  shows "meaning lm g' ins v = meaning lm g ins v"
  using \<open>K v\<close>
proof (induction "case v_producer (g_values g' ! v) of None \<Rightarrow> 0 | Some p \<Rightarrow> Suc p" arbitrary: v rule: less_induct)
  case less
  show ?case
  proof (cases "v_kind (g_values g' ! v) = NodeResult")
    case True
    from node [OF less.prems True] obtain p where p: "p < length (g_nodes g')" "p < length (g_nodes g)"
      "\<not> node_dead (g_nodes g' ! p)" "\<not> node_dead (g_nodes g ! p)" "n_results (g_nodes g' ! p) = [v]" "n_results (g_nodes g ! p) = [v]"
      "n_op (g_nodes g' ! p) = n_op (g_nodes g ! p)" "length (n_inputs (g_nodes g' ! p)) = length (n_inputs (g_nodes g ! p))"
      "\<And>k. k < length (n_inputs (g_nodes g ! p)) \<Longrightarrow> K (n_inputs (g_nodes g' ! p) ! k)
          \<and> meaning lm g ins (n_inputs (g_nodes g' ! p) ! k) = meaning lm g ins (n_inputs (g_nodes g ! p) ! k)" by blast
    have prod: "v_producer (g_values g' ! v) = Some p" using node_result [OF ok(2) p(1)] p(5) by fastforce
    have "meaning lm g' ins (n_inputs (g_nodes g' ! p) ! k) = meaning lm g ins (n_inputs (g_nodes g ! p) ! k)"
      if k: "k < length (n_inputs (g_nodes g ! p))" for k
    proof -
      let ?w = "n_inputs (g_nodes g' ! p) ! k"
      have "?w \<in> set (n_inputs (g_nodes g' ! p))" using k p(8) by simp
      then have "usable g' p ?w" using graph_okD(4) [OF ok(2)] p(1,3) by (simp add: operands_ok_def)
      show ?thesis
      proof (cases "v_kind (g_values g' ! ?w) = NodeResult")
        case True
        with \<open>usable g' p ?w\<close> have "(case v_producer (g_values g' ! ?w) of None \<Rightarrow> 0 | Some p \<Rightarrow> Suc p)
          < (case v_producer (g_values g' ! v) of None \<Rightarrow> 0 | Some p \<Rightarrow> Suc p)" by (auto simp: usable_def prod)
        with less.hyps p(9) [OF k] show ?thesis by simp
      next
        case False
        with leaf p(9) [OF k] show ?thesis by simp
      qed
    qed
    then show ?thesis
      using meaning_result [OF ok(1) p(2,4,6), of lm ins] meaning_result [OF ok(2) p(1,3,5), of lm ins]
        node_value_cong [OF p(7,8)] by simp
  qed (rule leaf [OF less.prems])
qed

text \<open>What every use of a live node or an output needs.\<close>

lemma operand_usable:
  "graph_ok g \<Longrightarrow> i < length (g_nodes g) \<Longrightarrow> \<not> node_dead (g_nodes g ! i) \<Longrightarrow> v \<in> set (n_inputs (g_nodes g ! i)) \<Longrightarrow> usable g i v"
  using graph_okD(4) by (simp add: operands_ok_def)

lemma result_usable:
  assumes ok: "graph_ok g" and i: "i < length (g_nodes g)" "\<not> node_dead (g_nodes g ! i)" "v \<in> set (n_results (g_nodes g ! i))"
  shows "usable g (Suc i) v"
proof -
  from node_result [OF ok i(1)] obtain r where r: "r < length (g_values g)" "n_results (g_nodes g ! i) = [r]"
    "v_kind (g_values g ! r) = NodeResult" "v_producer (g_values g ! r) = Some i" by metis
  moreover have "hm_map (g_repr g) r = None" using graph_okD(4) [OF ok] i r(2) by (simp add: operands_ok_def)
  ultimately show ?thesis using i by (auto simp: usable_def)
qed

end
