(* ===== verification/Graph_Build.thy ===== *)
theory Graph_Build
  imports Graph_Meaning
begin

text \<open>
  Every graph that the construction interface of \<open>MathGraph\<close> builds satisfies the invariant, as long
  as the operands of a node and the outputs are usable values and the ids fit.
\<close>

definition extends :: "math_graph \<Rightarrow> math_graph \<Rightarrow> bool" where
  "extends g g' \<longleftrightarrow> (\<exists>vs ns. g_values g' = g_values g @ vs \<and> g_nodes g' = g_nodes g @ ns) \<and> g_repr g' = g_repr g"

lemma usable_extends:
  assumes "extends g g'" and "usable g k v"
  shows "usable g' k v"
proof -
  from assms(1) obtain vs ns where e: "g_values g' = g_values g @ vs" "g_nodes g' = g_nodes g @ ns" "g_repr g' = g_repr g"
    by (auto simp: extends_def)
  from assms(2) have v: "v < length (g_values g)" "g_values g' ! v = g_values g ! v" by (auto simp: usable_def e nth_append)
  have "g_nodes g' ! p = g_nodes g ! p" if "p < length (g_nodes g)" for p using that by (simp add: e nth_append)
  then show ?thesis using assms(2) v unfolding usable_def e(3) by (auto simp: e(1,2))
qed

lemma store_ok_mono: "store_ok n m \<Longrightarrow> n \<le> k \<Longrightarrow> store_ok k m"
  by (auto simp: store_ok_def)

lemma fresh_unmapped: "graph_ok g \<Longrightarrow> hm_map (g_repr g) (length (g_values g)) = None"
  using graph_okD(6) [of g] by (auto simp: store_ok_def dom_def)

lemma new_graph_ok: "graph_ok (new_graph pool)"
proof -
  have frame: "g_values (snd (graph_intern s g)) = g_values g \<and> g_nodes (snd (graph_intern s g)) = g_nodes g
    \<and> g_outputs (snd (graph_intern s g)) = g_outputs g \<and> g_repr (snd (graph_intern s g)) = g_repr g
    \<and> g_effects (snd (graph_intern s g)) = g_effects g" for s g
    by (simp add: graph_intern_def split: prod.splits)
  have "g_values (new_graph pool) = [] \<and> g_nodes (new_graph pool) = [] \<and> g_outputs (new_graph pool) = []
    \<and> g_repr (new_graph pool) = hm_new \<and> g_effects (new_graph pool) = []"
    by (simp add: new_graph_def Let_def frame)
  then show ?thesis using store_new(1) [of 0]
    by (auto simp: graph_ok_def results_ok_def operands_ok_def effects_ok_def kTombstone_def)
qed

lemma allocate_ok:
  assumes ok: "graph_ok g" and fits: "int (length (g_values g)) + 1 < kTombstone" and leaf: "v_kind w \<noteq> NodeResult"
  shows "graph_ok (snd (allocateValue w g))" and "usable (snd (allocateValue w g)) k (fst (allocateValue w g))"
    and "extends g (snd (allocateValue w g))"
proof -
  let ?g = "snd (allocateValue w g)" and ?n = "length (g_values g)"
  have s: "g_values ?g = g_values g @ [w\<lparr>v_id := ?n\<rparr>]" "g_nodes ?g = g_nodes g" "g_repr ?g = g_repr g" "g_outputs ?g = g_outputs g"
    "g_effects ?g = g_effects g" by (simp_all add: allocateValue_def)
  show e: "extends g ?g" by (auto simp: extends_def s)
  note u = usable_extends [OF e]
  have "results_ok ?g"
    using graph_okD(3) [OF ok] unfolding results_ok_def s by (auto simp: nth_append less_Suc_eq)
  moreover have "operands_ok ?g" using graph_okD(4) [OF ok] u unfolding operands_ok_def s by blast
  moreover have "store_ok (length (g_values ?g)) (g_repr ?g)" using graph_okD(6) [OF ok] unfolding s by (rule store_ok_mono) simp
  moreover have "effects_ok ?g" using graph_okD(7) [OF ok] unfolding effects_ok_def s .
  moreover have "\<forall>v < length (g_values ?g). v_id (g_values ?g ! v) = v"
    using graph_okD(2) [OF ok] by (auto simp: s nth_append less_Suc_eq)
  moreover have "\<forall>v \<in> set (g_outputs ?g). usable ?g (length (g_nodes ?g)) v" using graph_okD(5) [OF ok] u unfolding s by blast
  ultimately show "graph_ok ?g" using fits by (simp add: graph_ok_def s add.commute)
  show "usable ?g k (fst (allocateValue w g))"
    using leaf fresh_unmapped [OF ok] by (simp add: usable_def s) (simp add: allocateValue_def)
qed

text \<open>The five kinds of leaves are allocations of values that no node produces.\<close>

lemma leaf_alloc:
  "addPlaceholder name ty = allocateValue (new_value\<lparr>v_kind := Placeholder, v_name := Some name, v_type := ty\<rparr>)"
  "addVariable name ty = allocateValue (new_value\<lparr>v_kind := Variable, v_name := Some name, v_type := ty\<rparr>)"
  "addSymbol name ty = allocateValue (new_value\<lparr>v_kind := Symbol, v_name := Some name, v_type := ty\<rparr>)"
  "addConstant d ty = allocateValue (constant_value \<lparr>cp_isInt = False, cp_f64 = d, cp_i64 = 0\<rparr> ty)"
  "addIntConstant i ty = allocateValue (constant_value \<lparr>cp_isInt = True, cp_f64 = 0, cp_i64 = i\<rparr> ty)"
  by (simp_all add: addPlaceholder_def addVariable_def addSymbol_def addConstant_def addIntConstant_def addInputLike_def fun_eq_iff)

lemma leaf_kind: "v_kind (constant_value c ty) = Constant"
  by (simp add: constant_value_def)

lemma add_node_ok:
  assumes ok: "graph_ok g" and fits: "int (length (g_values g)) + 1 < kTombstone"
    and ins: "\<forall>v \<in> set inputs. usable g (length (g_nodes g)) v"
  shows "\<exists>g'. addNode p inputs attrs g = Inr (length (g_values g), g') \<and> graph_ok g' \<and> usable g' (length (g_nodes g')) (length (g_values g))
    \<and> extends g g' \<and> length (g_nodes g') = Suc (length (g_nodes g)) \<and> length (g_values g') = Suc (length (g_values g))
    \<and> g_outputs g' = g_outputs g \<and> n_op (g_nodes g' ! length (g_nodes g)) = p
    \<and> n_inputs (g_nodes g' ! length (g_nodes g)) = inputs \<and> n_results (g_nodes g' ! length (g_nodes g)) = [length (g_values g)]
    \<and> \<not> node_dead (g_nodes g' ! length (g_nodes g))"
proof -
  let ?n = "length (g_values g)" and ?i = "length (g_nodes g)"
  have all: "list_all (\<lambda>v. v < ?n) inputs" using ins by (auto simp: list_all_iff usable_def)
  obtain name pool where nm: "intern (opName p @ ''_out'') (g_symbols g) = (name, pool)" by fastforce
  define w where "w = new_value\<lparr>v_kind := NodeResult, v_producer := Some ?i, v_name := Some name, v_id := ?n\<rparr>"
  define nd0 where "nd0 = \<lparr>n_id = ?i, n_op = p, n_inputs = inputs, n_results = [?n], n_attrs = attrs, n_effects = 0, n_flags = 0,
                    n_facts = [], n_speculation = new_speculation\<rparr>"
  define nd where "nd = nd0\<lparr>n_effects := inferNodeEffects nd0\<rparr>"
  define g' where "g' = snd (case addNode p inputs attrs g of Inr r \<Rightarrow> r)"
  have run: "addNode p inputs attrs g = Inr (?n, g')" and s: "g_values g' = g_values g @ [w]" "g_nodes g' = g_nodes g @ [nd]"
      "g_repr g' = g_repr g" "g_outputs g' = g_outputs g"
      "g_effects g' = (if isPure (n_effects nd) then g_effects g else g_effects g @ [?i])"
    using all unfolding g'_def
    by (simp_all add: addNode_def Let_def graph_intern_def allocateValue_def attachEffects_def bumpVersion_def nm w_def nd_def nd0_def)
  have w: "v_id w = ?n" "v_kind w = NodeResult" "v_producer w = Some ?i" by (simp_all add: w_def)
  have nd: "n_id nd = ?i" "n_op nd = p" "n_inputs nd = inputs" "n_results nd = [?n]" "n_flags nd = 0"
    by (simp_all add: nd_def nd0_def)
  have live: "\<not> node_dead nd" by (simp add: node_dead_def nd)
  have e: "extends g g'" by (auto simp: extends_def s)
  note u = usable_extends [OF e]
  have fresh: "hm_map (g_repr g) ?n = None" by (rule fresh_unmapped [OF ok])
  have out: "usable g' (Suc ?i) ?n" using fresh live by (auto simp: usable_def s w nd nth_append)
  have "results_ok g'" unfolding results_ok_def s
    using graph_okD(3) [OF ok] w nd by (auto simp: results_ok_def nth_append less_Suc_eq)
  moreover have "operands_ok g'" unfolding operands_ok_def s
    using graph_okD(4) [OF ok] ins u fresh nd by (auto simp: operands_ok_def nth_append less_Suc_eq)
  moreover have "store_ok (length (g_values g')) (g_repr g')" using graph_okD(6) [OF ok] unfolding s by (rule store_ok_mono) simp
  moreover have "effects_ok g'"
  proof -
    let ?E = "\<lambda>g. {i. i < length (g_nodes g) \<and> \<not> node_dead (g_nodes g ! i) \<and> \<not> isPure (n_effects (g_nodes g ! i))}"
    have old: "distinct (g_effects g)" "set (g_effects g) = ?E g" using graph_okD(7) [OF ok] by (simp_all add: effects_ok_def)
    have at: "g_nodes g' ! i = (if i < ?i then g_nodes g ! i else nd)" if "i < Suc ?i" for i
      using that by (auto simp: s nth_append less_Suc_eq)
    have "?E g' = ?E g \<union> (if isPure (n_effects nd) then {} else {?i})"
    proof (intro set_eqI)
      fix i show "i \<in> ?E g' \<longleftrightarrow> i \<in> ?E g \<union> (if isPure (n_effects nd) then {} else {?i})"
        using at [of i] live by (cases "i < ?i"; cases "i = ?i") (simp_all add: s(2))
    qed
    moreover have "?i \<notin> set (g_effects g)" unfolding old(2) by simp
    ultimately show ?thesis unfolding effects_ok_def using old by (simp add: s(5))
  qed
  moreover have "\<forall>v < length (g_values g'). v_id (g_values g' ! v) = v"
    using graph_okD(2) [OF ok] w(1) by (auto simp: s nth_append less_Suc_eq)
  moreover have "\<forall>v \<in> set (g_outputs g'). usable g' (length (g_nodes g')) v"
    using graph_okD(5) [OF ok] u usable_mono [of g' ?i _ "Suc ?i"] by (auto simp: s)
  ultimately have "graph_ok g'" using fits by (simp add: graph_ok_def s(1) add.commute)
  with run out e live nd s show ?thesis by (auto simp: nth_append)
qed

lemma add_output_ok: "graph_ok g \<Longrightarrow> usable g (length (g_nodes g)) v \<Longrightarrow> graph_ok (addOutput v g)"
  by (auto simp: addOutput_def graph_ok_def results_ok_def operands_ok_def effects_ok_def usable_def)

section \<open>Sequences of construction calls\<close>

datatype construction = Make_placeholder nat math_type | Make_variable nat math_type | Make_symbol nat math_type
  | Make_constant f64 math_type | Make_int_constant int math_type | Make_node math_op "nat list" attr_list | Make_output nat

fun build_call :: "construction \<Rightarrow> math_graph \<Rightarrow> math_graph result" where
  "build_call (Make_placeholder s t) g = Inr (snd (addPlaceholder s t g))"
| "build_call (Make_variable s t) g = Inr (snd (addVariable s t g))"
| "build_call (Make_symbol s t) g = Inr (snd (addSymbol s t g))"
| "build_call (Make_constant d t) g = Inr (snd (addConstant d t g))"
| "build_call (Make_int_constant i t) g = Inr (snd (addIntConstant i t g))"
| "build_call (Make_node p ins as) g = mlk_try (addNode p ins as g) (\<lambda>(v, g). Inr g)"
| "build_call (Make_output v) g = Inr (addOutput v g)"

definition build :: "construction list \<Rightarrow> string list \<Rightarrow> math_graph result" where
  "build cs pool = fold_res build_call cs (new_graph pool)"

text \<open>While a graph is only built every value stays usable; outputs are judged at the end.\<close>

definition building :: "math_graph \<Rightarrow> bool" where
  "building g \<longleftrightarrow> graph_ok (g\<lparr>g_outputs := []\<rparr>) \<and> (\<forall>v < length (g_values g). usable g (length (g_nodes g)) v)"

lemma usable_outputs [simp]: "usable (g\<lparr>g_outputs := xs\<rparr>) k v = usable g k v"
  by (simp add: usable_def)

lemma graph_ok_outputs:
  "graph_ok g \<longleftrightarrow> graph_ok (g\<lparr>g_outputs := []\<rparr>) \<and> (\<forall>v \<in> set (g_outputs g). usable g (length (g_nodes g)) v)"
  by (auto simp: graph_ok_def results_ok_def operands_ok_def effects_ok_def)

lemma building_alloc:
  assumes b: "building g" and fits: "int (length (g_values g)) + 1 < kTombstone" and leaf: "v_kind w \<noteq> NodeResult"
  shows "building (snd (allocateValue w g)) \<and> length (g_values (snd (allocateValue w g))) = Suc (length (g_values g))
    \<and> g_outputs (snd (allocateValue w g)) = g_outputs g"
proof -
  let ?h = "g\<lparr>g_outputs := []\<rparr>" and ?g = "snd (allocateValue w g)"
  have h: "graph_ok ?h" "int (length (g_values ?h)) + 1 < kTombstone" using b fits by (simp_all add: building_def)
  have com: "?g\<lparr>g_outputs := []\<rparr> = snd (allocateValue w ?h)" by (simp add: allocateValue_def)
  have e: "extends g ?g" by (auto simp: extends_def allocateValue_def)
  have n: "g_nodes ?g = g_nodes g" "length (g_values ?g) = Suc (length (g_values g))" "g_outputs ?g = g_outputs g"
    by (simp_all add: allocateValue_def)
  have new: "usable ?g k (length (g_values g))" for k
    using allocate_ok(2) [OF h leaf, of k] by (simp add: usable_def allocateValue_def)
  have "usable ?g (length (g_nodes ?g)) v" if "v < length (g_values ?g)" for v
    using that b new usable_extends [OF e] by (cases "v = length (g_values g)") (auto simp: building_def n)
  moreover have "graph_ok (?g\<lparr>g_outputs := []\<rparr>)" unfolding com by (rule allocate_ok(1) [OF h leaf])
  ultimately show ?thesis using n by (simp add: building_def)
qed

lemma building_node:
  assumes b: "building g" and fits: "int (length (g_values g)) + 1 < kTombstone" and run: "addNode p ins as g = Inr (v, g')"
  shows "building g' \<and> length (g_values g') = Suc (length (g_values g)) \<and> g_outputs g' = g_outputs g"
proof -
  let ?h = "g\<lparr>g_outputs := []\<rparr>"
  have h: "graph_ok ?h" "int (length (g_values ?h)) + 1 < kTombstone" using b fits by (simp_all add: building_def)
  have ins: "\<forall>v \<in> set ins. usable ?h (length (g_nodes ?h)) v"
    using run b by (auto simp: addNode_def building_def list_all_iff split: if_splits)
  from add_node_ok [OF h ins, of p as] obtain h' where h': "addNode p ins as ?h = Inr (length (g_values g), h')" "graph_ok h'"
    "usable h' (length (g_nodes h')) (length (g_values g))" "extends ?h h'" "length (g_nodes h') = Suc (length (g_nodes g))"
    "length (g_values h') = Suc (length (g_values g))" by auto
  have com: "h' = g'\<lparr>g_outputs := []\<rparr>" "g_outputs g' = g_outputs g"
    using run h'(1) by (auto simp: addNode_def Let_def graph_intern_def allocateValue_def attachEffects_def bumpVersion_def
        split: prod.splits if_splits)
  have "usable h' (length (g_nodes h')) v" if "v < length (g_values h')" for v
  proof (cases "v = length (g_values g)")
    case False
    with that h'(6) b have "usable ?h (length (g_nodes g)) v" by (simp add: building_def)
    with usable_extends [OF h'(4)] h'(5) usable_mono show ?thesis by (metis le_add2 plus_1_eq_Suc)
  qed (use h'(3) in simp)
  then show ?thesis using h'(2,6) com by (simp add: building_def)
qed

lemma build_run:
  assumes "fold_res build_call cs g = Inr g'" and "building g" and "int (length (g_values g) + length cs) < kTombstone"
  shows "building g'"
  using assms
proof (induction cs arbitrary: g)
  case (Cons c cs)
  from Cons.prems(1) obtain g1 where g1: "build_call c g = Inr g1" "fold_res build_call cs g1 = Inr g'" by auto
  have fits: "int (length (g_values g)) + 1 < kTombstone" using Cons.prems(3) by simp
  have "building g1 \<and> length (g_values g1) \<le> Suc (length (g_values g))"
  proof (cases c)
    case (Make_node p ins as)
    then show ?thesis using g1(1) building_node [OF Cons.prems(2) fits] by (auto simp: mlk_try_Inr_iff split: prod.splits)
  next
    case (Make_output v)
    then have "g1 = g \<or> g1 = g\<lparr>g_outputs := g_outputs g @ [v]\<rparr>" using g1(1) by (auto simp: addOutput_def)
    then show ?thesis using Cons.prems(2) by (auto simp: building_def)
  qed (use g1(1) building_alloc [OF Cons.prems(2) fits] in \<open>auto simp: leaf_alloc leaf_kind\<close>)
  with Cons.IH [OF g1(2)] Cons.prems(3) show ?case by simp
qed simp

lemma build_building:
  assumes "build cs pool = Inr g" and "int (length cs) < kTombstone"
  shows "building g"
proof -
  have i: "g_values (snd (graph_intern s g)) = g_values g \<and> g_outputs (snd (graph_intern s g)) = g_outputs g" for s g
    by (simp add: graph_intern_def split: prod.splits)
  have v: "g_values (new_graph pool) = []" "g_outputs (new_graph pool) = []" by (simp_all add: new_graph_def Let_def i)
  have "graph_ok ((new_graph pool)\<lparr>g_outputs := []\<rparr>)" by (rule conjunct1 [OF graph_ok_outputs [THEN iffD1, OF new_graph_ok]])
  then have "building (new_graph pool)" by (simp add: building_def v)
  with build_run [of cs "new_graph pool" g] assms v show ?thesis by (simp add: build_def)
qed

lemma build_ok:
  assumes "build cs pool = Inr g" and "\<forall>v \<in> set (g_outputs g). v < length (g_values g)" and "int (length cs) < kTombstone"
  shows "graph_ok g \<and> (\<forall>v < length (g_values g). usable g (length (g_nodes g)) v)"
proof -
  have b: "building g" by (rule build_building [OF assms(1,3)])
  with assms(2) have "\<forall>v \<in> set (g_outputs g). usable g (length (g_nodes g)) v" by (simp add: building_def)
  with b graph_ok_outputs [of g] have "graph_ok g" unfolding building_def by blast
  with b show ?thesis by (simp add: building_def)
qed

end
