(* ===== verification/Graph_Json_Laws.thy ===== *)
theory Graph_Json_Laws
  imports Graph_Json Json_Laws Graph_Build
begin

text \<open>
  The loader accepts no document that would make it read out of bounds, and every graph it returns is
  well-formed. A graph that was saved is loaded with the same numbers.
\<close>

section \<open>Loading is safe\<close>

definition fine_result :: "('a \<Rightarrow> bool) \<Rightarrow> 'a result option \<Rightarrow> bool" where
  "fine_result P y \<longleftrightarrow> (\<exists>e. y = Some (Inl (Err e))) \<or> (\<exists>x. y = Some (Inr x) \<and> P x)"

lemma fine_result_simps [simp]:
  "fine_result P (Some parse_error)" "fine_result P (Some (Inr x)) \<longleftrightarrow> P x" "fine_result P (Some (Inl (Err e)))"
  by (auto simp: fine_result_def parse_error_def)

lemma fine_then: "fine_result P y \<Longrightarrow> (\<And>x. y = Some (Inr x) \<Longrightarrow> P x \<Longrightarrow> fine_result Q (f x)) \<Longrightarrow> fine_result Q (then_call y f)"
  by (auto simp: fine_result_def)

definition errors_only :: "'a result \<Rightarrow> bool" where "errors_only y \<longleftrightarrow> y \<noteq> Inl UndefinedBehaviour"

lemma errors_only_simps [simp]: "errors_only (Inr x)" "errors_only parse_error" "errors_only (Inl (Err e))"
  by (simp_all add: errors_only_def parse_error_def)

lemma errors_only_try: "errors_only r \<Longrightarrow> (\<And>x. r = Inr x \<Longrightarrow> errors_only (f x)) \<Longrightarrow> errors_only (mlk_try r f)"
  by (cases r) (auto simp: errors_only_def)

lemma fine_of_errors: "errors_only r \<Longrightarrow> (\<And>x. r = Inr x \<Longrightarrow> P x) \<Longrightarrow> fine_result P (Some r)"
  by (cases r; cases "projl r") (auto simp: errors_only_def fine_result_def)

lemma errors_only_map: "(\<And>x. errors_only (f x)) \<Longrightarrow> errors_only (map_res f xs)"
  by (induction xs) (auto intro!: errors_only_try)

lemma load_type_errors: "errors_only (load_type vo)"
proof -
  have "errors_only (shapeFromJson v)" for v
    by (cases v) (auto simp: shapeFromJson_def as_int_def intro!: errors_only_map split: json.splits)
  then show ?thesis by (auto simp: load_type_def Let_def intro!: errors_only_try split: option.splits)
qed

lemma load_constant_errors: "errors_only (load_constant vo ty)"
  by (auto simp: load_constant_def split: option.splits)

lemma load_constant_kind: "load_constant vo ty = Inr v \<Longrightarrow> v_kind v = Constant"
  by (auto simp: load_constant_def parse_error_def leaf_kind split: option.splits)

lemma leaf_value_kind [simp]: "v_kind (leaf_value k n ty) = k" "v_constant (leaf_value k n ty) = v_constant new_value"
  by (simp_all add: leaf_value_def)

lemma building_symbols: "building (g\<lparr>g_symbols := pool\<rparr>) \<longleftrightarrow> building g"
  by (simp add: building_def graph_ok_def results_ok_def operands_ok_def effects_ok_def usable_def)

lemma load_name_frame:
  "load_name vo g = (name, g1) \<Longrightarrow> \<exists>pool. g1 = g\<lparr>g_symbols := pool\<rparr>"
  by (auto simp: load_name_def graph_intern_def Let_def split: option.splits prod.splits) (metis math_graph.surjective math_graph.update_convs(1))

definition leaf_added :: "math_graph \<Rightarrow> gvalue \<Rightarrow> nat \<Rightarrow> math_graph \<Rightarrow> bool" where
  "leaf_added g w v g' \<longleftrightarrow> v_kind w \<noteq> NodeResult \<and> (\<exists>pool. (v, g') = allocateValue w (g\<lparr>g_symbols := pool\<rparr>))"

lemma load_leaf_shape:
  "errors_only (load_leaf vo kind g)" "load_leaf vo kind g = Inr (v, g') \<Longrightarrow> \<exists>w. leaf_added g w v g'"
proof -
  obtain name g1 where n: "load_name vo g = (name, g1)" by fastforce
  obtain pool where g1: "g1 = g\<lparr>g_symbols := pool\<rparr>" using load_name_frame [OF n] by blast
  show "errors_only (load_leaf vo kind g)"
    unfolding load_leaf_def n by (auto intro!: errors_only_try load_type_errors load_constant_errors)
  assume r: "load_leaf vo kind g = Inr (v, g')"
  then show "\<exists>w. leaf_added g w v g'"
    unfolding load_leaf_def n g1 leaf_added_def
    by (auto simp: mlk_try_Inr_iff parse_error_def split: if_splits dest: load_constant_kind)
      (metis load_constant_kind value_kind.distinct leaf_value_kind(1))+
qed

section \<open>The map of file ids\<close>

definition files_ok :: "nat \<Rightarrow> nat \<Rightarrow> id_map \<Rightarrow> bool" where
  "files_ok n k m \<longleftrightarrow> hm_ok file_hash m \<and> clean m \<and> (\<forall>i v. hm_map m i = Some v \<longrightarrow> 0 \<le> i \<and> i < int n \<and> v < k)"

lemma files_new: "files_ok n k (hm_new :: id_map)" "hm_map (hm_new :: id_map) = Map.empty"
proof -
  have "hm_ok file_hash (hm_new :: id_map) \<and> clean (hm_new :: id_map) \<and> hm_map (hm_new :: id_map) = Map.empty" by (rule new_map)
  then show "files_ok n k (hm_new :: id_map)" "hm_map (hm_new :: id_map) = Map.empty" by (simp_all add: files_ok_def)
qed

lemma files_few:
  assumes "files_ok n k m" and "int n < kTombstone"
  shows "few_entries m"
proof -
  have ok: "hm_ok file_hash m" "clean m" using assms by (auto simp: files_ok_def)
  have "hm_map m i = Some v \<longleftrightarrow> (i, v) \<in> set (hm_entries m)" for i v
    using hm_map_holds [OF hm_okD(1) [OF ok(1)]] clean_holds [OF ok] by simp
  then have "set (hm_keys m) = dom (hm_map m)" by (force simp: dom_def)
  then have "length (hm_entries m) = card (dom (hm_map m))"
    using clean_entries(1) [OF ok] by (metis distinct_card length_map)
  also have "\<dots> \<le> card {0..<int n}" using assms(1) by (intro card_mono) (auto simp: files_ok_def)
  finally show ?thesis using assms(2) by (simp add: few_entries_def)
qed

lemma files_put:
  assumes m: "files_ok n k m" and "int n < kTombstone" and i: "0 \<le> i" "i < int n" and "v < k'" and "k \<le> k'"
  shows "\<exists>m'. hm_put file_hash i v m = Some (Inr m') \<and> files_ok n k' m' \<and> hm_map m' = (hm_map m)(i \<mapsto> v)"
proof -
  have "few_entries m" by (rule files_few) fact+
  with growing.put [of file_hash m i v] m obtain m' where
    "hm_put file_hash i v m = Some (Inr m')" "hm_ok file_hash m' \<and> clean m'" "hm_map m' = (hm_map m)(i \<mapsto> v)"
    by (auto simp: files_ok_def)
  with assms show ?thesis by (fastforce simp: files_ok_def)
qed

lemma files_get: "files_ok n k m \<Longrightarrow> hm_get file_hash i m = Some (Inr (hm_map m i))"
  using hm_get_spec by (auto simp: files_ok_def)

section \<open>The three parts of a file\<close>

definition loading :: "nat \<Rightarrow> id_map \<Rightarrow> math_graph \<Rightarrow> bool" where
  "loading n m g \<longleftrightarrow> building g \<and> g_outputs g = [] \<and> files_ok n (length (g_values g)) m"

lemma leaf_loaded:
  assumes l: "loading n m g" and fits: "int (length (g_values g)) + 1 < kTombstone" and a: "leaf_added g w v g'"
  shows "building g'" "g_outputs g' = []" "v = length (g_values g)" "length (g_values g') = Suc (length (g_values g))"
proof -
  from a obtain pool where p: "v_kind w \<noteq> NodeResult" "(v, g') = allocateValue w (g\<lparr>g_symbols := pool\<rparr>)" by (auto simp: leaf_added_def)
  from p(2) have v: "v = fst (allocateValue w (g\<lparr>g_symbols := pool\<rparr>))" "g' = snd (allocateValue w (g\<lparr>g_symbols := pool\<rparr>))"
    by (metis fst_conv snd_conv)+
  have "building (g\<lparr>g_symbols := pool\<rparr>)" using l by (simp add: loading_def building_symbols)
  from building_alloc [OF this _ p(1)] fits l show "building g'" "g_outputs g' = []" "length (g_values g') = Suc (length (g_values g))"
    by (simp_all add: v loading_def)
  show "v = length (g_values g)" by (simp add: v allocateValue_def)
qed

lemma load_values_fine:
  assumes "loading n m g" and "int (length (g_values g) + length vs) < kTombstone" and "0 \<le> e" "e + int (length vs) \<le> int n" and "int n < kTombstone"
  shows "fine_result (\<lambda>(m', g'). loading n m' g' \<and> length (g_values g') \<le> length (g_values g) + length vs
      \<and> (\<forall>j < length vs. find_int ''id'' (vs ! j) = Some (e + int j))) (load_values vs e m g)"
  using assms(1-4)
proof (induction vs arbitrary: e m g)
  case (Cons vo vs)
  show ?case
  proof (cases "find_int ''id'' vo = Some e")
    case True
    have shift: "(\<forall>j < length (vo # vs). find_int ''id'' ((vo # vs) ! j) = Some (e + int j))
      \<longleftrightarrow> (\<forall>j < length vs. find_int ''id'' (vs ! j) = Some (e + 1 + int j))"
      using True by (auto simp: nth_Cons algebra_simps split: nat.splits)
    show ?thesis
    proof (cases "find_string ''kind'' vo")
      case (Some kind)
      show ?thesis
      proof (cases "kind = ''node_result''")
        case True
        have "fine_result (\<lambda>(m', g'). loading n m' g' \<and> length (g_values g') \<le> length (g_values g) + length vs
            \<and> (\<forall>j < length vs. find_int ''id'' (vs ! j) = Some (e + 1 + int j))) (load_values vs (e + 1) m g)"
          using Cons.IH [OF Cons.prems(1), of "e + 1"] Cons.prems by simp
        then show ?thesis unfolding shift using \<open>find_int ''id'' vo = Some e\<close> Some True by (auto simp: fine_result_def)
      next
        case False
        have "fine_result (\<lambda>(m', g'). loading n m' g' \<and> length (g_values g') \<le> length (g_values g) + length (vo # vs)
            \<and> (\<forall>j < length vs. find_int ''id'' (vs ! j) = Some (e + 1 + int j)))
          (then_call (hm_put file_hash e v m) (\<lambda>m'. load_values vs (e + 1) m' g1))"
          if r: "load_leaf vo kind g = Inr (v, g1)" for v g1
        proof -
          from load_leaf_shape(2) [OF r] obtain w where a: "leaf_added g w v g1" by blast
          note l = leaf_loaded [OF Cons.prems(1) _ a]
          have fits: "int (length (g_values g)) + 1 < kTombstone" using Cons.prems(2) by simp
          note l = l [OF fits]
          have f: "files_ok n (length (g_values g)) m" using Cons.prems(1) by (simp add: loading_def)
          from files_put [OF f assms(5), of e v "length (g_values g1)"] Cons.prems(3,4) l obtain m' where
            m': "hm_put file_hash e v m = Some (Inr m')" "files_ok n (length (g_values g1)) m'" by auto
          have "loading n m' g1" using l m' by (simp add: loading_def)
          from Cons.IH [OF this, of "e + 1"] Cons.prems(2-4) l m'(1) show ?thesis by (auto simp: fine_result_def)
        qed
        then show ?thesis unfolding shift using \<open>find_int ''id'' vo = Some e\<close> Some False load_leaf_shape(1) [of vo kind g]
          by (auto intro!: fine_then [OF fine_of_errors [where P="\<lambda>x. load_leaf vo kind g = Inr x"]])
      qed
    qed (use True in simp)
  qed simp
qed simp

lemma resolve_fine:
  assumes "files_ok n k m"
  shows "fine_result (\<lambda>v. v < k) (resolveInput m i)" "fine_result (\<lambda>vs. \<forall>v \<in> set vs. v < k) (resolve_all m is)"
proof -
  show one: "fine_result (\<lambda>v. v < k) (resolveInput m i)" for i
    using files_get [OF assms] assms by (auto simp: resolveInput_def files_ok_def split: json.splits option.splits)
  show "fine_result (\<lambda>vs. \<forall>v \<in> set vs. v < k) (resolve_all m is)"
    by (induction "is") (auto intro!: fine_then [OF one] fine_then)
qed

lemma result_file_id_range:
  assumes "\<forall>j < length vs. find_int ''id'' (vs ! j) = Some (e + int j)" and "result_file_id vs s = Some i"
  shows "e \<le> i \<and> i < e + int (length vs)"
  using assms
proof (induction vs s arbitrary: e rule: result_file_id.induct)
  case (2 vo vs s)
  have h: "find_int ''id'' vo = Some e" using 2(4) by force
  have "\<forall>j < length vs. find_int ''id'' (vs ! j) = Some (e + 1 + int j)" using 2(4) by (auto simp: algebra_simps dest: spec [of _ "Suc _"])
  then show ?case using 2 h by (fastforce split: if_splits nat.splits option.splits)
qed simp

lemma load_nodes_fine:
  assumes "loading n m g" and "int (length (g_values g) + length ns) < kTombstone" and "int n < kTombstone" and "length vals = n"
    and ids: "\<forall>j < length vals. find_int ''id'' (vals ! j) = Some (int j)"
  shows "fine_result (\<lambda>(m', g'). loading n m' g') (load_nodes vals ns k m g)"
  using assms(1,2)
proof (induction ns arbitrary: k m g)
  case (Cons no ns)
  have f: "files_ok n (length (g_values g)) m" and b: "building g" "g_outputs g = []" using Cons.prems(1) by (simp_all add: loading_def)
  have fits: "int (length (g_values g)) + 1 < kTombstone" using Cons.prems(2) by simp
  have node: "fine_result (\<lambda>(m', g'). loading n m' g') (then_call (Some (addNode op inputs [] g)) (\<lambda>(r, g').
      case result_file_id vals k of None \<Rightarrow> Some parse_error
      | Some i \<Rightarrow> if i < 0 then Some parse_error else then_call (hm_put file_hash i r m) (\<lambda>m'. load_nodes vals ns (k + 1) m' g')))"
    if ins: "\<forall>v \<in> set inputs. v < length (g_values g)" for op inputs
  proof -
    let ?h = "g\<lparr>g_outputs := []\<rparr>"
    have g: "?h = g" using b(2) by simp
    have h: "graph_ok ?h" "int (length (g_values ?h)) + 1 < kTombstone" using b fits by (simp_all add: building_def)
    have "\<forall>v \<in> set inputs. usable ?h (length (g_nodes ?h)) v" using ins b(1) by (simp add: building_def)
    from add_node_ok [OF h this, of op "[]"] obtain g' where g': "addNode op inputs [] g = Inr (length (g_values g), g')" unfolding g by auto
    note bn = building_node [OF b(1) fits g']
    show ?thesis
    proof (cases "result_file_id vals k")
      case (Some i)
      then have i: "0 \<le> i" "i < int n" using result_file_id_range [of vals 0 k i] ids assms(4) by simp_all
      from files_put [OF f assms(3) i, of "length (g_values g)" "length (g_values g')"] bn obtain m' where
        m': "hm_put file_hash i (length (g_values g)) m = Some (Inr m')" "files_ok n (length (g_values g')) m'" by auto
      then have "loading n m' g'" using bn b by (simp add: loading_def)
      from Cons.IH [OF this, of "k + 1"] Cons.prems(2) bn m' g' Some i show ?thesis by simp
    qed (simp add: g')
  qed
  show ?case
    using fine_then [OF resolve_fine(2) [OF f] node] by (auto split: option.splits)
qed (use assms in simp)

lemma load_outputs_fine:
  assumes "files_ok n (length (g_values g)) m" and "graph_ok g" and "\<forall>v < length (g_values g). usable g (length (g_nodes g)) v"
  shows "fine_result graph_ok (load_outputs os m g)"
  using assms
proof (induction os arbitrary: g)
  case (Cons i os)
  have "fine_result graph_ok (load_outputs os m (addOutput v g))" if "v < length (g_values g)" for v
  proof (rule Cons.IH)
    show "graph_ok (addOutput v g)" using add_output_ok Cons.prems(2,3) that by blast
    show "files_ok n (length (g_values (addOutput v g))) m" using Cons.prems(1) by (simp add: addOutput_def)
    show "\<forall>u < length (g_values (addOutput v g)). usable (addOutput v g) (length (g_nodes (addOutput v g))) u"
      using Cons.prems(3) by (auto simp: addOutput_def)
  qed
  then show ?case by (auto intro!: fine_then [OF resolve_fine(1) [OF Cons.prems(1)]])
qed simp

lemma new_graph_building: "building (new_graph pool)" "g_values (new_graph pool) = []" "g_outputs (new_graph pool) = []"
  "g_nodes (new_graph pool) = []"
proof -
  have i: "g_values (snd (graph_intern s g)) = g_values g \<and> g_outputs (snd (graph_intern s g)) = g_outputs g \<and> g_nodes (snd (graph_intern s g)) = g_nodes g" for s g
    by (simp add: graph_intern_def split: prod.splits)
  show v: "g_values (new_graph pool) = []" "g_outputs (new_graph pool) = []" "g_nodes (new_graph pool) = []"
    by (simp_all add: new_graph_def Let_def i)
  have "graph_ok ((new_graph pool)\<lparr>g_outputs := []\<rparr>)" by (rule conjunct1 [OF graph_ok_outputs [THEN iffD1, OF new_graph_ok]])
  then show "building (new_graph pool)" by (simp add: building_def v)
qed

text \<open>The lists of a document.\<close>

definition file_size :: "json \<Rightarrow> nat" where
  "file_size doc = (case find_array ''values'' doc of None \<Rightarrow> 0 | Some vs \<Rightarrow> length vs)
     + (case find_array ''nodes'' doc of None \<Rightarrow> 0 | Some ns \<Rightarrow> length ns)"

lemma graphFromJson_fine:
  assumes "int (file_size doc) < kTombstone"
  shows "fine_result graph_ok (graphFromJson doc pool)"
proof (cases "find_array ''values'' doc")
  case (Some vals)
  let ?n = "length vals"
  have n: "int ?n < kTombstone" using assms Some by (simp add: file_size_def)
  have "loading ?n hm_new (new_graph pool)" using new_graph_building [of pool] files_new(1) by (simp add: loading_def)
  from load_values_fine [OF this, of vals 0] new_graph_building(2) [of pool] n
  have v: "fine_result (\<lambda>(m', g'). loading ?n m' g' \<and> length (g_values g') \<le> ?n \<and> (\<forall>j < ?n. find_int ''id'' (vals ! j) = Some (int j)))
      (load_values vals 0 hm_new (new_graph pool))" by simp
  have outs: "fine_result graph_ok (case find_member ''outputs'' doc of None \<Rightarrow> Some (Inr g)
      | Some (JArray outs) \<Rightarrow> load_outputs outs m g | Some _ \<Rightarrow> Some parse_error)" if "loading ?n m g" for m g
  proof -
    have "g\<lparr>g_outputs := []\<rparr> = g" using that by (simp add: loading_def)
    then have "graph_ok g" "\<forall>v < length (g_values g). usable g (length (g_nodes g)) v" using that by (auto simp: loading_def building_def)
    moreover have "files_ok ?n (length (g_values g)) m" using that by (simp add: loading_def)
    ultimately show ?thesis using load_outputs_fine by (auto split: option.splits json.splits)
  qed
  have "fine_result graph_ok (case find_array ''nodes'' doc of None \<Rightarrow> Some parse_error
      | Some nodes \<Rightarrow> then_call (load_nodes vals nodes 0 m g) (\<lambda>(m, g). case find_member ''outputs'' doc of None \<Rightarrow> Some (Inr g)
      | Some (JArray outs) \<Rightarrow> load_outputs outs m g | Some _ \<Rightarrow> Some parse_error))"
    if l: "loading ?n m g" "length (g_values g) \<le> ?n" "\<forall>j < ?n. find_int ''id'' (vals ! j) = Some (int j)" for m g
  proof (cases "find_array ''nodes'' doc")
    case nodes: (Some ns)
    have "int (length (g_values g) + length ns) < kTombstone" using assms l(2) by (simp add: file_size_def Some nodes)
    from load_nodes_fine [OF l(1) this n refl l(3), of 0] outs show ?thesis by (auto simp: nodes intro!: fine_then)
  qed simp
  then show ?thesis using Some by (auto simp: graphFromJson_def intro!: fine_then [OF v])
qed (simp add: graphFromJson_def)

text \<open>
  A graph that is written to a file and loaded again has the same numbers. The file keeps the ids of
  the values; the loader allocates the leaves first and the results in the order of the nodes.
\<close>

section \<open>Documents of a graph\<close>

lemma set_in_fresh: "k \<notin> fst ` set ms \<Longrightarrow> set_in k v ms = ms @ [(k, v)]"
  by (induction ms) auto

lemma json_object_eq: "distinct (map fst kvs) \<Longrightarrow> json_object kvs = JObject kvs"
proof -
  have "fold (\<lambda>(k, v) d. set_member k v d) kvs (JObject ms) = JObject (ms @ kvs)" if "distinct (map fst (ms @ kvs))" for ms
    using that
  proof (induction kvs arbitrary: ms)
    case (Cons kv kvs)
    obtain k v where kv: "kv = (k, v)" by fastforce
    then have "k \<notin> fst ` set ms" using Cons.prems by auto
    then show ?case using Cons.IH [of "ms @ [kv]"] Cons.prems by (simp add: kv set_member_def set_in_fresh)
  qed simp
  from this [of "[]"] show "distinct (map fst kvs) \<Longrightarrow> json_object kvs = JObject kvs" by (simp add: json_object_def)
qed

lemma json_array_eq: "json_array xs = JArray xs"
proof -
  have "fold push_item xs (JArray ys) = JArray (ys @ xs)" for ys by (induction xs arbitrary: ys) (simp_all add: push_item_def)
  then show ?thesis by (simp add: json_array_def)
qed

lemma find_back: "find_member key (json_back d) = map_option json_back (find_member key d)"
proof (cases d)
  case (JObject ms)
  have "map_of (map (\<lambda>m. (fst m, json_back (snd m))) ms) key = map_option json_back (map_of ms key)" by (induction ms) auto
  then show ?thesis by (simp add: JObject find_member_def)
qed (auto simp: find_member_def number_back_def)

definition value_fields :: "string list \<Rightarrow> gvalue \<Rightarrow> (string \<times> json) list" where
  "value_fields pool v = [(''id'', json_id (v_id v)), (''kind'', JString (valueKindName (v_kind v)))]
     @ (case v_name v of None \<Rightarrow> [] | Some s \<Rightarrow> [(''name'', JString (pool ! s))]) @ [(''type'', typeToJson (v_type v))]
     @ (if v_kind v = Constant then (if cp_isInt (v_constant v) then [(''int_value'', JInt (cp_i64 (v_constant v)))]
          else [(''float_value'', JDouble (cp_f64 (v_constant v)))]) else [])
     @ (if v_facts v \<noteq> [] then [(''facts'', factsToJson (v_facts v))] else [])"

lemma value_document:
  assumes "\<forall>s. v_name v = Some s \<longrightarrow> s < length pool"
  shows "valueToJson pool v = Inr (JObject (value_fields pool v))"
proof -
  have "distinct (map fst (value_fields pool v))" by (auto simp: value_fields_def split: option.split)
  from json_object_eq [OF this] show ?thesis
    using assms by (auto simp: valueToJson_def value_fields_def vec_at_def split: option.split)
qed

lemma value_finds:
  shows "find_int ''id'' (json_back (JObject (value_fields pool v))) = Some (int (v_id v))" "find_string ''kind'' (json_back (JObject (value_fields pool v))) = Some (valueKindName (v_kind v))"
    "find_member ''type'' (json_back (JObject (value_fields pool v))) = Some (json_back (typeToJson (v_type v)))"
    "find_int ''int_value'' (json_back (JObject (value_fields pool v))) = (if v_kind v = Constant \<and> cp_isInt (v_constant v) then Some (cp_i64 (v_constant v)) else None)"
    "find_member ''float_value'' (json_back (JObject (value_fields pool v))) = (if v_kind v = Constant \<and> \<not> cp_isInt (v_constant v) then Some (json_back (JDouble (cp_f64 (v_constant v)))) else None)"
  unfolding find_int_def find_string_def find_back
  by (auto simp: find_member_def value_fields_def json_id_def split: option.split)

lemma named_back: "named domainName all_domains Dom_Unknown (Some (domainName d)) = d" "named dtypeName all_dtypes Dt_None (Some (dtypeName t)) = t"
  by (cases d; simp add: named_def all_domains_def c_str_def) (cases t; simp add: named_def all_dtypes_def c_str_def)

definition file_type :: "math_type \<Rightarrow> math_type" where
  "file_type t = new_type\<lparr>mt_domain := mt_domain t, mt_dtype := mt_dtype t, mt_shape := mt_shape t\<rparr>"

lemma shape_back: "shapeFromJson (json_back (shapeToJson s)) = Inr s"
  by (induction s) (simp_all add: shapeFromJson_def shapeToJson_def json_array_eq as_int_def)

lemma type_document:
  "typeToJson t = JObject ([(''domain'', JString (domainName (mt_domain t))), (''dtype'', JString (dtypeName (mt_dtype t))),
      (''algebra'', JString (algebraicClassName (mt_algebra t))), (''diff'', JString (differentiabilityName (mt_diff t)))]
    @ (case mt_shape t of None \<Rightarrow> [] | Some s \<Rightarrow> [(''shape'', shapeToJson s)]))"
  unfolding typeToJson_def by (rule json_object_eq) (auto split: option.split)

lemma load_type_back:
  assumes "find_member ''type'' vo = Some (json_back (typeToJson t))"
  shows "load_type vo = Inr (file_type t)"
proof -
  let ?d = "json_back (typeToJson t)"
  have f: "find_string ''domain'' ?d = Some (domainName (mt_domain t))" "find_string ''dtype'' ?d = Some (dtypeName (mt_dtype t))"
    "find_member ''shape'' ?d = map_option (\<lambda>s. json_back (shapeToJson s)) (mt_shape t)"
    unfolding find_string_def find_back type_document by (auto simp: find_member_def split: option.split)
  show ?thesis
    by (cases "mt_shape t") (simp_all add: load_type_def assms f named_back shape_back file_type_def Let_def new_type_def)
qed

section \<open>Graphs that a file can hold\<close>

definition is_leaf :: "gvalue \<Rightarrow> bool" where "is_leaf v \<longleftrightarrow> v_kind v \<noteq> NodeResult"

text \<open>The numbers that text keeps.\<close>

definition number_kept :: "constant_payload \<Rightarrow> bool" where
  "number_kept c \<longleftrightarrow> (if cp_isInt c then in_i64 (cp_i64 c) else f64_exp (cp_f64 c) < 2047 \<and> cp_f64 c \<noteq> 0x8000000000000000)"

definition value_kept :: "string list \<Rightarrow> gvalue \<Rightarrow> bool" where
  "value_kept pool v \<longleftrightarrow> (case v_name v of None \<Rightarrow> True | Some s \<Rightarrow> s < length pool) \<and> (v_kind v = Constant \<longrightarrow> number_kept (v_constant v))
     \<and> (case mt_shape (v_type v) of None \<Rightarrow> True | Some s \<Rightarrow> list_all in_i64 s)"

definition node_kept :: "gnode \<Rightarrow> bool" where "node_kept n \<longleftrightarrow> \<not> node_dead n \<and> n_op n \<noteq> Op_kCount"

text \<open>
  Every value and node can be written, no node is dead, the results lie in the order of their nodes, no
  output is listed twice, and there is room.
\<close>

definition saveable :: "math_graph \<Rightarrow> bool" where
  "saveable g \<longleftrightarrow> list_all (value_kept (g_symbols g)) (g_values g) \<and> list_all node_kept (g_nodes g)
     \<and> map v_producer (filter (\<lambda>v. \<not> is_leaf v) (g_values g)) = map Some [0..<length (g_nodes g)]
     \<and> distinct (g_outputs g) \<and> int (length (g_values g) + length (g_nodes g)) < kTombstone"

definition leafs :: "math_graph \<Rightarrow> nat \<Rightarrow> nat" where "leafs g e = length (filter is_leaf (take e (g_values g)))"

text \<open>The value that a value of the saved graph becomes.\<close>

definition moved :: "math_graph \<Rightarrow> nat \<Rightarrow> nat" where
  "moved g v = (if is_leaf (g_values g ! v) then leafs g v else leafs g (length (g_values g)) + the (v_producer (g_values g ! v)))"

definition same_leaf :: "gvalue \<Rightarrow> gvalue \<Rightarrow> bool" where
  "same_leaf v w \<longleftrightarrow> v_kind w = v_kind v \<and> v_type w = file_type (v_type v)
     \<and> (v_kind v = Constant \<longrightarrow> constant_double (v_constant w) = constant_double (v_constant v))"

definition value_doc :: "math_graph \<Rightarrow> gvalue \<Rightarrow> json" where
  "value_doc g v = json_back (JObject (value_fields (g_symbols g) v))"

lemma leafs_Suc: "e < length (g_values g) \<Longrightarrow> leafs g (Suc e) = leafs g e + (if is_leaf (g_values g ! e) then 1 else 0)"
  by (simp add: leafs_def take_Suc_conv_app_nth)

lemma leaf_document:
  assumes kept: "value_kept pool v" and leaf: "is_leaf v"
  shows "\<exists>w pool'. load_leaf (json_back (JObject (value_fields pool v))) (valueKindName (v_kind v)) g
    = Inr (allocateValue w (g\<lparr>g_symbols := pool'\<rparr>)) \<and> same_leaf v w \<and> is_leaf w"
proof -
  let ?d = "json_back (JObject (value_fields pool v))"
  note ty = load_type_back [OF value_finds(3) [of pool v]]
  obtain name g1 where n: "load_name ?d g = (name, g1)" by fastforce
  obtain pool' where g1: "g1 = g\<lparr>g_symbols := pool'\<rparr>" using load_name_frame [OF n] by blast
  have t: "v_type (leaf_value k name t) = t" for k t by (simp add: leaf_value_def)
  show ?thesis
  proof (cases "v_kind v = Constant")
    case True
    have "\<exists>w. load_constant ?d (file_type (v_type v)) = Inr w \<and> same_leaf v w \<and> is_leaf w"
    proof (cases "cp_isInt (v_constant v)")
      case int: True
      then show ?thesis using True
        by (auto simp: load_constant_def value_finds same_leaf_def is_leaf_def constant_value_def constant_double_def simp del: json_back.simps)
    next
      case False
      let ?c = "cp_f64 (v_constant v)"
      have c: "f64_exp ?c < 2047" "?c \<noteq> 0x8000000000000000" using kept True False by (simp_all add: value_kept_def number_kept_def)
      have "asDouble (json_back (JDouble ?c)) = Some ?c" using number_back_value [OF c] not_special [OF c(1)] by simp
      then show ?thesis using True False
        by (auto simp: load_constant_def value_finds same_leaf_def is_leaf_def constant_value_def constant_double_def simp del: json_back.simps)
    qed
    then obtain w where w: "load_constant ?d (file_type (v_type v)) = Inr w" "same_leaf v w" "is_leaf w" by blast
    then show ?thesis using True by (intro exI [of _ w] exI [of _ pool']) (simp add: load_leaf_def ty n g1 del: json_back.simps)
  next
    case False
    with leaf show ?thesis
      by (cases "v_kind v") (auto simp: load_leaf_def ty n g1 is_leaf_def same_leaf_def t simp del: json_back.simps)
  qed
qed

section \<open>Loading the values\<close>

definition values_loaded :: "math_graph \<Rightarrow> nat \<Rightarrow> id_map \<Rightarrow> math_graph \<Rightarrow> bool" where
  "values_loaded g e m h \<longleftrightarrow> loading (length (g_values g)) m h \<and> g_nodes h = []
     \<and> list_all2 same_leaf (filter is_leaf (take e (g_values g))) (g_values h)
     \<and> hm_map m = (\<lambda>i. if 0 \<le> i \<and> i < int e \<and> is_leaf (g_values g ! nat i) then Some (leafs g (nat i)) else None)"

lemma load_values_saved:
  assumes ok: "graph_ok g" and s: "saveable g" and "values_loaded g e m h" and "e \<le> length (g_values g)"
  shows "\<exists>m' h'. load_values (map (value_doc g) (drop e (g_values g))) (int e) m h = Some (Inr (m', h')) \<and> values_loaded g (length (g_values g)) m' h'"
  using assms(3,4)
proof (induction "length (g_values g) - e" arbitrary: e m h)
  case (Suc k)
  let ?n = "length (g_values g)"
  have e: "e < ?n" using Suc.hyps(2) by simp
  let ?v = "g_values g ! e"
  have d: "drop e (g_values g) = ?v # drop (Suc e) (g_values g)" using e by (simp add: Cons_nth_drop_Suc)
  have id: "v_id ?v = e" using graph_okD(2) [OF ok e] .
  have kept: "value_kept (g_symbols g) ?v" using s e by (simp add: saveable_def list_all_length)
  have finds: "find_int ''id'' (value_doc g ?v) = Some (int e)" "find_string ''kind'' (value_doc g ?v) = Some (valueKindName (v_kind ?v))"
    unfolding value_doc_def using value_finds(1,2) id by simp_all
  note l = Suc.prems(1) [unfolded values_loaded_def]
  show ?case
  proof (cases "is_leaf ?v")
    case False
    then have k: "valueKindName (v_kind ?v) = ''node_result''" by (simp add: is_leaf_def)
    have "hm_map m = (\<lambda>i. if 0 \<le> i \<and> i < int (Suc e) \<and> is_leaf (g_values g ! nat i) then Some (leafs g (nat i)) else None)"
    proof (rule ext)
      fix i show "hm_map m i = (if 0 \<le> i \<and> i < int (Suc e) \<and> is_leaf (g_values g ! nat i) then Some (leafs g (nat i)) else None)"
        using l False by (cases "i = int e") auto
    qed
    then have "values_loaded g (Suc e) m h" using l False e by (simp add: values_loaded_def take_Suc_conv_app_nth)
    from Suc.hyps(1) [OF _ this] Suc.hyps(2) e show ?thesis by (simp add: d finds k add.commute)
  next
    case True
    then have k: "valueKindName (v_kind ?v) \<noteq> ''node_result''" by (cases "v_kind ?v") (simp_all add: is_leaf_def)
    from leaf_document [OF kept True, of h] obtain w pool' where
      w: "load_leaf (value_doc g ?v) (valueKindName (v_kind ?v)) h = Inr (allocateValue w (h\<lparr>g_symbols := pool'\<rparr>))" "same_leaf ?v w" "is_leaf w"
      unfolding value_doc_def by blast
    define h1 where "h1 = snd (allocateValue w (h\<lparr>g_symbols := pool'\<rparr>))"
    have a: "allocateValue w (h\<lparr>g_symbols := pool'\<rparr>) = (length (g_values h), h1)" by (simp add: h1_def allocateValue_def)
    have len: "length (g_values h) = leafs g e" using l by (auto simp: leafs_def dest: list_all2_lengthD)
    have le: "leafs g e \<le> e" unfolding leafs_def using length_filter_le [of is_leaf "take e (g_values g)"] by simp
    have fits: "int (length (g_values h)) + 1 < kTombstone" using len le e s by (simp add: saveable_def)
    have "leaf_added h w (length (g_values h)) h1" using w(3) a by (auto simp: leaf_added_def is_leaf_def intro!: exI [of _ pool'])
    note la = leaf_loaded [OF conjunct1 [OF l] fits this]
    have f: "files_ok ?n (length (g_values h)) m" using l by (simp add: loading_def)
    have "int ?n < kTombstone" by (rule graph_okD(1) [OF ok])
    from files_put [OF f this, of "int e" "length (g_values h)" "length (g_values h1)"] e la obtain m1 where
      m1: "hm_put file_hash (int e) (length (g_values h)) m = Some (Inr m1)" "files_ok ?n (length (g_values h1)) m1"
        "hm_map m1 = (hm_map m)(int e \<mapsto> length (g_values h))" by auto
    have "values_loaded g (Suc e) m1 h1"
    proof -
      have "hm_map m1 = (\<lambda>i. if 0 \<le> i \<and> i < int (Suc e) \<and> is_leaf (g_values g ! nat i) then Some (leafs g (nat i)) else None)"
      proof (rule ext)
        fix i show "hm_map m1 i = (if 0 \<le> i \<and> i < int (Suc e) \<and> is_leaf (g_values g ! nat i) then Some (leafs g (nat i)) else None)"
          using l True m1(3) len by (cases "i = int e") auto
      qed
      moreover have "g_values h1 = g_values h @ [w\<lparr>v_id := length (g_values h)\<rparr>]" "g_nodes h1 = g_nodes h" by (simp_all add: h1_def allocateValue_def)
      moreover have "same_leaf ?v (w\<lparr>v_id := length (g_values h)\<rparr>)" using w(2) by (simp add: same_leaf_def)
      ultimately show ?thesis using l la m1 True e
        by (simp add: values_loaded_def loading_def take_Suc_conv_app_nth list_all2_appendI)
    qed
    from Suc.hyps(1) [OF _ this] Suc.hyps(2) e show ?thesis by (simp add: d finds k w(1) a m1 add.commute)
  qed
qed simp

section \<open>Loading the nodes\<close>

lemma opName_c_str: "p \<noteq> Op_kCount \<Longrightarrow> opByName (c_str (opName p)) = Some p"
proof -
  assume p: "p \<noteq> Op_kCount"
  have "list_all (\<lambda>info. list_all (\<lambda>c. c \<noteq> CHR 0x00) (info_name info)) kOpTable" by code_simp
  moreover have "opByName (opName p) = Some p" using table_checked(1) p by (auto simp: set_all_ops)
  moreover from this obtain info where "info \<in> set kOpTable" "info_name info = opName p"
    by (auto simp: opByName_def find_Some_iff in_set_conv_nth)
  ultimately show "opByName (c_str (opName p)) = Some p" unfolding c_str_def by (metis list_all_iff takeWhile_eq_all_conv)
qed

definition node_doc :: "gnode \<Rightarrow> json" where "node_doc n = json_back (nodeToJson n)"

lemma node_finds: "find_string ''op'' (node_doc n) = Some (opName (n_op n))" "find_array ''inputs'' (node_doc n) = Some (map json_id (n_inputs n))"
proof -
  have d: "nodeToJson n = JObject [(''id'', json_id (n_id n)), (''op'', JString (opName (n_op n))),
     (''inputs'', json_array (map json_id (n_inputs n))), (''dead'', JBool (node_dead n))]"
    unfolding nodeToJson_def by (rule json_object_eq) simp
  have "map json_back (map json_id is) = map json_id is" for "is" by (induction "is") (simp_all add: json_id_def)
  then show "find_string ''op'' (node_doc n) = Some (opName (n_op n))" "find_array ''inputs'' (node_doc n) = Some (map json_id (n_inputs n))"
    unfolding node_doc_def find_string_def find_array_def find_back d by (simp_all add: find_member_def json_array_eq)
qed

lemma resolve_saved:
  assumes "files_ok n k m" and "\<forall>v \<in> set vs. hm_map m (int v) = Some (f v)"
  shows "resolve_all m (map json_id vs) = Some (Inr (map f vs))"
  using assms(2) by (induction vs) (simp_all add: resolveInput_def json_id_def files_get [OF assms(1)])

lemma result_file_saved:
  assumes "k < length (filter (\<lambda>v. \<not> is_leaf v) vs)"
  shows "result_file_id (map (value_doc g) vs) k = Some (int (v_id (filter (\<lambda>v. \<not> is_leaf v) vs ! k)))"
  using assms
proof (induction vs arbitrary: k)
  case (Cons v vs)
  have f: "find_int ''id'' (value_doc g v) = Some (int (v_id v))" "find_string ''kind'' (value_doc g v) = Some (valueKindName (v_kind v))"
    unfolding value_doc_def using value_finds(1,2) by simp_all
  show ?case
  proof (cases "is_leaf v")
    case True
    then have "valueKindName (v_kind v) \<noteq> ''node_result''" by (cases "v_kind v") (simp_all add: is_leaf_def)
    with True Cons f show ?thesis by simp
  next
    case False
    then have "valueKindName (v_kind v) = ''node_result''" by (simp add: is_leaf_def)
    with False Cons f show ?thesis by (cases k) simp_all
  qed
qed simp

lemma results_listed:
  assumes "saveable g"
  shows "length (filter (\<lambda>v. \<not> is_leaf v) (g_values g)) = length (g_nodes g)"
    "j < length (g_nodes g) \<Longrightarrow> v_producer (filter (\<lambda>v. \<not> is_leaf v) (g_values g) ! j) = Some j"
proof -
  let ?rs = "filter (\<lambda>v. \<not> is_leaf v) (g_values g)"
  have m: "map v_producer ?rs = map Some [0..<length (g_nodes g)]" using assms by (simp add: saveable_def)
  show len: "length ?rs = length (g_nodes g)" using arg_cong [OF m, of length] by simp
  assume j: "j < length (g_nodes g)"
  then have "map v_producer ?rs ! j = Some j" unfolding m by simp
  with j len show "v_producer (?rs ! j) = Some j" by simp
qed

text \<open>The result of node \<open>k\<close> of a graph in file order.\<close>

lemma result_in_order:
  assumes ok: "graph_ok g" and s: "saveable g" and k: "k < length (g_nodes g)"
  shows "k < length (filter (\<lambda>v. \<not> is_leaf v) (g_values g))"
    "n_results (g_nodes g ! k) = [v_id (filter (\<lambda>v. \<not> is_leaf v) (g_values g) ! k)]"
proof -
  let ?rs = "filter (\<lambda>v. \<not> is_leaf v) (g_values g)"
  note len = results_listed(1) [OF s]
  then show l: "k < length ?rs" using k by simp
  have prod: "v_producer (?rs ! j) = Some j" if "j < length ?rs" for j using results_listed(2) [OF s] that len by simp
  obtain r where r: "r < length (g_values g)" "n_results (g_nodes g ! k) = [r]" "v_kind (g_values g ! r) = NodeResult"
    "v_producer (g_values g ! r) = Some k" using node_result [OF ok k] by metis
  have "g_values g ! r \<in> set ?rs" using r by (simp add: is_leaf_def)
  then obtain j where j: "j < length ?rs" "?rs ! j = g_values g ! r" by (auto simp only: in_set_conv_nth)
  with prod [OF j(1)] r(4) have "j = k" by simp
  with j(2) r graph_okD(2) [OF ok r(1)] show "n_results (g_nodes g ! k) = [v_id (?rs ! k)]" by simp
qed

definition node_moved :: "math_graph \<Rightarrow> gnode \<Rightarrow> gnode \<Rightarrow> bool" where
  "node_moved g n n' \<longleftrightarrow> n_op n' = n_op n \<and> n_inputs n' = map (moved g) (n_inputs n) \<and> \<not> node_dead n'"

definition nodes_loaded :: "math_graph \<Rightarrow> nat \<Rightarrow> id_map \<Rightarrow> math_graph \<Rightarrow> bool" where
  "nodes_loaded g k m h \<longleftrightarrow> loading (length (g_values g)) m h \<and> length (g_nodes h) = k
     \<and> (\<forall>j < k. node_moved g (g_nodes g ! j) (g_nodes h ! j) \<and> n_results (g_nodes h ! j) = [leafs g (length (g_values g)) + j])
     \<and> length (g_values h) = leafs g (length (g_values g)) + k
     \<and> list_all2 same_leaf (filter is_leaf (g_values g)) (take (leafs g (length (g_values g))) (g_values h))
     \<and> hm_map m = (\<lambda>i. if 0 \<le> i \<and> i < int (length (g_values g)) \<and> (is_leaf (g_values g ! nat i) \<or> the (v_producer (g_values g ! nat i)) < k)
         then Some (moved g (nat i)) else None)"

lemma nodes_loaded_0:
  assumes "values_loaded g (length (g_values g)) m h"
  shows "nodes_loaded g 0 m h"
proof -
  have "length (g_values h) = leafs g (length (g_values g))" using assms by (auto simp: values_loaded_def leafs_def dest: list_all2_lengthD)
  with assms show ?thesis by (auto simp: nodes_loaded_def values_loaded_def moved_def fun_eq_iff)
qed

lemma usable_producer:
  assumes "graph_ok g" and "usable g i v" and "\<not> is_leaf (g_values g ! v)"
  shows "the (v_producer (g_values g ! v)) < i" "the (v_producer (g_values g ! v)) < length (g_nodes g)"
  using assms by (auto simp: usable_def is_leaf_def)

lemma node_loaded:
  assumes ok: "graph_ok g" and s: "saveable g" and l: "nodes_loaded g k m h" and k: "k < length (g_nodes g)"
  shows "\<exists>m' h'. load_nodes (map (value_doc g) (g_values g)) (node_doc (g_nodes g ! k) # ns) k m h
    = load_nodes (map (value_doc g) (g_values g)) ns (k + 1) m' h' \<and> nodes_loaded g (k + 1) m' h'"
proof -
  let ?n = "g_nodes g ! k" and ?N = "length (g_values g)" and ?L = "leafs g (length (g_values g))"
  note l' = l [unfolded nodes_loaded_def]
  have kept: "\<not> node_dead ?n" "n_op ?n \<noteq> Op_kCount" using s k by (simp_all add: saveable_def list_all_length node_kept_def)
  have f: "files_ok ?N (length (g_values h)) m" and b: "building h" "g_outputs h = []" using l' [THEN conjunct1] by (simp_all add: loading_def)
  have use: "usable g k v" if "v \<in> set (n_inputs ?n)" for v using operand_usable [OF ok k kept(1) that] .
  have "hm_map m (int v) = Some (moved g v)" if "v \<in> set (n_inputs ?n)" for v
    using l' use [OF that] usable_producer [OF ok use [OF that]] by (auto simp: usable_def)
  then have ins: "resolve_all m (map json_id (n_inputs ?n)) = Some (Inr (map (moved g) (n_inputs ?n)))"
    using resolve_saved [OF f] by blast
  then have bound: "\<forall>v \<in> set (map (moved g) (n_inputs ?n)). v < length (g_values h)"
    using resolve_fine(2) [OF f, of "map json_id (n_inputs ?n)"] by (simp only: fine_result_simps)
  have le: "?L + length (g_nodes g) \<le> ?N + length (g_nodes g)" unfolding leafs_def by simp
  have fits: "int (length (g_values h)) + 1 < kTombstone" using l' le k s by (simp add: saveable_def)
  have hh: "graph_ok h" using b by (metis building_def math_graph.surjective math_graph.update_convs(5))
  have "\<forall>v \<in> set (map (moved g) (n_inputs ?n)). usable h (length (g_nodes h)) v" using bound b(1) by (simp add: building_def)
  from add_node_ok [OF hh fits this, of "n_op ?n" "[]"] obtain h' where h': "addNode (n_op ?n) (map (moved g) (n_inputs ?n)) [] h = Inr (length (g_values h), h')"
    "extends h h'" "length (g_nodes h') = Suc (length (g_nodes h))" "length (g_values h') = Suc (length (g_values h))" "g_outputs h' = g_outputs h"
    "n_op (g_nodes h' ! length (g_nodes h)) = n_op ?n" "n_inputs (g_nodes h' ! length (g_nodes h)) = map (moved g) (n_inputs ?n)"
    "n_results (g_nodes h' ! length (g_nodes h)) = [length (g_values h)]" "\<not> node_dead (g_nodes h' ! length (g_nodes h))" by blast
  note bn = building_node [OF b(1) fits h'(1)]
  obtain r where r: "r < ?N" "n_results ?n = [r]" "v_kind (g_values g ! r) = NodeResult" "v_producer (g_values g ! r) = Some k"
    using node_result [OF ok k] by metis
  have fid: "result_file_id (map (value_doc g) (g_values g)) k = Some (int r)"
    using result_in_order [OF ok s k] result_file_saved [of k "g_values g" g] r(2) by simp
  have "int ?N < kTombstone" by (rule graph_okD(1) [OF ok])
  from files_put [OF f this, of "int r" "length (g_values h)" "length (g_values h')"] r(1) h'(4) obtain m' where
    m': "hm_put file_hash (int r) (length (g_values h)) m = Some (Inr m')" "files_ok ?N (length (g_values h')) m'"
    "hm_map m' = (hm_map m)(int r \<mapsto> length (g_values h))" by auto
  have run: "load_nodes (map (value_doc g) (g_values g)) (node_doc ?n # ns) k m h = load_nodes (map (value_doc g) (g_values g)) ns (k + 1) m' h'"
    by (simp add: node_finds opName_c_str [OF kept(2)] ins h'(1) fid m'(1))
  have only: "v = r" if "v < ?N" "\<not> is_leaf (g_values g ! v)" "the (v_producer (g_values g ! v)) = k" for v
  proof -
    let ?rs = "filter (\<lambda>v. \<not> is_leaf v) (g_values g)"
    have prod: "v_producer (?rs ! j) = Some j" if "j < length ?rs" for j using results_listed [OF s] that by simp
    have "g_values g ! v \<in> set ?rs" using that by simp
    then obtain j where j: "j < length ?rs" "?rs ! j = g_values g ! v" by (auto simp only: in_set_conv_nth)
    have "g_values g ! r \<in> set ?rs" using r by (simp add: is_leaf_def)
    then obtain i where i: "i < length ?rs" "?rs ! i = g_values g ! r" by (auto simp only: in_set_conv_nth)
    have "i = j" using prod [OF i(1)] prod [OF j(1)] i(2) j(2) r(4) that(3) by simp
    with i j graph_okD(2) [OF ok] r(1) that(1) show "v = r" by metis
  qed
  have "moved g r = length (g_values h)" using r l' by (simp add: moved_def is_leaf_def)
  have map': "hm_map m' = (\<lambda>i. if 0 \<le> i \<and> i < int ?N \<and> (is_leaf (g_values g ! nat i) \<or> the (v_producer (g_values g ! nat i)) < k + 1)
         then Some (moved g (nat i)) else None)"
  proof (rule ext)
    fix i show "hm_map m' i = (if 0 \<le> i \<and> i < int ?N \<and> (is_leaf (g_values g ! nat i) \<or> the (v_producer (g_values g ! nat i)) < k + 1)
         then Some (moved g (nat i)) else None)"
    proof (cases "i = int r")
      case False
      then have "\<not> (0 \<le> i \<and> i < int ?N \<and> \<not> is_leaf (g_values g ! nat i) \<and> the (v_producer (g_values g ! nat i)) = k)"
        using only [of "nat i"] by auto
      with False l' m'(3) show ?thesis by (auto simp: less_Suc_eq)
    qed (use m'(3) r \<open>moved g r = length (g_values h)\<close> in \<open>auto simp: is_leaf_def\<close>)
  qed
  obtain vs xs where e: "g_values h' = g_values h @ vs" "g_nodes h' = g_nodes h @ xs" using h'(2) by (auto simp: extends_def)
  have "nodes_loaded g (k + 1) m' h'"
    using l' h' bn b m' map' by (auto simp: nodes_loaded_def loading_def node_moved_def less_Suc_eq e nth_append)
  with run show ?thesis by blast
qed

lemma load_nodes_saved:
  assumes ok: "graph_ok g" and s: "saveable g" and "nodes_loaded g k m h" and "k \<le> length (g_nodes g)"
  shows "\<exists>m' h'. load_nodes (map (value_doc g) (g_values g)) (map node_doc (drop k (g_nodes g))) k m h = Some (Inr (m', h'))
    \<and> nodes_loaded g (length (g_nodes g)) m' h'"
  using assms(3,4)
proof (induction "length (g_nodes g) - k" arbitrary: k m h)
  case (Suc j)
  have k: "k < length (g_nodes g)" using Suc.hyps(2) by simp
  have d: "map node_doc (drop k (g_nodes g)) = node_doc (g_nodes g ! k) # map node_doc (drop (Suc k) (g_nodes g))"
    using k by (simp add: Cons_nth_drop_Suc flip: list.map)
  from node_loaded [OF ok s Suc.prems(1) k] obtain m' h' where
    n: "load_nodes (map (value_doc g) (g_values g)) (map node_doc (drop k (g_nodes g))) k m h
      = load_nodes (map (value_doc g) (g_values g)) (map node_doc (drop (Suc k) (g_nodes g))) (k + 1) m' h'" "nodes_loaded g (k + 1) m' h'"
    unfolding d by blast
  from Suc.hyps(1) [OF _ n(2)] Suc.hyps(2) k show ?case unfolding n(1) by simp
qed simp

section \<open>The outputs\<close>

lemma leafs_mono: "i \<le> j \<Longrightarrow> leafs g i \<le> leafs g j"
proof -
  assume "i \<le> j"
  then obtain d where "j = i + d" using le_Suc_ex by blast
  then show "leafs g i \<le> leafs g j" by (simp add: leafs_def take_add)
qed

lemma leafs_less:
  assumes "v < w" "w \<le> length (g_values g)" "is_leaf (g_values g ! v)"
  shows "leafs g v < leafs g w"
  using leafs_Suc [of v g] leafs_mono [of "Suc v" w g] assms by simp

lemma moved_inj:
  assumes ok: "graph_ok g" and "usable g (length (g_nodes g)) v" "usable g (length (g_nodes g)) w" and eq: "moved g v = moved g w"
  shows "v = w"
proof -
  have r: "v < length (g_values g)" "w < length (g_values g)" using assms by (simp_all add: usable_def)
  have below: "leafs g u < leafs g (length (g_values g))" if "u < length (g_values g)" "is_leaf (g_values g ! u)" for u
    using leafs_less [of u "length (g_values g)" g] that by simp
  show ?thesis
  proof (cases "is_leaf (g_values g ! v)")
    case v: True
    show ?thesis
    proof (cases "is_leaf (g_values g ! w)")
      case True
      with v eq have "leafs g v = leafs g w" by (simp add: moved_def)
      with leafs_less [of v w g] leafs_less [of w v g] v True r show ?thesis by (metis less_irrefl less_imp_le linorder_neqE_nat)
    next
      case False
      with v eq below [OF r(1) v] show ?thesis by (simp add: moved_def)
    qed
  next
    case v: False
    show ?thesis
    proof (cases "is_leaf (g_values g ! w)")
      case True
      with v eq below [OF r(2) True] show ?thesis by (simp add: moved_def)
    next
      case False
      with v eq have "the (v_producer (g_values g ! v)) = the (v_producer (g_values g ! w))" by (simp add: moved_def)
      with assms(2,3) v False show ?thesis by (auto simp: usable_def is_leaf_def)
    qed
  qed
qed

lemma load_outputs_saved:
  assumes "files_ok n k m" and "\<forall>v \<in> set vs. hm_map m (int v) = Some (f v)" and "distinct (g_outputs h @ map f vs)"
  shows "load_outputs (map json_id vs) m h = Some (Inr (h\<lparr>g_outputs := g_outputs h @ map f vs\<rparr>))"
  using assms(2,3)
proof (induction vs arbitrary: h)
  case (Cons v vs)
  have "resolveInput m (json_id v) = Some (Inr (f v))" using Cons.prems(1) by (simp add: resolveInput_def json_id_def files_get [OF assms(1)])
  moreover have "f v \<notin> set (g_outputs h)" using Cons.prems(2) by auto
  then have "addOutput (f v) h = h\<lparr>g_outputs := g_outputs h @ [f v]\<rparr>" by (simp add: addOutput_def)
  ultimately show ?case using Cons.IH [of "h\<lparr>g_outputs := g_outputs h @ [f v]\<rparr>"] Cons.prems by simp
qed simp

section \<open>The document\<close>

definition graph_doc :: "math_graph \<Rightarrow> json" where
  "graph_doc g = JObject [(''format'', JString ''mlk-graph''), (''version'', JInt kGraphFileFormatVersion),
     (''values'', JArray (map (\<lambda>v. JObject (value_fields (g_symbols g) v)) (g_values g))),
     (''nodes'', JArray (map nodeToJson (g_nodes g))), (''outputs'', JArray (map json_id (g_outputs g)))]"

lemma graph_document:
  assumes "saveable g"
  shows "graphToJson g = Inr (graph_doc g)"
proof -
  have "map_res (valueToJson (g_symbols g)) (g_values g) = Inr (map (\<lambda>v. JObject (value_fields (g_symbols g) v)) (g_values g))"
    by (rule map_res_total, rule value_document) (use assms in \<open>auto simp: saveable_def list_all_iff value_kept_def\<close>)
  then show ?thesis by (simp add: graphToJson_def json_object_eq json_array_eq graph_doc_def)
qed

lemma graph_finds:
  shows "find_string ''format'' (json_back (graph_doc g)) = Some ''mlk-graph''" "find_int ''version'' (json_back (graph_doc g)) = Some kGraphFileFormatVersion"
    "find_array ''values'' (json_back (graph_doc g)) = Some (map (value_doc g) (g_values g))" "find_array ''nodes'' (json_back (graph_doc g)) = Some (map node_doc (g_nodes g))"
    "find_member ''outputs'' (json_back (graph_doc g)) = Some (JArray (map json_id (g_outputs g)))"
  unfolding find_string_def find_int_def find_array_def find_back
  by (simp_all add: graph_doc_def find_member_def value_doc_def node_doc_def json_id_def)

lemma json_fits_mono: "json_fits n v \<Longrightarrow> n \<le> k \<Longrightarrow> json_fits k v"
proof (induction v arbitrary: n k rule: json.induct)
  case (JArray xs)
  have "0 < k \<and> json_fits (k - 1) x" if "x \<in> set xs" for x
    using JArray.IH [OF that, of "n - 1" "k - 1"] JArray.prems that by (auto simp: list_all_iff)
  then show ?case by (simp add: list_all_iff)
next
  case (JObject ms)
  have "0 < k \<and> json_fits (k - 1) (snd m)" if "m \<in> set ms" for m
    using JObject.IH [OF that, of "snd m" "n - 1" "k - 1"] JObject.prems that by (auto simp: list_all_iff snds.simps)
  then show ?case by (simp add: list_all_iff)
qed auto

lemma json_fits_ints: "json_fits (Suc n) (JArray (map JInt is)) \<longleftrightarrow> list_all in_i64 is"
  by (induction "is") auto

lemma id_fits: "int v < kTombstone \<Longrightarrow> in_i64 (int v)" by (simp add: kTombstone_def i64_defs)

lemma graph_doc_fits:
  assumes ok: "graph_ok g" and s: "saveable g"
  shows "json_fits 128 (graph_doc g)"
proof -
  have small: "in_i64 (int v)" if "v \<le> length (g_values g) + length (g_nodes g)" for v
    using that s by (intro id_fits) (simp add: saveable_def)
  have fact: "json_fits 1 (factToJson f)" for f by (simp add: factToJson_def json_object_eq)
  then have "list_all (json_fits 1) (map factToJson fs)" for fs by (simp add: list_all_iff)
  then have facts: "json_fits 2 (factsToJson fs)" for fs by (simp add: factsToJson_def json_array_eq list_all_iff)
  have tyf: "json_fits 2 (typeToJson t)" if "case mt_shape t of None \<Rightarrow> True | Some s \<Rightarrow> list_all in_i64 s" for t
    using that json_fits_ints [of 0] by (auto simp: type_document shapeToJson_def json_array_eq split: option.splits)
  have val: "json_fits 3 (JObject (value_fields (g_symbols g) v))" if "v \<in> set (g_values g)" for v
  proof -
    from that obtain i where i: "i < length (g_values g)" "g_values g ! i = v" by (auto simp: in_set_conv_nth)
    have "v_id v = i" using graph_okD(2) [OF ok i(1)] i(2) by simp
    then have "in_i64 (int (v_id v))" using small [of i] i(1) by simp
    moreover have "value_kept (g_symbols g) v" using s that by (simp add: saveable_def list_all_iff)
    ultimately show ?thesis using facts [of "v_facts v"] tyf [of "v_type v"]
      by (auto simp: value_fields_def json_id_def value_kept_def number_kept_def split: option.splits if_splits)
  qed
  have node: "json_fits 2 (nodeToJson n)" if "n \<in> set (g_nodes g)" for n
  proof -
    from that obtain i where i: "i < length (g_nodes g)" "g_nodes g ! i = n" by (auto simp: in_set_conv_nth)
    have "\<not> node_dead (g_nodes g ! i)" using s i(1) by (simp add: saveable_def list_all_length node_kept_def)
    then have "v < length (g_values g)" if "v \<in> set (n_inputs n)" for v using operand_usable [OF ok i(1)] i(2) that by (auto simp: usable_def)
    then have ins: "list_all (\<lambda>v. in_i64 (int v)) (n_inputs n)" using small by (force simp: list_all_iff)
    have id: "n_id n = i" using node_result [OF ok i(1)] i(2) by metis
    then have "in_i64 (int (n_id n))" using small [of i] i(1) by simp
    moreover have "nodeToJson n = JObject [(''id'', json_id (n_id n)), (''op'', JString (opName (n_op n))),
       (''inputs'', json_array (map json_id (n_inputs n))), (''dead'', JBool (node_dead n))]"
      unfolding nodeToJson_def by (rule json_object_eq) simp
    ultimately show ?thesis using ins by (simp add: json_array_eq json_id_def list_all_iff)
  qed
  have "v < length (g_values g)" if "v \<in> set (g_outputs g)" for v using graph_okD(5) [OF ok that] by (simp add: usable_def)
  then have outs: "list_all (\<lambda>v. in_i64 (int v)) (g_outputs g)" using small by (force simp: list_all_iff)
  have "json_fits 5 (graph_doc g)"
    using val node outs json_fits_mono [of 2 _ 3]
    by (simp add: graph_doc_def json_id_def kGraphFileFormatVersion_def i64_defs list_all_iff)
  then show ?thesis by (rule json_fits_mono) simp
qed

section \<open>The numbers\<close>

definition is_input :: "gvalue \<Rightarrow> bool" where "is_input v \<longleftrightarrow> v_kind v = Placeholder \<or> v_kind v = Variable"

definition inputs_before :: "gvalue list \<Rightarrow> nat \<Rightarrow> nat" where "inputs_before vs j = length (filter is_input (take j vs))"

definition bound_number :: "gvalue \<Rightarrow> f64 list \<Rightarrow> f64 option" where
  "bound_number v ins = (if is_input v then Some (case ins of [] \<Rightarrow> 0 | x # xs \<Rightarrow> f64_canon x)
     else if v_kind v = Constant then Some (constant_double (v_constant v)) else None)"

lemma bindings_at:
  assumes "\<forall>j < length vs. v_id (vs ! j) = e + j" and "j < length vs"
  shows "bindings vs ins (e + j) = bound_number (vs ! j) (drop (inputs_before vs j) ins)"
  using assms
proof (induction vs arbitrary: e j ins)
  case (Cons v vs)
  have ids: "\<forall>j < length vs. v_id (vs ! j) = Suc e + j"
  proof (intro allI impI)
    fix j assume "j < length vs"
    with spec [OF Cons.prems(1), of "Suc j"] show "v_id (vs ! j) = Suc e + j" by simp
  qed
  have head: "v_id v = e" using spec [OF Cons.prems(1), of 0] by simp
  have "v_id w \<noteq> e" if w: "w \<in> set vs" for w
  proof -
    from w obtain j where j: "j < length vs" "vs ! j = w" unfolding in_set_conv_nth by blast
    have "v_id (vs ! j) = Suc e + j" using ids j(1) by blast
    then have "v_id w = Suc e + j" unfolding j(2) .
    then show ?thesis by linarith
  qed
  then have none: "bindings vs ins' e = None" for ins' by (intro bindings_none) blast
  show ?case
  proof (cases j)
    case 0
    then show ?thesis using head none by (auto simp: bound_number_def is_input_def inputs_before_def map_add_def)
  next
    case (Suc i)
    then have i: "i < length vs" using Cons.prems(2) by simp
    have IH: "bindings vs ins' (e + j) = bound_number (vs ! i) (drop (inputs_before vs i) ins')" for ins'
      using Cons.IH [OF ids i, of ins'] Suc by simp
    have ne: "e + j \<noteq> v_id v" using head Suc by simp
    consider "is_input v" | "\<not> is_input v" "v_kind v = Constant" | "\<not> is_input v" "v_kind v \<noteq> Constant" by blast
    then show ?thesis
      by cases (use IH ne in \<open>auto simp: Suc is_input_def inputs_before_def map_add_def split: option.splits\<close>)
  qed
qed simp

lemma leaf_position:
  assumes "i < length vs" and "is_leaf (vs ! i)"
  shows "length (filter is_leaf (take i vs)) < length (filter is_leaf vs)" "filter is_leaf vs ! length (filter is_leaf (take i vs)) = vs ! i"
    "take (length (filter is_leaf (take i vs))) (filter is_leaf vs) = filter is_leaf (take i vs)"
proof -
  have "filter is_leaf vs = filter is_leaf (take i vs) @ filter is_leaf (drop i vs)" by (metis append_take_drop_id filter_append)
  also have "drop i vs = vs ! i # drop (Suc i) vs" using assms(1) by (simp add: Cons_nth_drop_Suc)
  finally have e: "filter is_leaf vs = filter is_leaf (take i vs) @ vs ! i # filter is_leaf (drop (Suc i) vs)" using assms(2) by simp
  show "length (filter is_leaf (take i vs)) < length (filter is_leaf vs)" "filter is_leaf vs ! length (filter is_leaf (take i vs)) = vs ! i"
    "take (length (filter is_leaf (take i vs))) (filter is_leaf vs) = filter is_leaf (take i vs)" by (subst e, simp)+
qed

lemma same_leaf_inputs:
  assumes "list_all2 same_leaf xs ys"
  shows "length (filter is_input ys) = length (filter is_input xs)"
  using assms by (induction rule: list_all2_induct) (auto simp: same_leaf_def is_input_def)

lemma filter_inputs: "filter is_input (filter is_leaf vs) = filter is_input vs"
  by (induction vs) (auto simp: is_input_def is_leaf_def)

lemma leaf_meaning:
  assumes ok: "graph_ok g" and s: "saveable g" and ok': "graph_ok h" and l: "nodes_loaded g (length (g_nodes g)) m h'"
    and vals: "g_values h = g_values h'" and v: "v < length (g_values g)" "is_leaf (g_values g ! v)"
  shows "meaning lm h ins (moved g v) = meaning lm g ins v"
proof -
  let ?vs = "g_values g" and ?ws = "g_values h" and ?L = "leafs g (length (g_values g))"
  note p = leaf_position [OF v]
  have L: "?L = length (filter is_leaf ?vs)" by (simp add: leafs_def)
  have ll: "list_all2 same_leaf (filter is_leaf ?vs) (take ?L ?ws)" and len: "length ?ws = ?L + length (g_nodes g)"
    using l vals by (simp_all add: nodes_loaded_def)
  let ?i = "leafs g v"
  have i: "?i < ?L" "?i = length (filter is_leaf (take v ?vs))" using p(1) L by (simp_all add: leafs_def)
  have at: "same_leaf (?vs ! v) (?ws ! ?i)"
    using list_all2_nthD [OF ll, of ?i] p(2) i L by simp
  have "list_all2 same_leaf (take ?i (filter is_leaf ?vs)) (take ?i (take ?L ?ws))" using ll by (rule list_all2_takeI)
  then have "list_all2 same_leaf (filter is_leaf (take v ?vs)) (take ?i ?ws)" using p(3) i by (simp add: min.absorb1)
  from same_leaf_inputs [OF this] have cnt: "inputs_before ?ws ?i = inputs_before ?vs v" unfolding inputs_before_def filter_inputs .
  have ids: "\<forall>j < length ?vs. v_id (?vs ! j) = 0 + j" "\<forall>j < length ?ws. v_id (?ws ! j) = 0 + j"
    using graph_okD(2) [OF ok] graph_okD(2) [OF ok'] by simp_all
  have "?i < length ?ws" using i(1) len by simp
  then have "bindings ?ws ins ?i = bound_number (?ws ! ?i) (drop (inputs_before ?vs v) ins)" using bindings_at [OF ids(2), of ?i ins] cnt by simp
  also have "\<dots> = bound_number (?vs ! v) (drop (inputs_before ?vs v) ins)" using at by (auto simp: same_leaf_def bound_number_def is_input_def)
  also have "\<dots> = bindings ?vs ins v" using bindings_at [OF ids(1) v(1), of ins] by simp
  finally have b: "bindings ?ws ins ?i = bindings ?vs ins v" .
  have "v_kind (?ws ! ?i) \<noteq> NodeResult" "v_kind (?vs ! v) \<noteq> NodeResult" using at v(2) by (simp_all add: same_leaf_def is_leaf_def)
  then show ?thesis using meaning_leaf [OF ok', of ?i lm ins] meaning_leaf [OF ok, of v lm ins] v(2) b by (simp add: moved_def get0_def)
qed

lemma saved_meaning:
  assumes ok: "graph_ok g" and s: "saveable g" and ok': "graph_ok h" and l: "nodes_loaded g (length (g_nodes g)) m h'"
    and vals: "g_values h = g_values h'" "g_nodes h = g_nodes h'" and "usable g k v"
  shows "meaning lm h ins (moved g v) = meaning lm g ins v"
  using assms(7)
proof (induction k arbitrary: v rule: less_induct)
  case (less k)
  have v: "v < length (g_values g)" using less.prems by (simp add: usable_def)
  show ?case
  proof (cases "is_leaf (g_values g ! v)")
    case False
    with less.prems obtain p where p: "p < k" "p < length (g_nodes g)" "v_producer (g_values g ! v) = Some p" "\<not> node_dead (g_nodes g ! p)"
      "n_results (g_nodes g ! p) = [v]" by (auto simp: usable_def is_leaf_def)
    have n: "node_moved g (g_nodes g ! p) (g_nodes h ! p)" "n_results (g_nodes h ! p) = [moved g v]" "length (g_nodes h) = length (g_nodes g)"
      using l p False by (simp_all add: nodes_loaded_def vals moved_def)
    have ops: "meaning lm h ins (n_inputs (g_nodes h ! p) ! j) = meaning lm g ins (n_inputs (g_nodes g ! p) ! j)"
      if "j < length (n_inputs (g_nodes g ! p))" for j
    proof -
      have "usable g p (n_inputs (g_nodes g ! p) ! j)" using operand_usable [OF ok p(2,4)] that by simp
      from less.IH [OF p(1) this] n(1) that show ?thesis by (simp add: node_moved_def)
    qed
    have "meaning lm h ins (moved g v) = node_value lm (g_nodes h ! p) (meaning lm h ins)"
      using n by (intro meaning_result [OF ok']) (simp_all add: node_moved_def p(2))
    also have "\<dots> = node_value lm (g_nodes g ! p) (meaning lm g ins)"
      using n(1) ops by (intro node_value_cong) (simp_all add: node_moved_def)
    also have "\<dots> = meaning lm g ins v" using meaning_result [OF ok p(2,4,5)] by simp
    finally show ?thesis .
  qed (rule leaf_meaning [OF ok s ok' l vals(1) v])
qed

theorem save_load:
  assumes ok: "graph_ok g" and s: "saveable g"
  shows "\<exists>doc h. graphToJson g = Inr doc \<and> json_fits 128 doc \<and> graphFromJson (json_back doc) pool = Some (Inr h) \<and> graph_ok h
    \<and> length (g_nodes h) = length (g_nodes g) \<and> (\<forall>lm ins. interpretGraph lm h ins = interpretGraph lm g ins)"
proof -
  let ?N = "length (g_values g)" and ?d = "json_back (graph_doc g)"
  have v0: "values_loaded g 0 hm_new (new_graph pool)"
    using new_graph_building [of pool] files_new by (auto simp: values_loaded_def loading_def fun_eq_iff)
  from load_values_saved [OF ok s v0] obtain m1 h1 where
    v: "load_values (map (value_doc g) (g_values g)) 0 hm_new (new_graph pool) = Some (Inr (m1, h1))" "values_loaded g ?N m1 h1" by auto
  from load_nodes_saved [OF ok s nodes_loaded_0 [OF v(2)]] obtain m2 h2 where
    n: "load_nodes (map (value_doc g) (g_values g)) (map node_doc (g_nodes g)) 0 m1 h1 = Some (Inr (m2, h2))"
      "nodes_loaded g (length (g_nodes g)) m2 h2" by auto
  note l = n(2) [unfolded nodes_loaded_def loading_def]
  have f: "files_ok ?N (length (g_values h2)) m2" and b: "building h2" "g_outputs h2 = []" using l [THEN conjunct1] by simp_all
  have use: "usable g (length (g_nodes g)) u" if "u \<in> set (g_outputs g)" for u using graph_okD(5) [OF ok that] .
  have mapped: "\<forall>u \<in> set (g_outputs g). hm_map m2 (int u) = Some (moved g u)"
    using l use usable_producer [OF ok use] by (auto simp: usable_def)
  have "inj_on (moved g) (set (g_outputs g))" using moved_inj [OF ok use use] by (auto simp: inj_on_def)
  then have "distinct (g_outputs h2 @ map (moved g) (g_outputs g))" using s b(2) by (simp add: saveable_def distinct_map)
  note o = load_outputs_saved [OF f mapped this]
  define h where "h = h2\<lparr>g_outputs := map (moved g) (g_outputs g)\<rparr>"
  have run: "graphFromJson ?d pool = Some (Inr h)"
    using v(1) n(1) o b(2) by (simp add: graphFromJson_def graph_finds h_def)
  have "moved g u < length (g_values h2)" if "u \<in> set (g_outputs g)" for u
    using mapped that f unfolding files_ok_def by blast
  then have "\<forall>u \<in> set (g_outputs h). usable h (length (g_nodes h)) u" using b(1) by (auto simp: h_def building_def)
  moreover have "graph_ok (h\<lparr>g_outputs := []\<rparr>)" using b(1) by (simp add: h_def building_def)
  ultimately have okh: "graph_ok h" using graph_ok_outputs [of h] by blast
  have vals: "g_values h = g_values h2" "g_nodes h = g_nodes h2" by (simp_all add: h_def)
  have "map (meaning lm h ins) (g_outputs h) = map (meaning lm g ins) (g_outputs g)" for lm ins
    using saved_meaning [OF ok s okh n(2) vals use] by (simp add: h_def)
  then have "\<forall>lm ins. interpretGraph lm h ins = interpretGraph lm g ins" using interpret_meaning [OF ok] interpret_meaning [OF okh] by simp
  moreover have "length (g_nodes h) = length (g_nodes g)" using l by (simp add: h_def)
  ultimately show ?thesis using graph_document [OF s] graph_doc_fits [OF ok s] run okh by blast
qed

end
