(* ===== verification/Rewrite.thy ===== *)
theory Rewrite
  imports Graph_Meaning
begin

text \<open>
  \<open>passes/math/math_rewrite_utils.h\<close>: the helpers of the rewriting passes. Every rewrite of a pass is
  one call of \<open>replaceResult\<close>; it is sound when the new value has the number of the old one.
\<close>

section \<open>The helpers\<close>

definition isPureNode :: "math_graph \<Rightarrow> nat \<Rightarrow> bool result" where
  "isPureNode g i = mlk_try (vec_at (g_nodes g) i) (\<lambda>n. Inr (isPure (n_effects n)))"

text \<open>The constant test fills at most one of the two slots; the slots keep their old content otherwise.\<close>

definition isConst :: "math_graph \<Rightarrow> nat \<Rightarrow> f64 \<times> int \<Rightarrow> (bool \<times> f64 \<times> int) result" where
  "isConst g v slots = mlk_try (vec_at (g_values g) v) (\<lambda>val.
     if v_kind val \<noteq> Constant then Inr (False, slots)
     else let c = v_constant val in
       Inr (True, if cp_isInt c then (fst slots, cp_i64 c) else (cp_f64 c, snd slots)))"

definition fp_constant :: "gvalue \<Rightarrow> f64 option" where
  "fp_constant v = (if v_kind v = Constant \<and> \<not> cp_isInt (v_constant v) then Some (cp_f64 (v_constant v)) else None)"

definition int_constant :: "gvalue \<Rightarrow> int option" where
  "int_constant v = (if v_kind v = Constant \<and> cp_isInt (v_constant v) then Some (cp_i64 (v_constant v)) else None)"

definition isFpConst :: "math_graph \<Rightarrow> nat \<Rightarrow> f64 option result" where
  "isFpConst g v = mlk_try (vec_at (g_values g) v) (\<lambda>val. Inr (fp_constant val))"

definition isIntConst :: "math_graph \<Rightarrow> nat \<Rightarrow> int option result" where
  "isIntConst g v = mlk_try (vec_at (g_values g) v) (\<lambda>val. Inr (int_constant val))"

definition isIntDtype :: "math_graph \<Rightarrow> nat \<Rightarrow> bool result" where
  "isIntDtype g v = mlk_try (vec_at (g_values g) v) (\<lambda>val.
     Inr (mt_dtype (v_type val) \<in> {Dt_I8, Dt_I16, Dt_I32, Dt_I64, Dt_U8, Dt_U16, Dt_U32, Dt_U64, Dt_Bool1}))"

definition transfer_type :: "nat \<Rightarrow> nat \<Rightarrow> math_graph \<Rightarrow> math_graph result" where
  "transfer_type oldV newV g = mlk_try (vec_at (g_values g) oldV) (\<lambda>a. mlk_try (vec_at (g_values g) newV) (\<lambda>b.
     Inr (if mt_domain (v_type b) = Dom_Unknown then g\<lparr>g_values := (g_values g)[newV := b\<lparr>v_type := v_type a\<rparr>]\<rparr> else g)))"

definition replaceResult :: "nat \<Rightarrow> nat \<Rightarrow> math_graph \<Rightarrow> (nat \<times> math_graph) result option" where
  "replaceResult i newV g =
     then_call (Some (mlk_try (vec_at (g_nodes g) i) (\<lambda>n. vec_at (n_results n) 0))) (\<lambda>oldV.
     then_call (Some (transfer_type oldV newV g)) (\<lambda>g.
     then_call (Some (replaceOperandUses oldV newV g)) (\<lambda>g.
     then_call (recordEquivalent oldV newV g) (\<lambda>g.
     then_call (Some (killNode i g)) (\<lambda>(ok, g).
       Some (if ok then Inr (newV, g) else Inl (Err Internal)))))))"

section \<open>The graph after a replacement\<close>

text \<open>What the run of a graph reads of a value.\<close>

definition value_core :: "gvalue \<Rightarrow> nat \<times> value_kind \<times> constant_payload \<times> nat option \<times> nat option" where
  "value_core v = (v_id v, v_kind v, v_constant v, v_producer v, v_name v)"

definition redirected :: "nat \<Rightarrow> nat \<Rightarrow> gnode \<Rightarrow> gnode" where
  "redirected oldV newV n = n\<lparr>n_inputs := map (redirect oldV newV) (n_inputs n)\<rparr>"

definition rewired :: "math_graph \<Rightarrow> nat \<Rightarrow> nat \<Rightarrow> nat \<Rightarrow> math_graph \<Rightarrow> bool" where
  "rewired g i r newV g' \<longleftrightarrow> map value_core (g_values g') = map value_core (g_values g)
     \<and> g_outputs g' = map (redirect r newV) (g_outputs g) \<and> g_effects g' = g_effects g
     \<and> store_ok (length (g_values g)) (g_repr g') \<and> hm_map (g_repr g') = (hm_map (g_repr g))(r \<mapsto> newV)
     \<and> length (g_nodes g') = length (g_nodes g)
     \<and> (\<forall>j < length (g_nodes g). (node_dead (g_nodes g' ! j) \<longleftrightarrow> j = i \<or> node_dead (g_nodes g ! j))
          \<and> n_id (g_nodes g' ! j) = n_id (g_nodes g ! j) \<and> n_op (g_nodes g' ! j) = n_op (g_nodes g ! j)
          \<and> n_results (g_nodes g' ! j) = n_results (g_nodes g ! j) \<and> n_effects (g_nodes g' ! j) = n_effects (g_nodes g ! j)
          \<and> n_attrs (g_nodes g' ! j) = n_attrs (g_nodes g ! j)
          \<and> (j \<noteq> i \<longrightarrow> \<not> node_dead (g_nodes g ! j) \<longrightarrow> n_inputs (g_nodes g' ! j) = map (redirect r newV) (n_inputs (g_nodes g ! j))))"

lemma value_core_nth:
  assumes "map value_core vs = map value_core ws" and "v < length ws"
  shows "v_id (vs ! v) = v_id (ws ! v)" "v_kind (vs ! v) = v_kind (ws ! v)" "v_constant (vs ! v) = v_constant (ws ! v)"
    "v_producer (vs ! v) = v_producer (ws ! v)" "v_name (vs ! v) = v_name (ws ! v)"
proof -
  have "length vs = length ws" using assms(1) by (metis length_map)
  then have "value_core (vs ! v) = value_core (ws ! v)" using assms by (metis nth_map)
  then show "v_id (vs ! v) = v_id (ws ! v)" "v_kind (vs ! v) = v_kind (ws ! v)" "v_constant (vs ! v) = v_constant (ws ! v)"
    "v_producer (vs ! v) = v_producer (ws ! v)" "v_name (vs ! v) = v_name (ws ! v)" by (simp_all add: value_core_def)
qed

lemma value_core_update: "v < length vs \<Longrightarrow> value_core w = value_core (vs ! v) \<Longrightarrow> map value_core (vs[v := w]) = map value_core vs"
  by (metis list_update_id map_update)

lemma bindings_core: "map value_core vs = map value_core ws \<Longrightarrow> bindings vs ins = bindings ws ins"
proof (induction vs arbitrary: ws ins)
  case (Cons v vs)
  then obtain w us where w: "ws = w # us" "value_core v = value_core w" "map value_core vs = map value_core us"
    by (cases ws) auto
  with Cons.IH [OF w(3)] show ?case by (simp add: value_core_def)
qed simp

lemma build_users_total:
  "\<forall>n \<in> set ns. \<not> node_dead n \<longrightarrow> (\<forall>v \<in> set (n_inputs n). v < length us) \<Longrightarrow> \<exists>us'. build_users ns us = Inr us'"
proof (induction ns arbitrary: us)
  case (Cons n ns)
  have "length (fold (add_user k) vs us) = length us" for k vs and us :: "nat list list"
    by (induction vs arbitrary: us) (simp_all add: add_user_def)
  with Cons show ?case by (simp add: list_all_iff)
qed simp

lemma value_core_keeps:
  "v < length vs \<Longrightarrow> map value_core (vs[v := (vs ! v)\<lparr>v_flags := fl\<rparr>]) = map value_core vs"
  "v < length vs \<Longrightarrow> map value_core (vs[v := (vs ! v)\<lparr>v_type := ty\<rparr>]) = map value_core vs"
  by (rule value_core_update, assumption, simp add: value_core_def)+

lemma value_flag_run:
  "v < length (g_values g) \<Longrightarrow> \<exists>g'. value_flag v e on g = Inr g' \<and> map value_core (g_values g') = map value_core (g_values g)
    \<and> g_nodes g' = g_nodes g \<and> g_outputs g' = g_outputs g \<and> g_effects g' = g_effects g \<and> g_repr g' = g_repr g"
  by (simp add: value_flag_def vec_at_def value_core_keeps)

lemma transfer_type_run:
  "a < length (g_values g) \<Longrightarrow> b < length (g_values g) \<Longrightarrow>
   \<exists>g'. transfer_type a b g = Inr g' \<and> map value_core (g_values g') = map value_core (g_values g)
    \<and> g_nodes g' = g_nodes g \<and> g_outputs g' = g_outputs g \<and> g_effects g' = g_effects g \<and> g_repr g' = g_repr g"
  by (simp add: transfer_type_def vec_at_def value_core_keeps)

lemma recordEquivalent_run:
  assumes st: "store_ok (length (g_values g)) (g_repr g)" and fits: "int (length (g_values g)) < kTombstone"
    and v: "a < length (g_values g)" "b < length (g_values g)"
  shows "\<exists>g'. recordEquivalent a b g = Some (Inr g') \<and> map value_core (g_values g') = map value_core (g_values g)
    \<and> g_nodes g' = g_nodes g \<and> g_outputs g' = g_outputs g \<and> g_effects g' = g_effects g
    \<and> store_ok (length (g_values g)) (g_repr g') \<and> hm_map (g_repr g') = (hm_map (g_repr g))(a \<mapsto> b)"
proof -
  from store_put [OF st fits v(1), of b] obtain m where m: "hm_put id_hash a b (g_repr g) = Some (Inr m)"
    "store_ok (length (g_values g)) m" "hm_map m = (hm_map (g_repr g))(a \<mapsto> b)" by blast
  from value_flag_run [of a "g\<lparr>g_repr := m\<rparr>" VF_Canonical False] v(1) obtain g1 where g1:
    "value_flag a VF_Canonical False (g\<lparr>g_repr := m\<rparr>) = Inr g1" "map value_core (g_values g1) = map value_core (g_values g)"
    "g_nodes g1 = g_nodes g" "g_outputs g1 = g_outputs g" "g_effects g1 = g_effects g" "g_repr g1 = m" by auto
  then have "b < length (g_values g1)" using v(2) by (metis length_map)
  from value_flag_run [OF this, of VF_Canonical True] obtain g2 where g2: "value_flag b VF_Canonical True g1 = Inr g2"
    "map value_core (g_values g2) = map value_core (g_values g1)" "g_nodes g2 = g_nodes g1" "g_outputs g2 = g_outputs g1"
    "g_effects g2 = g_effects g1" "g_repr g2 = g_repr g1" by blast
  show ?thesis using m g1 g2 by (auto simp: recordEquivalent_def bumpVersion_def)
qed

lemma replaceOperandUses_run:
  assumes ne: "a \<noteq> b" and v: "a < length (g_values g)" "b < length (g_values g)"
    and ins: "\<forall>n \<in> set (g_nodes g). \<not> node_dead n \<longrightarrow> (\<forall>v \<in> set (n_inputs n). v < length (g_values g))"
  shows "\<exists>g'. replaceOperandUses a b g = Inr g' \<and> g_values g' = g_values g \<and> g_nodes g' = map (redirect_node a b) (g_nodes g)
    \<and> g_outputs g' = map (redirect a b) (g_outputs g) \<and> g_effects g' = g_effects g \<and> g_repr g' = g_repr g"
proof -
  have "\<forall>n \<in> set (map (redirect_node a b) (g_nodes g)). \<not> node_dead n \<longrightarrow> (\<forall>v \<in> set (n_inputs n). v < length (replicate (length (g_values g)) []))"
    using ins v by (auto simp: redirect_node_def redirect_def node_dead_def split: if_splits)
  from build_users_total [OF this] ne v show ?thesis
    by (auto simp: replaceOperandUses_def rebuildUsers_def bumpVersion_def not_le)
qed

lemma redirect_node_simps [simp]:
  "node_dead (redirect_node a b n) = node_dead n" "n_id (redirect_node a b n) = n_id n" "n_op (redirect_node a b n) = n_op n"
  "n_results (redirect_node a b n) = n_results n" "n_effects (redirect_node a b n) = n_effects n" "n_attrs (redirect_node a b n) = n_attrs n"
  "\<not> node_dead n \<Longrightarrow> n_inputs (redirect_node a b n) = map (redirect a b) (n_inputs n)"
  by (simp_all add: redirect_node_def node_dead_def)

lemma replaceResult_run:
  assumes ok: "graph_ok g" and i: "i < length (g_nodes g)" "\<not> node_dead (g_nodes g ! i)" "isPure (n_effects (g_nodes g ! i))"
    and r: "n_results (g_nodes g ! i) = [r]" and u: "usable g i newV"
  shows "\<exists>g'. replaceResult i newV g = Some (Inr (newV, g')) \<and> rewired g i r newV g'"
proof -
  have rl: "r < length (g_values g)" "v_kind (g_values g ! r) = NodeResult" "v_producer (g_values g ! r) = Some i"
    using node_result [OF ok i(1)] r by auto
  have ul: "newV < length (g_values g)" "r \<noteq> newV" using u rl by (auto simp: usable_def)
  obtain g1 where g1: "transfer_type r newV g = Inr g1" "map value_core (g_values g1) = map value_core (g_values g)"
    "g_nodes g1 = g_nodes g" "g_outputs g1 = g_outputs g" "g_effects g1 = g_effects g" "g_repr g1 = g_repr g"
    using transfer_type_run [OF rl(1) ul(1)] by blast
  have len1: "length (g_values g1) = length (g_values g)" using g1(2) by (metis length_map)
  have ins: "\<forall>n \<in> set (g_nodes g1). \<not> node_dead n \<longrightarrow> (\<forall>v \<in> set (n_inputs n). v < length (g_values g1))"
  proof (intro ballI impI)
    fix n v assume "n \<in> set (g_nodes g1)" "\<not> node_dead n" "v \<in> set (n_inputs n)"
    moreover from this obtain j where "j < length (g_nodes g)" "n = g_nodes g ! j" by (auto simp: g1(3) in_set_conv_nth)
    ultimately have "usable g j v" using operand_usable [OF ok] by simp
    then show "v < length (g_values g1)" by (simp add: usable_def len1)
  qed
  from replaceOperandUses_run [OF ul(2) _ _ ins] rl(1) ul(1) len1 obtain g2 where g2: "replaceOperandUses r newV g1 = Inr g2"
    "g_values g2 = g_values g1" "g_nodes g2 = map (redirect_node r newV) (g_nodes g1)" "g_outputs g2 = map (redirect r newV) (g_outputs g1)"
    "g_effects g2 = g_effects g1" "g_repr g2 = g_repr g1" by auto
  have st2: "store_ok (length (g_values g2)) (g_repr g2)" "int (length (g_values g2)) < kTombstone"
    using graph_okD(1,6) [OF ok] by (simp_all add: g2 g1 len1)
  from recordEquivalent_run [OF st2, of r newV] rl(1) ul(1) obtain g3 where g3: "recordEquivalent r newV g2 = Some (Inr g3)"
    "map value_core (g_values g3) = map value_core (g_values g2)" "g_nodes g3 = g_nodes g2" "g_outputs g3 = g_outputs g2"
    "g_effects g3 = g_effects g2" "store_ok (length (g_values g2)) (g_repr g3)" "hm_map (g_repr g3) = (hm_map (g_repr g2))(r \<mapsto> newV)"
    by (auto simp: g2(2) len1)
  have pure: "i \<notin> set (g_effects g)" using i graph_okD(7) [OF ok] by (auto simp: effects_ok_def)
  define kn where "kn = (g_nodes g3 ! i)\<lparr>n_flags := flag_put NF_Dead True (n_flags (g_nodes g3 ! i))\<rparr>"
  define g4 where "g4 = bumpVersion (g3\<lparr>g_nodes := (g_nodes g3)[i := kn], g_effects := effect_remove i (g_effects g3), g_hashCache := None\<rparr>)"
  have n3: "g_nodes g3 = map (redirect_node r newV) (g_nodes g)" by (simp add: g3 g2 g1)
  have kn: "node_dead kn" "n_id kn = n_id (g_nodes g ! i)" "n_op kn = n_op (g_nodes g ! i)" "n_results kn = n_results (g_nodes g ! i)"
    "n_effects kn = n_effects (g_nodes g ! i)" "n_attrs kn = n_attrs (g_nodes g ! i)"
    using i(1) by (simp_all add: kn_def n3 node_dead_def NF_Dead_def)
  have kill: "killNode i g3 = Inr (True, g4)" using i by (simp add: killNode_def vec_at_def n3 g4_def kn_def)
  have g4: "g_values g4 = g_values g3" "g_outputs g4 = g_outputs g3" "g_repr g4 = g_repr g3" "g_nodes g4 = (g_nodes g3)[i := kn]"
    "g_effects g4 = g_effects g" using pure by (simp_all add: g4_def bumpVersion_def effect_remove_def remove1_idem g3 g2 g1)
  have at: "g_nodes g4 ! j = (if j = i then kn else redirect_node r newV (g_nodes g ! j))" if "j < length (g_nodes g)" for j
    using that i(1) by (simp add: g4 n3)
  have "rewired g i r newV g4" unfolding rewired_def
  proof (intro conjI allI impI)
    show "map value_core (g_values g4) = map value_core (g_values g)" by (simp add: g4 g3 g2 g1)
    show "g_outputs g4 = map (redirect r newV) (g_outputs g)" by (simp add: g4 g3 g2 g1)
    show "g_effects g4 = g_effects g" by (simp add: g4)
    show "store_ok (length (g_values g)) (g_repr g4)" using g3(6) by (simp add: g4 g2 len1)
    show "hm_map (g_repr g4) = (hm_map (g_repr g))(r \<mapsto> newV)" by (simp add: g4 g3 g2 g1)
    show "length (g_nodes g4) = length (g_nodes g)" by (simp add: g4 n3)
  qed (use at kn in auto)
  moreover have "replaceResult i newV g = Some (Inr (newV, g4))"
    using i r g1(1) g2(1) g3(1) kill by (simp add: replaceResult_def vec_at_def)
  ultimately show ?thesis by blast
qed

section \<open>Soundness of a replacement\<close>

text \<open>Facts of a rewired graph, by index.\<close>

lemma rewiredD:
  assumes "rewired g i r newV g'"
  shows "length (g_values g') = length (g_values g)" "length (g_nodes g') = length (g_nodes g)"
    and "v < length (g_values g) \<Longrightarrow> v_id (g_values g' ! v) = v_id (g_values g ! v)"
    and "v < length (g_values g) \<Longrightarrow> v_kind (g_values g' ! v) = v_kind (g_values g ! v)"
    and "v < length (g_values g) \<Longrightarrow> v_constant (g_values g' ! v) = v_constant (g_values g ! v)"
    and "v < length (g_values g) \<Longrightarrow> v_producer (g_values g' ! v) = v_producer (g_values g ! v)"
    and "j < length (g_nodes g) \<Longrightarrow> node_dead (g_nodes g' ! j) \<longleftrightarrow> j = i \<or> node_dead (g_nodes g ! j)"
    and "j < length (g_nodes g) \<Longrightarrow> n_results (g_nodes g' ! j) = n_results (g_nodes g ! j)"
    and "j < length (g_nodes g) \<Longrightarrow> n_op (g_nodes g' ! j) = n_op (g_nodes g ! j)"
    and "j < length (g_nodes g) \<Longrightarrow> n_id (g_nodes g' ! j) = n_id (g_nodes g ! j)"
    and "j < length (g_nodes g) \<Longrightarrow> n_effects (g_nodes g' ! j) = n_effects (g_nodes g ! j)"
    and "j < length (g_nodes g) \<Longrightarrow> \<not> node_dead (g_nodes g' ! j) \<Longrightarrow> n_inputs (g_nodes g' ! j) = map (redirect r newV) (n_inputs (g_nodes g ! j))"
proof -
  show "length (g_values g') = length (g_values g)" using assms by (metis length_map rewired_def)
  show "length (g_nodes g') = length (g_nodes g)" using assms by (simp add: rewired_def)
  have core: "map value_core (g_values g') = map value_core (g_values g)" using assms by (simp add: rewired_def)
  note c = value_core_nth [OF core]
  show "v < length (g_values g) \<Longrightarrow> v_id (g_values g' ! v) = v_id (g_values g ! v)"
    "v < length (g_values g) \<Longrightarrow> v_kind (g_values g' ! v) = v_kind (g_values g ! v)"
    "v < length (g_values g) \<Longrightarrow> v_constant (g_values g' ! v) = v_constant (g_values g ! v)"
    "v < length (g_values g) \<Longrightarrow> v_producer (g_values g' ! v) = v_producer (g_values g ! v)" using c by blast+
qed (use assms in \<open>auto simp: rewired_def\<close>)

text \<open>A live pure node \<open>i\<close> with result \<open>r\<close>, and a value that may stand in for the result.\<close>

definition site :: "math_graph \<Rightarrow> nat \<Rightarrow> nat \<Rightarrow> nat \<Rightarrow> bool" where
  "site g i r newV \<longleftrightarrow> i < length (g_nodes g) \<and> \<not> node_dead (g_nodes g ! i) \<and> isPure (n_effects (g_nodes g ! i))
     \<and> n_results (g_nodes g ! i) = [r] \<and> usable g i newV"

lemma siteD:
  assumes ok: "graph_ok g" and s: "site g i r newV"
  shows "r < length (g_values g)" "v_kind (g_values g ! r) = NodeResult" "v_producer (g_values g ! r) = Some i" "newV \<noteq> r"
proof -
  have i: "i < length (g_nodes g)" "n_results (g_nodes g ! i) = [r]" using s by (simp_all add: site_def)
  show r: "r < length (g_values g)" "v_kind (g_values g ! r) = NodeResult" "v_producer (g_values g ! r) = Some i"
    using node_result [OF ok i(1)] i(2) by auto
  show "newV \<noteq> r" using s r by (auto simp: site_def usable_def)
qed

text \<open>Usable values stay usable, apart from the one that was replaced.\<close>

lemma rewired_usable:
  assumes ok: "graph_ok g" and s: "site g i r newV" and w: "rewired g i r newV g'" and u: "usable g k v" and ne: "v \<noteq> r"
  shows "usable g' k v"
proof -
  note d = rewiredD [OF w] and sd = siteD [OF ok s]
  have v: "v < length (g_values g)" "hm_map (g_repr g) v = None" using u by (simp_all add: usable_def)
  have m: "hm_map (g_repr g') v = None" using w v ne by (simp add: rewired_def)
  show ?thesis
  proof (cases "v_kind (g_values g ! v) = NodeResult")
    case True
    with u obtain p where p: "p < k" "p < length (g_nodes g)" "v_producer (g_values g ! v) = Some p" "\<not> node_dead (g_nodes g ! p)"
      "n_results (g_nodes g ! p) = [v]" by (auto simp: usable_def)
    have "p \<noteq> i" using p(5) s ne by (auto simp: site_def)
    with p d(1,2) d(4,6) [OF v(1)] d(7,8) [OF p(2)] v m show ?thesis by (auto simp: usable_def)
  next
    case False
    with v m d(1) d(4) [OF v(1)] show ?thesis by (simp add: usable_def)
  qed
qed

text \<open>A use of any usable value becomes a use of a usable one.\<close>

lemma redirect_usable:
  assumes ok: "graph_ok g" and s: "site g i r newV" and w: "rewired g i r newV g'" and u: "usable g k v"
  shows "usable g' k (redirect r newV v)" and "redirect r newV v \<noteq> r"
proof -
  note sd = siteD [OF ok s]
  show "redirect r newV v \<noteq> r" using sd by (simp add: redirect_def)
  show "usable g' k (redirect r newV v)"
  proof (cases "v = r")
    case True
    with u sd have "i < k" by (auto simp: usable_def)
    with s have "usable g k newV" using usable_mono [of g i newV k] by (simp add: site_def)
    with rewired_usable [OF ok s w] sd True show ?thesis by (simp add: redirect_def)
  next
    case False
    with rewired_usable [OF ok s w u] show ?thesis by (simp add: redirect_def)
  qed
qed

lemma rewired_ok:
  assumes ok: "graph_ok g" and s: "site g i r newV" and w: "rewired g i r newV g'"
  shows "graph_ok g'"
proof -
  note d = rewiredD [OF w] and sd = siteD [OF ok s]
  have results: "results_ok g'" unfolding results_ok_def
  proof (intro allI impI)
    fix j assume j: "j < length (g_nodes g')"
    then have jl: "j < length (g_nodes g)" using d(2) by simp
    from node_result [OF ok jl] obtain q where q: "q < length (g_values g)" "n_results (g_nodes g ! j) = [q]"
      "v_kind (g_values g ! q) = NodeResult" "v_producer (g_values g ! q) = Some j" "n_id (g_nodes g ! j) = j" by blast
    with d(1) d(4,6) [OF q(1)] d(8,10) [OF jl]
    show "n_id (g_nodes g' ! j) = j \<and> (\<exists>r < length (g_values g'). n_results (g_nodes g' ! j) = [r]
        \<and> v_kind (g_values g' ! r) = NodeResult \<and> v_producer (g_values g' ! r) = Some j)" by auto
  qed
  have operands: "operands_ok g'" unfolding operands_ok_def
  proof (intro allI impI conjI)
    fix j assume j: "j < length (g_nodes g')" and live: "\<not> node_dead (g_nodes g' ! j)"
    then have jl: "j < length (g_nodes g)" "\<not> node_dead (g_nodes g ! j)" "j \<noteq> i" using d(2) d(7) [of j] by auto
    show "\<forall>v \<in> set (n_inputs (g_nodes g' ! j)). usable g' j v"
      unfolding d(12) [OF jl(1) live] using redirect_usable(1) [OF ok s w] operand_usable [OF ok jl(1,2)] by auto
    have "q \<noteq> r" if "q \<in> set (n_results (g_nodes g ! j))" for q
      using node_result [OF ok jl(1)] that sd jl(3) by (metis empty_iff list.set(1) option.inject set_ConsD)
    moreover have "\<forall>q \<in> set (n_results (g_nodes g ! j)). hm_map (g_repr g) q = None"
      using graph_okD(4) [OF ok] jl by (simp add: operands_ok_def)
    ultimately show "\<forall>q \<in> set (n_results (g_nodes g' ! j)). hm_map (g_repr g') q = None"
      using w d(8) [OF jl(1)] by (auto simp: rewired_def)
  qed
  have outputs: "\<forall>v \<in> set (g_outputs g'). usable g' (length (g_nodes g')) v"
    using redirect_usable(1) [OF ok s w] graph_okD(5) [OF ok] w d(2) by (auto simp: rewired_def)
  have "effects_ok g'"
  proof -
    have "{j. j < length (g_nodes g') \<and> \<not> node_dead (g_nodes g' ! j) \<and> \<not> isPure (n_effects (g_nodes g' ! j))}
        = {j. j < length (g_nodes g) \<and> \<not> node_dead (g_nodes g ! j) \<and> \<not> isPure (n_effects (g_nodes g ! j))}"
      using d(2) d(7) d(11) s by (auto simp: site_def)
    then show ?thesis using graph_okD(7) [OF ok] w by (simp add: effects_ok_def rewired_def)
  qed
  moreover have "\<forall>v < length (g_values g'). v_id (g_values g' ! v) = v" using graph_okD(2) [OF ok] d(1,3) by simp
  moreover have "store_ok (length (g_values g')) (g_repr g')" using w d(1) by (simp add: rewired_def)
  ultimately show ?thesis using graph_okD(1) [OF ok] results operands outputs d(1) by (simp add: graph_ok_def)
qed

lemma rewired_meaning:
  assumes ok: "graph_ok g" and s: "site g i r newV" and w: "rewired g i r newV g'"
    and same: "meaning lm g ins newV = meaning lm g ins r"
    and v: "usable g k v" "v \<noteq> r"
  shows "meaning lm g' ins v = meaning lm g ins v"
proof (rule meaning_transfer [OF ok rewired_ok [OF ok s w], of "\<lambda>v. v \<noteq> r \<and> (\<exists>k. usable g k v)"])
  note d = rewiredD [OF w] and sd = siteD [OF ok s]
  have core: "map value_core (g_values g') = map value_core (g_values g)" using w by (simp add: rewired_def)
  fix v assume "v \<noteq> r \<and> (\<exists>k. usable g k v)"
  then obtain k where v: "v \<noteq> r" "usable g k v" "v < length (g_values g)" by (auto simp: usable_def)
  show "v_kind (g_values g' ! v) \<noteq> NodeResult \<Longrightarrow> meaning lm g' ins v = meaning lm g ins v"
    using meaning_leaf [OF ok, of v lm ins] meaning_leaf [OF rewired_ok [OF ok s w], of v lm ins] bindings_core [OF core] d(4) [OF v(3)] by simp
  assume "v_kind (g_values g' ! v) = NodeResult"
  with v obtain p where p: "p < length (g_nodes g)" "\<not> node_dead (g_nodes g ! p)" "n_results (g_nodes g ! p) = [v]"
    using d(4) [OF v(3)] by (auto simp: usable_def)
  have live: "\<not> node_dead (g_nodes g' ! p)" using d(7) [OF p(1)] p v(1) s by (auto simp: site_def)
  have ins: "n_inputs (g_nodes g' ! p) = map (redirect r newV) (n_inputs (g_nodes g ! p))" by (rule d(12) [OF p(1) live])
  have "redirect r newV x \<noteq> r \<and> (\<exists>k. usable g k (redirect r newV x)) \<and> meaning lm g ins (redirect r newV x) = meaning lm g ins x"
    if "x \<in> set (n_inputs (g_nodes g ! p))" for x
    using operand_usable [OF ok p(1,2) that] s sd(4) same by (auto simp: redirect_def site_def)
  then show "\<exists>p. p < length (g_nodes g') \<and> p < length (g_nodes g)
      \<and> \<not> node_dead (g_nodes g' ! p) \<and> \<not> node_dead (g_nodes g ! p) \<and> n_results (g_nodes g' ! p) = [v] \<and> n_results (g_nodes g ! p) = [v]
      \<and> n_op (g_nodes g' ! p) = n_op (g_nodes g ! p) \<and> length (n_inputs (g_nodes g' ! p)) = length (n_inputs (g_nodes g ! p))
      \<and> (\<forall>k < length (n_inputs (g_nodes g ! p)). (n_inputs (g_nodes g' ! p) ! k \<noteq> r \<and> (\<exists>j. usable g j (n_inputs (g_nodes g' ! p) ! k)))
          \<and> meaning lm g ins (n_inputs (g_nodes g' ! p) ! k) = meaning lm g ins (n_inputs (g_nodes g ! p) ! k))"
    using p d(2) d(8,9) [OF p(1)] live by (intro exI [of _ p]) (auto simp: ins)
qed (use v in blast)

text \<open>
  One rewrite of a pass: it succeeds, keeps the invariant and what other values mean, and the
  interpreter returns the same outputs.
\<close>

lemma replaceResult_sound:
  assumes ok: "graph_ok g" and s: "site g i r newV" and same: "meaning lm g ins newV = meaning lm g ins r"
  shows "\<exists>g'. replaceResult i newV g = Some (Inr (newV, g')) \<and> rewired g i r newV g' \<and> graph_ok g'
    \<and> interpretGraph lm g' ins = interpretGraph lm g ins"
proof -
  obtain g' where g': "replaceResult i newV g = Some (Inr (newV, g'))" "rewired g i r newV g'"
    using replaceResult_run [OF ok, of i r newV] s by (auto simp: site_def)
  have ok': "graph_ok g'" by (rule rewired_ok [OF ok s g'(2)])
  have "meaning lm g' ins (redirect r newV v) = meaning lm g ins v" if "v \<in> set (g_outputs g)" for v
  proof (cases "v = r")
    case True
    have "usable g i newV" "newV \<noteq> r" using s siteD [OF ok s] by (simp_all add: site_def)
    from rewired_meaning [OF ok s g'(2) same this] show ?thesis using same True by (simp add: redirect_def)
  next
    case False
    with rewired_meaning [OF ok s g'(2) same graph_okD(5) [OF ok that]] show ?thesis by (simp add: redirect_def)
  qed
  then have "map (meaning lm g' ins) (g_outputs g') = map (meaning lm g ins) (g_outputs g)"
    using g'(2) by (simp add: rewired_def)
  then show ?thesis using interpret_meaning [OF ok] interpret_meaning [OF ok'] g' ok' by auto
qed

end
