(* ===== verification/Recache.thy ===== *)
theory Recache
  imports Rewrite
begin

text \<open>
  Changes that no run of a graph can see: the hash caches, the types and the flags of values. The
  hash of a value may be recomputed at any time; it succeeds and changes only caches.
\<close>

section \<open>Graphs that differ in caches\<close>

definition recached :: "math_graph \<Rightarrow> math_graph \<Rightarrow> bool" where
  "recached g g' \<longleftrightarrow> map value_core (g_values g') = map value_core (g_values g) \<and> g_nodes g' = g_nodes g \<and> g_outputs g' = g_outputs g
     \<and> g_effects g' = g_effects g \<and> g_repr g' = g_repr g"

lemma recached_refl [simp]: "recached g g" by (simp add: recached_def)

lemma recached_trans: "recached g h \<Longrightarrow> recached h k \<Longrightarrow> recached g k"
  by (simp add: recached_def)

lemma recached_length: "recached g g' \<Longrightarrow> length (g_values g') = length (g_values g)"
  by (metis length_map recached_def)

lemma recached_usable: "recached g g' \<Longrightarrow> usable g' k v \<longleftrightarrow> usable g k v"
  using recached_length [of g g'] value_core_nth [of "g_values g'" "g_values g" v] by (auto simp: recached_def usable_def)

lemma recached_ok:
  assumes "recached g g'" and "graph_ok g"
  shows "graph_ok g'"
proof -
  note l = recached_length [OF assms(1)] and c = value_core_nth [of "g_values g'" "g_values g"]
  have s: "g_nodes g' = g_nodes g" "g_outputs g' = g_outputs g" "g_effects g' = g_effects g" "g_repr g' = g_repr g"
    "map value_core (g_values g') = map value_core (g_values g)" using assms(1) by (simp_all add: recached_def)
  have "results_ok g'" using graph_okD(3) [OF assms(2)] c s(5) unfolding results_ok_def l s(1) by metis
  moreover have "operands_ok g'"
    using graph_okD(4) [OF assms(2)] recached_usable [OF assms(1)] by (simp add: operands_ok_def s)
  ultimately show ?thesis
    using graph_okD [OF assms(2)] recached_usable [OF assms(1)] c(1) [OF s(5)] by (simp add: graph_ok_def l s effects_ok_def)
qed

lemma recached_meaning: "recached g g' \<Longrightarrow> meaning lm g' ins = meaning lm g ins"
  using bindings_core [of "g_values g'" "g_values g" ins] by (simp add: recached_def meaning_def scalars_def live_nodes_def)

lemma recached_interpret:
  "recached g g' \<Longrightarrow> graph_ok g \<Longrightarrow> interpretGraph lm g' ins = interpretGraph lm g ins"
  using interpret_meaning [of g lm ins] interpret_meaning [of g' lm ins] recached_ok [of g g'] recached_meaning [of g g' lm ins]
  by (simp add: recached_def)

section \<open>Hashing succeeds\<close>

lemma hash_update_core:
  "v < length vs \<Longrightarrow> map value_core (vs[v := (vs ! v)\<lparr>v_hash := k, v_hashValid := b\<rparr>]) = map value_core vs"
  by (rule value_core_update, assumption, simp add: value_core_def)

lemma fold_res_total:
  "(\<And>x s. x \<in> set xs \<Longrightarrow> \<exists>t. f x s = Inr t) \<Longrightarrow> \<exists>t. fold_res f xs s = Inr t"
proof (induction xs arbitrary: s)
  case (Cons x xs)
  obtain t where "f x s = Inr t" using Cons.prems [of x s] by auto
  with Cons.IH [of t] Cons.prems show ?case by simp
qed simp

lemma hash_nodes_run:
  assumes "\<forall>n \<in> set ns. \<not> node_dead n \<longrightarrow> (\<forall>v \<in> set (n_inputs n). v < length vs) \<and> (\<exists>r < length vs. n_results n = [r])"
  shows "\<exists>vs' h'. hash_nodes ns vs h = Inr (vs', h') \<and> map value_core vs' = map value_core vs"
  using assms
proof (induction ns arbitrary: vs h)
  case (Cons n ns)
  show ?case
  proof (cases "node_dead n")
    case True
    with Cons show ?thesis by simp
  next
    case False
    with Cons.prems obtain r where r: "r < length vs" "n_results n = [r]" and ins: "\<forall>v \<in> set (n_inputs n). v < length vs" by auto
    have "\<exists>nh. node_hash (input_hash vs) n = Inr nh" unfolding node_hash_def
      by (rule fold_res_total) (use ins in \<open>simp add: input_hash_def vec_at_def\<close>)
    then obtain nh where nh: "node_hash (input_hash vs) n = Inr nh" by blast
    let ?vs = "vs[r := (vs ! r)\<lparr>v_hash := nh, v_hashValid := True\<rparr>]"
    have "\<forall>n \<in> set ns. \<not> node_dead n \<longrightarrow> (\<forall>v \<in> set (n_inputs n). v < length ?vs) \<and> (\<exists>r < length ?vs. n_results n = [r])"
      using Cons.prems by simp
    from Cons.IH [OF this, of "hashCombine h nh"] obtain vs' h' where
      "hash_nodes ns ?vs (hashCombine h nh) = Inr (vs', h')" "map value_core vs' = map value_core ?vs" by blast
    with False r nh hash_update_core [OF r(1)] show ?thesis by (simp add: vec_at_def)
  qed
qed simp

lemma valueHash_run:
  assumes ok: "graph_ok g" and v: "v < length (g_values g)"
  shows "\<exists>h g'. valueHash g v = Inr (h, g') \<and> recached g g'"
proof -
  have nodes: "\<forall>n \<in> set (g_nodes g). \<not> node_dead n \<longrightarrow> (\<forall>v \<in> set (n_inputs n). v < length (g_values g)) \<and> (\<exists>r < length (g_values g). n_results n = [r])"
  proof (intro ballI impI)
    fix n assume "n \<in> set (g_nodes g)" "\<not> node_dead n"
    then obtain i where "i < length (g_nodes g)" "n = g_nodes g ! i" by (auto simp: in_set_conv_nth)
    with \<open>\<not> node_dead n\<close> show "(\<forall>v \<in> set (n_inputs n). v < length (g_values g)) \<and> (\<exists>r < length (g_values g). n_results n = [r])"
      using operand_usable [OF ok] node_result [OF ok] by (metis usable_def)
  qed
  have "\<exists>h g'. graph_hash g = Inr (h, g') \<and> recached g g'"
  proof (cases "g_hashCache g")
    case None
    with hash_nodes_run [OF nodes, of kHashSeed] show ?thesis by (auto simp: graph_hash_def recached_def)
  qed (simp add: graph_hash_def)
  then obtain h g' where "graph_hash g = Inr (h, g')" "recached g g'" by blast
  with v recached_length show ?thesis by (auto simp: valueHash_def vec_at_def)
qed

end
