(* ===== verification/Dce.thy ===== *)
theory Dce
  imports Graph_Meaning
begin

text \<open>
  \<open>passes/math/math.dce.cpp\<close>: dead code elimination by marking and sweeping. The marked values are
  exactly the ones that the outputs and the effecting nodes need; sweeping kills the other pure
  nodes and changes neither the outputs' numbers nor the effects.
\<close>

section \<open>The pass\<close>

text \<open>A value is marked and put on the worklist, whose back is the head of the list here.\<close>

fun mark_outputs :: "nat list \<Rightarrow> nat hash_set \<Rightarrow> nat list \<Rightarrow> (nat hash_set \<times> nat list) result option" where
  "mark_outputs [] live work = Some (Inr (live, work))"
| "mark_outputs (v # vs) live work = then_call (hs_insert id_hash v live) (\<lambda>(b, live). mark_outputs vs live (v # work))"

fun mark_new :: "nat list \<Rightarrow> nat hash_set \<Rightarrow> nat list \<Rightarrow> (nat hash_set \<times> nat list) result option" where
  "mark_new [] live work = Some (Inr (live, work))"
| "mark_new (v # vs) live work = then_call (hs_contains id_hash v live) (\<lambda>known.
     if known then mark_new vs live work
     else then_call (hs_insert id_hash v live) (\<lambda>(b, live). mark_new vs live (v # work)))"

fun mark_effects :: "math_graph \<Rightarrow> nat list \<Rightarrow> nat hash_set \<Rightarrow> nat list \<Rightarrow> (nat hash_set \<times> nat list) result option" where
  "mark_effects g [] live work = Some (Inr (live, work))"
| "mark_effects g (i # is) live work = then_call (Some (vec_at (g_nodes g) i)) (\<lambda>n.
     then_call (mark_new (n_results n) live work) (\<lambda>(live, work). mark_effects g is live work))"

text \<open>The operands that a value brings in.\<close>

definition producer_inputs :: "math_graph \<Rightarrow> nat \<Rightarrow> nat list result" where
  "producer_inputs g v = mlk_try (vec_at (g_values g) v) (\<lambda>val.
     if v_kind val \<noteq> NodeResult then Inr []
     else case v_producer val of None \<Rightarrow> Inl UndefinedBehaviour | Some p \<Rightarrow> mlk_try (vec_at (g_nodes g) p) (\<lambda>n. Inr (n_inputs n)))"

partial_function (option) mark_reach :: "math_graph \<Rightarrow> nat hash_set \<Rightarrow> nat list \<Rightarrow> nat hash_set result option" where
  "mark_reach g live work = (case work of
     [] \<Rightarrow> Some (Inr live)
   | v # vs \<Rightarrow> (case producer_inputs g v of
       Inl e \<Rightarrow> Some (Inl e)
     | Inr ins \<Rightarrow> (case mark_new ins live vs of
         None \<Rightarrow> None
       | Some r \<Rightarrow> (case r of Inl e \<Rightarrow> Some (Inl e) | Inr (live, work) \<Rightarrow> mark_reach g live work))))"

declare mark_reach.simps [code]

definition dce_mark :: "math_graph \<Rightarrow> nat hash_set result option" where
  "dce_mark g = then_call (mark_outputs (g_outputs g) hs_new []) (\<lambda>(live, work).
     then_call (mark_effects g (g_effects g) live work) (\<lambda>(live, work). mark_reach g live work))"

text \<open>One edit of a pass: the budget goes down, and the pass fails when it is exhausted.\<close>

definition consume_edit :: "int \<Rightarrow> int result" where
  "consume_edit budget = (if budget - 1 \<le> 0 then Inl (Err BudgetExceeded) else Inr (budget - 1))"

fun sweep :: "nat hash_set \<Rightarrow> nat list \<Rightarrow> nat \<Rightarrow> int \<Rightarrow> math_graph \<Rightarrow> (nat \<times> int \<times> math_graph) result option" where
  "sweep live [] killed budget g = Some (Inr (killed, budget, g))"
| "sweep live (i # is) killed budget g = then_call (Some (vec_at (g_nodes g) i)) (\<lambda>n.
     if node_dead n \<or> \<not> isPure (n_effects n) then sweep live is killed budget g
     else then_call (Some (vec_at (n_results n) 0)) (\<lambda>r. then_call (hs_contains id_hash r live) (\<lambda>known.
       if known then sweep live is killed budget g
       else then_call (Some (killNode i g)) (\<lambda>(b, g).
         then_call (Some (consume_edit budget)) (\<lambda>budget. sweep live is (killed + 1) budget g)))))"

record pass_result =
  pr_changed :: bool
  pr_before :: nat
  pr_after :: nat

definition dce :: "int \<Rightarrow> math_graph \<Rightarrow> (pass_result \<times> int \<times> math_graph) result option" where
  "dce budget g = then_call (dce_mark g) (\<lambda>live.
     then_call (sweep live (topoOrder g) 0 budget g) (\<lambda>(killed, budget, g').
       Some (Inr (\<lparr>pr_changed = (killed \<noteq> 0), pr_before = liveNodeCount g, pr_after = liveNodeCount g'\<rparr>, budget, g'))))"

section \<open>What is needed\<close>

inductive needed :: "math_graph \<Rightarrow> nat \<Rightarrow> bool" for g where
  outp: "v \<in> set (g_outputs g) \<Longrightarrow> needed g v"
| effect: "i \<in> set (g_effects g) \<Longrightarrow> v \<in> set (n_results (g_nodes g ! i)) \<Longrightarrow> needed g v"
| operand: "needed g v \<Longrightarrow> v_kind (g_values g ! v) = NodeResult \<Longrightarrow> v_producer (g_values g ! v) = Some p
    \<Longrightarrow> w \<in> set (n_inputs (g_nodes g ! p)) \<Longrightarrow> needed g w"

lemma needed_usable:
  assumes ok: "graph_ok g" and "needed g v"
  shows "usable g (length (g_nodes g)) v"
  using assms(2)
proof induction
  case (outp v)
  then show ?case by (rule graph_okD(5) [OF ok])
next
  case (effect i v)
  then have "i < length (g_nodes g)" "\<not> node_dead (g_nodes g ! i)" using graph_okD(7) [OF ok] by (auto simp: effects_ok_def)
  with effect show ?case using result_usable [OF ok] usable_mono by (meson Suc_leI)
next
  case (operand v p w)
  then have "p < length (g_nodes g)" "\<not> node_dead (g_nodes g ! p)" by (auto simp: usable_def)
  with operand show ?case using operand_usable [OF ok] usable_mono by (meson less_imp_le)
qed

section \<open>Marking\<close>

text \<open>A set of marked values that the worklist still has to close.\<close>

definition marks_ok :: "math_graph \<Rightarrow> nat hash_set \<Rightarrow> nat list \<Rightarrow> bool" where
  "marks_ok g live work \<longleftrightarrow> hs_ok id_hash live \<and> set work \<subseteq> set (hs_keys live) \<and> (\<forall>v \<in> set (hs_keys live). needed g v)"

lemma marks_room:
  assumes ok: "graph_ok g" and m: "marks_ok g live work"
  shows "length (hs_keys live) \<le> length (g_values g)"
proof -
  have "set (hs_keys live) \<subseteq> {..<length (g_values g)}"
    using m needed_usable [OF ok] by (auto simp: marks_ok_def usable_def)
  then have "card (set (hs_keys live)) \<le> length (g_values g)" using card_mono [of "{..<length (g_values g)}"] by simp
  then show ?thesis using m by (simp add: marks_ok_def hs_ok_def distinct_card)
qed

lemma insert_run:
  assumes ok: "graph_ok g" and m: "marks_ok g live work" and v: "needed g v"
  shows "\<exists>live'. hs_insert id_hash v live = Some (Inr (v \<notin> set (hs_keys live), live')) \<and> marks_ok g live' (v # work)
    \<and> hs_keys live' = (if v \<in> set (hs_keys live) then hs_keys live else hs_keys live @ [v])"
proof -
  have h: "hs_ok id_hash live" using m by (simp add: marks_ok_def)
  have room: "int (length (hs_keys live)) < kTombstone" using marks_room [OF ok m] graph_okD(1) [OF ok] by linarith
  from hs_insert_spec [OF h room, of v] obtain live' where
    l: "hs_insert id_hash v live = Some (Inr (v \<notin> set (hs_keys live), live'))" "hs_ok id_hash live'"
    "hs_keys live' = (if v \<in> set (hs_keys live) then hs_keys live else hs_keys live @ [v])" by blast
  with m v have "marks_ok g live' (v # work)" by (auto simp: marks_ok_def)
  with l show ?thesis by blast
qed

lemma mark_outputs_run:
  assumes ok: "graph_ok g" and m: "marks_ok g live work" and vs: "\<forall>v \<in> set vs. needed g v"
  shows "\<exists>live' work'. mark_outputs vs live work = Some (Inr (live', work')) \<and> marks_ok g live' work'
    \<and> set (hs_keys live') = set (hs_keys live) \<union> set vs \<and> set work' = set work \<union> set vs"
  using m vs
proof (induction vs arbitrary: live work)
  case (Cons v vs)
  from insert_run [OF ok Cons.prems(1), of v] Cons.prems(2) obtain live' where
    l: "hs_insert id_hash v live = Some (Inr (v \<notin> set (hs_keys live), live'))" "marks_ok g live' (v # work)"
    "hs_keys live' = (if v \<in> set (hs_keys live) then hs_keys live else hs_keys live @ [v])" by auto
  from Cons.IH [OF l(2)] Cons.prems(2) l(1,3) show ?case by auto
qed auto

text \<open>Marking a list puts exactly its new members on the worklist.\<close>

lemma mark_new_run:
  assumes ok: "graph_ok g" and m: "marks_ok g live work" and vs: "\<forall>v \<in> set vs. needed g v"
  shows "\<exists>live' work'. mark_new vs live work = Some (Inr (live', work')) \<and> marks_ok g live' work'
    \<and> set (hs_keys live') = set (hs_keys live) \<union> set vs \<and> set work' = set work \<union> (set vs - set (hs_keys live))
    \<and> length (hs_keys live') + length work = length (hs_keys live) + length work' \<and> length work \<le> length work'"
  using m vs
proof (induction vs arbitrary: live work)
  case (Cons v vs)
  have c: "hs_contains id_hash v live = Some (Inr (v \<in> set (hs_keys live)))"
    using Cons.prems(1) by (simp add: marks_ok_def hs_contains_spec)
  show ?case
  proof (cases "v \<in> set (hs_keys live)")
    case True
    with Cons.IH [OF Cons.prems(1)] Cons.prems(2) c show ?thesis by auto
  next
    case False
    from insert_run [OF ok Cons.prems(1), of v] Cons.prems(2) False obtain live' where
      l: "hs_insert id_hash v live = Some (Inr (True, live'))" "marks_ok g live' (v # work)" "hs_keys live' = hs_keys live @ [v]" by auto
    from Cons.IH [OF l(2)] Cons.prems(2) l(1,3) c False show ?thesis by (auto simp: insert_Diff_if)
  qed
qed auto

lemma mark_effects_run:
  assumes ok: "graph_ok g" and m: "marks_ok g live work" and sub: "set is \<subseteq> set (g_effects g)"
    and "set (hs_keys live) \<subseteq> set work"
  shows "\<exists>live' work'. mark_effects g is live work = Some (Inr (live', work')) \<and> marks_ok g live' work'
    \<and> set (hs_keys live') = set (hs_keys live) \<union> (\<Union>i \<in> set is. set (n_results (g_nodes g ! i))) \<and> set (hs_keys live') \<subseteq> set work'"
  using m sub assms(4)
proof (induction "is" arbitrary: live work)
  case (Cons i js)
  have i: "i < length (g_nodes g)" using Cons.prems(2) graph_okD(7) [OF ok] by (auto simp: effects_ok_def)
  have "\<forall>v \<in> set (n_results (g_nodes g ! i)). needed g v" using Cons.prems(2) by (auto intro: needed.effect)
  from mark_new_run [OF ok Cons.prems(1) this] obtain live' work' where
    l: "mark_new (n_results (g_nodes g ! i)) live work = Some (Inr (live', work'))" "marks_ok g live' work'"
      "set (hs_keys live') = set (hs_keys live) \<union> set (n_results (g_nodes g ! i))"
      "set work' = set work \<union> (set (n_results (g_nodes g ! i)) - set (hs_keys live))" by blast
  have "set (hs_keys live') \<subseteq> set work'" using l(3,4) Cons.prems(3) by blast
  moreover have "set js \<subseteq> set (g_effects g)" using Cons.prems(2) by simp
  ultimately obtain live2 work2 where "mark_effects g js live' work' = Some (Inr (live2, work2))" "marks_ok g live2 work2"
    "set (hs_keys live2) = set (hs_keys live') \<union> (\<Union>i \<in> set js. set (n_results (g_nodes g ! i)))" "set (hs_keys live2) \<subseteq> set work2"
    using Cons.IH [OF l(2)] by blast
  then show ?case using l(1,3) i by (auto simp: vec_at_def)
qed auto

definition operands_of :: "math_graph \<Rightarrow> nat \<Rightarrow> nat list" where
  "operands_of g v = (if v_kind (g_values g ! v) = NodeResult then n_inputs (g_nodes g ! the (v_producer (g_values g ! v))) else [])"

lemma producer_inputs_run: "usable g k v \<Longrightarrow> producer_inputs g v = Inr (operands_of g v)"
  by (auto simp: usable_def producer_inputs_def operands_of_def vec_at_def)

lemma operands_needed:
  assumes ok: "graph_ok g" and v: "needed g v"
  shows "\<forall>w \<in> set (operands_of g v). needed g w"
proof (cases "v_kind (g_values g ! v) = NodeResult")
  case True
  then obtain p where p: "v_producer (g_values g ! v) = Some p" using needed_usable [OF assms] by (auto simp: usable_def)
  with True show ?thesis by (auto simp: operands_of_def intro: needed.operand [OF v])
qed (simp add: operands_of_def)

lemma mark_reach_run:
  assumes ok: "graph_ok g" and "marks_ok g live work"
    and "\<forall>v \<in> set (hs_keys live). v \<in> set work \<or> set (operands_of g v) \<subseteq> set (hs_keys live)"
  shows "\<exists>live'. mark_reach g live work = Some (Inr live') \<and> marks_ok g live' [] \<and> set (hs_keys live) \<subseteq> set (hs_keys live')
    \<and> (\<forall>v \<in> set (hs_keys live'). set (operands_of g v) \<subseteq> set (hs_keys live'))"
  using assms(2,3)
proof (induction "2 * (length (g_values g) - length (hs_keys live)) + length work" arbitrary: live work rule: less_induct)
  case less
  show ?case
  proof (cases work)
    case Nil
    with less.prems show ?thesis by (auto simp: mark_reach.simps)
  next
    case (Cons v vs)
    have v: "needed g v" and m: "marks_ok g live vs" using less.prems(1) Cons by (auto simp: marks_ok_def)
    from mark_new_run [OF ok m operands_needed [OF ok v]] obtain live' work' where
      l: "mark_new (operands_of g v) live vs = Some (Inr (live', work'))" "marks_ok g live' work'"
        "set (hs_keys live') = set (hs_keys live) \<union> set (operands_of g v)"
        "set work' = set vs \<union> (set (operands_of g v) - set (hs_keys live))"
        "length (hs_keys live') + length vs = length (hs_keys live) + length work'" "length vs \<le> length work'" by blast
    have step: "mark_reach g live work = mark_reach g live' work'"
      using producer_inputs_run [OF needed_usable [OF ok v]] l(1) by (simp add: Cons mark_reach.simps [of g live])
    have "2 * (length (g_values g) - length (hs_keys live')) + length work' < 2 * (length (g_values g) - length (hs_keys live)) + length work"
      using l(5,6) marks_room [OF ok l(2)] Cons by simp
    moreover have "\<forall>w \<in> set (hs_keys live'). w \<in> set work' \<or> set (operands_of g w) \<subseteq> set (hs_keys live')"
    proof
      fix w assume "w \<in> set (hs_keys live')"
      then consider "w \<in> set (hs_keys live)" "w \<noteq> v" | "w = v" | "w \<in> set (operands_of g v)" "w \<notin> set (hs_keys live)" using l(3) by blast
      then show "w \<in> set work' \<or> set (operands_of g w) \<subseteq> set (hs_keys live')"
      proof cases
        case 1
        then show ?thesis using less.prems(2) l(3,4) Cons by auto
      qed (use l(3,4) in auto)
    qed
    ultimately obtain live2 where "mark_reach g live' work' = Some (Inr live2)" "marks_ok g live2 []"
      "set (hs_keys live') \<subseteq> set (hs_keys live2)" "\<forall>v \<in> set (hs_keys live2). set (operands_of g v) \<subseteq> set (hs_keys live2)"
      using less.hyps [OF _ l(2)] by blast
    then show ?thesis using step l(3) by auto
  qed
qed

text \<open>The pass marks exactly what is needed, and the loop ends.\<close>

lemma dce_mark_run:
  assumes ok: "graph_ok g"
  shows "\<exists>live. dce_mark g = Some (Inr live) \<and> hs_ok id_hash live \<and> set (hs_keys live) = {v. needed g v}"
proof -
  have empty: "hs_keys (hs_new :: nat hash_set) = []" by (simp add: hs_new_def)
  have new: "marks_ok g hs_new []" using hs_new_ok [of id_hash] empty by (auto simp: marks_ok_def)
  have "\<forall>v \<in> set (g_outputs g). needed g v" by (simp add: needed.outp)
  from mark_outputs_run [OF ok new this] obtain l1 w1 where
    l1: "mark_outputs (g_outputs g) hs_new [] = Some (Inr (l1, w1))" "marks_ok g l1 w1" "set (hs_keys l1) = set (g_outputs g)"
      "set w1 = set (g_outputs g)" using empty by auto
  from mark_effects_run [OF ok l1(2) subset_refl] l1(3,4) obtain l2 w2 where
    l2: "mark_effects g (g_effects g) l1 w1 = Some (Inr (l2, w2))" "marks_ok g l2 w2"
      "set (hs_keys l2) = set (g_outputs g) \<union> (\<Union>i \<in> set (g_effects g). set (n_results (g_nodes g ! i)))" "set (hs_keys l2) \<subseteq> set w2" by auto
  from mark_reach_run [OF ok l2(2)] l2(4) obtain l3 where
    l3: "mark_reach g l2 w2 = Some (Inr l3)" "marks_ok g l3 []" "set (hs_keys l2) \<subseteq> set (hs_keys l3)"
      "\<forall>v \<in> set (hs_keys l3). set (operands_of g v) \<subseteq> set (hs_keys l3)" by blast
  have "v \<in> set (hs_keys l3)" if "needed g v" for v
    using that
  proof induction
    case (operand v p w)
    then have "w \<in> set (operands_of g v)" by (simp add: operands_of_def)
    with operand l3(4) show ?case by blast
  qed (use l2(3) l3(3) in auto)
  with l3(2) have "set (hs_keys l3) = {v. needed g v}" by (auto simp: marks_ok_def)
  with l1(1) l2(1) l3(1,2) show ?thesis by (auto simp: dce_mark_def marks_ok_def)
qed

section \<open>Sweeping\<close>

definition killed_node :: "gnode \<Rightarrow> gnode" where
  "killed_node n = n\<lparr>n_flags := flag_put NF_Dead True (n_flags n)\<rparr>"

lemma killed_node_simps [simp]:
  "node_dead (killed_node n)" "n_id (killed_node n) = n_id n" "n_op (killed_node n) = n_op n" "n_inputs (killed_node n) = n_inputs n"
  "n_results (killed_node n) = n_results n" "n_effects (killed_node n) = n_effects n"
  by (simp_all add: killed_node_def node_dead_def NF_Dead_def)

text \<open>Some of the nodes \<open>D\<close> are dead now, and nothing else that matters has changed.\<close>

definition swept :: "math_graph \<Rightarrow> nat set \<Rightarrow> math_graph \<Rightarrow> bool" where
  "swept g D g' \<longleftrightarrow> g_values g' = g_values g \<and> g_outputs g' = g_outputs g \<and> g_repr g' = g_repr g \<and> g_effects g' = g_effects g
     \<and> g_nodes g' = map (\<lambda>i. if i \<in> D then killed_node (g_nodes g ! i) else g_nodes g ! i) [0..<length (g_nodes g)]"

definition removable :: "math_graph \<Rightarrow> nat \<Rightarrow> bool" where
  "removable g i \<longleftrightarrow> i < length (g_nodes g) \<and> \<not> node_dead (g_nodes g ! i) \<and> isPure (n_effects (g_nodes g ! i))
     \<and> (\<forall>r \<in> set (n_results (g_nodes g ! i)). \<not> needed g r)"

lemma killNode_swept:
  assumes ok: "graph_ok g" and s: "swept g D g'" and i: "removable g i" "i \<notin> D"
  shows "\<exists>g''. killNode i g' = Inr (True, g'') \<and> swept g (insert i D) g''"
proof -
  have "i \<notin> set (g_effects g)" using i(1) graph_okD(7) [OF ok] by (auto simp: removable_def effects_ok_def)
  moreover have "(g_nodes g')[i := killed_node (g_nodes g' ! i)]
      = map (\<lambda>j. if j \<in> insert i D then killed_node (g_nodes g ! j) else g_nodes g ! j) [0..<length (g_nodes g)]"
    using s i by (intro nth_equalityI) (auto simp: swept_def nth_list_update removable_def)
  ultimately show ?thesis using s i
    by (auto simp: killNode_def vec_at_def swept_def removable_def bumpVersion_def effect_remove_def remove1_idem killed_node_def)
qed

lemma sweep_run:
  assumes ok: "graph_ok g" and live: "hs_ok id_hash live" "set (hs_keys live) = {v. needed g v}"
    and "swept g D g'" and "D \<subseteq> {i. removable g i}" and "\<forall>i \<in> set is. i < length (g_nodes g) \<and> \<not> node_dead (g_nodes g ! i)"
    and "int (length is) < budget"
  shows "\<exists>killed' budget' g''. sweep live is killed budget g' = Some (Inr (killed', budget', g''))
    \<and> swept g (D \<union> {i \<in> set is. removable g i}) g'' \<and> (killed' = killed \<longleftrightarrow> {i \<in> set is. removable g i} \<subseteq> D) \<and> killed \<le> killed'"
  using assms(4-7)
proof (induction "is" arbitrary: D killed budget g')
  case (Cons i js)
  have i: "i < length (g_nodes g)" "\<not> node_dead (g_nodes g ! i)" using Cons.prems(3) by auto
  obtain r where r: "n_results (g_nodes g ! i) = [r]" using node_result [OF ok i(1)] by metis
  have at: "vec_at (g_nodes g') i = Inr (if i \<in> D then killed_node (g_nodes g ! i) else g_nodes g ! i)"
    using Cons.prems(1) i by (simp add: swept_def vec_at_def)
  have c: "hs_contains id_hash r live = Some (Inr (needed g r))" using live by (simp add: hs_contains_spec)
  show ?case
  proof (cases "removable g i \<and> i \<notin> D")
    case True
    then obtain g1 where g1: "killNode i g' = Inr (True, g1)" "swept g (insert i D) g1"
      using killNode_swept [OF ok Cons.prems(1)] by blast
    have step: "sweep live (i # js) killed budget g' = sweep live js (killed + 1) (budget - 1) g1"
      using True i r c g1(1) Cons.prems(4) at by (simp add: removable_def vec_at_def consume_edit_def)
    from Cons.IH [OF g1(2), of "budget - 1" "killed + 1"] Cons.prems True obtain k b g2 where
      "sweep live js (killed + 1) (budget - 1) g1 = Some (Inr (k, b, g2))" "swept g (insert i D \<union> {i \<in> set js. removable g i}) g2" "killed + 1 \<le> k"
      by fastforce
    moreover have "insert i D \<union> {i \<in> set js. removable g i} = D \<union> {j \<in> set (i # js). removable g j}" using True by auto
    ultimately show ?thesis using step True by auto
  next
    case False
    have step: "sweep live (i # js) killed budget g' = sweep live js killed budget g'"
      using False i r c at by (auto simp: removable_def vec_at_def)
    have "D \<union> {j \<in> set (i # js). removable g j} = D \<union> {i \<in> set js. removable g i}"
      and "{j \<in> set (i # js). removable g j} \<subseteq> D \<longleftrightarrow> {i \<in> set js. removable g i} \<subseteq> D" using False by auto
    with Cons.IH [OF Cons.prems(1,2), of budget killed] Cons.prems(3,4) step show ?thesis by simp
  qed
qed auto

section \<open>The swept graph\<close>

lemma swept_node:
  "swept g D g' \<Longrightarrow> i < length (g_nodes g) \<Longrightarrow>
     g_nodes g' ! i = (if i \<in> D then killed_node (g_nodes g ! i) else g_nodes g ! i) \<and> length (g_nodes g') = length (g_nodes g)"
  by (simp add: swept_def)

text \<open>A live node is kept exactly when its result is needed.\<close>

lemma kept_iff:
  assumes ok: "graph_ok g" and i: "i < length (g_nodes g)" "\<not> node_dead (g_nodes g ! i)" and r: "n_results (g_nodes g ! i) = [r]"
  shows "removable g i \<longleftrightarrow> \<not> needed g r"
proof -
  have "needed g r" if "\<not> isPure (n_effects (g_nodes g ! i))"
    using that i r graph_okD(7) [OF ok] by (auto simp: effects_ok_def intro: needed.effect)
  then show ?thesis using i r by (auto simp: removable_def)
qed

lemma swept_usable:
  assumes ok: "graph_ok g" and s: "swept g {i. removable g i} g'" and u: "usable g k v" and n: "needed g v"
  shows "usable g' k v"
proof (cases "v_kind (g_values g ! v) = NodeResult")
  case True
  with u obtain p where p: "p < k" "p < length (g_nodes g)" "v_producer (g_values g ! v) = Some p" "\<not> node_dead (g_nodes g ! p)"
    "n_results (g_nodes g ! p) = [v]" by (auto simp: usable_def)
  with kept_iff [OF ok p(2,4,5)] n have "\<not> removable g p" by simp
  with swept_node [OF s p(2)] p u s show ?thesis by (auto simp: usable_def swept_def)
qed (use u s in \<open>auto simp: usable_def swept_def\<close>)

lemma swept_ok:
  assumes ok: "graph_ok g" and s: "swept g {i. removable g i} g'"
  shows "graph_ok g'"
proof -
  note node = swept_node [OF s]
  have same: "g_values g' = g_values g" "g_outputs g' = g_outputs g" "g_repr g' = g_repr g" "g_effects g' = g_effects g"
    "length (g_nodes g') = length (g_nodes g)" using s by (simp_all add: swept_def)
  have results: "results_ok g'"
    using graph_okD(3) [OF ok] node unfolding results_ok_def same by simp
  have operands: "operands_ok g'" unfolding operands_ok_def same
  proof (intro allI impI conjI)
    fix i assume i: "i < length (g_nodes g)" "\<not> node_dead (g_nodes g' ! i)"
    then have kept: "\<not> removable g i" "g_nodes g' ! i = g_nodes g ! i" "\<not> node_dead (g_nodes g ! i)"
      using node [OF i(1)] by (auto split: if_splits)
    obtain r where r: "n_results (g_nodes g ! i) = [r]" "v_kind (g_values g ! r) = NodeResult" "v_producer (g_values g ! r) = Some i"
      using node_result [OF ok i(1)] by metis
    with kept kept_iff [OF ok i(1) kept(3) r(1)] have n: "needed g r" by simp
    show "\<forall>v \<in> set (n_inputs (g_nodes g' ! i)). usable g' i v"
      using operand_usable [OF ok i(1) kept(3)] swept_usable [OF ok s] needed.operand [OF n r(2,3)] kept(2) by simp
    show "\<forall>r \<in> set (n_results (g_nodes g' ! i)). hm_map (g_repr g) r = None"
      using graph_okD(4) [OF ok] i(1) kept(2,3) by (simp add: operands_ok_def)
  qed
  have "\<forall>v \<in> set (g_outputs g'). usable g' (length (g_nodes g')) v"
    using graph_okD(5) [OF ok] swept_usable [OF ok s] needed.outp unfolding same by blast
  moreover have "effects_ok g'"
    using graph_okD(7) [OF ok] node unfolding effects_ok_def same by (auto simp: removable_def split: if_splits)
  ultimately show ?thesis using graph_okD(1,2,6) [OF ok] results operands by (simp add: graph_ok_def same)
qed

lemma swept_meaning:
  assumes ok: "graph_ok g" and s: "swept g {i. removable g i} g'" and v: "needed g v"
  shows "meaning lm g' ins v = meaning lm g ins v"
proof (rule meaning_transfer [OF ok swept_ok [OF ok s], of "needed g"])
  have same: "g_values g' = g_values g" using s by (simp add: swept_def)
  fix v assume v: "needed g v"
  show "v_kind (g_values g' ! v) \<noteq> NodeResult \<Longrightarrow> meaning lm g' ins v = meaning lm g ins v"
    using meaning_leaf [OF ok] meaning_leaf [OF swept_ok [OF ok s]] by (simp add: same)
  assume k: "v_kind (g_values g' ! v) = NodeResult"
  with needed_usable [OF ok v] obtain p where p: "p < length (g_nodes g)" "v_producer (g_values g ! v) = Some p"
    "\<not> node_dead (g_nodes g ! p)" "n_results (g_nodes g ! p) = [v]" by (auto simp: usable_def same)
  with kept_iff [OF ok p(1,3,4)] v have "g_nodes g' ! p = g_nodes g ! p" "length (g_nodes g') = length (g_nodes g)"
    using swept_node [OF s p(1)] by simp_all
  moreover have "needed g (n_inputs (g_nodes g ! p) ! j)" if "j < length (n_inputs (g_nodes g ! p))" for j
    using needed.operand [OF v _ p(2)] k that by (simp add: same)
  ultimately show "\<exists>p. p < length (g_nodes g') \<and> p < length (g_nodes g)
      \<and> \<not> node_dead (g_nodes g' ! p) \<and> \<not> node_dead (g_nodes g ! p) \<and> n_results (g_nodes g' ! p) = [v] \<and> n_results (g_nodes g ! p) = [v]
      \<and> n_op (g_nodes g' ! p) = n_op (g_nodes g ! p) \<and> length (n_inputs (g_nodes g' ! p)) = length (n_inputs (g_nodes g ! p))
      \<and> (\<forall>k < length (n_inputs (g_nodes g ! p)). needed g (n_inputs (g_nodes g' ! p) ! k)
          \<and> meaning lm g ins (n_inputs (g_nodes g' ! p) ! k) = meaning lm g ins (n_inputs (g_nodes g ! p) ! k))"
    using p by (intro exI [of _ p]) simp
qed (rule v)

lemma dce_run:
  assumes ok: "graph_ok g" and budget: "int (length (g_nodes g)) < budget"
  shows "\<exists>pr b g'. dce budget g = Some (Inr (pr, b, g')) \<and> swept g {i. removable g i} g' \<and> (pr_changed pr \<longleftrightarrow> (\<exists>i. removable g i))"
proof -
  obtain live where l: "dce_mark g = Some (Inr live)" "hs_ok id_hash live" "set (hs_keys live) = {v. needed g v}"
    using dce_mark_run [OF ok] by blast
  have topo: "\<forall>i \<in> set (topoOrder g). i < length (g_nodes g) \<and> \<not> node_dead (g_nodes g ! i)" using topo_live(2) [OF ok] by blast
  have "length (topoOrder g) \<le> length (g_nodes g)" by (simp add: topoOrder_def)
  then have b: "int (length (topoOrder g)) < budget" using budget by linarith
  have s0: "swept g {} g" by (auto simp: swept_def intro!: nth_equalityI)
  have all: "{i \<in> set (topoOrder g). removable g i} = {i. removable g i}" using topo_live(2) [OF ok] by (auto simp: removable_def)
  from sweep_run [OF ok l(2,3) s0 _ topo b, of 0] obtain k b' g' where
    "sweep live (topoOrder g) 0 budget g = Some (Inr (k, b', g'))" "swept g {i. removable g i} g'" "k = 0 \<longleftrightarrow> {i. removable g i} = {}"
    unfolding all by auto
  with l(1) show ?thesis by (auto simp: dce_def)
qed

end
