(* ===== verification/Cse.thy ===== *)
theory Cse
  imports Recache Dce
begin

text \<open>
  \<open>passes/math/math.cse.cpp\<close>: common subexpressions by hash, confirmed structurally. Merging is sound
  when structural equality implies equal numbers; it does where no two input atoms share a name and
  no constant is a negative zero.
\<close>

section \<open>The pass\<close>

fun all_pairs :: "('a \<Rightarrow> 'b \<Rightarrow> bool result) \<Rightarrow> 'a list \<Rightarrow> 'b list \<Rightarrow> bool result" where
  "all_pairs f (x # xs) (y # ys) = mlk_try (f x y) (\<lambda>b. if b then all_pairs f xs ys else Inr False)"
| "all_pairs f [] ys = Inr True"
| "all_pairs f (x # xs) [] = Inl UndefinedBehaviour"

lemma all_pairs_cong [fundef_cong]:
  assumes "xs = xs'" and "ys = ys'" and "\<And>x y. x \<in> set xs' \<Longrightarrow> f x y = f' x y"
  shows "all_pairs f xs ys = all_pairs f' xs' ys'"
  using assms(3) unfolding assms(1,2) by (induction f xs' ys' rule: all_pairs.induct) (auto intro: mlk_try_cong)

definition attrs_equal :: "attr_list \<Rightarrow> attr_list \<Rightarrow> bool" where
  "attrs_equal as bs \<longleftrightarrow> length as = length bs \<and> list_all2 (\<lambda>a b. fst a = fst b \<and> attr_equal (snd a) (snd b)) as bs"

text \<open>Recursion is bounded by the depth limit; \<open>fuel\<close> is what is left of it.\<close>

fun structurallyEqualValues :: "nat \<Rightarrow> math_graph \<Rightarrow> nat \<Rightarrow> nat \<Rightarrow> bool result" where
  "structurallyEqualValues fuel g a b =
     (if a = b then Inr True
      else case fuel of
        0 \<Rightarrow> Inr False
      | Suc fuel' \<Rightarrow> mlk_try (vec_at (g_values g) a) (\<lambda>va. mlk_try (vec_at (g_values g) b) (\<lambda>vb.
          if v_kind va \<noteq> v_kind vb then Inr False
          else if v_type va \<noteq> v_type vb then Inr False
          else case v_kind va of
            Constant \<Rightarrow> Inr (constant_equal (v_constant va) (v_constant vb))
          | NodeResult \<Rightarrow>
              (case (v_producer va, v_producer vb) of
                (Some p, Some q) \<Rightarrow> mlk_try (vec_at (g_nodes g) p) (\<lambda>na. mlk_try (vec_at (g_nodes g) q) (\<lambda>nb.
                  if n_op na \<noteq> n_op nb \<or> length (n_inputs na) \<noteq> length (n_inputs nb) then Inr False
                  else if \<not> attrs_equal (n_attrs na) (n_attrs nb) then Inr False
                  else all_pairs (\<lambda>x y. structurallyEqualValues fuel' g x y) (n_inputs na) (n_inputs nb)))
              | _ \<Rightarrow> Inr False)
          | _ \<Rightarrow> Inr (v_name va = v_name vb))))"

declare structurallyEqualValues.simps [simp del]

definition hash_key :: "64 word \<Rightarrow> nat" where "hash_key h = unat (hashU64 h)"

fun hash_operands :: "nat list \<Rightarrow> 64 word \<Rightarrow> math_graph \<Rightarrow> (64 word \<times> math_graph) result" where
  "hash_operands [] h g = Inr (h, g)"
| "hash_operands (v # vs) h g = mlk_try (valueHash g v) (\<lambda>(k, g). hash_operands vs (hashCombine h k) g)"

definition attrs_hash :: "attr_list \<Rightarrow> 64 word \<Rightarrow> 64 word" where
  "attrs_hash as h = fold (\<lambda>(name, a) h. hashCombine (hashCombine h (hashU64 (of_nat name))) (attr_hash a)) as h"

definition expression_hash :: "gnode \<Rightarrow> math_graph \<Rightarrow> (64 word \<times> math_graph) result" where
  "expression_hash n g = hash_operands (n_inputs n) (attrs_hash (n_attrs n) (hashU64 (of_nat (op_index (n_op n))))) g"

text \<open>The value that stands for an expression of this hash, \<open>None\<close> for the invalid id.\<close>

type_synonym seen_map = "(64 word, nat option) hash_map"

definition seen_at :: "seen_map \<Rightarrow> nat \<Rightarrow> nat option" where "seen_at m e = snd (hm_entries m ! e)"

definition seen_put :: "seen_map \<Rightarrow> nat \<Rightarrow> nat \<Rightarrow> seen_map" where
  "seen_put m e v = m\<lparr>hm_entries := (hm_entries m)[e := (fst (hm_entries m ! e), Some v)]\<rparr>"

fun cse_nodes :: "nat list \<Rightarrow> seen_map \<Rightarrow> nat \<Rightarrow> int \<Rightarrow> math_graph \<Rightarrow> (nat \<times> int \<times> math_graph) result option" where
  "cse_nodes [] seen edits budget g = Some (Inr (edits, budget, g))"
| "cse_nodes (i # is) seen edits budget g = then_call (Some (vec_at (g_nodes g) i)) (\<lambda>n.
     if node_dead n \<or> \<not> isPure (n_effects n) then cse_nodes is seen edits budget g
     else then_call (Some (expression_hash n g)) (\<lambda>(h, g).
       then_call (findOrInsert hash_key h None seen) (\<lambda>(e, inserted, seen).
       then_call (Some (vec_at (n_results n) 0)) (\<lambda>r.
         case (inserted, seen_at seen e) of
           (False, Some v) \<Rightarrow> then_call (Some (structurallyEqualValues kMaxEquivalenceDepth g v r)) (\<lambda>same.
             if same then then_call (replaceResult i v g) (\<lambda>(_, g).
               then_call (Some (consume_edit budget)) (\<lambda>budget. cse_nodes is seen (edits + 1) budget g))
             else cse_nodes is seen edits budget g)
         | _ \<Rightarrow> cse_nodes is (seen_put seen e r) edits budget g))))"

definition cse :: "int \<Rightarrow> math_graph \<Rightarrow> (pass_result \<times> int \<times> math_graph) result option" where
  "cse budget g = then_call (cse_nodes (topoOrder g) hm_new 0 budget g) (\<lambda>(edits, budget, g').
     Some (Inr (\<lparr>pr_changed = (edits \<noteq> 0), pr_before = liveNodeCount g, pr_after = liveNodeCount g'\<rparr>, budget, g')))"

section \<open>Structural equality\<close>

text \<open>Atoms that take an input are told apart by their names, and no constant is a negative zero.\<close>

definition inputs_apart :: "math_graph \<Rightarrow> bool" where
  "inputs_apart g \<longleftrightarrow> (\<forall>v < length (g_values g). \<forall>w < length (g_values g).
     v_kind (g_values g ! v) = v_kind (g_values g ! w) \<longrightarrow> v_kind (g_values g ! v) \<in> {Placeholder, Variable}
       \<longrightarrow> v_name (g_values g ! v) = v_name (g_values g ! w) \<longrightarrow> v = w)"

definition no_negative_zero :: "math_graph \<Rightarrow> bool" where
  "no_negative_zero g \<longleftrightarrow> (\<forall>v \<in> set (g_values g). v_kind v = Constant \<longrightarrow> cp_f64 (v_constant v) \<noteq> 0x8000000000000000)"

lemma f64_equal_same:
  assumes "f64_equal a b" and "a \<noteq> 0x8000000000000000" and "b \<noteq> 0x8000000000000000"
  shows "a = b"
proof -
  have k: "f64_key a = f64_key b" using assms(1) by (simp add: f64_equal_def)
  have nonneg: "0 \<le> f64_mag v" for v by (simp add: f64_mag_def)
  have m: "f64_mag a = f64_mag b"
    using k nonneg [of a] nonneg [of b] by (cases "f64_neg_sign a"; cases "f64_neg_sign b") (simp_all add: f64_key_def)
  show ?thesis
  proof (cases "f64_mag a = 0")
    case True
    then have "f64_zero a" "f64_zero b" using m by (simp_all add: f64_zero_def)
    with f64_zero_cases assms(2,3) show ?thesis by auto
  next
    case False
    have "f64_neg_sign a = f64_neg_sign b"
    proof (rule ccontr)
      assume "f64_neg_sign a \<noteq> f64_neg_sign b"
      then have "f64_mag a = - f64_mag b \<or> - f64_mag a = f64_mag b" using k unfolding f64_key_def by (auto split: if_splits)
      with m False show False by linarith
    qed
    with m have "f64_pack (f64_neg_sign a) (f64_mag a) = f64_pack (f64_neg_sign b) (f64_mag b)" by simp
    then show ?thesis unfolding f64_pack_parts .
  qed
qed

lemma constant_equal_double:
  assumes "constant_equal a b" and "cp_f64 a \<noteq> 0x8000000000000000" and "cp_f64 b \<noteq> 0x8000000000000000"
  shows "constant_double a = constant_double b"
  using assms f64_equal_same [of "cp_f64 a" "cp_f64 b"] by (auto simp: constant_equal_def constant_double_def)

lemma bindings_constant:
  assumes "\<forall>v < length vs. v_id (vs ! v) = k + v" and "v < length vs" and "v_kind (vs ! v) = Constant"
  shows "bindings vs ins (k + v) = Some (constant_double (v_constant (vs ! v)))"
  using assms
proof (induction vs arbitrary: k v ins)
  case (Cons w vs)
  have ids: "\<forall>v < length vs. v_id (vs ! v) = Suc k + v"
  proof (intro allI impI)
    fix v assume "v < length vs"
    with Cons.prems(1) [rule_format, of "Suc v"] show "v_id (vs ! v) = Suc k + v" by simp
  qed
  have first: "v_id w = k" using Cons.prems(1) [rule_format, of 0] by simp
  show ?case
  proof (cases v)
    case 0
    have "v_id x \<noteq> k" if "x \<in> set vs" for x
    proof -
      from that obtain j where "j < length vs" "x = vs ! j" by (auto simp: in_set_conv_nth)
      with ids show ?thesis by simp
    qed
    then have "bindings vs ins' k = None" for ins' by (intro bindings_none) blast
    with 0 Cons.prems(3) first show ?thesis by (simp add: map_add_def)
  next
    case (Suc u)
    have later: "bindings vs ins' (k + v) = Some (constant_double (v_constant ((w # vs) ! v)))" for ins'
      using Cons.IH [OF ids, of u ins'] Cons.prems(2,3) unfolding Suc by simp
    show ?thesis unfolding bindings.simps using later by (auto intro!: map_add_find_right)
  qed
qed simp

lemma meaning_constant:
  assumes "graph_ok g" and "v < length (g_values g)" and "v_kind (g_values g ! v) = Constant"
  shows "meaning lm g ins v = constant_double (v_constant (g_values g ! v))"
  using meaning_leaf [OF assms(1)] bindings_constant [of "g_values g" 0 v ins] graph_okD(2) [OF assms(1)] assms(2,3)
  by (simp add: get0_def)

lemma meaning_symbol:
  assumes "graph_ok g" and "v < length (g_values g)" and "v_kind (g_values g ! v) = Symbol"
  shows "meaning lm g ins v = 0"
proof -
  have "bindings (g_values g) ins v = None"
    by (rule bindings_none) (use graph_okD(2) [OF assms(1)] assms(2,3) in \<open>auto simp: in_set_conv_nth\<close>)
  then show ?thesis using meaning_leaf [OF assms(1)] assms(3) by (simp add: get0_def)
qed

lemma all_pairs_true: "all_pairs f xs ys = Inr True \<Longrightarrow> i < length xs \<Longrightarrow> i < length ys \<and> f (xs ! i) (ys ! i) = Inr True"
proof (induction f xs ys arbitrary: i rule: all_pairs.induct)
  case (1 f x xs y ys)
  then show ?case by (cases i) (auto simp: mlk_try_Inr_iff split: if_splits)
qed auto

lemma structurally_equal_meaning:
  assumes ok: "graph_ok g" and apart: "inputs_apart g" and nz: "no_negative_zero g"
    and "structurallyEqualValues fuel g a b = Inr True" and "usable g k a" and "usable g l b"
  shows "meaning lm g ins a = meaning lm g ins b"
  using assms(4-6)
proof (induction fuel arbitrary: a b k l)
  case 0
  then show ?case by (simp add: structurallyEqualValues.simps split: if_splits)
next
  case (Suc fuel)
  show ?case
  proof (cases "a = b")
    case False
    have al: "a < length (g_values g)" and bl: "b < length (g_values g)" using Suc.prems(2,3) by (simp_all add: usable_def)
    let ?a = "g_values g ! a" and ?b = "g_values g ! b"
    have kind: "v_kind ?a = v_kind ?b"
      using Suc.prems(1) False al bl by (auto simp: structurallyEqualValues.simps [of "Suc fuel"] vec_at_def split: if_splits)
    show ?thesis
    proof (cases "v_kind ?a")
      case Constant
      then have "constant_equal (v_constant ?a) (v_constant ?b)"
        using Suc.prems(1) False al bl by (auto simp: structurallyEqualValues.simps [of "Suc fuel"] vec_at_def split: if_splits)
      moreover have "cp_f64 (v_constant ?a) \<noteq> 0x8000000000000000" "cp_f64 (v_constant ?b) \<noteq> 0x8000000000000000"
        using nz al bl Constant kind by (auto simp: no_negative_zero_def)
      ultimately show ?thesis using meaning_constant [OF ok al] meaning_constant [OF ok bl] Constant kind
        by (simp add: constant_equal_double)
    next
      case NodeResult
      obtain p where p: "p < length (g_nodes g)" "v_producer ?a = Some p" "\<not> node_dead (g_nodes g ! p)" "n_results (g_nodes g ! p) = [a]"
        using Suc.prems(2) NodeResult by (auto simp: usable_def)
      obtain q where q: "q < length (g_nodes g)" "v_producer ?b = Some q" "\<not> node_dead (g_nodes g ! q)" "n_results (g_nodes g ! q) = [b]"
        using Suc.prems(3) NodeResult kind by (auto simp: usable_def)
      have e: "n_op (g_nodes g ! p) = n_op (g_nodes g ! q)" "length (n_inputs (g_nodes g ! p)) = length (n_inputs (g_nodes g ! q))"
        "all_pairs (structurallyEqualValues fuel g) (n_inputs (g_nodes g ! p)) (n_inputs (g_nodes g ! q)) = Inr True"
        using Suc.prems(1) False al bl NodeResult p q
        by (auto simp: structurallyEqualValues.simps [of "Suc fuel"] vec_at_def split: if_splits)
      have "meaning lm g ins (n_inputs (g_nodes g ! p) ! j) = meaning lm g ins (n_inputs (g_nodes g ! q) ! j)"
        if j: "j < length (n_inputs (g_nodes g ! q))" for j
        using Suc.IH all_pairs_true [OF e(3)] operand_usable [OF ok p(1,3)] operand_usable [OF ok q(1,3)] j e(2) by (metis nth_mem)
      then show ?thesis
        using meaning_result [OF ok p(1,3,4), of lm ins] meaning_result [OF ok q(1,3,4), of lm ins] node_value_cong [OF e(1,2)] by simp
    next
      case Symbol
      then show ?thesis using meaning_symbol [OF ok al] meaning_symbol [OF ok bl] kind by simp
    next
      case Variable
      then have "v_name ?a = v_name ?b"
        using Suc.prems(1) False al bl by (auto simp: structurallyEqualValues.simps [of "Suc fuel"] vec_at_def split: if_splits)
      with apart al bl kind Variable False show ?thesis by (auto simp: inputs_apart_def)
    next
      case Placeholder
      then have "v_name ?a = v_name ?b"
        using Suc.prems(1) False al bl by (auto simp: structurallyEqualValues.simps [of "Suc fuel"] vec_at_def split: if_splits)
      with apart al bl kind Placeholder False show ?thesis by (auto simp: inputs_apart_def)
    qed
  qed simp
qed

section \<open>The loop\<close>

lemma core_apart:
  assumes "map value_core (g_values g') = map value_core (g_values g)"
  shows "inputs_apart g' \<longleftrightarrow> inputs_apart g" and "no_negative_zero g' \<longleftrightarrow> no_negative_zero g"
proof -
  have l: "length (g_values g') = length (g_values g)" using assms by (metis length_map)
  note c = value_core_nth [OF assms]
  show "inputs_apart g' \<longleftrightarrow> inputs_apart g" using c by (simp add: inputs_apart_def l)
  have "no_negative_zero h \<longleftrightarrow> (\<forall>v < length (g_values h). v_kind (g_values h ! v) = Constant \<longrightarrow> cp_f64 (v_constant (g_values h ! v)) \<noteq> 0x8000000000000000)" for h
    by (auto simp: no_negative_zero_def all_set_conv_all_nth)
  then show "no_negative_zero g' \<longleftrightarrow> no_negative_zero g" using c by (simp add: l)
qed

lemma hash_operands_run:
  assumes "graph_ok g" and "\<forall>v \<in> set vs. v < length (g_values g)"
  shows "\<exists>k g'. hash_operands vs h g = Inr (k, g') \<and> recached g g'"
  using assms
proof (induction vs arbitrary: h g)
  case (Cons v vs)
  from valueHash_run [OF Cons.prems(1), of v] Cons.prems(2) obtain k g1 where g1: "valueHash g v = Inr (k, g1)" "recached g g1" by auto
  have "\<forall>v \<in> set vs. v < length (g_values g1)" using Cons.prems(2) recached_length [OF g1(2)] by simp
  from Cons.IH [OF recached_ok [OF g1(2) Cons.prems(1)] this, of "hashCombine h k"] obtain k' g2 where
    "hash_operands vs (hashCombine h k) g1 = Inr (k', g2)" "recached g1 g2" by blast
  with g1 recached_trans show ?case by auto
qed simp

definition cse_state :: "libm \<Rightarrow> f64 list \<Rightarrow> math_graph \<Rightarrow> nat \<Rightarrow> math_graph \<Rightarrow> seen_map \<Rightarrow> bool" where
  "cse_state lm ins g0 k g seen \<longleftrightarrow> graph_ok g \<and> inputs_apart g \<and> no_negative_zero g
     \<and> interpretGraph lm g ins = interpretGraph lm g0 ins \<and> g_effects g = g_effects g0 \<and> length (g_nodes g) = length (g_nodes g0)
     \<and> hm_ok hash_key seen \<and> clean seen \<and> length (hm_entries seen) \<le> k \<and> (\<forall>h v. hm_map seen h = Some (Some v) \<longrightarrow> usable g k v)"

lemma cse_stateD:
  assumes "cse_state lm ins g0 k g seen"
  shows "graph_ok g" "inputs_apart g" "no_negative_zero g" "interpretGraph lm g ins = interpretGraph lm g0 ins" "g_effects g = g_effects g0"
    "length (g_nodes g) = length (g_nodes g0)" "hm_ok hash_key seen" "clean seen" "length (hm_entries seen) \<le> k"
    "hm_map seen h = Some (Some v) \<Longrightarrow> usable g k v"
  using assms unfolding cse_state_def by blast+

lemma cse_state_later: "cse_state lm ins g0 k g seen \<Longrightarrow> k \<le> l \<Longrightarrow> cse_state lm ins g0 l g seen"
  using usable_mono unfolding cse_state_def by (meson order_trans)

lemma cse_state_recached:
  assumes "cse_state lm ins g0 k g seen" and "recached g g'"
  shows "cse_state lm ins g0 k g' seen"
proof -
  note d = cse_stateD [OF assms(1)]
  have core: "map value_core (g_values g') = map value_core (g_values g)" using assms(2) by (simp add: recached_def)
  show ?thesis unfolding cse_state_def
    using d recached_ok [OF assms(2) d(1)] core_apart [OF core] recached_interpret [OF assms(2) d(1)] recached_usable [OF assms(2)] assms(2)
    by (simp add: recached_def)
qed

text \<open>Looking up the hash: the map may grow by an entry without a value.\<close>

lemma cse_state_lookup:
  assumes s: "cse_state lm ins g0 k g seen" and room: "int k < kTombstone"
  shows "\<exists>e b seen'. findOrInsert hash_key h None seen = Some (Inr (e, b, seen')) \<and> cse_state lm ins g0 (Suc k) g seen'
    \<and> inserted hash_key h None seen e b seen' \<and> (\<forall>v. seen_at seen' e = Some v \<longrightarrow> usable g k v)
    \<and> (\<forall>h v. hm_map seen' h = Some (Some v) \<longrightarrow> usable g k v)"
proof -
  note d = cse_stateD [OF s]
  have "safe_insert seen" using d(8,9) room by (simp add: safe_insert_def)
  from findOrInsert_spec [OF d(7) this, of h None] obtain e b seen' where
    run: "findOrInsert hash_key h None seen = Some (Inr (e, b, seen'))" and ins: "inserted hash_key h None seen e b seen'" by blast
  have m: "hm_map seen' = (if b then (hm_map seen)(h \<mapsto> None) else hm_map seen)" "hm_ok hash_key seen'" "clean seen'"
    "length (hm_entries seen') \<le> Suc k"
    using ins d(8,9) unfolding inserted_def by auto
  have old: "usable g k v" if "hm_map seen' h' = Some (Some v)" for h' v
    using that d(10) by (auto simp: m(1) split: if_splits)
  have "cse_state lm ins g0 (Suc k) g seen'"
    using d(1-6) m(2-4) old usable_mono [of g k _ "Suc k"] unfolding cse_state_def by auto
  moreover have "usable g k v" if "seen_at seen' e = Some v" for v
    using write_entry(4) [OF ins] that old by (simp add: seen_at_def)
  ultimately show ?thesis using run ins old by blast
qed

lemma all_pairs_total:
  "length xs = length ys \<Longrightarrow> \<forall>x \<in> set xs. \<forall>y \<in> set ys. \<exists>b. f x y = Inr b \<Longrightarrow> \<exists>b. all_pairs f xs ys = Inr b"
proof (induction f xs ys rule: all_pairs.induct)
  case (1 f x xs y ys)
  then obtain b where "f x y = Inr b" by auto
  with 1 show ?case by (cases b) auto
qed auto

lemma structurallyEqualValues_total:
  assumes ok: "graph_ok g" and "usable g k a" and "usable g l b"
  shows "\<exists>s. structurallyEqualValues fuel g a b = Inr s"
  using assms(2,3)
proof (induction fuel arbitrary: a b k l)
  case 0
  then show ?case by (auto simp: structurallyEqualValues.simps)
next
  case (Suc fuel)
  have al: "a < length (g_values g)" and bl: "b < length (g_values g)" using Suc.prems by (simp_all add: usable_def)
  let ?a = "g_values g ! a" and ?b = "g_values g ! b"
  show ?case
  proof (cases "v_kind ?a = NodeResult \<and> v_kind ?b = NodeResult")
    case True
    obtain p where p: "p < length (g_nodes g)" "v_producer ?a = Some p" "\<not> node_dead (g_nodes g ! p)"
      using Suc.prems(1) True by (auto simp: usable_def)
    obtain q where q: "q < length (g_nodes g)" "v_producer ?b = Some q" "\<not> node_dead (g_nodes g ! q)"
      using Suc.prems(2) True by (auto simp: usable_def)
    have "\<exists>s. all_pairs (structurallyEqualValues fuel g) (n_inputs (g_nodes g ! p)) (n_inputs (g_nodes g ! q)) = Inr s"
      if "length (n_inputs (g_nodes g ! p)) = length (n_inputs (g_nodes g ! q))"
      using all_pairs_total [OF that] Suc.IH operand_usable [OF ok p(1,3)] operand_usable [OF ok q(1,3)] by blast
    with True al bl p q show ?thesis by (auto simp: structurallyEqualValues.simps [of "Suc fuel"] vec_at_def)
  next
    case False
    then show ?thesis using al bl by (auto simp: structurallyEqualValues.simps [of "Suc fuel"] vec_at_def split: value_kind.splits)
  qed
qed

text \<open>A merge keeps the state: the values recorded so far come from earlier nodes.\<close>

lemma cse_state_merge:
  assumes s: "cse_state lm ins g0 (Suc i) g seen" and old: "\<forall>h v. hm_map seen h = Some (Some v) \<longrightarrow> usable g i v"
    and site: "site g i r v" and same: "meaning lm g ins v = meaning lm g ins r"
  shows "\<exists>g'. replaceResult i v g = Some (Inr (v, g')) \<and> cse_state lm ins g0 (Suc i) g' seen"
proof -
  note d = cse_stateD [OF s]
  from replaceResult_sound [OF d(1) site same] obtain g' where
    g': "replaceResult i v g = Some (Inr (v, g'))" "rewired g i r v g'" "graph_ok g'"
      "interpretGraph lm g' ins = interpretGraph lm g ins" by blast
  have core: "map value_core (g_values g') = map value_core (g_values g)" "g_effects g' = g_effects g"
    "length (g_nodes g') = length (g_nodes g)" using g'(2) by (simp_all add: rewired_def)
  have "usable g' (Suc i) w" if "hm_map seen h = Some (Some w)" for h w
  proof -
    have u: "usable g i w" using old that by blast
    moreover have "w \<noteq> r" using u siteD [OF d(1) site] by (auto simp: usable_def)
    ultimately show ?thesis using rewired_usable [OF d(1) site g'(2)] usable_mono [of g' i w "Suc i"] by simp
  qed
  then have "cse_state lm ins g0 (Suc i) g' seen"
    unfolding cse_state_def using d(2-9) core(2,3) g'(3,4) core_apart [OF core(1)] by auto
  with g'(1) show ?thesis by blast
qed

lemma cse_state_record:
  assumes s: "cse_state lm ins g0 (Suc i) g seen'" and e: "inserted hash_key h None seen e b seen'" and cl: "clean seen"
    and u: "usable g (Suc i) r"
  shows "cse_state lm ins g0 (Suc i) g (seen_put seen' e r)"
proof -
  note d = cse_stateD [OF s]
  have "fst (hm_entries seen' ! e) = h" using e by (simp add: inserted_def)
  then have p: "seen_put seen' e r = seen'\<lparr>hm_entries := (hm_entries seen')[e := (h, Some r)]\<rparr>" by (simp add: seen_put_def)
  note w = write_entry(1-3) [OF e, where v = "Some r", folded p]
  have "usable g (Suc i) v" if "hm_map (seen_put seen' e r) k = Some (Some v)" for k v
    using that d(10) [of k v] u unfolding w(2) by (cases "k = h") simp_all
  moreover have "length (hm_entries (seen_put seen' e r)) = length (hm_entries seen')" by (simp add: seen_put_def)
  ultimately show ?thesis unfolding cse_state_def using d(1-6,9) w(1) w(3) [OF cl] by auto
qed

lemma cse_nodes_run:
  assumes "cse_state lm ins g0 k g seen" and "sorted_wrt (<) is" and "\<forall>i \<in> set is. k \<le> i \<and> i < length (g_nodes g0)"
    and "int (length is) < budget" and "int (length (g_nodes g0)) < kTombstone"
  shows "\<exists>edits' budget' g'. cse_nodes is seen edits budget g = Some (Inr (edits', budget', g'))
    \<and> graph_ok g' \<and> interpretGraph lm g' ins = interpretGraph lm g0 ins \<and> g_effects g' = g_effects g0"
  using assms(1-4)
proof (induction "is" arbitrary: k g seen edits budget)
  case Nil
  then show ?case by (auto simp: cse_state_def)
next
  case (Cons i js)
  note d = cse_stateD [OF Cons.prems(1)]
  have i: "k \<le> i" "i < length (g_nodes g)" "int i < kTombstone" using Cons.prems(3) d(6) assms(5) by auto
  have rest: "sorted_wrt (<) js" "\<forall>j \<in> set js. Suc i \<le> j \<and> j < length (g_nodes g0)" using Cons.prems(2,3) by auto
  let ?n = "g_nodes g ! i"
  show ?case
  proof (cases "node_dead ?n \<or> \<not> isPure (n_effects ?n)")
    case True
    then have "cse_nodes (i # js) seen edits budget g = cse_nodes js seen edits budget g" using i by (simp add: vec_at_def)
    moreover have "cse_state lm ins g0 (Suc i) g seen" using cse_state_later [OF Cons.prems(1)] i(1) by simp
    ultimately show ?thesis using Cons.IH [OF _ rest] Cons.prems(4) by simp
  next
    case False
    have "\<forall>v \<in> set (n_inputs ?n). v < length (g_values g)" using operand_usable [OF d(1) i(2)] False by (auto simp: usable_def)
    from hash_operands_run [OF d(1) this, of "attrs_hash (n_attrs ?n) (hashU64 (of_nat (op_index (n_op ?n))))"]
    obtain h g1 where g1: "expression_hash ?n g = Inr (h, g1)" "recached g g1" unfolding expression_hash_def by blast
    have s1: "cse_state lm ins g0 i g1 seen" using cse_state_later [OF cse_state_recached [OF Cons.prems(1) g1(2)] i(1)] .
    from cse_state_lookup [OF s1 i(3), of h] obtain e b seen1 where
      l: "findOrInsert hash_key h None seen = Some (Inr (e, b, seen1))" "cse_state lm ins g0 (Suc i) g1 seen1"
        "inserted hash_key h None seen e b seen1" "\<forall>v. seen_at seen1 e = Some v \<longrightarrow> usable g1 i v"
        "\<forall>h v. hm_map seen1 h = Some (Some v) \<longrightarrow> usable g1 i v" by blast
    note d1 = cse_stateD [OF l(2)]
    have n1: "g_nodes g1 = g_nodes g" using g1(2) by (simp add: recached_def)
    obtain r where r: "n_results ?n = [r]" using node_result [OF d(1) i(2)] by metis
    have step: "cse_nodes (i # js) seen edits budget g =
      (case (b, seen_at seen1 e) of
           (False, Some v) \<Rightarrow> then_call (Some (structurallyEqualValues kMaxEquivalenceDepth g1 v r)) (\<lambda>same.
             if same then then_call (replaceResult i v g1) (\<lambda>(_, g).
               then_call (Some (consume_edit budget)) (\<lambda>budget. cse_nodes js seen1 (edits + 1) budget g))
             else cse_nodes js seen1 edits budget g1)
         | _ \<Rightarrow> cse_nodes js (seen_put seen1 e r) edits budget g1)"
      using False i g1(1) l(1) r by (simp add: vec_at_def)
    have ru: "usable g1 (Suc i) r" using result_usable [OF d1(1), of i r] i False r by (simp add: n1)
    have cl: "clean seen" by (rule d(8))
    note IH = Cons.IH [OF _ rest]
    show ?thesis
    proof (cases "\<not> b \<and> seen_at seen1 e \<noteq> None")
      case old: True
      then obtain v where v: "seen_at seen1 e = Some v" "b = False" by auto
      then have vu: "usable g1 i v" using l(4) by blast
      from structurallyEqualValues_total [OF d1(1) vu ru] obtain same where
        same: "structurallyEqualValues kMaxEquivalenceDepth g1 v r = Inr same" by blast
      show ?thesis
      proof (cases same)
        case True
        have site: "site g1 i r v" using i False r vu by (simp add: site_def n1)
        have "meaning lm g1 ins v = meaning lm g1 ins r"
          using structurally_equal_meaning [OF d1(1-3) _ vu ru] same True by simp
        from cse_state_merge [OF l(2,5) site this] obtain g2 where
          g2: "replaceResult i v g1 = Some (Inr (v, g2))" "cse_state lm ins g0 (Suc i) g2 seen1" by blast
        have "cse_nodes (i # js) seen edits budget g = cse_nodes js seen1 (edits + 1) (budget - 1) g2"
          using step v same True g2(1) Cons.prems(4) by (simp add: consume_edit_def)
        with IH [OF g2(2), of "budget - 1" "edits + 1"] Cons.prems(4) show ?thesis by simp
      next
        case False
        with IH [OF l(2), of budget edits] step v same Cons.prems(4) show ?thesis by simp
      qed
    next
      case new: False
      then have "cse_nodes (i # js) seen edits budget g = cse_nodes js (seen_put seen1 e r) edits budget g1"
        using step by (cases b; cases "seen_at seen1 e") auto
      with IH [OF cse_state_record [OF l(2,3) cl ru], of budget edits] Cons.prems(4) show ?thesis by simp
    qed
  qed
qed

end
