(* ===== verification/Pass_Properties.thy ===== *)
theory Pass_Properties
  imports Graph_Build Cse
begin

text \<open>
  What the passes on the mathematical graph guarantee: they keep the invariant of the graph and what
  the reference interpreter returns for it.
\<close>

section \<open>Sample graphs\<close>

text \<open>A library whose transcendental functions are all constantly zero; the samples do not call it.\<close>

definition no_libm :: libm where
  "no_libm = \<lparr>lm_pow = \<lambda>a b. 0, lm_exp = \<lambda>a. 0, lm_log = \<lambda>a. 0, lm_sin = \<lambda>a. 0, lm_cos = \<lambda>a. 0, lm_tan = \<lambda>a. 0,
     lm_tanh = \<lambda>a. 0, lm_sqrt = \<lambda>a. 0, lm_erf = \<lambda>a. 0\<rparr>"

definition built :: "construction list \<Rightarrow> math_graph" where
  "built cs = (case build cs [] of Inl e \<Rightarrow> new_graph [] | Inr g \<Rightarrow> g)"

lemma built_ok:
  assumes "\<not> isl (build cs [])" and "list_all (\<lambda>v. v < length (g_values (built cs))) (g_outputs (built cs))" and "int (length cs) < kTombstone"
  shows "graph_ok (built cs)" and "\<forall>v < length (g_values (built cs)). usable (built cs) (length (g_nodes (built cs))) v"
  using assms build_ok [of cs "[]"] by (auto simp: built_def list_all_iff split: sum.splits)

text \<open>\<open>-x\<close> is an output, \<open>x + x\<close> is not used.\<close>

definition unused_sum :: math_graph where
  "unused_sum = built [Make_placeholder 0 new_type, Make_node Op_Neg [0] [], Make_node Op_Add [0, 0] [], Make_output 1]"

text \<open>\<open>(x + y) * (x + y)\<close> with the sum written twice.\<close>

definition twice_sum :: math_graph where
  "twice_sum = built [Make_placeholder 0 new_type, Make_placeholder 1 new_type, Make_node Op_Add [0, 1] [],
     Make_node Op_Add [0, 1] [], Make_node Op_Mul [2, 3] [], Make_output 4]"

lemma sample_graphs_ok: "graph_ok unused_sum" "graph_ok twice_sum"
  unfolding unused_sum_def twice_sum_def by (rule built_ok(1); code_simp)+

section \<open>Construction and interpretation\<close>

text \<open>
  C22. Construction keeps the graph well-formed up to its output list. Every sequence of the construction
  calls of \<open>MathGraph\<close> that succeeds, with fewer calls than the hash maps have room for, yields a
  graph in which ids are positions, every node has one result whose producer it is, operands come
  from earlier live nodes, nothing is replaced, the effect chain lists the live effectful nodes once
  each, and every value may be used by a new node. \<open>addOutput\<close> checks nothing: the graph with its
  outputs is well-formed exactly when the ids passed to it name values of the graph.
\<close>
theorem construction_ok:
  assumes "build cs pool = Inr g" and "int (length cs) < kTombstone"
  shows "graph_ok (g\<lparr>g_outputs := []\<rparr>) \<and> (\<forall>v < length (g_values g). usable g (length (g_nodes g)) v)
    \<and> (graph_ok g \<longleftrightarrow> (\<forall>v \<in> set (g_outputs g). v < length (g_values g)))"
proof -
  have b: "building g" by (rule build_building [OF assms])
  have "(\<forall>v \<in> set (g_outputs g). usable g (length (g_nodes g)) v) \<longleftrightarrow> (\<forall>v \<in> set (g_outputs g). v < length (g_values g))"
    using b by (auto simp: building_def usable_def)
  with b graph_ok_outputs [of g] show ?thesis unfolding building_def by blast
qed

text \<open>\<open>(x + y) * (x + y)\<close> is well-formed; a graph whose only output is a value it does not have is not.\<close>

lemma construction_ok_witness:
  "graph_ok twice_sum \<and> length (g_nodes twice_sum) = 3 \<and> (\<exists>g. build [Make_output 7] [] = Inr g \<and> g_outputs g = [7] \<and> \<not> graph_ok g)"
proof (intro conjI)
  let ?cs = "[Make_placeholder 0 new_type, Make_placeholder 1 new_type, Make_node Op_Add [0, 1] [],
     Make_node Op_Add [0, 1] [], Make_node Op_Mul [2, 3] [], Make_output 4]"
  have "\<not> isl (build ?cs [])" by code_simp
  then have run: "build ?cs [] = Inr twice_sum" by (auto simp: twice_sum_def built_def split: sum.splits)
  have "list_all (\<lambda>v. v < length (g_values twice_sum)) (g_outputs twice_sum)" and n: "length (g_nodes twice_sum) = 3" by code_simp+
  then have "\<forall>v \<in> set (g_outputs twice_sum). v < length (g_values twice_sum)" by (simp add: list_all_iff)
  moreover have "int (length ?cs) < kTombstone" by code_simp
  ultimately show "graph_ok twice_sum" using construction_ok [OF run] by blast
  show "length (g_nodes twice_sum) = 3" by (rule n)
  have "\<not> isl (build [Make_output 7] []) \<and> g_outputs (built [Make_output 7]) = [7] \<and> length (g_values (built [Make_output 7])) = 0
     \<and> int (length [Make_output 7]) < kTombstone" by code_simp
  moreover from this have run': "build [Make_output 7] [] = Inr (built [Make_output 7])" by (auto simp: built_def split: sum.splits)
  ultimately have "\<not> graph_ok (built [Make_output 7])" using construction_ok [OF run'] by simp
  with run' \<open>_ \<and> _\<close> show "\<exists>g. build [Make_output 7] [] = Inr g \<and> g_outputs g = [7] \<and> \<not> graph_ok g" by blast
qed

text \<open>
  C23. The reference interpreter never fails on a well-formed graph: it returns one number per output,
  and the number of a node result is the operation of its node on the numbers of the operands.
\<close>
theorem interpreter_returns:
  assumes "graph_ok g"
  shows "\<exists>num. interpretGraph lm g ins = Some (Inr (map num (g_outputs g)))
    \<and> (\<forall>i < length (g_nodes g). \<not> node_dead (g_nodes g ! i) \<longrightarrow>
         num (hd (n_results (g_nodes g ! i))) = node_value lm (g_nodes g ! i) num)"
proof (intro exI conjI allI impI)
  show "interpretGraph lm g ins = Some (Inr (map (meaning lm g ins) (g_outputs g)))" by (rule interpret_meaning [OF assms])
  fix i assume i: "i < length (g_nodes g)" "\<not> node_dead (g_nodes g ! i)"
  obtain r where "n_results (g_nodes g ! i) = [r]" using node_result [OF assms i(1)] by metis
  with meaning_result [OF assms i] show "meaning lm g ins (hd (n_results (g_nodes g ! i))) = node_value lm (g_nodes g ! i) (meaning lm g ins)"
    by simp
qed

lemma interpreter_returns_witness: "\<exists>d. interpretGraph no_libm twice_sum [f64_one, f64_one] = Some (Inr [d])"
proof -
  have o: "g_outputs twice_sum = [4]" by code_simp
  from interpreter_returns [OF sample_graphs_ok(2), of no_libm "[f64_one, f64_one]"] show ?thesis unfolding o by auto
qed

section \<open>Dead code elimination\<close>

text \<open>
  C24. Dead code elimination within its budget keeps the graph well-formed, the effect chain and the
  outputs of the interpreter, and afterwards a node is live exactly when it was live and is effectful
  or its result is needed by an output or an effect.
\<close>
theorem dce_correct:
  assumes "graph_ok g" and "int (length (g_nodes g)) < budget"
  shows "\<exists>pr b g'. dce budget g = Some (Inr (pr, b, g')) \<and> graph_ok g' \<and> g_effects g' = g_effects g
    \<and> interpretGraph lm g' ins = interpretGraph lm g ins
    \<and> (\<forall>i < length (g_nodes g). \<not> node_dead (g_nodes g' ! i) \<longleftrightarrow>
         \<not> node_dead (g_nodes g ! i) \<and> (\<not> isPure (n_effects (g_nodes g ! i)) \<or> (\<exists>r \<in> set (n_results (g_nodes g ! i)). needed g r)))"
proof -
  from dce_run [OF assms] obtain pr b g' where run: "dce budget g = Some (Inr (pr, b, g'))" and s: "swept g {i. removable g i} g'" by blast
  have ok': "graph_ok g'" by (rule swept_ok [OF assms(1) s])
  have "map (meaning lm g' ins) (g_outputs g') = map (meaning lm g ins) (g_outputs g)"
    using swept_meaning [OF assms(1) s needed.outp] s by (simp add: swept_def)
  then have "interpretGraph lm g' ins = interpretGraph lm g ins"
    using interpret_meaning [OF assms(1)] interpret_meaning [OF ok'] by simp
  moreover have "\<forall>i < length (g_nodes g). \<not> node_dead (g_nodes g' ! i) \<longleftrightarrow>
         \<not> node_dead (g_nodes g ! i) \<and> (\<not> isPure (n_effects (g_nodes g ! i)) \<or> (\<exists>r \<in> set (n_results (g_nodes g ! i)). needed g r))"
    using swept_node [OF s] by (auto simp: removable_def)
  ultimately show ?thesis using run ok' s by (simp add: swept_def)
qed

lemma dce_correct_witness:
  "\<exists>pr b g'. dce 10 unused_sum = Some (Inr (pr, b, g')) \<and> graph_ok g' \<and> interpretGraph no_libm g' [f64_one] = interpretGraph no_libm unused_sum [f64_one]"
proof -
  have "int (length (g_nodes unused_sum)) < 10" by code_simp
  from dce_correct [OF sample_graphs_ok(1) this, of no_libm "[f64_one]"] show ?thesis by blast
qed

section \<open>Common subexpressions\<close>

text \<open>
  C25. Common subexpression elimination within its budget keeps the graph well-formed, the effect chain
  and the outputs of the interpreter, for every graph whose inputs have distinct names and in which
  no constant is a negative zero.
\<close>
theorem cse_correct:
  assumes ok: "graph_ok g" and "inputs_apart g" and "no_negative_zero g"
    and budget: "int (length (g_nodes g)) < budget" and fits: "int (length (g_nodes g)) < kTombstone"
  shows "\<exists>pr b g'. cse budget g = Some (Inr (pr, b, g')) \<and> graph_ok g' \<and> g_effects g' = g_effects g
    \<and> interpretGraph lm g' ins = interpretGraph lm g ins"
proof -
  have m: "hm_ok hash_key (hm_new :: seen_map) \<and> clean (hm_new :: seen_map) \<and> hm_map (hm_new :: seen_map) = Map.empty" by (rule new_map)
  have s: "cse_state lm ins g 0 g hm_new" using assms(1-3) m unfolding cse_state_def by (simp add: hm_new_def)
  have topo: "sorted_wrt (<) (topoOrder g)" "\<forall>i \<in> set (topoOrder g). 0 \<le> i \<and> i < length (g_nodes g)"
    using topo_sorted [OF ok] topo_live(2) [OF ok] by auto
  have "length (topoOrder g) \<le> length (g_nodes g)" by (simp add: topoOrder_def)
  then have "int (length (topoOrder g)) < budget" using budget by linarith
  from cse_nodes_run [OF s topo this fits, of 0] obtain edits b g' where
    "cse_nodes (topoOrder g) hm_new 0 budget g = Some (Inr (edits, b, g'))" "graph_ok g'"
    "interpretGraph lm g' ins = interpretGraph lm g ins" "g_effects g' = g_effects g" by blast
  then show ?thesis by (simp add: cse_def)
qed

lemma cse_correct_witness:
  "\<exists>pr b g'. cse 10 twice_sum = Some (Inr (pr, b, g')) \<and> graph_ok g'
     \<and> interpretGraph no_libm g' [f64_one, 0] = interpretGraph no_libm twice_sum [f64_one, 0]"
proof -
  have n: "int (length (g_nodes twice_sum)) < 10" "int (length (g_nodes twice_sum)) < kTombstone" by code_simp+
  have "no_negative_zero twice_sum" by code_simp
  moreover have "inputs_apart twice_sum"
  proof -
    have l: "length (g_values twice_sum) = 5" by code_simp
    have v: "map v_kind (g_values twice_sum) = [Placeholder, Placeholder, NodeResult, NodeResult, NodeResult]"
      "map v_name (take 2 (g_values twice_sum)) = [Some 0, Some 1]" by code_simp+
    have k: "v_kind (g_values twice_sum ! 0) = Placeholder" "v_kind (g_values twice_sum ! 1) = Placeholder"
      "v_kind (g_values twice_sum ! 2) = NodeResult" "v_kind (g_values twice_sum ! 3) = NodeResult" "v_kind (g_values twice_sum ! 4) = NodeResult"
      "v_name (g_values twice_sum ! 0) = Some 0" "v_name (g_values twice_sum ! 1) = Some 1" by code_simp+
    have five: "v = 0 \<or> v = 1 \<or> v = 2 \<or> v = 3 \<or> v = 4" if "v < 5" for v :: nat using that by linarith
    show ?thesis unfolding inputs_apart_def l
    proof (intro allI impI)
      fix v w :: nat
      assume "v < 5" "w < 5" "v_kind (g_values twice_sum ! v) = v_kind (g_values twice_sum ! w)"
        "v_kind (g_values twice_sum ! v) \<in> {Placeholder, Variable}" "v_name (g_values twice_sum ! v) = v_name (g_values twice_sum ! w)"
      with five [OF \<open>v < 5\<close>] five [OF \<open>w < 5\<close>] k show "v = w" by auto
    qed
  qed
  ultimately show ?thesis using cse_correct [OF sample_graphs_ok(2) _ _ n, of no_libm "[f64_one, 0]"] by blast
qed

text \<open>The two zeros as constants; the outputs are their negations.\<close>

definition both_zeros :: math_graph where
  "both_zeros = built [Make_constant 0 new_type, Make_constant 0x8000000000000000 new_type, Make_node Op_Neg [0] [],
     Make_node Op_Neg [1] [], Make_output 2, Make_output 3]"

lemma both_zeros_ok: "graph_ok both_zeros"
  unfolding both_zeros_def by (rule built_ok(1); code_simp)

lemma both_zeros_evaluated:
  "let g = both_zeros in length (g_nodes g) = 2
     \<and> topoOrder g = [0, 1]
     \<and> g_outputs g = [2, 3]
     \<and> length (g_values g) = 4
     \<and> \<not> node_dead (g_nodes g ! 0)
     \<and> \<not> node_dead (g_nodes g ! 1)
     \<and> n_op (g_nodes g ! 0) = Op_Neg
     \<and> n_op (g_nodes g ! 1) = Op_Neg
     \<and> n_inputs (g_nodes g ! 0) = [0]
     \<and> n_inputs (g_nodes g ! 1) = [1]
     \<and> n_results (g_nodes g ! 0) = [2]
     \<and> n_results (g_nodes g ! 1) = [3]
     \<and> isPure (n_effects (g_nodes g ! 0))
     \<and> isPure (n_effects (g_nodes g ! 1))
     \<and> v_kind (g_values g ! 0) = Constant
     \<and> v_kind (g_values g ! 1) = Constant
     \<and> constant_double (v_constant (g_values g ! 0)) = 0
     \<and> constant_double (v_constant (g_values g ! 1)) = 0x8000000000000000"
  by code_simp

lemmas both_zeros_parts = both_zeros_evaluated [unfolded Let_def]

lemma both_zeros_hashed:
  "\<exists>h g1 g2. expression_hash (g_nodes both_zeros ! 0) both_zeros = Inr (h, g1) \<and> expression_hash (g_nodes both_zeros ! 1) g1 = Inr (h, g2)
     \<and> structurallyEqualValues kMaxEquivalenceDepth g2 2 3 = Inr True \<and> recached both_zeros g1 \<and> recached both_zeros g2"
proof -
  note parts = both_zeros_parts both_zeros_parts [unfolded One_nat_def]
  have "case expression_hash (g_nodes both_zeros ! 0) both_zeros of Inl e \<Rightarrow> False | Inr (h, g1) \<Rightarrow>
    (case expression_hash (g_nodes both_zeros ! 1) g1 of Inl e \<Rightarrow> False | Inr (h', g2) \<Rightarrow>
      h = h' \<and> structurallyEqualValues kMaxEquivalenceDepth g2 2 3 = Inr True)" by code_simp
  then obtain h g1 g2 where run: "expression_hash (g_nodes both_zeros ! 0) both_zeros = Inr (h, g1)"
    "expression_hash (g_nodes both_zeros ! 1) g1 = Inr (h, g2)" "structurallyEqualValues kMaxEquivalenceDepth g2 2 3 = Inr True"
    by (cases "expression_hash (g_nodes both_zeros ! 0) both_zeros"; cases "expression_hash (g_nodes both_zeros ! 1) (snd (projr (expression_hash (g_nodes both_zeros ! 0) both_zeros)))")
      (auto split: prod.splits)
  have r: "recached g k" if "expression_hash n g = Inr (x, k)" "graph_ok g" "\<forall>v \<in> set (n_inputs n). v < length (g_values g)" for g k n x
    using hash_operands_run [OF that(2,3), of "attrs_hash (n_attrs n) (hashU64 (of_nat (op_index (n_op n))))"] that(1)
    by (auto simp: expression_hash_def)
  have r1: "recached both_zeros g1" using r [OF run(1) both_zeros_ok] parts by simp
  have "graph_ok g1" "length (g_values g1) = 4" using recached_ok [OF r1 both_zeros_ok] recached_length [OF r1] parts by simp_all
  with r [OF run(2)] parts have "recached g1 g2" by simp
  with r1 run recached_trans show ?thesis by blast
qed

lemma negated_zero:
  assumes "graph_ok g" and "i < length (g_nodes g)" "\<not> node_dead (g_nodes g ! i)" "n_results (g_nodes g ! i) = [r]"
    and "n_op (g_nodes g ! i) = Op_Neg" "n_inputs (g_nodes g ! i) = [c]" and "c < length (g_values g)" "v_kind (g_values g ! c) = Constant"
  shows "meaning lm g ins r = f64_canon (f64_neg (constant_double (v_constant (g_values g ! c))))"
  using meaning_result [OF assms(1-4)] meaning_constant [OF assms(1,7,8)] assms(5,6)
  by (simp add: node_value_def node_args_def node_out_def evalScalar_def)

text \<open>
  C26. Common subexpression elimination merges positive and negative zero: constants are compared with
  the equality of \<open>double\<close>, for which the zeros are equal. The graph with the outputs \<open>-(+0)\<close> and \<open>-(-0)\<close>
  returns a negative and a positive zero; after the pass it returns the negative one twice.
\<close>
theorem cse_merges_zeros:
  "\<exists>pr b g'. cse 10 both_zeros = Some (Inr (pr, b, g')) \<and> interpretGraph lm both_zeros [] = Some (Inr [0x8000000000000000, 0])
     \<and> interpretGraph lm g' [] = Some (Inr [0x8000000000000000, 0x8000000000000000])"
proof -
  note parts = both_zeros_parts both_zeros_parts [unfolded One_nat_def]
  obtain h g1 g2 where hs: "expression_hash (g_nodes both_zeros ! 0) both_zeros = Inr (h, g1)"
    "expression_hash (g_nodes both_zeros ! 1) g1 = Inr (h, g2)" "structurallyEqualValues kMaxEquivalenceDepth g2 2 3 = Inr True"
    "recached both_zeros g1" "recached both_zeros g2" using both_zeros_hashed by blast
  have ok2: "graph_ok g2" by (rule recached_ok [OF hs(5) both_zeros_ok])
  have n: "g_nodes g1 = g_nodes both_zeros" "g_nodes g2 = g_nodes both_zeros" "g_outputs g2 = [2, 3]" "length (g_values g2) = 4"
    using hs(4,5) recached_length [OF hs(5)] by (simp_all add: recached_def parts)
  have empty: "hm_ok hash_key (hm_new :: seen_map) \<and> clean (hm_new :: seen_map) \<and> hm_map (hm_new :: seen_map) = Map.empty" by (rule new_map)
  have "safe_insert (hm_new :: seen_map)" using empty by (simp add: safe_insert_def hm_new_def kTombstone_def)
  from findOrInsert_spec [OF conjunct1 [OF empty] this, of h None] obtain e b s1 where
    f1: "findOrInsert hash_key h None (hm_new :: seen_map) = Some (Inr (e, b, s1))" "inserted hash_key h None (hm_new :: seen_map) e b s1" by blast
  have b: "b" using f1(2) empty by (simp add: inserted_def)
  have key: "fst (hm_entries s1 ! e) = h" and len: "length (hm_entries s1) \<le> 1" using f1(2) by (simp_all add: inserted_def hm_new_def)
  have p: "seen_put s1 e 2 = s1\<lparr>hm_entries := (hm_entries s1)[e := (h, Some 2)]\<rparr>" by (simp add: seen_put_def key)
  note w = write_entry(1-3) [OF f1(2), where v = "Some 2", folded p]
  have "safe_insert (seen_put s1 e 2)" using w(3) empty len by (simp add: safe_insert_def kTombstone_def seen_put_def)
  from findOrInsert_spec [OF w(1) this, of h None] obtain e2 b2 s2 where
    f2: "findOrInsert hash_key h None (seen_put s1 e 2) = Some (Inr (e2, b2, s2))" "inserted hash_key h None (seen_put s1 e 2) e2 b2 s2" by blast
  have b2: "\<not> b2" and m2: "hm_map s2 = hm_map (seen_put s1 e 2)" using f2(2) w(2) by (simp_all add: inserted_def)
  have seen: "seen_at s2 e2 = Some 2" using write_entry(4) [OF f2(2)] w(2) m2 by (simp add: seen_at_def)
  have "usable g2 1 2" using result_usable [OF ok2, of 0 2] by (simp add: n parts)
  from replaceResult_run [OF ok2, of 1 3 2] this obtain g' where g': "replaceResult 1 2 g2 = Some (Inr (2, g'))" "rewired g2 1 3 2 g'"
    by (auto simp: n parts)
  have "site g2 1 3 2" using \<open>usable g2 1 2\<close> by (simp add: site_def n parts)
  then have ok': "graph_ok g'" using rewired_ok [OF ok2 _ g'(2)] by blast
  note d = rewiredD [OF g'(2)]
  have core: "map value_core (g_values g') = map value_core (g_values both_zeros)" using g'(2) hs(5) by (simp add: rewired_def recached_def)
  have l: "length (g_values g') = 4" "length (g_nodes g') = 2" using d(1,2) n by (simp_all add: parts)
  have c: "v_kind (g_values g' ! 0) = Constant" "v_constant (g_values g' ! 0) = v_constant (g_values both_zeros ! 0)"
    using value_core_nth [OF core, of 0] by (simp_all add: parts)
  have live: "\<not> node_dead (g_nodes g' ! 0)" using d(7) [of 0] by (simp add: n parts)
  have node: "n_results (g_nodes g' ! 0) = [2]" "n_op (g_nodes g' ! 0) = Op_Neg" "n_inputs (g_nodes g' ! 0) = [0]"
    using d(8) [of 0] d(9) [of 0] d(12) [OF _ live] by (simp_all add: n parts redirect_def)
  have "f64_canon (f64_neg 0) = 0x8000000000000000" "f64_canon (f64_neg 0x8000000000000000) = 0" by code_simp+
  note zeros = this
  have "g_outputs g' = [2, 2]" using g'(2) n by (simp add: rewired_def redirect_def)
  moreover have "meaning lm g' [] 2 = 0x8000000000000000"
    using negated_zero [OF ok' _ live node] l c zeros parts by simp
  ultimately have after: "interpretGraph lm g' [] = Some (Inr [0x8000000000000000, 0x8000000000000000])"
    using interpret_meaning [OF ok'] by simp
  have "meaning lm both_zeros [] 2 = 0x8000000000000000" "meaning lm both_zeros [] 3 = 0"
    using negated_zero [OF both_zeros_ok, of 0 2 0] negated_zero [OF both_zeros_ok, of 1 3 1] parts zeros by simp_all
  then have before: "interpretGraph lm both_zeros [] = Some (Inr [0x8000000000000000, 0])"
    using interpret_meaning [OF both_zeros_ok] by (simp add: parts)
  have "cse_nodes [0, 1] hm_new 0 10 both_zeros = Some (Inr (1, 9, g'))"
    using hs(1-3) f1(1) f2(1) b b2 seen g'(1) by (simp add: vec_at_def parts n consume_edit_def)
  then show ?thesis using before after by (simp add: cse_def parts)
qed

end
