(* ===== verification/Rewrite_Loop.thy ===== *)
theory Rewrite_Loop
  imports Recache Dce Graph_Build
begin

text \<open>
  The loop that the rewriting passes of \<open>passes/math\<close> share: every live pure node of the topological
  order is offered to a rule, and the value the rule names, possibly a constant that it appended,
  replaces the node's result. The locale \<open>rewrite_rule\<close> is what a rule must guarantee; the loop then
  keeps the invariant of the graph and the outputs of the interpreter.
\<close>

section \<open>The loop\<close>

text \<open>A rule answers with the new value, whether the edit is charged, and the graph with the constant.\<close>

type_synonym rule_answer = "(nat \<times> bool \<times> math_graph) option result"

fun rewrite_nodes :: "(math_graph \<Rightarrow> gnode \<Rightarrow> rule_answer) \<Rightarrow> nat list \<Rightarrow> nat \<Rightarrow> int \<Rightarrow> math_graph \<Rightarrow> (nat \<times> int \<times> math_graph) result option" where
  "rewrite_nodes rule [] edits budget g = Some (Inr (edits, budget, g))"
| "rewrite_nodes rule (i # is) edits budget g = then_call (Some (vec_at (g_nodes g) i)) (\<lambda>n.
     if node_dead n \<or> \<not> isPure (n_effects n) then rewrite_nodes rule is edits budget g
     else then_call (Some (rule g n)) (\<lambda>r. case r of
         None \<Rightarrow> rewrite_nodes rule is edits budget g
       | Some (v, charged, g) \<Rightarrow> then_call (replaceResult i v g) (\<lambda>(_, g).
           then_call (Some (if charged then consume_edit budget else Inr budget)) (\<lambda>budget. rewrite_nodes rule is (edits + 1) budget g))))"

definition rewrite_pass :: "(math_graph \<Rightarrow> gnode \<Rightarrow> rule_answer) \<Rightarrow> int \<Rightarrow> math_graph \<Rightarrow> (pass_result \<times> int \<times> math_graph) result option" where
  "rewrite_pass rule budget g = then_call (rewrite_nodes rule (topoOrder g) 0 budget g) (\<lambda>(edits, budget, g').
     Some (Inr (\<lparr>pr_changed = (edits \<noteq> 0), pr_before = liveNodeCount g, pr_after = liveNodeCount g'\<rparr>, budget, g')))"

section \<open>Numbers are canonical\<close>

lemma f64_canon_0 [simp]: "f64_canon 0 = 0"
  by (simp add: f64_canon_def f64_nan_def f64_exp_def f64_mag_def)

lemma f64_canon_idem [simp]: "f64_canon (f64_canon x) = f64_canon x"
  by (simp add: f64_canon_def)

lemma round_mag_range:
  assumes "0 \<le> a"
  shows "0 \<le> round_mag a" and "round_mag a \<le> 2047 * 2 ^ 52"
proof -
  define q where "q = max (ilog2 a - 52) (- 1074)"
  have "0 \<le> a / 2 powi q" using assms by simp
  then have "0 \<le> \<lfloor>a / 2 powi q\<rfloor>" by simp
  then have "0 \<le> round_half_even (a / 2 powi q)" by (simp add: round_half_even_def Let_def)
  moreover have "0 \<le> q + 1074" by (simp add: q_def)
  then have "0 \<le> (q + 1074) * 2 ^ 52" by simp
  ultimately show "0 \<le> round_mag a" unfolding round_mag_def Let_def q_def [symmetric] by simp
  show "round_mag a \<le> 2047 * 2 ^ 52" by (simp add: round_mag_def Let_def)
qed

lemma f64_pack_mag:
  assumes "0 \<le> b" "b < 2 ^ 63"
  shows "f64_mag (f64_pack s b) = b"
proof -
  have "uint (f64_pack s b) mod 2 ^ 63 = (b + (if s then 2 ^ 63 else 0)) mod 2 ^ 63"
    unfolding f64_pack_def by (subst uint_word_of_int) (simp add: mod_mod_cancel)
  then show ?thesis using assms by (simp add: f64_mag_def split: if_splits)
qed

lemma f64_round_canon [simp]: "f64_canon (f64_round neg r) = f64_round neg r"
proof -
  have "\<not> f64_nan (f64_pack s b)" if "0 \<le> b" "b \<le> 2047 * 2 ^ 52" for s b
  proof -
    have "f64_mag (f64_pack s b) = b" using that by (simp add: f64_pack_mag)
    moreover have "b = 2047 * 2 ^ 52" if "b div 2 ^ 52 = 2047" using that \<open>b \<le> 2047 * 2 ^ 52\<close> by simp
    ultimately show ?thesis by (auto simp: f64_nan_def f64_exp_def f64_frac_def)
  qed
  then show ?thesis using round_mag_range [of "\<bar>r\<bar>"] by (simp add: f64_round_def f64_canon_def)
qed

definition canonical :: "(nat \<rightharpoonup> f64) \<Rightarrow> bool" where
  "canonical m \<longleftrightarrow> (\<forall>v x. m v = Some x \<longrightarrow> f64_canon x = x)"

lemma canonical_get0: "canonical m \<Longrightarrow> f64_canon (get0 m v) = get0 m v"
  by (auto simp: canonical_def get0_def split: option.splits)

lemma canonical_bindings: "canonical (bindings vs ins)"
proof (induction vs arbitrary: ins)
  case (Cons v vs)
  have "f64_canon (constant_double c) = constant_double c" for c by (simp add: constant_double_def f64_of_int_def)
  moreover have "f64_canon (case ins of [] \<Rightarrow> 0 | x # xs \<Rightarrow> f64_canon x) = (case ins of [] \<Rightarrow> 0 | x # xs \<Rightarrow> f64_canon x)"
    by (simp split: list.split)
  ultimately show ?case using Cons by (auto simp: canonical_def map_add_Some_iff split: if_splits)
qed (simp add: canonical_def)

lemma canonical_store: "canonical m \<Longrightarrow> canonical (node_store lm n m)"
proof -
  assume m: "canonical m"
  have "f64_canon r = r" if "node_out lm (n_op n) (node_args n (get0 m) 0) b = Some r" for b r
    using that canonical_get0 [OF m] by (auto simp: node_out_def node_args_def split: if_splits)
  with m show ?thesis by (auto simp: canonical_def node_store_def split: option.splits)
qed

lemma meaning_canon: "f64_canon (meaning lm g ins v) = meaning lm g ins v"
proof -
  have "canonical (fold (node_store lm) ns m)" if "canonical m" for ns m
    using that by (induction ns arbitrary: m) (simp_all add: canonical_store)
  then show ?thesis using canonical_bindings canonical_get0 by (simp add: meaning_def scalars_def)
qed

section \<open>A constant is appended\<close>

definition constant_added :: "math_graph \<Rightarrow> math_graph \<Rightarrow> bool" where
  "constant_added g g' \<longleftrightarrow> g' = g \<or> (\<exists>w. v_kind w = Constant \<and> g' = snd (allocateValue w g))"

lemma constant_added_parts:
  assumes "constant_added g g'"
  shows "g_nodes g' = g_nodes g" "g_outputs g' = g_outputs g" "g_effects g' = g_effects g" "g_repr g' = g_repr g"
    and "length (g_values g') \<le> length (g_values g) + 1" "length (g_values g) \<le> length (g_values g')"
    and "v < length (g_values g) \<Longrightarrow> g_values g' ! v = g_values g ! v"
  using assms by (auto simp: constant_added_def allocateValue_def nth_append)

lemma constant_added_ok:
  assumes "constant_added g g'" and "graph_ok g" and "int (length (g_values g)) + 1 < kTombstone"
  shows "graph_ok g'"
  using assms allocate_ok(1) by (auto simp: constant_added_def)

lemma bindings_constant_later: "v_kind w = Constant \<Longrightarrow> v \<noteq> v_id w \<Longrightarrow> bindings (vs @ [w]) ins v = bindings vs ins v"
  by (induction vs arbitrary: ins) (auto simp: map_add_def split: option.splits)

lemma constant_added_meaning:
  assumes c: "constant_added g g'" and ok: "graph_ok g" and room: "int (length (g_values g)) + 1 < kTombstone" and v: "usable g k v"
  shows "meaning lm g' ins v = meaning lm g ins v"
proof (rule meaning_transfer [OF ok constant_added_ok [OF c ok room], of "\<lambda>v. \<exists>k. usable g k v"])
  note p = constant_added_parts [OF c]
  fix v assume "\<exists>k. usable g k v"
  then obtain k where v: "usable g k v" "v < length (g_values g)" by (auto simp: usable_def)
  have "bindings (g_values g') ins v = bindings (g_values g) ins v"
    using c v(2) by (auto simp: constant_added_def allocateValue_def bindings_constant_later)
  then show "v_kind (g_values g' ! v) \<noteq> NodeResult \<Longrightarrow> meaning lm g' ins v = meaning lm g ins v"
    using meaning_leaf [OF ok, of v lm ins] meaning_leaf [OF constant_added_ok [OF c ok room], of v lm ins] p(7) [OF v(2)] by (simp add: get0_def)
  assume "v_kind (g_values g' ! v) = NodeResult"
  then obtain q where q: "q < length (g_nodes g)" "\<not> node_dead (g_nodes g ! q)" "n_results (g_nodes g ! q) = [v]"
    using v p(7) [OF v(2)] by (auto simp: usable_def)
  have "\<exists>k. usable g k (n_inputs (g_nodes g ! q) ! j)" if "j < length (n_inputs (g_nodes g ! q))" for j
    using operand_usable [OF ok q(1,2)] that by (meson nth_mem)
  with q show "\<exists>p. p < length (g_nodes g') \<and> p < length (g_nodes g)
      \<and> \<not> node_dead (g_nodes g' ! p) \<and> \<not> node_dead (g_nodes g ! p) \<and> n_results (g_nodes g' ! p) = [v] \<and> n_results (g_nodes g ! p) = [v]
      \<and> n_op (g_nodes g' ! p) = n_op (g_nodes g ! p) \<and> length (n_inputs (g_nodes g' ! p)) = length (n_inputs (g_nodes g ! p))
      \<and> (\<forall>k < length (n_inputs (g_nodes g ! p)). (\<exists>j. usable g j (n_inputs (g_nodes g' ! p) ! k))
          \<and> meaning lm g ins (n_inputs (g_nodes g' ! p) ! k) = meaning lm g ins (n_inputs (g_nodes g ! p) ! k))"
    by (intro exI [of _ q]) (simp add: p(1))
qed (use v in blast)

lemma constant_added_interpret:
  assumes "constant_added g g'" and "graph_ok g" and "int (length (g_values g)) + 1 < kTombstone"
  shows "interpretGraph lm g' ins = interpretGraph lm g ins"
  using interpret_meaning [OF assms(2)] interpret_meaning [OF constant_added_ok [OF assms]] constant_added_meaning [OF assms graph_okD(5) [OF assms(2)]]
    constant_added_parts(2) [OF assms(1)] by simp

lemma constant_added_usable:
  assumes "constant_added g g'" and "usable g k v"
  shows "usable g' k v"
  using assms usable_extends [of g g' k v] by (auto simp: constant_added_def extends_def allocateValue_def)

section \<open>What a rule guarantees\<close>

text \<open>
  \<open>fine\<close> is what the rule needs of the graph. The value it names may be used before the node and has,
  with the mathematics library \<open>lm\<close>, the number of the node's result.
\<close>

definition good_answer :: "libm \<Rightarrow> (math_graph \<Rightarrow> bool) \<Rightarrow> math_graph \<Rightarrow> nat \<Rightarrow> nat \<Rightarrow> math_graph \<Rightarrow> bool" where
  "good_answer lm fine g i v g' \<longleftrightarrow> constant_added g g' \<and> fine g'
     \<and> (int (length (g_values g)) + 1 < kTombstone \<longrightarrow> usable g' i v
          \<and> (\<forall>r ins. n_results (g_nodes g ! i) = [r] \<longrightarrow> meaning lm g' ins v = meaning lm g' ins r))"

locale rewrite_rule =
  fixes lm :: libm and fine :: "math_graph \<Rightarrow> bool" and rule :: "math_graph \<Rightarrow> gnode \<Rightarrow> rule_answer"
  assumes answer: "graph_ok g \<Longrightarrow> fine g \<Longrightarrow> i < length (g_nodes g) \<Longrightarrow> \<not> node_dead (g_nodes g ! i) \<Longrightarrow> isPure (n_effects (g_nodes g ! i))
      \<Longrightarrow> rule g (g_nodes g ! i) = Inr None \<or> (\<exists>v c g'. rule g (g_nodes g ! i) = Inr (Some (v, c, g')) \<and> good_answer lm fine g i v g')"
    and kept: "graph_ok g \<Longrightarrow> fine g \<Longrightarrow> site g i r v \<Longrightarrow> rewired g i r v g' \<Longrightarrow> fine g'"
begin

lemma step:
  assumes ok: "graph_ok g" "fine g" and i: "i < length (g_nodes g)" "\<not> node_dead (g_nodes g ! i)" "isPure (n_effects (g_nodes g ! i))"
    and run: "rule g (g_nodes g ! i) = Inr (Some (v, c, g1))" and room: "int (length (g_values g)) + 1 < kTombstone"
  shows "\<exists>g'. replaceResult i v g1 = Some (Inr (v, g')) \<and> graph_ok g' \<and> fine g' \<and> interpretGraph lm g' ins = interpretGraph lm g ins
    \<and> g_effects g' = g_effects g \<and> length (g_nodes g') = length (g_nodes g) \<and> length (g_values g') \<le> length (g_values g) + 1"
proof -
  from answer [OF ok i] run have good: "good_answer lm fine g i v g1" by auto
  then have c: "constant_added g g1" and fine1: "fine g1" by (simp_all add: good_answer_def)
  note p = constant_added_parts [OF c]
  obtain r where r: "n_results (g_nodes g ! i) = [r]" using node_result [OF ok(1) i(1)] by metis
  have ok1: "graph_ok g1" by (rule constant_added_ok [OF c ok(1) room])
  have site: "site g1 i r v" and same: "meaning lm g1 ins v = meaning lm g1 ins r"
    using good room i r by (simp_all add: good_answer_def site_def p(1))
  from replaceResult_sound [OF ok1 site same] obtain g' where g': "replaceResult i v g1 = Some (Inr (v, g'))" "rewired g1 i r v g'"
    "graph_ok g'" "interpretGraph lm g' ins = interpretGraph lm g1 ins" by blast
  note d = rewiredD(1,2) [OF g'(2)]
  have "interpretGraph lm g1 ins = interpretGraph lm g ins" by (rule constant_added_interpret [OF c ok(1) room])
  moreover have "g_effects g' = g_effects g" using g'(2) p(3) by (simp add: rewired_def)
  moreover have "length (g_nodes g') = length (g_nodes g)" "length (g_values g') \<le> length (g_values g) + 1" using d p(1,5) by simp_all
  ultimately show ?thesis using g' kept [OF ok1 fine1 site g'(2)] by auto
qed

lemma rewrite_nodes_run:
  assumes "graph_ok g" "fine g" and "\<forall>i \<in> set is. i < length (g_nodes g)" and "int (length is) < budget"
    and "int (length (g_values g)) + int (length is) < kTombstone"
  shows "\<exists>edits' b g'. rewrite_nodes rule is edits budget g = Some (Inr (edits', b, g')) \<and> graph_ok g' \<and> fine g'
    \<and> g_effects g' = g_effects g \<and> length (g_nodes g') = length (g_nodes g) \<and> interpretGraph lm g' ins = interpretGraph lm g ins"
  using assms
proof (induction "is" arbitrary: edits budget g)
  case (Cons i js)
  let ?n = "g_nodes g ! i"
  have i: "i < length (g_nodes g)" and js: "\<forall>j \<in> set js. j < length (g_nodes g)" using Cons.prems(3) by simp_all
  show ?case
  proof (cases "node_dead ?n \<or> \<not> isPure (n_effects ?n) \<or> rule g ?n = Inr None")
    case True
    then have "rewrite_nodes rule (i # js) edits budget g = rewrite_nodes rule js edits budget g" using i by (auto simp: vec_at_def)
    with Cons.IH [OF Cons.prems(1,2) js, of budget edits] Cons.prems(4,5) show ?thesis by simp
  next
    case False
    then have live: "\<not> node_dead ?n" "isPure (n_effects ?n)" by simp_all
    from answer [OF Cons.prems(1,2) i live] False obtain v c g1 where run: "rule g ?n = Inr (Some (v, c, g1))" by auto
    have room: "int (length (g_values g)) + 1 < kTombstone" using Cons.prems(5) by simp
    from step [OF Cons.prems(1,2) i live run room, of ins] obtain g2 where g2: "replaceResult i v g1 = Some (Inr (v, g2))" "graph_ok g2" "fine g2"
      "interpretGraph lm g2 ins = interpretGraph lm g ins" "g_effects g2 = g_effects g" "length (g_nodes g2) = length (g_nodes g)"
      "length (g_values g2) \<le> length (g_values g) + 1" by blast
    define b where "b = (if c then budget - 1 else budget)"
    have b: "int (length js) < b" "rewrite_nodes rule (i # js) edits budget g = rewrite_nodes rule js (edits + 1) b g2"
      using Cons.prems(4) i live run g2(1) by (simp_all add: b_def vec_at_def consume_edit_def)
    have "\<forall>j \<in> set js. j < length (g_nodes g2)" "int (length (g_values g2)) + int (length js) < kTombstone"
      using js g2(6,7) Cons.prems(5) by simp_all
    from Cons.IH [OF g2(2,3) this(1) b(1) this(2), of "edits + 1"] g2 b(2) show ?thesis by auto
  qed
qed simp

lemma pass_run:
  assumes ok: "graph_ok g" "fine g" and budget: "int (length (g_nodes g)) < budget"
    and room: "int (length (g_values g)) + int (length (g_nodes g)) < kTombstone"
  shows "\<exists>pr b g'. rewrite_pass rule budget g = Some (Inr (pr, b, g')) \<and> graph_ok g' \<and> fine g'
    \<and> g_effects g' = g_effects g \<and> length (g_nodes g') = length (g_nodes g) \<and> interpretGraph lm g' ins = interpretGraph lm g ins"
proof -
  have n: "length (topoOrder g) \<le> length (g_nodes g)" by (simp add: topoOrder_def)
  have "\<forall>i \<in> set (topoOrder g). i < length (g_nodes g)" using topo_live(2) [OF ok(1)] by blast
  from rewrite_nodes_run [OF ok this, of budget 0 ins] n budget room obtain e b g' where
    "rewrite_nodes rule (topoOrder g) 0 budget g = Some (Inr (e, b, g'))" "graph_ok g'" "fine g'" "g_effects g' = g_effects g"
    "length (g_nodes g') = length (g_nodes g)" "interpretGraph lm g' ins = interpretGraph lm g ins" by auto
  then show ?thesis by (simp add: rewrite_pass_def)
qed

end

end
