(* ===== verification/Identity_Elim.thy ===== *)
theory Identity_Elim
  imports Rewrite_Loop Cse
begin

text \<open>
  \<open>passes/math/math.identity_elim.cpp\<close>: \<open>x + 0\<close>, \<open>x * 1\<close>, integer \<open>x * 0\<close> and double transposition. On
  graphs of floating-point scalars the rules are exact when negative zeros are to be preserved:
  adding the negative zero and multiplying by one change no number, infinities and NaNs included.
\<close>

section \<open>The rules\<close>

definition zero_const :: "f64 option \<Rightarrow> bool" where
  "zero_const c \<longleftrightarrow> (case c of None \<Rightarrow> False | Some z \<Rightarrow> f64_equal z 0)"

text \<open>Is the zero \<open>c\<close> a neutral element of addition under the profile?\<close>

definition drops_zero :: "bool \<Rightarrow> f64 option \<Rightarrow> bool" where
  "drops_zero preserveNegZero c \<longleftrightarrow> (case c of None \<Rightarrow> False | Some z \<Rightarrow> f64_signbit z \<or> \<not> preserveNegZero)"

definition add_identity :: "bool \<Rightarrow> math_graph \<Rightarrow> nat \<Rightarrow> nat \<Rightarrow> nat option result" where
  "add_identity preserveNegZero g x y =
     mlk_try (isIntConst g x) (\<lambda>i. if i = Some 0 then Inr (Some y) else
     mlk_try (isIntConst g y) (\<lambda>j. if j = Some 0 then Inr (Some x) else
     mlk_try (isFpConst g x) (\<lambda>c. if zero_const c then Inr (if drops_zero preserveNegZero c then Some y else None) else
     mlk_try (isFpConst g y) (\<lambda>d. Inr (if zero_const d \<and> drops_zero preserveNegZero d then Some x else None)))))"

definition one_const :: "f64 option \<Rightarrow> bool" where
  "one_const c \<longleftrightarrow> (case c of None \<Rightarrow> False | Some z \<Rightarrow> f64_equal z f64_one)"

definition mul_identity :: "math_graph \<Rightarrow> nat \<Rightarrow> nat \<Rightarrow> nat option result" where
  "mul_identity g x y =
     mlk_try (isFpConst g x) (\<lambda>c. if one_const c then Inr (Some y) else
     mlk_try (isFpConst g y) (\<lambda>d. if one_const d then Inr (Some x) else
     mlk_try (isIntConst g x) (\<lambda>i. if i = Some 1 then Inr (Some y) else
     mlk_try (isIntConst g y) (\<lambda>j. if j = Some 1 then Inr (Some x) else
     mlk_try (if i = Some 0 then isIntDtype g y else Inr False) (\<lambda>zx. if zx then Inr (Some x) else
     mlk_try (if j = Some 0 then isIntDtype g x else Inr False) (\<lambda>zy. Inr (if zy then Some y else None)))))))"

definition transpose_identity :: "math_graph \<Rightarrow> gnode \<Rightarrow> nat option result" where
  "transpose_identity g n =
     mlk_try (vec_at (n_inputs n) 0) (\<lambda>x. mlk_try (vec_at (g_values g) x) (\<lambda>val.
       if v_kind val \<noteq> NodeResult then Inr None
       else case v_producer val of
         None \<Rightarrow> Inl UndefinedBehaviour
       | Some p \<Rightarrow> mlk_try (vec_at (g_nodes g) p) (\<lambda>m.
           if n_op m = Op_Transpose \<and> \<not> node_dead m then mlk_try (vec_at (n_inputs m) 0) (\<lambda>v. Inr (Some v)) else Inr None)))"

definition identity_rule :: "bool \<Rightarrow> math_graph \<Rightarrow> gnode \<Rightarrow> rule_answer" where
  "identity_rule preserveNegZero g n = mlk_try
     (case (n_op n, n_inputs n) of
        (Op_Add, [x, y]) \<Rightarrow> add_identity preserveNegZero g x y
      | (Op_Mul, [x, y]) \<Rightarrow> mul_identity g x y
      | (Op_Transpose, _) \<Rightarrow> transpose_identity g n
      | _ \<Rightarrow> Inr None)
     (\<lambda>r. Inr (map_option (\<lambda>v. (v, True, g)) r))"

definition identity_elim :: "bool \<Rightarrow> int \<Rightarrow> math_graph \<Rightarrow> (pass_result \<times> int \<times> math_graph) result option" where
  "identity_elim preserveNegZero = rewrite_pass (identity_rule preserveNegZero)"

section \<open>The rules are exact\<close>

text \<open>Graphs of floating-point scalars.\<close>

definition scalar_graph :: "math_graph \<Rightarrow> bool" where
  "scalar_graph g \<longleftrightarrow> (\<forall>v < length (g_values g). v_kind (g_values g ! v) = Constant \<longrightarrow> \<not> cp_isInt (v_constant (g_values g ! v)))
     \<and> (\<forall>i < length (g_nodes g). n_op (g_nodes g ! i) \<noteq> Op_Transpose)"

lemma scalar_kept:
  assumes "scalar_graph g" and "rewired g i r v g'"
  shows "scalar_graph g'"
  using assms(1) rewiredD [OF assms(2)] by (simp add: scalar_graph_def)

lemma probes:
  assumes "scalar_graph g" and "v < length (g_values g)"
  shows "isIntConst g v = Inr None" and "isFpConst g v = Inr (fp_constant (g_values g ! v))"
  using assms by (auto simp: isIntConst_def isFpConst_def vec_at_def scalar_graph_def int_constant_def)

lemma constant_number:
  assumes "graph_ok g" and "v < length (g_values g)" and "fp_constant (g_values g ! v) = Some c"
  shows "meaning lm g ins v = f64_canon c"
  using meaning_constant [OF assms(1,2)] assms(3) by (auto simp: fp_constant_def constant_double_def split: if_splits)

lemma equal_zero: "f64_equal z 0 \<Longrightarrow> f64_zero z"
  by (auto simp: f64_equal_def f64_key_def f64_zero_def f64_mag_def split: if_splits)

lemma equal_one: "f64_equal z f64_one \<Longrightarrow> z = f64_one"
proof -
  assume e: "f64_equal z f64_one"
  have "\<not> f64_equal 0x8000000000000000 f64_one" and "f64_one \<noteq> (0x8000000000000000 :: f64)" by code_simp+
  with e f64_equal_same [OF e] show ?thesis by auto
qed

lemma zero_canon: "f64_zero z \<Longrightarrow> f64_canon z = z"
  by (auto simp: f64_zero_cases f64_canon_def f64_nan_def f64_exp_def f64_mag_def)

lemma add_negative_zero:
  assumes "zero_const c" and "drops_zero True c"
  shows "\<exists>z. c = Some z \<and> f64_add x (f64_canon z) = f64_canon x \<and> f64_add (f64_canon z) x = f64_canon x"
  using assms f64_add_zero [of "the c" x] equal_zero [of "the c"] zero_canon [of "the c"]
  by (auto simp: zero_const_def drops_zero_def f64_signbit_def split: option.splits)

lemma mul_one_const:
  assumes "one_const c"
  shows "c = Some f64_one" and "f64_canon f64_one = f64_one"
  using assms equal_one by (auto simp: one_const_def split: option.splits) code_simp

text \<open>Each rule names an operand that has the number of the result.\<close>

lemma binary_value:
  assumes "n_inputs n = [x, y]" and "n_op n \<in> {Op_Add, Op_Mul}"
  shows "node_value lm n F = f64_canon (if n_op n = Op_Add then f64_add (F x) (F y) else f64_mul (F x) (F y))"
proof -
  from assms(2) consider "n_op n = Op_Add" | "n_op n = Op_Mul" by blast
  then show ?thesis by cases (simp_all add: node_value_def node_args_def node_out_def evalScalar_def assms(1))
qed

lemma identity_answer:
  assumes ok: "graph_ok g" and fine: "scalar_graph g" and i: "i < length (g_nodes g)" "\<not> node_dead (g_nodes g ! i)"
  shows "identity_rule True g (g_nodes g ! i) = Inr None
    \<or> (\<exists>v c g'. identity_rule True g (g_nodes g ! i) = Inr (Some (v, c, g')) \<and> good_answer lm scalar_graph g i v g')"
proof -
  let ?n = "g_nodes g ! i"
  have notT: "n_op ?n \<noteq> Op_Transpose" using fine i by (simp add: scalar_graph_def)
  have use: "good_answer lm scalar_graph g i v g"
    if "v \<in> set (n_inputs ?n)" "\<And>ins. node_value lm ?n (meaning lm g ins) = meaning lm g ins v" for v
    using that operand_usable [OF ok i that(1)] meaning_result [OF ok i] fine by (simp add: good_answer_def constant_added_def)
  show ?thesis
  proof (cases "n_op ?n \<in> {Op_Add, Op_Mul} \<and> length (n_inputs ?n) = 2")
    case False
    then have "identity_rule True g ?n = Inr None" using notT
      by (cases "n_op ?n") (auto simp: identity_rule_def split: list.splits)
    then show ?thesis ..
  next
    case True
    then obtain x y where xy: "n_inputs ?n = [x, y]" by (auto simp: length_Suc_conv numeral_2_eq_2)
    have l: "x < length (g_values g)" "y < length (g_values g)" using operand_usable [OF ok i] xy by (auto simp: usable_def)
    note pr = probes [OF fine l(1)] probes [OF fine l(2)]
    let ?x = "fp_constant (g_values g ! x)" and ?y = "fp_constant (g_values g ! y)"
    note num = constant_number [OF ok l(1)] constant_number [OF ok l(2)] and val = binary_value [OF xy, of lm "meaning lm g _"]
    show ?thesis
    proof (cases "n_op ?n = Op_Add")
      case add: True
      have run: "identity_rule True g ?n = Inr (map_option (\<lambda>v. (v, True, g))
          (if zero_const ?x then if drops_zero True ?x then Some y else None else if zero_const ?y \<and> drops_zero True ?y then Some x else None))"
        by (simp add: identity_rule_def add xy add_identity_def pr)
      have "node_value lm ?n (meaning lm g ins) = meaning lm g ins y" if "zero_const ?x" "drops_zero True ?x" for ins
        using add_negative_zero [OF that, of "meaning lm g ins y"] num(1) [of _ lm ins] binary_value [OF xy, of lm] add
        by (auto simp: meaning_canon)
      moreover have "node_value lm ?n (meaning lm g ins) = meaning lm g ins x" if "zero_const ?y" "drops_zero True ?y" for ins
        using add_negative_zero [OF that, of "meaning lm g ins x"] num(2) [of _ lm ins] binary_value [OF xy, of lm] add
        by (auto simp: meaning_canon)
      ultimately show ?thesis unfolding run using use [of x] use [of y] xy by auto
    next
      case mul: False
      have run: "identity_rule True g ?n = Inr (map_option (\<lambda>v. (v, True, g))
          (if one_const ?x then Some y else if one_const ?y then Some x else None))"
        using True mul by (simp add: identity_rule_def xy mul_identity_def pr)
      have "node_value lm ?n (meaning lm g ins) = meaning lm g ins y" if "one_const ?x" for ins
        using mul_one_const [OF that] num(1) [of f64_one lm ins] binary_value [OF xy, of lm] True mul by (simp add: f64_mul_one meaning_canon)
      moreover have "node_value lm ?n (meaning lm g ins) = meaning lm g ins x" if "one_const ?y" for ins
        using mul_one_const [OF that] num(2) [of f64_one lm ins] binary_value [OF xy, of lm] True mul by (simp add: f64_mul_one meaning_canon)
      ultimately show ?thesis unfolding run using use [of x] use [of y] xy by auto
    qed
  qed
qed

interpretation identity: rewrite_rule lm scalar_graph "identity_rule True" for lm
  using identity_answer scalar_kept by unfold_locales blast+

end
