(* ===== verification/Constant_Fold.thy ===== *)
theory Constant_Fold
  imports Identity_Elim
begin

text \<open>
  \<open>passes/math/math.constant_fold.cpp\<close>: a node whose operands are all constants is replaced by the
  constant that the compiler's own arithmetic gives. Where the constants are floating-point and the
  binary operations have at most two operands this is the arithmetic of the interpreter.
\<close>

section \<open>The rule\<close>

text \<open>The loops over the operands stop at the first one that fails the test.\<close>

fun all_const :: "math_graph \<Rightarrow> nat list \<Rightarrow> bool result" where
  "all_const g [] = Inr True"
| "all_const g (v # vs) = mlk_try (isConst g v (0, 0)) (\<lambda>(b, _). if b then all_const g vs else Inr False)"

fun all_int :: "math_graph \<Rightarrow> nat list \<Rightarrow> bool result" where
  "all_int g [] = Inr True"
| "all_int g (v # vs) = mlk_try (vec_at (g_values g) v) (\<lambda>val. if cp_isInt (v_constant val) then all_int g vs else Inr False)"

definition fold_int :: "math_op \<Rightarrow> int \<Rightarrow> int \<Rightarrow> int result" where
  "fold_int p a b = (case p of Op_Add \<Rightarrow> plain64 (a + b) | Op_Sub \<Rightarrow> plain64 (a - b) | Op_Mul \<Rightarrow> plain64 (a * b) | _ \<Rightarrow> Inr 0)"

text \<open>The folded number, if the operation is defined at the operands.\<close>

definition fold_scalar :: "libm \<Rightarrow> math_op \<Rightarrow> f64 \<Rightarrow> f64 \<Rightarrow> f64 option" where
  "fold_scalar lm p a b = (case p of
      Op_Add \<Rightarrow> Some (f64_add a b)
    | Op_Sub \<Rightarrow> Some (f64_sub a b)
    | Op_Mul \<Rightarrow> Some (f64_mul a b)
    | Op_Div \<Rightarrow> if f64_equal b 0 then None else Some (f64_div a b)
    | Op_Neg \<Rightarrow> Some (f64_neg a)
    | Op_Exp \<Rightarrow> Some (lm_exp lm a)
    | Op_Log \<Rightarrow> if f64_le a 0 then None else Some (lm_log lm a)
    | Op_Sin \<Rightarrow> Some (lm_sin lm a)
    | Op_Cos \<Rightarrow> Some (lm_cos lm a)
    | Op_Tan \<Rightarrow> Some (lm_tan lm a)
    | Op_Tanh \<Rightarrow> Some (lm_tanh lm a)
    | Op_Sqrt \<Rightarrow> if f64_less a 0 then None else Some (lm_sqrt lm a)
    | Op_Rsqrt \<Rightarrow> if f64_le a 0 then None else Some (f64_div f64_one (lm_sqrt lm a))
    | Op_Erf \<Rightarrow> Some (lm_erf lm a)
    | _ \<Rightarrow> None)"

text \<open>No new NaN or infinity is created, and NaNs among the operands are preserved.\<close>

definition keeps_specials :: "bool \<Rightarrow> bool \<Rightarrow> f64 \<Rightarrow> f64 \<Rightarrow> f64 \<Rightarrow> bool" where
  "keeps_specials preserveInf two a b out \<longleftrightarrow> \<not> f64_nan a \<and> \<not> (two \<and> f64_nan b) \<and> \<not> f64_nan out \<and> \<not> f64_inf out \<and> \<not> (preserveInf \<and> f64_inf a)"

definition result_type :: "math_graph \<Rightarrow> gnode \<Rightarrow> math_type result" where
  "result_type g n = mlk_try (vec_at (n_results n) 0) (\<lambda>r. mlk_try (vec_at (g_values g) r) (\<lambda>val. Inr (v_type val)))"

definition fold_rule :: "libm \<Rightarrow> bool \<Rightarrow> math_graph \<Rightarrow> gnode \<Rightarrow> rule_answer" where
  "fold_rule lm preserveInf g n =
     (if n_op n = Op_Lambda \<or> n_op n = Op_Apply then Inr None
      else mlk_try (if n_inputs n = [] then Inr False else all_const g (n_inputs n)) (\<lambda>allConst.
        if \<not> allConst then Inr None
        else mlk_try (isConst g (n_inputs n ! 0) (0, 0)) (\<lambda>(_, a, ai).
        mlk_try (if length (n_inputs n) = 2 then isConst g (n_inputs n ! 1) (0, 0) else Inr (False, 0, 0)) (\<lambda>(_, b2, bi).
        mlk_try (all_int g (n_inputs n)) (\<lambda>allInt.
        if allInt \<and> length (n_inputs n) = 2 \<and> n_op n \<in> {Op_Add, Op_Sub, Op_Mul} then
          mlk_try (fold_int (n_op n) ai bi) (\<lambda>out. mlk_try (result_type g n) (\<lambda>t.
            let (v, g') = addIntConstant out t g in Inr (Some (v, False, g'))))
        else case fold_scalar lm (n_op n) a b2 of
            None \<Rightarrow> Inr None
          | Some out \<Rightarrow>
              if \<not> keeps_specials preserveInf (length (n_inputs n) = 2) a b2 out then Inr None
              else mlk_try (result_type g n) (\<lambda>t. let (v, g') = addConstant out t g in Inr (Some (v, True, g'))))))))"

definition constant_fold :: "libm \<Rightarrow> bool \<Rightarrow> int \<Rightarrow> math_graph \<Rightarrow> (pass_result \<times> int \<times> math_graph) result option" where
  "constant_fold lm preserveInf = rewrite_pass (fold_rule lm preserveInf)"

section \<open>Folding is what the interpreter computes\<close>

text \<open>Floating-point constants, and at most two operands where the second one matters.\<close>

definition two_operand_ops :: "math_op set" where "two_operand_ops = {Op_Add, Op_Sub, Op_Mul, Op_Div}"

definition foldable_graph :: "math_graph \<Rightarrow> bool" where
  "foldable_graph g \<longleftrightarrow> (\<forall>v < length (g_values g). v_kind (g_values g ! v) = Constant \<longrightarrow> \<not> cp_isInt (v_constant (g_values g ! v)))
     \<and> (\<forall>i < length (g_nodes g). \<not> node_dead (g_nodes g ! i) \<longrightarrow> n_op (g_nodes g ! i) \<in> two_operand_ops \<longrightarrow> length (n_inputs (g_nodes g ! i)) \<le> 2)"

lemma foldable_kept: "foldable_graph g \<Longrightarrow> rewired g i r v g' \<Longrightarrow> foldable_graph g'"
  using rewiredD [of g i r v g'] by (simp add: foldable_graph_def)

lemma foldable_constant:
  assumes "foldable_graph g" and "g' = snd (addConstant d t g)"
  shows "foldable_graph g'"
  using assms by (auto simp: foldable_graph_def addConstant_def allocateValue_def constant_value_def nth_append)

lemma fold_scalar_evaluates:
  assumes "fold_scalar lm p a b = Some out" and "p \<in> two_operand_ops \<Longrightarrow> b' = b"
  shows "node_out lm p a b' = Some (f64_canon out)"
  using assms unfolding two_operand_ops_def
  by (cases p; simp add: fold_scalar_def node_out_def evalScalar_def split: if_splits)

text \<open>What the tests find out about floating-point constants.\<close>

lemma const_probe:
  assumes "foldable_graph g" and "v < length (g_values g)" and "v_kind (g_values g ! v) = Constant"
  shows "isConst g v (0, 0) = Inr (True, cp_f64 (v_constant (g_values g ! v)), 0)"
    and "\<not> cp_isInt (v_constant (g_values g ! v))"
    and "graph_ok g \<Longrightarrow> meaning lm g ins v = f64_canon (cp_f64 (v_constant (g_values g ! v)))"
proof -
  show n: "\<not> cp_isInt (v_constant (g_values g ! v))" using assms by (simp add: foldable_graph_def)
  with assms show "isConst g v (0, 0) = Inr (True, cp_f64 (v_constant (g_values g ! v)), 0)"
    by (simp add: isConst_def vec_at_def Let_def)
  show "meaning lm g ins v = f64_canon (cp_f64 (v_constant (g_values g ! v)))" if "graph_ok g"
    using meaning_constant [OF that assms(2,3)] n by (simp add: constant_double_def)
qed

lemma all_const_run:
  "\<forall>v \<in> set vs. v < length (g_values g) \<Longrightarrow> all_const g vs = Inr (\<forall>v \<in> set vs. v_kind (g_values g ! v) = Constant)"
  by (induction vs) (auto simp: isConst_def vec_at_def Let_def)

lemma all_int_run:
  "\<forall>v \<in> set vs. v < length (g_values g) \<Longrightarrow> all_int g vs = Inr (\<forall>v \<in> set vs. cp_isInt (v_constant (g_values g ! v)))"
  by (induction vs) (auto simp: vec_at_def)

lemma fold_constant_answer:
  assumes ok: "graph_ok g" and fine: "foldable_graph g" and i: "i < length (g_nodes g)" "\<not> node_dead (g_nodes g ! i)"
    and out: "\<And>ins. node_value lm (g_nodes g ! i) (meaning lm g ins) = f64_canon out"
  shows "good_answer lm foldable_graph g i (fst (addConstant out t g)) (snd (addConstant out t g))"
proof -
  let ?g = "snd (addConstant out t g)" and ?v = "fst (addConstant out t g)"
  let ?w = "constant_value \<lparr>cp_isInt = False, cp_f64 = out, cp_i64 = 0\<rparr> t"
  have w: "v_kind ?w = Constant" "v_constant ?w = \<lparr>cp_isInt = False, cp_f64 = out, cp_i64 = 0\<rparr>" by (simp_all add: constant_value_def)
  have c: "constant_added g ?g" using w(1) by (auto simp: constant_added_def addConstant_def)
  moreover have "foldable_graph ?g" by (rule foldable_constant [OF fine refl])
  moreover have "usable ?g i ?v \<and> (\<forall>r ins. n_results (g_nodes g ! i) = [r] \<longrightarrow> meaning lm ?g ins ?v = meaning lm ?g ins r)"
    if room: "int (length (g_values g)) + 1 < kTombstone"
  proof (intro conjI allI impI)
    have ok': "graph_ok ?g" by (rule constant_added_ok [OF c ok room])
    show "usable ?g i ?v" unfolding addConstant_def by (rule allocate_ok(2) [OF ok room]) (simp add: w)
    fix r ins assume r: "n_results (g_nodes g ! i) = [r]"
    have "meaning lm ?g ins r = meaning lm g ins r"
      using constant_added_meaning [OF c ok room] result_usable [OF ok i, of r] r by simp
    also have "\<dots> = f64_canon out" using meaning_result [OF ok i r] out by simp
    also have "\<dots> = meaning lm ?g ins ?v"
      using meaning_constant [OF ok', of ?v lm ins] w by (simp add: addConstant_def allocateValue_def constant_double_def)
    finally show "meaning lm ?g ins ?v = meaning lm ?g ins r" by simp
  qed
  ultimately show ?thesis by (simp add: good_answer_def)
qed

lemma fold_answer:
  assumes ok: "graph_ok g" and fine: "foldable_graph g" and i: "i < length (g_nodes g)" "\<not> node_dead (g_nodes g ! i)"
  shows "fold_rule lm keepInf g (g_nodes g ! i) = Inr None
    \<or> (\<exists>v c g'. fold_rule lm keepInf g (g_nodes g ! i) = Inr (Some (v, c, g')) \<and> good_answer lm foldable_graph g i v g')"
proof -
  let ?n = "g_nodes g ! i" and ?c = "\<lambda>v. cp_f64 (v_constant (g_values g ! v))"
  have l: "\<forall>v \<in> set (n_inputs ?n). v < length (g_values g)" using operand_usable [OF ok i] by (auto simp: usable_def)
  show ?thesis
  proof (cases "n_op ?n = Op_Lambda \<or> n_op ?n = Op_Apply \<or> n_inputs ?n = [] \<or> (\<exists>v \<in> set (n_inputs ?n). v_kind (g_values g ! v) \<noteq> Constant)")
    case True
    then show ?thesis using all_const_run [OF l] by (auto simp: fold_rule_def)
  next
    case False
    then obtain x vs where xs: "n_inputs ?n = x # vs" by (cases "n_inputs ?n") auto
    have const: "v < length (g_values g) \<and> v_kind (g_values g ! v) = Constant" if "v \<in> set (n_inputs ?n)" for v using False l that by blast
    note probe = const_probe [OF fine]
    define b where "b = (if length (n_inputs ?n) = 2 then ?c (vs ! 0) else 0)"
    have two: "vs = [vs ! 0]" if "length (n_inputs ?n) = 2" using that xs by (cases vs) auto
    have second: "(if length (n_inputs ?n) = 2 then isConst g (n_inputs ?n ! 1) (0, 0) else Inr (False, 0, 0)) = Inr (length (n_inputs ?n) = 2, b, 0)"
      using probe(1) [of "vs ! 0"] const [of "vs ! 0"] two xs by (auto simp: b_def)
    have "\<not> (\<forall>v \<in> set (n_inputs ?n). cp_isInt (v_constant (g_values g ! v)))" using probe(2) [of x] const [of x] xs by auto
    then have ints: "all_int g (n_inputs ?n) = Inr False" using all_int_run [OF l] by simp
    obtain r where r: "r < length (g_values g)" "n_results ?n = [r]" using node_result [OF ok i(1)] by metis
    have ty: "result_type g ?n = Inr (v_type (g_values g ! r))" using r by (simp add: result_type_def vec_at_def)
    have ops: "(n_op ?n = Op_Lambda \<or> n_op ?n = Op_Apply) = False" using False by simp
    have all: "(if n_inputs ?n = [] then Inr False else all_const g (n_inputs ?n)) = Inr True" using False all_const_run [OF l] by auto
    have first: "isConst g (n_inputs ?n ! 0) (0, 0) = Inr (True, ?c x, 0)" using probe(1) [of x] const [of x] xs by simp
    have run: "fold_rule lm keepInf g ?n = (case fold_scalar lm (n_op ?n) (?c x) b of None \<Rightarrow> Inr None
        | Some out \<Rightarrow> if \<not> keeps_specials keepInf (length (n_inputs ?n) = 2) (?c x) b out then Inr None
            else let (v, g') = addConstant out (v_type (g_values g ! r)) g in Inr (Some (v, True, g')))"
      unfolding fold_rule_def ops first second ints ty all by (simp split: option.split)
    show ?thesis
    proof (cases "fold_scalar lm (n_op ?n) (?c x) b")
      case None
      then show ?thesis by (simp add: run)
    next
      case (Some out)
      show ?thesis
      proof (cases "keeps_specials keepInf (length (n_inputs ?n) = 2) (?c x) b out")
        case True
        have a: "f64_canon (?c x) = ?c x" using True by (simp add: keeps_specials_def f64_canon_def)
        have b: "node_args ?n (meaning lm g ins) 1 = b" if "n_op ?n \<in> two_operand_ops" for ins
        proof (cases "length (n_inputs ?n) = 2")
          case two_ops: True
          then have "f64_canon b = b" using True by (simp add: keeps_specials_def f64_canon_def)
          then show ?thesis using probe(3) [of "vs ! 0"] const [of "vs ! 0"] two two_ops xs ok by (auto simp: node_args_def b_def)
        next
          case False
          with that fine i xs have "length (n_inputs ?n) = 1" by (auto simp: foldable_graph_def le_Suc_eq numeral_2_eq_2)
          then show ?thesis by (simp add: node_args_def b_def)
        qed
        have "node_args ?n (meaning lm g ins) 0 = ?c x" for ins
          using probe(3) [of x] const [of x] xs ok a by (simp add: node_args_def)
        then have "node_value lm ?n (meaning lm g ins) = f64_canon out" for ins
          using fold_scalar_evaluates [OF Some b] by (simp add: node_value_def)
        from fold_constant_answer [OF ok fine i this] show ?thesis
          using True Some by (auto simp: run split: prod.split) (metis fst_conv snd_conv)
      qed (simp add: run Some)
    qed
  qed
qed

interpretation folding: rewrite_rule lm foldable_graph "fold_rule lm keepInf" for lm keepInf
  using fold_answer foldable_kept by unfold_locales blast+

end
