(* ===== verification/Algebraic_Simplify.thy ===== *)
theory Algebraic_Simplify
  imports Constant_Fold
begin

text \<open>
  \<open>passes/math/math.algebraic_simplify.cpp\<close>: \<open>x - 0\<close>, \<open>x / 1\<close>, \<open>x / -1\<close> and double negation. All four are
  exact on the patterns of IEEE numbers. Division by minus one appends a negation to the node
  vector, behind the node it replaces; the theorem about the pass is for graphs without the
  constant minus one, where every replacement precedes the node.
\<close>

section \<open>The rules\<close>

definition f64_minus_one :: f64 where "f64_minus_one = 0xbff0000000000000"

definition constant_is :: "f64 option \<Rightarrow> f64 \<Rightarrow> bool" where
  "constant_is c k \<longleftrightarrow> (case c of None \<Rightarrow> False | Some z \<Rightarrow> f64_equal z k)"

definition result_is_int :: "math_graph \<Rightarrow> gnode \<Rightarrow> bool result" where
  "result_is_int g n = mlk_try (vec_at (n_results n) 0) (isIntDtype g)"

definition sub_zero :: "math_graph \<Rightarrow> nat \<Rightarrow> nat \<Rightarrow> rule_answer" where
  "sub_zero g x y = mlk_try (isFpConst g y) (\<lambda>c.
     Inr (case c of None \<Rightarrow> None | Some z \<Rightarrow> if f64_equal z 0 \<and> \<not> f64_signbit z then Some (x, True, g) else None))"

definition div_unit :: "math_graph \<Rightarrow> nat \<Rightarrow> nat \<Rightarrow> rule_answer" where
  "div_unit g x y = mlk_try (isFpConst g y) (\<lambda>c.
     if constant_is c f64_one then Inr (Some (x, True, g))
     else if constant_is c f64_minus_one then mlk_try (isIntDtype g x) (\<lambda>int.
       if int then Inr None else mlk_try (addNode Op_Neg [x] [] g) (\<lambda>(v, g'). Inr (Some (v, True, g'))))
     else Inr None)"

definition double_neg :: "math_graph \<Rightarrow> nat \<Rightarrow> rule_answer" where
  "double_neg g x = mlk_try (vec_at (g_values g) x) (\<lambda>val.
     if v_kind val \<noteq> NodeResult then Inr None
     else case v_producer val of
       None \<Rightarrow> Inl UndefinedBehaviour
     | Some p \<Rightarrow> mlk_try (vec_at (g_nodes g) p) (\<lambda>m.
         if n_op m = Op_Neg \<and> \<not> node_dead m then mlk_try (vec_at (n_inputs m) 0) (\<lambda>v. Inr (Some (v, True, g))) else Inr None))"

definition simplify_rule :: "math_graph \<Rightarrow> gnode \<Rightarrow> rule_answer" where
  "simplify_rule g n = (case (n_op n, n_inputs n) of
      (Op_Sub, [x, y]) \<Rightarrow> mlk_try (result_is_int g n) (\<lambda>int. if int then Inr None else sub_zero g x y)
    | (Op_Div, [x, y]) \<Rightarrow> mlk_try (result_is_int g n) (\<lambda>int. if int then Inr None else div_unit g x y)
    | (Op_Neg, [x]) \<Rightarrow> double_neg g x
    | _ \<Rightarrow> Inr None)"

definition algebraic_simplify :: "int \<Rightarrow> math_graph \<Rightarrow> (pass_result \<times> int \<times> math_graph) result option" where
  "algebraic_simplify = rewrite_pass simplify_rule"

section \<open>The rules are exact\<close>

lemma f64_pack_sign:
  assumes "0 \<le> b" "b < 2 ^ 63"
  shows "f64_neg_sign (f64_pack s b) = s"
proof -
  have "uint (f64_pack s b) = b + (if s then 2 ^ 63 else 0)"
    unfolding f64_pack_def using assms by (subst uint_word_of_int) (auto intro!: mod_pos_pos_trivial)
  with assms show ?thesis by (simp add: f64_neg_sign_def)
qed

lemma f64_mag_range: "0 \<le> f64_mag v" "f64_mag v < 2 ^ 63"
  by (simp_all add: f64_mag_def)

lemma f64_neg_neg: "f64_neg (f64_neg x) = f64_canon x"
proof (cases "f64_nan x")
  case True
  have "f64_nan NaN" by code_simp
  with True show ?thesis by (simp add: f64_neg_def f64_canon_def)
next
  case False
  let ?n = "f64_pack (\<not> f64_neg_sign x) (f64_mag x)"
  have "f64_mag ?n = f64_mag x" "f64_neg_sign ?n = (\<not> f64_neg_sign x)" by (simp_all add: f64_pack_mag [OF f64_mag_range] f64_pack_sign [OF f64_mag_range])
  moreover from this False have "\<not> f64_nan ?n" by (simp add: f64_nan_def f64_exp_def f64_frac_def)
  ultimately show ?thesis using False by (simp add: f64_neg_def f64_canon_def)
qed

lemma f64_neg_canon: "f64_neg (f64_canon x) = f64_neg x" "f64_canon (f64_neg x) = f64_neg x"
proof -
  have n: "f64_nan NaN" by code_simp
  then show "f64_neg (f64_canon x) = f64_neg x" by (simp add: f64_neg_def f64_canon_def)
  show "f64_canon (f64_neg x) = f64_neg x"
  proof (cases "f64_nan x")
    case False
    have "f64_mag (f64_neg x) = f64_mag x" using False by (simp add: f64_neg_def f64_pack_mag [OF f64_mag_range])
    then have "\<not> f64_nan (f64_neg x)" using False by (simp add: f64_nan_def f64_exp_def f64_frac_def)
    then show ?thesis by (simp add: f64_canon_def)
  qed (simp add: f64_neg_def f64_canon_def)
qed

lemma f64_sub_zero: "f64_sub x 0 = f64_canon x"
proof -
  have "f64_neg 0 = 0x8000000000000000" "f64_zero 0x8000000000000000" "f64_neg_sign 0x8000000000000000" by code_simp+
  then show ?thesis using f64_add_zero(1) [of "0x8000000000000000" x] by (simp add: f64_sub_def)
qed

lemma f64_div_one: "f64_div x f64_one = f64_canon x"
proof -
  have one: "\<not> f64_nan f64_one" "\<not> f64_inf f64_one" "\<not> f64_zero f64_one" "\<not> f64_neg_sign f64_one" "f64_rat f64_one = 1"
    by (simp_all add: f64_literals)
  consider (fin) "f64_exp x < 2047" | (inf) "f64_inf x" | (nan) "f64_nan x" using f64_classes by blast
  then show ?thesis
  proof cases
    case fin
    then show ?thesis using not_special [OF fin] f64_round_self [OF fin, of "f64_neg_sign x"] one
      by (simp add: f64_div_def f64_canon_def)
  next
    case inf
    then have "f64_pack (f64_neg_sign x) (2047 * 2 ^ 52) = x" and "\<not> f64_nan x"
      using f64_pack_parts [of x] f64_parts(2) [of x] by (simp_all add: f64_inf_def f64_nan_def)
    with inf one show ?thesis by (simp add: f64_div_def f64_canon_def)
  next
    case nan
    then show ?thesis by (simp add: f64_div_def f64_canon_def)
  qed
qed

section \<open>Answers\<close>

definition no_minus_one :: "math_graph \<Rightarrow> bool" where
  "no_minus_one g \<longleftrightarrow> (\<forall>v < length (g_values g). \<not> constant_is (fp_constant (g_values g ! v)) f64_minus_one)"

lemma no_minus_one_kept:
  assumes "no_minus_one g" and "rewired g i r v g'"
  shows "no_minus_one g'"
proof -
  note d = rewiredD [OF assms(2)]
  have "fp_constant (g_values g' ! v) = fp_constant (g_values g ! v)" if "v < length (g_values g)" for v
    using d(4,5) [OF that] by (simp add: fp_constant_def)
  with assms(1) d(1) show ?thesis by (simp add: no_minus_one_def)
qed

lemma isFpConst_run: "v < length (g_values g) \<Longrightarrow> isFpConst g v = Inr (fp_constant (g_values g ! v))"
  by (simp add: isFpConst_def vec_at_def)

lemma result_is_int_run: "r < length (g_values g) \<Longrightarrow> n_results n = [r] \<Longrightarrow> \<exists>b. result_is_int g n = Inr b"
  by (simp add: result_is_int_def vec_at_def isIntDtype_def)

lemma sub_value: "n_inputs n = [x, y] \<Longrightarrow> n_op n = Op_Sub \<Longrightarrow> node_value lm n F = f64_canon (f64_sub (F x) (F y))"
  by (simp add: node_value_def node_args_def node_out_def evalScalar_def)

lemma div_value:
  "n_inputs n = [x, y] \<Longrightarrow> n_op n = Op_Div \<Longrightarrow> \<not> f64_equal (F y) 0 \<Longrightarrow> node_value lm n F = f64_canon (f64_div (F x) (F y))"
  by (simp add: node_value_def node_args_def node_out_def evalScalar_def)

lemma neg_value: "n_inputs n = x # xs \<Longrightarrow> n_op n = Op_Neg \<Longrightarrow> node_value lm n F = f64_neg (F x)"
  by (simp add: node_value_def node_args_def node_out_def evalScalar_def f64_neg_canon)

lemma simplify_answer:
  assumes ok: "graph_ok g" and fine: "no_minus_one g" and i: "i < length (g_nodes g)" "\<not> node_dead (g_nodes g ! i)"
    and arity: "\<forall>j < length (g_nodes g). \<not> node_dead (g_nodes g ! j) \<longrightarrow> n_op (g_nodes g ! j) = Op_Neg \<longrightarrow> n_inputs (g_nodes g ! j) \<noteq> []"
  shows "simplify_rule g (g_nodes g ! i) = Inr None
    \<or> (\<exists>v c g'. simplify_rule g (g_nodes g ! i) = Inr (Some (v, c, g')) \<and> g' = g \<and> usable g i v
        \<and> (\<forall>ins. node_value lm (g_nodes g ! i) (meaning lm g ins) = meaning lm g ins v))"
proof -
  let ?n = "g_nodes g ! i"
  obtain r where r: "r < length (g_values g)" "n_results ?n = [r]" using node_result [OF ok i(1)] by metis
  have use: "usable g i v" if "v \<in> set (n_inputs ?n)" for v using operand_usable [OF ok i that] .
  obtain int where int: "result_is_int g ?n = Inr int" using result_is_int_run [OF r] by blast
  consider (sub) x y where "n_op ?n = Op_Sub" "n_inputs ?n = [x, y]" | (div) x y where "n_op ?n = Op_Div" "n_inputs ?n = [x, y]"
    | (neg) x where "n_op ?n = Op_Neg" "n_inputs ?n = [x]" | (other) "simplify_rule g ?n = Inr None"
    by (cases "n_op ?n"; cases "n_inputs ?n"; cases "tl (n_inputs ?n)"; cases "tl (tl (n_inputs ?n))") (auto simp: simplify_rule_def)
  then show ?thesis
  proof cases
    case sub
    then have l: "y < length (g_values g)" using use by (auto simp: usable_def)
    have run: "simplify_rule g ?n = (if int then Inr None else Inr (case fp_constant (g_values g ! y) of None \<Rightarrow> None
        | Some z \<Rightarrow> if f64_equal z 0 \<and> \<not> f64_signbit z then Some (x, True, g) else None))"
      using sub int by (simp add: simplify_rule_def sub_zero_def isFpConst_run [OF l])
    have "node_value lm ?n (meaning lm g ins) = meaning lm g ins x"
      if "fp_constant (g_values g ! y) = Some z" "f64_equal z 0" "\<not> f64_signbit z" for z ins
    proof -
      have "z = 0" using equal_zero [OF that(2)] that(3) by (auto simp: f64_zero_cases f64_signbit_def f64_neg_sign_def)
      then have "meaning lm g ins y = 0" using constant_number [OF ok l that(1)] by simp
      then show ?thesis using sub_value [OF sub(2,1), of lm "meaning lm g ins"] f64_sub_zero by (simp add: meaning_canon)
    qed
    then show ?thesis unfolding run using use [of x] sub(2) by (auto split: option.splits)
  next
    case div
    then have l: "y < length (g_values g)" using use by (auto simp: usable_def)
    have run: "simplify_rule g ?n = (if int then Inr None else Inr (if constant_is (fp_constant (g_values g ! y)) f64_one then Some (x, True, g) else None))"
      using div int fine l by (simp add: simplify_rule_def div_unit_def isFpConst_run [OF l] no_minus_one_def)
    have "node_value lm ?n (meaning lm g ins) = meaning lm g ins x" if "constant_is (fp_constant (g_values g ! y)) f64_one" for ins
    proof -
      have "fp_constant (g_values g ! y) = Some f64_one" using that equal_one by (auto simp: constant_is_def split: option.splits)
      moreover have "f64_canon f64_one = f64_one" "\<not> f64_equal f64_one 0" by code_simp+
      ultimately have "meaning lm g ins y = f64_one" "\<not> f64_equal (meaning lm g ins y) 0" using constant_number [OF ok l] by simp_all
      then show ?thesis using div_value [OF div(2,1), of "meaning lm g ins" lm] f64_div_one by (simp add: meaning_canon)
    qed
    then show ?thesis unfolding run using use [of x] div(2) by auto
  next
    case neg
    have u: "usable g i x" using use neg(2) by simp
    then have xl: "x < length (g_values g)" by (simp add: usable_def)
    show ?thesis
    proof (cases "v_kind (g_values g ! x) = NodeResult")
      case True
      with u obtain p where p: "p < i" "p < length (g_nodes g)" "v_producer (g_values g ! x) = Some p" "\<not> node_dead (g_nodes g ! p)"
        "n_results (g_nodes g ! p) = [x]" by (auto simp: usable_def)
      show ?thesis
      proof (cases "n_op (g_nodes g ! p) = Op_Neg")
        case inner: True
        with arity p obtain w ws where w: "n_inputs (g_nodes g ! p) = w # ws" by (cases "n_inputs (g_nodes g ! p)") auto
        have run: "simplify_rule g ?n = Inr (Some (w, True, g))"
          using neg xl True p inner w by (simp add: simplify_rule_def double_neg_def vec_at_def)
        have "usable g i w" using operand_usable [OF ok p(2,4), of w] usable_mono [of g p w i] p(1) w by simp
        moreover have "node_value lm ?n (meaning lm g ins) = meaning lm g ins w" for ins
        proof -
          have "meaning lm g ins x = f64_neg (meaning lm g ins w)"
            using meaning_result [OF ok p(2,4,5)] neg_value [OF w inner, of lm "meaning lm g ins"] by simp
          then show ?thesis using neg_value [OF neg(2,1), of lm "meaning lm g ins"] f64_neg_neg meaning_canon by simp
        qed
        ultimately show ?thesis using run by blast
      qed (use neg xl True p in \<open>simp add: simplify_rule_def double_neg_def vec_at_def\<close>)
    qed (use neg xl in \<open>simp add: simplify_rule_def double_neg_def vec_at_def\<close>)
  qed blast
qed

text \<open>What the rules need of a graph.\<close>

definition simplifiable :: "math_graph \<Rightarrow> bool" where
  "simplifiable g \<longleftrightarrow> no_minus_one g
     \<and> (\<forall>j < length (g_nodes g). \<not> node_dead (g_nodes g ! j) \<longrightarrow> n_op (g_nodes g ! j) = Op_Neg \<longrightarrow> n_inputs (g_nodes g ! j) \<noteq> [])"

lemma simplifiable_kept: "simplifiable g \<Longrightarrow> rewired g i r v g' \<Longrightarrow> simplifiable g'"
  using no_minus_one_kept [of g i r v g'] rewiredD [of g i r v g'] by (auto simp: simplifiable_def)

lemma simplify_good:
  assumes ok: "graph_ok g" and fine: "simplifiable g" and i: "i < length (g_nodes g)" "\<not> node_dead (g_nodes g ! i)"
  shows "simplify_rule g (g_nodes g ! i) = Inr None
    \<or> (\<exists>v c g'. simplify_rule g (g_nodes g ! i) = Inr (Some (v, c, g')) \<and> good_answer lm simplifiable g i v g')"
proof -
  have "good_answer lm simplifiable g i v g"
    if "usable g i v" "\<forall>ins. node_value lm (g_nodes g ! i) (meaning lm g ins) = meaning lm g ins v" for v
    using that meaning_result [OF ok i] fine by (simp add: good_answer_def constant_added_def)
  with simplify_answer [OF ok _ i, of lm] fine show ?thesis unfolding simplifiable_def by blast
qed

interpretation simplifying: rewrite_rule lm simplifiable simplify_rule for lm
  using simplify_good simplifiable_kept by unfold_locales blast+

end
