(* ===== verification/Fold_Properties.thy ===== *)
theory Fold_Properties
  imports Pass_Properties Constant_Fold Algebraic_Simplify
begin

text \<open>
  What the rewriting passes guarantee, and where folding differs from the interpreter.
\<close>

section \<open>Identities\<close>

text \<open>\<open>(x * 1) + (-0)\<close>.\<close>

definition neutral_sum :: math_graph where
  "neutral_sum = built [Make_placeholder 0 new_type, Make_constant f64_one new_type, Make_constant 0x8000000000000000 new_type,
     Make_node Op_Mul [0, 1] [], Make_node Op_Add [3, 2] [], Make_output 4]"

lemma neutral_sum_ok: "graph_ok neutral_sum"
  unfolding neutral_sum_def by (rule built_ok(1); code_simp)

text \<open>
  C27. With negative zeros preserved, identity elimination on graphs of floating-point scalars keeps the
  graph well-formed, the effect chain and the outputs of the interpreter bit for bit: for every
  input, NaNs, infinities and both zeros included.
\<close>
theorem identity_elim_correct:
  assumes "graph_ok g" and "scalar_graph g" and "int (length (g_nodes g)) < budget"
    and "int (length (g_values g)) + int (length (g_nodes g)) < kTombstone"
  shows "\<exists>pr b g'. identity_elim True budget g = Some (Inr (pr, b, g')) \<and> graph_ok g' \<and> g_effects g' = g_effects g
    \<and> interpretGraph lm g' ins = interpretGraph lm g ins"
  unfolding identity_elim_def using identity.pass_run [OF assms, of lm ins] by blast

lemma identity_elim_correct_witness:
  "\<exists>pr b g'. identity_elim True 10 neutral_sum = Some (Inr (pr, b, g')) \<and> graph_ok g'
     \<and> interpretGraph no_libm g' [0x8000000000000000] = interpretGraph no_libm neutral_sum [0x8000000000000000]"
proof -
  have "int (length (g_nodes neutral_sum)) < 10" "int (length (g_values neutral_sum)) + int (length (g_nodes neutral_sum)) < kTombstone"
    by code_simp+
  moreover have "list_all (\<lambda>v. \<not> (v_kind v = Constant \<and> cp_isInt (v_constant v))) (g_values neutral_sum)"
    "list_all (\<lambda>n. n_op n \<noteq> Op_Transpose) (g_nodes neutral_sum)" by code_simp+
  then have "scalar_graph neutral_sum" by (simp add: scalar_graph_def list_all_length)
  ultimately show ?thesis using identity_elim_correct [OF neutral_sum_ok, of 10 no_libm "[0x8000000000000000]"] by blast
qed

section \<open>Algebraic simplification\<close>

text \<open>\<open>(- (- x) - 0) / 1\<close>.\<close>

definition padded :: math_graph where
  "padded = built [Make_placeholder 0 new_type, Make_constant 0 new_type, Make_constant f64_one new_type, Make_node Op_Neg [0] [],
     Make_node Op_Neg [3] [], Make_node Op_Sub [4, 1] [], Make_node Op_Div [5, 2] [], Make_output 6]"

text \<open>
  C34. Algebraic simplification (\<open>x - 0\<close>, \<open>x / 1\<close>, \<open>- (- x)\<close>) keeps the graph well-formed, the effect
  chain and the outputs of the interpreter bit for bit, when no constant of the graph is minus one
  and negations have an operand.
\<close>
theorem algebraic_simplify_correct:
  assumes "graph_ok g" and "simplifiable g" and "int (length (g_nodes g)) < budget"
    and "int (length (g_values g)) + int (length (g_nodes g)) < kTombstone"
  shows "\<exists>pr b g'. algebraic_simplify budget g = Some (Inr (pr, b, g')) \<and> graph_ok g' \<and> g_effects g' = g_effects g
    \<and> interpretGraph lm g' ins = interpretGraph lm g ins"
  unfolding algebraic_simplify_def using simplifying.pass_run [OF assms, of lm ins] by blast

lemma algebraic_simplify_correct_witness:
  "\<exists>pr b g'. algebraic_simplify 10 padded = Some (Inr (pr, b, g')) \<and> graph_ok g'
     \<and> interpretGraph no_libm g' [0x8000000000000000] = interpretGraph no_libm padded [0x8000000000000000]"
proof -
  have ok: "graph_ok padded" unfolding padded_def by (rule built_ok(1); code_simp)
  have "let g = padded in int (length (g_nodes g)) < 10 \<and> int (length (g_values g)) + int (length (g_nodes g)) < kTombstone
     \<and> list_all (\<lambda>v. \<not> constant_is (fp_constant v) f64_minus_one) (g_values g) \<and> list_all (\<lambda>n. n_inputs n \<noteq> []) (g_nodes g)"
    by code_simp
  note parts = this [unfolded Let_def]
  then have "simplifiable padded" by (simp add: simplifiable_def no_minus_one_def list_all_length)
  with parts show ?thesis using algebraic_simplify_correct [OF ok, of 10 no_libm "[0x8000000000000000]"] by blast
qed

section \<open>Folding\<close>

text \<open>
  C28. Constant folding keeps the graph well-formed, the effect chain and the outputs of the interpreter
  when all constants are floating-point and sums, differences, products and quotients have at most
  two operands; the mathematics library of the compiler must be the one of the run.
\<close>
theorem constant_fold_correct:
  assumes "graph_ok g" and "foldable_graph g" and "int (length (g_nodes g)) < budget"
    and "int (length (g_values g)) + int (length (g_nodes g)) < kTombstone"
  shows "\<exists>pr b g'. constant_fold lm keepInf budget g = Some (Inr (pr, b, g')) \<and> graph_ok g' \<and> g_effects g' = g_effects g
    \<and> interpretGraph lm g' ins = interpretGraph lm g ins"
  unfolding constant_fold_def using folding.pass_run [OF assms, of lm keepInf ins] by blast

text \<open>\<open>x + exp 1\<close>.\<close>

definition const_exp :: math_graph where
  "const_exp = built [Make_placeholder 0 new_type, Make_constant f64_one new_type, Make_node Op_Exp [1] [], Make_node Op_Add [0, 2] [],
     Make_output 3]"

lemma constant_fold_correct_witness:
  "\<exists>pr b g'. constant_fold no_libm True 10 const_exp = Some (Inr (pr, b, g')) \<and> graph_ok g'
     \<and> interpretGraph no_libm g' [f64_one] = interpretGraph no_libm const_exp [f64_one]"
proof -
  have ok: "graph_ok const_exp" unfolding const_exp_def by (rule built_ok(1); code_simp)
  have "int (length (g_nodes const_exp)) < 10" "int (length (g_values const_exp)) + int (length (g_nodes const_exp)) < kTombstone"
    by code_simp+
  moreover have "list_all (\<lambda>v. \<not> (v_kind v = Constant \<and> cp_isInt (v_constant v))) (g_values const_exp)"
    "list_all (\<lambda>n. length (n_inputs n) \<le> 2) (g_nodes const_exp)" by code_simp+
  then have "foldable_graph const_exp" by (simp add: foldable_graph_def list_all_length)
  ultimately show ?thesis using constant_fold_correct [OF ok, of 10 no_libm True "[f64_one]"] by blast
qed

text \<open>A graph of a single node that is folded to \<open>out\<close>.\<close>

lemma fold_single:
  assumes ok: "graph_ok g" and n: "length (g_nodes g) = 1" "\<not> node_dead (g_nodes g ! 0)" "isPure (n_effects (g_nodes g ! 0))"
    "n_results (g_nodes g ! 0) = [r]" "g_outputs g = [r]" and room: "int (length (g_values g)) + 1 < kTombstone"
    and run: "fold_rule lm keepInf g (g_nodes g ! 0) = Inr (Some (fst (addConstant out t g), True, snd (addConstant out t g)))"
  shows "\<exists>pr b g'. constant_fold lm keepInf 10 g = Some (Inr (pr, b, g')) \<and> interpretGraph lm g' ins = Some (Inr [f64_canon out])"
proof -
  let ?w = "constant_value \<lparr>cp_isInt = False, cp_f64 = out, cp_i64 = 0\<rparr> t"
  define g1 where "g1 = snd (addConstant out t g)"
  define v where "v = fst (addConstant out t g)"
  have w: "v_kind ?w = Constant" "v_constant ?w = \<lparr>cp_isInt = False, cp_f64 = out, cp_i64 = 0\<rparr>" by (simp_all add: constant_value_def)
  have c: "constant_added g g1" using w(1) by (auto simp: constant_added_def addConstant_def g1_def)
  note p = constant_added_parts [OF c]
  have ok1: "graph_ok g1" by (rule constant_added_ok [OF c ok room])
  have u: "usable g1 0 v" unfolding addConstant_def g1_def v_def by (rule allocate_ok(2) [OF ok room]) (simp add: w)
  have vl: "v < length (g_values g1)" "v_kind (g_values g1 ! v) = Constant" "constant_double (v_constant (g_values g1 ! v)) = f64_canon out"
    using w by (simp_all add: v_def g1_def addConstant_def allocateValue_def constant_double_def)
  have site: "site g1 0 r v" using n u p(1) by (simp add: site_def)
  from replaceResult_run [OF ok1, of 0 r v] n u p(1) obtain g' where g': "replaceResult 0 v g1 = Some (Inr (v, g'))" "rewired g1 0 r v g'" by auto
  have ok': "graph_ok g'" by (rule rewired_ok [OF ok1 site g'(2)])
  note d = rewiredD [OF g'(2)]
  have "g_outputs g' = [v]" using g'(2) n(5) p(2) by (simp add: rewired_def redirect_def)
  moreover have "meaning lm g' ins v = f64_canon out" using meaning_constant [OF ok', of v lm ins] vl d(1) d(4,5) [OF vl(1)] by simp
  ultimately have "interpretGraph lm g' ins = Some (Inr [f64_canon out])" using interpret_meaning [OF ok'] by simp
  moreover have "topoOrder g = [0]"
  proof -
    have "n_id (g_nodes g ! 0) = 0" using node_result [OF ok, of 0] n(1) by (metis zero_less_one)
    with n show ?thesis by (cases "g_nodes g") (auto simp: topoOrder_def)
  qed
  then have "\<exists>pr b. constant_fold lm keepInf 10 g = Some (Inr (pr, b, g'))"
    using n run g'(1) by (simp add: constant_fold_def rewrite_pass_def vec_at_def consume_edit_def flip: g1_def v_def)
  ultimately show ?thesis by blast
qed

definition minus_five :: math_graph where
  "minus_five = built [Make_int_constant 5 new_type, Make_node Op_Neg [0] [], Make_output 1]"

text \<open>What the tests find out about integer constants: the floating-point slot keeps its initial zero.\<close>

lemma int_probe:
  assumes "v < length (g_values g)" and "v_kind (g_values g ! v) = Constant" and "cp_isInt (v_constant (g_values g ! v))"
  shows "\<exists>k. isConst g v (0, 0) = Inr (True, 0, k)"
  using assms by (simp add: isConst_def vec_at_def Let_def)

lemma node_value_args:
  assumes "\<And>v. v \<in> set (n_inputs n) \<Longrightarrow> F v = G v"
  shows "node_value lm n F = node_value lm n G"
  using assms by (simp add: node_value_def node_args_def)

text \<open>
  C29. Constant folding reads integer constants as zero. Take a well-formed graph of one live pure node
  whose result is the output and whose operands, at least one, are integer constants, and an
  operation other than Lambda and Apply and other than a two-operand sum, difference or product.
  The interpreter returns the operation at the operands' own values. After constant folding with a
  budget of ten edits it returns the operation at zero, whatever the operands are, provided that
  folding defines the operation at zero with a result that is neither a NaN nor infinite.
\<close>
theorem constant_fold_int_as_zero:
  assumes "graph_ok g" and "length (g_nodes g) = 1" and "\<not> node_dead (g_nodes g ! 0)" and "isPure (n_effects (g_nodes g ! 0))"
    and "n_results (g_nodes g ! 0) = [r]" and "g_outputs g = [r]" and "int (length (g_values g)) + 1 < kTombstone"
    and "n_inputs (g_nodes g ! 0) \<noteq> []"
    and "\<forall>v \<in> set (n_inputs (g_nodes g ! 0)). v_kind (g_values g ! v) = Constant \<and> cp_isInt (v_constant (g_values g ! v))"
    and "n_op (g_nodes g ! 0) \<noteq> Op_Lambda" and "n_op (g_nodes g ! 0) \<noteq> Op_Apply"
    and "\<not> (length (n_inputs (g_nodes g ! 0)) = 2 \<and> n_op (g_nodes g ! 0) \<in> {Op_Add, Op_Sub, Op_Mul})"
    and "fold_scalar lm (n_op (g_nodes g ! 0)) 0 0 = Some out" and "\<not> f64_nan out" and "\<not> f64_inf out"
  shows "interpretGraph lm g ins = Some (Inr [node_value lm (g_nodes g ! 0) (\<lambda>v. constant_double (v_constant (g_values g ! v)))])
    \<and> (\<exists>pr b g'. constant_fold lm keepInf 10 g = Some (Inr (pr, b, g')) \<and> interpretGraph lm g' ins = Some (Inr [f64_canon out]))"
proof
  let ?n = "g_nodes g ! 0"
  have range: "\<forall>v \<in> set (n_inputs ?n). v < length (g_values g)"
    using operand_usable [OF assms(1), of 0] assms(2,3) by (auto simp: usable_def)
  have "meaning lm g ins v = constant_double (v_constant (g_values g ! v))" if "v \<in> set (n_inputs ?n)" for v
    using meaning_constant [OF assms(1)] range assms(9) that by blast
  then have "meaning lm g ins r = node_value lm ?n (\<lambda>v. constant_double (v_constant (g_values g ! v)))"
    using meaning_result [OF assms(1) _ assms(3,5)] assms(2) node_value_args [of ?n "meaning lm g ins"] by simp
  then show "interpretGraph lm g ins = Some (Inr [node_value lm ?n (\<lambda>v. constant_double (v_constant (g_values g ! v)))])"
    using interpret_meaning [OF assms(1)] assms(6) by simp
  have "r < length (g_values g)" using node_result [OF assms(1), of 0] assms(2,5) by (metis list.inject zero_less_one)
  then have ty: "result_type g ?n = Inr (v_type (g_values g ! r))" using assms(5) by (simp add: result_type_def vec_at_def)
  have probe: "\<exists>k. isConst g (n_inputs ?n ! i) (0, 0) = Inr (True, 0, k)" if "i < length (n_inputs ?n)" for i
    using int_probe range assms(9) that by (metis nth_mem)
  obtain k0 where k0: "isConst g (n_inputs ?n ! 0) (0, 0) = Inr (True, 0, k0)" using probe [of 0] assms(8) by auto
  have second: "\<exists>b k. (if length (n_inputs ?n) = 2 then isConst g (n_inputs ?n ! 1) (0, 0) else Inr (False, 0, 0)) = Inr (b, 0, k)"
    using probe [of 1] by (cases "length (n_inputs ?n) = 2") auto
  have "\<not> f64_nan 0" "\<not> f64_inf 0" by code_simp+
  then have sp: "keeps_specials keepInf (length (n_inputs ?n) = 2) 0 0 out" using assms(14,15) by (simp add: keeps_specials_def)
  have all: "all_const g (n_inputs ?n) = Inr True" "all_int g (n_inputs ?n) = Inr True"
    using all_const_run [OF range] all_int_run [OF range] assms(9) by auto
  have "fold_rule lm keepInf g ?n = Inr (Some (fst (addConstant out (v_type (g_values g ! r)) g), True, snd (addConstant out (v_type (g_values g ! r)) g)))"
    using second assms(8,10,11,12,13) all k0 ty sp
    by (cases "length (n_inputs ?n) = 2") (auto simp: fold_rule_def case_prod_beta Let_def)
  from fold_single [OF assms(1-6) assms(7) this]
  show "\<exists>pr b g'. constant_fold lm keepInf 10 g = Some (Inr (pr, b, g')) \<and> interpretGraph lm g' ins = Some (Inr [f64_canon out])" .
qed

text \<open>The graph \<open>-5\<close> returns minus five, and minus zero after the pass.\<close>

lemma constant_fold_int_as_zero_witness:
  "\<exists>pr b g'. constant_fold no_libm True 10 minus_five = Some (Inr (pr, b, g'))
     \<and> interpretGraph no_libm minus_five [] = Some (Inr [0xc014000000000000]) \<and> interpretGraph no_libm g' [] = Some (Inr [0x8000000000000000])"
proof -
  have ok: "graph_ok minus_five" unfolding minus_five_def by (rule built_ok(1); code_simp)
  have parts: "length (g_nodes minus_five) = 1" "\<not> node_dead (g_nodes minus_five ! 0)" "isPure (n_effects (g_nodes minus_five ! 0))"
    "n_results (g_nodes minus_five ! 0) = [1]" "g_outputs minus_five = [1]" "int (length (g_values minus_five)) + 1 < kTombstone"
    "n_inputs (g_nodes minus_five ! 0) = [0]" "v_kind (g_values minus_five ! 0) = Constant \<and> cp_isInt (v_constant (g_values minus_five ! 0))"
    "n_op (g_nodes minus_five ! 0) = Op_Neg" by code_simp+
  have num: "fold_scalar no_libm Op_Neg 0 0 = Some 0x8000000000000000" "\<not> f64_nan 0x8000000000000000" "\<not> f64_inf 0x8000000000000000"
    "f64_canon 0x8000000000000000 = 0x8000000000000000"
    "node_value no_libm (g_nodes minus_five ! 0) (\<lambda>v. constant_double (v_constant (g_values minus_five ! v))) = 0xc014000000000000"
    by code_simp+
  from constant_fold_int_as_zero [OF ok parts(1-6), of no_libm "0x8000000000000000" "[]" True] parts(7-9) num
  show ?thesis by auto
qed

definition three_terms :: math_graph where
  "three_terms = built [Make_constant f64_one new_type, Make_constant 0x4000000000000000 new_type, Make_constant 0x4010000000000000 new_type,
     Make_node Op_Add [0, 1, 2] [], Make_output 3]"

text \<open>
  Neither the interpreter nor constant folding computes a sum of three terms, which the operation
  table allows: for \<open>1 + 2 + 4\<close> the interpreter adds the first two operands and returns three, and
  folding keeps the first and adds zero, so that the output becomes one.
\<close>
theorem constant_fold_drops_terms:
  "arityAccepts Op_Add 3 \<and> (\<exists>pr b g'. constant_fold lm keepInf 10 three_terms = Some (Inr (pr, b, g'))
     \<and> interpretGraph lm three_terms [] = Some (Inr [0x4008000000000000]) \<and> interpretGraph lm g' [] = Some (Inr [f64_one]))"
proof -
  have ar: "arityAccepts Op_Add 3" by code_simp
  have ok: "graph_ok three_terms" unfolding three_terms_def by (rule built_ok(1); code_simp)
  have "let g = three_terms in length (g_nodes g) = 1
     \<and> \<not> node_dead (g_nodes g ! 0)
     \<and> isPure (n_effects (g_nodes g ! 0))
     \<and> n_results (g_nodes g ! 0) = [3]
     \<and> g_outputs g = [3]
     \<and> n_op (g_nodes g ! 0) = Op_Add
     \<and> n_inputs (g_nodes g ! 0) = [0, 1, 2]
     \<and> length (g_values g) = 4
     \<and> v_kind (g_values g ! 0) = Constant
     \<and> v_kind (g_values g ! 1) = Constant
     \<and> v_kind (g_values g ! 2) = Constant
     \<and> v_constant (g_values g ! 0) = \<lparr>cp_isInt = False, cp_f64 = f64_one, cp_i64 = 0\<rparr>
     \<and> v_constant (g_values g ! 1) = \<lparr>cp_isInt = False, cp_f64 = 0x4000000000000000, cp_i64 = 0\<rparr>
     \<and> \<not> cp_isInt (v_constant (g_values g ! 0))"
    by code_simp
  note parts = this [unfolded Let_def] this [unfolded Let_def One_nat_def]
  have node: "length (g_nodes three_terms) = 1" "\<not> node_dead (g_nodes three_terms ! 0)" "isPure (n_effects (g_nodes three_terms ! 0))"
    "n_results (g_nodes three_terms ! 0) = [3]" "g_outputs three_terms = [3]" "length (g_values three_terms) = 4" using parts by blast+
  have num: "f64_canon f64_one = f64_one" "f64_canon 0x4000000000000000 = 0x4000000000000000" "\<not> f64_inf f64_one" "\<not> f64_nan f64_one"
    "f64_zero 0" "f64_one \<noteq> (0x8000000000000000 :: f64)" by code_simp+
  have one: "f64_add f64_one 0 = f64_one" using f64_add_zero(1) [of 0 f64_one] num by simp
  have three: "f64_canon (f64_add f64_one 0x4000000000000000) = 0x4008000000000000" by code_simp
  note num = num one three
  have sp: "keeps_specials keepInf False f64_one 0 f64_one" using num by (simp add: keeps_specials_def)
  have "result_type three_terms (g_nodes three_terms ! 0) = Inr (v_type (g_values three_terms ! 3))" using parts by (simp add: result_type_def vec_at_def)
  then have "fold_rule lm keepInf three_terms (g_nodes three_terms ! 0)
      = Inr (Some (fst (addConstant f64_one (v_type (g_values three_terms ! 3)) three_terms), True,
          snd (addConstant f64_one (v_type (g_values three_terms ! 3)) three_terms)))"
    using parts num sp by (simp add: fold_rule_def isConst_def vec_at_def fold_scalar_def case_prod_beta Let_def)
  from fold_single [OF ok node(1-5) _ this, of "[]"] num node(6) obtain pr b g' where
    "constant_fold lm keepInf 10 three_terms = Some (Inr (pr, b, g'))" "interpretGraph lm g' [] = Some (Inr [f64_one])"
    by (auto simp: kTombstone_def)
  moreover have "meaning lm three_terms [] 3 = 0x4008000000000000"
    using meaning_result [OF ok _ node(2,4), of lm "[]"] meaning_constant [OF ok, of 0 lm "[]"] meaning_constant [OF ok, of 1 lm "[]"] parts num
    by (simp add: node_value_def node_args_def node_out_def evalScalar_def constant_double_def)
  then have "interpretGraph lm three_terms [] = Some (Inr [0x4008000000000000])"
    using interpret_meaning [OF ok, of lm "[]"] parts by simp
  ultimately show ?thesis using ar by blast
qed

end
