(* ===== verification/File_Properties.thy ===== *)
theory File_Properties
  imports Graph_Json_Laws Fold_Properties
begin

text \<open>
  What graph files guarantee, from the digits of a number to a graph that is saved and loaded, and what
  they lose.
\<close>

section \<open>Numbers and documents\<close>

text \<open>
  C38. A finite double that is printed with seventeen significant digits and parsed again is the same
  double, bit for bit, except that \<open>-0\<close> comes back as the integer zero; a double whose text has
  neither point nor exponent comes back as an integer of the same value.
\<close>
theorem double_roundtrip:
  assumes "f64_exp d < 2047"
  shows "\<exists>n. json_parse (serialize (JDouble d)) = Some (Inr n) \<and> (if d = 0x8000000000000000 then n = JInt 0 else asDouble n = Some d)"
proof -
  have "json_parse (serialize (JDouble d)) = Some (Inr (number_back d))"
    using json_read_back(1) [of "JDouble d"] not_special [OF assms] by simp
  then show ?thesis using number_back_value [OF assms] minus_zero_back by auto
qed

lemma double_roundtrip_witness:
  "\<exists>n. json_parse (serialize (JDouble 0x3fb999999999999a)) = Some (Inr n) \<and> asDouble n = Some 0x3fb999999999999a"
proof -
  have "f64_exp 0x3fb999999999999a < 2047" by code_simp
  from double_roundtrip [OF this] show ?thesis by simp
qed

fun no_doubles :: "json \<Rightarrow> bool" where
  "no_doubles (JDouble d) = False"
| "no_doubles (JArray xs) = list_all no_doubles xs"
| "no_doubles (JObject ms) = list_all (\<lambda>m. no_doubles (snd m)) ms"
| "no_doubles v = True"

lemma no_doubles_back: "no_doubles v \<Longrightarrow> json_back v = v"
proof (induction v rule: json.induct)
  case (JArray xs)
  then show ?case by (auto simp: list_all_iff intro: map_idI)
next
  case (JObject ms)
  have "json_back (snd m) = snd m" if "m \<in> set ms" for m
    using JObject.IH [OF that, of "snd m"] JObject.prems that by (auto simp: list_all_iff snds.simps)
  then show ?case by (auto intro: map_idI)
qed auto

text \<open>
  C37. The text of a document with at most 128 levels of nesting and integers of 64 bits, compact or
  indented, is always parsed, and \<open>json_back\<close> says as what: everything but the doubles comes back
  unchanged, so a document without doubles is read back exactly. A NaN comes back as null, an
  infinity as the double 1e308 with its sign, minus zero as the integer 0, a double whose seventeen
  digits look like an integer of 64 bits as that integer, and every other double as itself.
\<close>
theorem json_roundtrip:
  assumes "json_fits 128 v"
  shows "json_parse (serialize v) = Some (Inr (json_back v)) \<and> json_parse (serializePretty v) = Some (Inr (json_back v))
    \<and> (no_doubles v \<longrightarrow> json_back v = v)"
  using json_read_back [OF assms] no_doubles_back by blast

lemma json_roundtrip_witness:
  "json_parse (serializePretty (JObject [(''a'', JArray [JInt (- 5), JNull]), (CHR 0x0A # ''b'', JString [CHR 0x22, CHR 0x01])]))
    = Some (Inr (JObject [(''a'', JArray [JInt (- 5), JNull]), (CHR 0x0A # ''b'', JString [CHR 0x22, CHR 0x01])]))"
proof -
  let ?v = "JObject [(''a'', JArray [JInt (- 5), JNull]), (CHR 0x0A # ''b'', JString [CHR 0x22, CHR 0x01])]"
  have "json_fits 128 ?v" by (simp add: i64_defs)
  from json_roundtrip [OF this] show ?thesis by simp
qed

text \<open>
  C39. The parser returns on every text, with a document or with an error: none of its loops runs
  forever and no position past the end is read.
\<close>
theorem json_parse_returns: "\<exists>y. json_parse text = Some y \<and> y \<noteq> Inl UndefinedBehaviour"
  by (rule json_parse_total)

text \<open>Text that is no number of the grammar is accepted as one.\<close>

lemma json_numbers_lax:
  "json_parse ''1-2'' = Some (Inr (JDouble f64_one))" "json_parse ''-'' = Some (Inr (JDouble 0))" "json_parse ''+7'' = Some (Inr (JInt 7))"
  by code_simp+

section \<open>Graphs\<close>

text \<open>
  C36. Whatever document the loader is given, it returns, reads nothing out of bounds, and either
  rejects the document or builds a graph that satisfies the invariant, so that the interpreter and
  the passes may run on it.
\<close>
theorem graph_load_safe:
  assumes "int (file_size doc) < kTombstone"
  shows "(\<exists>e. graphFromJson doc pool = Some (Inl (Err e))) \<or> (\<exists>g. graphFromJson doc pool = Some (Inr g) \<and> graph_ok g)"
  using graphFromJson_fine [OF assms, of pool] by (simp add: fine_result_def)

lemma graph_load_safe_witness:
  "(\<exists>e. graphFromJson (JObject [(''format'', JString ''mlk-graph''), (''version'', JInt 1), (''values'', JArray [JNull])]) [] = Some (Inl (Err e)))
   \<or> (\<exists>g. graphFromJson (JObject [(''format'', JString ''mlk-graph''), (''version'', JInt 1), (''values'', JArray [JNull])]) [] = Some (Inr g) \<and> graph_ok g)"
  by (rule graph_load_safe) code_simp

text \<open>
  C35. A saveable graph is written, printed, parsed and loaded again as a well-formed graph with as many
  nodes and the same outputs for every input and every mathematics library, although its values get
  new ids. A graph is saveable when it is well-formed, no node is dead, the node results lie in the
  order of their nodes, no output is listed twice, every name is a symbol of the pool, integer
  constants and dimensions have 64 bits, floating-point constants are finite and not \<open>-0\<close>, and the
  loader's map has room for the values and nodes. (What happens to other constants is
  \<open>file_loses_numbers\<close>.)
\<close>
theorem save_load_sound:
  assumes "graph_ok g" and "saveable g"
  shows "\<exists>doc doc' h. graphToJson g = Inr doc \<and> json_parse (serializePretty doc) = Some (Inr doc') \<and> graphFromJson doc' pool = Some (Inr h)
    \<and> graph_ok h \<and> length (g_nodes h) = length (g_nodes g) \<and> (\<forall>lm ins. interpretGraph lm h ins = interpretGraph lm g ins)"
proof -
  from save_load [OF assms, of pool] obtain doc h where d: "graphToJson g = Inr doc" "json_fits 128 doc"
    "graphFromJson (json_back doc) pool = Some (Inr h)" "graph_ok h" "length (g_nodes h) = length (g_nodes g)"
    "\<forall>lm ins. interpretGraph lm h ins = interpretGraph lm g ins" by blast
  from json_read_back(2) [OF d(2)] d show ?thesis by blast
qed

lemma save_load_sound_witness:
  "\<exists>doc doc' h. graphToJson padded = Inr doc \<and> json_parse (serializePretty doc) = Some (Inr doc') \<and> graphFromJson doc' [] = Some (Inr h)
    \<and> (\<forall>lm ins. interpretGraph lm h ins = interpretGraph lm padded ins)"
proof -
  have ok: "graph_ok padded" unfolding padded_def by (rule built_ok(1); code_simp)
  have "saveable padded" by code_simp
  from save_load_sound [OF ok this, of "[]"] show ?thesis by blast
qed

section \<open>What a file loses\<close>

definition constant_graph :: "f64 \<Rightarrow> math_graph" where
  "constant_graph c = addOutput 0 (snd (addConstant c new_type (new_graph [])))"

lemma constant_graph_parts:
  defines "w \<equiv> \<lambda>c. (constant_value \<lparr>cp_isInt = False, cp_f64 = c, cp_i64 = 0\<rparr> new_type)\<lparr>v_id := 0\<rparr>"
  shows "g_values (constant_graph c) = [w c]" "g_nodes (constant_graph c) = []" "g_outputs (constant_graph c) = [0]" "graph_ok (constant_graph c)"
    "v_kind (w c) = Constant" "v_type (w c) = new_type" "v_id (w c) = 0" "v_constant (w c) = \<lparr>cp_isInt = False, cp_f64 = c, cp_i64 = 0\<rparr>"
    "v_name (w c) = None"
proof -
  have room: "int (length (g_values (new_graph []))) + 1 < kTombstone" by (simp add: new_graph_building kTombstone_def)
  have k: "v_kind (constant_value \<lparr>cp_isInt = False, cp_f64 = c, cp_i64 = 0\<rparr> new_type) \<noteq> NodeResult" by (simp add: leaf_kind)
  show "g_values (constant_graph c) = [w c]" "g_nodes (constant_graph c) = []" "g_outputs (constant_graph c) = [0]"
    by (simp_all add: constant_graph_def addConstant_def allocateValue_def addOutput_def new_graph_building w_def)
  show "graph_ok (constant_graph c)"
    unfolding constant_graph_def addConstant_def
    using allocate_ok(1,2) [OF new_graph_ok room k] by (intro add_output_ok) (auto simp: allocateValue_def new_graph_building)
  show "v_kind (w c) = Constant" "v_type (w c) = new_type" "v_id (w c) = 0" "v_constant (w c) = \<lparr>cp_isInt = False, cp_f64 = c, cp_i64 = 0\<rparr>" "v_name (w c) = None"
    by (simp_all add: constant_value_def new_value_def w_def)
qed

text \<open>What is loaded for a constant: the number its text denotes, or nothing.\<close>

lemma constant_graph_loaded:
  "graphToJson (constant_graph c) = Inr (graph_doc (constant_graph c))"
  "asDouble (json_back (JDouble c)) = Some d
    \<Longrightarrow> \<exists>h. graphFromJson (json_back (graph_doc (constant_graph c))) [] = Some (Inr h) \<and> interpretGraph lm h ins = Some (Inr [f64_canon d])"
  "asDouble (json_back (JDouble c)) = None \<Longrightarrow> graphFromJson (json_back (graph_doc (constant_graph c))) [] = Some (Inl (Err ParseError))"
proof -
  note p = constant_graph_parts [of c]
  let ?g = "constant_graph c"
  let ?w = "g_values ?g ! 0"
  show "graphToJson ?g = Inr (graph_doc ?g)"
    using value_document [of ?w "g_symbols ?g"] p by (simp add: graphToJson_def graph_doc_def json_object_eq json_array_eq)
  define vo where "vo = value_doc ?g ?w"
  have f: "find_int ''id'' vo = Some 0" "find_string ''kind'' vo = Some ''constant''" "load_type vo = Inr (file_type new_type)"
    "find_int ''int_value'' vo = None" "find_member ''float_value'' vo = Some (json_back (JDouble c))"
    unfolding vo_def value_doc_def using value_finds [of "g_symbols ?g" ?w] load_type_back [OF value_finds(3) [of "g_symbols ?g" ?w]] p by simp_all
  have top: "graphFromJson (json_back (graph_doc ?g)) [] = then_call (load_values [vo] 0 hm_new (new_graph [])) (\<lambda>(m, g). load_outputs [JInt 0] m g)"
    using p by (simp add: graphFromJson_def graph_finds vo_def json_id_def)
  obtain name g1 where n: "load_name vo (new_graph []) = (name, g1)" by fastforce
  obtain pool where g1: "g1 = (new_graph [])\<lparr>g_symbols := pool\<rparr>" using load_name_frame [OF n] by blast
  {
    assume d: "asDouble (json_back (JDouble c)) = None"
    have "load_constant vo ty = parse_error" for ty using d by (simp add: load_constant_def f del: json_back.simps)
    then have "load_leaf vo ''constant'' (new_graph []) = parse_error" by (simp add: load_leaf_def f n parse_error_def)
    then show "graphFromJson (json_back (graph_doc ?g)) [] = Some (Inl (Err ParseError))" by (simp add: top f parse_error_def)
  next
    assume d: "asDouble (json_back (JDouble c)) = Some d"
    let ?u = "constant_value \<lparr>cp_isInt = False, cp_f64 = d, cp_i64 = 0\<rparr> (file_type new_type)"
    define h1 where "h1 = snd (allocateValue ?u g1)"
    have a: "allocateValue ?u g1 = (0, h1)" by (simp add: h1_def allocateValue_def g1 new_graph_building)
    have "load_constant vo ty = Inr (constant_value \<lparr>cp_isInt = False, cp_f64 = d, cp_i64 = 0\<rparr> ty)" for ty
      using d by (simp add: load_constant_def f del: json_back.simps)
    then have leaf: "load_leaf vo ''constant'' (new_graph []) = Inr (0, h1)" by (simp add: load_leaf_def f n a)
    have "int 1 < kTombstone" by (simp add: kTombstone_def)
    from files_put [OF files_new(1) this, of 0 0 1 0] obtain m where
      m: "hm_put file_hash 0 0 (hm_new :: id_map) = Some (Inr m)" "files_ok 1 1 m" "hm_map m = [0 \<mapsto> 0]" by (auto simp: files_new(2))
    define h where "h = h1\<lparr>g_outputs := [0]\<rparr>"
    have ho: "g_outputs h1 = []" by (simp add: h1_def allocateValue_def g1 new_graph_building)
    have run: "graphFromJson (json_back (graph_doc ?g)) [] = Some (Inr h)"
      using m by (simp add: top f leaf resolveInput_def files_get [OF m(2)] addOutput_def ho h_def)
    have okh: "graph_ok h"
    proof -
      have ok1: "graph_ok g1" using new_graph_ok [of "[]"] unfolding g1 graph_ok_def results_ok_def operands_ok_def effects_ok_def usable_def by simp
      have room: "int (length (g_values g1)) + 1 < kTombstone" by (simp add: g1 new_graph_building kTombstone_def)
      have k: "v_kind ?u \<noteq> NodeResult" by (simp add: leaf_kind)
      have "graph_ok h1" unfolding h1_def by (rule allocate_ok(1) [OF ok1 room k])
      moreover have "usable h1 (length (g_nodes h1)) 0" using allocate_ok(2) [OF ok1 room k, of "length (g_nodes h1)"] unfolding a by simp
      ultimately have "graph_ok (addOutput 0 h1)" by (rule add_output_ok)
      then show ?thesis by (simp add: addOutput_def ho h_def)
    qed
    have v: "g_values h = [?u\<lparr>v_id := 0\<rparr>]" by (simp add: h_def h1_def allocateValue_def g1 new_graph_building)
    have "meaning lm h ins 0 = f64_canon d"
      using meaning_constant [OF okh, of 0 lm ins] by (simp add: v constant_value_def constant_double_def)
    then have "interpretGraph lm h ins = Some (Inr [f64_canon d])" using interpret_meaning [OF okh] by (simp add: h_def)
    with run show "\<exists>h. graphFromJson (json_back (graph_doc ?g)) [] = Some (Inr h) \<and> interpretGraph lm h ins = Some (Inr [f64_canon d])" by blast
  }
qed

text \<open>
  C40. Three constants do not survive a file. A graph that returns minus zero is loaded as one that
  returns plus zero, one that returns infinity is loaded as one that returns \<open>1e308\<close>, and a graph
  with a NaN is written as a file that the loader rejects.
\<close>
theorem file_loses_numbers:
  "(\<exists>doc doc' h. graphToJson (constant_graph 0x8000000000000000) = Inr doc \<and> json_parse (serializePretty doc) = Some (Inr doc')
      \<and> graphFromJson doc' [] = Some (Inr h) \<and> interpretGraph lm h [] = Some (Inr [0])
      \<and> interpretGraph lm (constant_graph 0x8000000000000000) [] = Some (Inr [0x8000000000000000]))
   \<and> (\<exists>doc doc' h. graphToJson (constant_graph 0x7ff0000000000000) = Inr doc \<and> json_parse (serializePretty doc) = Some (Inr doc')
      \<and> graphFromJson doc' [] = Some (Inr h) \<and> interpretGraph lm h [] = Some (Inr [0x7fe1ccf385ebc8a0])
      \<and> interpretGraph lm (constant_graph 0x7ff0000000000000) [] = Some (Inr [0x7ff0000000000000]))
   \<and> (\<exists>doc doc'. graphToJson (constant_graph NaN) = Inr doc \<and> json_parse (serializePretty doc) = Some (Inr doc')
      \<and> graphFromJson doc' [] = Some (Inl (Err ParseError)))"
proof -
  have fits: "json_fits 128 (graph_doc (constant_graph c))" for c
    using constant_graph_parts [of c]
    by (simp add: graph_doc_def value_fields_def json_id_def kGraphFileFormatVersion_def i64_defs type_document new_type_def
        factsToJson_def factToJson_def json_array_eq json_object_eq constant_value_def new_value_def setTriState_def)
  have own: "interpretGraph lm (constant_graph c) [] = Some (Inr [f64_canon c])" for c
    using meaning_constant [OF constant_graph_parts(4) [of c], of 0 lm "[]"] interpret_meaning [OF constant_graph_parts(4) [of c], of lm "[]"]
      constant_graph_parts [of c] by (simp add: constant_double_def)
  have reads: "asDouble (json_back (JDouble 0x8000000000000000)) = Some 0" "asDouble (json_back (JDouble 0x7ff0000000000000)) = Some 0x7fe1ccf385ebc8a0"
    "asDouble (json_back (JDouble NaN)) = None"
  proof -
    have "\<not> f64_nan 0x8000000000000000" "\<not> f64_inf 0x8000000000000000" "f64_of_int 0 = 0" by code_simp+
    then show "asDouble (json_back (JDouble 0x8000000000000000)) = Some 0" by (simp add: minus_zero_back asDouble_def)
    have "\<not> f64_nan 0x7ff0000000000000" "f64_inf 0x7ff0000000000000" "\<not> f64_neg_sign 0x7ff0000000000000" by code_simp+
    then show "asDouble (json_back (JDouble 0x7ff0000000000000)) = Some 0x7fe1ccf385ebc8a0" by (simp add: asDouble_def)
    have "f64_nan NaN" by code_simp
    then show "asDouble (json_back (JDouble NaN)) = None" by (simp add: asDouble_def)
  qed
  have canon: "f64_canon 0x8000000000000000 = 0x8000000000000000" "f64_canon 0 = 0" "f64_canon 0x7ff0000000000000 = 0x7ff0000000000000"
    "f64_canon 0x7fe1ccf385ebc8a0 = 0x7fe1ccf385ebc8a0" by code_simp+
  have "\<exists>doc doc' h. graphToJson (constant_graph c) = Inr doc \<and> json_parse (serializePretty doc) = Some (Inr doc')
      \<and> graphFromJson doc' [] = Some (Inr h) \<and> interpretGraph lm h [] = Some (Inr [f64_canon d])
      \<and> interpretGraph lm (constant_graph c) [] = Some (Inr [f64_canon c])"
    if "asDouble (json_back (JDouble c)) = Some d" for c d
    using constant_graph_loaded(1) [of c] constant_graph_loaded(2) [OF that, of lm "[]"] json_read_back(2) [OF fits, of c] own [of c] by blast
  from this [OF reads(1)] this [OF reads(2)] constant_graph_loaded(1) [of NaN] constant_graph_loaded(3) [OF reads(3)] json_read_back(2) [OF fits, of NaN]
  show ?thesis unfolding canon by blast
qed

end
