(* ===== verification/Type_Inference.thy ===== *)
theory Type_Inference
  imports Recache
begin

text \<open>
  Shapes and types: \<open>Shape::broadcast\<close> of \<open>type/domain.cpp\<close> and the inference of
  \<open>type/type_inference.cpp\<close>. Broadcasting is sound for the dimensions that are not known before the
  run. Inference reaches a fixpoint in one pass over the nodes, because operands are typed before
  they are used, and changes nothing that the interpreter reads.
\<close>

section \<open>Shapes\<close>

definition kDynamicDim :: int where "kDynamicDim = - 1"
definition kMaxRank :: nat where "kMaxRank = 8"

definition hasDynamic :: "int list \<Rightarrow> bool" where "hasDynamic s \<longleftrightarrow> kDynamicDim \<in> set s"

text \<open>The number of elements of a static shape; the product may overflow.\<close>

fun numel_from :: "int list \<Rightarrow> int \<Rightarrow> int option result" where
  "numel_from [] n = Inr (Some n)"
| "numel_from (d # ds) n = (if d = kDynamicDim then Inr None else mlk_try (plain64 (n * d)) (numel_from ds))"

definition numel :: "int list \<Rightarrow> int option result" where "numel s = numel_from s 1"

definition broadcast_dim :: "int \<Rightarrow> int \<Rightarrow> int option" where
  "broadcast_dim a b =
     (if a = b then Some a else if a = 1 then Some b else if b = 1 then Some a
      else if a = kDynamicDim then Some b else if b = kDynamicDim then Some a else None)"

fun broadcast_dims :: "int list \<Rightarrow> int list \<Rightarrow> int list option" where
  "broadcast_dims (a # as) (b # bs) = (case broadcast_dim a b of None \<Rightarrow> None
     | Some d \<Rightarrow> map_option ((#) d) (broadcast_dims as bs))"
| "broadcast_dims _ _ = Some []"

text \<open>The shorter shape is padded with ones in front.\<close>

definition pad_to :: "nat \<Rightarrow> int list \<Rightarrow> int list" where
  "pad_to r s = replicate (r - length s) 1 @ s"

definition broadcast :: "int list \<Rightarrow> int list \<Rightarrow> int list option" where
  "broadcast a b = (let r = max (length a) (length b) in
     if r > kMaxRank then None else broadcast_dims (pad_to r a) (pad_to r b))"

text \<open>The shapes of a run: every dimension that is not dynamic is the one it was declared with.\<close>

definition runs_as :: "int list \<Rightarrow> int list \<Rightarrow> bool" where
  "runs_as s c \<longleftrightarrow> list_all2 (\<lambda>d k. 0 \<le> k \<and> (d = kDynamicDim \<or> d = k)) s c"

lemma broadcast_dim_sound:
  assumes "0 \<le> x" "a = kDynamicDim \<or> a = x" and "0 \<le> y" "b = kDynamicDim \<or> b = y" and "broadcast_dim x y = Some z"
  shows "\<exists>d. broadcast_dim a b = Some d \<and> 0 \<le> z \<and> (d = kDynamicDim \<or> d = z)"
  using assms by (auto simp: broadcast_dim_def kDynamicDim_def split: if_splits)

lemma broadcast_dims_sound:
  assumes "runs_as a x" and "runs_as b y" and "length a = length b" and "broadcast_dims x y = Some z"
  shows "\<exists>d. broadcast_dims a b = Some d \<and> runs_as d z"
  using assms unfolding runs_as_def
proof (induction a b arbitrary: x y z rule: list_induct2')
  case (4 p a q b)
  from "4.prems" obtain k x' l y' where xy: "x = k # x'" "y = l # y'" "0 \<le> k" "p = kDynamicDim \<or> p = k" "0 \<le> l" "q = kDynamicDim \<or> q = l"
    and t: "list_all2 (\<lambda>d k. 0 \<le> k \<and> (d = kDynamicDim \<or> d = k)) a x'" "list_all2 (\<lambda>d k. 0 \<le> k \<and> (d = kDynamicDim \<or> d = k)) b y'"
    by (auto simp: list_all2_Cons1)
  from "4.prems"(4) xy obtain m z' where z: "broadcast_dim k l = Some m" "broadcast_dims x' y' = Some z'" "z = m # z'"
    by (auto split: option.splits)
  from "4.IH" [OF t _ z(2)] "4.prems"(3) broadcast_dim_sound [OF xy(3-6) z(1)] z(3) show ?case by auto
qed auto

lemma runs_as_pad: "runs_as s c \<Longrightarrow> runs_as (pad_to r s) (pad_to r c)"
proof -
  assume h: "runs_as s c"
  then have l: "length s = length c" by (auto simp: runs_as_def dest: list_all2_lengthD)
  have "runs_as (replicate k 1) (replicate k 1)" for k by (simp add: runs_as_def list_all2_conv_all_nth)
  with h show ?thesis unfolding pad_to_def l by (simp add: runs_as_def list_all2_appendI)
qed

lemma broadcast_length: "broadcast_dims a b = Some c \<Longrightarrow> length c = min (length a) (length b)"
  by (induction a b arbitrary: c rule: broadcast_dims.induct) (auto split: option.splits)

lemma broadcast_sound_run:
  assumes "runs_as a x" and "runs_as b y" and "broadcast x y = Some z"
  shows "\<exists>c. broadcast a b = Some c \<and> runs_as c z"
proof -
  have l: "length x = length a" "length y = length b" using assms(1,2) by (auto simp: runs_as_def dest: list_all2_lengthD)
  let ?r = "max (length a) (length b)"
  have "length (pad_to ?r a) = length (pad_to ?r b)" by (simp add: pad_to_def)
  from broadcast_dims_sound [OF runs_as_pad [OF assms(1)] runs_as_pad [OF assms(2)] this] assms(3)
  show ?thesis by (auto simp: broadcast_def Let_def l split: if_splits)
qed

section \<open>The type of a result\<close>

definition wk_shapeDims :: "math_graph \<Rightarrow> nat" where "wk_shapeDims g = fst (intern ''shape_dims'' (g_symbols g))"

definition type_of :: "math_graph \<Rightarrow> nat \<Rightarrow> math_type result" where
  "type_of g v = mlk_try (vec_at (g_values g) v) (\<lambda>val. Inr (v_type val))"

text \<open>Failure of the inference is \<open>None\<close>.\<close>

type_synonym inferred = "math_type option result"

fun merge_shapes :: "math_graph \<Rightarrow> nat list \<Rightarrow> int list \<Rightarrow> int list option result" where
  "merge_shapes g [] acc = Inr (Some acc)"
| "merge_shapes g (v # vs) acc = mlk_try (type_of g v) (\<lambda>t.
     case mt_tensor t of None \<Rightarrow> Inr None
     | Some td \<Rightarrow> (case broadcast acc (td_shape td) of None \<Rightarrow> Inr None | Some s \<Rightarrow> merge_shapes g vs s))"

fun same_types :: "math_graph \<Rightarrow> math_type \<Rightarrow> nat list \<Rightarrow> bool result" where
  "same_types g t0 [] = Inr True"
| "same_types g t0 (v # vs) = mlk_try (type_of g v) (\<lambda>t. if t \<noteq> t0 then Inr False else same_types g t0 vs)"

fun same_dtypes :: "math_graph \<Rightarrow> math_type \<Rightarrow> nat list \<Rightarrow> bool result" where
  "same_dtypes g t0 [] = Inr True"
| "same_dtypes g t0 (v # vs) = mlk_try (type_of g v) (\<lambda>t. if mt_dtype t \<noteq> mt_dtype t0 then Inr False else same_dtypes g t0 vs)"

definition infer_elementwise :: "math_graph \<Rightarrow> gnode \<Rightarrow> math_type \<Rightarrow> inferred" where
  "infer_elementwise g n t0 =
     mlk_try (case mt_tensor t0 of
         Some td \<Rightarrow> mlk_try (merge_shapes g (drop 1 (n_inputs n)) (td_shape td)) (\<lambda>s.
           Inr (map_option (\<lambda>s. t0\<lparr>mt_tensor := Some (td\<lparr>td_shape := s\<rparr>), mt_shape := Some s\<rparr>) s))
       | None \<Rightarrow> mlk_try (same_types g t0 (drop 1 (n_inputs n))) (\<lambda>b. Inr (if b then Some t0 else None)))
     (\<lambda>r. case r of None \<Rightarrow> Inr None
        | Some out \<Rightarrow> mlk_try (same_dtypes g t0 (n_inputs n)) (\<lambda>b. Inr (if b then Some out else None)))"

text \<open>The tensor \<open>td\<close> of a type with another shape.\<close>

definition with_shape :: "math_type \<Rightarrow> tensor_descriptor \<Rightarrow> int list \<Rightarrow> math_type" where
  "with_shape t td s = t\<lparr>mt_shape := Some s, mt_tensor := Some (td\<lparr>td_shape := s\<rparr>)\<rparr>"

definition scalar_of :: "math_type \<Rightarrow> math_type" where "scalar_of t = t\<lparr>mt_shape := None, mt_tensor := None\<rparr>"

definition infer_matmul :: "math_graph \<Rightarrow> gnode \<Rightarrow> math_type \<Rightarrow> inferred" where
  "infer_matmul g n ta = mlk_try (vec_at (n_inputs n) 1) (\<lambda>v. mlk_try (type_of g v) (\<lambda>tb.
     case (mt_tensor ta, mt_tensor tb) of
       (Some a, Some b) \<Rightarrow>
         if td_element a \<noteq> td_element b \<or> length (td_shape a) \<noteq> 2 \<or> length (td_shape b) \<noteq> 2 \<or> td_shape a ! 1 \<noteq> td_shape b ! 0 then Inr None
         else Inr (Some (with_shape ta a [td_shape a ! 0, td_shape b ! 1]))
     | _ \<Rightarrow> Inr None))"

definition infer_dot :: "math_type \<Rightarrow> math_type option" where
  "infer_dot t = (case mt_tensor t of Some td \<Rightarrow> if length (td_shape td) = 1 then Some (scalar_of t) else None | None \<Rightarrow> None)"

definition infer_transpose :: "math_type \<Rightarrow> math_type option" where
  "infer_transpose t = (case mt_tensor t of
     Some td \<Rightarrow> if length (td_shape td) = 2 then Some (with_shape t td [td_shape td ! 1, td_shape td ! 0]) else None
   | None \<Rightarrow> None)"

text \<open>A reshape writes through the tensor of its operand, which need not have one.\<close>

definition infer_reshape :: "math_graph \<Rightarrow> gnode \<Rightarrow> math_type \<Rightarrow> inferred" where
  "infer_reshape g n t0 = (case findAttr (n_attrs n) (wk_shapeDims g) of
     Some (A_Int rank) \<Rightarrow>
       if 0 \<le> rank \<and> rank \<le> int kMaxRank then
         (case mt_tensor t0 of None \<Rightarrow> Inl UndefinedBehaviour | Some td \<Rightarrow> Inr (Some (with_shape t0 td (replicate (nat rank) kDynamicDim))))
       else Inr (Some t0)
   | _ \<Rightarrow> Inr (Some t0))"

definition infer_reduce :: "math_type \<Rightarrow> math_type option" where
  "infer_reduce t = (if mt_tensor t = None then None else Some (scalar_of t))"

definition infer_lift :: "math_graph \<Rightarrow> gnode \<Rightarrow> math_type \<Rightarrow> inferred" where
  "infer_lift g n t0 = mlk_try (vec_at (n_results n) 0) (\<lambda>r. mlk_try (type_of g r) (\<lambda>annotated.
     Inr (Some (case mt_tensor annotated of
         Some td \<Rightarrow> if isScalarLike t0 \<and> td_element td = mt_dtype t0 then annotated else t0
       | None \<Rightarrow> t0))))"

definition inferResultType :: "math_graph \<Rightarrow> gnode \<Rightarrow> inferred" where
  "inferResultType g n = mlk_try (vec_at (n_inputs n) 0) (\<lambda>v. mlk_try (type_of g v) (\<lambda>t0.
     if n_op n \<in> set [Op_Add, Op_Sub, Op_Mul, Op_Div, Op_Neg, Op_Pow, Op_Exp, Op_Log, Op_Sin, Op_Cos, Op_Tan, Op_Tanh, Op_Sqrt,
         Op_Rsqrt, Op_Erf, Op_Gelu] then infer_elementwise g n t0
     else case n_op n of
       Op_MatMul \<Rightarrow> infer_matmul g n t0
     | Op_Dot \<Rightarrow> Inr (infer_dot t0)
     | Op_Transpose \<Rightarrow> Inr (infer_transpose t0)
     | Op_Reshape \<Rightarrow> infer_reshape g n t0
     | Op_ReduceSum \<Rightarrow> Inr (infer_reduce t0)
     | Op_ReduceMax \<Rightarrow> Inr (infer_reduce t0)
     | Op_ReduceMean \<Rightarrow> Inr (infer_reduce t0)
     | Op_IntToFloat \<Rightarrow> Inr (Some (t0\<lparr>mt_domain := Dom_Float, mt_dtype := Dt_F64\<rparr>))
     | Op_FloatToInt \<Rightarrow> Inr (Some (t0\<lparr>mt_domain := Dom_Int, mt_dtype := Dt_I64\<rparr>))
     | Op_RealToComplex \<Rightarrow> Inr (Some (t0\<lparr>mt_domain := Dom_Complex, mt_dtype := Dt_C128\<rparr>))
     | Op_ScalarToTensor \<Rightarrow> infer_lift g n t0
     | _ \<Rightarrow> Inr (Some t0)))"

section \<open>The pass\<close>

definition set_type :: "nat \<Rightarrow> math_type \<Rightarrow> math_graph \<Rightarrow> math_graph" where
  "set_type v t g = g\<lparr>g_values := (g_values g)[v := (g_values g ! v)\<lparr>v_type := t\<rparr>]\<rparr>"

fun infer_nodes :: "nat list \<Rightarrow> nat \<Rightarrow> math_graph \<Rightarrow> (nat \<times> math_graph) result" where
  "infer_nodes [] changed g = Inr (changed, g)"
| "infer_nodes (i # is) changed g = mlk_try (vec_at (g_nodes g) i) (\<lambda>n.
     if node_dead n \<or> n_inputs n = [] then infer_nodes is changed g
     else mlk_try (inferResultType g n) (\<lambda>r. case r of
         None \<Rightarrow> Inl (Err InvalidGraph)
       | Some t \<Rightarrow> mlk_try (vec_at (n_results n) 0) (\<lambda>v. mlk_try (vec_at (g_values g) v) (\<lambda>val.
           if v_type val \<noteq> t then infer_nodes is (changed + 1) (set_type v t g) else infer_nodes is changed g))))"

definition inferTypes :: "math_graph \<Rightarrow> (nat \<times> math_graph) result" where
  "inferTypes g = mlk_try (infer_nodes (topoOrder g) 0 g) (\<lambda>(changed, g). Inr (changed, bumpVersion g))"

text \<open>Only the ranks of a declared shape and of its tensor are compared.\<close>

fun check_ranks :: "gvalue list \<Rightarrow> nat \<Rightarrow> nat result" where
  "check_ranks [] n = Inr n"
| "check_ranks (v # vs) n = (case (mt_shape (v_type v), mt_tensor (v_type v)) of
     (Some s, Some td) \<Rightarrow> if length s \<noteq> length (td_shape td) then Inl (Err InvalidGraph) else check_ranks vs (n + 1)
   | _ \<Rightarrow> check_ranks vs (n + 1))"

definition inferShapes :: "math_graph \<Rightarrow> nat result" where "inferShapes g = check_ranks (g_values g) 0"

text \<open>
  Inference reaches a fixpoint. The type inferred for a node depends on the types of its operands and,
  for an explicit lift, on the annotation of its own result; assigning the inferred type to the
  result therefore changes neither its own inference nor that of earlier nodes.
\<close>

section \<open>What an inferred type depends on\<close>

lemma merge_shapes_cong: "\<forall>v \<in> set vs. type_of g' v = type_of g v \<Longrightarrow> merge_shapes g' vs acc = merge_shapes g vs acc"
  by (induction vs arbitrary: acc) (auto intro!: mlk_try_cong split: option.splits)

lemma same_types_cong: "\<forall>v \<in> set vs. type_of g' v = type_of g v \<Longrightarrow> same_types g' t vs = same_types g t vs"
  by (induction vs) (auto intro!: mlk_try_cong)

lemma same_dtypes_cong: "\<forall>v \<in> set vs. type_of g' v = type_of g v \<Longrightarrow> same_dtypes g' t vs = same_dtypes g t vs"
  by (induction vs) (auto intro!: mlk_try_cong)

lemma elementwise_cong:
  assumes "\<forall>v \<in> set (n_inputs n). type_of g' v = type_of g v"
  shows "infer_elementwise g' n t = infer_elementwise g n t"
proof -
  have d: "\<forall>v \<in> set (drop 1 (n_inputs n)). type_of g' v = type_of g v" using assms set_drop_subset by fast
  show ?thesis unfolding infer_elementwise_def merge_shapes_cong [OF d] same_types_cong [OF d] same_dtypes_cong [OF assms] ..
qed

lemma matmul_cong:
  assumes "\<forall>v \<in> set (n_inputs n). type_of g' v = type_of g v"
  shows "infer_matmul g' n t = infer_matmul g n t"
  using assms by (auto simp: infer_matmul_def vec_at_def intro!: mlk_try_cong)

lemma inferResultType_cong:
  assumes ins: "\<forall>v \<in> set (n_inputs n). type_of g' v = type_of g v" and sym: "g_symbols g' = g_symbols g"
    and lift: "n_op n = Op_ScalarToTensor \<Longrightarrow> \<forall>v \<in> set (n_results n). type_of g' v = type_of g v"
  shows "inferResultType g' n = inferResultType g n"
proof (cases "n_inputs n")
  case (Cons v vs)
  have l: "infer_lift g' n t = infer_lift g n t" if "n_op n = Op_ScalarToTensor" for t
    using lift [OF that] by (auto simp: infer_lift_def vec_at_def intro!: mlk_try_cong)
  have r: "infer_reshape g' n t = infer_reshape g n t" for t by (simp add: infer_reshape_def wk_shapeDims_def sym)
  have t: "type_of g' v = type_of g v" using ins Cons by simp
  show ?thesis
    unfolding inferResultType_def elementwise_cong [OF ins] matmul_cong [OF ins] r
    using Cons t l by (auto simp: vec_at_def intro!: mlk_try_cong split: math_op.split)
qed (simp add: inferResultType_def vec_at_def)

lemma type_of_set:
  "v < length (g_values g) \<Longrightarrow> type_of (set_type v t g) w = (if w = v then Inr t else type_of g w)"
  by (auto simp: type_of_def set_type_def vec_at_def nth_list_update)

text \<open>Assigning the inferred type is stable, the annotation of a lift included.\<close>

lemma lift_stable:
  assumes "infer_lift g n t0 = Inr (Some t)" and "n_results n = [r]" and "r < length (g_values g)"
  shows "infer_lift (set_type r t g) n t0 = Inr (Some t)"
proof -
  obtain a where a: "type_of g r = Inr a" using assms(3) by (simp add: type_of_def vec_at_def)
  have t: "t = (case mt_tensor a of Some td \<Rightarrow> if isScalarLike t0 \<and> td_element td = mt_dtype t0 then a else t0 | None \<Rightarrow> t0)"
    using assms a by (simp add: infer_lift_def vec_at_def)
  then show ?thesis using type_of_set [OF assms(3), of t r] assms(2)
    by (auto simp: infer_lift_def vec_at_def isScalarLike_def split: option.splits if_splits)
qed

lemma infer_stable:
  assumes run: "inferResultType g n = Inr (Some t)" and r: "n_results n = [r]" "r < length (g_values g)" "r \<notin> set (n_inputs n)"
  shows "inferResultType (set_type r t g) n = Inr (Some t)"
proof (cases "n_op n = Op_ScalarToTensor")
  case True
  from run obtain v t0 where t0: "vec_at (n_inputs n) 0 = Inr v" "type_of g v = Inr t0" "infer_lift g n t0 = Inr (Some t)"
    using True by (auto simp: inferResultType_def mlk_try_Inr_iff)
  have "v \<noteq> r" using t0(1) r(3) by (auto simp: vec_at_def split: if_splits)
  then have "type_of (set_type r t g) v = Inr t0" using type_of_set [OF r(2)] t0(2) by simp
  with t0(1) lift_stable [OF t0(3) r(1,2)] True show ?thesis by (simp add: inferResultType_def)
next
  case False
  have "inferResultType (set_type r t g) n = inferResultType g n"
    by (rule inferResultType_cong) (use False r type_of_set in \<open>auto simp: set_type_def\<close>)
  with run show ?thesis by simp
qed

section \<open>The fixpoint\<close>

definition typed :: "math_graph \<Rightarrow> nat \<Rightarrow> bool" where
  "typed g i \<longleftrightarrow> n_inputs (g_nodes g ! i) \<noteq> [] \<longrightarrow>
     (\<exists>r t. n_results (g_nodes g ! i) = [r] \<and> type_of g r = Inr t \<and> inferResultType g (g_nodes g ! i) = Inr (Some t))"

lemma set_type_recached: "v < length (g_values g) \<Longrightarrow> recached g (set_type v t g)"
  by (simp add: recached_def set_type_def value_core_keeps)

lemma typed_later:
  assumes ok: "graph_ok g" and i: "i < length (g_nodes g)" "\<not> node_dead (g_nodes g ! i)" and j: "i < j" "j < length (g_nodes g)"
    and r: "n_results (g_nodes g ! j) = [r]" and t: "typed g i"
  shows "typed (set_type r ty g) i"
proof -
  let ?n = "g_nodes g ! i" and ?g = "set_type r ty g"
  have rj: "r < length (g_values g)" "v_kind (g_values g ! r) = NodeResult" "v_producer (g_values g ! r) = Some j"
    using node_result [OF ok j(2)] r by auto
  have "v \<noteq> r" if "v \<in> set (n_inputs ?n)" for v
    using operand_usable [OF ok i that] rj j(1) by (auto simp: usable_def)
  moreover obtain q where q: "n_results ?n = [q]" "v_producer (g_values g ! q) = Some i" using node_result [OF ok i(1)] by metis
  then have "q \<noteq> r" using rj j(1) by auto
  ultimately have ty: "\<forall>v \<in> set (n_inputs ?n). type_of ?g v = type_of g v" "type_of ?g q = type_of g q"
    using type_of_set [OF rj(1)] by auto
  have "inferResultType ?g ?n = inferResultType g ?n"
    by (rule inferResultType_cong) (use ty q in \<open>auto simp: set_type_def\<close>)
  moreover have "g_nodes ?g = g_nodes g" by (simp add: set_type_def)
  ultimately show ?thesis using t q ty by (auto simp: typed_def)
qed

lemma infer_nodes_fixpoint:
  assumes "infer_nodes is c g = Inr (k, g')" and "graph_ok g" and "sorted_wrt (<) is"
    and "\<forall>i \<in> set is. i < length (g_nodes g) \<and> \<not> node_dead (g_nodes g ! i)"
    and "\<forall>i \<in> D. (i < length (g_nodes g) \<and> \<not> node_dead (g_nodes g ! i) \<and> typed g i) \<and> (\<forall>j \<in> set is. i < j)"
  shows "recached g g' \<and> g_symbols g' = g_symbols g \<and> (\<forall>i \<in> D \<union> set is. typed g' i)"
  using assms
proof (induction "is" arbitrary: c g D)
  case (Cons i js)
  let ?n = "g_nodes g ! i"
  have i: "i < length (g_nodes g)" "\<not> node_dead ?n" using Cons.prems(4) by simp_all
  have js: "sorted_wrt (<) js" "\<forall>j \<in> set js. i < j" using Cons.prems(3) by simp_all
  obtain r where r: "n_results ?n = [r]" "r < length (g_values g)" "v_producer (g_values g ! r) = Some i" "v_kind (g_values g ! r) = NodeResult"
    using node_result [OF Cons.prems(2) i(1)] by metis
  have step: "recached g g' \<and> g_symbols g' = g_symbols g \<and> (\<forall>x \<in> D \<union> set (i # js). typed g' x)"
    if run: "infer_nodes js c' g1 = Inr (k, g')" and rc: "recached g g1" "g_symbols g1 = g_symbols g" and ti: "typed g1 i"
      and td: "\<forall>x \<in> D. typed g1 x" for c' g1
  proof -
    have n: "g_nodes g1 = g_nodes g" using rc(1) by (simp add: recached_def)
    have "\<forall>j \<in> set js. j < length (g_nodes g1) \<and> \<not> node_dead (g_nodes g1 ! j)" using Cons.prems(4) n by simp
    moreover have "\<forall>x \<in> insert i D. (x < length (g_nodes g1) \<and> \<not> node_dead (g_nodes g1 ! x) \<and> typed g1 x) \<and> (\<forall>j \<in> set js. x < j)"
      using Cons.prems(5) i js(2) ti td n by auto
    ultimately have "recached g1 g' \<and> g_symbols g' = g_symbols g1 \<and> (\<forall>x \<in> insert i D \<union> set js. typed g' x)"
      using Cons.IH [OF run recached_ok [OF rc(1) Cons.prems(2)] js(1), of "insert i D"] by blast
    with rc recached_trans show ?thesis by auto
  qed
  show ?case
  proof (cases "n_inputs ?n = []")
    case True
    with Cons.prems(1) i have "infer_nodes js c g = Inr (k, g')" by (simp add: vec_at_def)
    then show ?thesis by (rule step) (use True Cons.prems(5) in \<open>simp_all add: typed_def\<close>)
  next
    case False
    from Cons.prems(1) i False r obtain t where t: "inferResultType g ?n = Inr (Some t)"
      and run: "(if v_type (g_values g ! r) \<noteq> t then infer_nodes js (c + 1) (set_type r t g) else infer_nodes js c g) = Inr (k, g')"
      by (auto simp: vec_at_def mlk_try_Inr_iff split: option.splits)
    have own: "r \<notin> set (n_inputs ?n)" using operand_usable [OF Cons.prems(2) i, of r] r by (auto simp: usable_def)
    show ?thesis
    proof (cases "v_type (g_values g ! r) = t")
      case True
      then have "typed g i" using t r by (auto simp: typed_def type_of_def vec_at_def)
      with run True show ?thesis by (intro step [of c g]) (use Cons.prems(5) in simp_all)
    next
      case other: False
      have "typed (set_type r t g) i"
        using infer_stable [OF t r(1,2) own] type_of_set [OF r(2)] r(1) by (auto simp: typed_def set_type_def)
      moreover have "\<forall>x \<in> D. typed (set_type r t g) x"
        using typed_later [OF Cons.prems(2) _ _ _ i(1) r(1)] Cons.prems(5) by auto
      moreover have "infer_nodes js (c + 1) (set_type r t g) = Inr (k, g')" using run other by simp
      moreover have "g_symbols (set_type r t g) = g_symbols g" by (simp add: set_type_def)
      ultimately show ?thesis using step set_type_recached [OF r(2)] by blast
    qed
  qed
qed simp

lemma infer_nodes_idle:
  assumes "\<forall>i \<in> set is. i < length (g_nodes g) \<and> typed g i"
  shows "infer_nodes is c g = Inr (c, g)"
  using assms
proof (induction "is")
  case (Cons i js)
  let ?n = "g_nodes g ! i"
  have i: "i < length (g_nodes g)" "typed g i" using Cons.prems by simp_all
  have rest: "infer_nodes js c g = Inr (c, g)" using Cons by simp
  show ?case
  proof (cases "node_dead ?n \<or> n_inputs ?n = []")
    case True
    then show ?thesis using rest i by (auto simp: vec_at_def)
  next
    case False
    with i(2) obtain r t where rt: "n_results ?n = [r]" "type_of g r = Inr t" "inferResultType g ?n = Inr (Some t)" by (auto simp: typed_def)
    from rt(2) have "r < length (g_values g)" "v_type (g_values g ! r) = t" by (auto simp: type_of_def vec_at_def split: if_splits)
    with False rt rest i show ?thesis by (simp add: vec_at_def)
  qed
qed simp

lemma inferTypes_fixpoint_run:
  assumes ok: "graph_ok g" and run: "inferTypes g = Inr (k, g')"
  shows "recached g g'" and "\<forall>i \<in> set (topoOrder g). typed g' i" and "\<exists>g''. inferTypes g' = Inr (0, g'')"
proof -
  from run obtain h where h: "infer_nodes (topoOrder g) 0 g = Inr (k, h)" "g' = bumpVersion h" by (auto simp: inferTypes_def mlk_try_Inr_iff)
  have bump: "inferResultType (bumpVersion h) n = inferResultType h n" "type_of (bumpVersion h) v = type_of h v" for n v
    by (rule inferResultType_cong) (simp_all add: bumpVersion_def type_of_def)
  have fp: "recached g h \<and> g_symbols h = g_symbols g \<and> (\<forall>i \<in> {} \<union> set (topoOrder g). typed h i)"
    by (rule infer_nodes_fixpoint [OF h(1) ok topo_sorted [OF ok]]) (use topo_live(2) [OF ok] in auto)
  then show rc: "recached g g'" unfolding h(2) by (simp add: recached_def bumpVersion_def)
  show t: "\<forall>i \<in> set (topoOrder g). typed g' i"
    using fp bump unfolding h(2) by (simp add: typed_def) (simp add: bumpVersion_def)
  have n: "g_nodes g' = g_nodes g" using rc by (simp add: recached_def)
  then have "topoOrder g' = topoOrder g" by (simp add: topoOrder_def)
  moreover have "infer_nodes (topoOrder g) 0 g' = Inr (0, g')"
    by (rule infer_nodes_idle) (use t topo_live(2) [OF ok] n in auto)
  ultimately show "\<exists>g''. inferTypes g' = Inr (0, g'')" by (simp add: inferTypes_def)
qed

end
