(* ===== verification/Graph_Verifier.thy ===== *)
theory Graph_Verifier
  imports Type_Inference
begin

text \<open>
  The verifier that the pipeline runs between passes, \<open>verifier/graph_verifier.cpp\<close>. The answer is
  whether nothing was reported; the reports themselves are left out. All checks run even after one
  of them has failed, so undefined behaviour in a later check is not prevented by an earlier one.
\<close>

section \<open>The checks\<close>

record verify_options =
  vo_types :: bool
  vo_effects :: bool
  vo_guards :: bool
  vo_facts :: bool
  vo_acyclic :: bool

definition default_options :: verify_options where
  "default_options = \<lparr>vo_types = True, vo_effects = True, vo_guards = True, vo_facts = True, vo_acyclic = True\<rparr>"

definition node_intact :: "math_graph \<Rightarrow> gnode \<Rightarrow> bool" where
  "node_intact g n \<longleftrightarrow> list_all (\<lambda>v. v < length (g_values g)) (n_inputs n) \<and> list_all (\<lambda>v. v < length (g_values g)) (n_results n)
     \<and> arityAccepts (n_op n) (length (n_inputs n))"

definition nodes_intact :: "math_graph \<Rightarrow> bool" where
  "nodes_intact g \<longleftrightarrow> list_all (\<lambda>n. node_dead n \<or> node_intact g n) (g_nodes g)"

text \<open>The producer of an output is looked up before it has been checked.\<close>

definition output_defined :: "math_graph \<Rightarrow> nat \<Rightarrow> bool result" where
  "output_defined g v =
     (if v \<ge> length (g_values g) then Inr False
      else if v_kind (g_values g ! v) \<noteq> NodeResult then Inr True
      else case v_producer (g_values g ! v) of
        None \<Rightarrow> Inl UndefinedBehaviour
      | Some p \<Rightarrow> mlk_try (isNodeDead g p) (\<lambda>d. Inr (\<not> d)))"

fun outputs_defined :: "math_graph \<Rightarrow> nat list \<Rightarrow> bool result" where
  "outputs_defined g [] = Inr True"
| "outputs_defined g (v # vs) = mlk_try (output_defined g v) (\<lambda>a. mlk_try (outputs_defined g vs) (\<lambda>b. Inr (a \<and> b)))"

definition producers_exist :: "math_graph \<Rightarrow> bool" where
  "producers_exist g \<longleftrightarrow> list_all (\<lambda>v. v_kind v = NodeResult \<longrightarrow>
     (case v_producer v of None \<Rightarrow> False | Some p \<Rightarrow> p < length (g_nodes g))) (g_values g)"

definition produced_before :: "math_graph \<Rightarrow> nat \<Rightarrow> nat \<Rightarrow> bool" where
  "produced_before g i v \<longleftrightarrow> (v < length (g_values g) \<and> v_kind (g_values g ! v) = NodeResult \<longrightarrow>
     (case v_producer (g_values g ! v) of None \<Rightarrow> False | Some p \<Rightarrow> p < i))"

definition acyclic_ids :: "math_graph \<Rightarrow> bool" where
  "acyclic_ids g \<longleftrightarrow> list_all (\<lambda>n. node_dead n \<or> list_all (produced_before g (n_id n)) (n_inputs n)) (g_nodes g)"

fun types_match :: "math_graph \<Rightarrow> nat list \<Rightarrow> bool result" where
  "types_match g [] = Inr True"
| "types_match g (i # is) = mlk_try (vec_at (g_nodes g) i) (\<lambda>n.
     if node_dead n \<or> n_inputs n = [] then types_match g is
     else mlk_try (inferResultType g n) (\<lambda>t. mlk_try (vec_at (n_results n) 0) (\<lambda>r. mlk_try (type_of g r) (\<lambda>s.
       mlk_try (types_match g is) (\<lambda>b. Inr ((mt_domain s = Dom_Unknown \<or> t = Some s) \<and> b))))))"

definition effect_entry :: "math_graph \<Rightarrow> nat \<Rightarrow> bool" where
  "effect_entry g i \<longleftrightarrow> i < length (g_nodes g) \<and> \<not> node_dead (g_nodes g ! i) \<and> \<not> isPure (n_effects (g_nodes g ! i))"

definition guard_complete :: "gnode \<Rightarrow> bool" where
  "guard_complete n \<longleftrightarrow> flag_test (n_flags n) NF_HasGraphState \<and> si_source (n_speculation n) \<noteq> Spec_None
     \<and> si_fallbackTarget (n_speculation n) \<noteq> None"

definition guards_complete :: "math_graph \<Rightarrow> bool" where
  "guards_complete g \<longleftrightarrow> list_all (\<lambda>n. node_dead n \<or> \<not> flag_test (n_flags n) NF_Speculative \<or> guard_complete n) (g_nodes g)"

definition facts_consistent :: "math_graph \<Rightarrow> bool" where
  "facts_consistent g \<longleftrightarrow> list_all (\<lambda>v. \<not> (isTrue (v_facts v) MonotonicIncreasing \<and> isTrue (v_facts v) MonotonicDecreasing)) (g_values g)"

definition verifyGraph :: "math_graph \<Rightarrow> bool \<Rightarrow> verify_options \<Rightarrow> bool result" where
  "verifyGraph g has_profile opts =
     mlk_try (outputs_defined g (g_outputs g)) (\<lambda>outs.
     mlk_try (if vo_types opts \<and> has_profile then types_match g (topoOrder g) else Inr True) (\<lambda>types.
       Inr (nodes_intact g \<and> outs \<and> producers_exist g \<and> (vo_acyclic opts \<longrightarrow> acyclic_ids g) \<and> types
         \<and> (vo_effects opts \<longrightarrow> list_all (effect_entry g) (g_effects g)) \<and> (vo_guards opts \<longrightarrow> guards_complete g)
         \<and> (vo_facts opts \<longrightarrow> facts_consistent g))))"

section \<open>What acceptance means\<close>

lemma outputs_defined_true: "outputs_defined g vs = Inr True \<Longrightarrow> v \<in> set vs \<Longrightarrow> output_defined g v = Inr True"
  by (induction vs) (auto simp: mlk_try_Inr_iff)

lemma outputs_defined_all: "\<forall>v \<in> set vs. output_defined g v = Inr True \<Longrightarrow> outputs_defined g vs = Inr True"
  by (induction vs) auto

lemma output_defined_live:
  assumes "output_defined g v = Inr True"
  shows "v < length (g_values g) \<and> (v_kind (g_values g ! v) = NodeResult \<longrightarrow>
    (\<exists>p. v_producer (g_values g ! v) = Some p \<and> p < length (g_nodes g) \<and> \<not> node_dead (g_nodes g ! p)))"
  using assms by (auto simp: output_defined_def isNodeDead_def vec_at_def split: if_splits option.splits)

lemma types_match_typed:
  "\<forall>i \<in> set is. i < length (g_nodes g) \<and> typed g i \<Longrightarrow> types_match g is = Inr True"
proof (induction "is")
  case (Cons i js)
  let ?n = "g_nodes g ! i"
  have i: "i < length (g_nodes g)" "typed g i" and rest: "types_match g js = Inr True" using Cons by simp_all
  show ?case
  proof (cases "node_dead ?n \<or> n_inputs ?n = []")
    case True
    then show ?thesis using i rest by (auto simp: vec_at_def)
  next
    case False
    with i(2) obtain r t where "n_results ?n = [r]" "type_of g r = Inr t" "inferResultType g ?n = Inr (Some t)" by (auto simp: typed_def)
    with False rest i show ?thesis by (auto simp: vec_at_def)
  qed
qed simp

text \<open>A well-formed graph whose types are a fixpoint is accepted.\<close>

lemma verifyGraph_accepts_run:
  assumes ok: "graph_ok g" and arity: "\<forall>n \<in> set (g_nodes g). \<not> node_dead n \<longrightarrow> arityAccepts (n_op n) (length (n_inputs n))"
    and prod: "producers_exist g" and guards: "guards_complete g" and facts: "facts_consistent g"
    and typed: "\<forall>i \<in> set (topoOrder g). typed g i"
  shows "verifyGraph g has_profile opts = Inr True"
proof -
  have node: "node_intact g (g_nodes g ! i) \<and> list_all (produced_before g (n_id (g_nodes g ! i))) (n_inputs (g_nodes g ! i))"
    if i: "i < length (g_nodes g)" "\<not> node_dead (g_nodes g ! i)" for i
  proof -
    obtain r where r: "r < length (g_values g)" "n_results (g_nodes g ! i) = [r]" "n_id (g_nodes g ! i) = i"
      using node_result [OF ok i(1)] by metis
    have u: "v < length (g_values g) \<and> produced_before g i v" if "v \<in> set (n_inputs (g_nodes g ! i))" for v
      using operand_usable [OF ok i that] by (auto simp: usable_def produced_before_def)
    then show ?thesis using r arity i by (auto simp: node_intact_def list_all_iff)
  qed
  have "nodes_intact g" "acyclic_ids g" using node by (auto simp: nodes_intact_def acyclic_ids_def list_all_length)
  moreover have "output_defined g v = Inr True" if "v \<in> set (g_outputs g)" for v
    using graph_okD(5) [OF ok that] by (auto simp: usable_def output_defined_def isNodeDead_def vec_at_def split: option.splits)
  then have "outputs_defined g (g_outputs g) = Inr True" by (simp add: outputs_defined_all)
  moreover have "types_match g (topoOrder g) = Inr True"
    by (rule types_match_typed) (use typed topo_live(2) [OF ok] in blast)
  moreover have "list_all (effect_entry g) (g_effects g)" using graph_okD(7) [OF ok] by (auto simp: effects_ok_def list_all_iff effect_entry_def)
  ultimately show ?thesis using prod guards facts by (simp add: verifyGraph_def)
qed

text \<open>Inference keeps what the other checks look at.\<close>

lemma recached_producers:
  assumes "recached g g'" and "producers_exist g"
  shows "producers_exist g'"
proof -
  have l: "length (g_values g') = length (g_values g)" by (rule recached_length [OF assms(1)])
  have c: "map value_core (g_values g') = map value_core (g_values g)" "g_nodes g' = g_nodes g" using assms(1) by (simp_all add: recached_def)
  show ?thesis using assms(2) value_core_nth(2,4) [OF c(1)] by (auto simp: producers_exist_def list_all_length l c(2) split: option.splits)
qed

lemma infer_nodes_facts: "infer_nodes is c g = Inr (k, g') \<Longrightarrow> map v_facts (g_values g') = map v_facts (g_values g)"
proof (induction "is" arbitrary: c g)
  case (Cons i js)
  have "map v_facts (g_values (set_type v t g)) = map v_facts (g_values g)" if "v < length (g_values g)" for v t
    using that by (simp add: set_type_def map_update) (metis length_map list_update_id nth_map)
  with Cons show ?case by (auto simp: mlk_try_Inr_iff vec_at_def split: if_splits option.splits)
qed simp

lemma infer_facts: "inferTypes g = Inr (k, g') \<Longrightarrow> facts_consistent g' \<longleftrightarrow> facts_consistent g"
proof -
  assume "inferTypes g = Inr (k, g')"
  then have "map v_facts (g_values g') = map v_facts (g_values g)"
    using infer_nodes_facts by (fastforce simp: inferTypes_def mlk_try_Inr_iff bumpVersion_def)
  moreover have "facts_consistent h \<longleftrightarrow> list_all (\<lambda>f. \<not> (isTrue f MonotonicIncreasing \<and> isTrue f MonotonicDecreasing)) (map v_facts (g_values h))" for h
    by (simp add: facts_consistent_def list.pred_map comp_def)
  ultimately show ?thesis by simp
qed

end
