(* ===== verification/Verifier_Properties.thy ===== *)
theory Verifier_Properties
  imports Graph_Verifier Pass_Properties
begin

text \<open>
  What type inference and the verifier guarantee, and what the verifier lets through.
\<close>

section \<open>Inference\<close>

text \<open>
  C30. Broadcasting of shapes with unknown dimensions is sound: whatever the dimensions turn out to be in
  a run, if the concrete shapes broadcast there, then the declared shapes broadcast, and to a shape
  whose known dimensions are the concrete ones.
\<close>
theorem broadcast_sound:
  assumes "runs_as a x" and "runs_as b y" and "broadcast x y = Some z"
  shows "\<exists>c. broadcast a b = Some c \<and> runs_as c z"
  using assms by (rule broadcast_sound_run)

lemma broadcast_sound_witness: "\<exists>c. broadcast [-1, 3] [-1] = Some c \<and> runs_as c [2, 3]"
proof -
  have "runs_as [-1, 3] [2, 3]" "runs_as [-1] [1]" "broadcast [2, 3] [1] = Some [2, 3]" by code_simp+
  then show ?thesis using broadcast_sound [of "[-1, 3]" "[2, 3]" "[-1]" "[1]" "[2, 3]"] by simp
qed

text \<open>
  C31. Type inference reaches its fixpoint in one pass: when it succeeds on a well-formed graph, every
  live node with operands carries the type that the inference gives for it in the resulting graph,
  a second run changes nothing, and neither the invariant nor the interpreter sees a difference.
\<close>
theorem inferTypes_fixpoint:
  assumes "graph_ok g" and "inferTypes g = Inr (k, g')"
  shows "graph_ok g' \<and> interpretGraph lm g' ins = interpretGraph lm g ins
    \<and> (\<forall>i < length (g_nodes g'). \<not> node_dead (g_nodes g' ! i) \<longrightarrow> n_inputs (g_nodes g' ! i) \<noteq> [] \<longrightarrow>
         (\<exists>r. n_results (g_nodes g' ! i) = [r] \<and> inferResultType g' (g_nodes g' ! i) = Inr (Some (v_type (g_values g' ! r)))))
    \<and> (\<exists>g''. inferTypes g' = Inr (0, g''))"
proof -
  note run = inferTypes_fixpoint_run [OF assms]
  have "\<exists>r. n_results (g_nodes g' ! i) = [r] \<and> inferResultType g' (g_nodes g' ! i) = Inr (Some (v_type (g_values g' ! r)))"
    if "i < length (g_nodes g')" "\<not> node_dead (g_nodes g' ! i)" "n_inputs (g_nodes g' ! i) \<noteq> []" for i
  proof -
    have "g_nodes g' = g_nodes g" using run(1) by (simp add: recached_def)
    with that run(2) topo_live(2) [OF assms(1)] have "typed g' i" by simp
    with that(3) show ?thesis by (auto simp: typed_def type_of_def vec_at_def split: if_splits)
  qed
  then show ?thesis using recached_ok [OF run(1) assms(1)] recached_interpret [OF run(1) assms(1)] run(3) by simp
qed

text \<open>A sum of two floating-point scalars whose result has no type yet.\<close>

definition untyped_sum :: math_graph where
  "untyped_sum = built [Make_placeholder 0 (scalar_type Dom_Float Dt_F64), Make_placeholder 1 (scalar_type Dom_Float Dt_F64),
     Make_node Op_Add [0, 1] [], Make_output 2]"

lemma untyped_sum_ok: "graph_ok untyped_sum"
  unfolding untyped_sum_def by (rule built_ok(1); code_simp)

lemma untyped_sum_inferred: "\<exists>g'. inferTypes untyped_sum = Inr (1, g') \<and> v_type (g_values g' ! 2) = scalar_type Dom_Float Dt_F64"
proof -
  have "case inferTypes untyped_sum of Inl e \<Rightarrow> False | Inr (k, g') \<Rightarrow> k = 1 \<and> v_type (g_values g' ! 2) = scalar_type Dom_Float Dt_F64"
    by code_simp
  then show ?thesis by (auto split: sum.splits)
qed

lemma inferTypes_fixpoint_witness:
  "\<exists>g' g''. inferTypes untyped_sum = Inr (1, g') \<and> graph_ok g' \<and> inferTypes g' = Inr (0, g'')"
proof -
  from untyped_sum_inferred obtain g' where g': "inferTypes untyped_sum = Inr (1, g')" by blast
  from inferTypes_fixpoint [OF untyped_sum_ok g', of no_libm "[]"] g' show ?thesis by blast
qed

text \<open>A reshape of a scalar to a declared rank writes through a tensor descriptor that is not there.\<close>

definition reshaped_scalar :: math_graph where
  "reshaped_scalar = built [Make_placeholder 0 (scalar_type Dom_Float Dt_F64), Make_node Op_Reshape [0] [(0, A_Int 1)], Make_output 1]"

lemma reshape_scalar_undefined: "inferTypes reshaped_scalar = Inl UndefinedBehaviour"
  by code_simp

section \<open>Verification\<close>

text \<open>
  C32. A graph that the verifier accepts is safe to interpret: operands, results and outputs exist,
  every operation has a legal number of operands, operands come from smaller ids, no output comes
  from a dead node, and the effect chain lists live effectful nodes.
\<close>
theorem verifyGraph_sound:
  assumes "verifyGraph g True default_options = Inr True"
  shows "(\<forall>n \<in> set (g_nodes g). \<not> node_dead n \<longrightarrow> arityAccepts (n_op n) (length (n_inputs n))
        \<and> (\<forall>r \<in> set (n_results n). r < length (g_values g))
        \<and> (\<forall>v \<in> set (n_inputs n). v < length (g_values g) \<and> (v_kind (g_values g ! v) = NodeResult \<longrightarrow>
             (\<exists>p < n_id n. p < length (g_nodes g) \<and> v_producer (g_values g ! v) = Some p))))
    \<and> (\<forall>v \<in> set (g_outputs g). v < length (g_values g) \<and> (v_kind (g_values g ! v) = NodeResult \<longrightarrow>
         (\<exists>p < length (g_nodes g). v_producer (g_values g ! v) = Some p \<and> \<not> node_dead (g_nodes g ! p))))
    \<and> (\<forall>i \<in> set (g_effects g). i < length (g_nodes g) \<and> \<not> node_dead (g_nodes g ! i) \<and> \<not> isPure (n_effects (g_nodes g ! i)))"
proof -
  have parts: "nodes_intact g" "acyclic_ids g" "producers_exist g" "list_all (effect_entry g) (g_effects g)"
    "outputs_defined g (g_outputs g) = Inr True"
    using assms by (auto simp: verifyGraph_def default_options_def mlk_try_Inr_iff)
  have "\<exists>p < n_id n. p < length (g_nodes g) \<and> v_producer (g_values g ! v) = Some p"
    if n: "n \<in> set (g_nodes g)" "\<not> node_dead n" "v \<in> set (n_inputs n)" and v: "v < length (g_values g)" "v_kind (g_values g ! v) = NodeResult" for n v
  proof -
    have "produced_before g (n_id n) v" using parts(2) n by (auto simp: acyclic_ids_def list_all_iff)
    moreover have "case v_producer (g_values g ! v) of None \<Rightarrow> False | Some p \<Rightarrow> p < length (g_nodes g)"
      using parts(3) v by (simp add: producers_exist_def list_all_length)
    ultimately show ?thesis using v by (auto simp: produced_before_def split: option.splits)
  qed
  moreover have "\<forall>n \<in> set (g_nodes g). \<not> node_dead n \<longrightarrow> node_intact g n" using parts(1) by (auto simp: nodes_intact_def list_all_iff)
  moreover have "\<forall>v \<in> set (g_outputs g). v < length (g_values g) \<and> (v_kind (g_values g ! v) = NodeResult \<longrightarrow>
      (\<exists>p < length (g_nodes g). v_producer (g_values g ! v) = Some p \<and> \<not> node_dead (g_nodes g ! p)))"
    using output_defined_live outputs_defined_true [OF parts(5)] by meson
  ultimately show ?thesis using parts(4) by (simp add: node_intact_def list_all_iff effect_entry_def)
qed

lemma twice_sum_verified: "verifyGraph twice_sum True default_options = Inr True"
  by code_simp

lemma verifyGraph_sound_witness: "g_outputs twice_sum = [4] \<and> 4 < length (g_values twice_sum)"
proof -
  have o: "g_outputs twice_sum = [4]" by code_simp
  then have "4 < length (g_values twice_sum)" using verifyGraph_sound [OF twice_sum_verified] by simp
  with o show ?thesis by simp
qed

text \<open>
  C33. Inference establishes what the verifier checks: after inference has succeeded on a well-formed graph
  with legal arities, complete guards, consistent facts and producers for all results, the verifier
  accepts the graph with every check switched on.
\<close>
theorem verify_after_inference:
  assumes ok: "graph_ok g" and arity: "\<forall>n \<in> set (g_nodes g). \<not> node_dead n \<longrightarrow> arityAccepts (n_op n) (length (n_inputs n))"
    and "producers_exist g" "guards_complete g" "facts_consistent g" and run: "inferTypes g = Inr (k, g')"
  shows "verifyGraph g' True default_options = Inr True"
proof -
  note fp = inferTypes_fixpoint_run [OF ok run]
  have n: "g_nodes g' = g_nodes g" using fp(1) by (simp add: recached_def)
  then have t: "topoOrder g' = topoOrder g" by (simp add: topoOrder_def)
  show ?thesis
  proof (rule verifyGraph_accepts_run)
    show "graph_ok g'" by (rule recached_ok [OF fp(1) ok])
    show "producers_exist g'" by (rule recached_producers [OF fp(1) assms(3)])
    show "guards_complete g'" using assms(4) by (simp add: guards_complete_def n)
    show "facts_consistent g'" using infer_facts [OF run] assms(5) by simp
  qed (use arity fp(2) n t in simp_all)
qed

lemma verify_after_inference_witness: "\<exists>g'. inferTypes untyped_sum = Inr (1, g') \<and> verifyGraph g' True default_options = Inr True"
proof -
  from untyped_sum_inferred obtain g' where g': "inferTypes untyped_sum = Inr (1, g')" by blast
  have "list_all (\<lambda>n. arityAccepts (n_op n) (length (n_inputs n))) (g_nodes untyped_sum)" by code_simp
  then have "\<forall>n \<in> set (g_nodes untyped_sum). \<not> node_dead n \<longrightarrow> arityAccepts (n_op n) (length (n_inputs n))" by (simp add: list_all_iff)
  moreover have "producers_exist untyped_sum" "guards_complete untyped_sum" "facts_consistent untyped_sum" by code_simp+
  ultimately show ?thesis using verify_after_inference [OF untyped_sum_ok _ _ _ _ g'] g' by blast
qed

text \<open>\<open>-(-x)\<close> after the inner node was killed, and an output whose producer is not set.\<close>

definition dead_operand :: math_graph where
  "dead_operand = (case killNode 0 (built [Make_placeholder 0 new_type, Make_node Op_Neg [0] [], Make_node Op_Neg [1] [], Make_output 2]) of
     Inl e \<Rightarrow> new_graph [] | Inr (b, g) \<Rightarrow> g)"

definition orphan_output :: math_graph where
  "orphan_output = (let g = built [Make_placeholder 0 new_type, Make_output 0] in
     g\<lparr>g_values := map (\<lambda>v. v\<lparr>v_kind := NodeResult\<rparr>) (g_values g)\<rparr>)"

text \<open>
  The verifier looks for dead producers of outputs only: a graph in which a live node reads the result
  of a dead node is accepted. And it looks the producer of an output up before checking that there
  is one: on a node result without a producer, which a later check would report, it reads outside
  the node vector.
\<close>
theorem verify_misses_dead_operand:
  "verifyGraph dead_operand True default_options = Inr True \<and> map node_dead (g_nodes dead_operand) = [True, False]
     \<and> map n_results (g_nodes dead_operand) = [[1], [2]] \<and> map n_inputs (g_nodes dead_operand) = [[0], [1]]
     \<and> \<not> producers_exist orphan_output \<and> verifyGraph orphan_output True default_options = Inl UndefinedBehaviour"
  by (intro conjI; code_simp)

end
