(* ===== verification/Symbol_Table.thy ===== *)
theory Symbol_Table
  imports Decimal
begin

text \<open>
  The interned names of \<open>compiler/include/mlk/core/symbol_table.h\<close>: a pool of strings indexed by
  32-bit ids. The lookup table of the source maps every string of the pool to its index, so looking a
  name up is searching the pool. The lock and the reserved capacity are left out.
\<close>

type_synonym symbol_table = "string list"

definition kInvalidSymbolId :: "32 word" where "kInvalidSymbolId = 4294967295"

definition intern :: "string \<Rightarrow> symbol_table \<Rightarrow> 32 word \<times> symbol_table" where
  "intern name pool =
     (case find_index ((=) name) pool of
        Some i \<Rightarrow> (of_nat i, pool)
      | None \<Rightarrow> (of_nat (length pool), pool @ [name]))"

definition symbol_text :: "symbol_table \<Rightarrow> 32 word \<Rightarrow> string result" where
  "symbol_text pool i = vec_at pool (unat i)"

lemma unat_symbol: "i < 2 ^ 32 \<Longrightarrow> unat (of_nat i :: 32 word) = i"
  by (simp add: unat_of_nat take_bit_eq_mod)

text \<open>A pool that stays below the invalid id gives every name one id, and keeps the ids it gave.\<close>

lemma intern_text:
  assumes "intern name pool = (i, pool')" and "length pool < 2 ^ 32"
  shows "symbol_text pool' i = Inr name" and "\<exists>more. pool' = pool @ more"
proof -
  show "symbol_text pool' i = Inr name"
  proof (cases "find_index ((=) name) pool")
    case None
    then show ?thesis using assms by (auto simp: intern_def symbol_text_def vec_at_def unat_symbol)
  next
    case (Some k)
    with find_index_Some [OF Some] have "k < length pool" "pool ! k = name" by auto
    then show ?thesis using assms Some by (auto simp: intern_def symbol_text_def vec_at_def unat_symbol)
  qed
  show "\<exists>more. pool' = pool @ more" using assms(1) by (auto simp: intern_def split: option.splits)
qed

lemma intern_again:
  assumes "intern name pool = (i, pool')"
  shows "intern name pool' = (i, pool')"
proof (cases "find_index ((=) name) pool")
  case None
  then have "find_index ((=) name) (pool @ [name]) = Some (length pool)"
    by (induction pool) (auto split: if_splits)
  with None assms show ?thesis by (auto simp: intern_def)
next
  case (Some k)
  with assms show ?thesis by (auto simp: intern_def)
qed

lemma intern_distinct:
  assumes "distinct pool"
  shows "distinct (snd (intern name pool))"
proof (cases "find_index ((=) name) pool")
  case None
  then have "name \<notin> set pool" by (auto simp: find_index_None)
  with None assms show ?thesis by (simp add: intern_def)
next
  case (Some k)
  with assms show ?thesis by (simp add: intern_def)
qed

end
