(* ===== verification/Kernel_Walk.thy ===== *)
theory Kernel_Walk
  imports Kernel_IR Map_Store
begin

text \<open>
  The tree walker of \<open>runtime/src/execution/kernel_buffers.cpp\<close> (\<open>MultiDimWalker\<close>): loops with affine
  bounds over the values of the enclosing loops, guards, and Compute nodes paired with the Store that
  follows them. What one pair or one call does to the buffers is an argument of the walker. The walk
  is the sequential one: no cancellation token, and one thread for every loop.

  The recursion of \<open>execNode\<close> over children takes fuel; \<open>None\<close> is a walk that is nested deeper.
\<close>

text \<open>The fields of a module that the walker and the code generator read.\<close>

record kernel_buffer =
  kb_isInput :: bool
  kb_isOutput :: bool
  kb_isTemp :: bool
  kb_elements :: int
  kb_dims :: "int list"

record kernel_module =
  km_buffers :: "kernel_buffer list"
  km_nodes :: "kernel_node list"
  km_name :: id32
  km_scheduleParams :: "(id32 \<times> int) list"

text \<open>What a walk runs with: the effect of a pair and of a call, and \<open>io.elements\<close>.\<close>

record 's walk_env =
  we_pair :: "kernel_node \<Rightarrow> kernel_node \<Rightarrow> int list \<Rightarrow> 's \<Rightarrow> 's result"
  we_call :: "kernel_node \<Rightarrow> int list \<Rightarrow> 's \<Rightarrow> 's result"
  we_elements :: int

section \<open>Bounds and guards\<close>

definition affine_plain :: "int list \<Rightarrow> int list \<Rightarrow> int \<Rightarrow> int result" where
  "affine_plain cs vars off =
     fold_res (\<lambda>(c, v) acc. mlk_try (plain64 (c * v)) (\<lambda>t. plain64 (acc + t))) (zip cs vars) off"

definition loop_end :: "kernel_module \<Rightarrow> int \<Rightarrow> kernel_node \<Rightarrow> int list \<Rightarrow> int result" where
  "loop_end km elements n vars =
     mlk_try (plain64 (kn_end n - 1)) (\<lambda>e.
       if kn_endCoeffs n \<noteq> [] then affine_plain (kn_endCoeffs n) vars (kn_endOffset n)
       else if kn_end n = kKernelLoopDynamicBound \<and> kn_endBuf n \<noteq> kInvalidId \<and> kn_endDim n \<ge> 0
         \<and> unat (kn_endBuf n) < length (km_buffers km)
         \<and> kn_endDim n < int (length (kb_dims (km_buffers km ! unat (kn_endBuf n)))) then
         plain64 (kb_dims (km_buffers km ! unat (kn_endBuf n)) ! nat (kn_endDim n) - 1)
       else if kn_end n = kKernelLoopDynamicBound then plain64 (elements - 1)
       else Inr e)"

definition loop_begin :: "kernel_node \<Rightarrow> int list \<Rightarrow> int result" where
  "loop_begin n vars =
     (if kn_beginCoeffs n \<noteq> [] then affine_plain (kn_beginCoeffs n) vars (kn_beginOffset n) else Inr (kn_begin n))"

text \<open>The affine form of a guard: every step is checked, and a live coefficient needs its variable.\<close>

fun guard_form :: "int list \<Rightarrow> int list \<Rightarrow> int \<Rightarrow> int result" where
  "guard_form [] vars acc = Inr acc"
| "guard_form (c # cs) vars acc =
     (if c = 0 then guard_form cs (tl vars) acc
      else case vars of
        [] \<Rightarrow> Inl (Err InvalidGraph)
      | v # vs \<Rightarrow>
          if \<not> in_i64 (c * v) \<or> \<not> in_i64 (acc + c * v) then Inl (Err ResourceExhausted)
          else guard_form cs vs (acc + c * v))"

section \<open>The walk\<close>

fun exec_children :: "(nat \<Rightarrow> kernel_node option \<Rightarrow> 's \<Rightarrow> 's result option) \<Rightarrow> kernel_node list \<Rightarrow> nat list \<Rightarrow> 's \<Rightarrow> 's result option" where
  "exec_children node nodes [] s = Some (Inr s)"
| "exec_children node nodes (c # cs) s =
     (if c \<ge> length nodes then Some (Inl (Err InvalidGraph))
      else if kn_op (nodes ! c) = KCompute then
        (case cs of
           st # cs' \<Rightarrow>
             if st < length nodes \<and> kn_op (nodes ! st) = KStore
             then then_call (node c (Some (nodes ! st)) s) (exec_children node nodes cs')
             else then_call (node c None s) (exec_children node nodes cs)
         | [] \<Rightarrow> then_call (node c None s) (exec_children node nodes cs))
      else then_call (node c None s) (exec_children node nodes cs))"

fun exec_range :: "(int \<Rightarrow> 's \<Rightarrow> 's result option) \<Rightarrow> int list \<Rightarrow> 's \<Rightarrow> 's result option" where
  "exec_range body [] s = Some (Inr s)"
| "exec_range body (v # vs) s = then_call (body v s) (exec_range body vs)"

primrec execNode :: "nat \<Rightarrow> 's walk_env \<Rightarrow> kernel_module \<Rightarrow> int list \<Rightarrow> nat \<Rightarrow> kernel_node option \<Rightarrow> 's \<Rightarrow> 's result option" where
  "execNode 0 env km vars i paired s = None"
| "execNode (Suc f) env km vars i paired s =
     (if i \<ge> length (km_nodes km) then Some (Inl (Err InvalidGraph))
      else let n = km_nodes km ! i in
        case kn_op n of
          KLoop \<Rightarrow>
            if kn_step n \<noteq> 1 then Some (Inl (Err UnsupportedCapability))
            else (case mlk_try (loop_begin n vars) (\<lambda>b. mlk_try (loop_end km (we_elements env) n vars) (\<lambda>e. Inr (b, e))) of
                Inl err \<Rightarrow> Some (Inl err)
              | Inr (b, e) \<Rightarrow>
                  exec_range (\<lambda>v. exec_children (execNode f env km (vars @ [v])) (km_nodes km) (kn_children n)) [b..e] s)
        | KCompute \<Rightarrow> (case paired of None \<Rightarrow> Some (Inr s) | Some st \<Rightarrow> Some (we_pair env n st vars s))
        | KGuard \<Rightarrow>
            if kn_guardCoeffs n = [] then Some (Inr s)
            else (case guard_form (kn_guardCoeffs n) vars (kn_guardOffset n) of
                Inl err \<Rightarrow> Some (Inl err)
              | Inr acc \<Rightarrow>
                  if acc \<noteq> 0 then Some (Inr s)
                  else exec_children (execNode f env km vars) (km_nodes km) (kn_children n) s)
        | KCall \<Rightarrow> Some (we_call env n vars s)
        | KCount \<Rightarrow> Some (Inl (Err InvalidGraph))
        | _ \<Rightarrow> Some (Inr s))"

text \<open>The statement list of a loop body or a guarded region, at a given depth of fuel.\<close>

definition execChildList :: "nat \<Rightarrow> 's walk_env \<Rightarrow> kernel_module \<Rightarrow> int list \<Rightarrow> nat list \<Rightarrow> 's \<Rightarrow> 's result option" where
  "execChildList f env km vars children = exec_children (execNode f env km vars) (km_nodes km) children"

section \<open>Modules\<close>

definition is_multi_dim :: "kernel_module \<Rightarrow> bool" where
  "is_multi_dim km \<longleftrightarrow> list_ex (\<lambda>n.
     kn_accum n \<noteq> AccumNone \<or> kn_beginCoeffs n \<noteq> [] \<or> kn_endCoeffs n \<noteq> []
     \<or> kn_end n = kKernelLoopDynamicBound \<and> kn_endBuf n \<noteq> kInvalidId
     \<or> kn_outIndexCoeffs n \<noteq> [] \<or> kn_op n = KGuard \<and> kn_guardCoeffs n \<noteq> []
     \<or> list_ex (\<lambda>e. opnd_kind (kx_a e) = OElemIdx \<or> opnd_kind (kx_b e) = OElemIdx) (kn_exprs n)) (km_nodes km)"

text \<open>The roots are the nodes that no node lists as a child, each run on its own with no paired Store.\<close>

definition forest_roots :: "kernel_node list \<Rightarrow> nat list" where
  "forest_roots nodes = filter (\<lambda>i. \<not> list_ex (\<lambda>n. i \<in> set (kn_children n)) nodes) [0..<length nodes]"

fun exec_roots :: "nat \<Rightarrow> 's walk_env \<Rightarrow> kernel_module \<Rightarrow> nat list \<Rightarrow> 's \<Rightarrow> 's result option" where
  "exec_roots f env km [] s = Some (Inr s)"
| "exec_roots f env km (i # is) s = then_call (execNode f env km [] i None s) (exec_roots f env km is)"

text \<open>The branch of \<open>executeKernelOnBuffers\<close> that every multi-dimensional module takes.\<close>

definition exec_forest :: "nat \<Rightarrow> 's walk_env \<Rightarrow> kernel_module \<Rightarrow> 's \<Rightarrow> 's result option" where
  "exec_forest f env km s =
     (if km_nodes km = [] then Some (Inl (Err InvalidGraph))
      else exec_roots f env km (forest_roots (km_nodes km)) s)"

end
