(* ===== verification/Codegen.thy ===== *)
theory Codegen
  imports Tile Symbol_Table Kernel_Walk
begin

text \<open>
  Schedule to kernel, \<open>polyhedral/src/codegen.cpp\<close>. The emitter is a record of the fields that
  change; the SCoP, the schedule and the tiling it points to are the argument \<open>cx\<close>. A call of
  \<open>fail\<close> sets a flag and returns normally, and the caller goes on until the flag is read.

  The functions between \<open>emitLevel\<close> and its recursion take the recursive call as an argument; the
  recursion is on the number of schedule rows below the level.
\<close>

definition kPolyMaxCodegenCopies :: int where "kPolyMaxCodegenCopies = 16"

record codegen_input =
  cg_scop :: scop
  cg_sched :: poly_schedule
  cg_tiled :: tiled_info

record emitter =
  em_nodes :: "kernel_node list"
  em_stack :: "int list"
  em_body :: "nat list"
  em_emitted :: "bool list"
  em_guards :: "(nat \<times> int) list list"
  em_failed :: bool
  em_copyBudget :: int
  em_symbols :: symbol_table

definition em_fail :: "emitter \<Rightarrow> emitter" where
  "em_fail em = em\<lparr>em_failed := True\<rparr>"

definition add_node :: "kernel_node \<Rightarrow> emitter \<Rightarrow> nat \<times> emitter" where
  "add_node n em = (length (em_nodes em), em\<lparr>em_nodes := em_nodes em @ [n]\<rparr>)"

definition push_body :: "nat list \<Rightarrow> emitter \<Rightarrow> emitter" where
  "push_body ids em = em\<lparr>em_body := em_body em @ ids\<rparr>"

definition add_child :: "nat \<Rightarrow> nat \<Rightarrow> emitter \<Rightarrow> emitter" where
  "add_child parent child em =
     (let n = em_nodes em ! parent in
      em\<lparr>em_nodes := (em_nodes em)[parent := n\<lparr>kn_children := kn_children n @ [child]\<rparr>]\<rparr>)"

definition intern_name :: "string \<Rightarrow> emitter \<Rightarrow> 32 word \<times> emitter" where
  "intern_name name em = (let (i, t) = intern name (em_symbols em) in (i, em\<lparr>em_symbols := t\<rparr>))"

section \<open>Payloads\<close>

text \<open>The stack position of a dimension, searched from the outermost loop.\<close>

definition stack_pos :: "int list \<Rightarrow> nat \<Rightarrow> nat option" where
  "stack_pos stack d = find_index ((=) (int d)) stack"

text \<open>The scan of \<open>mapCoeffs\<close>: coefficients by stack position, the folded offset, and whether it ended.\<close>

fun map_coeffs_from :: "statement \<Rightarrow> int list \<Rightarrow> nat \<Rightarrow> int list \<Rightarrow> int list \<Rightarrow> int \<Rightarrow> (int list \<times> int \<times> bool) result" where
  "map_coeffs_from s stack d [] out off = Inr (out, off, True)"
| "map_coeffs_from s stack d (c # cs) out off =
     (if c = 0 then map_coeffs_from s stack (Suc d) cs out off
      else case stack_pos stack d of
        Some p \<Rightarrow> map_coeffs_from s stack (Suc d) cs (out[p := c]) off
      | None \<Rightarrow>
          (case dimPinnedAt s d of
             None \<Rightarrow> Inr (out, 0, False)
           | Some pin \<Rightarrow> mlk_try (plain64 (c * pin)) (\<lambda>t. mlk_try (plain64 (off + t)) (\<lambda>off'.
               map_coeffs_from s stack (Suc d) cs out off'))))"

definition mapCoeffs :: "statement \<Rightarrow> int list \<Rightarrow> emitter \<Rightarrow> (int list \<times> int \<times> emitter) result" where
  "mapCoeffs s cs em =
     mlk_try (map_coeffs_from s (em_stack em) 0 cs (replicate (length (em_stack em)) 0) 0) (\<lambda>(out, off, ok).
       Inr (out, off, if ok then em else em_fail em))"

definition mapOperand :: "statement \<Rightarrow> kernel_operand \<Rightarrow> emitter \<Rightarrow> (kernel_operand \<times> emitter) result" where
  "mapOperand s opnd em =
     (if opnd_kind opnd = OElemIdx then
        mlk_try (mapCoeffs s (opnd_idxCoeffs opnd) em) (\<lambda>(out, off, em).
        mlk_try (addLimited (opnd_idxOffset opnd) off) (\<lambda>total.
          Inr (opnd\<lparr>opnd_idxCoeffs := out, opnd_idxOffset := total\<rparr>, em)))
      else Inr (opnd, em))"

fun mapExprs :: "statement \<Rightarrow> kernel_expr list \<Rightarrow> emitter \<Rightarrow> (kernel_expr list \<times> emitter) result" where
  "mapExprs s [] em = Inr ([], em)"
| "mapExprs s (e # es) em =
     mlk_try (mapOperand s (kx_a e) em) (\<lambda>(a, em).
     mlk_try (mapOperand s (kx_b e) em) (\<lambda>(b, em).
     mlk_try (mapExprs s es em) (\<lambda>(mapped, em).
       Inr (\<lparr>kx_op = kx_op e, kx_a = a, kx_b = b\<rparr> # mapped, em))))"

text \<open>Guards around a payload, the innermost condition first; none when a dimension is not bound.\<close>

fun wrap_guards :: "(nat \<times> int) list \<Rightarrow> nat list \<Rightarrow> emitter \<Rightarrow> (nat list option \<times> emitter) result" where
  "wrap_guards [] wrapped em = Inr (Some wrapped, em)"
| "wrap_guards ((d, v) # gs) wrapped em =
     (case stack_pos (em_stack em) d of
        None \<Rightarrow> Inr (None, em_fail em)
      | Some p \<Rightarrow>
          mlk_try (plain64 (- v)) (\<lambda>off.
            let (gid, em) = add_node (new_node\<lparr>kn_op := KGuard, kn_guardCoeffs := (replicate (p + 1) 0)[p := 1],
                  kn_guardOffset := off, kn_children := wrapped\<rparr>) em in
            wrap_guards gs [gid] em))"

definition compute_node :: "kernel_expr list \<Rightarrow> kernel_node" where
  "compute_node exprs = new_node\<lparr>kn_op := KCompute, kn_exprs := exprs\<rparr>"

definition store_node :: "statement \<Rightarrow> int list \<Rightarrow> int \<Rightarrow> kernel_node" where
  "store_node s out off = new_node\<lparr>kn_op := KStore, kn_bufferOut := st_storeBuffer s, kn_accum := st_accum s,
     kn_outIndexCoeffs := out, kn_outIndexOffset := off\<rparr>"

definition emitPayload :: "statement \<Rightarrow> emitter \<Rightarrow> emitter result" where
  "emitPayload s em =
     mlk_try (mapExprs s (st_exprs s) em) (\<lambda>(exprs, em).
       if exprs = [] then Inr (em_fail em)
       else mlk_try (mapCoeffs s (st_storeCoeffs s) em) (\<lambda>(out, off, em).
         mlk_try (addLimited (st_storeOffset s) off) (\<lambda>storeOff.
         let (cid, em) = add_node (compute_node exprs) em;
             (sid, em) = add_node (store_node s out storeOff) em in
         mlk_try (vec_at (em_guards em) (st_id s)) (\<lambda>gs.
         mlk_try (wrap_guards (rev gs) [cid, sid] em) (\<lambda>(wrapped, em).
           case wrapped of None \<Rightarrow> Inr em | Some ids \<Rightarrow> Inr (push_body ids em))))))"

section \<open>Constant statements\<close>

text \<open>The least value of a row over the box of a statement.\<close>

fun box_min :: "statement \<Rightarrow> nat \<Rightarrow> int list \<Rightarrow> int \<Rightarrow> int result" where
  "box_min t d [] acc = Inr acc"
| "box_min t d (c # cs) acc =
     (if c = 0 then box_min t (Suc d) cs acc
      else let lo = (if d < length (st_ownLower t) then st_ownLower t ! d else 0);
               hi = (if d < length (st_ownUpper t) then st_ownUpper t ! d else 0) in
        mlk_try (plain64 (c * (if c > 0 then lo else hi))) (\<lambda>x. mlk_try (plain64 (acc + x)) (box_min t (Suc d) cs)))"

fun not_above :: "nat \<Rightarrow> nat \<Rightarrow> schedule_row \<Rightarrow> int \<Rightarrow> statement list \<Rightarrow> bool result" where
  "not_above depth i row sv [] = Inr True"
| "not_above depth i row sv (t # ts) =
     (if st_id t = i then not_above depth i row sv ts
      else mlk_try (vec_at row (st_id t)) (\<lambda>tc. mlk_try (vec_at tc 0) (\<lambda>c0.
        mlk_try (box_min t 0 (take depth (tl tc)) c0) (\<lambda>tmin.
          if sv > tmin then Inr False else not_above depth i row sv ts))))"

fun can_emit_rows :: "scop \<Rightarrow> statement \<Rightarrow> schedule_row list \<Rightarrow> bool result" where
  "can_emit_rows sc s [] = Inr True"
| "can_emit_rows sc s (row # rows) =
     mlk_try (rowEffectiveConst s row) (\<lambda>sv.
       case sv of
         None \<Rightarrow> Inr False
       | Some v \<Rightarrow> mlk_try (not_above (scop_depth sc) (st_id s) row v (scop_statements sc)) (\<lambda>ok.
           if \<not> ok then Inr False else can_emit_rows sc s rows))"

definition canEmitBefore :: "codegen_input \<Rightarrow> statement \<Rightarrow> nat \<Rightarrow> bool result" where
  "canEmitBefore cx s r = can_emit_rows (cg_scop cx) s (drop (r + 1) (ps_rows (cg_sched cx)))"

definition emit_marked :: "codegen_input \<Rightarrow> nat \<Rightarrow> emitter \<Rightarrow> emitter result" where
  "emit_marked cx i em =
     mlk_try (vec_at (scop_statements (cg_scop cx)) i) (\<lambda>s.
     mlk_try (emitPayload s em) (\<lambda>em. Inr (em\<lparr>em_emitted := (em_emitted em)[i := True]\<rparr>)))"

definition orig_order :: "codegen_input \<Rightarrow> nat \<Rightarrow> nat" where
  "orig_order cx i = st_origOrder (scop_statements (cg_scop cx) ! i)"

text \<open>The order by value and then by \<open>origOrder\<close>, which no two statements share.\<close>

definition emitConstItems :: "codegen_input \<Rightarrow> (int \<times> nat) list \<Rightarrow> emitter \<Rightarrow> emitter result" where
  "emitConstItems cx items em =
     fold_res (\<lambda>item. emit_marked cx (snd item)) (sort_key fst (sort_key (orig_order cx \<circ> snd) items)) em"

section \<open>Loops\<close>

type_synonym level = "nat list \<Rightarrow> emitter \<Rightarrow> emitter result"

definition flag_at :: "bool list \<Rightarrow> nat \<Rightarrow> bool" where
  "flag_at fs r = (if r < length fs then fs ! r else False)"

definition loop_name :: "codegen_input \<Rightarrow> nat \<Rightarrow> emitter \<Rightarrow> 32 word \<times> emitter" where
  "loop_name cx varDim em =
     (let dv = scop_dimVars (cg_scop cx); v = (if varDim < length dv then dv ! varDim else kInvalidSymbolId) in
      if v = kInvalidSymbolId then intern_name (''d'' @ show_int (int varDim)) em else (v, em))"

definition tile_name :: "32 word \<Rightarrow> emitter \<Rightarrow> (32 word \<times> emitter) result" where
  "tile_name v em = mlk_try (symbol_text (em_symbols em) v) (\<lambda>t. Inr (intern_name (t @ ''_t'') em))"

text \<open>The deeper recursion collected into its own body, below one more loop variable.\<close>

definition nested :: "(emitter \<Rightarrow> emitter result) \<Rightarrow> int \<Rightarrow> emitter \<Rightarrow> (nat list \<times> emitter) result" where
  "nested inner slot em =
     mlk_try (inner (em\<lparr>em_stack := em_stack em @ [slot], em_body := []\<rparr>)) (\<lambda>em'.
       Inr (em_body em', em'\<lparr>em_body := em_body em, em_stack := butlast (em_stack em')\<rparr>))"

definition range_loop :: "32 word \<Rightarrow> int \<Rightarrow> int \<Rightarrow> kernel_node" where
  "range_loop v b e = new_node\<lparr>kn_op := KLoop, kn_var := v, kn_begin := b, kn_end := e\<rparr>"

definition emitPlainLoop :: "codegen_input \<Rightarrow> level \<Rightarrow> nat list \<Rightarrow> nat \<Rightarrow> int \<Rightarrow> int \<Rightarrow> nat \<Rightarrow> emitter \<Rightarrow> emitter result" where
  "emitPlainLoop cx rec varStmts varDim lo hi r em =
     (let (v, em) = loop_name cx varDim em in
      mlk_try (plain64 (hi + 1)) (\<lambda>e.
      mlk_try (nested (rec varStmts) (int varDim) em) (\<lambda>(ids, em).
        let (lid, em) = add_node ((range_loop v lo e)\<lparr>kn_parallel := flag_at (ps_parallel (cg_sched cx)) r,
              kn_vectorHint := flag_at (ps_vectorizable (cg_sched cx)) r, kn_children := ids\<rparr>) em in
        Inr (push_body [lid] em))))"

text \<open>A tile loop, already in the arena; its slot of the stack is not a dimension of the SCoP.\<close>

definition open_tile :: "codegen_input \<Rightarrow> 32 word \<Rightarrow> int \<Rightarrow> int \<Rightarrow> nat \<Rightarrow> emitter \<Rightarrow> (nat \<times> emitter) result" where
  "open_tile cx v a b r em =
     mlk_try (tile_name v em) (\<lambda>(tv, em).
     mlk_try (plain64 (b + 1)) (\<lambda>e.
       let (tid, em) = add_node ((range_loop tv a e)\<lparr>kn_parallel := flag_at (ps_parallel (cg_sched cx)) r\<rparr>) em in
       Inr (tid, em\<lparr>em_stack := em_stack em @ [-1]\<rparr>)))"

definition close_tile :: "nat \<Rightarrow> emitter \<Rightarrow> emitter" where
  "close_tile tid em = push_body [tid] (em\<lparr>em_stack := butlast (em_stack em)\<rparr>)"

text \<open>One point loop under a tile: the body is emitted first, then the loop node, then the tile's child.\<close>

definition emit_point :: "codegen_input \<Rightarrow> level \<Rightarrow> nat list \<Rightarrow> nat \<Rightarrow> nat \<Rightarrow> kernel_node \<Rightarrow> nat \<Rightarrow> emitter \<Rightarrow> emitter result" where
  "emit_point cx rec stmts varDim r point tid em =
     mlk_try (nested (rec stmts) (int varDim) em) (\<lambda>(ids, em).
       let (pid, em) = add_node (point\<lparr>kn_parallel := flag_at (ps_parallel (cg_sched cx)) r,
             kn_vectorHint := flag_at (ps_vectorizable (cg_sched cx)) r, kn_children := ids\<rparr>) em in
       Inr (add_child tid pid em))"

definition affine_point :: "32 word \<Rightarrow> nat \<Rightarrow> int \<Rightarrow> int \<Rightarrow> kernel_node result" where
  "affine_point v tilePos tileSize partialEnd =
     (let cs = (replicate (tilePos + 1) 0)[tilePos := tileSize];
          point = new_node\<lparr>kn_op := KLoop, kn_var := v, kn_beginCoeffs := cs, kn_beginOffset := 0\<rparr> in
      if partialEnd \<ge> 0 then mlk_try (plain64 (partialEnd + 1)) (\<lambda>e. Inr (point\<lparr>kn_end := e\<rparr>))
      else Inr (point\<lparr>kn_endCoeffs := cs, kn_endOffset := tileSize - 1\<rparr>))"

definition emitPointBody :: "codegen_input \<Rightarrow> level \<Rightarrow> nat list \<Rightarrow> nat \<Rightarrow> nat \<Rightarrow> int \<Rightarrow> int \<Rightarrow> nat \<Rightarrow> emitter \<Rightarrow> emitter result" where
  "emitPointBody cx rec varStmts varDim r tileSize partialEnd tid em =
     (let (v, em) = loop_name cx varDim em in
      mlk_try (affine_point v (length (em_stack em) - 1) tileSize partialEnd) (\<lambda>point.
      mlk_try (emit_point cx rec varStmts varDim r point tid em) (\<lambda>em. Inr (close_tile tid em))))"

definition tiled_here :: "codegen_input \<Rightarrow> nat \<Rightarrow> bool" where
  "tiled_here cx r \<longleftrightarrow> ti_tiled (cg_tiled cx) \<and> r < ti_bandEnd (cg_tiled cx)"

text \<open>The tiles of a range: first, last, last full tile, and whether a partial tile follows.\<close>

definition tile_range :: "int \<Rightarrow> int \<Rightarrow> int \<Rightarrow> (int \<times> int \<times> int \<times> bool) result" where
  "tile_range lo hi t = mlk_try (plain64 (hi + 1)) (\<lambda>n. Inr (lo sdiv t, hi sdiv t, n sdiv t - 1, n smod t \<noteq> 0))"

definition emit_tile :: "codegen_input \<Rightarrow> level \<Rightarrow> nat list \<Rightarrow> nat \<Rightarrow> 32 word \<Rightarrow> int \<Rightarrow> int \<Rightarrow> nat \<Rightarrow> int \<Rightarrow> int \<Rightarrow> emitter \<Rightarrow> emitter result" where
  "emit_tile cx rec stmts varDim v a b r tileSize partialEnd em =
     mlk_try (open_tile cx v a b r em) (\<lambda>(tid, em).
       emitPointBody cx rec stmts varDim r tileSize partialEnd tid em)"

definition emitLoop :: "codegen_input \<Rightarrow> level \<Rightarrow> nat list \<Rightarrow> nat \<Rightarrow> int \<Rightarrow> int \<Rightarrow> nat \<Rightarrow> emitter \<Rightarrow> emitter result" where
  "emitLoop cx rec varStmts varDim lo hi r em =
     mlk_try (if tiled_here cx r then vec_at (ti_tileSizes (cg_tiled cx)) r else Inr 0) (\<lambda>t.
     let (v, em) = loop_name cx varDim em in
     if \<not> tiled_here cx r then emitPlainLoop cx rec varStmts varDim lo hi r em
     else if t = 0 then Inl UndefinedBehaviour
     else if lo smod t \<noteq> 0 then Inr (em_fail em)
     else mlk_try (tile_range lo hi t) (\<lambda>(firstTile, lastTile, fullLast, hasPartial).
       let em1 = (if hasPartial then em\<lparr>em_copyBudget := em_copyBudget em * 2\<rparr> else em) in
       if hasPartial \<and> em_copyBudget em1 > kPolyMaxCodegenCopies then Inr (em_fail em1)
       else mlk_try (if fullLast \<ge> firstTile then emit_tile cx rec varStmts varDim v firstTile fullLast r t (-1) em1
                     else Inr em1) (\<lambda>em2.
         if hasPartial then emit_tile cx rec varStmts varDim v lastTile lastTile r t hi
           (em2\<lparr>em_emitted := em_emitted em1, em_guards := em_guards em1\<rparr>)
         else Inr em2)))"

section \<open>The piecewise split\<close>

text \<open>The two parallel vectors \<open>segRange\<close> and \<open>segStmts\<close> are one list of pairs.\<close>

record split_body =
  sb_lo :: int
  sb_hi :: int
  sb_tiled :: bool
  sb_partialEnd :: int
  sb_stmts :: "nat list"
  sb_segs :: "((int \<times> int) \<times> nat list) list"

definition restore_marks :: "nat list \<Rightarrow> bool list \<Rightarrow> bool list \<Rightarrow> bool list" where
  "restore_marks ss snap marks = fold (\<lambda>s m. m[s := snap ! s]) ss marks"

fun emit_segs :: "codegen_input \<Rightarrow> level \<Rightarrow> nat \<Rightarrow> 32 word \<Rightarrow> nat \<Rightarrow> nat \<Rightarrow> bool list \<Rightarrow> (nat \<times> int) list list \<Rightarrow> bool
    \<Rightarrow> ((int \<times> int) \<times> nat list) list \<Rightarrow> emitter \<Rightarrow> emitter result" where
  "emit_segs cx rec varDim v r tid snapE snapG first [] em = Inr em"
| "emit_segs cx rec varDim v r tid snapE snapG first (((a, b), stmts) # segs) em =
     (let em1 = (if first then em
                 else em\<lparr>em_emitted := restore_marks stmts snapE (em_emitted em), em_guards := snapG\<rparr>) in
      mlk_try (plain64 (b + 1)) (\<lambda>e.
      mlk_try (emit_point cx rec stmts varDim r (range_loop v a e) tid em1) (\<lambda>em2.
        emit_segs cx rec varDim v r tid snapE snapG False segs em2)))"

definition emitSplitBody :: "codegen_input \<Rightarrow> level \<Rightarrow> split_body \<Rightarrow> nat \<Rightarrow> nat \<Rightarrow> emitter \<Rightarrow> emitter result" where
  "emitSplitBody cx rec b varDim r em =
     (if \<not> sb_tiled b then emitPlainLoop cx rec (sb_stmts b) varDim (sb_lo b) (sb_hi b) r em
      else mlk_try (vec_at (ti_tileSizes (cg_tiled cx)) r) (\<lambda>t.
        let (v, em) = loop_name cx varDim em in
        mlk_try (open_tile cx v (sb_lo b) (sb_hi b) r em) (\<lambda>(tid, em).
          if sb_segs b = [] then emitPointBody cx rec (sb_stmts b) varDim r t (sb_partialEnd b) tid em
          else mlk_try (emit_segs cx rec varDim v r tid (em_emitted em) (em_guards em) True (sb_segs b) em) (\<lambda>em.
            Inr (close_tile tid em)))))"

type_synonym reentry_group = "int \<times> nat list"

definition reentry_groups :: "(int \<times> nat) list \<Rightarrow> reentry_group list" where
  "reentry_groups reentry =
     map (\<lambda>v. (v, map snd (filter (\<lambda>item. fst item = v) reentry))) (remdups_adj (sort (map fst reentry)))"

definition plain_body :: "int \<Rightarrow> int \<Rightarrow> nat list \<Rightarrow> split_body" where
  "plain_body lo hi stmts = \<lparr>sb_lo = lo, sb_hi = hi, sb_tiled = False, sb_partialEnd = -1, sb_stmts = stmts, sb_segs = []\<rparr>"

definition tile_body :: "int \<Rightarrow> int \<Rightarrow> int \<Rightarrow> nat list \<Rightarrow> split_body" where
  "tile_body lo hi partialEnd stmts =
     \<lparr>sb_lo = lo, sb_hi = hi, sb_tiled = True, sb_partialEnd = partialEnd, sb_stmts = stmts, sb_segs = []\<rparr>"

text \<open>The bodies from \<open>cur\<close> on: the range up to the next group, and the group's single value.\<close>

fun plain_bodies :: "nat list \<Rightarrow> int \<Rightarrow> int \<Rightarrow> reentry_group list \<Rightarrow> split_body list" where
  "plain_bodies varStmts hi cur [] = (if cur \<le> hi then [plain_body cur hi varStmts] else [])"
| "plain_bodies varStmts hi cur ((g, ss) # gs) =
     (if g > cur then [plain_body cur (g - 1) varStmts] else [])
     @ plain_body g g (varStmts @ ss) # plain_bodies varStmts hi (g + 1) gs"

fun tile_segs :: "nat list \<Rightarrow> int \<Rightarrow> int \<Rightarrow> int \<Rightarrow> int \<Rightarrow> reentry_group list \<Rightarrow> ((int \<times> int) \<times> nat list) list" where
  "tile_segs varStmts tv t pHi cur [] = (if cur \<le> pHi then [((cur, pHi), varStmts)] else [])"
| "tile_segs varStmts tv t pHi cur ((g, ss) # gs) =
     (if g sdiv t \<noteq> tv then tile_segs varStmts tv t pHi cur gs
      else (if g > cur then [((cur, g - 1), varStmts)] else [])
        @ ((g, g), varStmts @ ss) # tile_segs varStmts tv t pHi (g + 1) gs)"

definition buildTileSegBody :: "reentry_group list \<Rightarrow> nat list \<Rightarrow> int \<Rightarrow> int \<Rightarrow> int \<Rightarrow> split_body" where
  "buildTileSegBody groups varStmts tv t pHi =
     \<lparr>sb_lo = tv, sb_hi = tv, sb_tiled = True, sb_partialEnd = -1, sb_stmts = [],
      sb_segs = tile_segs varStmts tv t pHi (tv * t) groups\<rparr>"

text \<open>One part, the tiles \<open>a\<close> to \<open>b\<close>, cut at the tiles that hold a re-entry value.\<close>

fun cut_tiles :: "reentry_group list \<Rightarrow> nat list \<Rightarrow> int \<Rightarrow> int \<Rightarrow> bool \<Rightarrow> int \<Rightarrow> int \<Rightarrow> int list \<Rightarrow> split_body list" where
  "cut_tiles groups varStmts t hi isPartial b cur [] =
     (if cur \<le> b then [tile_body cur b (if isPartial then hi else -1) varStmts] else [])"
| "cut_tiles groups varStmts t hi isPartial b cur (tv # tvs) =
     (if tv > cur then [tile_body cur (tv - 1) (-1) varStmts] else [])
     @ buildTileSegBody groups varStmts tv t (if isPartial \<and> tv = b then hi else tv * t + t - 1)
     # cut_tiles groups varStmts t hi isPartial b (tv + 1) tvs"

definition part_bodies :: "reentry_group list \<Rightarrow> nat list \<Rightarrow> int \<Rightarrow> int \<Rightarrow> bool \<Rightarrow> int \<Rightarrow> int \<Rightarrow> split_body list" where
  "part_bodies groups varStmts t hi isPartial a b =
     (let tvs = remdups_adj (filter (\<lambda>tv. tv \<ge> a \<and> tv \<le> b) (map (\<lambda>g. fst g sdiv t) groups)) in
      if tvs = [] then [tile_body a b (if isPartial then hi else -1) varStmts]
      else cut_tiles groups varStmts t hi isPartial b a tvs)"

text \<open>The replayed bodies; none when the tiles are not aligned.\<close>

definition split_bodies :: "codegen_input \<Rightarrow> nat list \<Rightarrow> int \<Rightarrow> int \<Rightarrow> nat \<Rightarrow> reentry_group list \<Rightarrow> split_body list option result" where
  "split_bodies cx varStmts lo hi r groups =
     (if \<not> tiled_here cx r then Inr (Some (plain_bodies varStmts hi lo groups))
      else mlk_try (vec_at (ti_tileSizes (cg_tiled cx)) r) (\<lambda>t.
        if t = 0 then Inl UndefinedBehaviour
        else if lo smod t \<noteq> 0 then Inr None
        else mlk_try (tile_range lo hi t) (\<lambda>(firstTile, lastTile, fullLast, hasPartial).
          Inr (Some ((if fullLast \<ge> firstTile then part_bodies groups varStmts t hi False firstTile fullLast else [])
            @ (if hasPartial then part_bodies groups varStmts t hi True lastTile lastTile else []))))))"

fun emit_bodies :: "codegen_input \<Rightarrow> level \<Rightarrow> nat \<Rightarrow> nat \<Rightarrow> bool list \<Rightarrow> (nat \<times> int) list list \<Rightarrow> bool \<Rightarrow> split_body list
    \<Rightarrow> emitter \<Rightarrow> emitter result" where
  "emit_bodies cx rec varDim r snapE snapG first [] em = Inr em"
| "emit_bodies cx rec varDim r snapE snapG first (b # bs) em =
     (let ss = sb_stmts b @ concat (map snd (sb_segs b));
          em1 = (if first then em
                 else em\<lparr>em_emitted := restore_marks ss snapE (em_emitted em), em_guards := snapG\<rparr>) in
      mlk_try (emitSplitBody cx rec b varDim r em1) (\<lambda>em2.
        emit_bodies cx rec varDim r snapE snapG False bs em2))"

definition push_guards :: "nat \<Rightarrow> (int \<times> nat) list \<Rightarrow> (nat \<times> int) list list \<Rightarrow> (nat \<times> int) list list" where
  "push_guards pv reentry gss = fold (\<lambda>(v, s) gs. gs[s := gs ! s @ [(pv, v)]]) reentry gss"

definition emitSplitNest :: "codegen_input \<Rightarrow> level \<Rightarrow> nat list \<Rightarrow> nat \<Rightarrow> int \<Rightarrow> int \<Rightarrow> nat \<Rightarrow> (int \<times> nat) list \<Rightarrow> emitter \<Rightarrow> emitter result" where
  "emitSplitNest cx rec varStmts pv lo hi r reentry em =
     mlk_try (split_bodies cx varStmts lo hi r (reentry_groups reentry)) (\<lambda>bodies.
       case bodies of
         None \<Rightarrow> Inr (em_fail em)
       | Some bs \<Rightarrow>
           let replays = int (length bs) in
           if replays > 1 \<and> em_copyBudget em * replays > kPolyMaxCodegenCopies then
             emitLoop cx rec (varStmts @ map snd reentry) pv lo hi r
               (em\<lparr>em_guards := push_guards pv reentry (em_guards em)\<rparr>)
           else emit_bodies cx rec pv r (em_emitted em) (em_guards em) True bs
             (em\<lparr>em_copyBudget := em_copyBudget em * replays\<rparr>))"

section \<open>Levels\<close>

text \<open>Constant and varying statements of a level; none when one is neither.\<close>

fun classify :: "codegen_input \<Rightarrow> schedule_row \<Rightarrow> nat \<Rightarrow> nat list \<Rightarrow> ((int \<times> nat) list \<times> nat list) option result" where
  "classify cx row pv [] = Inr (Some ([], []))"
| "classify cx row pv (s # ss) =
     mlk_try (vec_at (scop_statements (cg_scop cx)) s) (\<lambda>st.
     mlk_try (rowEffectiveConst st row) (\<lambda>folded.
       case folded of
         Some v \<Rightarrow> mlk_try (classify cx row pv ss) (\<lambda>c. Inr (map_option (\<lambda>(cs, vs). ((v, s) # cs, vs)) c))
       | None \<Rightarrow>
           mlk_try (vec_at row (st_id st)) (\<lambda>coeffs.
             if pv + 1 < length coeffs \<and> coeffs ! (pv + 1) \<ge> 1 then
               mlk_try (classify cx row pv ss) (\<lambda>c. Inr (map_option (\<lambda>(cs, vs). (cs, s # vs)) c))
             else Inr None)))"

text \<open>The range of the loop; none when a statement has no bounds for it.\<close>

fun common_range :: "codegen_input \<Rightarrow> nat \<Rightarrow> nat list \<Rightarrow> int \<Rightarrow> int \<Rightarrow> (int \<times> int) option" where
  "common_range cx pv [] lo hi = Some (lo, hi)"
| "common_range cx pv (s # ss) lo hi =
     (let st = scop_statements (cg_scop cx) ! s in
      if pv \<ge> length (st_ownLower st) \<or> pv \<ge> length (st_ownUpper st) then None
      else common_range cx pv ss (if st_ownLower st ! pv > lo then st_ownLower st ! pv else lo)
        (if st_ownUpper st ! pv < hi then st_ownUpper st ! pv else hi))"

text \<open>Constant statements before, inside and after the range.\<close>

fun place_items :: "codegen_input \<Rightarrow> nat \<Rightarrow> int \<Rightarrow> int \<Rightarrow> (int \<times> nat) list
    \<Rightarrow> ((int \<times> nat) list \<times> (int \<times> nat) list \<times> (int \<times> nat) list) result" where
  "place_items cx r lo hi [] = Inr ([], [], [])"
| "place_items cx r lo hi ((v, s) # items) =
     mlk_try (if v = lo then canEmitBefore cx (scop_statements (cg_scop cx) ! s) r else Inr False) (\<lambda>hoist.
     mlk_try (place_items cx r lo hi items) (\<lambda>(bef, reentry, aft).
       Inr (if v < lo then ((v, s) # bef, reentry, aft)
            else if v > hi then (bef, reentry, (v, s) # aft)
            else if hoist then ((v, s) # bef, reentry, aft)
            else (bef, (v, s) # reentry, aft))))"

definition emit_nest :: "codegen_input \<Rightarrow> level \<Rightarrow> nat list \<Rightarrow> (int \<times> nat) list \<Rightarrow> nat \<Rightarrow> int \<Rightarrow> int \<Rightarrow> nat \<Rightarrow> emitter \<Rightarrow> emitter result" where
  "emit_nest cx rec varStmts items pv lo hi r em =
     mlk_try (place_items cx r lo hi items) (\<lambda>(bef, reentry, aft).
     mlk_try (emitConstItems cx bef em) (\<lambda>em.
     mlk_try (if reentry = [] then emitLoop cx rec varStmts pv lo hi r em
              else emitSplitNest cx rec varStmts pv lo hi r reentry em) (\<lambda>em.
       if em_failed em then Inr em else emitConstItems cx aft em)))"

definition emit_row :: "codegen_input \<Rightarrow> level \<Rightarrow> nat list \<Rightarrow> nat \<Rightarrow> emitter \<Rightarrow> emitter result" where
  "emit_row cx rec alive r em =
     (let pv = ps_pivotDim (cg_sched cx) ! r in
      mlk_try (classify cx (ps_rows (cg_sched cx) ! r) pv alive) (\<lambda>c.
        case c of
          None \<Rightarrow> Inr (em_fail em)
        | Some (items, varStmts) \<Rightarrow>
            if varStmts = [] then emitConstItems cx items em
            else (case common_range cx pv varStmts INT64_MIN INT64_MAX of
                None \<Rightarrow> Inr (em_fail em)
              | Some (lo, hi) \<Rightarrow>
                  if lo = INT64_MIN \<or> hi = INT64_MAX \<or> lo > hi then Inr (em_fail em)
                  else emit_nest cx rec varStmts items pv lo hi r em)))"

definition level_step :: "codegen_input \<Rightarrow> level \<Rightarrow> nat list \<Rightarrow> nat \<Rightarrow> emitter \<Rightarrow> emitter result" where
  "level_step cx rec stmts r em =
     (if em_failed em then Inr em
      else let alive = filter (\<lambda>s. \<not> em_emitted em ! s) stmts in
        if alive = [] then Inr em
        else if r \<ge> length (ps_rows (cg_sched cx)) \<or> r \<ge> length (ps_pivotDim (cg_sched cx)) then
          fold_res (emit_marked cx) (sort_key (orig_order cx) alive) em
        else emit_row cx rec alive r em)"

text \<open>\<open>n\<close> is the number of rows from level \<open>r\<close> on; at none left the level does not recurse.\<close>

primrec emitLevel :: "nat \<Rightarrow> codegen_input \<Rightarrow> nat list \<Rightarrow> nat \<Rightarrow> emitter \<Rightarrow> emitter result" where
  "emitLevel 0 cx stmts r em = level_step cx (\<lambda>ss em. Inl UndefinedBehaviour) stmts r em"
| "emitLevel (Suc n) cx stmts r em = level_step cx (\<lambda>ss em. emitLevel n cx ss (Suc r) em) stmts r em"

definition new_emitter :: "scop \<Rightarrow> symbol_table \<Rightarrow> emitter" where
  "new_emitter sc symbols =
     \<lparr>em_nodes = [], em_stack = [], em_body = [], em_emitted = replicate (length (scop_statements sc)) False,
      em_guards = replicate (length (scop_statements sc)) [], em_failed = False, em_copyBudget = 1,
      em_symbols = symbols\<rparr>"

definition emit_all :: "scop \<Rightarrow> poly_schedule \<Rightarrow> tiled_info \<Rightarrow> symbol_table \<Rightarrow> emitter result" where
  "emit_all sc sched tiled symbols =
     emitLevel (length (ps_rows sched)) \<lparr>cg_scop = sc, cg_sched = sched, cg_tiled = tiled\<rparr>
       [0..<length (scop_statements sc)] 0 (new_emitter sc symbols)"

definition emitScheduledKernel :: "scop \<Rightarrow> poly_schedule \<Rightarrow> tiled_info \<Rightarrow> kernel_module \<Rightarrow> symbol_table \<Rightarrow> (kernel_module \<times> symbol_table) result" where
  "emitScheduledKernel sc sched tiled baseline symbols =
     (if scop_statements sc = [] \<or> ps_nStmts sched \<noteq> length (scop_statements sc) then Inl (Err InvalidArgument)
      else mlk_try (emit_all sc sched tiled symbols) (\<lambda>em.
        if em_failed em then Inl (Err UnsupportedCapability)
        else if list_ex Not (em_emitted em) then Inl (Err Internal)
        else Inr (baseline\<lparr>km_nodes := em_nodes em\<rparr>, em_symbols em)))"

end
