(* ===== verification/Codegen_Laws.thy ===== *)
theory Codegen_Laws
  imports Codegen Scop_Laws "HOL-Library.Multiset"
begin

text \<open>
  Which statement instances a generated kernel performs. A node list runs with a multiset of events
  when the walker, on every module that agrees with the emitted nodes, performs these and no others;
  the statement of each emission step is such a run of the nodes that it adds.
\<close>

section \<open>Events\<close>

text \<open>A pair at the values of its loops: the expressions and the target with their addresses.\<close>

type_synonym event = "kernel_expr list \<times> id32 \<times> int \<times> accum_mode"

definition address :: "int list \<Rightarrow> int \<Rightarrow> int list \<Rightarrow> int" where
  "address cs off vars = off + sum_list (map2 (*) cs vars)"

definition resolve :: "int list \<Rightarrow> kernel_operand \<Rightarrow> kernel_operand" where
  "resolve vars opnd =
     (if opnd_kind opnd = OElemIdx
      then opnd\<lparr>opnd_idxCoeffs := [], opnd_idxOffset := address (opnd_idxCoeffs opnd) (opnd_idxOffset opnd) vars\<rparr>
      else opnd)"

definition resolve_expr :: "int list \<Rightarrow> kernel_expr \<Rightarrow> kernel_expr" where
  "resolve_expr vars e = \<lparr>kx_op = kx_op e, kx_a = resolve vars (kx_a e), kx_b = resolve vars (kx_b e)\<rparr>"

definition event_of :: "kernel_node \<Rightarrow> kernel_node \<Rightarrow> int list \<Rightarrow> event" where
  "event_of compute store vars =
     (map (resolve_expr vars) (kn_exprs compute), kn_bufferOut store,
      address (kn_outIndexCoeffs store) (kn_outIndexOffset store) vars, kn_accum store)"

definition instance_event :: "statement \<Rightarrow> int list \<Rightarrow> event" where
  "instance_event s x =
     (map (resolve_expr x) (st_exprs s), st_storeBuffer s, address (st_storeCoeffs s) (st_storeOffset s) x, st_accum s)"

definition trace_env :: "event list walk_env" where
  "trace_env = \<lparr>we_pair = (\<lambda>c st vars tr. Inr (tr @ [event_of c st vars])), we_call = (\<lambda>n vars tr. Inr tr), we_elements = 0\<rparr>"

section \<open>Runs\<close>

definition agrees :: "nat \<Rightarrow> kernel_node list \<Rightarrow> kernel_module \<Rightarrow> bool" where
  "agrees b N km \<longleftrightarrow> length N \<le> length (km_nodes km) \<and> (\<forall>i. b \<le> i \<and> i < length N \<longrightarrow> km_nodes km ! i = N ! i)"

definition performs :: "nat \<Rightarrow> kernel_module \<Rightarrow> int list \<Rightarrow> nat list \<Rightarrow> event multiset \<Rightarrow> bool" where
  "performs f km vars ids M \<longleftrightarrow> (\<forall>s. \<exists>tr. mset tr = M \<and>
     (\<forall>rest. execChildList f trace_env km vars (ids @ rest) s = execChildList f trace_env km vars rest (s @ tr)))"

definition runs :: "nat \<Rightarrow> kernel_node list \<Rightarrow> int list \<Rightarrow> nat list \<Rightarrow> event multiset \<Rightarrow> bool" where
  "runs b N vars ids M \<longleftrightarrow> (\<exists>F. \<forall>f \<ge> F. \<forall>km. agrees b N km \<longrightarrow> performs f km vars ids M)"

lemma performs_ends:
  assumes "performs f km vars ids M"
  shows "\<exists>tr. mset tr = M \<and> execChildList f trace_env km vars ids s = Some (Inr (s @ tr))"
proof -
  from assms obtain tr where tr: "mset tr = M"
    "\<And>rest. execChildList f trace_env km vars (ids @ rest) s = execChildList f trace_env km vars rest (s @ tr)"
    unfolding performs_def by blast
  from tr(2) [of "[]"] tr(1) show ?thesis by (auto simp: execChildList_def)
qed

lemma runs_Nil [simp]: "runs b N vars [] {#}"
  by (auto simp: runs_def performs_def)

lemma performs_append:
  assumes "performs f km vars ids M" and "performs f km vars ids' M'"
  shows "performs f km vars (ids @ ids') (M + M')"
  unfolding performs_def
proof
  fix s
  from assms(1) obtain tr where tr: "mset tr = M"
    "\<And>rest. execChildList f trace_env km vars (ids @ rest) s = execChildList f trace_env km vars rest (s @ tr)"
    unfolding performs_def by blast
  from assms(2) obtain tr' where tr': "mset tr' = M'"
    "\<And>rest. execChildList f trace_env km vars (ids' @ rest) (s @ tr) = execChildList f trace_env km vars rest ((s @ tr) @ tr')"
    unfolding performs_def by blast
  show "\<exists>tr. mset tr = M + M' \<and> (\<forall>rest. execChildList f trace_env km vars ((ids @ ids') @ rest) s
      = execChildList f trace_env km vars rest (s @ tr))"
    by (rule exI [of _ "tr @ tr'"]) (simp add: tr tr')
qed

lemma runs_append:
  assumes "runs b N vars ids M" and "runs b N vars ids' M'"
  shows "runs b N vars (ids @ ids') (M + M')"
proof -
  from assms obtain F F' where "\<forall>f \<ge> F. \<forall>km. agrees b N km \<longrightarrow> performs f km vars ids M"
    and "\<forall>f \<ge> F'. \<forall>km. agrees b N km \<longrightarrow> performs f km vars ids' M'" unfolding runs_def by blast
  then have "\<forall>f \<ge> max F F'. \<forall>km. agrees b N km \<longrightarrow> performs f km vars (ids @ ids') (M + M')"
    by (auto intro: performs_append)
  then show ?thesis unfolding runs_def by blast
qed

lemma agrees_mono:
  "agrees b' N' km \<Longrightarrow> b' \<le> b \<Longrightarrow> length N \<le> length N' \<Longrightarrow> (\<And>i. b \<le> i \<Longrightarrow> i < length N \<Longrightarrow> N' ! i = N ! i) \<Longrightarrow> agrees b N km"
  unfolding agrees_def by (metis le_trans less_le_trans)

lemma runs_mono:
  assumes "runs b N vars ids M" and "b' \<le> b" and "length N \<le> length N'"
    and "\<And>i. b \<le> i \<Longrightarrow> i < length N \<Longrightarrow> N' ! i = N ! i"
  shows "runs b' N' vars ids M"
proof -
  have "agrees b N km" if "agrees b' N' km" for km
    using that assms(2,3) by (rule agrees_mono) (rule assms(4))
  with assms(1) show ?thesis unfolding runs_def by blast
qed

lemma runs_more: "runs b N vars ids M \<Longrightarrow> runs b (N @ N') vars ids M"
  by (rule runs_mono [where N = N]) (auto simp: nth_append)

lemma runs_pair:
  assumes "N ! c = compute" and "N ! st = store" and "c < length N" and "st < length N" and "b \<le> c" and "b \<le> st"
    and "kn_op compute = KCompute" and "kn_op store = KStore"
  shows "runs b N vars [c, st] {# event_of compute store vars #}"
proof -
  have "performs f km vars [c, st] {# event_of compute store vars #}" if "1 \<le> f" "agrees b N km" for f km
    unfolding performs_def
  proof
    fix s
    from that(1) obtain g where f: "f = Suc g" by (cases f) auto
    have "c < length (km_nodes km)" "st < length (km_nodes km)" "km_nodes km ! c = compute" "km_nodes km ! st = store"
      using that(2) assms by (auto simp: agrees_def)
    then show "\<exists>tr. mset tr = {# event_of compute store vars #} \<and> (\<forall>rest. execChildList f trace_env km vars ([c, st] @ rest) s
      = execChildList f trace_env km vars rest (s @ tr))"
      by (intro exI [of _ "[event_of compute store vars]"])
         (simp add: execChildList_def assms(7,8) f trace_env_def)
  qed
  then show ?thesis unfolding runs_def by blast
qed

text \<open>One node that is not a Compute runs on its own.\<close>

lemma runs_single:
  assumes "i < length N" and "b \<le> i" and "kn_op (N ! i) \<noteq> KCompute"
    and "\<And>f km s. F \<le> f \<Longrightarrow> agrees b N km \<Longrightarrow> \<exists>tr. mset tr = M \<and> execNode f trace_env km vars i None s = Some (Inr (s @ tr))"
  shows "runs b N vars [i] M"
proof -
  have "performs f km vars [i] M" if f: "F \<le> f" and a: "agrees b N km" for f km
    unfolding performs_def
  proof
    fix s
    from assms(4) [OF f a, of s] obtain tr where "mset tr = M" "execNode f trace_env km vars i None s = Some (Inr (s @ tr))" by blast
    moreover have "i < length (km_nodes km)" "km_nodes km ! i = N ! i" using a assms(1,2) by (auto simp: agrees_def)
    ultimately show "\<exists>tr. mset tr = M \<and> (\<forall>rest. execChildList f trace_env km vars ([i] @ rest) s
        = execChildList f trace_env km vars rest (s @ tr))"
      using assms(3) by (intro exI [of _ tr]) (simp add: execChildList_def)
  qed
  then show ?thesis unfolding runs_def by blast
qed

lemma exec_range_runs:
  assumes "\<And>v s. v \<in> set vs \<Longrightarrow> \<exists>tr. mset tr = M v \<and> body v s = Some (Inr (s @ tr))"
  shows "\<exists>tr. mset tr = (\<Sum>v\<leftarrow>vs. M v) \<and> exec_range body vs s = Some (Inr (s @ tr))"
  using assms
proof (induction vs arbitrary: s)
  case Nil
  then show ?case by simp
next
  case (Cons v vs)
  from Cons.prems [of v s] obtain tr where tr: "mset tr = M v" "body v s = Some (Inr (s @ tr))" by auto
  from Cons.IH [of "s @ tr"] Cons.prems obtain tr' where "mset tr' = (\<Sum>v\<leftarrow>vs. M v)"
    "exec_range body vs (s @ tr) = Some (Inr ((s @ tr) @ tr'))" by auto
  with tr show ?case by (intro exI [of _ "tr @ tr'"]) simp
qed

lemma uniform_fuel:
  assumes "finite A" and "\<And>v. v \<in> A \<Longrightarrow> \<exists>F. \<forall>f \<ge> F. P v f"
  shows "\<exists>F :: nat. \<forall>v \<in> A. \<forall>f \<ge> F. P v f"
  using assms
proof (induction A rule: finite_induct)
  case empty
  then show ?case by simp
next
  case (insert x A)
  then obtain F where "\<forall>v \<in> A. \<forall>f \<ge> F. P v f" by auto
  moreover from insert.prems [of x] obtain G where "\<forall>f \<ge> G. P x f" by auto
  ultimately have "\<forall>v \<in> insert x A. \<forall>f \<ge> max F G. P v f" by auto
  then show ?case by blast
qed

lemma runs_loop:
  assumes i: "i < length N" "b \<le> i" and n: "kn_op (N ! i) = KLoop" "kn_step (N ! i) = 1" "kn_children (N ! i) = ids"
    and lo: "loop_begin (N ! i) vars = Inr lo" and hi: "\<And>km. loop_end km 0 (N ! i) vars = Inr hi"
    and body: "\<And>v. lo \<le> v \<Longrightarrow> v \<le> hi \<Longrightarrow> runs b N (vars @ [v]) ids (M v)"
  shows "runs b N vars [i] (\<Sum>v\<leftarrow>[lo..hi]. M v)"
proof -
  have "\<exists>F. \<forall>v \<in> {lo..hi}. \<forall>f \<ge> F. \<forall>km. agrees b N km \<longrightarrow> performs f km (vars @ [v]) ids (M v)"
    by (rule uniform_fuel) (use body in \<open>auto simp: runs_def\<close>)
  then obtain F where F: "\<And>v f km. lo \<le> v \<Longrightarrow> v \<le> hi \<Longrightarrow> F \<le> f \<Longrightarrow> agrees b N km \<Longrightarrow> performs f km (vars @ [v]) ids (M v)"
    by force
  show ?thesis
  proof (rule runs_single [where F = "Suc F"])
    fix f :: nat and km and s assume "Suc F \<le> f" and a: "agrees b N km"
    then obtain g where f: "f = Suc g" "F \<le> g" by (cases f) auto
    have node: "i < length (km_nodes km)" "km_nodes km ! i = N ! i" using a i by (auto simp: agrees_def)
    have "\<exists>tr. mset tr = M v \<and> exec_children (execNode g trace_env km (vars @ [v])) (km_nodes km) ids s = Some (Inr (s @ tr))"
      if "v \<in> set [lo..hi]" for v s
    proof -
      have "performs g km (vars @ [v]) ids (M v)" using F [of v g km] that f a by simp
      from performs_ends [OF this] show ?thesis unfolding execChildList_def .
    qed
    then have "\<exists>tr. mset tr = (\<Sum>v\<leftarrow>[lo..hi]. M v) \<and>
        exec_range (\<lambda>v. exec_children (execNode g trace_env km (vars @ [v])) (km_nodes km) ids) [lo..hi] s = Some (Inr (s @ tr))"
      by (rule exec_range_runs)
    then obtain tr where tr: "mset tr = (\<Sum>v\<leftarrow>[lo..hi]. M v)"
      "exec_range (\<lambda>v. exec_children (execNode g trace_env km (vars @ [v])) (km_nodes km) ids) [lo..hi] s = Some (Inr (s @ tr))"
      by blast
    have e: "we_elements trace_env = 0" by (simp add: trace_env_def)
    have "execNode f trace_env km vars i None s
        = exec_range (\<lambda>v. exec_children (execNode g trace_env km (vars @ [v])) (km_nodes km) ids) [lo..hi] s"
      using node n lo hi [of km] by (simp add: f e del: upto.simps)
    with tr show "\<exists>tr. mset tr = (\<Sum>v\<leftarrow>[lo..hi]. M v) \<and> execNode f trace_env km vars i None s = Some (Inr (s @ tr))" by metis
  qed (simp_all add: i n)
qed

lemma runs_guard:
  assumes i: "i < length N" "b \<le> i" and n: "kn_op (N ! i) = KGuard" "kn_guardCoeffs (N ! i) \<noteq> []" "kn_children (N ! i) = ids"
    and acc: "guard_form (kn_guardCoeffs (N ! i)) vars (kn_guardOffset (N ! i)) = Inr acc"
    and body: "acc = 0 \<Longrightarrow> runs b N vars ids M"
  shows "runs b N vars [i] (if acc = 0 then M else {#})"
proof (cases "acc = 0")
  case True
  from body [OF True] obtain F where F: "\<And>f km. F \<le> f \<Longrightarrow> agrees b N km \<Longrightarrow> performs f km vars ids M"
    unfolding runs_def by blast
  show ?thesis
  proof (rule runs_single [where F = "Suc F"])
    fix f :: nat and km and s assume "Suc F \<le> f" and a: "agrees b N km"
    then obtain g where f: "f = Suc g" "F \<le> g" by (cases f) auto
    have node: "i < length (km_nodes km)" "km_nodes km ! i = N ! i" using a i by (auto simp: agrees_def)
    from performs_ends [OF F [OF f(2) a], of s]
    obtain tr where "mset tr = M" "execChildList g trace_env km vars ids s = Some (Inr (s @ tr))" by blast
    then show "\<exists>tr. mset tr = (if acc = 0 then M else {#}) \<and> execNode f trace_env km vars i None s = Some (Inr (s @ tr))"
      using True node(1) by (intro exI [of _ tr]) (simp add: f node(2) n acc execChildList_def)
  qed (simp_all add: i n)
next
  case False
  show ?thesis
  proof (rule runs_single [where F = 1])
    fix f :: nat and km and s assume "1 \<le> f" and a: "agrees b N km"
    then obtain g where f: "f = Suc g" by (cases f) auto
    have node: "i < length (km_nodes km)" "km_nodes km ! i = N ! i" using a i by (auto simp: agrees_def)
    show "\<exists>tr. mset tr = (if acc = 0 then M else {#}) \<and> execNode f trace_env km vars i None s = Some (Inr (s @ tr))"
      using False node(1) by (intro exI [of _ "[]"]) (simp add: f node(2) n acc)
  qed (simp_all add: i n)
qed

section \<open>Payloads\<close>

text \<open>The coordinates of a statement at given loop values: a loop's value, else the pinned value.\<close>

definition coord :: "statement \<Rightarrow> int list \<Rightarrow> int list \<Rightarrow> nat \<Rightarrow> int" where
  "coord s stack vars d =
     (case stack_pos stack d of Some p \<Rightarrow> vars ! p
      | None \<Rightarrow> (case dimPinnedAt s d of Some v \<Rightarrow> v | None \<Rightarrow> 0))"

definition point :: "nat \<Rightarrow> statement \<Rightarrow> int list \<Rightarrow> int list \<Rightarrow> int list" where
  "point D s stack vars = map (coord s stack vars) [0..<D]"

lemma stack_posD:
  assumes "stack_pos stack d = Some p"
  shows "p < length stack" and "stack ! p = int d"
  using find_index_Some [of "(=) (int d)" stack p] assms by (auto simp: stack_pos_def)

lemma stack_pos_None: "stack_pos stack d = None \<longleftrightarrow> int d \<notin> set stack"
  by (auto simp: stack_pos_def find_index_None)

lemma address_lin: "address cs off vars = off + lin cs (\<lambda>i. if i < length vars then vars ! i else 0)"
proof -
  have "sum_list (map2 (*) cs vars) = lin cs (\<lambda>i. if i < length vars then vars ! i else (0 :: int))"
  proof (induction cs arbitrary: vars)
    case Nil
    then show ?case by simp
  next
    case (Cons c cs)
    show ?case
    proof (cases vars)
      case Nil
      then show ?thesis by (simp add: lin_all_zero lin_def)
    next
      case (Cons v vs)
      have "(\<lambda>i. if i < length vs then vs ! i else 0) = (\<lambda>i. if Suc i < length vars then vars ! Suc i else 0)"
        using Cons by auto
      with Cons.IH [of vs] show ?thesis using Cons by (simp add: lin_Cons)
    qed
  qed
  then show ?thesis by (simp add: address_def)
qed

lemma map_coeffs_from_value:
  assumes "map_coeffs_from s stack d cs out off = Inr (out', off', True)"
    and "length out = length stack" and "length vars = length stack"
    and "\<And>p e. p < length stack \<Longrightarrow> d \<le> e \<Longrightarrow> stack ! p = int e \<Longrightarrow> out ! p = 0"
  shows "length out' = length stack \<and>
    off' + lin out' ((!) vars) = off + lin out ((!) vars) + lin cs (\<lambda>i. coord s stack vars (d + i))"
  using assms
proof (induction s stack d cs out off rule: map_coeffs_from.induct)
  case (1 s stack d out off)
  then show ?case by simp
next
  case (2 s stack d c cs out off)
  let ?x = "\<lambda>i. coord s stack vars (d + i)"
  have shift: "(\<lambda>i. coord s stack vars (Suc d + i)) = (\<lambda>i. ?x (Suc i))" by simp
  consider (zero) "c = 0" | (bound) p where "c \<noteq> 0" "stack_pos stack d = Some p"
    | (pinned) pin where "c \<noteq> 0" "stack_pos stack d = None" "dimPinnedAt s d = Some pin"
    using "2.prems"(1) by (force split: option.splits)
  then show ?case
  proof cases
    case zero
    have keep: "out ! p = 0" if "p < length stack" "Suc d \<le> e" "stack ! p = int e" for p e
      using that "2.prems"(4) [of p e] by simp
    from "2.IH"(1) [OF zero _ "2.prems"(2,3) keep] "2.prems"(1) zero shift show ?thesis by (simp add: lin_Cons)
  next
    case bound
    note p = stack_posD [OF bound(2)]
    have keep: "(out[p := c]) ! q = 0" if "q < length stack" "Suc d \<le> e" "stack ! q = int e" for q e
      using that p "2.prems"(2) "2.prems"(4) [of q e] by (cases "q = p") auto
    from "2.IH"(3) [OF bound] "2.prems" bound keep
    have "length out' = length stack \<and>
      off' + lin out' ((!) vars) = off + lin (out[p := c]) ((!) vars) + lin cs (\<lambda>i. ?x (Suc i))"
      using shift by simp
    moreover have "out ! p = 0" using "2.prems"(4) p by blast
    moreover have "?x 0 = vars ! p" using bound by (simp add: coord_def)
    ultimately show ?thesis using p "2.prems"(2) by (simp add: lin_Cons lin_list_update)
  next
    case pinned
    have keep: "out ! p = 0" if "p < length stack" "Suc d \<le> e" "stack ! p = int e" for p e
      using that "2.prems"(4) [of p e] by simp
    from "2.prems"(1) pinned have run: "plain64 (c * pin) = Inr (c * pin)" "plain64 (off + c * pin) = Inr (off + c * pin)"
      "map_coeffs_from s stack (Suc d) cs out (off + c * pin) = Inr (out', off', True)"
      by (auto simp: mlk_try_Inr_iff plain64_Inr)
    from "2.IH"(2) [OF pinned run "2.prems"(2,3) keep] have "length out' = length stack \<and>
      off' + lin out' ((!) vars) = off + c * pin + lin out ((!) vars) + lin cs (\<lambda>i. ?x (Suc i))"
      using shift by simp
    moreover have "?x 0 = pin" using pinned by (simp add: coord_def)
    ultimately show ?thesis by (simp add: lin_Cons)
  qed
qed

text \<open>Statements and stacks whose dimensions are those of the SCoP.\<close>

definition box_ok :: "nat \<Rightarrow> statement \<Rightarrow> bool" where
  "box_ok D s \<longleftrightarrow> st_depth s \<le> D \<and> length (st_ownLower s) = st_depth s \<and> length (st_ownUpper s) = st_depth s
     \<and> (\<forall>d < st_depth s. 0 \<le> st_ownLower s ! d)"

definition stack_ok :: "nat \<Rightarrow> int list \<Rightarrow> bool" where
  "stack_ok D stack \<longleftrightarrow> (\<forall>v \<in> set stack. v < int D)"

lemma coord_beyond: "box_ok D s \<Longrightarrow> stack_ok D stack \<Longrightarrow> D \<le> d \<Longrightarrow> coord s stack vars d = 0"
proof -
  assume b: "box_ok D s" and st: "stack_ok D stack" and d: "D \<le> d"
  have "stack_pos stack d = None" using st d by (auto simp: stack_pos_None stack_ok_def)
  then show ?thesis using b d by (simp add: coord_def box_ok_def dimPinnedAt_def)
qed

lemma mapCoeffs_value:
  assumes "mapCoeffs s cs em = Inr (out, off, em')" and "\<not> em_failed em'" and "box_ok D s" and "stack_ok D (em_stack em)"
  shows "em' = em" and "length vars = length (em_stack em)
    \<Longrightarrow> address out (k + off) vars = address cs k (point D s (em_stack em) vars)"
proof -
  from assms(1,2) have run: "map_coeffs_from s (em_stack em) 0 cs (replicate (length (em_stack em)) 0) 0 = Inr (out, off, True)"
    and "em' = em" by (auto simp: mapCoeffs_def mlk_try_Inr_iff em_fail_def split: if_splits)
  then show "em' = em" by simp
  assume l: "length vars = length (em_stack em)"
  from map_coeffs_from_value [OF run _ l]
  have v: "length out = length (em_stack em)" "off + lin out ((!) vars) = lin cs (coord s (em_stack em) vars)" by simp_all
  have "lin out (\<lambda>i. if i < length vars then vars ! i else 0) = lin out ((!) vars)" by (rule lin_cong) (simp add: v l)
  moreover have "lin cs (\<lambda>i. if i < D then point D s (em_stack em) vars ! i else 0) = lin cs (coord s (em_stack em) vars)"
    by (rule lin_cong) (use coord_beyond [OF assms(3,4)] in \<open>auto simp: point_def\<close>)
  moreover have "length (point D s (em_stack em) vars) = D" by (simp add: point_def)
  ultimately show "address out (k + off) vars = address cs k (point D s (em_stack em) vars)"
    using v by (simp add: address_lin)
qed

lemma mapCoeffs_sticky: "mapCoeffs s cs em = Inr (out, off, em') \<Longrightarrow> em_failed em \<Longrightarrow> em_failed em'"
  by (auto simp: mapCoeffs_def mlk_try_Inr_iff em_fail_def split: if_splits)

lemma mapOperand_value:
  assumes "mapOperand s opnd em = Inr (opnd', em')" and "\<not> em_failed em'" and "box_ok D s" and "stack_ok D (em_stack em)"
  shows "em' = em" and "length vars = length (em_stack em) \<Longrightarrow> resolve vars opnd' = resolve (point D s (em_stack em) vars) opnd"
proof -
  consider (plain) "opnd_kind opnd \<noteq> OElemIdx" "opnd' = opnd" "em' = em"
    | (elem) out off where "opnd_kind opnd = OElemIdx" "mapCoeffs s (opnd_idxCoeffs opnd) em = Inr (out, off, em')"
      "opnd' = opnd\<lparr>opnd_idxCoeffs := out, opnd_idxOffset := opnd_idxOffset opnd + off\<rparr>"
    using assms(1) by (auto simp: mapOperand_def mlk_try_Inr_iff add_op.limited_Inr_iff split: if_splits)
  then have "em' = em \<and> (length vars = length (em_stack em) \<longrightarrow> resolve vars opnd' = resolve (point D s (em_stack em) vars) opnd)"
  proof cases
    case plain
    then show ?thesis by (simp add: resolve_def)
  next
    case elem
    then show ?thesis using mapCoeffs_value [OF elem(2) assms(2-4)] by (auto simp: resolve_def)
  qed
  then show "em' = em" "length vars = length (em_stack em) \<Longrightarrow> resolve vars opnd' = resolve (point D s (em_stack em) vars) opnd"
    by blast+
qed

lemma mapOperand_sticky: "mapOperand s opnd em = Inr (opnd', em') \<Longrightarrow> em_failed em \<Longrightarrow> em_failed em'"
  using mapCoeffs_sticky by (fastforce simp: mapOperand_def mlk_try_Inr_iff split: if_splits)

lemma mapExprs_sticky: "mapExprs s es em = Inr (es', em') \<Longrightarrow> em_failed em \<Longrightarrow> em_failed em'"
  by (induction es arbitrary: em es') (auto simp: mlk_try_Inr_iff dest: mapOperand_sticky)

lemma mapExprs_value:
  assumes "mapExprs s es em = Inr (es', em')" and "\<not> em_failed em'" and "box_ok D s" and "stack_ok D (em_stack em)"
  shows "em' = em \<and> (\<forall>vars. length vars = length (em_stack em)
    \<longrightarrow> map (resolve_expr vars) es' = map (resolve_expr (point D s (em_stack em) vars)) es)"
  using assms
proof (induction es arbitrary: em es')
  case Nil
  then show ?case by simp
next
  case (Cons e es)
  from Cons.prems(1) obtain a em1 b em2 rest where a: "mapOperand s (kx_a e) em = Inr (a, em1)"
    and b: "mapOperand s (kx_b e) em1 = Inr (b, em2)" and r: "mapExprs s es em2 = Inr (rest, em')"
    and es': "es' = \<lparr>kx_op = kx_op e, kx_a = a, kx_b = b\<rparr> # rest" by (auto simp: mlk_try_Inr_iff)
  have f: "\<not> em_failed em2" "\<not> em_failed em1"
    using mapExprs_sticky [OF r] mapOperand_sticky [OF b] Cons.prems(2) by blast+
  note a' = mapOperand_value [OF a f(2) Cons.prems(3,4)]
  note b' = mapOperand_value [OF b f(1) Cons.prems(3), unfolded a'(1), OF Cons.prems(4)]
  from Cons.IH [OF r Cons.prems(2,3)] Cons.prems(4) a' b' show ?case by (simp add: es' resolve_expr_def)
qed

section \<open>Closed stretches of the arena\<close>

text \<open>
  The nodes that a step appends refer to one another only, each is the child of one of them or stands
  in the list that the step adds to its body, and that list ascends.
\<close>

definition children_of :: "kernel_node list \<Rightarrow> nat set" where
  "children_of N = (\<Union>n \<in> set N. set (kn_children n))"

definition closed_part :: "nat \<Rightarrow> kernel_node list \<Rightarrow> nat list \<Rightarrow> bool" where
  "closed_part b N ids \<longleftrightarrow> children_of N \<union> set ids = {b..<b + length N} \<and> children_of N \<inter> set ids = {} \<and> sorted_wrt (<) ids"

lemma children_of_simps [simp]:
  "children_of [] = {}" "children_of (n # N) = set (kn_children n) \<union> children_of N"
  "children_of (N @ N') = children_of N \<union> children_of N'"
  by (auto simp: children_of_def)

lemma closed_part_Nil [simp]: "closed_part b [] []"
  by (simp add: closed_part_def)

lemma closed_part_append:
  assumes "closed_part b N ids" and "closed_part (b + length N) N' ids'"
  shows "closed_part b (N @ N') (ids @ ids')"
proof -
  let ?c = "b + length N"
  have a: "children_of N \<union> set ids = {b..<?c}" "children_of N' \<union> set ids' = {?c..<?c + length N'}"
    using assms by (auto simp: closed_part_def)
  have "children_of (N @ N') \<union> set (ids @ ids') = (children_of N \<union> set ids) \<union> (children_of N' \<union> set ids')" by auto
  also have "\<dots> = {b..<b + length (N @ N')}" unfolding a by auto
  finally have u: "children_of (N @ N') \<union> set (ids @ ids') = {b..<b + length (N @ N')}" .
  have r: "\<And>i. i \<in> children_of N \<Longrightarrow> i < ?c" "\<And>i. i \<in> set ids \<Longrightarrow> i < ?c"
    "\<And>i. i \<in> children_of N' \<Longrightarrow> ?c \<le> i" "\<And>i. i \<in> set ids' \<Longrightarrow> ?c \<le> i"
    using a by (auto simp: set_eq_iff)
  have "children_of (N @ N') \<inter> set (ids @ ids') = {}"
    using assms r by (fastforce simp: closed_part_def)
  moreover have "sorted_wrt (<) (ids @ ids')"
    using assms r(2,4) by (fastforce simp: closed_part_def sorted_wrt_append)
  ultimately show ?thesis using u by (simp add: closed_part_def)
qed

lemma closed_part_parent:
  assumes "closed_part b N ids" and "kn_children n = ids"
  shows "closed_part b (N @ [n]) [b + length N]"
proof -
  have "children_of (N @ [n]) = {b..<b + length N}" using assms by (auto simp: closed_part_def)
  then show ?thesis by (auto simp: closed_part_def)
qed

lemma closed_part_first:
  assumes "closed_part (Suc b) N ids" and "kn_children n = ids"
  shows "closed_part b (n # N) [b]"
proof -
  have "children_of (n # N) = {Suc b..<Suc b + length N}" using assms by (auto simp: closed_part_def)
  then show ?thesis by (auto simp: closed_part_def)
qed

section \<open>Guards\<close>

text \<open>Loop values that the checked arithmetic of a guard can hold.\<close>

definition vars_ok :: "int list \<Rightarrow> int list \<Rightarrow> bool" where
  "vars_ok stack vars \<longleftrightarrow> length vars = length stack \<and> (\<forall>v \<in> set vars. 0 \<le> v \<and> v \<le> INT64_MAX)"

lemma vars_ok_snoc: "vars_ok stack vars \<Longrightarrow> 0 \<le> v \<Longrightarrow> v \<le> INT64_MAX \<Longrightarrow> vars_ok (stack @ [d]) (vars @ [v])"
  by (auto simp: vars_ok_def)

definition guard_holds :: "int list \<Rightarrow> int list \<Rightarrow> nat \<times> int \<Rightarrow> bool" where
  "guard_holds stack vars g = (case stack_pos stack (fst g) of None \<Rightarrow> False | Some p \<Rightarrow> vars ! p = snd g)"

definition guards_hold :: "int list \<Rightarrow> int list \<Rightarrow> (nat \<times> int) list \<Rightarrow> bool" where
  "guards_hold stack vars gs \<longleftrightarrow> (\<forall>g \<in> set gs. guard_holds stack vars g)"

lemma guards_hold_simps [simp]:
  "guards_hold stack vars []" "guards_hold stack vars (g # gs) \<longleftrightarrow> guard_holds stack vars g \<and> guards_hold stack vars gs"
  "guards_hold stack vars (rev gs) = guards_hold stack vars gs"
  "guards_hold stack vars (gs @ hs) \<longleftrightarrow> guards_hold stack vars gs \<and> guards_hold stack vars hs"
  by (auto simp: guards_hold_def)

lemma guard_form_unit:
  assumes "p < length vars" and "in_i64 (vars ! p)" and "in_i64 (acc + vars ! p)"
  shows "guard_form ((replicate (p + 1) 0)[p := 1]) vars acc = Inr (acc + vars ! p)"
proof -
  have "guard_form (replicate p 0 @ [1]) vars acc = Inr (acc + vars ! p)"
    using assms
  proof (induction p arbitrary: vars)
    case 0
    then show ?case by (cases vars) auto
  next
    case (Suc p)
    then show ?case by (cases vars) auto
  qed
  moreover have "(replicate (p + 1) 0)[p := 1] = replicate p 0 @ [1 :: int]"
    by (induction p) simp_all
  ultimately show ?thesis by simp
qed

definition same_but :: "emitter \<Rightarrow> kernel_node list \<Rightarrow> nat list \<Rightarrow> emitter \<Rightarrow> bool" where
  "same_but em N ids em' \<longleftrightarrow> em' = em\<lparr>em_nodes := em_nodes em @ N, em_body := em_body em @ ids\<rparr>"

lemma wrap_guards_sticky: "wrap_guards gs ids em = Inr (r, em') \<Longrightarrow> em_failed em \<Longrightarrow> em_failed em'"
proof (induction gs ids em rule: wrap_guards.induct)
  case (2 d v gs wrapped em)
  then show ?case by (auto simp: em_fail_def add_node_def mlk_try_Inr_iff split: option.splits)
qed simp

lemma wrap_guards_runs:
  assumes "wrap_guards gs ids em = Inr (r, em')" and "\<not> em_failed em'" and "em_nodes em = P @ N0" and "b = length P"
    and "closed_part b N0 ids"
    and "\<And>vars. vars_ok (em_stack em) vars \<Longrightarrow> runs b (em_nodes em) vars ids (M vars)"
    and "\<And>d v. (d, v) \<in> set gs \<Longrightarrow> 0 \<le> v"
  shows "\<exists>N ids'. r = Some ids' \<and> em' = em\<lparr>em_nodes := em_nodes em @ N\<rparr> \<and> closed_part b (N0 @ N) ids' \<and> (\<forall>vars. vars_ok (em_stack em) vars
     \<longrightarrow> runs b (em_nodes em') vars ids' (if guards_hold (em_stack em) vars gs then M vars else {#}))"
  using assms
proof (induction gs ids em arbitrary: M N0 rule: wrap_guards.induct)
  case (1 wrapped em)
  then show ?case by (intro exI [of _ "[]"] exI [of _ wrapped]) auto
next
  case (2 d v gs wrapped em)
  let ?b = "length (em_nodes em)"
  show ?case
  proof (cases "stack_pos (em_stack em) d")
    case None
    with "2.prems"(1,2) show ?thesis by (auto simp: em_fail_def)
  next
    case (Some p)
    let ?n = "new_node\<lparr>kn_op := KGuard, kn_guardCoeffs := (replicate (p + 1) 0)[p := 1], kn_guardOffset := - v, kn_children := wrapped\<rparr>"
    let ?em = "em\<lparr>em_nodes := em_nodes em @ [?n]\<rparr>"
    let ?M = "\<lambda>vars. if guard_holds (em_stack em) vars (d, v) then M vars else {#}"
    note p = stack_posD [OF Some]
    from "2.prems"(1) Some have v: "in_i64 (- v)" and run: "wrap_guards gs [?b] ?em = Inr (r, em')"
      by (auto simp: add_node_def mlk_try_Inr_iff plain64_Inr)
    have "runs b (em_nodes ?em) vars [?b] (?M vars)" if vars: "vars_ok (em_stack em) vars" for vars
    proof -
      have pl: "p < length vars" using vars p by (simp add: vars_ok_def)
      then have "0 \<le> vars ! p" "vars ! p \<le> INT64_MAX" using vars by (auto simp: vars_ok_def)
      moreover have "0 \<le> v" using "2.prems"(7) [of d v] by simp
      ultimately have i: "in_i64 (vars ! p)" "in_i64 (- v + vars ! p)" using v by (auto simp: i64_defs)
      have "?M vars = (if - v + vars ! p = 0 then M vars else {#})" using Some by (auto simp: guard_holds_def)
      moreover have ne: "(replicate (p + 1) 0)[p := 1] \<noteq> ([] :: int list)" by (simp only: list_update_nonempty) simp
      moreover have "runs b (em_nodes ?em) vars [?b] (if - v + vars ! p = 0 then M vars else {#})"
        by (rule runs_guard)
           (use ne "2.prems"(3,4) guard_form_unit [OF pl i] runs_more [OF "2.prems"(6) [OF vars]] in \<open>simp_all add: new_node_def\<close>)
      ultimately show ?thesis by simp
    qed
    then have R: "vars_ok (em_stack ?em) vars \<Longrightarrow> runs b (em_nodes ?em) vars [?b] (?M vars)" for vars by simp
    have "?b = b + length N0" using "2.prems"(3,4) by simp
    with closed_part_parent [OF "2.prems"(5), of ?n] have cl: "closed_part b (N0 @ [?n]) [?b]" by simp
    have N: "em_nodes ?em = P @ N0 @ [?n]" using "2.prems"(3) by simp
    have gs: "0 \<le> w" if "(e, w) \<in> set gs" for e w using "2.prems"(7) [of e w] that by simp
    have "\<exists>N ids'. r = Some ids' \<and> em' = ?em\<lparr>em_nodes := em_nodes ?em @ N\<rparr> \<and> closed_part b ((N0 @ [?n]) @ N) ids' \<and> (\<forall>vars. vars_ok (em_stack ?em) vars
       \<longrightarrow> runs b (em_nodes em') vars ids' (if guards_hold (em_stack ?em) vars gs then ?M vars else {#}))"
      using v Some run by (intro "2.IH" [OF Some _ _ _ _ "2.prems"(2) N "2.prems"(4) cl R gs]) (auto simp: add_node_def plain64_Inr)
    then obtain N ids' where "r = Some ids'" "em' = ?em\<lparr>em_nodes := em_nodes ?em @ N\<rparr>" "closed_part b ((N0 @ [?n]) @ N) ids'" and
      R: "\<And>vars. vars_ok (em_stack em) vars \<Longrightarrow> runs b (em_nodes em') vars ids' (if guards_hold (em_stack em) vars gs then ?M vars else {#})"
      by auto
    moreover have "(if guards_hold (em_stack em) vars gs then ?M vars else {#})
        = (if guards_hold (em_stack em) vars ((d, v) # gs) then M vars else {#})" for vars by simp
    ultimately show ?thesis by (intro exI [of _ "?n # N"] exI [of _ ids']) auto
  qed
qed

section \<open>Payload of a statement\<close>

lemma emitPayload_sticky:
  assumes "emitPayload s em = Inr em'" and "em_failed em"
  shows "em_failed em'"
proof -
  from assms(1) obtain es em1 where e: "mapExprs s (st_exprs s) em = Inr (es, em1)"
    and k: "(if es = [] then Inr (em_fail em1)
       else mlk_try (mapCoeffs s (st_storeCoeffs s) em1) (\<lambda>(out, off, em).
         mlk_try (addLimited (st_storeOffset s) off) (\<lambda>storeOff.
         let (cid, em) = add_node (compute_node es) em; (sid, em) = add_node (store_node s out storeOff) em in
         mlk_try (vec_at (em_guards em) (st_id s)) (\<lambda>gs.
         mlk_try (wrap_guards (rev gs) [cid, sid] em) (\<lambda>(wrapped, em).
           case wrapped of None \<Rightarrow> Inr em | Some ids \<Rightarrow> Inr (push_body ids em)))))) = Inr em'"
    by (auto simp: emitPayload_def mlk_try_Inr_iff)
  have "em_failed em1" using mapExprs_sticky [OF e] assms(2) .
  with k show ?thesis
    by (auto simp: em_fail_def mlk_try_Inr_iff add_node_def push_body_def Let_def split: if_splits option.splits
        dest!: mapCoeffs_sticky wrap_guards_sticky)
qed

lemma emitPayload_runs:
  assumes "emitPayload s em = Inr em'" and "\<not> em_failed em'" and "box_ok D s" and "stack_ok D (em_stack em)"
    and "\<And>d v. (d, v) \<in> set (em_guards em ! st_id s) \<Longrightarrow> 0 \<le> v"
  shows "\<exists>N ids. same_but em N ids em' \<and> closed_part (length (em_nodes em)) N ids \<and> (\<forall>vars. vars_ok (em_stack em) vars
     \<longrightarrow> runs (length (em_nodes em)) (em_nodes em') vars ids
         (if guards_hold (em_stack em) vars (em_guards em ! st_id s)
          then {# instance_event s (point D s (em_stack em) vars) #} else {#}))"
proof -
  let ?b = "length (em_nodes em)"
  from assms(1,2) obtain es em1 out off em2 where e: "mapExprs s (st_exprs s) em = Inr (es, em1)"
    and c: "mapCoeffs s (st_storeCoeffs s) em1 = Inr (out, off, em2)"
    and k: "mlk_try (addLimited (st_storeOffset s) off) (\<lambda>storeOff.
         let (cid, em) = add_node (compute_node es) em2; (sid, em) = add_node (store_node s out storeOff) em in
         mlk_try (vec_at (em_guards em) (st_id s)) (\<lambda>gs.
         mlk_try (wrap_guards (rev gs) [cid, sid] em) (\<lambda>(wrapped, em).
           case wrapped of None \<Rightarrow> Inr em | Some ids \<Rightarrow> Inr (push_body ids em)))) = Inr em'"
    by (auto simp: emitPayload_def mlk_try_Inr_iff em_fail_def split: if_splits)
  let ?C = "compute_node es" and ?S = "store_node s out (st_storeOffset s + off)"
  let ?em = "em2\<lparr>em_nodes := em_nodes em2 @ [?C, ?S]\<rparr>" and ?l = "length (em_nodes em2)"
  from k obtain r em3 where g: "st_id s < length (em_guards em2)"
    and w: "wrap_guards (rev (em_guards em2 ! st_id s)) [?l, Suc ?l] ?em = Inr (r, em3)"
    and em': "em' = (case r of None \<Rightarrow> em3 | Some ids \<Rightarrow> push_body ids em3)"
    by (auto simp: mlk_try_Inr_iff add_op.limited_Inr_iff add_node_def vec_at_Inr split: option.splits)
  have f3: "\<not> em_failed em3" using assms(2) by (auto simp: em' push_body_def split: option.splits)
  then have "\<not> em_failed em2" using wrap_guards_sticky [OF w] by auto
  then have "\<not> em_failed em1" using mapCoeffs_sticky [OF c] by blast
  from mapExprs_value [OF e this assms(3,4)] have em1: "em1 = em" and es: "\<And>vars. length vars = length (em_stack em)
      \<Longrightarrow> map (resolve_expr vars) es = map (resolve_expr (point D s (em_stack em) vars)) (st_exprs s)" by auto
  note c' = mapCoeffs_value [OF c \<open>\<not> em_failed em2\<close> assms(3), unfolded em1, OF assms(4)]
  have R: "runs ?b (em_nodes ?em) vars [?l, Suc ?l] {# instance_event s (point D s (em_stack em) vars) #}"
    if "vars_ok (em_stack em) vars" for vars
  proof -
    have l: "length vars = length (em_stack em)" using that by (simp add: vars_ok_def)
    have "event_of ?C ?S vars = instance_event s (point D s (em_stack em) vars)"
      using es [OF l] c'(2) [OF l]
      by (simp add: event_of_def instance_event_def compute_node_def store_node_def new_node_def)
    moreover have "runs ?b (em_nodes ?em) vars [?l, Suc ?l] {# event_of ?C ?S vars #}"
      by (rule runs_pair) (simp_all add: c'(1) nth_append compute_node_def store_node_def new_node_def)
    ultimately show ?thesis by simp
  qed
  have gs: "0 \<le> v" if "(d, v) \<in> set (rev (em_guards em2 ! st_id s))" for d v
    using assms(5) [of d v] that by (simp add: c'(1))
  have R': "vars_ok (em_stack ?em) vars \<Longrightarrow> runs ?b (em_nodes ?em) vars [?l, Suc ?l] {# instance_event s (point D s (em_stack em) vars) #}" for vars
    using R by (simp add: c'(1))
  have cl: "closed_part ?b [?C, ?S] [?l, Suc ?l]" by (auto simp: closed_part_def c'(1) compute_node_def store_node_def new_node_def)
  have "\<exists>N ids'. r = Some ids' \<and> em3 = ?em\<lparr>em_nodes := em_nodes ?em @ N\<rparr> \<and> closed_part ?b ([?C, ?S] @ N) ids' \<and> (\<forall>vars. vars_ok (em_stack ?em) vars
     \<longrightarrow> runs ?b (em_nodes em3) vars ids' (if guards_hold (em_stack ?em) vars (rev (em_guards em2 ! st_id s))
       then {# instance_event s (point D s (em_stack em) vars) #} else {#}))"
    by (rule wrap_guards_runs [OF w f3 _ _ cl, where P = "em_nodes em"]) (use R' gs in \<open>simp_all add: c'(1)\<close>)
  then obtain N ids where "r = Some ids" "em3 = ?em\<lparr>em_nodes := em_nodes ?em @ N\<rparr>" "closed_part ?b (?C # ?S # N) ids"
    "\<And>vars. vars_ok (em_stack em) vars \<Longrightarrow> runs ?b (em_nodes em3) vars ids
       (if guards_hold (em_stack em) vars (em_guards em ! st_id s) then {# instance_event s (point D s (em_stack em) vars) #} else {#})"
    by (auto simp: c'(1))
  then show ?thesis by (intro exI [of _ "?C # ?S # N"] exI [of _ ids]) (simp add: same_but_def em' push_body_def c'(1))
qed

section \<open>Effects of emission steps\<close>

text \<open>
  A step that emits the statements \<open>S\<close>: it appends a closed stretch of nodes and a list to the body,
  marks the statements, leaves the guards of all others, and its nodes run with the events \<open>M\<close>.
\<close>

definition marks_after :: "nat set \<Rightarrow> emitter \<Rightarrow> emitter \<Rightarrow> bool" where
  "marks_after S em em' \<longleftrightarrow> length (em_emitted em') = length (em_emitted em) \<and> length (em_guards em') = length (em_guards em)
     \<and> (\<forall>i < length (em_emitted em). em_emitted em' ! i \<longleftrightarrow> em_emitted em ! i \<or> i \<in> S)
     \<and> (\<forall>i. i \<notin> S \<longrightarrow> em_guards em' ! i = em_guards em ! i)"

definition emits :: "emitter \<Rightarrow> emitter \<Rightarrow> (int list \<Rightarrow> event multiset) \<Rightarrow> bool" where
  "emits em em' M \<longleftrightarrow> em_stack em' = em_stack em \<and>
     (\<exists>N ids. em_nodes em' = em_nodes em @ N \<and> em_body em' = em_body em @ ids \<and> closed_part (length (em_nodes em)) N ids
       \<and> (\<forall>vars. vars_ok (em_stack em) vars \<longrightarrow> runs (length (em_nodes em)) (em_nodes em') vars ids (M vars)))"

definition effect :: "nat set \<Rightarrow> emitter \<Rightarrow> emitter \<Rightarrow> (int list \<Rightarrow> event multiset) \<Rightarrow> bool" where
  "effect S em em' M \<longleftrightarrow> emits em em' M \<and> marks_after S em em'"

lemma marks_after_trans: "marks_after S em em1 \<Longrightarrow> marks_after S' em1 em' \<Longrightarrow> marks_after (S \<union> S') em em'"
  by (auto simp: marks_after_def)

lemma emits_trans:
  assumes "emits em em1 M" and "emits em1 em' M'"
  shows "emits em em' (\<lambda>vars. M vars + M' vars)"
proof -
  let ?b = "length (em_nodes em)"
  from assms obtain N ids N' ids' where N: "em_nodes em1 = em_nodes em @ N" "em_body em1 = em_body em @ ids" "closed_part ?b N ids"
      "\<And>vars. vars_ok (em_stack em) vars \<Longrightarrow> runs ?b (em_nodes em1) vars ids (M vars)"
    and N': "em_nodes em' = em_nodes em1 @ N'" "em_body em' = em_body em1 @ ids'" "closed_part (length (em_nodes em1)) N' ids'"
      "\<And>vars. vars_ok (em_stack em1) vars \<Longrightarrow> runs (length (em_nodes em1)) (em_nodes em') vars ids' (M' vars)"
    and st: "em_stack em1 = em_stack em" "em_stack em' = em_stack em1"
    unfolding emits_def by blast
  have "runs ?b (em_nodes em') vars (ids @ ids') (M vars + M' vars)" if "vars_ok (em_stack em) vars" for vars
  proof (rule runs_append)
    show "runs ?b (em_nodes em') vars ids (M vars)" using N(4) [OF that] by (simp add: N'(1) runs_more)
    show "runs ?b (em_nodes em') vars ids' (M' vars)"
      by (rule runs_mono [OF N'(4)]) (use that st N(1) in auto)
  qed
  moreover have "closed_part ?b (N @ N') (ids @ ids')"
    by (rule closed_part_append [OF N(3)]) (use N'(3) N(1) in simp)
  moreover have "em_nodes em' = em_nodes em @ (N @ N')" "em_body em' = em_body em @ (ids @ ids')" using N N' by simp_all
  ultimately show ?thesis unfolding emits_def using st by (intro conjI exI [of _ "N @ N'"] exI [of _ "ids @ ids'"]) auto
qed

lemma effect_trans: "effect S em em1 M \<Longrightarrow> effect S' em1 em' M' \<Longrightarrow> effect (S \<union> S') em em' (\<lambda>vars. M vars + M' vars)"
  unfolding effect_def using emits_trans marks_after_trans by blast

text \<open>The nodes of a step do not depend on the marks, which a replay restores.\<close>

lemma emits_restore [simp]: "emits (em1\<lparr>em_emitted := E, em_guards := G\<rparr>) em' M \<longleftrightarrow> emits em1 em' M"
  by (simp add: emits_def)

lemma effect_refl: "effect {} em em (\<lambda>vars. {#})"
  by (auto simp: effect_def emits_def marks_after_def)

lemma effect_cong:
  assumes "effect S em em' M" and "\<And>vars. vars_ok (em_stack em) vars \<Longrightarrow> M vars = M' vars"
  shows "effect S em em' M'"
  using assms unfolding effect_def emits_def by fastforce

text \<open>Names and the copy budget do not matter.\<close>

definition same_core :: "emitter \<Rightarrow> emitter \<Rightarrow> bool" where
  "same_core em em1 \<longleftrightarrow> em_nodes em1 = em_nodes em \<and> em_body em1 = em_body em \<and> em_stack em1 = em_stack em
     \<and> em_emitted em1 = em_emitted em \<and> em_guards em1 = em_guards em \<and> em_failed em1 = em_failed em"

lemma effect_core: "same_core em em1 \<Longrightarrow> effect S em1 em' M \<Longrightarrow> effect S em em' M"
  by (simp add: same_core_def effect_def emits_def marks_after_def)

lemma intern_name_core: "intern_name t em = (v, em1) \<Longrightarrow> same_core em em1"
  by (auto simp: intern_name_def same_core_def split: prod.splits)

lemma loop_name_core: "loop_name cx d em = (v, em1) \<Longrightarrow> same_core em em1"
  by (auto simp: loop_name_def Let_def intern_name_core same_core_def split: if_splits dest!: intern_name_core)

lemma tile_name_core: "tile_name v em = Inr (tv, em1) \<Longrightarrow> same_core em em1"
  by (auto simp: tile_name_def mlk_try_Inr_iff intern_name_core)

section \<open>The schedules that are generated faithfully\<close>

text \<open>
  The contract of the comment in \<open>codegen.h\<close>, as far as the instances depend on it. Every statement of a
  row is constant there or varies along its pivot. A constant one occupies exactly the coordinate
  that the row gives it, and is pinned along the pivots of all later rows; the varying ones share
  the bounds of the pivot. Every dimension is pinned or the pivot of a row.
\<close>

definition pinned_from :: "codegen_input \<Rightarrow> nat \<Rightarrow> statement \<Rightarrow> bool" where
  "pinned_from cx r s \<longleftrightarrow> list_all (\<lambda>p. dimPinnedAt s p \<noteq> None) (drop r (ps_pivotDim (cg_sched cx)))"

definition row_fits :: "codegen_input \<Rightarrow> nat \<Rightarrow> statement \<Rightarrow> bool" where
  "row_fits cx r s \<longleftrightarrow>
     (let p = ps_pivotDim (cg_sched cx) ! r in
      case rowEffectiveConst s (ps_rows (cg_sched cx) ! r) of
        Inl e \<Rightarrow> False
      | Inr None \<Rightarrow> dimPinnedAt s p = None
      | Inr (Some v) \<Rightarrow> dimPinnedAt s p = Some v \<and> pinned_from cx (Suc r) s)"

definition same_range :: "nat \<Rightarrow> statement \<Rightarrow> statement \<Rightarrow> bool" where
  "same_range p s t \<longleftrightarrow> dimPinnedAt s p \<noteq> None \<or> dimPinnedAt t p \<noteq> None
     \<or> st_ownLower s ! p = st_ownLower t ! p \<and> st_ownUpper s ! p = st_ownUpper t ! p"

definition nest_ok :: "codegen_input \<Rightarrow> bool" where
  "nest_ok cx \<longleftrightarrow>
     (let ss = scop_statements (cg_scop cx); D = scop_depth (cg_scop cx); ps = ps_pivotDim (cg_sched cx) in
      list_all (\<lambda>i. st_id (ss ! i) = i) [0..<length ss] \<and> list_all (box_ok D) ss
      \<and> length ps = length (ps_rows (cg_sched cx)) \<and> distinct ps \<and> list_all (\<lambda>p. p < D) ps
      \<and> list_all (\<lambda>r. list_all (row_fits cx r) ss) [0..<length ps]
      \<and> list_all (\<lambda>p. list_all (\<lambda>s. list_all (same_range p s) ss) ss) ps
      \<and> list_all (\<lambda>s. list_all (\<lambda>d. dimPinnedAt s d \<noteq> None \<or> d \<in> set ps) [0..<D]) ss)"

text \<open>The points of a statement along the remaining pivots, in the order of the loops.\<close>

fun instances :: "statement \<Rightarrow> nat list \<Rightarrow> int list \<Rightarrow> int list list" where
  "instances s [] x = [x]"
| "instances s (p # ps) x =
     (case dimPinnedAt s p of
        Some v \<Rightarrow> instances s ps x
      | None \<Rightarrow> concat (map (\<lambda>v. instances s ps (x[p := v])) [st_ownLower s ! p..st_ownUpper s ! p]))"

text \<open>What a statement still has to perform at a level, and a list of statements that are not yet emitted.\<close>

definition events_at :: "codegen_input \<Rightarrow> nat \<Rightarrow> int list \<Rightarrow> int list \<Rightarrow> (nat \<times> int) list list \<Rightarrow> nat \<Rightarrow> event multiset" where
  "events_at cx r stack vars gss i =
     (let s = scop_statements (cg_scop cx) ! i in
      if guards_hold stack vars (gss ! i)
      then image_mset (instance_event s) (mset (instances s (drop r (ps_pivotDim (cg_sched cx))) (point (scop_depth (cg_scop cx)) s stack vars)))
      else {#})"

definition level_events :: "codegen_input \<Rightarrow> nat \<Rightarrow> nat list \<Rightarrow> int list \<Rightarrow> int list \<Rightarrow> (nat \<times> int) list list \<Rightarrow> event multiset" where
  "level_events cx r S stack vars gss = (\<Sum>i\<leftarrow>S. events_at cx r stack vars gss i)"

definition alive :: "nat list \<Rightarrow> emitter \<Rightarrow> nat list" where
  "alive S em = filter (\<lambda>i. \<not> em_emitted em ! i) S"

definition em_ok :: "codegen_input \<Rightarrow> nat \<Rightarrow> nat list \<Rightarrow> emitter \<Rightarrow> bool" where
  "em_ok cx r S em \<longleftrightarrow> distinct S \<and> set S \<subseteq> {..<length (scop_statements (cg_scop cx))}
     \<and> length (em_emitted em) = length (scop_statements (cg_scop cx))
     \<and> length (em_guards em) = length (scop_statements (cg_scop cx))
     \<and> stack_ok (scop_depth (cg_scop cx)) (em_stack em)
     \<and> (\<forall>p \<in> set (drop r (ps_pivotDim (cg_sched cx))). int p \<notin> set (em_stack em))
     \<and> (\<forall>i \<in> set S. \<forall>(d, v) \<in> set (em_guards em ! i). 0 \<le> v \<and> int d \<in> set (em_stack em))"

text \<open>What the recursion has to satisfy at the level below.\<close>

definition level_spec :: "codegen_input \<Rightarrow> nat \<Rightarrow> level \<Rightarrow> bool" where
  "level_spec cx r rec \<longleftrightarrow>
     (\<forall>S em em'. rec S em = Inr em' \<longrightarrow> em_failed em \<longrightarrow> em_failed em')
     \<and> (\<forall>S em em'. rec S em = Inr em' \<longrightarrow> \<not> em_failed em' \<longrightarrow> em_ok cx r S em
         \<longrightarrow> effect (set S) em em' (\<lambda>vars. level_events cx r (alive S em) (em_stack em) vars (em_guards em)))"

lemma level_spec_sticky: "level_spec cx r rec \<Longrightarrow> rec S em = Inr em' \<Longrightarrow> em_failed em \<Longrightarrow> em_failed em'"
  unfolding level_spec_def by blast

lemma level_spec_effect:
  "level_spec cx r rec \<Longrightarrow> rec S em = Inr em' \<Longrightarrow> \<not> em_failed em' \<Longrightarrow> em_ok cx r S em
     \<Longrightarrow> effect (set S) em em' (\<lambda>vars. level_events cx r (alive S em) (em_stack em) vars (em_guards em))"
  unfolding level_spec_def by blast

section \<open>Constant statements\<close>

lemma nest_okD:
  assumes "nest_ok cx" and "i < length (scop_statements (cg_scop cx))"
  shows "st_id (scop_statements (cg_scop cx) ! i) = i" and "box_ok (scop_depth (cg_scop cx)) (scop_statements (cg_scop cx) ! i)"
    and "r < length (ps_pivotDim (cg_sched cx)) \<Longrightarrow> row_fits cx r (scop_statements (cg_scop cx) ! i)"
  using assms by (auto simp: nest_ok_def Let_def list_all_iff)

lemma instances_pinned: "list_all (\<lambda>p. dimPinnedAt s p \<noteq> None) ps \<Longrightarrow> instances s ps x = [x]"
  by (induction ps) auto

lemma emit_marked_sticky: "emit_marked cx i em = Inr em' \<Longrightarrow> em_failed em \<Longrightarrow> em_failed em'"
  by (auto simp: emit_marked_def mlk_try_Inr_iff dest: emitPayload_sticky)

lemma emit_marked_effect:
  assumes "emit_marked cx i em = Inr em'" and "\<not> em_failed em'" and "nest_ok cx" and "em_ok cx r [i] em"
    and "pinned_from cx r (scop_statements (cg_scop cx) ! i)"
  shows "effect {i} em em' (\<lambda>vars. events_at cx r (em_stack em) vars (em_guards em) i)"
proof -
  let ?s = "scop_statements (cg_scop cx) ! i" and ?D = "scop_depth (cg_scop cx)"
  from assms(1) obtain em1 where p: "emitPayload ?s em = Inr em1" and em': "em' = em1\<lparr>em_emitted := (em_emitted em1)[i := True]\<rparr>"
    by (auto simp: emit_marked_def mlk_try_Inr_iff vec_at_Inr)
  have i: "i < length (scop_statements (cg_scop cx))" using assms(4) by (simp add: em_ok_def)
  note s = nest_okD [OF assms(3) i]
  have ex: "\<exists>N ids. same_but em N ids em1 \<and> closed_part (length (em_nodes em)) N ids \<and> (\<forall>vars. vars_ok (em_stack em) vars
     \<longrightarrow> runs (length (em_nodes em)) (em_nodes em1) vars ids (if guards_hold (em_stack em) vars (em_guards em ! st_id ?s)
          then {# instance_event ?s (point ?D ?s (em_stack em) vars) #} else {#}))"
    by (rule emitPayload_runs [OF p _ s(2)]) (use assms(2,4) s(1) in \<open>auto simp: em' em_ok_def\<close>)
  have E: "events_at cx r (em_stack em) vars (em_guards em) i = (if guards_hold (em_stack em) vars (em_guards em ! i)
      then {# instance_event ?s (point ?D ?s (em_stack em) vars) #} else {#})" for vars
    using instances_pinned [of ?s "drop r (ps_pivotDim (cg_sched cx))"] assms(5)
    by (simp add: events_at_def Let_def pinned_from_def)
  from ex obtain N ids where N: "same_but em N ids em1" "closed_part (length (em_nodes em)) N ids" and
    R: "\<And>vars. vars_ok (em_stack em) vars \<Longrightarrow> runs (length (em_nodes em)) (em_nodes em1) vars ids (events_at cx r (em_stack em) vars (em_guards em) i)"
    unfolding E s(1) by blast
  show ?thesis unfolding effect_def emits_def
  proof (intro conjI exI)
    show "marks_after {i} em em'" using N(1) i assms(4) by (auto simp: marks_after_def same_but_def em' nth_list_update em_ok_def)
    show "em_nodes em' = em_nodes em @ N" "em_body em' = em_body em @ ids" "em_stack em' = em_stack em"
      using N(1) by (simp_all add: same_but_def em')
    show "\<forall>vars. vars_ok (em_stack em) vars \<longrightarrow> runs (length (em_nodes em)) (em_nodes em') vars ids (events_at cx r (em_stack em) vars (em_guards em) i)"
      using R by (simp add: em')
  qed (rule N(2))
qed

end
