(* ===== verification/Codegen_Loops.thy ===== *)
theory Codegen_Loops
  imports Codegen_Laws
begin

text \<open>
  The loops of the code generator: constant statements, plain loops and tile loops run exactly the
  instances of the statements below them.
\<close>

section \<open>Lists of statements\<close>

lemma level_events_simps [simp]:
  "level_events cx r [] stack vars gss = {#}"
  "level_events cx r (i # S) stack vars gss = events_at cx r stack vars gss i + level_events cx r S stack vars gss"
  "level_events cx r (S @ S') stack vars gss = level_events cx r S stack vars gss + level_events cx r S' stack vars gss"
  by (simp_all add: level_events_def)

lemma level_events_mset: "mset S = mset S' \<Longrightarrow> level_events cx r S stack vars gss = level_events cx r S' stack vars gss"
  by (simp add: level_events_def flip: sum_mset_sum_list mset_map) (simp add: mset_map)

lemma events_at_cong: "gss ! i = gss' ! i \<Longrightarrow> events_at cx r stack vars gss i = events_at cx r stack vars gss' i"
  by (simp add: events_at_def)

lemma level_events_cong:
  "(\<And>i. i \<in> set S \<Longrightarrow> gss ! i = gss' ! i) \<Longrightarrow> level_events cx r S stack vars gss = level_events cx r S stack vars gss'"
  by (induction S) (auto intro: events_at_cong)

lemma em_ok_step:
  assumes "em_ok cx r S em" and "marks_after T em em1" and "em_stack em1 = em_stack em"
    and "distinct S'" and "set S' \<subseteq> set S" and "set S' \<inter> T = {}"
  shows "em_ok cx r S' em1"
proof -
  have "em_guards em1 ! i = em_guards em ! i" if "i \<in> set S'" for i
    using assms(2,6) that by (auto simp: marks_after_def)
  then show ?thesis using assms by (fastforce simp: em_ok_def marks_after_def)
qed

lemma em_ok_sub: "em_ok cx r S em \<Longrightarrow> distinct S' \<Longrightarrow> set S' \<subseteq> set S \<Longrightarrow> em_ok cx r S' em"
  by (rule em_ok_step [where T = "{}" and em = em]) (auto simp: marks_after_def)

section \<open>Constant statements\<close>

lemma fold_marked_sticky: "fold_res (emit_marked cx) is em = Inr em' \<Longrightarrow> em_failed em \<Longrightarrow> em_failed em'"
  by (induction "is" arbitrary: em) (auto simp: mlk_try_Inr_iff dest: emit_marked_sticky)

lemma fold_marked_effect:
  assumes "fold_res (emit_marked cx) is em = Inr em'" and "\<not> em_failed em'" and "nest_ok cx" and "em_ok cx r is em"
    and "\<And>i. i \<in> set is \<Longrightarrow> pinned_from cx r (scop_statements (cg_scop cx) ! i)"
  shows "effect (set is) em em' (\<lambda>vars. level_events cx r is (em_stack em) vars (em_guards em))"
  using assms
proof (induction "is" arbitrary: em)
  case Nil
  then show ?case by (simp add: effect_refl)
next
  case (Cons i "is")
  from Cons.prems(1) obtain em1 where e: "emit_marked cx i em = Inr em1" and k: "fold_res (emit_marked cx) is em1 = Inr em'"
    by (auto simp: mlk_try_Inr_iff)
  have f: "\<not> em_failed em1" using fold_marked_sticky [OF k] Cons.prems(2) by blast
  have i: "em_ok cx r [i] em" using Cons.prems(4) by (rule em_ok_sub) auto
  have E: "effect {i} em em1 (\<lambda>vars. events_at cx r (em_stack em) vars (em_guards em) i)"
    by (rule emit_marked_effect [OF e f Cons.prems(3) i]) (simp add: Cons.prems(5))
  then have st: "em_stack em1 = em_stack em" and m: "marks_after {i} em em1" by (simp_all add: effect_def emits_def)
  have d: "distinct (i # is)" using Cons.prems(4) by (simp add: em_ok_def)
  have "em_ok cx r is em1" using Cons.prems(4) m st by (rule em_ok_step) (use d in auto)
  from Cons.IH [OF k Cons.prems(2,3) this] Cons.prems(5)
  have "effect (set is) em1 em' (\<lambda>vars. level_events cx r is (em_stack em1) vars (em_guards em1))" by simp
  from effect_trans [OF E this]
  have "effect ({i} \<union> set is) em em' (\<lambda>vars. level_events cx r (i # is) (em_stack em) vars (em_guards em))"
  proof (rule effect_cong)
    fix vars
    have "level_events cx r is (em_stack em) vars (em_guards em1) = level_events cx r is (em_stack em) vars (em_guards em)"
      by (rule level_events_cong) (use m d in \<open>auto simp: marks_after_def\<close>)
    then show "events_at cx r (em_stack em) vars (em_guards em) i + level_events cx r is (em_stack em1) vars (em_guards em1)
        = level_events cx r (i # is) (em_stack em) vars (em_guards em)" by (simp add: st)
  qed
  then show ?case by simp
qed

lemma fold_res_map: "fold_res (\<lambda>x. f (g x)) xs s = fold_res f (map g xs) s"
  by (induction xs arbitrary: s) (simp_all add: mlk_try_def split: sum.splits)

lemma emitConstItems_fold:
  "\<exists>is. mset is = mset (map snd items) \<and> emitConstItems cx items em = fold_res (emit_marked cx) is em"
  by (rule exI [of _ "map snd (sort_key fst (sort_key (orig_order cx \<circ> snd) items))"])
     (simp add: emitConstItems_def fold_res_map)

lemma emitConstItems_sticky: "emitConstItems cx items em = Inr em' \<Longrightarrow> em_failed em \<Longrightarrow> em_failed em'"
  using emitConstItems_fold fold_marked_sticky by metis

lemma em_ok_mset: "em_ok cx r S em \<Longrightarrow> mset S' = mset S \<Longrightarrow> em_ok cx r S' em"
  by (metis em_ok_sub mset_eq_imp_distinct_iff mset_eq_setD order_refl em_ok_def)

lemma emitConstItems_effect:
  assumes "emitConstItems cx items em = Inr em'" and "\<not> em_failed em'" and "nest_ok cx" and "em_ok cx r (map snd items) em"
    and "\<And>i. i \<in> snd ` set items \<Longrightarrow> pinned_from cx r (scop_statements (cg_scop cx) ! i)"
  shows "effect (snd ` set items) em em' (\<lambda>vars. level_events cx r (map snd items) (em_stack em) vars (em_guards em))"
proof -
  from emitConstItems_fold obtain "is" where m: "mset is = mset (map snd items)"
    and k: "fold_res (emit_marked cx) is em = Inr em'" using assms(1) by metis
  have s: "set is = snd ` set items" using mset_eq_setD [OF m] by simp
  have "effect (set is) em em' (\<lambda>vars. level_events cx r is (em_stack em) vars (em_guards em))"
    by (rule fold_marked_effect [OF k assms(2,3) em_ok_mset [OF assms(4) m]]) (use assms(5) s in auto)
  then show ?thesis unfolding s by (rule effect_cong) (rule level_events_mset [OF m])
qed

section \<open>Plain loops\<close>

lemma em_ok_slot: "em_ok cx r S em \<Longrightarrow> em_ok cx r S (em\<lparr>em_stack := em_stack em @ [-1], em_body := ids\<rparr>)"
  by (auto simp: em_ok_def stack_ok_def)

text \<open>A state in which the loop of the pivot may be opened; its guards may already name the pivot.\<close>

definition em_open :: "codegen_input \<Rightarrow> nat \<Rightarrow> nat list \<Rightarrow> emitter \<Rightarrow> bool" where
  "em_open cx r S em \<longleftrightarrow> em_ok cx (Suc r) S (em\<lparr>em_stack := em_stack em @ [int (ps_pivotDim (cg_sched cx) ! r)]\<rparr>)"

lemma em_openD:
  "em_open cx r S em \<Longrightarrow> p = ps_pivotDim (cg_sched cx) ! r \<Longrightarrow> em_ok cx (Suc r) S (em\<lparr>em_stack := em_stack em @ [int p], em_body := ids\<rparr>)"
  by (simp add: em_open_def em_ok_def)

lemma em_ok_pivot:
  assumes "em_ok cx r S em" and "nest_ok cx" and "r < length (ps_pivotDim (cg_sched cx))"
  shows "em_open cx r S em"
proof -
  let ?ps = "ps_pivotDim (cg_sched cx)"
  let ?p = "?ps ! r"
  have d: "drop r ?ps = ?p # drop (Suc r) ?ps" using assms(3) by (simp add: Cons_nth_drop_Suc)
  have "distinct (drop r ?ps)" using assms(2) by (simp add: nest_ok_def Let_def)
  then have "?p \<notin> set (drop (Suc r) ?ps)" by (simp add: d)
  moreover have "?p < scop_depth (cg_scop cx)" using assms(2,3) by (auto simp: nest_ok_def Let_def list_all_iff)
  ultimately show ?thesis using assms(1) by (auto simp: em_open_def em_ok_def stack_ok_def d)
qed

lemma nested_effect:
  assumes "nested (rec S) d em = Inr (ids, em')" and "\<not> em_failed em'" and "level_spec cx r rec"
    and "em_ok cx r S (em\<lparr>em_stack := em_stack em @ [d], em_body := []\<rparr>)"
  obtains N where "em_nodes em' = em_nodes em @ N" and "em_body em' = em_body em" and "em_stack em' = em_stack em"
    and "marks_after (set S) em em'" and "closed_part (length (em_nodes em)) N ids"
    and "\<And>vars. vars_ok (em_stack em @ [d]) vars \<Longrightarrow> runs (length (em_nodes em)) (em_nodes em') vars ids
           (level_events cx r (alive S em) (em_stack em @ [d]) vars (em_guards em))"
proof -
  let ?em = "em\<lparr>em_stack := em_stack em @ [d], em_body := []\<rparr>"
  from assms(1) obtain em1 where r: "rec S ?em = Inr em1" and ids: "ids = em_body em1"
    and em': "em' = em1\<lparr>em_body := em_body em, em_stack := butlast (em_stack em1)\<rparr>"
    by (auto simp: nested_def mlk_try_Inr_iff)
  have "\<not> em_failed em1" using assms(2) em' by simp
  from level_spec_effect [OF assms(3) r this assms(4)]
  have E: "effect (set S) ?em em1 (\<lambda>vars. level_events cx r (alive S ?em) (em_stack ?em) vars (em_guards ?em))" .
  then obtain N where "em_nodes em1 = em_nodes em @ N" "closed_part (length (em_nodes em)) N ids"
    "\<And>vars. vars_ok (em_stack em @ [d]) vars \<Longrightarrow> runs (length (em_nodes em)) (em_nodes em1) vars ids
           (level_events cx r (alive S em) (em_stack em @ [d]) vars (em_guards em))"
    by (auto simp: effect_def emits_def ids alive_def)
  moreover have "em_stack em1 = em_stack em @ [d]" "marks_after (set S) em em1" using E by (auto simp: effect_def emits_def marks_after_def)
  ultimately show thesis by (intro that) (auto simp: em' marks_after_def)
qed

lemma nested_sticky: "nested (rec S) d em = Inr (ids, em') \<Longrightarrow> level_spec cx r rec \<Longrightarrow> em_failed em \<Longrightarrow> em_failed em'"
  by (auto simp: nested_def mlk_try_Inr_iff dest!: level_spec_sticky)

lemma emitPlainLoop_sticky:
  assumes "emitPlainLoop cx rec S p lo hi r em = Inr em'" and "level_spec cx r' rec" and "em_failed em"
  shows "em_failed em'"
proof -
  obtain v em1 where l: "loop_name cx p em = (v, em1)" by fastforce
  have "em_failed em1" using loop_name_core [OF l] assms(3) by (simp add: same_core_def)
  with assms(1) l nested_sticky [OF _ assms(2)] show ?thesis
    by (fastforce simp: emitPlainLoop_def Let_def mlk_try_Inr_iff add_node_def push_body_def)
qed

lemma range_loop_bounds:
  assumes "kn_begin n = lo" "kn_end n = hi + 1" "kn_beginCoeffs n = []" "kn_endCoeffs n = []" "kn_endBuf n = kInvalidId"
    and "0 \<le> hi + 1" and "hi + 1 \<le> INT64_MAX"
  shows "loop_begin n vars = Inr lo" and "loop_end km e n vars = Inr hi"
  using assms by (simp_all add: loop_begin_def loop_end_def kKernelLoopDynamicBound_def plain64_def i64_defs)

lemma emitPlainLoop_effect:
  assumes "emitPlainLoop cx rec S p lo hi r em = Inr em'" and "\<not> em_failed em'" and "level_spec cx (Suc r) rec"
    and "em_open cx r S em" and "nest_ok cx" and "r < length (ps_pivotDim (cg_sched cx))" and "p = ps_pivotDim (cg_sched cx) ! r"
    and "0 \<le> lo" and "lo \<le> hi"
  shows "effect (set S) em em' (\<lambda>vars. \<Sum>v\<leftarrow>[lo..hi].
     level_events cx (Suc r) (alive S em) (em_stack em @ [int p]) (vars @ [v]) (em_guards em))"
proof -
  obtain v em1 where l: "loop_name cx p em = (v, em1)" by fastforce
  note core = loop_name_core [OF l]
  let ?n = "\<lambda>ids. (range_loop v lo (hi + 1))\<lparr>kn_parallel := flag_at (ps_parallel (cg_sched cx)) r,
              kn_vectorHint := flag_at (ps_vectorizable (cg_sched cx)) r, kn_children := ids\<rparr>"
  from assms(1) l obtain ids em2 where n: "nested (rec S) (int p) em1 = Inr (ids, em2)" and hi: "in_i64 (hi + 1)"
    and em': "em' = em2\<lparr>em_nodes := em_nodes em2 @ [?n ids], em_body := em_body em2 @ [length (em_nodes em2)]\<rparr>"
    by (auto simp: emitPlainLoop_def Let_def mlk_try_Inr_iff plain64_Inr add_node_def push_body_def)
  have f: "\<not> em_failed em2" using assms(2) em' by simp
  have ok1: "em_open cx r S em1" using assms(4) core by (simp add: same_core_def em_open_def em_ok_def)
  from nested_effect [OF n f assms(3) em_openD [OF ok1 assms(7)]]
  obtain N where N: "em_nodes em2 = em_nodes em1 @ N" "em_body em2 = em_body em1" "em_stack em2 = em_stack em1"
    "marks_after (set S) em1 em2" "closed_part (length (em_nodes em1)) N ids"
    and R: "\<And>vars. vars_ok (em_stack em1 @ [int p]) vars \<Longrightarrow> runs (length (em_nodes em1)) (em_nodes em2) vars ids
           (level_events cx (Suc r) (alive S em1) (em_stack em1 @ [int p]) vars (em_guards em1))" by blast
  let ?b = "length (em_nodes em1)"
  have i: "length (em_nodes em2) = ?b + length N" by (simp add: N(1))
  have "effect (set S) em1 em' (\<lambda>vars. \<Sum>v\<leftarrow>[lo..hi].
     level_events cx (Suc r) (alive S em1) (em_stack em1 @ [int p]) (vars @ [v]) (em_guards em1))"
    unfolding effect_def emits_def
  proof (intro conjI exI allI impI)
    show "em_nodes em' = em_nodes em1 @ (N @ [?n ids])" "em_body em' = em_body em1 @ [?b + length N]"
      "em_stack em' = em_stack em1" "marks_after (set S) em1 em'"
      using N by (simp_all add: em' i marks_after_def)
    show "closed_part ?b (N @ [?n ids]) [?b + length N]" by (rule closed_part_parent [OF N(5)]) simp
    fix vars assume vars: "vars_ok (em_stack em1) vars"
    let ?N = "em_nodes em'"
    have node: "?N ! (?b + length N) = ?n ids" using i by (simp add: em' N(1) nth_append)
    show "runs ?b ?N vars [?b + length N] (\<Sum>v\<leftarrow>[lo..hi].
       level_events cx (Suc r) (alive S em1) (em_stack em1 @ [int p]) (vars @ [v]) (em_guards em1))"
    proof (rule runs_loop [where ids = ids])
      have hi': "0 \<le> hi + 1" "hi + 1 \<le> INT64_MAX" using hi assms(8,9) by (simp_all add: i64_defs)
      show "loop_begin (?N ! (?b + length N)) vars = Inr lo" "loop_end km 0 (?N ! (?b + length N)) vars = Inr hi" for km
        unfolding node by (rule range_loop_bounds [OF _ _ _ _ _ hi'], simp_all add: range_loop_def new_node_def)+
      fix u assume "lo \<le> u" "u \<le> hi"
      then have "vars_ok (em_stack em1 @ [int p]) (vars @ [u])" using vars assms(8) hi' by (auto intro: vars_ok_snoc)
      from runs_more [OF R [OF this], of "[?n ids]"]
      show "runs ?b ?N (vars @ [u]) ids (level_events cx (Suc r) (alive S em1) (em_stack em1 @ [int p]) (vars @ [u]) (em_guards em1))"
        by (simp add: em')
    qed (simp_all add: node range_loop_def new_node_def em' N(1))
  qed
  then have "effect (set S) em em' (\<lambda>vars. \<Sum>v\<leftarrow>[lo..hi].
     level_events cx (Suc r) (alive S em1) (em_stack em1 @ [int p]) (vars @ [v]) (em_guards em1))" by (rule effect_core [OF core])
  then show ?thesis using core by (simp add: same_core_def alive_def)
qed

section \<open>Tiles\<close>

text \<open>
  A step below an open tile: the point loops it adds are the last children of the tile, and they run
  whenever the loop values satisfy \<open>P\<close>.
\<close>

definition tile_emits :: "nat \<Rightarrow> emitter \<Rightarrow> emitter \<Rightarrow> nat list \<Rightarrow> (int list \<Rightarrow> bool) \<Rightarrow> (int list \<Rightarrow> event multiset) \<Rightarrow> bool" where
  "tile_emits tid em em' pids P M \<longleftrightarrow> em_stack em' = em_stack em \<and> em_body em' = em_body em \<and>
     (\<exists>N. em_nodes em' = (em_nodes em @ N)[tid := (em_nodes em ! tid)\<lparr>kn_children := kn_children (em_nodes em ! tid) @ pids\<rparr>]
       \<and> closed_part (length (em_nodes em)) N pids
       \<and> (\<forall>vars. vars_ok (em_stack em) vars \<longrightarrow> P vars \<longrightarrow> runs (length (em_nodes em)) (em_nodes em') vars pids (M vars)))"

definition tile_step :: "nat \<Rightarrow> nat set \<Rightarrow> emitter \<Rightarrow> emitter \<Rightarrow> nat list \<Rightarrow> (int list \<Rightarrow> bool) \<Rightarrow> (int list \<Rightarrow> event multiset) \<Rightarrow> bool" where
  "tile_step tid S em em' pids P M \<longleftrightarrow> tile_emits tid em em' pids P M \<and> marks_after S em em'"

lemma tile_emits_restore [simp]:
  "tile_emits tid (em\<lparr>em_emitted := E, em_guards := G\<rparr>) em' pids P M \<longleftrightarrow> tile_emits tid em em' pids P M"
  by (simp add: tile_emits_def)

lemma tile_emits_none: "tid < length (em_nodes em) \<Longrightarrow> tile_emits tid em em [] P (\<lambda>vars. {#})"
  by (auto simp: tile_emits_def intro!: exI [of _ "[]"])

lemma tile_emits_trans:
  assumes "tile_emits tid em em1 pids P M" and "tile_emits tid em1 em' pids' P M'" and "tid < length (em_nodes em)"
  shows "tile_emits tid em em' (pids @ pids') P (\<lambda>vars. M vars + M' vars)"
proof -
  let ?b = "length (em_nodes em)" and ?t = "em_nodes em ! tid"
  from assms(1) obtain N where N: "em_nodes em1 = (em_nodes em @ N)[tid := ?t\<lparr>kn_children := kn_children ?t @ pids\<rparr>]"
      "closed_part ?b N pids" "\<And>vars. vars_ok (em_stack em) vars \<Longrightarrow> P vars \<Longrightarrow> runs ?b (em_nodes em1) vars pids (M vars)"
    and c: "em_stack em1 = em_stack em" "em_body em1 = em_body em"
    unfolding tile_emits_def by blast
  from assms(2) obtain N' where N': "em_nodes em' = (em_nodes em1 @ N')[tid := (em_nodes em1 ! tid)\<lparr>kn_children := kn_children (em_nodes em1 ! tid) @ pids'\<rparr>]"
      "closed_part (length (em_nodes em1)) N' pids'"
      "\<And>vars. vars_ok (em_stack em1) vars \<Longrightarrow> P vars \<Longrightarrow> runs (length (em_nodes em1)) (em_nodes em') vars pids' (M' vars)"
    and c': "em_stack em' = em_stack em1" "em_body em' = em_body em1"
    unfolding tile_emits_def by blast
  have l: "length (em_nodes em1) = ?b + length N" by (simp add: N(1))
  have t1: "em_nodes em1 ! tid = ?t\<lparr>kn_children := kn_children ?t @ pids\<rparr>" using assms(3) by (simp add: N(1))
  have nodes: "em_nodes em' = (em_nodes em @ N @ N')[tid := ?t\<lparr>kn_children := kn_children ?t @ pids @ pids'\<rparr>]"
    using assms(3) by (simp add: N'(1) t1) (simp add: N(1) list_update_append)
  have "runs ?b (em_nodes em') vars (pids @ pids') (M vars + M' vars)" if vars: "vars_ok (em_stack em) vars" "P vars" for vars
  proof (rule runs_append)
    show "runs ?b (em_nodes em') vars pids (M vars)"
      by (rule runs_mono [OF N(3) [OF vars] order_refl]) (use assms(3) in \<open>auto simp: nodes N(1) nth_append\<close>)
    show "runs ?b (em_nodes em') vars pids' (M' vars)"
      by (rule runs_mono [OF N'(3)]) (use vars c(1) l in auto)
  qed
  moreover have "closed_part ?b (N @ N') (pids @ pids')"
    by (rule closed_part_append [OF N(2)]) (use N'(2) l in simp)
  ultimately show ?thesis
    unfolding tile_emits_def using c c' nodes by (intro conjI exI [of _ "N @ N'"]) auto
qed

lemma emit_point_sticky:
  assumes "emit_point cx rec S p r pl tid em = Inr em'" and "level_spec cx r' rec" and "em_failed em"
  shows "em_failed em'"
proof -
  from assms(1) obtain ids em2 where "nested (rec S) (int p) em = Inr (ids, em2)" "em_failed em' = em_failed em2"
    by (auto simp: emit_point_def mlk_try_Inr_iff add_node_def add_child_def Let_def)
  then show ?thesis using nested_sticky [OF _ assms(2,3)] by blast
qed

lemma emit_point_step:
  assumes "emit_point cx rec S p r pl tid em = Inr em'" and "\<not> em_failed em'" and "level_spec cx (Suc r) rec"
    and "em_open cx r S em" and "nest_ok cx" and "r < length (ps_pivotDim (cg_sched cx))" and "p = ps_pivotDim (cg_sched cx) ! r"
    and "tid < length (em_nodes em)" and "kn_op pl = KLoop" and "kn_step pl = 1"
    and bounds: "\<And>vars. vars_ok (em_stack em) vars \<Longrightarrow> P vars \<Longrightarrow> loop_begin pl vars = Inr (lo vars)
      \<and> (\<forall>km. loop_end km 0 pl vars = Inr (hi vars)) \<and> 0 \<le> lo vars \<and> hi vars \<le> INT64_MAX"
  shows "\<exists>pid. tile_step tid (set S) em em' [pid] P (\<lambda>vars. \<Sum>v\<leftarrow>[lo vars..hi vars].
     level_events cx (Suc r) (alive S em) (em_stack em @ [int p]) (vars @ [v]) (em_guards em))"
proof -
  let ?n = "\<lambda>ids. pl\<lparr>kn_parallel := flag_at (ps_parallel (cg_sched cx)) r,
             kn_vectorHint := flag_at (ps_vectorizable (cg_sched cx)) r, kn_children := ids\<rparr>"
  from assms(1) obtain ids em2 where n: "nested (rec S) (int p) em = Inr (ids, em2)"
    and em': "em' = add_child tid (length (em_nodes em2)) (em2\<lparr>em_nodes := em_nodes em2 @ [?n ids]\<rparr>)"
    by (auto simp: emit_point_def mlk_try_Inr_iff add_node_def Let_def)
  have f: "\<not> em_failed em2" using assms(2) em' by (simp add: add_child_def Let_def)
  from nested_effect [OF n f assms(3) em_openD [OF assms(4,7)]]
  obtain N where N: "em_nodes em2 = em_nodes em @ N" "em_body em2 = em_body em" "em_stack em2 = em_stack em"
    "marks_after (set S) em em2" "closed_part (length (em_nodes em)) N ids"
    and R: "\<And>vars. vars_ok (em_stack em @ [int p]) vars \<Longrightarrow> runs (length (em_nodes em)) (em_nodes em2) vars ids
           (level_events cx (Suc r) (alive S em) (em_stack em @ [int p]) vars (em_guards em))" by blast
  let ?b = "length (em_nodes em)" and ?t = "em_nodes em ! tid"
  have nodes: "em_nodes em' = (em_nodes em @ N @ [?n ids])[tid := ?t\<lparr>kn_children := kn_children ?t @ [?b + length N]\<rparr>]"
    using assms(8) by (simp add: em' add_child_def Let_def N(1) nth_append)
  have "tile_step tid (set S) em em' [?b + length N] P (\<lambda>vars. \<Sum>v\<leftarrow>[lo vars..hi vars].
     level_events cx (Suc r) (alive S em) (em_stack em @ [int p]) (vars @ [v]) (em_guards em))"
    unfolding tile_step_def tile_emits_def
  proof (intro conjI exI allI impI)
    show "em_stack em' = em_stack em" "em_body em' = em_body em" "marks_after (set S) em em'"
      using N by (simp_all add: em' add_child_def Let_def marks_after_def)
    show "em_nodes em' = (em_nodes em @ N @ [?n ids])[tid := ?t\<lparr>kn_children := kn_children ?t @ [?b + length N]\<rparr>]" by (rule nodes)
    show "closed_part ?b (N @ [?n ids]) [?b + length N]" by (rule closed_part_parent [OF N(5)]) simp
    fix vars assume vars: "vars_ok (em_stack em) vars" "P vars"
    note bd = bounds [OF vars]
    have node: "em_nodes em' ! (?b + length N) = ?n ids" using assms(8) by (simp add: nodes nth_append)
    have b1: "loop_begin (?n ids) vars = loop_begin pl vars" by (simp add: loop_begin_def cong: if_cong)
    have b2: "loop_end km 0 (?n ids) vars = loop_end km 0 pl vars" for km by (simp add: loop_end_def cong: if_cong)
    show "runs ?b (em_nodes em') vars [?b + length N] (\<Sum>v\<leftarrow>[lo vars..hi vars].
       level_events cx (Suc r) (alive S em) (em_stack em @ [int p]) (vars @ [v]) (em_guards em))"
    proof (rule runs_loop [where ids = ids])
      show "loop_begin (em_nodes em' ! (?b + length N)) vars = Inr (lo vars)" using bd b1 by (simp add: node)
      show "loop_end km 0 (em_nodes em' ! (?b + length N)) vars = Inr (hi vars)" for km using bd b2 by (simp add: node)
      fix u assume "lo vars \<le> u" "u \<le> hi vars"
      then have "vars_ok (em_stack em @ [int p]) (vars @ [u])" using vars bd by (auto intro!: vars_ok_snoc)
      from R [OF this]
      show "runs ?b (em_nodes em') (vars @ [u]) ids (level_events cx (Suc r) (alive S em) (em_stack em @ [int p]) (vars @ [u]) (em_guards em))"
        by (rule runs_mono) (use assms(8) in \<open>auto simp: nodes N(1) nth_append\<close>)
    qed (simp_all add: node assms(9,10), simp add: nodes)
  qed
  then show ?thesis by blast
qed

lemma open_tile_state:
  assumes "open_tile cx v a b r em = Inr (tid, em1)"
  shows "tid = length (em_nodes em)" and "\<exists>tn. em_nodes em1 = em_nodes em @ [tn] \<and> kn_op tn = KLoop \<and> kn_step tn = 1
      \<and> kn_children tn = [] \<and> kn_begin tn = a \<and> kn_end tn = b + 1 \<and> kn_beginCoeffs tn = [] \<and> kn_endCoeffs tn = []
      \<and> kn_endBuf tn = kInvalidId"
    and "em_stack em1 = em_stack em @ [-1]" and "em_body em1 = em_body em" and "em_emitted em1 = em_emitted em"
    and "em_guards em1 = em_guards em" and "em_failed em1 = em_failed em" and "in_i64 (b + 1)"
  using assms
  by (auto simp: open_tile_def mlk_try_Inr_iff add_node_def Let_def plain64_Inr same_core_def range_loop_def new_node_def
      dest!: tile_name_core)

lemma tile_effect:
  assumes "open_tile cx v a b r em = Inr (tid, em1)" and "tile_step tid S em1 em2 pids P M"
    and "0 \<le> a" and "a \<le> b"
    and "\<And>vars ti. vars_ok (em_stack em) vars \<Longrightarrow> a \<le> ti \<Longrightarrow> ti \<le> b \<Longrightarrow> P (vars @ [ti])"
  shows "effect S em (close_tile tid em2) (\<lambda>vars. \<Sum>ti\<leftarrow>[a..b]. M (vars @ [ti]))"
proof -
  note o = open_tile_state [OF assms(1)]
  from o(2) obtain tn where tn: "em_nodes em1 = em_nodes em @ [tn]" "kn_op tn = KLoop" "kn_step tn = 1" "kn_children tn = []"
    "kn_begin tn = a" "kn_end tn = b + 1" "kn_beginCoeffs tn = []" "kn_endCoeffs tn = []" "kn_endBuf tn = kInvalidId" by blast
  from assms(2) obtain N where N: "em_nodes em2 = (em_nodes em1 @ N)[tid := (em_nodes em1 ! tid)\<lparr>kn_children := kn_children (em_nodes em1 ! tid) @ pids\<rparr>]"
      "closed_part (length (em_nodes em1)) N pids"
      "\<And>vars. vars_ok (em_stack em1) vars \<Longrightarrow> P vars \<Longrightarrow> runs (length (em_nodes em1)) (em_nodes em2) vars pids (M vars)"
    and c: "em_stack em2 = em_stack em1" "em_body em2 = em_body em1" "marks_after S em1 em2"
    unfolding tile_step_def tile_emits_def by blast
  let ?n = "tn\<lparr>kn_children := pids\<rparr>" and ?b = "length (em_nodes em)"
  have nodes: "em_nodes em2 = em_nodes em @ ?n # N"
    using tn(1,4) by (simp add: N(1) o(1) list_update_append nth_append)
  let ?em = "close_tile tid em2"
  show ?thesis unfolding effect_def emits_def
  proof (intro conjI exI allI impI)
    show "em_nodes ?em = em_nodes em @ (?n # N)" "em_body ?em = em_body em @ [?b]" "em_stack ?em = em_stack em" "marks_after S em ?em"
      using nodes c o by (simp_all add: close_tile_def push_body_def marks_after_def)
    show "closed_part ?b (?n # N) [?b]" by (rule closed_part_first [where ids = pids]) (use N(2) tn(1) in simp_all)
    fix vars assume vars: "vars_ok (em_stack em) vars"
    have node: "em_nodes ?em ! ?b = ?n" by (simp add: close_tile_def push_body_def nodes nth_append)
    have hi: "0 \<le> b + 1" "b + 1 \<le> INT64_MAX" using o(8) assms(3,4) by (simp_all add: i64_defs)
    show "runs ?b (em_nodes ?em) vars [?b] (\<Sum>ti\<leftarrow>[a..b]. M (vars @ [ti]))"
    proof (rule runs_loop [where ids = pids])
      show "loop_begin (em_nodes ?em ! ?b) vars = Inr a" "loop_end km 0 (em_nodes ?em ! ?b) vars = Inr b" for km
        unfolding node by (rule range_loop_bounds [OF _ _ _ _ _ hi], simp_all add: tn)+
      fix u assume u: "a \<le> u" "u \<le> b"
      then have "vars_ok (em_stack em1) (vars @ [u])" unfolding o(3) using vars assms(3) hi by (intro vars_ok_snoc) auto
      from N(3) [OF this assms(5) [OF vars u]]
      show "runs ?b (em_nodes ?em) (vars @ [u]) pids (M (vars @ [u]))"
        by (rule runs_mono) (use tn(1) in \<open>auto simp: close_tile_def push_body_def\<close>)
    qed (simp_all add: node tn nodes close_tile_def push_body_def)
  qed
qed

section \<open>Stack slots of tiles\<close>

lemma find_index_append:
  "find_index P (xs @ ys) = (case find_index P xs of Some i \<Rightarrow> Some i | None \<Rightarrow> map_option ((+) (length xs)) (find_index P ys))"
  by (induction xs; cases "find_index P ys") (auto split: option.splits)

lemma stack_pos_append:
  "stack_pos (xs @ ys) d = (case stack_pos xs d of Some i \<Rightarrow> Some i | None \<Rightarrow> map_option ((+) (length xs)) (stack_pos ys d))"
  unfolding stack_pos_def by (rule find_index_append)

text \<open>What the walker reads for a dimension, or nothing when no loop binds it.\<close>

definition read_dim :: "int list \<Rightarrow> int list \<Rightarrow> nat \<Rightarrow> int option" where
  "read_dim stack vars d = map_option ((!) vars) (stack_pos stack d)"

lemma read_dim_append:
  "length vars = length stack \<Longrightarrow> read_dim (stack @ stack') (vars @ vars') d
     = (case read_dim stack vars d of Some v \<Rightarrow> Some v | None \<Rightarrow> read_dim stack' vars' d)"
  using stack_posD(1) [of stack d]
  by (cases "stack_pos stack d"; cases "stack_pos stack' d") (auto simp: read_dim_def stack_pos_append nth_append)

lemma coord_read: "coord s stack vars d = (case read_dim stack vars d of Some v \<Rightarrow> v
    | None \<Rightarrow> (case dimPinnedAt s d of Some v \<Rightarrow> v | None \<Rightarrow> 0))"
  by (simp add: coord_def read_dim_def split: option.splits)

lemma guard_holds_read: "guard_holds stack vars g \<longleftrightarrow> read_dim stack vars (fst g) = Some (snd g)"
  by (auto simp: guard_holds_def read_dim_def split: option.splits)

lemma events_at_read:
  assumes "\<And>d. read_dim stack vars d = read_dim stack' vars' d"
  shows "events_at cx r stack vars gss i = events_at cx r stack' vars' gss i"
proof -
  have "point D s stack vars = point D s stack' vars'" for D s by (simp add: point_def coord_read assms)
  then show ?thesis by (simp add: events_at_def guards_hold_def guard_holds_read assms Let_def)
qed

lemma read_dim_slot:
  assumes "length vars = length stack"
  shows "read_dim ((stack @ [-1]) @ [int p]) ((vars @ [ti]) @ [v]) d = read_dim (stack @ [int p]) (vars @ [v]) d"
proof -
  have "read_dim [-1] [ti] d = None" by (simp add: read_dim_def stack_pos_def)
  moreover have "read_dim ([-1] @ [int p]) ([ti] @ [v]) d
      = (case read_dim [-1] [ti] d of Some u \<Rightarrow> Some u | None \<Rightarrow> read_dim [int p] [v] d)" by (rule read_dim_append) simp
  ultimately have "read_dim ([-1] @ [int p]) ([ti] @ [v]) d = read_dim [int p] [v] d" by simp
  with assms show ?thesis by (simp only: append_assoc read_dim_append)
qed

definition below :: "codegen_input \<Rightarrow> nat \<Rightarrow> nat \<Rightarrow> nat list \<Rightarrow> emitter \<Rightarrow> int list \<Rightarrow> int \<Rightarrow> event multiset" where
  "below cx r p A em vars v = level_events cx (Suc r) A (em_stack em @ [int p]) (vars @ [v]) (em_guards em)"

lemma below_slot:
  assumes "length vars = length (em_stack em)"
  shows "level_events cx (Suc r) A ((em_stack em @ [-1]) @ [int p]) ((vars @ [ti]) @ [v]) (em_guards em) = below cx r p A em vars v"
  unfolding level_events_def below_def
  by (intro arg_cong [where f = sum_list] map_cong refl events_at_read read_dim_slot [OF assms])

section \<open>Ranges and tiles\<close>

lemma upto_join:
  assumes "a \<le> b + 1" and "b \<le> c"
  shows "[a..b] @ [b + 1..c] = [a..c :: int]"
proof (cases "b + 1 \<le> c")
  case True
  then show ?thesis using assms upto_split1 [of a "b + 1" c] by simp
next
  case False
  then have "c = b" using assms by simp
  then show ?thesis by simp
qed

lemma tiles_concat:
  assumes "0 < (t :: int)" and "a \<le> b + 1"
  shows "concat (map (\<lambda>ti. [t * ti..t * ti + t - 1]) [a..b]) = [t * a..t * (b + 1) - 1]"
proof -
  have "a - 1 \<le> b" using assms(2) by simp
  then show ?thesis
  proof (induction b rule: int_ge_induct)
    case base
    then show ?case by simp
  next
  case (step b)
  have l: "[a..b + 1] = [a..b] @ [b + 1]" using step.hyps upto_rec2 [of a "b + 1"] by simp
  have "t * a \<le> t * (b + 1)" using step.hyps assms(1) by (intro mult_left_mono) auto
  then have "[t * a..t * (b + 1) - 1] @ [t * (b + 1)..t * (b + 1) + t - 1] = [t * a..t * (b + 1) + t - 1]"
    using upto_join [of "t * a" "t * (b + 1) - 1" "t * (b + 1) + t - 1"] assms(1) by simp
  then show ?case unfolding l using step.IH step.hyps by (simp add: algebra_simps)
  qed
qed

lemma sum_list_concat_map: "(\<Sum>x\<leftarrow>xs. \<Sum>y\<leftarrow>f x. g y) = (\<Sum>y\<leftarrow>concat (map f xs). g y)"
  by (induction xs) simp_all

text \<open>Full tiles and a partial last tile cover the range.\<close>

lemma tile_cover:
  fixes lo hi t :: int
  assumes "0 < t" and "lo mod t = 0" and "lo \<le> hi"
  shows "lo div t \<le> (hi + 1) div t" and "t * (lo div t) = lo" and "t * ((hi + 1) div t) \<le> hi + 1"
    and "(hi + 1) mod t \<noteq> 0 \<Longrightarrow> hi div t = (hi + 1) div t"
    and "(hi + 1) mod t = 0 \<Longrightarrow> t * ((hi + 1) div t) = hi + 1"
proof -
  show "lo div t \<le> (hi + 1) div t" using assms by (intro zdiv_mono1) auto
  show "t * (lo div t) = lo" using assms(2) by auto
  show "t * ((hi + 1) div t) \<le> hi + 1" using assms(1) by (metis mult_div_mod_eq pos_mod_sign le_add_same_cancel1)
  show "(hi + 1) mod t = 0 \<Longrightarrow> t * ((hi + 1) div t) = hi + 1" by auto
  assume m: "(hi + 1) mod t \<noteq> 0"
  have "hi = t * ((hi + 1) div t) + ((hi + 1) mod t - 1)" using mult_div_mod_eq [of t "hi + 1"] by linarith
  moreover have "0 \<le> (hi + 1) mod t - 1" "(hi + 1) mod t - 1 < t" using assms(1) m pos_mod_bound [of t "hi + 1"] pos_mod_sign [of t "hi + 1"] by linarith+
  ultimately show "hi div t = (hi + 1) div t" by (metis div_pos_pos_trivial div_mult_self4 add.right_neutral add.commute assms(1) less_irrefl mult.commute)
qed

section \<open>Loops over a range\<close>

lemma affine_plain_last:
  assumes "length vs = k" and "in_i64 off" and "in_i64 (c * u)" and "in_i64 (off + c * u)"
  shows "affine_plain ((replicate (k + 1) 0)[k := c]) (vs @ [u]) off = Inr (off + c * u)"
proof -
  have z: "fold_res (\<lambda>(c, v) acc. mlk_try (plain64 (c * v)) (\<lambda>t. plain64 (acc + t))) (zip (replicate (length vs) 0) vs) off = Inr off"
    using assms(2) by (induction vs) (simp_all add: plain64_def i64_defs)
  have "(replicate (k + 1) 0)[k := c] = replicate k 0 @ [c]" by (induction k) simp_all
  then have "affine_plain ((replicate (k + 1) 0)[k := c]) (vs @ [u]) off
      = fold_res (\<lambda>(c, v) acc. mlk_try (plain64 (c * v)) (\<lambda>t. plain64 (acc + t))) (zip (replicate (length vs) 0) vs @ [(c, u)]) off"
    using assms(1) by (simp add: affine_plain_def)
  also have "\<dots> = Inr (off + c * u)" unfolding fold_res_append z using assms(3,4) by (simp add: plain64_def)
  finally show ?thesis .
qed

definition tile_top :: "int \<Rightarrow> int \<Rightarrow> int \<Rightarrow> int" where
  "tile_top t pe ti = (if pe \<ge> 0 then pe else t * ti + t - 1)"

lemma affine_point_bounds:
  assumes "affine_point v k t pe = Inr pl" and "length vs = k" and "0 < t" and "0 \<le> u" and "pe < 0 \<Longrightarrow> t * u + t - 1 \<le> INT64_MAX"
    and "t * u \<le> INT64_MAX"
  shows "loop_begin pl (vs @ [u]) = Inr (t * u)" and "loop_end km e pl (vs @ [u]) = Inr (tile_top t pe u)"
    and "kn_op pl = KLoop" and "kn_step pl = 1" and "tile_top t pe u \<le> INT64_MAX"
proof -
  let ?cs = "(replicate (k + 1) 0)[k := t]"
  have ne: "?cs \<noteq> []" by (simp only: list_update_nonempty) simp
  have "0 \<le> t * u" using assms(3,4) by simp
  then have i: "in_i64 (t * u)" using assms(6) by (simp add: i64_defs)
  have b: "affine_plain ?cs (vs @ [u]) 0 = Inr (t * u)" using affine_plain_last [OF assms(2) _ i] i by (simp add: i64_defs)
  have "loop_begin pl (vs @ [u]) = Inr (t * u) \<and> loop_end km e pl (vs @ [u]) = Inr (tile_top t pe u) \<and> kn_op pl = KLoop
      \<and> kn_step pl = 1 \<and> tile_top t pe u \<le> INT64_MAX"
  proof (cases "pe \<ge> 0")
    case True
    let ?n = "new_node\<lparr>kn_op := KLoop, kn_var := v, kn_beginCoeffs := ?cs, kn_beginOffset := 0, kn_end := pe + 1\<rparr>"
    from assms(1) True have pl: "pl = ?n" and p: "in_i64 (pe + 1)"
      by (auto simp: affine_point_def Let_def mlk_try_Inr_iff plain64_Inr simp del: list_update.simps replicate.simps)
    have "loop_end km e ?n (vs @ [u]) = Inr pe"
      using True p by (simp add: loop_end_def new_node_def kKernelLoopDynamicBound_def plain64_def i64_defs)
    moreover have "loop_begin ?n (vs @ [u]) = Inr (t * u)" using ne b by (simp add: loop_begin_def new_node_def)
    ultimately show ?thesis using True p by (simp add: pl tile_top_def new_node_def i64_defs)
  next
    case False
    let ?n = "new_node\<lparr>kn_op := KLoop, kn_var := v, kn_beginCoeffs := ?cs, kn_beginOffset := 0, kn_endCoeffs := ?cs, kn_endOffset := t - 1\<rparr>"
    from assms(1) False have pl: "pl = ?n" by (simp add: affine_point_def Let_def del: list_update.simps replicate.simps)
    have "in_i64 (t - 1)" "in_i64 (t - 1 + t * u)"
      using assms(3,5) False \<open>0 \<le> t * u\<close> by (auto simp: i64_defs)
    from affine_plain_last [OF assms(2) this(1) i this(2)]
    have "loop_end km e ?n (vs @ [u]) = Inr (tile_top t pe u)"
      using ne False by (simp add: loop_end_def new_node_def kKernelLoopDynamicBound_def plain64_def i64_defs tile_top_def algebra_simps)
    moreover have "loop_begin ?n (vs @ [u]) = Inr (t * u)" using ne b by (simp add: loop_begin_def new_node_def)
    ultimately show ?thesis using False assms(5) by (simp add: pl tile_top_def new_node_def)
  qed
  then show "loop_begin pl (vs @ [u]) = Inr (t * u)" "loop_end km e pl (vs @ [u]) = Inr (tile_top t pe u)"
    "kn_op pl = KLoop" "kn_step pl = 1" "tile_top t pe u \<le> INT64_MAX" by blast+
qed

lemma emit_tile_sticky:
  assumes "emit_tile cx rec S p v a b r t pe em = Inr em'" and "level_spec cx r' rec" and "em_failed em"
  shows "em_failed em'"
proof -
  from assms(1) obtain tid em1 where o: "open_tile cx v a b r em = Inr (tid, em1)"
    and k: "emitPointBody cx rec S p r t pe tid em1 = Inr em'" by (auto simp: emit_tile_def mlk_try_Inr_iff)
  obtain v' em2 where l: "loop_name cx p em1 = (v', em2)" by fastforce
  from k l obtain pl em3 where e: "emit_point cx rec S p r pl tid em2 = Inr em3" and c: "em' = close_tile tid em3"
    by (auto simp: emitPointBody_def mlk_try_Inr_iff)
  have "em_failed em2" using open_tile_state(7) [OF o] loop_name_core [OF l] assms(3) by (simp add: same_core_def)
  from emit_point_sticky [OF e assms(2) this] show ?thesis by (simp add: c close_tile_def push_body_def)
qed

lemma em_ok_cong: "em_ok cx r S em \<Longrightarrow> em_emitted em1 = em_emitted em \<Longrightarrow> em_guards em1 = em_guards em \<Longrightarrow> em_stack em1 = em_stack em
    \<Longrightarrow> em_ok cx r S em1"
  by (simp add: em_ok_def)

lemma em_ok_open:
  assumes "em_ok cx r S em" and "em_emitted em1 = em_emitted em" "em_guards em1 = em_guards em" "em_stack em1 = em_stack em @ [-1]"
  shows "em_ok cx r S em1"
  by (rule em_ok_cong [OF em_ok_slot [OF assms(1)]]) (simp_all add: assms(2-4))

lemma em_open_open:
  assumes "em_open cx r S em" and "em_emitted em1 = em_emitted em" "em_guards em1 = em_guards em" "em_stack em1 = em_stack em @ [-1]"
  shows "em_open cx r S em1"
  using assms by (auto simp: em_open_def em_ok_def stack_ok_def)

lemma tile_step_core: "tile_step tid S em1 em2 pids P M \<Longrightarrow> same_core em em1 \<Longrightarrow> tile_step tid S em em2 pids P M"
  by (simp add: same_core_def tile_step_def tile_emits_def marks_after_def)

lemma emit_tile_effect:
  assumes "emit_tile cx rec S p v a b r t pe em = Inr em'" and "\<not> em_failed em'" and "level_spec cx (Suc r) rec"
    and "em_open cx r S em" and "nest_ok cx" and "r < length (ps_pivotDim (cg_sched cx))" and "p = ps_pivotDim (cg_sched cx) ! r"
    and "0 < t" and "0 \<le> a" and "a \<le> b" and "pe < 0 \<Longrightarrow> t * b + t - 1 \<le> INT64_MAX" and "t * b \<le> INT64_MAX"
  shows "effect (set S) em em' (\<lambda>vars. \<Sum>ti\<leftarrow>[a..b]. \<Sum>v\<leftarrow>[t * ti..tile_top t pe ti]. below cx r p (alive S em) em vars v)"
proof -
  from assms(1) obtain tid em1 where o: "open_tile cx v a b r em = Inr (tid, em1)"
    and k: "emitPointBody cx rec S p r t pe tid em1 = Inr em'" by (auto simp: emit_tile_def mlk_try_Inr_iff)
  obtain v' em2 where l: "loop_name cx p em1 = (v', em2)" by fastforce
  from k l obtain pl em3 where pl: "affine_point v' (length (em_stack em2) - 1) t pe = Inr pl"
    and e: "emit_point cx rec S p r pl tid em2 = Inr em3" and c: "em' = close_tile tid em3"
    by (auto simp: emitPointBody_def mlk_try_Inr_iff)
  note os = open_tile_state [OF o] and core = loop_name_core [OF l]
  let ?k = "length (em_stack em)" and ?P = "\<lambda>vars. a \<le> last vars \<and> last vars \<le> b"
  have f: "\<not> em_failed em3" using assms(2) by (simp add: c close_tile_def push_body_def)
  have st: "em_stack em2 = em_stack em @ [-1]" using os(3) core by (simp add: same_core_def)
  have ok: "em_open cx r S em2" by (rule em_open_open [OF assms(4)]) (use os core st in \<open>simp_all add: same_core_def\<close>)
  have tid: "tid < length (em_nodes em2)" using os(1,2) core by (auto simp: same_core_def)
  have bd: "loop_begin pl vars = Inr (t * last vars) \<and> (\<forall>km. loop_end km 0 pl vars = Inr (tile_top t pe (last vars)))
      \<and> 0 \<le> t * last vars \<and> tile_top t pe (last vars) \<le> INT64_MAX \<and> kn_op pl = KLoop \<and> kn_step pl = 1"
    if "length vars = Suc ?k" "?P vars" for vars
  proof -
    from that(1) obtain vs u where vars: "vars = vs @ [u]" "length vs = ?k" by (cases vars rule: rev_cases) auto
    have u: "0 \<le> u" "u \<le> b" using that(2) assms(9) by (auto simp: vars)
    have m: "t * u \<le> t * b" using u(2) assms(8) by simp
    have pl': "affine_point v' ?k t pe = Inr pl" using pl st by simp
    have "pe < 0 \<Longrightarrow> t * u + t - 1 \<le> INT64_MAX" "t * u \<le> INT64_MAX" using m assms(11,12) by linarith+
    note * = affine_point_bounds [OF pl' vars(2) assms(8) u(1) this]
    from * u(1) assms(8) show ?thesis by (simp add: vars(1))
  qed
  have bounds: "loop_begin pl vars = Inr (t * last vars) \<and> (\<forall>km. loop_end km 0 pl vars = Inr (tile_top t pe (last vars)))
      \<and> 0 \<le> t * last vars \<and> tile_top t pe (last vars) \<le> INT64_MAX" if "vars_ok (em_stack em2) vars" "?P vars" for vars
    using bd [of vars] that by (simp add: vars_ok_def st)
  have pk: "kn_op pl = KLoop" "kn_step pl = 1" using bd [of "replicate ?k 0 @ [a]"] assms(10) by simp_all
  have "\<exists>pid. tile_step tid (set S) em2 em3 [pid] ?P (\<lambda>vars. \<Sum>v\<leftarrow>[t * last vars..tile_top t pe (last vars)].
       level_events cx (Suc r) (alive S em2) (em_stack em2 @ [int p]) (vars @ [v]) (em_guards em2))"
    by (rule emit_point_step [OF e f assms(3) ok assms(5-7) tid pk]) (rule bounds)
  then obtain pid where "tile_step tid (set S) em2 em3 [pid] ?P (\<lambda>vars. \<Sum>v\<leftarrow>[t * last vars..tile_top t pe (last vars)].
       level_events cx (Suc r) (alive S em2) (em_stack em2 @ [int p]) (vars @ [v]) (em_guards em2))" ..
  then have "tile_step tid (set S) em1 em3 [pid] ?P (\<lambda>vars. \<Sum>v\<leftarrow>[t * last vars..tile_top t pe (last vars)].
       level_events cx (Suc r) (alive S em2) (em_stack em2 @ [int p]) (vars @ [v]) (em_guards em2))" by (rule tile_step_core [OF _ core])
  from tile_effect [OF o this assms(9,10)]
  have "effect (set S) em em' (\<lambda>vars. \<Sum>ti\<leftarrow>[a..b]. \<Sum>v\<leftarrow>[t * ti..tile_top t pe ti].
       level_events cx (Suc r) (alive S em2) (em_stack em2 @ [int p]) ((vars @ [ti]) @ [v]) (em_guards em2))" by (simp add: c)
  then show ?thesis
  proof (rule effect_cong)
    fix vars assume "vars_ok (em_stack em) vars"
    then have lv: "length vars = ?k" by (simp add: vars_ok_def)
    have g: "em_guards em2 = em_guards em" "alive S em2 = alive S em" using os core by (simp_all add: same_core_def alive_def)
    show "(\<Sum>ti\<leftarrow>[a..b]. \<Sum>v\<leftarrow>[t * ti..tile_top t pe ti].
       level_events cx (Suc r) (alive S em2) (em_stack em2 @ [int p]) ((vars @ [ti]) @ [v]) (em_guards em2))
      = (\<Sum>ti\<leftarrow>[a..b]. \<Sum>v\<leftarrow>[t * ti..tile_top t pe ti]. below cx r p (alive S em) em vars v)"
      unfolding st g below_slot [OF lv] ..
  qed
qed

text \<open>
  The loop of a level, tiled or not, and its piecewise split at the values of re-entering statements:
  both perform every statement of the level once at every value of its range.
\<close>

section \<open>The loop of a level\<close>

definition tiles_ok :: "codegen_input \<Rightarrow> bool" where
  "tiles_ok cx \<longleftrightarrow> list_all (\<lambda>t. 0 < t) (ti_tileSizes (cg_tiled cx))"

lemma same_core_refl [simp]: "same_core em em" by (simp add: same_core_def)

lemma effect_marks:
  assumes "effect S em em1 M" and "effect S (em1\<lparr>em_emitted := em_emitted em, em_guards := em_guards em\<rparr>) em' M'"
  shows "effect S em em' (\<lambda>vars. M vars + M' vars)"
proof -
  let ?em = "em1\<lparr>em_emitted := em_emitted em, em_guards := em_guards em\<rparr>"
  have "emits em em' (\<lambda>vars. M vars + M' vars)" using assms emits_trans by (auto simp: effect_def)
  moreover have "marks_after S em em'" using assms(2) by (simp add: effect_def marks_after_def)
  ultimately show ?thesis by (simp add: effect_def)
qed

lemma sum_list_upto_split:
  fixes g :: "int \<Rightarrow> 'a::comm_monoid_add"
  assumes "a \<le> b + 1" and "b \<le> c"
  shows "(\<Sum>v\<leftarrow>[a..b]. g v) + (\<Sum>v\<leftarrow>[b + 1..c]. g v) = (\<Sum>v\<leftarrow>[a..c]. g v)"
  unfolding upto_join [OF assms, symmetric] by simp

lemma full_tiles_sum:
  assumes "0 < t" and "a \<le> b + 1"
  shows "(\<Sum>ti\<leftarrow>[a..b]. \<Sum>v\<leftarrow>[t * ti..tile_top t (-1) ti]. g v) = (\<Sum>v\<leftarrow>[t * a..t * (b + 1) - 1]. g v)"
  by (simp add: tile_top_def sum_list_concat_map tiles_concat [OF assms])

lemma sdiv_nonneg:
  fixes a t :: int
  assumes "0 \<le> a" and "0 < t"
  shows "a sdiv t = a div t" and "a smod t = a mod t"
  using assms by (cases "a = 0", auto simp: signed_divide_int_def signed_modulo_int_def minus_mult_div_eq_mod)+

lemma tile_range_values:
  assumes "tile_range lo hi t = Inr (f, l, fl, part)" and "0 \<le> lo" and "lo \<le> hi" and "0 < t"
  shows "f = lo div t" and "l = hi div t" and "fl = (hi + 1) div t - 1" and "part \<longleftrightarrow> (hi + 1) mod t \<noteq> 0" and "in_i64 (hi + 1)"
  using assms
  by (auto simp: tile_range_def mlk_try_Inr_iff plain64_Inr sdiv_nonneg)

lemma emitLoop_sticky:
  assumes "emitLoop cx rec S p lo hi r em = Inr em'" and "level_spec cx r' rec" and "em_failed em"
  shows "em_failed em'"
proof -
  obtain v em0 where l: "loop_name cx p em = (v, em0)" by fastforce
  have f0: "em_failed em0" using loop_name_core [OF l] assms(3) by (simp add: same_core_def)
  then have f1: "em_failed (em0\<lparr>em_copyBudget := c\<rparr>)" for c by simp
  show ?thesis
    using assms(1) l f0 f1 emitPlainLoop_sticky [OF _ assms(2)] emit_tile_sticky [OF _ assms(2)]
    by (fastforce simp: emitLoop_def mlk_try_Inr_iff em_fail_def Let_def split: if_splits)
qed

lemma below_cong:
  "em_stack em1 = em_stack em \<Longrightarrow> em_guards em1 = em_guards em \<Longrightarrow> below cx r p A em1 vars v = below cx r p A em vars v"
  by (simp add: below_def)

lemma emitLoop_effect:
  assumes "emitLoop cx rec S p lo hi r em = Inr em'" and "\<not> em_failed em'" and "level_spec cx (Suc r) rec"
    and "em_open cx r S em" and "nest_ok cx" and "r < length (ps_pivotDim (cg_sched cx))" and "p = ps_pivotDim (cg_sched cx) ! r"
    and "tiles_ok cx" and "0 \<le> lo" and "lo \<le> hi"
  shows "effect (set S) em em' (\<lambda>vars. \<Sum>v\<leftarrow>[lo..hi]. below cx r p (alive S em) em vars v)"
proof -
  obtain v em0 where l: "loop_name cx p em = (v, em0)" by fastforce
  note core = loop_name_core [OF l]
  show ?thesis
  proof (cases "tiled_here cx r")
    case False
    with assms(1) l have "emitPlainLoop cx rec S p lo hi r em0 = Inr em'" by (auto simp: emitLoop_def)
    from emitPlainLoop_effect [OF this assms(2,3) _ assms(5-7) assms(9,10)] assms(4) core
    have "effect (set S) em0 em' (\<lambda>vars. \<Sum>v\<leftarrow>[lo..hi]. below cx r p (alive S em) em vars v)"
      by (simp add: same_core_def em_open_def em_ok_def alive_def below_def)
    with core show ?thesis by (rule effect_core)
  next
    case True
    let ?B = "\<lambda>vars. below cx r p (alive S em) em vars"
    from assms(1) l True obtain t f l' fl part where t: "r < length (ti_tileSizes (cg_tiled cx))" "t = ti_tileSizes (cg_tiled cx) ! r"
      and al: "t \<noteq> 0" "lo smod t = 0" and tr: "tile_range lo hi t = Inr (f, l', fl, part)"
      and k: "(let em1 = (if part then em0\<lparr>em_copyBudget := em_copyBudget em0 * 2\<rparr> else em0) in
       if part \<and> em_copyBudget em1 > kPolyMaxCodegenCopies then Inr (em_fail em1)
       else mlk_try (if fl \<ge> f then emit_tile cx rec S p v f fl r t (-1) em1 else Inr em1) (\<lambda>em2.
         if part then emit_tile cx rec S p v l' l' r t hi (em2\<lparr>em_emitted := em_emitted em1, em_guards := em_guards em1\<rparr>)
         else Inr em2)) = Inr em'"
      using assms(2) by (auto simp: emitLoop_def mlk_try_Inr_iff vec_at_Inr em_fail_def split: if_splits)
    have tp: "0 < t" using t assms(8) by (auto simp: tiles_ok_def list_all_length)
    note tv = tile_range_values [OF tr assms(9,10) tp]
    have lm: "lo mod t = 0" using al(2) sdiv_nonneg [OF assms(9) tp] by simp
    note cov = tile_cover [OF tp lm assms(10)]
    have mx: "hi + 1 \<le> INT64_MAX" using tv(5) by (simp add: i64_defs)
    define em1 where "em1 = (if part then em0\<lparr>em_copyBudget := em_copyBudget em0 * 2\<rparr> else em0)"
    have core1: "same_core em em1" using core by (simp add: em1_def same_core_def)
    have ok1: "em_open cx r S em1" using assms(4) core1 by (simp add: same_core_def em_open_def em_ok_def)
    have B1: "below cx r p (alive S em1) em1 vars v = ?B vars v" for vars v using core1 by (simp add: same_core_def alive_def below_def)
    from k assms(2) obtain em2 where e1: "(if fl \<ge> f then emit_tile cx rec S p v f fl r t (-1) em1 else Inr em1) = Inr em2"
      and e2: "(if part then emit_tile cx rec S p v l' l' r t hi (em2\<lparr>em_emitted := em_emitted em1, em_guards := em_guards em1\<rparr>)
         else Inr em2) = Inr em'"
      by (auto simp: em1_def [symmetric] mlk_try_Inr_iff em_fail_def split: if_splits)
    let ?em2 = "em2\<lparr>em_emitted := em_emitted em1, em_guards := em_guards em1\<rparr>"
    have f2: "\<not> em_failed em2"
    proof
      assume "em_failed em2"
      then have "em_failed em'" using e2 emit_tile_sticky [OF _ assms(3), of S p v l' l' r t hi ?em2 em'] by (auto split: if_splits)
      with assms(2) show False by simp
    qed
    have f0: "0 \<le> f" using assms(9) tp by (simp add: tv pos_imp_zdiv_nonneg_iff)
    have ff: "f \<le> fl + 1" using cov(1) by (simp add: tv)
    have full: "effect (set S) em1 em2 (\<lambda>vars. \<Sum>v\<leftarrow>[t * f..t * (fl + 1) - 1]. ?B vars v)" if "f \<le> fl"
    proof -
      have "t * (fl + 1) \<le> hi + 1" using cov(3) by (simp add: tv)
      then have "t * fl + t - 1 \<le> INT64_MAX" "t * fl \<le> INT64_MAX" using mx tp by (simp_all add: algebra_simps)
      from emit_tile_effect [OF _ f2 assms(3) ok1 assms(5-7) tp f0 that, of v "-1"] this e1 that
      have "effect (set S) em1 em2 (\<lambda>vars. \<Sum>ti\<leftarrow>[f..fl]. \<Sum>v\<leftarrow>[t * ti..tile_top t (-1) ti]. ?B vars v)" by (simp add: B1)
      then show ?thesis unfolding full_tiles_sum [OF tp ff] .
    qed
    have none: "em2 = em1 \<and> [t * f..t * (fl + 1) - 1] = []" if "\<not> f \<le> fl"
    proof -
      have "f = fl + 1" using that ff by simp
      then show ?thesis using e1 that by simp
    qed
    have lo: "t * f = lo" using cov(2) by (simp add: tv)
    show ?thesis
    proof (cases part)
      case False
      then have "t * (fl + 1) - 1 = hi" using cov(5) by (simp add: tv)
      moreover have "f \<le> fl"
      proof (rule ccontr)
        assume "\<not> f \<le> fl"
        then have "t * (fl + 1) = t * f" using ff by simp
        with \<open>t * (fl + 1) - 1 = hi\<close> lo assms(10) show False by simp
      qed
      ultimately have "effect (set S) em1 em' (\<lambda>vars. \<Sum>v\<leftarrow>[lo..hi]. ?B vars v)" using full e2 False lo by simp
      then show ?thesis by (rule effect_core [OF core1])
    next
      case True
      have l': "l' = fl + 1" using cov(4) True tv(4) by (simp add: tv)
      have tl: "t * l' \<le> hi + 1" using cov(3) by (simp add: l' tv)
      have l0: "0 \<le> l'" using f0 ff l' by simp
      have ok2: "em_open cx r S ?em2" if "em_stack em2 = em_stack em1" using ok1 that by (simp add: em_open_def em_ok_def)
      have st: "em_stack em2 = em_stack em1" using full none by (cases "f \<le> fl") (auto simp: effect_def emits_def)
      from e2 True have e2': "emit_tile cx rec S p v l' l' r t hi ?em2 = Inr em'" by simp
      have "hi < 0 \<Longrightarrow> t * l' + t - 1 \<le> INT64_MAX" "t * l' \<le> INT64_MAX" using assms(9,10) tl mx by linarith+
      from emit_tile_effect [OF e2' assms(2,3) ok2 [OF st] assms(5-7) tp l0 order_refl this]
      have E2: "effect (set S) ?em2 em' (\<lambda>vars. \<Sum>v\<leftarrow>[t * l'..hi]. ?B vars v)"
        using B1 assms(9,10) by (simp add: alive_def below_def st tile_top_def)
      have "effect (set S) em1 em' (\<lambda>vars. \<Sum>v\<leftarrow>[lo..hi]. ?B vars v)"
      proof (cases "f \<le> fl")
        case True
        have "t * f \<le> t * l'" using ff tp by (simp add: l')
        then have "(\<Sum>v\<leftarrow>[t * f..t * l' - 1]. g v) + (\<Sum>v\<leftarrow>[t * l'..hi]. g v) = (\<Sum>v\<leftarrow>[lo..hi]. g v)" for g :: "int \<Rightarrow> event multiset"
          using sum_list_upto_split [of "t * f" "t * l' - 1" hi g] tl lo by simp
        then show ?thesis using effect_marks [OF full [OF True] E2] by (simp add: l')
      next
        case False
        from none [OF False] have "em2 = em1" by simp
        moreover have "l' = f" using False ff l' by linarith
        then have "t * l' = lo" using lo by simp
        ultimately show ?thesis using E2 by simp
      qed
      then show ?thesis by (rule effect_core [OF core1])
    qed
  qed
qed

section \<open>What the statements of a level perform\<close>

lemma point_pivot:
  assumes "length vars = length stack" and "int p \<notin> set stack" and "p < D"
  shows "point D s (stack @ [int p]) (vars @ [v]) = (point D s stack vars)[p := v]"
proof (rule nth_equalityI)
  fix d assume "d < length (point D s (stack @ [int p]) (vars @ [v]))"
  then have d: "d < D" by (simp add: point_def)
  have r: "read_dim [int p] [v] d = (if d = p then Some v else None)" by (simp add: read_dim_def stack_pos_def)
  have n: "read_dim stack vars p = None" using assms(2) by (simp add: read_dim_def stack_pos_None)
  have "coord s (stack @ [int p]) (vars @ [v]) d = (if d = p then v else coord s stack vars d)"
    using assms(1) n r by (cases "d = p") (auto simp: coord_read read_dim_append split: option.splits)
  then show "point D s (stack @ [int p]) (vars @ [v]) ! d = (point D s stack vars)[p := v] ! d"
    using d assms(3) by (simp add: point_def nth_list_update)
qed (simp add: point_def)

lemma guards_hold_pivot:
  assumes "length vars = length stack" and "\<And>d w. (d, w) \<in> set gs \<Longrightarrow> int d \<in> set stack"
  shows "guards_hold (stack @ [int p]) (vars @ [v]) gs = guards_hold stack vars gs"
proof -
  have "guard_holds (stack @ [int p]) (vars @ [v]) g = guard_holds stack vars g" if g: "g \<in> set gs" for g
  proof -
    have "int (fst g) \<in> set stack" using assms(2) [of "fst g" "snd g"] g by simp
    then have "read_dim stack vars (fst g) \<noteq> None" by (simp add: read_dim_def stack_pos_None)
    then show ?thesis using assms(1) by (auto simp: guard_holds_read read_dim_append split: option.splits)
  qed
  then show ?thesis by (simp add: guards_hold_def)
qed

text \<open>The facts about a level that the two lemmas below share.\<close>

lemma level_facts:
  assumes "em_ok cx r S em" and "nest_ok cx" and "r < length (ps_pivotDim (cg_sched cx))" and "p = ps_pivotDim (cg_sched cx) ! r"
    and "vars_ok (em_stack em) vars" and "i \<in> set S"
  shows "length vars = length (em_stack em)" and "int p \<notin> set (em_stack em)" and "p < scop_depth (cg_scop cx)"
    and "drop r (ps_pivotDim (cg_sched cx)) = p # drop (Suc r) (ps_pivotDim (cg_sched cx))"
    and "i < length (scop_statements (cg_scop cx))" and "i < length (em_guards em)"
    and "\<And>d w. (d, w) \<in> set (em_guards em ! i) \<Longrightarrow> int d \<in> set (em_stack em)"
proof -
  show d: "drop r (ps_pivotDim (cg_sched cx)) = p # drop (Suc r) (ps_pivotDim (cg_sched cx))"
    using assms(3,4) by (simp add: Cons_nth_drop_Suc)
  show "length vars = length (em_stack em)" using assms(5) by (simp add: vars_ok_def)
  show "int p \<notin> set (em_stack em)" using assms(1) d by (simp add: em_ok_def)
  show "p < scop_depth (cg_scop cx)" using assms(2-4) by (auto simp: nest_ok_def Let_def list_all_iff)
  show "i < length (scop_statements (cg_scop cx))" "i < length (em_guards em)" using assms(1,6) by (auto simp: em_ok_def)
  show "\<And>d w. (d, w) \<in> set (em_guards em ! i) \<Longrightarrow> int d \<in> set (em_stack em)" using assms(1,6) by (fastforce simp: em_ok_def)
qed

lemma events_varying:
  assumes "em_ok cx r S em" and "nest_ok cx" and "r < length (ps_pivotDim (cg_sched cx))" and "p = ps_pivotDim (cg_sched cx) ! r"
    and "vars_ok (em_stack em) vars" and "i \<in> set S"
    and "dimPinnedAt (scop_statements (cg_scop cx) ! i) p = None"
    and "st_ownLower (scop_statements (cg_scop cx) ! i) ! p = lo" and "st_ownUpper (scop_statements (cg_scop cx) ! i) ! p = hi"
  shows "(\<Sum>v\<leftarrow>[lo..hi]. events_at cx (Suc r) (em_stack em @ [int p]) (vars @ [v]) (em_guards em) i)
     = events_at cx r (em_stack em) vars (em_guards em) i"
proof -
  note f = level_facts [OF assms(1-6)]
  let ?s = "scop_statements (cg_scop cx) ! i" and ?D = "scop_depth (cg_scop cx)"
  have g: "guards_hold (em_stack em @ [int p]) (vars @ [v]) (em_guards em ! i) = guards_hold (em_stack em) vars (em_guards em ! i)" for v
    using f(1,7) by (rule guards_hold_pivot)
  have "(\<Sum>v\<leftarrow>vs. image_mset (instance_event ?s) (mset (h v))) = image_mset (instance_event ?s) (mset (concat (map h vs)))"
    for vs :: "int list" and h by (induction vs) simp_all
  then show ?thesis
    by (simp add: events_at_def Let_def g point_pivot [OF f(1-3)] f(4) assms(7-9))
qed

lemma events_pinned:
  assumes "em_ok cx r S em" and "nest_ok cx" and "r < length (ps_pivotDim (cg_sched cx))" and "p = ps_pivotDim (cg_sched cx) ! r"
    and "vars_ok (em_stack em) vars" and "i \<in> set S"
    and "dimPinnedAt (scop_statements (cg_scop cx) ! i) p = Some v"
  shows "events_at cx (Suc r) (em_stack em @ [int p]) (vars @ [v]) (em_guards em) i = events_at cx r (em_stack em) vars (em_guards em) i"
proof -
  note f = level_facts [OF assms(1-6)]
  let ?s = "scop_statements (cg_scop cx) ! i" and ?D = "scop_depth (cg_scop cx)"
  have g: "guards_hold (em_stack em @ [int p]) (vars @ [v]) (em_guards em ! i) = guards_hold (em_stack em) vars (em_guards em ! i)"
    using f(1,7) by (rule guards_hold_pivot)
  have "point ?D ?s (em_stack em) vars ! p = v"
    using f(2,3) assms(7) stack_pos_None [of "em_stack em" p] by (simp add: point_def coord_def)
  then have "(point ?D ?s (em_stack em) vars)[p := v] = point ?D ?s (em_stack em) vars" by (metis list_update_id)
  then show ?thesis by (simp add: events_at_def Let_def g point_pivot [OF f(1-3)] f(4) assms(7))
qed

text \<open>A guarded statement performs its events at the one value that its new guard admits.\<close>

lemma sum_single: "lo \<le> v \<Longrightarrow> v \<le> hi \<Longrightarrow> (\<Sum>u\<leftarrow>[lo..hi]. if u = v then X else {#}) = (X :: event multiset)"
proof -
  assume v: "lo \<le> v" "v \<le> hi"
  have z: "(\<Sum>u\<leftarrow>us. if u = v then X else {#}) = {#}" if "v \<notin> set us" for us using that by (induction us) auto
  have "[lo..hi] = [lo..v - 1] @ v # [v + 1..hi]" using upto_split3 [OF v] by simp
  then show ?thesis using z [of "[lo..v - 1]"] z [of "[v + 1..hi]"] by simp
qed

lemma events_guarded:
  assumes "em_ok cx r S em" and "nest_ok cx" and "r < length (ps_pivotDim (cg_sched cx))" and "p = ps_pivotDim (cg_sched cx) ! r"
    and "vars_ok (em_stack em) vars" and "i \<in> set S"
    and "dimPinnedAt (scop_statements (cg_scop cx) ! i) p = Some v" and "lo \<le> v" and "v \<le> hi"
    and "gss ! i = em_guards em ! i @ [(p, v)]"
  shows "(\<Sum>u\<leftarrow>[lo..hi]. events_at cx (Suc r) (em_stack em @ [int p]) (vars @ [u]) gss i)
     = events_at cx r (em_stack em) vars (em_guards em) i"
proof -
  note f = level_facts [OF assms(1-6)]
  have "read_dim [int p] [u] p = Some u" for u by (simp add: read_dim_def stack_pos_def)
  moreover have "read_dim (em_stack em) vars p = None" using f(2) by (simp add: read_dim_def stack_pos_None)
  ultimately have g: "guard_holds (em_stack em @ [int p]) (vars @ [u]) (p, v) \<longleftrightarrow> u = v" for u
    using f(1) by (simp add: guard_holds_read read_dim_append)
  have "events_at cx (Suc r) (em_stack em @ [int p]) (vars @ [u]) gss i
      = (if u = v then events_at cx (Suc r) (em_stack em @ [int p]) (vars @ [v]) (em_guards em) i else {#})" for u
    by (simp add: events_at_def Let_def assms(10) g)
  then show ?thesis using events_pinned [OF assms(1-7)] by (simp add: sum_single [OF assms(8,9)])
qed

section \<open>Point segments of one tile\<close>

lemma restore_marks_length [simp]: "length (restore_marks ss snap m) = length m"
  unfolding restore_marks_def by (induction ss arbitrary: m) simp_all

lemma restore_marks_nth:
  "i < length m \<Longrightarrow> restore_marks ss snap m ! i = (if i \<in> set ss then snap ! i else m ! i)"
  unfolding restore_marks_def by (induction ss arbitrary: m) (auto simp: nth_list_update)

text \<open>The state in which a body or segment starts: the snapshot, but for nodes and earlier statements.\<close>

definition replay :: "bool \<Rightarrow> nat list \<Rightarrow> emitter \<Rightarrow> emitter \<Rightarrow> emitter" where
  "replay first ss em0 em = (if first then em
     else em\<lparr>em_emitted := restore_marks ss (em_emitted em0) (em_emitted em), em_guards := em_guards em0\<rparr>)"

definition from_snap :: "bool \<Rightarrow> nat set \<Rightarrow> emitter \<Rightarrow> emitter \<Rightarrow> bool" where
  "from_snap first T em0 em \<longleftrightarrow> marks_after T em0 em \<and> em_stack em = em_stack em0 \<and> (first \<longrightarrow> T = {})"

lemma replay_ok:
  assumes "em_ok cx r U em0" and "from_snap first T em0 em" and "distinct ss" and "set ss \<subseteq> set U" and "\<And>i. i \<in> set ss \<Longrightarrow> \<not> em_emitted em0 ! i"
  shows "em_ok cx r ss (replay first ss em0 em)" and "alive ss (replay first ss em0 em) = ss"
    and "\<And>i. i \<in> set ss \<Longrightarrow> em_guards (replay first ss em0 em) ! i = em_guards em0 ! i"
proof -
  let ?em = "replay first ss em0 em"
  have l: "length (em_emitted em) = length (em_emitted em0)" "length (em_guards em) = length (em_guards em0)"
    using assms(2) by (simp_all add: from_snap_def marks_after_def)
  have len: "i < length (em_emitted em0)" if "i \<in> set ss" for i using that assms(1,4) by (auto simp: em_ok_def)
  show g: "\<And>i. i \<in> set ss \<Longrightarrow> em_guards ?em ! i = em_guards em0 ! i"
    using assms(2) by (auto simp: replay_def from_snap_def marks_after_def)
  show "alive ss ?em = ss" unfolding alive_def
  proof (rule filter_True, rule ballI)
    fix i assume i: "i \<in> set ss"
    show "\<not> em_emitted ?em ! i"
      using assms(2) assms(5) [OF i] len [OF i] i l
      by (auto simp: replay_def from_snap_def marks_after_def restore_marks_nth)
  qed
  show "em_ok cx r ss ?em"
    unfolding em_ok_def
  proof (intro conjI ballI)
    have st: "em_stack ?em = em_stack em0" using assms(2) by (simp add: replay_def from_snap_def)
    show "distinct ss" by (rule assms(3))
    show "set ss \<subseteq> {..<length (scop_statements (cg_scop cx))}" using assms(1,4) by (auto simp: em_ok_def)
    show "length (em_emitted ?em) = length (scop_statements (cg_scop cx))" using assms(1) l by (simp add: em_ok_def replay_def)
    show "length (em_guards ?em) = length (scop_statements (cg_scop cx))" using assms(1) l by (simp add: em_ok_def replay_def)
    show "stack_ok (scop_depth (cg_scop cx)) (em_stack ?em)" using assms(1) by (simp add: em_ok_def st)
    show "int q \<notin> set (em_stack ?em)" if "q \<in> set (drop r (ps_pivotDim (cg_sched cx)))" for q
      using assms(1) that by (simp add: em_ok_def st)
    fix i x assume i: "i \<in> set ss" and x: "x \<in> set (em_guards ?em ! i)"
    then have "x \<in> set (em_guards em0 ! i)" "i \<in> set U" using g assms(4) by auto
    then show "case x of (d, v) \<Rightarrow> 0 \<le> v \<and> int d \<in> set (em_stack ?em)"
      using assms(1) unfolding em_ok_def st by blast
  qed
qed

lemma replay_marks:
  assumes "from_snap first T em0 em" and "marks_after (set ss) (replay first ss em0 em) em'" and "\<And>i. i \<in> set ss \<Longrightarrow> \<not> em_emitted em0 ! i"
    and "em_stack em' = em_stack em0"
  shows "from_snap False (T \<union> set ss) em0 em'"
proof (cases first)
  case True
  then show ?thesis using assms by (auto simp: from_snap_def marks_after_def replay_def)
next
  case False
  have l: "length (em_emitted em) = length (em_emitted em0)" "length (em_guards em) = length (em_guards em0)"
    using assms(1) by (simp_all add: from_snap_def marks_after_def)
  have "em_emitted em' ! i \<longleftrightarrow> em_emitted em0 ! i \<or> i \<in> T \<union> set ss" if "i < length (em_emitted em0)" for i
    using that assms(1-3) False l restore_marks_nth [of i "em_emitted em" ss "em_emitted em0"]
    by (auto simp: from_snap_def marks_after_def replay_def)
  moreover have "length (em_emitted em') = length (em_emitted em0)" using assms(2) False l by (simp add: marks_after_def replay_def)
  ultimately show ?thesis using assms False by (auto simp: from_snap_def marks_after_def replay_def)
qed

definition seg_fits :: "nat list \<Rightarrow> emitter \<Rightarrow> (int \<times> int) \<times> nat list \<Rightarrow> bool" where
  "seg_fits U em0 seg \<longleftrightarrow> (case seg of ((a, b), S) \<Rightarrow> 0 \<le> a \<and> a \<le> b \<and> distinct S \<and> set S \<subseteq> set U \<and> (\<forall>i \<in> set S. \<not> em_emitted em0 ! i))"

lemma emit_segs_sticky:
  "emit_segs cx rec p v r tid E G first segs em = Inr em' \<Longrightarrow> level_spec cx r' rec \<Longrightarrow> em_failed em \<Longrightarrow> em_failed em'"
proof (induction segs arbitrary: first em)
  case Nil
  then show ?case by simp
next
  case (Cons seg segs)
  obtain a b S where seg: "seg = ((a, b), S)" by (cases seg) auto
  let ?em1 = "if first then em else em\<lparr>em_emitted := restore_marks S E (em_emitted em), em_guards := G\<rparr>"
  from Cons.prems(1) obtain e em2 where e: "emit_point cx rec S p r (range_loop v a e) tid ?em1 = Inr em2"
    and k: "emit_segs cx rec p v r tid E G False segs em2 = Inr em'" by (auto simp: seg Let_def mlk_try_Inr_iff)
  have "em_failed ?em1" using Cons.prems(3) by simp
  from Cons.IH [OF k Cons.prems(2) emit_point_sticky [OF e Cons.prems(2) this]] show ?case .
qed

lemma emit_segs_step:
  assumes "emit_segs cx rec p v r tid (em_emitted em0) (em_guards em0) first segs em = Inr em'" and "\<not> em_failed em'"
    and "level_spec cx (Suc r) rec" and "em_ok cx r U em0" and "nest_ok cx" and "r < length (ps_pivotDim (cg_sched cx))"
    and "p = ps_pivotDim (cg_sched cx) ! r" and "tid < length (em_nodes em)" and "from_snap first T em0 em"
    and "\<And>seg. seg \<in> set segs \<Longrightarrow> seg_fits U em0 seg"
  shows "(\<exists>pids. tile_emits tid em em' pids (\<lambda>_. True) (\<lambda>vars. \<Sum>((a, b), S)\<leftarrow>segs. \<Sum>v\<leftarrow>[a..b].
       level_events cx (Suc r) S (em_stack em0 @ [int p]) (vars @ [v]) (em_guards em0)))
     \<and> (\<exists>f. from_snap f (T \<union> (\<Union>seg \<in> set segs. set (snd seg))) em0 em')"
  using assms
proof (induction segs arbitrary: first em T)
  case Nil
  then show ?case using tile_emits_none [OF Nil.prems(8)] by auto
next
  case (Cons seg segs)
  obtain a b S where seg: "seg = ((a, b), S)" by (cases seg) auto
  let ?em1 = "replay first S em0 em"
  from Cons.prems(1) have pe: "in_i64 (b + 1)" and "\<exists>em2. emit_point cx rec S p r (range_loop v a (b + 1)) tid ?em1 = Inr em2
      \<and> emit_segs cx rec p v r tid (em_emitted em0) (em_guards em0) False segs em2 = Inr em'"
    by (auto simp: seg Let_def mlk_try_Inr_iff plain64_Inr replay_def)
  then obtain em2 where e: "emit_point cx rec S p r (range_loop v a (b + 1)) tid ?em1 = Inr em2"
    and k: "emit_segs cx rec p v r tid (em_emitted em0) (em_guards em0) False segs em2 = Inr em'" by blast
  have sf: "0 \<le> a" "a \<le> b" "distinct S" "set S \<subseteq> set U" "\<And>i. i \<in> set S \<Longrightarrow> \<not> em_emitted em0 ! i"
    using Cons.prems(10) [of seg] by (auto simp: seg_fits_def seg)
  note ok = replay_ok [OF Cons.prems(4,9) sf(3-5)]
  have f2: "\<not> em_failed em2" using emit_segs_sticky [OF k Cons.prems(3)] Cons.prems(2) by blast
  have st: "em_stack ?em1 = em_stack em0" using Cons.prems(9) by (simp add: replay_def from_snap_def)
  have nd: "em_nodes ?em1 = em_nodes em" by (simp add: replay_def)
  have hi: "0 \<le> b + 1" "b + 1 \<le> INT64_MAX" using pe sf(1,2) by (simp_all add: i64_defs)
  have bd: "loop_begin (range_loop v a (b + 1)) vars = Inr a \<and> (\<forall>km. loop_end km 0 (range_loop v a (b + 1)) vars = Inr b) \<and> 0 \<le> a \<and> b \<le> INT64_MAX" for vars
    using range_loop_bounds [of "range_loop v a (b + 1)" a b, OF _ _ _ _ _ hi] sf(1) hi by (simp add: range_loop_def new_node_def)
  have "\<exists>pid. tile_step tid (set S) ?em1 em2 [pid] (\<lambda>_. True) (\<lambda>vars. \<Sum>v\<leftarrow>[a..b].
       level_events cx (Suc r) (alive S ?em1) (em_stack ?em1 @ [int p]) (vars @ [v]) (em_guards ?em1))"
    by (rule emit_point_step [OF e f2 Cons.prems(3) em_ok_pivot [OF ok(1) Cons.prems(5,6)] Cons.prems(5-7)])
       (use Cons.prems(8) bd nd in \<open>simp_all add: range_loop_def new_node_def\<close>)
  then obtain pid where ts: "tile_step tid (set S) ?em1 em2 [pid] (\<lambda>_. True) (\<lambda>vars. \<Sum>v\<leftarrow>[a..b].
       level_events cx (Suc r) S (em_stack em0 @ [int p]) (vars @ [v]) (em_guards ?em1))" using ok(2) st by auto
  have lg: "level_events cx (Suc r) S stack vars (em_guards ?em1) = level_events cx (Suc r) S stack vars (em_guards em0)" for stack vars
    by (rule level_events_cong) (rule ok(3))
  have te: "tile_emits tid em em2 [pid] (\<lambda>_. True) (\<lambda>vars. \<Sum>v\<leftarrow>[a..b].
       level_events cx (Suc r) S (em_stack em0 @ [int p]) (vars @ [v]) (em_guards em0))"
    using ts unfolding lg by (simp add: tile_step_def replay_def split: if_splits)
  have st2: "em_stack em2 = em_stack em0" using te Cons.prems(9) by (simp add: tile_emits_def from_snap_def)
  have fs: "from_snap False (T \<union> set S) em0 em2"
    by (rule replay_marks [OF Cons.prems(9) _ sf(5) st2]) (use ts in \<open>simp_all add: tile_step_def\<close>)
  have tid2: "tid < length (em_nodes em2)" using te Cons.prems(8) by (auto simp: tile_emits_def)
  from Cons.IH [OF k Cons.prems(2-7) tid2 fs] Cons.prems(10) obtain pids f where
    te': "tile_emits tid em2 em' pids (\<lambda>_. True) (\<lambda>vars. \<Sum>((a, b), S)\<leftarrow>segs. \<Sum>v\<leftarrow>[a..b].
       level_events cx (Suc r) S (em_stack em0 @ [int p]) (vars @ [v]) (em_guards em0))"
    and fs': "from_snap f ((T \<union> set S) \<union> (\<Union>seg \<in> set segs. set (snd seg))) em0 em'" by auto
  from tile_emits_trans [OF te te' Cons.prems(8)] fs' show ?case by (auto simp: seg Un_assoc)
qed


section \<open>Bodies of a split\<close>

definition body_stmts :: "split_body \<Rightarrow> nat list" where
  "body_stmts b = sb_stmts b @ concat (map snd (sb_segs b))"

definition body_fits :: "int \<Rightarrow> nat list \<Rightarrow> emitter \<Rightarrow> split_body \<Rightarrow> bool" where
  "body_fits t U em0 b \<longleftrightarrow> 0 \<le> sb_lo b \<and> sb_lo b \<le> sb_hi b \<and> distinct (sb_stmts b)
     \<and> set (body_stmts b) \<subseteq> set U \<and> (\<forall>i \<in> set (body_stmts b). \<not> em_emitted em0 ! i)
     \<and> (sb_segs b \<noteq> [] \<longrightarrow> sb_tiled b) \<and> (\<forall>((x, y), S) \<in> set (sb_segs b). 0 \<le> x \<and> x \<le> y \<and> distinct S)
     \<and> (sb_tiled b \<and> sb_segs b = [] \<longrightarrow> t * sb_hi b \<le> INT64_MAX \<and> (sb_partialEnd b < 0 \<longrightarrow> t * sb_hi b + t - 1 \<le> INT64_MAX))"

text \<open>The values of a body and of its segments, each with the statements that run there.\<close>

definition body_sum :: "int \<Rightarrow> (nat list \<Rightarrow> int \<Rightarrow> event multiset) \<Rightarrow> split_body \<Rightarrow> event multiset" where
  "body_sum t g b =
     (if \<not> sb_tiled b then \<Sum>v\<leftarrow>[sb_lo b..sb_hi b]. g (sb_stmts b) v
      else if sb_segs b = [] then \<Sum>ti\<leftarrow>[sb_lo b..sb_hi b]. \<Sum>v\<leftarrow>[t * ti..tile_top t (sb_partialEnd b) ti]. g (sb_stmts b) v
      else \<Sum>ti\<leftarrow>[sb_lo b..sb_hi b]. \<Sum>((x, y), S)\<leftarrow>sb_segs b. \<Sum>v\<leftarrow>[x..y]. g S v)"

lemma emitSplitBody_sticky:
  assumes "emitSplitBody cx rec b p r em = Inr em'" and "level_spec cx r' rec" and "em_failed em"
  shows "em_failed em'"
proof (cases "sb_tiled b")
  case False
  then show ?thesis using assms(1) emitPlainLoop_sticky [OF _ assms(2,3)] by (simp add: emitSplitBody_def)
next
  case True
  obtain v em0 where l: "loop_name cx p em = (v, em0)" by fastforce
  have f0: "em_failed em0" using loop_name_core [OF l] assms(3) by (simp add: same_core_def)
  from assms(1) True l obtain t tid em1 where o: "open_tile cx v (sb_lo b) (sb_hi b) r em0 = Inr (tid, em1)"
    and k: "(if sb_segs b = [] then emitPointBody cx rec (sb_stmts b) p r t (sb_partialEnd b) tid em1
       else mlk_try (emit_segs cx rec p v r tid (em_emitted em1) (em_guards em1) True (sb_segs b) em1) (\<lambda>em. Inr (close_tile tid em))) = Inr em'"
    by (auto simp: emitSplitBody_def mlk_try_Inr_iff)
  show ?thesis
  proof (cases "sb_segs b = []")
    case True
    have "emit_tile cx rec (sb_stmts b) p v (sb_lo b) (sb_hi b) r t (sb_partialEnd b) em0 = Inr em'"
      using o k True by (simp add: emit_tile_def mlk_try_def)
    from emit_tile_sticky [OF this assms(2) f0] show ?thesis .
  next
    case False
    have "em_failed em1" using open_tile_state(7) [OF o] f0 by simp
    with k False emit_segs_sticky [OF _ assms(2)] show ?thesis by (fastforce simp: mlk_try_Inr_iff close_tile_def push_body_def)
  qed
qed

lemma alive_all: "(\<And>i. i \<in> set S \<Longrightarrow> \<not> em_emitted em ! i) \<Longrightarrow> alive S em = S"
  by (simp add: alive_def)

lemma emit_seg_tile_effect:
  assumes o: "open_tile cx v a b r em = Inr (tid, em1)"
    and k: "emit_segs cx rec p w r tid (em_emitted em1) (em_guards em1) True segs em1 = Inr em2" and "\<not> em_failed em2"
    and "level_spec cx (Suc r) rec" and "em_ok cx r U em" and "nest_ok cx" and "r < length (ps_pivotDim (cg_sched cx))"
    and "p = ps_pivotDim (cg_sched cx) ! r" and "\<And>seg. seg \<in> set segs \<Longrightarrow> seg_fits U em seg" and "0 \<le> a" and "a \<le> b"
  shows "effect (\<Union>seg \<in> set segs. set (snd seg)) em (close_tile tid em2)
     (\<lambda>vars. \<Sum>ti\<leftarrow>[a..b]. \<Sum>((x, y), S)\<leftarrow>segs. \<Sum>v\<leftarrow>[x..y]. below cx r p S em vars v)"
proof -
  note os = open_tile_state [OF o]
  have ok: "em_ok cx r U em1" by (rule em_ok_open [OF assms(5)]) (use os in simp_all)
  have tid: "tid < length (em_nodes em1)" using os(1,2) by auto
  have snap: "from_snap True {} em1 em1" by (simp add: from_snap_def marks_after_def)
  have fits: "seg_fits U em1 seg" if "seg \<in> set segs" for seg using assms(9) [OF that] by (simp add: seg_fits_def os(5) split: prod.splits)
  let ?M = "\<lambda>vars. \<Sum>((x, y), S)\<leftarrow>segs. \<Sum>v\<leftarrow>[x..y]. level_events cx (Suc r) S (em_stack em1 @ [int p]) (vars @ [v]) (em_guards em1)"
  let ?S = "\<Union>seg \<in> set segs. set (snd seg)"
  from emit_segs_step [OF k assms(3,4) ok assms(6-8) tid snap fits]
  obtain pids f where te: "tile_emits tid em1 em2 pids (\<lambda>_. True) ?M" and fs: "from_snap f ({} \<union> ?S) em1 em2" by blast
  then have "tile_step tid ?S em1 em2 pids (\<lambda>_. True) ?M" by (simp add: tile_step_def from_snap_def)
  from tile_effect [OF o this assms(10,11)] have "effect ?S em (close_tile tid em2) (\<lambda>vars. \<Sum>ti\<leftarrow>[a..b]. ?M (vars @ [ti]))" by simp
  then show ?thesis
  proof (rule effect_cong)
    fix vars assume "vars_ok (em_stack em) vars"
    then have lv: "length vars = length (em_stack em)" by (simp add: vars_ok_def)
    show "(\<Sum>ti\<leftarrow>[a..b]. ?M (vars @ [ti])) = (\<Sum>ti\<leftarrow>[a..b]. \<Sum>((x, y), S)\<leftarrow>segs. \<Sum>v\<leftarrow>[x..y]. below cx r p S em vars v)"
      unfolding os(3,6) below_slot [OF lv] ..
  qed
qed

lemma emitSplitBody_effect:
  assumes "emitSplitBody cx rec b p r em = Inr em'" and "\<not> em_failed em'" and "level_spec cx (Suc r) rec"
    and "em_ok cx r (remdups (body_stmts b)) em" and "nest_ok cx" and "r < length (ps_pivotDim (cg_sched cx))" and "p = ps_pivotDim (cg_sched cx) ! r"
    and "body_fits t U em b" and "sb_tiled b \<Longrightarrow> 0 < t \<and> t = ti_tileSizes (cg_tiled cx) ! r"
    and "sb_segs b \<noteq> [] \<Longrightarrow> sb_stmts b = []"
  shows "effect (set (body_stmts b)) em em' (\<lambda>vars. body_sum t (\<lambda>S v. below cx r p S em vars v) b)"
proof -
  note fit = assms(8) [unfolded body_fits_def]
  have ne: "\<not> em_emitted em ! i" if "i \<in> set (body_stmts b)" for i using fit that by blast
  show ?thesis
  proof (cases "sb_segs b = []")
    case True
    then have bs: "body_stmts b = sb_stmts b" by (simp add: body_stmts_def)
    have ok: "em_ok cx r (sb_stmts b) em" using assms(4) fit by (simp add: bs distinct_remdups_id)
    have al: "alive (sb_stmts b) em = sb_stmts b" by (rule alive_all) (use ne bs in simp)
    show ?thesis
    proof (cases "sb_tiled b")
      case False
      then have "emitPlainLoop cx rec (sb_stmts b) p (sb_lo b) (sb_hi b) r em = Inr em'" using assms(1) by (simp add: emitSplitBody_def)
      from emitPlainLoop_effect [OF this assms(2,3) em_ok_pivot [OF ok assms(5,6)] assms(5-7)] fit
      show ?thesis by (simp add: bs body_sum_def False al below_def)
    next
      case True
      obtain v em0 where l: "loop_name cx p em = (v, em0)" by fastforce
      note core = loop_name_core [OF l]
      have e: "emit_tile cx rec (sb_stmts b) p v (sb_lo b) (sb_hi b) r t (sb_partialEnd b) em0 = Inr em'"
        using assms(1) l True \<open>sb_segs b = []\<close> assms(9) by (auto simp: emitSplitBody_def mlk_try_Inr_iff vec_at_Inr emit_tile_def)
      have ok0: "em_ok cx r (sb_stmts b) em0" using ok core by (simp add: same_core_def em_ok_def)
      have "effect (set (sb_stmts b)) em0 em' (\<lambda>vars. \<Sum>ti\<leftarrow>[sb_lo b..sb_hi b]. \<Sum>v\<leftarrow>[t * ti..tile_top t (sb_partialEnd b) ti]. below cx r p (alive (sb_stmts b) em0) em0 vars v)"
        by (rule emit_tile_effect [OF e assms(2,3) em_ok_pivot [OF ok0 assms(5,6)] assms(5-7)]) (use assms(9) True fit \<open>sb_segs b = []\<close> in auto)
      from effect_core [OF core this] show ?thesis
        using core al by (simp add: bs body_sum_def True \<open>sb_segs b = []\<close> same_core_def alive_def below_def)
    qed
  next
    case False
    then have t: "sb_tiled b" using fit by blast
    have bs: "body_stmts b = concat (map snd (sb_segs b))" using assms(10) False by (simp add: body_stmts_def)
    obtain v em0 where l: "loop_name cx p em = (v, em0)" by fastforce
    note core = loop_name_core [OF l]
    from assms(1) l t False obtain tid em1 em2 where o: "open_tile cx v (sb_lo b) (sb_hi b) r em0 = Inr (tid, em1)"
      and k: "emit_segs cx rec p v r tid (em_emitted em1) (em_guards em1) True (sb_segs b) em1 = Inr em2" and em': "em' = close_tile tid em2"
      by (auto simp: emitSplitBody_def mlk_try_Inr_iff)
    have ok0: "em_ok cx r (remdups (body_stmts b)) em0" using assms(4) core by (simp add: same_core_def em_ok_def)
    have f2: "\<not> em_failed em2" using assms(2) by (simp add: em' close_tile_def push_body_def)
    have sf: "seg_fits (remdups (body_stmts b)) em0 seg" if "seg \<in> set (sb_segs b)" for seg
    proof -
      have "set (snd seg) \<subseteq> set (body_stmts b)" using that by (auto simp: bs)
      then show ?thesis using fit ne core that by (fastforce simp: seg_fits_def same_core_def)
    qed
    from fit have lh: "0 \<le> sb_lo b" "sb_lo b \<le> sb_hi b" by simp_all
    have "effect (\<Union>seg \<in> set (sb_segs b). set (snd seg)) em0 em'
       (\<lambda>vars. \<Sum>ti\<leftarrow>[sb_lo b..sb_hi b]. \<Sum>((x, y), S)\<leftarrow>sb_segs b. \<Sum>v\<leftarrow>[x..y]. below cx r p S em0 vars v)"
      unfolding em' by (rule emit_seg_tile_effect [OF o k f2 assms(3) ok0 assms(5-7) sf lh])
    from effect_core [OF core this] show ?thesis
      using core by (simp add: bs body_sum_def t False same_core_def below_def)
  qed
qed


lemma restore_marks_remdups: "restore_marks (remdups ss) snap m = restore_marks ss snap m"
  by (rule nth_equalityI) (simp_all add: restore_marks_nth)

lemma replay_remdups: "replay first (remdups ss) em0 em = replay first ss em0 em"
  by (simp add: replay_def restore_marks_remdups)

lemma body_sum_cong:
  assumes "\<And>S v. set S \<subseteq> set (body_stmts b) \<Longrightarrow> g S v = g' S v"
  shows "body_sum t g b = body_sum t g' b"
proof -
  have seg: "(\<Sum>((x, y), S)\<leftarrow>segs. \<Sum>v\<leftarrow>[x..y]. g S v) = (\<Sum>((x, y), S)\<leftarrow>segs. \<Sum>v\<leftarrow>[x..y]. g' S v)"
    if "set segs \<subseteq> set (sb_segs b)" for segs
    using that
  proof (induction segs)
    case (Cons seg segs)
    obtain x y S where s: "seg = ((x, y), S)" by (cases seg) auto
    have "((x, y), S) \<in> set (sb_segs b)" using Cons.prems by (simp add: s)
    then have "set S \<subseteq> set (body_stmts b)" by (fastforce simp: body_stmts_def)
    then have gS: "g S = g' S" using assms by blast
    have "set segs \<subseteq> set (sb_segs b)" using Cons.prems by simp
    from Cons.IH [OF this] show ?case by (simp add: s gS)
  qed simp
  have "g (sb_stmts b) = g' (sb_stmts b)" using assms [of "sb_stmts b"] by (auto simp: body_stmts_def)
  then show ?thesis by (simp add: body_sum_def seg)
qed

definition body_ready :: "codegen_input \<Rightarrow> nat \<Rightarrow> int \<Rightarrow> nat list \<Rightarrow> emitter \<Rightarrow> split_body \<Rightarrow> bool" where
  "body_ready cx r t U em b \<longleftrightarrow> body_fits t U em b \<and> (sb_segs b \<noteq> [] \<longrightarrow> sb_stmts b = [])
     \<and> (sb_tiled b \<longrightarrow> 0 < t \<and> t = ti_tileSizes (cg_tiled cx) ! r)"

lemma emit_bodies_sticky:
  "emit_bodies cx rec p r E G first bs em = Inr em' \<Longrightarrow> level_spec cx r' rec \<Longrightarrow> em_failed em \<Longrightarrow> em_failed em'"
proof (induction bs arbitrary: first em)
  case Nil
  then show ?case by simp
next
  case (Cons b bs)
  let ?em1 = "if first then em else em\<lparr>em_emitted := restore_marks (sb_stmts b @ concat (map snd (sb_segs b))) E (em_emitted em), em_guards := G\<rparr>"
  from Cons.prems(1) obtain em2 where e: "emitSplitBody cx rec b p r ?em1 = Inr em2"
    and k: "emit_bodies cx rec p r E G False bs em2 = Inr em'" by (auto simp: Let_def mlk_try_Inr_iff)
  have "em_failed ?em1" using Cons.prems(3) by simp
  from Cons.IH [OF k Cons.prems(2) emitSplitBody_sticky [OF e Cons.prems(2) this]] show ?case .
qed

lemma emits_none: "emits em em (\<lambda>vars. {#})"
  using effect_refl by (simp add: effect_def)

lemma emits_cong:
  "emits em em' M \<Longrightarrow> (\<And>vars. vars_ok (em_stack em) vars \<Longrightarrow> M vars = M' vars) \<Longrightarrow> emits em em' M'"
  unfolding emits_def by fastforce

lemma emit_bodies_effect:
  assumes "emit_bodies cx rec p r (em_emitted em0) (em_guards em0) first bs em = Inr em'" and "\<not> em_failed em'"
    and "level_spec cx (Suc r) rec" and "em_ok cx r U em0" and "nest_ok cx" and "r < length (ps_pivotDim (cg_sched cx))"
    and "p = ps_pivotDim (cg_sched cx) ! r" and "from_snap first T em0 em"
    and "\<And>b. b \<in> set bs \<Longrightarrow> body_ready cx r t U em0 b"
  shows "emits em em' (\<lambda>vars. \<Sum>b\<leftarrow>bs. body_sum t (\<lambda>S v. below cx r p S em0 vars v) b)
     \<and> (\<exists>f. from_snap f (T \<union> (\<Union>b \<in> set bs. set (body_stmts b))) em0 em')"
  using assms
proof (induction bs arbitrary: first em T)
  case Nil
  then show ?case by (auto simp: emits_none)
next
  case (Cons b bs)
  let ?em1 = "replay first (body_stmts b) em0 em" and ?ss = "remdups (body_stmts b)"
  from Cons.prems(1) have "\<exists>em2. emitSplitBody cx rec b p r ?em1 = Inr em2
      \<and> emit_bodies cx rec p r (em_emitted em0) (em_guards em0) False bs em2 = Inr em'"
    by (auto simp: Let_def mlk_try_Inr_iff replay_def body_stmts_def)
  then obtain em2 where e: "emitSplitBody cx rec b p r ?em1 = Inr em2"
    and k: "emit_bodies cx rec p r (em_emitted em0) (em_guards em0) False bs em2 = Inr em'" by blast
  have rb: "body_ready cx r t U em0 b" using Cons.prems(9) by simp
  have sf: "distinct ?ss" "set ?ss \<subseteq> set U" "\<And>i. i \<in> set ?ss \<Longrightarrow> \<not> em_emitted em0 ! i"
    using rb by (auto simp: body_ready_def body_fits_def)
  note ok = replay_ok [OF Cons.prems(4,8) sf, unfolded replay_remdups]
  have f2: "\<not> em_failed em2" using emit_bodies_sticky [OF k Cons.prems(3)] Cons.prems(2) by blast
  have st: "em_stack ?em1 = em_stack em0" using Cons.prems(8) by (simp add: replay_def from_snap_def)
  have ne: "\<not> em_emitted ?em1 ! i" if "i \<in> set (body_stmts b)" for i
    using ok(2) that unfolding alive_def by (metis filter_id_conv set_remdups)
  have fit: "body_fits t (body_stmts b) ?em1 b" using rb ne unfolding body_ready_def body_fits_def by blast
  have "effect (set (body_stmts b)) ?em1 em2 (\<lambda>vars. body_sum t (\<lambda>S v. below cx r p S ?em1 vars v) b)"
    by (rule emitSplitBody_effect [OF e f2 Cons.prems(3) ok(1) Cons.prems(5-7) fit]) (use rb in \<open>auto simp: body_ready_def\<close>)
  moreover have "body_sum t (\<lambda>S v. below cx r p S ?em1 vars v) b = body_sum t (\<lambda>S v. below cx r p S em0 vars v) b" for vars
  proof (rule body_sum_cong)
    fix S v assume "set S \<subseteq> set (body_stmts b)"
    then show "below cx r p S ?em1 vars v = below cx r p S em0 vars v"
      unfolding below_def st by (intro level_events_cong) (use ok(3) in auto)
  qed
  ultimately have E: "effect (set (body_stmts b)) ?em1 em2 (\<lambda>vars. body_sum t (\<lambda>S v. below cx r p S em0 vars v) b)" by simp
  then have em2: "emits em em2 (\<lambda>vars. body_sum t (\<lambda>S v. below cx r p S em0 vars v) b)"
    by (simp add: effect_def replay_def split: if_splits)
  have st2: "em_stack em2 = em_stack em0" using E st by (simp add: effect_def emits_def)
  have fs: "from_snap False (T \<union> set (body_stmts b)) em0 em2"
    using replay_marks [OF Cons.prems(8), of ?ss em2] E sf(3) st2 by (simp add: effect_def replay_remdups)
  from Cons.IH [OF k Cons.prems(2-7) fs] Cons.prems(9) obtain f where
    em': "emits em2 em' (\<lambda>vars. \<Sum>b\<leftarrow>bs. body_sum t (\<lambda>S v. below cx r p S em0 vars v) b)"
    and fs': "from_snap f ((T \<union> set (body_stmts b)) \<union> (\<Union>b \<in> set bs. set (body_stmts b))) em0 em'" by auto
  from emits_trans [OF em2 em'] fs' show ?case by (auto simp: Un_assoc)
qed

end
