(* ===== verification/Codegen_Nest.thy ===== *)
theory Codegen_Nest
  imports Codegen_Loops
begin

text \<open>
  The pieces of a split cover the range of the loop once, with every re-entering statement at its value;
  so a level performs its statements, and so does the generated kernel.
\<close>

section \<open>Sums over groups\<close>

lemma sum_by_key:
  fixes h :: "'a \<Rightarrow> event multiset"
  assumes "distinct ks" and "f ` set xs \<subseteq> set ks"
  shows "(\<Sum>k\<leftarrow>ks. \<Sum>x\<leftarrow>filter (\<lambda>x. f x = k) xs. h x) = (\<Sum>x\<leftarrow>xs. h x)"
  using assms(2)
proof (induction xs)
  case Nil
  then show ?case by simp
next
  case (Cons x xs)
  have one: "(\<Sum>k\<leftarrow>ks. (if f x = k then h x else {#}) + m k) = h x + (\<Sum>k\<leftarrow>ks. m k)"
    if "distinct ks" "f x \<in> set ks" for ks and m
    using that
  proof (induction ks)
    case (Cons k ks)
    have z: "(\<Sum>k\<leftarrow>ks. (if f x = k then h x else {#}) + m k) = (\<Sum>k\<leftarrow>ks. m k)" if "f x \<notin> set ks" for ks
      using that by (induction ks) auto
    show ?case using Cons z [of ks] by (auto simp: ac_simps)
  qed simp
  have "(\<Sum>k\<leftarrow>ks. \<Sum>x\<leftarrow>filter (\<lambda>y. f y = k) (x # xs). h x)
      = (\<Sum>k\<leftarrow>ks. (if f x = k then h x else {#}) + (\<Sum>x\<leftarrow>filter (\<lambda>y. f y = k) xs. h x))"
    by (intro arg_cong [where f = sum_list] map_cong) auto
  also have "\<dots> = h x + (\<Sum>x\<leftarrow>xs. h x)" using Cons one [OF assms(1)] by simp
  finally show ?case by simp
qed

definition group_sum :: "(nat list \<Rightarrow> int \<Rightarrow> event multiset) \<Rightarrow> reentry_group list \<Rightarrow> event multiset" where
  "group_sum g groups = (\<Sum>(w, ss)\<leftarrow>groups. g ss w)"

lemma group_sum_simps [simp]:
  "group_sum g [] = {#}" "group_sum g ((w, ss) # gs) = g ss w + group_sum g gs" "group_sum g (gs @ gs') = group_sum g gs + group_sum g gs'"
  by (simp_all add: group_sum_def)

definition additive :: "(nat list \<Rightarrow> int \<Rightarrow> event multiset) \<Rightarrow> bool" where
  "additive g \<longleftrightarrow> (\<forall>v. g [] v = {#}) \<and> (\<forall>S S' v. g (S @ S') v = g S v + g S' v)"

lemma additive_Cons: "additive g \<Longrightarrow> g (i # S) v = g [i] v + g S v"
  by (metis additive_def append_Cons append_Nil)

lemma additive_sum: "additive g \<Longrightarrow> g S v = (\<Sum>i\<leftarrow>S. g [i] v)"
  by (induction S) (auto simp: additive_Cons [of g _ "_ # _"] additive_def, metis additive_Cons additive_def)

text \<open>Strictly ascending values within a range.\<close>

definition groups_in :: "int \<Rightarrow> int \<Rightarrow> reentry_group list \<Rightarrow> bool" where
  "groups_in lo hi groups \<longleftrightarrow> sorted_wrt (<) (map fst groups) \<and> (\<forall>w \<in> fst ` set groups. lo \<le> w \<and> w \<le> hi)"

lemma groups_in_Cons:
  "groups_in lo hi ((w, ss) # gs) \<Longrightarrow> lo \<le> w \<and> w \<le> hi \<and> groups_in (w + 1) hi gs"
  by (fastforce simp: groups_in_def)

lemma remdups_adj_strict: "sorted xs \<Longrightarrow> sorted_wrt (<) (remdups_adj (xs :: int list))"
  by (induction xs rule: remdups_adj.induct) (auto simp: less_le)

lemma reentry_groups_in:
  assumes "\<And>v s. (v, s) \<in> set reentry \<Longrightarrow> lo \<le> v \<and> v \<le> hi"
  shows "groups_in lo hi (reentry_groups reentry)"
  using assms by (fastforce simp: groups_in_def reentry_groups_def comp_def remdups_adj_strict)

lemma reentry_groups_sum:
  assumes "additive g"
  shows "group_sum g (reentry_groups reentry) = (\<Sum>(v, s)\<leftarrow>reentry. g [s] v)"
proof -
  let ?ks = "remdups_adj (sort (map fst reentry))"
  have inner: "g (map snd (filter (\<lambda>item. fst item = k) xs)) k = (\<Sum>(v, s)\<leftarrow>filter (\<lambda>item. fst item = k) xs. g [s] v)" for k xs
    using assms by (induction xs) (auto simp: additive_def additive_Cons [OF assms, of _ "map _ _"])
  have "group_sum g (reentry_groups reentry) = (\<Sum>k\<leftarrow>?ks. g (map snd (filter (\<lambda>item. fst item = k) reentry)) k)"
    by (simp add: group_sum_def reentry_groups_def comp_def)
  also have "\<dots> = (\<Sum>k\<leftarrow>?ks. \<Sum>(v, s)\<leftarrow>filter (\<lambda>item. fst item = k) reentry. g [s] v)" by (simp only: inner)
  also have "\<dots> = (\<Sum>(v, s)\<leftarrow>reentry. g [s] v)"
    by (rule sum_by_key) (use remdups_adj_strict [of "sort (map fst reentry)"] in \<open>auto simp: strict_sorted_iff\<close>)
  finally show ?thesis .
qed

section \<open>Pieces of a loop\<close>

lemma body_sum_plain [simp]: "body_sum t g (plain_body lo hi S) = (\<Sum>v\<leftarrow>[lo..hi]. g S v)"
  by (simp add: body_sum_def plain_body_def)

lemma body_sum_tile [simp]:
  "body_sum t g (tile_body lo hi pe S) = (\<Sum>ti\<leftarrow>[lo..hi]. \<Sum>v\<leftarrow>[t * ti..tile_top t pe ti]. g S v)"
  by (simp add: body_sum_def tile_body_def)

text \<open>The range up to a value, the value and the rest.\<close>

lemma range_cut:
  fixes g :: "int \<Rightarrow> event multiset"
  assumes "cur \<le> w" and "w \<le> hi"
  shows "(if w > cur then \<Sum>v\<leftarrow>[cur..w - 1]. g v else {#}) + (g w + (\<Sum>v\<leftarrow>[w + 1..hi]. g v)) = (\<Sum>v\<leftarrow>[cur..hi]. g v)"
proof -
  have "[cur..hi] = [cur..w - 1] @ w # [w + 1..hi]" using upto_split3 [OF assms] by simp
  then show ?thesis by simp
qed

lemma plain_bodies_sum:
  assumes "additive g" and "groups_in cur hi groups"
  shows "(\<Sum>b\<leftarrow>plain_bodies varStmts hi cur groups. body_sum t g b) = (\<Sum>v\<leftarrow>[cur..hi]. g varStmts v) + group_sum g groups"
  using assms(2)
proof (induction groups arbitrary: cur)
  case Nil
  then show ?case by simp
next
  case (Cons x gs)
  obtain w ss where x: "x = (w, ss)" by fastforce
  note w = groups_in_Cons [OF Cons.prems [unfolded x]]
  have a: "g (varStmts @ ss) w = g varStmts w + g ss w" using assms(1) by (simp add: additive_def)
  have "(\<Sum>b\<leftarrow>plain_bodies varStmts hi cur (x # gs). body_sum t g b)
      = (if w > cur then \<Sum>v\<leftarrow>[cur..w - 1]. g varStmts v else {#})
        + ((g varStmts w + g ss w) + ((\<Sum>v\<leftarrow>[w + 1..hi]. g varStmts v) + group_sum g gs))"
    using Cons.IH [of "w + 1"] w by (simp add: x a)
  then show ?case using range_cut [of cur w hi "g varStmts"] w by (simp add: x ac_simps)
qed

lemma tile_segs_sum:
  assumes "additive g" and "sorted_wrt (<) (map fst groups)"
    and "\<And>w. w \<in> fst ` set groups \<Longrightarrow> w sdiv t = tv \<Longrightarrow> cur \<le> w \<and> w \<le> pHi"
  shows "(\<Sum>((x, y), S)\<leftarrow>tile_segs varStmts tv t pHi cur groups. \<Sum>v\<leftarrow>[x..y]. g S v)
     = (\<Sum>v\<leftarrow>[cur..pHi]. g varStmts v) + group_sum g (filter (\<lambda>(w, ss). w sdiv t = tv) groups)"
  using assms(2,3)
proof (induction groups arbitrary: cur)
  case Nil
  then show ?case by simp
next
  case (Cons x gs)
  obtain w ss where x: "x = (w, ss)" by fastforce
  show ?case
  proof (cases "w sdiv t = tv")
    case False
    then show ?thesis using Cons by (simp add: x)
  next
    case True
    have w: "cur \<le> w" "w \<le> pHi" using Cons.prems(2) [of w] True by (auto simp: x)
    have a: "g (varStmts @ ss) w = g varStmts w + g ss w" using assms(1) by (simp add: additive_def)
    have rest: "w + 1 \<le> u \<and> u \<le> pHi" if "u \<in> fst ` set gs" "u sdiv t = tv" for u
      using Cons.prems(1) Cons.prems(2) [of u] that by (fastforce simp: x)
    have "(\<Sum>((x, y), S)\<leftarrow>tile_segs varStmts tv t pHi cur (x # gs). \<Sum>v\<leftarrow>[x..y]. g S v)
        = (if w > cur then \<Sum>v\<leftarrow>[cur..w - 1]. g varStmts v else {#})
          + ((g varStmts w + g ss w) + ((\<Sum>v\<leftarrow>[w + 1..pHi]. g varStmts v) + group_sum g (filter (\<lambda>(w, ss). w sdiv t = tv) gs)))"
      using Cons.IH [of "w + 1"] Cons.prems(1) rest True by (simp add: x a)
    then show ?thesis using range_cut [of cur w pHi "g varStmts"] w True by (simp add: x ac_simps)
  qed
qed


lemma body_sum_segs:
  assumes "additive g"
  shows "body_sum t g (buildTileSegBody groups varStmts tv t pHi)
     = (\<Sum>((x, y), S)\<leftarrow>tile_segs varStmts tv t pHi (tv * t) groups. \<Sum>v\<leftarrow>[x..y]. g S v)"
proof -
  have "g [] = (\<lambda>v. {#})" using assms by (auto simp: additive_def)
  then show ?thesis by (simp add: body_sum_def buildTileSegBody_def)
qed

definition part_top :: "int \<Rightarrow> int \<Rightarrow> bool \<Rightarrow> int \<Rightarrow> int \<Rightarrow> int" where
  "part_top t hi isPartial b ti = (if isPartial \<and> ti = b then hi else t * ti + t - 1)"

lemma cut_tiles_sum:
  assumes "additive g" and "0 \<le> hi" and "sorted_wrt (<) (map fst groups)"
    and "\<And>w. w \<in> fst ` set groups \<Longrightarrow> w sdiv t \<in> set tvs \<Longrightarrow> t * (w sdiv t) \<le> w \<and> w \<le> part_top t hi isPartial b (w sdiv t)"
    and "sorted_wrt (<) tvs" and "\<And>tv. tv \<in> set tvs \<Longrightarrow> cur \<le> tv \<and> tv \<le> b" and "isPartial \<Longrightarrow> b \<le> cur"
  shows "(\<Sum>d\<leftarrow>cut_tiles groups varStmts t hi isPartial b cur tvs. body_sum t g d)
     = (\<Sum>ti\<leftarrow>[cur..b]. \<Sum>v\<leftarrow>[t * ti..part_top t hi isPartial b ti]. g varStmts v)
       + (\<Sum>tv\<leftarrow>tvs. group_sum g (filter (\<lambda>(w, ss). w sdiv t = tv) groups))"
  using assms(4-7)
proof (induction tvs arbitrary: cur)
  case Nil
  have "tile_top t (if isPartial then hi else -1) ti = part_top t hi isPartial b ti" if "ti \<in> set [cur..b]" for ti
    using that Nil.prems(4) assms(2) by (auto simp: tile_top_def part_top_def)
  then have "(\<Sum>ti\<leftarrow>[cur..b]. \<Sum>v\<leftarrow>[t * ti..tile_top t (if isPartial then hi else -1) ti]. g varStmts v)
      = (\<Sum>ti\<leftarrow>[cur..b]. \<Sum>v\<leftarrow>[t * ti..part_top t hi isPartial b ti]. g varStmts v)"
    by (intro arg_cong [where f = sum_list] map_cong refl) simp
  then show ?case by simp
next
  case (Cons tv tvs)
  let ?top = "part_top t hi isPartial b" and ?F = "\<lambda>ti. \<Sum>v\<leftarrow>[t * ti..part_top t hi isPartial b ti]. g varStmts v"
  have c: "cur \<le> tv" "tv \<le> b" using Cons.prems(3) [of tv] by auto
  have low: "tile_top t (-1) ti = ?top ti" if "ti \<in> set [cur..tv - 1]" for ti
    using that c by (auto simp: tile_top_def part_top_def)
  have pre: "(\<Sum>ti\<leftarrow>[cur..tv - 1]. \<Sum>v\<leftarrow>[t * ti..tile_top t (-1) ti]. g varStmts v) = (\<Sum>ti\<leftarrow>[cur..tv - 1]. ?F ti)"
    by (intro arg_cong [where f = sum_list] map_cong refl) (simp only: low)
  have w: "tv * t \<le> w \<and> w \<le> ?top tv" if "w \<in> fst ` set groups" "w sdiv t = tv" for w
    using Cons.prems(1) [OF that(1)] that(2) by (simp add: mult.commute)
  have seg: "body_sum t g (buildTileSegBody groups varStmts tv t (?top tv)) = ?F tv + group_sum g (filter (\<lambda>(w, ss). w sdiv t = tv) groups)"
    using tile_segs_sum [OF assms(1,3) w] by (simp add: body_sum_segs [OF assms(1)] mult.commute)
  have top: "(if isPartial \<and> tv = b then hi else tv * t + t - 1) = ?top tv" by (simp add: part_top_def mult.commute)
  have "(\<Sum>d\<leftarrow>cut_tiles groups varStmts t hi isPartial b (tv + 1) tvs. body_sum t g d)
      = (\<Sum>ti\<leftarrow>[tv + 1..b]. ?F ti) + (\<Sum>tv\<leftarrow>tvs. group_sum g (filter (\<lambda>(w, ss). w sdiv t = tv) groups))"
    by (rule Cons.IH) (use Cons.prems c in force)+
  then have "(\<Sum>d\<leftarrow>cut_tiles groups varStmts t hi isPartial b cur (tv # tvs). body_sum t g d)
      = (if tv > cur then \<Sum>ti\<leftarrow>[cur..tv - 1]. ?F ti else {#}) + ((?F tv + group_sum g (filter (\<lambda>(w, ss). w sdiv t = tv) groups))
        + ((\<Sum>ti\<leftarrow>[tv + 1..b]. ?F ti) + (\<Sum>tv\<leftarrow>tvs. group_sum g (filter (\<lambda>(w, ss). w sdiv t = tv) groups))))"
    by (simp add: top seg pre)
  then show ?case using range_cut [of cur tv b ?F] c by (simp add: ac_simps)
qed

lemma groups_tile_sorted:
  assumes "groups_in lo hi groups" and "0 \<le> lo" and "0 < t"
  shows "sorted (map (\<lambda>g. fst g sdiv t) groups)"
proof -
  have "fst x sdiv t \<le> fst y sdiv t" if "x \<in> set groups" "y \<in> set groups" "fst x < fst y" for x y
  proof -
    have "0 \<le> fst x" using assms(1,2) that(1) by (force simp: groups_in_def)
    then show ?thesis using assms(3) that(3) by (simp add: sdiv_nonneg zdiv_mono1)
  qed
  moreover have "sorted_wrt (\<lambda>x y. fst x < fst y) groups" using assms(1) by (simp add: groups_in_def sorted_wrt_map)
  ultimately show ?thesis unfolding sorted_wrt_map by (rule sorted_wrt_mono_rel)
qed

lemma tile_bounds:
  assumes "groups_in lo hi groups" and "0 \<le> lo" and "0 < t" and "w \<in> fst ` set groups"
  shows "t * (w sdiv t) \<le> w \<and> w \<le> part_top t hi isPartial b (w sdiv t)"
proof -
  have "lo \<le> w" "w \<le> hi" using assms(1,4) by (auto simp: groups_in_def)
  moreover have "t * (w div t) + w mod t = w" "0 \<le> w mod t" "w mod t < t" using assms(3) by simp_all
  then have "t * (w div t) \<le> w" "w \<le> t * (w div t) + t - 1" by linarith+
  moreover have "w sdiv t = w div t" using sdiv_nonneg(1) [of w t] assms(2,3) \<open>lo \<le> w\<close> by simp
  ultimately show ?thesis by (simp add: part_top_def)
qed

lemma part_bodies_sum:
  assumes "additive g" and "groups_in lo hi groups" and "0 \<le> lo" and "lo \<le> hi" and "0 < t" and "a \<le> b" and "isPartial \<Longrightarrow> b = a"
  shows "(\<Sum>d\<leftarrow>part_bodies groups varStmts t hi isPartial a b. body_sum t g d)
     = (\<Sum>ti\<leftarrow>[a..b]. \<Sum>v\<leftarrow>[t * ti..part_top t hi isPartial b ti]. g varStmts v)
       + group_sum g (filter (\<lambda>(w, ss). a \<le> w sdiv t \<and> w sdiv t \<le> b) groups)"
proof -
  let ?tvs = "remdups_adj (filter (\<lambda>tv. tv \<ge> a \<and> tv \<le> b) (map (\<lambda>g. fst g sdiv t) groups))"
  let ?in = "filter (\<lambda>(w, ss). a \<le> w sdiv t \<and> w sdiv t \<le> b) groups"
  have set_tvs: "set ?tvs = (\<lambda>g. fst g sdiv t) ` set ?in" by auto
  have st: "sorted_wrt (<) ?tvs" by (rule remdups_adj_strict) (intro sorted_wrt_filter groups_tile_sorted [OF assms(2,3,5)])
  have hi: "0 \<le> hi" using assms(3,4) by simp
  note w = tile_bounds [OF assms(2,3,5), of _ isPartial b]
  have keys: "(\<Sum>tv\<leftarrow>?tvs. group_sum g (filter (\<lambda>(w, ss). w sdiv t = tv) groups)) = group_sum g ?in"
  proof -
    have f: "filter (\<lambda>(w, ss). w sdiv t = tv) groups = filter (\<lambda>x. fst x sdiv t = tv) ?in" if "tv \<in> set ?tvs" for tv
      using that by (auto simp: filter_filter intro!: filter_cong)
    have "(\<Sum>tv\<leftarrow>?tvs. group_sum g (filter (\<lambda>(w, ss). w sdiv t = tv) groups))
        = (\<Sum>tv\<leftarrow>?tvs. \<Sum>x\<leftarrow>filter (\<lambda>x. fst x sdiv t = tv) ?in. case x of (w, ss) \<Rightarrow> g ss w)"
      unfolding group_sum_def by (intro arg_cong [where f = sum_list] map_cong refl) (simp only: f)
    also have "\<dots> = group_sum g ?in" unfolding group_sum_def
      by (rule sum_by_key) (use st set_tvs in \<open>auto simp: strict_sorted_iff\<close>)
    finally show ?thesis .
  qed
  show ?thesis
  proof (cases "?tvs = []")
    case True
    then have e: "group_sum g ?in = {#}" unfolding keys [symmetric] True by simp
    have "tile_top t (if isPartial then hi else -1) ti = part_top t hi isPartial b ti" if "ti \<in> set [a..b]" for ti
      using that assms(7) hi by (auto simp: tile_top_def part_top_def)
    then have "(\<Sum>ti\<leftarrow>[a..b]. \<Sum>v\<leftarrow>[t * ti..tile_top t (if isPartial then hi else -1) ti]. g varStmts v)
        = (\<Sum>ti\<leftarrow>[a..b]. \<Sum>v\<leftarrow>[t * ti..part_top t hi isPartial b ti]. g varStmts v)"
      by (intro arg_cong [where f = sum_list] map_cong refl) simp
    then show ?thesis using True e by (simp add: part_bodies_def Let_def)
  next
    case False
    have "(\<Sum>d\<leftarrow>cut_tiles groups varStmts t hi isPartial b a ?tvs. body_sum t g d)
     = (\<Sum>ti\<leftarrow>[a..b]. \<Sum>v\<leftarrow>[t * ti..part_top t hi isPartial b ti]. g varStmts v)
       + (\<Sum>tv\<leftarrow>?tvs. group_sum g (filter (\<lambda>(w, ss). w sdiv t = tv) groups))"
      by (rule cut_tiles_sum [OF assms(1) hi _ _ st]) (use assms(2,7) w in \<open>auto simp: groups_in_def\<close>)
    then show ?thesis using False keys by (simp add: part_bodies_def Let_def)
  qed
qed


lemma tile_sum_full:
  fixes g :: "int \<Rightarrow> event multiset"
  assumes "0 < t" and "a \<le> b + 1"
  shows "(\<Sum>ti\<leftarrow>[a..b]. \<Sum>v\<leftarrow>[t * ti..part_top t hi False b ti]. g v) = (\<Sum>v\<leftarrow>[t * a..t * (b + 1) - 1]. g v)"
  by (simp add: part_top_def sum_list_concat_map tiles_concat [OF assms])

lemma filter_split_sum:
  "(\<And>w. w \<in> fst ` set groups \<Longrightarrow> \<not> (P w \<and> Q w) \<and> (P w \<or> Q w))
     \<Longrightarrow> group_sum g (filter (\<lambda>(w, ss). P w) groups) + group_sum g (filter (\<lambda>(w, ss). Q w) groups) = group_sum g groups"
proof (induction groups)
  case (Cons x gs)
  have "group_sum g (filter (\<lambda>(w, ss). P w) gs) + group_sum g (filter (\<lambda>(w, ss). Q w) gs) = group_sum g gs"
    by (rule Cons.IH) (use Cons.prems in auto)
  moreover have "\<not> (P (fst x) \<and> Q (fst x)) \<and> (P (fst x) \<or> Q (fst x))" by (rule Cons.prems) simp
  ultimately show ?case by (cases x) (auto simp: ac_simps)
qed simp

lemma split_bodies_sum:
  assumes "split_bodies cx varStmts lo hi r groups = Inr (Some bs)" and "additive g" and "groups_in lo hi groups"
    and "0 \<le> lo" and "lo \<le> hi" and "tiles_ok cx" and "t = ti_tileSizes (cg_tiled cx) ! r"
  shows "(\<Sum>b\<leftarrow>bs. body_sum t g b) = (\<Sum>v\<leftarrow>[lo..hi]. g varStmts v) + group_sum g groups"
proof (cases "tiled_here cx r")
  case False
  then have "bs = plain_bodies varStmts hi lo groups" using assms(1) by (simp add: split_bodies_def)
  then show ?thesis using plain_bodies_sum [OF assms(2,3)] by simp
next
  case True
  let ?pb = "part_bodies groups varStmts t hi"
  from assms(1) True assms(7) obtain f l fl part where tl: "r < length (ti_tileSizes (cg_tiled cx))" and al: "lo smod t = 0"
    and tr: "tile_range lo hi t = Inr (f, l, fl, part)"
    and bs: "bs = (if fl \<ge> f then ?pb False f fl else []) @ (if part then ?pb True l l else [])"
    by (auto simp: split_bodies_def mlk_try_Inr_iff vec_at_Inr split: if_splits)
  have tp: "0 < t" using tl assms(6,7) by (auto simp: tiles_ok_def list_all_length)
  note tv = tile_range_values [OF tr assms(4,5) tp]
  have lm: "lo mod t = 0" using al sdiv_nonneg [OF assms(4) tp] by simp
  note cov = tile_cover [OF tp lm assms(5)]
  have ff: "f \<le> fl + 1" using cov(1) by (simp add: tv)
  have lo: "t * f = lo" using cov(2) by (simp add: tv)
  have tile: "f \<le> w sdiv t \<and> w sdiv t \<le> l" if "w \<in> fst ` set groups" for w
  proof -
    have "lo \<le> w" "w \<le> hi" using assms(3) that by (auto simp: groups_in_def)
    then show ?thesis using assms(4) tp by (simp add: tv sdiv_nonneg zdiv_mono1)
  qed
  have full: "(\<Sum>d\<leftarrow>(if fl \<ge> f then ?pb False f fl else []). body_sum t g d)
      = (\<Sum>v\<leftarrow>[lo..t * (fl + 1) - 1]. g varStmts v) + group_sum g (filter (\<lambda>(w, ss). f \<le> w sdiv t \<and> w sdiv t \<le> fl) groups)"
  proof (cases "f \<le> fl")
    case True
    then show ?thesis using part_bodies_sum [OF assms(2-5) tp True, of False varStmts] tile_sum_full [OF tp ff] lo by simp
  next
    case False
    then have "t * (fl + 1) = lo" using ff lo by (metis antisym not_le zless_imp_add1_zle)
    moreover have e: "filter (\<lambda>(w, ss). f \<le> w sdiv t \<and> w sdiv t \<le> fl) groups = []" using False by (auto simp: filter_empty_conv)
    ultimately show ?thesis using False by simp
  qed
  show ?thesis
  proof (cases part)
    case False
    have "t * (fl + 1) - 1 = hi" using cov(5) False tv(4) by (simp add: tv)
    moreover have "l \<le> fl"
    proof -
      have "hi = t * ((hi + 1) div t - 1) + (t - 1)" using cov(5) False tv(4) by (simp add: right_diff_distrib)
      then have "hi div t = (hi + 1) div t - 1" by (rule int_div_pos_eq) (use tp in auto)
      then show ?thesis by (simp add: tv)
    qed
    then have "filter (\<lambda>(w, ss). f \<le> w sdiv t \<and> w sdiv t \<le> fl) groups = groups"
      using tile by (intro filter_True) fastforce
    ultimately show ?thesis using full False by (simp add: bs)
  next
    case True
    have l: "l = fl + 1" using cov(4) True tv(4) by (simp add: tv)
    have part: "(\<Sum>d\<leftarrow>?pb True l l. body_sum t g d)
        = (\<Sum>v\<leftarrow>[t * l..hi]. g varStmts v) + group_sum g (filter (\<lambda>(w, ss). l \<le> w sdiv t \<and> w sdiv t \<le> l) groups)"
      using part_bodies_sum [OF assms(2-5) tp order_refl, of True l varStmts] by (simp add: part_top_def)
    have G: "group_sum g (filter (\<lambda>(w, ss). f \<le> w sdiv t \<and> w sdiv t \<le> fl) groups)
        + group_sum g (filter (\<lambda>(w, ss). l \<le> w sdiv t \<and> w sdiv t \<le> l) groups) = group_sum g groups"
      by (rule filter_split_sum) (use tile l in force)
    have "lo \<le> t * l" using ff tp lo l by (metis mult_left_mono less_imp_le)
    moreover have "t * l \<le> hi + 1" using cov(3) by (simp add: l tv)
    ultimately have "(\<Sum>v\<leftarrow>[lo..t * l - 1]. g varStmts v) + (\<Sum>v\<leftarrow>[t * l..hi]. g varStmts v) = (\<Sum>v\<leftarrow>[lo..hi]. g varStmts v)"
      using sum_list_upto_split [of lo "t * l - 1" hi "g varStmts"] by simp
    then show ?thesis using full part True G by (simp add: bs l ac_simps)
  qed
qed


section \<open>The pieces can be emitted\<close>

definition stmts_ready :: "nat list \<Rightarrow> emitter \<Rightarrow> nat list \<Rightarrow> bool" where
  "stmts_ready U em S \<longleftrightarrow> distinct S \<and> set S \<subseteq> set U \<and> (\<forall>i \<in> set S. \<not> em_emitted em ! i)"

definition pieces_ready :: "nat list \<Rightarrow> emitter \<Rightarrow> nat list \<Rightarrow> reentry_group list \<Rightarrow> bool" where
  "pieces_ready U em varStmts groups \<longleftrightarrow> stmts_ready U em varStmts \<and> (\<forall>ss \<in> snd ` set groups. stmts_ready U em (varStmts @ ss))"

lemma plain_body_ready:
  "stmts_ready U em S \<Longrightarrow> 0 \<le> lo \<Longrightarrow> lo \<le> hi \<Longrightarrow> body_ready cx r t U em (plain_body lo hi S)"
  by (simp add: body_ready_def body_fits_def plain_body_def stmts_ready_def body_stmts_def)

lemma tile_body_ready:
  assumes "stmts_ready U em S" and "0 \<le> lo" and "lo \<le> hi" and "0 < t" and "t = ti_tileSizes (cg_tiled cx) ! r"
    and "t * hi \<le> INT64_MAX" and "pe < 0 \<Longrightarrow> t * hi + t - 1 \<le> INT64_MAX"
  shows "body_ready cx r t U em (tile_body lo hi pe S)"
  using assms by (simp add: body_ready_def body_fits_def tile_body_def stmts_ready_def body_stmts_def)

lemma plain_bodies_ready:
  assumes "b \<in> set (plain_bodies varStmts hi cur groups)" and "groups_in cur hi groups" and "0 \<le> cur" and "pieces_ready U em varStmts groups"
  shows "body_ready cx r t U em b"
  using assms
proof (induction groups arbitrary: cur)
  case Nil
  then show ?case by (auto simp: pieces_ready_def plain_body_ready split: if_splits)
next
  case (Cons x gs)
  obtain w ss where x: "x = (w, ss)" by fastforce
  note w = groups_in_Cons [OF Cons.prems(2) [unfolded x]]
  have R: "stmts_ready U em varStmts" "stmts_ready U em (varStmts @ ss)" "pieces_ready U em varStmts gs"
    using Cons.prems(4) by (auto simp: pieces_ready_def x)
  from Cons.prems(1) consider "w > cur" "b = plain_body cur (w - 1) varStmts" | "b = plain_body w w (varStmts @ ss)"
    | "b \<in> set (plain_bodies varStmts hi (w + 1) gs)" by (auto simp: x split: if_splits)
  then show ?case
  proof cases
    case 1
    then show ?thesis using R Cons.prems(3) by (simp add: plain_body_ready)
  next
    case 2
    then show ?thesis using R Cons.prems(3) w by (simp add: plain_body_ready)
  next
    case 3
    show ?thesis by (rule Cons.IH [OF 3]) (use R Cons.prems(3) w in auto)
  qed
qed

lemma tile_segs_ready:
  assumes "((x, y), S) \<in> set (tile_segs varStmts tv t pHi cur groups)" and "sorted_wrt (<) (map fst groups)"
    and "\<And>w. w \<in> fst ` set groups \<Longrightarrow> w sdiv t = tv \<Longrightarrow> cur \<le> w \<and> w \<le> pHi" and "0 \<le> cur" and "pieces_ready U em varStmts groups"
  shows "0 \<le> x \<and> x \<le> y \<and> stmts_ready U em S"
  using assms
proof (induction groups arbitrary: cur)
  case Nil
  then show ?case by (auto simp: pieces_ready_def split: if_splits)
next
  case (Cons z gs)
  obtain w ss where z: "z = (w, ss)" by fastforce
  have R: "stmts_ready U em varStmts" "stmts_ready U em (varStmts @ ss)" "pieces_ready U em varStmts gs"
    using Cons.prems(5) by (auto simp: pieces_ready_def z)
  have s: "sorted_wrt (<) (map fst gs)" using Cons.prems(2) by simp
  show ?case
  proof (cases "w sdiv t = tv")
    case False
    have m: "((x, y), S) \<in> set (tile_segs varStmts tv t pHi cur gs)" using Cons.prems(1) False by (simp add: z)
    show ?thesis by (rule Cons.IH [OF m s]) (use R Cons.prems(3,4) in \<open>auto simp: z\<close>)
  next
    case True
    have w: "cur \<le> w" "w \<le> pHi" using Cons.prems(3) [of w] True by (auto simp: z)
    from Cons.prems(1) True consider "w > cur" "x = cur" "y = w - 1" "S = varStmts" | "x = w" "y = w" "S = varStmts @ ss"
      | "((x, y), S) \<in> set (tile_segs varStmts tv t pHi (w + 1) gs)" by (auto simp: z split: if_splits)
    then show ?thesis
    proof cases
      case 3
      have rest: "w + 1 \<le> u \<and> u \<le> pHi" if "u \<in> fst ` set gs" "u sdiv t = tv" for u
        using Cons.prems(2) Cons.prems(3) [of u] that by (fastforce simp: z)
      show ?thesis by (rule Cons.IH [OF 3 s]) (use rest R Cons.prems(4) w in auto)
    qed (use R w Cons.prems(4) in auto)
  qed
qed

lemma tile_segs_nonempty: "list_ex (\<lambda>g. fst g sdiv t = tv) groups \<Longrightarrow> tile_segs varStmts tv t pHi cur groups \<noteq> []"
  by (induction groups arbitrary: cur) (auto split: if_splits)

lemma seg_body_ready:
  assumes "sorted_wrt (<) (map fst groups)" and "tv \<in> (\<lambda>g. fst g sdiv t) ` set groups" and "0 \<le> tv"
    and "\<And>w. w \<in> fst ` set groups \<Longrightarrow> w sdiv t = tv \<Longrightarrow> tv * t \<le> w \<and> w \<le> pHi" and "pieces_ready U em varStmts groups"
    and "0 < t" and "t = ti_tileSizes (cg_tiled cx) ! r"
  shows "body_ready cx r t U em (buildTileSegBody groups varStmts tv t pHi)"
proof -
  let ?segs = "tile_segs varStmts tv t pHi (tv * t) groups"
  have z: "0 \<le> tv * t" using assms(3,6) by (intro mult_nonneg_nonneg) auto
  have ex: "list_ex (\<lambda>g. fst g sdiv t = tv) groups" using assms(2) by (auto simp: list_ex_iff)
  have seg: "0 \<le> x \<and> x \<le> y \<and> stmts_ready U em S" if "((x, y), S) \<in> set ?segs" for x y S
    using that assms(1,4) z assms(5) by (rule tile_segs_ready)
  have "\<forall>S \<in> set (map snd ?segs). stmts_ready U em S" using seg by auto
  then have "set (concat (map snd ?segs)) \<subseteq> set U \<and> (\<forall>i \<in> set (concat (map snd ?segs)). \<not> em_emitted em ! i)"
    by (fastforce simp: stmts_ready_def)
  moreover have "\<forall>((x, y), S) \<in> set ?segs. 0 \<le> x \<and> x \<le> y \<and> distinct S" using seg by (auto simp: stmts_ready_def)
  ultimately show ?thesis using tile_segs_nonempty [OF ex] assms(3,6,7)
    unfolding body_ready_def body_fits_def body_stmts_def buildTileSegBody_def by simp
qed

lemma cut_tiles_ready:
  assumes "d \<in> set (cut_tiles groups varStmts t hi isPartial b cur tvs)" and "sorted_wrt (<) (map fst groups)"
    and "\<And>w. w \<in> fst ` set groups \<Longrightarrow> w sdiv t \<in> set tvs \<Longrightarrow> t * (w sdiv t) \<le> w \<and> w \<le> part_top t hi isPartial b (w sdiv t)"
    and "sorted_wrt (<) tvs" and "\<And>tv. tv \<in> set tvs \<Longrightarrow> cur \<le> tv \<and> tv \<le> b" and "set tvs \<subseteq> (\<lambda>g. fst g sdiv t) ` set groups"
    and "0 \<le> cur" and "0 \<le> hi" and "pieces_ready U em varStmts groups" and "0 < t" and "t = ti_tileSizes (cg_tiled cx) ! r"
    and "t * b \<le> INT64_MAX" and "\<not> isPartial \<Longrightarrow> t * b + t - 1 \<le> INT64_MAX"
  shows "body_ready cx r t U em d"
  using assms(1,3-7)
proof (induction tvs arbitrary: cur)
  case Nil
  then show ?case using assms(8-13) by (auto simp: pieces_ready_def intro!: tile_body_ready split: if_splits)
next
  case (Cons tv tvs)
  let ?pHi = "if isPartial \<and> tv = b then hi else tv * t + t - 1"
  have c: "cur \<le> tv" "tv \<le> b" using Cons.prems(4) [of tv] by auto
  have tb: "t * tv \<le> t * b" using c(2) assms(10) by simp
  from Cons.prems(1) consider "tv > cur" "d = tile_body cur (tv - 1) (-1) varStmts" | "d = buildTileSegBody groups varStmts tv t ?pHi"
    | "d \<in> set (cut_tiles groups varStmts t hi isPartial b (tv + 1) tvs)" by (auto split: if_splits)
  then show ?case
  proof cases
    case 1
    have "stmts_ready U em varStmts" using assms(9) by (simp add: pieces_ready_def)
    moreover have "t * (tv - 1) = t * tv - t" by (simp add: right_diff_distrib)
    then have "t * (tv - 1) + t - 1 \<le> INT64_MAX" "t * (tv - 1) \<le> INT64_MAX"
      using order_trans [OF tb assms(12)] assms(10) by linarith+
    ultimately show ?thesis using 1 Cons.prems(6) assms(10,11) by (simp add: tile_body_ready)
  next
    case 2
    have "tv * t \<le> w \<and> w \<le> ?pHi" if "w \<in> fst ` set groups" "w sdiv t = tv" for w
      using Cons.prems(2) [OF that(1)] that(2) by (auto simp: part_top_def mult.commute split: if_splits)
    moreover have "0 \<le> tv" "tv \<in> (\<lambda>g. fst g sdiv t) ` set groups" using Cons.prems(5,6) c by auto
    ultimately show ?thesis unfolding 2 using seg_body_ready [OF assms(2) _ _ _ assms(9-11)] by blast
  next
    case 3
    show ?thesis
    proof (rule Cons.IH [OF 3])
      show "t * (w sdiv t) \<le> w \<and> w \<le> part_top t hi isPartial b (w sdiv t)" if "w \<in> fst ` set groups" "w sdiv t \<in> set tvs" for w
        using Cons.prems(2) [OF that(1)] that(2) by simp
      show "sorted_wrt (<) tvs" using Cons.prems(3) by simp
      show "tv + 1 \<le> u \<and> u \<le> b" if u: "u \<in> set tvs" for u
      proof -
        have "tv < u" using Cons.prems(3) u by simp
        then show ?thesis using Cons.prems(4) [of u] u by simp
      qed
      show "set tvs \<subseteq> (\<lambda>g. fst g sdiv t) ` set groups" using Cons.prems(5) by simp
      show "0 \<le> tv + 1" using Cons.prems(6) c by simp
    qed
  qed
qed


lemma part_bodies_ready:
  assumes "d \<in> set (part_bodies groups varStmts t hi isPartial a b)" and "groups_in lo hi groups" and "0 \<le> lo" and "lo \<le> hi"
    and "pieces_ready U em varStmts groups" and "0 < t" and "t = ti_tileSizes (cg_tiled cx) ! r" and "0 \<le> a" and "a \<le> b"
    and "t * b \<le> INT64_MAX" and "\<not> isPartial \<Longrightarrow> t * b + t - 1 \<le> INT64_MAX"
  shows "body_ready cx r t U em d"
proof -
  let ?tvs = "remdups_adj (filter (\<lambda>tv. tv \<ge> a \<and> tv \<le> b) (map (\<lambda>g. fst g sdiv t) groups))"
  have st: "sorted_wrt (<) ?tvs" by (rule remdups_adj_strict) (intro sorted_wrt_filter groups_tile_sorted [OF assms(2,3,6)])
  have hi: "0 \<le> hi" using assms(3,4) by simp
  show ?thesis
  proof (cases "?tvs = []")
    case True
    then have "d = tile_body a b (if isPartial then hi else -1) varStmts" using assms(1) by (simp add: part_bodies_def Let_def)
    then show ?thesis using assms hi by (auto simp: pieces_ready_def intro!: tile_body_ready split: if_splits)
  next
    case False
    then have d: "d \<in> set (cut_tiles groups varStmts t hi isPartial b a ?tvs)" using assms(1) by (simp add: part_bodies_def Let_def)
    have s: "sorted_wrt (<) (map fst groups)" using assms(2) by (simp add: groups_in_def)
    show ?thesis
      by (rule cut_tiles_ready [OF d s tile_bounds [OF assms(2,3,6)] st _ _ assms(8) hi assms(5-7,10,11)]) auto
  qed
qed

lemma split_bodies_ready:
  assumes "split_bodies cx varStmts lo hi r groups = Inr (Some bs)" and "d \<in> set bs" and "groups_in lo hi groups"
    and "0 \<le> lo" and "lo \<le> hi" and "tiles_ok cx" and "t = ti_tileSizes (cg_tiled cx) ! r" and "pieces_ready U em varStmts groups"
  shows "body_ready cx r t U em d"
proof (cases "tiled_here cx r")
  case False
  then have "d \<in> set (plain_bodies varStmts hi lo groups)" using assms(1,2) by (simp add: split_bodies_def)
  then show ?thesis using assms(3,4,8) by (rule plain_bodies_ready)
next
  case True
  let ?pb = "part_bodies groups varStmts t hi"
  from assms(1) True assms(7) obtain f l fl part where tl: "r < length (ti_tileSizes (cg_tiled cx))"
    and tr: "tile_range lo hi t = Inr (f, l, fl, part)"
    and bs: "bs = (if fl \<ge> f then ?pb False f fl else []) @ (if part then ?pb True l l else [])"
    and al: "lo smod t = 0"
    by (auto simp: split_bodies_def mlk_try_Inr_iff vec_at_Inr split: if_splits)
  have tp: "0 < t" using tl assms(6,7) by (auto simp: tiles_ok_def list_all_length)
  note tv = tile_range_values [OF tr assms(4,5) tp]
  have lm: "lo mod t = 0" using al sdiv_nonneg [OF assms(4) tp] by simp
  note cov = tile_cover [OF tp lm assms(5)]
  have mx: "hi + 1 \<le> INT64_MAX" using tv(5) by (simp add: i64_defs)
  have f0: "0 \<le> f" using assms(4) tp by (simp add: tv pos_imp_zdiv_nonneg_iff)
  from assms(2) consider "f \<le> fl" "d \<in> set (?pb False f fl)" | "part" "d \<in> set (?pb True l l)" by (auto simp: bs split: if_splits)
  then show ?thesis
  proof cases
    case 1
    have "t * (fl + 1) \<le> hi + 1" using cov(3) by (simp add: tv)
    then have "t * fl + t - 1 \<le> INT64_MAX" "t * fl \<le> INT64_MAX" using mx tp by (simp_all add: algebra_simps)
    with part_bodies_ready [OF 1(2) assms(3-5,8) tp assms(7) f0 1(1)] show ?thesis by simp
  next
    case 2
    have "l = fl + 1" using cov(4) 2(1) tv(4) by (simp add: tv)
    moreover have "t * (fl + 1) \<le> hi + 1" "f \<le> fl + 1" using cov(1,3) by (simp_all add: tv)
    ultimately have "t * l \<le> INT64_MAX" "0 \<le> l" using mx f0 by simp_all
    with part_bodies_ready [OF 2(2) assms(3-5,8) tp assms(7) _ order_refl] show ?thesis by simp
  qed
qed

text \<open>Every statement of the split is in a piece.\<close>

lemma body_sum_none:
  assumes "\<And>S v. set S \<subseteq> set (body_stmts b) \<Longrightarrow> g S v = {#}"
  shows "body_sum t g b = {#}"
proof -
  have z: "(\<Sum>x\<leftarrow>xs. {#}) = ({#} :: event multiset)" for xs :: "'b list" by simp
  have "body_sum t g b = body_sum t (\<lambda>S v. {#}) b" by (rule body_sum_cong) (rule assms)
  also have "\<dots> = {#}" by (simp add: body_sum_def z case_prod_unfold)
  finally show ?thesis .
qed


lemma sum_nonempty: "x \<in> set xs \<Longrightarrow> f x \<noteq> {#} \<Longrightarrow> (\<Sum>x\<leftarrow>xs. f x) \<noteq> ({#} :: event multiset)"
  by (induction xs) auto

lemma split_bodies_cover:
  assumes "split_bodies cx varStmts lo hi r (reentry_groups reentry) = Inr (Some bs)" and "groups_in lo hi (reentry_groups reentry)"
    and "0 \<le> lo" and "lo \<le> hi" and "tiles_ok cx" and "i \<in> set (varStmts @ map snd reentry)"
  shows "i \<in> (\<Union>b \<in> set bs. set (body_stmts b))"
proof (rule ccontr)
  assume n: "i \<notin> (\<Union>b \<in> set bs. set (body_stmts b))"
  define g :: "nat list \<Rightarrow> int \<Rightarrow> event multiset" where "g = (\<lambda>S v. replicate_mset (count (mset S) i) undefined)"
  have add: "additive g"
  proof -
    have "replicate_mset (a + b) x = replicate_mset a x + replicate_mset b x" for a b and x :: event
      by (rule multiset_eqI) simp
    then show ?thesis by (simp add: additive_def g_def)
  qed
  have "body_sum (ti_tileSizes (cg_tiled cx) ! r) g b = {#}" if "b \<in> set bs" for b
  proof (rule body_sum_none)
    fix S v assume "set S \<subseteq> set (body_stmts b)"
    then have "i \<notin> set S" using n that by auto
    then show "g S v = {#}" by (simp add: g_def count_mset_0_iff)
  qed
  then have "(\<Sum>b\<leftarrow>bs. body_sum (ti_tileSizes (cg_tiled cx) ! r) g b) = {#}" by (induction bs) auto
  then have z: "(\<Sum>v\<leftarrow>[lo..hi]. g varStmts v) + group_sum g (reentry_groups reentry) = {#}"
    using split_bodies_sum [OF assms(1) add assms(2-5) refl] by simp
  have mem: "g S v \<noteq> {#}" if "i \<in> set S" for S v using that by (simp add: g_def count_mset_0_iff)
  from assms(6) consider "i \<in> set varStmts" | v where "(v, i) \<in> set reentry" by auto
  then show False
  proof cases
    case 1
    then have "(\<Sum>v\<leftarrow>[lo..hi]. g varStmts v) \<noteq> {#}" using assms(4) by (intro sum_nonempty [of lo] mem) auto
    with z show False by simp
  next
    case (2 v)
    have "(\<Sum>(v, s)\<leftarrow>reentry. g [s] v) \<noteq> {#}" using sum_nonempty [OF 2, of "\<lambda>(v, s). g [s] v"] mem by simp
    with z show False by (simp add: reentry_groups_sum [OF add])
  qed
qed

section \<open>The split loop\<close>

text \<open>The statements of a loop at row \<open>r\<close>: varying ones over the range, re-entering ones at a value of it.\<close>

definition loop_ready :: "codegen_input \<Rightarrow> nat \<Rightarrow> nat \<Rightarrow> int \<Rightarrow> int \<Rightarrow> nat list \<Rightarrow> (int \<times> nat) list \<Rightarrow> emitter \<Rightarrow> bool" where
  "loop_ready cx r p lo hi varStmts reentry em \<longleftrightarrow>
     (let ss = scop_statements (cg_scop cx); U = varStmts @ map snd reentry in
      em_ok cx r U em \<and> (\<forall>i \<in> set U. \<not> em_emitted em ! i) \<and> 0 \<le> lo \<and> lo \<le> hi
      \<and> (\<forall>i \<in> set varStmts. dimPinnedAt (ss ! i) p = None \<and> st_ownLower (ss ! i) ! p = lo \<and> st_ownUpper (ss ! i) ! p = hi)
      \<and> (\<forall>(v, i) \<in> set reentry. dimPinnedAt (ss ! i) p = Some v \<and> lo \<le> v \<and> v \<le> hi))"

lemma below_additive: "additive (\<lambda>S v. below cx r p S em vars v)"
  by (simp add: additive_def below_def)

lemma varying_sum:
  assumes "em_ok cx r U em" and "nest_ok cx" and "r < length (ps_pivotDim (cg_sched cx))" and "p = ps_pivotDim (cg_sched cx) ! r"
    and "vars_ok (em_stack em) vars" and "set S \<subseteq> set U"
    and "\<And>i. i \<in> set S \<Longrightarrow> dimPinnedAt (scop_statements (cg_scop cx) ! i) p = None
      \<and> st_ownLower (scop_statements (cg_scop cx) ! i) ! p = lo \<and> st_ownUpper (scop_statements (cg_scop cx) ! i) ! p = hi"
  shows "(\<Sum>v\<leftarrow>[lo..hi]. below cx r p S em vars v) = level_events cx r S (em_stack em) vars (em_guards em)"
  using assms(6,7)
proof (induction S)
  case Nil
  have "(\<Sum>v\<leftarrow>vs. {#}) = ({#} :: event multiset)" for vs :: "int list" by simp
  then show ?case by (simp add: below_def)
next
  case (Cons i S)
  have "(\<Sum>v\<leftarrow>[lo..hi]. events_at cx (Suc r) (em_stack em @ [int p]) (vars @ [v]) (em_guards em) i)
      = events_at cx r (em_stack em) vars (em_guards em) i"
    by (rule events_varying [OF assms(1-5)]) (use Cons.prems in auto)
  then show ?case using Cons by (simp add: below_def sum_list_addf)
qed

lemma reentry_sum:
  assumes "em_ok cx r U em" and "nest_ok cx" and "r < length (ps_pivotDim (cg_sched cx))" and "p = ps_pivotDim (cg_sched cx) ! r"
    and "vars_ok (em_stack em) vars" and "snd ` set reentry \<subseteq> set U"
    and "\<And>v i. (v, i) \<in> set reentry \<Longrightarrow> dimPinnedAt (scop_statements (cg_scop cx) ! i) p = Some v"
  shows "(\<Sum>(v, i)\<leftarrow>reentry. below cx r p [i] em vars v) = level_events cx r (map snd reentry) (em_stack em) vars (em_guards em)"
  using assms(6,7)
proof (induction reentry)
  case (Cons x xs)
  obtain v i where x: "x = (v, i)" by fastforce
  have "events_at cx (Suc r) (em_stack em @ [int p]) (vars @ [v]) (em_guards em) i = events_at cx r (em_stack em) vars (em_guards em) i"
    by (rule events_pinned [OF assms(1-5)]) (use Cons.prems in \<open>auto simp: x\<close>)
  then show ?case using Cons by (simp add: x below_def)
qed simp


lemma push_guards_length [simp]: "length (push_guards p reentry gss) = length gss"
  unfolding push_guards_def by (induction reentry arbitrary: gss) auto

lemma push_guards_other: "i \<notin> snd ` set reentry \<Longrightarrow> push_guards p reentry gss ! i = gss ! i"
  unfolding push_guards_def by (induction reentry arbitrary: gss) auto

lemma push_guards_Cons: "push_guards p ((v, i) # xs) gss = push_guards p xs (gss[i := gss ! i @ [(p, v)]])"
  by (simp add: push_guards_def)

lemma push_guards_nth:
  "distinct (map snd reentry) \<Longrightarrow> (v, i) \<in> set reentry \<Longrightarrow> i < length gss \<Longrightarrow> push_guards p reentry gss ! i = gss ! i @ [(p, v)]"
proof (induction reentry arbitrary: gss)
  case (Cons x xs)
  obtain w j where x: "x = (w, j)" by fastforce
  show ?case
  proof (cases "(v, i) = (w, j)")
    case True
    then have "i \<notin> snd ` set xs" using Cons.prems(1) by (auto simp: x)
    then show ?thesis using True Cons.prems(3) by (simp add: x push_guards_Cons push_guards_other)
  next
    case False
    then have "(v, i) \<in> set xs" using Cons.prems(2) by (auto simp: x)
    moreover from this have "i \<noteq> j" using Cons.prems(1) by (force simp: x)
    ultimately show ?thesis using Cons.IH [of "gss[j := gss ! j @ [(p, w)]]"] Cons.prems by (simp add: x push_guards_Cons)
  qed
qed simp

lemma emitSplitNest_sticky:
  assumes "emitSplitNest cx rec varStmts p lo hi r reentry em = Inr em'" and "level_spec cx r' rec" and "em_failed em"
  shows "em_failed em'"
proof -
  have f: "em_failed (em\<lparr>em_guards := G\<rparr>)" "em_failed (em\<lparr>em_copyBudget := c\<rparr>)" for G c using assms(3) by simp_all
  show ?thesis
    using assms(1) emitLoop_sticky [OF _ assms(2) f(1)] emit_bodies_sticky [OF _ assms(2) f(2)]
    by (auto simp: emitSplitNest_def mlk_try_Inr_iff Let_def em_fail_def split: option.splits if_splits)
qed

lemma em_open_guards:
  assumes "em_open cx r S em" and "\<And>i d v. i \<in> set S \<Longrightarrow> (d, v) \<in> set (G ! i) \<Longrightarrow> 0 \<le> v \<and> (int d \<in> set (em_stack em) \<or> d = ps_pivotDim (cg_sched cx) ! r)"
    and "length G = length (em_guards em)"
  shows "em_open cx r S (em\<lparr>em_guards := G\<rparr>)"
proof -
  let ?st = "em_stack em @ [int (ps_pivotDim (cg_sched cx) ! r)]"
  have "\<forall>i \<in> set S. \<forall>(d, v) \<in> set (G ! i). 0 \<le> v \<and> int d \<in> set ?st" using assms(2) by fastforce
  with assms(1,3) show ?thesis by (simp add: em_open_def em_ok_def)
qed

text \<open>The fallback: one loop over all statements, the re-entering ones under guards.\<close>

lemma guarded_loop_effect:
  assumes "emitLoop cx rec (varStmts @ map snd reentry) p lo hi r (em\<lparr>em_guards := push_guards p reentry (em_guards em)\<rparr>) = Inr em'"
    and "\<not> em_failed em'" and "level_spec cx (Suc r) rec" and "nest_ok cx" and "r < length (ps_pivotDim (cg_sched cx))"
    and "p = ps_pivotDim (cg_sched cx) ! r" and "tiles_ok cx" and "loop_ready cx r p lo hi varStmts reentry em"
  shows "effect (set (varStmts @ map snd reentry)) em em'
    (\<lambda>vars. level_events cx r (varStmts @ map snd reentry) (em_stack em) vars (em_guards em))"
proof -
  let ?U = "varStmts @ map snd reentry" and ?em = "em\<lparr>em_guards := push_guards p reentry (em_guards em)\<rparr>"
  have ok: "em_ok cx r ?U em" and ne: "\<And>i. i \<in> set ?U \<Longrightarrow> \<not> em_emitted em ! i" and lh: "0 \<le> lo" "lo \<le> hi"
    and vs: "\<And>i. i \<in> set varStmts \<Longrightarrow> dimPinnedAt (scop_statements (cg_scop cx) ! i) p = None
      \<and> st_ownLower (scop_statements (cg_scop cx) ! i) ! p = lo \<and> st_ownUpper (scop_statements (cg_scop cx) ! i) ! p = hi"
    and re: "\<And>v i. (v, i) \<in> set reentry \<Longrightarrow> dimPinnedAt (scop_statements (cg_scop cx) ! i) p = Some v \<and> lo \<le> v \<and> v \<le> hi"
    using assms(8) unfolding loop_ready_def Let_def by blast+
  have d: "distinct ?U" and len: "\<And>i. i \<in> set ?U \<Longrightarrow> i < length (em_guards em)" using ok by (auto simp: em_ok_def)
  have dr: "distinct (map snd reentry)" using d by simp
  have gn: "em_guards ?em ! i = em_guards em ! i @ [(p, v)]" if "(v, i) \<in> set reentry" for v i
    using push_guards_nth [OF dr that] len [of i] that by force
  have go: "em_guards ?em ! i = em_guards em ! i" if "i \<notin> snd ` set reentry" for i
    using that by (simp add: push_guards_other)
  have pv: "em_open cx r ?U em" by (rule em_ok_pivot [OF ok assms(4,5)])
  have op: "em_open cx r ?U ?em"
  proof (rule em_open_guards [OF pv])
    fix i x w assume i: "i \<in> set ?U" and x: "(x, w) \<in> set (push_guards p reentry (em_guards em) ! i)"
    show "0 \<le> w \<and> (int x \<in> set (em_stack em) \<or> x = ps_pivotDim (cg_sched cx) ! r)"
    proof (cases "(x, w) \<in> set (em_guards em ! i)")
      case True
      then show ?thesis using ok i unfolding em_ok_def by blast
    next
      case False
      with x go obtain v where v: "(v, i) \<in> set reentry" by fastforce
      with x False have "(x, w) = (p, v)" using gn [OF v] by simp
      then show ?thesis using re [OF v] lh assms(6) by simp
    qed
  qed simp
  have al: "alive ?U ?em = ?U" by (rule alive_all) (use ne in simp)
  have E: "effect (set ?U) ?em em' (\<lambda>vars. \<Sum>v\<leftarrow>[lo..hi]. below cx r p ?U ?em vars v)"
    using emitLoop_effect [OF assms(1-3) op assms(4-7) lh] by (simp only: al)
  have M: "(\<Sum>v\<leftarrow>[lo..hi]. below cx r p ?U ?em vars v) = level_events cx r ?U (em_stack em) vars (em_guards em)"
    if vars: "vars_ok (em_stack em) vars" for vars
  proof -
    have nv: "i \<notin> snd ` set reentry" if "i \<in> set varStmts" for i using d that by auto
    have "below cx r p varStmts ?em vars v = below cx r p varStmts em vars v" for v
      unfolding below_def by (simp, rule level_events_cong) (simp add: push_guards_other nv)
    then have V: "(\<Sum>v\<leftarrow>[lo..hi]. below cx r p varStmts ?em vars v) = level_events cx r varStmts (em_stack em) vars (em_guards em)"
      using varying_sum [OF ok assms(4-6) vars _ vs] by simp
    have R: "(\<Sum>v\<leftarrow>[lo..hi]. below cx r p (map snd xs) ?em vars v) = level_events cx r (map snd xs) (em_stack em) vars (em_guards em)"
      if "set xs \<subseteq> set reentry" for xs
      using that
    proof (induction xs)
      case Nil
      have "(\<Sum>v\<leftarrow>vs. {#}) = ({#} :: event multiset)" for vs :: "int list" by simp
      then show ?case by (simp add: below_def)
    next
      case (Cons x xs)
      obtain v i where x: "x = (v, i)" by fastforce
      have vi: "(v, i) \<in> set reentry" using Cons.prems by (simp add: x)
      have "(\<Sum>u\<leftarrow>[lo..hi]. events_at cx (Suc r) (em_stack em @ [int p]) (vars @ [u]) (em_guards ?em) i)
          = events_at cx r (em_stack em) vars (em_guards em) i"
        by (rule events_guarded [OF ok assms(4-6) vars]) (use vi re [OF vi] gn [OF vi] in \<open>force+\<close>)
      then show ?case using Cons by (simp add: x below_def sum_list_addf)
    qed
    show ?thesis using V R [OF order_refl] below_additive [of cx r p ?em vars] by (simp add: additive_def sum_list_addf)
  qed
  have "emits em em' (\<lambda>vars. \<Sum>v\<leftarrow>[lo..hi]. below cx r p ?U ?em vars v)" using E by (simp add: effect_def emits_def)
  then have "emits em em' (\<lambda>vars. level_events cx r ?U (em_stack em) vars (em_guards em))" by (rule emits_cong) (rule M)
  moreover have "marks_after (set ?U) em em'" using E go by (auto simp: effect_def marks_after_def)
  ultimately show ?thesis by (simp add: effect_def)
qed


lemma emitSplitNest_effect:
  assumes "emitSplitNest cx rec varStmts p lo hi r reentry em = Inr em'"
    and "\<not> em_failed em'" and "level_spec cx (Suc r) rec" and "nest_ok cx" and "r < length (ps_pivotDim (cg_sched cx))"
    and "p = ps_pivotDim (cg_sched cx) ! r" and "tiles_ok cx" and "loop_ready cx r p lo hi varStmts reentry em"
  shows "effect (set (varStmts @ map snd reentry)) em em'
    (\<lambda>vars. level_events cx r (varStmts @ map snd reentry) (em_stack em) vars (em_guards em))"
proof -
  let ?U = "varStmts @ map snd reentry" and ?gr = "reentry_groups reentry" and ?t = "ti_tileSizes (cg_tiled cx) ! r"
  have ok: "em_ok cx r ?U em" and ne: "\<And>i. i \<in> set ?U \<Longrightarrow> \<not> em_emitted em ! i" and lh: "0 \<le> lo" "lo \<le> hi"
    and vs: "\<And>i. i \<in> set varStmts \<Longrightarrow> dimPinnedAt (scop_statements (cg_scop cx) ! i) p = None
      \<and> st_ownLower (scop_statements (cg_scop cx) ! i) ! p = lo \<and> st_ownUpper (scop_statements (cg_scop cx) ! i) ! p = hi"
    and re: "\<And>v i. (v, i) \<in> set reentry \<Longrightarrow> dimPinnedAt (scop_statements (cg_scop cx) ! i) p = Some v \<and> lo \<le> v \<and> v \<le> hi"
    using assms(8) unfolding loop_ready_def Let_def by blast+
  have d: "distinct ?U" using ok by (simp add: em_ok_def)
  have gi: "groups_in lo hi ?gr" by (rule reentry_groups_in) (use re in blast)
  have pr: "pieces_ready ?U em varStmts ?gr"
  proof -
    have "distinct (varStmts @ map snd (filter (\<lambda>item. fst item = v) reentry))" for v
    proof -
      have "distinct (map snd (filter Q reentry))" for Q using d by (simp add: distinct_map_filter)
      then show ?thesis using d by auto
    qed
    then show ?thesis using ne d by (auto simp: pieces_ready_def stmts_ready_def reentry_groups_def)
  qed
  from assms(1,2) obtain bs where bs: "split_bodies cx varStmts lo hi r ?gr = Inr (Some bs)"
    and k: "(if int (length bs) > 1 \<and> em_copyBudget em * int (length bs) > kPolyMaxCodegenCopies
       then emitLoop cx rec ?U p lo hi r (em\<lparr>em_guards := push_guards p reentry (em_guards em)\<rparr>)
       else emit_bodies cx rec p r (em_emitted em) (em_guards em) True bs (em\<lparr>em_copyBudget := em_copyBudget em * int (length bs)\<rparr>)) = Inr em'"
    by (auto simp: emitSplitNest_def mlk_try_Inr_iff Let_def em_fail_def split: option.splits)
  show ?thesis
  proof (cases "int (length bs) > 1 \<and> em_copyBudget em * int (length bs) > kPolyMaxCodegenCopies")
    case True
    have "emitLoop cx rec ?U p lo hi r (em\<lparr>em_guards := push_guards p reentry (em_guards em)\<rparr>) = Inr em'"
      using k unfolding if_P [OF True] .
    then show ?thesis using assms(2-8) by (rule guarded_loop_effect)
  next
    case False
    let ?em = "em\<lparr>em_copyBudget := em_copyBudget em * int (length bs)\<rparr>"
    have e: "emit_bodies cx rec p r (em_emitted ?em) (em_guards ?em) True bs ?em = Inr em'" using k unfolding if_not_P [OF False] by simp
    have ok': "em_ok cx r ?U ?em" using ok by (simp add: em_ok_def)
    have snap: "from_snap True {} ?em ?em" by (simp add: from_snap_def marks_after_def)
    have rd: "body_ready cx r ?t ?U ?em b" if "b \<in> set bs" for b
      using split_bodies_ready [OF bs that gi lh assms(7) refl pr] by (simp add: body_ready_def body_fits_def)
    from emit_bodies_effect [OF e assms(2,3) ok' assms(4-6) snap rd] obtain f
      where E: "emits ?em em' (\<lambda>vars. \<Sum>b\<leftarrow>bs. body_sum ?t (\<lambda>S v. below cx r p S ?em vars v) b)"
        and F: "from_snap f ({} \<union> (\<Union>b \<in> set bs. set (body_stmts b))) ?em em'" by blast
    have U: "(\<Union>b \<in> set bs. set (body_stmts b)) = set ?U"
    proof
      show "(\<Union>b \<in> set bs. set (body_stmts b)) \<subseteq> set ?U" using rd by (auto simp: body_ready_def body_fits_def)
      show "set ?U \<subseteq> (\<Union>b \<in> set bs. set (body_stmts b))"
        using split_bodies_cover [OF bs gi lh assms(7)] by blast
    qed
    have m: "marks_after (set ?U) ?em em'" using F unfolding U by (simp add: from_snap_def)
    have "emits ?em em' (\<lambda>vars. level_events cx r ?U (em_stack ?em) vars (em_guards ?em))"
    proof (rule emits_cong [OF E])
      fix vars assume "vars_ok (em_stack ?em) vars"
      then have vars: "vars_ok (em_stack em) vars" by simp
      have b: "below cx r p S ?em vars v = below cx r p S em vars v" for S v by (simp add: below_def)
      have "(\<Sum>b\<leftarrow>bs. body_sum ?t (\<lambda>S v. below cx r p S em vars v) b)
          = (\<Sum>v\<leftarrow>[lo..hi]. below cx r p varStmts em vars v) + group_sum (\<lambda>S v. below cx r p S em vars v) ?gr"
        by (rule split_bodies_sum [OF bs below_additive gi lh assms(7) refl])
      also have "\<dots> = level_events cx r varStmts (em_stack em) vars (em_guards em)
          + level_events cx r (map snd reentry) (em_stack em) vars (em_guards em)"
        unfolding reentry_groups_sum [OF below_additive]
        using varying_sum [OF ok assms(4-6) vars _ vs] reentry_sum [OF ok assms(4-6) vars, of reentry] re by simp
      finally show "(\<Sum>b\<leftarrow>bs. body_sum ?t (\<lambda>S v. below cx r p S ?em vars v) b)
          = level_events cx r ?U (em_stack ?em) vars (em_guards ?em)" by (simp add: b)
    qed
    with m have "effect (set ?U) ?em em' (\<lambda>vars. level_events cx r ?U (em_stack ?em) vars (em_guards ?em))" by (simp add: effect_def)
    from effect_core [OF _ this, of em] show ?thesis by (simp add: same_core_def)
  qed
qed


section \<open>Levels\<close>

lemma classify_mset: "classify cx row p S = Inr (Some (items, varStmts)) \<Longrightarrow> mset (map snd items) + mset varStmts = mset S"
  by (induction S arbitrary: items varStmts) (auto simp: mlk_try_Inr_iff split: option.splits if_splits)

lemma classify_kinds:
  assumes "classify cx row p S = Inr (Some (items, varStmts))"
  shows "\<And>v i. (v, i) \<in> set items \<Longrightarrow> rowEffectiveConst (scop_statements (cg_scop cx) ! i) row = Inr (Some v)"
    and "\<And>i. i \<in> set varStmts \<Longrightarrow> rowEffectiveConst (scop_statements (cg_scop cx) ! i) row = Inr None"
proof -
  have "(\<forall>(v, i) \<in> set items. rowEffectiveConst (scop_statements (cg_scop cx) ! i) row = Inr (Some v))
      \<and> (\<forall>i \<in> set varStmts. rowEffectiveConst (scop_statements (cg_scop cx) ! i) row = Inr None)"
    using assms
  proof (induction S arbitrary: items varStmts)
    case (Cons i S)
    then show ?case by (fastforce simp: mlk_try_Inr_iff vec_at_Inr split: option.splits if_splits)
  qed simp
  then show "\<And>v i. (v, i) \<in> set items \<Longrightarrow> rowEffectiveConst (scop_statements (cg_scop cx) ! i) row = Inr (Some v)"
    "\<And>i. i \<in> set varStmts \<Longrightarrow> rowEffectiveConst (scop_statements (cg_scop cx) ! i) row = Inr None" by blast+
qed

lemma place_items_parts:
  assumes "place_items cx r lo hi items = Inr (bef, reentry, aft)"
  shows "mset items = mset bef + mset reentry + mset aft" and "\<forall>(v, i) \<in> set reentry. lo \<le> v \<and> v \<le> hi"
proof -
  have "mset items = mset bef + mset reentry + mset aft \<and> (\<forall>(v, i) \<in> set reentry. lo \<le> v \<and> v \<le> hi)"
    using assms
  proof (induction items arbitrary: bef reentry aft)
    case (Cons x xs)
    obtain v i where x: "x = (v, i)" by fastforce
    from Cons.prems obtain h b r' a where k: "place_items cx r lo hi xs = Inr (b, r', a)"
      and e: "(if v < lo then ((v, i) # b, r', a) else if v > hi then (b, r', (v, i) # a)
            else if h then ((v, i) # b, r', a) else (b, (v, i) # r', a)) = (bef, reentry, aft)"
      by (auto simp: x mlk_try_Inr_iff)
    from Cons.IH [OF k] e show ?case by (auto simp: x split: if_splits)
  qed simp
  then show "mset items = mset bef + mset reentry + mset aft" "\<forall>(v, i) \<in> set reentry. lo \<le> v \<and> v \<le> hi" by blast+
qed

lemma common_range_values:
  assumes "common_range cx p S l h = Some (lo, hi)"
    and "\<And>i. i \<in> set S \<Longrightarrow> st_ownLower (scop_statements (cg_scop cx) ! i) ! p = a \<and> st_ownUpper (scop_statements (cg_scop cx) ! i) ! p = b"
  shows "lo = (if S \<noteq> [] \<and> a > l then a else l) \<and> hi = (if S \<noteq> [] \<and> b < h then b else h)"
  using assms
proof (induction S arbitrary: l h)
  case (Cons i S)
  have k: "common_range cx p S (if a > l then a else l) (if b < h then b else h) = Some (lo, hi)"
    using Cons.prems(1) Cons.prems(2) [of i] by (auto simp: Let_def split: if_splits)
  show ?case using Cons.IH [OF k] Cons.prems(2) by auto
qed simp

lemma common_range_length:
  "common_range cx p S l h = Some (lo, hi) \<Longrightarrow> i \<in> set S \<Longrightarrow> p < length (st_ownLower (scop_statements (cg_scop cx) ! i))"
  by (induction S arbitrary: l h) (auto simp: Let_def split: if_splits)

lemma row_fitsD:
  assumes "row_fits cx r s" and "p = ps_pivotDim (cg_sched cx) ! r"
  shows "rowEffectiveConst s (ps_rows (cg_sched cx) ! r) = Inr None \<Longrightarrow> dimPinnedAt s p = None"
    and "rowEffectiveConst s (ps_rows (cg_sched cx) ! r) = Inr (Some v) \<Longrightarrow> dimPinnedAt s p = Some v \<and> pinned_from cx (Suc r) s"
  using assms by (auto simp: row_fits_def Let_def)

lemma pinned_from_row:
  "r < length (ps_pivotDim (cg_sched cx)) \<Longrightarrow> dimPinnedAt s (ps_pivotDim (cg_sched cx) ! r) = Some v \<Longrightarrow> pinned_from cx (Suc r) s \<Longrightarrow> pinned_from cx r s"
  by (simp add: pinned_from_def Cons_nth_drop_Suc [symmetric])

lemma effect_state:
  assumes "effect S em em1 M"
  shows "em_stack em1 = em_stack em" and "\<And>i. i \<notin> S \<Longrightarrow> em_guards em1 ! i = em_guards em ! i"
    and "\<And>i. i < length (em_emitted em) \<Longrightarrow> i \<notin> S \<Longrightarrow> em_emitted em1 ! i = em_emitted em ! i"
  using assms by (auto simp: effect_def emits_def marks_after_def)

text \<open>A step on some of the statements, and then one on others.\<close>

lemma effect_chain:
  assumes "effect (set A) em em1 (\<lambda>vars. level_events cx r A (em_stack em) vars (em_guards em))"
    and "effect (set B) em1 em' (\<lambda>vars. level_events cx r B (em_stack em1) vars (em_guards em1))"
    and "set A \<inter> set B = {}"
  shows "effect (set (A @ B)) em em' (\<lambda>vars. level_events cx r (A @ B) (em_stack em) vars (em_guards em))"
proof -
  have "level_events cx r B (em_stack em1) vars (em_guards em1) = level_events cx r B (em_stack em) vars (em_guards em)" for vars
    unfolding effect_state(1) [OF assms(1)] by (rule level_events_cong) (use effect_state(2) [OF assms(1)] assms(3) in auto)
  with effect_trans [OF assms(1,2)] show ?thesis by simp
qed

lemma effect_level_mset:
  assumes "effect (set A) em em' (\<lambda>vars. level_events cx r A (em_stack em) vars (em_guards em))" and "mset A = mset B"
  shows "effect (set B) em em' (\<lambda>vars. level_events cx r B (em_stack em) vars (em_guards em))"
  using assms(1) level_events_mset [OF assms(2)] mset_eq_setD [OF assms(2)] by simp

lemma effect_alive:
  assumes "effect (set (alive S em)) em em' M" and "em_ok cx r S em"
  shows "effect (set S) em em' M"
  using assms by (auto simp: effect_def marks_after_def alive_def)


lemma emit_nest_effect:
  assumes "emit_nest cx rec varStmts items p lo hi r em = Inr em'"
    and "\<not> em_failed em'" and "level_spec cx (Suc r) rec" and "nest_ok cx" and "r < length (ps_pivotDim (cg_sched cx))"
    and "p = ps_pivotDim (cg_sched cx) ! r" and "tiles_ok cx" and "em_ok cx r (map snd items @ varStmts) em"
    and "\<And>i. i \<in> set (map snd items @ varStmts) \<Longrightarrow> \<not> em_emitted em ! i" and "0 \<le> lo" and "lo \<le> hi"
    and "\<And>i. i \<in> set varStmts \<Longrightarrow> dimPinnedAt (scop_statements (cg_scop cx) ! i) p = None
      \<and> st_ownLower (scop_statements (cg_scop cx) ! i) ! p = lo \<and> st_ownUpper (scop_statements (cg_scop cx) ! i) ! p = hi"
    and "\<And>v i. (v, i) \<in> set items \<Longrightarrow> dimPinnedAt (scop_statements (cg_scop cx) ! i) p = Some v \<and> pinned_from cx r (scop_statements (cg_scop cx) ! i)"
  shows "effect (set (map snd items @ varStmts)) em em'
    (\<lambda>vars. level_events cx r (map snd items @ varStmts) (em_stack em) vars (em_guards em))"
proof -
  from assms(1) obtain bef reentry aft em1 em2 where pl: "place_items cx r lo hi items = Inr (bef, reentry, aft)"
    and e1: "emitConstItems cx bef em = Inr em1"
    and e2: "(if reentry = [] then emitLoop cx rec varStmts p lo hi r em1 else emitSplitNest cx rec varStmts p lo hi r reentry em1) = Inr em2"
    and e3: "(if em_failed em2 then Inr em2 else emitConstItems cx aft em2) = Inr em'"
    by (auto simp: emit_nest_def mlk_try_Inr_iff)
  note parts = place_items_parts [OF pl]
  let ?B = "map snd bef" and ?U = "varStmts @ map snd reentry" and ?A = "map snd aft"
  have f2: "\<not> em_failed em2" using e3 assms(2) by (auto split: if_splits)
  have f1: "\<not> em_failed em1"
    using e2 emitLoop_sticky [OF _ assms(3)] emitSplitNest_sticky [OF _ assms(3)] f2 by (auto split: if_splits)
  have ms: "mset (?B @ ?U @ ?A) = mset (map snd items @ varStmts)" using parts(1) by (simp add: mset_map ac_simps)
  have ok: "em_ok cx r (?B @ ?U @ ?A) em" by (rule em_ok_mset [OF assms(8) ms])
  then have d: "distinct (?B @ ?U @ ?A)" by (simp add: em_ok_def)
  have it: "set bef \<subseteq> set items" "set reentry \<subseteq> set items" "set aft \<subseteq> set items"
    using mset_eq_setD [of items "bef @ reentry @ aft"] parts(1) by auto
  have pin: "pinned_from cx r (scop_statements (cg_scop cx) ! i)" if "i \<in> snd ` set items" for i using that assms(13) by auto
  have E1: "effect (set ?B) em em1 (\<lambda>vars. level_events cx r ?B (em_stack em) vars (em_guards em))"
    using emitConstItems_effect [OF e1 f1 assms(4) em_ok_sub [OF ok]] pin it(1) d by (auto simp: image_subset_iff)
  have ok1: "em_ok cx r (?U @ ?A) em1"
    by (rule em_ok_step [OF ok]) (use E1 d in \<open>auto simp: effect_def emits_def\<close>)
  have ready: "loop_ready cx r p lo hi varStmts reentry em1"
  proof -
    have "\<not> em_emitted em1 ! i" if i: "i \<in> set ?U" for i
    proof -
      have "i \<notin> set ?B" "i < length (em_emitted em)" using d ok i by (auto simp: em_ok_def)
      moreover have "i \<in> set (map snd items @ varStmts)" using i it(2) by auto
      ultimately show ?thesis using effect_state(3) [OF E1] assms(9) by blast
    qed
    moreover have "em_ok cx r ?U em1" by (rule em_ok_sub [OF ok1]) (use d in auto)
    ultimately show ?thesis unfolding loop_ready_def Let_def using assms(10-13) parts(2) it(2) by blast
  qed
  have E2: "effect (set ?U) em1 em2 (\<lambda>vars. level_events cx r ?U (em_stack em1) vars (em_guards em1))"
  proof (cases "reentry = []")
    case True
    have l: "emitLoop cx rec varStmts p lo hi r em1 = Inr em2" using e2 True by simp
    have okv: "em_ok cx r varStmts em1" and al: "alive varStmts em1 = varStmts"
      using ready by (auto simp: loop_ready_def Let_def True alive_def)
    have "effect (set varStmts) em1 em2 (\<lambda>vars. \<Sum>v\<leftarrow>[lo..hi]. below cx r p varStmts em1 vars v)"
      using emitLoop_effect [OF l f2 assms(3) em_ok_pivot [OF okv assms(4,5)] assms(4-7,10,11)] by (simp only: al)
    then have "effect (set varStmts) em1 em2 (\<lambda>vars. level_events cx r varStmts (em_stack em1) vars (em_guards em1))"
      by (rule effect_cong) (rule varying_sum [OF okv assms(4-6) _ order_refl assms(12)])
    then show ?thesis by (simp add: True)
  next
    case False
    then have "emitSplitNest cx rec varStmts p lo hi r reentry em1 = Inr em2" using e2 by simp
    then show ?thesis by (rule emitSplitNest_effect [OF _ f2 assms(3-7) ready])
  qed
  have E3: "effect (set ?A) em2 em' (\<lambda>vars. level_events cx r ?A (em_stack em2) vars (em_guards em2))"
  proof -
    have e: "emitConstItems cx aft em2 = Inr em'" using e3 f2 by simp
    have "em_ok cx r ?A em2" by (rule em_ok_step [OF ok1]) (use E2 d in \<open>auto simp: effect_def emits_def\<close>)
    from emitConstItems_effect [OF e assms(2,4) this] pin it(3) show ?thesis by (auto simp: image_subset_iff)
  qed
  have "effect (set (?B @ ?U)) em em2 (\<lambda>vars. level_events cx r (?B @ ?U) (em_stack em) vars (em_guards em))"
    by (rule effect_chain [OF E1 E2]) (use d in auto)
  moreover have "set (?B @ ?U) \<inter> set ?A = {}" using d by auto
  ultimately have "effect (set ((?B @ ?U) @ ?A)) em em' (\<lambda>vars. level_events cx r ((?B @ ?U) @ ?A) (em_stack em) vars (em_guards em))"
    using effect_chain [OF _ E3] by blast
  then show ?thesis by (rule effect_level_mset) (use ms in simp)
qed


lemma emit_row_effect:
  assumes "emit_row cx rec S r em = Inr em'" and "\<not> em_failed em'" and "level_spec cx (Suc r) rec" and "nest_ok cx"
    and "r < length (ps_pivotDim (cg_sched cx))" and "tiles_ok cx" and "em_ok cx r S em" and "\<And>i. i \<in> set S \<Longrightarrow> \<not> em_emitted em ! i"
  shows "effect (set S) em em' (\<lambda>vars. level_events cx r S (em_stack em) vars (em_guards em))"
proof -
  let ?p = "ps_pivotDim (cg_sched cx) ! r" and ?ss = "scop_statements (cg_scop cx)"
  let ?k = "\<lambda>items varStmts. if varStmts = [] then emitConstItems cx items em
            else (case common_range cx ?p varStmts INT64_MIN INT64_MAX of
                None \<Rightarrow> Inr (em_fail em)
              | Some (lo, hi) \<Rightarrow>
                  if lo = INT64_MIN \<or> hi = INT64_MAX \<or> lo > hi then Inr (em_fail em)
                  else emit_nest cx rec varStmts items ?p lo hi r em)"
  from assms(1) obtain co where co: "classify cx (ps_rows (cg_sched cx) ! r) ?p S = Inr co"
    and ko: "(case co of None \<Rightarrow> Inr (em_fail em) | Some (items, varStmts) \<Rightarrow> ?k items varStmts) = Inr em'"
    by (auto simp: emit_row_def Let_def mlk_try_Inr_iff)
  from ko assms(2) obtain items varStmts where cv: "co = Some (items, varStmts)" and k: "?k items varStmts = Inr em'"
    by (cases co) (auto simp: em_fail_def)
  note c = co [unfolded cv]
  have ms: "mset (map snd items @ varStmts) = mset S" using classify_mset [OF c] by simp
  then have sub: "set (map snd items @ varStmts) = set S" by (rule mset_eq_setD)
  have ok: "em_ok cx r (map snd items @ varStmts) em" by (rule em_ok_mset [OF assms(7) ms])
  have len: "i < length ?ss" if "i \<in> set S" for i using assms(7) that by (auto simp: em_ok_def)
  have fits: "row_fits cx r (?ss ! i)" if "i \<in> set S" for i by (rule nest_okD(3) [OF assms(4) len [OF that] assms(5)])
  have item: "dimPinnedAt (?ss ! i) ?p = Some v \<and> pinned_from cx r (?ss ! i)" if "(v, i) \<in> set items" for v i
  proof -
    have "i \<in> set S" using that sub by force
    from row_fitsD(2) [OF fits [OF this] refl classify_kinds(1) [OF c that]] show ?thesis
      using pinned_from_row [OF assms(5)] by blast
  qed
  have var: "dimPinnedAt (?ss ! i) ?p = None" if "i \<in> set varStmts" for i
  proof -
    have "i \<in> set S" using that sub by auto
    from row_fitsD(1) [OF fits [OF this] refl classify_kinds(2) [OF c that]] show ?thesis .
  qed
  have "effect (set (map snd items @ varStmts)) em em' (\<lambda>vars. level_events cx r (map snd items @ varStmts) (em_stack em) vars (em_guards em))"
  proof (cases "varStmts = []")
    case True
    have e: "emitConstItems cx items em = Inr em'" using k True by simp
    have "em_ok cx r (map snd items) em" using ok True by simp
    moreover have "pinned_from cx r (?ss ! i)" if "i \<in> snd ` set items" for i using item that by force
    ultimately show ?thesis using emitConstItems_effect [OF e assms(2,4)] by (simp add: True)
  next
    case False
    then obtain j where j: "j \<in> set varStmts" by (cases varStmts) auto
    from k False assms(2) obtain lo hi where cr: "common_range cx ?p varStmts INT64_MIN INT64_MAX = Some (lo, hi)"
      and lim: "lo \<noteq> INT64_MIN" "hi \<noteq> INT64_MAX" "lo \<le> hi" and e: "emit_nest cx rec varStmts items ?p lo hi r em = Inr em'"
      by (auto simp: em_fail_def split: option.splits if_splits)
    let ?a = "st_ownLower (?ss ! j) ! ?p" and ?b = "st_ownUpper (?ss ! j) ! ?p"
    have jS: "j \<in> set S" using j sub by auto
    have same: "st_ownLower (?ss ! i) ! ?p = ?a \<and> st_ownUpper (?ss ! i) ! ?p = ?b" if i: "i \<in> set varStmts" for i
    proof -
      have "i \<in> set S" using i sub by auto
      then have "?ss ! i \<in> set ?ss" "?ss ! j \<in> set ?ss" using len jS by auto
      moreover have "?p \<in> set (ps_pivotDim (cg_sched cx))" using assms(5) by simp
      ultimately have "same_range ?p (?ss ! i) (?ss ! j)" using assms(4) by (simp add: nest_ok_def Let_def list_all_iff)
      then show ?thesis using var [OF i] var [OF j] by (simp add: same_range_def)
    qed
    have r: "lo = ?a" "hi = ?b" using common_range_values [OF cr same] False lim(1,2) by (auto split: if_splits)
    have low: "0 \<le> lo"
    proof -
      have b: "box_ok (scop_depth (cg_scop cx)) (?ss ! j)" by (rule nest_okD(2) [OF assms(4) len [OF jS]])
      have "?p < length (st_ownLower (?ss ! j))" by (rule common_range_length [OF cr j])
      then show ?thesis using b r by (simp add: box_ok_def)
    qed
    show ?thesis
      by (rule emit_nest_effect [OF e assms(2-5) refl assms(6) ok _ low lim(3)]) (use assms(8) sub var same r item in auto)
  qed
  then show ?thesis by (rule effect_level_mset) (rule ms)
qed

lemma level_step_spec:
  assumes "nest_ok cx" and "tiles_ok cx" and "r < length (ps_pivotDim (cg_sched cx)) \<Longrightarrow> level_spec cx (Suc r) rec"
  shows "level_spec cx r (\<lambda>S em. level_step cx rec S r em)"
  unfolding level_spec_def
proof (intro conjI allI impI)
  fix S em em' assume "level_step cx rec S r em = Inr em'" "em_failed em"
  then show "em_failed em'" by (simp add: level_step_def)
next
  fix S em em' assume e: "level_step cx rec S r em = Inr em'" and f: "\<not> em_failed em'" and ok: "em_ok cx r S em"
  let ?A = "alive S em"
  have f0: "\<not> em_failed em" using e f by (auto simp: level_step_def)
  have okA: "em_ok cx r ?A em" by (rule em_ok_sub [OF ok]) (use ok in \<open>auto simp: alive_def em_ok_def\<close>)
  have neA: "\<not> em_emitted em ! i" if "i \<in> set ?A" for i using that by (simp add: alive_def)
  have len: "length (ps_rows (cg_sched cx)) = length (ps_pivotDim (cg_sched cx))" using assms(1) by (simp add: nest_ok_def Let_def)
  have "effect (set ?A) em em' (\<lambda>vars. level_events cx r ?A (em_stack em) vars (em_guards em))"
  proof (cases "?A = []")
    case True
    then have "em' = em" using e f0 by (simp add: level_step_def alive_def)
    then show ?thesis using True effect_refl by simp
  next
    case False
    show ?thesis
    proof (cases "r < length (ps_pivotDim (cg_sched cx))")
      case True
      then have "emit_row cx rec ?A r em = Inr em'" using e f0 False len by (simp add: level_step_def alive_def Let_def)
      from emit_row_effect [OF this f assms(3) [OF True] assms(1) True assms(2) okA neA] show ?thesis .
    next
      case F: False
      then have k: "fold_res (emit_marked cx) (sort_key (orig_order cx) ?A) em = Inr em'"
        using e f0 False len by (simp add: level_step_def alive_def Let_def)
      have ms: "mset (sort_key (orig_order cx) ?A) = mset ?A" by simp
      have pin: "pinned_from cx r s" for s using F by (simp add: pinned_from_def)
      from fold_marked_effect [OF k f assms(1) em_ok_mset [OF okA ms] pin] ms show ?thesis by (rule effect_level_mset)
    qed
  qed
  from effect_alive [OF this ok] show "effect (set S) em em' (\<lambda>vars. level_events cx r ?A (em_stack em) vars (em_guards em))" .
qed

lemma emitLevel_spec:
  assumes "nest_ok cx" and "tiles_ok cx" and "n + r = length (ps_pivotDim (cg_sched cx))"
  shows "level_spec cx r (\<lambda>S em. emitLevel n cx S r em)"
  using assms(3)
proof (induction n arbitrary: r)
  case 0
  have "level_spec cx r (\<lambda>S em. level_step cx (\<lambda>ss em. Inl UndefinedBehaviour) S r em)"
    by (rule level_step_spec [OF assms(1,2)]) (use 0 in simp)
  then show ?case by simp
next
  case (Suc n)
  have "level_spec cx (Suc r) (\<lambda>S em. emitLevel n cx S (Suc r) em)" using Suc by simp
  from level_step_spec [OF assms(1,2) this] show ?case by simp
qed

end
