(* ===== verification/Codegen_Properties.thy ===== *)
theory Codegen_Properties
  imports Codegen_Nest Pluto_Properties
begin

text \<open>
  The generated kernel and the instances of its SCoP: the kernel performs every instance once when the
  schedule is in the supported class, and what goes wrong outside of it.
\<close>

section \<open>The iteration domain\<close>












section \<open>The whole kernel\<close>






section \<open>From the scheduler to the kernel\<close>







text \<open>The copy loop over eight elements in tiles of three: two full tiles and a partial one.\<close>

definition empty_module :: kernel_module where
  "empty_module = \<lparr>km_buffers = [], km_nodes = [], km_name = 0, km_scheduleParams = []\<rparr>"


section \<open>Outside of the class\<close>

text \<open>
  Two loops over eight or fewer elements, \<open>T[i] = A[i]\<close> and \<open>U[i] = B[i]\<close>, under the schedule that
  fuses them: the statement of a loop of one iteration is emitted at the root, where the walk runs a
  Compute without its Store; and loops of different extents are fused over the common range.
\<close>

definition two_loops :: "int \<Rightarrow> int \<Rightarrow> kernel_node list" where
  "two_loops a b = [copy_from 0 0, store_to 1 0, (loop_over [0, 1])\<lparr>kn_end := a\<rparr>,
     copy_from 2 0, store_to 3 0, (loop_over [3, 4])\<lparr>kn_end := b\<rparr>]"

definition untiled :: tiled_info where
  "untiled = \<lparr>ti_tiled = False, ti_bandEnd = 0, ti_tileSizes = []\<rparr>"

definition performed :: "kernel_node list \<Rightarrow> schedule_row list \<Rightarrow> (event list \<Rightarrow> bool) \<Rightarrow> bool" where
  "performed nodes rows P \<longleftrightarrow> result_ok (extractScop nodes) (\<lambda>sc.
     result_ok (emitScheduledKernel sc (schedule_of (scop_depth sc) (length (scop_statements sc)) rows) untiled empty_module [''i'']) (\<lambda>(km, _).
       is_multi_dim km \<and> (case exec_forest 9 trace_env km [] of Some (Inr tr) \<Rightarrow> P tr | _ \<Rightarrow> False)))"

lemma root_statement_dropped: "performed (two_loops 1 3) [[[0, 1], [0, 1]]] (\<lambda>tr. map (\<lambda>(_, buf, i, _). (buf, i)) tr = [(3, 0), (3, 1), (3, 2)])"
  by code_simp

lemma fused_ranges_intersected: "performed (two_loops 5 3) [[[0, 1], [0, 1]]] (\<lambda>tr. map (\<lambda>(_, buf, i, _). (buf, i)) tr
   = [(1, 0), (3, 0), (1, 1), (3, 1), (1, 2), (3, 2)])"
  by code_simp

text \<open>
  The order is not kept at ties either. In the loop over \<open>i\<close> of two iterations, \<open>T[4 i + j] = A[4 i + j]\<close>
  for \<open>j\<close> below 4 comes before \<open>U[4 i] = T[4 i]\<close>. The dependence is found and the schedule \<open>(i, j)\<close> is
  legal, since program order decides the tie at \<open>j = 0\<close>. The consumer is hoisted before the loop over
  \<open>j\<close>, because its row value is the lower bound, and reads the element before it is written.
\<close>

definition tie_arena :: "kernel_node list" where
  "tie_arena = [(copy_from 0 0)\<lparr>kn_exprs := [\<lparr>kx_op = Op_Neg, kx_a = (elem_at 0 0)\<lparr>opnd_idxCoeffs := [4, 1]\<rparr>, kx_b = new_operand\<rparr>]\<rparr>,
     (store_to 1 0)\<lparr>kn_outIndexCoeffs := [4, 1]\<rparr>, (loop_over [0, 1])\<lparr>kn_end := 4\<rparr>,
     (copy_from 1 0)\<lparr>kn_exprs := [\<lparr>kx_op = Op_Neg, kx_a = (elem_at 1 0)\<lparr>opnd_idxCoeffs := [4, 1]\<rparr>, kx_b = new_operand\<rparr>]\<rparr>,
     (store_to 2 0)\<lparr>kn_outIndexCoeffs := [4, 1]\<rparr>, (loop_over [3, 4])\<lparr>kn_end := 1\<rparr>, (loop_over [2, 5])\<lparr>kn_end := 2\<rparr>]"

lemma consumer_hoisted:
  "result_ok (extractScop tie_arena) (\<lambda>sc. result_ok (computeDependences sc) (\<lambda>deps. deps \<noteq> []
     \<and> verifyScheduleLegality sc deps (schedule_of 2 2 [[[0, 1, 0], [0, 1, 0]], [[0, 0, 1], [0, 0, 1]]]) = Inr True))
   \<and> performed tie_arena [[[0, 1, 0], [0, 1, 0]], [[0, 0, 1], [0, 0, 1]]] (\<lambda>tr. map (\<lambda>(_, buf, i, _). (buf, i)) tr
     = [(2, 0), (1, 0), (1, 1), (1, 2), (1, 3), (2, 4), (1, 4), (1, 5), (1, 6), (1, 7)])"
  by code_simp

end
